(* ===== verification/Ekos_Prelude.thy ===== *)
theory Ekos_Prelude
  imports
    Main
    "HOL-Library.Word"
    "HOL-Library.Multiset"
    "HOL-Library.List_Lexorder"
    "HOL-Library.Char_ord"
    "HOL-Library.Product_Lexorder"
    "HOL-Library.Option_ord"
    "HOL-Library.Sublist"
begin

text \<open>
  Shared vocabulary of the development: bytes and fixed-width integer encodings (the
  \<open>to_le_bytes\<close> / \<open>to_be_bytes\<close> calls of the storage engine), ASCII case folding
  (\<open>eq_ignore_ascii_case\<close>), sorted association lists (Rust's \<open>BTreeMap\<close>), traversal of a
  list with an operation that can fail (the \<open>?\<close> of a loop body), and the generic lemmas on
  them.  The collection \<open>codec\<close> holds length and round-trip facts of encoders, \<open>frame\<close> holds
  the facts that say what an operation leaves alone.
\<close>

named_theorems codec
named_theorems frame

type_synonym byte = "8 word"
type_synonym bytes = "byte list"

section \<open>Fixed-width integers as bytes\<close>

fun le_bytes :: "nat \<Rightarrow> nat \<Rightarrow> bytes" where
  "le_bytes 0 x = []"
| "le_bytes (Suc n) x = word_of_nat x # le_bytes n (x div 256)"

fun le_val :: "bytes \<Rightarrow> nat" where
  "le_val [] = 0"
| "le_val (b # bs) = unat b + 256 * le_val bs"

definition be_bytes :: "nat \<Rightarrow> nat \<Rightarrow> bytes" where
  "be_bytes n x = rev (le_bytes n x)"

definition be_val :: "bytes \<Rightarrow> nat" where
  "be_val bs = le_val (rev bs)"

lemma length_le_bytes [simp, codec]: "length (le_bytes n x) = n"
  by (induction n x rule: le_bytes.induct) auto

lemma length_be_bytes [simp, codec]: "length (be_bytes n x) = n"
  by (simp add: be_bytes_def)

lemma le_val_le_bytes: "le_val (le_bytes n x) = x mod 256 ^ n"
proof (induction n x rule: le_bytes.induct)
  case (1 x)
  then show ?case by simp
next
  case (2 n x)
  have "unat (word_of_nat x :: byte) = x mod 256"
    by (simp add: unat_of_nat)
  then show ?case
    using "2.IH" mod_mult2_eq [of x 256 "256 ^ n"] by simp
qed

lemma le_val_le_bytes_id [codec]: "x < 256 ^ n \<Longrightarrow> le_val (le_bytes n x) = x"
  by (simp add: le_val_le_bytes)

lemma be_val_be_bytes_id [codec]: "x < 256 ^ n \<Longrightarrow> be_val (be_bytes n x) = x"
  by (simp add: be_val_def be_bytes_def le_val_le_bytes)

lemma le_bytes_inj: "x < 256 ^ n \<Longrightarrow> y < 256 ^ n \<Longrightarrow> le_bytes n x = le_bytes n y \<Longrightarrow> x = y"
  by (metis le_val_le_bytes_id)

lemma be_bytes_inj: "x < 256 ^ n \<Longrightarrow> y < 256 ^ n \<Longrightarrow> be_bytes n x = be_bytes n y \<Longrightarrow> x = y"
  by (metis be_val_be_bytes_id)

lemma le_val_bound: "le_val bs < 256 ^ length bs"
proof (induction bs)
  case Nil
  then show ?case by simp
next
  case (Cons b bs)
  have "unat b < 256" using unsigned_less [of b, where ?'a = nat] by simp
  moreover have "256 * (le_val bs + 1) \<le> 256 * 256 ^ length bs"
    using Cons.IH by (intro mult_le_mono2) simp
  ultimately show ?case by simp
qed

section \<open>ASCII case folding\<close>

definition is_ascii_upper :: "char \<Rightarrow> bool" where
  "is_ascii_upper c \<longleftrightarrow> CHR ''A'' \<le> c \<and> c \<le> CHR ''Z''"

definition ascii_lower :: "char \<Rightarrow> char" where
  "ascii_lower c = (if is_ascii_upper c then char_of (of_char c + (32 :: nat)) else c)"

definition lower :: "string \<Rightarrow> string" where
  "lower s = map ascii_lower s"

definition eq_ignore_ascii_case :: "string \<Rightarrow> string \<Rightarrow> bool" where
  "eq_ignore_ascii_case s t \<longleftrightarrow> lower s = lower t"

lemma eq_ignore_ascii_case_refl [simp]: "eq_ignore_ascii_case s s"
  by (simp add: eq_ignore_ascii_case_def)

definition starts_with :: "'a list \<Rightarrow> 'a list \<Rightarrow> bool" where
  "starts_with s p \<longleftrightarrow> take (length p) s = p"

lemma starts_with_append [simp]: "starts_with (p @ s) p"
  by (simp add: starts_with_def)

lemma starts_with_iff: "starts_with s p \<longleftrightarrow> (\<exists>t. s = p @ t)"
  by (auto simp: starts_with_def) (metis append_take_drop_id)

text \<open>\<open>join\<close> of a vector of strings.\<close>

fun join_with :: "'a list \<Rightarrow> 'a list list \<Rightarrow> 'a list" where
  "join_with sep [] = []"
| "join_with sep [s] = s"
| "join_with sep (s # ss) = s @ sep @ join_with sep ss"

lemma join_with_Cons: "ss \<noteq> [] \<Longrightarrow> join_with sep (s # ss) = s @ sep @ join_with sep ss"
  by (cases ss) auto

section \<open>Splitting at a separator\<close>

lemma takeWhile_stop: "\<forall>c \<in> set a. P c \<Longrightarrow> \<not> P x \<Longrightarrow> takeWhile P (a @ x # s) = a"
  by (induction a) auto

lemma split_at_sep:
  assumes "x \<notin> set a" "x \<notin> set b" "a @ x # s = b @ x # t"
  shows "a = b \<and> s = t"
proof -
  have "takeWhile (\<lambda>c. c \<noteq> x) (a @ x # s) = a" "takeWhile (\<lambda>c. c \<noteq> x) (b @ x # t) = b"
    using assms(1,2) by (auto intro!: takeWhile_stop)
  then show ?thesis using assms(3) by simp
qed

lemma join_with_inj:
  assumes "length as = length bs" "join_with [x] as = join_with [x] bs"
    "\<And>a. a \<in> set as \<union> set bs \<Longrightarrow> x \<notin> set a"
  shows "as = bs"
  using assms
proof (induction as bs rule: list_induct2)
  case (Cons a as b bs)
  show ?case
  proof (cases "as = []")
    case True
    then show ?thesis using Cons.hyps Cons.prems by simp
  next
    case False
    then have "bs \<noteq> []" using Cons.hyps by auto
    then have "a @ x # join_with [x] as = b @ x # join_with [x] bs"
      using Cons.prems(1) False by (simp add: join_with_Cons)
    moreover have "x \<notin> set a" "x \<notin> set b" using Cons.prems(2) by simp_all
    ultimately have ab: "a = b \<and> join_with [x] as = join_with [x] bs" using split_at_sep by metis
    then have "as = bs" by (intro Cons.IH) (use Cons.prems(2) in auto)
    with ab show ?thesis by simp
  qed
qed simp

section \<open>File names\<close>

text \<open>
  \<open>Path::with_extension\<close>: in the last component, what follows the last dot is replaced; a dot in
  first position does not start an extension.
\<close>

definition file_name :: "string \<Rightarrow> string" where
  "file_name k = rev (takeWhile (\<lambda>c. c \<noteq> CHR ''/'') (rev k))"

definition dir_name :: "string \<Rightarrow> string" where
  "dir_name k = rev (dropWhile (\<lambda>c. c \<noteq> CHR ''/'') (rev k))"

definition file_stem :: "string \<Rightarrow> string" where
  "file_stem n =
     (let r = dropWhile (\<lambda>c. c \<noteq> CHR ''.'') (rev n)
      in if r = [] \<or> tl r = [] then n else rev (tl r))"

definition with_extension :: "string \<Rightarrow> string \<Rightarrow> string" where
  "with_extension k ext = dir_name k @ file_stem (file_name k) @ ''.'' @ ext"

lemma dir_name_file_name: "dir_name k @ file_name k = k"
  by (simp add: dir_name_def file_name_def flip: rev_append)

section \<open>Sorted association lists\<close>

text \<open>
  \<open>BTreeMap::insert\<close>: keys stay in ascending order, an existing key is overwritten.
\<close>

fun bt_insert :: "'k::linorder \<Rightarrow> 'v \<Rightarrow> ('k \<times> 'v) list \<Rightarrow> ('k \<times> 'v) list" where
  "bt_insert k v [] = [(k, v)]"
| "bt_insert k v (p # m) =
     (if k < fst p then (k, v) # p # m
      else if fst p = k then (k, v) # m
      else p # bt_insert k v m)"

definition bt_sorted :: "('k::linorder \<times> 'v) list \<Rightarrow> bool" where
  "bt_sorted m \<longleftrightarrow> sorted_wrt (<) (map fst m)"

lemma bt_sorted_Nil [simp]: "bt_sorted []"
  by (simp add: bt_sorted_def)

lemma bt_sorted_Cons: "bt_sorted (p # m) \<longleftrightarrow> (\<forall>q \<in> set m. fst p < fst q) \<and> bt_sorted m"
  by (auto simp: bt_sorted_def)

lemma set_fst_bt_insert: "fst ` set (bt_insert k v m) = insert k (fst ` set m)"
  by (induction m) auto

lemma bt_insert_sorted [simp]: "bt_sorted m \<Longrightarrow> bt_sorted (bt_insert k v m)"
proof (induction m)
  case Nil
  then show ?case by (simp add: bt_sorted_Cons)
next
  case (Cons p m)
  have "\<forall>q \<in> set (bt_insert k v m). fst q = k \<or> fst q \<in> fst ` set m"
    using set_fst_bt_insert [of k v m] by auto
  with Cons show ?case
    by (fastforce simp: bt_sorted_Cons not_less)
qed

lemma map_of_bt_insert: "map_of (bt_insert k v m) = (map_of m)(k \<mapsto> v)"
  by (induction m) (auto simp: fun_upd_twist)

lemma bt_insert_nonempty [simp]: "bt_insert k v m \<noteq> []"
  by (cases m) auto

lemma bt_sorted_distinct: "bt_sorted m \<Longrightarrow> distinct (map fst m)"
  by (simp add: bt_sorted_def strict_sorted_iff)

lemma set_bt_insert:
  "bt_sorted m \<Longrightarrow> set (bt_insert k v m) = insert (k, v) {q \<in> set m. fst q \<noteq> k}"
proof (induction m)
  case Nil
  then show ?case by simp
next
  case (Cons p m)
  then show ?case by (auto simp: bt_sorted_Cons)
qed

lemma bt_sorted_eqI:
  assumes "bt_sorted m" "bt_sorted m'" "set m = set m'"
  shows "m = m'"
proof (rule map_sorted_distinct_set_unique [where f = fst])
  show "inj_on fst (set m \<union> set m')"
    using bt_sorted_distinct [OF assms(1)] assms(3) by (simp add: distinct_map)
qed (use assms in \<open>auto simp: bt_sorted_def strict_sorted_iff\<close>)

lemma map_of_rev_distinct: "distinct (map fst xs) \<Longrightarrow> map_of (rev xs) = map_of xs"
  by (subst map_of_inject_set) (auto simp: rev_map [symmetric])

lemma sorted_le_last: "sorted xs \<Longrightarrow> x \<in> set xs \<Longrightarrow> x \<le> last xs"
  by (induction xs) auto

section \<open>Loops that stop at the first error\<close>

fun map_res :: "('a \<Rightarrow> 'e + 'b) \<Rightarrow> 'a list \<Rightarrow> 'e + 'b list" where
  "map_res f [] = Inr []"
| "map_res f (x # xs) =
     (case f x of Inl e \<Rightarrow> Inl e
      | Inr y \<Rightarrow> (case map_res f xs of Inl e \<Rightarrow> Inl e | Inr ys \<Rightarrow> Inr (y # ys)))"

fun fold_res :: "('a \<Rightarrow> 's \<Rightarrow> 'e + 's) \<Rightarrow> 'a list \<Rightarrow> 's \<Rightarrow> 'e + 's" where
  "fold_res f [] s = Inr s"
| "fold_res f (x # xs) s = (case f x s of Inl e \<Rightarrow> Inl e | Inr s' \<Rightarrow> fold_res f xs s')"

lemma map_res_all: "(\<And>x. x \<in> set xs \<Longrightarrow> f x = Inr (g x)) \<Longrightarrow> map_res f xs = Inr (map g xs)"
  by (induction xs) auto

lemma map_res_map: "map_res f (map g xs) = map_res (f \<circ> g) xs"
  by (induction xs) (auto split: sum.splits)

lemma map_res_length: "map_res f xs = Inr ys \<Longrightarrow> length ys = length xs"
  by (induction xs arbitrary: ys) (auto split: sum.splits)

lemma map_enumerate_snd: "map (\<lambda>p. f (snd p)) (enumerate n xs) = map f xs"
  by (induction xs arbitrary: n) auto

lemma map_enumerate_fst: "map fst (enumerate n xs) = [n..<n + length xs]"
  by (simp add: enumerate_eq_zip)

lemma set_enumerate: "set (enumerate 0 xs) = {(i, xs ! i) | i. i < length xs}"
  by (auto simp: in_set_enumerate_eq)

lemma ball_enumerate: "(\<forall>p \<in> set (enumerate 0 xs). P (case p of (i, x) \<Rightarrow> g i x)) \<longleftrightarrow>
    (\<forall>i < length xs. P (g i (xs ! i)))"
  unfolding set_enumerate by auto

lemma map_enumerate_fst_comp: "map (\<lambda>p. f (fst p)) (enumerate n xs) = map f [n..<n + length xs]"
  by (induction xs arbitrary: n) (auto simp: upt_rec)

lemma fold_res_total: "(\<And>x s. \<exists>s'. f x s = Inr s') \<Longrightarrow> \<exists>s'. fold_res f xs s = Inr s'"
proof (induction xs arbitrary: s)
  case (Cons x xs)
  obtain s1 where "f x s = Inr s1" using Cons.prems by blast
  then show ?case using Cons.IH [OF Cons.prems, of s1] by simp
qed simp

lemma fold_res_map:
  "(\<And>x s. x \<in> set xs \<Longrightarrow> f x s = g (h x) s) \<Longrightarrow> fold_res f xs s = fold_res g (map h xs) s"
  by (induction xs arbitrary: s) (auto split: sum.splits)

section \<open>Stable sorting\<close>

text \<open>
  Rust's \<open>sort_by\<close> and \<open>sort_by_key\<close> are stable; so is \<^const>\<open>sort_key\<close>.
  Selecting elements by a predicate on a sorted list gives the sorted selection.
\<close>

lemma sorted_remdups_adj_distinct: "sorted (xs :: 'a::linorder list) \<Longrightarrow> distinct (remdups_adj xs)"
  by (induction xs rule: remdups_adj.induct) (auto simp: order_less_le)

lemma filter_sort_key: "filter P (sort_key f xs) = sort_key f (filter P xs)"
proof (induction xs)
  case Nil
  then show ?case by simp
next
  case (Cons x xs)
  then show ?case by (simp add: filter_insort filter_insort_triv)
qed

lemma sort_key_mset_eq:
  assumes "mset xs = mset ys" "distinct (map f ys)"
  shows "sort_key f xs = sort_key f ys"
proof (rule map_sorted_distinct_set_unique [where f = f])
  have s: "set xs = set ys" by (rule mset_eq_setD [OF assms(1)])
  have "mset (map f xs) = mset (map f ys)" by (simp only: mset_map assms(1))
  then have "distinct (map f xs) \<longleftrightarrow> distinct (map f ys)" by (rule mset_eq_imp_distinct_iff)
  with assms(2) s have xs: "distinct (map f xs)" "set xs = set ys" by blast+
  have d: "distinct (map f (sort_key f zs))" if "distinct (map f zs)" for zs
    using that mset_eq_imp_distinct_iff [of "map f (sort_key f zs)" "map f zs"]
    by (simp only: mset_map mset_sort)
  show "inj_on f (set (sort_key f xs) \<union> set (sort_key f ys))"
    using assms(2) xs by (simp add: distinct_map)
  show "distinct (map f (sort_key f xs))" using d [OF xs(1)] .
  show "distinct (map f (sort_key f ys))" using d [OF assms(2)] .
  show "set (sort_key f xs) = set (sort_key f ys)" using xs(2) by simp
qed simp_all

lemma sort_key_map: "sort_key f (map h xs) = map h (sort_key (f \<circ> h) xs)"
proof (induction xs)
  case (Cons x xs)
  have "insort_key f (h x) (map h ys) = map h (insort_key (f \<circ> h) x ys)" for ys
    by (induction ys) auto
  with Cons show ?case by (simp add: comp_def)
qed simp

lemma sort_key_id: "sorted (map f xs) \<Longrightarrow> sort_key f xs = xs"
  by (simp add: sort_key_id_if_sorted)

lemma length_filter_sort_key [simp]: "length (filter P (sort_key f xs)) = length (filter P xs)"
  by (simp add: filter_sort_key)

lemma map_res_Inr: "map_res f xs = Inr ys \<Longrightarrow> list_all2 (\<lambda>x y. f x = Inr y) xs ys"
  by (induction xs arbitrary: ys) (auto split: sum.splits)

section \<open>Lookup by key in a list\<close>

lemma find_SomeD: "find P xs = Some x \<Longrightarrow> x \<in> set xs \<and> P x"
  by (induction xs) (auto split: if_splits)

lemma find_distinct:
  assumes "distinct (map f xs)" "x \<in> set xs"
  shows "find (\<lambda>y. f y = f x) xs = Some x"
  using assms by (induction xs) (auto simp: image_iff)

lemma find_filter_distinct:
  assumes "distinct (map f xs)"
  shows "find (\<lambda>y. f y = i) (filter P xs) =
    (case find (\<lambda>y. f y = i) xs of Some x \<Rightarrow> if P x then Some x else None | None \<Rightarrow> None)"
proof (cases "find (\<lambda>y. f y = i) xs")
  case None
  then have "find (\<lambda>y. f y = i) (filter P xs) = None" by (auto simp: find_None_iff)
  then show ?thesis using None by simp
next
  case (Some x)
  then have x: "x \<in> set xs" "f x = i" using find_SomeD [OF Some] by simp_all
  show ?thesis
  proof (cases "P x")
    case True
    have "distinct (map f (filter P xs))" by (rule distinct_map_filter [OF assms])
    from find_distinct [OF this, of x] x True Some show ?thesis by simp
  next
    case False
    have "y = x" if "y \<in> set xs" "f y = i" for y
      using assms that x by (auto simp: distinct_map inj_on_def)
    then have "find (\<lambda>y. f y = i) (filter P xs) = None" using False by (auto simp: find_None_iff)
    then show ?thesis using Some False by simp
  qed
qed

section \<open>Sequencing with early return\<close>

text \<open>
  A computation that may fail and updates a state is a function to a pair of result and state;
  \<open>st_bind\<close> is the sequencing with \<open>?\<close>: after an error nothing more runs, and the updates made
  before it stay.
\<close>

definition st_ret :: "'a \<Rightarrow> 't \<Rightarrow> ('e + 'a) \<times> 't" where
  "st_ret x s = (Inr x, s)"

definition st_lift :: "'e + 'a \<Rightarrow> 't \<Rightarrow> ('e + 'a) \<times> 't" where
  "st_lift r s = (r, s)"

definition st_bind ::
  "('t \<Rightarrow> ('e + 'a) \<times> 't) \<Rightarrow> ('a \<Rightarrow> 't \<Rightarrow> ('e + 'b) \<times> 't) \<Rightarrow> 't \<Rightarrow> ('e + 'b) \<times> 't" where
  "st_bind m k s = (case m s of (Inl e, s') \<Rightarrow> (Inl e, s') | (Inr x, s') \<Rightarrow> k x s')"

text \<open>The loop that pushes the elements a fallible test keeps.\<close>

fun st_filter :: "('a \<Rightarrow> 't \<Rightarrow> ('e + bool) \<times> 't) \<Rightarrow> 'a list \<Rightarrow> 't \<Rightarrow> ('e + 'a list) \<times> 't" where
  "st_filter f [] = st_ret []"
| "st_filter f (x # xs) =
     st_bind (f x) (\<lambda>keep. st_bind (st_filter f xs) (\<lambda>ys. st_ret (if keep then x # ys else ys)))"

text \<open>\<open>&&\<close> of two fallible tests.\<close>

definition st_and ::
  "('t \<Rightarrow> ('e + bool) \<times> 't) \<Rightarrow> ('t \<Rightarrow> ('e + bool) \<times> 't) \<Rightarrow> 't \<Rightarrow> ('e + bool) \<times> 't" where
  "st_and a b = st_bind a (\<lambda>x. if x then b else st_ret False)"

text \<open>
  A triple: from a state in \<open>P\<close> the state stays in \<open>P\<close>, and a value returned satisfies \<open>Q\<close>.
\<close>

definition st_ok :: "('t \<Rightarrow> bool) \<Rightarrow> ('t \<Rightarrow> ('e + 'a) \<times> 't) \<Rightarrow> ('a \<Rightarrow> bool) \<Rightarrow> bool" where
  "st_ok P m Q \<longleftrightarrow> (\<forall>s. P s \<longrightarrow> P (snd (m s)) \<and> (\<forall>x. fst (m s) = Inr x \<longrightarrow> Q x))"

lemma st_okI: "(\<And>s. P s \<Longrightarrow> P (snd (m s)) \<and> (\<forall>x. fst (m s) = Inr x \<longrightarrow> Q x)) \<Longrightarrow> st_ok P m Q"
  by (simp add: st_ok_def)

lemma st_okD: "st_ok P m Q \<Longrightarrow> P s \<Longrightarrow> P (snd (m s)) \<and> (\<forall>x. fst (m s) = Inr x \<longrightarrow> Q x)"
  by (simp add: st_ok_def)

lemma st_ok_ret: "Q x \<Longrightarrow> st_ok P (st_ret x) Q"
  by (simp add: st_ok_def st_ret_def)

lemma st_ok_lift: "(\<And>x. r = Inr x \<Longrightarrow> Q x) \<Longrightarrow> st_ok P (st_lift r) Q"
  by (simp add: st_ok_def st_lift_def)

lemma st_ok_bind:
  assumes "st_ok P m R" "\<And>x. R x \<Longrightarrow> st_ok P (k x) Q"
  shows "st_ok P (st_bind m k) Q"
proof (rule st_okI)
  fix s assume "P s"
  note 1 = st_okD [OF assms(1) this]
  show "P (snd (st_bind m k s)) \<and> (\<forall>x. fst (st_bind m k s) = Inr x \<longrightarrow> Q x)"
  proof (cases "m s")
    case (Pair r s')
    then show ?thesis
    proof (cases r)
      case (Inl e)
      then show ?thesis using Pair 1 by (simp add: st_bind_def)
    next
      case (Inr y)
      then show ?thesis using Pair 1 st_okD [OF assms(2) [of y], of s'] by (simp add: st_bind_def)
    qed
  qed
qed

lemma st_ok_weaken: "st_ok P m R \<Longrightarrow> (\<And>x. R x \<Longrightarrow> Q x) \<Longrightarrow> st_ok P m Q"
  by (simp add: st_ok_def)

lemma st_ok_and:
  assumes "st_ok P a (\<lambda>x. x = A)" "A \<Longrightarrow> st_ok P b (\<lambda>x. x = B)"
  shows "st_ok P (st_and a b) (\<lambda>x. x = (A \<and> B))"
  unfolding st_and_def
  by (rule st_ok_bind [OF assms(1)]) (auto intro!: st_ok_ret intro: st_ok_weaken [OF assms(2)])

lemma st_ok_filter:
  assumes "\<And>x. x \<in> set xs \<Longrightarrow> st_ok P (f x) (\<lambda>b. b = K x)"
  shows "st_ok P (st_filter f xs) (\<lambda>ys. ys = filter K xs)"
  using assms
proof (induction xs)
  case Nil
  show ?case by (simp add: st_ok_ret)
next
  case (Cons x xs)
  have tl: "st_ok P (st_filter f xs) (\<lambda>ys. ys = filter K xs)" using Cons by simp
  show ?case
    unfolding st_filter.simps
  proof (rule st_ok_bind)
    show "st_ok P (f x) (\<lambda>b. b = K x)" using Cons.prems by simp
    show "st_ok P (st_bind (st_filter f xs) (\<lambda>ys. st_ret (if b then x # ys else ys))) (\<lambda>ys. ys = filter K (x # xs))"
      if "b = K x" for b
      by (rule st_ok_bind [OF tl], rule st_ok_ret) (simp add: that)
  qed
qed

end
