(* ===== verification/Json.thy ===== *)
theory Json
  imports Ekos_Prelude
begin

text \<open>
  The payload values of the ledger: \<open>serde_json::Value\<close> as the source matches on it.
  The enum is public and its six constructors are the ones the source's \<open>match\<close>es name.
  \<open>serde_json::Number\<close> is opaque to the source (it is only compared, cloned and printed), so
  numbers are a type parameter \<open>'n\<close>.  An object is the sorted association list of a
  \<open>BTreeMap\<close> (the workspace builds \<open>serde_json\<close> without \<open>preserve_order\<close>); \<open>wf_json\<close>
  says that keys are sorted and distinct at every level, which holds of every value Rust can
  build.  Strings are lists of UTF-8 bytes (\<open>char\<close>), as \<open>str\<close> is.
\<close>

datatype 'n json =
    JNull
  | JBool bool
  | JNumber 'n
  | JString string
  | JArray "'n json list"
  | JObject "(string \<times> 'n json) list"

type_synonym 'n jmap = "(string \<times> 'n json) list"

fun wf_json :: "'n json \<Rightarrow> bool" where
  "wf_json (JArray xs) \<longleftrightarrow> list_all wf_json xs"
| "wf_json (JObject m) \<longleftrightarrow> bt_sorted m \<and> list_all (\<lambda>p. wf_json (snd p)) m"
| "wf_json _ \<longleftrightarrow> True"

text \<open>The accessors \<open>get\<close>, \<open>as_str\<close>, \<open>as_array\<close> of \<open>Value\<close> as the source uses them.\<close>

fun jget :: "'n json \<Rightarrow> string \<Rightarrow> 'n json option" where
  "jget (JObject m) k = map_of m k"
| "jget _ k = None"

fun as_str :: "'n json \<Rightarrow> string option" where
  "as_str (JString s) = Some s"
| "as_str _ = None"

fun as_array :: "'n json \<Rightarrow> 'n json list option" where
  "as_array (JArray xs) = Some xs"
| "as_array _ = None"

fun is_object :: "'n json \<Rightarrow> bool" where
  "is_object (JObject m) \<longleftrightarrow> True"
| "is_object _ \<longleftrightarrow> False"

text \<open>
  A leaf is a value that the fact model stores whole: everything but a non-empty object.
\<close>

fun is_leaf :: "'n json \<Rightarrow> bool" where
  "is_leaf (JObject m) \<longleftrightarrow> m = []"
| "is_leaf _ \<longleftrightarrow> True"

lemma wf_jsonD:
  "wf_json (JObject m) \<Longrightarrow> (k, c) \<in> set m \<Longrightarrow> wf_json c"
  by (auto simp: list_all_iff)

lemma wf_map_of: "wf_json (JObject m) \<Longrightarrow> map_of m k = Some c \<Longrightarrow> wf_json c"
  by (rule wf_jsonD, assumption, rule map_of_SomeD)

lemma wf_map_of_iff: "wf_json (JObject m) \<Longrightarrow> map_of m k = Some c \<longleftrightarrow> (k, c) \<in> set m"
  by (auto simp: bt_sorted_distinct)

lemma wf_bt_insert:
  assumes "wf_json (JObject m)" "wf_json c"
  shows "wf_json (JObject (bt_insert k c m))"
  using assms by (auto simp: list_all_iff set_bt_insert)

section \<open>The leaves of an object\<close>

text \<open>
  The leaves below a value, each with the key path that leads to it.  Two well-formed values
  with the same leaves are equal, and no leaf path is a proper prefix of another: this is what
  makes a set of leaves determine the value whatever order they come in.
\<close>

fun leaves :: "'n json \<Rightarrow> (string list \<times> 'n json) set" where
  "leaves (JObject m) =
     (if m = [] then {([], JObject [])}
      else \<Union> (set (map (\<lambda>p. (\<lambda>q. (fst p # fst q, snd q)) ` leaves (snd p)) m)))"
| "leaves v = {([], v)}"

definition map_leaves :: "'n jmap \<Rightarrow> (string list \<times> 'n json) set" where
  "map_leaves m = \<Union> (set (map (\<lambda>p. (\<lambda>q. (fst p # fst q, snd q)) ` leaves (snd p)) m))"

lemma leaves_leaf: "is_leaf v \<Longrightarrow> leaves v = {([], v)}"
  by (cases v) auto

lemma leaves_node: "\<not> is_leaf (JObject m) \<Longrightarrow> leaves (JObject m) = map_leaves m"
  by (simp add: map_leaves_def)

lemma json_cases_leaf:
  obtains (leaf) "is_leaf v" "leaves v = {([], v)}"
    | (node) m where "v = JObject m" "m \<noteq> []" "\<not> is_leaf v" "leaves v = map_leaves m"
proof (cases "is_leaf v")
  case True
  then show ?thesis using leaf leaves_leaf by blast
next
  case False
  then obtain m where m: "v = JObject m" by (cases v) auto
  with False have "leaves v = map_leaves m" by (metis leaves_node)
  then show ?thesis using node [OF m] False m by simp
qed

declare leaves.simps(1) [simp del]

lemma map_leaves_Nil [simp]: "map_leaves [] = {}"
  by (simp add: map_leaves_def)

lemma in_map_leaves:
  "(p, x) \<in> map_leaves m \<longleftrightarrow> (\<exists>k c q. p = k # q \<and> (k, c) \<in> set m \<and> (q, x) \<in> leaves c)"
    (is "?l \<longleftrightarrow> ?r")
proof
  assume ?l
  then obtain r q where "r \<in> set m" "q \<in> leaves (snd r)" "p = fst r # fst q" "x = snd q"
    by (auto simp: map_leaves_def)
  then show ?r by (metis prod.collapse)
next
  assume ?r
  then obtain k c q where r: "p = k # q" "(k, c) \<in> set m" "(q, x) \<in> leaves c" by blast
  then have "(p, x) \<in> (\<lambda>q. (fst (k, c) # fst q, snd q)) ` leaves (snd (k, c))"
    by (auto intro: rev_image_eqI)
  then show ?l unfolding map_leaves_def set_map using r(2) by blast
qed

lemma in_map_leaves_Cons:
  assumes "wf_json (JObject m)"
  shows "(k # q, x) \<in> map_leaves m \<longleftrightarrow> (\<exists>c. map_of m k = Some c \<and> (q, x) \<in> leaves c)"
  using assms by (auto simp: in_map_leaves wf_map_of_iff)

lemma leaves_nonempty: "leaves v \<noteq> {}"
proof (induction v)
  case (JObject m)
  show ?case
  proof (cases m)
    case Nil
    then show ?thesis by (simp add: leaves_leaf)
  next
    case (Cons p m')
    with JObject.IH [of p "snd p"] show ?thesis
      by (auto simp: leaves_node map_leaves_def snds.simps)
  qed
qed (auto simp: leaves_leaf)

lemma leaves_is_leaf: "(q, x) \<in> leaves v \<Longrightarrow> is_leaf x"
proof (induction v arbitrary: q)
  case (JObject m)
  show ?case
  proof (cases "is_leaf (JObject m)")
    case True
    with JObject.prems show ?thesis by (simp add: leaves_leaf)
  next
    case False
    then obtain k c q' where "(k, c) \<in> set m" "(q', x) \<in> leaves c"
      using JObject.prems by (auto simp: leaves_node in_map_leaves)
    then show ?thesis using JObject.IH [of "(k, c)" c q'] by (simp add: snds.simps)
  qed
qed (auto simp: leaves_leaf)

lemma leaves_wf: "wf_json v \<Longrightarrow> (q, x) \<in> leaves v \<Longrightarrow> wf_json x"
proof (induction v arbitrary: q)
  case (JObject m)
  show ?case
  proof (cases "is_leaf (JObject m)")
    case True
    with JObject.prems show ?thesis by (simp add: leaves_leaf)
  next
    case False
    then obtain k c q' where "(k, c) \<in> set m" "(q', x) \<in> leaves c"
      using JObject.prems by (auto simp: leaves_node in_map_leaves)
    then show ?thesis using JObject.IH [of "(k, c)" c q'] wf_jsonD [OF JObject.prems(1)]
      by (simp add: snds.simps)
  qed
qed (auto simp: leaves_leaf)

lemma map_leaves_wf: "wf_json (JObject m) \<Longrightarrow> (q, x) \<in> map_leaves m \<Longrightarrow> wf_json x"
  using leaves_wf wf_jsonD unfolding in_map_leaves by blast

lemma map_leaves_is_leaf: "(q, x) \<in> map_leaves m \<Longrightarrow> is_leaf x"
  by (auto simp: in_map_leaves dest: leaves_is_leaf)

lemma leaves_Nil_iff: "([], x) \<in> leaves v \<longleftrightarrow> is_leaf v \<and> x = v"
  by (cases v rule: json_cases_leaf) (auto simp: in_map_leaves)

lemma leaves_prefix_free:
  assumes "wf_json v" "(q, x) \<in> leaves v" "(q @ r, y) \<in> leaves v"
  shows "r = [] \<and> x = y"
  using assms
proof (induction v arbitrary: q)
  case (JObject m)
  show ?case
  proof (cases "is_leaf (JObject m)")
    case True
    with JObject.prems show ?thesis by (simp add: leaves_leaf)
  next
    case False
    then have eq: "leaves (JObject m) = map_leaves m" by (rule leaves_node)
    obtain k c q' where q: "q = k # q'" "(k, c) \<in> set m" "(q', x) \<in> leaves c"
      using JObject.prems(2) unfolding eq in_map_leaves by blast
    have "map_of m k = Some c" using JObject.prems(1) q(2) wf_map_of_iff by blast
    moreover have "(k # (q' @ r), y) \<in> map_leaves m" using JObject.prems(3) q(1) eq by simp
    ultimately have "(q' @ r, y) \<in> leaves c"
      using in_map_leaves_Cons [OF JObject.prems(1)] by auto
    moreover have "wf_json c" using JObject.prems(1) q(2) by (rule wf_jsonD)
    ultimately show ?thesis using JObject.IH [of "(k, c)" c q'] q by (simp add: snds.simps)
  qed
qed (auto simp: leaves_leaf)

lemma map_leaves_prefix_free:
  assumes "wf_json (JObject m)" "(q, x) \<in> map_leaves m" "(q @ r, y) \<in> map_leaves m"
  shows "r = [] \<and> x = y"
proof (cases "m = []")
  case True
  with assms show ?thesis by simp
next
  case False
  then have "leaves (JObject m) = map_leaves m" by (intro leaves_node) simp
  with assms show ?thesis using leaves_prefix_free [OF assms(1)] by metis
qed

lemma map_leaves_keys: "fst ` set m = {k. \<exists>q x. (k # q, x) \<in> map_leaves m}"
proof (intro set_eqI iffI)
  fix k
  assume "k \<in> fst ` set m"
  then obtain c where c: "(k, c) \<in> set m" by auto
  obtain q x where "(q, x) \<in> leaves c" using leaves_nonempty [of c] by (auto simp: ex_in_conv [symmetric])
  with c show "k \<in> {k. \<exists>q x. (k # q, x) \<in> map_leaves m}" by (auto simp: in_map_leaves)
qed (force simp: in_map_leaves)

lemma leaves_inj:
  "wf_json v \<Longrightarrow> wf_json w \<Longrightarrow> leaves v = leaves w \<Longrightarrow> v = w"
proof (induction v arbitrary: w)
  case (JObject m)
  show ?case
  proof (cases "is_leaf (JObject m) \<or> is_leaf w")
    case True
    then show ?thesis using JObject.prems(3) leaves_Nil_iff by metis
  next
    case False
    then obtain m' where w: "w = JObject m'" by (cases w) auto
    from False w have ml: "map_leaves m = map_leaves m'"
      using JObject.prems(3) leaves_node by metis
    have wf: "wf_json (JObject m)" "wf_json (JObject m')" using JObject.prems w by auto
    have dom: "fst ` set m = fst ` set m'" using map_leaves_keys [of m] map_leaves_keys [of m'] ml by simp
    have sub: "map_of m' k = Some c" if mo: "map_of m k = Some c" for k c
    proof -
      have kc: "(k, c) \<in> set m" using mo by (rule map_of_SomeD)
      then have "k \<in> fst ` set m'" using dom by force
      then obtain c' where mo': "map_of m' k = Some c'" by (metis map_of_eq_None_iff option.exhaust)
      have "(q, x) \<in> leaves c \<longleftrightarrow> (q, x) \<in> leaves c'" for q x
        using in_map_leaves_Cons [OF wf(1), of k q x] in_map_leaves_Cons [OF wf(2), of k q x]
          ml mo mo' by simp
      then have "leaves c = leaves c'" by auto
      moreover have "wf_json c" "wf_json c'" using wf mo mo' wf_map_of by blast+
      ultimately have "c = c'" using JObject.IH [of "(k, c)" c c'] kc by (simp add: snds.simps)
      then show ?thesis using mo' by simp
    qed
    have "map_of m = map_of m'"
    proof
      fix k
      show "map_of m k = map_of m' k"
        using sub [of k] dom by (cases "map_of m k") (metis map_of_eq_None_iff, simp)
    qed
    then have "set m = set m'"
      using wf wf_map_of_iff by (metis pred_equals_eq2 set_eq_iff subrelI subset_antisym surj_pair)
    then have "m = m'" using wf bt_sorted_eqI by auto
    with w show ?thesis by simp
  qed
qed (metis leaves_Nil_iff is_leaf.simps)+

lemma map_leaves_inj:
  assumes "wf_json (JObject m)" "wf_json (JObject m')" "map_leaves m = map_leaves m'"
  shows "m = m'"
proof (cases "m = [] \<or> m' = []")
  case True
  then show ?thesis
    using assms(3) map_leaves_keys [of m] map_leaves_keys [of m'] by (auto simp: map_leaves_def)
next
  case False
  then have "leaves (JObject m) = leaves (JObject m')" using assms(3) by (simp add: leaves_node)
  then show ?thesis using leaves_inj [OF assms(1,2)] by simp
qed

end
