(* ===== verification/Fact.thy ===== *)
theory Fact
  imports Json
begin

text \<open>
  The fact model of \<open>ekos/crates/ledger/src/fact.rs\<close>: attribute registry, path escaping,
  decomposition of a payload into facts, reconstruction, and the diff that a commit batch
  writes.  Text forms of UUIDs (\<open>Uuid::parse_str\<close>, \<open>Display\<close>) belong to the \<open>uuid\<close> crate
  and are the parameter \<open>U\<close>; no law about them is needed, since the source only accepts a
  string in a reference position when printing the parsed value gives the string back.
\<close>

type_synonym uuid = "128 word"

record uuid_text =
  uparse :: "string \<Rightarrow> uuid option"
  ushow :: "uuid \<Rightarrow> string"

datatype fact_op = Assert | Retract

datatype 'n fact_value =
    FNull
  | FBool bool
  | FNumber 'n
  | FString string
  | FRef uuid
  | FComposite "'n json"

record 'n fact =
  f_entity :: uuid
  f_attr :: nat
  f_pos :: "nat option"
  f_value :: "'n fact_value"

datatype fact_error =
    NotAnObject string
  | UnknownAttr nat
  | PathConflict string
  | BadPositions string
  | Panicked

section \<open>Attribute registry\<close>

text \<open>Attribute ids and array positions are \<open>u32\<close>; the source casts with \<open>as u32\<close>.\<close>

definition as_u32 :: "nat \<Rightarrow> nat" where
  "as_u32 n = n mod 2 ^ 32"

record registry =
  reg_names :: "string list"
  reg_index :: "string \<Rightarrow> nat option"

definition registry_new :: registry where
  "registry_new = \<lparr>reg_names = [], reg_index = Map.empty\<rparr>"

definition reindex :: "registry \<Rightarrow> registry" where
  "reindex reg = reg\<lparr>reg_index :=
     map_of (rev (zip (reg_names reg) (map as_u32 [0..<length (reg_names reg)])))\<rparr>"

definition intern :: "string \<Rightarrow> registry \<Rightarrow> nat \<times> registry" where
  "intern path reg =
     (case reg_index reg path of
        Some i \<Rightarrow> (i, reg)
      | None \<Rightarrow>
          (let i = as_u32 (length (reg_names reg))
           in (i, reg\<lparr>reg_names := reg_names reg @ [path],
                      reg_index := (reg_index reg)(path \<mapsto> i)\<rparr>)))"

definition reg_get :: "registry \<Rightarrow> string \<Rightarrow> nat option" where
  "reg_get reg path = reg_index reg path"

definition reg_name :: "registry \<Rightarrow> nat \<Rightarrow> string option" where
  "reg_name reg i = (if i < length (reg_names reg) then Some (reg_names reg ! i) else None)"

definition reg_len :: "registry \<Rightarrow> nat" where
  "reg_len reg = length (reg_names reg)"

section \<open>Path escaping\<close>

fun escape_segment :: "string \<Rightarrow> string" where
  "escape_segment [] = []"
| "escape_segment (c # cs) =
     (if c = CHR 0x5C then [CHR 0x5C, CHR 0x5C]
      else if c = CHR ''.'' then [CHR 0x5C, CHR ''.'']
      else [c]) @ escape_segment cs"

fun split_go :: "string \<Rightarrow> string \<Rightarrow> string list \<Rightarrow> string list" where
  "split_go [] current segments = segments @ [current]"
| "split_go (c # cs) current segments =
     (if c = CHR 0x5C then
        (case cs of [] \<Rightarrow> segments @ [current]
         | x # cs' \<Rightarrow> split_go cs' (current @ [x]) segments)
      else if c = CHR ''.'' then split_go cs [] (segments @ [current])
      else split_go cs (current @ [c]) segments)"

definition split_path :: "string \<Rightarrow> string list" where
  "split_path path = split_go path [] []"

section \<open>Decomposition\<close>

definition REF_SCALAR_ATTRS :: "string list" where
  "REF_SCALAR_ATTRS = [''id'', ''from'', ''to'', ''subject'']"

definition REF_ARRAY_ATTRS :: "string list" where
  "REF_ARRAY_ATTRS = [''evidence'']"

definition canonical_uuid :: "uuid_text \<Rightarrow> string \<Rightarrow> uuid option" where
  "canonical_uuid U s =
     (case uparse U s of None \<Rightarrow> None | Some u \<Rightarrow> if ushow U u = s then Some u else None)"

definition canonical_ref :: "uuid_text \<Rightarrow> 'n json \<Rightarrow> uuid option" where
  "canonical_ref U v = (case as_str v of None \<Rightarrow> None | Some s \<Rightarrow> canonical_uuid U s)"

fun type_name :: "'n json \<Rightarrow> string" where
  "type_name JNull = ''null''"
| "type_name (JBool _) = ''bool''"
| "type_name (JNumber _) = ''number''"
| "type_name (JString _) = ''string''"
| "type_name (JArray _) = ''array''"
| "type_name (JObject _) = ''object''"

type_synonym 'n dstate = "registry \<times> 'n fact list"

definition push_leaf :: "uuid \<Rightarrow> string \<Rightarrow> 'n fact_value \<Rightarrow> 'n dstate \<Rightarrow> 'n dstate" where
  "push_leaf e path v st =
     (let (a, reg) = intern path (fst st)
      in (reg, snd st @ [\<lparr>f_entity = e, f_attr = a, f_pos = None, f_value = v\<rparr>]))"

fun flatten :: "uuid \<Rightarrow> string \<Rightarrow> 'n json \<Rightarrow> 'n dstate \<Rightarrow> 'n dstate"
  and flatten_entries :: "uuid \<Rightarrow> string \<Rightarrow> 'n jmap \<Rightarrow> 'n dstate \<Rightarrow> 'n dstate" where
  "flatten e path (JObject m) st =
     (if m \<noteq> [] then flatten_entries e path m st
      else push_leaf e path (FComposite (JObject m)) st)"
| "flatten e path (JArray xs) st = push_leaf e path (FComposite (JArray xs)) st"
| "flatten e path JNull st = push_leaf e path FNull st"
| "flatten e path (JBool b) st = push_leaf e path (FBool b) st"
| "flatten e path (JNumber n) st = push_leaf e path (FNumber n) st"
| "flatten e path (JString s) st = push_leaf e path (FString s) st"
| "flatten_entries e path [] st = st"
| "flatten_entries e path (p # m) st =
     flatten_entries e path m
       (flatten e (path @ ''.'' @ escape_segment (fst p)) (snd p) st)"

definition scalar_ref :: "uuid_text \<Rightarrow> string \<Rightarrow> 'n json \<Rightarrow> uuid option" where
  "scalar_ref U key value =
     (if key \<in> set REF_SCALAR_ATTRS then canonical_ref U value else None)"

definition array_refs :: "uuid_text \<Rightarrow> string \<Rightarrow> 'n json \<Rightarrow> uuid list option" where
  "array_refs U key value =
     (if key \<in> set REF_ARRAY_ATTRS then
        (case value of
           JArray items \<Rightarrow> if items = [] then None else those (map (canonical_ref U) items)
         | _ \<Rightarrow> None)
      else None)"

definition push_refs :: "uuid \<Rightarrow> string \<Rightarrow> uuid list \<Rightarrow> 'n dstate \<Rightarrow> 'n dstate" where
  "push_refs e path refs st =
     (let (a, reg) = intern path (fst st)
      in (reg, snd st @ map (\<lambda>(i, u). \<lparr>f_entity = e, f_attr = a, f_pos = Some (as_u32 i),
                                          f_value = FRef u\<rparr>) (enumerate 0 refs)))"

definition decompose_entry ::
  "uuid_text \<Rightarrow> uuid \<Rightarrow> string \<times> 'n json \<Rightarrow> 'n dstate \<Rightarrow> 'n dstate" where
  "decompose_entry U e entry st =
     (let key = fst entry; value = snd entry; path = escape_segment key
      in (case scalar_ref U key value of
            Some u \<Rightarrow> push_leaf e path (FRef u) st
          | None \<Rightarrow>
              (case array_refs U key value of
                 Some refs \<Rightarrow> push_refs e path refs st
               | None \<Rightarrow> flatten e path value st)))"

definition decompose ::
  "uuid_text \<Rightarrow> uuid \<Rightarrow> 'n json \<Rightarrow> registry \<Rightarrow> fact_error + 'n fact list \<times> registry" where
  "decompose U e payload reg =
     (case payload of
        JObject m \<Rightarrow>
          (let st = fold (decompose_entry U e) m (reg, []) in Inr (snd st, fst st))
      | _ \<Rightarrow> Inl (NotAnObject (type_name payload)))"

section \<open>Reconstruction\<close>

fun value_to_json :: "uuid_text \<Rightarrow> 'n fact_value \<Rightarrow> 'n json" where
  "value_to_json U FNull = JNull"
| "value_to_json U (FBool b) = JBool b"
| "value_to_json U (FNumber n) = JNumber n"
| "value_to_json U (FString s) = JString s"
| "value_to_json U (FRef u) = JString (ushow U u)"
| "value_to_json U (FComposite v) = v"

fun insert_path :: "'n jmap \<Rightarrow> string list \<Rightarrow> 'n json \<Rightarrow> fact_error + 'n jmap" where
  "insert_path root [] value = Inl Panicked"
| "insert_path root [k] value =
     (case map_of root k of
        Some _ \<Rightarrow> Inl (PathConflict k)
      | None \<Rightarrow> Inr (bt_insert k value root))"
| "insert_path root (k # k' # rest) value =
     (case (case map_of root k of None \<Rightarrow> JObject [] | Some c \<Rightarrow> c) of
        JObject m \<Rightarrow>
          (case insert_path m (k' # rest) value of
             Inl err \<Rightarrow> Inl err
           | Inr m' \<Rightarrow> Inr (bt_insert k (JObject m') root))
      | _ \<Rightarrow> Inl (PathConflict k))"

definition positions_ok :: "'n fact list \<Rightarrow> bool" where
  "positions_ok g \<longleftrightarrow> list_all (\<lambda>(i, f). f_pos f = Some (as_u32 i)) (enumerate 0 g)"

definition group_json :: "uuid_text \<Rightarrow> string \<Rightarrow> 'n fact list \<Rightarrow> fact_error + 'n json" where
  "group_json U name grp =
     (if length grp = 1 \<and> f_pos (hd grp) = None then
        Inr (value_to_json U (f_value (hd grp)))
      else
        (let g = sort_key f_pos grp
         in if positions_ok g then Inr (JArray (map (\<lambda>f. value_to_json U (f_value f)) g))
            else Inl (BadPositions name)))"

definition group_entries ::
  "'n fact list \<Rightarrow> registry \<Rightarrow> fact_error + (string \<times> 'n fact list) list" where
  "group_entries facts reg =
     map_res (\<lambda>a. case reg_name reg a of
                     None \<Rightarrow> Inl (UnknownAttr a)
                   | Some n \<Rightarrow> Inr (n, filter (\<lambda>f. f_attr f = a) facts))
       (remdups (map f_attr facts))"

definition insert_group ::
  "uuid_text \<Rightarrow> string \<times> 'n fact list \<Rightarrow> 'n jmap \<Rightarrow> fact_error + 'n jmap" where
  "insert_group U entry root =
     (case group_json U (fst entry) (snd entry) of
        Inl err \<Rightarrow> Inl err
      | Inr j \<Rightarrow> insert_path root (split_path (fst entry)) j)"

definition reconstruct :: "uuid_text \<Rightarrow> 'n fact list \<Rightarrow> registry \<Rightarrow> fact_error + 'n json" where
  "reconstruct U facts reg =
     (case group_entries facts reg of
        Inl err \<Rightarrow> Inl err
      | Inr entries \<Rightarrow>
          (case fold_res (insert_group U) (sort_key fst entries) [] of
             Inl err \<Rightarrow> Inl err
           | Inr root \<Rightarrow> Inr (JObject root)))"

section \<open>Diff\<close>

type_synonym fact_key = "nat \<times> nat option"

definition fact_key :: "'n fact \<Rightarrow> fact_key" where
  "fact_key f = (f_attr f, f_pos f)"

definition fact_map :: "'n fact list \<Rightarrow> fact_key \<Rightarrow> 'n fact option" where
  "fact_map fs = map_of (rev (map (\<lambda>f. (fact_key f, f)) fs))"

definition diff_side ::
  "fact_op \<Rightarrow> 'n fact list \<Rightarrow> 'n fact list \<Rightarrow> (fact_op \<times> 'n fact) list" where
  "diff_side op here there =
     List.map_filter (\<lambda>k. case fact_map here k of
         None \<Rightarrow> None
       | Some f \<Rightarrow>
           (case fact_map there k of
              Some g \<Rightarrow> if f_value g = f_value f then None else Some (op, f)
            | None \<Rightarrow> Some (op, f)))
       (remdups (map fact_key here))"

definition diff :: "'n fact list \<Rightarrow> 'n fact list \<Rightarrow> (fact_op \<times> 'n fact) list" where
  "diff old new =
     sort_key (\<lambda>(op, f). (op = Assert, f_attr f, f_pos f))
       (diff_side Retract old new @ diff_side Assert new old)"


section \<open>Registry: ids are stable, distinct and reversible\<close>

definition reg_ok :: "registry \<Rightarrow> bool" where
  "reg_ok reg \<longleftrightarrow> distinct (reg_names reg) \<and> length (reg_names reg) \<le> 2 ^ 32 \<and>
     (\<forall>p i. reg_index reg p = Some i \<longleftrightarrow> i < length (reg_names reg) \<and> reg_names reg ! i = p)"

definition reg_le :: "registry \<Rightarrow> registry \<Rightarrow> bool" where
  "reg_le r r' \<longleftrightarrow> (\<exists>xs. reg_names r' = reg_names r @ xs)"

lemma reg_ok_new [simp]: "reg_ok registry_new"
  by (simp add: reg_ok_def registry_new_def)

lemma reg_le_refl [simp]: "reg_le r r"
  by (simp add: reg_le_def)

lemma reg_le_trans [trans]: "reg_le a b \<Longrightarrow> reg_le b c \<Longrightarrow> reg_le a c"
  by (auto simp: reg_le_def)

lemma reg_le_length: "reg_le r r' \<Longrightarrow> length (reg_names r) \<le> length (reg_names r')"
  by (auto simp: reg_le_def)

lemma reg_index_name: "reg_ok r \<Longrightarrow> reg_index r p = Some i \<longleftrightarrow> reg_name r i = Some p"
  by (auto simp: reg_ok_def reg_name_def)

lemma reg_index_mono:
  assumes "reg_ok r" "reg_ok r'" "reg_le r r'" "reg_index r p = Some i"
  shows "reg_index r' p = Some i"
  using assms unfolding reg_ok_def reg_le_def by (auto simp: nth_append)

lemma reg_index_None_iff: "reg_ok r \<Longrightarrow> reg_index r p = None \<longleftrightarrow> p \<notin> set (reg_names r)"
  unfolding reg_ok_def in_set_conv_nth by (metis not_None_eq)

lemma intern_le: "reg_le r (snd (intern p r))"
  by (auto simp: intern_def reg_le_def Let_def split: option.splits)

lemma intern_ok:
  assumes "reg_ok r" "length (reg_names (snd (intern p r))) \<le> 2 ^ 32"
  shows "reg_ok (snd (intern p r)) \<and> reg_index (snd (intern p r)) p = Some (fst (intern p r))"
proof (cases "reg_index r p")
  case None
  then have new: "p \<notin> set (reg_names r)" using assms(1) reg_index_None_iff by blast
  have id: "as_u32 (length (reg_names r)) = length (reg_names r)"
    using assms(2) None by (simp add: intern_def as_u32_def Let_def)
  show ?thesis
    using assms None new id unfolding reg_ok_def
    by (auto simp: intern_def Let_def nth_append less_Suc_eq split: if_splits)
next
  case (Some i)
  then show ?thesis using assms by (simp add: intern_def)
qed

lemma reindex_ok: "reg_ok r \<Longrightarrow> reindex r = r"
proof -
  assume ok: "reg_ok r"
  let ?n = "length (reg_names r)"
  have ids: "map as_u32 [0..<?n] = [0..<?n]"
    using ok by (intro map_idI) (auto simp: as_u32_def reg_ok_def)
  have "map_of (rev (zip (reg_names r) [0..<?n])) = map_of (zip (reg_names r) [0..<?n])"
    using ok by (intro map_of_rev_distinct) (simp add: reg_ok_def)
  moreover have "map_of (zip (reg_names r) [0..<?n]) p = Some i \<longleftrightarrow> reg_index r p = Some i" for p i
    using ok by (subst map_of_eq_Some_iff) (auto simp: reg_ok_def set_zip)
  then have "map_of (zip (reg_names r) [0..<?n]) = reg_index r"
    by (intro ext) (metis option.exhaust)
  ultimately show ?thesis by (simp add: reindex_def ids)
qed

section \<open>Escaping round trip\<close>

text \<open>The attribute path of a list of key segments, as decomposition builds it.\<close>

definition path_of :: "string list \<Rightarrow> string" where
  "path_of segs = join_with ''.'' (map escape_segment segs)"

lemma split_go_escape: "split_go (escape_segment s @ rest) cur segs = split_go rest (cur @ s) segs"
  by (induction s arbitrary: cur) auto

lemma split_go_path:
  "segs \<noteq> [] \<Longrightarrow>
   split_go (path_of segs) cur acc = acc @ (cur @ hd segs) # tl segs"
proof (induction segs arbitrary: cur acc)
  case Nil
  then show ?case by simp
next
  case (Cons s ss)
  show ?case
  proof (cases "ss = []")
    case True
    then show ?thesis using split_go_escape [of s "[]"] by (simp add: path_of_def)
  next
    case False
    then have "path_of (s # ss) = escape_segment s @ ''.'' @ path_of ss"
      by (simp add: path_of_def join_with_Cons)
    then show ?thesis using Cons.IH [of "[]" "acc @ [cur @ s]"] False
      by (simp add: split_go_escape)
  qed
qed

lemma split_path_of [simp]: "segs \<noteq> [] \<Longrightarrow> split_path (path_of segs) = segs"
  using split_go_path [of segs "[]" "[]"] by (simp add: split_path_def)

lemma path_of_inj: "p \<noteq> [] \<Longrightarrow> q \<noteq> [] \<Longrightarrow> path_of p = path_of q \<Longrightarrow> p = q"
  by (metis split_path_of)

lemma path_of_single: "path_of [k] = escape_segment k"
  by (simp add: path_of_def)

lemma path_of_snoc: "p \<noteq> [] \<Longrightarrow> path_of (p @ [k]) = path_of p @ ''.'' @ escape_segment k"
proof (induction p)
  case (Cons a p)
  then show ?case by (cases "p = []") (auto simp: path_of_def join_with_Cons)
qed simp

section \<open>What decomposition emits\<close>

text \<open>
  An item is a key path and the \<open>(position, value)\<close> pairs stored under it.  \<open>payload_items\<close>
  lists the items of a payload in traversal order; \<open>decompose\<close> interns their paths in that order and emits
  their facts (\<open>decompose_emits\<close>).
\<close>

type_synonym 'n item = "string list \<times> (nat option \<times> 'n fact_value) list"

fun leaf_value :: "'n json \<Rightarrow> 'n fact_value" where
  "leaf_value JNull = FNull"
| "leaf_value (JBool b) = FBool b"
| "leaf_value (JNumber n) = FNumber n"
| "leaf_value (JString s) = FString s"
| "leaf_value (JArray xs) = FComposite (JArray xs)"
| "leaf_value (JObject m) = FComposite (JObject m)"

fun flat_items :: "string list \<Rightarrow> 'n json \<Rightarrow> 'n item list"
  and flat_items_map :: "string list \<Rightarrow> 'n jmap \<Rightarrow> 'n item list" where
  "flat_items pre (JObject m) =
     (if m \<noteq> [] then flat_items_map pre m else [(pre, [(None, leaf_value (JObject m))])])"
| "flat_items pre (JArray xs) = [(pre, [(None, leaf_value (JArray xs))])]"
| "flat_items pre JNull = [(pre, [(None, leaf_value JNull)])]"
| "flat_items pre (JBool b) = [(pre, [(None, leaf_value (JBool b))])]"
| "flat_items pre (JNumber n) = [(pre, [(None, leaf_value (JNumber n))])]"
| "flat_items pre (JString s) = [(pre, [(None, leaf_value (JString s))])]"
| "flat_items_map pre [] = []"
| "flat_items_map pre (p # m) = flat_items (pre @ [fst p]) (snd p) @ flat_items_map pre m"

definition ref_body :: "uuid list \<Rightarrow> (nat option \<times> 'n fact_value) list" where
  "ref_body refs = map (\<lambda>(i, u). (Some (as_u32 i), FRef u)) (enumerate 0 refs)"

definition entry_items :: "uuid_text \<Rightarrow> string \<times> 'n json \<Rightarrow> 'n item list" where
  "entry_items U p =
     (case scalar_ref U (fst p) (snd p) of
        Some u \<Rightarrow> [([fst p], [(None, FRef u)])]
      | None \<Rightarrow>
          (case array_refs U (fst p) (snd p) of
             Some refs \<Rightarrow> [([fst p], ref_body refs)]
           | None \<Rightarrow> flat_items [fst p] (snd p)))"

definition payload_items :: "uuid_text \<Rightarrow> 'n jmap \<Rightarrow> 'n item list" where
  "payload_items U m = concat (map (entry_items U) m)"

definition item_facts :: "uuid \<Rightarrow> registry \<Rightarrow> 'n item \<Rightarrow> 'n fact list" where
  "item_facts e r it = map (\<lambda>(p, v). \<lparr>f_entity = e, f_attr = the (reg_index r (path_of (fst it))),
                                        f_pos = p, f_value = v\<rparr>) (snd it)"

definition emit :: "uuid \<Rightarrow> registry \<Rightarrow> 'n item list \<Rightarrow> 'n fact list" where
  "emit e r its = concat (map (item_facts e r) its)"

definition reg_adds :: "'n item list \<Rightarrow> registry \<Rightarrow> registry" where
  "reg_adds its r = fold (\<lambda>it r. snd (intern (path_of (fst it)) r)) its r"

definition emits_to :: "uuid \<Rightarrow> 'n item list \<Rightarrow> 'n dstate \<Rightarrow> 'n dstate \<Rightarrow> bool" where
  "emits_to e its st st' \<longleftrightarrow>
     fst st' = reg_adds its (fst st) \<and>
     (\<forall>r'. reg_ok (fst st) \<longrightarrow> reg_ok r' \<longrightarrow> reg_le (fst st') r' \<longrightarrow>
        snd st' = snd st @ emit e r' its \<and> reg_ok (fst st'))"

lemma reg_adds_le: "reg_le r (reg_adds its r)"
proof (induction its arbitrary: r)
  case Nil
  then show ?case by (simp add: reg_adds_def)
next
  case (Cons it its)
  have "reg_le r (snd (intern (path_of (fst it)) r))" by (rule intern_le)
  also note Cons.IH
  finally show ?case by (simp add: reg_adds_def)
qed

lemma emits_to_Nil: "emits_to e [] st st"
  by (simp add: emits_to_def reg_adds_def emit_def)

lemma emits_to_append:
  assumes 1: "emits_to e its st st1" and 2: "emits_to e its' st1 st2"
  shows "emits_to e (its @ its') st st2"
proof -
  have le: "reg_le (fst st1) (fst st2)" using 2 reg_adds_le by (auto simp: emits_to_def)
  have "snd st2 = snd st @ emit e r' (its @ its') \<and> reg_ok (fst st2)"
    if ok: "reg_ok (fst st)" "reg_ok r'" "reg_le (fst st2) r'" for r'
  proof -
    have "reg_le (fst st1) r'" using le ok(3) reg_le_trans by blast
    then have "snd st1 = snd st @ emit e r' its" "reg_ok (fst st1)"
      using 1 ok by (auto simp: emits_to_def)
    moreover from this(2) have "snd st2 = snd st1 @ emit e r' its'" "reg_ok (fst st2)"
      using 2 ok by (auto simp: emits_to_def)
    ultimately show ?thesis by (simp add: emit_def)
  qed
  moreover have "fst st2 = reg_adds (its @ its') (fst st)"
    using 1 2 by (simp add: emits_to_def reg_adds_def)
  ultimately show ?thesis by (simp add: emits_to_def)
qed

text \<open>One interned path with its facts: the shape shared by \<open>push_leaf\<close> and \<open>push_refs\<close>.\<close>

lemma emits_to_single:
  assumes "fst st' = snd (intern (path_of segs) (fst st))"
    and "snd st' = snd st @ map (\<lambda>(p, v). \<lparr>f_entity = e,
           f_attr = fst (intern (path_of segs) (fst st)), f_pos = p, f_value = v\<rparr>) body"
  shows "emits_to e [(segs, body)] st st'"
proof -
  have "snd st' = snd st @ emit e r' [(segs, body)] \<and> reg_ok (fst st')"
    if ok: "reg_ok (fst st)" "reg_ok r'" "reg_le (fst st') r'" for r'
  proof -
    have "length (reg_names (fst st')) \<le> 2 ^ 32"
      using ok(2) reg_le_length [OF ok(3)] by (simp add: reg_ok_def)
    then have "reg_ok (fst st')"
      and "reg_index (fst st') (path_of segs) = Some (fst (intern (path_of segs) (fst st)))"
      using intern_ok [OF ok(1)] assms(1) by auto
    moreover from this have "reg_index r' (path_of segs) = Some (fst (intern (path_of segs) (fst st)))"
      using ok reg_index_mono by blast
    ultimately show ?thesis using assms(2) by (simp add: emit_def item_facts_def)
  qed
  then show ?thesis using assms(1) by (simp add: emits_to_def reg_adds_def)
qed

lemma push_leaf_emits: "emits_to e [(segs, [(None, v)])] st (push_leaf e (path_of segs) v st)"
  by (rule emits_to_single) (simp_all add: push_leaf_def Let_def split_beta)

lemma push_refs_emits: "emits_to e [(segs, ref_body refs)] st (push_refs e (path_of segs) refs st)"
  by (rule emits_to_single) (simp_all add: push_refs_def ref_body_def Let_def split_beta)

lemma flatten_emits:
  fixes v :: "'n json" and m :: "'n jmap"
  shows "pre \<noteq> [] \<Longrightarrow> emits_to e (flat_items pre v) st (flatten e (path_of pre) v st)"
    and "pre \<noteq> [] \<Longrightarrow> emits_to e (flat_items_map pre m) st (flatten_entries e (path_of pre) m st)"
proof (induction pre v and pre m arbitrary: st and st rule: flat_items_flat_items_map.induct)
  case (8 pre p m)
  have "emits_to e (flat_items (pre @ [fst p]) (snd p)) st
          (flatten e (path_of (pre @ [fst p])) (snd p) st)"
    using "8.IH"(1) by simp
  from emits_to_append [OF this "8.IH"(2) [OF "8.prems"]] show ?case
    using "8.prems" by (simp add: path_of_snoc)
qed (auto simp: emits_to_Nil intro: push_leaf_emits)

lemma decompose_entry_emits: "emits_to e (entry_items U p) st (decompose_entry U e p st)"
  using push_leaf_emits [where segs = "[fst p]" and st = st and e = e]
    push_refs_emits [where segs = "[fst p]" and st = st and e = e]
    flatten_emits(1) [where pre = "[fst p]" and v = "snd p" and st = st and e = e]
  by (simp add: entry_items_def decompose_entry_def Let_def path_of_single split: option.splits)

lemma decompose_fold_emits: "emits_to e (payload_items U m) st (fold (decompose_entry U e) m st)"
proof (induction m arbitrary: st)
  case Nil
  then show ?case by (simp add: payload_items_def emits_to_Nil)
next
  case (Cons p m)
  from emits_to_append [OF decompose_entry_emits Cons.IH] show ?case
    by (simp add: payload_items_def)
qed

lemma decompose_emits:
  assumes "decompose U e (JObject m) reg = Inr (facts, reg')" "reg_ok reg"
    "length (reg_names reg') \<le> 2 ^ 32"
  shows "reg_ok reg' \<and> reg_le reg reg' \<and> reg' = reg_adds (payload_items U m) reg \<and>
         facts = emit e reg' (payload_items U m)"
proof -
  let ?st = "fold (decompose_entry U e) m (reg, [])"
  have st: "facts = snd ?st" "reg' = fst ?st" using assms(1) by (auto simp: decompose_def Let_def)
  have em: "emits_to e (payload_items U m) (reg, []) ?st" by (rule decompose_fold_emits)
  then have adds: "reg' = reg_adds (payload_items U m) reg" using st by (simp add: emits_to_def)
  have ok: "reg_ok (reg_adds its r)" if "reg_ok r" "length (reg_names (reg_adds its r)) \<le> 2 ^ 32" for r and its :: "'a item list"
    using that
  proof (induction its arbitrary: r)
    case (Cons it its)
    let ?r = "snd (intern (path_of (fst it)) r)"
    have e: "reg_adds (it # its) r = reg_adds its ?r" by (simp add: reg_adds_def)
    have "length (reg_names ?r) \<le> 2 ^ 32"
      using Cons.prems(2) reg_le_length [OF reg_adds_le [of ?r its]] e by simp
    then have "reg_ok ?r" using Cons.prems(1) intern_ok by blast
    then show ?case using Cons.IH Cons.prems(2) e by simp
  qed (simp add: reg_adds_def)
  have "reg_ok reg'" using ok [of reg "payload_items U m"] assms(2,3) adds by simp
  then show ?thesis using em st adds assms(2) reg_adds_le by (auto simp: emits_to_def)
qed

section \<open>Inserting leaves\<close>

definition comparable :: "'a list \<Rightarrow> 'a list \<Rightarrow> bool" where
  "comparable p q \<longleftrightarrow> prefix p q \<or> prefix q p"

lemma comparable_Cons [simp]: "comparable (k # p) (k' # q) \<longleftrightarrow> k = k' \<and> comparable p q"
  by (auto simp: comparable_def)

lemma comparable_Nil [simp]: "comparable [] q" "comparable q []"
  by (auto simp: comparable_def)

lemma in_push_key:
  "(p, x) \<in> (\<lambda>q. (k # fst q, snd q)) ` S \<longleftrightarrow> (\<exists>q. p = k # q \<and> (q, x) \<in> S)"
  by (auto intro: rev_image_eqI)

lemma map_leaves_bt_insert:
  assumes "bt_sorted m"
  shows "map_leaves (bt_insert k c m) =
    {q \<in> map_leaves m. hd (fst q) \<noteq> k} \<union> (\<lambda>q. (k # fst q, snd q)) ` leaves c" (is "?l = ?r")
proof (intro set_eqI)
  fix z :: "string list \<times> 'a json"
  obtain p x where z: "z = (p, x)" by (cases z)
  show "z \<in> ?l \<longleftrightarrow> z \<in> ?r"
    unfolding z in_map_leaves using set_bt_insert [OF assms, of k c]
    by (auto simp: in_map_leaves in_push_key)
qed

lemma map_leaves_bt_insert_new:
  assumes "bt_sorted m" "map_of m k = None"
  shows "map_leaves (bt_insert k c m) = map_leaves m \<union> (\<lambda>q. (k # fst q, snd q)) ` leaves c"
proof -
  have "{q \<in> map_leaves m. hd (fst q) \<noteq> k} = map_leaves m"
    using assms(2) by (force simp: in_map_leaves map_of_eq_None_iff)
  then show ?thesis using map_leaves_bt_insert [OF assms(1)] by simp
qed

lemma insert_path_leaf:
  assumes "wf_json (JObject m)" "p \<noteq> []" "is_leaf j" "wf_json j"
    "\<And>q x. (q, x) \<in> map_leaves m \<Longrightarrow> \<not> comparable p q"
  shows "\<exists>m'. insert_path m p j = Inr m' \<and> wf_json (JObject m') \<and> m' \<noteq> [] \<and>
              map_leaves m' = insert (p, j) (map_leaves m)"
  using assms
proof (induction m p j rule: insert_path.induct)
  case (1 root v)
  then show ?case by simp
next
  case (2 root k v)
  have new: "map_of root k = None"
  proof (rule ccontr)
    assume "map_of root k \<noteq> None"
    then have "k \<in> fst ` set root" by (simp add: map_of_eq_None_iff)
    then obtain q x where "(k # q, x) \<in> map_leaves root" by (auto simp: map_leaves_keys)
    then show False using "2.prems"(5) [of "k # q" x] by simp
  qed
  have "leaves v = {([], v)}" using "2.prems" by (simp add: leaves_leaf)
  then show ?case
    using "2.prems" new wf_bt_insert [of root v k] map_leaves_bt_insert_new [of root k v]
    by simp
next
  case (3 root k k' rest v)
  have sorted: "bt_sorted root" using "3.prems"(1) by simp
  show ?case
  proof (cases "map_of root k")
    case None
    obtain m' where m': "insert_path [] (k' # rest) v = Inr m'" "wf_json (JObject m')" "m' \<noteq> []"
      "map_leaves m' = {(k' # rest, v)}"
      using "3.IH" [of "[]"] None "3.prems" by auto
    then have "leaves (JObject m') = {(k' # rest, v)}" by (simp add: leaves_node)
    then show ?thesis
      using None m' wf_bt_insert [OF "3.prems"(1) m'(2)] map_leaves_bt_insert_new [OF sorted None]
      by simp
  next
    case (Some c)
    have sub: "(k # q, x) \<in> map_leaves root" if "(q, x) \<in> leaves c" for q x
      using Some that in_map_leaves_Cons [OF "3.prems"(1)] by blast
    have "\<not> is_leaf c"
      using sub [of "[]" c] leaves_Nil_iff [of c c] "3.prems"(5) [of "[k]" c] by auto
    then obtain cm where c: "c = JObject cm" "cm \<noteq> []" "leaves c = map_leaves cm"
      by (cases c rule: json_cases_leaf) auto
    have wfc: "wf_json (JObject cm)" using wf_map_of [OF "3.prems"(1) Some] c by simp
    have incomp: "\<not> comparable (k' # rest) q" if "(q, x) \<in> map_leaves cm" for q x
      using "3.prems"(5) [of "k # q" x] sub that c by simp
    obtain m' where m': "insert_path cm (k' # rest) v = Inr m'" "wf_json (JObject m')" "m' \<noteq> []"
      "map_leaves m' = insert (k' # rest, v) (map_leaves cm)"
      using "3.IH" [of cm] Some c wfc incomp "3.prems"(3,4) by auto
    then have lm': "leaves (JObject m') = insert (k' # rest, v) (leaves c)"
      using c by (simp add: leaves_node)
    have "map_leaves root = {q \<in> map_leaves root. hd (fst q) \<noteq> k} \<union> (\<lambda>q. (k # fst q, snd q)) ` leaves c"
      (is "_ = ?split")
    proof (intro set_eqI)
      fix z :: "string list \<times> 'a json"
      obtain p x where z: "z = (p, x)" by (cases z)
      show "z \<in> map_leaves root \<longleftrightarrow> z \<in> ?split"
      proof (cases p)
        case Nil
        then show ?thesis unfolding z by (auto simp: in_map_leaves)
      next
        case (Cons k'' q)
        then show ?thesis unfolding z
          using in_map_leaves_Cons [OF "3.prems"(1), of k'' q x] Some by (auto simp: in_push_key)
      qed
    qed
    then have "map_leaves (bt_insert k (JObject m') root) = insert (k # k' # rest, v) (map_leaves root)"
      using map_leaves_bt_insert [OF sorted, of k "JObject m'"] lm' by auto
    then show ?thesis using Some c m' wf_bt_insert [OF "3.prems"(1) m'(2)] by simp
  qed
qed

lemma insert_leaves:
  assumes "wf_json (JObject root)"
    and "\<And>p j. (p, j) \<in> set L \<Longrightarrow> p \<noteq> [] \<and> is_leaf j \<and> wf_json j"
    and "distinct (map fst L)"
    and "\<And>p j q x. (p, j) \<in> set L \<Longrightarrow> (q, x) \<in> map_leaves root \<Longrightarrow> \<not> comparable p q"
    and "\<And>p j q x. (p, j) \<in> set L \<Longrightarrow> (q, x) \<in> set L \<Longrightarrow> comparable p q \<Longrightarrow> p = q"
  shows "\<exists>m'. fold_res (\<lambda>(p, j) r. insert_path r p j) L root = Inr m' \<and>
              wf_json (JObject m') \<and> map_leaves m' = map_leaves root \<union> set L"
  using assms
proof (induction L arbitrary: root)
  case Nil
  then show ?case by simp
next
  case (Cons l L)
  obtain p j where l: "l = (p, j)" by (cases l)
  obtain m1 where m1: "insert_path root p j = Inr m1" "wf_json (JObject m1)"
    "map_leaves m1 = insert (p, j) (map_leaves root)"
    using insert_path_leaf [of root p j] Cons.prems(1,2,4) l by (metis list.set_intros(1))
  have fresh: "p' \<noteq> p" if "(p', j') \<in> set L" for p' j'
    using that Cons.prems(3) l by force
  have "\<exists>m'. fold_res (\<lambda>(p, j) r. insert_path r p j) L m1 = Inr m' \<and>
             wf_json (JObject m') \<and> map_leaves m' = map_leaves m1 \<union> set L"
  proof (rule Cons.IH [OF m1(2)])
    fix p' j' q x
    assume in_L: "(p', j') \<in> set L" and "(q, x) \<in> map_leaves m1"
    then consider "q = p" | "(q, x) \<in> map_leaves root" using m1(3) by auto
    then show "\<not> comparable p' q"
      using Cons.prems(4) [of p' j' q x] Cons.prems(5) [of p' j' p j] in_L l fresh [OF in_L] by cases auto
  next
    fix p' j' q x
    assume "(p', j') \<in> set L" "(q, x) \<in> set L" "comparable p' q"
    then show "p' = q" using Cons.prems(5) [of p' j' q x] by simp
  qed (use Cons.prems in auto)
  then show ?case using l m1 by auto
qed

section \<open>Items are the leaves\<close>

definition body_json :: "uuid_text \<Rightarrow> (nat option \<times> 'n fact_value) list \<Rightarrow> 'n json" where
  "body_json U body =
     (if length body = 1 \<and> fst (hd body) = None then value_to_json U (snd (hd body))
      else JArray (map (\<lambda>b. value_to_json U (snd b)) body))"

definition item_json :: "uuid_text \<Rightarrow> 'n item \<Rightarrow> string list \<times> 'n json" where
  "item_json U it = (fst it, body_json U (snd it))"

lemma value_to_json_leaf_value [simp]: "value_to_json U (leaf_value v) = v"
  by (cases v) auto

lemma body_json_single [simp]: "body_json U [(None, v)] = value_to_json U v"
  by (simp add: body_json_def)

lemma length_ref_body [simp]: "length (ref_body refs) = length refs"
  by (simp add: ref_body_def)

lemma ref_body_Nil [simp]: "ref_body refs = [] \<longleftrightarrow> refs = []"
  by (simp add: ref_body_def enumerate_eq_zip)

lemma body_json_refs:
  assumes "refs \<noteq> []"
  shows "body_json U (ref_body refs) = (JArray (map (\<lambda>u. JString (ushow U u)) refs) :: 'n json)"
proof -
  let ?b = "ref_body refs :: (nat option \<times> 'n fact_value) list"
  have "fst (hd ?b) \<noteq> None" using assms by (cases refs) (auto simp: ref_body_def)
  moreover have "map (\<lambda>b. value_to_json U (snd b)) ?b =
      map (\<lambda>p. JString (ushow U (snd p))) (enumerate 0 refs)"
    by (simp add: ref_body_def split_beta comp_def)
  moreover have "\<dots> = map (\<lambda>u. JString (ushow U u)) refs"
    by (rule map_enumerate_snd)
  ultimately show ?thesis by (auto simp: body_json_def)
qed

lemma canonical_ref_show: "canonical_ref U v = Some u \<Longrightarrow> v = JString (ushow U u)"
  by (cases v) (auto simp: canonical_ref_def canonical_uuid_def split: option.splits if_splits)

lemma array_refs_json:
  assumes "array_refs U k v = Some refs"
  shows "refs \<noteq> [] \<and> v = JArray (map (\<lambda>u. JString (ushow U u)) refs)"
proof -
  obtain items where items: "v = JArray items" "items \<noteq> []" "those (map (canonical_ref U) items) = Some refs"
    using assms by (auto simp: array_refs_def split: if_splits json.splits)
  have "those (map (canonical_ref U) xs) = Some us \<Longrightarrow> xs = map (\<lambda>u. JString (ushow U u)) us" for xs us
    by (induction xs arbitrary: us) (auto split: option.splits dest: canonical_ref_show)
  with items show ?thesis by auto
qed

lemma flat_items_json:
  fixes v :: "'n json" and m :: "'n jmap"
  shows "set (map (item_json U) (flat_items pre v)) = (\<lambda>q. (pre @ fst q, snd q)) ` leaves v"
    and "set (map (item_json U) (flat_items_map pre m)) = (\<lambda>q. (pre @ fst q, snd q)) ` map_leaves m"
proof (induction pre v and pre m rule: flat_items_flat_items_map.induct)
  case (1 pre m)
  then show ?case by (simp add: leaves_leaf leaves_node item_json_def)
next
  case (8 pre p m)
  then show ?case by (simp add: map_leaves_def image_Un image_image)
qed (simp_all add: leaves_leaf item_json_def)

lemma entry_items_json:
  "set (map (item_json U) (entry_items U p)) = (\<lambda>q. (fst p # fst q, snd q)) ` leaves (snd p)"
proof (cases "scalar_ref U (fst p) (snd p)")
  case (Some u)
  then have "snd p = JString (ushow U u)"
    by (auto simp: scalar_ref_def dest: canonical_ref_show split: if_splits)
  with Some show ?thesis by (simp add: entry_items_def item_json_def)
next
  case None
  show ?thesis
  proof (cases "array_refs U (fst p) (snd p)")
    case (Some refs)
    with None show ?thesis using array_refs_json [OF Some]
      by (simp add: entry_items_def item_json_def body_json_refs)
  next
    case None': None
    then show ?thesis using None flat_items_json(1) [of U "[fst p]" "snd p"]
      by (simp add: entry_items_def)
  qed
qed

lemma payload_items_json: "item_json U ` set (payload_items U m) = map_leaves m"
proof -
  have "item_json U ` set (payload_items U m) = \<Union> (set (map (\<lambda>p. set (map (item_json U) (entry_items U p))) m))"
    by (simp add: payload_items_def image_UN)
  then show ?thesis by (simp add: entry_items_json [simplified] map_leaves_def)
qed

lemma flat_items_paths:
  fixes v :: "'n json" and m :: "'n jmap"
  shows "wf_json v \<Longrightarrow> distinct (map fst (flat_items pre v)) \<and>
           (\<forall>it \<in> set (flat_items pre v). prefix pre (fst it))"
    and "wf_json (JObject m) \<Longrightarrow> distinct (map fst (flat_items_map pre m)) \<and>
           (\<forall>it \<in> set (flat_items_map pre m). \<exists>k \<in> fst ` set m. prefix (pre @ [k]) (fst it))"
proof (induction pre v and pre m rule: flat_items_flat_items_map.induct)
  case (1 pre m)
  then show ?case by (auto dest: append_prefixD)
next
  case (8 pre p m)
  have wf: "wf_json (snd p)" "wf_json (JObject m)" and new: "fst p \<notin> fst ` set m"
    using "8.prems" by (auto simp: bt_sorted_Cons)
  have "\<not> (prefix (pre @ [fst p]) q \<and> prefix (pre @ [k]) q)" if "k \<in> fst ` set m" for k q
  proof
    assume "prefix (pre @ [fst p]) q \<and> prefix (pre @ [k]) q"
    then have "fst p = k" by (auto simp: prefix_def)
    with that new show False by simp
  qed
  then have "fst ` set (flat_items (pre @ [fst p]) (snd p)) \<inter> fst ` set (flat_items_map pre m) = {}"
    using "8.IH"(1) [OF wf(1)] "8.IH"(2) [OF wf(2)] by fastforce
  then show ?case using "8.IH"(1) [OF wf(1)] "8.IH"(2) [OF wf(2)] by auto
qed auto

lemma entry_items_paths:
  assumes "wf_json (snd p)"
  shows "distinct (map fst (entry_items U p)) \<and> (\<forall>it \<in> set (entry_items U p). hd (fst it) = fst p \<and> fst it \<noteq> [])"
proof -
  have "hd q = fst p \<and> q \<noteq> []" if "prefix [fst p] q" for q
    using that by (cases q) auto
  then show ?thesis using flat_items_paths(1) [OF assms, of "[fst p]"]
    by (auto simp: entry_items_def split: option.splits)
qed

lemma payload_items_paths:
  assumes "wf_json (JObject m)"
  shows "distinct (map fst (payload_items U m)) \<and>
         (\<forall>it \<in> set (payload_items U m). hd (fst it) \<in> fst ` set m \<and> fst it \<noteq> [])"
  using assms
proof (induction m)
  case Nil
  then show ?case by (simp add: payload_items_def)
next
  case (Cons p m)
  have wf: "wf_json (snd p)" "wf_json (JObject m)" and new: "fst p \<notin> fst ` set m"
    using Cons.prems by (auto simp: bt_sorted_Cons)
  have eq: "payload_items U (p # m) = entry_items U p @ payload_items U m" by (simp add: payload_items_def)
  note E = entry_items_paths [OF wf(1), of U] and P = Cons.IH [OF wf(2)]
  have "fst ` set (entry_items U p) \<inter> fst ` set (payload_items U m) = {}"
  proof (rule ccontr)
    assume "fst ` set (entry_items U p) \<inter> fst ` set (payload_items U m) \<noteq> {}"
    then obtain a b where "a \<in> set (entry_items U p)" "b \<in> set (payload_items U m)" "fst a = fst b"
      by blast
    with E P have "fst p \<in> fst ` set m" by metis
    with new show False by simp
  qed
  with E P show ?case by (simp add: eq ball_Un)
qed

section \<open>Grouping and the round trip\<close>

definition item_ok :: "'n item \<Rightarrow> bool" where
  "item_ok it \<longleftrightarrow> (\<exists>v. snd it = [(None, v)]) \<or>
     (\<exists>refs. refs \<noteq> [] \<and> length refs \<le> 2 ^ 32 \<and> snd it = ref_body refs)"

definition item_id :: "registry \<Rightarrow> 'n item \<Rightarrow> nat" where
  "item_id r it = the (reg_index r (path_of (fst it)))"

text \<open>A payload whose reference array fits \<open>u32\<close> positions.\<close>

definition refs_fit :: "'n jmap \<Rightarrow> bool" where
  "refs_fit m \<longleftrightarrow> (\<forall>k xs. (k, JArray xs) \<in> set m \<longrightarrow> length xs \<le> 2 ^ 32)"

lemma flat_items_ok:
  fixes v :: "'n json" and m :: "'n jmap"
  shows "it \<in> set (flat_items pre v) \<Longrightarrow> item_ok it"
    and "it \<in> set (flat_items_map pre m) \<Longrightarrow> item_ok it"
  by (induction pre v and pre m rule: flat_items_flat_items_map.induct)
    (auto simp: item_ok_def split: if_splits)

lemma payload_items_ok:
  assumes "refs_fit m" "it \<in> set (payload_items U m)"
  shows "item_ok it"
proof -
  obtain p where p: "p \<in> set m" "it \<in> set (entry_items U p)"
    using assms(2) by (auto simp: payload_items_def)
  show ?thesis
  proof (cases "array_refs U (fst p) (snd p)")
    case None
    then have "it \<in> set (flat_items [fst p] (snd p)) \<or> (\<exists>v. snd it = [(None, v)])"
      using p by (auto simp: entry_items_def split: option.splits)
    then show ?thesis
    proof
      assume "it \<in> set (flat_items [fst p] (snd p))"
      then show ?thesis by (rule flat_items_ok(1))
    next
      assume "\<exists>v. snd it = [(None, v)]"
      then show ?thesis unfolding item_ok_def by blast
    qed
  next
    case (Some refs)
    have "refs \<noteq> []" "length refs \<le> 2 ^ 32"
      using array_refs_json [OF Some] p(1) assms(1) unfolding refs_fit_def
      by (auto, metis length_map prod.collapse)
    then show ?thesis using p Some by (auto simp: entry_items_def item_ok_def split: option.splits)
  qed
qed

lemma reg_adds_names: "it \<in> set its \<Longrightarrow> reg_ok r \<Longrightarrow> reg_ok (reg_adds its r) \<Longrightarrow>
  path_of (fst it) \<in> set (reg_names (reg_adds its r))"
proof (induction its arbitrary: r)
  case (Cons i its)
  let ?r = "snd (intern (path_of (fst i)) r)"
  have e: "reg_adds (i # its) r = reg_adds its ?r" by (simp add: reg_adds_def)
  have "length (reg_names ?r) \<le> 2 ^ 32"
    using Cons.prems(3) reg_le_length [OF reg_adds_le [of ?r its]] e by (simp add: reg_ok_def)
  then have ok: "reg_ok ?r" "reg_index ?r (path_of (fst i)) = Some (fst (intern (path_of (fst i)) r))"
    using Cons.prems(2) intern_ok by blast+
  then have "path_of (fst i) \<in> set (reg_names ?r)"
    using reg_index_None_iff [OF ok(1), of "path_of (fst i)"] by (metis option.distinct(1))
  then have "path_of (fst i) \<in> set (reg_names (reg_adds its ?r))"
    using reg_adds_le [of ?r its] by (auto simp: reg_le_def)
  then show ?case using Cons.IH [of ?r] Cons.prems ok(1) e by auto
qed simp

lemma item_facts_attr: "f \<in> set (item_facts e r it) \<Longrightarrow> f_attr f = item_id r it"
  by (auto simp: item_facts_def item_id_def)

lemma filter_item_facts:
  "filter (\<lambda>f. f_attr f = a) (item_facts e r it) = (if a = item_id r it then item_facts e r it else [])"
  by (auto simp: filter_empty_conv filter_id_conv dest: item_facts_attr)

lemma filter_emit:
  assumes "inj_on (item_id r) (set its)" "distinct its" "it \<in> set its"
  shows "filter (\<lambda>f. f_attr f = item_id r it) (emit e r its) = item_facts e r it"
  using assms
proof (induction its)
  case (Cons i its)
  have rest: "filter (\<lambda>f. f_attr f = item_id r i) (emit e r its) = []" if "i \<notin> set its" "inj_on (item_id r) (set (i # its))" for i
    using that by (auto simp: emit_def filter_empty_conv dest!: item_facts_attr)
  show ?case
  proof (cases "it = i")
    case True
    then show ?thesis using Cons.prems rest [of i] by (simp add: emit_def filter_item_facts)
  next
    case False
    then have "item_id r it \<noteq> item_id r i" using Cons.prems by (auto simp: inj_on_def)
    then show ?thesis using Cons False by (simp add: emit_def filter_item_facts inj_on_def)
  qed
qed simp

lemma positions_ok_refs:
  assumes "length refs \<le> 2 ^ 32"
  shows "positions_ok (map (\<lambda>(p, v). \<lparr>f_entity = e, f_attr = a, f_pos = p, f_value = v\<rparr>) (ref_body refs))"
  by (auto simp: positions_ok_def list_all_iff ref_body_def in_set_enumerate_eq nth_enumerate_eq)

lemma group_json_item:
  assumes ok: "item_ok it" and g: "mset g = mset (item_facts e r it)"
  shows "group_json U n g = Inr (body_json U (snd it))"
proof (cases "\<exists>v. snd it = [(None, v)]")
  case True
  then obtain v f where "item_facts e r it = [f]" "f_pos f = None" "f_value f = v" "snd it = [(None, v)]"
    by (auto simp: item_facts_def)
  then show ?thesis using g by (simp add: group_json_def)
next
  case False
  then obtain refs where refs: "refs \<noteq> []" "length refs \<le> 2 ^ 32" "snd it = ref_body refs"
    using ok by (auto simp: item_ok_def)
  let ?h = "item_facts e r it"
  have pos: "map f_pos ?h = map (Some \<circ> as_u32) [0..<length refs]"
  proof -
    have "map f_pos ?h = map (\<lambda>p. Some (as_u32 (fst p))) (enumerate 0 refs)"
      using refs(3) by (simp add: item_facts_def ref_body_def split_beta comp_def)
    also have "\<dots> = map (Some \<circ> as_u32) [0..<length refs]"
      using map_enumerate_fst_comp [of "Some \<circ> as_u32" 0 refs] by simp
    finally show ?thesis .
  qed
  have "map as_u32 [0..<length refs] = [0..<length refs]"
    using refs(2) by (intro map_idI) (auto simp: as_u32_def)
  then have pos': "map f_pos ?h = map Some [0..<length refs]"
    using pos by (metis map_map)
  have sorted: "sort_key f_pos g = ?h"
    using sort_key_mset_eq [OF g, of f_pos] pos' sort_key_id [of f_pos ?h]
    by (simp add: distinct_map sorted_map sorted_wrt_map)
  have none: "\<not> (length g = 1 \<and> f_pos (hd g) = None)"
  proof
    assume a: "length g = 1 \<and> f_pos (hd g) = None"
    then have "hd g \<in> set ?h" using mset_eq_setD [OF g] by (metis hd_in_set length_0_conv zero_neq_one)
    then have "f_pos (hd g) \<in> set (map f_pos ?h)" by simp
    with a pos' show False by auto
  qed
  have "positions_ok ?h" using positions_ok_refs [OF refs(2)] refs(3) by (simp add: item_facts_def)
  moreover have "map (\<lambda>f. value_to_json U (f_value f)) ?h = map (\<lambda>b. value_to_json U (snd b)) (snd it)"
    by (simp add: item_facts_def split_beta)
  moreover have "\<not> (length (snd it) = 1 \<and> fst (hd (snd it)) = None)"
    using refs by (cases refs) (auto simp: ref_body_def)
  ultimately show ?thesis using none sorted
    by (simp only: group_json_def body_json_def Let_def if_False if_True)
qed

lemma reconstruct_items:
  fixes m :: "'n jmap" and facts' :: "'n fact list" and U :: uuid_text
  defines "its \<equiv> payload_items U m"
  assumes wf: "wf_json (JObject m)" and fit: "refs_fit m"
    and reg: "\<And>it. it \<in> set its \<Longrightarrow> reg_index r (path_of (fst it)) = Some (item_id r it)"
    and facts: "mset facts' = mset (emit e r its)"
    and r'': "reg_ok r''" "\<And>p i. reg_index r p = Some i \<Longrightarrow> reg_index r'' p = Some i"
  shows "reconstruct U facts' r'' = Inr (JObject m)"
proof -
  define h where "h = (\<lambda>it :: 'n item. (path_of (fst it), filter (\<lambda>f. f_attr f = item_id r it) facts'))"
  define A where "A = remdups (map f_attr facts')"
  note paths = payload_items_paths [OF wf, of U, folded its_def]
  have nm: "reg_name r'' (item_id r it) = Some (path_of (fst it))" if "it \<in> set its" for it
    using reg [OF that] r'' reg_index_name by blast
  have ne: "fst it \<noteq> []" if "it \<in> set its" for it using paths that by blast
  have ok: "item_ok it" if "it \<in> set its" for it
    using payload_items_ok [OF fit] that by (simp add: its_def)
  have inj: "inj_on (item_id r) (set its)"
  proof (rule inj_onI)
    fix x y
    assume xy: "x \<in> set its" "y \<in> set its" "item_id r x = item_id r y"
    then have "path_of (fst x) = path_of (fst y)" using nm by (metis option.inject)
    then have "fst x = fst y" using path_of_inj ne xy by blast
    then show "x = y" using paths xy(1,2) by (auto simp: distinct_map dest: inj_onD)
  qed
  have dist: "distinct its" using paths distinct_map by blast
  have body: "snd it \<noteq> []" if "it \<in> set its" for it
    using ok [OF that] by (auto simp: item_ok_def)
  have setA: "set A = item_id r ` set its"
  proof -
    have "set (map f_attr facts') = f_attr ` set (emit e r its)" using mset_eq_setD [OF facts] by simp
    also have "\<dots> = (\<Union>it\<in>set its. f_attr ` set (item_facts e r it))" by (auto simp: emit_def)
    also have "\<dots> = (\<Union>it\<in>set its. {item_id r it})"
    proof (intro SUP_cong refl)
      fix it assume "it \<in> set its"
      then have "set (item_facts e r it) \<noteq> {}" using body by (simp add: item_facts_def)
      moreover have "f_attr ` set (item_facts e r it) \<subseteq> {item_id r it}" using item_facts_attr by blast
      ultimately show "f_attr ` set (item_facts e r it) = {item_id r it}"
        by (metis image_is_empty subset_singletonD)
    qed
    finally show ?thesis by (auto simp: A_def)
  qed
  define B where "B = map (the_inv_into (set its) (item_id r)) A"
  have setB: "set B = set its"
    using setA inj by (simp add: B_def image_image the_inv_into_f_f cong: image_cong_simp)
  have AB: "A = map (item_id r) B"
    using setA inj by (auto simp: B_def comp_def f_the_inv_into_f intro!: map_idI [symmetric])
  have distB: "distinct (map (item_id r) B)" using AB by (metis A_def distinct_remdups)
  have entries: "group_entries facts' r'' = Inr (map h B)"
  proof -
    have "map_res (\<lambda>it. case reg_name r'' (item_id r it) of None \<Rightarrow> Inl (UnknownAttr (item_id r it))
            | Some n \<Rightarrow> Inr (n, filter (\<lambda>f. f_attr f = item_id r it) facts')) B = Inr (map h B)"
      by (rule map_res_all) (simp add: setB nm h_def)
    then show ?thesis unfolding group_entries_def A_def [symmetric] AB map_res_map by (simp add: comp_def)
  qed
  have step: "insert_group U (h it) s = (\<lambda>(p, j) r. insert_path r p j) (item_json U it) s"
    if "it \<in> set its" for it s
  proof -
    have "mset (snd (h it)) = mset (filter (\<lambda>f. f_attr f = item_id r it) (emit e r its))"
      using facts by (simp add: h_def)
    then have "mset (snd (h it)) = mset (item_facts e r it)"
      using filter_emit [OF inj dist that] by simp
    from group_json_item [OF ok [OF that] this] show ?thesis
      using ne [OF that] by (simp add: insert_group_def item_json_def h_def)
  qed
  define S where "S = sort_key (fst \<circ> h) B"
  have S: "sort_key fst (map h B) = map h S" unfolding S_def by (rule sort_key_map)
  have setS: "set S = set its" and distS: "distinct (map fst S)"
  proof -
    show setS: "set S = set its" using setB by (simp add: S_def)
    have "mset S = mset B" by (simp add: S_def)
    then have "distinct S" using distB distinct_map mset_eq_imp_distinct_iff by blast
    moreover have "inj_on fst (set its)" using paths by (simp add: distinct_map)
    ultimately show "distinct (map fst S)" using setS by (simp add: distinct_map)
  qed
  let ?L = "map (item_json U) S"
  have L: "set ?L = map_leaves m" using payload_items_json [of U m] setS by (simp add: its_def)
  have fold: "fold_res (insert_group U) (map h S) [] = fold_res (\<lambda>(p, j) r. insert_path r p j) ?L []"
  proof -
    have "fold_res (insert_group U) (map h S) [] = fold_res (\<lambda>it. insert_group U (h it)) S []"
      by (rule fold_res_map [symmetric]) simp
    also have "\<dots> = fold_res (\<lambda>(p, j) r. insert_path r p j) ?L []"
      by (rule fold_res_map) (simp add: setS step)
    finally show ?thesis .
  qed
  have "\<exists>m'. fold_res (\<lambda>(p, j) r. insert_path r p j) ?L [] = Inr m' \<and>
          wf_json (JObject m') \<and> map_leaves m' = map_leaves [] \<union> set ?L"
  proof (rule insert_leaves)
    show "wf_json (JObject [])" by simp
    show "distinct (map fst ?L)" using distS by (simp add: item_json_def comp_def)
    fix p j
    assume pj: "(p, j) \<in> set ?L"
    then have "(p, j) \<in> map_leaves m" using L by simp
    moreover from this have "p \<noteq> []" by (auto simp: in_map_leaves)
    ultimately show "p \<noteq> [] \<and> is_leaf j \<and> wf_json j"
      using map_leaves_is_leaf map_leaves_wf [OF wf] by blast
    show "\<not> comparable p q" if "(q, x) \<in> map_leaves []" for q x
      using that by simp
    show "p = q" if "(q, x) \<in> set ?L" "comparable p q" for q x
      using pj that map_leaves_prefix_free [OF wf] unfolding L comparable_def prefix_def by fastforce
  qed
  then obtain m' where m': "fold_res (\<lambda>(p, j) r. insert_path r p j) ?L [] = Inr m'"
    "wf_json (JObject m')" "map_leaves m' = map_leaves m" using L by auto
  have "m' = m" by (rule map_leaves_inj [OF m'(2) wf m'(3)])
  then show ?thesis using m'(1) by (simp add: reconstruct_def entries S fold)
qed

lemma decompose_reconstruct_perm:
  assumes "wf_json (JObject m)" "refs_fit m" "reg_ok reg"
    and d: "decompose U e (JObject m) reg = Inr (facts, reg')" "length (reg_names reg') \<le> 2 ^ 32"
    and later: "mset facts' = mset facts" "reg_ok r''" "reg_le reg' r''"
  shows "reconstruct U facts' r'' = Inr (JObject m)"
proof -
  note em = decompose_emits [OF d(1) assms(3) d(2)]
  have "reg_index reg' (path_of (fst it)) = Some (item_id reg' it)" if "it \<in> set (payload_items U m)" for it
  proof -
    have "path_of (fst it) \<in> set (reg_names reg')" using reg_adds_names [OF that] em assms(3) by metis
    then show ?thesis using em reg_index_None_iff [of reg' "path_of (fst it)"]
      by (cases "reg_index reg' (path_of (fst it))") (auto simp: item_id_def)
  qed
  then show ?thesis
    using reconstruct_items [OF assms(1,2), of U reg' facts' e r''] em later reg_index_mono by metis
qed

text \<open>
  C1: Reconstruction is the exact inverse of decomposition.  The facts of a payload rebuild that
  payload value for value, whatever order the facts are presented in and whatever attributes
  were interned after the decomposition.
\<close>

theorem decompose_reconstruct:
  assumes "wf_json (JObject m)" "refs_fit m" "reg_ok reg"
    and "decompose U e (JObject m) reg = Inr (facts, reg')" "length (reg_names reg') \<le> 2 ^ 32"
    and "mset facts' = mset facts" "reg_ok r''" "reg_le reg' r''"
  shows "reconstruct U facts' r'' = Inr (JObject m)"
  by (rule decompose_reconstruct_perm [OF assms])

definition demo_uuid_text :: uuid_text where
  "demo_uuid_text =
     \<lparr>uparse = (\<lambda>s. if s = ''u7'' then Some 7 else if s = ''u9'' then Some 9 else None),
      ushow = (\<lambda>u. if u = 7 then ''u7'' else ''u9'')\<rparr>"

definition demo_payload :: "nat jmap" where
  "demo_payload =
     [(''evidence'', JArray [JString ''u9'', JString ''u7'']), (''id'', JString ''u7''),
      (''props'', JObject [(''a.b'', JNumber 3), (''c'', JObject [])])]"

theorem decompose_reconstruct_witness:
  "\<exists>facts reg'. decompose demo_uuid_text 5 (JObject demo_payload) registry_new = Inr (facts, reg') \<and>
     length facts = 5 \<and>
     reconstruct demo_uuid_text (rev facts) reg' = Inr (JObject demo_payload)"
proof -
  obtain facts reg' where d:
    "decompose demo_uuid_text 5 (JObject demo_payload) registry_new = Inr (facts, reg')"
    by (simp add: decompose_def Let_def)
  have n: "case decompose demo_uuid_text 5 (JObject demo_payload) registry_new of
             Inl _ \<Rightarrow> False | Inr (fs, r) \<Rightarrow> length fs = 5 \<and> length (reg_names r) = 4"
    by (simp add: decompose_def Let_def demo_payload_def demo_uuid_text_def decompose_entry_def
        scalar_ref_def REF_SCALAR_ATTRS_def array_refs_def REF_ARRAY_ATTRS_def canonical_ref_def
        canonical_uuid_def push_leaf_def push_refs_def intern_def registry_new_def as_u32_def)
  have wf: "wf_json (JObject demo_payload)" by (simp add: demo_payload_def bt_sorted_def)
  have fit: "refs_fit demo_payload" by (auto simp: refs_fit_def demo_payload_def)
  have le: "length (reg_names reg') \<le> 2 ^ 32" and five: "length facts = 5" using n d by auto
  have ok: "reg_ok reg'" using decompose_emits [OF d reg_ok_new le] by (rule conjunct1)
  have "reconstruct demo_uuid_text (rev facts) reg' = Inr (JObject demo_payload)"
    by (rule decompose_reconstruct [OF wf fit reg_ok_new d le _ ok]) simp_all
  then show ?thesis using d five by blast
qed

end
