(* ===== verification/Backend.thy ===== *)
theory Backend
  imports Ekos_Prelude
begin

text \<open>
  The storage seam of \<open>ekos/crates/segment-backend/src/lib.rs\<close>.  A directory tree is a partial
  map from relative paths to file contents.  A backend is a record of the operations of the
  \<open>SegmentBackend\<close> trait over a state \<open>'s\<close>; \<open>local_fs\<close> and \<open>mem_backend\<close> are the two
  implementations of the file.  The locale \<open>segment_backend\<close> states the contract its clients
  rely on, and both implementations are interpretations of it.  I/O errors of the operating
  system are not modelled: an operation fails only where its object is missing.
\<close>

type_synonym fs = "string \<Rightarrow> bytes option"

datatype backend_error = BackendIo string | BackendStore string

record 's backend =
  be_get :: "string \<Rightarrow> 's \<Rightarrow> backend_error + bytes"
  be_get_range :: "string \<Rightarrow> nat \<Rightarrow> nat \<Rightarrow> 's \<Rightarrow> backend_error + bytes"
  be_publish :: "string \<Rightarrow> bytes \<Rightarrow> 's \<Rightarrow> 's"
  be_publish_sealed :: "string \<Rightarrow> fs \<Rightarrow> string \<Rightarrow> 's \<Rightarrow> (backend_error + unit) \<times> 's"
  be_fetch :: "string \<Rightarrow> 's \<Rightarrow> (backend_error + bytes) \<times> 's"
  be_exists :: "string \<Rightarrow> 's \<Rightarrow> bool"
  be_delete :: "string \<Rightarrow> 's \<Rightarrow> 's"

text \<open>
  \<open>fetch\<close> hands out a path that the caller maps; the model hands out the bytes behind that path.
  The \<open>staged\<close> file of \<open>publish_sealed\<close> is named by the local directory it lives in and its path.
\<close>

section \<open>The local directory\<close>

definition lfs_get :: "string \<Rightarrow> fs \<Rightarrow> backend_error + bytes" where
  "lfs_get k fs = (case fs k of None \<Rightarrow> Inl (BackendIo k) | Some b \<Rightarrow> Inr b)"

definition slice :: "nat \<Rightarrow> nat \<Rightarrow> bytes \<Rightarrow> bytes" where
  "slice a b xs = take (b - a) (drop a xs)"

definition lfs_get_range :: "string \<Rightarrow> nat \<Rightarrow> nat \<Rightarrow> fs \<Rightarrow> backend_error + bytes" where
  "lfs_get_range k a b fs =
     (case fs k of None \<Rightarrow> Inl (BackendIo k)
      | Some bs \<Rightarrow> if b \<le> length bs then Inr (slice a b bs) else Inl (BackendIo k))"

definition lfs_publish :: "string \<Rightarrow> bytes \<Rightarrow> fs \<Rightarrow> fs" where
  "lfs_publish k b fs = (fs(with_extension k ''tmp'' := None))(k \<mapsto> b)"

definition lfs_publish_sealed ::
  "string \<Rightarrow> fs \<Rightarrow> string \<Rightarrow> fs \<Rightarrow> (backend_error + unit) \<times> fs" where
  "lfs_publish_sealed k dir staged fs =
     (case dir staged of None \<Rightarrow> (Inl (BackendIo k), fs) | Some _ \<Rightarrow> (Inr (), fs))"

definition lfs_fetch :: "string \<Rightarrow> fs \<Rightarrow> (backend_error + bytes) \<times> fs" where
  "lfs_fetch k fs = (lfs_get k fs, fs)"

definition lfs_exists :: "string \<Rightarrow> fs \<Rightarrow> bool" where
  "lfs_exists k fs \<longleftrightarrow> fs k \<noteq> None"

definition lfs_delete :: "string \<Rightarrow> fs \<Rightarrow> fs" where
  "lfs_delete k fs = fs(k := None)"

definition local_fs :: "fs backend" where
  "local_fs =
     \<lparr>be_get = lfs_get, be_get_range = lfs_get_range, be_publish = lfs_publish,
      be_publish_sealed = lfs_publish_sealed, be_fetch = lfs_fetch,
      be_exists = lfs_exists, be_delete = lfs_delete\<rparr>"

section \<open>The in-memory backend\<close>

record mem =
  mem_objects :: fs
  mem_cache :: fs

definition mem_get :: "string \<Rightarrow> mem \<Rightarrow> backend_error + bytes" where
  "mem_get k s = (case mem_objects s k of None \<Rightarrow> Inl (BackendStore k) | Some b \<Rightarrow> Inr b)"

definition mem_get_range :: "string \<Rightarrow> nat \<Rightarrow> nat \<Rightarrow> mem \<Rightarrow> backend_error + bytes" where
  "mem_get_range k a b s =
     (case mem_get k s of Inl e \<Rightarrow> Inl e
      | Inr bs \<Rightarrow> if b \<le> length bs then Inr (slice a b bs) else Inl (BackendStore k))"

definition mem_publish :: "string \<Rightarrow> bytes \<Rightarrow> mem \<Rightarrow> mem" where
  "mem_publish k b s =
     s\<lparr>mem_objects := (mem_objects s)(k \<mapsto> b), mem_cache := (mem_cache s)(k := None)\<rparr>"

definition mem_publish_sealed ::
  "string \<Rightarrow> fs \<Rightarrow> string \<Rightarrow> mem \<Rightarrow> (backend_error + unit) \<times> mem" where
  "mem_publish_sealed k dir staged s =
     (case dir staged of None \<Rightarrow> (Inl (BackendIo k), s)
      | Some b \<Rightarrow> (Inr (), s\<lparr>mem_objects := (mem_objects s)(k \<mapsto> b)\<rparr>))"

definition mem_fetch :: "string \<Rightarrow> mem \<Rightarrow> (backend_error + bytes) \<times> mem" where
  "mem_fetch k s =
     (case mem_cache s k of
        Some b \<Rightarrow> (Inr b, s)
      | None \<Rightarrow>
          (case mem_get k s of
             Inl e \<Rightarrow> (Inl e, s)
           | Inr b \<Rightarrow> (Inr b, s\<lparr>mem_cache := (mem_cache s)(k \<mapsto> b)\<rparr>)))"

definition mem_exists :: "string \<Rightarrow> mem \<Rightarrow> bool" where
  "mem_exists k s \<longleftrightarrow> mem_objects s k \<noteq> None"

definition mem_delete :: "string \<Rightarrow> mem \<Rightarrow> mem" where
  "mem_delete k s =
     s\<lparr>mem_objects := (mem_objects s)(k := None), mem_cache := (mem_cache s)(k := None)\<rparr>"

definition mem_backend :: "mem backend" where
  "mem_backend =
     \<lparr>be_get = mem_get, be_get_range = mem_get_range, be_publish = mem_publish,
      be_publish_sealed = mem_publish_sealed, be_fetch = mem_fetch,
      be_exists = mem_exists, be_delete = mem_delete\<rparr>"

text \<open>A cached copy always agrees with the stored object.\<close>

definition mem_ok :: "mem \<Rightarrow> bool" where
  "mem_ok s \<longleftrightarrow> (\<forall>k b. mem_cache s k = Some b \<longrightarrow> mem_objects s k = Some b)"

section \<open>The contract\<close>

text \<open>
  \<open>inv\<close> is the backend's own invariant, \<open>object_key\<close> says which keys name objects (the local
  directory also holds the temporary files of its renames), and \<open>staged_ok\<close> says where a file
  must be staged before it is published as sealed (the local directory publishes it in place).
\<close>

locale segment_backend =
  fixes B :: "'s backend"
    and inv :: "'s \<Rightarrow> bool"
    and object_key :: "string \<Rightarrow> bool"
    and staged_ok :: "fs \<Rightarrow> string \<Rightarrow> string \<Rightarrow> 's \<Rightarrow> bool"
  assumes publish_inv: "inv s \<Longrightarrow> inv (be_publish B k b s)"
    and publish_get: "be_get B k (be_publish B k b s) = Inr b"
    and publish_frame: "object_key j \<Longrightarrow> j \<noteq> k \<Longrightarrow> be_get B j (be_publish B k b s) = be_get B j s"
    and sealed_ok: "inv s \<Longrightarrow> dir staged = Some b \<Longrightarrow> staged_ok dir staged k s \<Longrightarrow>
      (\<exists>s'. be_publish_sealed B k dir staged s = (Inr (), s') \<and> inv s' \<and> be_get B k s' = Inr b \<and>
            (\<forall>j. j \<noteq> k \<longrightarrow> be_get B j s' = be_get B j s))"
    and fetch_get: "inv s \<Longrightarrow> be_fetch B k s = (be_get B k s, snd (be_fetch B k s)) \<and>
      inv (snd (be_fetch B k s)) \<and> (\<forall>j. be_get B j (snd (be_fetch B k s)) = be_get B j s)"
    and exists_iff: "be_exists B k s \<longleftrightarrow> (\<exists>b. be_get B k s = Inr b)"
    and range_get: "be_get B k s = Inr bs \<Longrightarrow> n \<le> length bs \<Longrightarrow>
      be_get_range B k a n s = Inr (slice a n bs)"
    and delete_inv: "inv s \<Longrightarrow> inv (be_delete B k s)"
    and delete_get: "be_exists B k (be_delete B k s) = False"
begin

text \<open>A sealed object survives every later publish of other keys and can be fetched back.\<close>

lemma sealed_survives:
  assumes "inv s" "dir staged = Some b" "staged_ok dir staged k s" "object_key k"
    and "\<forall>p \<in> set pubs. fst p \<noteq> k"
  shows "fst (be_fetch B k (fold (\<lambda>p. be_publish B (fst p) (snd p)) pubs
           (snd (be_publish_sealed B k dir staged s)))) = Inr b"
proof -
  obtain s' where s': "snd (be_publish_sealed B k dir staged s) = s'" "inv s'" "be_get B k s' = Inr b"
    using sealed_ok [OF assms(1-3)] by auto
  have "inv (fold (\<lambda>p. be_publish B (fst p) (snd p)) pubs t) \<and>
        be_get B k (fold (\<lambda>p. be_publish B (fst p) (snd p)) pubs t) = be_get B k t" if "inv t" for t
    using that assms(5)
  proof (induction pubs arbitrary: t)
    case (Cons p pubs)
    have "be_get B k (be_publish B (fst p) (snd p) t) = be_get B k t"
      using publish_frame [OF assms(4)] Cons.prems(2) by auto
    moreover have "inv (be_publish B (fst p) (snd p) t)" using publish_inv Cons.prems(1) by blast
    ultimately show ?case using Cons by auto
  qed simp
  then show ?thesis using s' fetch_get by (metis fst_conv)
qed

lemma fetch_twice:
  assumes "inv s"
  shows "fst (be_fetch B k (snd (be_fetch B k s))) = fst (be_fetch B k s)"
  using fetch_get [OF assms, of k] fetch_get [of "snd (be_fetch B k s)" k] by (metis fst_conv)

end

text \<open>Keys of objects: everything without the \<open>.tmp\<close> suffix that an atomic rename uses.\<close>

definition object_key :: "string \<Rightarrow> bool" where
  "object_key k \<longleftrightarrow> \<not> suffix ''.tmp'' k"

lemma with_extension_tmp: "suffix ''.tmp'' (with_extension k ''tmp'')"
  by (simp add: with_extension_def suffix_def)

lemma with_extension_not_object: "object_key k \<Longrightarrow> with_extension j ''tmp'' \<noteq> k"
  using with_extension_tmp by (auto simp: object_key_def)

interpretation lfs: segment_backend local_fs "\<lambda>_. True" object_key "\<lambda>dir staged k s. dir = s \<and> staged = k"
proof unfold_locales
  fix k j :: string and b s
  show "object_key j \<Longrightarrow> j \<noteq> k \<Longrightarrow> be_get local_fs j (be_publish local_fs k b s) = be_get local_fs j s"
    using with_extension_not_object [of j k] by (auto simp: local_fs_def lfs_get_def lfs_publish_def)
qed (auto simp: local_fs_def lfs_get_def lfs_publish_def lfs_publish_sealed_def lfs_fetch_def
      lfs_exists_def lfs_delete_def lfs_get_range_def split: option.splits)

text \<open>
  The memory backend stages any file, but a sealed key is written once: the cached copy of an
  earlier object under the same key would go stale.
\<close>

interpretation memb: segment_backend mem_backend mem_ok "\<lambda>_. True"
  "\<lambda>dir staged k s. mem_objects s k = None"
proof unfold_locales
  fix k :: string and s :: mem and dir :: fs and staged b
  assume ok: "mem_ok s" "dir staged = Some b" "mem_objects s k = None"
  let ?s' = "s\<lparr>mem_objects := (mem_objects s)(k \<mapsto> b)\<rparr>"
  have "mem_ok ?s'" using ok by (auto simp: mem_ok_def)
  then show "\<exists>s'. be_publish_sealed mem_backend k dir staged s = (Inr (), s') \<and> mem_ok s' \<and>
      be_get mem_backend k s' = Inr b \<and>
      (\<forall>j. j \<noteq> k \<longrightarrow> be_get mem_backend j s' = be_get mem_backend j s)"
    using ok by (intro exI [of _ ?s']) (auto simp: mem_backend_def mem_publish_sealed_def mem_get_def)
next
  fix k s
  assume "mem_ok s"
  then show "be_fetch mem_backend k s =
      (be_get mem_backend k s, snd (be_fetch mem_backend k s)) \<and>
      mem_ok (snd (be_fetch mem_backend k s)) \<and>
      (\<forall>j. be_get mem_backend j (snd (be_fetch mem_backend k s)) = be_get mem_backend j s)"
    by (auto simp: mem_backend_def mem_fetch_def mem_get_def mem_ok_def split: option.splits sum.splits)
qed (auto simp: mem_backend_def mem_publish_def mem_get_def mem_ok_def mem_exists_def
      mem_delete_def mem_get_range_def split: option.splits)

text \<open>
  A sealed object is durable on both backends.  After \<open>publish_sealed\<close>, however many other
  objects are published, \<open>fetch\<close> returns the bytes that were staged, from the local directory and
  from the memory backend alike.
\<close>

theorem backends_keep_sealed_objects:
  assumes "object_key k" "fs k = Some b" "\<forall>p \<in> set pubs. fst p \<noteq> k"
    and "mem_ok s" "mem_objects s k = None"
  shows "fst (be_fetch local_fs k (fold (\<lambda>p. be_publish local_fs (fst p) (snd p)) pubs
           (snd (be_publish_sealed local_fs k fs k fs)))) = Inr b \<and>
         fst (be_fetch mem_backend k (fold (\<lambda>p. be_publish mem_backend (fst p) (snd p)) pubs
           (snd (be_publish_sealed mem_backend k fs k s)))) = Inr b"
  using lfs.sealed_survives [where s = fs and dir = fs and staged = k and b = b and k = k and pubs = pubs]
    memb.sealed_survives [where s = s and dir = fs and staged = k and b = b and k = k and pubs = pubs]
    assms by (simp add: object_key_def)

theorem backends_keep_sealed_objects_witness:
  "fst (be_fetch mem_backend ''segments/a'' (fold (\<lambda>p. be_publish mem_backend (fst p) (snd p))
      [(''manifest.json'', [1]), (''manifest.json'', [2])]
      (snd (be_publish_sealed mem_backend ''segments/a'' [''segments/a'' \<mapsto> [7, 8]] ''segments/a''
        \<lparr>mem_objects = Map.empty, mem_cache = Map.empty\<rparr>)))) = Inr [7, 8]"
  using backends_keep_sealed_objects [of "''segments/a''" "[''segments/a'' \<mapsto> [7, 8]]" "[7, 8]"
      "[(''manifest.json'', [1]), (''manifest.json'', [2])]"
      "\<lparr>mem_objects = Map.empty, mem_cache = Map.empty\<rparr>"]
  by (simp add: object_key_def suffix_def mem_ok_def)

end
