(* ===== verification/Number_Text.thy ===== *)
theory Number_Text
  imports Ekos_Prelude
begin

text \<open>
  Text of numbers: decimal rendering (\<open>to_string\<close>, zero padding), \<open>parse\<close> of unsigned integers,
  \<open>trim\<close>, and lower-case hexadecimal (the \<open>hex\<close> crate's \<open>encode\<close> and \<open>decode\<close>), with the
  round trips the components share.  White space is ASCII white space.
\<close>

section \<open>Decimal text\<close>

fun show_nat :: "nat \<Rightarrow> string" where
  "show_nat n = (if n < 10 then [char_of (48 + n)] else show_nat (n div 10) @ [char_of (48 + n mod 10)])"

declare show_nat.simps [simp del]

definition pad_zero :: "nat \<Rightarrow> string \<Rightarrow> string" where
  "pad_zero w s = replicate (w - length s) (CHR ''0'') @ s"

definition nat_val :: "string \<Rightarrow> nat" where
  "nat_val s = foldl (\<lambda>a c. 10 * a + (of_char c - 48)) 0 s"

lemma nat_val_append: "nat_val (s @ [c]) = 10 * nat_val s + (of_char c - 48)"
  by (simp add: nat_val_def)

lemma nat_val_show [simp]: "nat_val (show_nat n) = n"
proof (induction n rule: show_nat.induct)
  case (1 n)
  show ?case
  proof (cases "n < 10")
    case True
    then show ?thesis by (simp add: show_nat.simps [of n] nat_val_def)
  next
    case False
    then have "nat_val (show_nat n) = 10 * (n div 10) + n mod 10"
      using 1 by (simp add: show_nat.simps [of n] nat_val_append)
    then show ?thesis by simp
  qed
qed

lemma nat_val_pad: "nat_val (pad_zero w s) = nat_val s"
proof -
  have "foldl (\<lambda>a c. 10 * a + (of_char c - 48)) (0 :: nat) (replicate k (CHR ''0'')) = 0" for k
    by (induction k) auto
  then show ?thesis by (simp add: nat_val_def pad_zero_def)
qed

section \<open>Digits and white space\<close>

definition is_digit :: "char \<Rightarrow> bool" where
  "is_digit c \<longleftrightarrow> 48 \<le> (of_char c :: nat) \<and> (of_char c :: nat) \<le> 57"

definition is_space :: "char \<Rightarrow> bool" where
  "is_space c \<longleftrightarrow> (of_char c :: nat) \<in> {9, 10, 11, 12, 13, 32}"

definition trim :: "string \<Rightarrow> string" where
  "trim s = rev (dropWhile is_space (rev (dropWhile is_space s)))"

section \<open>Hexadecimal\<close>

definition hex_digit :: "nat \<Rightarrow> char" where
  "hex_digit n = (if n < 10 then char_of (48 + n) else char_of (87 + n))"

definition hex_value :: "char \<Rightarrow> nat option" where
  "hex_value c = (let n = of_char c in
     if 48 \<le> n \<and> n \<le> 57 then Some (n - 48)
     else if 97 \<le> n \<and> n \<le> 102 then Some (n - 87)
     else if 65 \<le> n \<and> n \<le> 70 then Some (n - 55)
     else None)"

definition hex_encode :: "bytes \<Rightarrow> string" where
  "hex_encode bs = concat (map (\<lambda>b. [hex_digit (unat b div 16), hex_digit (unat b mod 16)]) bs)"

fun hex_decode :: "string \<Rightarrow> bytes option" where
  "hex_decode [] = Some []"
| "hex_decode [c] = None"
| "hex_decode (c # d # s) =
     (case (hex_value c, hex_value d, hex_decode s) of
        (Some a, Some b, Some bs) \<Rightarrow> Some (word_of_nat (16 * a + b) # bs)
      | _ \<Rightarrow> None)"

lemma hex_digit_less: "m < 16 \<Longrightarrow> n < 16 \<Longrightarrow> hex_digit m < hex_digit n \<longleftrightarrow> m < n"
  by (auto simp: hex_digit_def less_char_def)

lemma hex_digit_eq: "m < 16 \<Longrightarrow> n < 16 \<Longrightarrow> hex_digit m = hex_digit n \<longleftrightarrow> m = n"
  using hex_digit_less [of m n] hex_digit_less [of n m] by (metis less_irrefl linorder_neqE_nat)

lemma hex_value_digit: "n < 16 \<Longrightarrow> hex_value (hex_digit n) = Some n"
  by (auto simp: hex_digit_def hex_value_def Let_def)

lemma hex_encode_simps [simp]:
  "hex_encode [] = []"
  "hex_encode (b # bs) = hex_digit (unat b div 16) # hex_digit (unat b mod 16) # hex_encode bs"
  by (simp_all add: hex_encode_def)

lemma byte_nibbles: "unat (b :: byte) div 16 < 16" "unat b mod 16 < 16"
  using unsigned_less [of b, where ?'a = nat] by simp_all

lemma byte_nibbles_eq: "unat (b :: byte) div 16 = unat c div 16 \<Longrightarrow> unat b mod 16 = unat c mod 16 \<Longrightarrow> b = c"
  by (metis div_mult_mod_eq word_unat_eq_iff)

lemma hex_decode_encode [simp]: "hex_decode (hex_encode bs) = Some bs"
proof (induction bs)
  case (Cons b bs)
  have "16 * (unat b div 16) + unat b mod 16 = unat b" by simp
  then show ?case using Cons byte_nibbles [of b] by (simp add: hex_value_digit)
qed simp

lemma nibble_less:
  "r < 16 \<Longrightarrow> s < 16 \<Longrightarrow> p * 16 + r < q * 16 + s \<longleftrightarrow> p < q \<or> p = q \<and> r < s" for p q r s :: nat
  by (cases p q rule: linorder_cases) auto

section \<open>Decimal digit strings\<close>

abbreviation digits :: "string \<Rightarrow> bool" where
  "digits s \<equiv> list_all is_digit s"

lemma nat_val_Nil [simp]: "nat_val [] = 0"
  by (simp add: nat_val_def)

lemma nat_val_app: "nat_val (a @ b) = nat_val a * 10 ^ length b + nat_val b"
proof (induction b rule: rev_induct)
  case (snoc c b)
  have "nat_val (a @ b @ [c]) = 10 * nat_val (a @ b) + (of_char c - 48)"
    by (simp add: nat_val_append flip: append_assoc)
  then show ?case using snoc by (simp add: nat_val_append algebra_simps)
qed simp

lemma nat_val_Cons: "nat_val (c # s) = (of_char c - 48) * 10 ^ length s + nat_val s"
  using nat_val_app [of "[c]" s] nat_val_append [of "[]" c] by simp

lemma digit_cases: "is_digit c \<Longrightarrow> \<exists>d < 10. c = char_of (48 + d) \<and> (of_char c :: nat) - 48 = d"
  by (rule exI [of _ "of_char c - 48 :: nat"]) (auto simp: is_digit_def)

lemma digit_char [simp]: "(d :: nat) < 10 \<Longrightarrow> is_digit (char_of (48 + d))"
  by (simp add: is_digit_def)

lemma digit_eq: "is_digit c \<Longrightarrow> is_digit d \<Longrightarrow> (of_char c :: nat) - 48 = of_char d - 48 \<Longrightarrow> c = d"
proof -
  assume a: "is_digit c" "is_digit d" "(of_char c :: nat) - 48 = of_char d - 48"
  then have "(of_char c :: nat) = of_char d" unfolding is_digit_def by arith
  then have "char_of (of_char c :: nat) = (char_of (of_char d :: nat) :: char)" by (rule arg_cong)
  then show "c = d" by simp
qed

lemma nat_val_less: "digits s \<Longrightarrow> nat_val s < 10 ^ length s"
proof (induction s)
  case (Cons c s)
  then obtain d where "d < 10" "(of_char c :: nat) - 48 = d" using digit_cases by auto
  then have "nat_val (c # s) < (d + 1) * 10 ^ length s" using Cons by (simp add: nat_val_Cons)
  also have "\<dots> \<le> 10 * 10 ^ length s" using \<open>d < 10\<close> by (intro mult_right_mono) simp_all
  finally show ?case by simp
qed simp

lemma digits_inj: "digits a \<Longrightarrow> digits b \<Longrightarrow> length a = length b \<Longrightarrow> nat_val a = nat_val b \<Longrightarrow> a = b"
proof (induction a arbitrary: b rule: rev_induct)
  case (snoc c a)
  then obtain d b' where b: "b = b' @ [d]" by (cases b rule: rev_cases) simp_all
  have cd: "is_digit c" "is_digit d" using snoc.prems by (simp_all add: b)
  obtain x y where xy: "x < 10" "y < 10" "(of_char c :: nat) - 48 = x" "(of_char d :: nat) - 48 = y"
    using digit_cases [OF cd(1)] digit_cases [OF cd(2)] by auto
  have "10 * nat_val a + x = 10 * nat_val b' + y" using snoc.prems(4) xy by (simp add: b nat_val_append)
  then have "x = y" "nat_val a = nat_val b'" using xy by arith+
  moreover from this have "a = b'" using snoc.prems b by (intro snoc.IH) simp_all
  ultimately show ?case using digit_eq [OF cd] xy b by simp
qed simp

lemma show_nat_digits [simp]: "digits (show_nat n)"
proof (induction n rule: show_nat.induct)
  case (1 n)
  then show ?case by (cases "n < 10") (simp_all add: show_nat.simps [of n])
qed

lemma show_nat_0 [simp]: "show_nat 0 = ''0''"
  by (subst show_nat.simps) (simp, code_simp)

lemma show_nat_nonempty [simp]: "show_nat n \<noteq> []"
  by (subst show_nat.simps) simp

lemma show_nat_inj [simp]: "show_nat m = show_nat n \<longleftrightarrow> m = n"
  by (metis nat_val_show)

text \<open>The canonical digit string of a number is the one without a leading zero.\<close>

lemma show_nat_unique:
  "digits a \<Longrightarrow> a \<noteq> [] \<Longrightarrow> hd a \<noteq> CHR ''0'' \<Longrightarrow> a = show_nat (nat_val a)"
proof (induction a rule: rev_induct)
  case (snoc c a)
  obtain x where x: "x < 10" "c = char_of (48 + x)" "(of_char c :: nat) - 48 = x" using snoc.prems digit_cases by auto
  show ?case
  proof (cases "a = []")
    case True
    then show ?thesis using x nat_val_append [of "[]" c] by (simp add: show_nat.simps [of x])
  next
    case False
    then have a: "a = show_nat (nat_val a)" using snoc by simp
    have "hd a \<noteq> CHR ''0''" using snoc.prems False by simp
    then have "nat_val a \<noteq> 0" using a show_nat_0 by (metis list.sel(1))
    then show ?thesis using a x show_nat.simps [of "10 * nat_val a + x"] by (simp add: nat_val_append)
  qed
qed simp

lemma nat_val_zeros: "nat_val (dropWhile (\<lambda>c. c = CHR ''0'') s) = nat_val s"
  by (induction s) (simp_all add: nat_val_Cons)

lemma nat_val_0: "digits s \<Longrightarrow> nat_val s = 0 \<longleftrightarrow> (\<forall>c \<in> set s. c = CHR ''0'')"
proof (induction s)
  case (Cons c s)
  then have "is_digit c" by simp
  then have "(of_char c :: nat) - 48 = 0 \<longleftrightarrow> c = CHR ''0''"
    using digit_eq [of c "CHR ''0''"] by (auto simp: is_digit_def)
  then show ?case using Cons by (auto simp: nat_val_Cons)
qed simp

lemma strip_zeros:
  assumes "digits s"
  shows "(let r = dropWhile (\<lambda>c. c = CHR ''0'') s in if r = [] then ''0'' else r) = show_nat (nat_val s)"
proof (cases "dropWhile (\<lambda>c. c = CHR ''0'') s = []")
  case True
  have "nat_val s = nat_val (dropWhile (\<lambda>c. c = CHR ''0'') s)" by (rule nat_val_zeros [symmetric])
  also have "\<dots> = 0" by (simp only: True nat_val_Nil)
  finally show ?thesis using True by simp
next
  case False
  then have "hd (dropWhile (\<lambda>c. c = CHR ''0'') s) \<noteq> CHR ''0''" using hd_dropWhile by blast
  moreover have "digits (dropWhile (\<lambda>c. c = CHR ''0'') s)"
    using assms set_dropWhileD by (fastforce simp: list_all_iff)
  ultimately have "dropWhile (\<lambda>c. c = CHR ''0'') s = show_nat (nat_val s)"
    using show_nat_unique [OF _ False] nat_val_zeros [of s] by simp
  then show ?thesis using False by (simp only: Let_def if_False)
qed

lemma show_nat_length:
  assumes "digits s" "s \<noteq> []"
  shows "length (show_nat (nat_val s)) \<le> length s"
proof -
  let ?r = "dropWhile (\<lambda>c. c = CHR ''0'') s"
  have "length (if ?r = [] then ''0'' else ?r) \<le> length s"
    using length_dropWhile_le [of "\<lambda>c. c = CHR ''0''" s] assms(2) by (cases s) (simp_all split: if_split)
  then show ?thesis using strip_zeros [OF assms(1)] by (simp add: Let_def)
qed

lemma length_pad_zero [simp]: "length (pad_zero w s) = max w (length s)"
  by (simp add: pad_zero_def)

lemma digits_pad_zero [simp]: "digits (pad_zero w s) \<longleftrightarrow> digits s"
  by (auto simp: pad_zero_def list_all_iff is_digit_def)

lemma pad_show: "digits s \<Longrightarrow> s \<noteq> [] \<Longrightarrow> pad_zero (length s) (show_nat (nat_val s)) = s"
  by (rule digits_inj) (simp_all add: nat_val_pad show_nat_length)

section \<open>Parsing\<close>

text \<open>\<open>str::parse\<close> of an unsigned integer below \<open>lim\<close>: an optional plus sign, then digits.\<close>

definition parse_unsigned :: "nat \<Rightarrow> string \<Rightarrow> nat option" where
  "parse_unsigned lim s0 =
     (let s = (case s0 of [] \<Rightarrow> [] | c # cs \<Rightarrow> if c = CHR ''+'' then cs else s0)
      in if s \<noteq> [] \<and> digits s \<and> nat_val s < lim then Some (nat_val s) else None)"

lemma parse_show [simp]: "parse_unsigned lim (show_nat n) = (if n < lim then Some n else None)"
proof -
  have "show_nat n \<noteq> CHR ''+'' # s" for s
  proof
    assume a: "show_nat n = CHR ''+'' # s"
    have "digits (CHR ''+'' # s)" using show_nat_digits [of n] by (simp only: a)
    then show False by (simp add: is_digit_def)
  qed
  then have "(case show_nat n of [] \<Rightarrow> [] | c # cs \<Rightarrow> if c = CHR ''+'' then cs else show_nat n) = show_nat n"
    by (simp split: list.split)
  then show ?thesis by (simp add: parse_unsigned_def)
qed

lemma trim_id: "(\<And>c. c \<in> set s \<Longrightarrow> \<not> is_space c) \<Longrightarrow> trim s = s"
proof -
  assume a: "\<And>c. c \<in> set s \<Longrightarrow> \<not> is_space c"
  have b: "dropWhile is_space t = t" if "\<And>c. c \<in> set t \<Longrightarrow> \<not> is_space c" for t using that by (cases t) simp_all
  have "dropWhile is_space s = s" "dropWhile is_space (rev s) = rev s" by (rule b, use a in simp)+
  then show ?thesis by (simp add: trim_def)
qed

lemma digit_not_space: "is_digit c \<Longrightarrow> \<not> is_space c"
  by (auto simp: is_digit_def is_space_def)

lemma trim_show [simp]: "trim (show_nat n) = show_nat n"
  using show_nat_digits [of n] by (intro trim_id) (auto simp: list_all_iff digit_not_space)

text \<open>\<open>to_string\<close> of a signed integer.\<close>

definition show_int :: "int \<Rightarrow> string" where
  "show_int i = (if i < 0 then CHR ''-'' # show_nat (nat (- i)) else show_nat (nat i))"

lemma show_nat_not_minus: "show_nat n \<noteq> CHR ''-'' # s"
proof
  assume a: "show_nat n = CHR ''-'' # s"
  have "digits (CHR ''-'' # s)" using show_nat_digits [of n] by (simp only: a)
  then show False by (simp add: is_digit_def)
qed

lemma show_int_inj [simp]: "show_int i = show_int j \<longleftrightarrow> i = j"
  by (auto simp: show_int_def show_nat_not_minus show_nat_not_minus [symmetric])

end
