(* ===== verification/Segment.thy ===== *)
theory Segment
  imports Fact Backend Number_Text "HOL-Library.Countable"
begin

text \<open>
  The fact-segment store of \<open>ekos/crates/ledger/src/segment/mod.rs\<close> on the local directory:
  frame codec, frame walk, opening with crash recovery, appending, sealing, reading and
  verification.  Serialisation (\<open>serde_json\<close>), compression (\<open>zstd\<close>) and \<open>SHA-256\<close> are the
  fields of a parameter record; \<open>seg_codec_ok\<close> states that they round trip, which is their
  documented behaviour.  Operations take the directory and return it, so a crash is a
  directory between two of their steps.
\<close>

section \<open>Data\<close>

datatype segment_error =
    SegIo string
  | SegJson
  | SegCorrupt string
  | SegBackend backend_error

type_synonym 'n ops = "(fact_op \<times> 'n fact) list"

record 'n batch =
  b_tx :: nat
  b_wall :: int
  b_ops :: "'n ops"

datatype 'n store_refresh = RefreshUnchanged | RefreshAdvanced "'n batch list" | RefreshReopen

record sealed_segment =
  sg_seq :: nat
  sg_len :: nat
  sg_sha256 :: string
  sg_tx_min :: nat
  sg_tx_max :: nat
  sg_batches :: nat

record sealed_check =
  sc_seq :: nat
  sc_tx_min :: nat
  sc_tx_max :: nat
  sc_ok :: bool
  sc_detail :: string

record manifest =
  mf_format_version :: nat
  mf_sealed :: "sealed_segment list"
  mf_attributes :: registry
  mf_dict_version :: "nat option"

record head =
  hd_active_seq :: nat
  hd_committed_len :: nat

record store =
  st_manifest :: manifest
  st_head :: head
  st_active :: bool
  st_next_tx :: nat
  st_seal_bytes :: nat
  st_dict :: "(nat \<times> bytes) option"

text \<open>
  The library calls.  \<open>zc_compress None\<close> is the plain encoder, \<open>zc_compress (Some d)\<close> the
  encoder prepared with dictionary \<open>d\<close>.
\<close>

record 'n seg_codec =
  zc_enc_ops :: "'n ops \<Rightarrow> bytes"
  zc_dec_ops :: "bytes \<Rightarrow> 'n ops option"
  zc_compress :: "bytes option \<Rightarrow> bytes \<Rightarrow> bytes"
  zc_decompress :: "bytes option \<Rightarrow> bytes \<Rightarrow> bytes option"
  zc_enc_manifest :: "manifest \<Rightarrow> bytes"
  zc_dec_manifest :: "bytes \<Rightarrow> manifest option"
  zc_enc_head :: "head \<Rightarrow> bytes"
  zc_dec_head :: "bytes \<Rightarrow> head option"
  zc_sha256 :: "bytes \<Rightarrow> string"

text \<open>The registry's index is not serialised (\<open>#[serde(skip)]\<close>); loading rebuilds it.\<close>

definition skip_index :: "manifest \<Rightarrow> manifest" where
  "skip_index m = m\<lparr>mf_attributes := (mf_attributes m)\<lparr>reg_index := Map.empty\<rparr>\<rparr>"

definition seg_codec_ok :: "'n seg_codec \<Rightarrow> bool" where
  "seg_codec_ok C \<longleftrightarrow>
     (\<forall>ops. zc_dec_ops C (zc_enc_ops C ops) = Some ops) \<and>
     (\<forall>d x. zc_decompress C d (zc_compress C d x) = Some x) \<and>
     (\<forall>m. zc_dec_manifest C (zc_enc_manifest C m) = Some (skip_index m)) \<and>
     (\<forall>h. zc_dec_head C (zc_enc_head C h) = Some h)"

section \<open>Names\<close>

definition seg_name :: "nat \<Rightarrow> string" where
  "seg_name seq = ''seg-'' @ pad_zero 6 (show_nat seq) @ ''.facts''"

definition seg_key :: "nat \<Rightarrow> string" where
  "seg_key seq = ''segments/'' @ seg_name seq"

definition segment_path :: "nat \<Rightarrow> string" where
  "segment_path seq = ''segments/'' @ seg_name seq"

definition SEGMENT_SEAL_BYTES :: nat where
  "SEGMENT_SEAL_BYTES = 8 * 1024 * 1024"

definition FRAME_VERSION :: byte where
  "FRAME_VERSION = 2"

definition FRAME_HEADER :: nat where
  "FRAME_HEADER = 1 + 8 + 8"

section \<open>Frame codec\<close>

definition i64_bytes :: "int \<Rightarrow> bytes" where
  "i64_bytes w = le_bytes 8 (nat (w mod 2 ^ 64))"

definition i64_val :: "bytes \<Rightarrow> int" where
  "i64_val bs = (let u = int (le_val bs) in if u < 2 ^ 63 then u else u - 2 ^ 64)"

definition encode_frame :: "'n seg_codec \<Rightarrow> (nat \<times> bytes) option \<Rightarrow> 'n batch \<Rightarrow> bytes" where
  "encode_frame C dict b =
     (let json = zc_enc_ops C (b_ops b);
          (dict_byte, body) =
            (case dict of
               Some (v, d) \<Rightarrow> (word_of_nat v :: byte, zc_compress C (Some d) json)
             | None \<Rightarrow> (0, zc_compress C None json));
          frame_len = (FRAME_HEADER + 1 + length body) mod 2 ^ 32
      in le_bytes 4 frame_len @ [FRAME_VERSION] @ le_bytes 8 (b_tx b) @ i64_bytes (b_wall b) @
         [dict_byte] @ body)"

definition decode_header :: "bytes \<Rightarrow> (nat \<times> int) option" where
  "decode_header frame =
     (if length frame < FRAME_HEADER \<or> frame ! 0 \<noteq> FRAME_VERSION then None
      else Some (le_val (slice 1 9 frame), i64_val (slice 9 17 frame)))"

definition decode_frame ::
  "'n seg_codec \<Rightarrow> (nat \<times> bytes) option \<Rightarrow> bytes \<Rightarrow> 'n batch option" where
  "decode_frame C dict frame =
     (case decode_header frame of
        None \<Rightarrow> None
      | Some (tx, wall) \<Rightarrow>
          (case drop FRAME_HEADER frame of
             [] \<Rightarrow> None
           | dict_byte # compressed \<Rightarrow>
               (case (if dict_byte = 0 then zc_decompress C None compressed
                      else (case dict of
                              Some (v, d) \<Rightarrow>
                                if dict_byte = word_of_nat v then zc_decompress C (Some d) compressed
                                else None
                            | None \<Rightarrow> None)) of
                  None \<Rightarrow> None
                | Some json \<Rightarrow>
                    (case zc_dec_ops C json of
                       None \<Rightarrow> None
                     | Some ops \<Rightarrow> Some \<lparr>b_tx = tx, b_wall = wall, b_ops = ops\<rparr>))))"

text \<open>
  \<open>walk_frames\<close>: the visitor's captured state is threaded, and its result \<open>false\<close> ends the walk
  at the last good boundary.
\<close>

function walk_frames ::
  "(bytes \<Rightarrow> 's \<Rightarrow> bool \<times> 's) \<Rightarrow> bytes \<Rightarrow> nat \<Rightarrow> 's \<Rightarrow> nat \<times> 's" where
  "walk_frames visit bs pos s =
     (if pos + 4 \<le> length bs then
        (let frame_len = le_val (slice pos (pos + 4) bs)
         in if frame_len < FRAME_HEADER \<or> pos + 4 + frame_len > length bs then (pos, s)
            else (case visit (slice (pos + 4) (pos + 4 + frame_len) bs) s of
                    (False, s') \<Rightarrow> (pos, s')
                  | (True, s') \<Rightarrow> walk_frames visit bs (pos + 4 + frame_len) s'))
      else (pos, s))"
  by pat_completeness auto
termination
  by (relation "measure (\<lambda>(visit, bs, pos, s). length bs - pos)") auto

declare walk_frames.simps [simp del]

definition scan_batches_filtered ::
  "'n seg_codec \<Rightarrow> bytes \<Rightarrow> (nat \<Rightarrow> bool) \<Rightarrow> (nat \<times> bytes) option \<Rightarrow> nat \<times> 'n batch list" where
  "scan_batches_filtered C bs keep dict =
     walk_frames (\<lambda>frame batches.
       case decode_header frame of
         None \<Rightarrow> (False, batches)
       | Some (tx, _) \<Rightarrow>
           if keep tx then
             (case decode_frame C dict frame of
                Some batch \<Rightarrow> (True, batches @ [batch])
              | None \<Rightarrow> (False, batches))
           else (True, batches)) bs 0 []"

definition scan_slice ::
  "'n seg_codec \<Rightarrow> bytes \<Rightarrow> (nat \<times> bytes) option \<Rightarrow> nat \<times> 'n batch list" where
  "scan_slice C bs dict = scan_batches_filtered C bs (\<lambda>_. True) dict"

definition scan_headers_slice :: "bytes \<Rightarrow> nat \<times> (nat \<times> int) list" where
  "scan_headers_slice bs =
     walk_frames (\<lambda>frame headers.
       case decode_header frame of
         Some h \<Rightarrow> (True, headers @ [h])
       | None \<Rightarrow> (False, headers)) bs 0 []"

section \<open>Metadata files\<close>

definition default_manifest :: manifest where
  "default_manifest = \<lparr>mf_format_version = 1, mf_sealed = [], mf_attributes = registry_new,
                       mf_dict_version = None\<rparr>"

definition load_manifest :: "'n seg_codec \<Rightarrow> 's backend \<Rightarrow> 's \<Rightarrow> segment_error + manifest" where
  "load_manifest C B s =
     (if \<not> be_exists B ''manifest.json'' s then Inr default_manifest
      else (case be_get B ''manifest.json'' s of
              Inl e \<Rightarrow> Inl (SegBackend e)
            | Inr bs \<Rightarrow>
                (case zc_dec_manifest C bs of
                   None \<Rightarrow> Inl SegJson
                 | Some m \<Rightarrow> Inr (m\<lparr>mf_attributes := reindex (mf_attributes m)\<rparr>))))"

definition save_manifest :: "'n seg_codec \<Rightarrow> 's backend \<Rightarrow> manifest \<Rightarrow> 's \<Rightarrow> 's" where
  "save_manifest C B m s = be_publish B ''manifest.json'' (zc_enc_manifest C m) s"

definition atomic_write :: "string \<Rightarrow> bytes \<Rightarrow> fs \<Rightarrow> fs" where
  "atomic_write name bs fs = (fs(name @ ''.tmp'' := None))(name \<mapsto> bs)"

definition write_head :: "'n seg_codec \<Rightarrow> head \<Rightarrow> fs \<Rightarrow> fs" where
  "write_head C h fs = atomic_write ''HEAD'' (zc_enc_head C h) fs"

definition hash_file :: "'n seg_codec \<Rightarrow> string \<Rightarrow> fs \<Rightarrow> segment_error + string \<times> nat" where
  "hash_file C path fs =
     (case fs path of None \<Rightarrow> Inl (SegIo path) | Some bs \<Rightarrow> Inr (zc_sha256 C bs, length bs))"

definition mapped_open :: "string \<Rightarrow> nat \<Rightarrow> fs \<Rightarrow> segment_error + bytes" where
  "mapped_open path expected_len fs =
     (case fs path of
        None \<Rightarrow> Inl (SegIo path)
      | Some bs \<Rightarrow> if length bs \<noteq> expected_len then Inl (SegCorrupt ''refusing to map'') else Inr bs)"

section \<open>Opening\<close>

definition file_bytes :: "string \<Rightarrow> fs \<Rightarrow> bytes" where
  "file_bytes path fs = (case fs path of None \<Rightarrow> [] | Some bs \<Rightarrow> bs)"

definition active_seq_of :: "manifest \<Rightarrow> nat" where
  "active_seq_of m = (if mf_sealed m = [] then 0 else sg_seq (last (mf_sealed m)) + 1)"

definition load_dict :: "manifest \<Rightarrow> fs \<Rightarrow> segment_error + (nat \<times> bytes) option" where
  "load_dict m fs =
     (case mf_dict_version m of
        None \<Rightarrow> Inr None
      | Some v \<Rightarrow> (case be_get local_fs ''dict.bin'' fs of
                     Inl e \<Rightarrow> Inl (SegBackend e)
                   | Inr d \<Rightarrow> Inr (Some (v, d))))"

text \<open>Pull a published active segment and its \<open>HEAD\<close> when the local copy is absent or empty.\<close>

definition pull_active :: "nat \<Rightarrow> fs \<Rightarrow> fs" where
  "pull_active seq fs =
     (if file_bytes (segment_path seq) fs = [] then
        (case be_get local_fs (seg_key seq) fs of
           Inr bs \<Rightarrow>
             if bs \<noteq> [] then
               (let fs1 = fs(segment_path seq \<mapsto> bs)
                in case be_get local_fs ''HEAD'' fs1 of
                     Inr hb \<Rightarrow> fs1(''HEAD'' \<mapsto> hb)
                   | Inl _ \<Rightarrow> fs1)
             else fs
         | Inl _ \<Rightarrow> fs)
      else fs)"

definition stored_head :: "'n seg_codec \<Rightarrow> fs \<Rightarrow> head option" where
  "stored_head C fs = (case fs ''HEAD'' of None \<Rightarrow> None | Some b \<Rightarrow> zc_dec_head C b)"

definition open_inner ::
  "'n seg_codec \<Rightarrow> nat \<Rightarrow> bool \<Rightarrow> fs \<Rightarrow> (segment_error + store) \<times> fs" where
  "open_inner C seal_bytes read_only fs0 =
     (case load_manifest C local_fs fs0 of
        Inl e \<Rightarrow> (Inl e, fs0)
      | Inr m \<Rightarrow>
          (case load_dict m fs0 of
             Inl e \<Rightarrow> (Inl e, fs0)
           | Inr dict \<Rightarrow>
               (let seq = active_seq_of m;
                    fs = pull_active seq fs0;
                    path = segment_path seq
                in if (case stored_head C fs of Some h \<Rightarrow> hd_active_seq h \<noteq> seq | None \<Rightarrow> False)
                   then (Inl (SegCorrupt ''HEAD names another segment than the manifest implies''), fs)
                   else
                     (let bs = file_bytes path fs;
                          fs1 = (if read_only then fs else fs(path \<mapsto> bs));
                          (valid_len, batches) = scan_slice C bs dict;
                          fs2 = (if \<not> read_only \<and> valid_len < length bs
                                 then fs1(path \<mapsto> take valid_len bs) else fs1);
                          hd = \<lparr>hd_active_seq = seq, hd_committed_len = valid_len\<rparr>;
                          fs3 = (if read_only then fs2 else write_head C hd fs2);
                          sealed_tx_max = (if mf_sealed m = [] then None
                                           else Some (sg_tx_max (last (mf_sealed m))));
                          active_tx_max = (if batches = [] then None else Some (b_tx (last batches)));
                          next_tx = (case max sealed_tx_max active_tx_max of
                                       None \<Rightarrow> 0 | Some t \<Rightarrow> t + 1)
                      in (Inr \<lparr>st_manifest = m, st_head = hd, st_active = (\<not> read_only),
                               st_next_tx = next_tx, st_seal_bytes = seal_bytes, st_dict = dict\<rparr>, fs3)))))"

definition open_store :: "'n seg_codec \<Rightarrow> fs \<Rightarrow> (segment_error + store) \<times> fs" where
  "open_store C fs = open_inner C SEGMENT_SEAL_BYTES False fs"

section \<open>Writing\<close>

definition set_dictionary ::
  "'n seg_codec \<Rightarrow> bytes \<Rightarrow> store \<Rightarrow> fs \<Rightarrow> (segment_error + unit) \<times> store \<times> fs" where
  "set_dictionary C d st fs =
     (if hd_committed_len (st_head st) \<noteq> 0 \<or> mf_sealed (st_manifest st) \<noteq> []
      then (Inl (SegCorrupt ''dictionary must be installed before any batch is written''), st, fs)
      else
        (let fs1 = be_publish local_fs ''dict.bin'' d fs;
             m = (st_manifest st)\<lparr>mf_dict_version := Some 1\<rparr>;
             fs2 = save_manifest C local_fs m fs1
         in (Inr (), st\<lparr>st_manifest := m, st_dict := Some (1, d)\<rparr>, fs2)))"

text \<open>Sealing, up to and including the new manifest.\<close>

definition seal_publish ::
  "'n seg_codec \<Rightarrow> store \<Rightarrow> fs \<Rightarrow> (segment_error + unit) \<times> store \<times> fs" where
  "seal_publish C st fs =
     (let seq = hd_active_seq (st_head st); path = segment_path seq
      in case hash_file C path fs of
           Inl e \<Rightarrow> (Inl e, st, fs)
         | Inr (sha, len) \<Rightarrow>
             if len \<noteq> hd_committed_len (st_head st)
             then (Inl (SegCorrupt ''segment length differs from the watermark''), st, fs)
             else
               (case mapped_open path len fs of
                  Inl e \<Rightarrow> (Inl e, st, fs)
                | Inr bs \<Rightarrow>
                    (let headers = snd (scan_headers_slice bs)
                     in if headers = [] then (Inl (SegCorrupt ''sealed segment has no batches''), st, fs)
                        else
                          (case be_publish_sealed local_fs (seg_key seq) fs path fs of
                             (Inl e, fs1) \<Rightarrow> (Inl (SegBackend e), st, fs1)
                           | (Inr _, fs1) \<Rightarrow>
                               (let m = (st_manifest st)\<lparr>mf_sealed := mf_sealed (st_manifest st) @
                                       [\<lparr>sg_seq = seq, sg_len = len, sg_sha256 = sha,
                                         sg_tx_min = fst (hd headers), sg_tx_max = fst (last headers),
                                         sg_batches = length headers\<rparr>]\<rparr>
                                in (Inr (), st\<lparr>st_manifest := m\<rparr>, save_manifest C local_fs m fs1))))))"

text \<open>Sealing, the roll to a fresh active segment.\<close>

definition seal_roll :: "'n seg_codec \<Rightarrow> store \<Rightarrow> fs \<Rightarrow> store \<times> fs" where
  "seal_roll C st fs =
     (let new_seq = hd_active_seq (st_head st) + 1;
          path = segment_path new_seq;
          fs1 = fs(path \<mapsto> file_bytes path fs);
          h = \<lparr>hd_active_seq = new_seq, hd_committed_len = 0\<rparr>
      in (st\<lparr>st_head := h\<rparr>, write_head C h fs1))"

definition seal_active ::
  "'n seg_codec \<Rightarrow> store \<Rightarrow> fs \<Rightarrow> (segment_error + unit) \<times> store \<times> fs" where
  "seal_active C st fs =
     (if hd_committed_len (st_head st) = 0 then (Inr (), st, fs)
      else if \<not> st_active st then (Inl (SegCorrupt ''read-only segment store''), st, fs)
      else (case seal_publish C st fs of
              (Inl e, st1, fs1) \<Rightarrow> (Inl e, st1, fs1)
            | (Inr _, st1, fs1) \<Rightarrow> (Inr (), seal_roll C st1 fs1)))"

definition append_with_seal ::
  "'n seg_codec \<Rightarrow> 'n ops \<Rightarrow> int \<Rightarrow> store \<Rightarrow> fs \<Rightarrow> (segment_error + nat \<times> bool) \<times> store \<times> fs" where
  "append_with_seal C ops wall st fs =
     (let tx = st_next_tx st;
          frame = encode_frame C (st_dict st) \<lparr>b_tx = tx, b_wall = wall, b_ops = ops\<rparr>;
          path = segment_path (hd_active_seq (st_head st))
      in if \<not> st_active st then (Inl (SegCorrupt ''read-only segment store''), st, fs)
         else
           (let fs1 = fs(path \<mapsto> file_bytes path fs @ frame);
                h = (st_head st)\<lparr>hd_committed_len := hd_committed_len (st_head st) + length frame\<rparr>;
                st1 = st\<lparr>st_next_tx := st_next_tx st + 1, st_head := h\<rparr>;
                fs2 = write_head C h fs1
            in if hd_committed_len h \<ge> st_seal_bytes st1 then
                 (case seal_active C st1 fs2 of
                    (Inl e, st2, fs3) \<Rightarrow> (Inl e, st2, fs3)
                  | (Inr _, st2, fs3) \<Rightarrow> (Inr (tx, True), st2, fs3))
               else (Inr (tx, False), st1, fs2)))"

definition persist_manifest :: "'n seg_codec \<Rightarrow> store \<Rightarrow> fs \<Rightarrow> fs" where
  "persist_manifest C st fs = save_manifest C local_fs (st_manifest st) fs"

section \<open>Reading\<close>

definition read_active_committed :: "store \<Rightarrow> fs \<Rightarrow> bytes" where
  "read_active_committed st fs =
     take (hd_committed_len (st_head st)) (file_bytes (segment_path (hd_active_seq (st_head st))) fs)"

definition active_batches :: "'n seg_codec \<Rightarrow> (nat \<Rightarrow> bool) \<Rightarrow> store \<Rightarrow> fs \<Rightarrow> 'n batch list" where
  "active_batches C keep st fs =
     snd (scan_batches_filtered C (read_active_committed st fs) keep (st_dict st))"

definition sealed_bytes :: "sealed_segment \<Rightarrow> fs \<Rightarrow> segment_error + bytes" where
  "sealed_bytes s fs =
     (case fst (be_fetch local_fs (seg_key (sg_seq s)) fs) of
        Inl e \<Rightarrow> Inl (SegIo (seg_key (sg_seq s)))
      | Inr _ \<Rightarrow> mapped_open (seg_key (sg_seq s)) (sg_len s) fs)"

definition batches_after ::
  "'n seg_codec \<Rightarrow> nat option \<Rightarrow> store \<Rightarrow> fs \<Rightarrow> segment_error + 'n batch list" where
  "batches_after C after st fs =
     (let keep = (\<lambda>tx. case after of None \<Rightarrow> True | Some a \<Rightarrow> a < tx)
      in case map_res (\<lambda>s.
                if \<not> keep (sg_tx_max s) then Inr []
                else (case sealed_bytes s fs of
                        Inl e \<Rightarrow> Inl e
                      | Inr bs \<Rightarrow>
                          (let (valid, batches) = scan_batches_filtered C bs keep (st_dict st)
                           in if valid \<noteq> sg_len s
                              then Inl (SegCorrupt ''sealed segment has invalid frames'')
                              else Inr batches)))
              (mf_sealed (st_manifest st)) of
           Inl e \<Rightarrow> Inl e
         | Inr bss \<Rightarrow> Inr (concat bss @ active_batches C keep st fs))"

definition all_batches :: "'n seg_codec \<Rightarrow> store \<Rightarrow> fs \<Rightarrow> segment_error + 'n batch list" where
  "all_batches C st fs = batches_after C None st fs"

definition batch_headers ::
  "'n seg_codec \<Rightarrow> store \<Rightarrow> fs \<Rightarrow> segment_error + (nat \<times> int) list" where
  "batch_headers C st fs =
     (case map_res (\<lambda>s.
              case sealed_bytes s fs of
                Inl e \<Rightarrow> Inl e
              | Inr bs \<Rightarrow>
                  (let (valid, headers) = scan_headers_slice bs
                   in if valid \<noteq> sg_len s
                      then Inl (SegCorrupt ''sealed segment has invalid frames'')
                      else Inr headers))
            (mf_sealed (st_manifest st)) of
        Inl e \<Rightarrow> Inl e
      | Inr hss \<Rightarrow> Inr (concat hss @ snd (scan_headers_slice (read_active_committed st fs))))"

definition refresh_read_only ::
  "'n seg_codec \<Rightarrow> store \<Rightarrow> fs \<Rightarrow> (segment_error + 'n store_refresh) \<times> store" where
  "refresh_read_only C st fs =
     (let seq = hd_active_seq (st_head st); committed = hd_committed_len (st_head st)
      in if st_active st then (Inr RefreshUnchanged, st)
         else if (case stored_head C fs of Some h \<Rightarrow> hd_active_seq h \<noteq> seq | None \<Rightarrow> False)
         then (Inr RefreshReopen, st)
         else
           (let bs = file_bytes (segment_path seq) fs; len = length bs
            in if len < committed then (Inr RefreshReopen, st)
               else if len = committed then (Inr RefreshUnchanged, st)
               else
                 (let tail = drop committed bs
                  in case load_manifest C local_fs fs of
                       Inl e \<Rightarrow> (Inl e, st)
                     | Inr fresh \<Rightarrow>
                         if length (mf_sealed fresh) \<noteq> length (mf_sealed (st_manifest st)) \<or>
                            mf_dict_version fresh \<noteq> mf_dict_version (st_manifest st)
                         then (Inr RefreshReopen, st)
                         else
                           (let st1 = st\<lparr>st_manifest := (st_manifest st)\<lparr>mf_attributes := mf_attributes fresh\<rparr>\<rparr>;
                                (valid, batches) =
                                  scan_batches_filtered C tail (\<lambda>_. True) (st_dict st)
                            in if valid = 0 then (Inr RefreshUnchanged, st1)
                               else
                                 (Inr (RefreshAdvanced batches),
                                  st1\<lparr>st_head := (st_head st)\<lparr>hd_committed_len := committed + valid\<rparr>,
                                      st_next_tx := (if batches = [] then st_next_tx st
                                                     else max (st_next_tx st) (b_tx (last batches) + 1))\<rparr>)))))"

definition check_sealed :: "'n seg_codec \<Rightarrow> fs \<Rightarrow> sealed_segment \<Rightarrow> sealed_check" where
  "check_sealed C fs s =
     (let row = (\<lambda>ok d. \<lparr>sc_seq = sg_seq s, sc_tx_min = sg_tx_min s, sc_tx_max = sg_tx_max s,
                         sc_ok = ok, sc_detail = d\<rparr>)
      in case hash_file C (seg_key (sg_seq s)) fs of
           Inl _ \<Rightarrow> row False ''unreadable''
         | Inr (sha, len) \<Rightarrow>
             if len = sg_len s \<and> sha = sg_sha256 s then row True ''OK''
             else row False ''fails verification'')"

definition verify_sealed_report :: "'n seg_codec \<Rightarrow> store \<Rightarrow> fs \<Rightarrow> sealed_check list" where
  "verify_sealed_report C st fs = map (check_sealed C fs) (mf_sealed (st_manifest st))"

definition verify_sealed :: "'n seg_codec \<Rightarrow> store \<Rightarrow> fs \<Rightarrow> segment_error + unit" where
  "verify_sealed C st fs =
     (case find (\<lambda>c. \<not> sc_ok c) (verify_sealed_report C st fs) of
        Some c \<Rightarrow> Inl (SegCorrupt (sc_detail c))
      | None \<Rightarrow> Inr ())"

definition publish_active :: "store \<Rightarrow> fs \<Rightarrow> 's backend \<Rightarrow> 's \<Rightarrow> 's" where
  "publish_active st fs B s =
     (let key = segment_path (hd_active_seq (st_head st));
          s1 = (case fs key of Some bs \<Rightarrow> be_publish B key bs s | None \<Rightarrow> s)
      in (case fs ''HEAD'' of Some bs \<Rightarrow> be_publish B ''HEAD'' bs s1 | None \<Rightarrow> s1))"

section \<open>Names of segments are distinct\<close>

lemma seg_key_inj [simp]: "seg_key i = seg_key j \<longleftrightarrow> i = j"
proof
  assume "seg_key i = seg_key j"
  then have "pad_zero 6 (show_nat i) = pad_zero 6 (show_nat j)" by (simp add: seg_key_def seg_name_def)
  then show "i = j" by (metis nat_val_pad nat_val_show)
qed simp

lemma segment_path_eq [simp]: "segment_path i = seg_key i"
  by (simp add: segment_path_def seg_key_def)

lemma with_extension_names [simp]:
  "with_extension ''manifest.json'' ''tmp'' = ''manifest.tmp''"
  "with_extension ''dict.bin'' ''tmp'' = ''dict.tmp''"
  "with_extension ''HEAD'' ''tmp'' = ''HEAD.tmp''"
  by (simp_all add: with_extension_def dir_name_def file_name_def file_stem_def Let_def)

lemma seg_key_names [simp]:
  "seg_key i \<noteq> ''manifest.json''" "seg_key i \<noteq> ''manifest.tmp''" "seg_key i \<noteq> ''HEAD''"
  "seg_key i \<noteq> ''HEAD.tmp''" "seg_key i \<noteq> ''dict.bin''" "seg_key i \<noteq> ''dict.tmp''"
  by (simp_all add: seg_key_def)

lemma seg_key_names' [simp]:
  "''manifest.json'' \<noteq> seg_key i" "''manifest.tmp'' \<noteq> seg_key i" "''HEAD'' \<noteq> seg_key i"
  "''HEAD.tmp'' \<noteq> seg_key i" "''dict.bin'' \<noteq> seg_key i" "''dict.tmp'' \<noteq> seg_key i"
  by (metis seg_key_names)+

section \<open>Frames\<close>

definition frame_fits :: "'n seg_codec \<Rightarrow> (nat \<times> bytes) option \<Rightarrow> 'n batch \<Rightarrow> bool" where
  "frame_fits C dict b \<longleftrightarrow> b_tx b < 2 ^ 64 \<and> - (2 ^ 63) \<le> b_wall b \<and> b_wall b < 2 ^ 63 \<and>
     length (encode_frame C dict b) < 2 ^ 32"

definition dict_ok :: "(nat \<times> bytes) option \<Rightarrow> bool" where
  "dict_ok dict \<longleftrightarrow> (case dict of None \<Rightarrow> True | Some (v, d) \<Rightarrow> 0 < v \<and> v < 256)"

definition frame_payload :: "'n seg_codec \<Rightarrow> (nat \<times> bytes) option \<Rightarrow> 'n batch \<Rightarrow> bytes" where
  "frame_payload C dict b = drop 4 (encode_frame C dict b)"

lemma i64_round_trip:
  assumes "- (2 ^ 63) \<le> w" "w < 2 ^ 63"
  shows "i64_val (i64_bytes w) = w"
proof -
  have m: "w mod 2 ^ 64 = (if 0 \<le> w then w else w + 2 ^ 64)"
    using assms mod_pos_pos_trivial [of w "2 ^ 64"] mod_pos_pos_trivial [of "w + 2 ^ 64" "2 ^ 64"] by auto
  then have "nat (w mod 2 ^ 64) < 256 ^ 8" using assms by auto
  then have "int (le_val (i64_bytes w)) = w mod 2 ^ 64"
    by (simp add: i64_bytes_def le_val_le_bytes_id)
  then show ?thesis using m assms by (auto simp: i64_val_def Let_def)
qed

lemma length_i64_bytes [simp]: "length (i64_bytes w) = 8"
  by (simp add: i64_bytes_def)

lemma encode_frame_split:
  obtains body dict_byte where
    "encode_frame C dict b = le_bytes 4 ((18 + length body) mod 2 ^ 32) @ frame_payload C dict b"
    "frame_payload C dict b =
       [FRAME_VERSION] @ le_bytes 8 (b_tx b) @ i64_bytes (b_wall b) @ [dict_byte] @ body"
    "(dict_byte, body) = (case dict of
       Some (v, d) \<Rightarrow> (word_of_nat v, zc_compress C (Some d) (zc_enc_ops C (b_ops b)))
     | None \<Rightarrow> (0, zc_compress C None (zc_enc_ops C (b_ops b))))"
proof -
  obtain dict_byte body where db: "(case dict of
       Some (v, d) \<Rightarrow> (word_of_nat v, zc_compress C (Some d) (zc_enc_ops C (b_ops b)))
     | None \<Rightarrow> (0, zc_compress C None (zc_enc_ops C (b_ops b)))) = (dict_byte :: byte, body)"
    by fastforce
  have e: "encode_frame C dict b = le_bytes 4 ((18 + length body) mod 2 ^ 32) @ [FRAME_VERSION] @
      le_bytes 8 (b_tx b) @ i64_bytes (b_wall b) @ [dict_byte] @ body"
    using db by (simp add: encode_frame_def Let_def FRAME_HEADER_def)
  show ?thesis by (rule that [of body dict_byte]) (use db in \<open>simp_all add: e frame_payload_def\<close>)
qed

lemma frame_payload_length: "frame_fits C dict b \<Longrightarrow>
  encode_frame C dict b = le_bytes 4 (length (frame_payload C dict b)) @ frame_payload C dict b \<and>
  18 \<le> length (frame_payload C dict b) \<and> length (frame_payload C dict b) < 2 ^ 32"
  by (rule encode_frame_split [of C dict b]) (simp add: frame_fits_def)

lemma decode_header_payload:
  assumes "frame_fits C dict b"
  shows "decode_header (frame_payload C dict b) = Some (b_tx b, b_wall b)"
proof (rule encode_frame_split [of C dict b])
  fix body dict_byte
  assume p: "frame_payload C dict b =
    [FRAME_VERSION] @ le_bytes 8 (b_tx b) @ i64_bytes (b_wall b) @ [dict_byte] @ body"
  have "slice 1 9 (frame_payload C dict b) = le_bytes 8 (b_tx b)"
    "slice 9 17 (frame_payload C dict b) = i64_bytes (b_wall b)"
    by (simp_all add: p slice_def drop_Cons')
  then show ?thesis
    using assms i64_round_trip [of "b_wall b"] le_val_le_bytes_id [of "b_tx b" 8] p
    by (simp add: decode_header_def FRAME_HEADER_def frame_fits_def)
qed

lemma decode_frame_payload:
  assumes "seg_codec_ok C" "dict_ok dict" "frame_fits C dict b"
  shows "decode_frame C dict (frame_payload C dict b) = Some b"
proof (rule encode_frame_split [of C dict b])
  fix body dict_byte
  assume p: "frame_payload C dict b =
      [FRAME_VERSION] @ le_bytes 8 (b_tx b) @ i64_bytes (b_wall b) @ [dict_byte] @ body"
    and db: "(dict_byte, body) = (case dict of
       Some (v, d) \<Rightarrow> (word_of_nat v, zc_compress C (Some d) (zc_enc_ops C (b_ops b)))
     | None \<Rightarrow> (0, zc_compress C None (zc_enc_ops C (b_ops b))))"
  have d: "drop FRAME_HEADER (frame_payload C dict b) = dict_byte # body"
    by (simp add: p FRAME_HEADER_def drop_Cons')
  have nz: "(word_of_nat v :: byte) \<noteq> 0" if "0 < v" "v < 256" for v
    using that by (auto simp: word_of_nat_eq_0_iff dest: nat_dvd_not_less)
  show ?thesis
    using db assms d decode_header_payload [OF assms(3)]
    by (cases dict) (auto simp: decode_frame_def seg_codec_ok_def dict_ok_def nz)
qed

definition frames :: "'n seg_codec \<Rightarrow> (nat \<times> bytes) option \<Rightarrow> 'n batch list \<Rightarrow> bytes" where
  "frames C dict bs = concat (map (encode_frame C dict) bs)"

lemma frames_simps [simp]:
  "frames C dict [] = []"
  "frames C dict (b # bs) = encode_frame C dict b @ frames C dict bs"
  "frames C dict (bs @ bs') = frames C dict bs @ frames C dict bs'"
  by (simp_all add: frames_def)

section \<open>Walking frames\<close>

text \<open>A tail on which the walk stops: the start of a frame that is not all there.\<close>

definition incomplete :: "bytes \<Rightarrow> bool" where
  "incomplete rest \<longleftrightarrow> length rest < 4 \<or> le_val (take 4 rest) < FRAME_HEADER \<or>
     length rest < 4 + le_val (take 4 rest)"

lemma incomplete_Nil [simp]: "incomplete []"
  by (simp add: incomplete_def)

lemma incomplete_torn:
  assumes "frame_fits C dict b" "k < length (encode_frame C dict b)"
  shows "incomplete (take k (encode_frame C dict b))"
proof (cases "k < 4")
  case True
  then show ?thesis by (auto simp: incomplete_def min_def)
next
  case False
  let ?p = "frame_payload C dict b"
  have e: "encode_frame C dict b = le_bytes 4 (length ?p) @ ?p" "length ?p < 2 ^ 32"
    using frame_payload_length [OF assms(1)] by blast+
  have "take 4 (take k (encode_frame C dict b)) = le_bytes 4 (length ?p)"
    using False e(1) by (simp add: min_absorb1)
  then have "le_val (take 4 (take k (encode_frame C dict b))) = length ?p"
    using e(2) by (simp add: le_val_le_bytes_id)
  then have "le_val (take 4 (take k (encode_frame C dict b))) = length (encode_frame C dict b) - 4"
    using e(1) by (metis add_diff_cancel_left' length_append length_le_bytes)
  moreover have "length (take k (encode_frame C dict b)) = k" using assms(2) by simp
  ultimately show ?thesis using assms(2) False unfolding incomplete_def by linarith
qed

lemma slice_append [simp]: "slice (length pre) (length pre + n) (pre @ xs) = take n xs"
  by (simp add: slice_def)

lemma walk_frames_end:
  assumes "incomplete rest"
  shows "walk_frames visit (pre @ rest) (length pre) s = (length pre, s)"
  using assms by (cases "length rest < 4")
    (auto simp: walk_frames.simps [of visit "pre @ rest"] incomplete_def Let_def)

lemma walk_frames_step:
  assumes "frame_fits C dict b"
  shows "walk_frames visit (pre @ encode_frame C dict b @ rest) (length pre) s =
    (case visit (frame_payload C dict b) s of
       (False, s') \<Rightarrow> (length pre, s')
     | (True, s') \<Rightarrow> walk_frames visit (pre @ encode_frame C dict b @ rest)
                        (length pre + length (encode_frame C dict b)) s')"
proof -
  let ?p = "frame_payload C dict b" and ?f = "encode_frame C dict b"
  let ?bs = "pre @ ?f @ rest"
  have e: "?f = le_bytes 4 (length ?p) @ ?p" "18 \<le> length ?p" "length ?p < 2 ^ 32"
    using frame_payload_length [OF assms] by blast+
  have len: "length ?f = 4 + length ?p" by (subst e(1)) simp
  have s1: "slice (length pre) (length pre + 4) ?bs = le_bytes 4 (length ?p)"
    by (subst e(1)) (simp add: slice_def)
  have pos: "length pre + 4 + length ?p = length pre + length ?f" using len by simp
  have s2: "slice (length pre + 4) (length pre + length ?f) ?bs = ?p"
    unfolding pos [symmetric] by (subst e(1)) (simp add: slice_def)
  have v: "le_val (le_bytes 4 (length ?p)) = length ?p" using e(3) by (simp add: le_val_le_bytes_id)
  have c: "(length pre + 4 \<le> length ?bs) = True" "(length ?p < FRAME_HEADER) = False"
    "(length ?bs < length pre + length ?f) = False"
    using e(2) len by (simp_all add: FRAME_HEADER_def)
  show ?thesis
    by (simp only: walk_frames.simps [of visit ?bs "length pre" s] Let_def s1 v pos s2 c if_True if_False
        simp_thms)
qed

text \<open>A visitor that accepts every payload folds over the batches and stops at the torn tail.\<close>

lemma walk_frames_all:
  assumes "\<forall>b \<in> set bs. frame_fits C dict b" "incomplete torn"
    and "\<And>b s. b \<in> set bs \<Longrightarrow> visit (frame_payload C dict b) s = (True, g b s)"
  shows "walk_frames visit (pre @ frames C dict bs @ torn) (length pre) s =
    (length pre + length (frames C dict bs), fold g bs s)"
  using assms(1,3)
proof (induction bs arbitrary: pre s)
  case Nil
  then show ?case using walk_frames_end [OF assms(2)] by simp
next
  case (Cons b bs)
  let ?f = "encode_frame C dict b"
  have "walk_frames visit (pre @ frames C dict (b # bs) @ torn) (length pre) s =
      walk_frames visit ((pre @ ?f) @ frames C dict bs @ torn) (length (pre @ ?f)) (g b s)"
    using walk_frames_step [of C dict b visit pre "frames C dict bs @ torn" s] Cons.prems by simp
  also have "\<dots> = (length (pre @ ?f) + length (frames C dict bs), fold g bs (g b s))"
    by (rule Cons.IH) (use Cons.prems in auto)
  finally show ?case by simp
qed

lemma scan_batches_frames:
  assumes "seg_codec_ok C" "dict_ok dict" "\<forall>b \<in> set bs. frame_fits C dict b" "incomplete torn"
  shows "scan_batches_filtered C (frames C dict bs @ torn) keep dict =
    (length (frames C dict bs), filter (\<lambda>b. keep (b_tx b)) bs)"
proof -
  let ?g = "\<lambda>b acc. if keep (b_tx b) then acc @ [b] else acc"
  have "fold ?g bs acc = acc @ filter (\<lambda>b. keep (b_tx b)) bs" for acc
    by (induction bs arbitrary: acc) auto
  moreover have "scan_batches_filtered C (frames C dict bs @ torn) keep dict =
      (length (frames C dict bs), fold ?g bs [])"
    unfolding scan_batches_filtered_def
    using walk_frames_all [OF assms(3,4), where pre = "[]" and g = ?g and s = "[]" and visit = "\<lambda>frame batches.
       case decode_header frame of
         None \<Rightarrow> (False, batches)
       | Some (tx, _) \<Rightarrow>
           if keep tx then
             (case decode_frame C dict frame of
                Some batch \<Rightarrow> (True, batches @ [batch])
              | None \<Rightarrow> (False, batches))
           else (True, batches)"] assms
    by (simp add: decode_header_payload decode_frame_payload)
  ultimately show ?thesis by simp
qed

lemma scan_headers_frames:
  assumes "\<forall>b \<in> set bs. frame_fits C dict b" "incomplete torn"
  shows "scan_headers_slice (frames C dict bs @ torn) =
    (length (frames C dict bs), map (\<lambda>b. (b_tx b, b_wall b)) bs)"
proof -
  let ?g = "\<lambda>b acc. acc @ [(b_tx b, b_wall b)]"
  have "fold ?g bs acc = acc @ map (\<lambda>b. (b_tx b, b_wall b)) bs" for acc
    by (induction bs arbitrary: acc) auto
  moreover have "scan_headers_slice (frames C dict bs @ torn) =
      (length (frames C dict bs), fold ?g bs [])"
    unfolding scan_headers_slice_def
    using walk_frames_all [OF assms, where pre = "[]" and g = ?g and s = "[]" and visit = "\<lambda>frame headers.
       case decode_header frame of
         Some h \<Rightarrow> (True, headers @ [h])
       | None \<Rightarrow> (False, headers)"] assms
    by (simp add: decode_header_payload)
  ultimately show ?thesis by simp
qed

section \<open>The store on disk\<close>

text \<open>
  What a directory holds: the batches \<open>bss ! i\<close> in sealed segment \<open>i\<close>, the batches \<open>act\<close> in the
  active segment, followed by a torn tail (the rest of a frame whose write was interrupted).
\<close>

definition sealed_of :: "'n seg_codec \<Rightarrow> (nat \<times> bytes) option \<Rightarrow> nat \<Rightarrow> 'n batch list \<Rightarrow> sealed_segment" where
  "sealed_of C dict i bs =
     \<lparr>sg_seq = i, sg_len = length (frames C dict bs), sg_sha256 = zc_sha256 C (frames C dict bs),
      sg_tx_min = b_tx (hd bs), sg_tx_max = b_tx (last bs), sg_batches = length bs\<rparr>"

definition disk_rep ::
  "'n seg_codec \<Rightarrow> fs \<Rightarrow> manifest \<Rightarrow> (nat \<times> bytes) option \<Rightarrow> 'n batch list list \<Rightarrow> 'n batch list \<Rightarrow> bytes \<Rightarrow> bool"
  where
  "disk_rep C fs m dict bss act torn \<longleftrightarrow>
     load_manifest C local_fs fs = Inr m \<and> reg_ok (mf_attributes m) \<and>
     mf_sealed m = map (\<lambda>(i, bs). sealed_of C dict i bs) (enumerate 0 bss) \<and>
     (\<forall>i < length bss. bss ! i \<noteq> [] \<and> fs (seg_key i) = Some (frames C dict (bss ! i))) \<and>
     file_bytes (seg_key (length bss)) fs = frames C dict act @ torn \<and> incomplete torn \<and>
     dict_ok dict \<and> load_dict m fs = Inr dict \<and>
     map b_tx (concat bss @ act) = [0..<length (concat bss @ act)] \<and>
     (\<forall>b \<in> set (concat bss @ act). frame_fits C dict b) \<and>
     (case stored_head C fs of None \<Rightarrow> True | Some h \<Rightarrow> hd_active_seq h = length bss)"

text \<open>An open writable store together with its directory.\<close>

definition store_rep :: "'n seg_codec \<Rightarrow> fs \<Rightarrow> store \<Rightarrow> 'n batch list list \<Rightarrow> 'n batch list \<Rightarrow> bool" where
  "store_rep C fs st bss act \<longleftrightarrow>
     disk_rep C fs (st_manifest st) (st_dict st) bss act [] \<and>
     fs (seg_key (length bss)) \<noteq> None \<and>
     st_head st = \<lparr>hd_active_seq = length bss, hd_committed_len = length (frames C (st_dict st) act)\<rparr> \<and>
     st_active st \<and> st_next_tx st = length (concat bss @ act)"

lemma active_seq_sealed:
  assumes "mf_sealed m = map (\<lambda>(i, bs). sealed_of C dict i bs) (enumerate 0 bss)"
  shows "active_seq_of m = length bss"
proof (cases bss rule: rev_cases)
  case Nil
  then show ?thesis using assms by (simp add: active_seq_of_def)
next
  case (snoc bss' bs)
  then show ?thesis using assms by (simp add: active_seq_of_def enumerate_append_eq sealed_of_def)
qed

lemma pull_active_id: "pull_active seq fs = fs"
proof -
  have "be_get local_fs (seg_key seq) fs = Inl (BackendIo (seg_key seq)) \<or>
        be_get local_fs (seg_key seq) fs = Inr (file_bytes (seg_key seq) fs)"
    by (simp add: local_fs_def lfs_get_def file_bytes_def split: option.splits)
  then show ?thesis by (auto simp: pull_active_def)
qed

lemma load_manifest_frame:
  "load_manifest C local_fs (fs(seg_key i := x)) = load_manifest C local_fs fs"
  "load_manifest C local_fs (write_head C h fs) = load_manifest C local_fs fs"
  by (simp_all add: load_manifest_def local_fs_def lfs_exists_def lfs_get_def write_head_def atomic_write_def)

lemma load_dict_frame:
  "load_dict m (fs(seg_key i := x)) = load_dict m fs"
  "load_dict m (write_head C h fs) = load_dict m fs"
  "load_dict m (save_manifest C local_fs m' fs) = load_dict m fs"
  by (simp_all add: load_dict_def local_fs_def lfs_get_def write_head_def atomic_write_def
      save_manifest_def lfs_publish_def split: option.split)

lemma stored_head_frame:
  "stored_head C (fs(seg_key i := x)) = stored_head C fs"
  "stored_head C (save_manifest C local_fs m fs) = stored_head C fs"
  by (simp_all add: stored_head_def save_manifest_def local_fs_def lfs_publish_def)

lemma write_head_files [simp]: "write_head C h fs (seg_key i) = fs (seg_key i)"
  by (simp add: write_head_def atomic_write_def)

lemma save_manifest_files [simp]: "save_manifest C local_fs m fs (seg_key i) = fs (seg_key i)"
  by (simp add: save_manifest_def local_fs_def lfs_publish_def)

lemma file_bytes_frame [simp]:
  "file_bytes (seg_key i) (write_head C h fs) = file_bytes (seg_key i) fs"
  "file_bytes (seg_key i) (save_manifest C local_fs m fs) = file_bytes (seg_key i) fs"
  "file_bytes p (fs(p \<mapsto> bs)) = bs"
  by (simp_all add: file_bytes_def)

lemma stored_head_write: "seg_codec_ok C \<Longrightarrow> stored_head C (write_head C h fs) = Some h"
  by (simp add: stored_head_def write_head_def atomic_write_def seg_codec_ok_def)

lemma reindex_skip: "reindex (reg\<lparr>reg_index := f\<rparr>) = reindex reg"
  by (simp add: reindex_def)

lemma load_save_manifest:
  assumes "seg_codec_ok C" "reg_ok (mf_attributes m)"
  shows "load_manifest C local_fs (save_manifest C local_fs m fs) = Inr m"
proof -
  have "load_manifest C local_fs (save_manifest C local_fs m fs) =
      Inr ((skip_index m)\<lparr>mf_attributes := reindex (mf_attributes (skip_index m))\<rparr>)"
    using assms(1) by (simp add: load_manifest_def save_manifest_def local_fs_def lfs_exists_def
        lfs_get_def lfs_publish_def seg_codec_ok_def)
  then show ?thesis using reindex_ok [OF assms(2)] by (simp add: skip_index_def reindex_skip)
qed

text \<open>The next transaction number computed at open time.\<close>

lemma last_tx_of:
  assumes "map b_tx bs = [0..<length bs]" "bs \<noteq> []"
  shows "b_tx (last bs) = length bs - 1"
proof -
  have "b_tx (last bs) = last (map b_tx bs)" using assms(2) by (simp add: last_map)
  also have "\<dots> = length bs - 1" using assms by simp
  finally show ?thesis .
qed

lemma next_tx_open:
  assumes "map b_tx (concat bss @ act) = [0..<length (concat bss @ act)]" "\<forall>i < length bss. bss ! i \<noteq> []"
    and "mf_sealed m = map (\<lambda>(i, bs). sealed_of C dict i bs) (enumerate 0 bss)"
  shows "(case max (if mf_sealed m = [] then None else Some (sg_tx_max (last (mf_sealed m))))
                   (if act = [] then None else Some (b_tx (last act))) of
            None \<Rightarrow> 0 | Some t \<Rightarrow> t + 1) = length (concat bss @ act)"
proof -
  have sealed_last: "sg_tx_max (last (mf_sealed m)) = length (concat bss) - 1 \<and> concat bss \<noteq> []" if some: "bss \<noteq> []"
  proof -
    obtain bss' bs where s: "bss = bss' @ [bs]" using some by (metis rev_exhaust)
    have ne: "bs \<noteq> []" using assms(2) s by (metis length_append_singleton lessI nth_append_length)
    have "map b_tx (concat bss) = [0..<length (concat bss)]"
      using assms(1) by (metis append_eq_conv_conj length_append length_map map_append take_upt
          add_0 le_add1 append_eq_append_conv_if)
    then have "b_tx (last (concat bss)) = length (concat bss) - 1"
      using last_tx_of [of "concat bss"] s ne by simp
    then show ?thesis using assms(3) s ne by (simp add: enumerate_append_eq sealed_of_def)
  qed
  have act_last: "b_tx (last act) = length (concat bss @ act) - 1" if "act \<noteq> []"
    using last_tx_of [OF assms(1)] that by simp
  have me: "mf_sealed m = [] \<longleftrightarrow> bss = []" using assms(3) by (cases bss) auto
  show ?thesis
  proof (cases "act = []")
    case True
    show ?thesis
    proof (cases "bss = []")
      case False
      then have "length (concat bss) \<noteq> 0" using sealed_last by simp
      then show ?thesis using True False sealed_last me by (simp add: max_def)
    qed (use True me in \<open>simp add: max_def\<close>)
  next
    case False
    show ?thesis
    proof (cases "bss = []")
      case True
      then show ?thesis using False act_last me by (simp add: max_def)
    next
      case bss: False
      have "sg_tx_max (last (mf_sealed m)) \<le> b_tx (last act)"
        using sealed_last [OF bss] act_last [OF False] by simp
      then show ?thesis using False bss act_last me by (simp add: max_def)
    qed
  qed
qed

text \<open>
  Opening a directory with a torn tail: the tail is cut off, everything before it is kept.
\<close>

lemma open_inner_written:
  assumes C: "seg_codec_ok C" and d: "disk_rep C fs m dict bss act torn"
  shows "\<exists>st fs' h. open_inner C seal False fs = (Inr st, fs') \<and> store_rep C fs' st bss act \<and>
           st_manifest st = m \<and> st_dict st = dict \<and> st_seal_bytes st = seal \<and>
           fs' = write_head C h (fs(seg_key (length bss) \<mapsto> frames C dict act))"
proof -
  note D = d [unfolded disk_rep_def]
  have seq: "active_seq_of m = length bss" using D active_seq_sealed by blast
  have fb: "file_bytes (seg_key (length bss)) fs = frames C dict act @ torn" using D by blast
  have head: "\<not> (case stored_head C fs of Some h \<Rightarrow> hd_active_seq h \<noteq> length bss | None \<Rightarrow> False)"
    using D by (simp split: option.splits)
  have scan: "scan_slice C (frames C dict act @ torn) dict = (length (frames C dict act), act)"
    using scan_batches_frames [OF C, of dict act torn "\<lambda>_. True"] D by (simp add: scan_slice_def)
  define bs where "bs = frames C dict act @ torn"
  define fs2 where "fs2 = (if length (frames C dict act) < length bs
    then fs(seg_key (length bss) \<mapsto> bs, seg_key (length bss) \<mapsto> take (length (frames C dict act)) bs)
    else fs(seg_key (length bss) \<mapsto> bs))"
  define h where "h = \<lparr>hd_active_seq = length bss, hd_committed_len = length (frames C dict act)\<rparr>"
  define st where "st = \<lparr>st_manifest = m, st_head = h, st_active = True,
      st_next_tx = length (concat bss @ act), st_seal_bytes = seal, st_dict = dict\<rparr>"
  have fs2: "fs2 = fs(seg_key (length bss) \<mapsto> frames C dict act)"
    by (auto simp: fs2_def bs_def)
  have "open_inner C seal False fs = (Inr st, write_head C h fs2)"
    using D seq head fb scan next_tx_open [of bss act m C dict]
    by (simp add: open_inner_def Let_def pull_active_id st_def h_def fs2_def bs_def)
  moreover have "store_rep C (write_head C h fs2) st bss act"
    using D unfolding store_rep_def disk_rep_def st_def fs2
    by (auto simp: load_manifest_frame load_dict_frame stored_head_write [OF C] h_def)
  ultimately show ?thesis
    by (intro exI [of _ st] exI [of _ "write_head C h fs2"] exI [of _ h]) (simp add: st_def fs2)
qed

lemma open_inner_rep:
  assumes "seg_codec_ok C" "disk_rep C fs m dict bss act torn"
  shows "\<exists>st fs'. open_inner C seal False fs = (Inr st, fs') \<and> store_rep C fs' st bss act \<and>
           st_manifest st = m \<and> st_dict st = dict \<and> st_seal_bytes st = seal"
  using open_inner_written [OF assms] by blast

section \<open>Appending and sealing\<close>

lemma disk_rep_sealed: "disk_rep C fs m dict bss act torn \<Longrightarrow> i < length bss \<Longrightarrow>
  fs (seg_key i) = Some (frames C dict (bss ! i))"
  by (simp add: disk_rep_def)

text \<open>Writing the frame and the watermark, before any seal.\<close>

lemma store_rep_write:
  assumes C: "seg_codec_ok C" and rep: "store_rep C fs st bss act"
    and b: "frame_fits C (st_dict st) b" "b_tx b = st_next_tx st"
    and path: "path = seg_key (length bss)"
  shows "store_rep C
    (write_head C ((st_head st)\<lparr>hd_committed_len := hd_committed_len (st_head st) +
        length (encode_frame C (st_dict st) b)\<rparr>) (fs(path \<mapsto> file_bytes path fs @ encode_frame C (st_dict st) b)))
    (st\<lparr>st_next_tx := st_next_tx st + 1, st_head := (st_head st)\<lparr>hd_committed_len :=
        hd_committed_len (st_head st) + length (encode_frame C (st_dict st) b)\<rparr>\<rparr>) bss (act @ [b])"
proof -
  note R = rep [unfolded store_rep_def disk_rep_def]
  have fb: "file_bytes (seg_key (length bss)) fs = frames C (st_dict st) act" using R by simp
  have txs: "map b_tx (concat bss @ act @ [b]) = [0..<length (concat bss @ act @ [b])]"
    using R b(2) by simp
  show ?thesis
    using R b txs fb unfolding store_rep_def disk_rep_def path
    by (auto simp: load_manifest_frame load_dict_frame stored_head_write [OF C])
qed

lemma mapped_open_ok: "fs p = Some bs \<Longrightarrow> mapped_open p (length bs) fs = Inr bs"
  by (simp add: mapped_open_def)

lemma sealed_append:
  "map (\<lambda>(i, bs). sealed_of C dict i bs) (enumerate 0 (bss @ [act])) =
   map (\<lambda>(i, bs). sealed_of C dict i bs) (enumerate 0 bss) @ [sealed_of C dict (length bss) act]"
  by (simp add: enumerate_append_eq)

lemma seal_publish_rep:
  assumes C: "seg_codec_ok C" and rep: "store_rep C fs st bss act" and ne: "act \<noteq> []"
  shows "seal_publish C st fs =
    (Inr (), st\<lparr>st_manifest := (st_manifest st)\<lparr>mf_sealed := mf_sealed (st_manifest st) @
         [sealed_of C (st_dict st) (length bss) act]\<rparr>\<rparr>,
     save_manifest C local_fs ((st_manifest st)\<lparr>mf_sealed := mf_sealed (st_manifest st) @
         [sealed_of C (st_dict st) (length bss) act]\<rparr>) fs)"
proof -
  note R = rep [unfolded store_rep_def disk_rep_def]
  have fl: "fs (seg_key (length bss)) = Some (frames C (st_dict st) act)"
    using R by (auto simp: file_bytes_def)
  have hs: "snd (scan_headers_slice (frames C (st_dict st) act)) = map (\<lambda>b. (b_tx b, b_wall b)) act"
    using scan_headers_frames [of act C "st_dict st" "[]"] R by simp
  show ?thesis
    using R fl hs ne
    by (simp add: seal_publish_def Let_def hash_file_def mapped_open_ok local_fs_def
        lfs_publish_sealed_def sealed_of_def hd_map last_map)
qed

lemma seal_active_rep:
  assumes C: "seg_codec_ok C" and rep: "store_rep C fs st bss act" and ne: "act \<noteq> []"
    and fresh: "file_bytes (seg_key (length bss + 1)) fs = []"
  shows "\<exists>st' fs'. seal_active C st fs = (Inr (), st', fs') \<and> store_rep C fs' st' (bss @ [act]) [] \<and>
    st_dict st' = st_dict st \<and> st_seal_bytes st' = st_seal_bytes st \<and>
    mf_attributes (st_manifest st') = mf_attributes (st_manifest st)"
proof -
  note R = rep [unfolded store_rep_def disk_rep_def]
  define m where "m = (st_manifest st)\<lparr>mf_sealed := mf_sealed (st_manifest st) @
      [sealed_of C (st_dict st) (length bss) act]\<rparr>"
  define h where "h = \<lparr>hd_active_seq = length bss + 1, hd_committed_len = 0\<rparr>"
  define fs1 where "fs1 = save_manifest C local_fs m fs"
  define fs' where "fs' = write_head C h (fs1(seg_key (length bss + 1) \<mapsto> []))"
  define st' where "st' = st\<lparr>st_manifest := m, st_head := h\<rparr>"
  have nz: "hd_committed_len (st_head st) \<noteq> 0"
  proof -
    obtain b act' where act: "act = b # act'" using ne by (cases act) auto
    then have "frame_fits C (st_dict st) b" using R by simp
    then have "length (encode_frame C (st_dict st) b) \<noteq> 0"
      using frame_payload_length by fastforce
    then show ?thesis using R act by simp
  qed
  have "seal_active C st fs = (Inr (), st', fs')"
    using nz R fresh seal_publish_rep [OF C rep ne]
    by (simp add: seal_active_def seal_roll_def Let_def m_def h_def fs1_def fs'_def st'_def)
  moreover have "store_rep C fs' st' (bss @ [act]) []"
  proof -
    have attrs: "reg_ok (mf_attributes m)" using R by (simp add: m_def)
    have ld: "load_dict m fs = load_dict (st_manifest st) fs" by (simp add: load_dict_def m_def)
    have fl: "fs (seg_key (length bss)) = Some (frames C (st_dict st) act)"
      using R by (auto simp: file_bytes_def)
    have "\<forall>i < length (bss @ [act]). (bss @ [act]) ! i \<noteq> [] \<and>
        fs (seg_key i) = Some (frames C (st_dict st) ((bss @ [act]) ! i))"
      using R ne fl by (auto simp: nth_append less_Suc_eq)
    then show ?thesis
      using R attrs ld load_save_manifest [OF C attrs]
      unfolding store_rep_def disk_rep_def fs'_def st'_def fs1_def
      by (auto simp: load_manifest_frame load_dict_frame stored_head_write [OF C] h_def m_def sealed_append
          simp del: enumerate_append_eq)
  qed
  ultimately show ?thesis by (auto simp: st'_def m_def)
qed

lemma append_rep:
  assumes C: "seg_codec_ok C" and rep: "store_rep C fs st bss act"
    and fits: "frame_fits C (st_dict st) \<lparr>b_tx = st_next_tx st, b_wall = wall, b_ops = ops\<rparr>"
    and fresh: "file_bytes (seg_key (length bss + 1)) fs = []"
  shows "\<exists>st' fs' sealed. append_with_seal C ops wall st fs = (Inr (st_next_tx st, sealed), st', fs') \<and>
    (if sealed then store_rep C fs' st' (bss @ [act @ [\<lparr>b_tx = st_next_tx st, b_wall = wall, b_ops = ops\<rparr>]]) []
     else store_rep C fs' st' bss (act @ [\<lparr>b_tx = st_next_tx st, b_wall = wall, b_ops = ops\<rparr>])) \<and>
    st_dict st' = st_dict st \<and> mf_attributes (st_manifest st') = mf_attributes (st_manifest st)"
proof -
  define b where "b = \<lparr>b_tx = st_next_tx st, b_wall = wall, b_ops = ops\<rparr>"
  define path where "path = seg_key (length bss)"
  define frame where "frame = encode_frame C (st_dict st) b"
  define h where "h = (st_head st)\<lparr>hd_committed_len := hd_committed_len (st_head st) + length frame\<rparr>"
  define fs2 where "fs2 = write_head C h (fs(path \<mapsto> file_bytes path fs @ frame))"
  define st1 where "st1 = st\<lparr>st_next_tx := st_next_tx st + 1, st_head := h\<rparr>"
  have rep1: "store_rep C fs2 st1 bss (act @ [b])"
    using store_rep_write [OF C rep, of b path] fits
    by (simp add: b_def path_def frame_def h_def fs2_def st1_def)
  have seq: "hd_active_seq (st_head st) = length bss" "st_active st" using rep by (simp_all add: store_rep_def)
  have app: "append_with_seal C ops wall st fs =
      (if hd_committed_len h \<ge> st_seal_bytes st1 then
         (case seal_active C st1 fs2 of
            (Inl e, st2, fs3) \<Rightarrow> (Inl e, st2, fs3)
          | (Inr _, st2, fs3) \<Rightarrow> (Inr (st_next_tx st, True), st2, fs3))
       else (Inr (st_next_tx st, False), st1, fs2))"
    using seq unfolding append_with_seal_def Let_def segment_path_eq
    by (simp add: b_def path_def frame_def h_def fs2_def st1_def)
  show ?thesis
  proof (cases "hd_committed_len h \<ge> st_seal_bytes st1")
    case True
    have "file_bytes (seg_key (length bss + 1)) fs2 = []"
      using fresh by (simp add: fs2_def path_def file_bytes_def)
    then obtain st' fs' where "seal_active C st1 fs2 = (Inr (), st', fs')"
      "store_rep C fs' st' (bss @ [act @ [b]]) []" "st_dict st' = st_dict st1"
      "mf_attributes (st_manifest st') = mf_attributes (st_manifest st1)"
      using seal_active_rep [OF C rep1] by auto
    then show ?thesis using app True by (auto simp: b_def st1_def)
  next
    case False
    then show ?thesis using app rep1 by (auto simp: b_def st1_def)
  qed
qed

section \<open>Reading\<close>

lemma map_res_enumerate:
  assumes "\<And>i. i < length xs \<Longrightarrow> f (g i (xs ! i)) = Inr (h (xs ! i))"
  shows "map_res f (map (\<lambda>(i, x). g i x) (enumerate 0 xs)) = Inr (map h xs)"
proof -
  have "map_res f (map (\<lambda>(i, x). g i x) (enumerate 0 xs)) =
      map_res (\<lambda>p. f (g (fst p) (snd p))) (enumerate 0 xs)"
    by (simp add: map_res_map comp_def split_beta)
  also have "\<dots> = Inr (map (\<lambda>p. h (snd p)) (enumerate 0 xs))"
    by (rule map_res_all) (use assms in \<open>auto simp: in_set_enumerate_eq\<close>)
  finally show ?thesis by (simp add: map_enumerate_snd)
qed

lemma sealed_bytes_rep:
  assumes "fs (seg_key i) = Some (frames C dict bs)"
  shows "sealed_bytes (sealed_of C dict i bs) fs = Inr (frames C dict bs)"
  using assms by (simp add: sealed_bytes_def local_fs_def lfs_fetch_def lfs_get_def sealed_of_def mapped_open_def)

text \<open>
  The reading half of a store: what a handle, writable or read-only, sees when its watermark
  stands after the batches \<open>act\<close> of the active segment, whatever follows them in the file.
\<close>

definition reader_rep :: "'n seg_codec \<Rightarrow> fs \<Rightarrow> store \<Rightarrow> 'n batch list list \<Rightarrow> 'n batch list \<Rightarrow> bool" where
  "reader_rep C fs st bss act \<longleftrightarrow>
     mf_sealed (st_manifest st) = map (\<lambda>(i, bs). sealed_of C (st_dict st) i bs) (enumerate 0 bss) \<and>
     (\<forall>i < length bss. bss ! i \<noteq> [] \<and> fs (seg_key i) = Some (frames C (st_dict st) (bss ! i))) \<and>
     dict_ok (st_dict st) \<and>
     st_head st = \<lparr>hd_active_seq = length bss, hd_committed_len = length (frames C (st_dict st) act)\<rparr> \<and>
     (\<exists>rest. file_bytes (seg_key (length bss)) fs = frames C (st_dict st) act @ rest) \<and>
     map b_tx (concat bss @ act) = [0..<length (concat bss @ act)] \<and>
     (\<forall>b \<in> set (concat bss @ act). frame_fits C (st_dict st) b)"

lemma store_rep_reader: "store_rep C fs st bss act \<Longrightarrow> reader_rep C fs st bss act"
  by (simp add: store_rep_def disk_rep_def reader_rep_def)

lemma filter_concat_map: "concat (map (filter P) xss) = filter P (concat xss)"
  by (simp add: filter_concat)

lemma batches_after_rep:
  assumes C: "seg_codec_ok C" and rep: "reader_rep C fs st bss act"
  shows "batches_after C after st fs =
    Inr (filter (\<lambda>b. case after of None \<Rightarrow> True | Some a \<Rightarrow> a < b_tx b) (concat bss @ act))"
proof -
  note R = rep [unfolded reader_rep_def]
  define keep where "keep = (\<lambda>tx :: nat. case after of None \<Rightarrow> True | Some a \<Rightarrow> a < tx)"
  let ?f = "\<lambda>s. if \<not> keep (sg_tx_max s) then Inr []
      else (case sealed_bytes s fs of
              Inl e \<Rightarrow> Inl e
            | Inr bs \<Rightarrow>
                (let (valid, batches) = scan_batches_filtered C bs keep (st_dict st)
                 in if valid \<noteq> sg_len s then Inl (SegCorrupt ''sealed segment has invalid frames'')
                    else Inr batches))"
  have sealed: "map_res ?f (map (\<lambda>(i, bs). sealed_of C (st_dict st) i bs) (enumerate 0 bss)) =
      Inr (map (filter (\<lambda>b. keep (b_tx b))) bss)"
  proof (rule map_res_enumerate)
    fix i
    assume i: "i < length bss"
    let ?bs = "bss ! i"
    have bs: "?bs \<noteq> []" "fs (seg_key i) = Some (frames C (st_dict st) ?bs)"
      "\<forall>b \<in> set ?bs. frame_fits C (st_dict st) b"
      using R i nth_mem by fastforce+
    show "?f (sealed_of C (st_dict st) i ?bs) = Inr (filter (\<lambda>b. keep (b_tx b)) ?bs)"
    proof (cases "keep (b_tx (last ?bs))")
      case True
      then show ?thesis
        using sealed_bytes_rep [of fs i C "st_dict st" ?bs, OF bs(2)] scan_batches_frames [OF C _ bs(3), of "[]" keep] R
        by (simp add: sealed_of_def)
    next
      case False
      have "b_tx b \<le> b_tx (last ?bs)" if "b \<in> set ?bs" for b
      proof -
        have "map b_tx (concat (take i bss) @ ?bs @ concat (drop (Suc i) bss) @ act) =
            [0..<length (concat bss @ act)]"
          using R i by (metis append.assoc concat.simps(2) concat_append id_take_nth_drop)
        then have "sorted (map b_tx ?bs)"
          by (metis map_append sorted_append sorted_upt)
        moreover have "b_tx b \<in> set (map b_tx ?bs)" using that by simp
        ultimately have "b_tx b \<le> last (map b_tx ?bs)" by (rule sorted_le_last)
        then show ?thesis using bs(1) by (simp add: last_map)
      qed
      then have "\<not> keep (b_tx b)" if "b \<in> set ?bs" for b
        using that False by (fastforce simp: keep_def split: option.splits)
      then show ?thesis using False by (simp add: sealed_of_def)
    qed
  qed
  have "active_batches C keep st fs = filter (\<lambda>b. keep (b_tx b)) act"
    using scan_batches_frames [OF C, of "st_dict st" act "[]" keep] R
    by (auto simp: active_batches_def read_active_committed_def)
  moreover have k: "(\<lambda>b :: 'a batch. case after of None \<Rightarrow> True | Some a \<Rightarrow> a < b_tx b) = (\<lambda>b. keep (b_tx b))"
    by (simp add: keep_def)
  ultimately show ?thesis unfolding k
    using R sealed by (simp add: batches_after_def Let_def keep_def [symmetric] filter_concat_map)
qed

lemma batch_headers_rep:
  assumes rep: "reader_rep C fs st bss act"
  shows "batch_headers C st fs = Inr (map (\<lambda>b. (b_tx b, b_wall b)) (concat bss @ act))"
proof -
  note R = rep [unfolded reader_rep_def]
  let ?h = "\<lambda>b. (b_tx b, b_wall b)"
  have sealed: "map_res (\<lambda>s. case sealed_bytes s fs of
                Inl e \<Rightarrow> Inl e
              | Inr bs \<Rightarrow>
                  (let (valid, headers) = scan_headers_slice bs
                   in if valid \<noteq> sg_len s then Inl (SegCorrupt ''sealed segment has invalid frames'')
                      else Inr headers))
      (map (\<lambda>(i, bs). sealed_of C (st_dict st) i bs) (enumerate 0 bss)) = Inr (map (map ?h) bss)"
  proof (rule map_res_enumerate)
    fix i
    assume i: "i < length bss"
    have bs: "fs (seg_key i) = Some (frames C (st_dict st) (bss ! i))"
      "\<forall>b \<in> set (bss ! i). frame_fits C (st_dict st) b"
      using R i nth_mem by fastforce+
    show "(case sealed_bytes (sealed_of C (st_dict st) i (bss ! i)) fs of
             Inl e \<Rightarrow> Inl e
           | Inr bs \<Rightarrow>
               (let (valid, headers) = scan_headers_slice bs
                in if valid \<noteq> sg_len (sealed_of C (st_dict st) i (bss ! i))
                   then Inl (SegCorrupt ''sealed segment has invalid frames'')
                   else Inr headers)) = Inr (map ?h (bss ! i))"
      using sealed_bytes_rep [of fs i C "st_dict st" "bss ! i", OF bs(1)] scan_headers_frames [OF bs(2), of "[]"]
      by (simp add: sealed_of_def)
  qed
  have "snd (scan_headers_slice (read_active_committed st fs)) = map ?h act"
    using scan_headers_frames [of act C "st_dict st" "[]"] R by (auto simp: read_active_committed_def)
  then show ?thesis using R sealed by (simp add: batch_headers_def map_concat)
qed

section \<open>Crashes, refresh, verification\<close>

text \<open>
  A crash while the frame of \<open>b\<close> is being written leaves its first \<open>k\<close> bytes in the active file
  and the old watermark in \<open>HEAD\<close>.
\<close>

definition crash_in_append :: "'n seg_codec \<Rightarrow> 'n batch \<Rightarrow> nat \<Rightarrow> store \<Rightarrow> fs \<Rightarrow> fs" where
  "crash_in_append C b k st fs =
     (let path = segment_path (hd_active_seq (st_head st))
      in fs(path \<mapsto> file_bytes path fs @ take k (encode_frame C (st_dict st) b)))"

lemma crash_disk_rep:
  assumes rep: "store_rep C fs st bss act"
    and b: "frame_fits C (st_dict st) b" "b_tx b = st_next_tx st"
  shows "disk_rep C (crash_in_append C b k st fs) (st_manifest st) (st_dict st) bss
    (if k < length (encode_frame C (st_dict st) b) then act else act @ [b])
    (if k < length (encode_frame C (st_dict st) b) then take k (encode_frame C (st_dict st) b) else [])"
proof -
  note R = rep [unfolded store_rep_def disk_rep_def]
  have fb: "file_bytes (seg_key (length bss)) fs = frames C (st_dict st) act" using R by simp
  have txs: "map b_tx (concat bss @ act @ [b]) = [0..<length (concat bss @ act @ [b])]"
    using R b(2) by simp
  show ?thesis
    using R b txs fb incomplete_torn [OF b(1), of k]
    unfolding disk_rep_def crash_in_append_def Let_def segment_path_eq
    by (auto simp: load_manifest_frame load_dict_frame stored_head_frame)
qed

lemma store_rep_disk: "store_rep C fs st bss act \<Longrightarrow> disk_rep C fs (st_manifest st) (st_dict st) bss act []"
  by (simp add: store_rep_def)

lemma all_batches_rep:
  assumes "seg_codec_ok C" "store_rep C fs st bss act"
  shows "all_batches C st fs = Inr (concat bss @ act)"
  using batches_after_rep [OF assms(1) store_rep_reader [OF assms(2)], of None]
  by (simp add: all_batches_def)

lemma refresh_rep:
  assumes C: "seg_codec_ok C" and rep: "reader_rep C fs0 st bss act" and ro: "\<not> st_active st"
    and disk: "disk_rep C fs m (st_dict st) bss (act @ new) torn"
    and same: "mf_dict_version m = mf_dict_version (st_manifest st)"
    and next_tx: "st_next_tx st = length (concat bss @ act)" and ne: "new \<noteq> []"
  shows "\<exists>st'. refresh_read_only C st fs = (Inr (RefreshAdvanced new), st') \<and>
    reader_rep C fs st' bss (act @ new) \<and> st_next_tx st' = length (concat bss @ act @ new) \<and>
    mf_attributes (st_manifest st') = mf_attributes m"
proof -
  note R = rep [unfolded reader_rep_def] and D = disk [unfolded disk_rep_def]
  let ?F = "frames C (st_dict st)"
  have seq: "hd_active_seq (st_head st) = length bss" "hd_committed_len (st_head st) = length (?F act)"
    using R by simp_all
  have head: "\<not> (case stored_head C fs of Some h \<Rightarrow> hd_active_seq h \<noteq> length bss | None \<Rightarrow> False)"
    using D by (simp split: option.splits)
  have fb: "file_bytes (seg_key (length bss)) fs = ?F act @ ?F new @ torn" using D by simp
  have man: "load_manifest C local_fs fs = Inr m" "length (mf_sealed m) = length (mf_sealed (st_manifest st))"
    using R D by simp_all
  have nonempty: "?F new \<noteq> []"
  proof -
    obtain b new' where n: "new = b # new'" using ne by (cases new) auto
    then have "frame_fits C (st_dict st) b" using D by simp
    then have "length (encode_frame C (st_dict st) b) \<noteq> 0"
      using frame_payload_length by fastforce
    then show ?thesis using n by simp
  qed
  have scan: "scan_batches_filtered C (?F new @ torn) (\<lambda>_. True) (st_dict st) = (length (?F new), new)"
    using scan_batches_frames [OF C, of "st_dict st" new torn "\<lambda>_. True"] D by simp
  have last: "b_tx (last new) + 1 = length (concat bss @ act @ new)"
  proof -
    have "map b_tx (concat bss @ act @ new) = [0..<length (concat bss @ act @ new)]" using D by simp
    then show ?thesis using last_tx_of [of "concat bss @ act @ new"] ne by (cases new) auto
  qed
  define st' where "st' = st\<lparr>st_manifest := (st_manifest st)\<lparr>mf_attributes := mf_attributes m\<rparr>,
      st_head := (st_head st)\<lparr>hd_committed_len := length (?F act) + length (?F new)\<rparr>,
      st_next_tx := max (st_next_tx st) (b_tx (last new) + 1)\<rparr>"
  have "refresh_read_only C st fs = (Inr (RefreshAdvanced new), st')"
    using ro head fb nonempty scan same ne unfolding refresh_read_only_def Let_def segment_path_eq seq
    by (simp add: st'_def man)
  moreover have "reader_rep C fs st' bss (act @ new)"
    using R D fb unfolding reader_rep_def st'_def by auto
  ultimately show ?thesis using last next_tx by (auto simp: st'_def)
qed

lemma verify_sealed_rep:
  assumes rep: "reader_rep C fs0 st bss act"
    and collision_free: "\<And>i x. i < length bss \<Longrightarrow>
      zc_sha256 C x = zc_sha256 C (frames C (st_dict st) (bss ! i)) \<Longrightarrow> x = frames C (st_dict st) (bss ! i)"
  shows "verify_sealed C st fs = Inr () \<longleftrightarrow>
    (\<forall>i < length bss. fs (seg_key i) = Some (frames C (st_dict st) (bss ! i)))"
proof -
  have one: "sc_ok (check_sealed C fs (sealed_of C (st_dict st) i bs)) \<longleftrightarrow>
      fs (seg_key i) = Some (frames C (st_dict st) bs)" if "i < length bss" "bs = bss ! i" for i bs
    using collision_free [OF that(1)] that
    by (auto simp: check_sealed_def hash_file_def sealed_of_def split: option.splits)
  have "verify_sealed C st fs = Inr () \<longleftrightarrow>
      (\<forall>s \<in> set (mf_sealed (st_manifest st)). sc_ok (check_sealed C fs s))"
  proof -
    have "verify_sealed C st fs = Inr () \<longleftrightarrow>
        find (\<lambda>c. \<not> sc_ok c) (verify_sealed_report C st fs) = None"
      by (simp add: verify_sealed_def split: option.splits)
    then show ?thesis by (simp add: find_None_iff verify_sealed_report_def)
  qed
  also have "\<dots> \<longleftrightarrow> (\<forall>i < length bss. sc_ok (check_sealed C fs (sealed_of C (st_dict st) i (bss ! i))))"
    using rep ball_enumerate [of bss "\<lambda>s. sc_ok (check_sealed C fs s)" "sealed_of C (st_dict st)"]
    by (simp add: reader_rep_def)
  finally show ?thesis using one by auto
qed

section \<open>A concrete codec\<close>

text \<open>
  An instance of the parameters, for the witnesses: ops and manifests are numbered, heads are
  written in unary, compression puts a marker byte in front of the data.
\<close>

instance json :: (countable) countable
  by countable_datatype

definition fact_tuple ::
  "nat fact \<Rightarrow> nat \<times> nat \<times> nat option \<times> ((nat + nat) + (nat json + nat json))" where
  "fact_tuple f = (unat (f_entity f), f_attr f, f_pos f,
     (case f_value f of FNull \<Rightarrow> Inl (Inl (0 :: nat)) | FBool b \<Rightarrow> Inl (Inl (if b then 1 else 2))
      | FNumber n \<Rightarrow> Inl (Inr (n :: nat)) | FString s \<Rightarrow> Inr (Inl (JString s))
      | FRef u \<Rightarrow> Inl (Inl (unat u + 3)) | FComposite j \<Rightarrow> Inr (Inr (j :: nat json))))"

lemma fact_tuple_inj: "fact_tuple f = fact_tuple g \<Longrightarrow> f = g"
  by (cases f; cases g)
    (auto simp: fact_tuple_def word_unat_eq_iff split: fact_value.splits if_splits)

definition ops_number :: "nat ops \<Rightarrow> nat" where
  "ops_number ops = to_nat (map (\<lambda>(op, f). (op = Assert, fact_tuple f)) ops)"

lemma ops_number_inj: "ops_number a = ops_number b \<Longrightarrow> a = b"
proof -
  have "inj (\<lambda>(op, f). (op = Assert, fact_tuple f))"
    by (rule injI) (auto dest: fact_tuple_inj, (metis fact_op.exhaust)+)
  then show "ops_number a = ops_number b \<Longrightarrow> a = b" by (simp add: ops_number_def inj_eq)
qed

definition sealed_tuple :: "sealed_segment \<Rightarrow> nat \<times> nat \<times> nat list \<times> nat \<times> nat \<times> nat" where
  "sealed_tuple s =
     (sg_seq s, sg_len s, map of_char (sg_sha256 s), sg_tx_min s, sg_tx_max s, sg_batches s)"

lemma sealed_tuple_inj: "inj sealed_tuple"
proof (rule injI)
  fix x y :: sealed_segment
  assume "sealed_tuple x = sealed_tuple y"
  then show "x = y" by (cases x; cases y) (simp add: sealed_tuple_def inj_map_eq_map inj_def)
qed

definition manifest_number :: "manifest \<Rightarrow> nat" where
  "manifest_number m = to_nat (mf_format_version m, map sealed_tuple (mf_sealed m),
     map (map of_char) (reg_names (mf_attributes m)) :: nat list list, mf_dict_version m)"

lemma manifest_number_inj: "manifest_number m = manifest_number m' \<Longrightarrow> skip_index m = skip_index m'"
proof -
  have c: "inj (map of_char :: string \<Rightarrow> nat list)" by (simp add: inj_def)
  show "manifest_number m = manifest_number m' \<Longrightarrow> skip_index m = skip_index m'"
    by (auto simp: manifest_number_def skip_index_def inj_map_eq_map [OF sealed_tuple_inj] inj_map_eq_map [OF c]
        intro!: manifest.equality registry.equality)
qed

definition demo_seg_codec :: "nat seg_codec" where
  "demo_seg_codec =
     \<lparr>zc_enc_ops = (\<lambda>ops. if ops = [] then [] else 1 # replicate (ops_number ops) 0),
      zc_dec_ops = (\<lambda>bs. if bs = [] then Some []
        else Some (inv ops_number (length bs - 1))),
      zc_compress = (\<lambda>d x. 40 # x),
      zc_decompress = (\<lambda>d x. if x = [] then None else Some (tl x)),
      zc_enc_manifest = (\<lambda>m. replicate (manifest_number m) 0),
      zc_dec_manifest = (\<lambda>bs. Some (skip_index (inv manifest_number (length bs)))),
      zc_enc_head = (\<lambda>h. replicate (hd_active_seq h) 0 @ 1 # replicate (hd_committed_len h) 0),
      zc_dec_head = (\<lambda>bs. Some \<lparr>hd_active_seq = length (takeWhile (\<lambda>b. b = 0) bs),
        hd_committed_len = length bs - 1 - length (takeWhile (\<lambda>b. b = 0) bs)\<rparr>),
      zc_sha256 = (\<lambda>bs. map (\<lambda>b. char_of (unat b)) bs)\<rparr>"

lemma demo_seg_codec_ok: "seg_codec_ok demo_seg_codec"
proof -
  have "inj ops_number" using ops_number_inj by (rule injI)
  moreover have "skip_index (inv manifest_number (manifest_number m)) = skip_index m" for m
    by (rule manifest_number_inj) (simp add: f_inv_into_f)
  moreover have "takeWhile (\<lambda>b. b = 0) (replicate n (0 :: byte) @ 1 # xs) = replicate n 0" for n xs
    by (induction n) auto
  ultimately show ?thesis by (simp add: seg_codec_ok_def demo_seg_codec_def)
qed

section \<open>Properties of the store\<close>

text \<open>
  C2: Crash safety of a commit.  Interrupt the write of a batch after any number of bytes and
  reopen the store: every batch committed before is read back in order, the interrupted batch is
  there exactly when its whole frame reached the file, and the reopened store is consistent
  (watermark, torn tail cut off, next transaction number).
\<close>

theorem crash_in_append_recovers:
  assumes "seg_codec_ok C" "store_rep C fs st bss act"
    and "frame_fits C (st_dict st) b" "b_tx b = st_next_tx st"
    and "act' = (if k < length (encode_frame C (st_dict st) b) then act else act @ [b])"
  shows "\<exists>st' fs'. open_inner C seal False (crash_in_append C b k st fs) = (Inr st', fs') \<and>
    store_rep C fs' st' bss act' \<and> all_batches C st' fs' = Inr (concat bss @ act')"
proof -
  obtain st' fs' where "open_inner C seal False (crash_in_append C b k st fs) = (Inr st', fs')"
    "store_rep C fs' st' bss act'"
    using open_inner_rep [OF assms(1) crash_disk_rep [OF assms(2-4), of k], of seal, folded assms(5)] by blast
  then show ?thesis using all_batches_rep [OF assms(1)] by blast
qed

text \<open>
  C3: A commit is visible and durable.  Appending assigns the next transaction number, the store
  then reads back the old batches followed by the new one whether or not the segment was sealed
  by this commit, and a cold open of the directory reads the same.
\<close>

theorem append_commits:
  assumes "seg_codec_ok C" "store_rep C fs st bss act"
    and "frame_fits C (st_dict st) \<lparr>b_tx = st_next_tx st, b_wall = wall, b_ops = ops\<rparr>"
    and "file_bytes (seg_key (length bss + 1)) fs = []"
  shows "\<exists>sealed st' fs' st'' fs''.
    append_with_seal C ops wall st fs = (Inr (st_next_tx st, sealed), st', fs') \<and>
    all_batches C st' fs' = Inr (concat bss @ act @ [\<lparr>b_tx = st_next_tx st, b_wall = wall, b_ops = ops\<rparr>]) \<and>
    open_inner C seal False fs' = (Inr st'', fs'') \<and> all_batches C st'' fs'' = all_batches C st' fs' \<and>
    st_next_tx st' = st_next_tx st + 1 \<and> st_next_tx st'' = st_next_tx st'"
proof -
  define b where "b = \<lparr>b_tx = st_next_tx st, b_wall = wall, b_ops = ops\<rparr>"
  obtain sealed st' fs' bss' act' where ap: "append_with_seal C ops wall st fs = (Inr (st_next_tx st, sealed), st', fs')"
    "store_rep C fs' st' bss' act'" "concat bss' @ act' = concat bss @ act @ [b]"
  proof -
    obtain sealed st' fs' where a: "append_with_seal C ops wall st fs = (Inr (st_next_tx st, sealed), st', fs')"
      "if sealed then store_rep C fs' st' (bss @ [act @ [b]]) [] else store_rep C fs' st' bss (act @ [b])"
      using append_rep [OF assms] unfolding b_def by blast
    show ?thesis by (cases sealed) (use a that in auto)
  qed
  obtain st'' fs'' where op: "open_inner C seal False fs' = (Inr st'', fs'')" "store_rep C fs'' st'' bss' act'"
    using open_inner_rep [OF assms(1) store_rep_disk [OF ap(2)]] by blast
  have "st_next_tx st' = st_next_tx st + 1 \<and> st_next_tx st'' = st_next_tx st'"
    using ap op assms(2) by (simp add: store_rep_def)
  then show ?thesis
    using ap op all_batches_rep [OF assms(1)] unfolding b_def by metis
qed

text \<open>
  The catch-up read is exact.  \<open>batches_after\<close>, which skips whole sealed segments by their
  recorded range and never decompresses a body below the cutoff, returns precisely the committed
  batches above the cutoff in order; \<open>batch_headers\<close> lists every committed batch.
\<close>

theorem batches_after_exact:
  assumes "seg_codec_ok C" "reader_rep C fs st bss act"
  shows "batches_after C (Some t) st fs = Inr (filter (\<lambda>b. t < b_tx b) (concat bss @ act)) \<and>
    batch_headers C st fs = Inr (map (\<lambda>b. (b_tx b, b_wall b)) (concat bss @ act))"
  using batches_after_rep [OF assms, of "Some t"] batch_headers_rep [OF assms(2)] by simp

text \<open>
  A read-only handle catches up without a reopen.  If the writer has appended the batches
  \<open>new\<close> (and perhaps the beginning of another frame), one refresh returns exactly these batches,
  moves the watermark past them and loads the attribute registry they were written under, so the
  handle then reads the whole committed history.
\<close>

theorem refresh_catches_up:
  assumes "seg_codec_ok C" "reader_rep C fs0 st bss act" "\<not> st_active st"
    and "disk_rep C fs m (st_dict st) bss (act @ new) torn"
    and "mf_dict_version m = mf_dict_version (st_manifest st)"
    and "st_next_tx st = length (concat bss @ act)" "new \<noteq> []"
  shows "\<exists>st'. refresh_read_only C st fs = (Inr (RefreshAdvanced new), st') \<and>
    all_batches C st' fs = Inr (concat bss @ act @ new) \<and>
    st_next_tx st' = length (concat bss @ act @ new) \<and>
    mf_attributes (st_manifest st') = mf_attributes m"
  using refresh_rep [OF assms] batches_after_rep [OF assms(1), where after = None]
  unfolding all_batches_def by fastforce

text \<open>
  Verification of sealed segments is complete.  Unless two contents collide under the hash,
  \<open>verify_sealed\<close> succeeds on a directory exactly when every sealed file still holds the bytes
  that were sealed.
\<close>

theorem verify_sealed_exact:
  assumes "reader_rep C fs0 st bss act"
    and "\<And>i x. i < length bss \<Longrightarrow>
      zc_sha256 C x = zc_sha256 C (frames C (st_dict st) (bss ! i)) \<Longrightarrow> x = frames C (st_dict st) (bss ! i)"
  shows "verify_sealed C st fs = Inr () \<longleftrightarrow>
    (\<forall>i < length bss. fs (seg_key i) = Some (frames C (st_dict st) (bss ! i)))"
  by (rule verify_sealed_rep [OF assms])

text \<open>
  A crash inside a seal, after the manifest was replaced and before \<open>HEAD\<close> was, leaves a
  directory that no open accepts, writable or read-only: \<open>HEAD\<close> still names the segment that the
  manifest already lists as sealed.
\<close>

theorem crash_in_seal_unopenable:
  assumes "seg_codec_ok C" "store_rep C fs st bss act" "act \<noteq> []"
    and "stored_head C fs = Some (st_head st)" "seal_publish C st fs = (Inr (), st1, fs1)"
  shows "fst (open_inner C seal ro fs1) =
    Inl (SegCorrupt ''HEAD names another segment than the manifest implies'')"
proof -
  note R = assms(2) [unfolded store_rep_def disk_rep_def]
  define m where "m = (st_manifest st)\<lparr>mf_sealed := mf_sealed (st_manifest st) @
      [sealed_of C (st_dict st) (length bss) act]\<rparr>"
  have fs1: "fs1 = save_manifest C local_fs m fs"
    using seal_publish_rep [OF assms(1-3)] assms(5) by (simp add: m_def)
  have "load_manifest C local_fs fs1 = Inr m"
    unfolding fs1 using R by (intro load_save_manifest [OF assms(1)]) (simp add: m_def)
  moreover have "load_dict m fs1 = Inr (st_dict st)"
    using R by (simp add: fs1 load_dict_frame) (simp add: load_dict_def m_def)
  moreover have "active_seq_of m = length bss + 1"
    by (simp add: active_seq_of_def m_def sealed_of_def)
  moreover have "stored_head C fs1 = Some (st_head st)" "hd_active_seq (st_head st) = length bss"
    using R assms(4) by (simp_all add: fs1 stored_head_frame)
  ultimately show ?thesis by (simp add: open_inner_def Let_def pull_active_id)
qed

section \<open>A concrete store\<close>

text \<open>One sealed segment with batch 0 and an active segment with batch 1.\<close>

definition demo_batch :: "nat \<Rightarrow> nat batch" where
  "demo_batch t = \<lparr>b_tx = t, b_wall = 5, b_ops = []\<rparr>"

definition demo_manifest :: manifest where
  "demo_manifest = default_manifest\<lparr>mf_sealed := [sealed_of demo_seg_codec None 0 [demo_batch 0]]\<rparr>"

definition demo_head :: head where
  "demo_head = \<lparr>hd_active_seq = 1, hd_committed_len = length (frames demo_seg_codec None [demo_batch 1])\<rparr>"

definition demo_fs :: fs where
  "demo_fs = (write_head demo_seg_codec demo_head (save_manifest demo_seg_codec local_fs demo_manifest Map.empty))
     (seg_key 0 \<mapsto> frames demo_seg_codec None [demo_batch 0], seg_key 1 \<mapsto> frames demo_seg_codec None [demo_batch 1])"

definition demo_store :: store where
  "demo_store = \<lparr>st_manifest = demo_manifest, st_head = demo_head, st_active = True, st_next_tx = 2,
                 st_seal_bytes = 1000, st_dict = None\<rparr>"

lemma demo_fits: "t < 2 ^ 64 \<Longrightarrow> frame_fits demo_seg_codec None (demo_batch t)"
  by (simp add: frame_fits_def demo_batch_def demo_seg_codec_def encode_frame_def Let_def FRAME_HEADER_def)

lemma demo_frame_length: "length (encode_frame demo_seg_codec None (demo_batch t)) = 23"
  by (simp add: demo_batch_def demo_seg_codec_def encode_frame_def Let_def FRAME_HEADER_def)

lemma demo_tx [simp]: "b_tx (demo_batch t) = t"
  by (simp add: demo_batch_def)

lemma demo_stored_head: "stored_head demo_seg_codec demo_fs = Some demo_head"
  by (simp add: demo_fs_def stored_head_frame stored_head_write [OF demo_seg_codec_ok])

lemma demo_store_rep: "store_rep demo_seg_codec demo_fs demo_store [[demo_batch 0]] [demo_batch 1]"
proof -
  have load: "load_manifest demo_seg_codec local_fs demo_fs = Inr demo_manifest"
    by (simp add: demo_fs_def load_manifest_frame load_save_manifest [OF demo_seg_codec_ok]
        demo_manifest_def default_manifest_def)
  have dict: "load_dict demo_manifest demo_fs = Inr None"
    by (simp add: load_dict_def demo_manifest_def default_manifest_def)
  have attrs: "reg_ok (mf_attributes demo_manifest)" by (simp add: demo_manifest_def default_manifest_def)
  show ?thesis
    unfolding store_rep_def disk_rep_def
    using load dict attrs demo_stored_head demo_fits [of 0] demo_fits [of 1]
    by (simp add: demo_store_def demo_head_def dict_ok_def file_bytes_def demo_fs_def demo_manifest_def)
qed

theorem crash_in_append_recovers_witness:
  "\<exists>st' fs'. open_inner demo_seg_codec 1000 False
      (crash_in_append demo_seg_codec (demo_batch 2) 11 demo_store demo_fs) = (Inr st', fs') \<and>
    all_batches demo_seg_codec st' fs' = Inr [demo_batch 0, demo_batch 1]"
  using crash_in_append_recovers [OF demo_seg_codec_ok demo_store_rep, of "demo_batch 2" "[demo_batch 1]" 11 1000]
    demo_fits [of 2]
  by (auto simp: demo_store_def demo_frame_length)

theorem append_commits_witness:
  "\<exists>sealed st' fs'. append_with_seal demo_seg_codec [] 5 demo_store demo_fs = (Inr (2, sealed), st', fs') \<and>
    all_batches demo_seg_codec st' fs' = Inr [demo_batch 0, demo_batch 1, demo_batch 2]"
proof -
  have next_file: "file_bytes (seg_key (length [[demo_batch 0]] + 1)) demo_fs = []"
    by (simp add: file_bytes_def demo_fs_def write_head_files [simplified] save_manifest_files)
  have fits: "frame_fits demo_seg_codec (st_dict demo_store) \<lparr>b_tx = st_next_tx demo_store, b_wall = 5, b_ops = []\<rparr>"
    using demo_fits [of 2] by (simp add: demo_store_def demo_batch_def)
  have two: "st_next_tx demo_store = 2" by (simp add: demo_store_def)
  show ?thesis
    using append_commits [OF demo_seg_codec_ok demo_store_rep fits next_file, of 1000]
    unfolding two by (auto simp: demo_batch_def)
qed

theorem batches_after_exact_witness:
  "batches_after demo_seg_codec (Some 0) demo_store demo_fs = Inr [demo_batch 1] \<and>
   batch_headers demo_seg_codec demo_store demo_fs = Inr [(0, 5), (1, 5)]"
  using batches_after_exact [OF demo_seg_codec_ok store_rep_reader [OF demo_store_rep], of 0]
  by (simp add: demo_batch_def)

definition demo_reader :: store where
  "demo_reader = demo_store\<lparr>st_active := False, st_next_tx := 1,
     st_head := \<lparr>hd_active_seq = 1, hd_committed_len = 0\<rparr>\<rparr>"

theorem refresh_catches_up_witness:
  "\<exists>st'. refresh_read_only demo_seg_codec demo_reader demo_fs = (Inr (RefreshAdvanced [demo_batch 1]), st') \<and>
    all_batches demo_seg_codec st' demo_fs = Inr [demo_batch 0, demo_batch 1]"
proof -
  have reader: "reader_rep demo_seg_codec demo_fs demo_reader [[demo_batch 0]] []"
    using store_rep_reader [OF demo_store_rep]
    by (auto simp: reader_rep_def demo_reader_def demo_store_def)
  have disk: "disk_rep demo_seg_codec demo_fs demo_manifest (st_dict demo_reader) [[demo_batch 0]] ([] @ [demo_batch 1]) []"
    using store_rep_disk [OF demo_store_rep] by (simp add: demo_reader_def demo_store_def)
  show ?thesis
    using refresh_catches_up [OF demo_seg_codec_ok reader _ disk]
    by (auto simp: demo_reader_def demo_store_def)
qed

theorem verify_sealed_exact_witness:
  "verify_sealed demo_seg_codec demo_store demo_fs = Inr () \<and>
   verify_sealed demo_seg_codec demo_store (demo_fs(seg_key 0 \<mapsto> [1])) \<noteq> Inr ()"
proof -
  have inj: "x = frames demo_seg_codec (st_dict demo_store) ([[demo_batch 0]] ! i)"
    if "zc_sha256 demo_seg_codec x = zc_sha256 demo_seg_codec (frames demo_seg_codec (st_dict demo_store) ([[demo_batch 0]] ! i))"
    for i x
  proof -
    have "inj (\<lambda>b :: byte. char_of (unat b))"
    proof (rule injI)
      fix a b :: byte
      assume "char_of (unat a) = char_of (unat b)"
      then have "unat a mod 256 = unat b mod 256" by (metis of_char_of)
      moreover have "unat a < 256" "unat b < 256" using unsigned_less [where ?'a = nat and ?'b = 8] by simp_all
      ultimately show "a = b" by (simp add: word_unat_eq_iff)
    qed
    then show ?thesis using that by (simp add: demo_seg_codec_def inj_map_eq_map)
  qed
  note exact = verify_sealed_exact [OF store_rep_reader [OF demo_store_rep] inj]
  have "length (frames demo_seg_codec None [demo_batch 0]) = 23" by (simp add: demo_frame_length)
  then have "frames demo_seg_codec None [demo_batch 0] \<noteq> [1]" by (metis length_Cons list.size(3) numeral_eq_one_iff
      semiring_norm(84) One_nat_def)
  then show ?thesis
    using exact [of demo_fs] exact [of "demo_fs(seg_key 0 \<mapsto> [1])"]
    by (simp add: demo_store_def demo_fs_def)
qed

theorem crash_in_seal_unopenable_witness:
  "\<exists>st1 fs1. seal_publish demo_seg_codec demo_store demo_fs = (Inr (), st1, fs1) \<and>
     fst (open_inner demo_seg_codec 1000 False fs1) =
       Inl (SegCorrupt ''HEAD names another segment than the manifest implies'')"
proof -
  obtain st1 fs1 where s: "seal_publish demo_seg_codec demo_store demo_fs = (Inr (), st1, fs1)"
    using seal_publish_rep [OF demo_seg_codec_ok demo_store_rep] by simp
  then show ?thesis
    using crash_in_seal_unopenable [OF demo_seg_codec_ok demo_store_rep _ _ s, of 1000 False] demo_stored_head
    by (auto simp: demo_store_def)
qed

end
