(* ===== verification/Index_Codec.thy ===== *)
theory Index_Codec
  imports Segment
begin

text \<open>
  The byte level of the index runs of \<open>ekos/crates/ledger/src/index.rs\<close>: order-preserving keys,
  the Bloom filter over entity ids, and the block codec with prefix-delta keys.  JSON text of
  values and numbers and \<open>zstd\<close> are the fields of a parameter record.
\<close>

unbundle bit_operations_syntax

datatype sort_order = Eavt | Aevt | Avet

record 'n index_entry =
  ie_entity :: uuid
  ie_attr :: nat
  ie_pos :: "nat option"
  ie_tx :: nat
  ie_op :: fact_op
  ie_value :: "'n fact_value"

definition from_fact :: "'n fact \<Rightarrow> nat \<Rightarrow> fact_op \<Rightarrow> 'n index_entry" where
  "from_fact f tx op =
     \<lparr>ie_entity = f_entity f, ie_attr = f_attr f, ie_pos = f_pos f, ie_tx = tx, ie_op = op,
      ie_value = f_value f\<rparr>"

definition entries_from_batches :: "'n batch list \<Rightarrow> 'n index_entry list" where
  "entries_from_batches bs =
     concat (map (\<lambda>b. map (\<lambda>(op, f). from_fact f (b_tx b) op) (b_ops b)) bs)"

section \<open>Keys\<close>

text \<open>Text forms the source gets from \<open>serde_json\<close>, and the compression of blocks.\<close>

record 'n idx_codec =
  ic_number :: "'n \<Rightarrow> bytes"
  ic_json :: "'n json \<Rightarrow> bytes"
  ic_enc_value :: "'n fact_value \<Rightarrow> bytes"
  ic_dec_value :: "bytes \<Rightarrow> 'n fact_value option"
  ic_zip :: "bytes \<Rightarrow> bytes"
  ic_unzip :: "bytes \<Rightarrow> bytes option"

definition idx_codec_ok :: "'n idx_codec \<Rightarrow> bool" where
  "idx_codec_ok K \<longleftrightarrow> (\<forall>v. ic_dec_value K (ic_enc_value K v) = Some v) \<and>
     (\<forall>x. ic_unzip K (ic_zip K x) = Some x)"

definition str_bytes :: "string \<Rightarrow> bytes" where
  "str_bytes s = map (\<lambda>c. word_of_nat (of_char c)) s"

definition uuid_bytes :: "uuid \<Rightarrow> bytes" where
  "uuid_bytes u = be_bytes 16 (unat u)"

definition uuid_from_slice :: "bytes \<Rightarrow> uuid option" where
  "uuid_from_slice b = (if length b = 16 then Some (word_of_nat (be_val b)) else None)"

fun push_escaped :: "bytes \<Rightarrow> bytes" where
  "push_escaped [] = [0, 0]"
| "push_escaped (b # bs) = (if b = 0 then [0, 0xFF] else [b]) @ push_escaped bs"

fun value_order_key :: "'n idx_codec \<Rightarrow> 'n fact_value \<Rightarrow> bytes" where
  "value_order_key K FNull = [0]"
| "value_order_key K (FBool b) = (if b then [2] else [1])"
| "value_order_key K (FNumber n) = 3 # ic_number K n"
| "value_order_key K (FString s) = 4 # str_bytes s"
| "value_order_key K (FRef u) = 5 # uuid_bytes u"
| "value_order_key K (FComposite v) = 6 # ic_json K v"

fun push_pos :: "nat option \<Rightarrow> bytes" where
  "push_pos None = [0, 0, 0, 0, 0]"
| "push_pos (Some p) = 1 # be_bytes 4 p"

fun encode_key :: "'n idx_codec \<Rightarrow> sort_order \<Rightarrow> 'n index_entry \<Rightarrow> bytes" where
  "encode_key K Eavt e = uuid_bytes (ie_entity e) @ be_bytes 4 (ie_attr e) @
     push_pos (ie_pos e) @ be_bytes 8 (ie_tx e)"
| "encode_key K Aevt e = be_bytes 4 (ie_attr e) @ uuid_bytes (ie_entity e) @
     push_pos (ie_pos e) @ be_bytes 8 (ie_tx e)"
| "encode_key K Avet e = be_bytes 4 (ie_attr e) @ push_escaped (value_order_key K (ie_value e)) @
     uuid_bytes (ie_entity e) @ push_pos (ie_pos e) @ be_bytes 8 (ie_tx e)"

datatype 'n scan_prefix =
    EntityPrefix uuid "nat option"
  | AttrPrefix nat
  | AttrValuePrefix nat "'n fact_value"

fun prefix_order :: "'n scan_prefix \<Rightarrow> sort_order" where
  "prefix_order (EntityPrefix e a) = Eavt"
| "prefix_order (AttrPrefix a) = Aevt"
| "prefix_order (AttrValuePrefix a v) = Avet"

fun prefix_bytes :: "'n idx_codec \<Rightarrow> 'n scan_prefix \<Rightarrow> bytes" where
  "prefix_bytes K (EntityPrefix e a) =
     uuid_bytes e @ (case a of None \<Rightarrow> [] | Some i \<Rightarrow> be_bytes 4 i)"
| "prefix_bytes K (AttrPrefix a) = be_bytes 4 a"
| "prefix_bytes K (AttrValuePrefix a v) = be_bytes 4 a @ push_escaped (value_order_key K v)"

definition in_prefix :: "bytes \<Rightarrow> bytes \<Rightarrow> bool" where
  "in_prefix key pre \<longleftrightarrow> length pre \<le> length key \<and> take (length pre) key = pre"

section \<open>Entity filter\<close>

definition FILTER_BITS_PER_ENTITY :: nat where
  "FILTER_BITS_PER_ENTITY = 10"

definition FILTER_PROBES :: nat where
  "FILTER_PROBES = 7"

record entity_filter =
  ef_bits :: string
  ef_words :: "64 word list"

definition mix64 :: "64 word \<Rightarrow> 64 word" where
  "mix64 z0 =
     (let z1 = (z0 XOR drop_bit 30 z0) * 0xbf58476d1ce4e5b9;
          z2 = (z1 XOR drop_bit 27 z1) * 0x94d049bb133111eb
      in z2 XOR drop_bit 31 z2)"

definition probes :: "uuid \<Rightarrow> nat \<Rightarrow> nat list" where
  "probes entity nbits =
     (let b = uuid_bytes entity;
          h1 = mix64 (word_of_nat (le_val (slice 0 8 b)));
          h2 = mix64 (word_of_nat (le_val (slice 8 16 b))) OR 1
      in map (\<lambda>i. unat (h1 + word_of_nat i * h2) mod nbits) [0..<FILTER_PROBES])"

definition set_bit_at :: "nat \<Rightarrow> 64 word list \<Rightarrow> 64 word list" where
  "set_bit_at b ws = ws[b div 64 := ws ! (b div 64) OR push_bit (b mod 64) 1]"

definition div_ceil :: "nat \<Rightarrow> nat \<Rightarrow> nat" where
  "div_ceil a b = (a + b - 1) div b"

definition filter_build :: "uuid list \<Rightarrow> nat \<Rightarrow> entity_filter" where
  "filter_build entities distinct_hint =
     (let bits = max (max distinct_hint 1 * FILTER_BITS_PER_ENTITY) 64;
          ws0 = replicate (div_ceil bits 64) 0;
          ws = fold (\<lambda>e ws. fold set_bit_at (probes e (length ws * 64)) ws) entities ws0
      in \<lparr>ef_bits = hex_encode (concat (map (\<lambda>w. le_bytes 8 (unat w)) ws)), ef_words = ws\<rparr>)"

fun words_of :: "bytes \<Rightarrow> 64 word list" where
  "words_of (b0 # b1 # b2 # b3 # b4 # b5 # b6 # b7 # bs) =
     word_of_nat (le_val [b0, b1, b2, b3, b4, b5, b6, b7]) # words_of bs"
| "words_of _ = []"

definition hydrate :: "entity_filter \<Rightarrow> entity_filter option" where
  "hydrate f =
     (case hex_decode (ef_bits f) of
        None \<Rightarrow> None
      | Some bs \<Rightarrow> if bs = [] \<or> length bs mod 8 \<noteq> 0 then None
                   else Some (f\<lparr>ef_words := words_of bs\<rparr>))"

definition may_contain :: "entity_filter \<Rightarrow> uuid \<Rightarrow> bool" where
  "may_contain f entity \<longleftrightarrow>
     list_all (\<lambda>b. ef_words f ! (b div 64) AND push_bit (b mod 64) 1 \<noteq> 0)
       (probes entity (length (ef_words f) * 64))"

section \<open>Records and blocks\<close>

fun stores_values :: "sort_order \<Rightarrow> bool" where
  "stores_values Eavt \<longleftrightarrow> True"
| "stores_values _ \<longleftrightarrow> False"

fun is_ref :: "'n fact_value \<Rightarrow> bool" where
  "is_ref (FRef _) \<longleftrightarrow> True"
| "is_ref _ \<longleftrightarrow> False"

type_synonym 'n raw_record = "bytes \<times> 'n index_entry"

definition project :: "'n idx_codec \<Rightarrow> sort_order \<Rightarrow> 'n index_entry \<Rightarrow> 'n raw_record option" where
  "project K order e =
     (if order = Avet \<and> \<not> is_ref (ie_value e) then None
      else Some (encode_key K order e, if stores_values order then e else e\<lparr>ie_value := FNull\<rparr>))"

fun common_prefix :: "'a list \<Rightarrow> 'a list \<Rightarrow> nat" where
  "common_prefix (x # xs) (y # ys) = (if x = y then Suc (common_prefix xs ys) else 0)"
| "common_prefix _ _ = 0"

definition encode_body :: "'n idx_codec \<Rightarrow> sort_order \<Rightarrow> 'n index_entry \<Rightarrow> bytes" where
  "encode_body K order e =
     uuid_bytes (ie_entity e) @ le_bytes 4 (ie_attr e) @
     (case ie_pos e of None \<Rightarrow> [0] | Some p \<Rightarrow> 1 # le_bytes 4 p) @
     le_bytes 8 (ie_tx e) @ [if ie_op e = Retract then 1 else 0] @
     (if stores_values order
      then (let v = ic_enc_value K (ie_value e) in le_bytes 4 (length v) @ v) else [])"

definition encode_record :: "'n idx_codec \<Rightarrow> sort_order \<Rightarrow> bytes \<Rightarrow> 'n raw_record \<Rightarrow> bytes" where
  "encode_record K order prev r =
     (let key = fst r;
          shared = min (common_prefix prev key) 65535;
          suf = drop shared key
      in le_bytes 2 shared @ le_bytes 2 (length suf) @ suf @ encode_body K order (snd r))"

fun encode_records :: "'n idx_codec \<Rightarrow> sort_order \<Rightarrow> bytes \<Rightarrow> 'n raw_record list \<Rightarrow> bytes" where
  "encode_records K order prev [] = []"
| "encode_records K order prev (r # rs) = encode_record K order prev r @ encode_records K order (fst r) rs"

definition encode_block :: "'n idx_codec \<Rightarrow> sort_order \<Rightarrow> 'n raw_record list \<Rightarrow> bytes" where
  "encode_block K order chunk = le_bytes 4 (length chunk) @ encode_records K order [] chunk"

datatype keep = KeepYes | KeepNo | KeepStop

text \<open>The closure \<open>take\<close> of the decoder: the next \<open>n\<close> bytes, or the error of a short block.\<close>

definition take_bytes :: "nat \<Rightarrow> bytes \<Rightarrow> (bytes \<Rightarrow> bytes \<Rightarrow> segment_error + 'a) \<Rightarrow> segment_error + 'a" where
  "take_bytes n bs k = (if n \<le> length bs then k (take n bs) (drop n bs)
                        else Inl (SegCorrupt ''run block: truncated''))"

text \<open>Stepping over the body of a record that is not wanted.\<close>

definition skip_body :: "sort_order \<Rightarrow> bytes \<Rightarrow> (bytes \<Rightarrow> segment_error + 'a) \<Rightarrow> segment_error + 'a" where
  "skip_body order bs k =
     take_bytes (16 + 4) bs (\<lambda>_ bs.
     take_bytes 1 bs (\<lambda>tag bs.
     (if tag ! 0 \<noteq> 0 then take_bytes 4 bs (\<lambda>_ bs. take_bytes (8 + 1) bs (\<lambda>_ bs.
        (if stores_values order
         then take_bytes 4 bs (\<lambda>l bs. take_bytes (le_val l) bs (\<lambda>_ bs. k bs)) else k bs)))
      else take_bytes (8 + 1) bs (\<lambda>_ bs.
        (if stores_values order
         then take_bytes 4 bs (\<lambda>l bs. take_bytes (le_val l) bs (\<lambda>_ bs. k bs)) else k bs)))))"

definition read_value ::
  "'n idx_codec \<Rightarrow> sort_order \<Rightarrow> bytes \<Rightarrow> ('n fact_value \<Rightarrow> bytes \<Rightarrow> segment_error + 'a) \<Rightarrow> segment_error + 'a"
  where
  "read_value K order bs k =
     (if stores_values order then
        take_bytes 4 bs (\<lambda>l bs. take_bytes (le_val l) bs (\<lambda>v bs.
          case ic_dec_value K v of None \<Rightarrow> Inl SegJson | Some x \<Rightarrow> k x bs))
      else k FNull bs)"

definition read_pos :: "bytes \<Rightarrow> (nat option \<Rightarrow> bytes \<Rightarrow> segment_error + 'a) \<Rightarrow> segment_error + 'a" where
  "read_pos bs k =
     take_bytes 1 bs (\<lambda>tag bs.
       if tag ! 0 = 0 then k None bs else take_bytes 4 bs (\<lambda>p bs. k (Some (le_val p)) bs))"

definition read_body ::
  "'n idx_codec \<Rightarrow> sort_order \<Rightarrow> bytes \<Rightarrow> ('n index_entry \<Rightarrow> bytes \<Rightarrow> segment_error + 'a) \<Rightarrow> segment_error + 'a"
  where
  "read_body K order bs k =
     take_bytes 16 bs (\<lambda>u bs.
     case uuid_from_slice u of None \<Rightarrow> Inl (SegCorrupt ''run block: bad uuid'') | Some entity \<Rightarrow>
     take_bytes 4 bs (\<lambda>a bs.
     read_pos bs (\<lambda>pos bs.
     take_bytes 8 bs (\<lambda>t bs.
     take_bytes 1 bs (\<lambda>o1 bs.
     read_value K order bs (\<lambda>v bs.
       k \<lparr>ie_entity = entity, ie_attr = le_val a, ie_pos = pos, ie_tx = le_val t,
          ie_op = (if o1 ! 0 = 1 then Retract else Assert), ie_value = v\<rparr> bs))))))"

fun decode_records ::
  "'n idx_codec \<Rightarrow> sort_order \<Rightarrow> (bytes \<Rightarrow> keep) \<Rightarrow> nat \<Rightarrow> bytes \<Rightarrow> bytes \<Rightarrow> segment_error + 'n raw_record list"
  where
  "decode_records K order keep 0 key bs = Inr []"
| "decode_records K order keep (Suc n) key bs =
     take_bytes 2 bs (\<lambda>s bs. take_bytes 2 bs (\<lambda>l bs.
       if length key < le_val s then Inl (SegCorrupt ''run block: bad shared prefix'')
       else take_bytes (le_val l) bs (\<lambda>suf bs.
         (let key' = take (le_val s) key @ suf
          in case keep key' of
               KeepStop \<Rightarrow> Inr []
             | KeepNo \<Rightarrow> skip_body order bs (\<lambda>bs. decode_records K order keep n key' bs)
             | KeepYes \<Rightarrow> read_body K order bs (\<lambda>e bs.
                 (case decode_records K order keep n key' bs of
                    Inl err \<Rightarrow> Inl err
                  | Inr rs \<Rightarrow> Inr ((key', e) # rs)))))))"

definition decode_block_where ::
  "'n idx_codec \<Rightarrow> sort_order \<Rightarrow> bytes \<Rightarrow> (bytes \<Rightarrow> keep) \<Rightarrow> segment_error + 'n raw_record list" where
  "decode_block_where K order bs keep =
     take_bytes 4 bs (\<lambda>c bs. decode_records K order keep (le_val c) [] bs)"

section \<open>Keys: order and injectivity\<close>

lemma length_uuid_bytes [simp]: "length (uuid_bytes u) = 16"
  by (simp add: uuid_bytes_def)

lemma uuid_round_trip [simp]: "uuid_from_slice (uuid_bytes u) = Some u"
proof -
  have "unat u < 256 ^ 16" using unsigned_less [of u, where ?'a = nat] by simp
  then have "be_val (uuid_bytes u) = unat u" by (simp add: uuid_bytes_def be_val_be_bytes_id)
  then show ?thesis by (simp add: uuid_from_slice_def)
qed

lemma uuid_bytes_inj: "uuid_bytes u = uuid_bytes v \<longleftrightarrow> u = v"
  by (metis option.inject uuid_round_trip)

text \<open>
  The escaped, terminated form of a variable-length field: tuple order survives concatenation,
  and no escaped field is a prefix of another.
\<close>

lemma push_escaped_less: "a < b \<Longrightarrow> push_escaped a @ x < push_escaped b @ y"
proof (induction a arbitrary: b)
  case Nil
  then obtain c b' where "b = c # b'" by (cases b) auto
  then show ?case by (auto simp: word_gt_0)
next
  case (Cons c a)
  then obtain d b' where b: "b = d # b'" by (cases b) auto
  show ?case
  proof (cases "c = d")
    case True
    then have "a < b'" using Cons.prems b by simp
    from Cons.IH [OF this] show ?thesis using True b by auto
  next
    case False
    then have "c < d" using Cons.prems b by simp
    then show ?thesis using b by (auto simp: word_gt_0)
  qed
qed

lemma push_escaped_append_less_iff:
  "push_escaped a @ x < push_escaped b @ y \<longleftrightarrow> a < b \<or> a = b \<and> x < y"
proof -
  have same: "push_escaped a @ x < push_escaped a @ y \<longleftrightarrow> x < y"
    by (induction a) auto
  show ?thesis
  proof (cases a b rule: linorder_cases)
    case less
    then show ?thesis using push_escaped_less [of a b x y] by simp
  next
    case equal
    then show ?thesis using same by simp
  next
    case greater
    then have "push_escaped b @ y < push_escaped a @ x" by (rule push_escaped_less)
    then show ?thesis using greater by auto
  qed
qed

lemma push_escaped_prefix_free: "prefix (push_escaped a) (push_escaped b @ y) \<Longrightarrow> a = b"
proof (induction a arbitrary: b)
  case Nil
  then show ?case by (cases b) (auto split: if_splits)
next
  case (Cons c a)
  then show ?case by (cases b) (auto split: if_splits)
qed

lemma in_prefix_iff: "in_prefix key pre \<longleftrightarrow> prefix pre key"
  by (auto simp: in_prefix_def prefix_def) (metis append_take_drop_id)

lemma prefix_same_length: "length a = length b \<Longrightarrow> prefix (a @ x) (b @ y) \<longleftrightarrow> a = b \<and> prefix x y"
  by (auto simp: prefix_def)

definition entry_fits :: "'n index_entry \<Rightarrow> bool" where
  "entry_fits e \<longleftrightarrow> ie_attr e < 2 ^ 32 \<and> (\<forall>p. ie_pos e = Some p \<longrightarrow> p < 2 ^ 32) \<and> ie_tx e < 2 ^ 64"

lemma be4_eq: "a < 2 ^ 32 \<Longrightarrow> b < 2 ^ 32 \<Longrightarrow> be_bytes 4 a = be_bytes 4 b \<longleftrightarrow> a = b"
  using be_bytes_inj [of a 4 b] by auto

lemma be8_eq: "a < 2 ^ 64 \<Longrightarrow> b < 2 ^ 64 \<Longrightarrow> be_bytes 8 a = be_bytes 8 b \<longleftrightarrow> a = b"
  using be_bytes_inj [of a 8 b] by auto

lemma push_pos_eq:
  assumes "\<forall>p. a = Some p \<longrightarrow> p < 2 ^ 32" "\<forall>p. b = Some p \<longrightarrow> p < 2 ^ 32"
  shows "push_pos a = push_pos b \<longleftrightarrow> a = b"
  using assms be4_eq by (cases a; cases b) auto

lemma length_push_pos [simp]: "length (push_pos p) = 5"
  by (cases p) auto

text \<open>An EAVT key determines entity, attribute, position and transaction.\<close>

lemma eavt_key_inj:
  assumes "entry_fits e" "entry_fits f"
  shows "encode_key K Eavt e = encode_key K Eavt f \<longleftrightarrow>
    (ie_entity e, ie_attr e, ie_pos e, ie_tx e) = (ie_entity f, ie_attr f, ie_pos f, ie_tx f)"
  using assms be4_eq [of "ie_attr e" "ie_attr f"] be8_eq [of "ie_tx e" "ie_tx f"]
    push_pos_eq [of "ie_pos e" "ie_pos f"]
  by (simp add: entry_fits_def uuid_bytes_inj)

lemma entity_prefix: "in_prefix (encode_key K Eavt e) (prefix_bytes K (EntityPrefix u None)) \<longleftrightarrow> ie_entity e = u"
  using prefix_same_length [of "uuid_bytes u" "uuid_bytes (ie_entity e)" "[]"]
  by (auto simp: in_prefix_iff uuid_bytes_inj)

lemma attr_prefix:
  assumes "entry_fits e" "a < 2 ^ 32"
  shows "in_prefix (encode_key K Aevt e) (prefix_bytes K (AttrPrefix a)) \<longleftrightarrow> ie_attr e = a"
  using prefix_same_length [of "be_bytes 4 a" "be_bytes 4 (ie_attr e)" "[]"] be4_eq assms
  by (auto simp: in_prefix_iff entry_fits_def)

lemma attr_value_prefix:
  assumes "entry_fits e" "a < 2 ^ 32"
  shows "in_prefix (encode_key K Avet e) (prefix_bytes K (AttrValuePrefix a v)) \<longleftrightarrow>
    ie_attr e = a \<and> value_order_key K (ie_value e) = value_order_key K v"
proof -
  have "prefix (push_escaped (value_order_key K v))
      (push_escaped (value_order_key K (ie_value e)) @ rest) \<longleftrightarrow>
      value_order_key K v = value_order_key K (ie_value e)" for rest
    using push_escaped_prefix_free by auto
  then show ?thesis
    using prefix_same_length [of "be_bytes 4 a" "be_bytes 4 (ie_attr e)"] be4_eq assms
    by (auto simp: in_prefix_iff entry_fits_def)
qed

lemma ref_order_key: "value_order_key K v = value_order_key K (FRef u) \<longleftrightarrow> v = FRef u"
  by (cases v) (auto simp: uuid_bytes_inj)

section \<open>Hexadecimal keeps the order\<close>

lemma hex_encode_less [simp]: "hex_encode a < hex_encode b \<longleftrightarrow> a < b"
proof (induction a arbitrary: b)
  case Nil
  then show ?case by (cases b) auto
next
  case (Cons x a)
  show ?case
  proof (cases b)
    case (Cons y b')
    have "unat x < unat y \<longleftrightarrow> unat x div 16 < unat y div 16 \<or>
        unat x div 16 = unat y div 16 \<and> unat x mod 16 < unat y mod 16" (is "_ \<longleftrightarrow> ?r")
      using nibble_less [of "unat x mod 16" "unat y mod 16" "unat x div 16" "unat y div 16"] by simp
    then have "x < y \<longleftrightarrow> ?r" by (simp add: word_less_nat_alt)
    moreover have "x = y \<longleftrightarrow> unat x div 16 = unat y div 16 \<and> unat x mod 16 = unat y mod 16"
      using byte_nibbles_eq by blast
    ultimately show ?thesis
      using Cons Cons.IH [of b'] byte_nibbles [of x] byte_nibbles [of y]
      by (auto simp: hex_digit_less hex_digit_eq)
  qed simp
qed

lemma hex_encode_prefix [simp]: "starts_with (hex_encode a) (hex_encode p) \<longleftrightarrow> in_prefix a p"
proof -
  have "prefix (hex_encode p) (hex_encode a) \<longleftrightarrow> prefix p a"
  proof (induction p arbitrary: a)
    case (Cons x p)
    show ?case
    proof (cases a)
      case (Cons y a')
      then show ?thesis
        using Cons.IH [of a'] byte_nibbles [of x] byte_nibbles [of y] byte_nibbles_eq [of x y]
        by (auto simp: hex_digit_eq)
    qed simp
  qed simp
  then show ?thesis by (auto simp: starts_with_iff in_prefix_iff prefix_def)
qed

section \<open>The filter has no false negatives\<close>

abbreviation has_bit :: "64 word list \<Rightarrow> nat \<Rightarrow> bool" where
  "has_bit ws b \<equiv> ws ! (b div 64) AND push_bit (b mod 64) 1 \<noteq> 0"

lemma length_set_bit_at [simp]: "length (set_bit_at b ws) = length ws"
  by (simp add: set_bit_at_def)

lemma has_bit_set_bit_at: "has_bit ws c \<or> c = b \<and> b < 64 * length ws \<Longrightarrow> has_bit (set_bit_at b ws) c"
  unfolding bit_iff_and_push_bit_not_eq_0 [symmetric] set_bit_at_def
  by (cases "c div 64 = b div 64"; cases "b div 64 < length ws")
    (auto simp: bit_or_iff bit_exp_iff list_update_beyond less_mult_imp_div_less mult.commute not_less
      dest: less_mult_imp_div_less)

lemma fold_set_bits:
  "length (fold set_bit_at bs ws) = length ws \<and>
   (\<forall>c. has_bit ws c \<or> c \<in> set bs \<and> c < 64 * length ws \<longrightarrow> has_bit (fold set_bit_at bs ws) c)"
proof (induction bs arbitrary: ws)
  case (Cons b bs)
  then show ?case using has_bit_set_bit_at [of ws _ b] Cons.IH [of "set_bit_at b ws"]
    by (auto simp del: set_bit_at_def)
qed simp

lemma probes_bound: "0 < n \<Longrightarrow> b \<in> set (probes e n) \<Longrightarrow> b < n"
  by (auto simp: probes_def Let_def)

lemma fold_entities:
  assumes "0 < length ws"
  shows "length (fold (\<lambda>e ws. fold set_bit_at (probes e (length ws * 64)) ws) es ws) = length ws \<and>
    (\<forall>c. has_bit ws c \<or> (\<exists>e \<in> set es. c \<in> set (probes e (length ws * 64))) \<longrightarrow>
      has_bit (fold (\<lambda>e ws. fold set_bit_at (probes e (length ws * 64)) ws) es ws) c)"
  using assms
proof (induction es arbitrary: ws)
  case (Cons e es)
  let ?ws = "fold set_bit_at (probes e (length ws * 64)) ws"
  have len: "length ?ws = length ws" using fold_set_bits by blast
  have step: "has_bit ?ws c" if "has_bit ws c \<or> c \<in> set (probes e (length ws * 64))" for c
    using that fold_set_bits [of "probes e (length ws * 64)" ws] probes_bound [of "length ws * 64" c e] Cons.prems
    by (auto simp: mult.commute)
  show ?case using Cons.IH [of ?ws] step len Cons.prems by auto
qed simp

lemma filter_build_words: "0 < length (ef_words (filter_build es h))"
proof -
  have "0 < div_ceil (max (max h 1 * FILTER_BITS_PER_ENTITY) 64) 64"
    by (simp add: div_ceil_def div_greater_zero_iff)
  then show ?thesis
    using fold_entities [of "replicate (div_ceil (max (max h 1 * FILTER_BITS_PER_ENTITY) 64) 64) 0" es]
    by (simp add: filter_build_def Let_def)
qed

lemma filter_build_contains: "e \<in> set es \<Longrightarrow> may_contain (filter_build es h) e"
proof -
  let ?ws0 = "replicate (div_ceil (max (max h 1 * FILTER_BITS_PER_ENTITY) 64) 64) (0 :: 64 word)"
  have pos: "0 < length ?ws0" by (simp add: div_ceil_def div_greater_zero_iff)
  assume "e \<in> set es"
  then show ?thesis
    using fold_entities [OF pos, of es] by (auto simp: may_contain_def filter_build_def Let_def list_all_iff)
qed

lemma words_of_append: "length bs = 8 \<Longrightarrow> words_of (bs @ rest) = word_of_nat (le_val bs) # words_of rest"
proof -
  assume len: "length bs = 8"
  have e: "bs = [bs ! 0, bs ! 1, bs ! 2, bs ! 3, bs ! 4, bs ! 5, bs ! 6, bs ! 7]"
    using len by (intro nth_equalityI) (auto simp: less_Suc_eq eval_nat_numeral)
  have "words_of ([b0, b1, b2, b3, b4, b5, b6, b7] @ rest) =
      word_of_nat (le_val [b0, b1, b2, b3, b4, b5, b6, b7]) # words_of rest" for b0 b1 b2 b3 b4 b5 b6 b7
    by simp
  then show ?thesis by (metis e)
qed

lemma words_of_concat: "words_of (concat (map (\<lambda>w. le_bytes 8 (unat w)) ws)) = ws"
proof (induction ws)
  case (Cons w ws)
  have "unat w < 256 ^ 8" using unsigned_less [of w, where ?'a = nat] by simp
  then show ?case using Cons by (simp add: words_of_append le_val_le_bytes_id)
qed simp

text \<open>A filter read back from its hex form is the filter that was built.\<close>

lemma hydrate_build: "hydrate ((filter_build es h)\<lparr>ef_words := []\<rparr>) = Some (filter_build es h)"
proof -
  let ?f = "filter_build es h"
  have bits: "ef_bits ?f = hex_encode (concat (map (\<lambda>w. le_bytes 8 (unat w)) (ef_words ?f)))"
    by (simp add: filter_build_def Let_def)
  define bs where "bs = concat (map (\<lambda>w. le_bytes 8 (unat w)) (ef_words ?f))"
  have "length (concat (map (\<lambda>w. le_bytes 8 (unat w)) ws)) = 8 * length ws" for ws :: "64 word list"
    by (induction ws) auto
  then have "length bs = 8 * length (ef_words ?f)" by (simp add: bs_def)
  then have "bs \<noteq> []" "length bs mod 8 = 0" using filter_build_words [of es h] by auto
  moreover have "words_of bs = ef_words ?f" by (simp add: bs_def words_of_concat)
  ultimately show ?thesis using bits by (simp add: hydrate_def bs_def [symmetric])
qed

section \<open>The block codec round trips\<close>

definition record_fits :: "'n idx_codec \<Rightarrow> sort_order \<Rightarrow> 'n raw_record \<Rightarrow> bool" where
  "record_fits K order r \<longleftrightarrow> length (fst r) < 2 ^ 16 \<and> entry_fits (snd r) \<and>
     (if stores_values order then length (ic_enc_value K (ie_value (snd r))) < 2 ^ 32
      else ie_value (snd r) = FNull)"

lemma take_bytes_append: "length x = n \<Longrightarrow> take_bytes n (x @ r) k = k x r"
  by (simp add: take_bytes_def)

lemma take_bytes_one: "take_bytes (Suc 0) (x # r) k = k [x] r"
  by (simp add: take_bytes_def)

lemma take_bytes_pair: "length x + length y = n \<Longrightarrow> take_bytes n (x @ y @ r) k = k (x @ y) r"
  using take_bytes_append [of "x @ y" n r k] by simp

lemma take_bytes_snoc: "Suc (length x) = n \<Longrightarrow> take_bytes n (x @ c # r) k = k (x @ [c]) r"
  using take_bytes_append [of "x @ [c]" n r k] by simp

lemmas take_simps = take_bytes_pair take_bytes_snoc take_bytes_append take_bytes_append [where r = "[]", simplified] take_bytes_one

lemma encode_body_split:
  "encode_body K order e @ rest =
     (uuid_bytes (ie_entity e) @ le_bytes 4 (ie_attr e)) @
     (case ie_pos e of None \<Rightarrow> 0 # (le_bytes 8 (ie_tx e) @ [if ie_op e = Retract then 1 else 0]) @
        (if stores_values order
         then le_bytes 4 (length (ic_enc_value K (ie_value e))) @ ic_enc_value K (ie_value e) @ rest else rest)
      | Some p \<Rightarrow> 1 # le_bytes 4 p @ (le_bytes 8 (ie_tx e) @ [if ie_op e = Retract then 1 else 0]) @
        (if stores_values order
         then le_bytes 4 (length (ic_enc_value K (ie_value e))) @ ic_enc_value K (ie_value e) @ rest else rest))"
  by (simp add: encode_body_def Let_def split: option.split)

lemma skip_body_encode:
  assumes "record_fits K order (key, e)"
  shows "skip_body order (encode_body K order e @ rest) k = k rest"
  using assms unfolding encode_body_split
  by (cases "ie_pos e")
    (simp_all add: skip_body_def take_simps record_fits_def le_val_le_bytes_id split: if_splits)

lemma read_body_encode:
  assumes "idx_codec_ok K" "record_fits K order (key, e)"
  shows "read_body K order (encode_body K order e @ rest) k = k e rest"
proof -
  have fits: "ie_attr e < 256 ^ 4" "ie_tx e < 256 ^ 8" "\<And>p. ie_pos e = Some p \<Longrightarrow> p < 256 ^ 4"
    using assms(2) by (simp_all add: record_fits_def entry_fits_def)
  have op: "(if (if ie_op e = Retract then 1 else 0) = (1 :: byte) then Retract else Assert) = ie_op e"
    by (cases "ie_op e") auto
  have val: "read_value K order
      ((if stores_values order
        then le_bytes 4 (length (ic_enc_value K (ie_value e))) @ ic_enc_value K (ie_value e) @ rest
        else rest)) j = j (ie_value e) rest" for j :: "'a fact_value \<Rightarrow> bytes \<Rightarrow> segment_error + 'b"
    using assms by (simp add: read_value_def take_simps record_fits_def idx_codec_ok_def
        le_val_le_bytes_id split: if_splits)
  have eq: "\<lparr>ie_entity = ie_entity e, ie_attr = ie_attr e, ie_pos = p, ie_tx = ie_tx e, ie_op = ie_op e,
      ie_value = ie_value e\<rparr> = e" if "ie_pos e = p" for p
    using that by (cases e) simp
  show ?thesis
    using fits op unfolding encode_body_split
    by (cases "ie_pos e")
      (simp_all add: read_body_def read_pos_def take_simps le_val_le_bytes_id val eq)
qed

lemma take_common_prefix: "n \<le> common_prefix p k \<Longrightarrow> take n p = take n k \<and> n \<le> length p \<and> n \<le> length k"
proof (induction p k arbitrary: n rule: common_prefix.induct)
  case (1 x xs y ys)
  then show ?case by (cases n) (auto split: if_splits)
qed auto

text \<open>What a decoder keeps of the records of a block.\<close>

fun kept :: "(bytes \<Rightarrow> keep) \<Rightarrow> 'n raw_record list \<Rightarrow> 'n raw_record list" where
  "kept keep [] = []"
| "kept keep (r # rs) =
     (case keep (fst r) of KeepStop \<Rightarrow> [] | KeepNo \<Rightarrow> kept keep rs | KeepYes \<Rightarrow> r # kept keep rs)"

lemma decode_records_encode:
  assumes "idx_codec_ok K" "\<forall>r \<in> set rs. record_fits K order r" "length prev < 2 ^ 16"
  shows "decode_records K order keep (length rs) prev (encode_records K order prev rs) = Inr (kept keep rs)"
  using assms(2,3)
proof (induction rs arbitrary: prev)
  case (Cons r rs)
  obtain key e where r: "r = (key, e)" by (cases r)
  have fits: "record_fits K order (key, e)" using Cons.prems r by simp
  then have klen: "length key < 2 ^ 16" by (simp add: record_fits_def)
  define s where "s = min (common_prefix prev key) 65535"
  have s: "take s prev = take s key" "s \<le> length prev" "s \<le> length key" "s < 256 ^ 2"
    using take_common_prefix [of s prev key] by (auto simp: s_def)
  have l: "length (drop s key) < 256 ^ 2" using klen by simp
  have key: "take s prev @ drop s key = key" using s(1) by simp
  have IH: "decode_records K order keep (length rs) key (encode_records K order key rs) = Inr (kept keep rs)"
    using Cons klen by simp
  have enc: "encode_records K order prev (r # rs) = le_bytes 2 s @ le_bytes 2 (length (drop s key)) @
      drop s key @ encode_body K order e @ encode_records K order key rs"
    by (simp add: r encode_record_def Let_def s_def [symmetric])
  have v: "le_val (le_bytes 2 s) = s" "le_val (le_bytes 2 (length (drop s key))) = length (drop s key)"
    using s(4) l by (simp_all add: le_val_le_bytes_id)
  show ?case
    unfolding enc list.size decode_records.simps add_Suc_right add_0_right
    using s(2) key IH
    by (simp add: take_simps v Let_def r skip_body_encode [OF fits] read_body_encode [OF assms(1) fits]
        del: length_drop split: keep.split)
qed simp

lemma decode_block_encode:
  assumes "idx_codec_ok K" "\<forall>r \<in> set rs. record_fits K order r" "length rs < 2 ^ 32"
  shows "decode_block_where K order (encode_block K order rs) keep = Inr (kept keep rs)"
  using assms decode_records_encode [OF assms(1,2), of "[]" keep]
  by (simp add: decode_block_where_def encode_block_def take_simps le_val_le_bytes_id)

lemma kept_all [simp]: "kept (\<lambda>_. KeepYes) rs = rs"
  by (induction rs) auto

definition prefix_keep :: "bytes \<Rightarrow> bytes \<Rightarrow> keep" where
  "prefix_keep pre key = (if in_prefix key pre then KeepYes else if key > pre then KeepStop else KeepNo)"

text \<open>Past the prefix range for good: the comparison that ends a scan.\<close>

lemma past_prefix:
  fixes pre k k' :: "'a :: linorder list"
  assumes "pre < k" "\<not> prefix pre k" "k \<le> k'"
  shows "pre < k' \<and> \<not> prefix pre k'"
  using assms
proof (induction pre arbitrary: k k')
  case (Cons x pre)
  then obtain y ys where k: "k = y # ys" by (cases k) auto
  then obtain z zs where k': "k' = z # zs" using Cons.prems by (cases k') auto
  show ?case
  proof (cases "x = y \<and> y = z")
    case True
    then show ?thesis using Cons.IH [of ys zs] Cons.prems k k' by auto
  next
    case False
    then show ?thesis using Cons.prems k k' by auto
  qed
qed simp

lemma prefix_le: "prefix pre (k :: 'a :: linorder list) \<Longrightarrow> pre \<le> k"
proof (induction pre arbitrary: k)
  case (Cons x pre)
  then show ?case by (cases k) auto
qed simp

lemma kept_prefix:
  assumes "sorted (map fst rs)"
  shows "kept (prefix_keep pre) rs = filter (\<lambda>r. in_prefix (fst r) pre) rs"
  using assms
proof (induction rs)
  case (Cons r rs)
  have "\<not> in_prefix (fst q) pre" if "\<not> in_prefix (fst r) pre" "fst r > pre" "q \<in> set rs" for q
    using past_prefix [of pre "fst r" "fst q"] that Cons.prems by (auto simp: in_prefix_iff)
  then show ?case using Cons by (auto simp: prefix_keep_def filter_empty_conv)
qed simp

end
