(* ===== verification/Fold_State.thy ===== *)
theory Fold_State
  imports Index_Codec
begin

text \<open>
  How \<open>ekos/crates/ledger/src/fact_ledger.rs\<close> folds the history of an entity into its live
  facts: \<open>fold_state\<close>, the checkpoint that shortens it, and the wall clock to transaction map.
  The lemmas show that the fold depends only on what a reader can see of the order of entries,
  that a checkpoint never changes its result, and that folding the diff of two states after the
  first gives the second.
\<close>

section \<open>What a reader sees of a history\<close>

text \<open>
  The order in which equal slots of one transaction are met is all that a reader can see of the
  order of entries: \<open>same_history\<close> relates two listings that agree on it.
\<close>

definition slot_tx :: "'n index_entry \<Rightarrow> uuid \<times> nat \<times> nat option \<times> nat" where
  "slot_tx e = (ie_entity e, ie_attr e, ie_pos e, ie_tx e)"

definition same_history :: "'n index_entry list \<Rightarrow> 'n index_entry list \<Rightarrow> bool" where
  "same_history xs ys \<longleftrightarrow> (\<forall>k. filter (\<lambda>e. slot_tx e = k) xs = filter (\<lambda>e. slot_tx e = k) ys)"

lemma same_history_refl [simp]: "same_history xs xs"
  by (simp add: same_history_def)

lemma same_history_trans: "same_history xs ys \<Longrightarrow> same_history ys zs \<Longrightarrow> same_history xs zs"
  by (simp add: same_history_def)

lemma same_history_sym: "same_history xs ys \<Longrightarrow> same_history ys xs"
  by (simp add: same_history_def)

lemma same_history_append:
  "same_history xs ys \<Longrightarrow> same_history xs' ys' \<Longrightarrow> same_history (xs @ xs') (ys @ ys')"
  by (simp add: same_history_def)

lemma same_history_set:
  assumes "same_history xs ys"
  shows "set xs = set ys"
proof (rule set_eqI)
  fix e
  have "e \<in> set xs \<longleftrightarrow> e \<in> set (filter (\<lambda>x. slot_tx x = slot_tx e) xs)" by simp
  also have "\<dots> \<longleftrightarrow> e \<in> set (filter (\<lambda>x. slot_tx x = slot_tx e) ys)"
    using assms unfolding same_history_def by (metis (no_types))
  also have "\<dots> \<longleftrightarrow> e \<in> set ys" by simp
  finally show "e \<in> set xs \<longleftrightarrow> e \<in> set ys" .
qed

lemma same_history_filter:
  assumes "same_history xs ys"
  shows "same_history (filter P xs) (filter P ys)"
proof -
  have "filter Q (filter P zs) = filter P (filter Q zs)" for Q and zs :: "'a index_entry list"
    by (simp add: conj_commute)
  then show ?thesis using assms unfolding same_history_def by metis
qed

lemma sorted_const: "(\<And>x y. x \<in> set l \<Longrightarrow> y \<in> set l \<Longrightarrow> x = y) \<Longrightarrow> sorted l"
  by (auto simp: sorted_iff_nth_mono intro: eq_refl)

text \<open>A stable sort by a function of the slot keeps the history.\<close>

lemma same_history_sort:
  assumes "\<And>e e'. e \<in> set xs \<Longrightarrow> e' \<in> set xs \<Longrightarrow> slot_tx e = slot_tx e' \<Longrightarrow> f e = f e'"
  shows "same_history (sort_key f xs) xs"
proof -
  have "filter (\<lambda>e. slot_tx e = k) (sort_key f xs) = filter (\<lambda>e. slot_tx e = k) xs" for k
  proof -
    have "sorted (map f (filter (\<lambda>e. slot_tx e = k) xs))"
      by (rule sorted_const) (auto intro: assms)
    then show ?thesis by (simp add: filter_sort_key sort_key_id)
  qed
  then show ?thesis by (simp add: same_history_def)
qed

lemma set_map_filter: "set (List.map_filter f xs) = {y. \<exists>x \<in> set xs. f x = Some y}"
  by (induction xs) (auto simp: List.map_filter_simps split: option.splits)

section \<open>The fold\<close>

type_synonym slot = "nat \<times> nat option"

definition ie_slot :: "'n index_entry \<Rightarrow> slot" where
  "ie_slot e = (ie_attr e, ie_pos e)"

definition beyond :: "nat option \<Rightarrow> nat \<Rightarrow> bool" where
  "beyond till tx = (case till of None \<Rightarrow> False | Some c \<Rightarrow> c < tx)"

type_synonym 'n live = "slot \<Rightarrow> (nat \<times> fact_op \<times> 'n fact_value) option"

definition fold_step :: "nat option \<Rightarrow> 'n index_entry \<Rightarrow> 'n live \<Rightarrow> 'n live" where
  "fold_step till e live =
     (if beyond till (ie_tx e) then live
      else
        (let live1 = (if live (ie_slot e) = None
                      then live(ie_slot e \<mapsto> (ie_tx e, ie_op e, ie_value e)) else live)
         in if fst (the (live1 (ie_slot e))) \<le> ie_tx e
            then live1(ie_slot e \<mapsto> (ie_tx e, ie_op e, ie_value e))
            else live1))"

definition fold_state :: "uuid \<Rightarrow> 'n index_entry list \<Rightarrow> nat option \<Rightarrow> 'n fact list" where
  "fold_state entity entries till =
     (let live = fold (fold_step till) entries Map.empty
      in sort_key fact_key
           (List.map_filter (\<lambda>k. case live k of
                Some (_, Assert, v) \<Rightarrow> Some \<lparr>f_entity = entity, f_attr = fst k, f_pos = snd k, f_value = v\<rparr>
              | _ \<Rightarrow> None)
             (remdups (map ie_slot entries))))"

text \<open>The fold that starts at a checkpoint.\<close>

definition seeded :: "nat \<Rightarrow> 'n fact list \<Rightarrow> 'n index_entry list \<Rightarrow> 'n index_entry list" where
  "seeded t facts entries =
     map (\<lambda>f. from_fact f t Assert) facts @ filter (\<lambda>e. t < ie_tx e) entries"

definition tx_at :: "(nat \<times> int) list \<Rightarrow> int \<Rightarrow> nat option" where
  "tx_at batch_times at = map_option fst (find (\<lambda>(_, w). w \<le> at) (rev batch_times))"

section \<open>The entry that decides a slot\<close>

definition newer :: "'n index_entry \<Rightarrow> 'n index_entry option \<Rightarrow> 'n index_entry option" where
  "newer e w = (case w of None \<Rightarrow> Some e | Some x \<Rightarrow> if ie_tx x \<le> ie_tx e then Some e else Some x)"

definition latest :: "'n index_entry list \<Rightarrow> 'n index_entry option" where
  "latest es = fold newer es None"

lemma latest_Nil [simp]: "latest [] = None"
  by (simp add: latest_def)

lemma latest_snoc: "latest (es @ [e]) = newer e (latest es)"
  by (simp add: latest_def)

lemma latest_single [simp]: "latest [e] = Some e"
  by (simp add: latest_def newer_def)

lemma latest_None [simp]: "latest es = None \<longleftrightarrow> es = []"
  by (induction es rule: rev_induct) (auto simp: latest_snoc newer_def split: option.splits)

lemma latest_append:
  "latest (xs @ ys) = (case latest ys of None \<Rightarrow> latest xs | Some e \<Rightarrow> newer e (latest xs))"
proof (induction ys rule: rev_induct)
  case (snoc y ys)
  then show ?case
    by (simp only: append_assoc [symmetric] latest_snoc)
      (auto simp: newer_def split: option.splits)
qed simp

lemma latest_in: "latest es = Some e \<Longrightarrow> e \<in> set es"
  by (induction es arbitrary: e rule: rev_induct) (auto simp: latest_snoc newer_def split: option.splits if_splits)

lemma latest_max: "latest es = Some e \<Longrightarrow> x \<in> set es \<Longrightarrow> ie_tx x \<le> ie_tx e"
proof (induction es arbitrary: e rule: rev_induct)
  case (snoc y es)
  then show ?case by (fastforce simp: latest_snoc newer_def split: option.splits if_splits)
qed simp

lemma latest_last: "latest es = Some e \<Longrightarrow> e = last (filter (\<lambda>x. ie_tx x = ie_tx e) es)"
proof (induction es arbitrary: e rule: rev_induct)
  case (snoc y es)
  show ?case
  proof (cases "latest es")
    case None
    then show ?thesis using snoc.prems by (simp add: latest_snoc newer_def)
  next
    case (Some w)
    then show ?thesis
      using snoc.prems snoc.IH [OF Some] by (auto simp: latest_snoc newer_def split: if_splits)
  qed
qed simp

text \<open>Two listings that agree on every transaction have the same latest entry.\<close>

lemma latest_cong:
  assumes "\<And>t. filter (\<lambda>x. ie_tx x = t) xs = filter (\<lambda>x. ie_tx x = t) ys"
  shows "latest xs = latest ys"
proof -
  have set: "set xs = set ys"
  proof (rule set_eqI)
    fix e
    have "e \<in> set xs \<longleftrightarrow> e \<in> set (filter (\<lambda>x. ie_tx x = ie_tx e) xs)" by simp
    also have "\<dots> \<longleftrightarrow> e \<in> set ys" unfolding assms by simp
    finally show "e \<in> set xs \<longleftrightarrow> e \<in> set ys" .
  qed
  show ?thesis
  proof (cases "latest xs")
    case None
    then show ?thesis using set by simp
  next
    case (Some e)
    then have "latest ys \<noteq> None" using set by auto
    then obtain w where w: "latest ys = Some w" by blast
    have "ie_tx e \<le> ie_tx w" using latest_max [OF w] latest_in [OF Some] set by simp
    moreover have "ie_tx w \<le> ie_tx e" using latest_max [OF Some] latest_in [OF w] set by simp
    ultimately have "ie_tx e = ie_tx w" by simp
    then have "e = w" using latest_last [OF Some] latest_last [OF w] assms by metis
    then show ?thesis using Some w by simp
  qed
qed

lemma latest_sorted:
  assumes "sorted (map ie_tx es)" "es \<noteq> []"
  shows "latest es = Some (last es)"
  using assms
proof (induction es rule: rev_induct)
  case (snoc y es)
  then show ?case
    by (auto simp: latest_snoc newer_def sorted_append dest: latest_in split: option.splits)
qed simp

section \<open>What the fold computes\<close>

definition slot_entries :: "nat option \<Rightarrow> slot \<Rightarrow> 'n index_entry list \<Rightarrow> 'n index_entry list" where
  "slot_entries till k es = filter (\<lambda>e. ie_slot e = k \<and> \<not> beyond till (ie_tx e)) es"

definition asserted :: "'n index_entry \<Rightarrow> 'n fact_value option" where
  "asserted e = (if ie_op e = Assert then Some (ie_value e) else None)"

text \<open>The live value of every slot.\<close>

definition slot_map :: "nat option \<Rightarrow> 'n index_entry list \<Rightarrow> slot \<Rightarrow> 'n fact_value option" where
  "slot_map till es k = Option.bind (latest (slot_entries till k es)) asserted"

definition facts_of :: "uuid \<Rightarrow> (slot \<Rightarrow> 'n fact_value option) \<Rightarrow> 'n fact list" where
  "facts_of entity m =
     map (\<lambda>k. \<lparr>f_entity = entity, f_attr = fst k, f_pos = snd k, f_value = the (m k)\<rparr>)
       (sorted_list_of_set (dom m))"

lemma slot_entries_append [simp]:
  "slot_entries till k (xs @ ys) = slot_entries till k xs @ slot_entries till k ys"
  by (simp add: slot_entries_def)

lemma fold_live:
  "fold (fold_step till) es Map.empty k =
     map_option (\<lambda>e. (ie_tx e, ie_op e, ie_value e)) (latest (slot_entries till k es))"
proof (induction es rule: rev_induct)
  case (snoc e es)
  have "latest (slot_entries till k (es @ [e])) =
      (if ie_slot e = k \<and> \<not> beyond till (ie_tx e) then newer e (latest (slot_entries till k es))
       else latest (slot_entries till k es))"
    by (simp add: slot_entries_def latest_snoc)
  then show ?case using snoc
    by (cases "latest (slot_entries till k es)") (auto simp: fold_step_def Let_def newer_def)
qed (simp add: slot_entries_def)

lemma dom_slot_map: "dom (slot_map till es) \<subseteq> ie_slot ` set es"
proof
  fix k
  assume "k \<in> dom (slot_map till es)"
  then obtain e where "latest (slot_entries till k es) = Some e"
    by (auto simp: slot_map_def bind_eq_Some_conv)
  then have "e \<in> set (slot_entries till k es)" by (rule latest_in)
  then show "k \<in> ie_slot ` set es" by (auto simp: slot_entries_def)
qed

lemma finite_slot_map [simp]: "finite (dom (slot_map till es))"
  by (rule finite_subset [OF dom_slot_map]) simp

lemma slot_of_fact [simp]: "fact_key \<lparr>f_entity = e, f_attr = fst k, f_pos = snd k, f_value = v\<rparr> = k"
  by (simp add: fact_key_def)

lemma map_key_facts_of: "map fact_key (facts_of u m) = sorted_list_of_set (dom m)"
  by (simp add: facts_of_def comp_def)

lemma set_facts_of:
  assumes "finite (dom m)"
  shows "f \<in> set (facts_of u m) \<longleftrightarrow> f_entity f = u \<and> m (fact_key f) = Some (f_value f)"
proof
  assume "f \<in> set (facts_of u m)"
  then obtain k where k: "k \<in> set (sorted_list_of_set (dom m))"
    "f = \<lparr>f_entity = u, f_attr = fst k, f_pos = snd k, f_value = the (m k)\<rparr>"
    unfolding facts_of_def set_map by (elim imageE)
  then have "k \<in> dom m" using assms by simp
  then obtain v where "m k = Some v" by blast
  then show "f_entity f = u \<and> m (fact_key f) = Some (f_value f)"
    using k(2) by (simp add: fact_key_def)
next
  assume a: "f_entity f = u \<and> m (fact_key f) = Some (f_value f)"
  then have "fact_key f \<in> set (sorted_list_of_set (dom m))" using assms by auto
  moreover have "f = \<lparr>f_entity = u, f_attr = fst (fact_key f), f_pos = snd (fact_key f), f_value = the (m (fact_key f))\<rparr>"
    using a by (simp add: fact_key_def)
  ultimately show "f \<in> set (facts_of u m)" unfolding facts_of_def set_map by (rule rev_image_eqI)
qed

lemma facts_sort_unique:
  assumes "finite (dom m)" "distinct (map fact_key fs)"
    and "\<And>f. f \<in> set fs \<longleftrightarrow> f_entity f = u \<and> m (fact_key f) = Some (f_value f)"
  shows "sort_key fact_key fs = facts_of u m"
proof (rule map_sorted_distinct_set_unique [where f = fact_key])
  have set: "set (sort_key fact_key fs) = set (facts_of u m)"
    using assms(3) set_facts_of [OF assms(1)] by auto
  then show "set (sort_key fact_key fs) = set (facts_of u m)" .
  have "distinct (map fact_key (sort_key fact_key fs)) \<longleftrightarrow> distinct (map fact_key fs)"
    by (rule mset_eq_imp_distinct_iff) simp
  then show d: "distinct (map fact_key (sort_key fact_key fs))" using assms(2) by simp
  show "inj_on fact_key (set (sort_key fact_key fs) \<union> set (facts_of u m))"
    unfolding set [symmetric] using d by (simp add: distinct_map)
  show "distinct (map fact_key (facts_of u m))" "sorted (map fact_key (facts_of u m))"
    by (simp_all add: map_key_facts_of)
qed simp

lemma fold_state_facts: "fold_state u es till = facts_of u (slot_map till es)"
proof -
  let ?live = "fold (fold_step till) es Map.empty"
  let ?f = "\<lambda>k. case ?live k of
      Some (_, Assert, v) \<Rightarrow> Some \<lparr>f_entity = u, f_attr = fst k, f_pos = snd k, f_value = v\<rparr> | _ \<Rightarrow> None"
  have f: "?f k = map_option (\<lambda>v. \<lparr>f_entity = u, f_attr = fst k, f_pos = snd k, f_value = v\<rparr>) (slot_map till es k)" for k
    unfolding fold_live slot_map_def asserted_def
    by (auto split: option.splits fact_op.splits)
  let ?ks = "remdups (map ie_slot es)"
  have "distinct (map fact_key (List.map_filter ?f ks))" if "distinct ks" for ks
    using that
  proof (induction ks)
    case (Cons k ks)
    have "k \<notin> set (map fact_key (List.map_filter ?f ks))"
      using Cons.prems unfolding f by (auto simp: set_map_filter fact_key_def)
    then show ?case using Cons unfolding f by (auto simp: List.map_filter_simps split: option.splits)
  qed (simp add: List.map_filter_simps)
  then have d: "distinct (map fact_key (List.map_filter ?f ?ks))" by simp
  have "g \<in> set (List.map_filter ?f ?ks) \<longleftrightarrow> f_entity g = u \<and> slot_map till es (fact_key g) = Some (f_value g)" for g
  proof -
    have "g \<in> set (List.map_filter ?f ?ks) \<longleftrightarrow> (\<exists>k \<in> ie_slot ` set es. ?f k = Some g)"
      by (auto simp: set_map_filter)
    also have "\<dots> \<longleftrightarrow> (\<exists>k. ?f k = Some g)"
    proof -
      have "k \<in> ie_slot ` set es" if "?f k = Some g" for k
        using that dom_slot_map [of till es] unfolding f by blast
      then show ?thesis by blast
    qed
    also have "\<dots> \<longleftrightarrow> (\<exists>k v. slot_map till es k = Some v \<and>
        g = \<lparr>f_entity = u, f_attr = fst k, f_pos = snd k, f_value = v\<rparr>)"
      unfolding f by (simp only: map_option_eq_Some eq_commute [of g])
    also have "\<dots> \<longleftrightarrow> f_entity g = u \<and> slot_map till es (fact_key g) = Some (f_value g)"
      by (auto simp: fact_key_def intro!: exI [of _ "f_attr g"] exI [of _ "f_pos g"])
    finally show ?thesis .
  qed
  then have "sort_key fact_key (List.map_filter ?f ?ks) = facts_of u (slot_map till es)"
    using facts_sort_unique [OF finite_slot_map d] by blast
  then show ?thesis by (simp add: fold_state_def Let_def)
qed

lemma slot_entries_history:
  assumes "same_history xs ys" "\<forall>e \<in> set xs. ie_entity e = u"
  shows "latest (slot_entries till k xs) = latest (slot_entries till k ys)"
proof (rule latest_cong)
  fix t
  have u: "\<forall>e \<in> set xs. ie_entity e = u" "\<forall>e \<in> set ys. ie_entity e = u"
    using assms same_history_set [OF assms(1)] by simp_all
  have "filter (\<lambda>e. ie_tx e = t) (slot_entries till k zs) =
      (if beyond till t then [] else filter (\<lambda>e. slot_tx e = (u, fst k, snd k, t)) zs)"
    if "\<forall>e \<in> set zs. ie_entity e = u" for zs :: "'a index_entry list"
  proof (cases "beyond till t")
    case True
    then show ?thesis by (auto simp: slot_entries_def filter_empty_conv)
  next
    case False
    then show ?thesis using that
      by (auto simp: slot_entries_def slot_tx_def ie_slot_def intro!: filter_cong)
  qed
  then show "filter (\<lambda>e. ie_tx e = t) (slot_entries till k xs) = filter (\<lambda>e. ie_tx e = t) (slot_entries till k ys)"
    using u assms(1) by (simp add: same_history_def)
qed

lemma slot_map_history:
  "same_history xs ys \<Longrightarrow> \<forall>e \<in> set xs. ie_entity e = u \<Longrightarrow> slot_map till xs = slot_map till ys"
proof
  fix k
  assume "same_history xs ys" "\<forall>e \<in> set xs. ie_entity e = u"
  then show "slot_map till xs k = slot_map till ys k"
    using slot_entries_history [of xs ys u till k] by (simp add: slot_map_def)
qed

section \<open>The contract of a history index\<close>

text \<open>
  What the ledger relies on in its index of committed entries: a scan by entity shows the history
  that was put in, and adding or compacting keeps what is held.  \<open>room\<close> is the capacity condition
  under which the provider accepts more entries.
\<close>

locale history_index =
  fixes holds :: "'s \<Rightarrow> 'n index_entry list \<Rightarrow> bool"
    and scan :: "uuid \<Rightarrow> 's \<Rightarrow> 'e + 'n index_entry list"
    and add :: "string \<Rightarrow> 'n index_entry list \<Rightarrow> 's \<Rightarrow> 'e + 's"
    and compact :: "sort_order \<Rightarrow> 's \<Rightarrow> 'e + 's"
    and room :: "string \<Rightarrow> 'n index_entry list \<Rightarrow> 's \<Rightarrow> bool"
    and room_merged :: "sort_order \<Rightarrow> 'n index_entry list \<Rightarrow> bool"
  assumes scan_history: "holds s H \<Longrightarrow>
      \<exists>es. scan u s = Inr es \<and> same_history es (filter (\<lambda>e. ie_entity e = u) H)"
    and add_holds: "holds s H \<Longrightarrow> room name M s \<Longrightarrow> \<exists>s'. add name M s = Inr s' \<and> holds s' (H @ M)"
    and compact_holds: "holds s H \<Longrightarrow> room_merged order H \<Longrightarrow> \<exists>s'. compact order s = Inr s' \<and> holds s' H"
begin

text \<open>Runs together with a memtable of later entries show the whole history.\<close>

lemma scan_with_tail:
  assumes "holds s H"
  shows "\<exists>es. scan u s = Inr es \<and>
    same_history (es @ filter (\<lambda>e. ie_entity e = u) M) (filter (\<lambda>e. ie_entity e = u) (H @ M))"
  using scan_history [OF assms, of u] same_history_append [OF _ same_history_refl] by fastforce

lemma fold_with_tail:
  assumes "holds s H"
  shows "\<exists>es. scan u s = Inr es \<and>
    fold_state u (es @ filter (\<lambda>e. ie_entity e = u) M) till = fold_state u (filter (\<lambda>e. ie_entity e = u) (H @ M)) till"
proof -
  obtain es where es: "scan u s = Inr es"
    "same_history (es @ filter (\<lambda>e. ie_entity e = u) M) (filter (\<lambda>e. ie_entity e = u) (H @ M))"
    using scan_with_tail [OF assms] by blast
  have "\<forall>e \<in> set (es @ filter (\<lambda>e. ie_entity e = u) M). ie_entity e = u"
    using same_history_set [OF es(2)] by auto
  then have "slot_map till (es @ filter (\<lambda>e. ie_entity e = u) M) = slot_map till (filter (\<lambda>e. ie_entity e = u) (H @ M))"
    by (rule slot_map_history [OF es(2)])
  then show ?thesis using es(1) by (simp add: fold_state_facts)
qed

text \<open>A flush of the memtable followed by compactions is invisible.\<close>

lemma compactions_hold:
  assumes "holds s H" "\<forall>order \<in> set orders. room_merged order H"
    and "\<And>order s. step order s = compact order s \<or> step order s = Inr s"
  shows "\<exists>s'. fold_res step orders s = Inr s' \<and> holds s' H"
  using assms(1,2)
proof (induction orders arbitrary: s)
  case (Cons order orders)
  obtain s1 where "step order s = Inr s1" "holds s1 H"
    using compact_holds [OF Cons.prems(1), of order] Cons.prems assms(3) [of order s] by auto
  then show ?case using Cons.IH [of s1] Cons.prems(2) by simp
qed simp

lemma flush_holds:
  assumes "holds s H" "room name M s" "\<forall>order \<in> set orders. room_merged order (H @ M)"
    and "\<And>order s. step order s = compact order s \<or> step order s = Inr s"
  shows "\<exists>s1 s2. add name M s = Inr s1 \<and> fold_res step orders s1 = Inr s2 \<and> holds s2 (H @ M)"
  using add_holds [OF assms(1,2)] compactions_hold [OF _ assms(3,4)] by blast

end

section \<open>Checkpoints\<close>

lemma latest_filter_gt:
  assumes "filter (\<lambda>e. t < ie_tx e) es \<noteq> []"
  shows "latest (filter (\<lambda>e. t < ie_tx e) es) = latest es"
  using assms
proof (induction es rule: rev_induct)
  case (snoc e es)
  show ?case
  proof (cases "filter (\<lambda>e. t < ie_tx e) es = []")
    case True
    then have e: "t < ie_tx e" using snoc.prems by (cases "t < ie_tx e") simp_all
    have "ie_tx w \<le> t" if "latest es = Some w" for w
      using latest_in [OF that] True by (auto simp: filter_empty_conv)
    then show ?thesis using True e by (fastforce simp: latest_snoc newer_def split: option.splits)
  next
    case False
    then obtain w where w: "latest (filter (\<lambda>e. t < ie_tx e) es) = Some w"
      by (cases "latest (filter (\<lambda>e. t < ie_tx e) es)") auto
    then have "t < ie_tx w" using latest_in by fastforce
    moreover have "latest es = Some w" using snoc.IH [OF False] w by simp
    ultimately show ?thesis using w by (simp add: latest_snoc newer_def)
  qed
qed simp

lemma slot_entries_facts:
  assumes "finite (dom m)" "\<not> beyond till t"
  shows "latest (slot_entries till k (map (\<lambda>f. from_fact f t Assert) (facts_of u m))) =
    map_option (\<lambda>v. \<lparr>ie_entity = u, ie_attr = fst k, ie_pos = snd k, ie_tx = t, ie_op = Assert, ie_value = v\<rparr>) (m k)"
proof -
  let ?e = "\<lambda>k. \<lparr>ie_entity = u, ie_attr = fst k, ie_pos = snd k, ie_tx = t, ie_op = Assert, ie_value = the (m k)\<rparr>"
  have "slot_entries till k (map (\<lambda>f. from_fact f t Assert) (facts_of u m)) =
      map ?e (filter (\<lambda>x. x = k) (sorted_list_of_set (dom m)))"
    using assms(2) by (simp add: slot_entries_def facts_of_def filter_map comp_def from_fact_def ie_slot_def)
  moreover have "filter (\<lambda>x. x = k) (sorted_list_of_set (dom m)) = (if k \<in> dom m then [k] else [])"
  proof -
    have "filter (\<lambda>x. x = k) xs = (if k \<in> set xs then [k] else [])" if "distinct xs" for xs
      using that by (induction xs) auto
    then show ?thesis using assms(1) by simp
  qed
  ultimately show ?thesis by (cases "m k") auto
qed

text \<open>A fold that starts at a checkpoint is the fold from the beginning.\<close>

lemma slot_map_seeded:
  assumes "\<not> beyond till t"
  shows "slot_map till (seeded t (facts_of u (slot_map (Some t) es)) es) = slot_map till es"
proof
  fix k
  let ?A = "slot_entries till k (map (\<lambda>f. from_fact f t Assert) (facts_of u (slot_map (Some t) es)))"
  let ?S = "slot_entries till k es"
  let ?B = "filter (\<lambda>e. t < ie_tx e) ?S"
  have split: "slot_entries till k (seeded t (facts_of u (slot_map (Some t) es)) es) = ?A @ ?B"
    by (simp add: seeded_def slot_entries_def conj_commute)
  have A: "latest ?A = map_option (\<lambda>v. \<lparr>ie_entity = u, ie_attr = fst k, ie_pos = snd k, ie_tx = t,
      ie_op = Assert, ie_value = v\<rparr>) (slot_map (Some t) es k)"
    by (rule slot_entries_facts [OF finite_slot_map assms])
  show "slot_map till (seeded t (facts_of u (slot_map (Some t) es)) es) k = slot_map till es k"
  proof (cases "?B = []")
    case True
    have "slot_entries (Some t) k es = ?S"
      unfolding slot_entries_def
    proof (rule filter_cong [OF refl])
      fix e
      assume "e \<in> set es"
      then show "(ie_slot e = k \<and> \<not> beyond (Some t) (ie_tx e)) = (ie_slot e = k \<and> \<not> beyond till (ie_tx e))"
        using True assms by (auto simp: filter_empty_conv slot_entries_def beyond_def split: option.splits)
    qed
    then have "slot_map (Some t) es k = slot_map till es k" by (simp add: slot_map_def)
    then show ?thesis using A unfolding slot_map_def [of till "seeded _ _ _"] split True
      by (cases "slot_map till es k") (simp_all add: asserted_def)
  next
    case False
    then obtain e where e: "latest ?B = Some e" by (cases "latest ?B") auto
    then have "t < ie_tx e" using latest_in by fastforce
    then have "newer e (latest ?A) = Some e" unfolding A by (cases "slot_map (Some t) es k") (auto simp: newer_def)
    then show ?thesis
      using e latest_filter_gt [OF False] by (simp add: slot_map_def split latest_append)
  qed
qed

section \<open>Diff, then fold\<close>

lemma fact_map_Some: "fact_map fs k = Some f \<Longrightarrow> f \<in> set fs \<and> fact_key f = k"
  by (auto simp: fact_map_def dest: map_of_SomeD)

lemma fact_map_None: "fact_map fs k = None \<longleftrightarrow> k \<notin> set (map fact_key fs)"
  by (auto simp: fact_map_def map_of_eq_None_iff image_iff)

lemma fact_map_facts_of:
  assumes "finite (dom m)"
  shows "fact_map (facts_of u m) k =
    map_option (\<lambda>v. \<lparr>f_entity = u, f_attr = fst k, f_pos = snd k, f_value = v\<rparr>) (m k)"
proof (cases "m k")
  case None
  have "k \<notin> set (map fact_key (facts_of u m))"
    unfolding map_key_facts_of using None assms by auto
  then show ?thesis using None fact_map_None [of "facts_of u m" k] by simp
next
  case (Some v)
  have "k \<in> set (map fact_key (facts_of u m))"
    unfolding map_key_facts_of using Some assms by auto
  then obtain f where f: "fact_map (facts_of u m) k = Some f"
    using fact_map_None [of "facts_of u m" k] by blast
  then have "f_entity f = u" "m k = Some (f_value f)" "fact_key f = k"
    using fact_map_Some [OF f] set_facts_of [OF assms, of f u] by auto
  then show ?thesis using f by (auto simp: fact_key_def)
qed

lemma filter_map_filter:
  assumes "distinct ks" "\<And>k p. h k = Some p \<Longrightarrow> g p = k"
  shows "filter (\<lambda>p. g p = k) (List.map_filter h ks) =
    (if k \<in> set ks then (case h k of None \<Rightarrow> [] | Some p \<Rightarrow> [p]) else [])"
  using assms(1)
proof (induction ks)
  case (Cons x ks)
  then show ?case using assms(2) by (auto simp: List.map_filter_simps split: option.splits)
qed (simp add: List.map_filter_simps)

lemma filter_diff_side:
  "filter (\<lambda>p. fact_key (snd p) = k) (diff_side op here there) =
     (case fact_map here k of
        None \<Rightarrow> []
      | Some f \<Rightarrow> if map_option f_value (fact_map there k) = Some (f_value f) then [] else [(op, f)])"
proof -
  let ?h = "\<lambda>k. case fact_map here k of
         None \<Rightarrow> None
       | Some f \<Rightarrow>
           (case fact_map there k of
              Some g \<Rightarrow> if f_value g = f_value f then None else Some (op, f)
            | None \<Rightarrow> Some (op, f))"
  have h: "?h k' = Some p \<Longrightarrow> fact_key (snd p) = k'" for k' p
    by (auto split: option.splits if_splits dest: fact_map_Some)
  have "filter (\<lambda>p. fact_key (snd p) = k) (diff_side op here there) =
      (if k \<in> set (remdups (map fact_key here)) then (case ?h k of None \<Rightarrow> [] | Some p \<Rightarrow> [p]) else [])"
    unfolding diff_side_def by (rule filter_map_filter [OF distinct_remdups h])
  then show ?thesis
    using fact_map_None [of here k] by (auto split: option.splits)
qed

lemma filter_diff:
  "filter (\<lambda>p. fact_key (snd p) = k) (diff old new) =
     filter (\<lambda>p. fact_key (snd p) = k) (diff_side Retract old new) @
     filter (\<lambda>p. fact_key (snd p) = k) (diff_side Assert new old)"
  unfolding diff_def filter_sort_key filter_append filter_diff_side
  by (auto split: option.splits)

text \<open>The entries one batch of changes adds, and the state after them.\<close>

definition batch_entries :: "nat \<Rightarrow> 'n ops \<Rightarrow> 'n index_entry list" where
  "batch_entries tx ops = map (\<lambda>(op, f). from_fact f tx op) ops"

lemma slot_entries_batch:
  "\<not> beyond till tx \<Longrightarrow> slot_entries till k (batch_entries tx ops) =
    map (\<lambda>(op, f). from_fact f tx op) (filter (\<lambda>p. fact_key (snd p) = k) ops)"
  by (induction ops) (auto simp: batch_entries_def slot_entries_def from_fact_def ie_slot_def fact_key_def)

lemma slot_map_diff:
  assumes "\<not> beyond till tx" "\<forall>e \<in> set es. ie_tx e < tx"
  shows "slot_map till (es @ batch_entries tx (diff (facts_of u (slot_map till es)) new)) =
    (\<lambda>k. map_option f_value (fact_map new k))"
proof
  fix k
  let ?m = "slot_map till es" and ?E = "\<lambda>(op, f). from_fact f tx op"
  let ?d = "filter (\<lambda>p. fact_key (snd p) = k) (diff (facts_of u ?m) new)"
  have old: "fact_map (facts_of u ?m) k =
      map_option (\<lambda>v. \<lparr>f_entity = u, f_attr = fst k, f_pos = snd k, f_value = v\<rparr>) (?m k)"
    by (rule fact_map_facts_of) simp
  have d: "?d = (case ?m k of None \<Rightarrow> []
      | Some v \<Rightarrow> if map_option f_value (fact_map new k) = Some v then []
                  else [(Retract, \<lparr>f_entity = u, f_attr = fst k, f_pos = snd k, f_value = v\<rparr>)]) @
      (case fact_map new k of None \<Rightarrow> [] | Some f \<Rightarrow> if ?m k = Some (f_value f) then [] else [(Assert, f)])"
    unfolding filter_diff filter_diff_side old by (cases "?m k"; cases "fact_map new k") auto
  have S: "slot_entries till k (es @ batch_entries tx (diff (facts_of u ?m) new)) =
      slot_entries till k es @ map ?E ?d"
    by (simp add: slot_entries_batch [OF assms(1)])
  have bind: "Option.bind (latest (slot_entries till k es)) asserted = ?m k" by (simp add: slot_map_def)
  have older: "newer (from_fact f tx op) (latest (slot_entries till k es)) = Some (from_fact f tx op)" for f op
  proof (cases "latest (slot_entries till k es)")
    case (Some w)
    then have "ie_tx w < tx" using latest_in [OF Some] assms(2) by (simp add: slot_entries_def)
    then show ?thesis using Some by (simp add: newer_def from_fact_def)
  qed (simp add: newer_def)
  show "slot_map till (es @ batch_entries tx (diff (facts_of u ?m) new)) k = map_option f_value (fact_map new k)"
  proof -
    have two: "latest [x, y] = Some y" if "ie_tx x = ie_tx y" for x y :: "'a index_entry"
      using that by (simp add: latest_def newer_def)
    have f: "asserted (from_fact f tx op) = (if op = Assert then Some (f_value f) else None)"
      "ie_tx (from_fact f tx op) = tx" for f :: "'a fact" and op
      by (simp_all add: asserted_def from_fact_def)
    show ?thesis
      unfolding slot_map_def [of till "es @ _"] S latest_append d
      by (cases "?m k"; cases "fact_map new k") (simp_all add: bind older two f)
  qed
qed

section \<open>The facts of a payload\<close>

lemma item_facts_keys:
  assumes "item_ok it"
  shows "distinct (map fact_key (item_facts e r it))"
proof -
  have "distinct (map fst (snd it))"
  proof (cases "\<exists>v. snd it = [(None, v)]")
    case False
    then obtain refs :: "uuid list" where refs: "length refs \<le> 2 ^ 32" "snd it = ref_body refs"
      using assms by (auto simp: item_ok_def)
    have "map fst (snd it) = map (Some \<circ> as_u32) [0..<length refs]"
      using map_enumerate_fst_comp [of "Some \<circ> as_u32" 0 refs]
      by (simp add: refs(2) ref_body_def split_beta comp_def)
    moreover have "map (Some \<circ> as_u32) [0..<length refs] = map Some [0..<length refs]"
      using refs(1) by (auto simp: as_u32_def)
    ultimately show ?thesis by (simp add: distinct_map)
  qed auto
  moreover have "map fact_key (item_facts e r it) = map (\<lambda>p. (item_id r it, p)) (map fst (snd it))"
    by (simp add: item_facts_def fact_key_def item_id_def split_beta comp_def)
  ultimately show ?thesis by (simp add: distinct_map inj_on_def)
qed

lemma emit_keys:
  assumes "inj_on (item_id r) (set its)" "distinct its" "\<forall>it \<in> set its. item_ok it"
  shows "distinct (map fact_key (emit e r its))"
  using assms
proof (induction its)
  case (Cons it its)
  have "fact_key f \<noteq> fact_key g" if fg: "f \<in> set (item_facts e r it)" "g \<in> set (emit e r its)" for f g
  proof -
    obtain i where i: "i \<in> set its" "g \<in> set (item_facts e r i)" using fg(2) by (auto simp: emit_def)
    have "item_id r i \<noteq> item_id r it" using i(1) Cons.prems by (auto simp: inj_on_def)
    then have "f_attr g \<noteq> f_attr f"
      using item_facts_attr [OF i(2)] item_facts_attr [OF fg(1)] by simp
    then show ?thesis by (simp add: fact_key_def)
  qed
  then have "set (map fact_key (item_facts e r it)) \<inter> set (map fact_key (emit e r its)) = {}"
    unfolding set_map by blast
  moreover have "distinct (map fact_key (emit e r its))" using Cons by (simp add: inj_on_def)
  moreover have "emit e r (it # its) = item_facts e r it @ emit e r its" by (simp add: emit_def)
  ultimately show ?case using Cons.prems(3) item_facts_keys [of it e r] by simp
qed (simp add: emit_def)

lemma decompose_keys:
  assumes "wf_json (JObject m)" "refs_fit m" "reg_ok reg"
    and d: "decompose U e (JObject m) reg = Inr (facts, reg')" "length (reg_names reg') \<le> 2 ^ 32"
  shows "distinct (map fact_key facts)"
    and "\<forall>f \<in> set facts. f_entity f = e \<and> f_attr f < 2 ^ 32 \<and> (\<forall>p. f_pos f = Some p \<longrightarrow> p < 2 ^ 32)"
proof -
  let ?its = "payload_items U m"
  note em = decompose_emits [OF d(1) assms(3) d(2)]
  note paths = payload_items_paths [OF assms(1), of U]
  have ok: "\<forall>it \<in> set ?its. item_ok it" using payload_items_ok [OF assms(2)] by blast
  have id: "reg_index reg' (path_of (fst it)) = Some (item_id reg' it)" if "it \<in> set ?its" for it
  proof -
    have "path_of (fst it) \<in> set (reg_names reg')" using reg_adds_names [OF that] em assms(3) by metis
    then show ?thesis using em reg_index_None_iff [of reg' "path_of (fst it)"]
      by (cases "reg_index reg' (path_of (fst it))") (auto simp: item_id_def)
  qed
  have nm: "reg_name reg' (item_id reg' it) = Some (path_of (fst it))" if "it \<in> set ?its" for it
    using id [OF that] em reg_index_name by blast
  have inj: "inj_on (item_id reg') (set ?its)"
  proof (rule inj_onI)
    fix x y
    assume xy: "x \<in> set ?its" "y \<in> set ?its" "item_id reg' x = item_id reg' y"
    then have "path_of (fst x) = path_of (fst y)" using nm by (metis option.inject)
    then have "fst x = fst y" using path_of_inj paths xy by blast
    then show "x = y" using paths xy(1,2) by (auto simp: distinct_map dest: inj_onD)
  qed
  have dist: "distinct ?its" using paths distinct_map by blast
  show "distinct (map fact_key facts)" using emit_keys [OF inj dist ok] em by simp
  show "\<forall>f \<in> set facts. f_entity f = e \<and> f_attr f < 2 ^ 32 \<and> (\<forall>p. f_pos f = Some p \<longrightarrow> p < 2 ^ 32)"
  proof
    fix f
    assume "f \<in> set facts"
    then obtain it where it: "it \<in> set ?its" "f \<in> set (item_facts e reg' it)" using em by (auto simp: emit_def)
    have "f_attr f < length (reg_names reg')"
      using id [OF it(1)] item_facts_attr [OF it(2)] conjunct1 [OF em] unfolding reg_ok_def by metis
    moreover have "\<forall>p. f_pos f = Some p \<longrightarrow> p < 2 ^ 32"
    proof (intro allI impI)
      fix p
      assume "f_pos f = Some p"
      then have "Some p \<in> set (map fst (snd it))" using it(2) by (force simp: item_facts_def)
      then show "p < 2 ^ 32"
        using ok it(1) by (fastforce simp: item_ok_def ref_body_def as_u32_def)
    qed
    moreover have "f_entity f = e" using it(2) by (auto simp: item_facts_def)
    ultimately show "f_entity f = e \<and> f_attr f < 2 ^ 32 \<and> (\<forall>p. f_pos f = Some p \<longrightarrow> p < 2 ^ 32)"
      using d(2) by simp
  qed
qed

text \<open>The state read back after a commit is the committed payload.\<close>

lemma facts_of_decompose:
  assumes "wf_json (JObject m)" "refs_fit m" "reg_ok reg"
    and d: "decompose U e (JObject m) reg = Inr (facts, reg')" "length (reg_names reg') \<le> 2 ^ 32"
    and m': "m' = (\<lambda>k. map_option f_value (fact_map facts k))"
  shows "mset (facts_of e m') = mset facts"
    and "reg_ok r'' \<Longrightarrow> reg_le reg' r'' \<Longrightarrow> reconstruct U (facts_of e m') r'' = Inr (JObject m)"
proof -
  note keys = decompose_keys [OF assms(1-3) d]
  have some: "fact_map facts k = Some f \<longleftrightarrow> f \<in> set facts \<and> fact_key f = k" for k f
  proof
    assume "f \<in> set facts \<and> fact_key f = k"
    moreover from this have "(k, f) \<in> set (map (\<lambda>f. (fact_key f, f)) facts)" by force
    ultimately show "fact_map facts k = Some f"
      unfolding fact_map_def using keys(1) by (subst map_of_rev_distinct) (simp_all add: comp_def)
  qed (rule fact_map_Some)
  have fin: "finite (dom m')"
  proof (rule finite_subset)
    show "dom m' \<subseteq> fact_key ` set facts"
    proof
      fix k
      assume "k \<in> dom m'"
      then obtain f where "fact_map facts k = Some f" by (auto simp: m')
      then show "k \<in> fact_key ` set facts" using some [of k f] by blast
    qed
  qed simp
  have "f \<in> set facts \<longleftrightarrow> f_entity f = e \<and> m' (fact_key f) = Some (f_value f)" for f
  proof
    assume "f \<in> set facts"
    then show "f_entity f = e \<and> m' (fact_key f) = Some (f_value f)" using some keys(2) by (auto simp: m')
  next
    assume a: "f_entity f = e \<and> m' (fact_key f) = Some (f_value f)"
    then obtain g where "g \<in> set facts" "fact_key g = fact_key f" "f_value g = f_value f" using some by (auto simp: m')
    moreover from this have "g = f" using a keys(2) by (simp add: fact_key_def)
    ultimately show "f \<in> set facts" by simp
  qed
  then have "sort_key fact_key facts = facts_of e m'" using facts_sort_unique [OF fin keys(1)] by blast
  then show ms: "mset (facts_of e m') = mset facts" by (metis mset_sort)
  show "reg_ok r'' \<Longrightarrow> reg_le reg' r'' \<Longrightarrow> reconstruct U (facts_of e m') r'' = Inr (JObject m)"
    by (rule decompose_reconstruct_perm [OF assms(1-3) d ms])
qed

end
