(* ===== verification/Index.thy ===== *)
theory Index
  imports Fold_State
begin

text \<open>
  Index runs and the index set of \<open>ekos/crates/ledger/src/index.rs\<close>: writing and opening a
  run file, the pruned prefix scan, the set of runs per sort order, and LSM compaction.  The
  directory entry of a run (\<open>serde_json\<close> and \<open>zstd\<close>) is encoded by a parameter.
\<close>

section \<open>Run files\<close>

definition BLOCK_ENTRIES :: nat where
  "BLOCK_ENTRIES = 512"

definition RUN_MAGIC :: nat where
  "RUN_MAGIC = 0x454B4953"

record block_meta =
  bm_offset :: nat
  bm_len :: nat
  bm_count :: nat
  bm_first_key :: string
  bm_last_key :: string

record run_directory =
  rd_order :: sort_order
  rd_entry_count :: nat
  rd_blocks :: "block_meta list"
  rd_entity_filter :: "entity_filter option"

record dir_codec =
  dc_enc :: "run_directory \<Rightarrow> bytes"
  dc_dec :: "bytes \<Rightarrow> run_directory option"

text \<open>The words of a filter are not serialised (\<open>#[serde(skip)]\<close>).\<close>

definition strip_words :: "run_directory \<Rightarrow> run_directory" where
  "strip_words d = d\<lparr>rd_entity_filter := map_option (\<lambda>f. f\<lparr>ef_words := []\<rparr>) (rd_entity_filter d)\<rparr>"

definition dir_codec_ok :: "dir_codec \<Rightarrow> bool" where
  "dir_codec_ok D \<longleftrightarrow> (\<forall>d. dc_dec D (dc_enc D d) = Some (strip_words d))"

function chunks :: "nat \<Rightarrow> 'a list \<Rightarrow> 'a list list" where
  "chunks n xs = (if xs = [] \<or> n = 0 then [] else take n xs # chunks n (drop n xs))"
  by pat_completeness auto
termination
  by (relation "measure (\<lambda>(n, xs). length xs)") auto

declare chunks.simps [simp del]

fun write_blocks ::
  "'n idx_codec \<Rightarrow> sort_order \<Rightarrow> nat \<Rightarrow> 'n raw_record list list \<Rightarrow> bytes \<times> block_meta list" where
  "write_blocks K order offset [] = ([], [])"
| "write_blocks K order offset (chunk # cs) =
     (let body = ic_zip K (encode_block K order chunk);
          (data, metas) = write_blocks K order (offset + length body) cs
      in (body @ data,
          \<lparr>bm_offset = offset, bm_len = length body mod 2 ^ 32, bm_count = length chunk,
           bm_first_key = hex_encode (fst (hd chunk)), bm_last_key = hex_encode (fst (last chunk))\<rparr> #
           metas))"

definition run_filter :: "bool \<Rightarrow> sort_order \<Rightarrow> 'n raw_record list \<Rightarrow> entity_filter option" where
  "run_filter with_filter order raws =
     (if with_filter \<and> order = Eavt \<and> raws \<noteq> [] then
        (let distinct = remdups_adj (map (\<lambda>r. ie_entity (snd r)) raws)
         in Some (filter_build distinct (length distinct)))
      else None)"

definition run_dir_of :: "'n idx_codec \<Rightarrow> sort_order \<Rightarrow> bool \<Rightarrow> 'n raw_record list \<Rightarrow> run_directory" where
  "run_dir_of K order with_filter raws =
     \<lparr>rd_order = order, rd_entry_count = length raws,
      rd_blocks = snd (write_blocks K order 0 (chunks BLOCK_ENTRIES raws)),
      rd_entity_filter = run_filter with_filter order raws\<rparr>"

definition write_run_raw_with ::
  "'n idx_codec \<Rightarrow> dir_codec \<Rightarrow> sort_order \<Rightarrow> 'n raw_record list \<Rightarrow> bool \<Rightarrow> bytes" where
  "write_run_raw_with K D order raws with_filter =
     (let data = fst (write_blocks K order 0 (chunks BLOCK_ENTRIES raws));
          dir_body = dc_enc D (run_dir_of K order with_filter raws)
      in data @ dir_body @ le_bytes 8 (length data) @ le_bytes 4 (length dir_body) @ le_bytes 4 RUN_MAGIC)"

definition write_run_raw :: "'n idx_codec \<Rightarrow> dir_codec \<Rightarrow> sort_order \<Rightarrow> 'n raw_record list \<Rightarrow> bytes" where
  "write_run_raw K D order raws = write_run_raw_with K D order raws True"

definition sorted_raws :: "'n idx_codec \<Rightarrow> sort_order \<Rightarrow> 'n index_entry list \<Rightarrow> 'n raw_record list" where
  "sorted_raws K order entries = sort_key fst (List.map_filter (project K order) entries)"

definition write_run :: "'n idx_codec \<Rightarrow> dir_codec \<Rightarrow> sort_order \<Rightarrow> 'n index_entry list \<Rightarrow> bytes" where
  "write_run K D order entries = write_run_raw K D order (sorted_raws K order entries)"

record index_run =
  ir_path :: string
  ir_dir :: run_directory

definition run_open :: "dir_codec \<Rightarrow> string \<Rightarrow> fs \<Rightarrow> segment_error + index_run" where
  "run_open D path fs =
     (case fs path of
        None \<Rightarrow> Inl (SegIo path)
      | Some bs \<Rightarrow>
          (let len = length bs
           in if len < 16 then Inl (SegCorrupt ''run file too short'')
              else
                (let footer = drop (len - 16) bs;
                     dir_offset = le_val (slice 0 8 footer);
                     dir_len = le_val (slice 8 12 footer);
                     magic = le_val (slice 12 16 footer)
                 in if magic \<noteq> RUN_MAGIC \<or> dir_offset + dir_len + 16 \<noteq> len
                    then Inl (SegCorrupt ''run file has a bad footer'')
                    else
                      (case dc_dec D (slice dir_offset (dir_offset + dir_len) bs) of
                         None \<Rightarrow> Inl SegJson
                       | Some dir \<Rightarrow>
                           Inr \<lparr>ir_path = path,
                                ir_dir = dir\<lparr>rd_entity_filter :=
                                  Option.bind (rd_entity_filter dir) hydrate\<rparr>\<rparr>))))"

definition read_block_where ::
  "'n idx_codec \<Rightarrow> index_run \<Rightarrow> fs \<Rightarrow> block_meta \<Rightarrow> (bytes \<Rightarrow> keep) \<Rightarrow> segment_error + 'n raw_record list" where
  "read_block_where K run fs m keep =
     (case fs (ir_path run) of
        None \<Rightarrow> Inl (SegIo (ir_path run))
      | Some bs \<Rightarrow>
          if length bs < bm_offset m + bm_len m then Inl (SegIo (ir_path run))
          else (case ic_unzip K (slice (bm_offset m) (bm_offset m + bm_len m) bs) of
                  None \<Rightarrow> Inl (SegIo (ir_path run))
                | Some block \<Rightarrow> decode_block_where K (rd_order (ir_dir run)) block keep))"

definition partition_point :: "('a \<Rightarrow> bool) \<Rightarrow> 'a list \<Rightarrow> nat" where
  "partition_point P xs = length (takeWhile P xs)"

text \<open>The loop over the block directory: it ends at the first block past the prefix range.\<close>

fun scan_blocks ::
  "'n idx_codec \<Rightarrow> index_run \<Rightarrow> fs \<Rightarrow> bytes \<Rightarrow> block_meta list \<Rightarrow> segment_error + 'n index_entry list" where
  "scan_blocks K run fs pre [] = Inr []"
| "scan_blocks K run fs pre (m # ms) =
     (if bm_first_key m > hex_encode pre \<and> \<not> starts_with (bm_first_key m) (hex_encode pre) then Inr []
      else (case read_block_where K run fs m (prefix_keep pre) of
              Inl e \<Rightarrow> Inl e
            | Inr rs \<Rightarrow>
                (case scan_blocks K run fs pre ms of
                   Inl e \<Rightarrow> Inl e
                 | Inr rest \<Rightarrow> Inr (map snd rs @ rest))))"

definition filter_excludes :: "index_run \<Rightarrow> bytes \<Rightarrow> bool" where
  "filter_excludes run pre \<longleftrightarrow>
     (case (rd_order (ir_dir run), rd_entity_filter (ir_dir run),
            (if length pre < 16 then None else uuid_from_slice (take 16 pre))) of
        (Eavt, Some f, Some entity) \<Rightarrow> \<not> may_contain f entity
      | _ \<Rightarrow> False)"

definition run_scan :: "'n idx_codec \<Rightarrow> index_run \<Rightarrow> fs \<Rightarrow> bytes \<Rightarrow> segment_error + 'n index_entry list" where
  "run_scan K run fs pre =
     (if filter_excludes run pre then Inr []
      else (let blocks = rd_blocks (ir_dir run);
                first = partition_point (\<lambda>m. bm_last_key m < hex_encode pre) blocks
            in scan_blocks K run fs pre (drop first blocks)))"

definition all_raw :: "'n idx_codec \<Rightarrow> index_run \<Rightarrow> fs \<Rightarrow> segment_error + 'n raw_record list" where
  "all_raw K run fs =
     (case map_res (\<lambda>m. read_block_where K run fs m (\<lambda>_. KeepYes)) (rd_blocks (ir_dir run)) of
        Inl e \<Rightarrow> Inl e | Inr rss \<Rightarrow> Inr (concat rss))"

definition run_all :: "'n idx_codec \<Rightarrow> index_run \<Rightarrow> fs \<Rightarrow> segment_error + 'n index_entry list" where
  "run_all K run fs = (case all_raw K run fs of Inl e \<Rightarrow> Inl e | Inr rs \<Rightarrow> Inr (map snd rs))"

section \<open>The index set\<close>

record fact_indexes =
  fi_runs :: "sort_order \<Rightarrow> index_run list"

definition all_orders :: "sort_order list" where
  "all_orders = [Eavt, Aevt, Avet]"

fun order_prefix :: "sort_order \<Rightarrow> string" where
  "order_prefix Eavt = ''eavt''"
| "order_prefix Aevt = ''aevt''"
| "order_prefix Avet = ''avet''"

definition run_path :: "sort_order \<Rightarrow> string \<Rightarrow> string" where
  "run_path order name = order_prefix order @ ''-'' @ name @ ''.run''"

definition is_run_file :: "string \<Rightarrow> bool" where
  "is_run_file p \<longleftrightarrow> suffix ''.run'' p \<and> p \<noteq> ''.run''"

definition open_step ::
  "dir_codec \<Rightarrow> string \<Rightarrow> fact_indexes \<times> bool \<times> fs \<Rightarrow> fact_indexes \<times> bool \<times> fs" where
  "open_step D path s =
     (case s of (fi, clean, fs) \<Rightarrow>
        (case run_open D path fs of
           Inr run \<Rightarrow>
             (let o1 = rd_order (ir_dir run)
              in (\<lparr>fi_runs = (fi_runs fi)(o1 := fi_runs fi o1 @ [run])\<rparr>, clean, fs))
         | Inl _ \<Rightarrow> (fi, False, fs(path := None))))"

definition fi_open :: "dir_codec \<Rightarrow> fs \<Rightarrow> fact_indexes \<times> bool \<times> fs" where
  "fi_open D fs =
     fold (open_step D) (filter is_run_file (sorted_list_of_set (dom fs)))
       (\<lparr>fi_runs = (\<lambda>_. [])\<rparr>, True, fs)"

definition add_run ::
  "'n idx_codec \<Rightarrow> dir_codec \<Rightarrow> string \<Rightarrow> 'n index_entry list \<Rightarrow> sort_order \<Rightarrow> fact_indexes \<times> fs \<Rightarrow>
   segment_error + fact_indexes \<times> fs" where
  "add_run K D name entries order s =
     (let path = run_path order name;
          fs1 = (snd s)(path \<mapsto> write_run K D order entries)
      in case run_open D path fs1 of
           Inl e \<Rightarrow> Inl e
         | Inr run \<Rightarrow> Inr (\<lparr>fi_runs = (fi_runs (fst s))(order := fi_runs (fst s) order @ [run])\<rparr>, fs1))"

definition add_runs ::
  "'n idx_codec \<Rightarrow> dir_codec \<Rightarrow> string \<Rightarrow> 'n index_entry list \<Rightarrow> fact_indexes \<times> fs \<Rightarrow>
   segment_error + fact_indexes \<times> fs" where
  "add_runs K D name entries s = fold_res (add_run K D name entries) all_orders s"

definition remove_runs :: "index_run list \<Rightarrow> fs \<Rightarrow> fs" where
  "remove_runs runs fs = fold (\<lambda>r fs. fs(ir_path r := None)) runs fs"

definition build_from_batches ::
  "'n idx_codec \<Rightarrow> dir_codec \<Rightarrow> 'n batch list \<Rightarrow> fact_indexes \<times> fs \<Rightarrow> segment_error + fact_indexes \<times> fs" where
  "build_from_batches K D batches s =
     (let runs = concat (map (fi_runs (fst s)) all_orders)
      in add_runs K D ''rebuild'' (entries_from_batches batches)
           (\<lparr>fi_runs = (\<lambda>_. [])\<rparr>, remove_runs runs (snd s)))"

definition fi_scan ::
  "'n idx_codec \<Rightarrow> 'n scan_prefix \<Rightarrow> fact_indexes \<times> fs \<Rightarrow> segment_error + 'n index_entry list" where
  "fi_scan K p s =
     (case map_res (\<lambda>r. run_scan K r (snd s) (prefix_bytes K p)) (fi_runs (fst s) (prefix_order p)) of
        Inl e \<Rightarrow> Inl e
      | Inr ess \<Rightarrow> Inr (sort_key (encode_key K (prefix_order p)) (concat ess)))"

text \<open>
  Compaction, up to the removal of the old runs (the merged run is still under its temporary name).  An
  error carries no state: that a failed compaction has already taken the runs of its order out of the
  set in memory is not modelled.
\<close>

definition merge_prepare ::
  "'n idx_codec \<Rightarrow> dir_codec \<Rightarrow> sort_order \<Rightarrow> fact_indexes \<times> fs \<Rightarrow> segment_error + fs" where
  "merge_prepare K D order s =
     (case map_res (\<lambda>r. all_raw K r (snd s)) (fi_runs (fst s) order) of
        Inl e \<Rightarrow> Inl e
      | Inr rss \<Rightarrow>
          (let raws = sort_key fst (concat rss);
               tmp = run_path order ''merged'' @ ''.tmp'';
               fs1 = (snd s)(tmp \<mapsto> write_run_raw K D order raws)
           in Inr (remove_runs (fi_runs (fst s) order) fs1)))"

definition merge_runs ::
  "'n idx_codec \<Rightarrow> dir_codec \<Rightarrow> sort_order \<Rightarrow> fact_indexes \<times> fs \<Rightarrow> segment_error + fact_indexes \<times> fs" where
  "merge_runs K D order s =
     (if length (fi_runs (fst s) order) \<le> 1 then Inr s
      else (case merge_prepare K D order s of
              Inl e \<Rightarrow> Inl e
            | Inr fs1 \<Rightarrow>
                (let tmp = run_path order ''merged'' @ ''.tmp'';
                     path = run_path order ''merged'';
                     fs2 = (fs1(tmp := None))(path := fs1 tmp)
                 in case run_open D path fs2 of
                      Inl e \<Rightarrow> Inl e
                    | Inr run \<Rightarrow> Inr (\<lparr>fi_runs = (fi_runs (fst s))(order := [run])\<rparr>, fs2))))"

definition run_count :: "fact_indexes \<Rightarrow> sort_order \<Rightarrow> nat" where
  "run_count fi order = length (fi_runs fi order)"

section \<open>A run file reads back as it was written\<close>

lemma le_bytes_le_val: "le_bytes (length bs) (le_val bs) = bs"
proof (induction bs)
  case (Cons b bs)
  have "unat b < 256" using unsigned_less [of b, where ?'a = nat] by simp
  then have d: "(unat b + 256 * le_val bs) div 256 = le_val bs" "(unat b + 256 * le_val bs) mod 256 = unat b"
    by simp_all
  have "unat (word_of_nat n :: byte) = n mod 256" for n by (simp add: unat_of_nat)
  then have "(word_of_nat (unat b + 256 * le_val bs) :: byte) = b"
    using d(2) by (metis word_unat_eq_iff)
  with Cons d(1) show ?case by (simp del: of_nat_add of_nat_mult)
qed simp

lemma uuid_bytes_from_slice: "uuid_from_slice b = Some e \<Longrightarrow> uuid_bytes e = b"
proof -
  assume a: "uuid_from_slice b = Some e"
  then have len: "length b = 16" and e: "e = word_of_nat (be_val b)"
    by (auto simp: uuid_from_slice_def split: if_splits)
  have "be_val b < 2 ^ 128" using le_val_bound [of "rev b"] len by (simp add: be_val_def)
  then have "unat e = be_val b" by (simp add: e unat_of_nat)
  then show ?thesis using le_bytes_le_val [of "rev b"] len
    by (simp add: uuid_bytes_def be_bytes_def be_val_def)
qed

lemma chunks_props:
  assumes "0 < n"
  shows "concat (chunks n xs) = xs \<and> (\<forall>c \<in> set (chunks n xs). c \<noteq> [] \<and> length c \<le> n \<and> set c \<subseteq> set xs)"
  using assms
proof (induction n xs rule: chunks.induct)
  case (1 n xs)
  show ?case
  proof (cases "xs = []")
    case False
    then show ?thesis using 1 set_take_subset [of n xs] set_drop_subset [of n xs]
      by (simp add: chunks.simps [of n xs]) blast
  qed (simp add: chunks.simps)
qed

definition block_of ::
  "'n idx_codec \<Rightarrow> sort_order \<Rightarrow> bytes \<Rightarrow> block_meta \<Rightarrow> 'n raw_record list \<Rightarrow> bool" where
  "block_of K order bs m c \<longleftrightarrow>
     bm_offset m + bm_len m \<le> length bs \<and>
     slice (bm_offset m) (bm_offset m + bm_len m) bs = ic_zip K (encode_block K order c) \<and>
     bm_first_key m = hex_encode (fst (hd c)) \<and> bm_last_key m = hex_encode (fst (last c))"

lemma write_blocks_metas:
  assumes "\<forall>c \<in> set cs. length (ic_zip K (encode_block K order c)) < 2 ^ 32"
  shows "list_all2 (block_of K order (pre @ fst (write_blocks K order (length pre) cs) @ post))
    (snd (write_blocks K order (length pre) cs)) cs"
  using assms
proof (induction cs arbitrary: pre)
  case (Cons c cs)
  let ?body = "ic_zip K (encode_block K order c)"
  have IH: "list_all2 (block_of K order ((pre @ ?body) @ fst (write_blocks K order (length (pre @ ?body)) cs) @ post))
      (snd (write_blocks K order (length (pre @ ?body)) cs)) cs"
    by (rule Cons.IH) (use Cons.prems in simp)
  have b: "block_of K order (pre @ ?body @ rest) \<lparr>bm_offset = length pre, bm_len = length ?body mod 2 ^ 32,
      bm_count = length c, bm_first_key = hex_encode (fst (hd c)), bm_last_key = hex_encode (fst (last c))\<rparr> c" for rest
    using Cons.prems by (simp add: block_of_def)
  from IH b show ?case
    by (simp add: Let_def split_beta)
qed simp

text \<open>
  What an open run holds.  The filter may be missing (runs written before it existed), but it
  never excludes an entity of the run.
\<close>

definition run_rep ::
  "'n idx_codec \<Rightarrow> sort_order \<Rightarrow> index_run \<Rightarrow> fs \<Rightarrow> 'n raw_record list \<Rightarrow> bool" where
  "run_rep K order run fs raws \<longleftrightarrow>
     rd_order (ir_dir run) = order \<and>
     (\<exists>bs css. fs (ir_path run) = Some bs \<and> concat css = raws \<and>
        (\<forall>c \<in> set css. c \<noteq> [] \<and> length c < 2 ^ 32 \<and> (\<forall>r \<in> set c. record_fits K order r)) \<and>
        list_all2 (block_of K order bs) (rd_blocks (ir_dir run)) css) \<and>
     (\<forall>f. rd_entity_filter (ir_dir run) = Some f \<longrightarrow> (\<forall>r \<in> set raws. may_contain f (ie_entity (snd r))))"

lemma run_rep_frame: "run_rep K order run fs raws \<Longrightarrow> fs' (ir_path run) = fs (ir_path run) \<Longrightarrow>
  run_rep K order run fs' raws"
  by (simp add: run_rep_def)

definition run_fits :: "'n idx_codec \<Rightarrow> dir_codec \<Rightarrow> sort_order \<Rightarrow> 'n raw_record list \<Rightarrow> bool" where
  "run_fits K D order raws \<longleftrightarrow> (\<forall>r \<in> set raws. record_fits K order r) \<and>
     length (write_run_raw K D order raws) < 2 ^ 32"

lemma write_blocks_length:
  "c \<in> set cs \<Longrightarrow> length (ic_zip K (encode_block K order c)) \<le> length (fst (write_blocks K order off cs))"
proof (induction cs arbitrary: off)
  case (Cons d cs)
  then show ?case using Cons.IH [of "off + length (ic_zip K (encode_block K order d))"]
    by (auto simp: Let_def split_beta intro: trans_le_add2)
qed simp

lemma run_open_write:
  assumes D: "dir_codec_ok D" and fits: "run_fits K D order raws" and K: "idx_codec_ok K"
    and bs: "fs path = Some (write_run_raw K D order raws)"
  shows "\<exists>run. run_open D path fs = Inr run \<and> ir_path run = path \<and> run_rep K order run fs raws"
proof -
  let ?d = "run_dir_of K order True raws"
  define css where "css = chunks BLOCK_ENTRIES raws"
  define data where "data = fst (write_blocks K order 0 css)"
  define body where "body = dc_enc D ?d"
  define whole where "whole = data @ body @ le_bytes 8 (length data) @ le_bytes 4 (length body) @ le_bytes 4 RUN_MAGIC"
  have fl: "write_run_raw K D order raws = whole"
    by (simp add: write_run_raw_def write_run_raw_with_def Let_def whole_def data_def body_def css_def)
  have len: "length whole = length data + length body + 16" by (simp add: whole_def)
  have bound: "length whole < 2 ^ 32" using fits by (simp add: run_fits_def fl)
  have vals: "le_val (le_bytes 8 (length data)) = length data" "le_val (le_bytes 4 (length body)) = length body"
    "le_val (le_bytes 4 RUN_MAGIC) = RUN_MAGIC"
    using len bound by (simp_all add: le_val_le_bytes_id RUN_MAGIC_def)
  have footer: "drop (length whole - 16) whole = le_bytes 8 (length data) @ le_bytes 4 (length body) @ le_bytes 4 RUN_MAGIC"
    by (simp add: whole_def)
  have slices: "slice 0 8 (drop (length whole - 16) whole) = le_bytes 8 (length data)"
    "slice 8 12 (drop (length whole - 16) whole) = le_bytes 4 (length body)"
    "slice 12 16 (drop (length whole - 16) whole) = le_bytes 4 RUN_MAGIC"
    unfolding footer by (simp_all add: slice_def)
  have dir: "slice (length data) (length data + length body) whole = body" by (simp add: slice_def whole_def)
  have dec: "dc_dec D body = Some (strip_words ?d)" using D by (simp add: dir_codec_ok_def body_def)
  have filt: "Option.bind (rd_entity_filter (strip_words ?d)) hydrate = rd_entity_filter ?d"
    by (simp add: strip_words_def run_dir_of_def run_filter_def hydrate_build Let_def)
  define run where "run = \<lparr>ir_path = path, ir_dir = ?d\<rparr>"
  have "(strip_words ?d)\<lparr>rd_entity_filter := rd_entity_filter ?d\<rparr> = ?d"
    by (simp add: strip_words_def)
  then have "run_open D path fs = Inr run"
    using bs fl len slices vals dir dec filt
    by (simp add: run_open_def Let_def run_def)
  moreover have "run_rep K order run fs raws"
  proof -
    have ch: "concat css = raws" "\<forall>c \<in> set css. c \<noteq> [] \<and> length c \<le> BLOCK_ENTRIES \<and> set c \<subseteq> set raws"
      using chunks_props [of BLOCK_ENTRIES raws] by (simp_all add: css_def BLOCK_ENTRIES_def)
    have small: "\<forall>c \<in> set css. length (ic_zip K (encode_block K order c)) < 2 ^ 32"
      using write_blocks_length [of _ css K order 0] len bound unfolding data_def by fastforce
    have "list_all2 (block_of K order whole) (rd_blocks ?d) css"
      using write_blocks_metas [OF small, of "[]"] unfolding whole_def data_def
      by (simp add: run_dir_of_def css_def)
    moreover have "\<forall>f. rd_entity_filter ?d = Some f \<longrightarrow> (\<forall>r \<in> set raws. may_contain f (ie_entity (snd r)))"
      by (auto simp: run_dir_of_def run_filter_def Let_def intro!: filter_build_contains rev_image_eqI
          split: if_splits)
    moreover have "\<forall>c \<in> set css. c \<noteq> [] \<and> length c < 2 ^ 32 \<and> (\<forall>r \<in> set c. record_fits K order r)"
      using ch(2) fits by (fastforce simp: run_fits_def BLOCK_ENTRIES_def)
    ultimately show ?thesis
      unfolding run_rep_def using bs fl ch(1) by (auto simp: run_def run_dir_of_def)
  qed
  ultimately show ?thesis by (auto simp: run_def)
qed

lemma read_block_rep:
  assumes "idx_codec_ok K" "rd_order (ir_dir run) = order" "fs (ir_path run) = Some bs"
    and "block_of K order bs m c" "length c < 2 ^ 32" "\<forall>r \<in> set c. record_fits K order r"
  shows "read_block_where K run fs m keep = Inr (kept keep c)"
  using assms decode_block_encode [OF assms(1,6,5)]
  by (simp add: read_block_where_def block_of_def idx_codec_ok_def)

lemma map_res_list_all2:
  assumes "list_all2 P xs ys" "\<And>x y. P x y \<Longrightarrow> y \<in> set ys \<Longrightarrow> f x = Inr (g y)"
  shows "map_res f xs = Inr (map g ys)"
  using assms
proof (induction xs ys rule: list_all2_induct)
  case (Cons x xs y ys)
  then show ?case by simp
qed simp

lemma all_raw_rep:
  assumes "idx_codec_ok K" "run_rep K order run fs raws"
  shows "all_raw K run fs = Inr raws"
proof -
  obtain bs css where r: "fs (ir_path run) = Some bs" "concat css = raws" "rd_order (ir_dir run) = order"
    "\<forall>c \<in> set css. c \<noteq> [] \<and> length c < 2 ^ 32 \<and> (\<forall>r \<in> set c. record_fits K order r)"
    "list_all2 (block_of K order bs) (rd_blocks (ir_dir run)) css"
    using assms(2) by (auto simp: run_rep_def)
  have "map_res (\<lambda>m. read_block_where K run fs m (\<lambda>_. KeepYes)) (rd_blocks (ir_dir run)) = Inr (map (\<lambda>c. c) css)"
    using r(5)
  proof (rule map_res_list_all2)
    fix m c
    assume "block_of K order bs m c" "c \<in> set css"
    then show "read_block_where K run fs m (\<lambda>_. KeepYes) = Inr c"
      using read_block_rep [where fs = fs and run = run, OF assms(1) r(3,1)] r(4) by simp
  qed
  then show ?thesis using r(2) by (simp add: all_raw_def)
qed

section \<open>The pruned scan is exact\<close>

lemma scan_blocks_rep:
  assumes K: "idx_codec_ok K" and run: "rd_order (ir_dir run) = order" "fs (ir_path run) = Some bs"
    and "list_all2 (block_of K order bs) ms css"
    and "\<forall>c \<in> set css. c \<noteq> [] \<and> length c < 2 ^ 32 \<and> (\<forall>r \<in> set c. record_fits K order r)"
    and "sorted (map fst (concat css))"
  shows "scan_blocks K run fs pre ms = Inr (map snd (filter (\<lambda>r. in_prefix (fst r) pre) (concat css)))"
  using assms(4-6)
proof (induction ms css rule: list_all2_induct)
  case (Cons m ms c css)
  have c: "c \<noteq> []" "length c < 2 ^ 32" "\<forall>r \<in> set c. record_fits K order r" using Cons.prems by simp_all
  have sorted: "sorted (map fst c)" "sorted (map fst (concat css))"
    using Cons.prems(2) by (simp_all add: sorted_append)
  have first: "bm_first_key m = hex_encode (fst (hd c))" using Cons.hyps(1) by (simp add: block_of_def)
  show ?case
  proof (cases "pre < fst (hd c) \<and> \<not> in_prefix (fst (hd c)) pre")
    case True
    have "\<not> in_prefix (fst r) pre" if "r \<in> set (concat (c # css))" for r
    proof -
      have "fst (hd c) \<le> fst r"
        using that Cons.prems(2) c(1) by (cases c) (auto simp: sorted_append)
      then show ?thesis using past_prefix [of pre "fst (hd c)" "fst r"] True by (simp add: in_prefix_iff)
    qed
    then have "filter (\<lambda>r. in_prefix (fst r) pre) (concat (c # css)) = []"
      by (simp only: filter_empty_conv) blast
    then show ?thesis using True first by simp
  next
    case False
    then have "(bm_first_key m > hex_encode pre \<and> \<not> starts_with (bm_first_key m) (hex_encode pre)) = False"
      by (simp add: first)
    moreover have "read_block_where K run fs m (prefix_keep pre) = Inr (filter (\<lambda>r. in_prefix (fst r) pre) c)"
      using read_block_rep [where fs = fs and run = run, OF K run Cons.hyps(1) c(2,3)] kept_prefix [OF sorted(1)] by simp
    moreover have "scan_blocks K run fs pre ms = Inr (map snd (filter (\<lambda>r. in_prefix (fst r) pre) (concat css)))"
      using Cons.IH Cons.prems(1) sorted(2) by simp
    ultimately show ?thesis by (simp only: scan_blocks.simps if_False sum.case concat.simps filter_append map_append)
  qed
qed simp

definition keys_lead_with_entity :: "sort_order \<Rightarrow> 'n raw_record list \<Rightarrow> bool" where
  "keys_lead_with_entity order raws \<longleftrightarrow>
     (order = Eavt \<longrightarrow> (\<forall>r \<in> set raws. prefix (uuid_bytes (ie_entity (snd r))) (fst r)))"

lemma filter_excludes_sound:
  assumes "run_rep K order run fs raws" "keys_lead_with_entity order raws" "filter_excludes run pre"
  shows "filter (\<lambda>r. in_prefix (fst r) pre) raws = []"
proof -
  obtain f e where f: "order = Eavt" "rd_entity_filter (ir_dir run) = Some f" "\<not> may_contain f e"
    "16 \<le> length pre" "uuid_from_slice (take 16 pre) = Some e"
    using assms(1,3) by (auto simp: filter_excludes_def run_rep_def split: sort_order.splits option.splits if_splits)
  have False if "r \<in> set raws" "in_prefix (fst r) pre" for r
  proof -
    have "take 16 pre = take 16 (fst r)"
      using that(2) f(4) by (metis in_prefix_def min.absorb1 take_take)
    also have "\<dots> = uuid_bytes (ie_entity (snd r))"
    proof -
      have "prefix (uuid_bytes (ie_entity (snd r))) (fst r)"
        using assms(2) that(1) f(1) by (simp add: keys_lead_with_entity_def)
      then obtain t where "fst r = uuid_bytes (ie_entity (snd r)) @ t" by (rule prefixE)
      then show ?thesis by simp
    qed
    finally have "uuid_bytes e = uuid_bytes (ie_entity (snd r))"
      using uuid_bytes_from_slice [OF f(5)] by simp
    then have "e = ie_entity (snd r)" by (simp add: uuid_bytes_inj)
    then show False using assms(1) f(2,3) that(1) by (simp add: run_rep_def)
  qed
  then show ?thesis by (auto simp: filter_empty_conv)
qed

lemma run_scan_rep:
  assumes K: "idx_codec_ok K" and rep: "run_rep K order run fs raws"
    and sorted: "sorted (map fst raws)" and lead: "keys_lead_with_entity order raws"
  shows "run_scan K run fs pre = Inr (map snd (filter (\<lambda>r. in_prefix (fst r) pre) raws))"
proof (cases "filter_excludes run pre")
  case True
  then show ?thesis using filter_excludes_sound [OF rep lead True] by (simp add: run_scan_def)
next
  case False
  obtain bs css where r: "fs (ir_path run) = Some bs" "concat css = raws" "rd_order (ir_dir run) = order"
    "\<forall>c \<in> set css. c \<noteq> [] \<and> length c < 2 ^ 32 \<and> (\<forall>r \<in> set c. record_fits K order r)"
    "list_all2 (block_of K order bs) (rd_blocks (ir_dir run)) css"
    using rep by (auto simp: run_rep_def)
  let ?P = "\<lambda>m. bm_last_key m < hex_encode pre"
  define first where "first = partition_point ?P (rd_blocks (ir_dir run))"
  have split: "raws = concat (take first css) @ concat (drop first css)"
    using r(2) by (metis append_take_drop_id concat_append)
  have none: "\<not> in_prefix (fst q) pre" if q: "q \<in> set (concat (take first css))" for q
  proof -
    obtain c where c: "c \<in> set (take first css)" "q \<in> set c" using q by auto
    then obtain i where i: "i < first" "i < length css" "c = css ! i" by (auto simp: in_set_conv_nth)
    have m: "block_of K order bs (rd_blocks (ir_dir run) ! i) c" using r(5) i by (simp add: list_all2_conv_all_nth)
    have "?P (rd_blocks (ir_dir run) ! i)"
      using i(1) unfolding first_def partition_point_def
      by (metis nth_mem set_takeWhileD takeWhile_nth)
    then have "fst (last c) < pre" using m by (simp add: block_of_def)
    moreover have "fst q \<le> fst (last c)"
    proof -
      have "c \<in> set css" using i by simp
      then obtain xs ys where "css = xs @ c # ys" by (metis split_list)
      then have "sorted (map fst c)" using sorted r(2) by (auto simp: sorted_append)
      then have "fst q \<le> last (map fst c)" using c(2) by (intro sorted_le_last) simp_all
      then show ?thesis using c(2) by (cases "c = []") (auto simp: last_map)
    qed
    ultimately show ?thesis using prefix_le [of pre "fst q"] by (auto simp: in_prefix_iff)
  qed
  have s: "sorted (map fst (concat (drop first css)))" using sorted split by (metis map_append sorted_append)
  have c: "\<forall>c \<in> set (drop first css). c \<noteq> [] \<and> length c < 2 ^ 32 \<and> (\<forall>r \<in> set c. record_fits K order r)"
    using r(4) by (auto dest: in_set_dropD)
  have l: "list_all2 (block_of K order bs) (drop first (rd_blocks (ir_dir run))) (drop first css)"
    using r(5) by (rule list_all2_dropI)
  have "scan_blocks K run fs pre (drop first (rd_blocks (ir_dir run))) =
      Inr (map snd (filter (\<lambda>r. in_prefix (fst r) pre) (concat (drop first css))))"
    by (rule scan_blocks_rep [where fs = fs and run = run, OF K r(3,1) l c s])
  moreover have "filter (\<lambda>r. in_prefix (fst r) pre) raws = filter (\<lambda>r. in_prefix (fst r) pre) (concat (drop first css))"
    using none by (subst split) (simp only: filter_append, simp add: filter_empty_conv)
  ultimately show ?thesis using False by (simp add: run_scan_def Let_def first_def)
qed

section \<open>What an index set holds\<close>

definition raws_ok :: "'n idx_codec \<Rightarrow> sort_order \<Rightarrow> 'n raw_record list \<Rightarrow> bool" where
  "raws_ok K order raws \<longleftrightarrow> (\<forall>r \<in> set raws. \<exists>e. project K order e = Some r \<and> entry_fits e)"

lemma raws_ok_lead: "raws_ok K order raws \<Longrightarrow> keys_lead_with_entity order raws"
  by (auto simp: raws_ok_def keys_lead_with_entity_def project_def split: if_splits)

lemma project_eavt: "project K Eavt e = Some (encode_key K Eavt e, e)"
  by (simp add: project_def)

lemma raws_ok_eavt: "raws_ok K Eavt raws \<Longrightarrow> r \<in> set raws \<Longrightarrow> fst r = encode_key K Eavt (snd r) \<and> entry_fits (snd r)"
  by (auto simp: raws_ok_def project_eavt)

definition order_rep ::
  "'n idx_codec \<Rightarrow> fact_indexes \<times> fs \<Rightarrow> sort_order \<Rightarrow> 'n raw_record list list \<Rightarrow> bool" where
  "order_rep K s order rss \<longleftrightarrow>
     list_all2 (\<lambda>run raws. run_rep K order run (snd s) raws \<and> sorted (map fst raws) \<and> raws_ok K order raws)
       (fi_runs (fst s) order) rss \<and>
     (\<forall>run \<in> set (fi_runs (fst s) order). \<exists>n. ir_path run = run_path order n)"

definition fi_holds :: "'n idx_codec \<Rightarrow> fact_indexes \<times> fs \<Rightarrow> 'n index_entry list \<Rightarrow> bool" where
  "fi_holds K s H \<longleftrightarrow>
     (\<forall>order. \<exists>rss. order_rep K s order rss \<and>
        mset (concat rss) = mset (List.map_filter (project K order) H) \<and>
        (order = Eavt \<longrightarrow> same_history (map snd (concat rss)) H)) \<and>
     (\<forall>e \<in> set H. entry_fits e)"

lemma map_filter_project_eavt: "List.map_filter (project K Eavt) H = map (\<lambda>e. (encode_key K Eavt e, e)) H"
  by (induction H) (auto simp: project_eavt List.map_filter_simps)

lemma image_filter_image: "{r \<in> f ` S. P r} = f ` {x \<in> S. P (f x)}"
  by auto

lemma fi_scan_rep:
  assumes K: "idx_codec_ok K" and rep: "order_rep K s (prefix_order p) rss"
  shows "fi_scan K p s = Inr (sort_key (encode_key K (prefix_order p))
    (map snd (filter (\<lambda>r. in_prefix (fst r) (prefix_bytes K p)) (concat rss))))"
proof -
  have "map_res (\<lambda>r. run_scan K r (snd s) (prefix_bytes K p)) (fi_runs (fst s) (prefix_order p)) =
      Inr (map (\<lambda>raws. map snd (filter (\<lambda>r. in_prefix (fst r) (prefix_bytes K p)) raws)) rss)"
    using conjunct1 [OF rep [unfolded order_rep_def]]
    by (rule map_res_list_all2) (blast intro: run_scan_rep [OF K] raws_ok_lead)
  moreover have "concat (map (\<lambda>raws. map snd (filter P raws)) rss) = map snd (filter P (concat rss))"
    for P :: "'a raw_record \<Rightarrow> bool"
    by (induction rss) auto
  ultimately show ?thesis by (simp add: fi_scan_def)
qed

text \<open>An entity scan returns the history of the entity.\<close>

lemma scan_entity_history:
  assumes K: "idx_codec_ok K" and holds: "fi_holds K s H"
  shows "\<exists>es. fi_scan K (EntityPrefix u None) s = Inr es \<and>
    same_history es (filter (\<lambda>e. ie_entity e = u) H)"
proof -
  obtain rss where rss: "order_rep K s Eavt rss" "same_history (map snd (concat rss)) H"
    "mset (concat rss) = mset (List.map_filter (project K Eavt) H)"
    using holds unfolding fi_holds_def by blast
  let ?raws = "concat rss" and ?pre = "prefix_bytes K (EntityPrefix u None)"
  have set: "set ?raws = (\<lambda>e. (encode_key K Eavt e, e)) ` set H"
    using mset_eq_setD [OF rss(3)] by (simp only: map_filter_project_eavt set_map)
  then have key: "fst r = encode_key K Eavt (snd r)" "snd r \<in> set H" if "r \<in> set ?raws" for r
    using that by auto
  have "filter (\<lambda>r. in_prefix (fst r) ?pre) ?raws = filter (\<lambda>r. ie_entity (snd r) = u) ?raws"
    by (rule filter_cong [OF refl]) (simp only: key(1) entity_prefix)
  then have es: "map snd (filter (\<lambda>r. in_prefix (fst r) ?pre) ?raws) = filter (\<lambda>e. ie_entity e = u) (map snd ?raws)"
    by (simp add: filter_map comp_def)
  let ?ys = "filter (\<lambda>e. ie_entity e = u) (map snd ?raws)"
  have "same_history (sort_key (encode_key K Eavt) ?ys) ?ys"
    by (rule same_history_sort) (auto simp: slot_tx_def)
  moreover have "same_history ?ys (filter (\<lambda>e. ie_entity e = u) H)"
    by (rule same_history_filter [OF rss(2)])
  ultimately show ?thesis
    using fi_scan_rep [OF K, of s "EntityPrefix u None" rss] rss(1) es same_history_trans by auto
qed

text \<open>Attribute scans return the right entities.\<close>

lemma scan_attr_entities:
  assumes K: "idx_codec_ok K" and holds: "fi_holds K s H" and a: "a < 2 ^ 32"
  shows "\<exists>es. fi_scan K (AttrPrefix a) s = Inr es \<and>
    ie_entity ` set es = ie_entity ` {e \<in> set H. ie_attr e = a}"
proof -
  obtain rss where rss: "order_rep K s Aevt rss"
    "mset (concat rss) = mset (List.map_filter (project K Aevt) H)"
    using holds unfolding fi_holds_def by blast
  have set: "set (concat rss) = (\<lambda>e. (encode_key K Aevt e, e\<lparr>ie_value := FNull\<rparr>)) ` set H"
    using mset_eq_setD [OF rss(2)] by (auto simp: set_map_filter project_def)
  have fits: "\<And>e. e \<in> set H \<Longrightarrow> entry_fits e" using holds by (simp add: fi_holds_def)
  have "ie_entity ` snd ` {r \<in> set (concat rss). in_prefix (fst r) (prefix_bytes K (AttrPrefix a))} =
      ie_entity ` {e \<in> set H. ie_attr e = a}"
    unfolding set image_filter_image image_image using attr_prefix [OF fits a, of _ K]
    by (simp del: prefix_bytes.simps encode_key.simps cong: conj_cong)
  then show ?thesis using fi_scan_rep [OF K, of s "AttrPrefix a" rss] rss(1) by simp
qed

lemma scan_ref_entities:
  assumes K: "idx_codec_ok K" and holds: "fi_holds K s H" and a: "a < 2 ^ 32"
  shows "\<exists>es. fi_scan K (AttrValuePrefix a (FRef u)) s = Inr es \<and>
    ie_entity ` set es = ie_entity ` {e \<in> set H. ie_attr e = a \<and> ie_value e = FRef u}"
proof -
  obtain rss where rss: "order_rep K s Avet rss"
    "mset (concat rss) = mset (List.map_filter (project K Avet) H)"
    using holds unfolding fi_holds_def by blast
  have set: "set (concat rss) = (\<lambda>e. (encode_key K Avet e, e\<lparr>ie_value := FNull\<rparr>)) ` {e \<in> set H. is_ref (ie_value e)}"
    using mset_eq_setD [OF rss(2)] by (auto simp: set_map_filter project_def split: if_splits)
  have fits: "\<And>e. e \<in> set H \<Longrightarrow> entry_fits e" using holds by (simp add: fi_holds_def)
  have pre: "in_prefix (encode_key K Avet e) (prefix_bytes K (AttrValuePrefix a (FRef u))) \<longleftrightarrow>
      ie_attr e = a \<and> ie_value e = FRef u" if "e \<in> set H" for e
    using attr_value_prefix [OF fits [OF that] a, of K "FRef u"] ref_order_key [of K "ie_value e" u] by blast
  have "ie_entity ` snd ` {r \<in> set (concat rss). in_prefix (fst r) (prefix_bytes K (AttrValuePrefix a (FRef u)))} =
      ie_entity ` {e \<in> set H. ie_attr e = a \<and> ie_value e = FRef u}"
    unfolding set image_filter_image image_image using pre
    by (auto simp del: prefix_bytes.simps encode_key.simps intro!: image_eqI)
  then show ?thesis using fi_scan_rep [OF K, of s "AttrValuePrefix a (FRef u)" rss] rss(1) by simp
qed

section \<open>Adding and merging runs\<close>

lemma run_path_eq [simp]: "run_path o1 n1 = run_path o2 n2 \<longleftrightarrow> o1 = o2 \<and> n1 = n2"
  by (cases o1; cases o2) (auto simp: run_path_def)

lemma run_path_tmp [simp]: "run_path o1 n1 \<noteq> run_path o2 n2 @ ''.tmp''" "run_path o2 n2 @ ''.tmp'' \<noteq> run_path o1 n1"
proof -
  show "run_path o1 n1 \<noteq> run_path o2 n2 @ ''.tmp''"
  proof
    assume "run_path o1 n1 = run_path o2 n2 @ ''.tmp''"
    from arg_cong [OF this, of last] show False by (simp add: run_path_def)
  qed
  then show "run_path o2 n2 @ ''.tmp'' \<noteq> run_path o1 n1" by metis
qed

lemma sorted_raws_props:
  assumes "\<forall>e \<in> set M. entry_fits e"
  shows "sorted (map fst (sorted_raws K order M)) \<and> raws_ok K order (sorted_raws K order M) \<and>
    mset (sorted_raws K order M) = mset (List.map_filter (project K order) M)"
  using assms by (auto simp: sorted_raws_def raws_ok_def set_map_filter)

lemma keyed_sort:
  assumes "\<forall>r \<in> set raws. fst r = f (snd r)"
  shows "map snd (sort_key fst raws) = sort_key f (map snd raws)"
proof -
  have "map (\<lambda>r. (f (snd r), snd r)) raws = map (\<lambda>r. r) raws"
    by (rule map_cong [OF refl]) (use assms in \<open>simp add: prod_eq_iff\<close>)
  then have "raws = map (\<lambda>e. (f e, e)) (map snd raws)" by (simp add: comp_def)
  from arg_cong [OF this, of "sort_key fst"]
  have "sort_key fst raws = map (\<lambda>e. (f e, e)) (sort_key (fst \<circ> (\<lambda>e. (f e, e))) (map snd raws))"
    by (simp only: sort_key_map)
  then show ?thesis by (simp add: comp_def)
qed

lemma same_history_raws:
  assumes "\<forall>r \<in> set raws. fst r = encode_key K Eavt (snd r)"
  shows "same_history (map snd (sort_key fst raws)) (map snd raws)"
  unfolding keyed_sort [OF assms] by (rule same_history_sort) (simp add: slot_tx_def)

lemma order_rep_frame:
  assumes "order_rep K s order rss" "fi_runs (fst s') order = fi_runs (fst s) order"
    and "\<And>run. run \<in> set (fi_runs (fst s) order) \<Longrightarrow> snd s' (ir_path run) = snd s (ir_path run)"
  shows "order_rep K s' order rss"
proof -
  have "list_all2 (\<lambda>run raws. run_rep K order run (snd s') raws \<and> sorted (map fst raws) \<and> raws_ok K order raws)
      (fi_runs (fst s) order) rss"
    using conjunct1 [OF assms(1) [unfolded order_rep_def]]
    by (rule list.rel_mono_strong) (use assms(3) run_rep_frame in blast)
  then show ?thesis using assms(1,2) by (simp add: order_rep_def)
qed

lemma add_run_step:
  assumes K: "idx_codec_ok K" and D: "dir_codec_ok D"
    and fits: "run_fits K D order (sorted_raws K order M)" "\<forall>e \<in> set M. entry_fits e"
    and fresh: "\<forall>run \<in> set (fi_runs (fst s) order). ir_path run \<noteq> run_path order name"
    and rep: "order_rep K s order rss"
  shows "\<exists>s'. add_run K D name M order s = Inr s' \<and> order_rep K s' order (rss @ [sorted_raws K order M]) \<and>
    (\<forall>o2 rss2. o2 \<noteq> order \<longrightarrow> order_rep K s o2 rss2 \<longrightarrow> order_rep K s' o2 rss2) \<and>
    (\<forall>o2. o2 \<noteq> order \<longrightarrow> fi_runs (fst s') o2 = fi_runs (fst s) o2)"
proof -
  let ?path = "run_path order name"
  let ?fs = "(snd s)(?path \<mapsto> write_run K D order M)"
  obtain run where run: "run_open D ?path ?fs = Inr run" "ir_path run = ?path"
    "run_rep K order run ?fs (sorted_raws K order M)"
    using run_open_write [OF D fits(1) K, of ?fs ?path] by (auto simp: write_run_def)
  let ?s' = "(\<lparr>fi_runs = (fi_runs (fst s))(order := fi_runs (fst s) order @ [run])\<rparr>, ?fs)"
  have old: "order_rep K (fst s, ?fs) order rss"
    by (rule order_rep_frame [OF rep]) (use fresh in auto)
  have "order_rep K ?s' order (rss @ [sorted_raws K order M])"
    using old run sorted_raws_props [OF fits(2), of K order]
    by (auto simp: order_rep_def intro!: list_all2_appendI)
  moreover have "order_rep K ?s' o2 rss2" if "o2 \<noteq> order" "order_rep K s o2 rss2" for o2 rss2
    by (rule order_rep_frame [OF that(2)]) (use that in \<open>auto simp: order_rep_def\<close>)
  ultimately show ?thesis using run(1) by (auto simp: add_run_def Let_def)
qed

lemma fi_holdsE:
  assumes "fi_holds K s H"
  obtains rss where "order_rep K s order rss" "mset (concat rss) = mset (List.map_filter (project K order) H)"
    "order = Eavt \<Longrightarrow> same_history (map snd (concat rss)) H"
  using assms unfolding fi_holds_def by meson

lemma map_filter_append: "List.map_filter f (xs @ ys) = List.map_filter f xs @ List.map_filter f ys"
  by (simp add: List.map_filter_def)

lemma sorted_raws_history: "same_history (map snd (sorted_raws K Eavt M)) M"
proof -
  have "same_history (map snd (sort_key fst (List.map_filter (project K Eavt) M)))
      (map snd (List.map_filter (project K Eavt) M))"
    by (rule same_history_raws) (auto simp: map_filter_project_eavt)
  then show ?thesis by (simp add: sorted_raws_def map_filter_project_eavt comp_def)
qed

lemma add_runs_holds:
  assumes K: "idx_codec_ok K" and D: "dir_codec_ok D"
    and fits: "\<And>order. run_fits K D order (sorted_raws K order M)" "\<forall>e \<in> set M. entry_fits e"
    and fresh: "\<And>order run. run \<in> set (fi_runs (fst s) order) \<Longrightarrow> ir_path run \<noteq> run_path order name"
    and holds: "fi_holds K s H"
  shows "\<exists>s'. add_runs K D name M s = Inr s' \<and> fi_holds K s' (H @ M)"
proof -
  obtain r1 where r1: "order_rep K s Eavt r1" "mset (concat r1) = mset (List.map_filter (project K Eavt) H)"
    "same_history (map snd (concat r1)) H" using fi_holdsE [OF holds, of Eavt] by metis
  obtain r2 where r2: "order_rep K s Aevt r2" "mset (concat r2) = mset (List.map_filter (project K Aevt) H)"
    using fi_holdsE [OF holds, of Aevt] by metis
  obtain r3 where r3: "order_rep K s Avet r3" "mset (concat r3) = mset (List.map_filter (project K Avet) H)"
    using fi_holdsE [OF holds, of Avet] by metis
  let ?sr = "\<lambda>order. sorted_raws K order M"
  obtain s1 where s1: "add_run K D name M Eavt s = Inr s1" "order_rep K s1 Eavt (r1 @ [?sr Eavt])"
    "order_rep K s1 Aevt r2" "order_rep K s1 Avet r3"
    "fi_runs (fst s1) Aevt = fi_runs (fst s) Aevt" "fi_runs (fst s1) Avet = fi_runs (fst s) Avet"
    using add_run_step [OF K D fits(1,2) _ r1(1), of name] fresh r2(1) r3(1)
    by (metis sort_order.distinct(1) sort_order.distinct(3))
  obtain s2 where s2: "add_run K D name M Aevt s1 = Inr s2" "order_rep K s2 Eavt (r1 @ [?sr Eavt])"
    "order_rep K s2 Aevt (r2 @ [?sr Aevt])" "order_rep K s2 Avet r3"
    "fi_runs (fst s2) Avet = fi_runs (fst s) Avet"
    using add_run_step [OF K D fits(1,2) _ s1(3), of name] fresh s1
    by (metis sort_order.distinct(1) sort_order.distinct(5))
  obtain s3 where s3: "add_run K D name M Avet s2 = Inr s3" "order_rep K s3 Eavt (r1 @ [?sr Eavt])"
    "order_rep K s3 Aevt (r2 @ [?sr Aevt])" "order_rep K s3 Avet (r3 @ [?sr Avet])"
    using add_run_step [OF K D fits(1,2) _ s2(4), of name] fresh s2
    by (metis sort_order.distinct(3) sort_order.distinct(5))
  have ms: "mset (concat (r @ [?sr order])) = mset (List.map_filter (project K order) (H @ M))"
    if "mset (concat r) = mset (List.map_filter (project K order) H)" for r order
    using that sorted_raws_props [OF fits(2), of K order] by (simp add: map_filter_append)
  have hist: "same_history (map snd (concat (r1 @ [?sr Eavt]))) (H @ M)"
    using same_history_append [OF r1(3) sorted_raws_history [of K M]] by simp
  have "\<exists>rss. order_rep K s3 order rss \<and> mset (concat rss) = mset (List.map_filter (project K order) (H @ M)) \<and>
      (order = Eavt \<longrightarrow> same_history (map snd (concat rss)) (H @ M))" for order
  proof (cases order)
    case Eavt
    then show ?thesis using s3(2) ms [OF r1(2)] hist by blast
  next
    case Aevt
    then show ?thesis using s3(3) ms [OF r2(2)] by blast
  next
    case Avet
    then show ?thesis using s3(4) ms [OF r3(2)] by blast
  qed
  then have "fi_holds K s3 (H @ M)" using holds fits(2) by (auto simp: fi_holds_def)
  then show ?thesis using s1(1) s2(1) s3(1) by (simp add: add_runs_def all_orders_def)
qed

lemma remove_runs_apply: "remove_runs runs fs p = (if p \<in> ir_path ` set runs then None else fs p)"
proof (induction runs arbitrary: fs)
  case (Cons r runs)
  then show ?case by (auto simp: remove_runs_def)
qed (simp add: remove_runs_def)

lemma merge_all_raw:
  assumes "idx_codec_ok K" "order_rep K s order rss"
  shows "map_res (\<lambda>r. all_raw K r (snd s)) (fi_runs (fst s) order) = Inr rss"
proof -
  have "map_res (\<lambda>r. all_raw K r (snd s)) (fi_runs (fst s) order) = Inr (map (\<lambda>x. x) rss)"
    using conjunct1 [OF assms(2) [unfolded order_rep_def]]
    by (rule map_res_list_all2) (blast intro: all_raw_rep [OF assms(1)])
  then show ?thesis by simp
qed

lemma merge_runs_holds:
  assumes K: "idx_codec_ok K" and D: "dir_codec_ok D" and holds: "fi_holds K s H"
    and fits: "\<And>raws. mset raws = mset (List.map_filter (project K order) H) \<Longrightarrow>
      run_fits K D order (sort_key fst raws)"
  shows "\<exists>s'. merge_runs K D order s = Inr s' \<and> fi_holds K s' H \<and> length (fi_runs (fst s') order) \<le> 1"
proof (cases "length (fi_runs (fst s) order) \<le> 1")
  case True
  then show ?thesis using holds by (simp add: merge_runs_def)
next
  case False
  obtain rss where rss: "order_rep K s order rss" "mset (concat rss) = mset (List.map_filter (project K order) H)"
    "order = Eavt \<Longrightarrow> same_history (map snd (concat rss)) H" using fi_holdsE [OF holds, of order] by metis
  let ?raws = "sort_key fst (concat rss)"
  let ?path = "run_path order ''merged''" and ?tmp = "run_path order ''merged'' @ ''.tmp''"
  define fs1 where "fs1 = remove_runs (fi_runs (fst s) order) ((snd s)(?tmp \<mapsto> write_run_raw K D order ?raws))"
  define fs2 where "fs2 = (fs1(?tmp := None))(?path := fs1 ?tmp)"
  have paths: "\<forall>run \<in> set (fi_runs (fst s) order). \<exists>n. ir_path run = run_path order n"
    using rss(1) by (simp add: order_rep_def)
  have tmp: "fs1 ?tmp = Some (write_run_raw K D order ?raws)"
    using paths by (auto simp: fs1_def remove_runs_apply)
  obtain run where run: "run_open D ?path fs2 = Inr run" "ir_path run = ?path" "run_rep K order run fs2 ?raws"
    using run_open_write [OF D fits [OF rss(2)] K, of fs2 ?path] tmp by (auto simp: fs2_def)
  define s' where "s' = (\<lparr>fi_runs = (fi_runs (fst s))(order := [run])\<rparr>, fs2)"
  have merged: "merge_runs K D order s = Inr s'"
    using False run(1) merge_all_raw [OF K rss(1)]
    by (simp add: merge_runs_def merge_prepare_def Let_def s'_def fs1_def fs2_def)
  have ok: "raws_ok K order ?raws"
  proof -
    have "\<forall>e \<in> set H. entry_fits e" using holds by (simp add: fi_holds_def)
    then show ?thesis using mset_eq_setD [OF rss(2)] by (auto simp: raws_ok_def set_map_filter)
  qed
  have here: "order_rep K s' order [?raws]"
    using run ok by (auto simp: order_rep_def s'_def)
  have other: "order_rep K s' o2 rss2" if ne: "o2 \<noteq> order" and rep2: "order_rep K s o2 rss2" for o2 rss2
  proof (rule order_rep_frame [OF rep2])
    show "fi_runs (fst s') o2 = fi_runs (fst s) o2" using ne by (simp add: s'_def)
    fix run
    assume "run \<in> set (fi_runs (fst s) o2)"
    then obtain n where n: "ir_path run = run_path o2 n" using rep2 by (auto simp: order_rep_def)
    then have "ir_path run \<notin> ir_path ` set (fi_runs (fst s) order)" using paths ne by fastforce
    then show "snd s' (ir_path run) = snd s (ir_path run)"
      using n ne by (simp add: s'_def fs2_def fs1_def remove_runs_apply)
  qed
  have hist: "same_history (map snd ?raws) H" if "order = Eavt"
  proof -
    have "set (concat rss) = set ?raws" by simp
    then have "\<forall>r \<in> set (concat rss). fst r = encode_key K Eavt (snd r)"
      using ok raws_ok_eavt that by (metis (no_types))
    from same_history_raws [OF this] show ?thesis using rss(3) [OF that] same_history_trans by blast
  qed
  have "\<exists>rss'. order_rep K s' o2 rss' \<and> mset (concat rss') = mset (List.map_filter (project K o2) H) \<and>
      (o2 = Eavt \<longrightarrow> same_history (map snd (concat rss')) H)" for o2
  proof (cases "o2 = order")
    case True
    then show ?thesis using here rss(2) hist by (intro exI [of _ "[?raws]"]) simp
  next
    case False
    obtain rss' where "order_rep K s o2 rss'" "mset (concat rss') = mset (List.map_filter (project K o2) H)"
      "o2 = Eavt \<Longrightarrow> same_history (map snd (concat rss')) H" using fi_holdsE [OF holds, of o2] by metis
    then show ?thesis using other [OF False] by blast
  qed
  then have "fi_holds K s' H" using holds by (simp add: fi_holds_def)
  then show ?thesis using merged by (simp add: s'_def)
qed

section \<open>The runs keep the contract of a history index\<close>

definition index_holds :: "'n idx_codec \<Rightarrow> dir_codec \<Rightarrow> fact_indexes \<times> fs \<Rightarrow> 'n index_entry list \<Rightarrow> bool" where
  "index_holds K D s H \<longleftrightarrow> idx_codec_ok K \<and> dir_codec_ok D \<and> fi_holds K s H"

definition index_room ::
  "'n idx_codec \<Rightarrow> dir_codec \<Rightarrow> string \<Rightarrow> 'n index_entry list \<Rightarrow> fact_indexes \<times> fs \<Rightarrow> bool" where
  "index_room K D name M s \<longleftrightarrow> (\<forall>order. run_fits K D order (sorted_raws K order M)) \<and>
     (\<forall>e \<in> set M. entry_fits e) \<and>
     (\<forall>order. \<forall>run \<in> set (fi_runs (fst s) order). ir_path run \<noteq> run_path order name)"

definition index_room_merged :: "'n idx_codec \<Rightarrow> dir_codec \<Rightarrow> sort_order \<Rightarrow> 'n index_entry list \<Rightarrow> bool" where
  "index_room_merged K D order H \<longleftrightarrow>
     (\<forall>raws. mset raws = mset (List.map_filter (project K order) H) \<longrightarrow> run_fits K D order (sort_key fst raws))"

interpretation ix: history_index "index_holds K D" "\<lambda>u. fi_scan K (EntityPrefix u None)" "add_runs K D"
    "merge_runs K D" "index_room K D" "index_room_merged K D" for K D
proof
  show "\<exists>es. fi_scan K (EntityPrefix u None) s = Inr es \<and> same_history es (filter (\<lambda>e. ie_entity e = u) H)"
    if "index_holds K D s H" for s H u
    using that scan_entity_history unfolding index_holds_def by blast
  show "\<exists>s'. add_runs K D name M s = Inr s' \<and> index_holds K D s' (H @ M)"
    if "index_holds K D s H" "index_room K D name M s" for s H name M
    using that add_runs_holds [of K D M s name H] unfolding index_holds_def index_room_def by blast
  show "\<exists>s'. merge_runs K D order s = Inr s' \<and> index_holds K D s' H"
    if "index_holds K D s H" "index_room_merged K D order H" for s H order
    using that merge_runs_holds [of K D s H order] unfolding index_holds_def index_room_merged_def by blast
qed

section \<open>Opening a directory of runs\<close>

lemma run_open_cong: "fs p = fs' p \<Longrightarrow> run_open D p fs = run_open D p fs'"
  by (simp add: run_open_def)

definition readable :: "dir_codec \<Rightarrow> fs \<Rightarrow> string \<Rightarrow> bool" where
  "readable D fs p \<longleftrightarrow> (\<exists>run. run_open D p fs = Inr run)"

definition run_of_order :: "dir_codec \<Rightarrow> fs \<Rightarrow> sort_order \<Rightarrow> string \<Rightarrow> index_run option" where
  "run_of_order D fs order p =
     (case run_open D p fs of Inl _ \<Rightarrow> None
      | Inr r \<Rightarrow> if rd_order (ir_dir r) = order then Some r else None)"

lemma run_of_order_Some: "run_of_order D fs order p = Some r \<longleftrightarrow>
    run_open D p fs = Inr r \<and> rd_order (ir_dir r) = order"
  by (auto simp: run_of_order_def split: sum.splits)

lemma map_filter_cong: "(\<And>x. x \<in> set xs \<Longrightarrow> f x = g x) \<Longrightarrow> List.map_filter f xs = List.map_filter g xs"
  by (induction xs) (auto simp: List.map_filter_simps split: option.split)

lemma fold_open_step:
  assumes "distinct ps"
  shows "\<exists>fi'. fold (open_step D) ps (fi, c, fs) =
      (fi', c \<and> (\<forall>p \<in> set ps. readable D fs p),
       (\<lambda>p. if p \<in> set ps \<and> \<not> readable D fs p then None else fs p)) \<and>
    (\<forall>order. fi_runs fi' order = fi_runs fi order @
       List.map_filter (run_of_order D fs order) ps)"
  using assms
proof (induction ps arbitrary: fi c fs)
  case Nil
  then show ?case by (auto simp: List.map_filter_simps)
next
  case (Cons p ps)
  have distinct: "distinct ps" using Cons.prems by simp
  show ?case
  proof (cases "run_open D p fs")
    case (Inl e)
    let ?fs = "fs(p := None)"
    have eq: "run_open D q ?fs = run_open D q fs" if "q \<in> set ps" for q
      by (rule run_open_cong) (use that Cons.prems in auto)
    have rd: "readable D ?fs q = readable D fs q" if "q \<in> set ps" for q
      using eq [OF that] by (simp add: readable_def)
    have mf: "List.map_filter (run_of_order D ?fs order) ps =
       List.map_filter (run_of_order D fs order) ps" for order
      by (rule map_filter_cong) (simp add: run_of_order_def eq)
    obtain fi' where IH: "fold (open_step D) ps (fi, False, ?fs) =
        (fi', False \<and> (\<forall>q \<in> set ps. readable D ?fs q),
         (\<lambda>q. if q \<in> set ps \<and> \<not> readable D ?fs q then None else ?fs q))"
      "\<And>order. fi_runs fi' order = fi_runs fi order @
       List.map_filter (run_of_order D ?fs order) ps"
      using Cons.IH [of fi False ?fs] distinct by blast
    have np: "\<not> readable D fs p" using Inl by (simp add: readable_def)
    have "fold (open_step D) (p # ps) (fi, c, fs) = (fi', c \<and> (\<forall>q \<in> set (p # ps). readable D fs q),
        (\<lambda>q. if q \<in> set (p # ps) \<and> \<not> readable D fs q then None else fs q))"
      using IH(1) Inl np rd by (auto simp: open_step_def fun_eq_iff)
    moreover have "fi_runs fi' order = fi_runs fi order @
       List.map_filter (run_of_order D fs order) (p # ps)" for order
      using IH(2) [of order] mf [of order] Inl by (simp add: List.map_filter_simps run_of_order_def [of D fs order p])
    ultimately show ?thesis by blast
  next
    case (Inr r)
    let ?fi = "\<lparr>fi_runs = (fi_runs fi)(rd_order (ir_dir r) := fi_runs fi (rd_order (ir_dir r)) @ [r])\<rparr>"
    obtain fi' where IH: "fold (open_step D) ps (?fi, c, fs) =
        (fi', c \<and> (\<forall>q \<in> set ps. readable D fs q),
         (\<lambda>q. if q \<in> set ps \<and> \<not> readable D fs q then None else fs q))"
      "\<And>order. fi_runs fi' order = fi_runs ?fi order @
       List.map_filter (run_of_order D fs order) ps"
      using Cons.IH [of ?fi c fs] distinct by blast
    have p: "readable D fs p" using Inr by (simp add: readable_def)
    have "fold (open_step D) (p # ps) (fi, c, fs) = (fi', c \<and> (\<forall>q \<in> set (p # ps). readable D fs q),
        (\<lambda>q. if q \<in> set (p # ps) \<and> \<not> readable D fs q then None else fs q))"
      using IH(1) Inr p by (auto simp: open_step_def Let_def fun_eq_iff)
    moreover have "fi_runs fi' order = fi_runs fi order @
       List.map_filter (run_of_order D fs order) (p # ps)" for order
      using IH(2) [of order] Inr by (simp add: List.map_filter_simps run_of_order_def [of D fs order p])
    ultimately show ?thesis by blast
  qed
qed

lemma fi_open_spec:
  assumes "finite (dom fs)"
  shows "\<exists>fi. fi_open D fs = (fi, (\<forall>p. fs p \<noteq> None \<and> is_run_file p \<longrightarrow> readable D fs p),
      (\<lambda>p. if fs p \<noteq> None \<and> is_run_file p \<and> \<not> readable D fs p then None else fs p)) \<and>
    (\<forall>order run. run \<in> set (fi_runs fi order) \<longleftrightarrow>
      (\<exists>p. fs p \<noteq> None \<and> is_run_file p \<and> run_open D p fs = Inr run \<and> rd_order (ir_dir run) = order))"
proof -
  let ?ps = "filter is_run_file (sorted_list_of_set (dom fs))"
  have ps: "distinct ?ps" "set ?ps = {p. fs p \<noteq> None \<and> is_run_file p}"
    using assms by auto
  obtain fi where fi: "fold (open_step D) ?ps (\<lparr>fi_runs = (\<lambda>_. [])\<rparr>, True, fs) =
      (fi, True \<and> (\<forall>p \<in> set ?ps. readable D fs p),
       (\<lambda>p. if p \<in> set ?ps \<and> \<not> readable D fs p then None else fs p))"
    "\<forall>order. fi_runs fi order = fi_runs \<lparr>fi_runs = (\<lambda>_. [])\<rparr> order @
       List.map_filter (run_of_order D fs order) ?ps"
    using fold_open_step [OF ps(1)] by blast
  have "run \<in> set (fi_runs fi order) \<longleftrightarrow>
      (\<exists>p. fs p \<noteq> None \<and> is_run_file p \<and> run_open D p fs = Inr run \<and> rd_order (ir_dir run) = order)" for run order
    using fi(2) ps(2) by (auto simp: set_map_filter run_of_order_Some simp del: set_filter)
  moreover have m: "p \<in> set ?ps \<longleftrightarrow> fs p \<noteq> None \<and> is_run_file p" for p
    using ps(2) by blast
  ultimately show ?thesis
    using fi(1) unfolding fi_open_def by (intro exI [of _ fi]) (simp add: Ball_def m del: set_filter)
qed

lemma is_run_file_path: "is_run_file (run_path order n)"
  by (cases order) (auto simp: is_run_file_def run_path_def suffix_def)

section \<open>Concrete parameters\<close>

definition demo_idx_codec :: "nat idx_codec" where
  "demo_idx_codec =
     \<lparr>ic_number = (\<lambda>n. replicate n 1), ic_json = (\<lambda>_. []),
      ic_enc_value = (\<lambda>v. if v = FNull then []
        else 1 # replicate (ops_number [(Assert, \<lparr>f_entity = 0, f_attr = 0, f_pos = None, f_value = v\<rparr>)]) 0),
      ic_dec_value = (\<lambda>bs. if bs = [] then Some FNull
        else Some (f_value (snd (hd (inv ops_number (length bs - 1)))))),
      ic_zip = (\<lambda>x. 40 # x), ic_unzip = (\<lambda>x. if x = [] then None else Some (tl x))\<rparr>"

lemma demo_idx_codec_ok: "idx_codec_ok demo_idx_codec"
proof -
  have "inj ops_number" using ops_number_inj by (rule injI)
  then show ?thesis by (simp add: idx_codec_ok_def demo_idx_codec_def)
qed

definition meta_tuple :: "block_meta \<Rightarrow> nat \<times> nat \<times> nat \<times> nat list \<times> nat list" where
  "meta_tuple m = (bm_offset m, bm_len m, bm_count m, map of_char (bm_first_key m), map of_char (bm_last_key m))"

fun order_number :: "sort_order \<Rightarrow> nat" where
  "order_number Eavt = 0" | "order_number Aevt = 1" | "order_number Avet = 2"

definition dir_number :: "run_directory \<Rightarrow> nat" where
  "dir_number d = to_nat (order_number (rd_order d), rd_entry_count d, map meta_tuple (rd_blocks d),
     map_option (\<lambda>f. map of_char (ef_bits f) :: nat list) (rd_entity_filter d))"

lemma dir_number_inj: "dir_number d = dir_number d' \<Longrightarrow> strip_words d = strip_words d'"
proof -
  assume eq: "dir_number d = dir_number d'"
  have c: "inj (of_char :: char \<Rightarrow> nat)" by (simp add: inj_def)
  have m: "inj meta_tuple"
  proof (rule injI)
    fix x y :: block_meta
    assume "meta_tuple x = meta_tuple y"
    then show "x = y" by (cases x; cases y) (simp add: meta_tuple_def inj_map_eq_map [OF c])
  qed
  have ord: "order_number a = order_number b \<Longrightarrow> a = b" for a b by (cases a; cases b) simp_all
  have "strip_words d = strip_words d'" if "rd_order d = rd_order d'" "rd_entry_count d = rd_entry_count d'"
    "rd_blocks d = rd_blocks d'" "map_option (\<lambda>f. f\<lparr>ef_words := []\<rparr>) (rd_entity_filter d) =
       map_option (\<lambda>f. f\<lparr>ef_words := []\<rparr>) (rd_entity_filter d')"
    using that by (simp add: strip_words_def)
  moreover have "map_option (\<lambda>f. f\<lparr>ef_words := []\<rparr>) (rd_entity_filter d) =
       map_option (\<lambda>f. f\<lparr>ef_words := []\<rparr>) (rd_entity_filter d')"
    using eq by (cases "rd_entity_filter d"; cases "rd_entity_filter d'")
      (auto simp: dir_number_def inj_map_eq_map [OF c] intro: entity_filter.equality)
  ultimately show ?thesis
    using eq by (simp add: dir_number_def inj_map_eq_map [OF m] ord)
qed

text \<open>The directories in \<open>short\<close> get a one-byte encoding, so that file sizes can be computed.\<close>

definition demo_dir_codec :: "run_directory \<Rightarrow> run_directory \<Rightarrow> run_directory \<Rightarrow> dir_codec" where
  "demo_dir_codec d0 d1 d2 =
     \<lparr>dc_enc = (\<lambda>d. if strip_words d = strip_words d0 then [0]
        else if strip_words d = strip_words d1 then [1]
        else if strip_words d = strip_words d2 then [2]
        else 3 # replicate (dir_number d) 0),
      dc_dec = (\<lambda>bs. if bs = [] then None
        else if hd bs = 0 then Some (strip_words d0)
        else if hd bs = 1 then Some (strip_words d1)
        else if hd bs = 2 then Some (strip_words d2)
        else Some (strip_words (inv dir_number (length bs - 1))))\<rparr>"

lemma demo_dir_codec_ok: "dir_codec_ok (demo_dir_codec d0 d1 d2)"
proof -
  have "strip_words (inv dir_number (dir_number d)) = strip_words d" for d
    by (rule dir_number_inj) (simp add: f_inv_into_f)
  then show ?thesis by (simp add: dir_codec_ok_def demo_dir_codec_def)
qed

definition demo_entry :: "nat index_entry" where
  "demo_entry = \<lparr>ie_entity = 5, ie_attr = 0, ie_pos = None, ie_tx = 0, ie_op = Assert, ie_value = FNull\<rparr>"

definition demo_dirs :: dir_codec where
  "demo_dirs = (let d = (\<lambda>order. run_dir_of demo_idx_codec order True (sorted_raws demo_idx_codec order [demo_entry]))
     in demo_dir_codec (d Eavt) (d Aevt) (d Avet))"

lemma demo_entry_fits [simp]: "entry_fits demo_entry"
  by (simp add: entry_fits_def demo_entry_def)

lemma demo_run_fits: "run_fits demo_idx_codec demo_dirs order (sorted_raws demo_idx_codec order [demo_entry])"
proof -
  let ?raws = "sorted_raws demo_idx_codec order [demo_entry]"
  have dir: "length (dc_enc demo_dirs (run_dir_of demo_idx_codec order True ?raws)) = 1"
    by (cases order) (simp_all add: demo_dirs_def demo_dir_codec_def Let_def)
  have raws: "?raws = (if order = Avet then [] else [(encode_key demo_idx_codec order demo_entry,
      if stores_values order then demo_entry else demo_entry\<lparr>ie_value := FNull\<rparr>)])"
    by (cases order) (simp_all add: sorted_raws_def project_def List.map_filter_simps demo_entry_def)
  have "length (fst (write_blocks demo_idx_codec order 0 (chunks BLOCK_ENTRIES ?raws))) < 200"
    unfolding raws
    by (cases order) (simp_all add: chunks.simps BLOCK_ENTRIES_def Let_def demo_idx_codec_def encode_block_def
        encode_record_def encode_body_def demo_entry_def)
  moreover have "\<forall>r \<in> set ?raws. record_fits demo_idx_codec order r"
    unfolding raws
    by (cases order) (simp_all add: record_fits_def entry_fits_def demo_entry_def demo_idx_codec_def)
  ultimately show ?thesis
    using dir by (simp add: run_fits_def write_run_raw_def write_run_raw_with_def Let_def)
qed

lemma empty_holds: "fi_holds K (\<lparr>fi_runs = (\<lambda>_. [])\<rparr>, fs) []"
  by (auto simp: fi_holds_def order_rep_def List.map_filter_simps)

text \<open>Every run file of the directory is open and listed, as after an open followed by flushes.\<close>

definition runs_listed :: "dir_codec \<Rightarrow> fact_indexes \<times> fs \<Rightarrow> bool" where
  "runs_listed D s \<longleftrightarrow> finite (dom (snd s)) \<and>
     (\<forall>p. snd s p \<noteq> None \<and> is_run_file p \<longrightarrow> (\<exists>run. run_open D p (snd s) = Inr run \<and>
        run \<in> set (fi_runs (fst s) (rd_order (ir_dir run))) \<and> ir_path run = p))"

lemma add_run_listed:
  assumes "add_run K D name M order s = Inr s'" "runs_listed D s" "idx_codec_ok K" "dir_codec_ok D"
    and "run_fits K D order (sorted_raws K order M)"
  shows "runs_listed D s'"
proof -
  let ?path = "run_path order name"
  let ?fs = "(snd s)(?path \<mapsto> write_run K D order M)"
  obtain run where run: "run_open D ?path ?fs = Inr run" "ir_path run = ?path" "rd_order (ir_dir run) = order"
    using run_open_write [OF assms(4,5,3), of ?fs ?path] by (auto simp: write_run_def run_rep_def)
  have s': "s' = (\<lparr>fi_runs = (fi_runs (fst s))(order := fi_runs (fst s) order @ [run])\<rparr>, ?fs)"
    using assms(1) run(1) by (simp add: add_run_def Let_def)
  have "\<exists>r. run_open D p ?fs = Inr r \<and> r \<in> set (fi_runs (fst s') (rd_order (ir_dir r))) \<and> ir_path r = p"
    if present: "?fs p \<noteq> None" "is_run_file p" for p
  proof (cases "p = ?path")
    case True
    then show ?thesis using run by (simp add: s')
  next
    case False
    then have "snd s p \<noteq> None" using present by simp
    then obtain r where "run_open D p (snd s) = Inr r" "r \<in> set (fi_runs (fst s) (rd_order (ir_dir r)))" "ir_path r = p"
      using assms(2) present(2) unfolding runs_listed_def by metis
    then show ?thesis using False run_open_cong [of "snd s" p ?fs D] by (auto simp: s')
  qed
  then show ?thesis using assms(2) by (simp add: runs_listed_def s')
qed

lemma demo_index:
  "\<exists>s. fi_holds demo_idx_codec s [demo_entry] \<and> runs_listed demo_dirs s"
proof -
  let ?s = "(\<lparr>fi_runs = (\<lambda>_. [])\<rparr>, Map.empty) :: fact_indexes \<times> fs"
  have D: "dir_codec_ok demo_dirs" by (simp add: demo_dirs_def Let_def demo_dir_codec_ok)
  obtain s' where s': "add_runs demo_idx_codec demo_dirs ''0'' [demo_entry] ?s = Inr s'"
    "fi_holds demo_idx_codec s' ([] @ [demo_entry])"
    using add_runs_holds [where name = "''0''", OF demo_idx_codec_ok D demo_run_fits _ _ empty_holds, of Map.empty]
    by (simp only: set_simps list.set demo_entry_fits ball_simps fact_indexes.simps fst_conv) auto
  obtain s1 s2 where steps: "add_run demo_idx_codec demo_dirs ''0'' [demo_entry] Eavt ?s = Inr s1"
    "add_run demo_idx_codec demo_dirs ''0'' [demo_entry] Aevt s1 = Inr s2"
    "add_run demo_idx_codec demo_dirs ''0'' [demo_entry] Avet s2 = Inr s'"
    using s'(1) by (auto simp: add_runs_def all_orders_def split: sum.splits)
  have l0: "runs_listed demo_dirs ?s" by (simp add: runs_listed_def)
  note step = add_run_listed [OF _ _ demo_idx_codec_ok D demo_run_fits]
  have "runs_listed demo_dirs s'"
    using step [OF steps(3) step [OF steps(2) step [OF steps(1) l0]]] .
  then show ?thesis using s'(2) append_Nil by metis
qed

section \<open>Properties of the indexes\<close>

text \<open>
  Keys are order-preserving.  With the escape-terminated encoding of the variable-length
  field, comparing concatenated keys byte by byte is comparing the fields as a tuple.
\<close>

theorem push_escaped_order:
  "push_escaped a @ x < push_escaped b @ y \<longleftrightarrow> a < b \<or> a = b \<and> x < y"
  by (rule push_escaped_append_less_iff)

text \<open>
  C40: A run file answers prefix scans exactly.  After a run is written from any entries and
  opened, the scan, which consults the Bloom filter, skips blocks by the hex keys of the
  directory, decodes delta-encoded keys and stops early, returns precisely the entries whose key
  starts with the prefix, in key order.
\<close>

theorem run_scan_exact:
  assumes "idx_codec_ok K" "dir_codec_ok D" "\<forall>e \<in> set entries. entry_fits e"
    and "run_fits K D order (sorted_raws K order entries)"
    and "fs path = Some (write_run K D order entries)"
  shows "\<exists>run. run_open D path fs = Inr run \<and>
    (\<forall>pre. run_scan K run fs pre =
       Inr (map snd (filter (\<lambda>r. in_prefix (fst r) pre) (sorted_raws K order entries))))"
proof -
  obtain run where run: "run_open D path fs = Inr run" "run_rep K order run fs (sorted_raws K order entries)"
    using run_open_write [OF assms(2,4,1)] assms(5) by (auto simp: write_run_def)
  then show ?thesis
    using run_scan_rep [OF assms(1) run(2)] sorted_raws_props [OF assms(3), of K order] raws_ok_lead by blast
qed

theorem run_scan_exact_witness:
  "\<exists>run. run_open demo_dirs ''r'' [''r'' \<mapsto> write_run demo_idx_codec demo_dirs Aevt [demo_entry]] = Inr run \<and>
    (\<forall>pre. run_scan demo_idx_codec run [''r'' \<mapsto> write_run demo_idx_codec demo_dirs Aevt [demo_entry]] pre =
       Inr (map snd (filter (\<lambda>r. in_prefix (fst r) pre) (sorted_raws demo_idx_codec Aevt [demo_entry]))))"
proof (rule run_scan_exact [OF demo_idx_codec_ok _ _ demo_run_fits])
  show "dir_codec_ok demo_dirs" by (simp add: demo_dirs_def Let_def demo_dir_codec_ok)
qed simp_all

text \<open>The entity filter never excludes an entity it was built from, also after it is read back.\<close>

theorem filter_no_false_negative:
  assumes "e \<in> set entities"
  shows "\<exists>f. hydrate ((filter_build entities hint)\<lparr>ef_words := []\<rparr>) = Some f \<and> may_contain f e"
  using hydrate_build filter_build_contains [OF assms] by blast

theorem filter_no_false_negative_witness:
  "\<exists>f. hydrate ((filter_build [5, 7] 2)\<lparr>ef_words := []\<rparr>) = Some f \<and> may_contain f 7"
  by (rule filter_no_false_negative) simp

text \<open>
  Flushing and compacting the LSM runs never changes an answer.  If the index set holds the
  history \<open>H\<close>, then after a flush of the entries \<open>M\<close> and a compaction of any sort order the
  entity scan gives the history of the entity in \<open>H @ M\<close> (every slot's entries of one
  transaction in their original order) and the attribute scan the entities carrying the attribute.
\<close>

theorem flush_and_merge_keep_answers:
  assumes "idx_codec_ok K" "dir_codec_ok D" "fi_holds K s H"
    and "\<And>o2. run_fits K D o2 (sorted_raws K o2 M)" "\<forall>e \<in> set M. entry_fits e"
    and "\<And>o2 run. run \<in> set (fi_runs (fst s) o2) \<Longrightarrow> ir_path run \<noteq> run_path o2 name"
    and "\<And>raws. mset raws = mset (List.map_filter (project K order) (H @ M)) \<Longrightarrow>
      run_fits K D order (sort_key fst raws)"
    and "a < 2 ^ 32"
  shows "\<exists>s1 s2 es as. add_runs K D name M s = Inr s1 \<and> merge_runs K D order s1 = Inr s2 \<and>
    fi_scan K (EntityPrefix u None) s2 = Inr es \<and>
    same_history es (filter (\<lambda>e. ie_entity e = u) (H @ M)) \<and>
    fi_scan K (AttrPrefix a) s2 = Inr as \<and>
    ie_entity ` set as = ie_entity ` {e \<in> set (H @ M). ie_attr e = a}"
proof -
  obtain s1 where s1: "add_runs K D name M s = Inr s1" "fi_holds K s1 (H @ M)"
    using add_runs_holds [OF assms(1,2,4,5,6,3)] by blast
  obtain s2 where s2: "merge_runs K D order s1 = Inr s2" "fi_holds K s2 (H @ M)"
    using merge_runs_holds [OF assms(1,2) s1(2) assms(7)] by blast
  show ?thesis
    using s1(1) s2(1) scan_entity_history [OF assms(1) s2(2), of u] scan_attr_entities [OF assms(1) s2(2) assms(8)]
    by blast
qed

theorem flush_and_merge_keep_answers_witness:
  "\<exists>s1 s2 es as. add_runs demo_idx_codec demo_dirs ''0'' [demo_entry] (\<lparr>fi_runs = (\<lambda>_. [])\<rparr>, Map.empty) = Inr s1 \<and>
    merge_runs demo_idx_codec demo_dirs Aevt s1 = Inr s2 \<and>
    fi_scan demo_idx_codec (EntityPrefix 5 None) s2 = Inr es \<and>
    same_history es (filter (\<lambda>e. ie_entity e = 5) ([] @ [demo_entry])) \<and>
    fi_scan demo_idx_codec (AttrPrefix 0) s2 = Inr as \<and>
    ie_entity ` set as = ie_entity ` {e \<in> set ([] @ [demo_entry]). ie_attr e = 0}"
proof (rule flush_and_merge_keep_answers [OF demo_idx_codec_ok _ empty_holds demo_run_fits])
  show "dir_codec_ok demo_dirs" by (simp add: demo_dirs_def Let_def demo_dir_codec_ok)
  fix raws :: "nat raw_record list"
  assume "mset raws = mset (List.map_filter (project demo_idx_codec Aevt) ([] @ [demo_entry]))"
  then have "sort_key fst raws = sorted_raws demo_idx_codec Aevt [demo_entry]"
    by (simp add: sorted_raws_def project_def List.map_filter_simps)
  then show "run_fits demo_idx_codec demo_dirs Aevt (sort_key fst raws)" using demo_run_fits by metis
qed simp_all

text \<open>
  Opening hides damage from the next open.  An open that meets an unreadable run reports it
  once and deletes the file; whatever that caller does with the report, the next open of the
  same directory finds nothing wrong, although the runs of the deleted file are gone.
\<close>

theorem second_open_reports_clean:
  assumes "finite (dom fs)" "fi_open D fs = (fi1, clean1, fs1)"
  shows "clean1 = (\<forall>p. fs p \<noteq> None \<and> is_run_file p \<longrightarrow> readable D fs p) \<and> fst (snd (fi_open D fs1))"
proof -
  have o1: "clean1 = (\<forall>p. fs p \<noteq> None \<and> is_run_file p \<longrightarrow> readable D fs p)"
    "fs1 = (\<lambda>p. if fs p \<noteq> None \<and> is_run_file p \<and> \<not> readable D fs p then None else fs p)"
    using fi_open_spec [OF assms(1), of D] assms(2) by auto
  have "dom fs1 \<subseteq> dom fs" by (auto simp: o1(2) split: if_splits)
  then have fin: "finite (dom fs1)" using assms(1) finite_subset by blast
  have "readable D fs1 p" if "fs1 p \<noteq> None" "is_run_file p" for p
  proof -
    have "fs1 p = fs p" "readable D fs p" using that by (auto simp: o1(2) split: if_splits)
    then show ?thesis using run_open_cong [of fs1 p fs D] by (simp add: readable_def)
  qed
  then have "fst (snd (fi_open D fs1))" using fi_open_spec [OF fin, of D] by auto
  then show ?thesis using o1(1) by blast
qed

theorem second_open_reports_clean_witness:
  "\<exists>fi1 fs1. fi_open demo_dirs [''eavt-0.run'' \<mapsto> [1, 2, 3]] = (fi1, False, fs1) \<and>
     fst (snd (fi_open demo_dirs fs1))"
proof -
  let ?fs = "[''eavt-0.run'' \<mapsto> [1, 2, 3]] :: fs"
  obtain fi1 clean1 fs1 where o: "fi_open demo_dirs ?fs = (fi1, clean1, fs1)" by (cases "fi_open demo_dirs ?fs")
  have "is_run_file ''eavt-0.run''" "\<not> readable demo_dirs ?fs ''eavt-0.run''"
    by (simp_all add: is_run_file_def suffix_def readable_def run_open_def)
  then show ?thesis using second_open_reports_clean [OF _ o] o by auto
qed

text \<open>
  A crash inside a compaction loses the runs of its order.  Between the removal of the old
  runs and the rename of the merged one, the directory opens as clean and holds no run of that
  order, so every entity scan is empty although the index set held a history.
\<close>

theorem crash_in_merge_loses_runs:
  assumes "idx_codec_ok K" "fi_holds K s H" "runs_listed D s"
  shows "\<exists>es fs1 fi fs2. fi_scan K (EntityPrefix u None) s = Inr es \<and>
    same_history es (filter (\<lambda>e. ie_entity e = u) H) \<and>
    merge_prepare K D Eavt s = Inr fs1 \<and> fi_open D fs1 = (fi, True, fs2) \<and>
    fi_scan K (EntityPrefix u None) (fi, fs2) = Inr []"
proof -
  obtain rss where rss: "order_rep K s Eavt rss" using fi_holdsE [OF assms(2), of Eavt] by metis
  let ?tmp = "run_path Eavt ''merged'' @ ''.tmp''"
  define fs1 where "fs1 = remove_runs (fi_runs (fst s) Eavt)
      ((snd s)(?tmp \<mapsto> write_run_raw K D Eavt (sort_key fst (concat rss))))"
  have prep: "merge_prepare K D Eavt s = Inr fs1"
    using merge_all_raw [OF assms(1) rss] by (simp add: merge_prepare_def fs1_def Let_def)
  have dom: "dom fs1 \<subseteq> insert ?tmp (dom (snd s))" by (auto simp: fs1_def remove_runs_apply split: if_splits)
  then have fin: "finite (dom fs1)" using assms(3) finite_subset unfolding runs_listed_def by blast
  have tmp: "\<not> is_run_file ?tmp" by (simp add: is_run_file_def suffix_def run_path_def)
  have open1: "\<exists>run. run_open D p fs1 = Inr run \<and> rd_order (ir_dir run) \<noteq> Eavt"
    if p: "fs1 p \<noteq> None" "is_run_file p" for p
  proof -
    have "p \<noteq> ?tmp" using p(2) tmp by blast
    then have eq: "fs1 p = snd s p" "p \<notin> ir_path ` set (fi_runs (fst s) Eavt)"
      using p(1) by (auto simp: fs1_def remove_runs_apply split: if_splits)
    then obtain run where "run_open D p (snd s) = Inr run" "run \<in> set (fi_runs (fst s) (rd_order (ir_dir run)))"
      "ir_path run = p" using assms(3) p unfolding runs_listed_def by auto
    then show ?thesis using eq run_open_cong [of fs1 p "snd s" D] by (metis image_eqI)
  qed
  obtain fi where fi: "fi_open D fs1 = (fi, (\<forall>p. fs1 p \<noteq> None \<and> is_run_file p \<longrightarrow> readable D fs1 p),
      (\<lambda>p. if fs1 p \<noteq> None \<and> is_run_file p \<and> \<not> readable D fs1 p then None else fs1 p))"
    "\<And>order run. run \<in> set (fi_runs fi order) \<longleftrightarrow>
      (\<exists>p. fs1 p \<noteq> None \<and> is_run_file p \<and> run_open D p fs1 = Inr run \<and> rd_order (ir_dir run) = order)"
    using fi_open_spec [OF fin, of D] by blast
  have clean: "(\<forall>p. fs1 p \<noteq> None \<and> is_run_file p \<longrightarrow> readable D fs1 p) = True"
    using open1 by (auto simp: readable_def)
  have "run \<notin> set (fi_runs fi Eavt)" for run
    unfolding fi(2) using open1 by fastforce
  then have "fi_runs fi Eavt = []" by (cases "fi_runs fi Eavt") auto
  then have scan2: "fi_scan K (EntityPrefix u None) (fi, fs2) = Inr []" for fs2
    by (simp add: fi_scan_def)
  obtain es where es: "fi_scan K (EntityPrefix u None) s = Inr es" "same_history es (filter (\<lambda>e. ie_entity e = u) H)"
    using scan_entity_history [OF assms(1,2), of u] by blast
  show ?thesis by (intro exI conjI) (rule es(1), rule es(2), rule prep, rule fi(1) [unfolded clean], rule scan2)
qed

theorem crash_in_merge_loses_runs_witness:
  "\<exists>s es fs1 fi fs2. fi_scan demo_idx_codec (EntityPrefix 5 None) s = Inr es \<and>
    same_history es [demo_entry] \<and> merge_prepare demo_idx_codec demo_dirs Eavt s = Inr fs1 \<and>
    fi_open demo_dirs fs1 = (fi, True, fs2) \<and> fi_scan demo_idx_codec (EntityPrefix 5 None) (fi, fs2) = Inr []"
proof -
  obtain s where s: "fi_holds demo_idx_codec s [demo_entry]" "runs_listed demo_dirs s" using demo_index by blast
  have "filter (\<lambda>e. ie_entity e = 5) [demo_entry] = [demo_entry]" by (simp add: demo_entry_def)
  then show ?thesis using crash_in_merge_loses_runs [OF demo_idx_codec_ok s, of 5] by metis
qed

end
