(* ===== verification/Fact_Ledger.thy ===== *)
theory Fact_Ledger
  imports Index
begin

text \<open>
  The fact engine behind the ledger API, \<open>ekos/crates/ledger/src/fact_ledger.rs\<close>: the state of
  an open handle, appends with idempotence, provenance, memtable, flush and checkpoints, and the
  reads that fold history.  The root directory and the \<open>indexes\<close> directory are two file maps.
  The full-text index is modelled as the documents it was told to hold; ranking is \<open>tantivy\<close>'s.
\<close>

section \<open>State of a handle\<close>

datatype entity_kind = KObject | KRelationship | KEvidence | KEvent

datatype ledger_error =
    LedgerCorrupt string
  | LedgerJson
  | LedgerIo string
  | LedgerNotFound
  | LedgerReadOnly
  | LedgerSqlite string
  | LedgerReadScope string
  | LedgerLocked string

fun from_segment_error :: "segment_error \<Rightarrow> ledger_error" where
  "from_segment_error (SegIo p) = LedgerIo p"
| "from_segment_error SegJson = LedgerJson"
| "from_segment_error (SegCorrupt m) = LedgerCorrupt m"
| "from_segment_error (SegBackend b) = LedgerCorrupt ''segment backend''"

record write_context =
  wc_run_id :: string
  wc_stage :: string
  wc_source :: "string option"

record search_doc =
  sd_name :: string
  sd_kind :: string
  sd_content :: string
  sd_memory :: bool

record 'n inner =
  in_store :: store
  in_runs :: fact_indexes
  in_marker :: "nat option"
  in_memtable :: "'n index_entry list"
  in_times :: "(nat \<times> int) list"
  in_sigs :: "uuid \<Rightarrow> string option"
  in_search :: "uuid \<Rightarrow> search_doc option"
  in_read_only :: bool
  in_checkpoints :: "uuid \<Rightarrow> (nat \<times> 'n fact list) list"
  in_write_ctx :: "write_context option"
  in_provenance :: "nat \<Rightarrow> write_context option"
  in_provenance_len :: nat

text \<open>An open handle with the root directory and the index directory it works on.\<close>

record 'n ledger =
  lg_inner :: "'n inner"
  lg_root :: fs
  lg_index :: fs

text \<open>
  What the source takes from other crates: the codecs of the storage layers, the text of
  \<open>serde_json\<close> for payloads, checkpoint lines and provenance lines, SHA-256 of canonical JSON, the
  iteration order of a \<open>HashMap\<close>, and the typed view of a payload (the JSON of the typed value,
  \<open>None\<close> when \<open>serde_json::from_value\<close> refuses it).
\<close>

record 'n ledger_env =
  le_seg :: "'n seg_codec"
  le_idx :: "'n idx_codec"
  le_dir :: dir_codec
  le_uuid :: uuid_text
  le_hash :: "'n json \<Rightarrow> string"
  le_cp_line :: "uuid \<times> nat \<times> 'n fact list \<Rightarrow> bytes"
  le_cp_parse :: "bytes \<Rightarrow> (uuid \<times> nat \<times> 'n fact list) option"
  le_pv_line :: "nat \<times> write_context \<Rightarrow> bytes"
  le_pv_parse :: "bytes \<Rightarrow> (nat \<times> write_context) option"
  le_order :: "uuid list \<Rightarrow> uuid list"
  le_typed :: "entity_kind \<Rightarrow> 'n json \<Rightarrow> 'n json option"
  le_indexed :: "'n json \<Rightarrow> (string \<times> bool) option"

definition kind_of_payload :: "'n json \<Rightarrow> entity_kind" where
  "kind_of_payload p =
     (if jget p ''from'' \<noteq> None \<and> jget p ''to'' \<noteq> None then KRelationship
      else if jget p ''fragment'' \<noteq> None then KEvidence
      else if jget p ''subject'' \<noteq> None then KEvent
      else KObject)"

definition MERGE_RUNS_AT :: nat where
  "MERGE_RUNS_AT = 8"

definition CHECKPOINT_INTERVAL :: nat where
  "CHECKPOINT_INTERVAL = 20"

definition U64_MAX :: nat where
  "U64_MAX = 2 ^ 64 - 1"

text \<open>The signature leaves out the volatile \<open>created_at\<close>.\<close>

definition content_signature :: "'n ledger_env \<Rightarrow> 'n json \<Rightarrow> string" where
  "content_signature E p =
     (case p of
        JObject m \<Rightarrow> le_hash E (JObject (filter (\<lambda>kv. fst kv \<noteq> ''created_at'') m))
      | _ \<Rightarrow> le_hash E p)"

section \<open>Sidecar files\<close>

definition newline :: byte where
  "newline = 10"

fun split_lines :: "bytes \<Rightarrow> bytes \<Rightarrow> bytes list" where
  "split_lines acc [] = (if acc = [] then [] else [acc])"
| "split_lines acc (b # bs) = (if b = newline then acc # split_lines [] bs else split_lines (acc @ [b]) bs)"

definition load_checkpoints :: "'n ledger_env \<Rightarrow> fs \<Rightarrow> uuid \<Rightarrow> (nat \<times> 'n fact list) list" where
  "load_checkpoints E root =
     fold (\<lambda>line out. case le_cp_parse E line of
             None \<Rightarrow> out
           | Some (entity, tx, facts) \<Rightarrow> out(entity := bt_insert tx facts (out entity)))
       (split_lines [] (file_bytes ''checkpoints.jsonl'' root)) (\<lambda>_. [])"

definition append_checkpoint ::
  "'n ledger_env \<Rightarrow> uuid \<Rightarrow> nat \<Rightarrow> 'n fact list \<Rightarrow> fs \<Rightarrow> fs" where
  "append_checkpoint E entity tx facts root =
     root(''checkpoints.jsonl'' \<mapsto> file_bytes ''checkpoints.jsonl'' root @ le_cp_line E (entity, tx, facts) @ [newline])"

text \<open>Only newline-terminated lines count; the first byte not consumed is returned.\<close>

definition whole_lines :: "bytes \<Rightarrow> nat" where
  "whole_lines bs = length bs - length (takeWhile (\<lambda>b. b \<noteq> newline) (rev bs))"

definition load_provenance_from ::
  "'n ledger_env \<Rightarrow> fs \<Rightarrow> nat \<Rightarrow> (nat \<Rightarrow> write_context option) \<times> nat" where
  "load_provenance_from E root from =
     (case root ''provenance.jsonl'' of
        None \<Rightarrow> (Map.empty, from)
      | Some file \<Rightarrow>
          (let bytes = drop from file;
               consumed = whole_lines bytes
           in (fold (\<lambda>line out. case le_pv_parse E line of
                       None \<Rightarrow> out
                     | Some (tx, ctx) \<Rightarrow> out(tx \<mapsto> ctx))
                 (split_lines [] (take consumed bytes)) Map.empty,
               from + consumed)))"

text \<open>The index marker is the text of the last transaction the runs cover.\<close>

definition bytes_str :: "bytes \<Rightarrow> string" where
  "bytes_str bs = map (\<lambda>b. char_of (unat b)) bs"

definition parse_u64 :: "string \<Rightarrow> nat option" where
  "parse_u64 s0 =
     (let s = (case s0 of [] \<Rightarrow> [] | c # cs \<Rightarrow> if c = CHR ''+'' then cs else s0)
      in if s \<noteq> [] \<and> list_all is_digit s \<and> nat_val s < 2 ^ 64 then Some (nat_val s) else None)"

definition read_marker :: "fs \<Rightarrow> nat option" where
  "read_marker index =
     (case index ''last_tx'' of None \<Rightarrow> None | Some b \<Rightarrow> parse_u64 (trim (bytes_str b)))"

definition write_marker :: "nat \<Rightarrow> fs \<Rightarrow> fs" where
  "write_marker tx index = index(''last_tx'' \<mapsto> str_bytes (show_nat tx))"

section \<open>Reading the history of an entity\<close>

definition entity_entries ::
  "'n ledger_env \<Rightarrow> 'n ledger \<Rightarrow> uuid \<Rightarrow> ledger_error + 'n index_entry list" where
  "entity_entries E s u =
     (case fi_scan (le_idx E) (EntityPrefix u None) (in_runs (lg_inner s), lg_index s) of
        Inl e \<Rightarrow> Inl (from_segment_error e)
      | Inr es \<Rightarrow> Inr (es @ filter (\<lambda>e. ie_entity e = u) (in_memtable (lg_inner s))))"

definition checkpoint_at :: "'n ledger \<Rightarrow> uuid \<Rightarrow> nat option \<Rightarrow> (nat \<times> 'n fact list) option" where
  "checkpoint_at s u till =
     (let applicable = filter (\<lambda>c. \<not> beyond till (fst c)) (in_checkpoints (lg_inner s) u)
      in if applicable = [] then None else Some (last applicable))"

definition state_at ::
  "'n ledger_env \<Rightarrow> 'n ledger \<Rightarrow> uuid \<Rightarrow> nat option \<Rightarrow> ledger_error + 'n fact list" where
  "state_at E s u till =
     (case entity_entries E s u of
        Inl e \<Rightarrow> Inl e
      | Inr entries \<Rightarrow>
          (case checkpoint_at s u till of
             Some (t, facts) \<Rightarrow> Inr (fold_state u (seeded t facts entries) till)
           | None \<Rightarrow> Inr (fold_state u entries till)))"

definition reconstruct_res :: "'n ledger_env \<Rightarrow> 'n ledger \<Rightarrow> 'n fact list \<Rightarrow> ledger_error + 'n json" where
  "reconstruct_res E s facts =
     (case reconstruct (le_uuid E) facts (mf_attributes (st_manifest (in_store (lg_inner s)))) of
        Inl _ \<Rightarrow> Inl (LedgerCorrupt ''facts do not reconstruct'')
      | Inr p \<Rightarrow> Inr p)"

definition reconstruct_at ::
  "'n ledger_env \<Rightarrow> 'n ledger \<Rightarrow> uuid \<Rightarrow> nat \<Rightarrow> ledger_error + 'n json option" where
  "reconstruct_at E s u till =
     (case state_at E s u (Some till) of
        Inl e \<Rightarrow> Inl e
      | Inr facts \<Rightarrow>
          if facts = [] then Inr None
          else (case reconstruct_res E s facts of Inl e \<Rightarrow> Inl e | Inr p \<Rightarrow> Inr (Some p)))"

definition distinct_txs :: "'n index_entry list \<Rightarrow> nat list" where
  "distinct_txs es = sorted_list_of_set (ie_tx ` set es)"

definition entity_history ::
  "'n ledger_env \<Rightarrow> 'n ledger \<Rightarrow> uuid \<Rightarrow> ledger_error + 'n json list" where
  "entity_history E s u =
     (case entity_entries E s u of
        Inl e \<Rightarrow> Inl e
      | Inr entries \<Rightarrow>
          map_res (reconstruct_res E s)
            (filter (\<lambda>facts. facts \<noteq> [])
               (map (\<lambda>t. fold_state u entries (Some t)) (distinct_txs entries))))"

definition all_payloads_at ::
  "'n ledger_env \<Rightarrow> 'n ledger \<Rightarrow> nat option \<Rightarrow> ledger_error + (uuid \<times> 'n json) list" where
  "all_payloads_at E s till =
     (case map_res (\<lambda>r. run_all (le_idx E) r (lg_index s)) (fi_runs (in_runs (lg_inner s)) Eavt) of
        Inl e \<Rightarrow> Inl (from_segment_error e)
      | Inr ess \<Rightarrow>
          (let entries = concat ess @ in_memtable (lg_inner s);
               states = map (\<lambda>u. (u, fold_state u (filter (\<lambda>e. ie_entity e = u) entries) till))
                          (le_order E (remdups (map ie_entity entries)))
           in map_res (\<lambda>(u, facts). case reconstruct_res E s facts of Inl e \<Rightarrow> Inl e | Inr p \<Rightarrow> Inr (u, p))
                (filter (\<lambda>(u, facts). facts \<noteq> []) states)))"

definition current_sig ::
  "'n ledger_env \<Rightarrow> uuid \<Rightarrow> 'n ledger \<Rightarrow> (ledger_error + string option) \<times> 'n ledger" where
  "current_sig E u s =
     (case in_sigs (lg_inner s) u of
        Some sig \<Rightarrow> (Inr (Some sig), s)
      | None \<Rightarrow>
          (case reconstruct_at E s u U64_MAX of
             Inl e \<Rightarrow> (Inl e, s)
           | Inr None \<Rightarrow> (Inr None, s)
           | Inr (Some p) \<Rightarrow>
               (let sig = content_signature E p
                in (Inr (Some sig),
                    s\<lparr>lg_inner := (lg_inner s)\<lparr>in_sigs := (in_sigs (lg_inner s))(u \<mapsto> sig)\<rparr>\<rparr>))))"

definition entities_with_attr ::
  "'n ledger_env \<Rightarrow> 'n ledger \<Rightarrow> string \<Rightarrow> ledger_error + uuid list" where
  "entities_with_attr E s path =
     (case reg_get (mf_attributes (st_manifest (in_store (lg_inner s)))) path of
        None \<Rightarrow> Inr []
      | Some a \<Rightarrow>
          (case fi_scan (le_idx E) (AttrPrefix a) (in_runs (lg_inner s), lg_index s) of
             Inl e \<Rightarrow> Inl (from_segment_error e)
           | Inr es \<Rightarrow>
               Inr (sorted_list_of_set (ie_entity ` set es \<union>
                 ie_entity ` {e \<in> set (in_memtable (lg_inner s)). ie_attr e = a}))))"

definition side_candidates ::
  "'n ledger_env \<Rightarrow> 'n ledger \<Rightarrow> uuid \<Rightarrow> string \<Rightarrow> ledger_error + uuid set" where
  "side_candidates E s node side =
     (case reg_get (mf_attributes (st_manifest (in_store (lg_inner s)))) side of
        None \<Rightarrow> Inr {}
      | Some a \<Rightarrow>
          (case fi_scan (le_idx E) (AttrValuePrefix a (FRef node)) (in_runs (lg_inner s), lg_index s) of
             Inl e \<Rightarrow> Inl (from_segment_error e)
           | Inr es \<Rightarrow>
               Inr (ie_entity ` set es \<union>
                 ie_entity ` {e \<in> set (in_memtable (lg_inner s)). ie_attr e = a \<and> ie_value e = FRef node})))"

definition relationship_candidates ::
  "'n ledger_env \<Rightarrow> 'n ledger \<Rightarrow> uuid \<Rightarrow> ledger_error + uuid list" where
  "relationship_candidates E s node =
     (case map_res (side_candidates E s node) [''from'', ''to''] of
        Inl e \<Rightarrow> Inl e
      | Inr sets \<Rightarrow> Inr (sorted_list_of_set (\<Union>(set sets))))"

section \<open>Writing\<close>

definition tx_name :: "nat \<Rightarrow> string" where
  "tx_name tx = pad_zero 12 (show_nat tx)"

text \<open>One sort order after a flush: compacted once more than \<open>MERGE_RUNS_AT\<close> runs are open.\<close>

definition compact_order ::
  "'n ledger_env \<Rightarrow> sort_order \<Rightarrow> fact_indexes \<times> fs \<Rightarrow> segment_error + fact_indexes \<times> fs" where
  "compact_order E order ix =
     (if MERGE_RUNS_AT < run_count (fst ix) order then merge_runs (le_idx E) (le_dir E) order ix else Inr ix)"

definition flush_memtable ::
  "'n ledger_env \<Rightarrow> nat \<Rightarrow> 'n ledger \<Rightarrow> (ledger_error + unit) \<times> 'n ledger" where
  "flush_memtable E up_to s =
     (let i = lg_inner s
      in if in_memtable i = [] then (Inr (), s)
         else
           (case add_runs (le_idx E) (le_dir E) (tx_name up_to) (in_memtable i) (in_runs i, lg_index s) of
              Inl e \<Rightarrow> (Inl (from_segment_error e), s)
            | Inr (runs, index) \<Rightarrow>
                (let index1 = write_marker up_to index;
                     s1 = s\<lparr>lg_inner := i\<lparr>in_runs := runs, in_marker := Some up_to, in_memtable := []\<rparr>,
                            lg_index := index1\<rparr>
                 in case fold_res (compact_order E) all_orders (runs, index1) of
                      Inl e \<Rightarrow> (Inl (from_segment_error e), s1)
                    | Inr (runs2, index2) \<Rightarrow>
                        (Inr (), s1\<lparr>lg_inner := (lg_inner s1)\<lparr>in_runs := runs2\<rparr>, lg_index := index2\<rparr>))))"

definition maybe_checkpoint ::
  "'n ledger_env \<Rightarrow> uuid \<Rightarrow> nat \<Rightarrow> 'n ledger \<Rightarrow> (ledger_error + unit) \<times> 'n ledger" where
  "maybe_checkpoint E u tx s =
     (case entity_entries E s u of
        Inl e \<Rightarrow> (Inl e, s)
      | Inr entries \<Rightarrow>
          (let since = (case checkpoint_at s u None of
                          Some (t, _) \<Rightarrow> filter (\<lambda>e. t < ie_tx e) entries
                        | None \<Rightarrow> entries)
           in if length (distinct_txs since) < CHECKPOINT_INTERVAL then (Inr (), s)
              else
                (case state_at E s u (Some tx) of
                   Inl e \<Rightarrow> (Inl e, s)
                 | Inr facts \<Rightarrow>
                     (let i = lg_inner s
                      in (Inr (),
                          s\<lparr>lg_root := append_checkpoint E u tx facts (lg_root s),
                            lg_inner := i\<lparr>in_checkpoints :=
                              (in_checkpoints i)(u := bt_insert tx facts (in_checkpoints i u))\<rparr>\<rparr>)))))"

definition str_field :: "'n json \<Rightarrow> string \<Rightarrow> string" where
  "str_field p k = (case Option.bind (jget p k) as_str of None \<Rightarrow> [] | Some v \<Rightarrow> v)"

text \<open>The document the full-text index is told to hold for an object.\<close>

definition index_object :: "'n ledger_env \<Rightarrow> uuid \<Rightarrow> 'n json \<Rightarrow> 'n inner \<Rightarrow> 'n inner" where
  "index_object E u p i =
     (let (content, memory) = (case le_indexed E p of None \<Rightarrow> ([], False) | Some c \<Rightarrow> c)
      in i\<lparr>in_search := (in_search i)(u \<mapsto>
             \<lparr>sd_name = str_field p ''name'', sd_kind = str_field p ''kind'', sd_content = content,
              sd_memory = memory\<rparr>)\<rparr>)"

definition record_provenance :: "'n ledger_env \<Rightarrow> nat \<Rightarrow> 'n ledger \<Rightarrow> 'n ledger" where
  "record_provenance E tx s =
     (case in_write_ctx (lg_inner s) of
        None \<Rightarrow> s
      | Some ctx \<Rightarrow>
          s\<lparr>lg_inner := (lg_inner s)\<lparr>in_provenance := (in_provenance (lg_inner s))(tx \<mapsto> ctx)\<rparr>,
            lg_root := (lg_root s)(''provenance.jsonl'' \<mapsto>
              file_bytes ''provenance.jsonl'' (lg_root s) @ le_pv_line E (tx, ctx) @ [newline])\<rparr>)"

text \<open>New attribute paths are made durable before a fact refers to them.\<close>

definition intern_attributes :: "'n ledger_env \<Rightarrow> registry \<Rightarrow> 'n ledger \<Rightarrow> 'n ledger" where
  "intern_attributes E reg s =
     (let st = in_store (lg_inner s);
          st1 = st\<lparr>st_manifest := (st_manifest st)\<lparr>mf_attributes := reg\<rparr>\<rparr>;
          grew = reg_len (mf_attributes (st_manifest st)) < reg_len reg
      in s\<lparr>lg_inner := (lg_inner s)\<lparr>in_store := st1\<rparr>,
           lg_root := (if grew then persist_manifest (le_seg E) st1 (lg_root s) else lg_root s)\<rparr>)"

text \<open>What follows the commit of the batch.\<close>

definition after_commit ::
  "'n ledger_env \<Rightarrow> uuid \<Rightarrow> 'n json \<Rightarrow> 'n ops \<Rightarrow> int \<Rightarrow> nat \<Rightarrow> 'n ledger \<Rightarrow> 'n ledger" where
  "after_commit E u p ops wall tx s0 =
     (let i0 = lg_inner s0;
          s1 = record_provenance E tx (s0\<lparr>lg_inner := i0\<lparr>in_times := in_times i0 @ [(tx, wall)]\<rparr>\<rparr>);
          i1 = lg_inner s1;
          i2 = i1\<lparr>in_memtable := in_memtable i1 @ map (\<lambda>(op, f). from_fact f tx op) ops,
                 in_sigs := (in_sigs i1)(u \<mapsto> content_signature E p)\<rparr>
      in s1\<lparr>lg_inner := (if kind_of_payload p = KObject then index_object E u p i2 else i2)\<rparr>)"

definition append_inner ::
  "'n ledger_env \<Rightarrow> uuid \<Rightarrow> 'n json \<Rightarrow> int \<Rightarrow> 'n ledger \<Rightarrow> (ledger_error + bool) \<times> 'n ledger" where
  "append_inner E u p wall s =
     (if in_read_only (lg_inner s) then (Inl LedgerReadOnly, s)
      else
        (case current_sig E u s of
           (Inl e, s1) \<Rightarrow> (Inl e, s1)
         | (Inr cur, s1) \<Rightarrow>
             if cur = Some (content_signature E p) then (Inr False, s1)
             else
               (case decompose (le_uuid E) u p (mf_attributes (st_manifest (in_store (lg_inner s1)))) of
                  Inl _ \<Rightarrow> (Inl (LedgerCorrupt ''payload does not decompose''), s1)
                | Inr (new, reg) \<Rightarrow>
                    (let s2 = intern_attributes E reg s1
                     in case state_at E s2 u None of
                          Inl e \<Rightarrow> (Inl e, s2)
                        | Inr old \<Rightarrow>
                            (let ops = diff old new
                             in case append_with_seal (le_seg E) ops wall (in_store (lg_inner s2)) (lg_root s2) of
                                  (Inl e, st, root) \<Rightarrow>
                                    (Inl (from_segment_error e),
                                     s2\<lparr>lg_inner := (lg_inner s2)\<lparr>in_store := st\<rparr>, lg_root := root\<rparr>)
                                | (Inr (tx, sealed), st, root) \<Rightarrow>
                                    (let s3 = after_commit E u p ops wall tx
                                           (s2\<lparr>lg_inner := (lg_inner s2)\<lparr>in_store := st\<rparr>, lg_root := root\<rparr>)
                                     in case (if sealed then flush_memtable E tx s3 else (Inr (), s3)) of
                                          (Inl e, s4) \<Rightarrow> (Inl e, s4)
                                        | (Inr _, s4) \<Rightarrow>
                                            (case maybe_checkpoint E u tx s4 of
                                               (Inl e, s5) \<Rightarrow> (Inl e, s5)
                                             | (Inr _, s5) \<Rightarrow> (Inr True, s5))))))))"

definition seal_and_flush :: "'n ledger_env \<Rightarrow> 'n ledger \<Rightarrow> (ledger_error + unit) \<times> 'n ledger" where
  "seal_and_flush E s =
     (case seal_active (le_seg E) (in_store (lg_inner s)) (lg_root s) of
        (Inl e, st, root) \<Rightarrow>
          (Inl (from_segment_error e), s\<lparr>lg_inner := (lg_inner s)\<lparr>in_store := st\<rparr>, lg_root := root\<rparr>)
      | (Inr _, st, root) \<Rightarrow>
          (let s1 = s\<lparr>lg_inner := (lg_inner s)\<lparr>in_store := st\<rparr>, lg_root := root\<rparr>
           in if in_times (lg_inner s1) = [] then (Inr (), s1)
              else flush_memtable E (fst (last (in_times (lg_inner s1)))) s1))"

section \<open>Typed reads, history, counters\<close>

definition typed_current ::
  "'n ledger_env \<Rightarrow> 'n ledger \<Rightarrow> uuid \<Rightarrow> entity_kind \<Rightarrow> ledger_error + 'n json option" where
  "typed_current E s u kind =
     (case reconstruct_at E s u U64_MAX of
        Inl e \<Rightarrow> Inl e
      | Inr None \<Rightarrow> Inr None
      | Inr (Some p) \<Rightarrow>
          if kind_of_payload p = kind
          then (case le_typed E kind p of None \<Rightarrow> Inl LedgerJson | Some v \<Rightarrow> Inr (Some v))
          else Inr None)"

definition typed_list ::
  "'n ledger_env \<Rightarrow> entity_kind \<Rightarrow> 'n json list \<Rightarrow> ledger_error + 'n json list" where
  "typed_list E kind ps =
     map_res (\<lambda>p. case le_typed E kind p of None \<Rightarrow> Inl LedgerJson | Some v \<Rightarrow> Inr v)
       (filter (\<lambda>p. kind_of_payload p = kind) ps)"

definition all_of_kind ::
  "'n ledger_env \<Rightarrow> 'n ledger \<Rightarrow> entity_kind \<Rightarrow> ledger_error + 'n json list" where
  "all_of_kind E s kind =
     (case all_payloads_at E s None of
        Inl e \<Rightarrow> Inl e
      | Inr ps \<Rightarrow> typed_list E kind (map snd ps))"

definition all_of_kind_at ::
  "'n ledger_env \<Rightarrow> 'n ledger \<Rightarrow> entity_kind \<Rightarrow> int \<Rightarrow> ledger_error + 'n json list" where
  "all_of_kind_at E s kind at =
     (case tx_at (in_times (lg_inner s)) at of
        None \<Rightarrow> Inr []
      | Some till \<Rightarrow>
          (case all_payloads_at E s (Some till) of
             Inl e \<Rightarrow> Inl e
           | Inr ps \<Rightarrow> typed_list E kind (map snd ps)))"

definition object_at ::
  "'n ledger_env \<Rightarrow> 'n ledger \<Rightarrow> uuid \<Rightarrow> int \<Rightarrow> ledger_error + 'n json option" where
  "object_at E s u at =
     (case tx_at (in_times (lg_inner s)) at of
        None \<Rightarrow> Inr None
      | Some till \<Rightarrow>
          (case reconstruct_at E s u till of
             Inl e \<Rightarrow> Inl e
           | Inr None \<Rightarrow> Inr None
           | Inr (Some p) \<Rightarrow>
               if kind_of_payload p = KObject
               then (case le_typed E KObject p of None \<Rightarrow> Inl LedgerJson | Some v \<Rightarrow> Inr (Some v))
               else Inr None))"

definition kind_history ::
  "'n ledger_env \<Rightarrow> 'n ledger \<Rightarrow> entity_kind \<Rightarrow> uuid \<Rightarrow> ledger_error + 'n json list" where
  "kind_history E s kind u =
     (case entity_history E s u of Inl e \<Rightarrow> Inl e | Inr ps \<Rightarrow> typed_list E kind ps)"

definition touches :: "'n ledger_env \<Rightarrow> uuid \<Rightarrow> 'n json \<Rightarrow> bool" where
  "touches E u p = list_ex (\<lambda>side. Option.bind (jget p side) as_str = Some (ushow (le_uuid E) u)) [''from'', ''to'']"

fun collect_some :: "('a \<Rightarrow> 'e + 'b option) \<Rightarrow> 'a list \<Rightarrow> 'e + 'b list" where
  "collect_some f [] = Inr []"
| "collect_some f (x # xs) =
     (case f x of
        Inl e \<Rightarrow> Inl e
      | Inr None \<Rightarrow> collect_some f xs
      | Inr (Some y) \<Rightarrow> (case collect_some f xs of Inl e \<Rightarrow> Inl e | Inr ys \<Rightarrow> Inr (y # ys)))"

definition rel_where ::
  "'n ledger_env \<Rightarrow> 'n ledger \<Rightarrow> ('n json \<Rightarrow> bool) \<Rightarrow> nat \<Rightarrow> uuid \<Rightarrow> ledger_error + 'n json option" where
  "rel_where E s P till rel =
     (case reconstruct_at E s rel till of
        Inl e \<Rightarrow> Inl e
      | Inr None \<Rightarrow> Inr None
      | Inr (Some p) \<Rightarrow>
          if P p \<and> kind_of_payload p = KRelationship
          then (case le_typed E KRelationship p of None \<Rightarrow> Inl LedgerJson | Some v \<Rightarrow> Inr (Some v))
          else Inr None)"

definition relationships_for ::
  "'n ledger_env \<Rightarrow> 'n ledger \<Rightarrow> uuid \<Rightarrow> ledger_error + 'n json list" where
  "relationships_for E s u =
     (case relationship_candidates E s u of
        Inl e \<Rightarrow> Inl e
      | Inr rels \<Rightarrow> collect_some (rel_where E s (touches E u) U64_MAX) rels)"

definition relationships_at ::
  "'n ledger_env \<Rightarrow> 'n ledger \<Rightarrow> uuid \<Rightarrow> int \<Rightarrow> ledger_error + 'n json list" where
  "relationships_at E s u at =
     (case tx_at (in_times (lg_inner s)) at of
        None \<Rightarrow> Inr []
      | Some till \<Rightarrow>
          (case relationship_candidates E s u of
             Inl e \<Rightarrow> Inl e
           | Inr rels \<Rightarrow> collect_some (rel_where E s (\<lambda>_. True) till) rels))"

record audit_record =
  au_written_at :: int
  au_ctx :: "write_context option"

definition audit_trail ::
  "'n ledger_env \<Rightarrow> 'n ledger \<Rightarrow> uuid \<Rightarrow> ledger_error + audit_record list" where
  "audit_trail E s u =
     (case entity_entries E s u of
        Inl e \<Rightarrow> Inl e
      | Inr entries \<Rightarrow>
          Inr (map (\<lambda>t. \<lparr>au_written_at = (case map_of (in_times (lg_inner s)) t of None \<Rightarrow> 0 | Some w \<Rightarrow> w),
                        au_ctx = in_provenance (lg_inner s) t\<rparr>)
                 (distinct_txs entries)))"

definition entry_count :: "'n ledger \<Rightarrow> nat" where
  "entry_count s = length (in_times (lg_inner s))"

definition attr_count :: "'n ledger_env \<Rightarrow> 'n ledger \<Rightarrow> string \<Rightarrow> ledger_error + nat" where
  "attr_count E s path = (case entities_with_attr E s path of Inl e \<Rightarrow> Inl e | Inr us \<Rightarrow> Inr (length us))"

definition object_count :: "'n ledger_env \<Rightarrow> 'n ledger \<Rightarrow> ledger_error + nat" where
  "object_count E s = attr_count E s ''name''"

definition relationship_count :: "'n ledger_env \<Rightarrow> 'n ledger \<Rightarrow> ledger_error + nat" where
  "relationship_count E s = attr_count E s ''from''"

definition evidence_count :: "'n ledger_env \<Rightarrow> 'n ledger \<Rightarrow> ledger_error + nat" where
  "evidence_count E s = attr_count E s ''fragment''"

section \<open>Diff and merge\<close>

definition current_kind ::
  "'n ledger_env \<Rightarrow> 'n ledger \<Rightarrow> uuid \<Rightarrow> ledger_error + entity_kind option" where
  "current_kind E s u =
     (case reconstruct_at E s u U64_MAX of
        Inl e \<Rightarrow> Inl e
      | Inr p \<Rightarrow> Inr (map_option kind_of_payload p))"

text \<open>Objects and relationships currently tracked.\<close>

definition self_counts :: "'n ledger_env \<Rightarrow> 'n ledger \<Rightarrow> ledger_error + nat" where
  "self_counts E s =
     (case map_res (\<lambda>attr. case entities_with_attr E s attr of
              Inl e \<Rightarrow> Inl e
            | Inr us \<Rightarrow>
                (case map_res (current_kind E s) us of
                   Inl e \<Rightarrow> Inl e
                 | Inr ks \<Rightarrow> Inr (length (filter (\<lambda>k. k = Some KObject \<or> k = Some KRelationship) ks))))
            [''name'', ''from''] of
        Inl e \<Rightarrow> Inl e
      | Inr ns \<Rightarrow> Inr (sum_list ns))"

record ledger_diff =
  ld_added :: "nat list"
  ld_touched :: "string list"
  ld_unchanged :: nat

definition diff_batch ::
  "'n ledger_env \<Rightarrow> 'n ledger \<Rightarrow> 'n batch \<Rightarrow> ledger_error + (nat \<times> uuid) option" where
  "diff_batch E s b =
     (case b_ops b of
        [] \<Rightarrow> Inr None
      | op # _ \<Rightarrow>
          (case current_kind E s (f_entity (snd op)) of
             Inl e \<Rightarrow> Inl e
           | Inr k \<Rightarrow> Inr (if k = Some KObject \<or> k = Some KRelationship
                          then Some (b_tx b, f_entity (snd op)) else None)))"

definition ledger_diff_between ::
  "'n ledger_env \<Rightarrow> 'n ledger \<Rightarrow> int \<Rightarrow> int \<Rightarrow> ledger_error + ledger_diff" where
  "ledger_diff_between E s from_us to_us =
     (let hdrs = in_times (lg_inner s);
          window_start = map_option fst (find (\<lambda>(_, w). w \<le> from_us) (rev hdrs));
          in_window = fst ` {p \<in> set hdrs. from_us < snd p \<and> snd p \<le> to_us}
      in case batches_after (le_seg E) window_start (in_store (lg_inner s)) (lg_root s) of
           Inl e \<Rightarrow> Inl (from_segment_error e)
         | Inr bs \<Rightarrow>
             (case collect_some (diff_batch E s) (filter (\<lambda>b. b_tx b \<in> in_window) bs) of
                Inl e \<Rightarrow> Inl e
              | Inr hits \<Rightarrow>
                  (case self_counts E s of
                     Inl e \<Rightarrow> Inl e
                   | Inr tracked \<Rightarrow>
                       (let ids = remdups (map (\<lambda>h. ushow (le_uuid E) (snd h)) hits)
                        in Inr \<lparr>ld_added = map fst hits, ld_touched = sort ids,
                                ld_unchanged = tracked - length ids\<rparr>))))"

record merge_report =
  mr_objects :: nat
  mr_relationships :: nat
  mr_conflicts :: "(string \<times> string) list"

text \<open>The id field of a typed object or relationship.\<close>

definition typed_id :: "'n ledger_env \<Rightarrow> 'n json \<Rightarrow> uuid" where
  "typed_id E v = (case Option.bind (Option.bind (jget v ''id'') as_str) (uparse (le_uuid E)) of
                     Some u \<Rightarrow> u | None \<Rightarrow> 0)"

definition merge_one ::
  "'n ledger_env \<Rightarrow> entity_kind \<Rightarrow> string \<Rightarrow> 'n json \<times> int \<Rightarrow>
   merge_report \<times> 'n ledger \<Rightarrow> ledger_error + merge_report \<times> 'n ledger" where
  "merge_one E kind reason vw rs =
     (let v = fst vw; u = typed_id E v
      in case typed_current E (snd rs) u kind of
           Inl e \<Rightarrow> Inl e
         | Inr None \<Rightarrow>
             (case append_inner E u v (snd vw) (snd rs) of
                (Inl e, s1) \<Rightarrow> Inl e
              | (Inr _, s1) \<Rightarrow>
                  Inr (if kind = KObject then (fst rs)\<lparr>mr_objects := mr_objects (fst rs) + 1\<rparr>
                       else (fst rs)\<lparr>mr_relationships := mr_relationships (fst rs) + 1\<rparr>, s1))
         | Inr (Some existing) \<Rightarrow>
             if content_signature E existing \<noteq> content_signature E v
             then Inr ((fst rs)\<lparr>mr_conflicts := mr_conflicts (fst rs) @ [(ushow (le_uuid E) u, reason)]\<rparr>, snd rs)
             else Inr rs)"

text \<open>
  The clock is read once per merged entity: \<open>walls\<close> gives the successive readings.
\<close>

definition merge_from ::
  "'n ledger_env \<Rightarrow> 'n ledger \<Rightarrow> int list \<Rightarrow> int list \<Rightarrow> 'n ledger \<Rightarrow>
   ledger_error + merge_report \<times> 'n ledger" where
  "merge_from E branch walls walls2 s =
     (case all_of_kind E branch KObject of
        Inl e \<Rightarrow> Inl e
      | Inr objs \<Rightarrow>
          (case fold_res (merge_one E KObject ''object diverged between branches'') (zip objs walls)
                  (\<lparr>mr_objects = 0, mr_relationships = 0, mr_conflicts = []\<rparr>, s) of
             Inl e \<Rightarrow> Inl e
           | Inr rs \<Rightarrow>
               (case all_of_kind E branch KRelationship of
                  Inl e \<Rightarrow> Inl e
                | Inr rels \<Rightarrow>
                    fold_res (merge_one E KRelationship ''relationship diverged between branches'')
                      (zip rels walls2) rs)))"

section \<open>Opening and refreshing a handle\<close>

definition build_inner ::
  "'n ledger_env \<Rightarrow> bool \<Rightarrow> store \<Rightarrow> fact_indexes \<Rightarrow> nat option \<Rightarrow> fs \<Rightarrow> ledger_error + 'n inner" where
  "build_inner E read_only st runs marker root =
     (case batch_headers (le_seg E) st root of
        Inl e \<Rightarrow> Inl (from_segment_error e)
      | Inr hdrs \<Rightarrow>
          (case batches_after (le_seg E) marker st root of
             Inl e \<Rightarrow> Inl (from_segment_error e)
           | Inr bs \<Rightarrow>
               (let (prov, len) = load_provenance_from E root 0
                in Inr \<lparr>in_store = st, in_runs = runs, in_marker = marker,
                        in_memtable = entries_from_batches bs, in_times = hdrs, in_sigs = Map.empty,
                        in_search = Map.empty, in_read_only = read_only,
                        in_checkpoints = load_checkpoints E root, in_write_ctx = None,
                        in_provenance = prov, in_provenance_len = len\<rparr>)))"

text \<open>
  A writable open.  Unreadable runs drop the whole index directory with its marker; the memtable
  then covers the whole history.
\<close>

definition open_writable ::
  "'n ledger_env \<Rightarrow> nat \<Rightarrow> fs \<Rightarrow> fs \<Rightarrow> ledger_error + 'n ledger" where
  "open_writable E seal root0 index0 =
     (case open_inner (le_seg E) seal False root0 of
        (Inl e, root) \<Rightarrow> Inl (from_segment_error e)
      | (Inr st, root) \<Rightarrow>
          (let (runs0, clean, index1) = fi_open (le_dir E) index0;
               marker0 = read_marker index1;
               (runs, marker, index) =
                 (if clean then (runs0, marker0, index1) else (\<lparr>fi_runs = (\<lambda>_. [])\<rparr>, None, Map.empty))
           in case build_inner E False st runs marker root of
                Inl e \<Rightarrow> Inl e
              | Inr i \<Rightarrow> Inr \<lparr>lg_inner = i, lg_root = root, lg_index = index\<rparr>))"

definition build_ro_inner ::
  "'n ledger_env \<Rightarrow> fs \<Rightarrow> fs \<Rightarrow> (ledger_error + 'n inner) \<times> fs" where
  "build_ro_inner E root index0 =
     (case fst (open_inner (le_seg E) SEGMENT_SEAL_BYTES True root) of
        Inl e \<Rightarrow> (Inl (from_segment_error e), index0)
      | Inr st \<Rightarrow>
          (let (runs, clean, index) = fi_open (le_dir E) index0
           in if \<not> clean then (Inl (LedgerCorrupt ''index runs need rebuilding''), index)
              else (build_inner E True st runs (read_marker index) root, index)))"

datatype refresh_outcome = Unchanged | Incremental nat | Reopened | Unsupported

definition rebuild_read_only ::
  "'n ledger_env \<Rightarrow> 'n ledger \<Rightarrow> (ledger_error + refresh_outcome) \<times> 'n ledger" where
  "rebuild_read_only E s =
     (case build_ro_inner E (lg_root s) (lg_index s) of
        (Inl e, index) \<Rightarrow> (Inl e, s\<lparr>lg_index := index\<rparr>)
      | (Inr i, index) \<Rightarrow> (Inr Reopened, s\<lparr>lg_inner := i, lg_index := index\<rparr>))"

text \<open>
  A read-only handle catches up with the writer; its \<open>lg_root\<close> and \<open>lg_index\<close> are what is on disk
  now.  The movement of the full-text reader is the argument \<open>search_moved\<close>.
\<close>

definition refresh_snapshot ::
  "'n ledger_env \<Rightarrow> bool \<Rightarrow> 'n ledger \<Rightarrow> (ledger_error + refresh_outcome) \<times> 'n ledger" where
  "refresh_snapshot E search_moved s =
     (let i = lg_inner s
      in if \<not> in_read_only i then (Inr Unchanged, s)
         else if read_marker (lg_index s) \<noteq> in_marker i then rebuild_read_only E s
         else
           (case refresh_read_only (le_seg E) (in_store i) (lg_root s) of
              (Inl e, st) \<Rightarrow> (Inl (from_segment_error e), s\<lparr>lg_inner := i\<lparr>in_store := st\<rparr>\<rparr>)
            | (Inr RefreshReopen, st) \<Rightarrow> rebuild_read_only E (s\<lparr>lg_inner := i\<lparr>in_store := st\<rparr>\<rparr>)
            | (Inr RefreshUnchanged, st) \<Rightarrow>
                (Inr (if search_moved then Incremental 0 else Unchanged), s\<lparr>lg_inner := i\<lparr>in_store := st\<rparr>\<rparr>)
            | (Inr (RefreshAdvanced bs), st) \<Rightarrow>
                (let (fresh, len) = load_provenance_from E (lg_root s) (in_provenance_len i)
                 in (Inr (Incremental (length bs)),
                     s\<lparr>lg_inner := i\<lparr>in_store := st,
                       in_times := in_times i @ map (\<lambda>b. (b_tx b, b_wall b)) bs,
                       in_memtable := in_memtable i @ entries_from_batches bs,
                       in_provenance := in_provenance i ++ fresh,
                       in_provenance_len := len\<rparr>\<rparr>))))"

end
