(* ===== verification/Kir.thy ===== *)
theory Kir
  imports Json Number_Text
begin

text \<open>
  The knowledge intermediate representation, \<open>kir/src/lib.rs\<close>, and the registry of custom object
  kinds, \<open>kir/src/custom_kinds.rs\<close>.

  The \<open>uuid\<close> crate is two parameters: \<open>v5\<close>, the name-based id of a seed in the URL namespace, and
  \<open>show_id\<close>, the text of an id.  A property map is a list in key order (its iteration order is
  never observed here).  A confidence is the bit pattern of its \<open>f32\<close>; \<open>clamp\<close> on it is a
  parameter.  Times are integers.
\<close>

type_synonym kir_id = "128 word"

section \<open>Kinds\<close>

datatype object_kind =
    KFile | KDirectory | KTable | KEntity | KService | KApi | KBusinessRule | KBusinessConcept | KDataset
  | KColumn | KPipeline | KDashboard | KPerson | KModel | KPrompt | KAgent | KUnknown
  | KCustom string

fun object_kind_display :: "object_kind \<Rightarrow> string" where
  "object_kind_display KFile = ''File''"
| "object_kind_display KDirectory = ''Directory''"
| "object_kind_display KTable = ''Table''"
| "object_kind_display KEntity = ''Entity''"
| "object_kind_display KService = ''Service''"
| "object_kind_display KApi = ''Api''"
| "object_kind_display KBusinessRule = ''BusinessRule''"
| "object_kind_display KBusinessConcept = ''BusinessConcept''"
| "object_kind_display KDataset = ''Dataset''"
| "object_kind_display KColumn = ''Column''"
| "object_kind_display KPipeline = ''Pipeline''"
| "object_kind_display KDashboard = ''Dashboard''"
| "object_kind_display KPerson = ''Person''"
| "object_kind_display KModel = ''Model''"
| "object_kind_display KPrompt = ''Prompt''"
| "object_kind_display KAgent = ''Agent''"
| "object_kind_display KUnknown = ''Unknown''"
| "object_kind_display (KCustom s) = s"

datatype relationship_kind =
    ForeignKey | Calls | Extends | DependsOn | OwnedBy | Contains | References | CoupledWith | RUnknown
  | RCustom string

fun relationship_kind_display :: "relationship_kind \<Rightarrow> string" where
  "relationship_kind_display ForeignKey = ''ForeignKey''"
| "relationship_kind_display Calls = ''Calls''"
| "relationship_kind_display Extends = ''Extends''"
| "relationship_kind_display DependsOn = ''DependsOn''"
| "relationship_kind_display OwnedBy = ''OwnedBy''"
| "relationship_kind_display Contains = ''Contains''"
| "relationship_kind_display References = ''References''"
| "relationship_kind_display CoupledWith = ''CoupledWith''"
| "relationship_kind_display RUnknown = ''Unknown''"
| "relationship_kind_display (RCustom s) = s"

definition relationship_kind_from_str :: "string \<Rightarrow> relationship_kind" where
  "relationship_kind_from_str s =
     (if eq_ignore_ascii_case s ''ForeignKey'' then ForeignKey
      else if eq_ignore_ascii_case s ''Calls'' then Calls
      else if eq_ignore_ascii_case s ''Extends'' then Extends
      else if eq_ignore_ascii_case s ''DependsOn'' then DependsOn
      else if eq_ignore_ascii_case s ''OwnedBy'' then OwnedBy
      else if eq_ignore_ascii_case s ''Contains'' then Contains
      else if eq_ignore_ascii_case s ''References'' then References
      else if eq_ignore_ascii_case s ''CoupledWith'' then CoupledWith
      else if eq_ignore_ascii_case s ''Unknown'' then RUnknown
      else RCustom s)"

datatype event_kind =
    Created | Modified | Deleted | Migrated | Deployed | Merged
  | ECustom string

section \<open>Objects\<close>

record source_location =
  sl_path :: string
  sl_line :: "nat option"
  sl_column :: "nat option"

definition location_file :: "string \<Rightarrow> source_location" where
  "location_file p = \<lparr>sl_path = p, sl_line = None, sl_column = None\<rparr>"

definition location_at :: "string \<Rightarrow> nat \<Rightarrow> source_location" where
  "location_at p l = \<lparr>sl_path = p, sl_line = Some l, sl_column = None\<rparr>"

record 'n kir_object =
  ko_id :: kir_id
  ko_name :: string
  ko_kind :: object_kind
  ko_properties :: "'n jmap"
  ko_evidence :: "kir_id list"
  ko_created_at :: int

text \<open>\<open>new\<close> takes the random id and the clock it reads as arguments.\<close>

definition object_new :: "kir_id \<Rightarrow> int \<Rightarrow> string \<Rightarrow> object_kind \<Rightarrow> 'n kir_object" where
  "object_new i now n k =
     \<lparr>ko_id = i, ko_name = n, ko_kind = k, ko_properties = [], ko_evidence = [], ko_created_at = now\<rparr>"

definition with_property :: "string \<Rightarrow> 'n json \<Rightarrow> 'n kir_object \<Rightarrow> 'n kir_object" where
  "with_property k v ob = ob\<lparr>ko_properties := bt_insert k v (ko_properties ob)\<rparr>"

definition with_evidence :: "kir_id \<Rightarrow> 'n kir_object \<Rightarrow> 'n kir_object" where
  "with_evidence e ob = ob\<lparr>ko_evidence := ko_evidence ob @ [e]\<rparr>"

definition prop_str :: "'n jmap \<Rightarrow> string \<Rightarrow> string option" where
  "prop_str m k = (case map_of m k of None \<Rightarrow> None | Some v \<Rightarrow> as_str v)"

definition text_of :: "'n jmap \<Rightarrow> string \<Rightarrow> string" where
  "text_of m k = (case prop_str m k of None \<Rightarrow> [] | Some s \<Rightarrow> s)"

definition strings_of :: "'n jmap \<Rightarrow> string \<Rightarrow> string" where
  "strings_of m k =
     (case map_of m k of
        None \<Rightarrow> []
      | Some v \<Rightarrow> (case as_array v of None \<Rightarrow> [] | Some xs \<Rightarrow> join_with '' '' (List.map_filter as_str xs)))"

definition indexed_content :: "'n kir_object \<Rightarrow> string" where
  "indexed_content ob =
     (let m = ko_properties ob
      in join_with '' '' (filter (\<lambda>s. s \<noteq> [])
        [text_of m ''excerpt'', strings_of m ''symbols'', text_of m ''ocr_text'', text_of m ''ai_overview'',
         text_of m ''ai_usage'', text_of m ''description'', text_of m ''signature'', strings_of m ''fields'',
         strings_of m ''synonyms'']))"

definition full_path :: "'n kir_object \<Rightarrow> string" where
  "full_path ob =
     (let m = ko_properties ob;
          project = (case prop_str m ''project'' of None \<Rightarrow> None | Some s \<Rightarrow> if s = [] then None else Some s);
          path = text_of m ''path''
      in case project of Some p \<Rightarrow> p @ ''/'' @ path | None \<Rightarrow> path)"

definition is_under_memory_path :: "'n kir_object \<Rightarrow> bool" where
  "is_under_memory_path ob \<longleftrightarrow> full_path ob = ''memory'' \<or> starts_with (full_path ob) ''memory/''"

definition UNCONFIRMED_OBJECT_STATUSES :: "string list" where
  "UNCONFIRMED_OBJECT_STATUSES = [''hypothesis'', ''needs_review'', ''rejected'', ''proposed'', ''unconfirmed'']"

definition is_unconfirmed_claim :: "'n kir_object \<Rightarrow> bool" where
  "is_unconfirmed_claim ob =
     (case prop_str (ko_properties ob) ''status'' of None \<Rightarrow> False | Some s \<Rightarrow> s \<in> set UNCONFIRMED_OBJECT_STATUSES)"

section \<open>Evidence\<close>

record kir_evidence =
  ke_id :: kir_id
  ke_location :: source_location
  ke_fragment :: string
  ke_confidence :: "32 word"
  ke_created_at :: int

definition show_opt_nat :: "nat option \<Rightarrow> string" where
  "show_opt_nat x = (case x of None \<Rightarrow> ''None'' | Some n \<Rightarrow> ''Some('' @ show_nat n @ '')'')"

definition content_id :: "(string \<Rightarrow> kir_id) \<Rightarrow> kir_evidence \<Rightarrow> kir_id" where
  "content_id v5 e =
     v5 (''evidence:'' @ sl_path (ke_location e) @ '':'' @ show_opt_nat (sl_line (ke_location e)) @ '':'' @
       show_opt_nat (sl_column (ke_location e)) @ '':'' @ show_nat (unat (ke_confidence e)) @ '':'' @ ke_fragment e)"

text \<open>\<open>0x3F800000\<close> is the bit pattern of \<open>1.0\<close>.\<close>

definition evidence_new :: "(string \<Rightarrow> kir_id) \<Rightarrow> int \<Rightarrow> source_location \<Rightarrow> string \<Rightarrow> kir_evidence" where
  "evidence_new v5 now loc frag =
     (let e = \<lparr>ke_id = 0, ke_location = loc, ke_fragment = frag, ke_confidence = 0x3F800000, ke_created_at = now\<rparr>
      in e\<lparr>ke_id := content_id v5 e\<rparr>)"

definition with_confidence ::
  "(string \<Rightarrow> kir_id) \<Rightarrow> (32 word \<Rightarrow> 32 word) \<Rightarrow> 32 word \<Rightarrow> kir_evidence \<Rightarrow> kir_evidence" where
  "with_confidence v5 clamp c e =
     (let derived = (ke_id e = content_id v5 e);
          e' = e\<lparr>ke_confidence := clamp c\<rparr>
      in if derived then e'\<lparr>ke_id := content_id v5 e'\<rparr> else e')"

section \<open>Relationships and events\<close>

record 'n kir_relationship =
  kr_id :: kir_id
  kr_kind :: relationship_kind
  kr_from :: kir_id
  kr_to :: kir_id
  kr_properties :: "'n jmap"
  kr_evidence :: "kir_id list"
  kr_created_at :: int
  kr_valid_from :: "int option"
  kr_valid_until :: "int option"

definition relationship_new :: "kir_id \<Rightarrow> int \<Rightarrow> relationship_kind \<Rightarrow> kir_id \<Rightarrow> kir_id \<Rightarrow> 'n kir_relationship" where
  "relationship_new i now k a b =
     \<lparr>kr_id = i, kr_kind = k, kr_from = a, kr_to = b, kr_properties = [], kr_evidence = [], kr_created_at = now,
      kr_valid_from = None, kr_valid_until = None\<rparr>"

definition relationship_seed :: "(kir_id \<Rightarrow> string) \<Rightarrow> relationship_kind \<Rightarrow> kir_id \<Rightarrow> kir_id \<Rightarrow> string \<Rightarrow> string" where
  "relationship_seed show_id k a b disc =
     ''rel:'' @ relationship_kind_display k @ '':'' @ show_id a @ '':'' @ show_id b @ '':'' @ disc"

definition relationship_deterministic ::
  "(string \<Rightarrow> kir_id) \<Rightarrow> (kir_id \<Rightarrow> string) \<Rightarrow> int \<Rightarrow> relationship_kind \<Rightarrow> kir_id \<Rightarrow> kir_id \<Rightarrow> string \<Rightarrow> 'n kir_relationship" where
  "relationship_deterministic v5 show_id now k a b disc =
     relationship_new (v5 (relationship_seed show_id k a b disc)) now k a b"

definition with_validity :: "int option \<Rightarrow> int option \<Rightarrow> 'n kir_relationship \<Rightarrow> 'n kir_relationship" where
  "with_validity a b r = r\<lparr>kr_valid_from := a, kr_valid_until := b\<rparr>"

definition is_pending_review :: "'n kir_relationship \<Rightarrow> bool" where
  "is_pending_review r =
     (case prop_str (kr_properties r) ''status'' of None \<Rightarrow> False | Some s \<Rightarrow> s \<noteq> ''confirmed'')"

definition is_doc_mention :: "'n kir_relationship \<Rightarrow> bool" where
  "is_doc_mention r =
     (case prop_str (kr_properties r) ''link_type'' of
        Some t \<Rightarrow>
          if t = ''code'' then True
          else if t = ''rfc'' then
            (case prop_str (kr_properties r) ''relation'' of None \<Rightarrow> True | Some s \<Rightarrow> s = ''mentions'')
          else False
      | None \<Rightarrow> False)"

record 'n kir_event =
  kv_id :: kir_id
  kv_kind :: event_kind
  kv_subject :: kir_id
  kv_payload :: "'n json"
  kv_evidence :: "kir_id list"
  kv_occurred_at :: int

record 'n kir_graph =
  kg_objects :: "'n kir_object list"
  kg_relationships :: "'n kir_relationship list"
  kg_events :: "'n kir_event list"
  kg_evidence :: "kir_evidence list"

definition graph_new :: "'n kir_graph" where
  "graph_new = \<lparr>kg_objects = [], kg_relationships = [], kg_events = [], kg_evidence = []\<rparr>"

definition add_object :: "'n kir_object \<Rightarrow> 'n kir_graph \<Rightarrow> 'n kir_graph \<times> kir_id" where
  "add_object ob g = (g\<lparr>kg_objects := kg_objects g @ [ob]\<rparr>, ko_id ob)"

definition add_evidence :: "kir_evidence \<Rightarrow> 'n kir_graph \<Rightarrow> 'n kir_graph \<times> kir_id" where
  "add_evidence e g = (g\<lparr>kg_evidence := kg_evidence g @ [e]\<rparr>, ke_id e)"

definition add_relationship :: "'n kir_relationship \<Rightarrow> 'n kir_graph \<Rightarrow> 'n kir_graph \<times> kir_id" where
  "add_relationship r g = (g\<lparr>kg_relationships := kg_relationships g @ [r]\<rparr>, kr_id r)"

definition graph_object :: "kir_id \<Rightarrow> 'n kir_graph \<Rightarrow> 'n kir_object option" where
  "graph_object i g = find (\<lambda>ob. ko_id ob = i) (kg_objects g)"

definition graph_evidence :: "kir_id \<Rightarrow> 'n kir_graph \<Rightarrow> kir_evidence option" where
  "graph_evidence i g = find (\<lambda>e. ke_id e = i) (kg_evidence g)"

section \<open>The registry of custom kinds\<close>

text \<open>Name and whether every instance is structurally keyed.\<close>

definition REGISTRY :: "(string \<times> bool) list" where
  "REGISTRY =
    [(''Section'', True), (''Page'', True), (''Document'', True), (''TransformNode'', True),
     (''RustModule'', True), (''RustSymbol'', True), (''PythonModule'', True),
     (''PythonSymbol'', True), (''ElixirModule'', True), (''ElixirSymbol'', True),
     (''Procedure'', True), (''ProcedureStatement'', True), (''View'', True),
     (''OssieModel'', True), (''OssieDataset'', True), (''OssieMetric'', True),
     (''Trigger'', True), (''EnumMeaning'', True), (''ConstraintCandidate'', True),
     (''SemanticGap'', True), (''ConceptConflict'', True), (''ConflictingEvidence'', True),
     (''RationaleLink'', True), (''PerlPackage'', True), (''PerlSymbol'', True),
     (''JavaType'', True), (''JavaMethod'', True), (''ModelTable'', True),
     (''OracleCatalog'', True), (''PostgresCatalog'', True), (''ClickHouseCatalog'', True),
     (''WriteBehaviour'', True), (''ReviewDecision'', True), (''SignOff'', True),
     (''Ticket'', True), (''SchemaChangeSet'', True), (''SchemaChange'', True),
     (''JsModule'', True), (''JsSymbol'', True), (''Crate'', True), (''Claim'', True),
     (''Session'', True), (''SessionClaim'', True), (''MigrationProject'', True),
     (''MigrationUnit'', True), (''MigrationConnectionRef'', True),
     (''MigrationTableProfile'', True), (''MigrationColumnProfile'', True),
     (''MigrationDrift'', True), (''MigrationFinding'', True), (''MigrationProposal'', True),
     (''MigrationApproval'', True), (''ArchitectureGap'', True), (''Risk'', True),
     (''Rollup'', True), (''BinaryAssembly'', True), (''BinaryType'', True),
     (''BinaryMethod'', True), (''BinaryField'', True), (''ExternalIoBoundary'', True),
     (''BinaryRule'', True), (''LakehousePipeline'', True), (''LakehouseTable'', True),
     (''LakehouseRun'', True), (''LakehouseChange'', True), (''LakehouseMetric'', True),
     (''LakehouseMart'', True), (''LakehouseApproval'', True), (''PentahoPackage'', True),
     (''PentahoJob'', True), (''PentahoTransformation'', True), (''PentahoStep'', True),
     (''PentahoJobEntry'', True), (''PentahoConnection'', True), (''PentahoTranslation'', True),
     (''ProjectSummary'', True), (''Concept'', False), (''Technology'', False),
     (''Issue'', False), (''PullRequest'', False), (''TreasuryPayment'', True),
     (''GovernanceProposal'', True)]"

definition lookup_kind :: "string \<Rightarrow> (string \<times> bool) option" where
  "lookup_kind n = find (\<lambda>k. fst k = n) REGISTRY"

definition is_structurally_keyed :: "string \<Rightarrow> bool" where
  "is_structurally_keyed n = (case lookup_kind n of None \<Rightarrow> False | Some k \<Rightarrow> snd k)"

definition is_session_object_kind :: "object_kind \<Rightarrow> bool" where
  "is_session_object_kind k =
     (case k of KCustom c \<Rightarrow> c = ''Session'' \<or> c = ''SessionClaim'' | _ \<Rightarrow> False)"

definition is_session_relationship_kind :: "relationship_kind \<Rightarrow> bool" where
  "is_session_relationship_kind k =
     (case k of RCustom c \<Rightarrow> c \<in> set [''AnchoredTo'', ''ObservedIn''] | _ \<Rightarrow> False)"


section \<open>Properties\<close>

text \<open>Being under \<open>memory/\<close> is decided by the first path segment, never by a substring.\<close>

lemma is_under_memory_path_segment:
  "is_under_memory_path ob \<longleftrightarrow> takeWhile (\<lambda>c. c \<noteq> CHR ''/'') (full_path ob) = ''memory''"
proof -
  have "s = ''memory'' \<or> starts_with s ''memory/'' \<longleftrightarrow> takeWhile (\<lambda>c. c \<noteq> CHR ''/'') s = ''memory''" for s
  proof
    assume "s = ''memory'' \<or> starts_with s ''memory/''"
    then show "takeWhile (\<lambda>c. c \<noteq> CHR ''/'') s = ''memory''" by (auto simp: starts_with_iff)
  next
    assume t: "takeWhile (\<lambda>c. c \<noteq> CHR ''/'') s = ''memory''"
    show "s = ''memory'' \<or> starts_with s ''memory/''"
    proof (cases "dropWhile (\<lambda>c. c \<noteq> CHR ''/'') s")
      case Nil
      then have "s = ''memory''" using t takeWhile_dropWhile_id [of "\<lambda>c. c \<noteq> CHR ''/''" s] by (metis append_Nil2)
      then show ?thesis ..
    next
      case (Cons c r)
      then have "c = CHR ''/''" using hd_dropWhile [of "\<lambda>c. c \<noteq> CHR ''/''" s] by simp
      then have "s = ''memory/'' @ r" using t Cons takeWhile_dropWhile_id [of "\<lambda>c. c \<noteq> CHR ''/''" s] by simp
      then show ?thesis by (simp only: starts_with_append simp_thms)
    qed
  qed
  then show ?thesis by (simp add: is_under_memory_path_def)
qed

text \<open>Evidence whose id was derived from its content keeps an id derived from its content.\<close>

lemma with_confidence_derived:
  "ke_id (with_confidence v5 clamp c e) =
     (if ke_id e = content_id v5 e then content_id v5 (with_confidence v5 clamp c e) else ke_id e)"
  by (simp add: with_confidence_def Let_def content_id_def)

definition BUILTIN_KINDS :: "string list" where
  "BUILTIN_KINDS = [''ForeignKey'', ''Calls'', ''Extends'', ''DependsOn'', ''OwnedBy'', ''Contains'', ''References'',
     ''CoupledWith'', ''Unknown'']"

lemma from_str_custom:
  "relationship_kind_from_str s = RCustom s \<longleftrightarrow> \<not> list_ex (eq_ignore_ascii_case s) BUILTIN_KINDS"
  by (auto simp: relationship_kind_from_str_def BUILTIN_KINDS_def)

text \<open>The part of an id's text that the seed relies on: fixed length.\<close>

definition id_text_ok :: "(kir_id \<Rightarrow> string) \<Rightarrow> bool" where
  "id_text_ok show_id \<longleftrightarrow> inj show_id \<and> (\<exists>n. \<forall>i. length (show_id i) = n)"

text \<open>
  The deterministic id of an edge identifies it: two edges get the same id exactly when they
  agree in the name of their kind, both endpoints and the discriminator, provided the name-based
  uuid does not collide and kind names contain no colon; so re-running a pass re-mints the same
  edges and never folds two different ones into one.
\<close>

theorem relationship_id_exact:
  assumes "inj_on v5 {relationship_seed show_id k a b disc, relationship_seed show_id k' a' b' disc'}"
    and "id_text_ok show_id"
    and "CHR '':'' \<notin> set (relationship_kind_display k)" and "CHR '':'' \<notin> set (relationship_kind_display k')"
  shows "kr_id (relationship_deterministic v5 show_id now k a b disc :: 'n kir_relationship) =
      kr_id (relationship_deterministic v5 show_id now' k' a' b' disc' :: 'n kir_relationship) \<longleftrightarrow>
    relationship_kind_display k = relationship_kind_display k' \<and> a = a' \<and> b = b' \<and> disc = disc'"
    (is "?l \<longleftrightarrow> ?r")
proof
  assume ?l
  then have "v5 (relationship_seed show_id k a b disc) = v5 (relationship_seed show_id k' a' b' disc')"
    by (simp add: relationship_deterministic_def relationship_new_def)
  then have "relationship_seed show_id k a b disc = relationship_seed show_id k' a' b' disc'"
    by (rule inj_onD [OF assms(1)]) simp_all
  then have s: "relationship_kind_display k @ CHR '':'' # (show_id a @ CHR '':'' # show_id b @ CHR '':'' # disc) =
      relationship_kind_display k' @ CHR '':'' # (show_id a' @ CHR '':'' # show_id b' @ CHR '':'' # disc')"
    by (simp add: relationship_seed_def)
  note t = split_at_sep [OF assms(3,4) s]
  obtain n where n: "\<And>i. length (show_id i) = n" and inj: "inj show_id"
    using assms(2) by (auto simp: id_text_ok_def)
  have "show_id a = show_id a'" "show_id b = show_id b'" "disc = disc'"
    using t n by (auto simp: append_eq_append_conv)
  then show ?r using t inj by (auto dest: injD)
next
  assume ?r
  then show ?l by (simp add: relationship_deterministic_def relationship_new_def relationship_seed_def)
qed

text \<open>Ids as binary digits.\<close>

definition binary_text :: "kir_id \<Rightarrow> string" where
  "binary_text i = map (\<lambda>k. if bit i k then CHR ''1'' else CHR ''0'') [0..<128]"

lemma binary_text_ok: "id_text_ok binary_text"
proof -
  have "i = j" if "binary_text i = binary_text j" for i j
  proof (rule bit_eqI)
    fix k assume "possible_bit TYPE(128 word) k"
    then have "k < 128" by (simp add: possible_bit_word)
    then have "binary_text i ! k = binary_text j ! k" "binary_text i ! k = (if bit i k then CHR ''1'' else CHR ''0'')"
      "binary_text j ! k = (if bit j k then CHR ''1'' else CHR ''0'')"
      using that by (simp_all add: binary_text_def)
    then show "bit i k = bit j k" by (auto split: if_splits)
  qed
  then have "inj binary_text" by (rule injI)
  moreover have "\<exists>n. \<forall>i. length (binary_text i) = n" by (auto simp: binary_text_def)
  ultimately show ?thesis unfolding id_text_ok_def by blast
qed

lemma relationship_id_exact_witness:
  "kr_id (relationship_deterministic (\<lambda>s. if s = relationship_seed binary_text Calls 1 2 [] then 7 else 8) binary_text 0 Calls 1 2 []
      :: nat kir_relationship) \<noteq>
   kr_id (relationship_deterministic (\<lambda>s. if s = relationship_seed binary_text Calls 1 2 [] then 7 else 8) binary_text 5 Calls 2 1 []
      :: nat kir_relationship)"
proof -
  let ?v = "\<lambda>s. if s = relationship_seed binary_text Calls 1 2 [] then 7 else 8 :: kir_id"
  have "inj_on ?v {relationship_seed binary_text Calls 1 2 [], relationship_seed binary_text Calls 2 1 []}"
    by (auto simp: inj_on_def)
  from relationship_id_exact [OF this binary_text_ok, of 0 5, where ?'n = nat] show ?thesis by simp
qed

end
