(* ===== verification/Knowledge_Store.thy ===== *)
theory Knowledge_Store
  imports Fact_Ledger Kir
begin

text \<open>
  The interface every consumer of knowledge reads through: the traits \<open>KnowledgeReader\<close> and
  \<open>KnowledgeStore\<close> of \<open>ledger/src/lib.rs\<close> with the types of \<open>retrieval.rs\<close>.  A \<open>dyn\<close> store is a
  record of its methods over a state \<open>'s\<close>; a read is a function of that state.  An \<open>f32\<close> or \<open>f64\<close>
  is its bit pattern, on which nothing here depends.
\<close>

section \<open>Retrieval types\<close>

record arm_set =
  arm_bm25 :: bool
  arm_vector :: bool

definition LEXICAL :: arm_set where
  "LEXICAL = \<lparr>arm_bm25 = True, arm_vector = False\<rparr>"

record retrieval_request =
  rr_raw :: string
  rr_keywords :: "string option"
  rr_query_embedding :: "32 word list option"
  rr_arms :: arm_set
  rr_per_arm_limit :: nat
  rr_limit :: nat

definition lexical :: "string \<Rightarrow> retrieval_request" where
  "lexical raw =
     \<lparr>rr_raw = raw, rr_keywords = None, rr_query_embedding = None, rr_arms = LEXICAL,
      rr_per_arm_limit = 50, rr_limit = 50\<rparr>"

definition bm25_query :: "retrieval_request \<Rightarrow> string" where
  "bm25_query q = (case rr_keywords q of None \<Rightarrow> rr_raw q | Some k \<Rightarrow> k)"

datatype signal_source = Bm25 | Bm25Relaxed | Vector | Graph | ExactName

record signal =
  sg_source :: signal_source
  sg_rank :: "32 word"
  sg_raw_score :: "32 word"

record arm_timing =
  at_source :: signal_source
  at_elapsed_ms :: "64 word"
  at_candidates :: nat

record hit =
  hi_id :: kir_id
  hi_name :: string
  hi_kind :: "object_kind option"
  hi_score :: "32 word"
  hi_signals :: "signal list"

record ranked_results =
  rk_hits :: "hit list"
  rk_arms_run :: arm_set
  rk_arm_timings :: "arm_timing list"

text \<open>\<open>score\<close> is \<open>1.0 / (RRF_K + rank)\<close> in \<open>f32\<close>.\<close>

definition from_ranked_pairs ::
  "(nat \<Rightarrow> 32 word) \<Rightarrow> (kir_id \<times> string) list \<Rightarrow> signal_source \<Rightarrow> nat \<Rightarrow> ranked_results" where
  "from_ranked_pairs score pairs src limit =
     \<lparr>rk_hits =
        map (\<lambda>(i, (u, n)).
           \<lparr>hi_id = u, hi_name = n, hi_kind = None, hi_score = score i,
            hi_signals = [\<lparr>sg_source = src, sg_rank = of_nat i, sg_raw_score = 0\<rparr>]\<rparr>)
          (enumerate 0 (take limit pairs)),
      rk_arms_run = LEXICAL, rk_arm_timings = []\<rparr>"

definition ranked_ids :: "ranked_results \<Rightarrow> kir_id list" where
  "ranked_ids r = map hi_id (rk_hits r)"

definition into_pairs :: "ranked_results \<Rightarrow> (kir_id \<times> string) list" where
  "into_pairs r = map (\<lambda>h. (hi_id h, hi_name h)) (rk_hits r)"

text \<open>A dotted path into the properties of an object; array positions are decimal \<open>usize\<close>.\<close>

fun split_on :: "char \<Rightarrow> string \<Rightarrow> string list" where
  "split_on d [] = [[]]"
| "split_on d (c # s) =
     (if c = d then [] # split_on d s
      else (case split_on d s of [] \<Rightarrow> [[c]] | w # ws \<Rightarrow> (c # w) # ws))"

text \<open>\<open>str::parse::<usize>\<close> also takes a leading plus sign.\<close>

definition parse_usize :: "string \<Rightarrow> nat option" where
  "parse_usize s = parse_unsigned (2 ^ 64) (case s of c # t \<Rightarrow> if c = CHR ''+'' \<and> t \<noteq> [] then t else s | [] \<Rightarrow> s)"

fun walk_fact :: "'n json \<Rightarrow> string list \<Rightarrow> 'n json option" where
  "walk_fact v [] = Some v"
| "walk_fact v (seg # segs) =
     (case v of
        JObject m \<Rightarrow> (case map_of m seg of None \<Rightarrow> None | Some w \<Rightarrow> walk_fact w segs)
      | JArray xs \<Rightarrow>
          (case parse_usize seg of
             None \<Rightarrow> None
           | Some i \<Rightarrow> if i < length xs then walk_fact (xs ! i) segs else None)
      | _ \<Rightarrow> None)"

definition resolve_fact :: "'n kir_object \<Rightarrow> string \<Rightarrow> 'n json option" where
  "resolve_fact ob attr =
     (let a = trim attr
      in if a = [] then None
         else if a = ''name'' then Some (JString (ko_name ob))
         else if a = ''kind'' then Some (JString (object_kind_display (ko_kind ob)))
         else (case split_on (CHR ''.'') a of
                 [] \<Rightarrow> None
               | seg # segs \<Rightarrow>
                   (case map_of (ko_properties ob) seg of None \<Rightarrow> None | Some v \<Rightarrow> walk_fact v segs)))"

section \<open>The store interface\<close>

record ('s, 'n) knowledge_store =
  ks_audit_trail :: "'s \<Rightarrow> kir_id \<Rightarrow> ledger_error + audit_record list"
  ks_get_object :: "'s \<Rightarrow> kir_id \<Rightarrow> ledger_error + 'n kir_object option"
  ks_get_evidence :: "'s \<Rightarrow> kir_id \<Rightarrow> ledger_error + kir_evidence option"
  ks_get_relationship :: "'s \<Rightarrow> kir_id \<Rightarrow> ledger_error + 'n kir_relationship option"
  ks_get_event :: "'s \<Rightarrow> kir_id \<Rightarrow> ledger_error + 'n kir_event option"
  ks_all_objects :: "'s \<Rightarrow> ledger_error + 'n kir_object list"
  ks_all_relationships :: "'s \<Rightarrow> ledger_error + 'n kir_relationship list"
  ks_relationships_for :: "'s \<Rightarrow> kir_id \<Rightarrow> ledger_error + 'n kir_relationship list"
  ks_object_at :: "'s \<Rightarrow> kir_id \<Rightarrow> int \<Rightarrow> ledger_error + 'n kir_object option"
  ks_relationships_at :: "'s \<Rightarrow> kir_id \<Rightarrow> int \<Rightarrow> ledger_error + 'n kir_relationship list"
  ks_all_objects_at :: "'s \<Rightarrow> int \<Rightarrow> ledger_error + 'n kir_object list"
  ks_all_relationships_at :: "'s \<Rightarrow> int \<Rightarrow> ledger_error + 'n kir_relationship list"
  ks_object_history :: "'s \<Rightarrow> kir_id \<Rightarrow> ledger_error + 'n kir_object list"
  ks_relationship_history :: "'s \<Rightarrow> kir_id \<Rightarrow> ledger_error + 'n kir_relationship list"
  ks_find_objects :: "'s \<Rightarrow> string \<Rightarrow> ledger_error + (kir_id \<times> string) list"
  ks_retrieve :: "'s \<Rightarrow> retrieval_request \<Rightarrow> ledger_error + ranked_results"
  ks_fact :: "'s \<Rightarrow> kir_id \<Rightarrow> string \<Rightarrow> ledger_error + 'n json option"
  ks_entry_count :: "'s \<Rightarrow> ledger_error + nat"
  ks_object_count :: "'s \<Rightarrow> ledger_error + nat"
  ks_relationship_count :: "'s \<Rightarrow> ledger_error + nat"
  ks_evidence_count :: "'s \<Rightarrow> ledger_error + nat"
  ks_diff :: "'s \<Rightarrow> int \<Rightarrow> int \<Rightarrow> ledger_error + ledger_diff"
  ks_refresh_snapshot :: "'s \<Rightarrow> (ledger_error + refresh_outcome) \<times> 's"
  ks_append_object :: "'n kir_object \<Rightarrow> 's \<Rightarrow> (ledger_error + bool) \<times> 's"
  ks_append_evidence :: "kir_evidence \<Rightarrow> 's \<Rightarrow> (ledger_error + unit) \<times> 's"
  ks_append_relationship :: "'n kir_relationship \<Rightarrow> 's \<Rightarrow> (ledger_error + bool) \<times> 's"
  ks_append_event :: "'n kir_event \<Rightarrow> 's \<Rightarrow> (ledger_error + unit) \<times> 's"
  ks_set_write_context :: "write_context option \<Rightarrow> 's \<Rightarrow> 's"
  ks_vacuum_into :: "string \<Rightarrow> 's \<Rightarrow> (ledger_error + unit) \<times> 's"

text \<open>The default methods of the trait.\<close>

definition default_retrieve ::
  "(nat \<Rightarrow> 32 word) \<Rightarrow> ('s, 'n) knowledge_store \<Rightarrow> 's \<Rightarrow> retrieval_request \<Rightarrow> ledger_error + ranked_results" where
  "default_retrieve score V s q =
     (case ks_find_objects V s (bm25_query q) of
        Inl e \<Rightarrow> Inl e
      | Inr pairs \<Rightarrow> Inr (from_ranked_pairs score pairs Bm25 (rr_limit q)))"

definition default_fact ::
  "('s, 'n) knowledge_store \<Rightarrow> 's \<Rightarrow> kir_id \<Rightarrow> string \<Rightarrow> ledger_error + 'n json option" where
  "default_fact V s i attr =
     (case ks_get_object V s i of
        Inl e \<Rightarrow> Inl e
      | Inr None \<Rightarrow> Inr None
      | Inr (Some ob) \<Rightarrow> Inr (resolve_fact ob attr))"

text \<open>
  What clients rely on in a store: an object is filed under its own id, and the bulk
  read returns current versions.
\<close>

definition store_consistent :: "('s, 'n) knowledge_store \<Rightarrow> 's \<Rightarrow> bool" where
  "store_consistent V s \<longleftrightarrow>
     (\<forall>i ob. ks_get_object V s i = Inr (Some ob) \<longrightarrow> ko_id ob = i) \<and>
     (\<forall>obs. ks_all_objects V s = Inr obs \<longrightarrow> (\<forall>ob \<in> set obs. ks_get_object V s (ko_id ob) = Inr (Some ob)))"

section \<open>A store in memory\<close>

text \<open>
  Stores given by lists: the current objects, the relationships, the evidence, and the versions the
  reads of the past return.
\<close>

definition list_store ::
  "'n kir_object list \<Rightarrow> 'n kir_relationship list \<Rightarrow> kir_evidence list \<Rightarrow> 'n kir_object list \<Rightarrow> (unit, 'n) knowledge_store" where
  "list_store obs rs evs past =
     \<lparr>ks_audit_trail = \<lambda>_ _. Inr [],
      ks_get_object = \<lambda>_ i. Inr (find (\<lambda>ob. ko_id ob = i) obs),
      ks_get_evidence = \<lambda>_ i. Inr (find (\<lambda>e. ke_id e = i) evs),
      ks_get_relationship = \<lambda>_ i. Inr (find (\<lambda>r. kr_id r = i) rs),
      ks_get_event = \<lambda>_ _. Inr None,
      ks_all_objects = \<lambda>_. Inr obs,
      ks_all_relationships = \<lambda>_. Inr rs,
      ks_relationships_for = \<lambda>_ i. Inr (filter (\<lambda>r. kr_from r = i \<or> kr_to r = i) rs),
      ks_object_at = \<lambda>_ i _. Inr (find (\<lambda>ob. ko_id ob = i) past),
      ks_relationships_at = \<lambda>_ i _. Inr (filter (\<lambda>r. kr_from r = i \<or> kr_to r = i) rs),
      ks_all_objects_at = \<lambda>_ _. Inr past,
      ks_all_relationships_at = \<lambda>_ _. Inr rs,
      ks_object_history = \<lambda>_ i. Inr (filter (\<lambda>ob. ko_id ob = i) (past @ obs)),
      ks_relationship_history = \<lambda>_ i. Inr (filter (\<lambda>r. kr_id r = i) rs),
      ks_find_objects = \<lambda>_ q. Inr (map (\<lambda>ob. (ko_id ob, ko_name ob)) (filter (\<lambda>ob. ko_name ob = q) obs)),
      ks_retrieve = \<lambda>_ _. Inr \<lparr>rk_hits = [], rk_arms_run = LEXICAL, rk_arm_timings = []\<rparr>,
      ks_fact = \<lambda>_ _ _. Inr None,
      ks_entry_count = \<lambda>_. Inr 0,
      ks_object_count = \<lambda>_. Inr (length obs),
      ks_relationship_count = \<lambda>_. Inr (length rs),
      ks_evidence_count = \<lambda>_. Inr (length evs),
      ks_diff = \<lambda>_ _ _. Inr \<lparr>ld_added = [], ld_touched = [], ld_unchanged = 0\<rparr>,
      ks_refresh_snapshot = \<lambda>u. (Inr Unsupported, u),
      ks_append_object = \<lambda>_ u. (Inl (LedgerReadOnly), u),
      ks_append_evidence = \<lambda>_ u. (Inl (LedgerReadOnly), u),
      ks_append_relationship = \<lambda>_ u. (Inl (LedgerReadOnly), u),
      ks_append_event = \<lambda>_ u. (Inl (LedgerReadOnly), u),
      ks_set_write_context = \<lambda>_ u. u,
      ks_vacuum_into = \<lambda>_ u. (Inl (LedgerReadOnly), u)\<rparr>"

definition plain_file :: "kir_id \<Rightarrow> string \<Rightarrow> nat kir_object" where
  "plain_file i name =
     \<lparr>ko_id = i, ko_name = name, ko_kind = KFile, ko_properties = [], ko_evidence = [], ko_created_at = 0\<rparr>"

end
