(* ===== verification/Partition.thy ===== *)
theory Partition
  imports Knowledge_Store
begin

text \<open>
  The partitioned ledger, \<open>ledger/src/partitioned/{types,mod,knowledge_store}.rs\<close>: knowledge routed
  by a dimension and a time bucket over many ledgers, with a persisted catalog of partitions and an
  append-only index from ids to partitions.

  A partition's ledger is a store of the interface \<open>Knowledge_Store\<close> in the directory of its root;
  opening a handle on it is a parameter.  A \<open>BTreeSet\<close> is an ascending list, a \<open>HashMap\<close> a list in
  key order whose iteration order, where it shows, is a parameter.  The text of the files is
  \<open>serde_json\<close>'s: \<open>catalog.json\<close> is a catalog, a run file a list of lines, a line that does not
  parse \<open>BadLine\<close>.  A failing write of either file is a flag of the environment, and an error
  carries the path but not the message of the operating system.
\<close>

section \<open>Keys\<close>

datatype partition_dimension = EntityKind | SourceScope | Composite

fun dimension_as_str :: "partition_dimension \<Rightarrow> string" where
  "dimension_as_str EntityKind = ''entity-kind''"
| "dimension_as_str SourceScope = ''source-scope''"
| "dimension_as_str Composite = ''composite''"

definition dimension_parse :: "string \<Rightarrow> partition_dimension option" where
  "dimension_parse s =
     (let t = map (\<lambda>c. if c = CHR ''_'' then CHR ''-'' else c) (lower (trim s))
      in if t = ''entity-kind'' then Some EntityKind
         else if t = ''source-scope'' then Some SourceScope
         else if t = ''composite'' then Some Composite
         else None)"

datatype time_bucket = Daily | Weekly | Monthly

text \<open>\<open>fmt\<close> is the formatting of a time by \<open>chrono\<close>.\<close>

fun bucket_label :: "(string \<Rightarrow> int \<Rightarrow> string) \<Rightarrow> time_bucket \<Rightarrow> int \<Rightarrow> string" where
  "bucket_label fmt Daily at = fmt ''%Y-%m-%d'' at"
| "bucket_label fmt Weekly at = fmt ''%G-W%V'' at"
| "bucket_label fmt Monthly at = fmt ''%Y-%m'' at"

definition bucket_parse :: "string \<Rightarrow> time_bucket option" where
  "bucket_parse s =
     (let t = lower (trim s)
      in if t = ''daily'' then Some Daily
         else if t = ''weekly'' then Some Weekly
         else if t = ''monthly'' then Some Monthly
         else None)"

fun bucket_as_str :: "time_bucket \<Rightarrow> string" where
  "bucket_as_str Daily = ''daily''"
| "bucket_as_str Weekly = ''weekly''"
| "bucket_as_str Monthly = ''monthly''"

datatype partition_key = PartitionKey (pk_time_bucket: string) (pk_dimension_value: string)

text \<open>The derived order: the time bucket first.\<close>

instantiation partition_key :: linorder
begin

definition less_eq_partition_key :: "partition_key \<Rightarrow> partition_key \<Rightarrow> bool" where
  "less_eq_partition_key a b \<longleftrightarrow> (pk_time_bucket a, pk_dimension_value a) \<le> (pk_time_bucket b, pk_dimension_value b)"

definition less_partition_key :: "partition_key \<Rightarrow> partition_key \<Rightarrow> bool" where
  "less_partition_key a b \<longleftrightarrow> (pk_time_bucket a, pk_dimension_value a) < (pk_time_bucket b, pk_dimension_value b)"

instance
proof
  fix a b c :: partition_key
  show "a \<le> b \<Longrightarrow> b \<le> a \<Longrightarrow> a = b"
    by (cases a; cases b) (auto simp: less_eq_partition_key_def)
  show "a \<le> b \<Longrightarrow> b \<le> c \<Longrightarrow> a \<le> c" unfolding less_eq_partition_key_def by (rule order_trans)
  show "a \<le> b \<or> b \<le> a" unfolding less_eq_partition_key_def by (rule linear)
  show "a < b \<longleftrightarrow> a \<le> b \<and> \<not> b \<le> a"
    unfolding less_eq_partition_key_def less_partition_key_def by (rule less_le_not_le)
qed (simp add: less_eq_partition_key_def)

end

section \<open>The catalog\<close>

datatype storage_tier = Hot | Cold

definition is_hot :: "storage_tier \<Rightarrow> bool" where
  "is_hot t \<longleftrightarrow> t = Hot"

record partition_entry =
  pe_key :: partition_key
  pe_root :: string
  pe_tier :: storage_tier

text \<open>The derived order of entries: key, root, tier.\<close>

definition entry_rank :: "partition_entry \<Rightarrow> partition_key \<times> string \<times> bool" where
  "entry_rank e = (pe_key e, pe_root e, pe_tier e = Cold)"

record partition_catalog =
  pc_dimension :: "string option"
  pc_time_bucket :: "string option"
  pc_partitions :: "partition_entry list"

definition catalog_default :: partition_catalog where
  "catalog_default = \<lparr>pc_dimension = None, pc_time_bucket = None, pc_partitions = []\<rparr>"

datatype partition_error =
    PartLedger partition_key ledger_error
  | PartCatalog string
  | PartCatalogParse string
  | UnresolvedSource kir_id
  | DimensionMismatch string string string

text \<open>Into the error of the store trait; \<open>show_error\<close> is the \<open>Display\<close> of the error.\<close>

fun to_ledger_error :: "(partition_error \<Rightarrow> string) \<Rightarrow> partition_error \<Rightarrow> ledger_error" where
  "to_ledger_error show_error (PartLedger k e) = e"
| "to_ledger_error show_error e = LedgerCorrupt (show_error e)"

definition EVENTS_DV :: string where
  "EVENTS_DV = ''events''"

definition EVIDENCE_DV :: string where
  "EVIDENCE_DV = ''evidence''"

definition is_relationship_partition :: "partition_key \<Rightarrow> bool" where
  "is_relationship_partition k \<longleftrightarrow> starts_with (pk_dimension_value k) ''rel:''"

definition is_object_partition :: "partition_key \<Rightarrow> bool" where
  "is_object_partition k \<longleftrightarrow>
     \<not> is_relationship_partition k \<and> pk_dimension_value k \<noteq> EVENTS_DV \<and> pk_dimension_value k \<noteq> EVIDENCE_DV"

section \<open>The index from ids to partitions\<close>

datatype index_kind = IxObj | IxRel | IxEndpoint | IxEvt | IxEvid

definition all_index_kinds :: "index_kind list" where
  "all_index_kinds = [IxObj, IxRel, IxEndpoint, IxEvt, IxEvid]"

datatype run_line = IndexLine index_kind kir_id partition_key | BlankLine | BadLine

record sites =
  si_partitions :: "partition_key list"
  si_complete :: bool

type_synonym index_maps = "index_kind \<Rightarrow> (kir_id \<times> sites) list"

definition sites_default :: sites where
  "sites_default = \<lparr>si_partitions = [], si_complete = False\<rparr>"

definition add_key :: "partition_key \<Rightarrow> sites \<Rightarrow> sites" where
  "add_key k s = s\<lparr>si_partitions := List.linorder_class.insort_insert k (si_partitions s)\<rparr>"

definition insert_site :: "(kir_id \<times> sites) list \<Rightarrow> kir_id \<Rightarrow> partition_key \<Rightarrow> (kir_id \<times> sites) list \<times> bool" where
  "insert_site m i k =
     (let s = (case map_of m i of None \<Rightarrow> \<lparr>si_partitions = [], si_complete = True\<rparr> | Some s \<Rightarrow> s)
      in (bt_insert i (add_key k s) m, k \<notin> set (si_partitions s)))"

definition maps_empty :: "index_maps \<Rightarrow> bool" where
  "maps_empty M \<longleftrightarrow> list_all (\<lambda>kind. M kind = []) all_index_kinds"

definition mark_all_complete :: "index_maps \<Rightarrow> index_maps" where
  "mark_all_complete M = (\<lambda>kind. map (\<lambda>(i, s). (i, s\<lparr>si_complete := True\<rparr>)) (M kind))"

text \<open>\<open>entry(id).or_default().partitions.insert(key)\<close>.\<close>

definition add_site :: "index_kind \<Rightarrow> kir_id \<Rightarrow> partition_key \<Rightarrow> index_maps \<Rightarrow> index_maps" where
  "add_site kind i k M =
     M(kind := bt_insert i (add_key k (case map_of (M kind) i of None \<Rightarrow> sites_default | Some s \<Rightarrow> s)) (M kind))"

text \<open>
  The lines of a full run, in the order of kind, id and key (the text of an id is a fixed number of
  hexadecimal digits, so its order is the order of the id).
\<close>

definition run_lines :: "index_maps \<Rightarrow> run_line list" where
  "run_lines M =
     concat (map (\<lambda>kind. concat (map (\<lambda>(i, s). map (IndexLine kind i) (si_partitions s)) (M kind))) all_index_kinds)"

fun fold_lines :: "run_line list \<Rightarrow> index_maps \<Rightarrow> index_maps" where
  "fold_lines [] M = M"
| "fold_lines (IndexLine kind i k # ls) M = fold_lines ls (add_site kind i k M)"
| "fold_lines (BlankLine # ls) M = fold_lines ls M"
| "fold_lines (BadLine # ls) M = M"

definition COMPACT_AT :: nat where
  "COMPACT_AT = 16"

section \<open>State\<close>

text \<open>What is on disk: \<open>catalog.json\<close>, the run files by number, and each directory's ledger.\<close>

datatype catalog_file = NoCatalog | CorruptCatalog | SavedCatalog partition_catalog

record 's partition_disk =
  pd_catalog :: catalog_file
  pd_runs :: "(nat \<times> run_line list option) list"
  pd_stores :: "string \<Rightarrow> 's"

text \<open>A handle adds its catalog, the roots of the open ledgers, the index and its run file.\<close>

record 's partitioned_ledger = "'s partition_disk" +
  pl_catalog :: partition_catalog
  pl_open :: "(partition_key \<times> string) list"
  pl_sites :: index_maps
  pl_next_run :: nat
  pl_current :: "nat option"

record ('s, 'n) partition_env =
  pv_root :: string
  pv_dimension :: partition_dimension
  pv_time_bucket :: time_bucket
  pv_format :: "string \<Rightarrow> int \<Rightarrow> string"
  pv_root_for :: "partition_key \<Rightarrow> string"
  pv_source_of :: "'n kir_object \<Rightarrow> string option"
  pv_read_only :: bool
  pv_store :: "('s, 'n) knowledge_store"
  pv_open :: "partition_key \<Rightarrow> string \<Rightarrow> bool \<Rightarrow> 's \<Rightarrow> ledger_error + 's"
  pv_catalog_fails :: bool
  pv_index_fails :: bool
  pv_hash_order :: "kir_id list \<Rightarrow> kir_id list"

definition catalog_path :: "('s, 'n) partition_env \<Rightarrow> string" where
  "catalog_path E = pv_root E @ ''/catalog.json''"

definition index_dir :: "('s, 'n) partition_env \<Rightarrow> string" where
  "index_dir E = pv_root E @ ''/index''"

section \<open>Opening\<close>

text \<open>Runs fold in the order of their numbers; a file that is not UTF-8 is an error.\<close>

fun fold_runs :: "string \<Rightarrow> (nat \<times> run_line list option) list \<Rightarrow> index_maps \<Rightarrow> partition_error + index_maps" where
  "fold_runs dir [] M = Inr M"
| "fold_runs dir ((n, None) # rs) M = Inl (PartCatalog dir)"
| "fold_runs dir ((n, Some ls) # rs) M = fold_runs dir rs (fold_lines ls M)"

definition load_index ::
  "string \<Rightarrow> (nat \<times> run_line list option) list \<Rightarrow> partition_error + index_maps \<times> nat \<times> nat list" where
  "load_index dir runs =
     (case fold_runs dir runs (\<lambda>_. []) of
        Inl e \<Rightarrow> Inl e
      | Inr M \<Rightarrow> Inr (M, (if runs = [] then 1 else fst (last runs) + 1), map fst runs))"

definition check_config :: "string \<Rightarrow> string option \<Rightarrow> string \<Rightarrow> partition_error + unit" where
  "check_config field stored requested =
     (case stored of
        Some v \<Rightarrow> if v \<noteq> requested then Inl (DimensionMismatch field v requested) else Inr ()
      | None \<Rightarrow> Inr ())"

definition pl_new ::
  "('s, 'n) partition_env \<Rightarrow> 's partition_disk \<Rightarrow> partition_error + 's partitioned_ledger" where
  "pl_new E d =
     (case (case pd_catalog d of
              NoCatalog \<Rightarrow> Inr catalog_default
            | CorruptCatalog \<Rightarrow> Inl (PartCatalogParse (catalog_path E))
            | SavedCatalog c \<Rightarrow> Inr c) of
        Inl e \<Rightarrow> Inl e
      | Inr c \<Rightarrow>
          (case check_config ''dimension'' (pc_dimension c) (dimension_as_str (pv_dimension E)) of
             Inl e \<Rightarrow> Inl e
           | Inr _ \<Rightarrow>
               (case check_config ''time-bucket'' (pc_time_bucket c) (bucket_as_str (pv_time_bucket E)) of
                  Inl e \<Rightarrow> Inl e
                | Inr _ \<Rightarrow>
                    (case load_index (index_dir E) (pd_runs d) of
                       Inl e \<Rightarrow> Inl e
                     | Inr (M, next_run, files) \<Rightarrow>
                         (let compact = COMPACT_AT \<le> length files \<and> \<not> maps_empty M
                          in if compact \<and> pv_index_fails E then Inl (PartCatalog (index_dir E))
                             else Inr
                               \<lparr>pd_catalog = pd_catalog d,
                                pd_runs = (if compact then [(next_run, Some (run_lines M))] else pd_runs d),
                                pd_stores = pd_stores d, pl_catalog = c, pl_open = [],
                                pl_sites = mark_all_complete M,
                                pl_next_run = (if compact then next_run + 1 else next_run),
                                pl_current = None\<rparr>)))))"

section \<open>Persisting\<close>

definition record_lines ::
  "('s, 'n) partition_env \<Rightarrow> index_kind \<Rightarrow> kir_id \<Rightarrow> partition_key list \<Rightarrow> 's partitioned_ledger \<Rightarrow>
   (partition_error + unit) \<times> 's partitioned_ledger" where
  "record_lines E kind i ks st =
     (if ks = [] \<or> pv_read_only E then (Inr (), st)
      else if pv_index_fails E then (Inl (PartCatalog (index_dir E)), st)
      else
        (let n = (case pl_current st of None \<Rightarrow> pl_next_run st | Some n \<Rightarrow> n);
             old = (case map_of (pd_runs st) n of None \<Rightarrow> Some [] | Some f \<Rightarrow> f)
         in (Inr (), st\<lparr>pd_runs := bt_insert n (map_option (\<lambda>ls. ls @ map (IndexLine kind i) ks) old) (pd_runs st),
                      pl_current := Some n\<rparr>)))"

definition persist_catalog ::
  "('s, 'n) partition_env \<Rightarrow> 's partitioned_ledger \<Rightarrow> (partition_error + unit) \<times> 's partitioned_ledger" where
  "persist_catalog E st =
     (if pv_catalog_fails E then (Inl (PartCatalog (catalog_path E @ ''.tmp'')), st)
      else (Inr (), st\<lparr>pd_catalog := SavedCatalog (pl_catalog st)\<rparr>))"

section \<open>Routing\<close>

definition key_for :: "('s, 'n) partition_env \<Rightarrow> 'n kir_object \<Rightarrow> partition_error + partition_key" where
  "key_for E ob =
     (case (case pv_dimension E of
              EntityKind \<Rightarrow> Inr (object_kind_display (ko_kind ob))
            | SourceScope \<Rightarrow>
                (case pv_source_of E ob of None \<Rightarrow> Inl (UnresolvedSource (ko_id ob)) | Some src \<Rightarrow> Inr src)
            | Composite \<Rightarrow>
                (case pv_source_of E ob of
                   None \<Rightarrow> Inl (UnresolvedSource (ko_id ob))
                 | Some src \<Rightarrow> Inr (src @ CHR 0x1F # object_kind_display (ko_kind ob)))) of
        Inl e \<Rightarrow> Inl e
      | Inr v \<Rightarrow> Inr (PartitionKey (bucket_label (pv_format E) (pv_time_bucket E) (ko_created_at ob)) v))"

definition relationship_key_for :: "('s, 'n) partition_env \<Rightarrow> 'n kir_relationship \<Rightarrow> partition_key" where
  "relationship_key_for E r =
     PartitionKey (bucket_label (pv_format E) (pv_time_bucket E) (kr_created_at r))
       (''rel:'' @ relationship_kind_display (kr_kind r))"

definition events_key :: "('s, 'n) partition_env \<Rightarrow> int \<Rightarrow> partition_key" where
  "events_key E at = PartitionKey (bucket_label (pv_format E) (pv_time_bucket E) at) EVENTS_DV"

definition evidence_key :: "('s, 'n) partition_env \<Rightarrow> int \<Rightarrow> partition_key" where
  "evidence_key E at = PartitionKey (bucket_label (pv_format E) (pv_time_bucket E) at) EVIDENCE_DV"

section \<open>Partitions\<close>

text \<open>The cold entry of \<open>k\<close>, if it is one, becomes hot.\<close>

fun promote_entry :: "partition_key \<Rightarrow> partition_entry list \<Rightarrow> partition_entry list" where
  "promote_entry k [] = []"
| "promote_entry k (e # es) = (if pe_key e = k then e\<lparr>pe_tier := Hot\<rparr> # es else e # promote_entry k es)"

definition promote :: "partition_key \<Rightarrow> partition_catalog \<Rightarrow> partition_catalog" where
  "promote k c = c\<lparr>pc_partitions := promote_entry k (pc_partitions c)\<rparr>"

definition add_partition ::
  "('s, 'n) partition_env \<Rightarrow> partition_key \<Rightarrow> string \<Rightarrow> partition_catalog \<Rightarrow> partition_catalog" where
  "add_partition E k root c =
     \<lparr>pc_dimension = (case pc_dimension c of None \<Rightarrow> Some (dimension_as_str (pv_dimension E)) | d \<Rightarrow> d),
      pc_time_bucket = (case pc_time_bucket c of None \<Rightarrow> Some (bucket_as_str (pv_time_bucket E)) | b \<Rightarrow> b),
      pc_partitions = sort_key entry_rank (pc_partitions c @ [\<lparr>pe_key = k, pe_root = root, pe_tier = Hot\<rparr>])\<rparr>"

definition find_entry :: "partition_key \<Rightarrow> partition_catalog \<Rightarrow> partition_entry option" where
  "find_entry k c = find (\<lambda>e. pe_key e = k) (pc_partitions c)"

definition locate_partition ::
  "('s, 'n) partition_env \<Rightarrow> partition_key \<Rightarrow> bool \<Rightarrow> 's partitioned_ledger \<Rightarrow>
   (partition_error + string) \<times> 's partitioned_ledger" where
  "locate_partition E k register st =
     (let c = pl_catalog st
      in case find_entry k c of
           Some e \<Rightarrow>
             if pe_tier e = Cold \<and> \<not> pv_read_only E
             then st_bind (persist_catalog E) (\<lambda>_. st_ret (pe_root e)) (st\<lparr>pl_catalog := promote k c\<rparr>)
             else (Inr (pe_root e), st)
         | None \<Rightarrow>
             (let root = pv_root_for E k
              in if register
                 then st_bind (persist_catalog E) (\<lambda>_. st_ret root) (st\<lparr>pl_catalog := add_partition E k root c\<rparr>)
                 else (Inr root, st)))"

definition open_partition ::
  "('s, 'n) partition_env \<Rightarrow> partition_key \<Rightarrow> string \<Rightarrow> 's partitioned_ledger \<Rightarrow>
   (partition_error + string) \<times> 's partitioned_ledger" where
  "open_partition E k root st =
     (case pv_open E k root (pv_read_only E) (pd_stores st root) of
        Inl e \<Rightarrow> (Inl (PartLedger k e), st)
      | Inr s \<Rightarrow>
          (Inr root, st\<lparr>pd_stores := (pd_stores st)(root := s), pl_open := bt_insert k root (pl_open st)\<rparr>))"

text \<open>The ledger of a key, by the root its handle works in.\<close>

definition pl_partition ::
  "('s, 'n) partition_env \<Rightarrow> partition_key \<Rightarrow> bool \<Rightarrow> 's partitioned_ledger \<Rightarrow>
   (partition_error + string) \<times> 's partitioned_ledger" where
  "pl_partition E k register st =
     (case map_of (pl_open st) k of
        Some root \<Rightarrow> (Inr root, st)
      | None \<Rightarrow> st_bind (locate_partition E k (register \<and> \<not> pv_read_only E)) (open_partition E k) st)"

fun st_map :: "('a \<Rightarrow> 't \<Rightarrow> ('e + 'b) \<times> 't) \<Rightarrow> 'a list \<Rightarrow> 't \<Rightarrow> ('e + 'b list) \<times> 't" where
  "st_map f [] = st_ret []"
| "st_map f (x # xs) = st_bind (f x) (\<lambda>y. st_bind (st_map f xs) (\<lambda>ys. st_ret (y # ys)))"

definition catalog_snapshot_where ::
  "('s, 'n) partition_env \<Rightarrow> (partition_key \<Rightarrow> bool) \<Rightarrow> 's partitioned_ledger \<Rightarrow>
   (partition_error + (partition_key \<times> string) list) \<times> 's partitioned_ledger" where
  "catalog_snapshot_where E P st =
     st_map (\<lambda>k. st_bind (pl_partition E k False) (\<lambda>root. st_ret (k, root)))
       (sort (map pe_key (filter (\<lambda>e. P (pe_key e)) (pc_partitions (pl_catalog st))))) st"

definition catalog_snapshot ::
  "('s, 'n) partition_env \<Rightarrow> string option \<Rightarrow> 's partitioned_ledger \<Rightarrow>
   (partition_error + (partition_key \<times> string) list) \<times> 's partitioned_ledger" where
  "catalog_snapshot E scope = catalog_snapshot_where E (\<lambda>k. case scope of None \<Rightarrow> True | Some v \<Rightarrow> pk_dimension_value k = v)"

text \<open>A read of the ledger in a root, and a write of it; \<open>k\<close> names the partition in an error.\<close>

definition ledger_read ::
  "partition_key \<Rightarrow> ('s \<Rightarrow> ledger_error + 'a) \<Rightarrow> string \<Rightarrow> 's partitioned_ledger \<Rightarrow>
   (partition_error + 'a) \<times> 's partitioned_ledger" where
  "ledger_read k f root st =
     (case f (pd_stores st root) of Inl e \<Rightarrow> (Inl (PartLedger k e), st) | Inr x \<Rightarrow> (Inr x, st))"

definition ledger_write ::
  "partition_key \<Rightarrow> ('s \<Rightarrow> (ledger_error + 'a) \<times> 's) \<Rightarrow> string \<Rightarrow> 's partitioned_ledger \<Rightarrow>
   (partition_error + 'a) \<times> 's partitioned_ledger" where
  "ledger_write k f root st =
     (case f (pd_stores st root) of
        (Inl e, s) \<Rightarrow> (Inl (PartLedger k e), st\<lparr>pd_stores := (pd_stores st)(root := s)\<rparr>)
      | (Inr x, s) \<Rightarrow> (Inr x, st\<lparr>pd_stores := (pd_stores st)(root := s)\<rparr>))"

section \<open>Where an id lives\<close>

definition no_key :: partition_key where
  "no_key = PartitionKey [] []"

text \<open>One scan of the partitions of the class for \<open>i\<close>; the pairs it finds are recorded.\<close>

definition scan_sites ::
  "('s, 'n) partition_env \<Rightarrow> index_kind \<Rightarrow> (partition_key \<Rightarrow> bool) \<Rightarrow> ('s \<Rightarrow> kir_id \<Rightarrow> ledger_error + bool) \<Rightarrow>
   kir_id \<Rightarrow> 's partitioned_ledger \<Rightarrow> (partition_error + partition_key list) \<times> 's partitioned_ledger" where
  "scan_sites E kind P present i =
     st_bind (catalog_snapshot_where E P) (\<lambda>hs.
     st_bind (st_filter (\<lambda>(k, root). ledger_read no_key (\<lambda>s. present s i) root) hs) (\<lambda>found st.
       let keys = map fst found;
           known = (case map_of (pl_sites st kind) i of None \<Rightarrow> [] | Some s \<Rightarrow> si_partitions s)
       in st_bind (record_lines E kind i (filter (\<lambda>k. k \<notin> set known) keys)) (\<lambda>_ st.
            let old = (case map_of (pl_sites st kind) i of None \<Rightarrow> sites_default | Some s \<Rightarrow> s);
                s = (fold add_key keys old)\<lparr>si_complete := True\<rparr>
            in (Inr (si_partitions s), st\<lparr>pl_sites := (pl_sites st)(kind := bt_insert i s (pl_sites st kind))\<rparr>)) st))"

definition resolve_sites ::
  "('s, 'n) partition_env \<Rightarrow> index_kind \<Rightarrow> (partition_key \<Rightarrow> bool) \<Rightarrow> ('s \<Rightarrow> kir_id \<Rightarrow> ledger_error + bool) \<Rightarrow>
   kir_id \<Rightarrow> 's partitioned_ledger \<Rightarrow> (partition_error + partition_key list) \<times> 's partitioned_ledger" where
  "resolve_sites E kind P present i st =
     (case map_of (pl_sites st kind) i of
        Some s \<Rightarrow> if si_complete s then (Inr (si_partitions s), st) else scan_sites E kind P present i st
      | None \<Rightarrow> scan_sites E kind P present i st)"

definition found_some :: "('s \<Rightarrow> kir_id \<Rightarrow> ledger_error + 'a option) \<Rightarrow> 's \<Rightarrow> kir_id \<Rightarrow> ledger_error + bool" where
  "found_some f s i = (case f s i of Inl e \<Rightarrow> Inl e | Inr x \<Rightarrow> Inr (x \<noteq> None))"

definition found_any :: "('s \<Rightarrow> kir_id \<Rightarrow> ledger_error + 'a list) \<Rightarrow> 's \<Rightarrow> kir_id \<Rightarrow> ledger_error + bool" where
  "found_any f s i = (case f s i of Inl e \<Rightarrow> Inl e | Inr xs \<Rightarrow> Inr (xs \<noteq> []))"

definition obj_sites where
  "obj_sites E = resolve_sites E IxObj (\<lambda>_. True) (found_some (ks_get_object (pv_store E)))"

definition rel_id_sites where
  "rel_id_sites E = resolve_sites E IxRel is_relationship_partition (found_some (ks_get_relationship (pv_store E)))"

definition endpoint_sites where
  "endpoint_sites E =
     resolve_sites E IxEndpoint is_relationship_partition (found_any (ks_relationships_for (pv_store E)))"

definition evt_id_sites where
  "evt_id_sites E =
     resolve_sites E IxEvt (\<lambda>k. pk_dimension_value k = EVENTS_DV) (found_some (ks_get_event (pv_store E)))"

definition evid_id_sites where
  "evid_id_sites E =
     resolve_sites E IxEvid (\<lambda>k. pk_dimension_value k = EVIDENCE_DV) (found_some (ks_get_evidence (pv_store E)))"

section \<open>Appends\<close>

text \<open>A pair new to the index is recorded, after the ledger took the write.\<close>

definition note_site ::
  "('s, 'n) partition_env \<Rightarrow> index_kind \<Rightarrow> kir_id \<Rightarrow> partition_key \<Rightarrow> 's partitioned_ledger \<Rightarrow>
   (partition_error + unit) \<times> 's partitioned_ledger" where
  "note_site E kind i k st =
     (let (m, is_new) = insert_site (pl_sites st kind) i k;
          st1 = st\<lparr>pl_sites := (pl_sites st)(kind := m)\<rparr>
      in if is_new then record_lines E kind i [k] st1 else (Inr (), st1))"

definition pl_append_object ::
  "('s, 'n) partition_env \<Rightarrow> 'n kir_object \<Rightarrow> 's partitioned_ledger \<Rightarrow> (partition_error + bool) \<times> 's partitioned_ledger" where
  "pl_append_object E ob =
     st_bind (st_lift (key_for E ob)) (\<lambda>k.
     st_bind (pl_partition E k True) (\<lambda>root.
     st_bind (ledger_write k (ks_append_object (pv_store E) ob) root) (\<lambda>result.
     st_bind (note_site E IxObj (ko_id ob) k) (\<lambda>_. st_ret result))))"

definition pl_append_relationship ::
  "('s, 'n) partition_env \<Rightarrow> 'n kir_relationship \<Rightarrow> 's partitioned_ledger \<Rightarrow>
   (partition_error + bool) \<times> 's partitioned_ledger" where
  "pl_append_relationship E r =
     (let k = relationship_key_for E r
      in st_bind (pl_partition E k True) (\<lambda>root.
         st_bind (ledger_write k (ks_append_relationship (pv_store E) r) root) (\<lambda>result.
         st_bind (note_site E IxRel (kr_id r) k) (\<lambda>_.
         st_bind (note_site E IxEndpoint (kr_from r) k) (\<lambda>_.
         st_bind (note_site E IxEndpoint (kr_to r) k) (\<lambda>_. st_ret result))))))"

definition pl_append_event ::
  "('s, 'n) partition_env \<Rightarrow> 'n kir_event \<Rightarrow> 's partitioned_ledger \<Rightarrow> (partition_error + unit) \<times> 's partitioned_ledger" where
  "pl_append_event E ev =
     (let k = events_key E (kv_occurred_at ev)
      in st_bind (pl_partition E k True) (\<lambda>root.
         st_bind (ledger_write k (ks_append_event (pv_store E) ev) root) (\<lambda>_.
         note_site E IxEvt (kv_id ev) k)))"

definition pl_append_evidence ::
  "('s, 'n) partition_env \<Rightarrow> kir_evidence \<Rightarrow> 's partitioned_ledger \<Rightarrow> (partition_error + unit) \<times> 's partitioned_ledger" where
  "pl_append_evidence E ev =
     (let k = evidence_key E (ke_created_at ev)
      in st_bind (pl_partition E k True) (\<lambda>root.
         st_bind (ledger_write k (ks_append_evidence (pv_store E) ev) root) (\<lambda>_.
         note_site E IxEvid (ke_id ev) k)))"

section \<open>Reads\<close>

text \<open>A read of one partition, opened for it.\<close>

definition read_partition ::
  "('s, 'n) partition_env \<Rightarrow> ('s \<Rightarrow> ledger_error + 'a) \<Rightarrow> partition_key \<Rightarrow> 's partitioned_ledger \<Rightarrow>
   (partition_error + 'a) \<times> 's partitioned_ledger" where
  "read_partition E f k = st_bind (pl_partition E k False) (ledger_read k f)"

text \<open>The current version is in the greatest key.\<close>

definition read_newest ::
  "('s, 'n) partition_env \<Rightarrow> ('s \<Rightarrow> ledger_error + 'a option) \<Rightarrow> partition_key list \<Rightarrow> 's partitioned_ledger \<Rightarrow>
   (partition_error + 'a option) \<times> 's partitioned_ledger" where
  "read_newest E f ks = (if ks = [] then st_ret None else read_partition E f (last ks))"

definition pl_get_object where
  "pl_get_object E i = st_bind (obj_sites E i) (read_newest E (\<lambda>s. ks_get_object (pv_store E) s i))"

definition pl_get_relationship where
  "pl_get_relationship E i = st_bind (rel_id_sites E i) (read_newest E (\<lambda>s. ks_get_relationship (pv_store E) s i))"

definition pl_get_event where
  "pl_get_event E i = st_bind (evt_id_sites E i) (read_newest E (\<lambda>s. ks_get_event (pv_store E) s i))"

definition pl_get_evidence where
  "pl_get_evidence E i = st_bind (evid_id_sites E i) (read_newest E (\<lambda>s. ks_get_evidence (pv_store E) s i))"

definition read_all ::
  "('s, 'n) partition_env \<Rightarrow> ('s \<Rightarrow> ledger_error + 'a list) \<Rightarrow> partition_key list \<Rightarrow> 's partitioned_ledger \<Rightarrow>
   (partition_error + 'a list) \<times> 's partitioned_ledger" where
  "read_all E f ks = st_bind (st_map (read_partition E f) ks) (\<lambda>xss. st_ret (concat xss))"

definition pl_object_history where
  "pl_object_history E i = st_bind (obj_sites E i) (read_all E (\<lambda>s. ks_object_history (pv_store E) s i))"

definition pl_relationship_history where
  "pl_relationship_history E i = st_bind (rel_id_sites E i) (read_all E (\<lambda>s. ks_relationship_history (pv_store E) s i))"

text \<open>One row per id, the last one wins; the rows come in the iteration order of a \<open>HashMap\<close>.\<close>

definition dedup_last :: "('s, 'n) partition_env \<Rightarrow> ('a \<Rightarrow> kir_id) \<Rightarrow> 'a list \<Rightarrow> 'a list" where
  "dedup_last E ident xs =
     (let by_id = map_of (rev (map (\<lambda>x. (ident x, x)) xs))
      in map (\<lambda>i. the (by_id i)) (pv_hash_order E (remdups (map ident xs))))"

definition dedup_current :: "('s, 'n) partition_env \<Rightarrow> 'n kir_object list \<Rightarrow> 'n kir_object list" where
  "dedup_current E = dedup_last E ko_id"

definition dedup_current_rels :: "('s, 'n) partition_env \<Rightarrow> 'n kir_relationship list \<Rightarrow> 'n kir_relationship list" where
  "dedup_current_rels E = dedup_last E kr_id"

definition pl_relationships_for where
  "pl_relationships_for E i =
     st_bind (endpoint_sites E i) (\<lambda>ks.
     st_bind (read_all E (\<lambda>s. ks_relationships_for (pv_store E) s i) ks) (\<lambda>rs. st_ret (dedup_current_rels E rs)))"

text \<open>A fan-out: the partitions of the class are opened, then read in key order.\<close>

definition fan_out ::
  "('s, 'n) partition_env \<Rightarrow> (partition_key \<Rightarrow> bool) \<Rightarrow> ('s \<Rightarrow> ledger_error + 'a) \<Rightarrow> 's partitioned_ledger \<Rightarrow>
   (partition_error + 'a list) \<times> 's partitioned_ledger" where
  "fan_out E P f = st_bind (catalog_snapshot_where E P) (st_map (\<lambda>(k, root). ledger_read k f root))"

definition pl_all_relationships where
  "pl_all_relationships E =
     st_bind (fan_out E is_relationship_partition (ks_all_relationships (pv_store E)))
       (\<lambda>rss. st_ret (dedup_current_rels E (concat rss)))"

definition pl_relationship_count where
  "pl_relationship_count E = st_bind (pl_all_relationships E) (\<lambda>rs. st_ret (length rs))"

definition pl_evidence_count where
  "pl_evidence_count E =
     st_bind (fan_out E (\<lambda>k. pk_dimension_value k = EVIDENCE_DV) (ks_evidence_count (pv_store E)))
       (\<lambda>ns. st_ret (sum_list ns))"

section \<open>The past\<close>

text \<open>From the newest partition down, the first that knew a version at \<open>at\<close>.\<close>

fun object_at_down ::
  "('s, 'n) partition_env \<Rightarrow> kir_id \<Rightarrow> int \<Rightarrow> partition_key list \<Rightarrow> 's partitioned_ledger \<Rightarrow>
   (partition_error + 'n kir_object option) \<times> 's partitioned_ledger" where
  "object_at_down E i at [] = st_ret None"
| "object_at_down E i at (k # ks) =
     st_bind (read_partition E (\<lambda>s. ks_object_at (pv_store E) s i at) k) (\<lambda>found.
       case found of Some ob \<Rightarrow> st_ret (Some ob) | None \<Rightarrow> object_at_down E i at ks)"

definition pl_object_at where
  "pl_object_at E i at = st_bind (obj_sites E i) (\<lambda>ks. object_at_down E i at (rev ks))"

definition pl_all_objects_at where
  "pl_all_objects_at E at =
     st_bind (fan_out E is_object_partition (\<lambda>s. ks_all_objects_at (pv_store E) s at))
       (\<lambda>obs. st_ret (dedup_current E (concat obs)))"

definition pl_relationships_at where
  "pl_relationships_at E i at =
     st_bind (endpoint_sites E i) (\<lambda>ks.
     st_bind (read_all E (\<lambda>s. ks_relationships_at (pv_store E) s i at) ks) (\<lambda>rs. st_ret (dedup_current_rels E rs)))"

definition pl_all_relationships_at where
  "pl_all_relationships_at E at =
     st_bind (fan_out E is_relationship_partition (\<lambda>s. ks_all_relationships_at (pv_store E) s at))
       (\<lambda>rss. st_ret (dedup_current_rels E (concat rss)))"

section \<open>Search, counts, differences\<close>

text \<open>Hits of every hot object partition, the first of each id.\<close>

fun fresh_hits :: "kir_id set \<Rightarrow> (kir_id \<times> string) list \<Rightarrow> (kir_id \<times> string) list" where
  "fresh_hits seen [] = []"
| "fresh_hits seen ((i, name) # hs) =
     (if i \<in> seen then fresh_hits seen hs else (i, name) # fresh_hits (insert i seen) hs)"

definition pl_find_objects where
  "pl_find_objects E query st =
     (let hot = map pe_key (filter (\<lambda>e. pe_tier e = Hot \<and> is_object_partition (pe_key e)) (pc_partitions (pl_catalog st)))
      in st_bind (read_all E (\<lambda>s. ks_find_objects (pv_store E) s query) hot) (\<lambda>hs. st_ret (fresh_hits {} hs)) st)"

definition pl_entry_count where
  "pl_entry_count E = st_bind (fan_out E (\<lambda>_. True) (ks_entry_count (pv_store E))) (\<lambda>ns. st_ret (sum_list ns))"

text \<open>\<open>touched\<close> is collected in a \<open>BTreeSet\<close>.\<close>

definition pl_diff where
  "pl_diff E start till =
     st_bind (fan_out E (\<lambda>_. True) (\<lambda>s. ks_diff (pv_store E) s start till)) (\<lambda>ds.
       st_ret \<lparr>ld_added = concat (map ld_added ds),
               ld_touched = sort (remdups (concat (map ld_touched ds))),
               ld_unchanged = sum_list (map ld_unchanged ds)\<rparr>)"

definition pl_all_objects where
  "pl_all_objects E =
     st_bind (fan_out E (\<lambda>_. True) (ks_all_objects (pv_store E))) (\<lambda>obs. st_ret (dedup_current E (concat obs)))"

definition pl_objects_in_kind where
  "pl_objects_in_kind E v =
     st_bind (fan_out E (\<lambda>k. pk_dimension_value k = v) (ks_all_objects (pv_store E)))
       (\<lambda>obs. st_ret (dedup_current E (concat obs)))"

definition pl_object_count where
  "pl_object_count E = st_bind (pl_all_objects E) (\<lambda>obs. st_ret (length obs))"

section \<open>Rebuilding the index\<close>

definition rebuild_step ::
  "('s, 'n) partition_env \<Rightarrow> partition_key \<times> string \<Rightarrow> index_maps \<Rightarrow> 's partitioned_ledger \<Rightarrow>
   (partition_error + index_maps) \<times> 's partitioned_ledger" where
  "rebuild_step E h M =
     (let (k, root) = h
      in st_bind (ledger_read k (ks_all_objects (pv_store E)) root) (\<lambda>obs.
         let M1 = fold (\<lambda>ob. add_site IxObj (ko_id ob) k) obs M
         in if is_relationship_partition k
            then st_bind (ledger_read k (ks_all_relationships (pv_store E)) root) (\<lambda>rs.
                   st_ret (fold (\<lambda>r. add_site IxEndpoint (kr_to r) k \<circ> add_site IxEndpoint (kr_from r) k \<circ>
                     add_site IxRel (kr_id r) k) rs M1))
            else st_ret M1))"

fun st_fold :: "('a \<Rightarrow> 'b \<Rightarrow> 't \<Rightarrow> ('e + 'b) \<times> 't) \<Rightarrow> 'a list \<Rightarrow> 'b \<Rightarrow> 't \<Rightarrow> ('e + 'b) \<times> 't" where
  "st_fold f [] b = st_ret b"
| "st_fold f (x # xs) b = st_bind (f x b) (st_fold f xs)"

text \<open>The maps of events and evidence stay as they are in memory; on disk one run is left.\<close>

definition install_index ::
  "('s, 'n) partition_env \<Rightarrow> index_maps \<Rightarrow> 's partitioned_ledger \<Rightarrow> (partition_error + unit) \<times> 's partitioned_ledger" where
  "install_index E fresh st =
     (if pv_index_fails E then (Inl (PartCatalog (index_dir E)), st)
      else (Inr (), st\<lparr>pd_runs := [(pl_next_run st, Some (run_lines fresh))], pl_next_run := pl_next_run st + 1,
                     pl_current := None,
                     pl_sites := (pl_sites st)(IxObj := fresh IxObj, IxRel := fresh IxRel,
                                               IxEndpoint := fresh IxEndpoint)\<rparr>))"

definition rebuild_entity_index ::
  "('s, 'n) partition_env \<Rightarrow> 's partitioned_ledger \<Rightarrow> (partition_error + unit) \<times> 's partitioned_ledger" where
  "rebuild_entity_index E =
     st_bind (catalog_snapshot E None) (\<lambda>hs.
     st_bind (st_fold (rebuild_step E) hs (\<lambda>_. [])) (\<lambda>fresh. install_index E (mark_all_complete fresh)))"

section \<open>Tiers and introspection\<close>

definition old_and_hot :: "string \<Rightarrow> partition_entry \<Rightarrow> bool" where
  "old_and_hot bucket e \<longleftrightarrow> pe_tier e = Hot \<and> pk_time_bucket (pe_key e) < bucket"

text \<open>The handles are dropped only once the catalog is saved.\<close>

definition mark_cold_before ::
  "('s, 'n) partition_env \<Rightarrow> int \<Rightarrow> 's partitioned_ledger \<Rightarrow> (partition_error + nat) \<times> 's partitioned_ledger" where
  "mark_cold_before E cutoff st =
     (let bucket = bucket_label (pv_format E) (pv_time_bucket E) cutoff;
          c = pl_catalog st;
          demoted = map pe_key (filter (old_and_hot bucket) (pc_partitions c));
          st1 = st\<lparr>pl_catalog := c\<lparr>pc_partitions :=
                  map (\<lambda>e. if old_and_hot bucket e then e\<lparr>pe_tier := Cold\<rparr> else e) (pc_partitions c)\<rparr>\<rparr>
      in if demoted = [] then (Inr 0, st)
         else st_bind (persist_catalog E)
                (\<lambda>_ st. (Inr (length demoted), st\<lparr>pl_open := filter (\<lambda>h. fst h \<notin> set demoted) (pl_open st)\<rparr>)) st1)"

definition partition_keys :: "'s partitioned_ledger \<Rightarrow> partition_key list" where
  "partition_keys st = map fst (pl_open st)"

definition catalog_partition_keys :: "'s partitioned_ledger \<Rightarrow> partition_key list" where
  "catalog_partition_keys st = sort (map pe_key (pc_partitions (pl_catalog st)))"

definition partition_keys_in_scope :: "string \<Rightarrow> 's partitioned_ledger \<Rightarrow> partition_key list" where
  "partition_keys_in_scope v st =
     map pe_key (filter (\<lambda>e. pk_dimension_value (pe_key e) = v) (pc_partitions (pl_catalog st)))"

definition partition_tier :: "partition_key \<Rightarrow> 's partitioned_ledger \<Rightarrow> storage_tier option" where
  "partition_tier k st = map_option pe_tier (find_entry k (pl_catalog st))"

definition partition_root :: "partition_key \<Rightarrow> 's partitioned_ledger \<Rightarrow> string option" where
  "partition_root k st = map_option pe_root (find_entry k (pl_catalog st))"

definition cold_partition_keys :: "'s partitioned_ledger \<Rightarrow> partition_key list" where
  "cold_partition_keys st = sort (map pe_key (filter (\<lambda>e. pe_tier e = Cold) (pc_partitions (pl_catalog st))))"

definition partition_entity_ids ::
  "('s, 'n) partition_env \<Rightarrow> partition_key \<Rightarrow> 's partitioned_ledger \<Rightarrow> (partition_error + kir_id list) \<times> 's partitioned_ledger" where
  "partition_entity_ids E k =
     st_bind (pl_partition E k False) (\<lambda>root.
     st_bind (ledger_read k (ks_all_objects (pv_store E)) root) (\<lambda>obs.
     st_bind (ledger_read k (ks_all_relationships (pv_store E)) root) (\<lambda>rs.
       st_ret (map ko_id obs @ map kr_id rs))))"

end
