(* ===== verification/Partition_Facts.thy ===== *)
theory Partition_Facts
  imports Partition
begin

text \<open>
  The partitioned ledger against its contract.  \<open>version_store\<close> is what it relies on in a partition's
  ledger: a directory that holds a sequence of items opens to a handle that answers from it.  The
  abstract state of the whole is one sequence per partition key; \<open>partition_ok\<close> relates it to catalog,
  handles, index and run files.  Appends extend one sequence, the point reads answer from the newest
  partition of an id, and tier changes and restarts change nothing.
\<close>

section \<open>The abstract state\<close>

datatype 'n ledger_item =
    ItObject "'n kir_object"
  | ItRelationship "'n kir_relationship"
  | ItEvent "'n kir_event"
  | ItEvidence kir_evidence

fun ledger_id :: "'n ledger_item \<Rightarrow> kir_id" where
  "ledger_id (ItObject ob) = ko_id ob"
| "ledger_id (ItRelationship r) = kr_id r"
| "ledger_id (ItEvent ev) = kv_id ev"
| "ledger_id (ItEvidence ev) = ke_id ev"

text \<open>The index an item is found through by its own id.\<close>

fun ledger_kind :: "'n ledger_item \<Rightarrow> index_kind" where
  "ledger_kind (ItObject ob) = IxObj"
| "ledger_kind (ItRelationship r) = IxRel"
| "ledger_kind (ItEvent ev) = IxEvt"
| "ledger_kind (ItEvidence ev) = IxEvid"

definition latest_item :: "'n ledger_item list \<Rightarrow> kir_id \<Rightarrow> 'n ledger_item option" where
  "latest_item A i = find (\<lambda>x. ledger_id x = i) (rev A)"

definition current_of :: "index_kind \<Rightarrow> 'n ledger_item list \<Rightarrow> kir_id \<Rightarrow> 'n ledger_item option" where
  "current_of kind A i =
     (case latest_item A i of Some x \<Rightarrow> if ledger_kind x = kind then Some x else None | None \<Rightarrow> None)"

fun as_object :: "'n ledger_item \<Rightarrow> 'n kir_object option" where
  "as_object (ItObject ob) = Some ob"
| "as_object _ = None"

fun as_relationship :: "'n ledger_item \<Rightarrow> 'n kir_relationship option" where
  "as_relationship (ItRelationship r) = Some r"
| "as_relationship _ = None"

definition current_object :: "'n ledger_item list \<Rightarrow> kir_id \<Rightarrow> 'n kir_object option" where
  "current_object A i = Option.bind (latest_item A i) as_object"

definition current_relationship :: "'n ledger_item list \<Rightarrow> kir_id \<Rightarrow> 'n kir_relationship option" where
  "current_relationship A i = Option.bind (latest_item A i) as_relationship"

text \<open>An item whose content is the current one is not recorded again.\<close>

definition unchanged :: "('n ledger_item \<Rightarrow> 'n ledger_item \<Rightarrow> bool) \<Rightarrow> 'n ledger_item list \<Rightarrow> 'n ledger_item \<Rightarrow> bool" where
  "unchanged alike A x \<longleftrightarrow> (\<exists>old. latest_item A (ledger_id x) = Some old \<and> alike old x)"

definition put_item :: "('n ledger_item \<Rightarrow> 'n ledger_item \<Rightarrow> bool) \<Rightarrow> 'n ledger_item list \<Rightarrow> 'n ledger_item \<Rightarrow> 'n ledger_item list" where
  "put_item alike A x = (if unchanged alike A x then A else A @ [x])"

text \<open>One kind per id.\<close>

definition one_kind :: "'n ledger_item list \<Rightarrow> bool" where
  "one_kind A \<longleftrightarrow> (\<forall>x \<in> set A. \<forall>y \<in> set A. ledger_id x = ledger_id y \<longrightarrow> ledger_kind x = ledger_kind y)"

definition holders :: "(partition_key \<Rightarrow> 'n ledger_item list) \<Rightarrow> index_kind \<Rightarrow> kir_id \<Rightarrow> partition_key set" where
  "holders C kind i = {k. \<exists>x \<in> set (C k). ledger_kind x = kind \<and> ledger_id x = i}"

text \<open>What the reads of an id answer: its current version in the newest partition that holds it.\<close>

definition newest_object :: "(partition_key \<Rightarrow> 'n ledger_item list) \<Rightarrow> kir_id \<Rightarrow> 'n kir_object option" where
  "newest_object C i =
     (if holders C IxObj i = {} then None else current_object (C (Max (holders C IxObj i))) i)"

definition newest_relationship :: "(partition_key \<Rightarrow> 'n ledger_item list) \<Rightarrow> kir_id \<Rightarrow> 'n kir_relationship option" where
  "newest_relationship C i =
     (if holders C IxRel i = {} then None else current_relationship (C (Max (holders C IxRel i))) i)"

section \<open>The contract of a partition's ledger\<close>

locale version_store =
  fixes V :: "('s, 'n) knowledge_store"
    and opener :: "'s \<Rightarrow> ledger_error + 's"
    and closed :: "'s \<Rightarrow> 'n ledger_item list \<Rightarrow> bool"
    and rep :: "'s \<Rightarrow> 'n ledger_item list \<Rightarrow> bool"
    and room :: "'s \<Rightarrow> 'n ledger_item \<Rightarrow> bool"
    and alike :: "'n ledger_item \<Rightarrow> 'n ledger_item \<Rightarrow> bool"
  assumes opens: "closed s A \<Longrightarrow> \<exists>s'. opener s = Inr s' \<and> rep s' A"
    and closes: "rep s A \<Longrightarrow> closed s A"
    and alike_kind: "alike x y \<Longrightarrow> ledger_kind x = ledger_kind y"
    and get_object: "rep s A \<Longrightarrow> ks_get_object V s i = Inr (current_object A i)"
    and get_relationship: "rep s A \<Longrightarrow> ks_get_relationship V s i = Inr (current_relationship A i)"
    and all_objects: "rep s A \<Longrightarrow> \<exists>obs. ks_all_objects V s = Inr obs \<and> distinct (map ko_id obs) \<and>
          set obs = {ob. current_object A (ko_id ob) = Some ob}"
    and append_object: "rep s A \<Longrightarrow> room s (ItObject ob) \<Longrightarrow>
          \<exists>s'. ks_append_object V ob s = (Inr (\<not> unchanged alike A (ItObject ob)), s') \<and> rep s' (put_item alike A (ItObject ob))"
    and append_relationship: "rep s A \<Longrightarrow> room s (ItRelationship r) \<Longrightarrow>
          \<exists>s'. ks_append_relationship V r s = (Inr (\<not> unchanged alike A (ItRelationship r)), s') \<and>
            rep s' (put_item alike A (ItRelationship r))"
    and append_event: "rep s A \<Longrightarrow> room s (ItEvent ev) \<Longrightarrow>
          \<exists>s'. ks_append_event V ev s = (Inr (), s') \<and> rep s' (put_item alike A (ItEvent ev))"
    and append_evidence: "rep s A \<Longrightarrow> room s (ItEvidence e) \<Longrightarrow>
          \<exists>s'. ks_append_evidence V e s = (Inr (), s') \<and> rep s' (put_item alike A (ItEvidence e))"

section \<open>The relation\<close>

text \<open>
  A configuration that stays: writes do not fail and the hash order is a permutation.
\<close>

definition pv_ok :: "('s, 'n) knowledge_store \<Rightarrow> ('s \<Rightarrow> ledger_error + 's) \<Rightarrow> ('s, 'n) partition_env \<Rightarrow> bool" where
  "pv_ok V opener E \<longleftrightarrow>
     pv_store E = V \<and> (\<forall>k root. pv_open E k root False = opener) \<and>
     \<not> pv_read_only E \<and> \<not> pv_catalog_fails E \<and> \<not> pv_index_fails E \<and>
     (\<forall>us. mset (pv_hash_order E us) = mset us)"

definition catalog_ok :: "('s, 'n) partition_env \<Rightarrow> partition_catalog \<Rightarrow> bool" where
  "catalog_ok E c \<longleftrightarrow>
     sorted_wrt (<) (map pe_key (pc_partitions c)) \<and>
     (\<forall>e \<in> set (pc_partitions c). pe_root e = pv_root_for E (pe_key e)) \<and>
     pc_dimension c \<in> {None, Some (dimension_as_str (pv_dimension E))} \<and>
     pc_time_bucket c \<in> {None, Some (bucket_as_str (pv_time_bucket E))}"

definition keys_of :: "partition_catalog \<Rightarrow> partition_key set" where
  "keys_of c = pe_key ` set (pc_partitions c)"

text \<open>
  The partitions of \<open>K\<close> have a root each, no two the same one, with their sequences in it; a root of no
  partition is empty.
\<close>

definition roots_ok ::
  "('s \<Rightarrow> 'n ledger_item list \<Rightarrow> bool) \<Rightarrow> ('s, 'n) partition_env \<Rightarrow> partition_key set \<Rightarrow> (string \<Rightarrow> 's) \<Rightarrow>
   (partition_key \<Rightarrow> 'n ledger_item list) \<Rightarrow> bool" where
  "roots_ok closed E K stores C \<longleftrightarrow>
     inj_on (pv_root_for E) K \<and> (\<forall>k \<in> K. closed (stores (pv_root_for E k)) (C k)) \<and>
     (\<forall>root. root \<notin> pv_root_for E ` K \<longrightarrow> closed (stores root) [])"

text \<open>The partition of \<open>k\<close>, registered or new, does not share its root with another.\<close>

definition own_root :: "('s, 'n) partition_env \<Rightarrow> partition_key \<Rightarrow> 's partitioned_ledger \<Rightarrow> bool" where
  "own_root E k st \<longleftrightarrow> pv_root_for E k \<notin> pv_root_for E ` (keys_of (pl_catalog st) - {k})"

text \<open>An open handle works in the root of its key and answers from its sequence.\<close>

definition handle_ok ::
  "('s \<Rightarrow> 'n ledger_item list \<Rightarrow> bool) \<Rightarrow> ('s, 'n) partition_env \<Rightarrow> partition_catalog \<Rightarrow> (string \<Rightarrow> 's) \<Rightarrow>
   (partition_key \<Rightarrow> 'n ledger_item list) \<Rightarrow> partition_key \<Rightarrow> string \<Rightarrow> bool" where
  "handle_ok rep E c stores C k root \<longleftrightarrow> k \<in> keys_of c \<and> root = pv_root_for E k \<and> rep (stores root) (C k)"

definition stores_ok ::
  "('s \<Rightarrow> 'n ledger_item list \<Rightarrow> bool) \<Rightarrow> ('s \<Rightarrow> 'n ledger_item list \<Rightarrow> bool) \<Rightarrow> ('s, 'n) partition_env \<Rightarrow>
   's partitioned_ledger \<Rightarrow> (partition_key \<Rightarrow> 'n ledger_item list) \<Rightarrow> bool" where
  "stores_ok closed rep E st C \<longleftrightarrow>
     catalog_ok E (pl_catalog st) \<and>
     (pd_catalog st = SavedCatalog (pl_catalog st) \<or> pd_catalog st = NoCatalog \<and> pl_catalog st = catalog_default) \<and>
     (\<forall>k root. map_of (pl_open st) k = Some root \<longrightarrow> handle_ok rep E (pl_catalog st) (pd_stores st) C k root) \<and>
     roots_ok closed E (keys_of (pl_catalog st)) (pd_stores st) C \<and>
     (\<forall>k. k \<notin> keys_of (pl_catalog st) \<longrightarrow> C k = []) \<and>
     (\<forall>k. one_kind (C k))"

text \<open>The pairs in the run files.\<close>

definition run_pairs :: "(nat \<times> run_line list option) list \<Rightarrow> (index_kind \<times> kir_id \<times> partition_key) set" where
  "run_pairs runs = {(kind, i, k). \<exists>n ls. (n, Some ls) \<in> set runs \<and> IndexLine kind i k \<in> set ls}"

definition runs_ok :: "(nat \<times> run_line list option) list \<Rightarrow> bool" where
  "runs_ok runs \<longleftrightarrow> bt_sorted runs \<and> (\<forall>(n, f) \<in> set runs. f \<noteq> None \<and> BadLine \<notin> set (the f))"

text \<open>A map of ids holds exactly the pairs of \<open>T\<close>.\<close>

definition map_holds :: "(kir_id \<times> sites) list \<Rightarrow> (kir_id \<times> partition_key) set \<Rightarrow> bool" where
  "map_holds m T \<longleftrightarrow> bt_sorted m \<and>
     (\<forall>i. case map_of m i of
        None \<Rightarrow> (\<forall>k. (i, k) \<notin> T)
      | Some s \<Rightarrow> sorted_wrt (<) (si_partitions s) \<and> set (si_partitions s) = {k. (i, k) \<in> T})"

definition all_complete :: "(kir_id \<times> sites) list \<Rightarrow> bool" where
  "all_complete m \<longleftrightarrow> (\<forall>i s. map_of m i = Some s \<longrightarrow> si_complete s)"

definition pairs_of :: "index_kind \<Rightarrow> (index_kind \<times> kir_id \<times> partition_key) set \<Rightarrow> (kir_id \<times> partition_key) set" where
  "pairs_of kind T = {(i, k). (kind, i, k) \<in> T}"

definition index_ok ::
  "'s partitioned_ledger \<Rightarrow> (index_kind \<times> kir_id \<times> partition_key) set \<Rightarrow> bool" where
  "index_ok st T \<longleftrightarrow>
     runs_ok (pd_runs st) \<and> run_pairs (pd_runs st) = T \<and>
     (\<forall>kind. map_holds (pl_sites st kind) (pairs_of kind T) \<and> all_complete (pl_sites st kind))"

text \<open>The index tells, for every kind but endpoints, exactly where an id lives.\<close>

definition pairs_ok ::
  "(index_kind \<times> kir_id \<times> partition_key) set \<Rightarrow> (partition_key \<Rightarrow> 'n ledger_item list) \<Rightarrow> bool" where
  "pairs_ok T C \<longleftrightarrow> (\<forall>kind i k. kind \<noteq> IxEndpoint \<longrightarrow> ((kind, i, k) \<in> T \<longleftrightarrow> k \<in> holders C kind i))"

definition partition_ok where
  "partition_ok V opener closed rep E st C \<longleftrightarrow>
     pv_ok V opener E \<and> stores_ok closed rep E st C \<and> (\<exists>T. index_ok st T \<and> pairs_ok T C) \<and>
     (\<forall>i k. k \<in> holders C IxRel i \<longrightarrow> is_relationship_partition k)"

section \<open>Index maps and run files\<close>

lemma st_bind_run: "m st = (Inr x, st1) \<Longrightarrow> k x st1 = r \<Longrightarrow> st_bind m k st = r"
  by (simp add: st_bind_def)

lemma st_map_run: "f x st = (Inr y, st1) \<Longrightarrow> st_map f xs st1 = (Inr ys, st2) \<Longrightarrow> st_map f (x # xs) st = (Inr (y # ys), st2)"
  by (simp add: st_bind_def st_ret_def)

lemma st_ret_run: "st_ret x st = (Inr x, st)"
  by (simp add: st_ret_def)

lemma add_key_simps [simp]:
  "set (si_partitions (add_key k s)) = insert k (set (si_partitions s))"
  "si_complete (add_key k s) = si_complete s"
  "sorted_wrt (<) (si_partitions s) \<Longrightarrow> sorted_wrt (<) (si_partitions (add_key k s))"
  by (simp_all add: add_key_def set_insort_insert strict_sorted_iff sorted_insort_insert distinct_insort_insert)

lemma map_holds_sorted: "map_holds m T \<Longrightarrow> bt_sorted m"
  by (simp add: map_holds_def)

lemma map_holds_Some:
  "map_holds m T \<Longrightarrow> map_of m i = Some s \<Longrightarrow>
     sorted_wrt (<) (si_partitions s) \<and> set (si_partitions s) = {k. (i, k) \<in> T}"
  unfolding map_holds_def by (drule conjunct2, drule spec [of _ i]) simp

lemma map_holds_None: "map_holds m T \<Longrightarrow> map_of m i = None \<Longrightarrow> (i, k) \<notin> T"
  unfolding map_holds_def by (drule conjunct2, drule spec [of _ i]) simp

lemma map_holdsI:
  assumes "bt_sorted m" "\<And>i k. map_of m i = None \<Longrightarrow> (i, k) \<notin> T"
    "\<And>i s. map_of m i = Some s \<Longrightarrow> sorted_wrt (<) (si_partitions s) \<and> set (si_partitions s) = {k. (i, k) \<in> T}"
  shows "map_holds m T"
  using assms by (auto simp: map_holds_def split: option.splits)

text \<open>Replacing the entry of one id by one with one more key.\<close>

lemma map_holds_add:
  assumes m: "map_holds m T"
    and s: "case map_of m i of None \<Rightarrow> si_partitions s = [] | Some s' \<Rightarrow> si_partitions s = si_partitions s'"
  shows "map_holds (bt_insert i (add_key k s) m) (insert (i, k) T)" "k \<in> set (si_partitions s) \<longleftrightarrow> (i, k) \<in> T"
proof -
  have parts: "sorted_wrt (<) (si_partitions s)" "set (si_partitions s) = {k. (i, k) \<in> T}"
    using s map_holds_Some [OF m, of i] map_holds_None [OF m, of i] by (auto split: option.splits)
  show "k \<in> set (si_partitions s) \<longleftrightarrow> (i, k) \<in> T" by (simp add: parts)
  show "map_holds (bt_insert i (add_key k s) m) (insert (i, k) T)"
  proof (rule map_holdsI)
    show "bt_sorted (bt_insert i (add_key k s) m)" using map_holds_sorted [OF m] by simp
    show "(j, k') \<notin> insert (i, k) T" if "map_of (bt_insert i (add_key k s) m) j = None" for j k'
      using that map_holds_None [OF m] by (auto simp: map_of_bt_insert split: if_splits)
    show "sorted_wrt (<) (si_partitions s') \<and> set (si_partitions s') = {k'. (j, k') \<in> insert (i, k) T}"
      if "map_of (bt_insert i (add_key k s) m) j = Some s'" for j s'
      using that map_holds_Some [OF m] parts by (auto simp: map_of_bt_insert split: if_splits)
  qed
qed

lemma insert_site_holds:
  assumes "map_holds m T" "all_complete m" "insert_site m i k = (m', is_new)"
  shows "map_holds m' (insert (i, k) T)" "all_complete m'" "is_new \<longleftrightarrow> (i, k) \<notin> T"
proof -
  define s where "s = (case map_of m i of None \<Rightarrow> \<lparr>si_partitions = [], si_complete = True\<rparr> | Some s \<Rightarrow> s)"
  have m': "m' = bt_insert i (add_key k s) m" "is_new \<longleftrightarrow> k \<notin> set (si_partitions s)"
    using assms(3) by (auto simp: insert_site_def s_def Let_def)
  have c: "case map_of m i of None \<Rightarrow> si_partitions s = [] | Some s' \<Rightarrow> si_partitions s = si_partitions s'"
    by (simp add: s_def split: option.splits)
  show "map_holds m' (insert (i, k) T)" "is_new \<longleftrightarrow> (i, k) \<notin> T"
    using map_holds_add [OF assms(1) c] by (simp_all add: m')
  have "si_complete s" using assms(2) by (auto simp: s_def all_complete_def split: option.splits)
  then show "all_complete m'" using assms(2) by (auto simp: m' all_complete_def map_of_bt_insert split: if_splits)
qed

definition maps_hold :: "index_maps \<Rightarrow> (index_kind \<times> kir_id \<times> partition_key) set \<Rightarrow> bool" where
  "maps_hold M T \<longleftrightarrow> (\<forall>kind. map_holds (M kind) (pairs_of kind T))"

lemma pairs_of_insert: "pairs_of kind (insert (kd, i, k) T) = (if kind = kd then insert (i, k) (pairs_of kind T) else pairs_of kind T)"
  by (auto simp: pairs_of_def)

lemma add_site_holds: "maps_hold M T \<Longrightarrow> maps_hold (add_site kind i k M) (insert (kind, i, k) T)"
proof -
  assume M: "maps_hold M T"
  let ?s = "case map_of (M kind) i of None \<Rightarrow> sites_default | Some s \<Rightarrow> s"
  have "map_holds (bt_insert i (add_key k ?s) (M kind)) (insert (i, k) (pairs_of kind T))"
    by (rule map_holds_add) (use M in \<open>auto simp: maps_hold_def sites_default_def split: option.splits\<close>)
  then show ?thesis using M by (simp add: maps_hold_def add_site_def pairs_of_insert)
qed

definition line_pairs :: "run_line list \<Rightarrow> (index_kind \<times> kir_id \<times> partition_key) set" where
  "line_pairs ls = {(kind, i, k). IndexLine kind i k \<in> set ls}"

lemma line_pairs_simps [simp]:
  "line_pairs [] = {}" "line_pairs (IndexLine kind i k # ls) = insert (kind, i, k) (line_pairs ls)"
  "line_pairs (BlankLine # ls) = line_pairs ls" "line_pairs (BadLine # ls) = line_pairs ls"
  "line_pairs (map (IndexLine kind i) ks) = (\<lambda>k. (kind, i, k)) ` set ks"
  by (auto simp: line_pairs_def)

lemma fold_lines_holds:
  "maps_hold M T \<Longrightarrow> BadLine \<notin> set ls \<Longrightarrow> maps_hold (fold_lines ls M) (T \<union> line_pairs ls)"
proof (induction ls M arbitrary: T rule: fold_lines.induct)
  case (2 kind i k ls M)
  have "maps_hold (fold_lines ls (add_site kind i k M)) (insert (kind, i, k) T \<union> line_pairs ls)"
    by (rule "2.IH") (use 2 add_site_holds in auto)
  then show ?case by simp
qed simp_all

lemma run_pairs_Nil [simp]: "run_pairs [] = {}"
  by (simp add: run_pairs_def)

lemma run_pairs_Cons: "run_pairs ((n, Some ls) # runs) = line_pairs ls \<union> run_pairs runs"
  by (auto simp: run_pairs_def line_pairs_def)

lemma maps_hold_empty [simp]: "maps_hold (\<lambda>_. []) {}"
  by (simp add: maps_hold_def map_holds_def pairs_of_def)

lemma fold_runs_holds:
  assumes "maps_hold M T" "\<forall>(n, f) \<in> set runs. f \<noteq> None \<and> BadLine \<notin> set (the f)"
  shows "\<exists>M'. fold_runs dir runs M = Inr M' \<and> maps_hold M' (T \<union> run_pairs runs)"
  using assms
proof (induction runs arbitrary: M T)
  case Nil
  then show ?case by simp
next
  case (Cons r runs)
  obtain n ls where r: "r = (n, Some ls)" "BadLine \<notin> set ls" using Cons.prems(2) by (cases r) auto
  from Cons.IH [OF fold_lines_holds [OF Cons.prems(1) r(2)]] Cons.prems(2)
  show ?case by (simp add: r(1) run_pairs_Cons Un_assoc)
qed

lemma map_of_mark: "map_of (mark_all_complete M kind) i = map_option (\<lambda>s. s\<lparr>si_complete := True\<rparr>) (map_of (M kind) i)"
proof -
  have "map_of (map (\<lambda>(i, s). (i, f s)) xs) i = map_option f (map_of xs i)" for f :: "sites \<Rightarrow> sites" and xs :: "(kir_id \<times> sites) list"
    by (induction xs) auto
  then show ?thesis by (simp add: mark_all_complete_def)
qed

lemma mark_holds:
  assumes "maps_hold M T"
  shows "maps_hold (mark_all_complete M) T" "all_complete (mark_all_complete M kind)"
proof -
  have s: "bt_sorted (mark_all_complete M kind)" if "bt_sorted (M kind)" for kind
    using that by (simp add: mark_all_complete_def bt_sorted_def comp_def case_prod_beta)
  show "maps_hold (mark_all_complete M) T" unfolding maps_hold_def
  proof
    fix kind
    have h: "map_holds (M kind) (pairs_of kind T)" using assms by (simp add: maps_hold_def)
    show "map_holds (mark_all_complete M kind) (pairs_of kind T)"
    proof (rule map_holdsI)
      show "bt_sorted (mark_all_complete M kind)" by (rule s [OF map_holds_sorted [OF h]])
    qed (use map_holds_Some [OF h] map_holds_None [OF h] in \<open>auto simp: map_of_mark\<close>)
  qed
  show "all_complete (mark_all_complete M kind)" by (auto simp: all_complete_def map_of_mark)
qed

lemma set_all_index_kinds [simp]: "set all_index_kinds = UNIV"
proof (intro equalityI subsetI)
  show "kind \<in> set all_index_kinds" for kind by (cases kind) (simp_all add: all_index_kinds_def)
qed simp

lemma run_lines_pairs:
  assumes "maps_hold M T"
  shows "IndexLine kind i k \<in> set (run_lines M) \<longleftrightarrow> (kind, i, k) \<in> T" "BadLine \<notin> set (run_lines M)"
proof -
  have h: "map_holds (M kind) (pairs_of kind T)" using assms by (simp add: maps_hold_def)
  have "IndexLine kind i k \<in> set (run_lines M) \<longleftrightarrow> (\<exists>s. (i, s) \<in> set (M kind) \<and> k \<in> set (si_partitions s))"
  proof -
    have "set (run_lines M) = (\<Union>kd. \<Union>p \<in> set (M kd). IndexLine kd (fst p) ` set (si_partitions (snd p)))"
      by (simp add: run_lines_def case_prod_beta)
    then show ?thesis by force
  qed
  also have "\<dots> \<longleftrightarrow> (\<exists>s. map_of (M kind) i = Some s \<and> k \<in> set (si_partitions s))"
    using bt_sorted_distinct [OF map_holds_sorted [OF h]] by simp
  also have "\<dots> \<longleftrightarrow> (i, k) \<in> pairs_of kind T"
    using map_holds_Some [OF h, of i] map_holds_None [OF h, of i] by (cases "map_of (M kind) i") auto
  finally show "IndexLine kind i k \<in> set (run_lines M) \<longleftrightarrow> (kind, i, k) \<in> T" by (simp add: pairs_of_def)
  show "BadLine \<notin> set (run_lines M)" by (auto simp: run_lines_def split: prod.splits)
qed

lemma run_pairs_insert:
  assumes "runs_ok runs" and f: "case map_of runs n of None \<Rightarrow> old = [] | Some f \<Rightarrow> f = Some old"
    and ls: "BadLine \<notin> set ls"
  shows "runs_ok (bt_insert n (Some (old @ ls)) runs)"
    "run_pairs (bt_insert n (Some (old @ ls)) runs) = run_pairs runs \<union> line_pairs ls"
proof -
  have s: "bt_sorted runs" "\<forall>(n, f) \<in> set runs. f \<noteq> None \<and> BadLine \<notin> set (the f)"
    using assms(1) by (simp_all add: runs_ok_def)
  have d: "distinct (map fst runs)" by (rule bt_sorted_distinct [OF s(1)])
  have old: "(n, Some old) \<in> set runs \<or> old = [] \<and> n \<notin> fst ` set runs"
    using f d by (cases "map_of runs n") (auto simp: map_of_eq_None_iff dest: map_of_SomeD)
  have "BadLine \<notin> set old" using old s(2) by auto
  then show "runs_ok (bt_insert n (Some (old @ ls)) runs)"
    using s ls by (auto simp: runs_ok_def set_bt_insert)
  have same: "g = Some old" if "(n, g) \<in> set runs" for g
  proof -
    have "n \<in> fst ` set runs" using that by force
    then have "(n, Some old) \<in> set runs" using old by blast
    then show ?thesis by (rule eq_key_imp_eq_value [OF d that])
  qed
  have mem: "(n, Some (old @ ls)) \<in> set (bt_insert n (Some (old @ ls)) runs)" by (simp add: set_bt_insert [OF s(1)])
  show "run_pairs (bt_insert n (Some (old @ ls)) runs) = run_pairs runs \<union> line_pairs ls"
  proof (intro equalityI subsetI)
    fix p assume "p \<in> run_pairs (bt_insert n (Some (old @ ls)) runs)"
    then show "p \<in> run_pairs runs \<union> line_pairs ls"
      using old by (auto simp: run_pairs_def line_pairs_def set_bt_insert [OF s(1)]) blast+
  next
    fix p assume "p \<in> run_pairs runs \<union> line_pairs ls"
    then show "p \<in> run_pairs (bt_insert n (Some (old @ ls)) runs)"
    proof
      assume "p \<in> run_pairs runs"
      then obtain m ls' kind i k where p: "p = (kind, i, k)" "IndexLine kind i k \<in> set ls'" "(m, Some ls') \<in> set runs"
        unfolding run_pairs_def by auto
      show ?thesis
      proof (cases "m = n")
        case True
        then have "ls' = old" using same [of "Some ls'"] p(3) by simp
        then have "IndexLine kind i k \<in> set (old @ ls)" using p by simp
        then show ?thesis using p(1) mem unfolding run_pairs_def by blast
      qed (use p in \<open>auto simp: run_pairs_def set_bt_insert [OF s(1)]\<close>)
    next
      assume "p \<in> line_pairs ls"
      then obtain kind i k where "p = (kind, i, k)" "IndexLine kind i k \<in> set (old @ ls)" by (auto simp: line_pairs_def)
      then show ?thesis using mem unfolding run_pairs_def by blast
    qed
  qed
qed

section \<open>The catalog\<close>

lemma catalog_keys_distinct: "catalog_ok E c \<Longrightarrow> distinct (map pe_key (pc_partitions c))"
  by (simp add: catalog_ok_def strict_sorted_iff)

lemma find_entry_Some:
  assumes "catalog_ok E c" "k \<in> keys_of c"
  obtains e where "find_entry k c = Some e" "pe_key e = k" "pe_root e = pv_root_for E k"
proof -
  obtain e where e: "find_entry k c = Some e"
    using assms(2) by (fastforce simp: find_entry_def keys_of_def dest: find_None_iff [THEN iffD1])
  then have "e \<in> set (pc_partitions c)" "pe_key e = k" by (auto simp: find_entry_def find_Some_iff)
  then show thesis using that e assms(1) by (auto simp: catalog_ok_def)
qed

lemma find_entry_None: "k \<notin> keys_of c \<Longrightarrow> find_entry k c = None"
  by (auto simp: find_entry_def keys_of_def find_None_iff)

lemma promote_entry_simps [simp]:
  "map pe_key (promote_entry k es) = map pe_key es" "map pe_root (promote_entry k es) = map pe_root es"
  by (induction es) auto

lemma catalog_okI:
  assumes "sorted_wrt (<) (map pe_key (pc_partitions c))"
    "map pe_root (pc_partitions c) = map (pv_root_for E \<circ> pe_key) (pc_partitions c)"
    "pc_dimension c \<in> {None, Some (dimension_as_str (pv_dimension E))}"
    "pc_time_bucket c \<in> {None, Some (bucket_as_str (pv_time_bucket E))}"
  shows "catalog_ok E c"
  using assms by (auto simp: catalog_ok_def)

lemma catalog_ok_roots:
  "catalog_ok E c \<Longrightarrow> map pe_root (pc_partitions c) = map (pv_root_for E \<circ> pe_key) (pc_partitions c)"
  by (simp add: catalog_ok_def)

text \<open>Changing tiers only.\<close>

lemma retier_ok:
  assumes "catalog_ok E c" "map pe_key es = map pe_key (pc_partitions c)" "map pe_root es = map pe_root (pc_partitions c)"
  shows "catalog_ok E (c\<lparr>pc_partitions := es\<rparr>)" "keys_of (c\<lparr>pc_partitions := es\<rparr>) = keys_of c"
proof -
  have "map (pv_root_for E \<circ> pe_key) es = map (pv_root_for E) (map pe_key (pc_partitions c))"
    by (simp add: assms(2) [symmetric])
  then have "map pe_root es = map (pv_root_for E \<circ> pe_key) es"
    using assms(3) catalog_ok_roots [OF assms(1)] by simp
  then show "catalog_ok E (c\<lparr>pc_partitions := es\<rparr>)"
    using assms(1,2) by (intro catalog_okI) (auto simp: catalog_ok_def)
  show "keys_of (c\<lparr>pc_partitions := es\<rparr>) = keys_of c"
    using arg_cong [OF assms(2), of set] by (simp add: keys_of_def)
qed

lemma promote_ok:
  assumes "catalog_ok E c"
  shows "catalog_ok E (promote k c)" "keys_of (promote k c) = keys_of c"
  unfolding promote_def by (rule retier_ok [OF assms]; simp)+

lemma register_ok:
  assumes c: "catalog_ok E c" and k: "k \<notin> keys_of c"
  shows "catalog_ok E (add_partition E k (pv_root_for E k) c)"
    "keys_of (add_partition E k (pv_root_for E k) c) = insert k (keys_of c)"
proof -
  let ?new = "\<lparr>pe_key = k, pe_root = pv_root_for E k, pe_tier = Hot\<rparr>"
  let ?es = "sort_key entry_rank (pc_partitions c @ [?new])"
  have "sorted (map pe_key ?es)" unfolding sorted_map
  proof (rule sorted_wrt_mono_rel)
    show "sorted_wrt (\<lambda>a b. entry_rank a \<le> entry_rank b) ?es"
      using sorted_sort_key [of entry_rank "pc_partitions c @ [?new]"] unfolding sorted_map .
  qed (auto simp: entry_rank_def)
  moreover have "mset (map pe_key ?es) = mset (k # map pe_key (pc_partitions c))" by simp
  then have "distinct (map pe_key ?es)"
    using catalog_keys_distinct [OF c] k unfolding mset_eq_imp_distinct_iff [OF \<open>mset (map pe_key ?es) = _\<close>]
    by (simp add: keys_of_def)
  ultimately have s: "sorted_wrt (<) (map pe_key ?es)" by (simp add: strict_sorted_iff)
  show "catalog_ok E (add_partition E k (pv_root_for E k) c)"
  proof (rule catalog_okI)
    show "sorted_wrt (<) (map pe_key (pc_partitions (add_partition E k (pv_root_for E k) c)))"
      using s by (simp add: add_partition_def)
  qed (use c in \<open>auto simp: add_partition_def catalog_ok_def split: option.splits\<close>)
  show "keys_of (add_partition E k (pv_root_for E k) c) = insert k (keys_of c)"
    by (auto simp: add_partition_def keys_of_def)
qed

section \<open>Roots\<close>

lemma roots_write:
  assumes "roots_ok closed E K stores C" "k \<in> K" "closed s A"
  shows "roots_ok closed E K (stores(pv_root_for E k := s)) (C(k := A))"
proof -
  have "pv_root_for E k' \<noteq> pv_root_for E k" if "k' \<in> K" "k' \<noteq> k" for k'
    using assms(1,2) that by (auto simp: roots_ok_def dest: inj_onD)
  then show ?thesis using assms by (auto simp: roots_ok_def)
qed

lemma roots_insert:
  assumes "roots_ok closed E K stores C" "k \<notin> K" "pv_root_for E k \<notin> pv_root_for E ` K" "C k = []"
  shows "roots_ok closed E (insert k K) stores C"
  using assms by (auto simp: roots_ok_def)

lemma own_root_known:
  assumes "stores_ok closed rep E st C" "k \<in> keys_of (pl_catalog st)"
  shows "own_root E k st"
  using assms by (auto simp: stores_ok_def roots_ok_def own_root_def dest: inj_onD)

section \<open>Opening partitions\<close>

text \<open>What opening a partition leaves alone.\<close>

definition same_index :: "'s partitioned_ledger \<Rightarrow> 's partitioned_ledger \<Rightarrow> bool" where
  "same_index st st' \<longleftrightarrow>
     pl_sites st' = pl_sites st \<and> pd_runs st' = pd_runs st \<and> pl_next_run st' = pl_next_run st \<and>
     pl_current st' = pl_current st"

lemma same_index_refl [simp]: "same_index st st"
  by (simp add: same_index_def)

lemma same_index_trans: "same_index a b \<Longrightarrow> same_index b c \<Longrightarrow> same_index a c"
  by (simp add: same_index_def)

lemma same_index_ok: "same_index st st' \<Longrightarrow> index_ok st T \<Longrightarrow> index_ok st' T"
  by (simp add: same_index_def index_ok_def)

context version_store
begin

lemma locate_step:
  assumes E: "pv_ok V opener E" and st: "stores_ok closed rep E st C" and k: "k \<in> keys_of (pl_catalog st) \<or> reg \<and> own_root E k st"
  shows "\<exists>st'. locate_partition E k reg st = (Inr (pv_root_for E k), st') \<and> stores_ok closed rep E st' C \<and>
    same_index st st' \<and> keys_of (pl_catalog st') = insert k (keys_of (pl_catalog st)) \<and>
    pl_open st' = pl_open st \<and> pd_stores st' = pd_stores st"
proof -
  let ?c = "pl_catalog st"
  have c: "catalog_ok E ?c" using st by (simp add: stores_ok_def)
  have env: "\<not> pv_read_only E" "\<not> pv_catalog_fails E" using E by (simp_all add: pv_ok_def)
  show ?thesis
  proof (cases "k \<in> keys_of ?c")
    case True
    then obtain e where e: "find_entry k ?c = Some e" "pe_root e = pv_root_for E k"
      using find_entry_Some [OF c] by blast
    show ?thesis
    proof (cases "pe_tier e = Cold")
      case cold: True
      let ?st = "st\<lparr>pl_catalog := promote k ?c, pd_catalog := SavedCatalog (promote k ?c)\<rparr>"
      have "locate_partition E k reg st = (Inr (pv_root_for E k), ?st)"
        using env cold e by (simp add: locate_partition_def Let_def st_bind_def st_ret_def persist_catalog_def)
      moreover have "stores_ok closed rep E ?st C"
        using st promote_ok [OF c, of k] by (simp add: stores_ok_def handle_ok_def)
      ultimately show ?thesis using True promote_ok(2) [OF c, of k] by (auto simp: same_index_def)
    next
      case False
      then have "locate_partition E k reg st = (Inr (pv_root_for E k), st)"
        using e by (simp add: locate_partition_def)
      then show ?thesis using st True by auto
    qed
  next
    case False
    let ?c1 = "add_partition E k (pv_root_for E k) ?c"
    let ?st = "st\<lparr>pl_catalog := ?c1, pd_catalog := SavedCatalog ?c1\<rparr>"
    have "locate_partition E k reg st = (Inr (pv_root_for E k), ?st)"
      using env False k by (simp add: locate_partition_def Let_def st_bind_def st_ret_def persist_catalog_def find_entry_None)
    moreover have "stores_ok closed rep E ?st C"
    proof -
      have "roots_ok closed E (insert k (keys_of ?c)) (pd_stores st) C"
        by (rule roots_insert) (use st False k in \<open>auto simp: stores_ok_def own_root_def\<close>)
      then show ?thesis using st register_ok [OF c False] by (auto simp: stores_ok_def handle_ok_def)
    qed
    ultimately show ?thesis using register_ok(2) [OF c False] by (auto simp: same_index_def)
  qed
qed

lemma partition_step:
  assumes E: "pv_ok V opener E" and st: "stores_ok closed rep E st C" and k: "k \<in> keys_of (pl_catalog st) \<or> reg \<and> own_root E k st"
  shows "\<exists>st'. pl_partition E k reg st = (Inr (pv_root_for E k), st') \<and> stores_ok closed rep E st' C \<and>
    same_index st st' \<and> keys_of (pl_catalog st') = insert k (keys_of (pl_catalog st)) \<and>
    map_of (pl_open st') k = Some (pv_root_for E k) \<and>
    (\<forall>k'. map_of (pl_open st) k' \<noteq> None \<longrightarrow> map_of (pl_open st') k' \<noteq> None)"
proof (cases "map_of (pl_open st) k")
  case (Some root)
  then have "k \<in> keys_of (pl_catalog st)" "root = pv_root_for E k" using st by (auto simp: stores_ok_def handle_ok_def)
  then show ?thesis using Some st by (auto simp: pl_partition_def)
next
  case None
  have env: "\<not> pv_read_only E" "pv_open E k' root False = opener" for k' root
    using E by (auto simp: pv_ok_def)
  obtain st1 where st1: "locate_partition E k (reg \<and> \<not> pv_read_only E) st = (Inr (pv_root_for E k), st1)"
    "stores_ok closed rep E st1 C" "same_index st st1" "keys_of (pl_catalog st1) = insert k (keys_of (pl_catalog st))"
    "pl_open st1 = pl_open st"
    using locate_step [OF E st k] env(1) by auto
  have S: "closed (pd_stores st1 (pv_root_for E k)) (C k)" using st1(2,4) by (simp add: stores_ok_def roots_ok_def)
  then obtain s where s: "opener (pd_stores st1 (pv_root_for E k)) = Inr s" "rep s (C k)" using opens by blast
  let ?st = "st1\<lparr>pd_stores := (pd_stores st1)(pv_root_for E k := s),
      pl_open := bt_insert k (pv_root_for E k) (pl_open st1)\<rparr>"
  have "pl_partition E k reg st = (Inr (pv_root_for E k), ?st)"
    using None st1(1) env s(1) by (simp add: pl_partition_def st_bind_def open_partition_def)
  moreover have "stores_ok closed rep E ?st C"
  proof -
    have other: "pv_root_for E k' \<noteq> pv_root_for E k" if "k' \<noteq> k" "k' \<in> keys_of (pl_catalog st1)" for k'
    proof
      assume same: "pv_root_for E k' = pv_root_for E k"
      have "inj_on (pv_root_for E) (keys_of (pl_catalog st1))" using st1(2) by (simp add: stores_ok_def roots_ok_def)
      from inj_onD [OF this same that(2)] show False using that(1) st1(4) by simp
    qed
    have cl: "roots_ok closed E (keys_of (pl_catalog st1)) ((pd_stores st1)(pv_root_for E k := s)) C"
      using roots_write [where closed = closed and s = s and A = "C k" and E = E and C = C and k = k and stores = "pd_stores st1"
          and K = "keys_of (pl_catalog st1)"] closes [OF s(2)] st1(2,4)
      by (simp add: stores_ok_def)
    have opn: "handle_ok rep E (pl_catalog st1) ((pd_stores st1)(pv_root_for E k := s)) C k' root"
      if "map_of (bt_insert k (pv_root_for E k) (pl_open st1)) k' = Some root" for k' root
    proof (cases "k' = k")
      case True
      then show ?thesis using that s(2) st1(4) by (simp add: map_of_bt_insert handle_ok_def)
    next
      case False
      then have "map_of (pl_open st1) k' = Some root" using that by (simp add: map_of_bt_insert)
      then have "handle_ok rep E (pl_catalog st1) (pd_stores st1) C k' root" using st1(2) by (simp add: stores_ok_def)
      then show ?thesis using other [OF False] by (auto simp: handle_ok_def)
    qed
    show ?thesis using st1(2) cl opn by (simp add: stores_ok_def)
  qed
  ultimately show ?thesis
    using st1(3,4,5) by (auto simp: same_index_def map_of_bt_insert)
qed

text \<open>A partition that is open answers from its sequence.\<close>

lemma open_rep:
  "stores_ok closed rep E st C \<Longrightarrow> map_of (pl_open st) k \<noteq> None \<Longrightarrow> rep (pd_stores st (pv_root_for E k)) (C k)"
  by (auto simp: stores_ok_def handle_ok_def)

lemma snapshot_step:
  assumes E: "pv_ok V opener E" and st: "stores_ok closed rep E st C" and ks: "set ks \<subseteq> keys_of (pl_catalog st)"
  shows "\<exists>st'. st_map (\<lambda>k. st_bind (pl_partition E k False) (\<lambda>root. st_ret (k, root))) ks st =
      (Inr (map (\<lambda>k. (k, pv_root_for E k)) ks), st') \<and> stores_ok closed rep E st' C \<and> same_index st st' \<and>
    keys_of (pl_catalog st') = keys_of (pl_catalog st) \<and> (\<forall>k \<in> set ks. map_of (pl_open st') k \<noteq> None) \<and>
    (\<forall>k'. map_of (pl_open st) k' \<noteq> None \<longrightarrow> map_of (pl_open st') k' \<noteq> None)"
  using st ks
proof (induction ks arbitrary: st)
  case Nil
  then show ?case by (auto simp: st_ret_def)
next
  case (Cons k ks)
  obtain st1 where st1: "pl_partition E k False st = (Inr (pv_root_for E k), st1)" "stores_ok closed rep E st1 C"
    "same_index st st1" "keys_of (pl_catalog st1) = insert k (keys_of (pl_catalog st))"
    "map_of (pl_open st1) k = Some (pv_root_for E k)"
    "\<forall>k'. map_of (pl_open st) k' \<noteq> None \<longrightarrow> map_of (pl_open st1) k' \<noteq> None"
    using partition_step [OF E Cons.prems(1), of k False] Cons.prems(2) by auto
  have keys: "keys_of (pl_catalog st1) = keys_of (pl_catalog st)" using st1(4) Cons.prems(2) by auto
  obtain st2 where st2: "st_map (\<lambda>k. st_bind (pl_partition E k False) (\<lambda>root. st_ret (k, root))) ks st1 =
      (Inr (map (\<lambda>k. (k, pv_root_for E k)) ks), st2)" "stores_ok closed rep E st2 C" "same_index st1 st2"
    "keys_of (pl_catalog st2) = keys_of (pl_catalog st1)" "\<forall>k \<in> set ks. map_of (pl_open st2) k \<noteq> None"
    "\<forall>k'. map_of (pl_open st1) k' \<noteq> None \<longrightarrow> map_of (pl_open st2) k' \<noteq> None"
  proof -
    have "set ks \<subseteq> keys_of (pl_catalog st1)" using Cons.prems(2) keys by simp
    from Cons.IH [OF st1(2) this] show thesis using that by blast
  qed
  have one: "st_bind (pl_partition E k False) (\<lambda>root. st_ret (k, root)) st = (Inr (k, pv_root_for E k), st1)"
    by (simp add: st_bind_def st1(1) st_ret_def)
  have "st_map (\<lambda>k. st_bind (pl_partition E k False) (\<lambda>root. st_ret (k, root))) (k # ks) st =
      (Inr (map (\<lambda>k. (k, pv_root_for E k)) (k # ks)), st2)"
    unfolding list.map by (rule st_map_run [OF one st2(1)])
  then show ?case using st2(2,4,5,6) st1(5,6) keys same_index_trans [OF st1(3) st2(3)] by auto
qed

end

section \<open>The index under reads and writes\<close>

text \<open>What index updates leave alone.\<close>

definition same_stores :: "'s partitioned_ledger \<Rightarrow> 's partitioned_ledger \<Rightarrow> bool" where
  "same_stores st st' \<longleftrightarrow>
     pl_catalog st' = pl_catalog st \<and> pd_catalog st' = pd_catalog st \<and> pl_open st' = pl_open st \<and>
     pd_stores st' = pd_stores st"

lemma same_stores_refl [simp]: "same_stores st st"
  by (simp add: same_stores_def)

lemma same_stores_trans: "same_stores a b \<Longrightarrow> same_stores b c \<Longrightarrow> same_stores a c"
  by (simp add: same_stores_def)

lemma same_stores_ok: "same_stores st st' \<Longrightarrow> stores_ok closed rep E st C \<Longrightarrow> stores_ok closed rep E st' C"
  by (simp add: same_stores_def stores_ok_def)

lemma record_lines_step:
  assumes E: "pv_ok V opener E" and st: "runs_ok (pd_runs st)"
  shows "\<exists>st'. record_lines E kind i ks st = (Inr (), st') \<and> runs_ok (pd_runs st') \<and>
    run_pairs (pd_runs st') = run_pairs (pd_runs st) \<union> (\<lambda>k. (kind, i, k)) ` set ks \<and>
    pl_sites st' = pl_sites st \<and> same_stores st st'"
proof (cases "ks = []")
  case True
  then show ?thesis using st by (simp add: record_lines_def)
next
  case False
  let ?n = "case pl_current st of None \<Rightarrow> pl_next_run st | Some n \<Rightarrow> n"
  obtain old where old: "(case map_of (pd_runs st) ?n of None \<Rightarrow> Some [] | Some f \<Rightarrow> f) = Some old"
    "case map_of (pd_runs st) ?n of None \<Rightarrow> old = [] | Some f \<Rightarrow> f = Some old"
  proof (cases "map_of (pd_runs st) ?n")
    case None
    then show thesis using that by simp
  next
    case (Some f)
    then have "f \<noteq> None" using st map_of_SomeD [OF Some] by (auto simp: runs_ok_def)
    then show thesis using that Some by auto
  qed
  let ?st = "st\<lparr>pd_runs := bt_insert ?n (Some (old @ map (IndexLine kind i) ks)) (pd_runs st), pl_current := Some ?n\<rparr>"
  have "record_lines E kind i ks st = (Inr (), ?st)"
    using E False old(1) unfolding record_lines_def by (simp add: pv_ok_def Let_def)
  moreover have "runs_ok (pd_runs ?st)" "run_pairs (pd_runs ?st) = run_pairs (pd_runs st) \<union> line_pairs (map (IndexLine kind i) ks)"
    using run_pairs_insert [OF st old(2), of "map (IndexLine kind i) ks"] by auto
  ultimately show ?thesis by (auto simp: same_stores_def)
qed

lemma note_site_step:
  assumes E: "pv_ok V opener E" and st: "index_ok st T"
  shows "\<exists>st'. note_site E kind i k st = (Inr (), st') \<and> index_ok st' (insert (kind, i, k) T) \<and> same_stores st st'"
proof -
  obtain m new where ins: "insert_site (pl_sites st kind) i k = (m, new)" by (cases "insert_site (pl_sites st kind) i k")
  have st': "map_holds (pl_sites st kd) (pairs_of kd T)" "all_complete (pl_sites st kd)" "runs_ok (pd_runs st)"
    "run_pairs (pd_runs st) = T" for kd
    using st by (simp_all add: index_ok_def)
  note holds = insert_site_holds [OF st'(1,2) ins]
  let ?st = "st\<lparr>pl_sites := (pl_sites st)(kind := m)\<rparr>"
  have sites: "map_holds (pl_sites ?st kd) (pairs_of kd (insert (kind, i, k) T)) \<and> all_complete (pl_sites ?st kd)" for kd
    using holds(1,2) st'(1,2) by (simp add: pairs_of_insert)
  show ?thesis
  proof (cases new)
    case True
    obtain st1 where st1: "record_lines E kind i [k] ?st = (Inr (), st1)" "runs_ok (pd_runs st1)"
      "run_pairs (pd_runs st1) = run_pairs (pd_runs ?st) \<union> (\<lambda>k. (kind, i, k)) ` set [k]" "pl_sites st1 = pl_sites ?st"
      "same_stores ?st st1"
      using record_lines_step [OF E, of ?st kind i "[k]"] st'(3) by auto
    have "note_site E kind i k st = (Inr (), st1)" using True st1(1) by (simp add: note_site_def ins)
    moreover have "index_ok st1 (insert (kind, i, k) T)"
      using sites st1(2,3,4) st'(4) by (simp add: index_ok_def)
    ultimately show ?thesis using st1(5) by (auto simp: same_stores_def)
  next
    case False
    then have "(kind, i, k) \<in> T" using holds(3) by (simp add: pairs_of_def)
    then have "insert (kind, i, k) T = T" by blast
    moreover have "note_site E kind i k st = (Inr (), ?st)" using False by (simp add: note_site_def ins)
    moreover have "index_ok ?st (insert (kind, i, k) T)"
      using sites st'(3,4) \<open>insert (kind, i, k) T = T\<close> by (simp add: index_ok_def)
    ultimately show ?thesis by (auto simp: same_stores_def)
  qed
qed

lemma pairs_filter_none:
  assumes "\<And>k root. (k, root) \<in> set hs \<Longrightarrow> present (pd_stores st root) i = Inr False"
  shows "st_filter (\<lambda>(k, root). ledger_read no_key (\<lambda>s. present s i) root) hs st = (Inr [], st)"
  using assms
proof (induction hs)
  case Nil
  then show ?case by (simp add: st_ret_def)
next
  case (Cons h hs)
  obtain k root where h: "h = (k, root)" by (cases h)
  then have "present (pd_stores st root) i = Inr False" using Cons.prems [of k root] by simp
  then have "ledger_read no_key (\<lambda>s. present s i) root st = (Inr False, st)" by (simp add: ledger_read_def)
  moreover have "st_filter (\<lambda>(k, root). ledger_read no_key (\<lambda>s. present s i) root) hs st = (Inr [], st)"
    by (rule Cons.IH) (use Cons.prems in auto)
  ultimately show ?case by (simp add: h st_bind_def st_ret_def)
qed

context version_store
begin

text \<open>
  Where an id lives is what the index says; an id it does not know is looked for once, in vain.
\<close>

lemma resolve_step:
  assumes E: "pv_ok V opener E" and st: "stores_ok closed rep E st C" "index_ok st T"
    and present: "\<And>s A. rep s A \<Longrightarrow> \<exists>b. present s i = Inr b \<and> (b \<longrightarrow> has A)" "\<And>k. has (C k) \<Longrightarrow> (kind, i, k) \<in> T"
  shows "\<exists>ks st'. resolve_sites E kind P present i st = (Inr ks, st') \<and> sorted_wrt (<) ks \<and>
    set ks = {k. (kind, i, k) \<in> T} \<and> stores_ok closed rep E st' C \<and> index_ok st' T \<and>
    keys_of (pl_catalog st') = keys_of (pl_catalog st)"
proof (cases "map_of (pl_sites st kind) i")
  case (Some s)
  have "si_complete s" "sorted_wrt (<) (si_partitions s)" "set (si_partitions s) = {k. (kind, i, k) \<in> T}"
    using st(2) Some map_holds_Some [of "pl_sites st kind" "pairs_of kind T" i s]
    by (auto simp: index_ok_def all_complete_def pairs_of_def)
  then show ?thesis using Some st by (simp add: resolve_sites_def)
next
  case None
  have none: "(kind, i, k) \<notin> T" for k
    using st(2) None map_holds_None [of "pl_sites st kind" "pairs_of kind T" i k] by (simp add: index_ok_def pairs_of_def)
  let ?ks = "sort (map pe_key (filter (\<lambda>e. P (pe_key e)) (pc_partitions (pl_catalog st))))"
  have "set ?ks \<subseteq> keys_of (pl_catalog st)" by (auto simp: keys_of_def)
  from snapshot_step [OF E st(1) this] obtain st1 where st1:
    "catalog_snapshot_where E P st = (Inr (map (\<lambda>k. (k, pv_root_for E k)) ?ks), st1)" "stores_ok closed rep E st1 C"
    "same_index st st1" "keys_of (pl_catalog st1) = keys_of (pl_catalog st)" "\<forall>k \<in> set ?ks. map_of (pl_open st1) k \<noteq> None"
    unfolding catalog_snapshot_where_def by blast
  have "present (pd_stores st1 root) i = Inr False" if "(k, root) \<in> set (map (\<lambda>k. (k, pv_root_for E k)) ?ks)" for k root
  proof -
    have k: "k \<in> set ?ks" "root = pv_root_for E k" using that by auto
    then have "rep (pd_stores st1 root) (C k)" using open_rep [OF st1(2)] st1(5) by blast
    then show ?thesis using present none by (metis (full_types))
  qed
  then have found: "st_filter (\<lambda>(k, root). ledger_read no_key (\<lambda>s. present s i) root)
      (map (\<lambda>k. (k, pv_root_for E k)) ?ks) st1 = (Inr [], st1)"
    by (rule pairs_filter_none)
  have idx: "index_ok st1 T" by (rule same_index_ok [OF st1(3) st(2)])
  have sites: "map_of (pl_sites st1 kind) i = None" using st1(3) None by (simp add: same_index_def)
  let ?st = "st1\<lparr>pl_sites := (pl_sites st1)(kind := bt_insert i \<lparr>si_partitions = [], si_complete = True\<rparr> (pl_sites st1 kind))\<rparr>"
  have "resolve_sites E kind P present i st = (Inr [], ?st)"
    unfolding resolve_sites_def None option.simps(4) scan_sites_def
    by (rule st_bind_run, rule st1(1), rule st_bind_run, rule found)
      (simp add: Let_def record_lines_def st_bind_def sites sites_default_def)
  moreover have "index_ok ?st T"
  proof -
    have h: "map_holds (pl_sites st1 kind) (pairs_of kind T)" using idx by (simp add: index_ok_def)
    have "map_holds (bt_insert i \<lparr>si_partitions = [], si_complete = True\<rparr> (pl_sites st1 kind)) (pairs_of kind T)"
    proof (rule map_holdsI)
      show "bt_sorted (bt_insert i \<lparr>si_partitions = [], si_complete = True\<rparr> (pl_sites st1 kind))"
        using map_holds_sorted [OF h] by simp
    qed (use map_holds_Some [OF h] map_holds_None [OF h] none in
      \<open>auto simp: map_of_bt_insert pairs_of_def split: if_splits\<close>)
    then show ?thesis using idx by (auto simp: index_ok_def all_complete_def map_of_bt_insert)
  qed
  moreover have "stores_ok closed rep E ?st C" using same_stores_ok [OF _ st1(2), of ?st] by (simp add: same_stores_def)
  ultimately show ?thesis using none st1(4) by auto
qed

text \<open>A read of one partition.\<close>

lemma read_step:
  assumes E: "pv_ok V opener E" and st: "stores_ok closed rep E st C" and k: "k \<in> keys_of (pl_catalog st)"
    and f: "\<And>s. rep s (C k) \<Longrightarrow> f s = Inr x"
  shows "\<exists>st'. read_partition E f k st = (Inr x, st') \<and> stores_ok closed rep E st' C \<and> same_index st st' \<and>
    keys_of (pl_catalog st') = keys_of (pl_catalog st)"
proof -
  obtain st1 where st1: "pl_partition E k False st = (Inr (pv_root_for E k), st1)" "stores_ok closed rep E st1 C"
    "same_index st st1" "keys_of (pl_catalog st1) = insert k (keys_of (pl_catalog st))"
    "map_of (pl_open st1) k = Some (pv_root_for E k)"
    using partition_step [OF E st, of k False] k by auto
  have r: "rep (pd_stores st1 (pv_root_for E k)) (C k)" using open_rep [OF st1(2), of k] st1(5) by simp
  have "read_partition E f k st = (Inr x, st1)"
    unfolding read_partition_def by (rule st_bind_run, rule st1(1)) (simp add: ledger_read_def f [OF r])
  then show ?thesis using st1 k by (auto simp: insert_absorb)
qed

end

section \<open>Sequences of items\<close>

lemma latest_item_Some: "latest_item A i = Some x \<Longrightarrow> x \<in> set A \<and> ledger_id x = i"
  unfolding latest_item_def by (auto dest!: find_SomeD)

lemma latest_item_ex: "x \<in> set A \<Longrightarrow> \<exists>y. latest_item A (ledger_id x) = Some y"
  unfolding latest_item_def by (cases "find (\<lambda>y. ledger_id y = ledger_id x) (rev A)") (auto simp: find_None_iff)

lemma latest_item_snoc: "latest_item (A @ [x]) i = (if ledger_id x = i then Some x else latest_item A i)"
  by (simp add: latest_item_def)

lemma as_object_Some: "as_object x = Some ob \<longleftrightarrow> x = ItObject ob"
  by (cases x) auto

lemma as_relationship_Some: "as_relationship x = Some r \<longleftrightarrow> x = ItRelationship r"
  by (cases x) auto

lemma current_object_Some: "current_object A i = Some ob \<Longrightarrow> ItObject ob \<in> set A \<and> ko_id ob = i"
  by (auto simp: current_object_def bind_eq_Some_conv as_object_Some dest!: latest_item_Some)

lemma current_relationship_Some: "current_relationship A i = Some r \<Longrightarrow> ItRelationship r \<in> set A \<and> kr_id r = i"
  by (auto simp: current_relationship_def bind_eq_Some_conv as_relationship_Some dest!: latest_item_Some)

lemma current_object_ex:
  assumes "one_kind A" "x \<in> set A" "ledger_kind x = IxObj"
  shows "\<exists>ob. current_object A (ledger_id x) = Some ob"
proof -
  obtain y where y: "latest_item A (ledger_id x) = Some y" using latest_item_ex [OF assms(2)] by blast
  then have "ledger_kind y = IxObj" using latest_item_Some assms unfolding one_kind_def by metis
  then obtain ob where "y = ItObject ob" by (cases y) auto
  then show ?thesis using y by (simp add: current_object_def)
qed

lemma put_item_one_kind:
  assumes "one_kind A" "\<And>y. y \<in> set A \<Longrightarrow> ledger_id y = ledger_id x \<Longrightarrow> ledger_kind y = ledger_kind x"
  shows "one_kind (put_item alike A x)"
proof -
  have "ledger_kind a = ledger_kind b" if "a \<in> set (A @ [x])" "b \<in> set (A @ [x])" "ledger_id a = ledger_id b" for a b
  proof -
    have new: "ledger_kind y = ledger_kind x" if "y \<in> set (A @ [x])" "ledger_id y = ledger_id x" for y
      using that assms(2) [of y] by (cases "y = x") simp_all
    show ?thesis
    proof (cases "a \<in> set A \<and> b \<in> set A")
      case True
      then show ?thesis using assms(1) that(3) unfolding one_kind_def by blast
    next
      case False
      then have "a = x \<or> b = x" using that(1,2) by auto
      then have "ledger_id a = ledger_id x \<and> ledger_id b = ledger_id x" using that(3) by metis
      then show ?thesis using new [OF that(1)] new [OF that(2)] by metis
    qed
  qed
  then have "one_kind (A @ [x])" unfolding one_kind_def by blast
  then show ?thesis using assms(1) by (simp add: put_item_def)
qed

lemma holders_in_keys:
  assumes "\<forall>k. k \<notin> K \<longrightarrow> C k = []"
  shows "holders C kind i \<subseteq> K"
proof
  fix k assume "k \<in> holders C kind i"
  then have "C k \<noteq> []" by (auto simp: holders_def)
  then show "k \<in> K" using assms by blast
qed

text \<open>A put adds its partition to the holders of its id, and nothing else.\<close>

lemma holders_put:
  assumes "\<And>x y. alike x y \<Longrightarrow> ledger_kind x = ledger_kind y"
  shows "holders (C(k := put_item alike (C k) x)) kind i =
    (if kind = ledger_kind x \<and> i = ledger_id x then insert k (holders C kind i) else holders C kind i)"
proof (cases "unchanged alike (C k) x")
  case True
  then obtain old where "latest_item (C k) (ledger_id x) = Some old" "alike old x" by (auto simp: unchanged_def)
  then have "old \<in> set (C k)" "ledger_id old = ledger_id x" "ledger_kind old = ledger_kind x"
    using latest_item_Some assms by blast+
  then have "k \<in> holders C (ledger_kind x) (ledger_id x)" by (auto simp: holders_def)
  then show ?thesis using True by (auto simp: put_item_def)
next
  case False
  then show ?thesis by (auto simp: put_item_def holders_def)
qed

section \<open>The operations\<close>

lemma partition_okD:
  assumes "partition_ok V opener closed rep E st C"
  obtains T where "pv_ok V opener E" "stores_ok closed rep E st C" "index_ok st T" "pairs_ok T C"
    "\<forall>i k. k \<in> holders C IxRel i \<longrightarrow> is_relationship_partition k"
  using assms unfolding partition_ok_def by blast

lemma holders_known: "stores_ok closed rep E st C \<Longrightarrow> holders C kind i \<subseteq> keys_of (pl_catalog st)"
  by (rule holders_in_keys) (simp add: stores_ok_def)

lemma holders_finite: "stores_ok closed rep E st C \<Longrightarrow> finite (holders C kind i)"
  by (rule finite_subset [OF holders_known]) (simp_all add: keys_of_def)

lemma sorted_last_Max: "sorted_wrt (<) ks \<Longrightarrow> ks \<noteq> [] \<Longrightarrow> last ks = Max (set (ks :: partition_key list))"
  by (rule Max_eqI [symmetric]) (auto simp: strict_sorted_iff sorted_le_last)

text \<open>A write in the ledger of an open partition.\<close>

lemma write_ok:
  assumes st: "stores_ok closed rep E st C" and k: "k \<in> keys_of (pl_catalog st)"
    and s: "rep s A" "closed s A" "one_kind A"
  shows "stores_ok closed rep E (st\<lparr>pd_stores := (pd_stores st)(pv_root_for E k := s)\<rparr>) (C(k := A))"
proof -
  have roots: "roots_ok closed E (keys_of (pl_catalog st)) (pd_stores st) C" using st by (simp add: stores_ok_def)
  then have other: "pv_root_for E k' \<noteq> pv_root_for E k" if "k' \<noteq> k" "k' \<in> keys_of (pl_catalog st)" for k'
    using that k by (auto simp: roots_ok_def dest: inj_onD)
  have "handle_ok rep E (pl_catalog st) ((pd_stores st)(pv_root_for E k := s)) (C(k := A)) k' root"
    if "handle_ok rep E (pl_catalog st) (pd_stores st) C k' root" for k' root
    using that s(1) other [of k'] by (cases "k' = k") (auto simp: handle_ok_def)
  moreover have "roots_ok closed E (keys_of (pl_catalog st)) ((pd_stores st)(pv_root_for E k := s)) (C(k := A))"
    by (rule roots_write [where closed = closed, OF roots k s(2)])
  ultimately show ?thesis using st k s(3) by (auto simp: stores_ok_def)
qed

context version_store
begin

lemma pairs_put:
  assumes "pairs_ok T C" "ledger_kind x = kind" "ledger_id x = i"
  shows "pairs_ok (insert (kind, i, k) T) (C(k := put_item alike (C k) x))"
  using assms(1) unfolding pairs_ok_def
  by (auto simp: holders_put [OF alike_kind] assms(2,3))

lemma pairs_endpoint: "pairs_ok T C \<Longrightarrow> pairs_ok (insert (IxEndpoint, i, k) T) C"
  by (simp add: pairs_ok_def)

lemma rel_partitions_put:
  assumes "\<forall>i k. k \<in> holders C IxRel i \<longrightarrow> is_relationship_partition k"
    "ledger_kind x = IxRel \<Longrightarrow> is_relationship_partition k"
  shows "\<forall>i k'. k' \<in> holders (C(k := put_item alike (C k) x)) IxRel i \<longrightarrow> is_relationship_partition k'"
  using assms by (auto simp: holders_put [OF alike_kind])

text \<open>
  The common part of the appends: the partition is registered and opened, its ledger takes the item,
  and the pair of the item's own index is noted.
\<close>

lemma put_step:
  assumes ok: "partition_ok V opener closed rep E st C"
    and own: "own_root E k st"
    and room: "\<And>st1 root. pl_partition E k True st = (Inr root, st1) \<Longrightarrow> room (pd_stores st1 root) x"
    and wr: "\<And>s A. rep s A \<Longrightarrow> room s x \<Longrightarrow> \<exists>s'. f s = (Inr (g A), s') \<and> rep s' (put_item alike A x)"
    and fresh: "\<And>y. y \<in> set (C k) \<Longrightarrow> ledger_id y = ledger_id x \<Longrightarrow> ledger_kind y = ledger_kind x"
    and rel: "ledger_kind x = IxRel \<Longrightarrow> is_relationship_partition k"
  shows "\<exists>st1 st2 st3. pl_partition E k True st = (Inr (pv_root_for E k), st1) \<and>
    ledger_write k f (pv_root_for E k) st1 = (Inr (g (C k)), st2) \<and>
    note_site E (ledger_kind x) (ledger_id x) k st2 = (Inr (), st3) \<and>
    partition_ok V opener closed rep E st3 (C(k := put_item alike (C k) x))"
proof -
  obtain T where P: "pv_ok V opener E" "stores_ok closed rep E st C" "index_ok st T" "pairs_ok T C"
    "\<forall>i k. k \<in> holders C IxRel i \<longrightarrow> is_relationship_partition k" using ok by (rule partition_okD)
  obtain st1 where st1: "pl_partition E k True st = (Inr (pv_root_for E k), st1)" "stores_ok closed rep E st1 C"
    "same_index st st1" "keys_of (pl_catalog st1) = insert k (keys_of (pl_catalog st))"
    "map_of (pl_open st1) k = Some (pv_root_for E k)"
    using partition_step [OF P(1,2), of k True] own by auto
  have r: "rep (pd_stores st1 (pv_root_for E k)) (C k)" using open_rep [OF st1(2), of k] st1(5) by simp
  obtain s' where s': "f (pd_stores st1 (pv_root_for E k)) = (Inr (g (C k)), s')" "rep s' (put_item alike (C k) x)"
    using wr [OF r room [OF st1(1)]] by blast
  let ?st2 = "st1\<lparr>pd_stores := (pd_stores st1)(pv_root_for E k := s')\<rparr>"
  have w: "ledger_write k f (pv_root_for E k) st1 = (Inr (g (C k)), ?st2)"
    by (simp add: ledger_write_def s'(1))
  have "one_kind (put_item alike (C k) x)"
    by (rule put_item_one_kind) (use P(2) fresh in \<open>auto simp: stores_ok_def\<close>)
  then have st2: "stores_ok closed rep E ?st2 (C(k := put_item alike (C k) x))"
    using st1(2,4) s'(2) closes by (intro write_ok) auto
  have "index_ok ?st2 T" using same_index_ok [OF _ P(3), of ?st2] st1(3) by (simp add: same_index_def)
  then obtain st3 where st3: "note_site E (ledger_kind x) (ledger_id x) k ?st2 = (Inr (), st3)"
    "index_ok st3 (insert (ledger_kind x, ledger_id x, k) T)" "same_stores ?st2 st3"
    using note_site_step [OF P(1)] by blast
  have "partition_ok V opener closed rep E st3 (C(k := put_item alike (C k) x))"
    unfolding partition_ok_def
    using P(1) same_stores_ok [OF st3(3) st2] st3(2) pairs_put [OF P(4), of x "ledger_kind x" "ledger_id x" k, OF refl refl] rel_partitions_put [OF P(5) rel]
    by blast
  then show ?thesis using st1(1) w st3(1) by blast
qed

lemma append_object_step:
  assumes "partition_ok V opener closed rep E st C" "key_for E ob = Inr k" "own_root E k st"
    "\<And>st1 root. pl_partition E k True st = (Inr root, st1) \<Longrightarrow> room (pd_stores st1 root) (ItObject ob)"
    "\<And>y. y \<in> set (C k) \<Longrightarrow> ledger_id y = ko_id ob \<Longrightarrow> ledger_kind y = IxObj"
  shows "\<exists>st'. pl_append_object E ob st = (Inr (\<not> unchanged alike (C k) (ItObject ob)), st') \<and>
    partition_ok V opener closed rep E st' (C(k := put_item alike (C k) (ItObject ob)))"
proof -
  have V: "pv_store E = V" using assms(1) by (simp add: partition_ok_def pv_ok_def)
  obtain st1 st2 st3 where r: "pl_partition E k True st = (Inr (pv_root_for E k), st1)"
    "ledger_write k (ks_append_object V ob) (pv_root_for E k) st1 = (Inr (\<not> unchanged alike (C k) (ItObject ob)), st2)"
    "note_site E (ledger_kind (ItObject ob)) (ledger_id (ItObject ob)) k st2 = (Inr (), st3)"
    "partition_ok V opener closed rep E st3 (C(k := put_item alike (C k) (ItObject ob)))"
    using put_step [where k = k and x = "ItObject ob" and f = "ks_append_object V ob" and
        g = "\<lambda>A. \<not> unchanged alike A (ItObject ob)", OF assms(1,3,4) append_object] assms(5) by auto
  have "pl_append_object E ob st = (Inr (\<not> unchanged alike (C k) (ItObject ob)), st3)"
    unfolding pl_append_object_def V
    by (rule st_bind_run, simp add: st_lift_def assms(2), rule st_bind_run, rule r(1), rule st_bind_run, rule r(2),
      rule st_bind_run, rule r(3) [simplified]) (simp add: st_ret_def)
  then show ?thesis using r(4) by blast
qed

lemma append_relationship_step:
  assumes k_def: "k = relationship_key_for E r"
    and ok: "partition_ok V opener closed rep E st C" and own: "own_root E k st"
    and room: "\<And>st1 root. pl_partition E k True st = (Inr root, st1) \<Longrightarrow> room (pd_stores st1 root) (ItRelationship r)"
    and fresh: "\<And>y. y \<in> set (C k) \<Longrightarrow> ledger_id y = kr_id r \<Longrightarrow> ledger_kind y = IxRel"
  shows "\<exists>st'. pl_append_relationship E r st = (Inr (\<not> unchanged alike (C k) (ItRelationship r)), st') \<and>
    partition_ok V opener closed rep E st' (C(k := put_item alike (C k) (ItRelationship r)))"
proof -
  let ?C = "C(k := put_item alike (C k) (ItRelationship r))"
  have E: "pv_ok V opener E" using ok by (simp add: partition_ok_def)
  then have V: "pv_store E = V" by (simp add: pv_ok_def)
  have rel: "is_relationship_partition k"
    by (simp add: k_def relationship_key_for_def is_relationship_partition_def starts_with_def)
  obtain st1 st2 st3 where s: "pl_partition E k True st = (Inr (pv_root_for E k), st1)"
    "ledger_write k (ks_append_relationship V r) (pv_root_for E k) st1 =
       (Inr (\<not> unchanged alike (C k) (ItRelationship r)), st2)"
    "note_site E (ledger_kind (ItRelationship r)) (ledger_id (ItRelationship r)) k st2 = (Inr (), st3)"
    "partition_ok V opener closed rep E st3 ?C"
    using put_step [where k = k and x = "ItRelationship r" and f = "ks_append_relationship V r" and
        g = "\<lambda>A. \<not> unchanged alike A (ItRelationship r)", OF ok own room append_relationship] fresh rel by auto
  have endpoint: "\<exists>st'. note_site E IxEndpoint i k st = (Inr (), st') \<and> partition_ok V opener closed rep E st' ?C"
    if ok': "partition_ok V opener closed rep E st ?C" for i st
  proof -
    obtain T where P: "stores_ok closed rep E st ?C" "index_ok st T" "pairs_ok T ?C"
      "\<forall>i k. k \<in> holders ?C IxRel i \<longrightarrow> is_relationship_partition k" using ok' unfolding partition_ok_def by blast
    from note_site_step [OF E P(2), of IxEndpoint i k] obtain st' where "note_site E IxEndpoint i k st = (Inr (), st')"
      "index_ok st' (insert (IxEndpoint, i, k) T)" "same_stores st st'" by blast
    then show ?thesis
      using E same_stores_ok [OF _ P(1)] pairs_endpoint [OF P(3)] P(4) unfolding partition_ok_def by blast
  qed
  obtain st4 where st4: "note_site E IxEndpoint (kr_from r) k st3 = (Inr (), st4)" "partition_ok V opener closed rep E st4 ?C"
    using endpoint [OF s(4)] by blast
  obtain st5 where st5: "note_site E IxEndpoint (kr_to r) k st4 = (Inr (), st5)" "partition_ok V opener closed rep E st5 ?C"
    using endpoint [OF st4(2)] by blast
  have "pl_append_relationship E r st = (Inr (\<not> unchanged alike (C k) (ItRelationship r)), st5)"
    unfolding pl_append_relationship_def V Let_def k_def [symmetric]
    by (rule st_bind_run, rule s(1), rule st_bind_run, rule s(2), rule st_bind_run, rule s(3) [simplified],
      rule st_bind_run, rule st4(1), rule st_bind_run, rule st5(1)) (simp add: st_ret_def)
  then show ?thesis using st5(2) by blast
qed

end

section \<open>Point reads\<close>

definition in_items :: "index_kind \<Rightarrow> kir_id \<Rightarrow> 'n ledger_item list \<Rightarrow> bool" where
  "in_items kind i A \<longleftrightarrow> (\<exists>x \<in> set A. ledger_kind x = kind \<and> ledger_id x = i)"

context version_store
begin

lemma found_object:
  assumes "rep s A"
  shows "\<exists>b. found_some (ks_get_object V) s i = Inr b \<and> (b \<longrightarrow> in_items IxObj i A)"
proof -
  have "found_some (ks_get_object V) s i = Inr (current_object A i \<noteq> None)"
    by (simp add: found_some_def get_object [OF assms])
  moreover have "in_items IxObj i A" if "current_object A i = Some y" for y
    using current_object_Some [OF that] unfolding in_items_def by (intro bexI [of _ "ItObject y"]) simp_all
  ultimately show ?thesis by auto
qed

lemma found_relationship:
  assumes "rep s A"
  shows "\<exists>b. found_some (ks_get_relationship V) s i = Inr b \<and> (b \<longrightarrow> in_items IxRel i A)"
proof -
  have "found_some (ks_get_relationship V) s i = Inr (current_relationship A i \<noteq> None)"
    by (simp add: found_some_def get_relationship [OF assms])
  moreover have "in_items IxRel i A" if "current_relationship A i = Some y" for y
    using current_relationship_Some [OF that] unfolding in_items_def by (intro bexI [of _ "ItRelationship y"]) simp_all
  ultimately show ?thesis by auto
qed

text \<open>The newest partition answers.\<close>

lemma newest_step:
  assumes E: "pv_ok V opener E" and st: "stores_ok closed rep E st C"
    and ks: "sorted_wrt (<) ks" "set ks = holders C kind i"
    and f: "\<And>s A. rep s A \<Longrightarrow> f s = Inr (cur A)"
  shows "\<exists>st'. read_newest E f ks st = (Inr (if holders C kind i = {} then None else cur (C (Max (holders C kind i)))), st') \<and>
    stores_ok closed rep E st' C \<and> same_index st st'"
proof (cases "ks = []")
  case True
  then show ?thesis using st ks(2) by (auto simp: read_newest_def st_ret_def)
next
  case False
  have k: "last ks = Max (holders C kind i)" "holders C kind i \<noteq> {}"
    using sorted_last_Max [OF ks(1) False] ks(2) False by auto
  have "last ks \<in> holders C kind i" using ks(2) False by (metis last_in_set)
  then have "last ks \<in> keys_of (pl_catalog st)" using holders_known [OF st] by blast
  from read_step [OF E st this, of f "cur (C (last ks))"] f obtain st' where
    "read_partition E f (last ks) st = (Inr (cur (C (last ks))), st')" "stores_ok closed rep E st' C" "same_index st st'"
    by blast
  then show ?thesis using False k unfolding read_newest_def by auto
qed

lemma get_object_step:
  assumes "partition_ok V opener closed rep E st C"
  shows "\<exists>st'. pl_get_object E i st = (Inr (newest_object C i), st') \<and> partition_ok V opener closed rep E st' C"
proof -
  obtain T where P: "pv_ok V opener E" "stores_ok closed rep E st C" "index_ok st T" "pairs_ok T C"
    "\<forall>i k. k \<in> holders C IxRel i \<longrightarrow> is_relationship_partition k" using assms by (rule partition_okD)
  have V: "pv_store E = V" using P(1) by (simp add: pv_ok_def)
  have T: "{k. (IxObj, i, k) \<in> T} = holders C IxObj i" using P(4) by (auto simp: pairs_ok_def)
  have known: "(IxObj, i, k) \<in> T" if "in_items IxObj i (C k)" for k
    using that T by (auto simp: holders_def in_items_def)
  from resolve_step [where kind = IxObj and i = i and present = "found_some (ks_get_object V)" and has = "in_items IxObj i",
      OF P(1-3) found_object known] obtain ks st1 where st1: "obj_sites E i st = (Inr ks, st1)"
    "sorted_wrt (<) ks" "set ks = holders C IxObj i" "stores_ok closed rep E st1 C" "index_ok st1 T"
    unfolding T V [symmetric] obj_sites_def by blast
  from newest_step [where f = "\<lambda>s. ks_get_object V s i" and cur = "\<lambda>A. current_object A i",
      OF P(1) st1(4,2,3) get_object] obtain st2 where st2:
    "read_newest E (\<lambda>s. ks_get_object V s i) ks st1 = (Inr (newest_object C i), st2)"
    "stores_ok closed rep E st2 C" "same_index st1 st2" unfolding newest_object_def by blast
  have "pl_get_object E i st = (Inr (newest_object C i), st2)"
    unfolding pl_get_object_def V by (rule st_bind_run, rule st1(1), rule st2(1))
  then show ?thesis using P(1,4,5) st2(2) same_index_ok [OF st2(3) st1(5)] unfolding partition_ok_def by blast
qed

lemma get_relationship_step:
  assumes "partition_ok V opener closed rep E st C"
  shows "\<exists>st'. pl_get_relationship E i st = (Inr (newest_relationship C i), st') \<and> partition_ok V opener closed rep E st' C"
proof -
  obtain T where P: "pv_ok V opener E" "stores_ok closed rep E st C" "index_ok st T" "pairs_ok T C"
    "\<forall>i k. k \<in> holders C IxRel i \<longrightarrow> is_relationship_partition k" using assms by (rule partition_okD)
  have V: "pv_store E = V" using P(1) by (simp add: pv_ok_def)
  have T: "{k. (IxRel, i, k) \<in> T} = holders C IxRel i" using P(4) by (auto simp: pairs_ok_def)
  have known: "(IxRel, i, k) \<in> T" if "in_items IxRel i (C k)" for k
    using that T by (auto simp: holders_def in_items_def)
  from resolve_step [where kind = IxRel and i = i and present = "found_some (ks_get_relationship V)" and has = "in_items IxRel i",
      OF P(1-3) found_relationship known] obtain ks st1 where st1: "rel_id_sites E i st = (Inr ks, st1)"
    "sorted_wrt (<) ks" "set ks = holders C IxRel i" "stores_ok closed rep E st1 C" "index_ok st1 T"
    unfolding T V [symmetric] rel_id_sites_def by blast
  from newest_step [where f = "\<lambda>s. ks_get_relationship V s i" and cur = "\<lambda>A. current_relationship A i",
      OF P(1) st1(4,2,3) get_relationship] obtain st2 where st2:
    "read_newest E (\<lambda>s. ks_get_relationship V s i) ks st1 = (Inr (newest_relationship C i), st2)"
    "stores_ok closed rep E st2 C" "same_index st1 st2" unfolding newest_relationship_def by blast
  have "pl_get_relationship E i st = (Inr (newest_relationship C i), st2)"
    unfolding pl_get_relationship_def V by (rule st_bind_run, rule st1(1), rule st2(1))
  then show ?thesis using P(1,4,5) st2(2) same_index_ok [OF st2(3) st1(5)] unfolding partition_ok_def by blast
qed

end

section \<open>The bulk read\<close>

text \<open>Last wins: over partitions in ascending order the newest version of an id remains.\<close>

definition rows_of :: "(partition_key \<Rightarrow> 'a list) \<Rightarrow> partition_key list \<Rightarrow> 'a list" where
  "rows_of L ks = concat (map L ks)"

lemma map_of_rev_append: "map_of (rev (xs @ ys)) i = (case map_of (rev ys) i of None \<Rightarrow> map_of (rev xs) i | Some y \<Rightarrow> Some y)"
  by (simp add: map_of_append map_add_def)

lemma last_row:
  assumes "sorted_wrt (<) ks" "\<And>k. map_of (rev (map (\<lambda>x. (ident x, x)) (L k))) i = cur k"
  shows "map_of (rev (map (\<lambda>x. (ident x, x)) (rows_of L ks))) i =
    (let H = {k \<in> set ks. cur k \<noteq> None} in if H = {} then None else cur (Max H))"
  using assms(1)
proof (induction ks rule: rev_induct)
  case Nil
  then show ?case by (simp add: rows_of_def)
next
  case (snoc k ks)
  let ?H = "{k \<in> set ks. cur k \<noteq> None}"
  have less: "\<forall>k' \<in> set ks. k' < k" using snoc.prems by (simp add: sorted_wrt_append)
  have step: "map_of (rev (map (\<lambda>x. (ident x, x)) (rows_of L (ks @ [k])))) i =
      (case cur k of None \<Rightarrow> map_of (rev (map (\<lambda>x. (ident x, x)) (rows_of L ks))) i | Some y \<Rightarrow> Some y)"
    using map_of_rev_append [of "map (\<lambda>x. (ident x, x)) (rows_of L ks)" "map (\<lambda>x. (ident x, x)) (L k)" i]
    by (simp add: rows_of_def assms(2))
  have IH: "map_of (rev (map (\<lambda>x. (ident x, x)) (rows_of L ks))) i = (let H = ?H in if H = {} then None else cur (Max H))"
    using snoc by (simp add: sorted_wrt_append)
  show ?case
  proof (cases "cur k")
    case None
    have h: "{k' \<in> set (ks @ [k]). cur k' \<noteq> None} = ?H" using None by auto
    show ?thesis unfolding step h IH using None by simp
  next
    case (Some y)
    have h: "{k' \<in> set (ks @ [k]). cur k' \<noteq> None} = insert k ?H" using Some by auto
    have "Max (insert k ?H) = k" by (rule Max_eqI) (use less in auto)
    then show ?thesis unfolding step h using Some by simp
  qed
qed

lemma dedup_last_spec:
  assumes "\<And>us. mset (pv_hash_order E us) = mset us"
  shows "distinct (map ident (dedup_last E ident xs))"
    "x \<in> set (dedup_last E ident xs) \<longleftrightarrow> map_of (rev (map (\<lambda>x. (ident x, x)) xs)) (ident x) = Some x"
proof -
  let ?m = "map_of (rev (map (\<lambda>x. (ident x, x)) xs))"
  let ?us = "pv_hash_order E (remdups (map ident xs))"
  have m: "i \<in> ident ` set xs \<longleftrightarrow> ?m i \<noteq> None" for i
    by (auto simp: map_of_eq_None_iff image_iff)
  have ident: "ident y = i" if "?m i = Some y" for i y using map_of_SomeD [OF that] by auto
  have us: "set ?us = ident ` set xs" "distinct ?us"
    using mset_eq_setD [OF assms] mset_eq_imp_distinct_iff [OF assms] by auto
  have d: "dedup_last E ident xs = map (\<lambda>i. the (?m i)) ?us" by (simp add: dedup_last_def Let_def)
  have bk: "ident (the (?m i)) = i" if "i \<in> set ?us" for i
  proof -
    have "i \<in> ident ` set xs" using that us(1) by simp
    then obtain y where y: "?m i = Some y" using m by blast
    show ?thesis using ident [OF y] by (simp add: y)
  qed
  have "map ident (dedup_last E ident xs) = ?us" unfolding d by (simp add: map_idI bk)
  then show "distinct (map ident (dedup_last E ident xs))" using us(2) by simp
  show "x \<in> set (dedup_last E ident xs) \<longleftrightarrow> ?m (ident x) = Some x"
  proof
    assume "x \<in> set (dedup_last E ident xs)"
    then obtain i where i: "i \<in> set ?us" "x = the (?m i)" unfolding d by auto
    then show "?m (ident x) = Some x" using bk [OF i(1)] m [of i] us(1) by auto
  next
    assume x: "?m (ident x) = Some x"
    then have "ident x \<in> set ?us" using m us(1) by auto
    then show "x \<in> set (dedup_last E ident xs)" unfolding d using x by force
  qed
qed

lemma rows_map_of:
  assumes "distinct (map ident xs)" "set xs = {x. cur (ident x) = Some x}" "\<And>i x. cur i = Some x \<Longrightarrow> ident x = i"
  shows "map_of (rev (map (\<lambda>x. (ident x, x)) xs)) i = cur i"
proof -
  have d: "distinct (map fst (map (\<lambda>x. (ident x, x)) xs))" using assms(1) by (simp add: comp_def)
  show ?thesis
  proof (cases "cur i")
    case None
    have "i \<notin> fst ` set (map (\<lambda>x. (ident x, x)) xs)" using None assms(2) by auto
    then show ?thesis using None by (simp add: map_of_rev_distinct [OF d] map_of_eq_None_iff)
  next
    case (Some x)
    then have "x \<in> set xs" using assms(2,3) by auto
    then have "(i, x) \<in> set (map (\<lambda>x. (ident x, x)) xs)" using assms(3) [OF Some] by auto
    then show ?thesis using Some d by (simp add: map_of_rev_distinct [OF d])
  qed
qed

lemma read_all_open:
  assumes "\<And>k root. (k, root) \<in> set hs \<Longrightarrow> f (pd_stores st root) = Inr (L k)"
  shows "st_map (\<lambda>(k, root). ledger_read k f root) hs st = (Inr (map (L \<circ> fst) hs), st)"
  using assms
proof (induction hs)
  case Nil
  then show ?case by (simp add: st_ret_def)
next
  case (Cons h hs)
  obtain k root where h: "h = (k, root)" by (cases h)
  have "f (pd_stores st root) = Inr (L k)" using Cons.prems [of k root] h by simp
  then have one: "(\<lambda>(k, root). ledger_read k f root) h st = (Inr (L k), st)" by (simp add: h ledger_read_def)
  have "st_map (\<lambda>(k, root). ledger_read k f root) hs st = (Inr (map (L \<circ> fst) hs), st)"
    by (rule Cons.IH) (use Cons.prems in auto)
  from st_map_run [OF one this] show ?case by (simp add: h)
qed

context version_store
begin

lemma newest_object_unfold:
  assumes st: "stores_ok closed rep E st C" and ks: "set ks = keys_of (pl_catalog st)"
  shows "newest_object C i = (let H = {k \<in> set ks. current_object (C k) i \<noteq> None} in
    if H = {} then None else current_object (C (Max H)) i)"
proof -
  have "current_object (C k) i \<noteq> None \<longleftrightarrow> k \<in> holders C IxObj i" for k
  proof
    assume "current_object (C k) i \<noteq> None"
    then obtain ob where "current_object (C k) i = Some ob" by blast
    then have "ItObject ob \<in> set (C k)" "ko_id ob = i" using current_object_Some by blast+
    then show "k \<in> holders C IxObj i" unfolding holders_def by (auto intro!: bexI [of _ "ItObject ob"])
  next
    assume "k \<in> holders C IxObj i"
    then obtain x where "x \<in> set (C k)" "ledger_kind x = IxObj" "ledger_id x = i" by (auto simp: holders_def)
    then show "current_object (C k) i \<noteq> None"
      using current_object_ex [of "C k" x] st by (auto simp: stores_ok_def)
  qed
  then have "{k \<in> set ks. current_object (C k) i \<noteq> None} = holders C IxObj i"
    using holders_known [OF st, of IxObj i] ks by auto
  then show ?thesis by (simp add: newest_object_def)
qed

lemma all_objects_step:
  assumes ok: "partition_ok V opener closed rep E st C"
  shows "\<exists>obs st'. pl_all_objects E st = (Inr obs, st') \<and> partition_ok V opener closed rep E st' C \<and>
    distinct (map ko_id obs) \<and> set obs = {ob. newest_object C (ko_id ob) = Some ob}"
proof -
  obtain T where P: "pv_ok V opener E" "stores_ok closed rep E st C" "index_ok st T" "pairs_ok T C"
    "\<forall>i k. k \<in> holders C IxRel i \<longrightarrow> is_relationship_partition k" using ok by (rule partition_okD)
  have V: "pv_store E = V" and perm: "mset (pv_hash_order E us) = mset us" for us using P(1) by (simp_all add: pv_ok_def)
  let ?ks = "sort (map pe_key (filter (\<lambda>e. True) (pc_partitions (pl_catalog st))))"
  have ks: "set ?ks = keys_of (pl_catalog st)" by (simp add: keys_of_def)
  have sorted: "sorted_wrt (<) ?ks"
    using catalog_keys_distinct [of E "pl_catalog st"] P(2) by (simp add: strict_sorted_iff stores_ok_def)
  from snapshot_step [OF P(1,2), of ?ks] ks obtain st1 where st1:
    "catalog_snapshot_where E (\<lambda>_. True) st = (Inr (map (\<lambda>k. (k, pv_root_for E k)) ?ks), st1)"
    "stores_ok closed rep E st1 C" "same_index st st1" "keys_of (pl_catalog st1) = keys_of (pl_catalog st)"
    "\<forall>k \<in> set ?ks. map_of (pl_open st1) k \<noteq> None"
    unfolding catalog_snapshot_where_def by auto
  have rep1: "rep (pd_stores st1 (pv_root_for E k)) (C k)" if "k \<in> set ?ks" for k
    using open_rep [OF st1(2)] st1(5) that by blast
  define L where "L = (\<lambda>k. case ks_all_objects V (pd_stores st1 (pv_root_for E k)) of Inr obs \<Rightarrow> obs | Inl _ \<Rightarrow> [])"
  have L: "ks_all_objects V (pd_stores st1 (pv_root_for E k)) = Inr (L k)" "distinct (map ko_id (L k))"
    "set (L k) = {ob. current_object (C k) (ko_id ob) = Some ob}" if k: "k \<in> set ?ks" for k
  proof -
    obtain obs where o: "ks_all_objects V (pd_stores st1 (pv_root_for E k)) = Inr obs" "distinct (map ko_id obs)"
      "set obs = {ob. current_object (C k) (ko_id ob) = Some ob}" using all_objects [OF rep1 [OF k]] by blast
    have "L k = obs" by (simp add: L_def o(1))
    then show "ks_all_objects V (pd_stores st1 (pv_root_for E k)) = Inr (L k)" "distinct (map ko_id (L k))"
      "set (L k) = {ob. current_object (C k) (ko_id ob) = Some ob}" using o by blast+
  qed
  have rows: "st_map (\<lambda>(k, root). ledger_read k (ks_all_objects V) root) (map (\<lambda>k. (k, pv_root_for E k)) ?ks) st1 =
      (Inr (map L ?ks), st1)"
    using read_all_open [of "map (\<lambda>k. (k, pv_root_for E k)) ?ks" "ks_all_objects V" st1 L] L(1) by (auto simp: comp_def)
  let ?obs = "dedup_current E (rows_of L ?ks)"
  have run: "pl_all_objects E st = (Inr ?obs, st1)"
    unfolding pl_all_objects_def fan_out_def V
    by (rule st_bind_run, rule st_bind_run, rule st1(1), rule rows) (simp add: st_ret_def rows_of_def)
  define L' where "L' = (\<lambda>k. if k \<in> set ?ks then L k else [])"
  define cur where "cur = (\<lambda>i k. if k \<in> set ?ks then current_object (C k) i else None)"
  have same: "rows_of L' ?ks = rows_of L ?ks" unfolding rows_of_def L'_def by (rule arg_cong [of _ _ concat]) simp
  have each: "map_of (rev (map (\<lambda>x. (ko_id x, x)) (L' k))) i = cur i k" for i k
  proof (cases "k \<in> set ?ks")
    case True
    have "map_of (rev (map (\<lambda>x. (ko_id x, x)) (L k))) i = current_object (C k) i"
      by (rule rows_map_of [OF L(2) [OF True] L(3) [OF True]]) (use current_object_Some in blast)
    then show ?thesis using True by (simp add: L'_def cur_def)
  qed (simp add: L'_def cur_def)
  have last: "map_of (rev (map (\<lambda>x. (ko_id x, x)) (rows_of L ?ks))) i =
      (let H = {k \<in> set ?ks. cur i k \<noteq> None} in if H = {} then None else cur i (Max H))" for i
    using last_row [where L = L' and cur = "cur i" and i = i, OF sorted each] unfolding same .
  have newest: "(let H = {k \<in> set ?ks. cur i k \<noteq> None} in if H = {} then None else cur i (Max H)) = newest_object C i" for i
  proof -
    have H: "{k \<in> set ?ks. cur i k \<noteq> None} = {k \<in> set ?ks. current_object (C k) i \<noteq> None}" by (auto simp: cur_def)
    have "cur i (Max H) = current_object (C (Max H)) i" if "H \<subseteq> set ?ks" "H \<noteq> {}" for H
    proof -
      have "Max H \<in> set ?ks" using Max_in [OF finite_subset [OF that(1)] that(2)] that(1) by auto
      then show ?thesis unfolding cur_def by (rule if_P)
    qed
    then show ?thesis unfolding newest_object_unfold [OF P(2) ks] H Let_def by auto
  qed
  note spec = dedup_last_spec [where E = E and ident = ko_id and xs = "rows_of L ?ks", OF perm]
  have "x \<in> set ?obs \<longleftrightarrow> newest_object C (ko_id x) = Some x" for x
    unfolding dedup_current_def spec(2) last newest ..
  then have "set ?obs = {ob. newest_object C (ko_id ob) = Some ob}" by blast
  moreover have "distinct (map ko_id ?obs)" unfolding dedup_current_def by (rule spec(1))
  moreover have "partition_ok V opener closed rep E st1 C"
    using P(1,4,5) st1(2) same_index_ok [OF st1(3) P(3)] unfolding partition_ok_def by blast
  ultimately show ?thesis using run by blast
qed

end

section \<open>Restarts and tiers\<close>

text \<open>A handle is dropped and another opened on what is on disk.\<close>

definition reopen :: "('s, 'n) partition_env \<Rightarrow> 's partitioned_ledger \<Rightarrow> partition_error + 's partitioned_ledger" where
  "reopen E st = pl_new E \<lparr>pd_catalog = pd_catalog st, pd_runs = pd_runs st, pd_stores = pd_stores st\<rparr>"

lemma check_config_ok: "stored \<in> {None, Some v} \<Longrightarrow> check_config field stored v = Inr ()"
  by (auto simp: check_config_def)

lemma map_of_filter_fst: "map_of (filter (\<lambda>h. fst h \<notin> S) xs) k = (if k \<in> S then None else map_of xs k)"
  by (induction xs) auto

lemma runs_ok_single: "BadLine \<notin> set ls \<Longrightarrow> runs_ok [(n, Some ls)]"
  by (simp add: runs_ok_def bt_sorted_def)

context version_store
begin

lemma reopen_step:
  assumes ok: "partition_ok V opener closed rep E st C"
  shows "\<exists>st'. reopen E st = Inr st' \<and> partition_ok V opener closed rep E st' C \<and> pl_catalog st' = pl_catalog st"
proof -
  obtain T where P: "pv_ok V opener E" "stores_ok closed rep E st C" "index_ok st T" "pairs_ok T C"
    "\<forall>i k. k \<in> holders C IxRel i \<longrightarrow> is_relationship_partition k" using ok by (rule partition_okD)
  let ?c = "pl_catalog st"
  have cat: "(case pd_catalog st of NoCatalog \<Rightarrow> Inr catalog_default | CorruptCatalog \<Rightarrow> Inl (PartCatalogParse (catalog_path E))
      | SavedCatalog c \<Rightarrow> Inr c) = Inr ?c"
    using P(2) by (auto simp: stores_ok_def)
  have c: "catalog_ok E ?c" using P(2) by (simp add: stores_ok_def)
  have conf: "check_config ''dimension'' (pc_dimension ?c) (dimension_as_str (pv_dimension E)) = Inr ()"
    "check_config ''time-bucket'' (pc_time_bucket ?c) (bucket_as_str (pv_time_bucket E)) = Inr ()"
    using c by (auto simp: catalog_ok_def intro!: check_config_ok)
  have runs: "runs_ok (pd_runs st)" "run_pairs (pd_runs st) = T" using P(3) by (simp_all add: index_ok_def)
  obtain M where M: "fold_runs (index_dir E) (pd_runs st) (\<lambda>_. []) = Inr M" "maps_hold M T"
    using fold_runs_holds [OF maps_hold_empty, of "pd_runs st" "index_dir E"] runs by (auto simp: runs_ok_def)
  define n where "n = (if pd_runs st = [] then 1 else fst (last (pd_runs st)) + 1)"
  define compact where "compact \<longleftrightarrow> COMPACT_AT \<le> length (map fst (pd_runs st)) \<and> \<not> maps_empty M"
  let ?runs = "if compact then [(n, Some (run_lines M))] else pd_runs st"
  let ?st = "\<lparr>pd_catalog = pd_catalog st, pd_runs = ?runs, pd_stores = pd_stores st, pl_catalog = ?c, pl_open = [],
      pl_sites = mark_all_complete M, pl_next_run = (if compact then n + 1 else n), pl_current = None\<rparr>"
  have "\<not> pv_index_fails E" using P(1) by (simp add: pv_ok_def)
  then have "reopen E st = Inr ?st"
    unfolding reopen_def pl_new_def by (simp add: cat conf load_index_def M(1) n_def compact_def Let_def)
  moreover have "stores_ok closed rep E ?st C" using P(2) by (simp add: stores_ok_def)
  moreover have "index_ok ?st T"
  proof -
    have "runs_ok ?runs" using runs(1) run_lines_pairs(2) [OF M(2)] by (simp add: runs_ok_single)
    moreover have "run_pairs ?runs = T"
      using runs(2) run_lines_pairs(1) [OF M(2)] by (auto simp: run_pairs_Cons line_pairs_def)
    ultimately show ?thesis using mark_holds [OF M(2)] by (simp add: index_ok_def maps_hold_def)
  qed
  ultimately show ?thesis using P(1,4,5) unfolding partition_ok_def by auto
qed

lemma mark_cold_step:
  assumes ok: "partition_ok V opener closed rep E st C"
  shows "\<exists>n st'. mark_cold_before E cutoff st = (Inr n, st') \<and> partition_ok V opener closed rep E st' C"
proof -
  obtain T where P: "pv_ok V opener E" "stores_ok closed rep E st C" "index_ok st T" "pairs_ok T C"
    "\<forall>i k. k \<in> holders C IxRel i \<longrightarrow> is_relationship_partition k" using ok by (rule partition_okD)
  let ?c = "pl_catalog st" and ?b = "bucket_label (pv_format E) (pv_time_bucket E) cutoff"
  let ?es = "map (\<lambda>e. if old_and_hot ?b e then e\<lparr>pe_tier := Cold\<rparr> else e) (pc_partitions ?c)"
  let ?demoted = "map pe_key (filter (old_and_hot ?b) (pc_partitions ?c))"
  show ?thesis
  proof (cases "?demoted = []")
    case True
    then have "mark_cold_before E cutoff st = (Inr 0, st)" by (simp add: mark_cold_before_def Let_def)
    then show ?thesis using ok by blast
  next
    case False
    let ?c1 = "?c\<lparr>pc_partitions := ?es\<rparr>"
    let ?st = "st\<lparr>pl_catalog := ?c1, pd_catalog := SavedCatalog ?c1,
        pl_open := filter (\<lambda>h. fst h \<notin> set ?demoted) (pl_open st)\<rparr>"
    have c: "catalog_ok E ?c" using P(2) by (simp add: stores_ok_def)
    have "map pe_key ?es = map pe_key (pc_partitions ?c)" "map pe_root ?es = map pe_root (pc_partitions ?c)" by simp_all
    note c1 = retier_ok [OF c this]
    have "\<not> pv_catalog_fails E" using P(1) by (simp add: pv_ok_def)
    then have "mark_cold_before E cutoff st = (Inr (length ?demoted), ?st)"
      using False by (simp add: mark_cold_before_def Let_def st_bind_def persist_catalog_def)
    moreover have "handle_ok rep E ?c1 (pd_stores st) C k root" if "map_of (pl_open ?st) k = Some root" for k root
    proof -
      have "map_of (pl_open st) k = Some root" using that by (simp add: map_of_filter_fst split: if_splits)
      then have "handle_ok rep E ?c (pd_stores st) C k root" using P(2) by (simp add: stores_ok_def)
      then show ?thesis unfolding handle_ok_def c1(2) .
    qed
    then have "stores_ok closed rep E ?st C" using P(2) c1 by (simp add: stores_ok_def)
    moreover have "index_ok ?st T" using P(3) by (simp add: index_ok_def)
    ultimately show ?thesis using P(1,4,5) unfolding partition_ok_def by blast
  qed
qed

end

end
