(* ===== verification/Ledger_Refinement.thy ===== *)
theory Ledger_Refinement
  imports Fact_Ledger
begin

text \<open>
  The fact ledger refines a versioned key-value store.  Its abstract state is the list of commits
  (entity, wall clock, payload); \<open>ledger_rep\<close> relates it to the segments, runs, memtable, caches
  and checkpoints of a handle.  Appends, flushes and checkpoints keep the relation, and every
  read is a lookup in the abstract state.
\<close>

section \<open>What the store does not touch\<close>

definition later_free :: "fs \<Rightarrow> nat \<Rightarrow> bool" where
  "later_free fs n \<longleftrightarrow> (\<forall>i > n. fs (seg_key i) = None)"

lemma seal_frame:
  assumes "seal_active C st fs = (r, st', fs')" "i \<noteq> hd_active_seq (st_head st) + 1"
  shows "fs' (seg_key i) = fs (seg_key i)"
proof -
  have pub: "fs1 = fs \<or> (\<exists>m. fs1 = save_manifest C local_fs m fs)" "hd_active_seq (st_head st1) = hd_active_seq (st_head st)"
    if "seal_publish C st fs = (r1, st1, fs1)" for r1 st1 fs1
    using that by (auto simp: seal_publish_def Let_def local_fs_def lfs_publish_sealed_def
        split: sum.splits if_splits option.splits)
  show ?thesis
  proof (cases "seal_publish C st fs")
    case (fields r1 st1 fs1)
    then show ?thesis using assms pub [OF fields]
      by (auto simp: seal_active_def seal_roll_def Let_def split: if_splits sum.splits)
  qed
qed

lemma append_frame:
  assumes "append_with_seal C ops wall st fs = (r, st', fs')"
    and "i \<noteq> hd_active_seq (st_head st)" "i \<noteq> hd_active_seq (st_head st) + 1"
  shows "fs' (seg_key i) = fs (seg_key i)"
proof -
  obtain h fs1 st1 where fs1: "fs1 (seg_key i) = fs (seg_key i)" "hd_active_seq (st_head st1) = hd_active_seq (st_head st)"
    and r: "(r, st', fs') = (Inl (SegCorrupt ''read-only segment store''), st, fs) \<or> fs' = fs1 \<or>
      (\<exists>r'. seal_active C st1 fs1 = (r', st', fs'))"
  proof
    let ?frame = "encode_frame C (st_dict st) \<lparr>b_tx = st_next_tx st, b_wall = wall, b_ops = ops\<rparr>"
    let ?path = "seg_key (hd_active_seq (st_head st))"
    let ?h = "(st_head st)\<lparr>hd_committed_len := hd_committed_len (st_head st) + length ?frame\<rparr>"
    let ?fs1 = "write_head C ?h (fs(?path \<mapsto> file_bytes ?path fs @ ?frame))"
    let ?st1 = "st\<lparr>st_next_tx := st_next_tx st + 1, st_head := ?h\<rparr>"
    show "?fs1 (seg_key i) = fs (seg_key i)" using assms(2) by simp
    show "hd_active_seq (st_head ?st1) = hd_active_seq (st_head st)" by simp
    show "(r, st', fs') = (Inl (SegCorrupt ''read-only segment store''), st, fs) \<or> fs' = ?fs1 \<or>
      (\<exists>r'. seal_active C ?st1 ?fs1 = (r', st', fs'))"
      using assms(1) by (auto simp: append_with_seal_def Let_def split: if_splits prod.splits sum.splits)
  qed
  then show ?thesis using seal_frame [of C st1 fs1 _ st' fs' i] assms(3) by auto
qed

lemma unsealed_frame:
  assumes "append_with_seal C ops wall st fs = (Inr (tx, False), st', fs')" "i \<noteq> hd_active_seq (st_head st)"
  shows "fs' (seg_key i) = fs (seg_key i)"
  using assms by (auto simp: append_with_seal_def Let_def split: if_splits prod.splits sum.splits)

text \<open>The sidecar files of the root directory are not the store's.\<close>

definition side_files :: "string set" where
  "side_files = {''provenance.jsonl'', ''checkpoints.jsonl''}"

lemma side_files_frame:
  assumes "p \<in> side_files"
  shows "write_head C h fs p = fs p" "save_manifest C local_fs m fs p = fs p" "p \<noteq> seg_key i"
  using assms
  by (auto simp: side_files_def write_head_def atomic_write_def save_manifest_def local_fs_def lfs_publish_def
      with_extension_names seg_key_def)

lemma seal_side_file:
  assumes "seal_active C st fs = (r, st', fs')" "p \<in> side_files"
  shows "fs' p = fs p"
proof -
  have pub: "fs1 = fs \<or> (\<exists>m. fs1 = save_manifest C local_fs m fs)"
    if "seal_publish C st fs = (r1, st1, fs1)" for r1 st1 fs1
    using that by (auto simp: seal_publish_def Let_def local_fs_def lfs_publish_sealed_def
        split: sum.splits if_splits option.splits)
  show ?thesis
  proof (cases "seal_publish C st fs")
    case (fields r1 st1 fs1)
    then have "fs1 p = fs p" using pub [OF fields] side_files_frame(2) [OF assms(2)] by auto
    then show ?thesis using assms(1) fields
      by (auto simp: seal_active_def seal_roll_def Let_def side_files_frame [OF assms(2)] split: if_splits sum.splits)
  qed
qed

lemma append_side_file:
  assumes "append_with_seal C ops wall st fs = (r, st', fs')" "p \<in> side_files"
  shows "fs' p = fs p"
  using assms(1)
  by (auto simp: append_with_seal_def Let_def side_files_frame [OF assms(2)] dest!: seal_side_file [OF _ assms(2)]
      split: if_splits prod.splits sum.splits)

lemma intern_side_file: "p \<in> side_files \<Longrightarrow> lg_root (intern_attributes E reg s) p = lg_root s p"
  by (simp add: intern_attributes_def Let_def persist_manifest_def side_files_frame)

lemma store_rep_sidecar:
  assumes "store_rep C fs st bss act" "p = ''provenance.jsonl'' \<or> p = ''checkpoints.jsonl''"
  shows "store_rep C (fs(p \<mapsto> bs)) st bss act"
proof -
  have [simp]: "''provenance.jsonl'' \<noteq> seg_key i" "''checkpoints.jsonl'' \<noteq> seg_key i"
    "seg_key i \<noteq> ''provenance.jsonl''" "seg_key i \<noteq> ''checkpoints.jsonl''" for i
    by (simp_all add: seg_key_def)
  have "load_manifest C local_fs (fs(p \<mapsto> bs)) = load_manifest C local_fs fs"
    "stored_head C (fs(p \<mapsto> bs)) = stored_head C fs"
    using assms(2) by (auto simp: load_manifest_def stored_head_def local_fs_def lfs_exists_def lfs_get_def)
  moreover have "load_dict m (fs(p \<mapsto> bs)) = load_dict m fs" for m
  proof -
    have g: "be_get local_fs ''dict.bin'' (fs(p \<mapsto> bs)) = be_get local_fs ''dict.bin'' fs"
      using assms(2) by (auto simp: local_fs_def lfs_get_def)
    show ?thesis unfolding load_dict_def g ..
  qed
  moreover have "(fs(p \<mapsto> bs)) (seg_key i) = fs (seg_key i)" for i using assms(2) by auto
  moreover from this have "file_bytes (seg_key i) (fs(p \<mapsto> bs)) = file_bytes (seg_key i) fs" for i
    by (simp add: file_bytes_def)
  ultimately show ?thesis using assms(1) unfolding store_rep_def disk_rep_def by simp
qed

lemma sidecar_segments: "p = ''provenance.jsonl'' \<or> p = ''checkpoints.jsonl'' \<Longrightarrow>
    later_free (fs(p \<mapsto> bs)) n = later_free fs n"
  by (auto simp: later_free_def seg_key_def)

lemma store_rep_intern:
  assumes C: "seg_codec_ok C" and rep: "store_rep C fs st bss act" and reg: "reg_ok reg"
  defines "st' \<equiv> st\<lparr>st_manifest := (st_manifest st)\<lparr>mf_attributes := reg\<rparr>\<rparr>"
  shows "store_rep C (persist_manifest C st' fs) st' bss act"
proof -
  let ?m = "(st_manifest st)\<lparr>mf_attributes := reg\<rparr>"
  have "load_dict ?m fs = load_dict (st_manifest st) fs" by (simp add: load_dict_def)
  then show ?thesis
    using rep reg load_save_manifest [OF C, of ?m]
    unfolding store_rep_def disk_rep_def st'_def persist_manifest_def
    by (simp add: load_dict_frame stored_head_frame)
qed

section \<open>The abstract state\<close>

type_synonym 'n commits = "(uuid \<times> int \<times> 'n jmap) list"

text \<open>The payload an entity has at transaction \<open>t\<close>: the last one committed up to \<open>t\<close>.\<close>

definition commits_of :: "'n commits \<Rightarrow> nat \<Rightarrow> uuid \<Rightarrow> 'n jmap list" where
  "commits_of A t u = map (snd \<circ> snd) (filter (\<lambda>c. fst c = u) (take (Suc t) A))"

definition lookup_at :: "'n commits \<Rightarrow> nat \<Rightarrow> uuid \<Rightarrow> 'n jmap option" where
  "lookup_at A t u = (if commits_of A t u = [] then None else Some (last (commits_of A t u)))"

definition hist :: "'n batch list \<Rightarrow> uuid \<Rightarrow> 'n index_entry list" where
  "hist bs u = filter (\<lambda>e. ie_entity e = u) (entries_from_batches bs)"

text \<open>The live slots \<open>S\<close> are those of the payload \<open>m\<close>, decomposed under an earlier registry.\<close>

definition represents ::
  "uuid_text \<Rightarrow> registry \<Rightarrow> uuid \<Rightarrow> 'n jmap \<Rightarrow> (slot \<Rightarrow> 'n fact_value option) \<Rightarrow> bool" where
  "represents U reg u m S \<longleftrightarrow>
     (\<exists>reg0 facts reg1. reg_ok reg0 \<and> decompose U u (JObject m) reg0 = Inr (facts, reg1) \<and>
        length (reg_names reg1) \<le> 2 ^ 32 \<and> reg_le reg1 reg \<and> wf_json (JObject m) \<and> refs_fit m \<and> m \<noteq> [] \<and>
        S = (\<lambda>k. map_option f_value (fact_map facts k)))"

definition commits_rep ::
  "uuid_text \<Rightarrow> registry \<Rightarrow> 'n batch list \<Rightarrow> 'n commits \<Rightarrow> bool" where
  "commits_rep U reg bs A \<longleftrightarrow>
     map b_tx bs = [0..<length bs] \<and> map b_wall bs = map (fst \<circ> snd) A \<and>
     (\<forall>i < length bs. \<forall>p \<in> set (b_ops (bs ! i)). f_entity (snd p) = fst (A ! i)) \<and>
     (\<forall>u t. case lookup_at A t u of
        None \<Rightarrow> slot_map (Some t) (hist bs u) = Map.empty
      | Some m \<Rightarrow> represents U reg u m (slot_map (Some t) (hist bs u)))"

lemma entries_snoc: "entries_from_batches (bs @ [b]) = entries_from_batches bs @ batch_entries (b_tx b) (b_ops b)"
  by (simp add: entries_from_batches_def batch_entries_def)

lemma entries_append: "entries_from_batches (xs @ ys) = entries_from_batches xs @ entries_from_batches ys"
  by (simp add: entries_from_batches_def)

lemma hist_snoc:
  assumes "\<forall>p \<in> set (b_ops b). f_entity (snd p) = v"
  shows "hist (bs @ [b]) u = hist bs u @ (if u = v then batch_entries (b_tx b) (b_ops b) else [])"
proof -
  have "filter (\<lambda>e. ie_entity e = u) (batch_entries (b_tx b) (b_ops b)) =
      (if u = v then batch_entries (b_tx b) (b_ops b) else [])"
    using assms by (auto simp: batch_entries_def filter_map comp_def from_fact_def split_beta filter_empty_conv
        intro!: filter_True)
  then show ?thesis by (simp add: hist_def entries_snoc)
qed

lemma entries_tx_less: "map b_tx bs = [0..<length bs] \<Longrightarrow> e \<in> set (entries_from_batches bs) \<Longrightarrow> ie_tx e < length bs"
proof -
  assume tx: "map b_tx bs = [0..<length bs]" and e: "e \<in> set (entries_from_batches bs)"
  then obtain b where "b \<in> set bs" "ie_tx e = b_tx b"
    by (auto simp: entries_from_batches_def from_fact_def)
  then have "ie_tx e \<in> set (map b_tx bs)" by simp
  then show ?thesis unfolding tx by simp
qed

lemma hist_tx_less: "map b_tx bs = [0..<length bs] \<Longrightarrow> e \<in> set (hist bs u) \<Longrightarrow> ie_tx e < length bs"
  by (simp add: hist_def entries_tx_less)

lemma slot_map_all:
  assumes "\<And>e. e \<in> set es \<Longrightarrow> \<not> beyond till (ie_tx e)" "\<And>e. e \<in> set es \<Longrightarrow> \<not> beyond till' (ie_tx e)"
  shows "slot_map till es = slot_map till' es"
proof
  fix k
  have "slot_entries till k es = slot_entries till' k es"
    unfolding slot_entries_def by (rule filter_cong [OF refl]) (use assms in auto)
  then show "slot_map till es k = slot_map till' es k" by (simp add: slot_map_def)
qed

lemma slot_map_later:
  assumes "\<And>e. e \<in> set ys \<Longrightarrow> beyond till (ie_tx e)"
  shows "slot_map till (xs @ ys) = slot_map till xs"
proof
  fix k
  have "slot_entries till k ys = []"
    using assms by (auto simp: slot_entries_def filter_empty_conv)
  then show "slot_map till (xs @ ys) k = slot_map till xs k" by (simp add: slot_map_def)
qed

lemma lookup_at_snoc:
  "lookup_at (A @ [(u, w, m)]) t v =
     (if t \<ge> length A \<and> v = u then Some m else lookup_at A t v)"
proof (cases "t \<ge> length A")
  case True
  then have "take (Suc t) (A @ [(u, w, m)]) = A @ [(u, w, m)]" "take (Suc t) A = A" by simp_all
  then show ?thesis using True by (simp add: lookup_at_def commits_of_def)
next
  case False
  then have "take (Suc t) (A @ [(u, w, m)]) = take (Suc t) A" by simp
  then show ?thesis using False by (simp add: lookup_at_def commits_of_def)
qed

lemma diff_facts: "(op, f) \<in> set (diff old new) \<Longrightarrow> f \<in> set old \<union> set new"
proof -
  assume "(op, f) \<in> set (diff old new)"
  then have "(op, f) \<in> set (filter (\<lambda>p. fact_key (snd p) = fact_key f) (diff old new))" by simp
  then have "fact_map old (fact_key f) = Some f \<or> fact_map new (fact_key f) = Some f"
    unfolding filter_diff filter_diff_side by (auto split: option.splits if_splits)
  then show "f \<in> set old \<union> set new" using fact_map_Some by blast
qed

lemma represents_mono: "represents U reg u m S \<Longrightarrow> reg_le reg reg' \<Longrightarrow> represents U reg' u m S"
  unfolding represents_def using reg_le_trans by blast

text \<open>Committing the diff to a new payload extends the abstract state by that payload.\<close>

lemma commits_rep_snoc:
  assumes rep: "commits_rep U reg bs A"
    and reg: "reg_ok reg" "decompose U u (JObject m) reg = Inr (new, reg')" "length (reg_names reg') \<le> 2 ^ 32"
    and m: "wf_json (JObject m)" "refs_fit m" "m \<noteq> []"
    and b_def: "b = \<lparr>b_tx = length bs, b_wall = w,
      b_ops = diff (facts_of u (slot_map None (hist bs u))) new\<rparr>"
  shows "commits_rep U reg' (bs @ [b]) (A @ [(u, w, m)])"
proof -
  note R = rep [unfolded commits_rep_def]
  have len: "length A = length bs" using R by (metis length_map)
  have ent: "\<forall>p \<in> set (b_ops b). f_entity (snd p) = u"
  proof
    fix p
    assume "p \<in> set (b_ops b)"
    then have "snd p \<in> set (facts_of u (slot_map None (hist bs u))) \<union> set new"
      using diff_facts [of "fst p" "snd p"] by (simp add: b_def)
    then show "f_entity (snd p) = u"
      using set_facts_of [OF finite_slot_map] decompose_keys(2) [OF m(1,2) reg] by blast
  qed
  have le: "reg_le reg reg'" using decompose_emits [OF reg(2,1,3)] by blast
  have slots: "case lookup_at (A @ [(u, w, m)]) t v of
        None \<Rightarrow> slot_map (Some t) (hist (bs @ [b]) v) = Map.empty
      | Some m' \<Rightarrow> represents U reg' v m' (slot_map (Some t) (hist (bs @ [b]) v))" for t v
  proof (cases "t \<ge> length A \<and> v = u")
    case True
    have nb: "\<not> beyond (Some t) (ie_tx e)" if "e \<in> set (hist bs u)" for e
      using True len R hist_tx_less [OF _ that] by (simp add: beyond_def)
    have "slot_map None (hist bs u) = slot_map (Some t) (hist bs u)"
      by (rule slot_map_all) (use nb in \<open>simp_all add: beyond_def\<close>)
    then have "hist (bs @ [b]) u = hist bs u @ batch_entries (length bs)
        (diff (facts_of u (slot_map (Some t) (hist bs u))) new)"
      using hist_snoc [OF ent, of bs u] by (simp add: b_def)
    moreover have "slot_map (Some t) (hist bs u @ batch_entries (length bs)
        (diff (facts_of u (slot_map (Some t) (hist bs u))) new)) = (\<lambda>k. map_option f_value (fact_map new k))"
      by (rule slot_map_diff) (use True len R hist_tx_less in \<open>auto simp: beyond_def\<close>)
    ultimately have "represents U reg' u m (slot_map (Some t) (hist (bs @ [b]) u))"
      unfolding represents_def using reg m reg_le_refl by metis
    then show ?thesis using True by (simp add: lookup_at_snoc)
  next
    case False
    have "slot_map (Some t) (hist (bs @ [b]) v) = slot_map (Some t) (hist bs v)"
    proof (cases "v = u")
      case True
      then have "t < length bs" using False len by simp
      then have "beyond (Some t) (ie_tx e)" if "e \<in> set (batch_entries (b_tx b) (b_ops b))" for e
        using that by (auto simp: batch_entries_def from_fact_def beyond_def b_def)
      then have "slot_map (Some t) (hist bs v @ batch_entries (b_tx b) (b_ops b)) = slot_map (Some t) (hist bs v)"
        by (rule slot_map_later)
      then show ?thesis using hist_snoc [OF ent, of bs v] True by simp
    next
      case ne: False
      then show ?thesis using hist_snoc [OF ent, of bs v] by simp
    qed
    moreover have "lookup_at (A @ [(u, w, m)]) t v = lookup_at A t v"
      unfolding lookup_at_snoc using False by (rule if_not_P)
    moreover have "case lookup_at A t v of
        None \<Rightarrow> slot_map (Some t) (hist bs v) = Map.empty
      | Some m' \<Rightarrow> represents U reg v m' (slot_map (Some t) (hist bs v))" using R by blast
    ultimately show ?thesis using represents_mono [OF _ le] by (auto split: option.splits)
  qed
  have txs: "map b_tx (bs @ [b]) = [0..<length (bs @ [b])]" "map b_wall (bs @ [b]) = map (fst \<circ> snd) (A @ [(u, w, m)])"
    using R by (simp_all add: b_def)
  have ops: "\<forall>i < length (bs @ [b]). \<forall>p \<in> set (b_ops ((bs @ [b]) ! i)). f_entity (snd p) = fst ((A @ [(u, w, m)]) ! i)"
    using R ent len by (auto simp: nth_append less_Suc_eq)
  show ?thesis unfolding commits_rep_def using txs ops slots by blast
qed

section \<open>The relation\<close>

definition covered :: "'n inner \<Rightarrow> nat" where
  "covered i = (case in_marker i of None \<Rightarrow> 0 | Some t \<Rightarrow> Suc t)"

text \<open>Runs and memtable split the history at the marker; run files are named after transactions.\<close>

definition index_rep :: "'n ledger_env \<Rightarrow> 'n ledger \<Rightarrow> 'n batch list \<Rightarrow> bool" where
  "index_rep E s bs \<longleftrightarrow>
     (let i = lg_inner s; n = covered i
      in n \<le> length bs \<and>
         index_holds (le_idx E) (le_dir E) (in_runs i, lg_index s) (entries_from_batches (take n bs)) \<and>
         in_memtable i = entries_from_batches (drop n bs) \<and>
         (\<forall>order. \<forall>run \<in> set (fi_runs (in_runs i) order).
            ir_path run = run_path order ''merged'' \<or> (\<exists>t < n. ir_path run = run_path order (tx_name t))))"

definition caches_ok :: "'n ledger_env \<Rightarrow> 'n inner \<Rightarrow> 'n batch list \<Rightarrow> 'n commits \<Rightarrow> bool" where
  "caches_ok E i bs A \<longleftrightarrow>
     in_times i = map (\<lambda>b. (b_tx b, b_wall b)) bs \<and>
     (\<forall>u sig. in_sigs i u = Some sig \<longrightarrow>
        (\<exists>m. lookup_at A U64_MAX u = Some m \<and> sig = content_signature E (JObject m))) \<and>
     (\<forall>u t facts. (t, facts) \<in> set (in_checkpoints i u) \<longrightarrow>
        t < length bs \<and> facts = facts_of u (slot_map (Some t) (hist bs u)))"

definition store_part ::
  "'n ledger_env \<Rightarrow> 'n ledger \<Rightarrow> 'n batch list list \<Rightarrow> 'n batch list \<Rightarrow> bool" where
  "store_part E s bss act \<longleftrightarrow>
     seg_codec_ok (le_seg E) \<and> store_rep (le_seg E) (lg_root s) (in_store (lg_inner s)) bss act \<and>
     later_free (lg_root s) (length bss)"

definition ledger_rep :: "'n ledger_env \<Rightarrow> 'n ledger \<Rightarrow> 'n batch list \<Rightarrow> 'n commits \<Rightarrow> bool" where
  "ledger_rep E s bs A \<longleftrightarrow>
     (\<exists>bss act. bs = concat bss @ act \<and> store_part E s bss act) \<and> index_rep E s bs \<and> caches_ok E (lg_inner s) bs A \<and>
     commits_rep (le_uuid E) (mf_attributes (st_manifest (in_store (lg_inner s)))) bs A \<and>
     (\<forall>e \<in> set (entries_from_batches bs). entry_fits e) \<and> length bs \<le> U64_MAX \<and> \<not> in_read_only (lg_inner s)"

lemma index_rep_cong:
  assumes eq: "in_runs (lg_inner s') = in_runs (lg_inner s)" "in_marker (lg_inner s') = in_marker (lg_inner s)"
    "in_memtable (lg_inner s') = in_memtable (lg_inner s)" "lg_index s' = lg_index s"
    and rep: "index_rep E s bs"
  shows "index_rep E s' bs"
  using rep unfolding index_rep_def covered_def Let_def eq .

section \<open>Reads are lookups\<close>

lemma entity_entries_rep:
  assumes "index_rep E s bs"
  shows "\<exists>es. entity_entries E s u = Inr es \<and> same_history es (hist bs u) \<and> (\<forall>e \<in> set es. ie_entity e = u)"
proof -
  let ?n = "covered (lg_inner s)"
  obtain es where es: "fi_scan (le_idx E) (EntityPrefix u None) (in_runs (lg_inner s), lg_index s) = Inr es"
    "same_history (es @ filter (\<lambda>e. ie_entity e = u) (entries_from_batches (drop ?n bs)))
       (filter (\<lambda>e. ie_entity e = u) (entries_from_batches (take ?n bs) @ entries_from_batches (drop ?n bs)))"
    using ix.scan_with_tail assms unfolding index_rep_def Let_def by blast
  have all: "entries_from_batches (take ?n bs) @ entries_from_batches (drop ?n bs) = entries_from_batches bs"
    by (simp only: entries_append [symmetric] append_take_drop_id)
  have mem: "in_memtable (lg_inner s) = entries_from_batches (drop ?n bs)"
    using assms unfolding index_rep_def Let_def by (elim conjE)
  have h: "same_history (es @ filter (\<lambda>e. ie_entity e = u) (in_memtable (lg_inner s))) (hist bs u)"
    using es(2) unfolding all mem hist_def .
  have ball: "\<forall>e \<in> set (es @ filter (\<lambda>e. ie_entity e = u) (in_memtable (lg_inner s))). ie_entity e = u"
  proof
    fix e
    assume "e \<in> set (es @ filter (\<lambda>e. ie_entity e = u) (in_memtable (lg_inner s)))"
    then have "e \<in> set (hist bs u)" unfolding same_history_set [OF h] .
    then show "ie_entity e = u" by (simp add: hist_def)
  qed
  have "entity_entries E s u = Inr (es @ filter (\<lambda>e. ie_entity e = u) (in_memtable (lg_inner s)))"
    unfolding entity_entries_def es(1) sum.case ..
  then show ?thesis using h ball by blast
qed

lemma checkpoint_at_in: "checkpoint_at s u till = Some c \<Longrightarrow>
    c \<in> set (in_checkpoints (lg_inner s) u) \<and> \<not> beyond till (fst c)"
proof -
  assume "checkpoint_at s u till = Some c"
  then have "filter (\<lambda>c. \<not> beyond till (fst c)) (in_checkpoints (lg_inner s) u) \<noteq> []"
    "c = last (filter (\<lambda>c. \<not> beyond till (fst c)) (in_checkpoints (lg_inner s) u))"
    by (auto simp: checkpoint_at_def Let_def split: if_splits)
  then have "c \<in> set (filter (\<lambda>c. \<not> beyond till (fst c)) (in_checkpoints (lg_inner s) u))" by (metis last_in_set)
  then show ?thesis by simp
qed

text \<open>The state read through a checkpoint is the fold of the whole history.\<close>

lemma state_at_rep:
  assumes "index_rep E s bs" "caches_ok E (lg_inner s) bs A"
  shows "state_at E s u till = Inr (facts_of u (slot_map till (hist bs u)))"
proof -
  obtain es where es: "entity_entries E s u = Inr es" "same_history es (hist bs u)" "\<forall>e \<in> set es. ie_entity e = u"
    using entity_entries_rep [OF assms(1)] by blast
  have eq: "slot_map c es = slot_map c (hist bs u)" for c by (rule slot_map_history [OF es(2,3)])
  show ?thesis
  proof (cases "checkpoint_at s u till")
    case None
    then show ?thesis using es(1) by (simp add: state_at_def fold_state_facts eq)
  next
    case (Some c)
    obtain t facts where c: "c = (t, facts)" by (cases c)
    have "facts = facts_of u (slot_map (Some t) es)" "\<not> beyond till t"
      using checkpoint_at_in [OF Some] assms(2) by (auto simp: c caches_ok_def eq)
    then have "slot_map till (seeded t facts es) = slot_map till (hist bs u)"
      using slot_map_seeded [of till t u es] eq by metis
    then show ?thesis using es(1) Some by (simp add: state_at_def c fold_state_facts)
  qed
qed

lemma represents_reconstruct:
  assumes "represents U reg u m S" "reg_ok reg"
  shows "facts_of u S \<noteq> [] \<and> reconstruct U (facts_of u S) reg = Inr (JObject m)"
proof -
  obtain reg0 facts reg1 where r: "reg_ok reg0" "decompose U u (JObject m) reg0 = Inr (facts, reg1)"
    "length (reg_names reg1) \<le> 2 ^ 32" "reg_le reg1 reg" "wf_json (JObject m)" "refs_fit m" "m \<noteq> []"
    "S = (\<lambda>k. map_option f_value (fact_map facts k))"
    using assms(1) by (auto simp: represents_def)
  have rec: "reconstruct U (facts_of u S) reg = Inr (JObject m)"
    by (rule facts_of_decompose(2) [OF r(5,6,1,2,3,8) assms(2) r(4)])
  then show ?thesis using r(7) by (auto simp: reconstruct_def group_entries_def)
qed

lemma store_reg_ok: "store_part E s bss act \<Longrightarrow> reg_ok (mf_attributes (st_manifest (in_store (lg_inner s))))"
  by (simp add: store_part_def store_rep_def disk_rep_def)

lemma ledger_reg_ok: "ledger_rep E s bs A \<Longrightarrow> reg_ok (mf_attributes (st_manifest (in_store (lg_inner s))))"
  unfolding ledger_rep_def using store_reg_ok by blast

lemma reconstruct_at_rep:
  assumes "ledger_rep E s bs A"
  shows "reconstruct_at E s u t = Inr (map_option JObject (lookup_at A t u))"
proof -
  have st: "state_at E s u (Some t) = Inr (facts_of u (slot_map (Some t) (hist bs u)))"
    using state_at_rep assms unfolding ledger_rep_def by blast
  have c: "case lookup_at A t u of
        None \<Rightarrow> slot_map (Some t) (hist bs u) = Map.empty
      | Some m \<Rightarrow> represents (le_uuid E) (mf_attributes (st_manifest (in_store (lg_inner s)))) u m
          (slot_map (Some t) (hist bs u))"
    using assms unfolding ledger_rep_def commits_rep_def by blast
  show ?thesis
  proof (cases "lookup_at A t u")
    case None
    then have "facts_of u (slot_map (Some t) (hist bs u)) = []" using c by (simp add: facts_of_def)
    then show ?thesis using None st by (simp add: reconstruct_at_def)
  next
    case (Some m)
    then have "represents (le_uuid E) (mf_attributes (st_manifest (in_store (lg_inner s)))) u m
        (slot_map (Some t) (hist bs u))" using c by simp
    from represents_reconstruct [OF this ledger_reg_ok [OF assms]]
    show ?thesis using Some st by (simp add: reconstruct_at_def reconstruct_res_def)
  qed
qed

section \<open>Flushing\<close>

lemma tx_name_eq [simp]: "tx_name a = tx_name b \<longleftrightarrow> a = b"
  unfolding tx_name_def by (metis nat_val_pad nat_val_show)

lemma tx_name_merged [simp]: "tx_name t \<noteq> ''merged''" "''merged'' \<noteq> tx_name t"
proof -
  have "12 \<le> length (tx_name t)" by (simp add: tx_name_def pad_zero_def)
  then show "tx_name t \<noteq> ''merged''" by auto
  then show "''merged'' \<noteq> tx_name t" by simp
qed

lemma run_open_path: "run_open D p fs = Inr run \<Longrightarrow> ir_path run = p"
  by (auto simp: run_open_def Let_def split: option.splits if_splits)

lemma add_run_paths:
  assumes "add_run K D name M order s = Inr s'" "run \<in> set (fi_runs (fst s') o2)"
  shows "run \<in> set (fi_runs (fst s) o2) \<or> ir_path run = run_path o2 name"
  using assms by (auto simp: add_run_def Let_def split: sum.splits if_splits dest: run_open_path)

lemma add_runs_paths:
  assumes "add_runs K D name M s = Inr s'" "run \<in> set (fi_runs (fst s') o2)"
  shows "run \<in> set (fi_runs (fst s) o2) \<or> ir_path run = run_path o2 name"
proof -
  obtain s1 s2 where "add_run K D name M Eavt s = Inr s1" "add_run K D name M Aevt s1 = Inr s2"
    "add_run K D name M Avet s2 = Inr s'"
    using assms(1) by (auto simp: add_runs_def all_orders_def split: sum.splits)
  then show ?thesis using assms(2) add_run_paths by blast
qed

lemma merge_runs_paths:
  assumes "merge_runs K D order s = Inr s'" "run \<in> set (fi_runs (fst s') o2)"
  shows "run \<in> set (fi_runs (fst s) o2) \<or> ir_path run = run_path o2 ''merged''"
  using assms by (auto simp: merge_runs_def Let_def split: sum.splits if_splits dest: run_open_path)

lemma compact_fold_paths:
  "fold_res (compact_order E) orders s = Inr s' \<Longrightarrow> run \<in> set (fi_runs (fst s') o2) \<Longrightarrow>
    run \<in> set (fi_runs (fst s) o2) \<or> ir_path run = run_path o2 ''merged''"
proof (induction orders arbitrary: s)
  case (Cons order orders)
  then obtain s1 where s1: "compact_order E order s = Inr s1" "fold_res (compact_order E) orders s1 = Inr s'"
    by (auto split: sum.splits)
  have "r \<in> set (fi_runs (fst s) o2) \<or> ir_path r = run_path o2 ''merged''" if "r \<in> set (fi_runs (fst s1) o2)" for r
    using s1(1) that merge_runs_paths [of "le_idx E" "le_dir E" order s s1 r o2]
    by (auto simp: compact_order_def split: if_splits)
  then show ?case using Cons.IH [OF s1(2) Cons.prems(2)] by blast
qed simp

lemma run_path_last_tx [simp]: "run_path order n \<noteq> ''last_tx''"
  by (cases order) (simp_all add: run_path_def)

lemma index_holds_marker:
  assumes "index_holds K D (runs, fs) H"
  shows "index_holds K D (runs, fs(''last_tx'' \<mapsto> b)) H"
proof -
  have "order_rep K (runs, fs(''last_tx'' \<mapsto> b)) order rss" if rep: "order_rep K (runs, fs) order rss" for order rss
  proof (rule order_rep_frame [OF rep])
    fix run
    assume "run \<in> set (fi_runs (fst (runs, fs)) order)"
    then obtain n where "ir_path run = run_path order n" using rep by (auto simp: order_rep_def)
    then show "snd (runs, fs(''last_tx'' \<mapsto> b)) (ir_path run) = snd (runs, fs) (ir_path run)" by simp
  qed simp
  then show ?thesis using assms unfolding index_holds_def fi_holds_def by blast
qed

text \<open>Capacity: the run files a flush of \<open>M\<close> after \<open>H\<close> may write.\<close>

definition flush_room :: "'n ledger_env \<Rightarrow> 'n index_entry list \<Rightarrow> 'n index_entry list \<Rightarrow> bool" where
  "flush_room E M H \<longleftrightarrow>
     (\<forall>order. run_fits (le_idx E) (le_dir E) order (sorted_raws (le_idx E) order M)) \<and>
     (\<forall>order. index_room_merged (le_idx E) (le_dir E) order H)"

lemma flush_rep:
  assumes rep: "index_rep E s bs" and tx: "length bs = Suc tx"
    and fits: "\<forall>e \<in> set (entries_from_batches bs). entry_fits e"
    and room: "flush_room E (in_memtable (lg_inner s)) (entries_from_batches bs)"
  shows "\<exists>runs marker mem index. flush_memtable E tx s =
      (Inr (), s\<lparr>lg_inner := (lg_inner s)\<lparr>in_runs := runs, in_marker := marker, in_memtable := mem\<rparr>, lg_index := index\<rparr>) \<and>
    index_rep E (s\<lparr>lg_inner := (lg_inner s)\<lparr>in_runs := runs, in_marker := marker, in_memtable := mem\<rparr>, lg_index := index\<rparr>) bs"
proof (cases "in_memtable (lg_inner s) = []")
  case True
  then have f: "flush_memtable E tx s = (Inr (), s)" by (simp add: flush_memtable_def Let_def)
  have eq: "s\<lparr>lg_inner := (lg_inner s)\<lparr>in_runs := in_runs (lg_inner s), in_marker := in_marker (lg_inner s),
      in_memtable := in_memtable (lg_inner s)\<rparr>, lg_index := lg_index s\<rparr> = s" by simp
  show ?thesis
    by (rule exI [of _ "in_runs (lg_inner s)"], rule exI [of _ "in_marker (lg_inner s)"],
        rule exI [of _ "in_memtable (lg_inner s)"], rule exI [of _ "lg_index s"]) (simp only: eq f rep simp_thms)
next
  case False
  let ?i = "lg_inner s" and ?n = "covered (lg_inner s)" and ?K = "le_idx E" and ?D = "le_dir E"
  have R: "?n \<le> length bs" "index_holds ?K ?D (in_runs ?i, lg_index s) (entries_from_batches (take ?n bs))"
    "in_memtable ?i = entries_from_batches (drop ?n bs)"
    "\<And>order run. run \<in> set (fi_runs (in_runs ?i) order) \<Longrightarrow>
       ir_path run = run_path order ''merged'' \<or> (\<exists>t < ?n. ir_path run = run_path order (tx_name t))"
    using rep unfolding index_rep_def Let_def by blast+
  have n: "?n \<le> tx"
  proof (rule ccontr)
    assume "\<not> ?n \<le> tx"
    then have "drop ?n bs = []" using tx by simp
    then show False using False R(3) by (simp add: entries_from_batches_def)
  qed
  have all: "entries_from_batches (take ?n bs) @ in_memtable ?i = entries_from_batches bs"
    unfolding R(3) by (simp only: entries_append [symmetric] append_take_drop_id)
  have fresh: "ir_path run \<noteq> run_path order (tx_name tx)" if "run \<in> set (fi_runs (in_runs ?i) order)" for order run
    using R(4) [OF that] n by auto
  have "\<forall>e \<in> set (in_memtable ?i). entry_fits e" using fits all by (metis UnCI set_append)
  then have "index_room ?K ?D (tx_name tx) (in_memtable ?i) (in_runs ?i, lg_index s)"
    using room fresh by (simp add: index_room_def flush_room_def)
  from ix.add_holds [OF R(2) this, unfolded all]
  obtain runs1 index1 where add: "add_runs ?K ?D (tx_name tx) (in_memtable ?i) (in_runs ?i, lg_index s) = Inr (runs1, index1)"
    "index_holds ?K ?D (runs1, index1) (entries_from_batches bs)"
    by (metis surj_pair)
  obtain runs2 index2 where comp: "fold_res (compact_order E) all_orders (runs1, write_marker tx index1) = Inr (runs2, index2)"
    "index_holds ?K ?D (runs2, index2) (entries_from_batches bs)"
  proof -
    have "index_holds ?K ?D (runs1, write_marker tx index1) (entries_from_batches bs)"
      unfolding write_marker_def by (rule index_holds_marker [OF add(2)])
    moreover have "\<forall>order \<in> set all_orders. index_room_merged ?K ?D order (entries_from_batches bs)"
      using room by (simp add: flush_room_def)
    moreover have "compact_order E order s = merge_runs ?K ?D order s \<or> compact_order E order s = Inr s" for order s
      by (simp add: compact_order_def)
    ultimately have "\<exists>s'. fold_res (compact_order E) all_orders (runs1, write_marker tx index1) = Inr s' \<and>
        index_holds ?K ?D s' (entries_from_batches bs)" by (rule ix.compactions_hold)
    then show ?thesis using that by (metis surj_pair)
  qed
  let ?s' = "s\<lparr>lg_inner := ?i\<lparr>in_runs := runs2, in_marker := Some tx, in_memtable := []\<rparr>, lg_index := index2\<rparr>"
  have flush: "flush_memtable E tx s = (Inr (), ?s')"
    using False add(1) comp(1) by (simp add: flush_memtable_def Let_def)
  have names: "ir_path run = run_path order ''merged'' \<or> (\<exists>t < Suc tx. ir_path run = run_path order (tx_name t))"
    if "run \<in> set (fi_runs runs2 order)" for order run
  proof -
    have "run \<in> set (fi_runs runs1 order) \<or> ir_path run = run_path order ''merged''"
      using compact_fold_paths [OF comp(1)] that by simp
    moreover have "run \<in> set (fi_runs (in_runs ?i) order) \<or> ir_path run = run_path order (tx_name tx)"
      if "run \<in> set (fi_runs runs1 order)" using add_runs_paths [OF add(1)] that by simp
    moreover have "ir_path run = run_path order ''merged'' \<or> (\<exists>t < Suc tx. ir_path run = run_path order (tx_name t))"
      if "run \<in> set (fi_runs (in_runs ?i) order)" using R(4) [OF that] n by (meson le_imp_less_Suc less_le_trans order_less_imp_le)
    ultimately show ?thesis by blast
  qed
  have "index_rep E ?s' bs"
    using comp(2) names tx by (simp add: index_rep_def Let_def covered_def entries_from_batches_def)
  then show ?thesis using flush by blast
qed

section \<open>Checkpoints and sidecars\<close>

lemma set_bt_insert_subset: "set (bt_insert k v m) \<subseteq> insert (k, v) (set m)"
  by (induction m) auto

lemma maybe_checkpoint_rep:
  assumes rep: "ledger_rep E s bs A" and tx: "length bs = Suc tx"
  shows "\<exists>s'. maybe_checkpoint E u tx s = (Inr (), s') \<and> ledger_rep E s' bs A"
proof -
  note L = rep [unfolded ledger_rep_def]
  obtain es where es: "entity_entries E s u = Inr es" using entity_entries_rep L by blast
  have st: "state_at E s u (Some tx) = Inr (facts_of u (slot_map (Some tx) (hist bs u)))"
    using state_at_rep L by blast
  let ?facts = "facts_of u (slot_map (Some tx) (hist bs u))"
  let ?i = "lg_inner s"
  let ?s' = "s\<lparr>lg_root := append_checkpoint E u tx ?facts (lg_root s),
      lg_inner := ?i\<lparr>in_checkpoints := (in_checkpoints ?i)(u := bt_insert tx ?facts (in_checkpoints ?i u))\<rparr>\<rparr>"
  have "maybe_checkpoint E u tx s = (Inr (), s) \<or> maybe_checkpoint E u tx s = (Inr (), ?s')"
    using es st by (simp add: maybe_checkpoint_def Let_def)
  moreover have "ledger_rep E ?s' bs A"
  proof -
    obtain bss act where b: "bs = concat bss @ act" "store_part E s bss act" using L by blast
    have "store_part E ?s' bss act"
      using b(2) store_rep_sidecar [of "le_seg E" "lg_root s" "in_store ?i" bss act "''checkpoints.jsonl''"]
        sidecar_segments [of "''checkpoints.jsonl''"]
      by (simp add: store_part_def append_checkpoint_def)
    moreover have "index_rep E ?s' bs" by (rule index_rep_cong [of _ s]) (use L in simp_all)
    moreover have "caches_ok E (lg_inner ?s') bs A"
      using L tx set_bt_insert_subset [of tx ?facts "in_checkpoints ?i u"] unfolding caches_ok_def by auto
    ultimately show ?thesis using L b(1) unfolding ledger_rep_def by auto
  qed
  ultimately show ?thesis using rep by blast
qed

lemma current_sig_rep:
  assumes rep: "ledger_rep E s bs A"
  shows "\<exists>sg. current_sig E u s =
      (Inr (map_option (\<lambda>m. content_signature E (JObject m)) (lookup_at A U64_MAX u)),
       s\<lparr>lg_inner := (lg_inner s)\<lparr>in_sigs := sg\<rparr>\<rparr>) \<and>
    ledger_rep E (s\<lparr>lg_inner := (lg_inner s)\<lparr>in_sigs := sg\<rparr>\<rparr>) bs A"
proof -
  let ?i = "lg_inner s"
  have same: "s\<lparr>lg_inner := ?i\<lparr>in_sigs := in_sigs ?i\<rparr>\<rparr> = s" by simp
  show ?thesis
  proof (cases "in_sigs ?i u")
    case (Some sig)
    then obtain m where "lookup_at A U64_MAX u = Some m" "sig = content_signature E (JObject m)"
      using rep unfolding ledger_rep_def caches_ok_def by blast
    then show ?thesis using Some rep same by (intro exI [of _ "in_sigs ?i"]) (simp add: current_sig_def)
  next
    case None
    show ?thesis
    proof (cases "lookup_at A U64_MAX u")
      case none: None
      then show ?thesis using None rep same reconstruct_at_rep [OF rep, of u U64_MAX]
        by (intro exI [of _ "in_sigs ?i"]) (simp add: current_sig_def)
    next
      case (Some m)
      let ?sg = "(in_sigs ?i)(u \<mapsto> content_signature E (JObject m))"
      let ?s' = "s\<lparr>lg_inner := ?i\<lparr>in_sigs := ?sg\<rparr>\<rparr>"
      have "current_sig E u s = (Inr (Some (content_signature E (JObject m))), ?s')"
        using None Some reconstruct_at_rep [OF rep, of u U64_MAX] by (simp add: current_sig_def Let_def)
      moreover have "ledger_rep E ?s' bs A"
      proof -
        have "store_part E ?s' = store_part E s" by (intro ext) (simp add: store_part_def)
        moreover have "index_rep E ?s' bs"
          by (rule index_rep_cong [of _ s]) (use rep in \<open>simp_all add: ledger_rep_def\<close>)
        moreover have "caches_ok E (lg_inner ?s') bs A"
          using rep Some unfolding ledger_rep_def caches_ok_def by auto
        ultimately show ?thesis using rep unfolding ledger_rep_def by simp
      qed
      ultimately show ?thesis using Some by auto
    qed
  qed
qed

section \<open>The commit\<close>

lemma reg_same:
  assumes "reg_ok r" "reg_ok r'" "reg_le r r'" "length (reg_names r') \<le> length (reg_names r)"
  shows "r' = r"
proof -
  have names: "reg_names r' = reg_names r" using assms(3,4) by (auto simp: reg_le_def)
  have "reg_index r' p = reg_index r p" for p
  proof (cases "reg_index r p")
    case None
    then have "reg_index r' p = None" using assms(1,2) names reg_index_None_iff by metis
    then show ?thesis using None by simp
  next
    case (Some i)
    then show ?thesis using assms reg_index_mono [of r r' p i] by simp
  qed
  then show ?thesis using names by (cases r; cases r') auto
qed

lemma intern_rep:
  assumes sp: "store_part E s bss act" and reg: "reg_ok reg" "reg_le (mf_attributes (st_manifest (in_store (lg_inner s)))) reg"
  shows "store_part E (intern_attributes E reg s) bss act"
    "lg_inner (intern_attributes E reg s) = (lg_inner s)\<lparr>in_store := (in_store (lg_inner s))
       \<lparr>st_manifest := (st_manifest (in_store (lg_inner s)))\<lparr>mf_attributes := reg\<rparr>\<rparr>\<rparr>"
    "lg_index (intern_attributes E reg s) = lg_index s"
proof -
  show "store_part E (intern_attributes E reg s) bss act"
  proof (cases "reg_len (mf_attributes (st_manifest (in_store (lg_inner s)))) < reg_len reg")
    case True
    then show ?thesis
      using sp store_rep_intern [OF _ _ reg(1), of "le_seg E" "lg_root s" "in_store (lg_inner s)" bss act]
      by (auto simp: store_part_def intern_attributes_def Let_def later_free_def persist_manifest_def)
  next
    case False
    then have "reg = mf_attributes (st_manifest (in_store (lg_inner s)))"
      using reg_same [OF store_reg_ok [OF sp] reg] by (simp add: reg_len_def)
    then show ?thesis using sp by (simp add: intern_attributes_def Let_def reg_len_def)
  qed
qed (simp_all add: intern_attributes_def Let_def)

text \<open>The batch a commit of \<open>m\<close> writes, and the capacity it needs.\<close>

definition commit_ops ::
  "'n ledger_env \<Rightarrow> 'n ledger \<Rightarrow> 'n batch list \<Rightarrow> uuid \<Rightarrow> 'n jmap \<Rightarrow> 'n ops" where
  "commit_ops E s bs u m =
     (case decompose (le_uuid E) u (JObject m) (mf_attributes (st_manifest (in_store (lg_inner s)))) of
        Inl _ \<Rightarrow> [] | Inr (new, _) \<Rightarrow> diff (facts_of u (slot_map None (hist bs u))) new)"

definition commit_batch ::
  "'n ledger_env \<Rightarrow> 'n ledger \<Rightarrow> 'n batch list \<Rightarrow> uuid \<Rightarrow> int \<Rightarrow> 'n jmap \<Rightarrow> 'n batch" where
  "commit_batch E s bs u w m = \<lparr>b_tx = length bs, b_wall = w, b_ops = commit_ops E s bs u m\<rparr>"

definition append_room ::
  "'n ledger_env \<Rightarrow> 'n ledger \<Rightarrow> 'n batch list \<Rightarrow> uuid \<Rightarrow> int \<Rightarrow> 'n jmap \<Rightarrow> bool" where
  "append_room E s bs u w m \<longleftrightarrow>
     frame_fits (le_seg E) (st_dict (in_store (lg_inner s))) (commit_batch E s bs u w m) \<and>
     flush_room E (in_memtable (lg_inner s) @ batch_entries (length bs) (commit_ops E s bs u m))
       (entries_from_batches (bs @ [commit_batch E s bs u w m])) \<and>
     (case decompose (le_uuid E) u (JObject m) (mf_attributes (st_manifest (in_store (lg_inner s)))) of
        Inl _ \<Rightarrow> True | Inr (_, reg) \<Rightarrow> length (reg_names reg) \<le> 2 ^ 32) \<and>
     length bs < U64_MAX"

lemma append_store_part:
  assumes sp: "store_part E s bss act" and fits: "frame_fits (le_seg E) (st_dict (in_store (lg_inner s))) b"
    and b: "b = \<lparr>b_tx = length (concat bss @ act), b_wall = w, b_ops = ops\<rparr>"
  shows "\<exists>sealed st root bss' act'.
    append_with_seal (le_seg E) ops w (in_store (lg_inner s)) (lg_root s) = (Inr (b_tx b, sealed), st, root) \<and>
    store_part E (s\<lparr>lg_inner := (lg_inner s)\<lparr>in_store := st\<rparr>, lg_root := root\<rparr>) bss' act' \<and>
    concat bss' @ act' = concat bss @ act @ [b] \<and>
    mf_attributes (st_manifest st) = mf_attributes (st_manifest (in_store (lg_inner s)))"
proof -
  let ?C = "le_seg E" and ?st = "in_store (lg_inner s)" and ?fs = "lg_root s"
  have S: "seg_codec_ok ?C" "store_rep ?C ?fs ?st bss act" "later_free ?fs (length bss)"
    using sp by (simp_all add: store_part_def)
  have hd: "hd_active_seq (st_head ?st) = length bss" "st_next_tx ?st = b_tx b"
    using S(2) by (simp_all add: store_rep_def b)
  have fresh: "file_bytes (seg_key (length bss + 1)) ?fs = []"
    using S(3) by (simp add: later_free_def file_bytes_def)
  have fits': "frame_fits ?C (st_dict ?st) \<lparr>b_tx = st_next_tx ?st, b_wall = w, b_ops = ops\<rparr>"
    using fits hd(2) by (simp add: b)
  obtain st root sealed where ap: "append_with_seal ?C ops w ?st ?fs = (Inr (st_next_tx ?st, sealed), st, root)"
    "if sealed then store_rep ?C root st (bss @ [act @ [\<lparr>b_tx = st_next_tx ?st, b_wall = w, b_ops = ops\<rparr>]]) []
     else store_rep ?C root st bss (act @ [\<lparr>b_tx = st_next_tx ?st, b_wall = w, b_ops = ops\<rparr>])"
    "mf_attributes (st_manifest st) = mf_attributes (st_manifest ?st)"
    using append_rep [OF S(1,2) fits' fresh] by blast
  have beq: "\<lparr>b_tx = st_next_tx ?st, b_wall = w, b_ops = ops\<rparr> = b" using hd(2) by (simp add: b)
  have free: "root (seg_key i) = None" if "i > length bss + 1" for i
    using append_frame [OF ap(1), of i] that S(3) by (simp add: hd(1) later_free_def)
  show ?thesis
  proof (cases sealed)
    case True
    then have "store_part E (s\<lparr>lg_inner := (lg_inner s)\<lparr>in_store := st\<rparr>, lg_root := root\<rparr>) (bss @ [act @ [b]]) []"
      using ap(2) S(1) free unfolding beq by (simp add: store_part_def later_free_def)
    then show ?thesis using ap(1,3) hd(2)
      by (intro exI [of _ sealed] exI [of _ st] exI [of _ root] exI [of _ "bss @ [act @ [b]]"] exI [of _ "[]"]) simp
  next
    case False
    have "later_free root (length bss)"
    proof -
      have "append_with_seal ?C ops w ?st ?fs = (Inr (st_next_tx ?st, False), st, root)"
        using ap(1) False by simp
      from unsealed_frame [OF this] have "root (seg_key (length bss + 1)) = None"
        using S(3) hd(1) by (simp add: later_free_def)
      then show ?thesis using free unfolding later_free_def by (metis Suc_eq_plus1 less_antisym not_less_eq)
    qed
    then have "store_part E (s\<lparr>lg_inner := (lg_inner s)\<lparr>in_store := st\<rparr>, lg_root := root\<rparr>) bss (act @ [b])"
      using ap(2) S(1) False unfolding beq by (simp add: store_part_def)
    then show ?thesis using ap(1,3) hd(2)
      by (intro exI [of _ sealed] exI [of _ st] exI [of _ root] exI [of _ bss] exI [of _ "act @ [b]"]) simp
  qed
qed

lemma after_commit_fields:
  "in_store (lg_inner (after_commit E u p ops w tx s)) = in_store (lg_inner s)"
  "in_runs (lg_inner (after_commit E u p ops w tx s)) = in_runs (lg_inner s)"
  "in_marker (lg_inner (after_commit E u p ops w tx s)) = in_marker (lg_inner s)"
  "in_checkpoints (lg_inner (after_commit E u p ops w tx s)) = in_checkpoints (lg_inner s)"
  "in_read_only (lg_inner (after_commit E u p ops w tx s)) = in_read_only (lg_inner s)"
  "in_memtable (lg_inner (after_commit E u p ops w tx s)) = in_memtable (lg_inner s) @ batch_entries tx ops"
  "in_times (lg_inner (after_commit E u p ops w tx s)) = in_times (lg_inner s) @ [(tx, w)]"
  "in_sigs (lg_inner (after_commit E u p ops w tx s)) = (in_sigs (lg_inner s))(u \<mapsto> content_signature E p)"
  "lg_index (after_commit E u p ops w tx s) = lg_index s"
  by (simp_all add: after_commit_def record_provenance_def index_object_def batch_entries_def Let_def
      split: option.splits)

lemma after_commit_store:
  assumes "store_part E s bss act"
  shows "store_part E (after_commit E u p ops w tx s) bss act"
proof -
  have "lg_root (after_commit E u p ops w tx s) = lg_root s \<or>
      (\<exists>bs. lg_root (after_commit E u p ops w tx s) = (lg_root s)(''provenance.jsonl'' \<mapsto> bs))"
    by (auto simp: after_commit_def record_provenance_def Let_def split: option.splits)
  then show ?thesis
    using assms store_rep_sidecar [of "le_seg E" "lg_root s" "in_store (lg_inner s)" bss act "''provenance.jsonl''"]
      sidecar_segments [of "''provenance.jsonl''" "lg_root s"]
    by (auto simp: store_part_def after_commit_fields)
qed

lemma after_commit_index:
  assumes rep: "index_rep E s bs" and b: "b_tx b = length bs"
  shows "index_rep E (after_commit E u p (b_ops b) w (length bs) s) (bs @ [b])"
proof -
  have R: "covered (lg_inner s) \<le> length bs"
    "index_holds (le_idx E) (le_dir E) (in_runs (lg_inner s), lg_index s) (entries_from_batches (take (covered (lg_inner s)) bs))"
    "in_memtable (lg_inner s) = entries_from_batches (drop (covered (lg_inner s)) bs)"
    "\<forall>order. \<forall>run \<in> set (fi_runs (in_runs (lg_inner s)) order).
       ir_path run = run_path order ''merged'' \<or> (\<exists>t < covered (lg_inner s). ir_path run = run_path order (tx_name t))"
    using rep unfolding index_rep_def Let_def by blast+
  have c: "covered (lg_inner (after_commit E u p (b_ops b) w (length bs) s)) = covered (lg_inner s)"
    by (simp add: covered_def after_commit_fields)
  have t: "take (covered (lg_inner s)) (bs @ [b]) = take (covered (lg_inner s)) bs"
    "drop (covered (lg_inner s)) (bs @ [b]) = drop (covered (lg_inner s)) bs @ [b]" using R(1) by simp_all
  have le: "covered (lg_inner s) \<le> length (bs @ [b])" using R(1) by simp
  show ?thesis
    unfolding index_rep_def Let_def c t after_commit_fields entries_snoc b
    using le R by simp
qed

lemma after_commit_caches:
  assumes ok: "caches_ok E (lg_inner s) bs A" and rep: "commits_rep U reg (bs @ [b]) (A @ [(u, w, m)])"
    and b: "b = \<lparr>b_tx = length bs, b_wall = w, b_ops = ops\<rparr>" and len: "length A \<le> U64_MAX"
  shows "caches_ok E (lg_inner (after_commit E u (JObject m) ops w (length bs) s)) (bs @ [b]) (A @ [(u, w, m)])"
proof -
  have sigs: "\<exists>m'. lookup_at (A @ [(u, w, m)]) U64_MAX v = Some m' \<and> sig = content_signature E (JObject m')"
    if "((in_sigs (lg_inner s))(u \<mapsto> content_signature E (JObject m))) v = Some sig" for v sig
  proof (cases "v = u")
    case True
    then show ?thesis using that len by (simp add: lookup_at_snoc)
  next
    case False
    then show ?thesis using that ok by (simp add: lookup_at_snoc caches_ok_def)
  qed
  have cps: "t < length (bs @ [b]) \<and> facts = facts_of v (slot_map (Some t) (hist (bs @ [b]) v))"
    if "(t, facts) \<in> set (in_checkpoints (lg_inner s) v)" for v t facts
  proof -
    have o: "t < length bs" "facts = facts_of v (slot_map (Some t) (hist bs v))"
      using that ok unfolding caches_ok_def by blast+
    have "hist (bs @ [b]) v = hist bs v @ filter (\<lambda>e. ie_entity e = v) (batch_entries (b_tx b) (b_ops b))"
      by (simp add: hist_def entries_snoc)
    moreover have "slot_map (Some t) (hist bs v @ filter (\<lambda>e. ie_entity e = v) (batch_entries (b_tx b) (b_ops b))) =
        slot_map (Some t) (hist bs v)"
    proof (rule slot_map_later)
      fix e
      assume "e \<in> set (filter (\<lambda>e. ie_entity e = v) (batch_entries (b_tx b) (b_ops b)))"
      then have "ie_tx e = length bs" by (auto simp: batch_entries_def from_fact_def b)
      then show "beyond (Some t) (ie_tx e)" using o(1) by (simp add: beyond_def)
    qed
    ultimately show ?thesis using o by simp
  qed
  show ?thesis
    unfolding caches_ok_def after_commit_fields
    using ok sigs cps by (simp add: caches_ok_def b)
qed

text \<open>The facts of a commit fit the index entries.\<close>

lemma facts_fit:
  assumes "\<forall>e \<in> set es. entry_fits e" "f \<in> set (facts_of u (slot_map till es))" "t < 2 ^ 64"
  shows "entry_fits (from_fact f t op)"
proof -
  have "fact_key f \<in> ie_slot ` set es"
    using assms(2) set_facts_of [OF finite_slot_map] dom_slot_map [of till es] by blast
  then obtain e where "e \<in> set es" "ie_attr e = f_attr f" "ie_pos e = f_pos f"
    by (auto simp: ie_slot_def fact_key_def)
  then show ?thesis using assms(1,3) by (auto simp: entry_fits_def from_fact_def)
qed

lemma ledger_rep_intro:
  assumes "store_part E s bss act" "bs = concat bss @ act" "index_rep E s bs" "caches_ok E (lg_inner s) bs A"
    and "commits_rep (le_uuid E) (mf_attributes (st_manifest (in_store (lg_inner s)))) bs A"
    and "\<forall>e \<in> set (entries_from_batches bs). entry_fits e" "length bs \<le> U64_MAX" "\<not> in_read_only (lg_inner s)"
  shows "ledger_rep E s bs A"
  unfolding ledger_rep_def using assms by blast

text \<open>
  The states an append that commits goes through: \<open>s2\<close> after the batch is on disk, \<open>s3\<close> with the
  provenance and the memtable, \<open>s4\<close> after a flush, \<open>s5\<close> after a checkpoint.
\<close>

definition append_steps ::
  "'n ledger_env \<Rightarrow> uuid \<Rightarrow> 'n json \<Rightarrow> 'n ledger \<Rightarrow> 'n batch list \<Rightarrow> bool \<Rightarrow> 'n ledger \<Rightarrow> 'n ledger \<Rightarrow>
   'n ledger \<Rightarrow> 'n ledger \<Rightarrow> bool" where
  "append_steps E u p s bs sealed s2 s3 s4 s5 \<longleftrightarrow>
     (let b = last bs; tx = length bs - 1
      in bs \<noteq> [] \<and> s3 = after_commit E u p (b_ops b) (b_wall b) tx s2 \<and>
         (\<forall>f \<in> side_files. lg_root s2 f = lg_root s f) \<and>
         (\<exists>st sg. lg_inner s2 = (lg_inner s)\<lparr>in_store := st, in_sigs := sg\<rparr>) \<and> lg_index s2 = lg_index s \<and>
         index_rep E s3 bs \<and> (\<forall>e \<in> set (entries_from_batches bs). entry_fits e) \<and>
         flush_room E (in_memtable (lg_inner s3)) (entries_from_batches bs) \<and>
         (if sealed then flush_memtable E tx s3 else (Inr (), s3)) = (Inr (), s4) \<and>
         maybe_checkpoint E u tx s4 = (Inr (), s5))"

lemma append_version_steps:
  assumes rep: "ledger_rep E s bs A" and m: "wf_json (JObject m)" "refs_fit m" "m \<noteq> []"
    and room: "append_room E s bs u w m"
    and new: "map_option (\<lambda>m. content_signature E (JObject m)) (lookup_at A U64_MAX u) \<noteq> Some (content_signature E (JObject m))"
  shows "\<exists>sealed s2 s3 s4 s5. append_inner E u (JObject m) w s = (Inr True, s5) \<and>
    append_steps E u (JObject m) s (bs @ [commit_batch E s bs u w m]) sealed s2 s3 s4 s5 \<and>
    ledger_rep E s3 (bs @ [commit_batch E s bs u w m]) (A @ [(u, w, m)]) \<and>
    ledger_rep E s4 (bs @ [commit_batch E s bs u w m]) (A @ [(u, w, m)]) \<and>
    ledger_rep E s5 (bs @ [commit_batch E s bs u w m]) (A @ [(u, w, m)])"
proof -
  define p where "p = JObject m"
  obtain sg where sig: "current_sig E u s =
      (Inr (map_option (\<lambda>m. content_signature E (JObject m)) (lookup_at A U64_MAX u)), s\<lparr>lg_inner := (lg_inner s)\<lparr>in_sigs := sg\<rparr>\<rparr>)"
    "ledger_rep E (s\<lparr>lg_inner := (lg_inner s)\<lparr>in_sigs := sg\<rparr>\<rparr>) bs A" using current_sig_rep [OF rep] by blast
  define s1 where "s1 = s\<lparr>lg_inner := (lg_inner s)\<lparr>in_sigs := sg\<rparr>\<rparr>"
  have st1: "in_store (lg_inner s1) = in_store (lg_inner s)" "in_memtable (lg_inner s1) = in_memtable (lg_inner s)"
    by (simp_all add: s1_def)
  note L = sig(2) [folded s1_def, unfolded ledger_rep_def]
  obtain bss act where bs: "bs = concat bss @ act" "store_part E s1 bss act" using L by blast
  let ?reg0 = "mf_attributes (st_manifest (in_store (lg_inner s)))"
  have reg0: "reg_ok ?reg0" by (rule ledger_reg_ok [OF rep])
  obtain facts reg where dec: "decompose (le_uuid E) u p ?reg0 = Inr (facts, reg)"
    by (simp add: decompose_def Let_def p_def)
  have regs: "length (reg_names reg) \<le> 2 ^ 32" using room dec by (simp add: append_room_def p_def)
  have em: "reg_ok reg" "reg_le ?reg0 reg" using decompose_emits [OF dec [unfolded p_def] reg0 regs] by blast+
  define s2 where "s2 = intern_attributes E reg s1"
  note I = intern_rep [OF bs(2) em(1), folded s2_def, unfolded st1, OF em(2)]
  have index2: "index_rep E s2 bs" by (rule index_rep_cong [of _ s1]) (use L I in simp_all)
  have caches2: "caches_ok E (lg_inner s2) bs A" using L I(2) by (simp add: caches_ok_def)
  have state: "state_at E s2 u None = Inr (facts_of u (slot_map None (hist bs u)))"
    by (rule state_at_rep [OF index2 caches2])
  define ops where "ops = diff (facts_of u (slot_map None (hist bs u))) facts"
  have ops: "commit_ops E s bs u m = ops" using dec by (simp add: commit_ops_def ops_def p_def)
  define b where "b = \<lparr>b_tx = length bs, b_wall = w, b_ops = ops\<rparr>"
  have b: "commit_batch E s bs u w m = b" by (simp add: commit_batch_def b_def ops)
  have room': "frame_fits (le_seg E) (st_dict (in_store (lg_inner s2))) b"
    "flush_room E (in_memtable (lg_inner s2) @ batch_entries (length bs) ops) (entries_from_batches (bs @ [b]))"
    "length bs < U64_MAX"
    using room I(2) st1 unfolding append_room_def b ops by simp_all
  obtain sealed st root bss' act' where ap:
    "append_with_seal (le_seg E) ops w (in_store (lg_inner s2)) (lg_root s2) = (Inr (b_tx b, sealed), st, root)"
    "store_part E (s2\<lparr>lg_inner := (lg_inner s2)\<lparr>in_store := st\<rparr>, lg_root := root\<rparr>) bss' act'"
    "concat bss' @ act' = concat bss @ act @ [b]"
    "mf_attributes (st_manifest st) = mf_attributes (st_manifest (in_store (lg_inner s2)))"
    using append_store_part [OF I(1) room'(1)] b_def bs(1) by blast
  define s2' where "s2' = s2\<lparr>lg_inner := (lg_inner s2)\<lparr>in_store := st\<rparr>, lg_root := root\<rparr>"
  define s3 where "s3 = after_commit E u p ops w (length bs) s2'"
  have b': "bs @ [b] = concat bss' @ act'" using ap(3) bs(1) by simp
  have index2': "index_rep E s2' bs" by (rule index_rep_cong [OF _ _ _ _ index2]) (simp_all add: s2'_def)
  have caches2': "caches_ok E (lg_inner s2') bs A" using caches2 by (simp add: s2'_def caches_ok_def)
  have commits: "commits_rep (le_uuid E) reg (bs @ [b]) (A @ [(u, w, m)])"
    by (rule commits_rep_snoc [OF _ reg0 dec [unfolded p_def] regs m])
      (use L in \<open>simp_all add: s1_def b_def ops_def\<close>)
  have attrs: "mf_attributes (st_manifest (in_store (lg_inner s2'))) = reg"
    using ap(4) I(2) by (simp add: s2'_def)
  have lenA: "length A = length bs" using L unfolding commits_rep_def by (metis length_map)
  have len64: "length bs < 2 ^ 64" using room'(3) by (simp add: U64_MAX_def)
  have fits: "\<forall>e \<in> set (entries_from_batches (bs @ [b])). entry_fits e"
  proof -
    have "entry_fits (from_fact f (length bs) op)" if "(op, f) \<in> set ops" for op f
    proof -
      have "f \<in> set (facts_of u (slot_map None (hist bs u))) \<or> f \<in> set facts"
        using diff_facts that unfolding ops_def by blast
      then show ?thesis
      proof
        assume "f \<in> set (facts_of u (slot_map None (hist bs u)))"
        moreover have "\<forall>e \<in> set (hist bs u). entry_fits e" using L by (simp add: hist_def)
        ultimately show ?thesis using facts_fit len64 by blast
      next
        assume "f \<in> set facts"
        then show ?thesis using decompose_keys(2) [OF m(1,2) reg0 dec [unfolded p_def] regs] len64
          by (simp add: entry_fits_def from_fact_def)
      qed
    qed
    then show ?thesis using L by (auto simp: entries_snoc batch_entries_def b_def)
  qed
  have index3: "index_rep E s3 (bs @ [b])"
    using after_commit_index [where b = b and u = u and p = p and w = w, OF index2'] by (simp add: s3_def b_def)
  have caches3: "caches_ok E (lg_inner s3) (bs @ [b]) (A @ [(u, w, m)])"
    unfolding s3_def p_def
    by (rule after_commit_caches [OF caches2' commits b_def]) (use lenA room'(3) in simp)
  have store3: "store_part E s3 bss' act'"
    unfolding s3_def by (rule after_commit_store) (use ap(2) in \<open>simp add: s2'_def\<close>)
  have ro3: "\<not> in_read_only (lg_inner s3)" "mf_attributes (st_manifest (in_store (lg_inner s3))) = reg"
    using L I(2) attrs by (simp_all add: s3_def after_commit_fields s2'_def)
  have mem: "in_memtable (lg_inner s3) = in_memtable (lg_inner s2) @ batch_entries (length bs) ops"
    by (simp add: s3_def after_commit_fields s2'_def)
  have rep3: "ledger_rep E s3 (bs @ [b]) (A @ [(u, w, m)])"
    by (rule ledger_rep_intro [OF store3 b' index3 caches3]) (use commits fits ro3 room'(3) in simp_all)
  have flush: "\<exists>s4. (if sealed then flush_memtable E (length bs) s3 else (Inr (), s3)) = (Inr (), s4) \<and>
      ledger_rep E s4 (bs @ [b]) (A @ [(u, w, m)])"
  proof (cases sealed)
    case True
    obtain runs marker mt index where f: "flush_memtable E (length bs) s3 =
        (Inr (), s3\<lparr>lg_inner := (lg_inner s3)\<lparr>in_runs := runs, in_marker := marker, in_memtable := mt\<rparr>, lg_index := index\<rparr>)"
      "index_rep E (s3\<lparr>lg_inner := (lg_inner s3)\<lparr>in_runs := runs, in_marker := marker, in_memtable := mt\<rparr>, lg_index := index\<rparr>) (bs @ [b])"
      using flush_rep [OF index3 _ fits, of "length bs"] room'(2) unfolding mem by auto
    have "ledger_rep E (s3\<lparr>lg_inner := (lg_inner s3)\<lparr>in_runs := runs, in_marker := marker, in_memtable := mt\<rparr>, lg_index := index\<rparr>)
        (bs @ [b]) (A @ [(u, w, m)])"
      by (rule ledger_rep_intro [OF _ b' f(2)])
        (use store3 caches3 commits fits ro3 room'(3) in \<open>simp_all add: store_part_def caches_ok_def\<close>)
    then show ?thesis using f(1) True by simp
  next
    case False
    then show ?thesis using rep3 by simp
  qed
  then obtain s4 where s4: "(if sealed then flush_memtable E (length bs) s3 else (Inr (), s3)) = (Inr (), s4)"
    "ledger_rep E s4 (bs @ [b]) (A @ [(u, w, m)])" by blast
  obtain s5 where s5: "maybe_checkpoint E u (length bs) s4 = (Inr (), s5)" "ledger_rep E s5 (bs @ [b]) (A @ [(u, w, m)])"
    using maybe_checkpoint_rep [OF s4(2), of "length bs" u] by auto
  have ro: "\<not> in_read_only (lg_inner s)" using rep by (simp add: ledger_rep_def)
  have btx: "b_tx b = length bs" by (simp add: b_def)
  have ap5: "append_inner E u p w s = (Inr True, s5)"
    unfolding append_inner_def sig(1) s1_def [symmetric] prod.case sum.case st1 dec Let_def s2_def [symmetric] state
      ops_def [symmetric] ap(1) s2'_def [symmetric] btx s3_def [symmetric] s4(1) s5(1)
    using ro new by (simp add: p_def)
  have side: "\<forall>f \<in> side_files. lg_root s2' f = lg_root s f"
  proof
    fix f assume f: "f \<in> side_files"
    have "root f = lg_root s2 f" by (rule append_side_file [OF ap(1) f])
    also have "\<dots> = lg_root s f" using intern_side_file [OF f, of E reg s1] by (simp add: s2_def s1_def)
    finally show "lg_root s2' f = lg_root s f" by (simp add: s2'_def)
  qed
  have inner: "\<exists>st sg. lg_inner s2' = (lg_inner s)\<lparr>in_store := st, in_sigs := sg\<rparr>" "lg_index s2' = lg_index s"
    by (simp_all add: s2'_def s2_def s1_def intern_attributes_def Let_def) (rule exI, rule exI, rule inner.equality, simp_all)
  have "append_steps E u p s (bs @ [b]) sealed s2' s3 s4 s5"
    unfolding append_steps_def Let_def
  proof (intro conjI)
    have l: "b_ops (last (bs @ [b])) = ops" "b_wall (last (bs @ [b])) = w" "length (bs @ [b]) - 1 = length bs"
      by (simp_all add: b_def)
    show "s3 = after_commit E u p (b_ops (last (bs @ [b]))) (b_wall (last (bs @ [b]))) (length (bs @ [b]) - 1) s2'"
      unfolding l by (rule s3_def)
    show "(if sealed then flush_memtable E (length (bs @ [b]) - 1) s3 else (Inr (), s3)) = (Inr (), s4)"
      "maybe_checkpoint E u (length (bs @ [b]) - 1) s4 = (Inr (), s5)" unfolding l by (rule s4(1), rule s5(1))
  qed (use side inner index3 fits room'(2) mem in simp_all)
  then show ?thesis using ap5 s4(2) s5(2) rep3 unfolding b p_def by blast
qed

lemma append_new_version:
  assumes "ledger_rep E s bs A" "wf_json (JObject m)" "refs_fit m" "m \<noteq> []" "append_room E s bs u w m"
    and "map_option (\<lambda>m. content_signature E (JObject m)) (lookup_at A U64_MAX u) \<noteq> Some (content_signature E (JObject m))"
  shows "\<exists>s' bs'. append_inner E u (JObject m) w s = (Inr True, s') \<and> ledger_rep E s' bs' (A @ [(u, w, m)])"
  using append_version_steps [OF assms] by blast

end
