(* ===== verification/Ledger_Properties.thy ===== *)
theory Ledger_Properties
  imports Ledger_Refinement
begin

text \<open>
  The properties of the fact ledger, read off the refinement: appends extend the abstract
  history, reads are exact lookups in it, and a concrete ledger on which each is exercised.
\<close>

section \<open>A concrete ledger\<close>

definition one_ops :: "nat ops" where
  "one_ops = [(Assert, \<lparr>f_entity = 5, f_attr = 0, f_pos = None, f_value = FNull\<rparr>)]"

text \<open>A codec that gives the operations \<open>ops0\<close> one byte, so that the size of their frame can be computed.\<close>

definition short_seg_codec :: "nat ops \<Rightarrow> nat seg_codec" where
  "short_seg_codec ops0 = demo_seg_codec
     \<lparr>zc_enc_ops := (\<lambda>ops. if ops = [] then [] else if ops = ops0 then [2] else 1 # replicate (ops_number ops) 0),
      zc_dec_ops := (\<lambda>bs. if bs = [] then Some [] else if bs = [2] then Some ops0
        else Some (inv ops_number (length bs - 1)))\<rparr>"

lemma short_seg_codec_ok: "seg_codec_ok (short_seg_codec ops0)"
proof -
  have "inj ops_number" using ops_number_inj by (rule injI)
  then show ?thesis using demo_seg_codec_ok by (simp add: seg_codec_ok_def short_seg_codec_def)
qed

lemma short_frame_fits: "frame_fits (short_seg_codec ops0) None \<lparr>b_tx = 0, b_wall = 7, b_ops = ops0\<rparr>"
  by (cases "ops0 = []")
    (simp_all add: frame_fits_def short_seg_codec_def demo_seg_codec_def encode_frame_def Let_def FRAME_HEADER_def)

definition one_seg_codec :: "nat seg_codec" where
  "one_seg_codec = short_seg_codec one_ops"

lemma one_seg_codec_ok: "seg_codec_ok one_seg_codec"
  unfolding one_seg_codec_def by (rule short_seg_codec_ok)

text \<open>Sidecar lines: a line of as many zero bytes as the number of its content.\<close>

definition cp_number :: "uuid \<times> nat \<times> nat fact list \<Rightarrow> nat" where
  "cp_number c = to_nat (unat (fst c), fst (snd c), ops_number (map (Pair Assert) (snd (snd c))))"

lemma cp_number_inj: "inj cp_number"
proof (rule injI)
  fix x y assume "cp_number x = cp_number y"
  then have "fst x = fst y" "fst (snd x) = fst (snd y)" "map (Pair Assert) (snd (snd x)) = map (Pair Assert) (snd (snd y))"
    by (auto simp: cp_number_def word_unat_eq_iff dest: ops_number_inj)
  then show "x = y" by (simp add: prod_eq_iff inj_map_eq_map inj_on_def)
qed

definition pv_number :: "nat \<times> write_context \<Rightarrow> nat" where
  "pv_number c = to_nat (fst c, wc_run_id (snd c), wc_stage (snd c), wc_source (snd c))"

lemma pv_number_inj: "inj pv_number"
  by (rule injI) (simp add: pv_number_def prod_eq_iff)

definition one_env :: "nat ledger_env" where
  "one_env =
     \<lparr>le_seg = one_seg_codec, le_idx = demo_idx_codec, le_dir = demo_dirs, le_uuid = demo_uuid_text,
      le_hash = (\<lambda>j. case j of JObject m \<Rightarrow> concat (map fst m) | _ \<Rightarrow> []),
      le_cp_line = (\<lambda>c. replicate (cp_number c) 0), le_cp_parse = (\<lambda>l. Some (inv cp_number (length l))),
      le_pv_line = (\<lambda>c. replicate (pv_number c) 0), le_pv_parse = (\<lambda>l. Some (inv pv_number (length l))),
      le_order = (\<lambda>us. us), le_typed = (\<lambda>_ j. Some j), le_indexed = (\<lambda>_. None)\<rparr>"

lemma one_env_fields [simp]:
  "le_seg one_env = one_seg_codec" "le_idx one_env = demo_idx_codec" "le_dir one_env = demo_dirs"
  "le_uuid one_env = demo_uuid_text"
  by (simp_all add: one_env_def)

lemma slot_map_Nil [simp]: "slot_map c [] = Map.empty"
  by (simp add: slot_map_def slot_entries_def fun_eq_iff)

definition one_payload :: "nat jmap" where
  "one_payload = [(''a'', JNull)]"

text \<open>The handle on an empty directory.\<close>

definition fresh_ledger :: "'n ledger_env \<Rightarrow> 'n ledger" where
  "fresh_ledger E =
     (let (st, root) = open_inner (le_seg E) 1000 False Map.empty
      in \<lparr>lg_inner = \<lparr>in_store = (case st of Inr x \<Rightarrow> x | Inl _ \<Rightarrow> undefined), in_runs = \<lparr>fi_runs = (\<lambda>_. [])\<rparr>,
            in_marker = None, in_memtable = [], in_times = [], in_sigs = Map.empty, in_search = Map.empty,
            in_read_only = False, in_checkpoints = (\<lambda>_. []), in_write_ctx = None,
            in_provenance = Map.empty, in_provenance_len = 0\<rparr>,
          lg_root = root, lg_index = Map.empty\<rparr>)"

lemma empty_disk_rep: "disk_rep C Map.empty default_manifest None [] [] []"
  by (simp add: disk_rep_def load_manifest_def local_fs_def lfs_exists_def load_dict_def default_manifest_def
      file_bytes_def dict_ok_def stored_head_def)

lemma fresh_store:
  assumes C: "seg_codec_ok (le_seg E)"
  shows "store_part E (fresh_ledger E) [] [] \<and> st_manifest (in_store (lg_inner (fresh_ledger E))) = default_manifest \<and>
   st_dict (in_store (lg_inner (fresh_ledger E))) = None"
proof -
  obtain st fs' where o: "open_inner (le_seg E) 1000 False Map.empty = (Inr st, fs')"
    "store_rep (le_seg E) fs' st [] []" "st_manifest st = default_manifest" "st_dict st = None"
    using open_inner_rep [OF C empty_disk_rep] by blast
  have "fs' (seg_key i) = None" if "i > 0" for i
  proof -
    have "active_seq_of default_manifest = 0" by (simp add: active_seq_of_def default_manifest_def)
    then show ?thesis
      using o(1) that by (auto simp: open_inner_def Let_def load_manifest_def local_fs_def lfs_exists_def load_dict_def
          default_manifest_def stored_head_def pull_active_def file_bytes_def lfs_get_def scan_slice_def
          split: prod.splits if_splits)
  qed
  then show ?thesis using o C
    by (simp add: fresh_ledger_def store_part_def later_free_def)
qed

lemma fresh_rep:
  assumes C: "seg_codec_ok (le_seg E)" "idx_codec_ok (le_idx E)" "dir_codec_ok (le_dir E)"
  shows "ledger_rep E (fresh_ledger E) [] []"
proof (rule ledger_rep_intro [where bss = "[]" and act = "[]"])
  show "store_part E (fresh_ledger E) [] []" using fresh_store [OF C(1)] by blast
  show "index_rep E (fresh_ledger E) []"
    using empty_holds [of "le_idx E" Map.empty] C(2,3)
    by (simp add: index_rep_def fresh_ledger_def Let_def covered_def index_holds_def
        entries_from_batches_def split_beta)
  show "caches_ok E (lg_inner (fresh_ledger E)) [] []"
    by (simp add: caches_ok_def fresh_ledger_def split_beta Let_def)
  show "commits_rep (le_uuid E) (mf_attributes (st_manifest (in_store (lg_inner (fresh_ledger E))))) [] []"
    by (simp add: commits_rep_def lookup_at_def commits_of_def hist_def entries_from_batches_def)
qed (simp_all add: entries_from_batches_def fresh_ledger_def split_beta Let_def U64_MAX_def)

definition one_ledger :: "nat ledger" where
  "one_ledger = fresh_ledger one_env"

lemma demo_dirs_ok: "dir_codec_ok demo_dirs"
  by (simp add: demo_dirs_def Let_def demo_dir_codec_ok)

lemma one_ledger_store:
  "store_part one_env one_ledger [] [] \<and> st_manifest (in_store (lg_inner one_ledger)) = default_manifest \<and>
   st_dict (in_store (lg_inner one_ledger)) = None"
  unfolding one_ledger_def by (rule fresh_store) (simp add: one_seg_codec_ok)

lemma one_ledger_rep: "ledger_rep one_env one_ledger [] []"
  unfolding one_ledger_def by (rule fresh_rep) (simp_all add: one_seg_codec_ok demo_idx_codec_ok demo_dirs_ok)

lemma one_decompose:
  "\<exists>reg. decompose demo_uuid_text 5 (JObject one_payload) registry_new =
     Inr ([\<lparr>f_entity = 5, f_attr = 0, f_pos = None, f_value = FNull\<rparr>], reg) \<and> length (reg_names reg) = 1"
  by (simp add: decompose_def Let_def one_payload_def decompose_entry_def scalar_ref_def REF_SCALAR_ATTRS_def
      array_refs_def REF_ARRAY_ATTRS_def canonical_ref_def push_leaf_def intern_def registry_new_def as_u32_def)

lemma one_commit: "commit_batch one_env one_ledger [] 5 7 one_payload = \<lparr>b_tx = 0, b_wall = 7, b_ops = one_ops\<rparr>"
proof -
  have "mf_attributes (st_manifest (in_store (lg_inner one_ledger))) = registry_new"
    using one_ledger_store by (simp add: default_manifest_def)
  moreover have "facts_of 5 (slot_map None (hist [] 5)) = ([] :: nat fact list)"
    by (simp add: hist_def entries_from_batches_def facts_of_def)
  moreover have "diff [] [\<lparr>f_entity = 5, f_attr = 0, f_pos = None, f_value = FNull :: nat fact_value\<rparr>] = one_ops"
    by (simp add: diff_def diff_side_def fact_map_def one_ops_def List.map_filter_simps)
  ultimately show ?thesis
    using one_decompose by (auto simp: commit_batch_def commit_ops_def)
qed

lemma one_room: "append_room one_env one_ledger [] 5 7 one_payload"
proof -
  have ops: "commit_ops one_env one_ledger [] 5 one_payload = one_ops"
    using one_commit by (simp add: commit_batch_def)
  have entries: "batch_entries 0 one_ops = [demo_entry]"
    by (simp add: batch_entries_def one_ops_def from_fact_def demo_entry_def)
  have frame: "frame_fits one_seg_codec None \<lparr>b_tx = 0, b_wall = 7, b_ops = one_ops\<rparr>"
    unfolding one_seg_codec_def by (rule short_frame_fits)
  have merged: "index_room_merged demo_idx_codec demo_dirs order [demo_entry]" for order
  proof -
    have "sort_key fst raws = sorted_raws demo_idx_codec order [demo_entry]"
      if "mset raws = mset (List.map_filter (project demo_idx_codec order) [demo_entry])" for raws
      using that by (cases "project demo_idx_codec order demo_entry")
        (simp_all add: sorted_raws_def List.map_filter_simps)
    then show ?thesis using demo_run_fits by (simp add: index_room_merged_def)
  qed
  have "flush_room one_env [demo_entry] [demo_entry]"
    using demo_run_fits merged by (simp add: flush_room_def)
  moreover have "mf_attributes (st_manifest (in_store (lg_inner one_ledger))) = registry_new"
    "st_dict (in_store (lg_inner one_ledger)) = None" "in_memtable (lg_inner one_ledger) = []"
    using one_ledger_store by (simp_all add: default_manifest_def one_ledger_def fresh_ledger_def split_beta Let_def)
  moreover have "entries_from_batches [\<lparr>b_tx = 0, b_wall = 7, b_ops = one_ops\<rparr>] = [demo_entry]"
    using entries by (simp add: entries_from_batches_def batch_entries_def)
  ultimately show ?thesis
    using frame one_decompose entries ops
    unfolding append_room_def one_commit by (auto simp: U64_MAX_def)
qed

section \<open>Appending\<close>

definition payload_ok :: "'n jmap \<Rightarrow> bool" where
  "payload_ok m \<longleftrightarrow> wf_json (JObject m) \<and> refs_fit m \<and> m \<noteq> []"

definition sig_at :: "'n ledger_env \<Rightarrow> 'n commits \<Rightarrow> uuid \<Rightarrow> string option" where
  "sig_at E A u = map_option (\<lambda>m. content_signature E (JObject m)) (lookup_at A U64_MAX u)"

lemma append_step:
  assumes rep: "ledger_rep E s bs A" and m: "payload_ok m" and room: "append_room E s bs u w m"
  shows "\<exists>s' bs' A'. append_inner E u (JObject m) w s = (Inr (A' \<noteq> A), s') \<and> ledger_rep E s' bs' A' \<and>
    A' = (if sig_at E A u = Some (content_signature E (JObject m)) then A else A @ [(u, w, m)])"
proof (cases "sig_at E A u = Some (content_signature E (JObject m))")
  case True
  obtain s' where "current_sig E u s = (Inr (sig_at E A u), s')" "ledger_rep E s' bs A"
    using current_sig_rep [OF rep, of u] unfolding sig_at_def by blast
  moreover have "\<not> in_read_only (lg_inner s)" using rep by (simp add: ledger_rep_def)
  ultimately have "append_inner E u (JObject m) w s = (Inr False, s')" "ledger_rep E s' bs A"
    using True by (simp_all add: append_inner_def)
  then show ?thesis using True by auto
next
  case False
  then show ?thesis
    using append_new_version [OF rep _ _ _ room] m unfolding payload_ok_def sig_at_def by auto
qed

lemma commits_length: "ledger_rep E s bs A \<Longrightarrow> length A = length bs"
  unfolding ledger_rep_def commits_rep_def by (metis length_map)

lemma one_payload_ok: "payload_ok one_payload"
  by (auto simp: payload_ok_def one_payload_def refs_fit_def bt_sorted_def)

lemma one_lookup: "lookup_at [(5, 7, one_payload)] t 5 = Some one_payload"
  by (simp add: lookup_at_def commits_of_def)

text \<open>The concrete ledger after one commit.\<close>

lemma two_ledger: "\<exists>s' bs'. append_inner one_env 5 (JObject one_payload) 7 one_ledger = (Inr True, s') \<and>
    ledger_rep one_env s' bs' [(5, 7, one_payload)]"
  using append_step [OF one_ledger_rep one_payload_ok one_room]
  by (auto simp: sig_at_def lookup_at_def commits_of_def)

text \<open>
  C4: The ledger is a versioned key-value store.  An append either finds the entity's current
  content signature unchanged and leaves the history alone, or commits the diff and extends the
  history by exactly this payload, through interning, framing, sealing, flushing, compaction and
  checkpointing.
\<close>

theorem append_refines:
  assumes "ledger_rep E s bs A" "payload_ok m" "append_room E s bs u w m"
  shows "\<exists>s' bs' A'. append_inner E u (JObject m) w s = (Inr (A' \<noteq> A), s') \<and> ledger_rep E s' bs' A' \<and>
    A' = (if sig_at E A u = Some (content_signature E (JObject m)) then A else A @ [(u, w, m)])"
  by (rule append_step [OF assms])

theorem append_refines_witness:
  "\<exists>s' bs'. append_inner one_env 5 (JObject one_payload) 7 one_ledger = (Inr True, s') \<and>
    ledger_rep one_env s' bs' [(5, 7, one_payload)]"
  using append_refines [OF one_ledger_rep one_payload_ok one_room]
  by (auto simp: sig_at_def lookup_at_def commits_of_def)

text \<open>
  C5: Read your writes, and nothing else moves.  After an append every read of every entity at
  every transaction is what it was before, except that the appended entity reads as the new
  payload from its transaction on (when the append recorded a version).
\<close>

theorem append_then_read:
  assumes "ledger_rep E s bs A" "payload_ok m" "append_room E s bs u w m"
  shows "\<exists>changed s'. append_inner E u (JObject m) w s = (Inr changed, s') \<and>
    (\<forall>v t. reconstruct_at E s' v t =
       (if changed \<and> v = u \<and> length bs \<le> t then Inr (Some (JObject m)) else reconstruct_at E s v t))"
proof -
  obtain s' bs' A' where ap: "append_inner E u (JObject m) w s = (Inr (A' \<noteq> A), s')" "ledger_rep E s' bs' A'"
    "A' = (if sig_at E A u = Some (content_signature E (JObject m)) then A else A @ [(u, w, m)])"
    using append_step [OF assms] by blast
  have "reconstruct_at E s' v t =
      (if A' \<noteq> A \<and> v = u \<and> length bs \<le> t then Inr (Some (JObject m)) else reconstruct_at E s v t)" for v t
    using reconstruct_at_rep [OF ap(2), of v t] reconstruct_at_rep [OF assms(1), of v t] commits_length [OF assms(1)]
    by (simp add: ap(3) lookup_at_snoc)
  then show ?thesis using ap(1) by blast
qed

theorem append_then_read_witness:
  "\<exists>s'. append_inner one_env 5 (JObject one_payload) 7 one_ledger = (Inr True, s') \<and>
    reconstruct_at one_env s' 5 0 = Inr (Some (JObject one_payload)) \<and> reconstruct_at one_env s' 6 0 = Inr None"
proof -
  obtain s' where "append_inner one_env 5 (JObject one_payload) 7 one_ledger = (Inr True, s')"
    "\<forall>v t. reconstruct_at one_env s' v t =
       (if v = 5 then Inr (Some (JObject one_payload)) else reconstruct_at one_env one_ledger v t)"
    using append_then_read [OF one_ledger_rep one_payload_ok one_room] two_ledger by fastforce
  moreover have "reconstruct_at one_env one_ledger 6 0 = Inr None"
    using reconstruct_at_rep [OF one_ledger_rep, of 6 0] by (simp add: lookup_at_def commits_of_def)
  ultimately show ?thesis by auto
qed

text \<open>
  C11: Checkpoints are invisible.  Reading a state through whatever checkpoints the handle holds
  gives the same facts as reading it with none, at every cut.
\<close>

theorem checkpoints_invisible:
  assumes "ledger_rep E s bs A"
  shows "state_at E s u till = state_at E (s\<lparr>lg_inner := (lg_inner s)\<lparr>in_checkpoints := (\<lambda>_. [])\<rparr>\<rparr>) u till"
proof -
  let ?s0 = "s\<lparr>lg_inner := (lg_inner s)\<lparr>in_checkpoints := (\<lambda>_. [])\<rparr>\<rparr>"
  have rep: "index_rep E s bs" "caches_ok E (lg_inner s) bs A" using assms by (simp_all add: ledger_rep_def)
  have "index_rep E ?s0 bs" by (rule index_rep_cong [OF _ _ _ _ rep(1)]) simp_all
  moreover have "caches_ok E (lg_inner ?s0) bs A" using rep(2) by (simp add: caches_ok_def)
  ultimately show ?thesis using state_at_rep rep by metis
qed

theorem checkpoints_invisible_witness:
  "\<exists>s facts. in_checkpoints (lg_inner s) 5 = [(0, facts)] \<and> facts \<noteq> [] \<and>
     state_at one_env s 5 None = state_at one_env (s\<lparr>lg_inner := (lg_inner s)\<lparr>in_checkpoints := (\<lambda>_. [])\<rparr>\<rparr>) 5 None"
proof -
  obtain s bs where rep: "ledger_rep one_env s bs [(5, 7, one_payload)]" using two_ledger by blast
  define facts where "facts = facts_of 5 (slot_map (Some 0) (hist bs 5))"
  have len: "length bs = 1" using commits_length [OF rep] by simp
  have st: "state_at one_env s 5 (Some 0) = Inr facts"
    using state_at_rep rep unfolding ledger_rep_def facts_def by blast
  have ne: "facts \<noteq> []"
    using reconstruct_at_rep [OF rep, of 5 0] st by (auto simp: reconstruct_at_def one_lookup)
  let ?s = "s\<lparr>lg_inner := (lg_inner s)\<lparr>in_checkpoints := (\<lambda>_. [])(5 := [(0, facts)])\<rparr>\<rparr>"
  obtain bss act where b: "bs = concat bss @ act" "store_part one_env s bss act" using rep unfolding ledger_rep_def by blast
  have "ledger_rep one_env ?s bs [(5, 7, one_payload)]"
  proof (rule ledger_rep_intro [OF _ b(1)])
    show "store_part one_env ?s bss act" using b(2) by (simp add: store_part_def)
    show "index_rep one_env ?s bs" by (rule index_rep_cong [of _ s]) (use rep in \<open>simp_all add: ledger_rep_def\<close>)
    show "caches_ok one_env (lg_inner ?s) bs [(5, 7, one_payload)]"
      using rep len by (auto simp: ledger_rep_def caches_ok_def facts_def split: if_splits)
  qed (use rep in \<open>simp_all add: ledger_rep_def\<close>)
  from checkpoints_invisible [OF this, of 5 None] show ?thesis
    using ne by (intro exI [of _ ?s] exI [of _ facts]) simp
qed

section \<open>Time travel\<close>

lemma tx_at_sorted:
  "map b_tx bs = [0..<length bs] \<Longrightarrow> sorted (map b_wall bs) \<Longrightarrow>
    tx_at (map (\<lambda>b. (b_tx b, b_wall b)) bs) at =
      (let n = length (filter (\<lambda>b. b_wall b \<le> at) bs) in if n = 0 then None else Some (n - 1))"
proof (induction bs rule: rev_induct)
  case (snoc b bs)
  have tx: "map b_tx bs = [0..<length bs]" "b_tx b = length bs" using snoc.prems(1) by simp_all
  have sorted: "sorted (map b_wall bs)" "\<forall>x \<in> set bs. b_wall x \<le> b_wall b"
    using snoc.prems(2) by (simp_all add: sorted_append)
  show ?case
  proof (cases "b_wall b \<le> at")
    case True
    then have "filter (\<lambda>b. b_wall b \<le> at) bs = bs" using sorted(2) by (fastforce simp: filter_id_conv)
    then show ?thesis using True tx(2) by (simp add: tx_at_def)
  next
    case False
    then show ?thesis using snoc.IH [OF tx(1) sorted(1)] by (simp add: tx_at_def)
  qed
qed (simp add: tx_at_def)

lemma take_filter_sorted:
  "sorted (map f xs) \<Longrightarrow> take (length (filter (\<lambda>x. f x \<le> a) xs)) xs = filter (\<lambda>x. f x \<le> (a :: 'b :: linorder)) xs"
proof (induction xs)
  case (Cons x xs)
  show ?case
  proof (cases "f x \<le> a")
    case True
    then show ?thesis using Cons by simp
  next
    case False
    then have "filter (\<lambda>x. f x \<le> a) xs = []" using Cons.prems by (fastforce simp: filter_empty_conv)
    then show ?thesis using False by simp
  qed
qed simp

text \<open>The last payload of \<open>u\<close> committed at a wall clock not after \<open>at\<close>.\<close>

definition version_at :: "'n commits \<Rightarrow> int \<Rightarrow> uuid \<Rightarrow> 'n jmap option" where
  "version_at A at u =
     (let cs = filter (\<lambda>c. fst c = u \<and> fst (snd c) \<le> at) A
      in if cs = [] then None else Some (snd (snd (last cs))))"

lemma lookup_tx_at:
  assumes rep: "ledger_rep E s bs A" and mono: "sorted (map (fst \<circ> snd) A)"
  shows "(case tx_at (in_times (lg_inner s)) at of None \<Rightarrow> None | Some t \<Rightarrow> lookup_at A t u) = version_at A at u"
proof -
  have R: "map b_tx bs = [0..<length bs]" "map b_wall bs = map (fst \<circ> snd) A"
    "in_times (lg_inner s) = map (\<lambda>b. (b_tx b, b_wall b)) bs"
    using rep by (simp_all add: ledger_rep_def commits_rep_def caches_ok_def)
  let ?n = "length (filter (\<lambda>c. fst (snd c) \<le> at) A)"
  have n: "length (filter (\<lambda>b. b_wall b \<le> at) bs) = ?n"
  proof -
    have "length (filter (\<lambda>w. w \<le> at) (map b_wall bs)) = length (filter (\<lambda>w. w \<le> at) (map (fst \<circ> snd) A))"
      unfolding R(2) ..
    then show ?thesis by (simp add: filter_map comp_def)
  qed
  have tx: "tx_at (in_times (lg_inner s)) at = (if ?n = 0 then None else Some (?n - 1))"
    using tx_at_sorted [OF R(1), of at] mono unfolding R(2,3) n by (simp add: Let_def)
  have pre: "take ?n A = filter (\<lambda>c. fst (snd c) \<le> at) A"
    using take_filter_sorted [of "fst \<circ> snd" A at] mono by simp
  show ?thesis
  proof (cases "?n = 0")
    case True
    then have "filter (\<lambda>c. fst c = u \<and> fst (snd c) \<le> at) A = []" by (auto simp: filter_empty_conv)
    then show ?thesis using True by (simp add: tx version_at_def)
  next
    case False
    then have "take (Suc (?n - 1)) A = filter (\<lambda>c. fst (snd c) \<le> at) A" using pre by simp
    then show ?thesis
      using False by (simp add: tx lookup_at_def version_at_def commits_of_def last_map Let_def conj_commute)
  qed
qed

text \<open>
  C12: Time travel is exact when the clock does not step back.  \<open>object_at\<close> reads the last version
  of the object committed at or before the given wall time, never a later one.
\<close>

theorem object_at_exact:
  assumes "ledger_rep E s bs A" "sorted (map (fst \<circ> snd) A)"
  shows "object_at E s u at =
    (case version_at A at u of
       None \<Rightarrow> Inr None
     | Some m \<Rightarrow>
         if kind_of_payload (JObject m) = KObject
         then (case le_typed E KObject (JObject m) of None \<Rightarrow> Inl LedgerJson | Some v \<Rightarrow> Inr (Some v))
         else Inr None)"
proof (cases "tx_at (in_times (lg_inner s)) at")
  case None
  then have "version_at A at u = None" using lookup_tx_at [OF assms, where at = at and u = u] by simp
  then show ?thesis using None by (simp add: object_at_def)
next
  case (Some t)
  then have v: "version_at A at u = lookup_at A t u" using lookup_tx_at [OF assms, where at = at and u = u] by simp
  show ?thesis
    using Some reconstruct_at_rep [OF assms(1), of u t] by (cases "lookup_at A t u") (simp_all add: object_at_def v)
qed

theorem object_at_exact_witness:
  "\<exists>s bs. ledger_rep one_env s bs [(5, 7, one_payload)] \<and>
    object_at one_env s 5 7 = Inr (Some (JObject one_payload)) \<and> object_at one_env s 5 6 = Inr None"
proof -
  obtain s bs where rep: "ledger_rep one_env s bs [(5, 7, one_payload)]" using two_ledger by blast
  have "kind_of_payload (JObject one_payload) = KObject"
    by (simp add: kind_of_payload_def one_payload_def)
  then show ?thesis
    using rep object_at_exact [OF rep, of 5 7] object_at_exact [OF rep, of 5 6]
    by (auto simp: version_at_def one_env_def)
qed

section \<open>Version history\<close>

lemma hist_commit:
  assumes rep: "ledger_rep E s bs A" and e: "e \<in> set (hist bs u)"
  shows "\<exists>m. lookup_at A (ie_tx e) u = Some m"
proof -
  have R: "map b_tx bs = [0..<length bs]" "\<forall>i < length bs. \<forall>p \<in> set (b_ops (bs ! i)). f_entity (snd p) = fst (A ! i)"
    using rep by (simp_all add: ledger_rep_def commits_rep_def)
  obtain b p where b: "b \<in> set bs" "p \<in> set (b_ops b)" "ie_tx e = b_tx b" "f_entity (snd p) = u"
    using e by (auto simp: hist_def entries_from_batches_def from_fact_def)
  obtain i where i: "i < length bs" "b = bs ! i" using b(1) by (metis in_set_conv_nth)
  then have "b_tx b = i" using R(1) by (metis nth_map add_0 nth_upt)
  moreover have "fst (A ! i) = u" using R(2) i b by auto
  moreover have "A ! i \<in> set (take (Suc i) A)"
    using i(1) commits_length [OF rep] by (simp add: take_Suc_conv_app_nth)
  ultimately have "commits_of A (ie_tx e) u \<noteq> []" using b(3) by (auto simp: commits_of_def filter_empty_conv)
  then show ?thesis by (simp add: lookup_at_def)
qed

text \<open>
  The history of an entity lists its versions.  \<open>entity_history\<close> returns, oldest first, the
  payload the entity had after each transaction that changed one of its facts.
\<close>

theorem entity_history_versions:
  assumes "ledger_rep E s bs A"
  shows "entity_history E s u =
    Inr (map (\<lambda>t. JObject (the (lookup_at A t u))) (sorted_list_of_set (ie_tx ` set (hist bs u))))"
proof -
  have L: "index_rep E s bs" "caches_ok E (lg_inner s) bs A"
    using assms by (simp_all add: ledger_rep_def)
  obtain es where es: "entity_entries E s u = Inr es" "same_history es (hist bs u)" "\<forall>e \<in> set es. ie_entity e = u"
    using entity_entries_rep [OF L(1)] by blast
  let ?ts = "sorted_list_of_set (ie_tx ` set (hist bs u))"
  let ?S = "\<lambda>t. facts_of u (slot_map (Some t) (hist bs u))"
  have txs: "distinct_txs es = ?ts" unfolding distinct_txs_def same_history_set [OF es(2)] ..
  have fold: "fold_state u es (Some t) = ?S t" for t
    using slot_map_history [OF es(2,3)] by (simp add: fold_state_facts)
  have rec: "?S t \<noteq> [] \<and> reconstruct_res E s (?S t) = Inr (JObject (the (lookup_at A t u)))" if t: "t \<in> set ?ts" for t
  proof -
    obtain e where "e \<in> set (hist bs u)" "ie_tx e = t" using t by auto
    then obtain m where m: "lookup_at A t u = Some m" using hist_commit [OF assms] by blast
    have "case lookup_at A t u of None \<Rightarrow> slot_map (Some t) (hist bs u) = Map.empty
      | Some m \<Rightarrow> represents (le_uuid E) (mf_attributes (st_manifest (in_store (lg_inner s)))) u m
          (slot_map (Some t) (hist bs u))" using assms unfolding ledger_rep_def commits_rep_def by blast
    then have "represents (le_uuid E) (mf_attributes (st_manifest (in_store (lg_inner s)))) u m
        (slot_map (Some t) (hist bs u))" using m by simp
    from represents_reconstruct [OF this ledger_reg_ok [OF assms]]
    show ?thesis using m by (simp add: reconstruct_res_def)
  qed
  have "filter (\<lambda>facts. facts \<noteq> []) (map ?S ?ts) = map ?S ?ts" using rec by (auto simp: filter_id_conv)
  then have "map_res (reconstruct_res E s) (filter (\<lambda>facts. facts \<noteq> []) (map ?S ?ts)) =
      Inr (map (\<lambda>t. JObject (the (lookup_at A t u))) ?ts)"
    by (simp only: map_res_map) (rule map_res_all, use rec in simp)
  then show ?thesis by (simp add: entity_history_def es(1) txs fold)
qed

theorem entity_history_versions_witness:
  "\<exists>s bs. ledger_rep one_env s bs [(5, 7, one_payload)] \<and> entity_history one_env s 5 = Inr [JObject one_payload]"
proof -
  obtain s bs where rep: "ledger_rep one_env s bs [(5, 7, one_payload)]" using two_ledger by blast
  have len: "length bs = 1" using commits_length [OF rep] by simp
  have tx: "map b_tx bs = [0..<length bs]" using rep by (simp add: ledger_rep_def commits_rep_def)
  have ne: "hist bs 5 \<noteq> []"
  proof
    assume "hist bs 5 = []"
    then have "state_at one_env s 5 (Some 0) = Inr []"
      using state_at_rep rep unfolding ledger_rep_def by (fastforce simp: facts_of_def)
    then show False using reconstruct_at_rep [OF rep, of 5 0] by (simp add: reconstruct_at_def one_lookup)
  qed
  have "ie_tx e = 0" if "e \<in> set (hist bs 5)" for e using hist_tx_less [OF tx that] len by simp
  then have "ie_tx ` set (hist bs 5) = {0}" using ne by (auto simp: image_iff) (metis list.set_intros(1) neq_Nil_conv)
  then show ?thesis using entity_history_versions [OF rep, of 5] rep by (auto simp: one_lookup)
qed

section \<open>Bulk reads\<close>

definition till_tx :: "nat option \<Rightarrow> nat" where
  "till_tx till = (case till of None \<Rightarrow> U64_MAX | Some t \<Rightarrow> t)"

lemma slot_map_till:
  assumes rep: "ledger_rep E s bs A"
  shows "slot_map till (hist bs u) = slot_map (Some (till_tx till)) (hist bs u)"
proof (cases till)
  case None
  have "ie_tx e \<le> U64_MAX" if "e \<in> set (hist bs u)" for e
    using hist_tx_less [OF _ that] rep by (auto simp: ledger_rep_def commits_rep_def)
  then have "\<not> U64_MAX < ie_tx e" if "e \<in> set (hist bs u)" for e using that by (meson not_le)
  then show ?thesis
    unfolding None till_tx_def option.case by (intro slot_map_all) (simp_all add: beyond_def)
qed (simp add: till_tx_def)

lemma lookup_state:
  assumes rep: "ledger_rep E s bs A"
  shows "case lookup_at A (till_tx till) u of
      None \<Rightarrow> facts_of u (slot_map till (hist bs u)) = []
    | Some m \<Rightarrow> facts_of u (slot_map till (hist bs u)) \<noteq> [] \<and>
        reconstruct_res E s (facts_of u (slot_map till (hist bs u))) = Inr (JObject m)"
proof -
  have "case lookup_at A (till_tx till) u of None \<Rightarrow> slot_map till (hist bs u) = Map.empty
      | Some m \<Rightarrow> represents (le_uuid E) (mf_attributes (st_manifest (in_store (lg_inner s)))) u m
          (slot_map till (hist bs u))"
    unfolding slot_map_till [OF rep, of till u] using rep unfolding ledger_rep_def commits_rep_def by blast
  then show ?thesis
  proof (cases "lookup_at A (till_tx till) u")
    case (Some m)
    assume "case lookup_at A (till_tx till) u of None \<Rightarrow> slot_map till (hist bs u) = Map.empty
      | Some m \<Rightarrow> represents (le_uuid E) (mf_attributes (st_manifest (in_store (lg_inner s)))) u m
          (slot_map till (hist bs u))"
    then have "represents (le_uuid E) (mf_attributes (st_manifest (in_store (lg_inner s)))) u m
        (slot_map till (hist bs u))" using Some by simp
    from represents_reconstruct [OF this ledger_reg_ok [OF rep]]
    show ?thesis using Some by (simp add: reconstruct_res_def)
  qed (simp add: facts_of_def)
qed

text \<open>The sequential pass over runs and memtable shows the whole history.\<close>

lemma run_all_history:
  assumes "index_holds K D (runs, index) H"
  shows "\<exists>ess. map_res (\<lambda>r. run_all K r index) (fi_runs runs Eavt) = Inr ess \<and> same_history (concat ess) H"
proof -
  have K: "idx_codec_ok K" and h: "fi_holds K (runs, index) H" using assms by (simp_all add: index_holds_def)
  obtain rss where rss: "order_rep K (runs, index) Eavt rss" "same_history (map snd (concat rss)) H"
    using fi_holdsE [OF h, of Eavt] by metis
  have "map_res (\<lambda>r. run_all K r index) (fi_runs runs Eavt) = Inr (map (map snd) rss)"
    using conjunct1 [OF rss(1) [unfolded order_rep_def], unfolded fst_conv snd_conv]
    by (rule map_res_list_all2) (auto simp: run_all_def dest!: all_raw_rep [OF K])
  then show ?thesis using rss(2) by (simp add: map_concat)
qed

lemma map_res_filter_map:
  assumes "\<And>x. x \<in> set xs \<Longrightarrow> P (g x) \<Longrightarrow> f (g x) = Inr (h x)"
  shows "map_res f (filter P (map g xs)) = Inr (map h (filter (P \<circ> g) xs))"
  using assms by (induction xs) auto

lemma bulk_read_rep:
  assumes "ledger_rep E s bs A" "\<And>us. mset (le_order E us) = mset us"
  shows "\<exists>ps. all_payloads_at E s till = Inr ps \<and> distinct (map fst ps) \<and>
    set ps = {(u, JObject m) | u m. lookup_at A (till_tx till) u = Some m}"
proof -
  let ?i = "lg_inner s" and ?n = "covered (lg_inner s)"
  have R: "index_holds (le_idx E) (le_dir E) (in_runs ?i, lg_index s) (entries_from_batches (take ?n bs))"
    "in_memtable ?i = entries_from_batches (drop ?n bs)"
    using assms(1) unfolding ledger_rep_def index_rep_def Let_def by blast+
  obtain ess where ess: "map_res (\<lambda>r. run_all (le_idx E) r (lg_index s)) (fi_runs (in_runs ?i) Eavt) = Inr ess"
    "same_history (concat ess) (entries_from_batches (take ?n bs))" using run_all_history [OF R(1)] by blast
  define entries where "entries = concat ess @ in_memtable ?i"
  have all: "entries_from_batches (take ?n bs) @ in_memtable ?i = entries_from_batches bs"
    unfolding R(2) by (simp only: entries_append [symmetric] append_take_drop_id)
  have same: "same_history entries (entries_from_batches bs)"
    unfolding entries_def all [symmetric] by (rule same_history_append [OF ess(2) same_history_refl])
  define us where "us = le_order E (remdups (map ie_entity entries))"
  have us: "distinct us" "set us = ie_entity ` set (entries_from_batches bs)"
  proof -
    have "mset us = mset (remdups (map ie_entity entries))" using assms(2) by (simp add: us_def)
    then show "distinct us" "set us = ie_entity ` set (entries_from_batches bs)"
      using mset_eq_imp_distinct_iff mset_eq_setD same_history_set [OF same] by (metis distinct_remdups, fastforce)
  qed
  have fold: "fold_state u (filter (\<lambda>e. ie_entity e = u) entries) till = facts_of u (slot_map till (hist bs u))" for u
  proof -
    have "same_history (filter (\<lambda>e. ie_entity e = u) entries) (hist bs u)"
      unfolding hist_def by (rule same_history_filter [OF same])
    from slot_map_history [OF this, of u till] show ?thesis by (simp add: fold_state_facts)
  qed
  let ?g = "\<lambda>u. (u, facts_of u (slot_map till (hist bs u)))"
  let ?h = "\<lambda>u. (u, JObject (the (lookup_at A (till_tx till) u)))"
  let ?P = "\<lambda>(u :: uuid, facts :: 'a fact list). facts \<noteq> []"
  let ?f = "\<lambda>(u, facts). case reconstruct_res E s facts of Inl e \<Rightarrow> Inl e | Inr p \<Rightarrow> Inr (u, p)"
  have P: "(?P \<circ> ?g) u \<longleftrightarrow> lookup_at A (till_tx till) u \<noteq> None" for u
    using lookup_state [OF assms(1), where till = till and u = u] by (cases "lookup_at A (till_tx till) u") simp_all
  have "map_res ?f (filter ?P (map ?g us)) = Inr (map ?h (filter (?P \<circ> ?g) us))"
  proof (rule map_res_filter_map)
    fix u
    assume "?P (?g u)"
    then obtain m where "lookup_at A (till_tx till) u = Some m" using P [of u] by auto
    then show "?f (?g u) = Inr (?h u)" using lookup_state [OF assms(1), where till = till and u = u] by simp
  qed
  then have res: "all_payloads_at E s till = Inr (map ?h (filter (?P \<circ> ?g) us))"
    unfolding all_payloads_at_def ess(1) sum.case Let_def entries_def [symmetric] fold us_def [symmetric] .
  have "u \<in> set us" if "lookup_at A (till_tx till) u \<noteq> None" for u
  proof -
    have "hist bs u \<noteq> []"
    proof
      assume "hist bs u = []"
      then have "\<not> (?P \<circ> ?g) u" by (simp add: facts_of_def)
      then show False using P that by blast
    qed
    then obtain e where "e \<in> set (hist bs u)" by (meson list.set_sel(1))
    then show ?thesis unfolding us(2) by (auto simp: hist_def)
  qed
  then have "set (map ?h (filter (?P \<circ> ?g) us)) = {(u, JObject m) | u m. lookup_at A (till_tx till) u = Some m}"
    using P by (auto simp: image_iff)
  moreover have "distinct (map fst (map ?h (filter (?P \<circ> ?g) us)))" using us(1) by (simp add: comp_def)
  ultimately show ?thesis using res by blast
qed

text \<open>
  C13: The bulk read is the point reads.  One pass over the runs and the memtable returns, for
  every entity that has a payload at the cut and for no other, exactly the payload a point read
  returns, each once, whatever the iteration order of the hash map.
\<close>

theorem bulk_read_exact:
  assumes "ledger_rep E s bs A" "\<And>us. mset (le_order E us) = mset us"
  shows "\<exists>ps. all_payloads_at E s till = Inr ps \<and> distinct (map fst ps) \<and>
    set ps = {(u, JObject m) | u m. lookup_at A (till_tx till) u = Some m}"
  by (rule bulk_read_rep [OF assms])

theorem bulk_read_exact_witness:
  "\<exists>s bs ps. ledger_rep one_env s bs [(5, 7, one_payload)] \<and> all_payloads_at one_env s None = Inr ps \<and>
    set ps = {(5, JObject one_payload)}"
proof -
  obtain s bs where rep: "ledger_rep one_env s bs [(5, 7, one_payload)]" using two_ledger by blast
  have "mset (le_order one_env us) = mset us" for us by (simp add: one_env_def)
  from bulk_read_exact [OF rep this, of None] obtain ps where "all_payloads_at one_env s None = Inr ps"
    "set ps = {(u, JObject m) | u m. lookup_at [(5, 7, one_payload)] (till_tx None) u = Some m}" by blast
  moreover have "{(u, JObject m) | u m. lookup_at [(5, 7, one_payload)] (till_tx None) u = Some m} = {(5, JObject one_payload)}"
    by (auto simp: lookup_at_def commits_of_def)
  ultimately show ?thesis using rep by auto
qed

section \<open>Relationships of a node\<close>

lemma fact_map_mem: "distinct (map fact_key fs) \<Longrightarrow> f \<in> set fs \<Longrightarrow> fact_map fs (fact_key f) = Some f"
  unfolding fact_map_def by (subst map_of_rev_distinct) (force simp: comp_def intro!: map_of_is_SomeI)+

text \<open>A canonical reference under \<open>from\<close> or \<open>to\<close> becomes a fact with that reference.\<close>

lemma ref_fact:
  assumes rep: "represents U reg u m S" and reg: "reg_ok reg"
    and side: "side \<in> {''from'', ''to''}" "map_of m side = Some (JString t)" "canonical_uuid U t = Some node"
  shows "\<exists>a. reg_get reg side = Some a \<and> a < 2 ^ 32 \<and> S (a, None) = Some (FRef node)"
proof -
  obtain reg0 facts reg1 where r: "reg_ok reg0" "decompose U u (JObject m) reg0 = Inr (facts, reg1)"
    "length (reg_names reg1) \<le> 2 ^ 32" "reg_le reg1 reg" "wf_json (JObject m)" "refs_fit m"
    "S = (\<lambda>k. map_option f_value (fact_map facts k))" using rep by (auto simp: represents_def)
  note em = decompose_emits [OF r(2,1,3)]
  let ?it = "([side], [(None, FRef node)]) :: 'a item"
  have "entry_items U (side, JString t) = [?it]"
    using side by (auto simp: entry_items_def scalar_ref_def REF_SCALAR_ATTRS_def canonical_ref_def)
  then have it: "?it \<in> set (payload_items U m)"
    using map_of_SomeD [OF side(2)] by (force simp: payload_items_def)
  have path: "path_of [side] = side" using side(1) by (auto simp: path_of_def)
  have "path_of (fst ?it) \<in> set (reg_names reg1)" using reg_adds_names [OF it r(1)] em by metis
  then obtain a where a: "reg_index reg1 side = Some a"
    using em reg_index_None_iff [of reg1 side] by (auto simp: path)
  define f where "f = \<lparr>f_entity = u, f_attr = a, f_pos = None, f_value = FRef node :: 'a fact_value\<rparr>"
  have "f \<in> set (item_facts u reg1 ?it)" using a by (simp add: item_facts_def path f_def)
  then have "f \<in> set facts" using it em by (force simp: emit_def)
  then have "fact_map facts (fact_key f) = Some f"
    using fact_map_mem decompose_keys(1) [OF r(5,6,1,2,3)] by blast
  then have "S (a, None) = Some (FRef node)" by (simp add: r(7) f_def fact_key_def)
  moreover have "reg_get reg side = Some a"
    using reg_index_mono [OF conjunct1 [OF em] reg r(4) a] by (simp add: reg_get_def)
  moreover have "a < 2 ^ 32" using a em r(3) unfolding reg_ok_def by (meson less_le_trans)
  ultimately show ?thesis by blast
qed

lemma slot_map_entry:
  assumes "slot_map till es k = Some v"
  shows "\<exists>e \<in> set es. ie_slot e = k \<and> ie_value e = v"
proof -
  obtain e where e: "latest (slot_entries till k es) = Some e" "asserted e = Some v"
    using assms by (auto simp: slot_map_def bind_eq_Some_conv)
  have "e \<in> set (slot_entries till k es)" by (rule latest_in [OF e(1)])
  then show ?thesis using e(2) by (auto simp: slot_entries_def asserted_def split: if_splits)
qed

lemma reg_get_bound: "reg_ok reg \<Longrightarrow> reg_get reg p = Some a \<Longrightarrow> a < 2 ^ 32"
  unfolding reg_ok_def reg_get_def by (meson less_le_trans)

lemma side_candidates_rep:
  assumes rep: "ledger_rep E s bs A"
  shows "side_candidates E s node side = Inr
    (case reg_get (mf_attributes (st_manifest (in_store (lg_inner s)))) side of
       None \<Rightarrow> {}
     | Some a \<Rightarrow> ie_entity ` {e \<in> set (entries_from_batches bs). ie_attr e = a \<and> ie_value e = FRef node})"
proof (cases "reg_get (mf_attributes (st_manifest (in_store (lg_inner s)))) side")
  case (Some a)
  let ?i = "lg_inner s" and ?n = "covered (lg_inner s)"
  have R: "index_holds (le_idx E) (le_dir E) (in_runs ?i, lg_index s) (entries_from_batches (take ?n bs))"
    "in_memtable ?i = entries_from_batches (drop ?n bs)"
    using rep unfolding ledger_rep_def index_rep_def Let_def by blast+
  have a: "a < 2 ^ 32" using reg_get_bound [OF ledger_reg_ok [OF rep] Some] .
  obtain es where es: "fi_scan (le_idx E) (AttrValuePrefix a (FRef node)) (in_runs ?i, lg_index s) = Inr es"
    "ie_entity ` set es = ie_entity ` {e \<in> set (entries_from_batches (take ?n bs)). ie_attr e = a \<and> ie_value e = FRef node}"
    using scan_ref_entities [OF _ _ a, of "le_idx E" "(in_runs ?i, lg_index s)" "entries_from_batches (take ?n bs)" node] R(1)
    unfolding index_holds_def by blast
  have "set (entries_from_batches bs) = set (entries_from_batches (take ?n bs)) \<union> set (in_memtable ?i)"
    unfolding R(2) by (metis entries_append append_take_drop_id set_append)
  then have "{e \<in> set (entries_from_batches bs). ie_attr e = a \<and> ie_value e = FRef node} =
      {e \<in> set (entries_from_batches (take ?n bs)). ie_attr e = a \<and> ie_value e = FRef node} \<union>
      {e \<in> set (in_memtable ?i). ie_attr e = a \<and> ie_value e = FRef node}" by blast
  then show ?thesis unfolding side_candidates_def Some option.case es(1) sum.case es(2) by (simp only: image_Un)
qed (simp add: side_candidates_def)

lemma candidates_complete:
  assumes rep: "ledger_rep E s bs A" and m: "lookup_at A U64_MAX rel = Some m"
    and side: "side \<in> {''from'', ''to''}" "map_of m side = Some (JString t)" "canonical_uuid (le_uuid E) t = Some node"
  shows "\<exists>rels. relationship_candidates E s node = Inr rels \<and> rel \<in> set rels"
proof -
  let ?reg = "mf_attributes (st_manifest (in_store (lg_inner s)))"
  let ?C = "\<lambda>side. case reg_get ?reg side of None \<Rightarrow> {}
     | Some a \<Rightarrow> ie_entity ` {e \<in> set (entries_from_batches bs). ie_attr e = a \<and> ie_value e = FRef node}"
  have c: "relationship_candidates E s node = Inr (sorted_list_of_set (?C ''from'' \<union> ?C ''to''))"
    by (simp add: relationship_candidates_def side_candidates_rep [OF rep])
  have fin: "finite (?C side)" for side by (simp split: option.splits)
  have "case lookup_at A U64_MAX rel of None \<Rightarrow> slot_map (Some U64_MAX) (hist bs rel) = Map.empty
      | Some m \<Rightarrow> represents (le_uuid E) ?reg rel m (slot_map (Some U64_MAX) (hist bs rel))"
    using rep unfolding ledger_rep_def commits_rep_def by blast
  then have "represents (le_uuid E) ?reg rel m (slot_map (Some U64_MAX) (hist bs rel))" using m by simp
  from ref_fact [OF this ledger_reg_ok [OF rep] side] obtain a where a: "reg_get ?reg side = Some a"
    "slot_map (Some U64_MAX) (hist bs rel) (a, None) = Some (FRef node)" by blast
  obtain e where "e \<in> set (hist bs rel)" "ie_slot e = (a, None)" "ie_value e = FRef node"
    using slot_map_entry [OF a(2)] by blast
  then have "rel \<in> ?C side" by (auto simp: a(1) hist_def ie_slot_def)
  then have "rel \<in> ?C ''from'' \<union> ?C ''to''" using side(1) by auto
  then have "rel \<in> set (sorted_list_of_set (?C ''from'' \<union> ?C ''to''))"
    by (subst set_sorted_list_of_set) (simp_all only: finite_Un fin)
  then show ?thesis using c by blast
qed

lemma collect_some_all:
  "(\<And>x. x \<in> set xs \<Longrightarrow> f x = Inr (g x)) \<Longrightarrow> collect_some f xs = Inr (List.map_filter g xs)"
  by (induction xs) (auto simp: List.map_filter_simps split: option.splits)

text \<open>
  C23: The relationships of a node are complete and current.  \<open>relationships_for\<close> finds, through
  the reference index and the memtable, every entity whose current payload is a relationship that
  names the node in \<open>from\<close> or \<open>to\<close>, and returns nothing else, provided those payloads decode.
\<close>

theorem relationships_for_exact:
  assumes "ledger_rep E s bs A" "uparse (le_uuid E) (ushow (le_uuid E) node) = Some node"
    and "\<And>rel m. lookup_at A U64_MAX rel = Some m \<Longrightarrow> touches E node (JObject m) \<Longrightarrow>
      kind_of_payload (JObject m) = KRelationship \<Longrightarrow> le_typed E KRelationship (JObject m) = Some (ty rel)"
  shows "\<exists>vs. relationships_for E s node = Inr vs \<and>
    set vs = {ty rel | rel m. lookup_at A U64_MAX rel = Some m \<and> touches E node (JObject m) \<and>
                kind_of_payload (JObject m) = KRelationship}"
proof -
  let ?hit = "\<lambda>rel. \<exists>m. lookup_at A U64_MAX rel = Some m \<and> touches E node (JObject m) \<and>
      kind_of_payload (JObject m) = KRelationship"
  obtain rels where rels: "relationship_candidates E s node = Inr rels"
    by (simp add: relationship_candidates_def side_candidates_rep [OF assms(1)])
  have w: "rel_where E s (touches E node) U64_MAX rel = Inr (if ?hit rel then Some (ty rel) else None)" for rel
    using reconstruct_at_rep [OF assms(1), of rel U64_MAX] assms(3) [of rel]
    by (cases "lookup_at A U64_MAX rel") (auto simp: rel_where_def)
  have "rel \<in> set rels" if hit: "?hit rel" for rel
  proof -
    obtain m where m: "lookup_at A U64_MAX rel = Some m" "touches E node (JObject m)" using hit by blast
    then obtain side where side: "side \<in> {''from'', ''to''}" "map_of m side = Some (JString (ushow (le_uuid E) node))"
      by (auto simp: touches_def bind_eq_Some_conv elim!: as_str.elims)
    have "canonical_uuid (le_uuid E) (ushow (le_uuid E) node) = Some node"
      using assms(2) by (simp add: canonical_uuid_def)
    from candidates_complete [OF assms(1) m(1) side this] show ?thesis using rels by auto
  qed
  moreover have "relationships_for E s node = Inr (List.map_filter (\<lambda>rel. if ?hit rel then Some (ty rel) else None) rels)"
    unfolding relationships_for_def rels sum.case by (rule collect_some_all) (rule w)
  ultimately show ?thesis by (auto simp: set_map_filter)
qed

text \<open>A ledger with one commit, of any payload: its operations get the short code.\<close>

lemma one_commit_rep:
  assumes m: "payload_ok m" and dec: "decompose (le_uuid E) u (JObject m) registry_new = Inr (facts, reg)"
    and regs: "length (reg_names reg) \<le> 2 ^ 32"
    and E: "le_seg E = short_seg_codec (diff [] facts)" "idx_codec_ok (le_idx E)" "dir_codec_ok (le_dir E)"
  shows "\<exists>s bs. ledger_rep E s bs [(u, 7, m)]"
proof -
  let ?s = "fresh_ledger E" and ?ops = "diff [] facts"
  have C: "seg_codec_ok (le_seg E)" by (simp add: E(1) short_seg_codec_ok)
  have fresh: "store_part E ?s [] []" "st_manifest (in_store (lg_inner ?s)) = default_manifest" "st_dict (in_store (lg_inner ?s)) = None"
    using fresh_store [OF C] by blast+
  have rep: "ledger_rep E ?s [] []" by (rule fresh_rep [OF C E(2,3)])
  have attrs0: "mf_attributes (st_manifest (in_store (lg_inner ?s))) = registry_new" by (simp add: fresh(2) default_manifest_def)
  have em: "reg_ok reg" "reg_le registry_new reg" using decompose_emits [OF dec reg_ok_new regs] by blast+
  let ?s2 = "intern_attributes E reg ?s" and ?b = "\<lparr>b_tx = 0, b_wall = 7, b_ops = ?ops\<rparr>"
  note I = intern_rep [OF fresh(1) em(1), unfolded attrs0, OF em(2)]
  have fits: "frame_fits (le_seg E) (st_dict (in_store (lg_inner ?s2))) ?b"
    using I(2) fresh(3) short_frame_fits [of ?ops] by (simp add: E(1))
  obtain sealed st root bss act where ap:
    "store_part E (?s2\<lparr>lg_inner := (lg_inner ?s2)\<lparr>in_store := st\<rparr>, lg_root := root\<rparr>) bss act" "concat bss @ act = [?b]"
    "mf_attributes (st_manifest st) = mf_attributes (st_manifest (in_store (lg_inner ?s2)))"
    using append_store_part [OF I(1) fits] by auto
  let ?s2' = "?s2\<lparr>lg_inner := (lg_inner ?s2)\<lparr>in_store := st\<rparr>, lg_root := root\<rparr>"
  let ?s3 = "after_commit E u (JObject m) ?ops 7 0 ?s2'"
  have commits: "commits_rep (le_uuid E) reg ([] @ [?b]) ([] @ [(u, 7, m)])"
    by (rule commits_rep_snoc [OF _ reg_ok_new dec regs])
      (use m in \<open>simp_all add: payload_ok_def commits_rep_def lookup_at_def commits_of_def hist_def entries_from_batches_def facts_of_def\<close>)
  have entries: "\<forall>e \<in> set (entries_from_batches [?b]). entry_fits e"
  proof -
    have "entry_fits (from_fact f 0 op)" if "(op, f) \<in> set ?ops" for op f
      using diff_facts [OF that] decompose_keys(2) [OF _ _ reg_ok_new dec regs] m
      by (auto simp: entry_fits_def from_fact_def payload_ok_def)
    then show ?thesis by (auto simp: entries_from_batches_def batch_entries_def)
  qed
  have "index_rep E ?s []" "caches_ok E (lg_inner ?s) [] []" using rep by (simp_all add: ledger_rep_def)
  note holds = this
  have idx: "index_rep E ?s2' []"
    by (rule index_rep_cong [OF _ _ _ _ holds(1)]) (simp_all add: intern_attributes_def Let_def)
  have caches: "caches_ok E (lg_inner ?s2') [] []"
    using holds(2) by (simp add: intern_attributes_def Let_def caches_ok_def)
  have "ledger_rep E ?s3 ([] @ [?b]) ([] @ [(u, 7, m)])"
  proof (rule ledger_rep_intro [where bss = bss and act = act])
    show "store_part E ?s3 bss act" by (rule after_commit_store) (rule ap(1))
    show "index_rep E ?s3 ([] @ [?b])" using after_commit_index [where b = ?b and u = u and p = "JObject m" and w = 7, OF idx] by simp
    show "caches_ok E (lg_inner ?s3) ([] @ [?b]) ([] @ [(u, 7, m)])"
      using after_commit_caches [where b = ?b and u = u and w = 7 and m = m and ops = ?ops, OF caches commits] by simp
    show "commits_rep (le_uuid E) (mf_attributes (st_manifest (in_store (lg_inner ?s3)))) ([] @ [?b]) ([] @ [(u, 7, m)])"
      using commits I(2) ap(3) by (simp add: after_commit_fields)
    show "\<not> in_read_only (lg_inner ?s3)"
      using rep I(2) by (simp add: after_commit_fields ledger_rep_def)
  qed (use ap(2) entries in \<open>simp_all add: U64_MAX_def\<close>)
  then show ?thesis by auto
qed

text \<open>A call from node 7 to node 9, and a decoder that refuses what is not of the kind asked for.\<close>

definition call_payload :: "nat jmap" where
  "call_payload = [(''from'', JString ''u7''), (''to'', JString ''u9'')]"

definition call_env :: "nat ledger_env" where
  "call_env = one_env
     \<lparr>le_seg := short_seg_codec (case decompose demo_uuid_text 5 (JObject call_payload) registry_new of
        Inr (facts, _) \<Rightarrow> diff [] facts | Inl _ \<Rightarrow> []),
      le_typed := (\<lambda>k j. if kind_of_payload j = k then Some j else None)\<rparr>"

lemma call_ledger: "\<exists>s bs. ledger_rep call_env s bs [(5, 7, call_payload)]"
proof -
  obtain facts reg where dec: "decompose demo_uuid_text 5 (JObject call_payload) registry_new = Inr (facts, reg)"
    by (simp add: decompose_def Let_def)
  have "case decompose demo_uuid_text 5 (JObject call_payload) registry_new of
      Inl _ \<Rightarrow> False | Inr (_, r) \<Rightarrow> length (reg_names r) = 2"
    by (simp add: decompose_def Let_def call_payload_def demo_uuid_text_def decompose_entry_def
        scalar_ref_def REF_SCALAR_ATTRS_def array_refs_def REF_ARRAY_ATTRS_def canonical_ref_def
        canonical_uuid_def push_leaf_def push_refs_def intern_def registry_new_def as_u32_def)
  then have regs: "length (reg_names reg) \<le> 2 ^ 32" using dec by simp
  have ok: "payload_ok call_payload"
    by (auto simp: payload_ok_def call_payload_def refs_fit_def bt_sorted_def)
  show ?thesis
    by (rule one_commit_rep [where facts = facts and reg = reg, OF ok _ regs])
      (simp_all add: call_env_def dec one_env_def demo_idx_codec_ok demo_dirs_ok)
qed

theorem relationships_for_exact_witness:
  "\<exists>s bs vs. ledger_rep call_env s bs [(5, 7, call_payload)] \<and> relationships_for call_env s 7 = Inr vs \<and>
     set vs = {JObject call_payload}"
proof -
  obtain s bs where rep: "ledger_rep call_env s bs [(5, 7, call_payload)]" using call_ledger by blast
  have u: "uparse (le_uuid call_env) (ushow (le_uuid call_env) 7) = Some 7"
    by (simp add: call_env_def one_env_def demo_uuid_text_def)
  have look: "lookup_at [(5, 7, call_payload)] U64_MAX rel = (if rel = 5 then Some call_payload else None)" for rel
    by (simp add: lookup_at_def commits_of_def)
  have touches: "touches call_env 7 (JObject call_payload)"
    by (simp add: touches_def call_payload_def call_env_def one_env_def demo_uuid_text_def)
  have kind: "kind_of_payload (JObject call_payload) = KRelationship"
    by (simp add: kind_of_payload_def call_payload_def)
  have ty: "le_typed call_env KRelationship (JObject m) = Some (JObject call_payload)"
    if "lookup_at [(5, 7, call_payload)] U64_MAX rel = Some m" for rel m
    using that kind by (simp add: look call_env_def split: if_splits)
  have "\<exists>vs. relationships_for call_env s 7 = Inr vs \<and>
      set vs = {JObject call_payload | rel m. lookup_at [(5, 7, call_payload)] U64_MAX rel = Some m \<and>
        touches call_env 7 (JObject m) \<and> kind_of_payload (JObject m) = KRelationship}"
    by (rule relationships_for_exact [where ty = "\<lambda>_. JObject call_payload", OF rep u]) (rule ty)
  then obtain vs where vs: "relationships_for call_env s 7 = Inr vs"
    "set vs = {JObject call_payload | rel m. lookup_at [(5, 7, call_payload)] U64_MAX rel = Some m \<and>
       touches call_env 7 (JObject m) \<and> kind_of_payload (JObject m) = KRelationship}"
    by (elim exE conjE) (rule that; assumption)
  have "set vs = {JObject call_payload}" unfolding vs(2) look using touches kind by auto
  then show ?thesis using rep vs(1) by blast
qed

section \<open>Catching up with a writer\<close>

lemma split_lines_append:
  "split_lines acc (xs @ newline # ys) = split_lines acc (xs @ [newline]) @ split_lines [] ys"
  by (induction xs arbitrary: acc) auto

lemma whole_lines_split:
  obtains xs ys where "bs = xs @ ys" "length xs = whole_lines bs" "newline \<notin> set ys" "xs = [] \<or> last xs = newline"
proof
  let ?r = "takeWhile (\<lambda>b. b \<noteq> newline) (rev bs)" and ?d = "dropWhile (\<lambda>b. b \<noteq> newline) (rev bs)"
  have "rev bs = ?r @ ?d" by simp
  then show "bs = rev ?d @ rev ?r" by (metis rev_append rev_rev_ident)
  show "length (rev ?d) = whole_lines bs"
    unfolding whole_lines_def by (metis add_diff_cancel_left' length_append length_rev takeWhile_dropWhile_id)
  show "newline \<notin> set (rev ?r)" by (auto dest: set_takeWhileD)
  show "rev ?d = [] \<or> last (rev ?d) = newline"
    by (cases ?d) (auto dest: hd_dropWhile simp: last_rev, metis (mono_tags, lifting) hd_dropWhile list.distinct(1) list.sel(1))
qed

lemma whole_lines_append: "newline \<notin> set ys \<Longrightarrow> xs = [] \<or> last xs = newline \<Longrightarrow>
    whole_lines (xs @ ys @ zs) = length xs + whole_lines (ys @ zs)"
proof -
  assume ys: "newline \<notin> set ys" and xs: "xs = [] \<or> last xs = newline"
  have "length (takeWhile (\<lambda>b. b \<noteq> newline) (rev (ys @ zs) @ rev xs)) =
      length (takeWhile (\<lambda>b. b \<noteq> newline) (rev (ys @ zs)))"
  proof (cases "newline \<in> set (ys @ zs)")
    case True
    then show ?thesis by (metis (mono_tags, lifting) set_rev takeWhile_append1)
  next
    case False
    then have "takeWhile (\<lambda>b. b \<noteq> newline) (rev (ys @ zs) @ rev xs) =
        rev (ys @ zs) @ takeWhile (\<lambda>b. b \<noteq> newline) (rev xs)" by (intro takeWhile_append2) auto
    moreover have "takeWhile (\<lambda>b. b \<noteq> newline) (rev xs) = []"
      using xs by (cases xs rule: rev_cases) auto
    moreover have "takeWhile (\<lambda>b. b \<noteq> newline) (rev (ys @ zs)) = rev (ys @ zs)"
      using False by (intro takeWhile_eq_all_conv [THEN iffD2]) auto
    ultimately show ?thesis by (simp only: append_Nil2)
  qed
  moreover have "length (takeWhile (\<lambda>b. b \<noteq> newline) (rev (ys @ zs))) \<le> length (ys @ zs)"
    by (metis length_rev length_takeWhile_le)
  ultimately show "whole_lines (xs @ ys @ zs) = length xs + whole_lines (ys @ zs)"
    by (simp add: whole_lines_def)
qed

definition prov_step ::
  "'n ledger_env \<Rightarrow> bytes \<Rightarrow> (nat \<Rightarrow> write_context option) \<Rightarrow> nat \<Rightarrow> write_context option" where
  "prov_step E line out = (case le_pv_parse E line of None \<Rightarrow> out | Some (tx, ctx) \<Rightarrow> out(tx \<mapsto> ctx))"

lemma fold_prov: "fold (prov_step E) ls m = m ++ fold (prov_step E) ls Map.empty"
proof (induction ls arbitrary: m)
  case (Cons l ls)
  have step: "prov_step E l m = m ++ prov_step E l Map.empty" by (auto simp: prov_step_def split: option.splits)
  have "fold (prov_step E) (l # ls) m = prov_step E l m ++ fold (prov_step E) ls Map.empty"
    using Cons [of "prov_step E l m"] by simp
  also have "\<dots> = m ++ (prov_step E l Map.empty ++ fold (prov_step E) ls Map.empty)"
    unfolding step by (rule map_add_assoc [symmetric])
  also have "prov_step E l Map.empty ++ fold (prov_step E) ls Map.empty = fold (prov_step E) (l # ls) Map.empty"
    using Cons [of "prov_step E l Map.empty"] by simp
  finally show ?case .
qed simp

text \<open>
  Provenance is caught up exactly.  Reading the sidecar once, and again from the remembered
  offset after the writer appended \<open>g\<close>, merges to what a reader of the whole file sees, also
  when the first read met a line the writer had only half written.
\<close>

theorem provenance_incremental:
  "load_provenance_from E (root(''provenance.jsonl'' \<mapsto> f @ g)) 0 =
    (let (p1, n1) = load_provenance_from E (root(''provenance.jsonl'' \<mapsto> f)) 0;
         (p2, n2) = load_provenance_from E (root(''provenance.jsonl'' \<mapsto> f @ g)) n1
     in (p1 ++ p2, n2))"
proof -
  have load: "load_provenance_from E (root(''provenance.jsonl'' \<mapsto> h)) n =
      (fold (prov_step E) (split_lines [] (take (whole_lines (drop n h)) (drop n h))) Map.empty,
       n + whole_lines (drop n h))" for h n
    by (simp add: load_provenance_from_def prov_step_def [abs_def] Let_def)
  obtain xs ys where f: "f = xs @ ys" "length xs = whole_lines f" "newline \<notin> set ys" "xs = [] \<or> last xs = newline"
    by (rule whole_lines_split)
  have w: "whole_lines (f @ g) = length xs + whole_lines (ys @ g)"
    unfolding f(1) append_assoc by (rule whole_lines_append [OF f(3,4)])
  have t: "take (whole_lines (f @ g)) (f @ g) = xs @ take (whole_lines (ys @ g)) (ys @ g)"
    unfolding w by (simp add: f(1))
  have split: "split_lines [] (xs @ zs) = split_lines [] xs @ split_lines [] zs" for zs
    using f(4) split_lines_append [of "[]" "butlast xs" zs]
    by (cases xs rule: rev_cases) simp_all
  have first: "take (length xs) f = xs" "drop (length xs) (f @ g) = ys @ g" by (simp_all add: f(1))
  have a: "load_provenance_from E (root(''provenance.jsonl'' \<mapsto> f @ g)) 0 =
      (fold (prov_step E) (split_lines [] (take (whole_lines (f @ g)) (f @ g))) Map.empty, whole_lines (f @ g))"
    by (simp only: load drop_0 add_0)
  have b: "load_provenance_from E (root(''provenance.jsonl'' \<mapsto> f)) 0 =
      (fold (prov_step E) (split_lines [] xs) Map.empty, length xs)"
    by (simp only: load drop_0 add_0 f(2) [symmetric] first)
  have c: "load_provenance_from E (root(''provenance.jsonl'' \<mapsto> f @ g)) (length xs) =
      (fold (prov_step E) (split_lines [] (take (whole_lines (ys @ g)) (ys @ g))) Map.empty,
       length xs + whole_lines (ys @ g))"
    by (simp only: load first)
  have two: "fold (prov_step E) (split_lines [] xs @ zs) Map.empty =
      fold (prov_step E) (split_lines [] xs) Map.empty ++ fold (prov_step E) zs Map.empty" for zs
    unfolding fold_append comp_def by (rule fold_prov)
  show ?thesis unfolding a b Let_def prod.case c w t [unfolded w] split two ..
qed

end
