(* ===== verification/Index_Reopen.thy ===== *)
theory Index_Reopen
  imports Index
begin

text \<open>
  What a restart needs of the index directory: every run file is open and listed, no two runs of
  an order share a file, and no transaction is in two runs, so that the order in which
  \<open>FactIndexes::open\<close> finds the files does not show.  Flushes and compactions keep this, and an open
  of the directory gives back the same runs.
\<close>

section \<open>The transactions of a run\<close>

definition run_rows :: "'n idx_codec \<Rightarrow> fs \<Rightarrow> index_run \<Rightarrow> 'n raw_record list" where
  "run_rows K fs r = (case all_raw K r fs of Inl _ \<Rightarrow> [] | Inr raws \<Rightarrow> raws)"

definition run_txs :: "'n idx_codec \<Rightarrow> fs \<Rightarrow> index_run \<Rightarrow> nat set" where
  "run_txs K fs r = (ie_tx \<circ> snd) ` set (run_rows K fs r)"

definition runs_durable :: "'n idx_codec \<Rightarrow> dir_codec \<Rightarrow> fact_indexes \<times> fs \<Rightarrow> bool" where
  "runs_durable K D s \<longleftrightarrow>
     runs_listed D s \<and> (\<forall>order. distinct (map ir_path (fi_runs (fst s) order))) \<and>
     (\<forall>order. \<forall>run \<in> set (fi_runs (fst s) order). \<exists>n. ir_path run = run_path order n) \<and>
     (\<forall>r1 \<in> set (fi_runs (fst s) Eavt). \<forall>r2 \<in> set (fi_runs (fst s) Eavt).
        r1 \<noteq> r2 \<longrightarrow> run_txs K (snd s) r1 \<inter> run_txs K (snd s) r2 = {})"

lemma run_rows_frame: "fs' (ir_path r) = fs (ir_path r) \<Longrightarrow> run_rows K fs' r = run_rows K fs r"
  by (simp add: run_rows_def all_raw_def read_block_where_def)

lemma order_rep_rows:
  assumes "idx_codec_ok K" "order_rep K s order rss"
  shows "rss = map (run_rows K (snd s)) (fi_runs (fst s) order)"
proof -
  have "list_all2 (\<lambda>run raws. run_rows K (snd s) run = raws) (fi_runs (fst s) order) rss"
    using conjunct1 [OF assms(2) [unfolded order_rep_def]]
    by (rule list.rel_mono_strong) (use all_raw_rep [OF assms(1)] in \<open>auto simp: run_rows_def\<close>)
  then show ?thesis by (simp add: list_all2_conv_all_nth list_eq_iff_nth_eq)
qed

lemma run_txs_held:
  assumes K: "idx_codec_ok K" and holds: "fi_holds K s H" and r: "r \<in> set (fi_runs (fst s) Eavt)"
  shows "run_txs K (snd s) r \<subseteq> ie_tx ` set H"
proof -
  obtain rss where rss: "order_rep K s Eavt rss" "mset (concat rss) = mset (List.map_filter (project K Eavt) H)"
    using fi_holdsE [OF holds, of Eavt] by metis
  have "set (run_rows K (snd s) r) \<subseteq> set (concat rss)"
    using r unfolding order_rep_rows [OF K rss(1)] by auto
  also have "\<dots> = (\<lambda>e. (encode_key K Eavt e, e)) ` set H"
    using mset_eq_setD [OF rss(2)] by (simp add: map_filter_project_eavt)
  finally show ?thesis by (auto simp: run_txs_def)
qed

section \<open>Opening the directory\<close>

lemma fi_open_runs:
  "fi_runs (fst (fi_open D fs)) order =
     List.map_filter (run_of_order D fs order) (filter is_run_file (sorted_list_of_set (dom fs)))"
proof -
  have "distinct (filter is_run_file (sorted_list_of_set (dom fs)))" by simp
  from fold_open_step [OF this, of D "\<lparr>fi_runs = (\<lambda>_. [])\<rparr>" True fs]
  show ?thesis unfolding fi_open_def by auto
qed

lemma opened_paths:
  "distinct ps \<Longrightarrow> distinct (map ir_path (List.map_filter (run_of_order D fs order) ps)) \<and>
     ir_path ` set (List.map_filter (run_of_order D fs order) ps) \<subseteq> set ps"
proof (induction ps)
  case (Cons p ps)
  have "ir_path r = p" if "run_of_order D fs order p = Some r" for r
    using that by (auto simp: run_of_order_def run_open_def Let_def split: sum.splits option.splits if_splits)
  then show ?case using Cons by (auto simp: List.map_filter_simps split: option.splits)
qed (simp add: List.map_filter_simps)

text \<open>Where at most one part of a concatenation has an element of interest, the order does not matter.\<close>

lemma filter_concat_apart:
  assumes "set xs = set ys" "distinct xs" "distinct ys"
    and "\<And>x y. x \<in> set xs \<Longrightarrow> y \<in> set xs \<Longrightarrow> filter P (g x) \<noteq> [] \<Longrightarrow> filter P (g y) \<noteq> [] \<Longrightarrow> x = y"
  shows "filter P (concat (map g xs)) = filter P (concat (map g ys))"
proof (cases "\<exists>x \<in> set xs. filter P (g x) \<noteq> []")
  case False
  then have "filter P (concat (map g xs)) = []" "filter P (concat (map g ys)) = []"
    using assms(1) by (auto simp: filter_empty_conv)
  then show ?thesis by simp
next
  case True
  then obtain x where x: "x \<in> set xs" "filter P (g x) \<noteq> []" by blast
  have one: "filter P (concat (map g zs)) = (if x \<in> set zs then filter P (g x) else [])"
    if "distinct zs" "set zs \<subseteq> set xs" for zs
    using that
  proof (induction zs)
    case (Cons z zs)
    have z: "filter P (g z) = []" if "z \<noteq> x" using assms(4) [OF _ x(1) _ x(2), of z] that Cons.prems by auto
    show ?case using Cons z by auto
  qed simp
  show ?thesis using one [of xs] one [of ys] assms(1-3) by simp
qed

lemma same_history_apart:
  assumes "set xs = set ys" "distinct xs" "distinct ys"
    and "\<And>x y. x \<in> set xs \<Longrightarrow> y \<in> set xs \<Longrightarrow> x \<noteq> y \<Longrightarrow> ie_tx ` set (g x) \<inter> ie_tx ` set (g y) = {}"
  shows "same_history (concat (map g xs)) (concat (map g ys))"
  unfolding same_history_def
proof
  fix k
  show "filter (\<lambda>e. slot_tx e = k) (concat (map g xs)) = filter (\<lambda>e. slot_tx e = k) (concat (map g ys))"
  proof (rule filter_concat_apart [OF assms(1-3)])
    fix x y
    assume xy: "x \<in> set xs" "y \<in> set xs" "filter (\<lambda>e. slot_tx e = k) (g x) \<noteq> []" "filter (\<lambda>e. slot_tx e = k) (g y) \<noteq> []"
    then obtain e f where "e \<in> set (g x)" "slot_tx e = k" "f \<in> set (g y)" "slot_tx f = k"
      by (auto simp: filter_empty_conv)
    then have "ie_tx e = ie_tx f" "ie_tx e \<in> ie_tx ` set (g x)" "ie_tx f \<in> ie_tx ` set (g y)"
      by (auto simp: slot_tx_def)
    then show "x = y" using assms(4) [OF xy(1,2)] by auto
  qed
qed

lemma fi_open_durable:
  assumes holds: "index_holds K D s H" and dur: "runs_durable K D s"
  shows "\<exists>fi. fi_open D (snd s) = (fi, True, snd s) \<and> index_holds K D (fi, snd s) H \<and> runs_durable K D (fi, snd s) \<and>
    (\<forall>order. set (fi_runs fi order) = set (fi_runs (fst s) order))"
proof -
  note h = holds [unfolded index_holds_def]
  have K: "idx_codec_ok K" and fih: "fi_holds K s H" using h by blast+
  have listed: "runs_listed D s" using dur by (simp add: runs_durable_def)
  have fin: "finite (dom (snd s))" using listed by (simp add: runs_listed_def)
  obtain fi where fi: "fi_open D (snd s) = (fi, (\<forall>p. snd s p \<noteq> None \<and> is_run_file p \<longrightarrow> readable D (snd s) p),
      (\<lambda>p. if snd s p \<noteq> None \<and> is_run_file p \<and> \<not> readable D (snd s) p then None else snd s p))"
    "\<And>order run. run \<in> set (fi_runs fi order) \<longleftrightarrow>
      (\<exists>p. snd s p \<noteq> None \<and> is_run_file p \<and> run_open D p (snd s) = Inr run \<and> rd_order (ir_dir run) = order)"
    using fi_open_spec [OF fin, of D] by blast
  have clean: "readable D (snd s) p" if "snd s p \<noteq> None" "is_run_file p" for p
    using listed that unfolding runs_listed_def readable_def by blast
  then have open1: "fi_open D (snd s) = (fi, True, snd s)" using fi(1) by (auto simp: fun_eq_iff)
  have reps: "\<exists>rss. order_rep K s order rss" for order using fi_holdsE [OF fih, of order] by metis
  have sets: "set (fi_runs fi order) = set (fi_runs (fst s) order)" for order
  proof (intro equalityI subsetI)
    fix run assume "run \<in> set (fi_runs fi order)"
    then obtain p where p: "snd s p \<noteq> None" "is_run_file p" "run_open D p (snd s) = Inr run" "rd_order (ir_dir run) = order"
      using fi(2) by blast
    then show "run \<in> set (fi_runs (fst s) order)" using listed unfolding runs_listed_def by (metis sum.inject(2))
  next
    fix run assume run: "run \<in> set (fi_runs (fst s) order)"
    obtain rss where rss: "order_rep K s order rss" using reps by blast
    obtain n where n: "ir_path run = run_path order n" using rss run by (auto simp: order_rep_def)
    obtain raws where "run_rep K order run (snd s) raws"
      using rss run by (auto simp: order_rep_def list_all2_conv_all_nth in_set_conv_nth)
    then have present: "snd s (ir_path run) \<noteq> None" by (auto simp: run_rep_def)
    have rf: "is_run_file (ir_path run)" by (simp add: n is_run_file_path)
    obtain r2 where r2: "run_open D (ir_path run) (snd s) = Inr r2" "r2 \<in> set (fi_runs (fst s) (rd_order (ir_dir r2)))"
      "ir_path r2 = ir_path run" using listed present rf unfolding runs_listed_def by metis
    have o2: "rd_order (ir_dir r2) = order"
    proof -
      obtain rss2 where "order_rep K s (rd_order (ir_dir r2)) rss2" using reps by blast
      then obtain m where "ir_path r2 = run_path (rd_order (ir_dir r2)) m" using r2(2) by (auto simp: order_rep_def)
      then show ?thesis using r2(3) n by simp
    qed
    have "distinct (map ir_path (fi_runs (fst s) order))" using dur by (simp add: runs_durable_def)
    then have "r2 = run" using r2(2,3) run o2 by (simp add: distinct_map inj_on_def)
    then show "run \<in> set (fi_runs fi order)" using fi(2) present rf r2(1) o2 by blast
  qed
  have paths: "distinct (map ir_path (fi_runs fi order))" for order
  proof -
    have "fi_runs fi order = List.map_filter (run_of_order D (snd s) order) (filter is_run_file (sorted_list_of_set (dom (snd s))))"
      using fi_open_runs [of D "snd s" order] open1 by simp
    then show ?thesis using opened_paths [of "filter is_run_file (sorted_list_of_set (dom (snd s)))" D "snd s" order] by simp
  qed
  have paths0: "distinct (map ir_path (fi_runs (fst s) order))" for order using dur by (simp add: runs_durable_def)
  have d: "distinct (fi_runs fi order)" "distinct (fi_runs (fst s) order)" for order
    using paths [of order] paths0 [of order] by (simp_all add: distinct_map)
  let ?g = "\<lambda>r. map snd (run_rows K (snd s) r)"
  have "\<exists>rss. order_rep K (fi, snd s) order rss \<and> mset (concat rss) = mset (List.map_filter (project K order) H) \<and>
      (order = Eavt \<longrightarrow> same_history (map snd (concat rss)) H)" for order
  proof -
    obtain rss where rss: "order_rep K s order rss" "mset (concat rss) = mset (List.map_filter (project K order) H)"
      "order = Eavt \<Longrightarrow> same_history (map snd (concat rss)) H" using fi_holdsE [OF fih, of order] by metis
    have r0: "rss = map (run_rows K (snd s)) (fi_runs (fst s) order)" by (rule order_rep_rows [OF K rss(1)])
    let ?rss = "map (run_rows K (snd s)) (fi_runs fi order)"
    have each: "run_rep K order run (snd s) (run_rows K (snd s) run) \<and> sorted (map fst (run_rows K (snd s) run)) \<and>
        raws_ok K order (run_rows K (snd s) run)" if "run \<in> set (fi_runs (fst s) order)" for run
      using conjunct1 [OF rss(1) [unfolded order_rep_def]] that unfolding r0 list_all2_map2 list_all2_same by blast
    have rep: "order_rep K (fi, snd s) order ?rss"
      using each sets rss(1) unfolding order_rep_def by (auto simp: list_all2_map2 list_all2_same)
    have perm: "mset (fi_runs fi order) = mset (fi_runs (fst s) order)"
      using set_eq_iff_mset_eq_distinct [OF d(1) [of order] d(2) [of order]] sets by simp
    then have "mset (concat ?rss) = mset (concat rss)"
      unfolding r0 mset_concat map_map by (metis mset_map sum_mset_sum_list)
    moreover have "same_history (map snd (concat ?rss)) H" if Eavt: "order = Eavt"
    proof -
      have "same_history (concat (map ?g (fi_runs fi order))) (concat (map ?g (fi_runs (fst s) order)))"
      proof (rule same_history_apart [OF sets d])
        fix x y assume xy: "x \<in> set (fi_runs fi order)" "y \<in> set (fi_runs fi order)" "x \<noteq> y"
        have "run_txs K (snd s) x \<inter> run_txs K (snd s) y = {}"
          using dur xy unfolding runs_durable_def sets Eavt by blast
        then show "ie_tx ` set (?g x) \<inter> ie_tx ` set (?g y) = {}" by (simp add: run_txs_def image_comp)
      qed
      from same_history_trans [OF this] rss(3) [OF Eavt] show ?thesis
        unfolding r0 by (simp add: map_concat comp_def)
    qed
    ultimately show ?thesis using rep rss(2) by (intro exI [of _ ?rss]) simp
  qed
  then have "index_holds K D (fi, snd s) H" using h fih by (simp add: index_holds_def fi_holds_def)
  moreover have "runs_durable K D (fi, snd s)"
    using dur paths unfolding runs_durable_def runs_listed_def fst_conv snd_conv sets by blast
  ultimately show ?thesis using open1 sets by blast
qed

section \<open>Adding and merging runs\<close>

lemma durable_names: "runs_durable K D s \<Longrightarrow> run \<in> set (fi_runs (fst s) order) \<Longrightarrow> \<exists>n. ir_path run = run_path order n"
  by (simp add: runs_durable_def)

lemma add_run_durable:
  assumes add: "add_run K D name M order s = Inr s'" and dur: "runs_durable K D s"
    and codecs: "idx_codec_ok K" "dir_codec_ok D" and fits: "run_fits K D order (sorted_raws K order M)"
    and fresh: "\<And>run. run \<in> set (fi_runs (fst s) order) \<Longrightarrow> ir_path run \<noteq> run_path order name"
    and apart: "\<And>run. run \<in> set (fi_runs (fst s) Eavt) \<Longrightarrow> order = Eavt \<Longrightarrow> run_txs K (snd s) run \<inter> ie_tx ` set M = {}"
  shows "runs_durable K D s'"
    "fi_runs (fst s') = (fi_runs (fst s))(order := fi_runs (fst s') order)"
    "\<forall>run \<in> set (fi_runs (fst s) Eavt). run_txs K (snd s') run = run_txs K (snd s) run"
proof -
  let ?path = "run_path order name"
  let ?fs = "(snd s)(?path \<mapsto> write_run K D order M)"
  obtain run where run: "run_open D ?path ?fs = Inr run" "ir_path run = ?path" "run_rep K order run ?fs (sorted_raws K order M)"
    using run_open_write [OF codecs(2) fits codecs(1), of ?fs ?path] by (auto simp: write_run_def)
  have s': "s' = (\<lparr>fi_runs = (fi_runs (fst s))(order := fi_runs (fst s) order @ [run])\<rparr>, ?fs)"
    using add run(1) by (simp add: add_run_def Let_def)
  show "fi_runs (fst s') = (fi_runs (fst s))(order := fi_runs (fst s') order)" by (simp add: s')
  have other: "ir_path r \<noteq> ?path" if "r \<in> set (fi_runs (fst s) o2)" for r o2
    using durable_names [OF dur that] fresh [of r] that by auto
  have txs: "run_txs K ?fs r = run_txs K (snd s) r" if "r \<in> set (fi_runs (fst s) o2)" for r o2
    using other [OF that] by (simp add: run_txs_def run_rows_frame [where fs' = "?fs" and fs = "snd s"])
  then show "\<forall>r \<in> set (fi_runs (fst s) Eavt). run_txs K (snd s') r = run_txs K (snd s) r" by (simp add: s')
  have new: "run_txs K ?fs run \<subseteq> ie_tx ` set M" if "order = Eavt"
  proof -
    have "run_rows K ?fs run = sorted_raws K order M" using all_raw_rep [OF codecs(1) run(3)] by (simp add: run_rows_def)
    then show ?thesis using that by (auto simp: run_txs_def sorted_raws_def map_filter_project_eavt)
  qed
  have l: "runs_listed D s'"
    by (rule add_run_listed [OF add _ codecs fits]) (use dur in \<open>simp add: runs_durable_def\<close>)
  have "ir_path run \<notin> ir_path ` set (fi_runs (fst s) order)" using fresh run(2) by fastforce
  then have p: "distinct (map ir_path (fi_runs (fst s') o2))" for o2
    using dur by (simp add: runs_durable_def s')
  have n: "\<exists>n. ir_path r = run_path o2 n" if "r \<in> set (fi_runs (fst s') o2)" for r o2
    using that durable_names [OF dur] run(2) by (auto simp: s' split: if_splits)
  have a: "run_txs K (snd s') r1 \<inter> run_txs K (snd s') r2 = {}"
    if r: "r1 \<in> set (fi_runs (fst s') Eavt)" "r2 \<in> set (fi_runs (fst s') Eavt)" "r1 \<noteq> r2" for r1 r2
  proof -
    have old: "run_txs K ?fs x \<inter> run_txs K ?fs y = {}"
      if "x \<in> set (fi_runs (fst s) Eavt)" "y \<in> set (fi_runs (fst s) Eavt)" "x \<noteq> y" for x y
      using dur that txs unfolding runs_durable_def by blast
    have mixed: "run_txs K ?fs x \<inter> run_txs K ?fs run = {}" if "x \<in> set (fi_runs (fst s) Eavt)" "order = Eavt" for x
      using apart [OF that] new [OF that(2)] txs [OF that(1)] by blast
    show ?thesis
    proof (cases "order = Eavt")
      case True
      then have "r1 \<in> insert run (set (fi_runs (fst s) Eavt))" "r2 \<in> insert run (set (fi_runs (fst s) Eavt))"
        using r by (simp_all add: s')
      then show ?thesis using r(3) old mixed True by (auto simp: s')
    next
      case False
      then show ?thesis using r old by (simp add: s')
    qed
  qed
  show "runs_durable K D s'" unfolding runs_durable_def using l p n a by blast
qed

lemma add_runs_durable:
  assumes add: "add_runs K D name M s = Inr s'" and dur: "runs_durable K D s" and holds: "index_holds K D s H"
    and room: "index_room K D name M s" and apart: "ie_tx ` set H \<inter> ie_tx ` set M = {}"
  shows "runs_durable K D s'"
proof -
  have codecs: "idx_codec_ok K" "dir_codec_ok D" and h: "fi_holds K s H" using holds by (simp_all add: index_holds_def)
  have fits: "run_fits K D order (sorted_raws K order M)" for order using room by (simp add: index_room_def)
  have fresh: "ir_path run \<noteq> run_path order name" if "run \<in> set (fi_runs (fst s) order)" for order run
    using room that by (simp add: index_room_def)
  obtain s1 s2 where steps: "add_run K D name M Eavt s = Inr s1" "add_run K D name M Aevt s1 = Inr s2"
    "add_run K D name M Avet s2 = Inr s'"
    using add by (auto simp: add_runs_def all_orders_def split: sum.splits)
  have "run_txs K (snd s) run \<inter> ie_tx ` set M = {}" if "run \<in> set (fi_runs (fst s) Eavt)" for run
    using run_txs_held [OF codecs(1) h that] apart by blast
  note a1 = add_run_durable [OF steps(1) dur codecs fits fresh this]
  have f1: "ir_path run \<noteq> run_path Aevt name" if "run \<in> set (fi_runs (fst s1) Aevt)" for run
    using fresh [of run Aevt] that a1(2) by (metis fun_upd_other sort_order.distinct(1))
  note a2 = add_run_durable [OF steps(2) a1(1) codecs fits f1, simplified]
  have f2: "ir_path run \<noteq> run_path Avet name" if "run \<in> set (fi_runs (fst s2) Avet)" for run
    using fresh [of run Avet] that a1(2) a2(2) by (metis fun_upd_other sort_order.distinct(3,5))
  show ?thesis by (rule add_run_durable(1) [OF steps(3) a2(1) codecs fits f2]) simp_all
qed

lemma merge_runs_durable:
  assumes merge: "merge_runs K D order s = Inr s'" and dur: "runs_durable K D s" and holds: "index_holds K D s H"
    and room: "index_room_merged K D order H"
  shows "runs_durable K D s'"
proof (cases "length (fi_runs (fst s) order) \<le> 1")
  case True
  then show ?thesis using merge dur by (simp add: merge_runs_def)
next
  case False
  have codecs: "idx_codec_ok K" "dir_codec_ok D" and h: "fi_holds K s H" using holds by (simp_all add: index_holds_def)
  obtain rss where rss: "order_rep K s order rss" "mset (concat rss) = mset (List.map_filter (project K order) H)"
    using fi_holdsE [OF h, of order] by metis
  let ?raws = "sort_key fst (concat rss)"
  let ?path = "run_path order ''merged''" and ?tmp = "run_path order ''merged'' @ ''.tmp''"
  define fs1 where "fs1 = remove_runs (fi_runs (fst s) order) ((snd s)(?tmp \<mapsto> write_run_raw K D order ?raws))"
  define fs2 where "fs2 = (fs1(?tmp := None))(?path := fs1 ?tmp)"
  have paths: "\<exists>n. ir_path run = run_path o2 n" if "run \<in> set (fi_runs (fst s) o2)" for run o2
    by (rule durable_names [OF dur that])
  have tmp: "fs1 ?tmp = Some (write_run_raw K D order ?raws)"
  proof -
    have "?tmp \<notin> ir_path ` set (fi_runs (fst s) order)" using paths [of _ order] by fastforce
    then show ?thesis by (simp add: fs1_def remove_runs_apply)
  qed
  have fits: "run_fits K D order ?raws" using room rss(2) by (simp add: index_room_merged_def)
  obtain run where run: "run_open D ?path fs2 = Inr run" "ir_path run = ?path" "run_rep K order run fs2 ?raws"
    using run_open_write [OF codecs(2) fits codecs(1), of fs2 ?path] tmp by (auto simp: fs2_def)
  have s': "s' = (\<lparr>fi_runs = (fi_runs (fst s))(order := [run])\<rparr>, fs2)"
    using merge False run(1) merge_all_raw [OF codecs(1) rss(1)]
    by (simp add: merge_runs_def merge_prepare_def Let_def fs1_def fs2_def)
  have fs2: "fs2 p = (if p = ?path then Some (write_run_raw K D order ?raws) else if p = ?tmp then None
      else if p \<in> ir_path ` set (fi_runs (fst s) order) then None else snd s p)" for p
    using tmp by (simp add: fs2_def fs1_def remove_runs_apply)
  have frame: "fs2 (ir_path r) = snd s (ir_path r)" if r: "r \<in> set (fi_runs (fst s) o2)" "o2 \<noteq> order" for r o2
  proof -
    obtain n where n: "ir_path r = run_path o2 n" using paths [OF r(1)] by blast
    have "run_path o2 n \<notin> ir_path ` set (fi_runs (fst s) order)" using paths [of _ order] r(2) by force
    then show ?thesis using r(2) by (simp add: fs2 n)
  qed
  have l: "runs_listed D s'"
  proof -
    have "dom fs2 \<subseteq> insert ?path (dom (snd s))" by (auto simp: fs2 split: if_splits)
    then have "finite (dom fs2)" using dur finite_subset unfolding runs_durable_def runs_listed_def by blast
    moreover have "\<exists>r. run_open D p fs2 = Inr r \<and> r \<in> set (fi_runs (fst s') (rd_order (ir_dir r))) \<and> ir_path r = p"
      if p: "fs2 p \<noteq> None" "is_run_file p" for p
    proof (cases "p = ?path")
      case True
      then show ?thesis using run by (auto simp: s' run_rep_def)
    next
      case False
      then have q: "p \<notin> ir_path ` set (fi_runs (fst s) order)" "fs2 p = snd s p" using p(1) by (auto simp: fs2 split: if_splits)
      then obtain r where r: "run_open D p (snd s) = Inr r" "r \<in> set (fi_runs (fst s) (rd_order (ir_dir r)))" "ir_path r = p"
        using dur p unfolding runs_durable_def runs_listed_def by metis
      then have "rd_order (ir_dir r) \<noteq> order" using q(1) by auto
      then show ?thesis using r q(2) run_open_cong [of fs2 p "snd s" D] by (auto simp: s')
    qed
    ultimately show ?thesis by (simp add: runs_listed_def s')
  qed
  have pd: "distinct (map ir_path (fi_runs (fst s') o2))" for o2 using dur by (simp add: runs_durable_def s')
  have n: "\<exists>n. ir_path r = run_path o2 n" if "r \<in> set (fi_runs (fst s') o2)" for r o2
    using that paths run(2) by (auto simp: s' split: if_splits)
  have a: "run_txs K (snd s') r1 \<inter> run_txs K (snd s') r2 = {}"
    if r: "r1 \<in> set (fi_runs (fst s') Eavt)" "r2 \<in> set (fi_runs (fst s') Eavt)" "r1 \<noteq> r2" for r1 r2
  proof (cases "order = Eavt")
    case True
    then show ?thesis using r by (simp add: s')
  next
    case False
    then have m: "r1 \<in> set (fi_runs (fst s) Eavt)" "r2 \<in> set (fi_runs (fst s) Eavt)" using r by (simp_all add: s')
    have "run_txs K fs2 x = run_txs K (snd s) x" if "x \<in> set (fi_runs (fst s) Eavt)" for x
      using frame [OF that] False by (simp add: run_txs_def run_rows_frame [where fs' = fs2 and fs = "snd s"])
    then show ?thesis using dur m r(3) unfolding runs_durable_def by (simp add: s')
  qed
  show ?thesis unfolding runs_durable_def using l pd n a by blast
qed

text \<open>The marker of the covered transaction is no run file.\<close>

lemma run_file_last_tx [simp]: "\<not> is_run_file ''last_tx''"
  by (simp add: is_run_file_def suffix_def)

lemma durable_side_file:
  assumes "runs_durable K D (runs, fs)" "\<not> is_run_file p"
  shows "runs_durable K D (runs, fs(p \<mapsto> b))"
proof -
  have p: "run_path order n \<noteq> p" for order n using assms(2) is_run_file_path by metis
  have "runs_listed D (runs, fs(p \<mapsto> b))"
  proof -
    have "run_open D q (fs(p \<mapsto> b)) = run_open D q fs" if "is_run_file q" for q
      by (rule run_open_cong) (use that assms(2) in auto)
    then show ?thesis using assms unfolding runs_durable_def runs_listed_def by (auto split: if_splits)
  qed
  moreover have "run_txs K (fs(p \<mapsto> b)) r = run_txs K fs r" if "r \<in> set (fi_runs runs order)" for r order
  proof -
    have "r \<in> set (fi_runs (fst (runs, fs)) order)" using that by simp
    then obtain n where "ir_path r = run_path order n" using durable_names [OF assms(1)] by blast
    then show ?thesis using p by (simp add: run_txs_def run_rows_frame [where fs' = "fs(p \<mapsto> b)" and fs = fs])
  qed
  ultimately show ?thesis using assms(1) unfolding runs_durable_def by simp
qed

lemma empty_durable: "finite (dom fs) \<Longrightarrow> (\<And>p. fs p \<noteq> None \<Longrightarrow> \<not> is_run_file p) \<Longrightarrow>
    runs_durable K D (\<lparr>fi_runs = (\<lambda>_. [])\<rparr>, fs)"
  by (auto simp: runs_durable_def runs_listed_def)

end
