(* ===== verification/Ledger_Reopen.thy ===== *)
theory Ledger_Reopen
  imports Ledger_Properties Index_Reopen
begin

text \<open>
  Restarting the fact ledger.  \<open>durable\<close> says that the directory agrees with the handle: run files,
  marker, checkpoints and provenance; every append keeps it.  \<open>ledger_disk\<close> says what a pair of
  directories holds, and \<open>FactLedger::open\<close> on it gives a handle with exactly that history.
\<close>

section \<open>Sidecar lines\<close>

text \<open>\<open>serde_json\<close>: a written line reads back and holds no newline.\<close>

definition sidecar_codec_ok :: "'n ledger_env \<Rightarrow> bool" where
  "sidecar_codec_ok E \<longleftrightarrow>
     (\<forall>x. le_cp_parse E (le_cp_line E x) = Some x \<and> newline \<notin> set (le_cp_line E x)) \<and>
     (\<forall>x. le_pv_parse E (le_pv_line E x) = Some x \<and> newline \<notin> set (le_pv_line E x))"

definition ends_line :: "bytes \<Rightarrow> bool" where
  "ends_line bs \<longleftrightarrow> bs = [] \<or> last bs = newline"

lemma ends_line_snoc [simp]: "ends_line (xs @ l @ [newline])"
  by (simp add: ends_line_def)

lemma split_one_line: "newline \<notin> set l \<Longrightarrow> split_lines acc (l @ [newline]) = [acc @ l]"
  by (induction l arbitrary: acc) auto

lemma split_lines_snoc:
  assumes "ends_line xs" "newline \<notin> set l"
  shows "split_lines [] (xs @ l @ [newline]) = split_lines [] xs @ [l]"
proof (cases xs rule: rev_cases)
  case Nil
  then show ?thesis using split_one_line [OF assms(2), of "[]"] by simp
next
  case (snoc ys y)
  then have "y = newline" using assms(1) by (simp add: ends_line_def)
  then show ?thesis using split_lines_append [of "[]" ys "l @ [newline]"] split_one_line [OF assms(2), of "[]"] snoc by simp
qed

lemma whole_lines_ends: "ends_line xs \<Longrightarrow> whole_lines xs = length xs"
  by (cases xs rule: rev_cases) (auto simp: whole_lines_def ends_line_def)

lemma load_checkpoints_snoc:
  assumes "sidecar_codec_ok E" "ends_line (file_bytes ''checkpoints.jsonl'' root)"
  shows "load_checkpoints E (append_checkpoint E u tx facts root) =
    (load_checkpoints E root)(u := bt_insert tx facts (load_checkpoints E root u))"
  using assms by (simp add: load_checkpoints_def append_checkpoint_def split_lines_snoc sidecar_codec_ok_def)

lemma load_provenance_file:
  assumes "ends_line (file_bytes ''provenance.jsonl'' root)"
  shows "fst (load_provenance_from E root 0) =
    fold (prov_step E) (split_lines [] (file_bytes ''provenance.jsonl'' root)) Map.empty"
  using assms whole_lines_ends [OF assms]
  by (cases "root ''provenance.jsonl''") (simp_all add: load_provenance_from_def prov_step_def [abs_def] file_bytes_def Let_def)

section \<open>Directories that agree with the handle\<close>

definition sidecars_rep :: "'n ledger_env \<Rightarrow> fs \<Rightarrow> 'n inner \<Rightarrow> bool" where
  "sidecars_rep E root i \<longleftrightarrow>
     ends_line (file_bytes ''checkpoints.jsonl'' root) \<and> ends_line (file_bytes ''provenance.jsonl'' root) \<and>
     load_checkpoints E root = in_checkpoints i \<and> fst (load_provenance_from E root 0) = in_provenance i"

definition durable :: "'n ledger_env \<Rightarrow> 'n ledger \<Rightarrow> bool" where
  "durable E s \<longleftrightarrow>
     sidecar_codec_ok E \<and> runs_durable (le_idx E) (le_dir E) (in_runs (lg_inner s), lg_index s) \<and>
     read_marker (lg_index s) = in_marker (lg_inner s) \<and> sidecars_rep E (lg_root s) (lg_inner s)"

lemma sidecars_frame:
  assumes "sidecars_rep E root i" "\<forall>f \<in> side_files. root' f = root f"
    and "in_checkpoints i' = in_checkpoints i" "in_provenance i' = in_provenance i"
  shows "sidecars_rep E root' i'"
proof -
  have "root' ''checkpoints.jsonl'' = root ''checkpoints.jsonl''" "root' ''provenance.jsonl'' = root ''provenance.jsonl''"
    using assms(2) by (simp_all add: side_files_def)
  then have "file_bytes ''checkpoints.jsonl'' root' = file_bytes ''checkpoints.jsonl'' root"
    "file_bytes ''provenance.jsonl'' root' = file_bytes ''provenance.jsonl'' root"
    "load_provenance_from E root' 0 = load_provenance_from E root 0"
    by (simp_all add: file_bytes_def load_provenance_from_def)
  then show ?thesis using assms by (simp add: sidecars_rep_def load_checkpoints_def)
qed

lemma checkpoint_durable:
  assumes "maybe_checkpoint E u tx s = (Inr (), s')" "durable E s"
  shows "durable E s'"
proof -
  have "s' = s \<or> (\<exists>facts. s' = s\<lparr>lg_root := append_checkpoint E u tx facts (lg_root s),
      lg_inner := (lg_inner s)\<lparr>in_checkpoints :=
        (in_checkpoints (lg_inner s))(u := bt_insert tx facts (in_checkpoints (lg_inner s) u))\<rparr>\<rparr>)"
    using assms(1) by (auto simp: maybe_checkpoint_def Let_def split: sum.splits option.splits prod.splits if_splits)
  then show ?thesis
  proof
    assume "\<exists>facts. s' = s\<lparr>lg_root := append_checkpoint E u tx facts (lg_root s),
      lg_inner := (lg_inner s)\<lparr>in_checkpoints :=
        (in_checkpoints (lg_inner s))(u := bt_insert tx facts (in_checkpoints (lg_inner s) u))\<rparr>\<rparr>"
    then obtain facts where s': "s' = s\<lparr>lg_root := append_checkpoint E u tx facts (lg_root s),
      lg_inner := (lg_inner s)\<lparr>in_checkpoints :=
        (in_checkpoints (lg_inner s))(u := bt_insert tx facts (in_checkpoints (lg_inner s) u))\<rparr>\<rparr>" by blast
    have pv: "append_checkpoint E u tx facts (lg_root s) ''provenance.jsonl'' = lg_root s ''provenance.jsonl''"
      by (simp add: append_checkpoint_def)
    have "sidecars_rep E (lg_root s') (lg_inner s')"
      using assms(2) load_checkpoints_snoc [of E "lg_root s" u tx facts] pv
      by (simp add: s' sidecars_rep_def durable_def file_bytes_def load_provenance_from_def)
        (simp add: append_checkpoint_def)
    then show ?thesis using assms(2) by (simp add: durable_def s')
  qed (use assms(2) in simp)
qed

lemma after_commit_durable:
  assumes "durable E s"
  shows "durable E (after_commit E u p ops w tx s)"
proof -
  let ?s' = "after_commit E u p ops w tx s"
  have side: "sidecars_rep E (lg_root ?s') (lg_inner ?s')"
  proof (cases "in_write_ctx (lg_inner s)")
    case None
    then have "lg_root ?s' = lg_root s" "in_provenance (lg_inner ?s') = in_provenance (lg_inner s)"
      by (simp_all add: after_commit_def record_provenance_def index_object_def Let_def split: option.splits)
    then show ?thesis using assms sidecars_frame [of E "lg_root s" "lg_inner s"] by (simp add: durable_def after_commit_fields)
  next
    case (Some ctx)
    let ?f = "file_bytes ''provenance.jsonl'' (lg_root s)"
    have root: "lg_root ?s' = (lg_root s)(''provenance.jsonl'' \<mapsto> ?f @ le_pv_line E (tx, ctx) @ [newline])"
      "in_provenance (lg_inner ?s') = (in_provenance (lg_inner s))(tx \<mapsto> ctx)"
      using Some by (simp_all add: after_commit_def record_provenance_def index_object_def Let_def split: option.splits)
    have d: "sidecar_codec_ok E" "sidecars_rep E (lg_root s) (lg_inner s)" using assms by (simp_all add: durable_def)
    have e: "ends_line ?f" using d(2) by (simp add: sidecars_rep_def)
    have line: "le_pv_parse E (le_pv_line E (tx, ctx)) = Some (tx, ctx)" "newline \<notin> set (le_pv_line E (tx, ctx))"
      using d(1) by (simp_all add: sidecar_codec_ok_def)
    have "fst (load_provenance_from E (lg_root ?s') 0) = (fst (load_provenance_from E (lg_root s) 0))(tx \<mapsto> ctx)"
      using load_provenance_file [of "lg_root ?s'" E] load_provenance_file [OF e, of E] split_lines_snoc [OF e line(2)]
      by (simp add: root prov_step_def line(1))
    then show ?thesis using d(2) by (simp add: sidecars_rep_def root after_commit_fields load_checkpoints_def file_bytes_def)
  qed
  then show ?thesis using assms by (simp add: durable_def after_commit_fields)
qed

section \<open>The marker\<close>

lemma bytes_str_bytes: "bytes_str (str_bytes s) = s"
  by (induction s) (simp_all add: bytes_str_def str_bytes_def unat_of_nat take_bit_nat_eq_self)

lemma read_write_marker:
  assumes "tx \<le> U64_MAX"
  shows "read_marker (write_marker tx index) = Some tx"
proof -
  have tx: "tx < 2 ^ 64" using assms by (simp add: U64_MAX_def)
  obtain c cs where s: "show_nat tx = c # cs" by (cases "show_nat tx") auto
  have "digits (show_nat tx)" by simp
  then have "c \<noteq> CHR ''+''" unfolding s by (auto simp: is_digit_def)
  then have "parse_u64 (show_nat tx) = Some tx"
    using tx s nat_val_show [of tx] show_nat_digits [of tx] unfolding s by (simp add: parse_u64_def)
  then show ?thesis by (simp add: read_marker_def write_marker_def bytes_str_bytes)
qed

section \<open>Flushing\<close>

lemma merge_marker:
  assumes "merge_runs K D order s = Inr s'" "runs_durable K D s"
  shows "snd s' ''last_tx'' = snd s ''last_tx''"
proof -
  have "''last_tx'' \<noteq> ir_path r" if "r \<in> set (fi_runs (fst s) o2)" for r o2
    using durable_names [OF assms(2) that] run_path_last_tx by metis
  then have no: "''last_tx'' \<notin> ir_path ` set (fi_runs (fst s) order)" by blast
  have p: "''last_tx'' \<noteq> run_path order ''merged''" "''last_tx'' \<noteq> run_path order ''merged'' @ ''.tmp''"
    by (cases order; simp add: run_path_def)+
  show ?thesis
    using assms(1) no p by (auto simp: merge_runs_def merge_prepare_def Let_def remove_runs_apply split: if_splits sum.splits)
qed

lemma compact_durable:
  "fold_res (compact_order E) orders s = Inr s' \<Longrightarrow> runs_durable (le_idx E) (le_dir E) s \<Longrightarrow>
   index_holds (le_idx E) (le_dir E) s H \<Longrightarrow> \<forall>order. index_room_merged (le_idx E) (le_dir E) order H \<Longrightarrow>
   runs_durable (le_idx E) (le_dir E) s' \<and> snd s' ''last_tx'' = snd s ''last_tx''"
proof (induction orders arbitrary: s)
  case (Cons order orders)
  obtain s1 where s1: "compact_order E order s = Inr s1" "fold_res (compact_order E) orders s1 = Inr s'"
    using Cons.prems(1) by (auto split: sum.splits)
  have room: "index_room_merged (le_idx E) (le_dir E) order H" using Cons.prems(4) by blast
  have "runs_durable (le_idx E) (le_dir E) s1 \<and> index_holds (le_idx E) (le_dir E) s1 H \<and> snd s1 ''last_tx'' = snd s ''last_tx''"
  proof (cases "MERGE_RUNS_AT < run_count (fst s) order")
    case True
    then have m: "merge_runs (le_idx E) (le_dir E) order s = Inr s1" using s1(1) by (simp add: compact_order_def)
    then show ?thesis
      using merge_runs_durable [OF m Cons.prems(2,3) room] ix.compact_holds [OF Cons.prems(3) room] merge_marker [OF m Cons.prems(2)] by auto
  next
    case False
    then show ?thesis using s1(1) Cons.prems by (simp add: compact_order_def)
  qed
  then show ?case using Cons.IH [OF s1(2)] Cons.prems(4) by simp
qed simp

lemma tx_apart:
  assumes "map b_tx bs = [0..<length bs]"
  shows "ie_tx ` set (entries_from_batches (take n bs)) \<inter> ie_tx ` set (entries_from_batches (drop n bs)) = {}"
proof -
  have tx: "b_tx (bs ! i) = i" if "i < length bs" for i using assms that by (metis nth_map add_0 nth_upt)
  have "ie_tx e < n" if "e \<in> set (entries_from_batches (take n bs))" for e
    using that tx by (auto simp: entries_from_batches_def from_fact_def in_set_conv_nth)
  moreover have "n \<le> ie_tx e" if "e \<in> set (entries_from_batches (drop n bs))" for e
    using that tx by (auto simp: entries_from_batches_def from_fact_def in_set_conv_nth)
  ultimately show ?thesis by fastforce
qed

lemma flush_durable:
  assumes flush: "flush_memtable E tx s = (Inr (), s')" and rep: "index_rep E s bs" and tx: "length bs = Suc tx" "tx \<le> U64_MAX"
    and txs: "map b_tx bs = [0..<length bs]" and fits: "\<forall>e \<in> set (entries_from_batches bs). entry_fits e"
    and room: "flush_room E (in_memtable (lg_inner s)) (entries_from_batches bs)" and dur: "durable E s"
  shows "durable E s'"
proof (cases "in_memtable (lg_inner s) = []")
  case True
  then show ?thesis using flush dur by (simp add: flush_memtable_def Let_def)
next
  case False
  let ?i = "lg_inner s" and ?n = "covered (lg_inner s)" and ?K = "le_idx E" and ?D = "le_dir E"
  have R: "?n \<le> length bs" "index_holds ?K ?D (in_runs ?i, lg_index s) (entries_from_batches (take ?n bs))"
    "in_memtable ?i = entries_from_batches (drop ?n bs)"
    "\<And>order run. run \<in> set (fi_runs (in_runs ?i) order) \<Longrightarrow>
       ir_path run = run_path order ''merged'' \<or> (\<exists>t < ?n. ir_path run = run_path order (tx_name t))"
    using rep unfolding index_rep_def Let_def by blast+
  have n: "?n \<le> tx" using False R(1,3) tx(1) by (cases "?n = length bs") (auto simp: entries_from_batches_def)
  have all: "entries_from_batches (take ?n bs) @ in_memtable ?i = entries_from_batches bs"
    unfolding R(3) by (simp only: entries_append [symmetric] append_take_drop_id)
  have fresh: "ir_path run \<noteq> run_path order (tx_name tx)" if "run \<in> set (fi_runs (in_runs ?i) order)" for order run
    using R(4) [OF that] n by auto
  have "\<forall>e \<in> set (in_memtable ?i). entry_fits e" using fits all by (metis UnCI set_append)
  then have ir: "index_room ?K ?D (tx_name tx) (in_memtable ?i) (in_runs ?i, lg_index s)"
    using room fresh by (simp add: index_room_def flush_room_def)
  obtain runs1 index1 runs2 index2 where steps:
    "add_runs ?K ?D (tx_name tx) (in_memtable ?i) (in_runs ?i, lg_index s) = Inr (runs1, index1)"
    "fold_res (compact_order E) all_orders (runs1, write_marker tx index1) = Inr (runs2, index2)"
    "s' = s\<lparr>lg_inner := ?i\<lparr>in_runs := runs2, in_marker := Some tx, in_memtable := []\<rparr>, lg_index := index2\<rparr>"
    using flush False by (auto simp: flush_memtable_def Let_def split: sum.splits prod.splits)
  have d0: "runs_durable ?K ?D (in_runs ?i, lg_index s)" using dur by (simp add: durable_def)
  have apart: "ie_tx ` set (entries_from_batches (take ?n bs)) \<inter> ie_tx ` set (in_memtable ?i) = {}"
    unfolding R(3) by (rule tx_apart [OF txs])
  have d1: "runs_durable ?K ?D (runs1, index1)" by (rule add_runs_durable [OF steps(1) d0 R(2) ir apart])
  then have d2: "runs_durable ?K ?D (runs1, write_marker tx index1)"
    unfolding write_marker_def by (rule durable_side_file) simp
  have h1: "index_holds ?K ?D (runs1, index1) (entries_from_batches bs)"
    using ix.add_holds [OF R(2) ir, unfolded all] steps(1) by auto
  then have h2: "index_holds ?K ?D (runs1, write_marker tx index1) (entries_from_batches bs)"
    unfolding write_marker_def by (rule index_holds_marker)
  have rm: "\<forall>order. index_room_merged ?K ?D order (entries_from_batches bs)" using room by (simp add: flush_room_def)
  note d3 = compact_durable [OF steps(2) d2 h2 rm, simplified]
  have "read_marker index2 = Some tx"
    using d3 read_write_marker [OF tx(2), of index1] by (simp add: read_marker_def)
  then show ?thesis using dur d3 by (simp add: durable_def steps(3) sidecars_rep_def)
qed

section \<open>Appends keep the directory in step\<close>

lemma durable_frame:
  assumes "durable E s" "\<forall>f \<in> side_files. lg_root s' f = lg_root s f" "lg_index s' = lg_index s"
    and "lg_inner s' = (lg_inner s)\<lparr>in_store := st, in_sigs := sg\<rparr>"
  shows "durable E s'"
  using assms(1) sidecars_frame [OF _ assms(2), of E "lg_inner s" "lg_inner s'"] by (simp add: durable_def assms(3,4))

lemma append_durable:
  assumes rep: "ledger_rep E s bs A" and dur: "durable E s" and m: "payload_ok m" and room: "append_room E s bs u w m"
  shows "\<exists>s' bs' A'. append_inner E u (JObject m) w s = (Inr (A' \<noteq> A), s') \<and> ledger_rep E s' bs' A' \<and> durable E s' \<and>
    A' = (if sig_at E A u = Some (content_signature E (JObject m)) then A else A @ [(u, w, m)])"
proof (cases "sig_at E A u = Some (content_signature E (JObject m))")
  case True
  obtain sg where sg: "current_sig E u s = (Inr (sig_at E A u), s\<lparr>lg_inner := (lg_inner s)\<lparr>in_sigs := sg\<rparr>\<rparr>)"
    "ledger_rep E (s\<lparr>lg_inner := (lg_inner s)\<lparr>in_sigs := sg\<rparr>\<rparr>) bs A"
    using current_sig_rep [OF rep, of u] unfolding sig_at_def by blast
  have d: "durable E (s\<lparr>lg_inner := (lg_inner s)\<lparr>in_sigs := sg\<rparr>\<rparr>)"
    by (rule durable_frame [OF dur, where st = "in_store (lg_inner s)"]) simp_all
  have "\<not> in_read_only (lg_inner s)" using rep by (simp add: ledger_rep_def)
  then have "append_inner E u (JObject m) w s = (Inr False, s\<lparr>lg_inner := (lg_inner s)\<lparr>in_sigs := sg\<rparr>\<rparr>)"
    using True sg(1) by (simp add: append_inner_def)
  then show ?thesis using sg(2) d True by auto
next
  case False
  let ?bs = "bs @ [commit_batch E s bs u w m]" and ?A = "A @ [(u, w, m)]"
  obtain sealed s2 s3 s4 s5 where st: "append_inner E u (JObject m) w s = (Inr True, s5)"
    "append_steps E u (JObject m) s ?bs sealed s2 s3 s4 s5" "ledger_rep E s3 ?bs ?A" "ledger_rep E s5 ?bs ?A"
    using append_version_steps [OF rep _ _ _ room] m False unfolding payload_ok_def sig_at_def by blast
  note S = st(2) [unfolded append_steps_def Let_def]
  have d2: "durable E s2" using S durable_frame [OF dur] by blast
  then have d3: "durable E s3" using S after_commit_durable by blast
  have L: "length ?bs = Suc (length ?bs - 1)" "map b_tx ?bs = [0..<length ?bs]" "length ?bs - 1 \<le> U64_MAX"
    using st(3) by (simp_all add: ledger_rep_def commits_rep_def)
  have d4: "durable E s4"
  proof (cases sealed)
    case True
    have "(if sealed then flush_memtable E (length ?bs - 1) s3 else (Inr (), s3)) = (Inr (), s4)" using S by blast
    then have f: "flush_memtable E (length ?bs - 1) s3 = (Inr (), s4)" using True by simp
    show ?thesis by (rule flush_durable [OF f _ L(1,3,2)]) (use S d3 in blast)+
  next
    case False
    have "(if sealed then flush_memtable E (length ?bs - 1) s3 else (Inr (), s3)) = (Inr (), s4)" using S by blast
    then show ?thesis using False d3 by simp
  qed
  have "durable E s5" by (rule checkpoint_durable [OF _ d4]) (use S in blast)
  then show ?thesis using st(1,4) False by auto
qed

section \<open>Restart\<close>

text \<open>
  What the two directories hold: the committed batches (a torn frame may follow them), runs up to
  the marker, checkpoints that agree with the history.
\<close>

definition ledger_disk :: "'n ledger_env \<Rightarrow> fs \<Rightarrow> fs \<Rightarrow> 'n batch list \<Rightarrow> 'n commits \<Rightarrow> bool" where
  "ledger_disk E root index bs A \<longleftrightarrow>
     (\<exists>bss act m dict torn runs n.
        bs = concat bss @ act \<and> seg_codec_ok (le_seg E) \<and> disk_rep (le_seg E) root m dict bss act torn \<and>
        later_free root (length bss) \<and>
        n = (case read_marker index of None \<Rightarrow> 0 | Some t \<Rightarrow> Suc t) \<and> n \<le> length bs \<and>
        index_holds (le_idx E) (le_dir E) (runs, index) (entries_from_batches (take n bs)) \<and>
        runs_durable (le_idx E) (le_dir E) (runs, index) \<and>
        (\<forall>order. \<forall>run \<in> set (fi_runs runs order).
           ir_path run = run_path order ''merged'' \<or> (\<exists>t < n. ir_path run = run_path order (tx_name t))) \<and>
        commits_rep (le_uuid E) (mf_attributes m) bs A) \<and>
     sidecar_codec_ok E \<and>
     ends_line (file_bytes ''checkpoints.jsonl'' root) \<and> ends_line (file_bytes ''provenance.jsonl'' root) \<and>
     (\<forall>u t facts. (t, facts) \<in> set (load_checkpoints E root u) \<longrightarrow>
        t < length bs \<and> facts = facts_of u (slot_map (Some t) (hist bs u))) \<and>
     (\<forall>e \<in> set (entries_from_batches bs). entry_fits e) \<and> length bs \<le> U64_MAX"

lemma ledger_disk_intro:
  assumes "bs = concat bss @ act" "seg_codec_ok (le_seg E)" "disk_rep (le_seg E) root m dict bss act torn"
    "later_free root (length bss)" and rep: "index_rep E s bs"
    and "covered (lg_inner s) = (case read_marker (lg_index s) of None \<Rightarrow> 0 | Some t \<Rightarrow> Suc t)"
    and "runs_durable (le_idx E) (le_dir E) (in_runs (lg_inner s), lg_index s)"
    and "commits_rep (le_uuid E) (mf_attributes m) bs A" "sidecar_codec_ok E" "sidecars_rep E root (lg_inner s')"
    and "\<forall>u t facts. (t, facts) \<in> set (in_checkpoints (lg_inner s') u) \<longrightarrow>
        t < length bs \<and> facts = facts_of u (slot_map (Some t) (hist bs u))"
    and "\<forall>e \<in> set (entries_from_batches bs). entry_fits e" "length bs \<le> U64_MAX"
  shows "ledger_disk E root (lg_index s) bs A"
  unfolding ledger_disk_def
proof (intro conjI)
  note R = rep [unfolded index_rep_def Let_def]
  show "\<exists>bss act m dict torn runs n.
        bs = concat bss @ act \<and> seg_codec_ok (le_seg E) \<and> disk_rep (le_seg E) root m dict bss act torn \<and>
        later_free root (length bss) \<and>
        n = (case read_marker (lg_index s) of None \<Rightarrow> 0 | Some t \<Rightarrow> Suc t) \<and> n \<le> length bs \<and>
        index_holds (le_idx E) (le_dir E) (runs, lg_index s) (entries_from_batches (take n bs)) \<and>
        runs_durable (le_idx E) (le_dir E) (runs, lg_index s) \<and>
        (\<forall>order. \<forall>run \<in> set (fi_runs runs order).
           ir_path run = run_path order ''merged'' \<or> (\<exists>t < n. ir_path run = run_path order (tx_name t))) \<and>
        commits_rep (le_uuid E) (mf_attributes m) bs A"
  proof (intro exI conjI)
    show "covered (lg_inner s) = (case read_marker (lg_index s) of None \<Rightarrow> 0 | Some t \<Rightarrow> Suc t)" by (rule assms(6))
    show "runs_durable (le_idx E) (le_dir E) (in_runs (lg_inner s), lg_index s)" by (rule assms(7))
    show "disk_rep (le_seg E) root m dict bss act torn" by (rule assms(3))
  qed (use assms(1,2,4,8) R in blast)+
qed (use assms(9-) in \<open>simp_all add: sidecars_rep_def\<close>)

lemma durable_disk:
  assumes rep: "ledger_rep E s bs A" and dur: "durable E s"
  shows "ledger_disk E (lg_root s) (lg_index s) bs A"
proof -
  note L = rep [unfolded ledger_rep_def]
  obtain bss act where b: "bs = concat bss @ act" "store_part E s bss act" using L by blast
  note S = b(2) [unfolded store_part_def]
  have d: "disk_rep (le_seg E) (lg_root s) (st_manifest (in_store (lg_inner s))) (st_dict (in_store (lg_inner s))) bss act []"
    by (rule store_rep_disk) (use S in blast)
  show ?thesis
    by (rule ledger_disk_intro [where s = s and s' = s, OF b(1) _ d])
      (use S L dur in \<open>auto simp: durable_def covered_def caches_ok_def\<close>)
qed

lemma filter_tx_after: "map b_tx bs = [0..<length bs] \<Longrightarrow> filter (\<lambda>b. a < b_tx b) bs = drop (Suc a) bs"
proof (induction bs rule: rev_induct)
  case (snoc b bs)
  then have "map b_tx bs = [0..<length bs]" "b_tx b = length bs" by simp_all
  from snoc.IH [OF this(1)] this(2) show ?case by (cases "Suc a \<le> length bs") simp_all
qed simp

lemma reopen_ledger:
  assumes disk: "ledger_disk E root index bs A"
  shows "\<exists>s. open_writable E seal root index = Inr s \<and> ledger_rep E s bs A \<and> durable E s \<and> lg_index s = index \<and>
    in_provenance (lg_inner s) = fst (load_provenance_from E root 0) \<and> in_write_ctx (lg_inner s) = None"
proof -
  let ?C = "le_seg E" and ?K = "le_idx E" and ?D = "le_dir E"
  obtain bss act m dict torn runs n where d: "bs = concat bss @ act" "seg_codec_ok ?C"
    "disk_rep ?C root m dict bss act torn" "later_free root (length bss)"
    "n = (case read_marker index of None \<Rightarrow> 0 | Some t \<Rightarrow> Suc t)" "n \<le> length bs"
    "index_holds ?K ?D (runs, index) (entries_from_batches (take n bs))" "runs_durable ?K ?D (runs, index)"
    "\<forall>order. \<forall>run \<in> set (fi_runs runs order).
       ir_path run = run_path order ''merged'' \<or> (\<exists>t < n. ir_path run = run_path order (tx_name t))"
    "commits_rep (le_uuid E) (mf_attributes m) bs A"
    using disk unfolding ledger_disk_def by (elim conjE exE) (rule that; assumption)
  have g: "sidecar_codec_ok E" "ends_line (file_bytes ''checkpoints.jsonl'' root)"
    "ends_line (file_bytes ''provenance.jsonl'' root)"
    "\<And>u t facts. (t, facts) \<in> set (load_checkpoints E root u) \<Longrightarrow>
        t < length bs \<and> facts = facts_of u (slot_map (Some t) (hist bs u))"
    "\<forall>e \<in> set (entries_from_batches bs). entry_fits e" "length bs \<le> U64_MAX"
    using disk unfolding ledger_disk_def by blast+
  obtain st root' h where o: "open_inner ?C seal False root = (Inr st, root')" "store_rep ?C root' st bss act"
    "st_manifest st = m" "root' = write_head ?C h (root(seg_key (length bss) \<mapsto> frames ?C dict act))"
    using open_inner_written [OF d(2,3), of seal] by blast
  obtain fi where fi: "fi_open ?D index = (fi, True, index)" "index_holds ?K ?D (fi, index) (entries_from_batches (take n bs))"
    "runs_durable ?K ?D (fi, index)" "\<And>order. set (fi_runs fi order) = set (fi_runs runs order)"
    using fi_open_durable [OF d(7,8)] by auto
  have side: "\<forall>f \<in> side_files. root' f = root f" by (simp add: o(4) side_files_frame)
  have free: "later_free root' (length bss)" using d(4) by (simp add: o(4) later_free_def)
  let ?hdrs = "map (\<lambda>b. (b_tx b, b_wall b)) bs"
  have reader: "reader_rep ?C root' st bss act" by (rule store_rep_reader [OF o(2)])
  have hdrs: "batch_headers ?C st root' = Inr ?hdrs" using batch_headers_rep [OF reader] d(1) by simp
  have after: "batches_after ?C (read_marker index) st root' = Inr (drop n bs)"
  proof -
    have tx: "map b_tx bs = [0..<length bs]" using d(10) by (simp add: commits_rep_def)
    have "filter (\<lambda>b. case read_marker index of None \<Rightarrow> True | Some a \<Rightarrow> a < b_tx b) bs = drop n bs"
    proof (cases "read_marker index")
      case None
      then show ?thesis using d(5) by simp
    next
      case (Some a)
      have "filter (\<lambda>b. a < b_tx b) bs = drop (Suc a) bs"
        using filter_tx_after [OF tx, of a] .
      then show ?thesis using Some d(5) by simp
    qed
    then show ?thesis using batches_after_rep [OF d(2) reader, of "read_marker index"] d(1) by simp
  qed
  obtain len where prov: "load_provenance_from E root' 0 = (fst (load_provenance_from E root' 0), len)"
    by (cases "load_provenance_from E root' 0") simp
  define i where "i = \<lparr>in_store = st, in_runs = fi, in_marker = read_marker index,
      in_memtable = entries_from_batches (drop n bs), in_times = ?hdrs, in_sigs = Map.empty,
      in_search = Map.empty, in_read_only = False, in_checkpoints = load_checkpoints E root', in_write_ctx = None,
      in_provenance = fst (load_provenance_from E root' 0), in_provenance_len = len\<rparr>"
  define s where "s = \<lparr>lg_inner = i, lg_root = root', lg_index = index\<rparr>"
  have build: "build_inner E False st fi (read_marker index) root' = Inr i"
    using hdrs after prov by (simp add: build_inner_def i_def split_beta) (metis snd_conv)
  have open1: "open_writable E seal root index = Inr s"
    using o(1) fi(1) build by (simp add: open_writable_def s_def Let_def)
  have cp: "load_checkpoints E root' = load_checkpoints E root" "fst (load_provenance_from E root' 0) = fst (load_provenance_from E root 0)"
    using side by (simp_all add: side_files_def load_checkpoints_def file_bytes_def load_provenance_from_def)
  have rep: "ledger_rep E s bs A"
  proof (rule ledger_rep_intro [OF _ d(1)])
    show "store_part E s bss act" using d(2) o(2) free by (simp add: store_part_def s_def i_def)
    have c: "covered (lg_inner s) = n" using d(5) by (simp add: covered_def s_def i_def)
    show "index_rep E s bs"
      using fi(2,4) d(6,9) unfolding index_rep_def Let_def c by (simp add: s_def i_def)
    show "caches_ok E (lg_inner s) bs A"
      using g(4) by (simp add: caches_ok_def s_def i_def cp)
    show "commits_rep (le_uuid E) (mf_attributes (st_manifest (in_store (lg_inner s)))) bs A"
      using d(10) o(3) by (simp add: s_def i_def)
  qed (use g in \<open>simp_all add: s_def i_def\<close>)
  have fb: "file_bytes f root' = file_bytes f root" if "f \<in> side_files" for f using side that by (simp add: file_bytes_def)
  have dur: "durable E s"
    using g(1-3) fi(3) fb by (simp add: durable_def sidecars_rep_def s_def i_def side_files_def)
  show ?thesis using open1 rep dur cp(2) by (intro exI [of _ s]) (simp add: s_def i_def)
qed

section \<open>Properties\<close>

text \<open>Two empty directories hold the empty ledger.\<close>

lemma empty_disk:
  assumes "seg_codec_ok (le_seg E)" "idx_codec_ok (le_idx E)" "dir_codec_ok (le_dir E)" "sidecar_codec_ok E"
  shows "ledger_disk E Map.empty Map.empty [] []"
  unfolding ledger_disk_def
proof (intro conjI)
  show "\<exists>bss act m dict torn runs n.
      [] = concat bss @ act \<and> seg_codec_ok (le_seg E) \<and> disk_rep (le_seg E) Map.empty m dict bss act torn \<and>
      later_free Map.empty (length bss) \<and>
      n = (case read_marker Map.empty of None \<Rightarrow> 0 | Some t \<Rightarrow> Suc t) \<and> n \<le> length [] \<and>
      index_holds (le_idx E) (le_dir E) (runs, Map.empty) (entries_from_batches (take n [])) \<and>
      runs_durable (le_idx E) (le_dir E) (runs, Map.empty) \<and>
      (\<forall>order. \<forall>run \<in> set (fi_runs runs order).
         ir_path run = run_path order ''merged'' \<or> (\<exists>t < n. ir_path run = run_path order (tx_name t))) \<and>
      commits_rep (le_uuid E) (mf_attributes m) [] []"
  proof (intro exI conjI)
    show "disk_rep (le_seg E) Map.empty default_manifest None [] [] []"
      by (simp add: disk_rep_def load_manifest_def local_fs_def lfs_exists_def load_dict_def default_manifest_def
          file_bytes_def dict_ok_def stored_head_def)
    show "0 = (case read_marker Map.empty of None \<Rightarrow> 0 | Some t \<Rightarrow> Suc t)" by (simp add: read_marker_def)
    show "index_holds (le_idx E) (le_dir E) (\<lparr>fi_runs = \<lambda>_. []\<rparr>, Map.empty) (entries_from_batches (take 0 []))"
      using assms empty_holds by (simp add: index_holds_def entries_from_batches_def)
    show "runs_durable (le_idx E) (le_dir E) (\<lparr>fi_runs = \<lambda>_. []\<rparr>, Map.empty)" by (simp add: empty_durable)
    show "commits_rep (le_uuid E) (mf_attributes default_manifest) [] []"
      by (simp add: commits_rep_def lookup_at_def commits_of_def hist_def entries_from_batches_def)
  qed (use assms(1) in \<open>simp_all add: later_free_def\<close>)
qed (use assms(4) in \<open>simp_all add: ends_line_def file_bytes_def load_checkpoints_def entries_from_batches_def\<close>)

lemma audit_trail_rep:
  assumes "ledger_rep E s bs A"
  shows "audit_trail E s u =
    Inr (map (\<lambda>t. \<lparr>au_written_at = (case map_of (map (\<lambda>b. (b_tx b, b_wall b)) bs) t of None \<Rightarrow> 0 | Some w \<Rightarrow> w),
                   au_ctx = in_provenance (lg_inner s) t\<rparr>) (sorted_list_of_set (ie_tx ` set (hist bs u))))"
proof -
  have L: "index_rep E s bs" "in_times (lg_inner s) = map (\<lambda>b. (b_tx b, b_wall b)) bs"
    using assms by (simp_all add: ledger_rep_def caches_ok_def)
  obtain es where es: "entity_entries E s u = Inr es" "same_history es (hist bs u)"
    using entity_entries_rep [OF L(1)] by blast
  have "distinct_txs es = sorted_list_of_set (ie_tx ` set (hist bs u))"
    unfolding distinct_txs_def same_history_set [OF es(2)] ..
  then show ?thesis using es(1) by (simp add: audit_trail_def L(2))
qed

text \<open>
  C6: What was committed survives a restart.  Take a ledger whose directory is in step, append a
  payload, drop the handle and open the directory again: every read of every entity at every
  transaction gives what it gave before the append, except that the entity reads as the new payload from
  its transaction on when the append recorded one; the audit trail is that of the dropped handle,
  and the opened ledger is again in step, through sealed segments, flushed and compacted runs,
  checkpoints and provenance.
\<close>

theorem restart_after_append:
  assumes "ledger_rep E s bs A" "durable E s" "payload_ok m" "append_room E s bs u w m"
  shows "\<exists>changed s' s'' bs' A'. append_inner E u (JObject m) w s = (Inr changed, s') \<and>
    open_writable E seal (lg_root s') (lg_index s') = Inr s'' \<and>
    (\<forall>v t. reconstruct_at E s'' v t =
       (if changed \<and> v = u \<and> length bs \<le> t then Inr (Some (JObject m)) else reconstruct_at E s v t)) \<and>
    (\<forall>v. audit_trail E s'' v = audit_trail E s' v) \<and> ledger_rep E s'' bs' A' \<and> durable E s''"
proof -
  obtain s' bs' A' where ap: "append_inner E u (JObject m) w s = (Inr (A' \<noteq> A), s')" "ledger_rep E s' bs' A'" "durable E s'"
    "A' = (if sig_at E A u = Some (content_signature E (JObject m)) then A else A @ [(u, w, m)])"
    using append_durable [OF assms] by blast
  obtain s'' where re: "open_writable E seal (lg_root s') (lg_index s') = Inr s''" "ledger_rep E s'' bs' A'" "durable E s''"
    "in_provenance (lg_inner s'') = fst (load_provenance_from E (lg_root s') 0)"
    using reopen_ledger [OF durable_disk [OF ap(2,3)], of seal] by blast
  have "reconstruct_at E s'' v t =
      (if A' \<noteq> A \<and> v = u \<and> length bs \<le> t then Inr (Some (JObject m)) else reconstruct_at E s v t)" for v t
    using reconstruct_at_rep [OF re(2), of v t] reconstruct_at_rep [OF assms(1), of v t] commits_length [OF assms(1)]
    by (simp add: ap(4) lookup_at_snoc)
  moreover have "in_provenance (lg_inner s'') = in_provenance (lg_inner s')"
    using re(4) ap(3) by (simp add: durable_def sidecars_rep_def)
  then have "audit_trail E s'' v = audit_trail E s' v" for v
    using audit_trail_rep [OF re(2)] audit_trail_rep [OF ap(2)] by simp
  ultimately show ?thesis using ap(1) re by blast
qed

lemma one_sidecars: "sidecar_codec_ok one_env"
  by (simp add: sidecar_codec_ok_def one_env_def newline_def cp_number_inj pv_number_inj)

lemma one_durable: "durable one_env one_ledger"
proof -
  obtain st h where o: "open_inner one_seg_codec 1000 False Map.empty =
      (Inr st, write_head one_seg_codec h (Map.empty(seg_key 0 \<mapsto> frames one_seg_codec None [])))"
    using open_inner_written [OF one_seg_codec_ok empty_disk_rep, of 1000] by auto
  have "lg_root one_ledger f = None" if "f \<in> side_files" for f
    by (simp add: one_ledger_def fresh_ledger_def o Let_def side_files_frame [OF that])
  then have "lg_root one_ledger ''checkpoints.jsonl'' = None" "lg_root one_ledger ''provenance.jsonl'' = None"
    by (simp_all add: side_files_def)
  then show ?thesis
    by (simp add: durable_def one_sidecars sidecars_rep_def file_bytes_def ends_line_def load_checkpoints_def
        load_provenance_from_def)
      (simp add: one_ledger_def fresh_ledger_def o Let_def empty_durable read_marker_def)
qed

theorem restart_after_append_witness:
  "\<exists>s' s''. append_inner one_env 5 (JObject one_payload) 7 one_ledger = (Inr True, s') \<and>
    open_writable one_env 1000 (lg_root s') (lg_index s') = Inr s'' \<and>
    reconstruct_at one_env s'' 5 0 = Inr (Some (JObject one_payload)) \<and> reconstruct_at one_env s'' 6 0 = Inr None"
proof -
  obtain changed s' s'' where w: "append_inner one_env 5 (JObject one_payload) 7 one_ledger = (Inr changed, s')"
    "open_writable one_env 1000 (lg_root s') (lg_index s') = Inr s''"
    "\<And>v t. reconstruct_at one_env s'' v t =
       (if changed \<and> v = 5 then Inr (Some (JObject one_payload)) else reconstruct_at one_env one_ledger v t)"
    using restart_after_append [OF one_ledger_rep one_durable one_payload_ok one_room, of 1000] by auto
  have "changed" using w(1) two_ledger by auto
  moreover have "reconstruct_at one_env one_ledger 6 0 = Inr None"
    using reconstruct_at_rep [OF one_ledger_rep, of 6 0] by (simp add: lookup_at_def commits_of_def)
  ultimately show ?thesis using w by auto
qed

text \<open>
  A crash while the batch of an append is being written: new attributes are in the manifest, the
  first \<open>k\<close> bytes of the frame are in the active segment, nothing after that has happened.
\<close>

definition crash_in_commit :: "'n ledger_env \<Rightarrow> uuid \<Rightarrow> 'n jmap \<Rightarrow> 'n batch \<Rightarrow> nat \<Rightarrow> 'n ledger \<Rightarrow> fs" where
  "crash_in_commit E u m b k s =
     (case decompose (le_uuid E) u (JObject m) (mf_attributes (st_manifest (in_store (lg_inner s)))) of
        Inl _ \<Rightarrow> lg_root s
      | Inr (_, reg) \<Rightarrow>
          (let s2 = intern_attributes E reg s
           in crash_in_append (le_seg E) b k (in_store (lg_inner s2)) (lg_root s2)))"

lemma commits_rep_mono:
  assumes "commits_rep U reg bs A" "reg_le reg reg'"
  shows "commits_rep U reg' bs A"
proof -
  have "case lookup_at A t u of
        None \<Rightarrow> slot_map (Some t) (hist bs u) = Map.empty
      | Some m \<Rightarrow> represents U reg' u m (slot_map (Some t) (hist bs u))" for u t
  proof -
    have "case lookup_at A t u of
        None \<Rightarrow> slot_map (Some t) (hist bs u) = Map.empty
      | Some m \<Rightarrow> represents U reg u m (slot_map (Some t) (hist bs u))"
      using assms(1) unfolding commits_rep_def by blast
    then show ?thesis using represents_mono [OF _ assms(2)] by (cases "lookup_at A t u") auto
  qed
  then show ?thesis using assms(1) unfolding commits_rep_def by blast
qed

lemma crash_disk:
  assumes rep: "ledger_rep E s bs A" and dur: "durable E s" and m: "payload_ok m" and room: "append_room E s bs u w m"
    and new: "sig_at E A u \<noteq> Some (content_signature E (JObject m))"
  shows "ledger_disk E (crash_in_commit E u m (commit_batch E s bs u w m) k s) (lg_index s)
      (if k < length (encode_frame (le_seg E) (st_dict (in_store (lg_inner s))) (commit_batch E s bs u w m)) then bs
       else bs @ [commit_batch E s bs u w m])
      (if k < length (encode_frame (le_seg E) (st_dict (in_store (lg_inner s))) (commit_batch E s bs u w m)) then A
       else A @ [(u, w, m)])" (is "ledger_disk E ?root _ (if ?torn then _ else _) _")
proof -
  note L = rep [unfolded ledger_rep_def]
  let ?reg0 = "mf_attributes (st_manifest (in_store (lg_inner s)))"
  let ?b = "commit_batch E s bs u w m"
  have M: "wf_json (JObject m)" "refs_fit m" "m \<noteq> []" using m by (simp_all add: payload_ok_def)
  have reg0: "reg_ok ?reg0" by (rule ledger_reg_ok [OF rep])
  obtain facts reg where dec: "decompose (le_uuid E) u (JObject m) ?reg0 = Inr (facts, reg)"
    by (simp add: decompose_def Let_def)
  have regs: "length (reg_names reg) \<le> 2 ^ 32" using room dec by (simp add: append_room_def)
  have em: "reg_ok reg" "reg_le ?reg0 reg" using decompose_emits [OF dec reg0 regs] by blast+
  obtain bss act where bs: "bs = concat bss @ act" "store_part E s bss act" using L by blast
  define s2 where "s2 = intern_attributes E reg s"
  note I = intern_rep [OF bs(2) em, folded s2_def]
  have sp: "seg_codec_ok (le_seg E)" "store_rep (le_seg E) (lg_root s2) (in_store (lg_inner s2)) bss act"
    "later_free (lg_root s2) (length bss)" using I(1) by (simp_all add: store_part_def)
  have dict: "st_dict (in_store (lg_inner s2)) = st_dict (in_store (lg_inner s))"
    and man: "mf_attributes (st_manifest (in_store (lg_inner s2))) = reg" using I(2) by simp_all
  have root: "?root = crash_in_append (le_seg E) ?b k (in_store (lg_inner s2)) (lg_root s2)"
    by (simp add: crash_in_commit_def dec s2_def Let_def)
  have fits: "frame_fits (le_seg E) (st_dict (in_store (lg_inner s2))) ?b" using room by (simp add: append_room_def dict)
  have tx: "b_tx ?b = st_next_tx (in_store (lg_inner s2))" using sp(2) bs(1) by (simp add: store_rep_def commit_batch_def)
  note crash = crash_disk_rep [OF sp(2) fits tx, of k, folded root, unfolded dict]
  have hd: "hd_active_seq (st_head (in_store (lg_inner s2))) = length bss" using sp(2) by (simp add: store_rep_def)
  have side: "\<forall>f \<in> side_files. ?root f = lg_root s f"
    by (simp add: root crash_in_append_def Let_def side_files_frame intern_side_file s2_def)
  have free: "later_free ?root (length bss)"
    using sp(3) by (simp add: root crash_in_append_def Let_def hd later_free_def)
  have old: "commits_rep (le_uuid E) reg bs A" by (rule commits_rep_mono [OF _ em(2)]) (use L in blast)
  have b: "?b = \<lparr>b_tx = length bs, b_wall = w, b_ops = diff (facts_of u (slot_map None (hist bs u))) facts\<rparr>"
    by (simp add: commit_batch_def commit_ops_def dec)
  have next_rep: "commits_rep (le_uuid E) reg (bs @ [?b]) (A @ [(u, w, m)])"
    by (rule commits_rep_snoc [OF _ reg0 dec regs M b]) (use L in blast)
  obtain sealed s2' s3 s4 s5 where s3: "append_steps E u (JObject m) s (bs @ [?b]) sealed s2' s3 s4 s5"
    "ledger_rep E s3 (bs @ [?b]) (A @ [(u, w, m)])"
    using append_version_steps [OF rep M room] new unfolding sig_at_def by blast
  have "in_checkpoints (lg_inner s3) = in_checkpoints (lg_inner s)"
    using s3(1) by (auto simp: append_steps_def Let_def after_commit_fields)
  then have N: "\<And>v t facts. (t, facts) \<in> set (in_checkpoints (lg_inner s) v) \<Longrightarrow>
      t < length (bs @ [?b]) \<and> facts = facts_of v (slot_map (Some t) (hist (bs @ [?b]) v))"
    "\<forall>e \<in> set (entries_from_batches (bs @ [?b])). entry_fits e" "length (bs @ [?b]) \<le> U64_MAX"
    using s3(2) unfolding ledger_rep_def caches_ok_def by simp_all
  have D: "sidecar_codec_ok E" "runs_durable (le_idx E) (le_dir E) (in_runs (lg_inner s), lg_index s)"
    "sidecars_rep E (lg_root s) (lg_inner s)"
    "covered (lg_inner s) = (case read_marker (lg_index s) of None \<Rightarrow> 0 | Some t \<Rightarrow> Suc t)"
    using dur by (simp_all add: durable_def covered_def)
  have S: "sidecars_rep E ?root (lg_inner s)" by (rule sidecars_frame [OF D(3) side]) simp_all
  have I0: "index_rep E s bs" using L by blast
  show ?thesis
  proof (cases ?torn)
    case True
    then have c: "disk_rep (le_seg E) ?root (st_manifest (in_store (lg_inner s2))) (st_dict (in_store (lg_inner s))) bss act
        (take k (encode_frame (le_seg E) (st_dict (in_store (lg_inner s))) ?b))" using crash by simp
    have "ledger_disk E ?root (lg_index s) bs A"
      by (rule ledger_disk_intro [OF bs(1) sp(1) c free I0 D(4,2) _ D(1) S])
        (use old man L in \<open>simp_all add: caches_ok_def\<close>)
    then show ?thesis using True by simp
  next
    case False
    then have c: "disk_rep (le_seg E) ?root (st_manifest (in_store (lg_inner s2))) (st_dict (in_store (lg_inner s))) bss (act @ [?b]) []"
      using crash by simp
    have e: "bs @ [?b] = concat bss @ act @ [?b]" using bs(1) by simp
    have R: "covered (lg_inner s) \<le> length bs" using I0 by (simp add: index_rep_def Let_def)
    have "index_rep E (after_commit E u (JObject m) (b_ops ?b) w (length bs) s) (bs @ [?b])"
      by (rule after_commit_index [OF I0]) (simp add: commit_batch_def)
    then have I1: "index_rep E (after_commit E u (JObject m) (b_ops ?b) w (length bs) s) (bs @ [?b])" .
    have f: "covered (lg_inner (after_commit E u (JObject m) (b_ops ?b) w (length bs) s)) = covered (lg_inner s)"
      by (simp add: covered_def after_commit_fields)
    have "ledger_disk E ?root (lg_index s) (bs @ [?b]) (A @ [(u, w, m)])"
      by (rule ledger_disk_intro [OF e sp(1) c free I1 _ _ _ D(1) S, unfolded f after_commit_fields])
        (use next_rep man N D in \<open>simp_all add: after_commit_fields\<close>)
    then show ?thesis using False by simp
  qed
qed

text \<open>
  C7: Commits are atomic across a crash.  Whatever number of bytes of a batch reached the disk when
  the process died, the next open succeeds; the ledger then reads as if the append had not been
  called, or, when the whole frame was written, as if it had returned, for every entity at every
  transaction, and further appends and restarts work.
\<close>

theorem crash_restart:
  assumes "ledger_rep E s bs A" "durable E s" "payload_ok m" "append_room E s bs u w m"
    and "sig_at E A u \<noteq> Some (content_signature E (JObject m))"
  shows "\<exists>s'' bs' A'. open_writable E seal (crash_in_commit E u m (commit_batch E s bs u w m) k s) (lg_index s) = Inr s'' \<and>
    (\<forall>v t. reconstruct_at E s'' v t =
       (if length (encode_frame (le_seg E) (st_dict (in_store (lg_inner s))) (commit_batch E s bs u w m)) \<le> k \<and>
           v = u \<and> length bs \<le> t
        then Inr (Some (JObject m)) else reconstruct_at E s v t)) \<and>
    ledger_rep E s'' bs' A' \<and> durable E s''"
proof -
  define n where "n = length (encode_frame (le_seg E) (st_dict (in_store (lg_inner s))) (commit_batch E s bs u w m))"
  obtain s'' bs' where o: "open_writable E seal (crash_in_commit E u m (commit_batch E s bs u w m) k s) (lg_index s) = Inr s''"
    "ledger_rep E s'' bs' (if k < n then A else A @ [(u, w, m)])" "durable E s''"
    using reopen_ledger [OF crash_disk [OF assms, of k], of seal] unfolding n_def by blast
  have "reconstruct_at E s'' v t = (if n \<le> k \<and> v = u \<and> length bs \<le> t then Inr (Some (JObject m)) else reconstruct_at E s v t)"
    for v t
    using reconstruct_at_rep [OF o(2), of v t] reconstruct_at_rep [OF assms(1), of v t] commits_length [OF assms(1)]
    by (simp add: lookup_at_snoc not_less)
  then show ?thesis using o unfolding n_def by blast
qed

theorem crash_restart_witness:
  "\<exists>s''. open_writable one_env 1000 (crash_in_commit one_env 5 one_payload (commit_batch one_env one_ledger [] 5 7 one_payload) 3 one_ledger)
      (lg_index one_ledger) = Inr s'' \<and> reconstruct_at one_env s'' 5 0 = Inr None"
proof -
  have new: "sig_at one_env [] 5 \<noteq> Some (content_signature one_env (JObject one_payload))"
    by (simp add: sig_at_def lookup_at_def commits_of_def)
  have long: "\<not> length (encode_frame (le_seg one_env) (st_dict (in_store (lg_inner one_ledger)))
      (commit_batch one_env one_ledger [] 5 7 one_payload)) \<le> 3"
    by (simp add: encode_frame_def Let_def FRAME_HEADER_def split_beta)
  have "reconstruct_at one_env one_ledger 5 0 = Inr None"
    using reconstruct_at_rep [OF one_ledger_rep, of 5 0] by (simp add: lookup_at_def commits_of_def)
  then show ?thesis
    using crash_restart [OF one_ledger_rep one_durable one_payload_ok one_room new, of 1000 3] long by auto
qed

end
