(* ===== verification/Fact_Store.thy ===== *)
theory Fact_Store
  imports Partition_Facts Ledger_Reopen
begin

text \<open>
  The fact ledger as a store of the interface: the typed methods of \<open>fact_ledger.rs\<close> that
  \<open>delegate_store!\<close> of \<open>ledger/src/lib.rs\<close> puts behind the traits, and the two ways to open one.  The
  interpretation at the end shows that this store, written to through these methods and opened
  through \<open>FactLedger::open\<close>, meets the contract the partitioned ledger relies on.
\<close>

section \<open>The typed methods\<close>

text \<open>An open handle with the readings its appends will get from the clock.\<close>

record 'n live_ledger =
  lv_ledger :: "'n ledger"
  lv_clock :: "nat \<Rightarrow> int"

text \<open>\<open>serde_json\<close> of the primitives.\<close>

record 'n kir_codec =
  kc_object :: "'n kir_object \<Rightarrow> 'n jmap"
  kc_relationship :: "'n kir_relationship \<Rightarrow> 'n jmap"
  kc_event :: "'n kir_event \<Rightarrow> 'n jmap"
  kc_evidence :: "kir_evidence \<Rightarrow> 'n jmap"
  kc_object_of :: "'n json \<Rightarrow> 'n kir_object option"
  kc_relationship_of :: "'n json \<Rightarrow> 'n kir_relationship option"
  kc_event_of :: "'n json \<Rightarrow> 'n kir_event option"
  kc_evidence_of :: "'n json \<Rightarrow> kir_evidence option"

text \<open>
  \<open>fe_rest\<close> holds the methods left out: the two searches over the full-text engine and the copy of a
  branch; \<open>fe_moved\<close> says whether the reader of the engine moves at a refresh.
\<close>

record 'n fact_env =
  fe_ledger :: "'n ledger_env"
  fe_codec :: "'n kir_codec"
  fe_rest :: "('n live_ledger, 'n) knowledge_store"
  fe_moved :: bool

definition decoded_option :: "('n json \<Rightarrow> 'a option) \<Rightarrow> ledger_error + 'n json option \<Rightarrow> ledger_error + 'a option" where
  "decoded_option f r =
     (case r of
        Inl e \<Rightarrow> Inl e
      | Inr None \<Rightarrow> Inr None
      | Inr (Some v) \<Rightarrow> (case f v of None \<Rightarrow> Inl LedgerJson | Some x \<Rightarrow> Inr (Some x)))"

definition decoded_list :: "('n json \<Rightarrow> 'a option) \<Rightarrow> ledger_error + 'n json list \<Rightarrow> ledger_error + 'a list" where
  "decoded_list f r =
     (case r of
        Inl e \<Rightarrow> Inl e
      | Inr vs \<Rightarrow> map_res (\<lambda>v. case f v of None \<Rightarrow> Inl LedgerJson | Some x \<Rightarrow> Inr x) vs)"

definition append_payload ::
  "'n fact_env \<Rightarrow> uuid \<Rightarrow> 'n jmap \<Rightarrow> 'n live_ledger \<Rightarrow> (ledger_error + bool) \<times> 'n live_ledger" where
  "append_payload F u m s =
     (case append_inner (fe_ledger F) u (JObject m) (lv_clock s 0) (lv_ledger s) of
        (r, l) \<Rightarrow> (r, \<lparr>lv_ledger = l, lv_clock = lv_clock s \<circ> Suc\<rparr>))"

definition unit_result :: "(ledger_error + bool) \<times> 's \<Rightarrow> (ledger_error + unit) \<times> 's" where
  "unit_result p = (case p of (Inl e, s) \<Rightarrow> (Inl e, s) | (Inr _, s) \<Rightarrow> (Inr (), s))"

definition fl_append_object where
  "fl_append_object F ob = append_payload F (ko_id ob) (kc_object (fe_codec F) ob)"

definition fl_append_relationship where
  "fl_append_relationship F r = append_payload F (kr_id r) (kc_relationship (fe_codec F) r)"

definition fl_append_event where
  "fl_append_event F ev s = unit_result (append_payload F (kv_id ev) (kc_event (fe_codec F) ev) s)"

definition fl_append_evidence where
  "fl_append_evidence F ev s = unit_result (append_payload F (ke_id ev) (kc_evidence (fe_codec F) ev) s)"

definition fl_get_object where
  "fl_get_object F s i =
     decoded_option (kc_object_of (fe_codec F)) (typed_current (fe_ledger F) (lv_ledger s) i KObject)"

definition fl_get_evidence where
  "fl_get_evidence F s i =
     decoded_option (kc_evidence_of (fe_codec F)) (typed_current (fe_ledger F) (lv_ledger s) i KEvidence)"

definition fl_get_event where
  "fl_get_event F s i =
     decoded_option (kc_event_of (fe_codec F)) (typed_current (fe_ledger F) (lv_ledger s) i KEvent)"

definition fl_get_relationship where
  "fl_get_relationship F s i =
     decoded_option (kc_relationship_of (fe_codec F)) (typed_current (fe_ledger F) (lv_ledger s) i KRelationship)"

definition fl_all_objects where
  "fl_all_objects F s = decoded_list (kc_object_of (fe_codec F)) (all_of_kind (fe_ledger F) (lv_ledger s) KObject)"

definition fl_all_relationships where
  "fl_all_relationships F s =
     decoded_list (kc_relationship_of (fe_codec F)) (all_of_kind (fe_ledger F) (lv_ledger s) KRelationship)"

definition fl_relationships_for where
  "fl_relationships_for F s i =
     decoded_list (kc_relationship_of (fe_codec F)) (relationships_for (fe_ledger F) (lv_ledger s) i)"

definition fl_object_at where
  "fl_object_at F s i at = decoded_option (kc_object_of (fe_codec F)) (object_at (fe_ledger F) (lv_ledger s) i at)"

definition fl_relationships_at where
  "fl_relationships_at F s i at =
     decoded_list (kc_relationship_of (fe_codec F)) (relationships_at (fe_ledger F) (lv_ledger s) i at)"

definition fl_all_objects_at where
  "fl_all_objects_at F s at =
     decoded_list (kc_object_of (fe_codec F)) (all_of_kind_at (fe_ledger F) (lv_ledger s) KObject at)"

definition fl_all_relationships_at where
  "fl_all_relationships_at F s at =
     decoded_list (kc_relationship_of (fe_codec F)) (all_of_kind_at (fe_ledger F) (lv_ledger s) KRelationship at)"

definition fl_object_history where
  "fl_object_history F s i =
     decoded_list (kc_object_of (fe_codec F)) (kind_history (fe_ledger F) (lv_ledger s) KObject i)"

definition fl_relationship_history where
  "fl_relationship_history F s i =
     decoded_list (kc_relationship_of (fe_codec F)) (kind_history (fe_ledger F) (lv_ledger s) KRelationship i)"

definition fl_set_write_context :: "write_context option \<Rightarrow> 'n live_ledger \<Rightarrow> 'n live_ledger" where
  "fl_set_write_context ctx s =
     s\<lparr>lv_ledger := (lv_ledger s)\<lparr>lg_inner := (lg_inner (lv_ledger s))\<lparr>in_write_ctx := ctx\<rparr>\<rparr>\<rparr>"

definition fl_refresh_snapshot where
  "fl_refresh_snapshot F s =
     (case refresh_snapshot (fe_ledger F) (fe_moved F) (lv_ledger s) of (r, l) \<Rightarrow> (r, s\<lparr>lv_ledger := l\<rparr>))"

text \<open>\<open>fact\<close> is the default method of the trait.\<close>

definition fact_store :: "'n fact_env \<Rightarrow> ('n live_ledger, 'n) knowledge_store" where
  "fact_store F =
     (let L = fe_ledger F; R = fe_rest F
      in \<lparr>ks_audit_trail = \<lambda>s. audit_trail L (lv_ledger s),
          ks_get_object = fl_get_object F, ks_get_evidence = fl_get_evidence F,
          ks_get_relationship = fl_get_relationship F, ks_get_event = fl_get_event F,
          ks_all_objects = fl_all_objects F, ks_all_relationships = fl_all_relationships F,
          ks_relationships_for = fl_relationships_for F, ks_object_at = fl_object_at F,
          ks_relationships_at = fl_relationships_at F, ks_all_objects_at = fl_all_objects_at F,
          ks_all_relationships_at = fl_all_relationships_at F, ks_object_history = fl_object_history F,
          ks_relationship_history = fl_relationship_history F, ks_find_objects = ks_find_objects R,
          ks_retrieve = ks_retrieve R,
          ks_fact = \<lambda>s i attr. (case fl_get_object F s i of
                        Inl e \<Rightarrow> Inl e | Inr None \<Rightarrow> Inr None | Inr (Some ob) \<Rightarrow> Inr (resolve_fact ob attr)),
          ks_entry_count = \<lambda>s. Inr (entry_count (lv_ledger s)),
          ks_object_count = \<lambda>s. object_count L (lv_ledger s),
          ks_relationship_count = \<lambda>s. relationship_count L (lv_ledger s),
          ks_evidence_count = \<lambda>s. evidence_count L (lv_ledger s),
          ks_diff = \<lambda>s. ledger_diff_between L (lv_ledger s),
          ks_refresh_snapshot = fl_refresh_snapshot F,
          ks_append_object = fl_append_object F, ks_append_evidence = fl_append_evidence F,
          ks_append_relationship = fl_append_relationship F, ks_append_event = fl_append_event F,
          ks_set_write_context = fl_set_write_context, ks_vacuum_into = ks_vacuum_into R\<rparr>)"

text \<open>\<open>FactLedger::open\<close> and \<open>open_read_only\<close> on the directory of a handle, with a fresh clock reading.\<close>

definition fl_open :: "'n fact_env \<Rightarrow> bool \<Rightarrow> 'n live_ledger \<Rightarrow> ledger_error + 'n live_ledger" where
  "fl_open F read_only s =
     (let root = lg_root (lv_ledger s); index = lg_index (lv_ledger s)
      in if read_only
         then (case build_ro_inner (fe_ledger F) root index of
                 (Inl e, _) \<Rightarrow> Inl e
               | (Inr i, index') \<Rightarrow> Inr (s\<lparr>lv_ledger := \<lparr>lg_inner = i, lg_root = root, lg_index = index'\<rparr>\<rparr>))
         else (case open_writable (fe_ledger F) SEGMENT_SEAL_BYTES root index of
                 Inl e \<Rightarrow> Inl e
               | Inr l \<Rightarrow> Inr (s\<lparr>lv_ledger := l\<rparr>)))"

section \<open>Items as payloads\<close>

fun payload_of :: "'n kir_codec \<Rightarrow> 'n ledger_item \<Rightarrow> 'n jmap" where
  "payload_of K (ItObject ob) = kc_object K ob"
| "payload_of K (ItRelationship r) = kc_relationship K r"
| "payload_of K (ItEvent ev) = kc_event K ev"
| "payload_of K (ItEvidence ev) = kc_evidence K ev"

fun kind_of_index :: "index_kind \<Rightarrow> entity_kind" where
  "kind_of_index IxRel = KRelationship"
| "kind_of_index IxEvt = KEvent"
| "kind_of_index IxEvid = KEvidence"
| "kind_of_index _ = KObject"

text \<open>
  What is relied on: a written primitive is typed as what it is and reads back, the digest has no
  collisions, a hash map is iterated in some order.
\<close>

definition codec_laws :: "'n fact_env \<Rightarrow> bool" where
  "codec_laws F \<longleftrightarrow>
     (\<forall>x. payload_ok (payload_of (fe_codec F) x) \<longrightarrow>
        kind_of_payload (JObject (payload_of (fe_codec F) x)) = kind_of_index (ledger_kind x) \<and>
        le_typed (fe_ledger F) (kind_of_index (ledger_kind x)) (JObject (payload_of (fe_codec F) x)) =
          Some (JObject (payload_of (fe_codec F) x))) \<and>
     (\<forall>ob. payload_ok (kc_object (fe_codec F) ob) \<longrightarrow>
        kc_object_of (fe_codec F) (JObject (kc_object (fe_codec F) ob)) = Some ob) \<and>
     (\<forall>r. payload_ok (kc_relationship (fe_codec F) r) \<longrightarrow>
        kc_relationship_of (fe_codec F) (JObject (kc_relationship (fe_codec F) r)) = Some r) \<and>
     inj (le_hash (fe_ledger F)) \<and> (\<forall>us. mset (le_order (fe_ledger F) us) = mset us)"

definition without_time :: "'n jmap \<Rightarrow> 'n jmap" where
  "without_time m = filter (\<lambda>kv. fst kv \<noteq> ''created_at'') m"

definition same_content :: "'n kir_codec \<Rightarrow> 'n ledger_item \<Rightarrow> 'n ledger_item \<Rightarrow> bool" where
  "same_content K x y \<longleftrightarrow> ledger_kind x = ledger_kind y \<and> without_time (payload_of K x) = without_time (payload_of K y)"

definition commits_hold :: "'n kir_codec \<Rightarrow> 'n commits \<Rightarrow> 'n ledger_item list \<Rightarrow> bool" where
  "commits_hold K cs A \<longleftrightarrow>
     map (\<lambda>(u, w, m). (u, m)) cs = map (\<lambda>x. (ledger_id x, payload_of K x)) A \<and>
     (\<forall>x \<in> set A. payload_ok (payload_of K x))"

definition live_rep :: "'n fact_env \<Rightarrow> 'n live_ledger \<Rightarrow> 'n ledger_item list \<Rightarrow> bool" where
  "live_rep F s A \<longleftrightarrow>
     codec_laws F \<and>
     (\<exists>bs cs. ledger_rep (fe_ledger F) (lv_ledger s) bs cs \<and> durable (fe_ledger F) (lv_ledger s) \<and>
        commits_hold (fe_codec F) cs A)"

definition live_closed :: "'n fact_env \<Rightarrow> 'n live_ledger \<Rightarrow> 'n ledger_item list \<Rightarrow> bool" where
  "live_closed F s A \<longleftrightarrow>
     codec_laws F \<and>
     (\<exists>bs cs. ledger_disk (fe_ledger F) (lg_root (lv_ledger s)) (lg_index (lv_ledger s)) bs cs \<and>
        commits_hold (fe_codec F) cs A)"

text \<open>The payload is writable JSON and fits, at the next reading of the clock.\<close>

definition live_room :: "'n fact_env \<Rightarrow> 'n live_ledger \<Rightarrow> 'n ledger_item \<Rightarrow> bool" where
  "live_room F s x \<longleftrightarrow>
     payload_ok (payload_of (fe_codec F) x) \<and>
     (\<forall>bs cs. ledger_rep (fe_ledger F) (lv_ledger s) bs cs \<longrightarrow>
        append_room (fe_ledger F) (lv_ledger s) bs (ledger_id x) (lv_clock s 0) (payload_of (fe_codec F) x))"

section \<open>Lookups and appends\<close>

lemma latest_item_filter:
  "latest_item A i = (let B = filter (\<lambda>x. ledger_id x = i) A in if B = [] then None else Some (last B))"
  by (induction A rule: rev_induct) (simp_all add: latest_item_snoc latest_item_def Let_def)

lemma lookup_latest:
  assumes "commits_hold K cs A" "length cs \<le> U64_MAX"
  shows "lookup_at cs U64_MAX u = map_option (payload_of K) (latest_item A u)"
proof -
  have m: "map (\<lambda>(u, w, m). (u, m)) cs = map (\<lambda>x. (ledger_id x, payload_of K x)) A"
    using assms(1) by (simp add: commits_hold_def)
  have "map (snd \<circ> snd) (filter (\<lambda>c. fst c = u) cs) = map snd (filter (\<lambda>p. fst p = u) (map (\<lambda>(u, w, m). (u, m)) cs))"
    by (induction cs) auto
  also have "\<dots> = map (payload_of K) (filter (\<lambda>x. ledger_id x = u) A)"
    unfolding m by (simp add: filter_map comp_def)
  finally have "commits_of cs U64_MAX u = map (payload_of K) (filter (\<lambda>x. ledger_id x = u) A)"
    using assms(2) by (simp add: commits_of_def)
  then show ?thesis by (simp add: lookup_at_def latest_item_filter Let_def last_map)
qed

lemma live_repE:
  assumes "live_rep F s A"
  obtains bs cs where "codec_laws F" "ledger_rep (fe_ledger F) (lv_ledger s) bs cs" "durable (fe_ledger F) (lv_ledger s)"
    "commits_hold (fe_codec F) cs A" "\<And>u. lookup_at cs U64_MAX u = map_option (payload_of (fe_codec F)) (latest_item A u)"
proof -
  obtain bs cs where l: "codec_laws F" "ledger_rep (fe_ledger F) (lv_ledger s) bs cs" "durable (fe_ledger F) (lv_ledger s)"
    "commits_hold (fe_codec F) cs A" using assms unfolding live_rep_def by blast
  have "length cs \<le> U64_MAX" using commits_length [OF l(2)] l(2) by (simp add: ledger_rep_def)
  from that [OF l lookup_latest [OF l(4) this]] show thesis .
qed

lemma latest_payload_ok:
  "commits_hold K cs A \<Longrightarrow> latest_item A u = Some x \<Longrightarrow> payload_ok (payload_of K x)"
  using latest_item_Some [of A u x] by (simp add: commits_hold_def)

lemma without_time_get: "k \<noteq> ''created_at'' \<Longrightarrow> map_of (without_time m) k = map_of m k"
  unfolding without_time_def by (induction m) auto

lemma kind_of_without_time: "without_time m = without_time m' \<Longrightarrow> kind_of_payload (JObject m) = kind_of_payload (JObject m')"
  using without_time_get [of _ m] without_time_get [of _ m'] by (simp add: kind_of_payload_def)

lemma kind_of_index_inj: "kind_of_index (ledger_kind x) = kind_of_index (ledger_kind y) \<Longrightarrow> ledger_kind x = ledger_kind y"
  by (cases x; cases y) simp_all

text \<open>The signature compares contents.\<close>

lemma signature_same:
  assumes "codec_laws F" "payload_ok (payload_of (fe_codec F) x)" "payload_ok (payload_of (fe_codec F) y)"
  shows "content_signature (fe_ledger F) (JObject (payload_of (fe_codec F) x)) =
      content_signature (fe_ledger F) (JObject (payload_of (fe_codec F) y)) \<longleftrightarrow> same_content (fe_codec F) x y"
proof -
  have kind: "kind_of_payload (JObject (payload_of (fe_codec F) z)) = kind_of_index (ledger_kind z)"
    if "payload_ok (payload_of (fe_codec F) z)" for z
    using assms(1) that by (simp add: codec_laws_def)
  have "ledger_kind x = ledger_kind y" if "without_time (payload_of (fe_codec F) x) = without_time (payload_of (fe_codec F) y)"
    using kind_of_without_time [OF that] kind_of_index_inj kind [OF assms(2)] kind [OF assms(3)] by metis
  moreover have "inj (le_hash (fe_ledger F))" using assms(1) by (simp add: codec_laws_def)
  ultimately show ?thesis
    by (auto simp: content_signature_def same_content_def without_time_def dest: injD)
qed

lemma append_payload_step:
  assumes rep: "live_rep F s A" and room: "live_room F s x"
  shows "\<exists>s'. append_payload F (ledger_id x) (payload_of (fe_codec F) x) s =
      (Inr (\<not> unchanged (same_content (fe_codec F)) A x), s') \<and>
    live_rep F s' (put_item (same_content (fe_codec F)) A x)"
proof -
  let ?E = "fe_ledger F" and ?K = "fe_codec F" and ?u = "ledger_id x" and ?m = "payload_of (fe_codec F) x"
  obtain bs cs where l: "codec_laws F" "ledger_rep ?E (lv_ledger s) bs cs" "durable ?E (lv_ledger s)"
    "commits_hold ?K cs A" "\<And>u. lookup_at cs U64_MAX u = map_option (payload_of ?K) (latest_item A u)"
    using live_repE [OF rep] by blast
  have m: "payload_ok ?m" "append_room ?E (lv_ledger s) bs ?u (lv_clock s 0) ?m"
    using room l(2) by (auto simp: live_room_def)
  obtain s' bs' cs' where ap: "append_inner ?E ?u (JObject ?m) (lv_clock s 0) (lv_ledger s) = (Inr (cs' \<noteq> cs), s')"
    "ledger_rep ?E s' bs' cs'" "durable ?E s'"
    "cs' = (if sig_at ?E cs ?u = Some (content_signature ?E (JObject ?m)) then cs else cs @ [(?u, lv_clock s 0, ?m)])"
    using append_durable [OF l(2,3) m] by blast
  have same: "sig_at ?E cs ?u = Some (content_signature ?E (JObject ?m)) \<longleftrightarrow> unchanged (same_content ?K) A x"
    using signature_same [OF l(1) _ m(1)] latest_payload_ok [OF l(4)]
    by (auto simp: sig_at_def l(5) unchanged_def)
  have "commits_hold ?K cs' (put_item (same_content ?K) A x)"
    using l(4) m(1) same by (simp add: ap(4) put_item_def commits_hold_def)
  then have "live_rep F \<lparr>lv_ledger = s', lv_clock = lv_clock s \<circ> Suc\<rparr> (put_item (same_content ?K) A x)"
    using l(1) ap(2,3) by (auto simp: live_rep_def)
  moreover have "cs' \<noteq> cs \<longleftrightarrow> \<not> unchanged (same_content ?K) A x" using same by (simp add: ap(4))
  ultimately show ?thesis using ap(1) by (simp add: append_payload_def)
qed

section \<open>Reads\<close>

lemma typed_latest:
  assumes "live_rep F s A"
  shows "typed_current (fe_ledger F) (lv_ledger s) i k =
    Inr (case latest_item A i of
           Some x \<Rightarrow> if kind_of_index (ledger_kind x) = k then Some (JObject (payload_of (fe_codec F) x)) else None
         | None \<Rightarrow> None)"
proof -
  obtain bs cs where l: "codec_laws F" "ledger_rep (fe_ledger F) (lv_ledger s) bs cs"
    "commits_hold (fe_codec F) cs A" "\<And>u. lookup_at cs U64_MAX u = map_option (payload_of (fe_codec F)) (latest_item A u)"
    using live_repE [OF assms] by blast
  have laws: "kind_of_payload (JObject (payload_of (fe_codec F) x)) = kind_of_index (ledger_kind x) \<and>
      le_typed (fe_ledger F) (kind_of_index (ledger_kind x)) (JObject (payload_of (fe_codec F) x)) =
        Some (JObject (payload_of (fe_codec F) x))" if "latest_item A i = Some x" for x
    using l(1) latest_payload_ok [OF l(3) that] by (simp add: codec_laws_def)
  show ?thesis
    by (cases "latest_item A i") (use laws in \<open>auto simp: typed_current_def reconstruct_at_rep [OF l(2)] l(4)\<close>)
qed

lemma live_get_object:
  assumes "live_rep F s A"
  shows "fl_get_object F s i = Inr (current_object A i)"
proof -
  have decodes: "kc_object_of (fe_codec F) (JObject (kc_object (fe_codec F) ob)) = Some ob"
    if "latest_item A i = Some (ItObject ob)" for ob
  proof -
    obtain bs cs where l: "codec_laws F" "commits_hold (fe_codec F) cs A" using live_repE [OF assms] by blast
    show ?thesis using l(1) latest_payload_ok [OF l(2) that] by (simp add: codec_laws_def)
  qed
  show ?thesis
  proof (cases "latest_item A i")
    case (Some x)
    then show ?thesis
      by (cases x) (use decodes in \<open>simp_all add: fl_get_object_def typed_latest [OF assms] decoded_option_def current_object_def\<close>)
  qed (simp add: fl_get_object_def typed_latest [OF assms] decoded_option_def current_object_def)
qed

lemma live_get_relationship:
  assumes "live_rep F s A"
  shows "fl_get_relationship F s i = Inr (current_relationship A i)"
proof -
  have decodes: "kc_relationship_of (fe_codec F) (JObject (kc_relationship (fe_codec F) r)) = Some r"
    if "latest_item A i = Some (ItRelationship r)" for r
  proof -
    obtain bs cs where l: "codec_laws F" "commits_hold (fe_codec F) cs A" using live_repE [OF assms] by blast
    show ?thesis using l(1) latest_payload_ok [OF l(2) that] by (simp add: codec_laws_def)
  qed
  show ?thesis
  proof (cases "latest_item A i")
    case (Some x)
    then show ?thesis
      by (cases x) (use decodes in \<open>simp_all add: fl_get_relationship_def typed_latest [OF assms] decoded_option_def
        current_relationship_def\<close>)
  qed (simp add: fl_get_relationship_def typed_latest [OF assms] decoded_option_def current_relationship_def)
qed

text \<open>The bulk read: the current objects, each once.\<close>

lemma live_all_objects:
  assumes "live_rep F s A"
  shows "\<exists>obs. fl_all_objects F s = Inr obs \<and> distinct (map ko_id obs) \<and>
    set obs = {ob. current_object A (ko_id ob) = Some ob}"
proof -
  let ?E = "fe_ledger F" and ?K = "fe_codec F"
  obtain bs cs where l: "codec_laws F" "ledger_rep ?E (lv_ledger s) bs cs" "commits_hold ?K cs A"
    "\<And>u. lookup_at cs U64_MAX u = map_option (payload_of ?K) (latest_item A u)"
    using live_repE [OF assms] by blast
  have perm: "mset (le_order ?E us) = mset us" for us using l(1) by (simp add: codec_laws_def)
  obtain ps where ps: "all_payloads_at ?E (lv_ledger s) None = Inr ps" "distinct (map fst ps)"
    "set ps = {(u, JObject m) | u m. lookup_at cs U64_MAX u = Some m}"
    using bulk_read_rep [where till = None, OF l(2) perm] by (auto simp: till_tx_def)
  have row: "\<exists>x. latest_item A (fst p) = Some x \<and> snd p = JObject (payload_of ?K x)" if "p \<in> set ps" for p
    using that l(4) by (auto simp: ps(3))
  have row_kind: "kind_of_payload (JObject (payload_of ?K x)) = kind_of_index (ledger_kind x)"
    and row_typed: "le_typed ?E (kind_of_index (ledger_kind x)) (JObject (payload_of ?K x)) = Some (JObject (payload_of ?K x))"
    if "latest_item A u = Some x" for u x
    using l(1) latest_payload_ok [OF l(3) that] by (simp_all add: codec_laws_def)
  let ?qs = "filter (\<lambda>p. kind_of_payload (snd p) = KObject) ps"
  have obj: "\<exists>ob. current_object A (fst q) = Some ob \<and> ko_id ob = fst q \<and> snd q = JObject (kc_object ?K ob) \<and>
      le_typed ?E KObject (snd q) = Some (snd q) \<and> kc_object_of ?K (snd q) = Some ob" if q: "q \<in> set ?qs" for q
  proof -
    obtain x where x: "latest_item A (fst q) = Some x" "snd q = JObject (payload_of ?K x)" using row [of q] q by auto
    have "ledger_kind x = IxObj" using row_kind [OF x(1)] q x(2) by (cases x) auto
    then obtain ob where ob: "x = ItObject ob" by (cases x) auto
    have "payload_ok (kc_object ?K ob)" using latest_payload_ok [OF l(3) x(1)] ob by simp
    then have "kc_object_of ?K (snd q) = Some ob" using l(1) x(2) ob by (simp add: codec_laws_def)
    then show ?thesis using x ob row_typed [OF x(1)] latest_item_Some [OF x(1)] by (simp add: current_object_def)
  qed
  define ob_of where "ob_of q = the (kc_object_of ?K (snd q))" for q :: "uuid \<times> 'a json"
  have same: "filter (\<lambda>p. kind_of_payload p = KObject) (map snd ps) = map snd ?qs" by (simp add: filter_map comp_def)
  have "map_res (\<lambda>p. case le_typed ?E KObject p of None \<Rightarrow> Inl LedgerJson | Some v \<Rightarrow> Inr v) (map snd ?qs) = Inr (map snd ?qs)"
    unfolding map_res_map by (rule map_res_all) (use obj in fastforce)
  moreover have "map_res (\<lambda>v. case kc_object_of ?K v of None \<Rightarrow> Inl LedgerJson | Some x \<Rightarrow> Inr x) (map snd ?qs) = Inr (map ob_of ?qs)"
    unfolding map_res_map by (rule map_res_all) (use obj in \<open>fastforce simp: ob_of_def\<close>)
  ultimately have res: "fl_all_objects F s = Inr (map ob_of ?qs)"
    by (simp add: fl_all_objects_def all_of_kind_def ps(1) typed_list_def same decoded_list_def)
  have rw: "current_object A (fst q) = Some (ob_of q)" "ko_id (ob_of q) = fst q" if "q \<in> set ?qs" for q
    using obj [OF that] by (auto simp: ob_of_def)
  have "map ko_id (map ob_of ?qs) = map fst ?qs" using rw(2) by simp
  moreover have "distinct (map fst ?qs)" using ps(2) by (rule distinct_map_filter)
  ultimately have "distinct (map ko_id (map ob_of ?qs))" by metis
  moreover have "set (map ob_of ?qs) = {ob. current_object A (ko_id ob) = Some ob}"
  proof (intro equalityI subsetI)
    fix ob assume "ob \<in> set (map ob_of ?qs)"
    then obtain q where "q \<in> set ?qs" "ob = ob_of q" by (simp only: set_map) blast
    then show "ob \<in> {ob. current_object A (ko_id ob) = Some ob}" using rw [of q] by simp
  next
    fix ob assume "ob \<in> {ob. current_object A (ko_id ob) = Some ob}"
    then have lt: "latest_item A (ko_id ob) = Some (ItObject ob)"
      by (auto simp: current_object_def bind_eq_Some_conv as_object_Some)
    let ?q = "(ko_id ob, JObject (kc_object ?K ob))"
    have q: "?q \<in> set ?qs" using lt row_kind [OF lt] by (simp add: ps(3) l(4))
    have "ob_of ?q = ob" using rw(1) [OF q] lt by (simp add: current_object_def)
    then have "ob_of ?q \<in> set (map ob_of ?qs)" unfolding set_map by (intro imageI q)
    then show "ob \<in> set (map ob_of ?qs)" unfolding \<open>ob_of ?q = ob\<close> .
  qed
  ultimately show ?thesis using res by blast
qed

section \<open>The fact ledger meets the contract\<close>

lemma fact_store_simps [simp]:
  "ks_get_object (fact_store F) = fl_get_object F" "ks_get_relationship (fact_store F) = fl_get_relationship F"
  "ks_all_objects (fact_store F) = fl_all_objects F" "ks_append_object (fact_store F) = fl_append_object F"
  "ks_append_relationship (fact_store F) = fl_append_relationship F"
  "ks_append_event (fact_store F) = fl_append_event F" "ks_append_evidence (fact_store F) = fl_append_evidence F"
  by (simp_all add: fact_store_def Let_def)

lemma live_opens:
  assumes "live_closed F s A"
  shows "\<exists>s'. fl_open F False s = Inr s' \<and> live_rep F s' A"
proof -
  obtain bs cs where c: "codec_laws F" "ledger_disk (fe_ledger F) (lg_root (lv_ledger s)) (lg_index (lv_ledger s)) bs cs"
    "commits_hold (fe_codec F) cs A" using assms unfolding live_closed_def by blast
  obtain l where "open_writable (fe_ledger F) SEGMENT_SEAL_BYTES (lg_root (lv_ledger s)) (lg_index (lv_ledger s)) = Inr l"
    "ledger_rep (fe_ledger F) l bs cs" "durable (fe_ledger F) l" using reopen_ledger [OF c(2)] by blast
  then show ?thesis using c(1,3) by (auto simp: fl_open_def Let_def live_rep_def)
qed

lemma live_closes: "live_rep F s A \<Longrightarrow> live_closed F s A"
  unfolding live_rep_def live_closed_def using durable_disk by blast

interpretation fl: version_store "fact_store F" "fl_open F False" "live_closed F" "live_rep F" "live_room F"
  "same_content (fe_codec F)" for F :: "'n fact_env"
proof
  fix s :: "'n live_ledger" and A :: "'n ledger_item list" and ob r ev e i
  show "live_closed F s A \<Longrightarrow> \<exists>s'. fl_open F False s = Inr s' \<and> live_rep F s' A" by (rule live_opens)
  show "live_rep F s A \<Longrightarrow> live_closed F s A" by (rule live_closes)
  show "live_rep F s A \<Longrightarrow> ks_get_object (fact_store F) s i = Inr (current_object A i)" by (simp add: live_get_object)
  show "live_rep F s A \<Longrightarrow> ks_get_relationship (fact_store F) s i = Inr (current_relationship A i)"
    by (simp add: live_get_relationship)
  show "live_rep F s A \<Longrightarrow> \<exists>obs. ks_all_objects (fact_store F) s = Inr obs \<and> distinct (map ko_id obs) \<and>
      set obs = {ob. current_object A (ko_id ob) = Some ob}" by (simp add: live_all_objects)
  show "live_rep F s A \<Longrightarrow> live_room F s (ItObject ob) \<Longrightarrow>
      \<exists>s'. ks_append_object (fact_store F) ob s = (Inr (\<not> unchanged (same_content (fe_codec F)) A (ItObject ob)), s') \<and>
        live_rep F s' (put_item (same_content (fe_codec F)) A (ItObject ob))"
    using append_payload_step [of F s A "ItObject ob"] by (simp add: fl_append_object_def)
  show "live_rep F s A \<Longrightarrow> live_room F s (ItRelationship r) \<Longrightarrow>
      \<exists>s'. ks_append_relationship (fact_store F) r s =
          (Inr (\<not> unchanged (same_content (fe_codec F)) A (ItRelationship r)), s') \<and>
        live_rep F s' (put_item (same_content (fe_codec F)) A (ItRelationship r))"
    using append_payload_step [of F s A "ItRelationship r"] by (simp add: fl_append_relationship_def)
  show "live_rep F s A \<Longrightarrow> live_room F s (ItEvent ev) \<Longrightarrow>
      \<exists>s'. ks_append_event (fact_store F) ev s = (Inr (), s') \<and> live_rep F s' (put_item (same_content (fe_codec F)) A (ItEvent ev))"
    using append_payload_step [of F s A "ItEvent ev"] by (auto simp: fl_append_event_def unit_result_def)
  show "live_rep F s A \<Longrightarrow> live_room F s (ItEvidence e) \<Longrightarrow>
      \<exists>s'. ks_append_evidence (fact_store F) e s = (Inr (), s') \<and>
        live_rep F s' (put_item (same_content (fe_codec F)) A (ItEvidence e))"
    using append_payload_step [of F s A "ItEvidence e"] by (auto simp: fl_append_evidence_def unit_result_def)
qed (simp add: same_content_def)

end
