(* ===== verification/Partition_Properties.thy ===== *)
theory Partition_Properties
  imports Fact_Store "HOL-Library.Countable"
begin

text \<open>
  The partitioned ledger over fact ledgers: its properties, read off the interpretation \<open>fl\<close>, and a
  concrete one on which they are exercised.
\<close>

section \<open>Reads before and after\<close>

text \<open>Partitions over the fact ledgers of \<open>F\<close> that hold \<open>C\<close>.\<close>

definition partitions_hold ::
  "'n fact_env \<Rightarrow> ('n live_ledger, 'n) partition_env \<Rightarrow> 'n live_ledger partitioned_ledger \<Rightarrow>
   (partition_key \<Rightarrow> 'n ledger_item list) \<Rightarrow> bool" where
  "partitions_hold F E st C \<longleftrightarrow> partition_ok (fact_store F) (fl_open F False) (live_closed F) (live_rep F) E st C"

definition read_object :: "('s, 'n) partition_env \<Rightarrow> 's partitioned_ledger \<Rightarrow> kir_id \<Rightarrow> partition_error + 'n kir_object option" where
  "read_object E st i = fst (pl_get_object E i st)"

definition read_relationship ::
  "('s, 'n) partition_env \<Rightarrow> 's partitioned_ledger \<Rightarrow> kir_id \<Rightarrow> partition_error + 'n kir_relationship option" where
  "read_relationship E st i = fst (pl_get_relationship E i st)"

lemma read_object_newest: "partitions_hold F E st C \<Longrightarrow> read_object E st i = Inr (newest_object C i)"
  unfolding partitions_hold_def read_object_def by (drule fl.get_object_step [of _ _ _ _ i]) auto

lemma read_relationship_newest: "partitions_hold F E st C \<Longrightarrow> read_relationship E st i = Inr (newest_relationship C i)"
  unfolding partitions_hold_def read_relationship_def by (drule fl.get_relationship_step [of _ _ _ _ i]) auto

definition bulk_read :: "('s, 'n) partition_env \<Rightarrow> 's partitioned_ledger \<Rightarrow> partition_error + 'n kir_object list" where
  "bulk_read E st = fst (pl_all_objects E st)"

lemma read_all_newest:
  assumes "partitions_hold F E st C"
  shows "\<exists>obs. bulk_read E st = Inr obs \<and> distinct obs \<and> set obs = {ob. newest_object C (ko_id ob) = Some ob}"
  using fl.all_objects_step [OF assms [unfolded partitions_hold_def]] by (auto simp: bulk_read_def distinct_map)

lemma partitions_hold_kinds: "partitions_hold F E st C \<Longrightarrow> one_kind (C k)"
  by (simp add: partitions_hold_def partition_ok_def stores_ok_def)

lemma partitions_hold_finite: "partitions_hold F E st C \<Longrightarrow> finite (holders C kind i)"
  using holders_finite unfolding partitions_hold_def partition_ok_def by blast

text \<open>What one more version of an object in partition \<open>k\<close> changes.\<close>

lemma current_object_put:
  "current_object (put_item alike A (ItObject ob)) i =
    (if i = ko_id ob \<and> \<not> unchanged alike A (ItObject ob) then Some ob else current_object A i)"
  by (simp add: put_item_def current_object_def latest_item_snoc)

lemma newest_object_put:
  assumes "\<forall>x y. alike x y \<longrightarrow> ledger_kind x = ledger_kind y" "finite (holders C IxObj (ko_id ob))"
  shows "newest_object (C(k := put_item alike (C k) (ItObject ob))) i =
    (if i = ko_id ob \<and> \<not> unchanged alike (C k) (ItObject ob) \<and> (\<forall>k' \<in> holders C IxObj i. k' \<le> k)
     then Some ob else newest_object C i)"
proof -
  let ?C = "C(k := put_item alike (C k) (ItObject ob))" and ?H = "holders C IxObj i"
  have H: "holders ?C IxObj i = (if i = ko_id ob then insert k ?H else ?H)"
    using holders_put [of alike C k "ItObject ob" IxObj i] assms(1) by simp
  have cur: "current_object (?C k') i = (if k' = k \<and> i = ko_id ob \<and> \<not> unchanged alike (C k) (ItObject ob) then Some ob
      else current_object (C k') i)" for k'
    by (simp add: current_object_put)
  show ?thesis
  proof (cases "i = ko_id ob \<and> \<not> unchanged alike (C k) (ItObject ob)")
    case False
    have "holders ?C IxObj i = ?H"
    proof (cases "i = ko_id ob")
      case True
      then have "unchanged alike (C k) (ItObject ob)" using False by blast
      then have "?C = C" by (auto simp: put_item_def)
      then show ?thesis by simp
    qed (simp add: H)
    moreover have "current_object (?C k') i = current_object (C k') i" for k' unfolding cur using False by auto
    ultimately show ?thesis using False unfolding newest_object_def by auto
  next
    case True
    then have "i = ko_id ob" ..
    then have H1: "holders ?C IxObj i = insert k ?H" unfolding H by (rule if_P)
    have fin: "finite ?H" using assms(2) True by simp
    show ?thesis
    proof (cases "\<forall>k' \<in> ?H. k' \<le> k")
      case low: True
      have "Max (insert k ?H) = k" by (rule Max_eqI) (use fin low in auto)
      then show ?thesis using True low unfolding newest_object_def H1 cur by simp
    next
      case False
      then obtain k' where k': "k' \<in> ?H" "k < k'" by (auto simp: not_le)
      then have ne: "?H \<noteq> {}" and "k < Max ?H" using less_le_trans [OF k'(2) Max_ge [OF fin k'(1)]] by auto
      then have "Max (insert k ?H) = Max ?H" "Max ?H \<noteq> k" by (simp_all add: fin max_absorb2)
      then show ?thesis using False ne unfolding newest_object_def H1 cur by auto
    qed
  qed
qed

section \<open>A fresh ledger\<close>

text \<open>A directory with nothing in it opens to empty partitions.\<close>

lemma fresh_partitions:
  assumes E: "pv_ok (fact_store F) (fl_open F False) E" and laws: "codec_laws F"
    and disk: "ledger_disk (fe_ledger F) (lg_root (lv_ledger s0)) (lg_index (lv_ledger s0)) [] []"
  shows "\<exists>st. pl_new E \<lparr>pd_catalog = NoCatalog, pd_runs = [], pd_stores = (\<lambda>_. s0)\<rparr> = Inr st \<and>
    partitions_hold F E st (\<lambda>_. []) \<and> pl_open st = [] \<and> pl_catalog st = catalog_default \<and> pd_stores st = (\<lambda>_. s0)"
proof -
  let ?st = "\<lparr>pd_catalog = NoCatalog, pd_runs = [], pd_stores = (\<lambda>_. s0), pl_catalog = catalog_default, pl_open = [],
      pl_sites = mark_all_complete (\<lambda>_. []), pl_next_run = 1, pl_current = None\<rparr>"
  have "pl_new E \<lparr>pd_catalog = NoCatalog, pd_runs = [], pd_stores = (\<lambda>_. s0)\<rparr> = Inr ?st"
    by (simp add: pl_new_def catalog_default_def check_config_def load_index_def COMPACT_AT_def)
  moreover have "index_ok ?st {}"
    using mark_holds [OF maps_hold_empty] by (auto simp: index_ok_def runs_ok_def bt_sorted_def maps_hold_def)
  moreover have "live_closed F s0 []" using laws disk by (auto simp: live_closed_def commits_hold_def)
  ultimately have "partitions_hold F E ?st (\<lambda>_. [])"
    using E unfolding partitions_hold_def partition_ok_def
    by (auto simp: stores_ok_def roots_ok_def catalog_ok_def catalog_default_def one_kind_def pairs_ok_def holders_def keys_of_def
        intro!: exI [of _ "{}"])
  then show ?thesis by (simp add: pl_new_def catalog_default_def check_config_def load_index_def COMPACT_AT_def)
qed

section \<open>The shipped layout\<close>

text \<open>\<open>PathBuf::join\<close>: an absolute path replaces what it is joined to.\<close>

definition path_join :: "string \<Rightarrow> string \<Rightarrow> string" where
  "path_join a b =
     (if starts_with b ''/'' then b else if a = [] \<or> last a = CHR ''/'' then a @ b else a @ ''/'' @ b)"

definition default_root_for :: "string \<Rightarrow> partition_key \<Rightarrow> string" where
  "default_root_for root k =
     path_join
       (path_join (path_join root ''p'')
         (map (\<lambda>c. if c = CHR '':'' \<or> c = CHR 0x1F then CHR ''_'' else c) (pk_dimension_value k)))
       (pk_time_bucket k)"

text \<open>
  The sanitized names are not injective: a user-defined kind can share the directory of a relationship
  kind, and two user-defined kinds can share one.
\<close>

lemma default_roots_collide:
  "default_root_for root (PartitionKey b (object_kind_display (KCustom ''rel_calls''))) =
     default_root_for root (PartitionKey b (''rel:'' @ ''calls''))"
  "default_root_for root (PartitionKey b (object_kind_display (KCustom ''a:b''))) =
     default_root_for root (PartitionKey b (object_kind_display (KCustom ''a_b'')))"
  by (simp_all add: default_root_for_def)

section \<open>A concrete one\<close>

instance json :: (countable) countable
  by countable_datatype

definition two_env :: "nat ledger_env" where
  "two_env = one_env\<lparr>le_hash := (\<lambda>j. replicate (to_nat j) CHR ''0'')\<rparr>"

definition one_object :: "nat kir_object" where
  "one_object = plain_file 5 ''a''"

definition one_codec :: "nat kir_codec" where
  "one_codec =
     \<lparr>kc_object = (\<lambda>ob. if ob = one_object then one_payload else []), kc_relationship = (\<lambda>_. []),
      kc_event = (\<lambda>_. []), kc_evidence = (\<lambda>_. []), kc_object_of = (\<lambda>_. Some one_object),
      kc_relationship_of = (\<lambda>_. None), kc_event_of = (\<lambda>_. None), kc_evidence_of = (\<lambda>_. None)\<rparr>"

definition one_facts :: "nat fact_env" where
  "one_facts =
     \<lparr>fe_ledger = two_env, fe_codec = one_codec,
      fe_rest = \<lparr>ks_audit_trail = \<lambda>_ _. Inr [], ks_get_object = \<lambda>_ _. Inr None, ks_get_evidence = \<lambda>_ _. Inr None,
        ks_get_relationship = \<lambda>_ _. Inr None, ks_get_event = \<lambda>_ _. Inr None, ks_all_objects = \<lambda>_. Inr [],
        ks_all_relationships = \<lambda>_. Inr [], ks_relationships_for = \<lambda>_ _. Inr [], ks_object_at = \<lambda>_ _ _. Inr None,
        ks_relationships_at = \<lambda>_ _ _. Inr [], ks_all_objects_at = \<lambda>_ _. Inr [], ks_all_relationships_at = \<lambda>_ _. Inr [],
        ks_object_history = \<lambda>_ _. Inr [], ks_relationship_history = \<lambda>_ _. Inr [], ks_find_objects = \<lambda>_ _. Inr [],
        ks_retrieve = \<lambda>_ _. Inr \<lparr>rk_hits = [], rk_arms_run = LEXICAL, rk_arm_timings = []\<rparr>,
        ks_fact = \<lambda>_ _ _. Inr None, ks_entry_count = \<lambda>_. Inr 0, ks_object_count = \<lambda>_. Inr 0,
        ks_relationship_count = \<lambda>_. Inr 0, ks_evidence_count = \<lambda>_. Inr 0,
        ks_diff = \<lambda>_ _ _. Inr \<lparr>ld_added = [], ld_touched = [], ld_unchanged = 0\<rparr>,
        ks_refresh_snapshot = \<lambda>u. (Inr Unsupported, u), ks_append_object = \<lambda>_ u. (Inl LedgerReadOnly, u),
        ks_append_evidence = \<lambda>_ u. (Inl LedgerReadOnly, u), ks_append_relationship = \<lambda>_ u. (Inl LedgerReadOnly, u),
        ks_append_event = \<lambda>_ u. (Inl LedgerReadOnly, u), ks_set_write_context = \<lambda>_ u. u,
        ks_vacuum_into = \<lambda>_ u. (Inl LedgerReadOnly, u)\<rparr>,
      fe_moved = False\<rparr>"

definition one_partitions :: "(nat live_ledger, nat) partition_env" where
  "one_partitions =
     \<lparr>pv_root = ''p'', pv_dimension = EntityKind, pv_time_bucket = Monthly, pv_format = (\<lambda>f _. f),
      pv_root_for = default_root_for ''p'',
      pv_source_of = (\<lambda>_. None), pv_read_only = False, pv_store = fact_store one_facts,
      pv_open = (\<lambda>_ _. fl_open one_facts), pv_catalog_fails = False, pv_index_fails = False,
      pv_hash_order = (\<lambda>us. us)\<rparr>"

text \<open>Two empty directories; the clock always reads 7.\<close>

definition one_start :: "nat live_ledger" where
  "one_start = \<lparr>lv_ledger = one_ledger\<lparr>lg_root := Map.empty, lg_index := Map.empty\<rparr>, lv_clock = (\<lambda>_. 7)\<rparr>"

lemma one_partitions_ok: "pv_ok (fact_store one_facts) (fl_open one_facts False) one_partitions"
  by (simp add: pv_ok_def one_partitions_def)

lemma one_item: "payload_ok (payload_of one_codec x) \<Longrightarrow> x = ItObject one_object"
  by (cases x) (auto simp: one_codec_def payload_ok_def split: if_splits)

lemma one_laws: "codec_laws one_facts"
proof -
  have h: "inj (le_hash two_env)"
    by (rule injI) (simp add: replicate_eq_replicate two_env_def)
  have k: "kind_of_payload (JObject one_payload) = KObject" by (simp add: kind_of_payload_def one_payload_def)
  have c: "fe_codec one_facts = one_codec" "fe_ledger one_facts = two_env" by (simp_all add: one_facts_def)
  have items: "payload_ok (payload_of one_codec x) \<Longrightarrow>
      kind_of_payload (JObject (payload_of one_codec x)) = kind_of_index (ledger_kind x) \<and>
      le_typed two_env (kind_of_index (ledger_kind x)) (JObject (payload_of one_codec x)) = Some (JObject (payload_of one_codec x))"
    for x by (drule one_item) (simp add: one_codec_def k two_env_def one_env_def)
  have objects: "kc_object_of one_codec (JObject (kc_object one_codec ob)) = Some ob" if p: "payload_ok (kc_object one_codec ob)" for ob
  proof -
    have "payload_ok (payload_of one_codec (ItObject ob))" using p by simp
    from one_item [OF this] have "ob = one_object" by simp
    then show ?thesis by (simp add: one_codec_def)
  qed
  have rels: "\<not> payload_ok (kc_relationship one_codec r)" for r
    by (simp add: one_codec_def payload_ok_def)
  have order: "mset (le_order two_env us) = mset us" for us by (simp add: two_env_def one_env_def)
  show ?thesis unfolding codec_laws_def c 
    by (intro conjI allI impI)
      (erule items [THEN conjunct1] | erule items [THEN conjunct2] | erule objects | erule notE [OF rels] | rule h | rule order)+
qed

lemma one_disk: "ledger_disk two_env Map.empty Map.empty [] []"
proof (rule empty_disk)
  show "sidecar_codec_ok two_env" using one_sidecars by (simp add: sidecar_codec_ok_def two_env_def)
  show "dir_codec_ok (le_dir two_env)" by (simp add: two_env_def one_env_def demo_dirs_def Let_def demo_dir_codec_ok)
qed (simp_all add: two_env_def one_seg_codec_ok demo_idx_codec_ok)


text \<open>The directories, opened: nothing is in them, so the one object fits.\<close>

lemma one_opened:
  assumes "fl_open one_facts False one_start = Inr s"
  shows "live_room one_facts s (ItObject one_object)"
proof -
  let ?s = "lv_ledger s"
  have c: "le_seg two_env = one_seg_codec" "le_dir two_env = demo_dirs" by (simp_all add: two_env_def)
  obtain st root' where o: "open_inner one_seg_codec SEGMENT_SEAL_BYTES False Map.empty = (Inr st, root')"
    "st_manifest st = default_manifest" "st_dict st = None"
    using open_inner_rep [OF one_seg_codec_ok empty_disk_rep] by blast
  obtain l where l: "open_writable two_env SEGMENT_SEAL_BYTES Map.empty Map.empty = Inr l" "ledger_rep two_env l [] []"
    using reopen_ledger [OF one_disk] by blast
  have s: "s = one_start\<lparr>lv_ledger := l\<rparr>"
    using assms l(1) by (simp add: fl_open_def one_start_def one_facts_def)
  have "in_store (lg_inner l) = st"
    using l(1) o(1) by (auto simp: open_writable_def c build_inner_def Let_def split: prod.splits sum.splits if_splits)
  moreover have "in_memtable (lg_inner l) = []"
    using l(2) by (auto simp: ledger_rep_def index_rep_def Let_def entries_from_batches_def)
  ultimately have same: "st_dict (in_store (lg_inner l)) = st_dict (in_store (lg_inner one_ledger))"
    "mf_attributes (st_manifest (in_store (lg_inner l))) = mf_attributes (st_manifest (in_store (lg_inner one_ledger)))"
    "in_memtable (lg_inner l) = in_memtable (lg_inner one_ledger)"
    using o(2,3) one_ledger_store by (simp_all add: one_ledger_def fresh_ledger_def split_beta Let_def)
  have room: "append_room two_env l [] 5 7 one_payload"
    using one_room unfolding append_room_def commit_batch_def commit_ops_def flush_room_def same
    by (simp add: two_env_def)
  have "bs = []" if "ledger_rep two_env l bs cs" for bs cs
  proof -
    have "length (in_times (lg_inner l)) = length bs" "length (in_times (lg_inner l)) = length ([] :: nat batch list)"
      using that l(2) by (simp_all add: ledger_rep_def caches_ok_def)
    then show ?thesis by simp
  qed
  then show ?thesis
    using room by (auto simp: live_room_def s one_start_def one_facts_def one_codec_def one_object_def plain_file_def
        one_payload_ok)
qed


definition one_key :: partition_key where
  "one_key = PartitionKey ''%Y-%m'' (object_kind_display KFile)"

lemma one_key_for: "key_for one_partitions one_object = Inr one_key"
  by (simp add: key_for_def one_partitions_def one_object_def plain_file_def one_key_def)

lemma start_room:
  assumes "pl_open st = []" "pl_catalog st = catalog_default" "pd_stores st = (\<lambda>_. one_start)"
    and "pl_partition one_partitions k True st = (Inr root, st1)"
  shows "live_room one_facts (pd_stores st1 root) (ItObject one_object)"
proof (rule one_opened)
  show "fl_open one_facts False one_start = Inr (pd_stores st1 root)"
    using assms(4)
    by (auto simp: pl_partition_def assms(1-3) locate_partition_def Let_def find_entry_def catalog_default_def
        st_bind_def st_ret_def persist_catalog_def open_partition_def one_partitions_def split: sum.splits)
qed

lemma one_fresh:
  obtains st where "partitions_hold one_facts one_partitions st (\<lambda>_. [])" "pl_open st = []"
    "pl_catalog st = catalog_default" "pd_stores st = (\<lambda>_. one_start)"
proof -
  have "ledger_disk (fe_ledger one_facts) (lg_root (lv_ledger one_start)) (lg_index (lv_ledger one_start)) [] []"
    using one_disk by (simp add: one_start_def one_facts_def)
  from fresh_partitions [OF one_partitions_ok one_laws this] that show thesis by blast
qed

text \<open>The concrete ledger after one append.\<close>

lemma one_filled:
  obtains st where "partitions_hold one_facts one_partitions st ((\<lambda>_. [])(one_key := [ItObject one_object]))"
proof -
  obtain st where st: "partitions_hold one_facts one_partitions st (\<lambda>_. [])" "pl_open st = []"
    "pl_catalog st = catalog_default" "pd_stores st = (\<lambda>_. one_start)" by (rule one_fresh)
  have own: "own_root one_partitions one_key st" by (simp add: own_root_def keys_of_def st(3) catalog_default_def)
  from fl.append_object_step [OF st(1) [unfolded partitions_hold_def] one_key_for own start_room [where k = one_key, OF st(2-4)]] obtain st' where
    "partitions_hold one_facts one_partitions st'
      ((\<lambda>_. [])(one_key := put_item (same_content (fe_codec one_facts)) [] (ItObject one_object)))"
    unfolding partitions_hold_def by auto
  then show thesis using that by (simp add: put_item_def unchanged_def latest_item_def)
qed

section \<open>Properties\<close>

text \<open>The partition, once opened, has room for the object; the id is not that of another primitive.\<close>

definition object_fits ::
  "'n fact_env \<Rightarrow> ('n live_ledger, 'n) partition_env \<Rightarrow> partition_key \<Rightarrow> 'n kir_object \<Rightarrow>
   'n live_ledger partitioned_ledger \<Rightarrow> bool" where
  "object_fits F E k ob st \<longleftrightarrow>
     (\<forall>root st1. pl_partition E k True st = (Inr root, st1) \<longrightarrow> live_room F (pd_stores st1 root) (ItObject ob))"

definition only_object :: "'n ledger_item list \<Rightarrow> kir_id \<Rightarrow> bool" where
  "only_object A i \<longleftrightarrow> (\<forall>y \<in> set A. ledger_id y = i \<longrightarrow> ledger_kind y = IxObj)"

lemma append_reads:
  assumes hold: "partitions_hold F E st C" and key: "key_for E ob = Inr k" and own: "own_root E k st"
    and room: "object_fits F E k ob st" and kinds: "only_object (C k) (ko_id ob)"
  shows "\<exists>changed st'. pl_append_object E ob st = (Inr changed, st') \<and>
    (changed \<longleftrightarrow> \<not> unchanged (same_content (fe_codec F)) (C k) (ItObject ob)) \<and>
    (\<forall>i. read_object E st' i =
       (if i = ko_id ob \<and> changed \<and> (\<forall>k' \<in> holders C IxObj i. k' \<le> k) then Inr (Some ob) else read_object E st i)) \<and>
    (\<forall>i. read_relationship E st' i = read_relationship E st i) \<and>
    partitions_hold F E st' (C(k := if changed then C k @ [ItObject ob] else C k))"
proof -
  let ?same = "same_content (fe_codec F)"
  let ?C = "C(k := put_item ?same (C k) (ItObject ob))"
  obtain st' where st': "pl_append_object E ob st = (Inr (\<not> unchanged ?same (C k) (ItObject ob)), st')"
    "partitions_hold F E st' ?C"
    using fl.append_object_step [OF hold [unfolded partitions_hold_def] key own] room kinds
    unfolding partitions_hold_def object_fits_def only_object_def by blast
  have alike: "\<forall>x y. ?same x y \<longrightarrow> ledger_kind x = ledger_kind y" by (simp add: same_content_def)
  have "newest_relationship ?C i = newest_relationship C i" for i
  proof -
    have "holders ?C IxRel i = holders C IxRel i" using holders_put [of ?same C k "ItObject ob" IxRel i] alike by simp
    moreover have "current_relationship (?C k') i = current_relationship (C k') i" if "k' \<in> holders C IxRel i" for k'
    proof -
      have "ko_id ob \<noteq> i" if "k' = k"
        using \<open>k' \<in> holders C IxRel i\<close> that kinds by (fastforce simp: holders_def only_object_def)
      then show ?thesis by (auto simp: put_item_def current_relationship_def latest_item_snoc)
    qed
    ultimately show ?thesis
      using Max_in [OF partitions_hold_finite [OF hold, of IxRel i]] by (simp add: newest_relationship_def)
  qed
  then have rels: "read_relationship E st' i = read_relationship E st i" for i
    unfolding read_relationship_newest [OF st'(2)] read_relationship_newest [OF hold] by simp
  have objects: "read_object E st' i =
      (if i = ko_id ob \<and> \<not> unchanged ?same (C k) (ItObject ob) \<and> (\<forall>k' \<in> holders C IxObj i. k' \<le> k)
       then Inr (Some ob) else read_object E st i)" for i
    unfolding read_object_newest [OF st'(2)] read_object_newest [OF hold]
      newest_object_put [where alike = ?same and C = C and k = k and ob = ob, OF alike partitions_hold_finite [OF hold]] by simp
  have "?C = C(k := if \<not> unchanged ?same (C k) (ItObject ob) then C k @ [ItObject ob] else C k)"
    by (simp add: put_item_def)
  then have held: "partitions_hold F E st' (C(k := if \<not> unchanged ?same (C k) (ItObject ob) then C k @ [ItObject ob] else C k))"
    using st'(2) by simp
  show ?thesis by (intro exI conjI allI) (rule st'(1), rule refl, rule objects, rule rels, rule held)
qed

text \<open>
  C8: An append to the partitioned ledger is seen exactly where it belongs.  The object goes to the
  partition of its kind or source and its time bucket; a new version is recorded unless that
  partition's current version has the same content; then a read of the id answers the new version,
  unless a partition with a greater key holds the id; every other point read of an object or a
  relationship answers what it answered before.  The partition must not share its directory with another
  one of the catalog (see \<open>default_roots_collide\<close>).
\<close>

theorem partition_append_exact:
  assumes "partitions_hold F E st C" "key_for E ob = Inr k" "own_root E k st"
    and "object_fits F E k ob st" "only_object (C k) (ko_id ob)"
  shows "\<exists>changed st'. pl_append_object E ob st = (Inr changed, st') \<and>
    (changed \<longleftrightarrow> \<not> unchanged (same_content (fe_codec F)) (C k) (ItObject ob)) \<and>
    (\<forall>i. read_object E st' i =
       (if i = ko_id ob \<and> changed \<and> (\<forall>k' \<in> holders C IxObj i. k' \<le> k) then Inr (Some ob) else read_object E st i)) \<and>
    (\<forall>i. read_relationship E st' i = read_relationship E st i) \<and>
    partitions_hold F E st' (C(k := if changed then C k @ [ItObject ob] else C k))"
  by (rule append_reads [OF assms])

theorem partition_append_exact_witness:
  "\<exists>st st'. partitions_hold one_facts one_partitions st (\<lambda>_. []) \<and>
    pl_append_object one_partitions one_object st = (Inr True, st') \<and>
    read_object one_partitions st' 5 = Inr (Some one_object)"
proof -
  obtain st where st: "partitions_hold one_facts one_partitions st (\<lambda>_. [])" "pl_open st = []"
    "pl_catalog st = catalog_default" "pd_stores st = (\<lambda>_. one_start)" by (rule one_fresh)
  have fits: "object_fits one_facts one_partitions one_key one_object st"
    using start_room [OF st(2-4)] by (simp add: object_fits_def)
  have only: "only_object [] (ko_id one_object)" by (simp add: only_object_def)
  have own: "own_root one_partitions one_key st" by (simp add: own_root_def keys_of_def st(3) catalog_default_def)
  from partition_append_exact [OF st(1) one_key_for own fits only] obtain changed st' where
    "pl_append_object one_partitions one_object st = (Inr changed, st')"
    "changed \<longleftrightarrow> \<not> unchanged (same_content (fe_codec one_facts)) [] (ItObject one_object)"
    "\<forall>i. read_object one_partitions st' i =
       (if i = ko_id one_object \<and> changed \<and> (\<forall>k' \<in> holders (\<lambda>_. [] :: nat ledger_item list) IxObj i. k' \<le> one_key) then Inr (Some one_object)
        else read_object one_partitions st i)"
    by (elim exE conjE) (rule that; assumption)
  then show ?thesis using st(1) by (auto simp: unchanged_def latest_item_def holders_def one_object_def plain_file_def)
qed

text \<open>
  C9: Tiering and restarts are invisible to reads by id and to the bulk read.  Demoting the old
  partitions, dropping the handle and opening the directory again, in which the catalog is read back, the
  index runs are folded and perhaps compacted and every partition is opened anew, succeed; before and
  after, \<open>get_object\<close> and \<open>get_relationship\<close> give the same answers and \<open>all_objects\<close> the same objects.
  (The name search, which looks at hot partitions only, is not such a read.)
\<close>

theorem partition_restart_exact:
  assumes "partitions_hold F E st C"
  shows "\<exists>n st1 st2. mark_cold_before E cutoff st = (Inr n, st1) \<and> reopen E st1 = Inr st2 \<and>
    (\<forall>i. read_object E st1 i = read_object E st i \<and> read_object E st2 i = read_object E st i) \<and>
    (\<forall>i. read_relationship E st1 i = read_relationship E st i \<and> read_relationship E st2 i = read_relationship E st i) \<and>
    (\<exists>obs obs1 obs2. bulk_read E st = Inr obs \<and> bulk_read E st1 = Inr obs1 \<and> bulk_read E st2 = Inr obs2 \<and>
       mset obs1 = mset obs \<and> mset obs2 = mset obs) \<and>
    partitions_hold F E st2 C"
proof -
  obtain n st1 where st1: "mark_cold_before E cutoff st = (Inr n, st1)" "partitions_hold F E st1 C"
    using fl.mark_cold_step [OF assms [unfolded partitions_hold_def], of cutoff] unfolding partitions_hold_def by blast
  obtain st2 where st2: "reopen E st1 = Inr st2" "partitions_hold F E st2 C"
    using fl.reopen_step [OF st1(2) [unfolded partitions_hold_def]] unfolding partitions_hold_def by blast
  note reads = read_object_newest [OF assms] read_object_newest [OF st1(2)] read_object_newest [OF st2(2)]
    read_relationship_newest [OF assms] read_relationship_newest [OF st1(2)] read_relationship_newest [OF st2(2)]
  have "\<exists>obs obs1 obs2. bulk_read E st = Inr obs \<and> bulk_read E st1 = Inr obs1 \<and> bulk_read E st2 = Inr obs2 \<and>
      mset obs1 = mset obs \<and> mset obs2 = mset obs"
    using read_all_newest [OF assms] read_all_newest [OF st1(2)] read_all_newest [OF st2(2)]
    by (metis set_eq_iff_mset_eq_distinct)
  then show ?thesis using st1(1) st2 by (simp add: reads)
qed

theorem partition_restart_exact_witness:
  "\<exists>st n st1 st2. mark_cold_before one_partitions 0 st = (Inr n, st1) \<and> reopen one_partitions st1 = Inr st2 \<and>
    read_object one_partitions st2 5 = Inr (Some one_object)"
proof -
  obtain st where st: "partitions_hold one_facts one_partitions st ((\<lambda>_. [])(one_key := [ItObject one_object]))"
    by (rule one_filled)
  have "holders ((\<lambda>_. [])(one_key := [ItObject one_object])) IxObj 5 = {one_key}"
    by (auto simp: holders_def one_object_def plain_file_def)
  then have "read_object one_partitions st 5 = Inr (Some one_object)"
    using read_object_newest [OF st, of 5]
    by (simp add: newest_object_def current_object_def latest_item_def one_object_def plain_file_def)
  moreover obtain n st1 st2 where "mark_cold_before one_partitions 0 st = (Inr n, st1)" "reopen one_partitions st1 = Inr st2"
    "\<And>i. read_object one_partitions st2 i = read_object one_partitions st i"
    using partition_restart_exact [OF st, of 0] by blast
  ultimately show ?thesis by metis
qed

text \<open>
  C10: The bulk read of the partitioned ledger is its point reads.  \<open>all_objects\<close> opens every
  partition of the catalog, cold ones included, and returns each id once, with exactly the version
  \<open>get_object\<close> answers, whatever the iteration orders of the hash maps.
\<close>

theorem partition_bulk_exact:
  assumes "partitions_hold F E st C"
  shows "\<exists>obs st'. pl_all_objects E st = (Inr obs, st') \<and> distinct (map ko_id obs) \<and>
    set obs = {ob. read_object E st (ko_id ob) = Inr (Some ob)} \<and> partitions_hold F E st' C"
proof -
  obtain obs st' where "pl_all_objects E st = (Inr obs, st')" "partitions_hold F E st' C" "distinct (map ko_id obs)"
    "set obs = {ob. newest_object C (ko_id ob) = Some ob}"
    using fl.all_objects_step [OF assms [unfolded partitions_hold_def]] unfolding partitions_hold_def by blast
  then show ?thesis by (simp add: read_object_newest [OF assms])
qed

theorem partition_bulk_exact_witness:
  "\<exists>st obs st'. pl_all_objects one_partitions st = (Inr obs, st') \<and> obs = [one_object]"
proof -
  obtain st where st: "partitions_hold one_facts one_partitions st ((\<lambda>_. [])(one_key := [ItObject one_object]))"
    by (rule one_filled)
  let ?C = "(\<lambda>_. [])(one_key := [ItObject one_object])"
  have "holders ?C IxObj i = (if i = ko_id one_object then {one_key} else {})" for i
    by (auto simp: holders_def)
  then have newest: "newest_object ?C i = (if i = ko_id one_object then Some one_object else None)" for i
    by (simp add: newest_object_def current_object_def latest_item_def)
  from partition_bulk_exact [OF st] obtain obs st' where obs: "pl_all_objects one_partitions st = (Inr obs, st')"
    "distinct (map ko_id obs)" "set obs = {ob. read_object one_partitions st (ko_id ob) = Inr (Some ob)}"
    by (elim exE conjE) (rule that; assumption)
  have "set obs = {one_object}" by (auto simp: obs(3) read_object_newest [OF st] newest split: if_splits)
  moreover have "distinct obs" using obs(2) by (simp add: distinct_map)
  ultimately have "length obs = 1" using distinct_card [of obs] by simp
  then obtain x where "obs = [x]" by (auto simp: length_Suc_conv)
  then have "obs = [one_object]" using \<open>set obs = {one_object}\<close> by simp
  then show ?thesis using obs(1) by blast
qed

text \<open>
  A version filed under a smaller key than an older one is never read: within one time bucket the keys
  are ordered by the dimension value, so this is what happens when an object changes its kind to one
  that sorts before the old one.
\<close>

lemma stale_after_kind_change:
  assumes "partitions_hold F E st C" "key_for E ob = Inr k" "k' \<in> holders C IxObj (ko_id ob)" "k < k'"
    and "own_root E k st" "object_fits F E k ob st" "only_object (C k) (ko_id ob)"
  shows "\<exists>changed st'. pl_append_object E ob st = (Inr changed, st') \<and>
    read_object E st' (ko_id ob) = read_object E st (ko_id ob)"
proof -
  have "\<not> (\<forall>k' \<in> holders C IxObj (ko_id ob). k' \<le> k)" using assms(3,4) by (auto simp: not_le)
  moreover obtain changed st' where "pl_append_object E ob st = (Inr changed, st')"
    "\<forall>i. read_object E st' i =
       (if i = ko_id ob \<and> changed \<and> (\<forall>k' \<in> holders C IxObj i. k' \<le> k) then Inr (Some ob) else read_object E st i)"
    using append_reads [OF assms(1,2,5,6,7)] by (elim exE conjE) (rule that; assumption)
  ultimately show ?thesis by metis
qed

text \<open>
  A catalog write that fails leaves the new partition in the catalog of the handle: the next access finds
  it, writes nothing, and goes on to a ledger no catalog on disk lists.
\<close>

lemma failed_save_is_not_retried:
  assumes "find_entry k (pl_catalog st) = None"
  shows "\<exists>e st1. locate_partition (E\<lparr>pv_catalog_fails := True\<rparr>) k True st = (Inl e, st1) \<and>
    locate_partition E k True st1 = (Inr (pv_root_for E k), st1) \<and> pd_catalog st1 = pd_catalog st"
proof -
  let ?c = "add_partition E k (pv_root_for E k) (pl_catalog st)"
  let ?new = "\<lparr>pe_key = k, pe_root = pv_root_for E k, pe_tier = Hot\<rparr>"
  have none: "pe_key e \<noteq> k" if "e \<in> set (pc_partitions (pl_catalog st))" for e
    using assms that by (auto simp: find_entry_def find_None_iff)
  have entries: "set (pc_partitions ?c) = insert ?new (set (pc_partitions (pl_catalog st)))"
    by (simp add: add_partition_def)
  obtain e where e: "find_entry k ?c = Some e"
    by (cases "find_entry k ?c") (auto simp: find_entry_def find_None_iff entries)
  then have "e \<in> set (pc_partitions ?c)" "pe_key e = k" by (auto simp: find_entry_def find_Some_iff)
  then have found: "find_entry k ?c = Some ?new" using e none entries by auto
  have same: "add_partition (E\<lparr>pv_catalog_fails := True\<rparr>) k r c = add_partition E k r c" for r c
    by (simp add: add_partition_def cong: option.case_cong)
  show ?thesis
    by (intro exI conjI) (simp add: locate_partition_def assms Let_def st_bind_def persist_catalog_def same,
      simp_all add: locate_partition_def found)
qed

text \<open>A user-defined kind can name the partition of the events, which the object reads of the past skip.\<close>

lemma custom_kind_hides_objects:
  assumes "pv_dimension E = EntityKind" "ko_kind ob = KCustom ''events''" "key_for E ob = Inr k"
  shows "\<not> is_object_partition k"
  using assms by (auto simp: key_for_def is_object_partition_def EVENTS_DV_def)

end
