(* ===== verification/Lease.thy ===== *)
theory Lease
  imports Ekos_Prelude
begin

text \<open>
  Write leases and fencing tokens of the cluster coordinator, \<open>cluster/src/lease.rs\<close>.

  A point in time (\<open>DateTime<Utc>\<close>) and a \<open>chrono::Duration\<close> are integers (nanoseconds); a fencing
  token is a \<open>u64\<close> that wraps, as the release build does.  The two \<open>HashMap\<close>s of
  \<open>LeaseTable\<close> are never iterated and are partial functions.  The locale \<open>lease_service\<close> is what
  the coordinator relies on; its client lemmas say what a whole sequence of calls can do to one
  partition, and the lease table is its interpretation.
\<close>

type_synonym time_ns = int
type_synonym partition_id = string
type_synonym holder_id = string
type_synonym lease_token = "64 word"

record lease =
  l_partition :: partition_id
  l_holder :: holder_id
  l_token :: lease_token
  l_expires_at :: time_ns

datatype lease_error =
    AlreadyLeased partition_id
  | Expired partition_id
  | Fenced partition_id

record lease_table =
  active :: "partition_id \<Rightarrow> lease option"
  next_token :: "partition_id \<Rightarrow> lease_token option"

definition empty_lease_table :: lease_table where
  "empty_lease_table = \<lparr>active = Map.empty, next_token = Map.empty\<rparr>"

section \<open>Operations\<close>

definition is_live :: "lease \<Rightarrow> time_ns \<Rightarrow> bool" where
  "is_live l now \<longleftrightarrow> l_expires_at l > now"

text \<open>The value under a key of a counter map, \<open>entry(k).or_insert(0)\<close>.\<close>

definition counter :: "('k \<Rightarrow> 'n::zero option) \<Rightarrow> 'k \<Rightarrow> 'n" where
  "counter m k = (case m k of None \<Rightarrow> 0 | Some n \<Rightarrow> n)"

definition acquire ::
  "partition_id \<Rightarrow> holder_id \<Rightarrow> time_ns \<Rightarrow> time_ns \<Rightarrow> lease_table \<Rightarrow> lease_table \<times> (lease_error + lease)" where
  "acquire p h now ttl t =
     (if (case active t p of None \<Rightarrow> False | Some l \<Rightarrow> is_live l now \<and> l_holder l \<noteq> h)
      then (t, Inl (AlreadyLeased p))
      else
        let token = counter (next_token t) p + 1;
            l = \<lparr>l_partition = p, l_holder = h, l_token = token, l_expires_at = now + ttl\<rparr>
        in (t\<lparr>active := (active t)(p \<mapsto> l), next_token := (next_token t)(p \<mapsto> token)\<rparr>, Inr l))"

definition check :: "partition_id \<Rightarrow> holder_id \<Rightarrow> lease_token \<Rightarrow> time_ns \<Rightarrow> lease_table \<Rightarrow> lease_error + unit" where
  "check p h token now t =
     (case active t p of
        None \<Rightarrow> Inl (Expired p)
      | Some l \<Rightarrow>
          if l_token l > token then Inl (Fenced p)
          else if l_holder l = h \<and> l_token l = token \<and> is_live l now then Inr ()
          else Inl (Expired p))"

definition renew ::
  "partition_id \<Rightarrow> holder_id \<Rightarrow> lease_token \<Rightarrow> time_ns \<Rightarrow> time_ns \<Rightarrow> lease_table \<Rightarrow> lease_table \<times> (lease_error + lease)" where
  "renew p h token now ttl t =
     (case check p h token now t of
        Inl e \<Rightarrow> (t, Inl e)
      | Inr _ \<Rightarrow>
          let l = (the (active t p))\<lparr>l_expires_at := now + ttl\<rparr>
          in (t\<lparr>active := (active t)(p \<mapsto> l)\<rparr>, Inr l))"

definition release ::
  "partition_id \<Rightarrow> holder_id \<Rightarrow> lease_token \<Rightarrow> time_ns \<Rightarrow> lease_table \<Rightarrow> lease_table \<times> (lease_error + unit)" where
  "release p h token now t =
     (case active t p of
        None \<Rightarrow> (t, Inr ())
      | Some l \<Rightarrow>
          if l_token l > token then (t, Inl (Fenced p))
          else if l_holder l = h \<and> l_token l = token
            then (t\<lparr>active := (active t)(p := None)\<rparr>, Inr ())
          else (t, Inr ()))"

text \<open>One call on the table, as the coordinator makes them.\<close>

datatype lease_call =
    CAcquire partition_id holder_id time_ns time_ns
  | CRenew partition_id holder_id lease_token time_ns time_ns
  | CRelease partition_id holder_id lease_token time_ns

fun lease_step :: "lease_call \<Rightarrow> lease_table \<Rightarrow> lease_table" where
  "lease_step (CAcquire p h now ttl) t = fst (acquire p h now ttl t)"
| "lease_step (CRenew p h token now ttl) t = fst (renew p h token now ttl t)"
| "lease_step (CRelease p h token now) t = fst (release p h token now t)"

section \<open>Well-formed tables\<close>

text \<open>
  The active lease of a partition is filed under its own id and carries the latest token handed
  out for it.
\<close>

definition last_token :: "lease_table \<Rightarrow> partition_id \<Rightarrow> nat" where
  "last_token t p = unat (counter (next_token t) p)"

definition table_ok :: "lease_table \<Rightarrow> bool" where
  "table_ok t \<longleftrightarrow> (\<forall>p l. active t p = Some l \<longrightarrow>
     l_partition l = p \<and> next_token t p = Some (l_token l))"

lemma table_okD: "table_ok t \<Longrightarrow> active t p = Some l \<Longrightarrow>
    l_partition l = p \<and> next_token t p = Some (l_token l) \<and> last_token t p = unat (l_token l)"
  by (simp add: table_ok_def last_token_def counter_def)

lemma table_ok_empty [simp]: "table_ok empty_lease_table"
  by (simp add: table_ok_def empty_lease_table_def)

lemma acquire_ok: "table_ok t \<Longrightarrow> table_ok (fst (acquire p h now ttl t))"
  by (auto simp: acquire_def table_ok_def Let_def)

lemma check_Inr_iff: "check p h token now t = Inr u \<longleftrightarrow>
    (\<exists>l. active t p = Some l \<and> l_holder l = h \<and> l_token l = token \<and> is_live l now)"
  by (auto simp: check_def split: option.splits)

lemma renew_cases:
  obtains (refused) e where "check p h token now t = Inl e" "renew p h token now ttl t = (t, Inl e)"
  | (renewed) l where "active t p = Some l" "l_holder l = h" "l_token l = token" "is_live l now"
      "renew p h token now ttl t =
         (t\<lparr>active := (active t)(p \<mapsto> l\<lparr>l_expires_at := now + ttl\<rparr>)\<rparr>, Inr (l\<lparr>l_expires_at := now + ttl\<rparr>))"
proof (cases "check p h token now t")
  case (Inl e)
  then show ?thesis using refused by (simp add: renew_def)
next
  case (Inr u)
  then obtain l where l: "active t p = Some l" "l_holder l = h" "l_token l = token" "is_live l now"
    by (auto simp: check_Inr_iff)
  then show ?thesis using renewed Inr by (simp add: renew_def Let_def)
qed

lemma renew_ok: "table_ok t \<Longrightarrow> table_ok (fst (renew p h token now ttl t))"
  by (rule renew_cases [of p h token now t ttl]) (auto simp: table_ok_def)

lemma release_ok: "table_ok t \<Longrightarrow> table_ok (fst (release p h token now t))"
  by (auto simp: release_def table_ok_def split: option.splits)

lemma lease_step_ok [simp]: "table_ok t \<Longrightarrow> table_ok (lease_step c t)"
  by (cases c) (simp_all add: acquire_ok renew_ok release_ok)

section \<open>The interface of the coordinator to its leases\<close>

text \<open>
  \<open>lst\<close> is the number of the last grant of a partition, \<open>cap\<close> the first number a token cannot
  hold, \<open>chk\<close> the fencing check, \<open>stp\<close> one call, \<open>grants c\<close> the partition a call may grant.
\<close>

locale lease_service =
  fixes stp :: "'c \<Rightarrow> 's \<Rightarrow> 's"
    and chk :: "partition_id \<Rightarrow> holder_id \<Rightarrow> nat \<Rightarrow> time_ns \<Rightarrow> 's \<Rightarrow> bool"
    and lst :: "'s \<Rightarrow> partition_id \<Rightarrow> nat"
    and wf :: "'s \<Rightarrow> bool"
    and cap :: nat
  assumes wf_stp: "wf s \<Longrightarrow> wf (stp c s)"
    and chk_latest: "wf s \<Longrightarrow> chk p h k now s \<Longrightarrow> k = lst s p"
    and chk_unique: "wf s \<Longrightarrow> chk p h k now s \<Longrightarrow> chk p h' k' now' s \<Longrightarrow> h = h'"
    and stp_latest: "wf s \<Longrightarrow> Suc (lst s p) < cap \<Longrightarrow> lst (stp c s) p \<in> {lst s p, Suc (lst s p)}"
begin

lemma wf_fold: "wf s \<Longrightarrow> wf (fold stp cs s)"
  by (induction cs arbitrary: s) (simp_all add: wf_stp)

lemma fold_latest:
  "wf s \<Longrightarrow> lst s p + length cs < cap \<Longrightarrow>
     lst s p \<le> lst (fold stp cs s) p \<and> lst (fold stp cs s) p \<le> lst s p + length cs"
proof (induction cs arbitrary: s)
  case Nil
  then show ?case by simp
next
  case (Cons c cs)
  have "lst (stp c s) p \<in> {lst s p, Suc (lst s p)}"
    using stp_latest Cons.prems by simp
  then show ?case
    using Cons.IH [of "stp c s"] Cons.prems wf_stp by fastforce
qed

lemma one_writer:
  "wf s \<Longrightarrow> chk p h k now s \<Longrightarrow> chk p h' k' now' s \<Longrightarrow> h = h' \<and> k = k'"
  using chk_latest chk_unique by metis

lemma stays_fenced:
  assumes "wf s" "k < lst s p" "lst s p + length cs < cap"
  shows "\<not> chk p h k now (fold stp cs s)"
  using fold_latest [OF assms(1,3)] chk_latest [OF wf_fold [OF assms(1)]] assms(2) by fastforce

end

lemma unat_plus_one: "Suc (unat (w :: 64 word)) < 2 ^ 64 \<Longrightarrow> unat (w + 1) = Suc (unat w)"
  by (simp add: unat_word_ariths)

lemma acquire_latest:
  assumes "Suc (last_token t p) < 2 ^ 64"
  shows "last_token (fst (acquire q h now ttl t)) p =
    (if q = p \<and> \<not> isl (snd (acquire q h now ttl t)) then Suc (last_token t p) else last_token t p)"
  using assms
  by (auto simp: acquire_def last_token_def counter_def Let_def unat_plus_one
      split: option.splits if_splits)

lemma acquire_Inr:
  assumes "acquire p h now ttl t = (t', Inr l)"
  shows "l = \<lparr>l_partition = p, l_holder = h, l_token = counter (next_token t) p + 1, l_expires_at = now + ttl\<rparr>"
    "active t' = (active t)(p \<mapsto> l)" "next_token t' = (next_token t)(p \<mapsto> l_token l)"
  using assms by (auto simp: acquire_def Let_def split: if_splits)

lemma acquire_Inl: "acquire p h now ttl t = (t', Inl e) \<Longrightarrow>
    t' = t \<and> e = AlreadyLeased p \<and> (\<exists>l. active t p = Some l \<and> is_live l now \<and> l_holder l \<noteq> h)"
  by (auto simp: acquire_def Let_def split: if_splits option.splits)

lemma acquire_token:
  assumes "acquire p h now ttl t = (t', Inr l)" "Suc (last_token t p) < 2 ^ 64"
  shows "unat (l_token l) = Suc (last_token t p)" "last_token t' p = Suc (last_token t p)"
proof -
  show "last_token t' p = Suc (last_token t p)"
    using acquire_latest [OF assms(2), of p h now ttl] assms(1) by simp
  moreover have "last_token t' p = unat (l_token l)"
    using acquire_Inr(3) [OF assms(1)] by (simp add: last_token_def counter_def)
  ultimately show "unat (l_token l) = Suc (last_token t p)" by simp
qed

lemma renew_latest [simp]: "last_token (fst (renew q h token now ttl t)) p = last_token t p"
  by (rule renew_cases [of q h token now t ttl]) (simp_all add: last_token_def)

lemma release_latest [simp]: "last_token (fst (release q h token now t)) p = last_token t p"
  by (auto simp: release_def last_token_def split: option.splits)

lemma lease_step_latest:
  "Suc (last_token t p) < 2 ^ 64 \<Longrightarrow> last_token (lease_step c t) p \<in> {last_token t p, Suc (last_token t p)}"
  by (cases c) (simp_all add: acquire_latest)

interpretation ls: lease_service lease_step
    "\<lambda>p h k now t. check p h (word_of_nat k) now t = Inr () \<and> k < 2 ^ 64" last_token table_ok "2 ^ 64"
proof
  fix s :: lease_table and c p h k now
  assume s: "table_ok s"
  show "table_ok (lease_step c s)" using s by simp
  {
    assume "check p h (word_of_nat k) now s = Inr () \<and> k < 2 ^ 64"
    then show "k = last_token s p"
      using table_okD [OF s] by (fastforce simp: check_Inr_iff unat_of_nat)
  next
    fix h' k' now'
    assume "check p h (word_of_nat k) now s = Inr () \<and> k < 2 ^ 64"
      "check p h' (word_of_nat k') now' s = Inr () \<and> k' < 2 ^ 64"
    then show "h = h'" by (auto simp: check_Inr_iff)
  next
    assume "Suc (last_token s p) < 2 ^ 64"
    then show "last_token (lease_step c s) p \<in> {last_token s p, Suc (last_token s p)}"
      by (rule lease_step_latest)
  }
qed

end
