(* ===== verification/Coordinator.thy ===== *)
theory Coordinator
  imports Lease
begin

text \<open>
  The cluster coordinator: partition catalog (\<open>cluster/src/catalog.rs\<close>), request protocol
  (\<open>protocol.rs\<close>) and the request handler with its persisted state (\<open>coordinator.rs\<close>).

  The JSON text of \<open>PersistedState\<close> is an abstract type \<open>'f\<close> with an encoder and a decoder
  (serde_json is not part of the repository).  The directory of the state file maps file names to
  contents, and every write of it has an outcome: it succeeds, the write of the temporary file
  fails after leaving anything behind, or the rename fails.  The two \<open>HashMap\<close>s that are
  persisted are lists in key order: their iteration order is never observed, because the one
  response that lists them collects into a \<open>BTreeMap\<close>.  Texts of error messages are constructors.
\<close>

section \<open>Catalog\<close>

datatype partition_location =
    Local_Root string
  | Object_Store string string

record partition_meta =
  pm_id :: partition_id
  pm_location :: partition_location
  pm_cold :: bool

record catalog =
  c_partitions :: "partition_meta list"

definition catalog_get :: "catalog \<Rightarrow> partition_id \<Rightarrow> partition_meta option" where
  "catalog_get c k = find (\<lambda>p. pm_id p = k) (c_partitions c)"

datatype co_message =
    Already_Registered partition_id partition_location partition_location
  | Persistence_Failed
  | Bad_Request
  | Unexpected_Response

definition catalog_register :: "partition_meta \<Rightarrow> catalog \<Rightarrow> catalog \<times> (co_message + unit)" where
  "catalog_register m c =
     (case find (\<lambda>p. pm_id p = pm_id m) (c_partitions c) of
        Some e \<Rightarrow>
          if pm_location e = pm_location m then (c, Inr ())
          else (c, Inl (Already_Registered (pm_id m) (pm_location e) (pm_location m)))
      | None \<Rightarrow> (c\<lparr>c_partitions := sort_key pm_id (c_partitions c @ [m])\<rparr>, Inr ()))"

definition catalog_matching :: "(partition_id \<Rightarrow> bool) \<Rightarrow> catalog \<Rightarrow> partition_id list" where
  "catalog_matching pr c = filter pr (map pm_id (c_partitions c))"

section \<open>Protocol\<close>

datatype request =
    Catalog_Register partition_meta
  | Catalog_Get "string option"
  | Lease_Acquire partition_id holder_id
  | Lease_Renew partition_id holder_id lease_token
  | Lease_Release partition_id holder_id lease_token
  | Manifest_Commit partition_id holder_id lease_token "64 word"
  | Record_Entity_Partitions string "partition_id list"
  | Partitions_For_Entity string
  | Get_Watermark partition_id
  | Get_Watermarks

datatype response =
    R_Ok
  | R_Catalog "partition_meta list"
  | R_Lease lease
  | R_Lease_Error lease_error
  | R_Partitions "partition_id list"
  | R_Watermark "64 word"
  | R_Watermark_Map "(partition_id \<times> 64 word) list"
  | R_Error co_message

section \<open>State\<close>

record persisted_state =
  ps_catalog :: catalog
  ps_watermarks :: "(partition_id \<times> 64 word) list"
  ps_entity_partitions :: "(string \<times> partition_id list) list"

definition default_state :: persisted_state where
  "default_state = \<lparr>ps_catalog = \<lparr>c_partitions = []\<rparr>, ps_watermarks = [], ps_entity_partitions = []\<rparr>"

record coordinator =
  co_state_path :: "string option"
  co_catalog :: catalog
  co_leases :: lease_table
  co_watermarks :: "(partition_id \<times> 64 word) list"
  co_entity_partitions :: "(string \<times> partition_id list) list"
  co_ttl :: time_ns

record 'f state_codec =
  sc_enc :: "persisted_state \<Rightarrow> 'f"
  sc_dec :: "'f \<Rightarrow> persisted_state option"

type_synonym 'f state_dir = "string \<Rightarrow> 'f option"

definition LEASE_TTL :: time_ns where
  "LEASE_TTL = 30 * 1000000000"

definition co_open :: "'f state_codec \<Rightarrow> string \<Rightarrow> 'f state_dir \<Rightarrow> coordinator option" where
  "co_open cd path d =
     (case (case d path of None \<Rightarrow> Some default_state | Some f \<Rightarrow> sc_dec cd f) of
        None \<Rightarrow> None
      | Some st \<Rightarrow> Some
          \<lparr>co_state_path = Some path, co_catalog = ps_catalog st, co_leases = empty_lease_table,
           co_watermarks = ps_watermarks st, co_entity_partitions = ps_entity_partitions st,
           co_ttl = LEASE_TTL\<rparr>)"

definition co_ephemeral :: coordinator where
  "co_ephemeral =
     \<lparr>co_state_path = None, co_catalog = \<lparr>c_partitions = []\<rparr>, co_leases = empty_lease_table,
      co_watermarks = [], co_entity_partitions = [], co_ttl = LEASE_TTL\<rparr>"

definition with_ttl :: "time_ns \<Rightarrow> coordinator \<Rightarrow> coordinator" where
  "with_ttl d co = co\<lparr>co_ttl := d\<rparr>"

definition watermark :: "coordinator \<Rightarrow> partition_id \<Rightarrow> 64 word" where
  "watermark co p = counter (map_of (co_watermarks co)) p"

definition partitions_for_entity :: "coordinator \<Rightarrow> string \<Rightarrow> partition_id list" where
  "partitions_for_entity co e =
     (case map_of (co_entity_partitions co) e of None \<Rightarrow> [] | Some ps \<Rightarrow> ps)"

section \<open>Persistence\<close>

datatype 'f io_outcome =
    Io_Ok
  | Write_Fails "'f option"
  | Rename_Fails

definition mem_state :: "coordinator \<Rightarrow> persisted_state" where
  "mem_state co =
     \<lparr>ps_catalog = co_catalog co, ps_watermarks = co_watermarks co,
      ps_entity_partitions = co_entity_partitions co\<rparr>"

definition persist ::
  "'f state_codec \<Rightarrow> 'f io_outcome \<Rightarrow> coordinator \<Rightarrow> 'f state_dir \<Rightarrow> 'f state_dir \<times> bool" where
  "persist cd io co d =
     (case co_state_path co of
        None \<Rightarrow> (d, True)
      | Some path \<Rightarrow>
          let tmp = with_extension path ''json.tmp''; f = sc_enc cd (mem_state co)
          in case io of
               Io_Ok \<Rightarrow> (d(tmp := None, path \<mapsto> f), True)
             | Write_Fails g \<Rightarrow> (d(tmp := g), False)
             | Rename_Fails \<Rightarrow> (d(tmp \<mapsto> f), False))"

definition persisted ::
  "'f state_codec \<Rightarrow> 'f io_outcome \<Rightarrow> coordinator \<Rightarrow> 'f state_dir \<Rightarrow> response \<Rightarrow>
     coordinator \<times> 'f state_dir \<times> response" where
  "persisted cd io co d ok =
     (case persist cd io co d of
        (d', False) \<Rightarrow> (co, d', R_Error Persistence_Failed)
      | (d', True) \<Rightarrow> (co, d', ok))"

section \<open>The request handler\<close>

definition add_partitions :: "partition_id list \<Rightarrow> partition_id list \<Rightarrow> partition_id list" where
  "add_partitions ps s = sort (fold (\<lambda>p s. if p \<in> set s then s else s @ [p]) ps s)"

fun handle ::
  "'f state_codec \<Rightarrow> time_ns \<Rightarrow> 'f io_outcome \<Rightarrow> request \<Rightarrow> coordinator \<Rightarrow> 'f state_dir \<Rightarrow>
     coordinator \<times> 'f state_dir \<times> response" where
  "handle cd now io (Catalog_Register m) co d =
     (case catalog_register m (co_catalog co) of
        (c, Inr _) \<Rightarrow> persisted cd io (co\<lparr>co_catalog := c\<rparr>) d R_Ok
      | (c, Inl e) \<Rightarrow> (co\<lparr>co_catalog := c\<rparr>, d, R_Error e))"
| "handle cd now io (Catalog_Get pre) co d =
     (co, d, R_Catalog (filter
        (\<lambda>p. case pre of None \<Rightarrow> True | Some x \<Rightarrow> starts_with (pm_id p) x)
        (c_partitions (co_catalog co))))"
| "handle cd now io (Lease_Acquire p h) co d =
     (case acquire p h now (co_ttl co) (co_leases co) of
        (t, Inr l) \<Rightarrow> (co\<lparr>co_leases := t\<rparr>, d, R_Lease l)
      | (t, Inl e) \<Rightarrow> (co\<lparr>co_leases := t\<rparr>, d, R_Lease_Error e))"
| "handle cd now io (Lease_Renew p h k) co d =
     (case renew p h k now (co_ttl co) (co_leases co) of
        (t, Inr l) \<Rightarrow> (co\<lparr>co_leases := t\<rparr>, d, R_Lease l)
      | (t, Inl e) \<Rightarrow> (co\<lparr>co_leases := t\<rparr>, d, R_Lease_Error e))"
| "handle cd now io (Lease_Release p h k) co d =
     (case release p h k now (co_leases co) of
        (t, Inr _) \<Rightarrow> (co\<lparr>co_leases := t\<rparr>, d, R_Ok)
      | (t, Inl e) \<Rightarrow> (co\<lparr>co_leases := t\<rparr>, d, R_Lease_Error e))"
| "handle cd now io (Manifest_Commit p h k w) co d =
     (case check p h k now (co_leases co) of
        Inr _ \<Rightarrow>
          persisted cd io
            (co\<lparr>co_watermarks := bt_insert p (max (watermark co p) w) (co_watermarks co)\<rparr>) d R_Ok
      | Inl e \<Rightarrow> (co, d, R_Lease_Error e))"
| "handle cd now io (Record_Entity_Partitions e ps) co d =
     persisted cd io
       (co\<lparr>co_entity_partitions :=
          bt_insert e (add_partitions ps (partitions_for_entity co e)) (co_entity_partitions co)\<rparr>) d R_Ok"
| "handle cd now io (Partitions_For_Entity e) co d = (co, d, R_Partitions (partitions_for_entity co e))"
| "handle cd now io (Get_Watermark p) co d = (co, d, R_Watermark (watermark co p))"
| "handle cd now io Get_Watermarks co d = (co, d, R_Watermark_Map (co_watermarks co))"

text \<open>A stream of requests, each with its time and the outcome of its write, served in order.\<close>

type_synonym 'f event = "time_ns \<times> 'f io_outcome \<times> request"

fun serve ::
  "'f state_codec \<Rightarrow> 'f event list \<Rightarrow> coordinator \<Rightarrow> 'f state_dir \<Rightarrow>
     coordinator \<times> 'f state_dir \<times> response list" where
  "serve cd [] co d = (co, d, [])"
| "serve cd ((now, io, r) # es) co d =
     (case handle cd now io r co d of
        (co', d', a) \<Rightarrow> (case serve cd es co' d' of (co'', d'', as) \<Rightarrow> (co'', d'', a # as)))"


section \<open>What a request does to the state\<close>

text \<open>The lease call a request makes, and the state it leaves in memory, whatever the disk does.\<close>

fun lease_call_of :: "time_ns \<Rightarrow> time_ns \<Rightarrow> request \<Rightarrow> lease_call list" where
  "lease_call_of now ttl (Lease_Acquire p h) = [CAcquire p h now ttl]"
| "lease_call_of now ttl (Lease_Renew p h k) = [CRenew p h k now ttl]"
| "lease_call_of now ttl (Lease_Release p h k) = [CRelease p h k now]"
| "lease_call_of now ttl _ = []"

lemma persisted_co [simp]: "fst (persisted cd io co d a) = co"
  by (simp add: persisted_def split: prod.splits bool.splits)

lemma handle_leases [simp]:
  "co_leases (fst (handle cd now io r co d)) = fold lease_step (lease_call_of now (co_ttl co) r) (co_leases co)"
  by (cases r) (simp_all split: prod.splits sum.splits)

lemma handle_ttl [simp]: "co_ttl (fst (handle cd now io r co d)) = co_ttl co"
  by (cases r) (simp_all split: prod.splits sum.splits)

lemma handle_path [simp]: "co_state_path (fst (handle cd now io r co d)) = co_state_path co"
  by (cases r) (simp_all split: prod.splits sum.splits)

lemma fst_serve_Cons [simp]:
  "fst (serve cd (e # es) co d) =
     fst (serve cd es (fst (handle cd (fst e) (fst (snd e)) (snd (snd e)) co d))
       (fst (snd (handle cd (fst e) (fst (snd e)) (snd (snd e)) co d))))"
  by (cases e) (auto split: prod.splits)

lemma snd_snd_serve_Cons [simp]:
  "snd (snd (serve cd (e # es) co d)) =
     snd (snd (handle cd (fst e) (fst (snd e)) (snd (snd e)) co d)) #
     snd (snd (serve cd es (fst (handle cd (fst e) (fst (snd e)) (snd (snd e)) co d))
       (fst (snd (handle cd (fst e) (fst (snd e)) (snd (snd e)) co d)))))"
  by (cases e) (auto split: prod.splits)

definition calls_of :: "time_ns \<Rightarrow> 'f event list \<Rightarrow> lease_call list" where
  "calls_of ttl es = concat (map (\<lambda>(now, io, r). lease_call_of now ttl r) es)"

lemma calls_of_simps [simp]:
  "calls_of ttl [] = []"
  "calls_of ttl (e # es) = lease_call_of (fst e) ttl (snd (snd e)) @ calls_of ttl es"
  by (simp_all add: calls_of_def split: prod.splits)

lemma length_calls_of: "length (calls_of ttl es) \<le> length es"
proof (induction es)
  case (Cons e es)
  have "length (lease_call_of (fst e) ttl (snd (snd e))) \<le> 1"
    by (cases "snd (snd e)") simp_all
  with Cons show ?case by simp
qed simp

lemma serve_leases:
  "co_leases (fst (serve cd es co d)) = fold lease_step (calls_of (co_ttl co) es) (co_leases co)"
  by (induction es arbitrary: co d) simp_all

lemma serve_path: "co_state_path (fst (serve cd es co d)) = co_state_path co"
  by (induction es arbitrary: co d) simp_all

lemma commit_refused:
  assumes "check p h k now (co_leases co) \<noteq> Inr ()"
  shows "\<exists>e. handle cd now io (Manifest_Commit p h k w) co d = (co, d, R_Lease_Error e)"
  using assms by (auto split: sum.splits)

section \<open>Fencing\<close>

lemma check_number: "check p h k now t = Inr () \<Longrightarrow>
    check p h (word_of_nat (unat k)) now t = Inr () \<and> unat k < 2 ^ 64"
  using unsigned_less [of k, where ?'a = nat] by simp

lemma older_token_refused:
  assumes "table_ok (co_leases co)" "unat k < last_token (co_leases co) p"
    "last_token (co_leases co) p + length es < 2 ^ 64"
  shows "check p h k now (co_leases (fst (serve cd es co d))) \<noteq> Inr ()"
proof -
  have "\<not> (check p h (word_of_nat (unat k)) now
        (fold lease_step (calls_of (co_ttl co) es) (co_leases co)) = Inr () \<and> unat k < 2 ^ 64)"
    using assms(3) length_calls_of [of "co_ttl co" es]
    by (intro ls.stays_fenced [OF assms(1,2)]) simp
  then show ?thesis using check_number unfolding serve_leases by blast
qed

lemma older_token_below:
  assumes "table_ok (co_leases co)" "unat k < last_token (co_leases co) p"
    "last_token (co_leases co) p + length es < 2 ^ 64"
  shows "table_ok (co_leases (fst (serve cd es co d)))"
    "unat k < last_token (co_leases (fst (serve cd es co d))) p"
proof -
  have "length (calls_of (co_ttl co) es) \<le> length es" by (rule length_calls_of)
  then have "last_token (co_leases co) p + length (calls_of (co_ttl co) es) < 2 ^ 64" using assms(3) by simp
  from ls.fold_latest [OF assms(1) this] assms(2)
  show "unat k < last_token (co_leases (fst (serve cd es co d))) p" unfolding serve_leases by simp
  show "table_ok (co_leases (fst (serve cd es co d)))" unfolding serve_leases by (rule ls.wf_fold [OF assms(1)])
qed

lemma release_older:
  assumes "table_ok t" "unat k < last_token t p"
  shows "fst (release p h k now t) = t"
proof (cases "active t p")
  case (Some l)
  then have "k < l_token l" using table_okD [OF assms(1) Some] assms(2) by (simp add: word_less_nat_alt)
  then show ?thesis using Some by (simp add: release_def)
qed (simp add: release_def)

text \<open>
  C25: A takeover fences every earlier holder until the coordinator restarts: once a grant has been made,
  a commit or a renewal under any token that had been handed out before it is refused and a release under it
  releases nothing, whatever requests are served in between.  (A restart forgets the tokens, see
  \<open>restart_reissues_token\<close>.)
\<close>

theorem takeover_fences:
  assumes "table_ok (co_leases co)"
    and "handle cd now io (Lease_Acquire p h) co d = (co1, d1, R_Lease l)"
    and "unat k \<le> last_token (co_leases co) p"
    and "last_token (co_leases co) p + length es + 1 < 2 ^ 64"
    and "serve cd es co1 d1 = (co2, d2, as)"
  shows "(\<exists>e. handle cd now' io' (Manifest_Commit p h' k w) co2 d2 = (co2, d2, R_Lease_Error e)) \<and>
    (\<exists>e. handle cd now' io' (Lease_Renew p h' k) co2 d2 = (co2, d2, R_Lease_Error e)) \<and>
    (\<exists>a. handle cd now' io' (Lease_Release p h' k) co2 d2 = (co2, d2, a))"
proof -
  obtain t where t: "acquire p h now (co_ttl co) (co_leases co) = (t, Inr l)" "co_leases co1 = t"
    using assms(2) by (auto split: prod.splits sum.splits)
  have room: "Suc (last_token (co_leases co) p) < 2 ^ 64" using assms(4) by simp
  have ok: "table_ok (co_leases co1)"
    using acquire_ok [OF assms(1), of p h now "co_ttl co"] t by simp
  have "last_token (co_leases co1) p = Suc (last_token (co_leases co) p)"
    using acquire_token(2) [OF t(1) room] t(2) by simp
  then have old: "unat k < last_token (co_leases co1) p" "last_token (co_leases co1) p + length es < 2 ^ 64"
    using assms(3,4) by simp_all
  have refused: "check p h' k now' (co_leases co2) \<noteq> Inr ()"
    using older_token_refused [OF ok old, where cd = cd and d = d1] assms(5) by simp
  obtain e where "renew p h' k now' (co_ttl co2) (co_leases co2) = (co_leases co2, Inl e)"
    using refused by (cases rule: renew_cases [of p h' k now' "co_leases co2" "co_ttl co2"]) (auto simp: check_Inr_iff)
  then have rn: "handle cd now' io' (Lease_Renew p h' k) co2 d2 = (co2, d2, R_Lease_Error e)" by simp
  have "fst (release p h' k now' (co_leases co2)) = co_leases co2"
    using release_older [OF older_token_below [OF ok old, where cd = cd and d = d1]] assms(5) by simp
  then have "\<exists>a. handle cd now' io' (Lease_Release p h' k) co2 d2 = (co2, d2, a)"
    by (cases "release p h' k now' (co_leases co2)") (auto split: sum.splits)
  then show ?thesis using commit_refused [OF refused] rn by blast
qed

text \<open>The tokens handed out for a partition by a stream of requests, in order.\<close>

definition granted1 :: "partition_id \<Rightarrow> 'f event \<Rightarrow> response \<Rightarrow> lease_token list" where
  "granted1 p e a =
     (case snd (snd e) of
        Lease_Acquire q h \<Rightarrow> (case a of R_Lease l \<Rightarrow> if q = p then [l_token l] else [] | _ \<Rightarrow> [])
      | _ \<Rightarrow> [])"

definition granted :: "partition_id \<Rightarrow> 'f event list \<Rightarrow> response list \<Rightarrow> lease_token list" where
  "granted p es as = concat (map2 (granted1 p) es as)"

lemma handle_granted:
  assumes "Suc (last_token (co_leases co) p) < 2 ^ 64"
  shows "(granted1 p (now, io, r) (snd (snd (handle cd now io r co d))) = [] \<and>
        last_token (co_leases co) p \<le> last_token (co_leases (fst (handle cd now io r co d))) p \<and>
        last_token (co_leases (fst (handle cd now io r co d))) p \<le> Suc (last_token (co_leases co) p)) \<or>
      (\<exists>k. granted1 p (now, io, r) (snd (snd (handle cd now io r co d))) = [k] \<and>
        unat k = Suc (last_token (co_leases co) p) \<and>
        last_token (co_leases (fst (handle cd now io r co d))) p = unat k)"
proof -
  have step: "last_token (co_leases (fst (handle cd now io r co d))) p
      \<in> {last_token (co_leases co) p, Suc (last_token (co_leases co) p)}"
    unfolding handle_leases using lease_step_latest [OF assms]
    by (cases r) (simp_all del: lease_step.simps)
  show ?thesis
  proof (cases "\<exists>h. r = Lease_Acquire p h \<and> \<not> isl (snd (acquire p h now (co_ttl co) (co_leases co)))")
    case True
    then obtain h t l where r: "r = Lease_Acquire p h" "acquire p h now (co_ttl co) (co_leases co) = (t, Inr l)"
      by (metis prod.exhaust_sel sum.collapse(2))
    then show ?thesis
      using acquire_token [OF r(2) assms] by (simp add: granted1_def)
  next
    case False
    then have "granted1 p (now, io, r) (snd (snd (handle cd now io r co d))) = []"
      by (cases r) (auto simp: granted1_def split: prod.splits sum.splits response.splits)
    with step show ?thesis by auto
  qed
qed

text \<open>
  C26: The tokens handed out for a partition are strictly increasing and all above the latest one
  before, for any stream of fewer than \<open>2^64\<close> requests and any mix of expiry, renewal and release.
\<close>

theorem grants_increase:
  assumes "last_token (co_leases co) p + length es < 2 ^ 64"
  shows "sorted_wrt (<) (granted p es (snd (snd (serve cd es co d)))) \<and>
    (\<forall>k \<in> set (granted p es (snd (snd (serve cd es co d)))). last_token (co_leases co) p < unat k)"
  using assms
proof (induction es arbitrary: co d)
  case Nil
  then show ?case by (simp add: granted_def)
next
  case (Cons e es)
  let ?h = "handle cd (fst e) (fst (snd e)) (snd (snd e)) co d"
  let ?rest = "granted p es (snd (snd (serve cd es (fst ?h) (fst (snd ?h)))))"
  have split: "granted p (e # es) (snd (snd (serve cd (e # es) co d))) = granted1 p e (snd (snd ?h)) @ ?rest"
    by (simp only: snd_snd_serve_Cons) (simp add: granted_def)
  have room: "Suc (last_token (co_leases co) p) < 2 ^ 64" using Cons.prems by simp
  have IH: "sorted_wrt (<) ?rest \<and> (\<forall>k \<in> set ?rest. last_token (co_leases (fst ?h)) p < unat k)"
    if "last_token (co_leases (fst ?h)) p \<le> Suc (last_token (co_leases co) p)"
    using that Cons.prems by (intro Cons.IH) simp
  have "(granted1 p e (snd (snd ?h)) = [] \<and> last_token (co_leases co) p \<le> last_token (co_leases (fst ?h)) p \<and>
        last_token (co_leases (fst ?h)) p \<le> Suc (last_token (co_leases co) p)) \<or>
      (\<exists>k. granted1 p e (snd (snd ?h)) = [k] \<and> unat k = Suc (last_token (co_leases co) p) \<and>
        last_token (co_leases (fst ?h)) p = unat k)"
    using handle_granted [OF room, of "fst e" "fst (snd e)" "snd (snd e)" cd d] by simp
  then show ?case
  proof (elim disjE exE conjE)
    assume "granted1 p e (snd (snd ?h)) = []" "last_token (co_leases co) p \<le> last_token (co_leases (fst ?h)) p"
      "last_token (co_leases (fst ?h)) p \<le> Suc (last_token (co_leases co) p)"
    then show ?thesis unfolding split using IH by fastforce
  next
    fix k assume k: "granted1 p e (snd (snd ?h)) = [k]" "unat k = Suc (last_token (co_leases co) p)"
      "last_token (co_leases (fst ?h)) p = unat k"
    then have rest: "sorted_wrt (<) ?rest" "\<forall>x \<in> set ?rest. unat k < unat x" using IH by simp_all
    have "\<forall>x \<in> set (k # ?rest). last_token (co_leases co) p < unat x" using rest(2) k(2) by force
    moreover have "sorted_wrt (<) (k # ?rest)" using rest by (simp add: word_less_nat_alt)
    ultimately show ?thesis unfolding split k(1) by simp
  qed
qed


section \<open>Heartbeats\<close>

text \<open>
  The deadline of a lease after a stream of requests, when its holder renews in time: every request
  is served before the deadline set by the last renewal, and the holder itself neither releases the
  lease nor asks for a new one.
\<close>

definition beat ::
  "partition_id \<Rightarrow> holder_id \<Rightarrow> lease_token \<Rightarrow> time_ns \<Rightarrow> time_ns \<Rightarrow> 'f event \<Rightarrow> time_ns" where
  "beat p h k ttl x e = (if snd (snd e) = Lease_Renew p h k then fst e + ttl else x)"

fun keeps_up ::
  "partition_id \<Rightarrow> holder_id \<Rightarrow> lease_token \<Rightarrow> time_ns \<Rightarrow> time_ns \<Rightarrow> 'f event list \<Rightarrow> bool" where
  "keeps_up p h k ttl x [] \<longleftrightarrow> True"
| "keeps_up p h k ttl x (e # es) \<longleftrightarrow>
     fst e < x \<and> snd (snd e) \<noteq> Lease_Acquire p h \<and> snd (snd e) \<noteq> Lease_Release p h k \<and>
     keeps_up p h k ttl (beat p h k ttl x e) es"

definition deadline ::
  "partition_id \<Rightarrow> holder_id \<Rightarrow> lease_token \<Rightarrow> time_ns \<Rightarrow> time_ns \<Rightarrow> 'f event list \<Rightarrow> time_ns" where
  "deadline p h k ttl x es = foldl (beat p h k ttl) x es"

lemma deadline_simps [simp]:
  "deadline p h k ttl x [] = x"
  "deadline p h k ttl x (e # es) = deadline p h k ttl (beat p h k ttl x e) es"
  by (simp_all add: deadline_def)

lemma lease_kept_step:
  assumes "active t p = Some l" "l_holder l = h" "l_token l = k" "now < l_expires_at l"
    "r \<noteq> Lease_Acquire p h" "r \<noteq> Lease_Release p h k"
  shows "active (fold lease_step (lease_call_of now ttl r) t) p =
    Some (l\<lparr>l_expires_at := beat p h k ttl (l_expires_at l) (now, io, r)\<rparr>)"
proof (cases r)
  case (Lease_Acquire q g)
  then show ?thesis using assms by (auto simp: acquire_def beat_def is_live_def Let_def)
next
  case (Lease_Renew q g m)
  then show ?thesis using assms by (auto simp: renew_def check_def beat_def is_live_def Let_def split: option.splits)
next
  case (Lease_Release q g m)
  then show ?thesis using assms by (auto simp: release_def beat_def split: option.splits)
qed (use assms in \<open>simp_all add: beat_def\<close>)

lemma renew_answered:
  assumes "active (co_leases co) p = Some l" "l_holder l = h" "l_token l = k" "now < l_expires_at l"
  shows "\<exists>l'. snd (snd (handle cd now io (Lease_Renew p h k) co d)) = R_Lease l'"
  using assms by (auto simp: renew_def check_def is_live_def Let_def)

lemma lease_kept:
  assumes "active (co_leases co) p = Some l" "l_holder l = h" "l_token l = k"
    "keeps_up p h k (co_ttl co) (l_expires_at l) es"
  shows "active (co_leases (fst (serve cd es co d))) p =
      Some (l\<lparr>l_expires_at := deadline p h k (co_ttl co) (l_expires_at l) es\<rparr>)"
    and "\<forall>(e, a) \<in> set (zip es (snd (snd (serve cd es co d)))).
      snd (snd e) = Lease_Renew p h k \<longrightarrow> (\<exists>l'. a = R_Lease l')"
proof -
  have "active (co_leases (fst (serve cd es co d))) p =
      Some (l\<lparr>l_expires_at := deadline p h k (co_ttl co) (l_expires_at l) es\<rparr>) \<and>
    (\<forall>(e, a) \<in> set (zip es (snd (snd (serve cd es co d)))).
      snd (snd e) = Lease_Renew p h k \<longrightarrow> (\<exists>l'. a = R_Lease l'))"
    using assms
  proof (induction es arbitrary: co d l)
    case Nil
    then show ?case by simp
  next
    case (Cons e es)
    let ?h = "handle cd (fst e) (fst (snd e)) (snd (snd e)) co d"
    let ?l = "l\<lparr>l_expires_at := beat p h k (co_ttl co) (l_expires_at l) e\<rparr>"
    have a: "active (co_leases (fst ?h)) p = Some ?l"
      unfolding handle_leases using Cons.prems
        lease_kept_step [of "co_leases co" p l h k "fst e" "snd (snd e)" "co_ttl co" "fst (snd e)"] by simp
    have "active (co_leases (fst (serve cd es (fst ?h) (fst (snd ?h))))) p =
        Some (?l\<lparr>l_expires_at := deadline p h k (co_ttl (fst ?h)) (l_expires_at ?l) es\<rparr>) \<and>
      (\<forall>(e, a) \<in> set (zip es (snd (snd (serve cd es (fst ?h) (fst (snd ?h)))))).
        snd (snd e) = Lease_Renew p h k \<longrightarrow> (\<exists>l'. a = R_Lease l'))"
      by (rule Cons.IH [OF a]) (use Cons.prems in simp_all)
    moreover have "\<exists>l'. snd (snd ?h) = R_Lease l'" if "snd (snd e) = Lease_Renew p h k"
      unfolding that using Cons.prems by (intro renew_answered) auto
    ultimately show ?case by (simp only: fst_serve_Cons snd_snd_serve_Cons) simp
  qed
  then show "active (co_leases (fst (serve cd es co d))) p =
      Some (l\<lparr>l_expires_at := deadline p h k (co_ttl co) (l_expires_at l) es\<rparr>)"
    "\<forall>(e, a) \<in> set (zip es (snd (snd (serve cd es co d)))).
      snd (snd e) = Lease_Renew p h k \<longrightarrow> (\<exists>l'. a = R_Lease l')" by blast+
qed

text \<open>
  A holder that renews before each deadline is never fenced, whatever the other workers ask for:
  every one of its renewals is granted, and a commit before the last deadline is accepted and
  raises the watermark.
\<close>

theorem heartbeats_keep_lease:
  assumes "active (co_leases co) p = Some l" "l_holder l = h" "l_token l = k"
    and "keeps_up p h k (co_ttl co) (l_expires_at l) es"
    and "serve cd es co d = (co', d', as)"
    and "now < deadline p h k (co_ttl co) (l_expires_at l) es"
  shows "(\<forall>(e, a) \<in> set (zip es as). snd (snd e) = Lease_Renew p h k \<longrightarrow> (\<exists>l'. a = R_Lease l')) \<and>
    (\<exists>co'' d''. handle cd now Io_Ok (Manifest_Commit p h k w) co' d' = (co'', d'', R_Ok) \<and>
       watermark co'' p = max (watermark co' p) w)"
proof
  show "\<forall>(e, a) \<in> set (zip es as). snd (snd e) = Lease_Renew p h k \<longrightarrow> (\<exists>l'. a = R_Lease l')"
    using lease_kept(2) [OF assms(1-4), of cd d] assms(5) by simp
  have "active (co_leases co') p = Some (l\<lparr>l_expires_at := deadline p h k (co_ttl co) (l_expires_at l) es\<rparr>)"
    using lease_kept(1) [OF assms(1-4), of cd d] assms(5) by simp
  then have "check p h k now (co_leases co') = Inr ()"
    using assms(2,3,6) by (simp add: check_def is_live_def)
  then show "\<exists>co'' d''. handle cd now Io_Ok (Manifest_Commit p h k w) co' d' = (co'', d'', R_Ok) \<and>
       watermark co'' p = max (watermark co' p) w"
    by (auto simp: persisted_def persist_def Let_def watermark_def map_of_bt_insert counter_def
        split: option.splits)
qed

section \<open>Restarts\<close>

text \<open>What an acknowledgement promises, and a later state that keeps every promise.\<close>

datatype ack =
    Ack_Register partition_id partition_location
  | Ack_Commit partition_id "64 word"
  | Ack_Entity string "partition_id list"

fun acks_of :: "request \<Rightarrow> response \<Rightarrow> ack list" where
  "acks_of (Catalog_Register m) R_Ok = [Ack_Register (pm_id m) (pm_location m)]"
| "acks_of (Manifest_Commit p h k w) R_Ok = [Ack_Commit p w]"
| "acks_of (Record_Entity_Partitions e ps) R_Ok = [Ack_Entity e ps]"
| "acks_of _ _ = []"

definition entity_list :: "persisted_state \<Rightarrow> string \<Rightarrow> partition_id list" where
  "entity_list st e = (case map_of (ps_entity_partitions st) e of None \<Rightarrow> [] | Some ps \<Rightarrow> ps)"

fun keeps :: "persisted_state \<Rightarrow> ack \<Rightarrow> bool" where
  "keeps st (Ack_Register i loc) \<longleftrightarrow>
     (case catalog_get (ps_catalog st) i of None \<Rightarrow> False | Some m \<Rightarrow> pm_location m = loc)"
| "keeps st (Ack_Commit p w) \<longleftrightarrow> w \<le> counter (map_of (ps_watermarks st)) p"
| "keeps st (Ack_Entity e ps) \<longleftrightarrow> set ps \<subseteq> set (entity_list st e)"

definition state_le :: "persisted_state \<Rightarrow> persisted_state \<Rightarrow> bool" where
  "state_le s s' \<longleftrightarrow> (\<forall>a. keeps s a \<longrightarrow> keeps s' a)"

record 'f cluster =
  cl_co :: coordinator
  cl_dir :: "'f state_dir"
  cl_acks :: "ack list"

inductive cluster_step :: "'f state_codec \<Rightarrow> string \<Rightarrow> 'f cluster \<Rightarrow> 'f cluster \<Rightarrow> bool" for cd path where
  request: "handle cd now io r (cl_co s) (cl_dir s) = (co', d', a) \<Longrightarrow>
    cluster_step cd path s (s\<lparr>cl_co := co', cl_dir := d', cl_acks := cl_acks s @ acks_of r a\<rparr>)"
| restart: "co_open cd path (cl_dir s) = Some co' \<Longrightarrow>
    cluster_step cd path s (s\<lparr>cl_co := with_ttl ttl co'\<rparr>)"

inductive_cases cluster_stepE: "cluster_step cd path s s'"

lemma state_le_refl [simp]: "state_le s s"
  by (simp add: state_le_def)

lemma state_le_trans: "state_le s t \<Longrightarrow> state_le t u \<Longrightarrow> state_le s u"
  by (simp add: state_le_def)

lemma find_filter: "find P xs = (case filter P xs of [] \<Rightarrow> None | x # _ \<Rightarrow> Some x)"
  by (induction xs) simp_all

lemma find_sort_key: "find (\<lambda>p. f p = k) (sort_key f xs) = find (\<lambda>p. f p = k) xs"
proof -
  have "sorted (map f (filter (\<lambda>p. f p = k) xs))" by (induction xs) auto
  then show ?thesis by (simp add: find_filter filter_sort_key sort_key_id)
qed

lemma find_append: "find P (xs @ ys) = (case find P xs of None \<Rightarrow> find P ys | Some x \<Rightarrow> Some x)"
  by (induction xs) auto

lemma register_get:
  "catalog_get (fst (catalog_register m c)) i =
     (case catalog_get c i of Some x \<Rightarrow> Some x
      | None \<Rightarrow> if i = pm_id m then Some m else None)"
  by (auto simp: catalog_get_def catalog_register_def find_sort_key find_append split: option.splits)

lemma register_Inr: "catalog_register m c = (c', Inr u) \<Longrightarrow>
    \<exists>x. catalog_get c' (pm_id m) = Some x \<and> pm_location x = pm_location m"
  by (auto simp: catalog_get_def catalog_register_def find_sort_key find_append
      split: option.splits if_splits)

lemma set_fold_add: "set (fold (\<lambda>p s. if p \<in> set s then s else s @ [p]) ps s) = set s \<union> set ps"
  by (induction ps arbitrary: s) auto

lemma set_add_partitions [simp]: "set (add_partitions ps s) = set s \<union> set ps"
  by (simp add: add_partitions_def set_fold_add)

lemma counter_upd: "counter (m(p \<mapsto> v)) q = (if q = p then v else counter m q)"
  by (simp add: counter_def)


lemma file_stem_tmp: "file_stem (n @ ''.json.tmp'') = n @ ''.json''"
  by (simp add: file_stem_def)

lemma with_extension_differs: "with_extension n ''json.tmp'' \<noteq> n"
proof
  let ?s = "file_stem (file_name n)"
  assume "with_extension n ''json.tmp'' = n"
  then have "dir_name n @ ?s @ ''.json.tmp'' = dir_name n @ file_name n"
    by (simp add: with_extension_def dir_name_file_name)
  then have "?s @ ''.json.tmp'' = file_name n" by simp
  then have "?s = ?s @ ''.json''" using file_stem_tmp [of ?s] by simp
  then show False by simp
qed

lemma mem_state_leases [simp]: "mem_state (co\<lparr>co_leases := t\<rparr>) = mem_state co"
  by (simp add: mem_state_def)

lemma mem_state_sel [simp]:
  "ps_catalog (mem_state co) = co_catalog co"
  "counter (map_of (ps_watermarks (mem_state co))) p = watermark co p"
  "entity_list (mem_state co) e = partitions_for_entity co e"
  by (simp_all add: mem_state_def watermark_def partitions_for_entity_def entity_list_def)

lemma state_le_mem:
  "(\<And>i loc. keeps (mem_state co) (Ack_Register i loc) \<Longrightarrow> keeps (mem_state co') (Ack_Register i loc)) \<Longrightarrow>
   (\<And>p. watermark co p \<le> watermark co' p) \<Longrightarrow>
   (\<And>e. set (partitions_for_entity co e) \<subseteq> set (partitions_for_entity co' e)) \<Longrightarrow>
   state_le (mem_state co) (mem_state co')"
  unfolding state_le_def
proof (intro allI impI)
  fix a
  assume r: "\<And>i loc. keeps (mem_state co) (Ack_Register i loc) \<Longrightarrow> keeps (mem_state co') (Ack_Register i loc)"
    and w: "\<And>p. watermark co p \<le> watermark co' p"
    and e: "\<And>e. set (partitions_for_entity co e) \<subseteq> set (partitions_for_entity co' e)"
    and k: "keeps (mem_state co) a"
  show "keeps (mem_state co') a"
  proof (cases a)
    case (Ack_Commit p x)
    with k w [of p] show ?thesis by (auto intro: order_trans)
  next
    case (Ack_Entity x ps)
    with k e [of x] show ?thesis by auto
  qed (use r k in simp)
qed

lemma register_state_le: "state_le (mem_state co) (mem_state (co\<lparr>co_catalog := fst (catalog_register m (co_catalog co))\<rparr>))"
  by (rule state_le_mem)
    (auto simp: register_get watermark_def partitions_for_entity_def split: option.splits)

lemma commit_state_le:
  "state_le (mem_state co) (mem_state (co\<lparr>co_watermarks := bt_insert p (max (watermark co p) w) (co_watermarks co)\<rparr>))"
  by (rule state_le_mem)
    (auto simp: watermark_def partitions_for_entity_def map_of_bt_insert counter_def split: option.splits)

lemma entity_state_le:
  "state_le (mem_state co) (mem_state (co\<lparr>co_entity_partitions :=
     bt_insert e (add_partitions ps (partitions_for_entity co e)) (co_entity_partitions co)\<rparr>))"
  by (rule state_le_mem)
    (auto simp: watermark_def partitions_for_entity_def map_of_bt_insert split: option.splits)

lemma persisted_cases:
  assumes "persisted cd io co d R_Ok = (co', d', a)" "co_state_path co = Some path"
  obtains (written) "co' = co" "a = R_Ok" "d' path = Some (sc_enc cd (mem_state co))"
  | (failed) "co' = co" "a = R_Error Persistence_Failed" "d' path = d path"
  using assms with_extension_differs [of path]
  by (auto simp: persisted_def persist_def Let_def split: io_outcome.splits)

text \<open>
  A request leaves the file alone and promises nothing, or leaves it holding exactly the state in
  memory, which keeps what the request promised; what memory held before it still holds.
\<close>

lemma handle_effect:
  assumes h: "handle cd now io r co d = (co', d', a)" and path: "co_state_path co = Some path"
  shows "state_le (mem_state co) (mem_state co')"
    and "(d' path = d path \<and> acks_of r a = []) \<or>
      (d' path = Some (sc_enc cd (mem_state co')) \<and> (\<forall>x \<in> set (acks_of r a). keeps (mem_state co') x))"
proof -
  have "state_le (mem_state co) (mem_state co') \<and> ((d' path = d path \<and> acks_of r a = []) \<or>
      (d' path = Some (sc_enc cd (mem_state co')) \<and> (\<forall>x \<in> set (acks_of r a). keeps (mem_state co') x)))"
  proof (cases r)
    case (Catalog_Register m)
    show ?thesis
    proof (cases "catalog_register m (co_catalog co)")
      case (Pair c res)
      have le: "state_le (mem_state co) (mem_state (co\<lparr>co_catalog := c\<rparr>))"
        using register_state_le [of co m] Pair by simp
      show ?thesis
      proof (cases res)
        case (Inl e)
        then show ?thesis using h Catalog_Register Pair le by auto
      next
        case (Inr u)
        then have p: "persisted cd io (co\<lparr>co_catalog := c\<rparr>) d R_Ok = (co', d', a)"
          using h Catalog_Register Pair by simp
        have k: "keeps (mem_state (co\<lparr>co_catalog := c\<rparr>)) (Ack_Register (pm_id m) (pm_location m))"
          using register_Inr [of m "co_catalog co" c] Pair Inr by auto
        show ?thesis
          by (rule persisted_cases [OF p]) (use path le k Catalog_Register in auto)
      qed
    qed
  next
    case (Manifest_Commit p g k w)
    show ?thesis
    proof (cases "check p g k now (co_leases co)")
      case (Inl e)
      then show ?thesis using h Manifest_Commit by auto
    next
      case (Inr u)
      let ?c = "co\<lparr>co_watermarks := bt_insert p (max (watermark co p) w) (co_watermarks co)\<rparr>"
      have p: "persisted cd io ?c d R_Ok = (co', d', a)"
        using h Manifest_Commit Inr by simp
      have k: "keeps (mem_state ?c) (Ack_Commit p w)"
        by (simp add: watermark_def map_of_bt_insert counter_upd)
      show ?thesis
        by (rule persisted_cases [OF p]) (use path commit_state_le [of co p w] k Manifest_Commit in auto)
    qed
  next
    case (Record_Entity_Partitions e ps)
    let ?c = "co\<lparr>co_entity_partitions :=
      bt_insert e (add_partitions ps (partitions_for_entity co e)) (co_entity_partitions co)\<rparr>"
    have p: "persisted cd io ?c d R_Ok = (co', d', a)"
      using h Record_Entity_Partitions by simp
    have k: "keeps (mem_state ?c) (Ack_Entity e ps)"
      by (simp add: partitions_for_entity_def map_of_bt_insert)
    show ?thesis
      by (rule persisted_cases [OF p]) (use path entity_state_le [of co e ps] k Record_Entity_Partitions in auto)
  qed (use h in \<open>auto split: prod.splits sum.splits\<close>)
  then show "state_le (mem_state co) (mem_state co')"
    "(d' path = d path \<and> acks_of r a = []) \<or>
      (d' path = Some (sc_enc cd (mem_state co')) \<and> (\<forall>x \<in> set (acks_of r a). keeps (mem_state co') x))"
    by blast+
qed

definition state_codec_ok :: "'f state_codec \<Rightarrow> bool" where
  "state_codec_ok cd \<longleftrightarrow> (\<forall>st. sc_dec cd (sc_enc cd st) = Some st)"

text \<open>
  Between two steps the file can be opened, and holds a state that keeps every promise and that
  memory has only added to.
\<close>

definition cluster_inv :: "'f state_codec \<Rightarrow> string \<Rightarrow> 'f cluster \<Rightarrow> bool" where
  "cluster_inv cd path s \<longleftrightarrow> co_state_path (cl_co s) = Some path \<and>
     (\<exists>co. co_open cd path (cl_dir s) = Some co \<and> state_le (mem_state co) (mem_state (cl_co s)) \<and>
       (\<forall>a \<in> set (cl_acks s). keeps (mem_state co) a))"

lemma co_open_state:
  "co_open cd path d = Some co \<longleftrightarrow>
     (\<exists>st. (case d path of None \<Rightarrow> Some default_state | Some f \<Rightarrow> sc_dec cd f) = Some st \<and>
       co = \<lparr>co_state_path = Some path, co_catalog = ps_catalog st, co_leases = empty_lease_table,
           co_watermarks = ps_watermarks st, co_entity_partitions = ps_entity_partitions st,
           co_ttl = LEASE_TTL\<rparr>)"
  by (auto simp: co_open_def split: option.splits)

lemma co_open_cong: "d path = d' path \<Longrightarrow> co_open cd path d = co_open cd path d'"
  by (simp add: co_open_def)

lemma co_open_written:
  assumes "state_codec_ok cd" "d path = Some (sc_enc cd (mem_state co))"
  shows "\<exists>co'. co_open cd path d = Some co' \<and> mem_state co' = mem_state co"
  using assms by (simp add: co_open_state state_codec_ok_def mem_state_def)

lemma cluster_inv_step:
  assumes "cluster_inv cd path s" "cluster_step cd path s s'" "state_codec_ok cd"
  shows "cluster_inv cd path s'"
  using assms(2)
proof (cases rule: cluster_step.cases)
  case (request now io r co' d' a)
  obtain co where path: "co_state_path (cl_co s) = Some path"
    and co: "co_open cd path (cl_dir s) = Some co" "state_le (mem_state co) (mem_state (cl_co s))"
      "\<forall>a \<in> set (cl_acks s). keeps (mem_state co) a"
    using assms(1) by (auto simp: cluster_inv_def)
  note eff = handle_effect [OF request(2) path]
  have path': "co_state_path co' = Some path"
    using handle_path [of cd now io r "cl_co s" "cl_dir s"] request(2) path by simp
  have le: "state_le (mem_state co) (mem_state co')" using state_le_trans [OF co(2) eff(1)] .
  from eff(2) show ?thesis
  proof (elim disjE conjE)
    assume "d' path = cl_dir s path" "acks_of r a = []"
    then show ?thesis
      using co co_open_cong [of "cl_dir s" path d' cd] le path' request(1) by (auto simp: cluster_inv_def)
  next
    assume w: "d' path = Some (sc_enc cd (mem_state co'))" "\<forall>x \<in> set (acks_of r a). keeps (mem_state co') x"
    then obtain co2 where co2: "co_open cd path d' = Some co2" "mem_state co2 = mem_state co'"
      using co_open_written [OF assms(3), of d' path co'] by blast
    have "\<forall>x \<in> set (cl_acks s). keeps (mem_state co') x" using co(3) le by (auto simp: state_le_def)
    then show ?thesis using w co2 path' request(1) by (auto simp: cluster_inv_def)
  qed
next
  case (restart co' ttl)
  moreover have "mem_state (with_ttl ttl co') = mem_state co'" "co_state_path (with_ttl ttl co') = co_state_path co'"
    by (simp_all add: with_ttl_def mem_state_def)
  moreover have "co_state_path co' = Some path" using restart(2) by (auto simp: co_open_state)
  ultimately show ?thesis using assms(1) by (auto simp: cluster_inv_def)
qed

text \<open>
  C24: Whatever is acknowledged stays true: after any sequence of requests, failed or torn writes,
  crashes and restarts, every registration, commit and entity record that was answered with Ok is
  kept by the running coordinator, the state file opens, and what it opens to keeps it too.
\<close>

theorem acknowledged_is_durable:
  assumes "state_codec_ok cd"
    and "co_open cd path d = Some co"
    and "(cluster_step cd path)\<^sup>*\<^sup>* \<lparr>cl_co = with_ttl ttl co, cl_dir = d, cl_acks = []\<rparr> s"
    and "a \<in> set (cl_acks s)"
  shows "keeps (mem_state (cl_co s)) a \<and>
    (\<exists>co'. co_open cd path (cl_dir s) = Some co' \<and> keeps (mem_state co') a)"
proof -
  have "cluster_inv cd path s"
    using assms(3)
  proof (induction rule: rtranclp_induct)
    case base
    have "co_state_path co = Some path" using assms(2) by (auto simp: co_open_state)
    then have "co_state_path (with_ttl ttl co) = Some path" "mem_state (with_ttl ttl co) = mem_state co"
      by (simp_all add: with_ttl_def mem_state_def)
    then show ?case using assms(2) by (simp add: cluster_inv_def)
  next
    case (step s s')
    show ?case by (rule cluster_inv_step [OF step.IH step.hyps(2) assms(1)])
  qed
  then obtain co' where "co_open cd path (cl_dir s) = Some co'"
    "state_le (mem_state co') (mem_state (cl_co s))" "keeps (mem_state co') a"
    using assms(4) unfolding cluster_inv_def by blast
  then show ?thesis unfolding state_le_def by blast
qed


section \<open>Well-formed state\<close>

text \<open>
  The catalog is sorted by id and holds no id twice, the maps have one entry per key, and the
  partitions of an entity are sorted and listed once.
\<close>

definition state_ok :: "persisted_state \<Rightarrow> bool" where
  "state_ok st \<longleftrightarrow>
     sorted_wrt (<) (map pm_id (c_partitions (ps_catalog st))) \<and>
     bt_sorted (ps_watermarks st) \<and> bt_sorted (ps_entity_partitions st) \<and>
     (\<forall>(e, ps) \<in> set (ps_entity_partitions st). sorted_wrt (<) ps)"

lemma register_sorted:
  assumes "sorted_wrt (<) (map pm_id (c_partitions c))"
  shows "sorted_wrt (<) (map pm_id (c_partitions (fst (catalog_register m c))))"
proof (cases "find (\<lambda>p. pm_id p = pm_id m) (c_partitions c)")
  case None
  have d: "distinct (map pm_id (c_partitions c @ [m]))"
    using assms None by (auto simp: strict_sorted_iff find_None_iff)
  have "mset (map pm_id (sort_key pm_id (c_partitions c @ [m]))) = mset (map pm_id (c_partitions c @ [m]))"
    by (simp only: mset_map mset_sort)
  then have "distinct (map pm_id (sort_key pm_id (c_partitions c @ [m])))"
    using d mset_eq_imp_distinct_iff by blast
  moreover have "c_partitions (fst (catalog_register m c)) = sort_key pm_id (c_partitions c @ [m])"
    using None by (simp add: catalog_register_def)
  ultimately show ?thesis by (simp only: strict_sorted_iff sorted_sort_key simp_thms)
next
  case (Some e)
  then show ?thesis using assms by (simp add: catalog_register_def)
qed

lemma distinct_fold_add: "distinct s \<Longrightarrow> distinct (fold (\<lambda>p s. if p \<in> set s then s else s @ [p]) ps s)"
  by (induction ps arbitrary: s) auto

lemma add_partitions_sorted: "sorted_wrt (<) s \<Longrightarrow> sorted_wrt (<) (add_partitions ps s)"
  by (simp add: add_partitions_def strict_sorted_iff distinct_fold_add)

lemma partitions_sorted:
  "state_ok (mem_state co) \<Longrightarrow> sorted_wrt (<) (partitions_for_entity co e)"
  by (auto simp: state_ok_def mem_state_def partitions_for_entity_def dest: map_of_SomeD split: option.splits)

lemma entity_entry_ok:
  assumes "state_ok (mem_state co)"
  shows "state_ok (mem_state (co\<lparr>co_entity_partitions :=
    bt_insert e (add_partitions ps (partitions_for_entity co e)) (co_entity_partitions co)\<rparr>))"
proof -
  have "sorted_wrt (<) (add_partitions ps (partitions_for_entity co e))"
    using partitions_sorted [OF assms] by (rule add_partitions_sorted)
  with assms show ?thesis by (auto simp: state_ok_def mem_state_def set_bt_insert)
qed

lemma handle_state_ok:
  assumes "state_ok (mem_state co)"
  shows "state_ok (mem_state (fst (handle cd now io r co d)))"
proof (cases r)
  case (Catalog_Register m)
  have "state_ok (mem_state (co\<lparr>co_catalog := fst (catalog_register m (co_catalog co))\<rparr>))"
    using assms register_sorted [of "co_catalog co" m] by (simp add: state_ok_def mem_state_def)
  then show ?thesis using Catalog_Register by (auto split: prod.splits sum.splits)
next
  case (Manifest_Commit p h k w)
  then show ?thesis using assms by (auto simp: state_ok_def mem_state_def split: sum.splits)
next
  case (Record_Entity_Partitions e ps)
  then show ?thesis using entity_entry_ok [OF assms] by simp
qed (use assms in \<open>simp_all split: prod.splits sum.splits\<close>)

text \<open>
  C39: Starting without a state file, the state in memory and the one every restart reads stay
  well-formed through any requests, failing writes and restarts: partition ids sorted and unique,
  one watermark per partition, the partitions of each entity sorted and listed once.
\<close>

theorem cluster_state_well_formed:
  assumes "state_codec_ok cd"
    and "d path = None"
    and "co_open cd path d = Some co"
    and "(cluster_step cd path)\<^sup>*\<^sup>* \<lparr>cl_co = with_ttl ttl co, cl_dir = d, cl_acks = []\<rparr> s"
  shows "state_ok (mem_state (cl_co s)) \<and>
    (\<exists>co'. co_open cd path (cl_dir s) = Some co' \<and> state_ok (mem_state co'))"
proof -
  have open_ok: "state_ok (mem_state (with_ttl t c)) = state_ok (mem_state c)" for t c
    by (simp add: with_ttl_def mem_state_def)
  have "cluster_inv cd path s \<and> state_ok (mem_state (cl_co s)) \<and>
    (\<exists>co'. co_open cd path (cl_dir s) = Some co' \<and> state_ok (mem_state co'))"
    using assms(4)
  proof (induction rule: rtranclp_induct)
    case base
    have p: "co_state_path co = Some path" and ok: "state_ok (mem_state co)"
      using assms(2,3) by (auto simp: co_open_state state_ok_def mem_state_def default_state_def)
    then show ?case using assms(3) open_ok [of ttl co]
      by (simp add: cluster_inv_def with_ttl_def mem_state_def)
  next
    case (step s s')
    then have inv: "cluster_inv cd path s'" and mem: "state_ok (mem_state (cl_co s))"
      using cluster_inv_step assms(1) by blast+
    from step.IH obtain co' where disk: "co_open cd path (cl_dir s) = Some co'" "state_ok (mem_state co')"
      by blast
    from step.hyps(2) show ?case
    proof (cases rule: cluster_step.cases)
      case (request now io r co2 d' a)
      have mem': "state_ok (mem_state co2)"
        using handle_state_ok [OF mem, of cd now io r "cl_dir s"] request(2) by simp
      have path: "co_state_path (cl_co s) = Some path" using step.IH by (simp add: cluster_inv_def)
      have "\<exists>co'. co_open cd path d' = Some co' \<and> state_ok (mem_state co')"
        using handle_effect(2) [OF request(2) path] co_open_cong [of d' path "cl_dir s" cd] disk
          co_open_written [OF assms(1), of d' path co2] mem' by metis
      then show ?thesis using inv mem' request(1) by simp
    next
      case (restart c t)
      then show ?thesis using inv disk open_ok [of t c] by simp
    qed
  qed
  then show ?thesis by blast
qed


section \<open>Concrete runs\<close>

text \<open>A file whose contents are the state itself.\<close>

definition demo_state_codec :: "persisted_state state_codec" where
  "demo_state_codec = \<lparr>sc_enc = (\<lambda>st. st), sc_dec = Some\<rparr>"

lemma demo_state_codec_ok: "state_codec_ok demo_state_codec"
  by (simp add: state_codec_ok_def demo_state_codec_def)

definition co_demo :: coordinator where
  "co_demo = with_ttl 30 (the (co_open demo_state_codec ''c.json'' Map.empty))"

lemma co_demo_simps [simp]:
  "co_leases co_demo = empty_lease_table" "co_ttl co_demo = 30" "co_state_path co_demo = Some ''c.json''"
  "co_watermarks co_demo = []" "co_catalog co_demo = \<lparr>c_partitions = []\<rparr>" "co_entity_partitions co_demo = []"
  by (simp_all add: co_demo_def with_ttl_def co_open_def default_state_def)

definition lease_a :: lease where
  "lease_a = \<lparr>l_partition = ''p'', l_holder = ''a'', l_token = 1, l_expires_at = 30\<rparr>"

definition co_a :: coordinator where
  "co_a = co_demo\<lparr>co_leases := \<lparr>active = [''p'' \<mapsto> lease_a], next_token = [''p'' \<mapsto> 1]\<rparr>\<rparr>"

lemma co_a_simps [simp]:
  "co_leases co_a = \<lparr>active = [''p'' \<mapsto> lease_a], next_token = [''p'' \<mapsto> 1]\<rparr>"
  "co_ttl co_a = 30" "co_state_path co_a = Some ''c.json''" "co_watermarks co_a = []"
  by (simp_all add: co_a_def)

lemma grant_a: "handle cd 0 io (Lease_Acquire ''p'' ''a'') co_demo d = (co_a, d, R_Lease lease_a)"
  by (simp add: co_a_def lease_a_def acquire_def empty_lease_table_def counter_def Let_def)

lemma grant_b: "handle cd 31 io (Lease_Acquire ''p'' ''b'') co_a d =
    (co_a\<lparr>co_leases := \<lparr>active = [''p'' \<mapsto> \<lparr>l_partition = ''p'', l_holder = ''b'', l_token = 2, l_expires_at = 61\<rparr>],
        next_token = [''p'' \<mapsto> 2]\<rparr>\<rparr>, d,
      R_Lease \<lparr>l_partition = ''p'', l_holder = ''b'', l_token = 2, l_expires_at = 61\<rparr>)"
  by (simp add: acquire_def lease_a_def is_live_def counter_def Let_def)

text \<open>Worker b takes over an expired lease; worker a's commit under token 1 is refused.\<close>

lemma takeover_fences_witness:
  "\<exists>e co2 d2. handle demo_state_codec 32 Io_Ok (Manifest_Commit ''p'' ''a'' 1 7) co2 d2 = (co2, d2, R_Lease_Error e)"
proof -
  have ok: "table_ok (co_leases co_a)" by (simp add: table_ok_def lease_a_def)
  show ?thesis
    using takeover_fences [where cd = demo_state_codec and es = "[]" and k = 1 and w = 7 and h' = "''a''"
        and now' = 32 and io' = Io_Ok, OF ok grant_b [of demo_state_codec Io_Ok Map.empty]]
    by (simp add: last_token_def counter_def del: handle.simps) blast
qed

lemma grants_increase_witness:
  "sorted_wrt (<) (granted ''p'' [(0, Io_Ok, Lease_Acquire ''p'' ''a''), (31, Io_Ok, Lease_Acquire ''p'' ''b'')]
     (snd (snd (serve demo_state_codec
       [(0, Io_Ok, Lease_Acquire ''p'' ''a''), (31, Io_Ok, Lease_Acquire ''p'' ''b'')] co_demo Map.empty)))) \<and>
   granted ''p'' [(0 :: int, Io_Ok :: persisted_state io_outcome, Lease_Acquire ''p'' ''a''), (31, Io_Ok, Lease_Acquire ''p'' ''b'')]
     [R_Lease lease_a, R_Lease \<lparr>l_partition = ''p'', l_holder = ''b'', l_token = 2, l_expires_at = 61\<rparr>] = [1, 2]"
proof -
  have "last_token (co_leases co_demo) ''p'' + length [(0 :: int, Io_Ok :: persisted_state io_outcome,
      Lease_Acquire ''p'' ''a''), (31, Io_Ok, Lease_Acquire ''p'' ''b'')] < 2 ^ 64"
    by (simp add: last_token_def counter_def empty_lease_table_def)
  from grants_increase [OF this, of demo_state_codec Map.empty] show ?thesis
    by (simp add: granted_def granted1_def lease_a_def del: handle.simps serve.simps)
qed

lemma heartbeats_keep_lease_witness:
  "(\<exists>co'' d''. handle demo_state_codec 44 Io_Ok (Manifest_Commit ''p'' ''a'' 1 7)
      (fst (serve demo_state_codec [(10, Io_Ok, Lease_Acquire ''p'' ''b''), (20, Io_Ok, Lease_Renew ''p'' ''a'' 1)]
        co_a Map.empty)) Map.empty = (co'', d'', R_Ok) \<and>
     watermark co'' ''p'' = 7)"
proof -
  let ?es = "[(10, Io_Ok, Lease_Acquire ''p'' ''b''), (20, Io_Ok, Lease_Renew ''p'' ''a'' 1)]
    :: persisted_state event list"
  have act: "active (co_leases co_a) ''p'' = Some lease_a" by simp
  have hold: "l_holder lease_a = ''a''" "l_token lease_a = 1" by (simp_all add: lease_a_def)
  have ku: "keeps_up ''p'' ''a'' 1 (co_ttl co_a) (l_expires_at lease_a) ?es"
    by (simp add: lease_a_def beat_def)
  have dl: "44 < deadline ''p'' ''a'' 1 (co_ttl co_a) (l_expires_at lease_a) ?es"
    by (simp add: lease_a_def beat_def)
  obtain co' d' as where s: "serve demo_state_codec ?es co_a Map.empty = (co', d', as)"
    by (cases "serve demo_state_codec ?es co_a Map.empty") auto
  have e: "d' = Map.empty" "watermark co' ''p'' = 0"
    using s by (auto simp: acquire_def lease_a_def is_live_def renew_def check_def Let_def watermark_def
        counter_def)
  show ?thesis
    using heartbeats_keep_lease [OF act hold ku s dl, where w = 7] s e by simp
qed

text \<open>A commit that is answered with Ok, then a crash in the middle of the next write and a restart.\<close>

definition commit_dir :: "persisted_state state_dir" where
  "commit_dir = [''c.json'' \<mapsto> mem_state (co_a\<lparr>co_watermarks := [(''p'', 7)]\<rparr>)]"

lemma commit_a: "handle demo_state_codec 1 Io_Ok (Manifest_Commit ''p'' ''a'' 1 7) co_a Map.empty =
    (co_a\<lparr>co_watermarks := [(''p'', 7)]\<rparr>, commit_dir, R_Ok)"
  by (simp add: check_def lease_a_def is_live_def persisted_def persist_def demo_state_codec_def commit_dir_def
      watermark_def counter_def Let_def mem_state_def co_a_def fun_eq_iff)

lemma cluster_stepI:
  "handle cd now io r co d = (co', d', a) \<Longrightarrow> acks' = acks @ acks_of r a \<Longrightarrow>
    cluster_step cd path \<lparr>cl_co = co, cl_dir = d, cl_acks = acks\<rparr> \<lparr>cl_co = co', cl_dir = d', cl_acks = acks'\<rparr>"
  using cluster_step.request [of cd now io r "\<lparr>cl_co = co, cl_dir = d, cl_acks = acks\<rparr>"] by simp

lemma demo_run: "(cluster_step demo_state_codec ''c.json'')\<^sup>*\<^sup>*
    \<lparr>cl_co = with_ttl 30 (the (co_open demo_state_codec ''c.json'' Map.empty)), cl_dir = Map.empty, cl_acks = []\<rparr>
    \<lparr>cl_co = co_a\<lparr>co_watermarks := [(''p'', 7)]\<rparr>, cl_dir = commit_dir, cl_acks = [Ack_Commit ''p'' 7]\<rparr>"
proof -
  have "cluster_step demo_state_codec ''c.json''
      \<lparr>cl_co = co_demo, cl_dir = Map.empty, cl_acks = []\<rparr> \<lparr>cl_co = co_a, cl_dir = Map.empty, cl_acks = []\<rparr>"
    by (rule cluster_stepI [OF grant_a]) simp
  moreover have "cluster_step demo_state_codec ''c.json'' \<lparr>cl_co = co_a, cl_dir = Map.empty, cl_acks = []\<rparr>
    \<lparr>cl_co = co_a\<lparr>co_watermarks := [(''p'', 7)]\<rparr>, cl_dir = commit_dir, cl_acks = [Ack_Commit ''p'' 7]\<rparr>"
    by (rule cluster_stepI [OF commit_a]) simp
  ultimately show ?thesis unfolding co_demo_def by (rule converse_rtranclp_into_rtranclp [OF _ r_into_rtranclp])
qed

lemma co_open_demo: "co_open demo_state_codec ''c.json'' Map.empty = Some (the (co_open demo_state_codec ''c.json'' Map.empty))"
  by (simp add: co_open_def)

lemma acknowledged_is_durable_witness:
  "\<exists>co'. co_open demo_state_codec ''c.json'' commit_dir = Some co' \<and> 7 \<le> watermark co' ''p''"
  using acknowledged_is_durable [OF demo_state_codec_ok co_open_demo demo_run, of "Ack_Commit ''p'' 7"] by auto

lemma cluster_state_well_formed_witness:
  "\<exists>co'. co_open demo_state_codec ''c.json'' commit_dir = Some co' \<and> state_ok (mem_state co')"
  using cluster_state_well_formed [OF demo_state_codec_ok _ co_open_demo demo_run] by auto

text \<open>
  Leases are not part of the state file, and neither is the token counter: after a restart the
  coordinator hands the same worker the same token again, so a commit by a run of that worker that
  was fenced before the restart is accepted and moves the watermark.
\<close>

theorem restart_reissues_token:
  "\<exists>co1 d1 co2 co3 d3.
     serve demo_state_codec
       [(0, Io_Ok, Lease_Acquire ''p'' ''a''), (31, Io_Ok, Lease_Acquire ''p'' ''b''),
        (32, Io_Ok, Manifest_Commit ''p'' ''a'' 1 7)] co_demo Map.empty
       = (co1, d1, [R_Lease lease_a,
           R_Lease \<lparr>l_partition = ''p'', l_holder = ''b'', l_token = 2, l_expires_at = 61\<rparr>,
           R_Lease_Error (Fenced ''p'')]) \<and>
     co_open demo_state_codec ''c.json'' d1 = Some co2 \<and>
     serve demo_state_codec
       [(40, Io_Ok, Lease_Acquire ''p'' ''a''), (41, Io_Ok, Manifest_Commit ''p'' ''a'' 1 7)]
       (with_ttl 30 co2) d1
       = (co3, d3, [R_Lease (lease_a\<lparr>l_expires_at := 70\<rparr>), R_Ok]) \<and>
     watermark co3 ''p'' = 7"
proof -
  have first: "serve demo_state_codec
       [(0, Io_Ok, Lease_Acquire ''p'' ''a''), (31, Io_Ok, Lease_Acquire ''p'' ''b''),
        (32, Io_Ok, Manifest_Commit ''p'' ''a'' 1 7)] co_demo Map.empty
       = (fst (handle demo_state_codec 31 Io_Ok (Lease_Acquire ''p'' ''b'') co_a Map.empty), Map.empty, [R_Lease lease_a,
           R_Lease \<lparr>l_partition = ''p'', l_holder = ''b'', l_token = 2, l_expires_at = 61\<rparr>,
           R_Lease_Error (Fenced ''p'')])"
    unfolding serve.simps grant_a prod.case grant_b fst_conv by (simp add: check_def)
  have reopened: "with_ttl 30 (the (co_open demo_state_codec ''c.json'' Map.empty)) = co_demo"
    by (simp add: co_demo_def)
  define co_a' where "co_a' = co_demo\<lparr>co_leases :=
    \<lparr>active = [''p'' \<mapsto> lease_a\<lparr>l_expires_at := 70\<rparr>], next_token = [''p'' \<mapsto> 1]\<rparr>\<rparr>"
  have a: "handle demo_state_codec 40 Io_Ok (Lease_Acquire ''p'' ''a'') co_demo d =
      (co_a', d, R_Lease (lease_a\<lparr>l_expires_at := 70\<rparr>))" for d
    by (simp add: co_a'_def lease_a_def acquire_def empty_lease_table_def counter_def Let_def)
  have c: "\<exists>d3. handle demo_state_codec 41 Io_Ok (Manifest_Commit ''p'' ''a'' 1 7) co_a' d =
      (co_a'\<lparr>co_watermarks := [(''p'', 7)]\<rparr>, d3, R_Ok)" for d
    by (simp add: check_def lease_a_def is_live_def persisted_def persist_def co_a'_def watermark_def
        counter_def Let_def)
  obtain d3 where d3: "handle demo_state_codec 41 Io_Ok (Manifest_Commit ''p'' ''a'' 1 7) co_a' Map.empty =
      (co_a'\<lparr>co_watermarks := [(''p'', 7)]\<rparr>, d3, R_Ok)" using c by blast
  have "serve demo_state_codec
       [(40, Io_Ok, Lease_Acquire ''p'' ''a''), (41, Io_Ok, Manifest_Commit ''p'' ''a'' 1 7)] co_demo Map.empty
       = (co_a'\<lparr>co_watermarks := [(''p'', 7)]\<rparr>, d3, [R_Lease (lease_a\<lparr>l_expires_at := 70\<rparr>), R_Ok])"
    unfolding serve.simps a d3 prod.case ..
  moreover have "watermark (co_a'\<lparr>co_watermarks := [(''p'', 7)]\<rparr>) ''p'' = 7"
    by (simp add: watermark_def counter_def)
  ultimately show ?thesis using first co_open_demo reopened by metis
qed

end
