(* ===== verification/Worker.thy ===== *)
theory Worker
  imports Coordinator
begin

text \<open>
  The coordinator's client (\<open>cluster/src/client.rs\<close>) and the compile worker
  (\<open>cluster/src/worker.rs\<close>).

  One call is one round trip; the transport delivers it, loses the request, or loses the reply
  after the coordinator has acted on it.  The work closure of \<open>run_shard\<close> is a parameter: what it
  does while it runs is a list of events, its own commits interleaved with the heartbeat task and
  with the requests of other workers, and its result is an argument.
\<close>

section \<open>Client\<close>

datatype error_text =
    Message co_message
  | Lease_Text lease_error

datatype cluster_error =
    Io_Failed
  | Coordinator_Error error_text
  | Closed

datatype transport =
    Delivered
  | Request_Lost
  | Reply_Lost

type_synonym 'f net = "time_ns \<times> 'f io_outcome \<times> transport"
type_synonym 'f world = "coordinator \<times> 'f state_dir"

fun resp_ok :: "response \<Rightarrow> cluster_error + response" where
  "resp_ok (R_Error m) = Inl (Coordinator_Error (Message m))"
| "resp_ok (R_Lease_Error e) = Inl (Coordinator_Error (Lease_Text e))"
| "resp_ok a = Inr a"

fun call :: "'f state_codec \<Rightarrow> 'f net \<Rightarrow> request \<Rightarrow> 'f world \<Rightarrow> 'f world \<times> (cluster_error + response)" where
  "call cd (now, io, Delivered) r (co, d) = (case handle cd now io r co d of (co', d', a) \<Rightarrow> ((co', d'), Inr a))"
| "call cd (now, io, Request_Lost) r w = (w, Inl Io_Failed)"
| "call cd (now, io, Reply_Lost) r (co, d) = (case handle cd now io r co d of (co', d', a) \<Rightarrow> ((co', d'), Inl Closed))"

text \<open>A call whose answer is read by \<open>f\<close>; an answer \<open>f\<close> does not know is an error.\<close>

definition typed_call ::
  "(response \<Rightarrow> 'a option) \<Rightarrow> 'f state_codec \<Rightarrow> 'f net \<Rightarrow> request \<Rightarrow> 'f world \<Rightarrow> 'f world \<times> (cluster_error + 'a)" where
  "typed_call f cd n r w =
     (case call cd n r w of
        (w', Inl e) \<Rightarrow> (w', Inl e)
      | (w', Inr a) \<Rightarrow> (w', case resp_ok a of
            Inl e \<Rightarrow> Inl e
          | Inr b \<Rightarrow> (case f b of Some x \<Rightarrow> Inr x | None \<Rightarrow> Inl (Coordinator_Error (Message Unexpected_Response)))))"

definition register_partition ::
  "'f state_codec \<Rightarrow> 'f net \<Rightarrow> partition_id \<Rightarrow> partition_location \<Rightarrow> 'f world \<Rightarrow> 'f world \<times> (cluster_error + unit)" where
  "register_partition cd n i loc =
     typed_call (\<lambda>a. Some ()) cd n (Catalog_Register \<lparr>pm_id = i, pm_location = loc, pm_cold = False\<rparr>)"

definition get_catalog ::
  "'f state_codec \<Rightarrow> 'f net \<Rightarrow> string option \<Rightarrow> 'f world \<Rightarrow> 'f world \<times> (cluster_error + partition_meta list)" where
  "get_catalog cd n pre = typed_call (\<lambda>a. case a of R_Catalog ps \<Rightarrow> Some ps | _ \<Rightarrow> None) cd n (Catalog_Get pre)"

definition lease_acquire ::
  "'f state_codec \<Rightarrow> 'f net \<Rightarrow> partition_id \<Rightarrow> holder_id \<Rightarrow> 'f world \<Rightarrow> 'f world \<times> (cluster_error + lease)" where
  "lease_acquire cd n p h = typed_call (\<lambda>a. case a of R_Lease l \<Rightarrow> Some l | _ \<Rightarrow> None) cd n (Lease_Acquire p h)"

definition lease_renew ::
  "'f state_codec \<Rightarrow> 'f net \<Rightarrow> partition_id \<Rightarrow> holder_id \<Rightarrow> lease_token \<Rightarrow> 'f world \<Rightarrow> 'f world \<times> (cluster_error + lease)" where
  "lease_renew cd n p h k = typed_call (\<lambda>a. case a of R_Lease l \<Rightarrow> Some l | _ \<Rightarrow> None) cd n (Lease_Renew p h k)"

definition lease_release ::
  "'f state_codec \<Rightarrow> 'f net \<Rightarrow> partition_id \<Rightarrow> holder_id \<Rightarrow> lease_token \<Rightarrow> 'f world \<Rightarrow> 'f world \<times> (cluster_error + unit)" where
  "lease_release cd n p h k = typed_call (\<lambda>a. Some ()) cd n (Lease_Release p h k)"

definition manifest_commit ::
  "'f state_codec \<Rightarrow> 'f net \<Rightarrow> partition_id \<Rightarrow> holder_id \<Rightarrow> lease_token \<Rightarrow> 64 word \<Rightarrow> 'f world \<Rightarrow>
     'f world \<times> (cluster_error + unit)" where
  "manifest_commit cd n p h k wm = typed_call (\<lambda>a. Some ()) cd n (Manifest_Commit p h k wm)"

definition record_entity_partitions ::
  "'f state_codec \<Rightarrow> 'f net \<Rightarrow> string \<Rightarrow> partition_id list \<Rightarrow> 'f world \<Rightarrow> 'f world \<times> (cluster_error + unit)" where
  "record_entity_partitions cd n e ps = typed_call (\<lambda>a. Some ()) cd n (Record_Entity_Partitions e ps)"

definition get_partitions_for_entity ::
  "'f state_codec \<Rightarrow> 'f net \<Rightarrow> string \<Rightarrow> 'f world \<Rightarrow> 'f world \<times> (cluster_error + partition_id list)" where
  "get_partitions_for_entity cd n e =
     typed_call (\<lambda>a. case a of R_Partitions ps \<Rightarrow> Some ps | _ \<Rightarrow> None) cd n (Partitions_For_Entity e)"

definition get_watermark ::
  "'f state_codec \<Rightarrow> 'f net \<Rightarrow> partition_id \<Rightarrow> 'f world \<Rightarrow> 'f world \<times> (cluster_error + 64 word)" where
  "get_watermark cd n p = typed_call (\<lambda>a. case a of R_Watermark x \<Rightarrow> Some x | _ \<Rightarrow> None) cd n (Get_Watermark p)"

definition get_watermarks ::
  "'f state_codec \<Rightarrow> 'f net \<Rightarrow> 'f world \<Rightarrow> 'f world \<times> (cluster_error + (partition_id \<times> 64 word) list)" where
  "get_watermarks cd n = typed_call (\<lambda>a. case a of R_Watermark_Map m \<Rightarrow> Some m | _ \<Rightarrow> None) cd n Get_Watermarks"

lemma typed_call_cases:
  obtains (fault) e where "snd (typed_call f cd n r w) = Inl e" "e = Io_Failed \<or> e = Closed"
  | (answer) co d now io where "n = (now, io, Delivered)" "w = (co, d)"
      "fst (typed_call f cd n r w) = (fst (handle cd now io r co d), fst (snd (handle cd now io r co d)))"
      "snd (typed_call f cd n r w) =
        (case resp_ok (snd (snd (handle cd now io r co d))) of
            Inl e \<Rightarrow> Inl e
          | Inr b \<Rightarrow> (case f b of Some x \<Rightarrow> Inr x | None \<Rightarrow> Inl (Coordinator_Error (Message Unexpected_Response))))"
proof -
  obtain now io t co d where nw: "n = (now, io, t)" "w = (co, d)" by (metis prod.collapse)
  show ?thesis
  proof (cases t)
    case Delivered
    then show ?thesis using nw answer by (simp add: typed_call_def split: prod.splits)
  next
    case Request_Lost
    then show ?thesis using nw fault by (simp add: typed_call_def)
  next
    case Reply_Lost
    then have "snd (typed_call f cd n r w) = Inl Closed"
      using nw by (simp add: typed_call_def split: prod.split)
    then show ?thesis using fault by blast
  qed
qed

text \<open>What a request can be answered with.\<close>

fun fits :: "request \<Rightarrow> response \<Rightarrow> bool" where
  "fits (Catalog_Get pre) a \<longleftrightarrow> (\<exists>ps. a = R_Catalog ps)"
| "fits (Lease_Acquire p h) a \<longleftrightarrow> (\<exists>l. a = R_Lease l \<and> l_partition l = p \<and> l_holder l = h) \<or> a = R_Lease_Error (AlreadyLeased p)"
| "fits (Lease_Renew p h k) a \<longleftrightarrow> (\<exists>l. a = R_Lease l \<and> l_holder l = h \<and> l_token l = k) \<or> a \<in> {R_Lease_Error (Fenced p), R_Lease_Error (Expired p)}"
| "fits (Lease_Release p h k) a \<longleftrightarrow> a \<in> {R_Ok, R_Lease_Error (Fenced p)}"
| "fits (Manifest_Commit p h k w) a \<longleftrightarrow>
     a \<in> {R_Ok, R_Error Persistence_Failed, R_Lease_Error (Fenced p), R_Lease_Error (Expired p)}"
| "fits (Catalog_Register m) a \<longleftrightarrow>
     a \<in> {R_Ok, R_Error Persistence_Failed} \<or> (\<exists>x. a = R_Error (Already_Registered (pm_id m) x (pm_location m)))"
| "fits (Record_Entity_Partitions e ps) a \<longleftrightarrow> a \<in> {R_Ok, R_Error Persistence_Failed}"
| "fits (Partitions_For_Entity e) a \<longleftrightarrow> (\<exists>ps. a = R_Partitions ps)"
| "fits (Get_Watermark p) a \<longleftrightarrow> (\<exists>x. a = R_Watermark x)"
| "fits Get_Watermarks a \<longleftrightarrow> (\<exists>m. a = R_Watermark_Map m)"

lemma persisted_answer: "snd (snd (persisted cd io co d a)) \<in> {a, R_Error Persistence_Failed}"
  by (auto simp: persisted_def split: prod.splits bool.splits)

lemma handle_fits: "fits r (snd (snd (handle cd now io r co d)))"
proof (cases r)
  case (Catalog_Register m)
  then show ?thesis using persisted_answer [of cd io _ d R_Ok]
    by (auto simp: catalog_register_def split: option.splits if_splits)
next
  case (Lease_Acquire p h)
  then show ?thesis by (auto simp: acquire_def Let_def)
next
  case (Lease_Renew p h k)
  then show ?thesis by (auto simp: renew_def check_def Let_def split: option.splits)
next
  case (Lease_Release p h k)
  then show ?thesis by (auto simp: release_def split: option.splits)
next
  case (Manifest_Commit p h k w)
  then show ?thesis using persisted_answer [of cd io _ d R_Ok]
    by (auto simp: check_def split: option.splits)
next
  case (Record_Entity_Partitions e ps)
  then show ?thesis using persisted_answer [of cd io _ d R_Ok] by auto
qed auto

lemma typed_call_never_unexpected:
  assumes "\<And>a b. fits r a \<Longrightarrow> resp_ok a = Inr b \<Longrightarrow> f b \<noteq> None"
    and "\<And>a. fits r a \<Longrightarrow> a \<noteq> R_Error Unexpected_Response"
  shows "snd (typed_call f cd n r w) \<noteq> Inl (Coordinator_Error (Message Unexpected_Response))"
proof (rule typed_call_cases [of f cd n r w])
  fix co d now io
  assume s: "snd (typed_call f cd n r w) =
      (case resp_ok (snd (snd (handle cd now io r co d))) of
          Inl e \<Rightarrow> Inl e
        | Inr b \<Rightarrow> (case f b of Some x \<Rightarrow> Inr x | None \<Rightarrow> Inl (Coordinator_Error (Message Unexpected_Response))))"
  define a where "a = snd (snd (handle cd now io r co d))"
  have "fits r a" unfolding a_def by (rule handle_fits)
  then show ?thesis
    using s assms [of a] unfolding a_def [symmetric] by (cases a) (auto split: option.splits)
qed auto

text \<open>
  The client and the coordinator agree on the protocol: no typed helper ever receives a response
  of a kind it does not expect, whatever the state, the disk and the transport do.
\<close>

theorem protocol_agreement:
  "snd (register_partition cd n i loc w) \<noteq> Inl (Coordinator_Error (Message Unexpected_Response)) \<and>
   snd (get_catalog cd n pre w) \<noteq> Inl (Coordinator_Error (Message Unexpected_Response)) \<and>
   snd (lease_acquire cd n p h w) \<noteq> Inl (Coordinator_Error (Message Unexpected_Response)) \<and>
   snd (lease_renew cd n p h k w) \<noteq> Inl (Coordinator_Error (Message Unexpected_Response)) \<and>
   snd (get_partitions_for_entity cd n e w) \<noteq> Inl (Coordinator_Error (Message Unexpected_Response)) \<and>
   snd (get_watermark cd n p w) \<noteq> Inl (Coordinator_Error (Message Unexpected_Response)) \<and>
   snd (get_watermarks cd n w) \<noteq> Inl (Coordinator_Error (Message Unexpected_Response))"
  by (intro conjI;
      unfold register_partition_def get_catalog_def lease_acquire_def lease_renew_def get_partitions_for_entity_def
      get_watermark_def get_watermarks_def;
      rule typed_call_never_unexpected; force)


section \<open>The heartbeat interval\<close>

text \<open>\<open>std::time::Duration\<close> is a natural number of nanoseconds; its division truncates.\<close>

definition default_heartbeat :: nat where
  "default_heartbeat = 10 * 1000000000"

definition observed_ttl :: "nat \<Rightarrow> time_ns \<Rightarrow> time_ns \<Rightarrow> nat" where
  "observed_ttl heartbeat expires now = (if expires - now < 0 then heartbeat else nat (expires - now))"

definition hb_interval :: "nat \<Rightarrow> time_ns \<Rightarrow> time_ns \<Rightarrow> nat" where
  "hb_interval heartbeat expires now =
     min (max (observed_ttl heartbeat expires now div 3) (500 * 1000000)) heartbeat"

text \<open>
  The heartbeat interval never exceeds the configured default, is at least half a second when the
  default is, and for every lease of at least 1.5 s leaves room for three beats within the time the
  lease has left; for a shorter lease under the floor it does not: the lease may run out between
  two beats.
\<close>

theorem heartbeat_interval_bounds:
  "hb_interval hb expires now \<le> hb \<and>
   (500 * 1000000 \<le> hb \<longrightarrow> 500 * 1000000 \<le> hb_interval hb expires now) \<and>
   (1500 * 1000000 \<le> expires - now \<longrightarrow> 3 * int (hb_interval hb expires now) \<le> expires - now) \<and>
   (0 \<le> expires - now \<and> expires - now \<le> 500 * 1000000 \<and> 500 * 1000000 \<le> hb \<longrightarrow>
      expires - now \<le> int (hb_interval hb expires now))"
proof -
  have "3 * int (hb_interval hb expires now) \<le> expires - now" if "1500 * 1000000 \<le> expires - now"
  proof -
    have o: "observed_ttl hb expires now = nat (expires - now)" using that by (simp add: observed_ttl_def)
    have "3 * (nat (expires - now) div 3) \<le> nat (expires - now)" by simp
    moreover have "3 * (500 * 1000000) \<le> nat (expires - now)" using that by simp
    ultimately have "3 * hb_interval hb expires now \<le> nat (expires - now)"
      unfolding hb_interval_def o by (auto simp: min_def max_def)
    then show ?thesis using that by linarith
  qed
  then show ?thesis by (auto simp: hb_interval_def observed_ttl_def min_def max_def)
qed

lemma heartbeat_interval_bounds_witness:
  "3 * int (hb_interval default_heartbeat 8000000000 0) \<le> 8000000000 \<and>
   hb_interval default_heartbeat 8000000000 0 \<le> default_heartbeat"
  using heartbeat_interval_bounds [of default_heartbeat 8000000000 0] by simp

section \<open>Running a shard\<close>

datatype worker_error =
    Cluster_Failed cluster_error
  | Work_Failed string
  | Lost_Lease partition_id

record shard =
  sh_partition :: partition_id
  sh_holder :: holder_id
  sh_token :: lease_token

text \<open>What happens while the closure runs.\<close>

datatype 'f shard_event =
    Beat "'f net"
  | Guard_Commit "64 word" "'f net"
  | Other "'f event"

text \<open>
  The flag \<open>lost\<close> is shared by the heartbeat task and the guard; the heartbeat task ends after it
  has seen or set it.
\<close>

record shard_run =
  sr_lost :: bool
  sr_commits :: "(worker_error + unit) list"

definition guard_commit ::
  "'f state_codec \<Rightarrow> shard \<Rightarrow> 'f net \<Rightarrow> 64 word \<Rightarrow> 'f world \<times> shard_run \<Rightarrow> 'f world \<times> shard_run" where
  "guard_commit cd sh n wm = (\<lambda>(w, sr).
     case manifest_commit cd n (sh_partition sh) (sh_holder sh) (sh_token sh) wm w of
       (w', Inr _) \<Rightarrow> (w', sr\<lparr>sr_commits := sr_commits sr @ [Inr ()]\<rparr>)
     | (w', Inl e) \<Rightarrow>
         (w', case e of
            Coordinator_Error _ \<Rightarrow>
              sr\<lparr>sr_lost := True, sr_commits := sr_commits sr @ [Inl (Lost_Lease (sh_partition sh))]\<rparr>
          | _ \<Rightarrow> sr\<lparr>sr_commits := sr_commits sr @ [Inl (Cluster_Failed e)]\<rparr>))"

definition heartbeat :: "'f state_codec \<Rightarrow> shard \<Rightarrow> 'f net \<Rightarrow> 'f world \<times> shard_run \<Rightarrow> 'f world \<times> shard_run" where
  "heartbeat cd sh n = (\<lambda>(w, sr).
     if sr_lost sr then (w, sr)
     else case lease_renew cd n (sh_partition sh) (sh_holder sh) (sh_token sh) w of
       (w', Inr _) \<Rightarrow> (w', sr)
     | (w', Inl _) \<Rightarrow> (w', sr\<lparr>sr_lost := True\<rparr>))"

fun shard_step :: "'f state_codec \<Rightarrow> shard \<Rightarrow> 'f shard_event \<Rightarrow> 'f world \<times> shard_run \<Rightarrow> 'f world \<times> shard_run" where
  "shard_step cd sh (Beat n) s = heartbeat cd sh n s"
| "shard_step cd sh (Guard_Commit wm n) s = guard_commit cd sh n wm s"
| "shard_step cd sh (Other (now, io, r)) ((co, d), sr) =
     (case handle cd now io r co d of (co', d', a) \<Rightarrow> ((co', d'), sr))"

definition run_work ::
  "'f state_codec \<Rightarrow> shard \<Rightarrow> 'f shard_event list \<Rightarrow> 'f world \<Rightarrow> 'f world \<times> shard_run" where
  "run_work cd sh es w = fold (shard_step cd sh) es (w, \<lparr>sr_lost = False, sr_commits = []\<rparr>)"

definition run_shard ::
  "'f state_codec \<Rightarrow> holder_id \<Rightarrow> partition_id \<Rightarrow> 'f net \<Rightarrow> 'f shard_event list \<Rightarrow> worker_error + unit \<Rightarrow> 'f net \<Rightarrow>
     'f world \<Rightarrow> 'f world \<times> (worker_error + unit)" where
  "run_shard cd h p n0 es result n1 w =
     (case lease_acquire cd n0 p h w of
        (w1, Inl e) \<Rightarrow> (w1, Inl (Cluster_Failed e))
      | (w1, Inr l) \<Rightarrow>
          (case run_work cd \<lparr>sh_partition = p, sh_holder = h, sh_token = l_token l\<rparr> es w1 of
             (w2, sr) \<Rightarrow>
               (case lease_release cd n1 p h (l_token l) w2 of
                  (w3, _) \<Rightarrow>
                    (w3, case result of
                       Inr _ \<Rightarrow> if sr_lost sr then Inl (Lost_Lease p) else result
                     | Inl _ \<Rightarrow> result))))"

section \<open>A shard that keeps its lease\<close>

text \<open>
  Every round trip of the worker is delivered, its writes succeed, everything happens before the
  deadline set by the last beat, and the other workers use other ids.
\<close>

fun on_time :: "shard \<Rightarrow> time_ns \<Rightarrow> time_ns \<Rightarrow> 'f shard_event list \<Rightarrow> bool" where
  "on_time sh ttl x [] \<longleftrightarrow> True"
| "on_time sh ttl x (Beat n # es) \<longleftrightarrow>
     (case n of (now, io, tr) \<Rightarrow> now < x \<and> tr = Delivered \<and> on_time sh ttl (now + ttl) es)"
| "on_time sh ttl x (Guard_Commit wm n # es) \<longleftrightarrow>
     (case n of (now, io, tr) \<Rightarrow> now < x \<and> tr = Delivered \<and> io = Io_Ok \<and> on_time sh ttl x es)"
| "on_time sh ttl x (Other e # es) \<longleftrightarrow>
     (case e of (now, io, r) \<Rightarrow> now < x \<and>
        (\<forall>k. r \<notin> {Lease_Acquire (sh_partition sh) (sh_holder sh),
          Lease_Renew (sh_partition sh) (sh_holder sh) k, Lease_Release (sh_partition sh) (sh_holder sh) k}) \<and>
        on_time sh ttl x es)"

definition holds :: "shard \<Rightarrow> time_ns \<Rightarrow> coordinator \<Rightarrow> bool" where
  "holds sh x co \<longleftrightarrow> (\<exists>l. active (co_leases co) (sh_partition sh) = Some l \<and> l_holder l = sh_holder sh \<and>
     l_token l = sh_token sh \<and> l_expires_at l = x)"

lemma heartbeat_on_time:
  assumes "holds sh x co" "now < x" "\<not> sr_lost sr"
  obtains co' where "heartbeat cd sh (now, io, Delivered) ((co, d), sr) = ((co', d), sr)"
    "holds sh (now + co_ttl co) co'" "co_ttl co' = co_ttl co"
  using assms
  by (auto simp: heartbeat_def lease_renew_def typed_call_def holds_def renew_def check_def is_live_def Let_def)

lemma guard_commit_on_time:
  assumes "holds sh x co" "now < x"
  obtains co' d' where "guard_commit cd sh (now, Io_Ok, Delivered) wm ((co, d), sr) =
      ((co', d'), sr\<lparr>sr_commits := sr_commits sr @ [Inr ()]\<rparr>)"
    "holds sh x co'" "co_ttl co' = co_ttl co"
proof -
  have c: "check (sh_partition sh) (sh_holder sh) (sh_token sh) now (co_leases co) = Inr ()"
    using assms by (auto simp: holds_def check_def is_live_def)
  let ?co = "co\<lparr>co_watermarks := bt_insert (sh_partition sh) (max (watermark co (sh_partition sh)) wm) (co_watermarks co)\<rparr>"
  obtain d' where "persisted cd Io_Ok ?co d R_Ok = (?co, d', R_Ok)"
    by (cases "co_state_path co") (simp_all add: persisted_def persist_def Let_def)
  then have "guard_commit cd sh (now, Io_Ok, Delivered) wm ((co, d), sr) =
      ((?co, d'), sr\<lparr>sr_commits := sr_commits sr @ [Inr ()]\<rparr>)"
    by (simp add: guard_commit_def manifest_commit_def typed_call_def c)
  moreover have "holds sh x ?co" using assms(1) by (simp add: holds_def)
  ultimately show ?thesis using that by simp
qed

lemma other_on_time:
  assumes "holds sh x co" "now < x"
    "\<forall>k. r \<notin> {Lease_Acquire (sh_partition sh) (sh_holder sh),
          Lease_Renew (sh_partition sh) (sh_holder sh) k, Lease_Release (sh_partition sh) (sh_holder sh) k}"
  obtains co' d' where "shard_step cd sh (Other (now, io, r)) ((co, d), sr) = ((co', d'), sr)"
    "holds sh x co'" "co_ttl co' = co_ttl co"
proof -
  obtain l where l: "active (co_leases co) (sh_partition sh) = Some l" "l_holder l = sh_holder sh"
      "l_token l = sh_token sh" "l_expires_at l = x"
    using assms(1) by (auto simp: holds_def)
  obtain co' d' a where h: "handle cd now io r co d = (co', d', a)" by (metis prod_cases3)
  have "active (fold lease_step (lease_call_of now (co_ttl co) r) (co_leases co)) (sh_partition sh) =
      Some (l\<lparr>l_expires_at := beat (sh_partition sh) (sh_holder sh) (sh_token sh) (co_ttl co) (l_expires_at l) (now, io, r)\<rparr>)"
    by (rule lease_kept_step [OF l(1-3)]) (use assms l in auto)
  moreover have "beat (sh_partition sh) (sh_holder sh) (sh_token sh) (co_ttl co) (l_expires_at l) (now, io, r) = x"
    using assms(3) l(4) by (simp add: beat_def)
  ultimately have "holds sh x co'"
    using handle_leases [of cd now io r co d] h l by (simp add: holds_def)
  then show ?thesis using that h handle_ttl [of cd now io r co d] by simp
qed

lemma work_on_time:
  assumes "holds sh x co" "on_time sh (co_ttl co) x es" "\<not> sr_lost sr" "\<forall>c \<in> set (sr_commits sr). c = Inr ()"
  shows "\<exists>co' d' sr'. fold (shard_step cd sh) es ((co, d), sr) = ((co', d'), sr') \<and> \<not> sr_lost sr' \<and>
    (\<forall>c \<in> set (sr_commits sr'). c = Inr ())"
  using assms
proof (induction es arbitrary: co d sr x)
  case Nil
  then show ?case by simp
next
  case (Cons e es)
  show ?case
  proof (cases e)
    case (Beat n)
    then obtain now io where n: "n = (now, io, Delivered)" "now < x" "on_time sh (co_ttl co) (now + co_ttl co) es"
      using Cons.prems(2) by auto
    obtain co' where "heartbeat cd sh n ((co, d), sr) = ((co', d), sr)"
      "holds sh (now + co_ttl co) co'" "co_ttl co' = co_ttl co"
      using heartbeat_on_time [OF Cons.prems(1) n(2) Cons.prems(3)] n(1) by metis
    then show ?thesis using Cons.IH [of "now + co_ttl co" co' sr d] n(3) Cons.prems(3,4) Beat by simp
  next
    case (Guard_Commit wm n)
    then obtain now where n: "n = (now, Io_Ok, Delivered)" "now < x" "on_time sh (co_ttl co) x es"
      using Cons.prems(2) by auto
    obtain co' d' where "guard_commit cd sh n wm ((co, d), sr) =
        ((co', d'), sr\<lparr>sr_commits := sr_commits sr @ [Inr ()]\<rparr>)" "holds sh x co'" "co_ttl co' = co_ttl co"
      using guard_commit_on_time [OF Cons.prems(1) n(2)] n(1) by metis
    then show ?thesis
      using Cons.IH [of x co' "sr\<lparr>sr_commits := sr_commits sr @ [Inr ()]\<rparr>" d'] n(3) Cons.prems(3,4) Guard_Commit
      by simp
  next
    case (Other f)
    then obtain now io r where f: "f = (now, io, r)" "now < x"
      "\<forall>k. r \<notin> {Lease_Acquire (sh_partition sh) (sh_holder sh),
          Lease_Renew (sh_partition sh) (sh_holder sh) k, Lease_Release (sh_partition sh) (sh_holder sh) k}"
      "on_time sh (co_ttl co) x es"
      using Cons.prems(2) by (cases f) auto
    obtain co' d' where "shard_step cd sh e ((co, d), sr) = ((co', d'), sr)" "holds sh x co'" "co_ttl co' = co_ttl co"
      using other_on_time [OF Cons.prems(1) f(2,3)] Other f(1) by metis
    then show ?thesis using Cons.IH [of x co' sr d'] f(4) Cons.prems(3,4) by simp
  qed
qed


lemma acquire_free:
  assumes "\<forall>l. active t p = Some l \<longrightarrow> l_holder l = h \<or> \<not> is_live l now"
  shows "\<exists>t' l. acquire p h now ttl t = (t', Inr l)"
  using assms by (auto simp: acquire_def Let_def split: option.splits)

text \<open>
  C27: A worker that asks for a free partition, whose heartbeats and commits go through on time and
  whose id nobody else uses, gets the lease, never loses it, has every commit accepted, and ends
  with its own result.
\<close>

theorem shard_on_time_completes:
  assumes "\<forall>l. active (co_leases co) p = Some l \<longrightarrow> l_holder l = h \<or> \<not> is_live l now"
    and "on_time \<lparr>sh_partition = p, sh_holder = h, sh_token = counter (next_token (co_leases co)) p + 1\<rparr>
      (co_ttl co) (now + co_ttl co) es"
  shows "snd (run_shard cd h p (now, io, Delivered) es result n1 (co, d)) = result \<and>
    (\<exists>l w1. lease_acquire cd (now, io, Delivered) p h (co, d) = (w1, Inr l) \<and>
      (\<forall>c \<in> set (sr_commits (snd (run_work cd \<lparr>sh_partition = p, sh_holder = h, sh_token = l_token l\<rparr> es w1))).
         c = Inr ()))"
proof -
  obtain t l where a: "acquire p h now (co_ttl co) (co_leases co) = (t, Inr l)"
    using acquire_free [OF assms(1)] by blast
  note l = acquire_Inr [OF a]
  define sh where "sh = \<lparr>sh_partition = p, sh_holder = h, sh_token = l_token l\<rparr>"
  let ?co = "co\<lparr>co_leases := t\<rparr>"
  have got: "lease_acquire cd (now, io, Delivered) p h (co, d) = ((?co, d), Inr l)"
    by (simp add: lease_acquire_def typed_call_def a)
  have h: "holds sh (now + co_ttl co) ?co" using l by (simp add: holds_def sh_def)
  have o: "on_time sh (co_ttl ?co) (now + co_ttl co) es" using assms(2) l by (simp add: sh_def)
  obtain co' d' sr where w: "run_work cd sh es (?co, d) = ((co', d'), sr)" "\<not> sr_lost sr"
      "\<forall>c \<in> set (sr_commits sr). c = Inr ()"
    using work_on_time [OF h o, of "\<lparr>sr_lost = False, sr_commits = []\<rparr>" cd d] by (auto simp: run_work_def)
  then have "snd (run_shard cd h p (now, io, Delivered) es result n1 (co, d)) = result"
    by (auto simp: run_shard_def got sh_def [symmetric] split: prod.split sum.split)
  then show ?thesis using got w sh_def by auto
qed

text \<open>Worker a beats once, commits, and finishes, while worker b asks in vain for the partition.\<close>

lemma shard_on_time_completes_witness:
  "snd (run_shard demo_state_codec ''a'' ''p'' (0, Io_Ok, Delivered)
      [Beat (20, Io_Ok, Delivered), Other (31, Io_Ok, Lease_Acquire ''p'' ''b''), Guard_Commit 7 (45, Io_Ok, Delivered)]
      (Inr ()) (46, Io_Ok, Delivered) (co_demo, Map.empty)) = Inr ()"
proof -
  have f: "\<forall>l. active (co_leases co_demo) ''p'' = Some l \<longrightarrow> l_holder l = ''a'' \<or> \<not> is_live l 0"
    by (simp add: empty_lease_table_def)
  show ?thesis
    using shard_on_time_completes [OF f, of "[Beat (20, Io_Ok, Delivered), Other (31, Io_Ok, Lease_Acquire ''p'' ''b''),
        Guard_Commit 7 (45, Io_Ok, Delivered)]" demo_state_codec Io_Ok "Inr ()" "(46, Io_Ok, Delivered)" Map.empty]
    by simp
qed

definition refused :: "worker_error + unit \<Rightarrow> bool" where
  "refused c \<longleftrightarrow> (\<exists>p. c = Inl (Lost_Lease p))"

lemma shard_step_lost:
  assumes "sr_lost (snd s) \<or> (\<forall>c \<in> set (sr_commits (snd s)). \<not> refused c)"
  shows "(sr_lost (snd s) \<longrightarrow> sr_lost (snd (shard_step cd sh e s))) \<and>
    (sr_lost (snd (shard_step cd sh e s)) \<or> (\<forall>c \<in> set (sr_commits (snd (shard_step cd sh e s))). \<not> refused c))"
proof (cases e)
  case (Beat n)
  then show ?thesis using assms
    by (cases s) (auto simp: heartbeat_def split: prod.splits sum.splits)
next
  case (Guard_Commit wm n)
  then show ?thesis using assms
    by (cases s) (auto simp: guard_commit_def refused_def split: prod.splits sum.splits cluster_error.splits)
next
  case (Other f)
  then show ?thesis using assms
    by (cases s; cases f; cases "fst s") (auto split: prod.splits)
qed

lemma run_work_lost:
  "\<not> sr_lost (snd (run_work cd sh es w)) \<Longrightarrow> c \<in> set (sr_commits (snd (run_work cd sh es w))) \<Longrightarrow> \<not> refused c"
proof -
  have "sr_lost (snd s) \<or> (\<forall>c \<in> set (sr_commits (snd s)). \<not> refused c) \<Longrightarrow>
      sr_lost (snd (fold (shard_step cd sh) es s)) \<or>
        (\<forall>c \<in> set (sr_commits (snd (fold (shard_step cd sh) es s))). \<not> refused c)" for s
    by (induction es arbitrary: s) (simp_all add: shard_step_lost)
  from this [of "(w, \<lparr>sr_lost = False, sr_commits = []\<rparr>)"]
  show "\<not> sr_lost (snd (run_work cd sh es w)) \<Longrightarrow> c \<in> set (sr_commits (snd (run_work cd sh es w))) \<Longrightarrow> \<not> refused c"
    by (simp add: run_work_def)
qed

text \<open>
  What a round trip of the worker finds: the lease table held its lease, under its id and token and not
  expired, when the coordinator served the call.  A beat must be answered; a commit whose reply or request
  was lost tells nothing.
\<close>

fun leased :: "shard \<Rightarrow> 'f shard_event \<Rightarrow> 'f world \<times> shard_run \<Rightarrow> bool" where
  "leased sh (Beat (now, io, tr)) ((co, d), sr) \<longleftrightarrow>
     tr = Delivered \<and> check (sh_partition sh) (sh_holder sh) (sh_token sh) now (co_leases co) = Inr ()"
| "leased sh (Guard_Commit wm (now, io, tr)) ((co, d), sr) \<longleftrightarrow>
     (tr = Delivered \<longrightarrow> check (sh_partition sh) (sh_holder sh) (sh_token sh) now (co_leases co) = Inr ())"
| "leased sh (Other e) s \<longleftrightarrow> True"

lemma shard_step_lost_mono: "sr_lost (snd s) \<Longrightarrow> sr_lost (snd (shard_step cd sh e s))"
  using shard_step_lost [of s cd sh e] by blast

lemma fold_lost_mono: "sr_lost (snd s) \<Longrightarrow> sr_lost (snd (fold (shard_step cd sh) es s))"
  by (induction es arbitrary: s) (simp_all add: shard_step_lost_mono)

lemma typed_call_undelivered:
  assumes "tr \<noteq> Delivered"
  shows "\<exists>w' e. typed_call f cd (now, io, tr) r w = (w', Inl e)"
  using assms by (cases w; cases tr) (auto simp: typed_call_def split: prod.splits)

lemma refused_renew:
  assumes "check p h k now (co_leases co) \<noteq> Inr ()"
  shows "\<exists>w' e. lease_renew cd (now, io, Delivered) p h k (co, d) = (w', Inl e)"
proof -
  obtain e where "renew p h k now (co_ttl co) (co_leases co) = (co_leases co, Inl e)"
    using assms by (cases rule: renew_cases [of p h k now "co_leases co" "co_ttl co"]) (auto simp: check_Inr_iff)
  then show ?thesis by (simp add: lease_renew_def typed_call_def)
qed

lemma refused_commit:
  assumes "check p h k now (co_leases co) \<noteq> Inr ()"
  shows "\<exists>w' e. manifest_commit cd (now, io, Delivered) p h k wm (co, d) = (w', Inl (Coordinator_Error e))"
proof -
  obtain e where "handle cd now io (Manifest_Commit p h k wm) co d = (co, d, R_Lease_Error e)"
    using commit_refused [OF assms] by blast
  then show ?thesis by (simp add: manifest_commit_def typed_call_def del: handle.simps)
qed

lemma shard_step_leased:
  assumes "\<not> leased sh e s"
  shows "sr_lost (snd (shard_step cd sh e s))"
proof -
  obtain co d sr where s: "s = ((co, d), sr)" by (metis prod.exhaust)
  show ?thesis
  proof (cases "sr_lost sr")
    case True
    then show ?thesis using shard_step_lost_mono [of s] by (simp add: s)
  next
    case False
    show ?thesis
    proof (cases e)
      case (Beat n)
      obtain now io tr where n: "n = (now, io, tr)" by (metis prod.exhaust)
      have "\<exists>w' x. lease_renew cd n (sh_partition sh) (sh_holder sh) (sh_token sh) (co, d) = (w', Inl x)"
      proof (cases "tr = Delivered")
        case True
        then show ?thesis using refused_renew assms by (simp add: Beat n s)
      next
        case False
        then show ?thesis unfolding n lease_renew_def by (rule typed_call_undelivered)
      qed
      then show ?thesis using False by (auto simp: Beat s heartbeat_def)
    next
      case (Guard_Commit wm n)
      obtain now io tr where n: "n = (now, io, tr)" by (metis prod.exhaust)
      have tr: "tr = Delivered" and c: "check (sh_partition sh) (sh_holder sh) (sh_token sh) now (co_leases co) \<noteq> Inr ()"
        using assms by (simp_all add: Guard_Commit n s)
      show ?thesis using refused_commit [OF c, of cd io wm d] by (auto simp: Guard_Commit n tr s guard_commit_def)
    next
      case (Other f)
      then show ?thesis using assms by simp
    qed
  qed
qed

text \<open>
  C31: A shard never reports success after losing its lease: when \<open>run_shard\<close> returns Ok, the closure
  itself had succeeded, the lease was granted, and it was still held whenever the coordinator served a
  heartbeat or a commit of the worker, whatever the other workers did in between; every heartbeat was
  answered and no commit was refused.
\<close>

theorem shard_success_was_leased:
  assumes "snd (run_shard cd h p n0 es result n1 w) = Inr ()"
  shows "result = Inr () \<and> (\<exists>l w1. lease_acquire cd n0 p h w = (w1, Inr l) \<and>
    (let sh = \<lparr>sh_partition = p, sh_holder = h, sh_token = l_token l\<rparr>
     in (\<forall>pre e post. es = pre @ e # post \<longrightarrow> leased sh e (run_work cd sh pre w1)) \<and>
        (\<forall>c \<in> set (sr_commits (snd (run_work cd sh es w1))). \<not> refused c)))"
proof -
  obtain w1 l where a: "lease_acquire cd n0 p h w = (w1, Inr l)"
    using assms by (auto simp: run_shard_def split: prod.splits sum.splits)
  define sh where "sh = \<lparr>sh_partition = p, sh_holder = h, sh_token = l_token l\<rparr>"
  have end_state: "result = Inr ()" "\<not> sr_lost (snd (run_work cd sh es w1))"
    using assms by (auto simp: run_shard_def a sh_def split: prod.splits sum.splits if_splits)
  have "leased sh e (run_work cd sh pre w1)" if "es = pre @ e # post" for pre e post
  proof (rule ccontr)
    assume "\<not> ?thesis"
    then have "sr_lost (snd (shard_step cd sh e (run_work cd sh pre w1)))" by (rule shard_step_leased)
    then have "sr_lost (snd (run_work cd sh es w1))"
      using fold_lost_mono [of "shard_step cd sh e (run_work cd sh pre w1)" cd sh post] by (simp add: that run_work_def)
    then show False using end_state(2) by blast
  qed
  then show ?thesis using a end_state run_work_lost [of cd sh es w1] by (auto simp: sh_def Let_def)
qed

lemma shard_success_was_leased_witness:
  "\<exists>l w1. lease_acquire demo_state_codec (0, Io_Ok, Delivered) ''p'' ''a'' (co_demo, Map.empty) = (w1, Inr l) \<and>
     leased \<lparr>sh_partition = ''p'', sh_holder = ''a'', sh_token = l_token l\<rparr> (Beat (20, Io_Ok, Delivered)) (w1, \<lparr>sr_lost = False, sr_commits = []\<rparr>)"
proof -
  have "snd (run_shard demo_state_codec ''a'' ''p'' (0, Io_Ok, Delivered) [Beat (20, Io_Ok, Delivered)] (Inr ()) (21, Io_Ok, Delivered)
      (co_demo, Map.empty)) = Inr ()"
    by (simp add: run_shard_def lease_acquire_def lease_renew_def heartbeat_def typed_call_def run_work_def acquire_def renew_def
        check_def is_live_def empty_lease_table_def counter_def Let_def split: prod.split)
  from shard_success_was_leased [OF this] obtain l w1 where l: "lease_acquire demo_state_codec (0, Io_Ok, Delivered) ''p'' ''a'' (co_demo, Map.empty) = (w1, Inr l)"
    "\<forall>pre e post. [Beat (20, Io_Ok, Delivered)] = pre @ e # post \<longrightarrow>
       leased \<lparr>sh_partition = ''p'', sh_holder = ''a'', sh_token = l_token l\<rparr> e
         (run_work demo_state_codec \<lparr>sh_partition = ''p'', sh_holder = ''a'', sh_token = l_token l\<rparr> pre w1)"
    unfolding Let_def by blast
  have "leased \<lparr>sh_partition = ''p'', sh_holder = ''a'', sh_token = l_token l\<rparr> (Beat (20, Io_Ok, Delivered))
      (run_work demo_state_codec \<lparr>sh_partition = ''p'', sh_holder = ''a'', sh_token = l_token l\<rparr> [] w1)"
    using l(2) [THEN spec, THEN spec, THEN spec, of "[]" "Beat (20, Io_Ok, Delivered)" "[]"] by simp
  then show ?thesis using l(1) unfolding run_work_def by auto
qed

end
