(* ===== verification/Pass_Graph.thy ===== *)
theory Pass_Graph
  imports Ekos_Prelude "HOL-Library.AList"
begin

text \<open>
  The dependency graph of the compiler's pass manager, \<open>compiler-core/src/pass.rs\<close>: validation,
  Kahn's algorithm (\<open>execution_order\<close>) and the layering of the parallel scheduler
  (\<open>execution_levels\<close>).

  A \<open>HashMap\<close> is an association list; the order in which its keys are iterated is given by a
  parameter \<open>bucket\<close>, the position of a key in the table.  A counter decremented below zero and
  an \<open>unwrap\<close> of a missing entry are panics, the value \<open>None\<close>; that they cannot happen is proved.
\<close>

text \<open>The part of the trait \<open>CompilerPass\<close> that the graph reads.\<close>

record pass_decl =
  pd_name :: string
  pd_deps :: "string list"

datatype scheduler_error =
    CycleDetected string
  | UnknownDependency string string
  | DuplicatePassName string

section \<open>Validation\<close>

fun check_unique_names :: "string list \<Rightarrow> pass_decl list \<Rightarrow> scheduler_error + unit" where
  "check_unique_names seen [] = Inr ()"
| "check_unique_names seen (p # ps) =
     (if pd_name p \<in> set seen then Inl (DuplicatePassName (pd_name p))
      else check_unique_names (pd_name p # seen) ps)"

fun check_known :: "string list \<Rightarrow> pass_decl list \<Rightarrow> scheduler_error + unit" where
  "check_known known [] = Inr ()"
| "check_known known (p # ps) =
     (case find (\<lambda>d. d \<notin> set known) (pd_deps p) of
        Some d \<Rightarrow> Inl (UnknownDependency (pd_name p) d)
      | None \<Rightarrow> check_known known ps)"

section \<open>Adjacency and in-degrees\<close>

type_synonym degrees = "(string \<times> nat) list"
type_synonym adjacency = "(string \<times> string list) list"

definition deps_edges :: "pass_decl list \<Rightarrow> (string \<times> string) list" where
  "deps_edges ps = concat (map (\<lambda>p. map (\<lambda>d. (d, pd_name p)) (pd_deps p)) ps)"

definition add_edge :: "string \<times> string \<Rightarrow> degrees \<times> adjacency \<Rightarrow> degrees \<times> adjacency" where
  "add_edge e = (\<lambda>(ind, adj).
     (AList.update (snd e) (Suc (the (map_of ind (snd e)))) ind,
      AList.update (fst e) (the (map_of adj (fst e)) @ [snd e]) adj))"

definition build_graph :: "pass_decl list \<Rightarrow> degrees \<times> adjacency" where
  "build_graph ps =
     fold add_edge (deps_edges ps) (map (\<lambda>p. (pd_name p, 0)) ps, map (\<lambda>p. (pd_name p, [])) ps)"

section \<open>Kahn's algorithm\<close>

fun relax :: "string list \<Rightarrow> degrees \<Rightarrow> string list \<Rightarrow> (degrees \<times> string list) option" where
  "relax [] ind q = Some (ind, q)"
| "relax (n # ns) ind q =
     (case map_of ind n of
        Some (Suc d) \<Rightarrow> relax ns (AList.update n d ind) (if d = 0 then q @ [n] else q)
      | _ \<Rightarrow> None)"

abbreviation degree_sum :: "degrees \<Rightarrow> nat" where
  "degree_sum ind \<equiv> sum_list (map snd ind)"

lemma degree_sum_update:
  "map_of ind n = Some (Suc d) \<Longrightarrow> Suc (degree_sum (AList.update n d ind)) = degree_sum ind"
  by (induction ind) auto

lemma relax_measure:
  "relax ns ind q = Some (ind', q') \<Longrightarrow> degree_sum ind' + length q' \<le> degree_sum ind + length q"
proof (induction ns ind q rule: relax.induct)
  case (2 n ns ind q)
  then obtain d where d: "map_of ind n = Some (Suc d)"
    and r: "relax ns (AList.update n d ind) (if d = 0 then q @ [n] else q) = Some (ind', q')"
    by (auto split: option.splits nat.splits)
  show ?case using "2.IH" [OF d refl r] degree_sum_update [OF d] by (auto split: if_splits)
qed simp

function kahn :: "adjacency \<Rightarrow> degrees \<Rightarrow> string list \<Rightarrow> string list \<Rightarrow> string list option" where
  "kahn adj ind [] order = Some order"
| "kahn adj ind (n # q) order =
     (case map_of adj n of
        None \<Rightarrow> None
      | Some ns \<Rightarrow>
          (case relax ns ind q of
             None \<Rightarrow> None
           | Some (ind', q') \<Rightarrow> kahn adj ind' q' (order @ [n])))"
  by pat_completeness auto
termination
  by (relation "measure (\<lambda>(adj, ind, q, order). degree_sum ind + length q)")
    (auto dest: relax_measure simp: le_imp_less_Suc)

definition free :: "(string \<Rightarrow> nat) \<Rightarrow> degrees \<Rightarrow> string list" where
  "free bucket ind = sort_key bucket (map fst (filter (\<lambda>e. snd e = 0) ind))"

definition execution_order ::
  "(string \<Rightarrow> nat) \<Rightarrow> pass_decl list \<Rightarrow> (scheduler_error + string list) option" where
  "execution_order bucket ps =
     (case check_unique_names [] ps of
        Inl e \<Rightarrow> Some (Inl e)
      | Inr _ \<Rightarrow>
        (case check_known (map pd_name ps) ps of
           Inl e \<Rightarrow> Some (Inl e)
         | Inr _ \<Rightarrow>
           (case build_graph ps of
              (ind, adj) \<Rightarrow>
                (case kahn adj ind (free bucket ind) [] of
                   None \<Rightarrow> None
                 | Some order \<Rightarrow>
                     if length order \<noteq> length ps then
                       Some (Inl (CycleDetected
                         (case find (\<lambda>p. pd_name p \<notin> set order) ps of None \<Rightarrow> [] | Some p \<Rightarrow> pd_name p)))
                     else Some (Inr order)))))"

section \<open>Levels\<close>

text \<open>
  One round removes every pass without open dependencies and lowers the counters of the passes
  still there.
\<close>

fun lower_counts :: "string list \<Rightarrow> degrees \<Rightarrow> degrees option" where
  "lower_counts [] rem = Some rem"
| "lower_counts (n # ns) rem =
     (case map_of rem n of
        None \<Rightarrow> lower_counts ns rem
      | Some 0 \<Rightarrow> None
      | Some (Suc d) \<Rightarrow> lower_counts ns (AList.update n d rem))"

fun remove_level :: "adjacency \<Rightarrow> string list \<Rightarrow> degrees \<Rightarrow> degrees option" where
  "remove_level adj [] rem = Some rem"
| "remove_level adj (n # ns) rem =
     (case map_of adj n of
        None \<Rightarrow> None
      | Some ms \<Rightarrow>
          (case lower_counts ms (AList.delete n rem) of
             None \<Rightarrow> None
           | Some rem' \<Rightarrow> remove_level adj ns rem'))"

lemma lower_length: "lower_counts ns rem = Some rem' \<Longrightarrow> length rem' = length rem"
proof (induction ns rem rule: lower_counts.induct)
  case (2 n ns rem)
  have "length (AList.update n d rem) = length rem" if "map_of rem n = Some e" for d e
    using that by (induction rem) auto
  with 2 show ?case by (auto split: option.splits nat.splits)
qed simp

lemma delete_length_le: "length (AList.delete n rem) \<le> length rem"
  by (simp add: AList.delete_eq)

lemma delete_length_less: "n \<in> fst ` set rem \<Longrightarrow> length (AList.delete n rem) < length rem"
  by (induction rem) (auto simp: AList.delete_eq intro: le_imp_less_Suc)

lemma remove_level_le: "remove_level adj ns rem = Some rem' \<Longrightarrow> length rem' \<le> length rem"
proof (induction adj ns rem rule: remove_level.induct)
  case (2 adj n ns rem)
  then obtain ms rem1 where m: "map_of adj n = Some ms" "lower_counts ms (AList.delete n rem) = Some rem1"
      "remove_level adj ns rem1 = Some rem'"
    by (auto split: option.splits)
  show ?case
    using "2.IH" [OF m] lower_length [OF m(2)] delete_length_le [of n rem] by simp
qed simp

lemma remove_level_less:
  assumes "remove_level adj (n # ns) rem = Some rem'" "n \<in> fst ` set rem"
  shows "length rem' < length rem"
proof -
  obtain ms rem1 where m: "map_of adj n = Some ms" "lower_counts ms (AList.delete n rem) = Some rem1"
      "remove_level adj ns rem1 = Some rem'"
    using assms(1) by (auto split: option.splits)
  show ?thesis
    using remove_level_le [OF m(3)] lower_length [OF m(2)] delete_length_less [OF assms(2)] by simp
qed

lemma set_free: "set (free bucket ind) = {n. (n, 0) \<in> set ind}"
  by (force simp: free_def)

function level_loop ::
  "(string \<Rightarrow> nat) \<Rightarrow> adjacency \<Rightarrow> degrees \<Rightarrow> string list list \<Rightarrow> nat \<Rightarrow> (string list list \<times> nat) option" where
  "level_loop bucket adj rem levels cnt =
     (case free bucket rem of
        [] \<Rightarrow> Some (levels, cnt)
      | n # ns \<Rightarrow>
          (case remove_level adj (n # ns) rem of
             None \<Rightarrow> None
           | Some rem' \<Rightarrow> level_loop bucket adj rem' (levels @ [sort (n # ns)]) (cnt + length (n # ns))))"
  by pat_completeness auto
termination
proof (relation "measure (\<lambda>(bucket, adj, rem, levels, cnt). length rem)", goal_cases)
  case (2 bucket adj rem levels cnt n ns rem')
  have "(n, 0) \<in> set rem" using set_free [of bucket rem] 2(1) by auto
  then have "n \<in> fst ` set rem" by force
  then show ?case using remove_level_less [OF 2(2)] by simp
qed simp

declare level_loop.simps [simp del]

definition execution_levels ::
  "(string \<Rightarrow> nat) \<Rightarrow> pass_decl list \<Rightarrow> (scheduler_error + string list list) option" where
  "execution_levels bucket ps =
     (case check_unique_names [] ps of
        Inl e \<Rightarrow> Some (Inl e)
      | Inr _ \<Rightarrow>
        (case check_known (map pd_name ps) ps of
           Inl e \<Rightarrow> Some (Inl e)
         | Inr _ \<Rightarrow>
           (case build_graph ps of
              (rem, adj) \<Rightarrow>
                (case level_loop bucket adj rem [] 0 of
                   None \<Rightarrow> None
                 | Some (levels, cnt) \<Rightarrow>
                     if cnt \<noteq> length ps then
                       Some (Inl (CycleDetected
                         (case find (\<lambda>p. pd_name p \<notin> set (concat levels)) ps of
                            None \<Rightarrow> [] | Some p \<Rightarrow> pd_name p)))
                     else Some (Inr levels)))))"


section \<open>What the graph holds\<close>

definition deps_of :: "pass_decl list \<Rightarrow> string \<Rightarrow> string list" where
  "deps_of ps n = (case map_of (map (\<lambda>p. (pd_name p, pd_deps p)) ps) n of None \<Rightarrow> [] | Some ds \<Rightarrow> ds)"

definition pass_names :: "pass_decl list \<Rightarrow> string set" where
  "pass_names ps = set (map pd_name ps)"

definition well_formed :: "pass_decl list \<Rightarrow> bool" where
  "well_formed ps \<longleftrightarrow> distinct (map pd_name ps) \<and> (\<forall>p \<in> set ps. set (pd_deps p) \<subseteq> pass_names ps)"

lemma check_unique_Inr:
  "check_unique_names seen ps = Inr u \<longleftrightarrow> distinct (map pd_name ps) \<and> pass_names ps \<inter> set seen = {}"
  by (induction seen ps rule: check_unique_names.induct) (auto simp: pass_names_def)

lemma check_known_Inr: "check_known known ps = Inr u \<longleftrightarrow> (\<forall>p \<in> set ps. set (pd_deps p) \<subseteq> set known)"
proof (induction known ps rule: check_known.induct)
  case (2 known p ps)
  show ?case
  proof (cases "find (\<lambda>d. d \<notin> set known) (pd_deps p)")
    case None
    then have "set (pd_deps p) \<subseteq> set known" by (auto simp: find_None_iff)
    with None 2 show ?thesis by simp
  next
    case (Some d)
    then have "\<not> set (pd_deps p) \<subseteq> set known" by (auto dest: find_SomeD)
    with Some show ?thesis by simp
  qed
qed simp

lemma check_unique_Inl:
  "check_unique_names seen ps = Inl e \<Longrightarrow>
     \<exists>p qs rs. e = DuplicatePassName (pd_name p) \<and> ps = qs @ p # rs \<and> pd_name p \<in> set seen \<union> set (map pd_name qs)"
proof (induction seen ps rule: check_unique_names.induct)
  case (2 seen p ps)
  show ?case
  proof (cases "pd_name p \<in> set seen")
    case True
    then show ?thesis using 2(2) by (intro exI [of _ p] exI [of _ "[]"] exI [of _ ps]) simp
  next
    case False
    then obtain x qs rs where "e = DuplicatePassName (pd_name x)" "ps = qs @ x # rs"
        "pd_name x \<in> set (pd_name p # seen) \<union> set (map pd_name qs)"
      using 2 by auto
    then show ?thesis by (intro exI [of _ x] exI [of _ "p # qs"] exI [of _ rs]) auto
  qed
qed simp

lemma check_known_Inl:
  "check_known known ps = Inl e \<Longrightarrow>
     \<exists>p d. e = UnknownDependency (pd_name p) d \<and> p \<in> set ps \<and> d \<in> set (pd_deps p) \<and> d \<notin> set known"
proof (induction known ps rule: check_known.induct)
  case (2 known p ps)
  then show ?case
    by (cases "find (\<lambda>d. d \<notin> set known) (pd_deps p)") (auto dest: find_SomeD)
qed simp

lemma validated:
  "well_formed ps \<longleftrightarrow> (\<exists>u v. check_unique_names [] ps = Inr u \<and> check_known (map pd_name ps) ps = Inr v)"
  by (simp add: well_formed_def check_unique_Inr check_known_Inr pass_names_def)

lemma map_of_update: "map_of (AList.update k v al) = (map_of al)(k \<mapsto> v)"
  by (rule update_conv')

lemma keys_update: "k \<in> set (map fst al) \<Longrightarrow> map fst (AList.update k v al) = map fst al"
  by (simp add: update_keys)

lemma fold_add_edge:
  assumes "\<forall>e \<in> set es. snd e \<in> set (map fst ind) \<and> fst e \<in> set (map fst adj)"
  shows "map fst (fst (fold add_edge es (ind, adj))) = map fst ind"
    and "map_of (fst (fold add_edge es (ind, adj))) n = map_option (\<lambda>d. d + count_list (map snd es) n) (map_of ind n)"
    and "map_of (snd (fold add_edge es (ind, adj))) m =
      map_option (\<lambda>l. l @ map snd (filter (\<lambda>e. fst e = m) es)) (map_of adj m)"
proof -
  have "map fst (fst (fold add_edge es (ind, adj))) = map fst ind \<and>
    map_of (fst (fold add_edge es (ind, adj))) n = map_option (\<lambda>d. d + count_list (map snd es) n) (map_of ind n) \<and>
    map_of (snd (fold add_edge es (ind, adj))) m =
      map_option (\<lambda>l. l @ map snd (filter (\<lambda>e. fst e = m) es)) (map_of adj m)"
    using assms
  proof (induction es arbitrary: ind adj)
    case Nil
    then show ?case by (simp add: option.map_ident)
  next
    case (Cons e es)
    have k: "snd e \<in> set (map fst ind)" "fst e \<in> set (map fst adj)" using Cons.prems by simp_all
    obtain d l where dl: "map_of ind (snd e) = Some d" "map_of adj (fst e) = Some l"
      using k by (metis domIff dom_map_of_conv_image_fst list.set_map option.exhaust)
    have "\<forall>x \<in> set es. snd x \<in> set (map fst (AList.update (snd e) (Suc d) ind)) \<and>
        fst x \<in> set (map fst (AList.update (fst e) (l @ [snd e]) adj))"
      using Cons.prems by (simp add: keys_update k del: set_map list.set_map)
    from Cons.IH [OF this] show ?case
      using dl k by (auto simp: add_edge_def keys_update map_of_update option.map_comp comp_def)
  qed
  then show "map fst (fst (fold add_edge es (ind, adj))) = map fst ind"
    "map_of (fst (fold add_edge es (ind, adj))) n = map_option (\<lambda>d. d + count_list (map snd es) n) (map_of ind n)"
    "map_of (snd (fold add_edge es (ind, adj))) m =
      map_option (\<lambda>l. l @ map snd (filter (\<lambda>e. fst e = m) es)) (map_of adj m)" by blast+
qed

lemma count_list_append: "count_list (xs @ ys) x = count_list xs x + count_list ys x"
  by (induction xs) auto

lemma edges_Cons: "deps_edges (p # ps) = map (\<lambda>d. (d, pd_name p)) (pd_deps p) @ deps_edges ps"
  by (simp add: deps_edges_def)

lemma edges_absent: "n \<notin> pass_names ps \<Longrightarrow> count_list (map snd (filter P (deps_edges ps))) n = 0"
  by (induction ps) (auto simp: deps_edges_def count_list_0_iff pass_names_def)

lemma count_const: "count_list (map (\<lambda>d. m) xs) n = (if m = n then length xs else 0)"
  by (induction xs) auto

lemma edges_in:
  assumes "distinct (map pd_name ps)"
  shows "count_list (map snd (filter P (deps_edges ps))) n = length (filter (\<lambda>d. P (d, n)) (deps_of ps n))"
  using assms
proof (induction ps)
  case Nil
  then show ?case by (simp add: deps_edges_def deps_of_def)
next
  case (Cons p ps)
  have f: "map snd (filter P (map (\<lambda>d. (d, pd_name p)) ds)) = map (\<lambda>d. pd_name p) (filter (\<lambda>d. P (d, pd_name p)) ds)" for ds
    by (induction ds) auto
  show ?case
  proof (cases "n = pd_name p")
    case True
    then show ?thesis using Cons.prems edges_absent [of n ps P]
      by (simp add: pass_names_def edges_Cons count_list_append f count_const deps_of_def)
  next
    case False
    then show ?thesis using Cons
      by (simp add: edges_Cons count_list_append f count_const deps_of_def)
  qed
qed

lemma edges_named:
  "well_formed ps \<Longrightarrow> e \<in> set (deps_edges ps) \<Longrightarrow> snd e \<in> pass_names ps \<and> fst e \<in> pass_names ps"
  by (fastforce simp: deps_edges_def well_formed_def pass_names_def)

lemma map_of_const:
  "map_of (map (\<lambda>p. (pd_name p, x)) ps) n = (if n \<in> pass_names ps then Some x else None)"
  by (induction ps) (auto simp: pass_names_def)

text \<open>
  The counter of a pass is the number of its dependencies, the successors of a pass are those that
  depend on it, each as often as it does.
\<close>

definition succs :: "pass_decl list \<Rightarrow> string \<Rightarrow> string list" where
  "succs ps d = map snd (filter (\<lambda>e. fst e = d) (deps_edges ps))"

lemma build_graph_spec:
  assumes "well_formed ps" "build_graph ps = (ind, adj)"
  shows "map fst ind = map pd_name ps"
    and "map_of ind n = (if n \<in> pass_names ps then Some (length (deps_of ps n)) else None)"
    and "map_of adj n = (if n \<in> pass_names ps then Some (succs ps n) else None)"
proof -
  let ?i = "map (\<lambda>p. (pd_name p, 0)) ps" and ?a = "map (\<lambda>p. (pd_name p, [])) ps"
  have keys: "map fst ?i = map pd_name ps" "map fst ?a = map pd_name ps" by simp_all
  have es: "\<forall>e \<in> set (deps_edges ps). snd e \<in> set (map fst ?i) \<and> fst e \<in> set (map fst ?a)"
    using edges_named [OF assms(1)] by (simp add: comp_def pass_names_def)
  have f: "fold add_edge (deps_edges ps) (?i, ?a) = (ind, adj)" using assms(2) by (simp add: build_graph_def)
  note r = fold_add_edge [OF es, unfolded f fst_conv snd_conv]
  have d: "distinct (map pd_name ps)" using assms(1) by (simp add: well_formed_def)
  show "map fst ind = map pd_name ps" using r(1) by (simp add: comp_def)
  show "map_of ind n = (if n \<in> pass_names ps then Some (length (deps_of ps n)) else None)"
    using r(2) [of n] edges_in [OF d, of "\<lambda>_. True" n] by (simp add: map_of_const)
  show "map_of adj n = (if n \<in> pass_names ps then Some (succs ps n) else None)"
    using r(3) [of n] by (simp add: map_of_const succs_def)
qed

lemma count_succs:
  assumes "distinct (map pd_name ps)"
  shows "count_list (succs ps d) n = count_list (deps_of ps n) d"
proof -
  have "count_list (succs ps d) n = length (filter (\<lambda>x. x = d) (deps_of ps n))"
    using edges_in [OF assms, of "\<lambda>e. fst e = d" n] by (simp add: succs_def)
  also have "(\<lambda>x. x = d) = (=) d" by auto
  finally show ?thesis by (simp add: count_list_eq_length_filter)
qed

lemma deps_of_cases:
  obtains (pass) p where "p \<in> set ps" "pd_name p = n" "deps_of ps n = pd_deps p"
  | (absent) "n \<notin> pass_names ps" "deps_of ps n = []"
proof (cases "map_of (map (\<lambda>p. (pd_name p, pd_deps p)) ps) n")
  case None
  then have "n \<notin> pass_names ps" by (auto simp: map_of_eq_None_iff image_iff pass_names_def)
  then show ?thesis using absent None by (simp add: deps_of_def)
next
  case (Some ds)
  then have "deps_of ps n = ds" by (simp add: deps_of_def)
  moreover obtain p where "p \<in> set ps" "pd_name p = n" "pd_deps p = ds"
    using map_of_SomeD [OF Some] by auto
  ultimately show ?thesis using pass by metis
qed

lemma deps_of_absent: "n \<notin> pass_names ps \<Longrightarrow> deps_of ps n = []"
  by (cases rule: deps_of_cases [of ps n]) (auto simp: pass_names_def)

lemma deps_of_subset: "well_formed ps \<Longrightarrow> set (deps_of ps n) \<subseteq> pass_names ps"
  by (rule deps_of_cases [of ps n]) (auto simp: well_formed_def)


section \<open>Passes without a cycle below them\<close>

text \<open>
  The passes that can ever run: those whose dependencies all can.  What is left over waits for
  itself.
\<close>

inductive_set grounded :: "pass_decl list \<Rightarrow> string set" for ps where
  grounded: "n \<in> pass_names ps \<Longrightarrow> (\<And>d. d \<in> set (deps_of ps n) \<Longrightarrow> d \<in> grounded ps) \<Longrightarrow> n \<in> grounded ps"

lemma grounded_named: "n \<in> grounded ps \<Longrightarrow> n \<in> pass_names ps"
  by (erule grounded.cases) simp

fun after_deps :: "pass_decl list \<Rightarrow> string set \<Rightarrow> string list \<Rightarrow> bool" where
  "after_deps ps seen [] \<longleftrightarrow> True"
| "after_deps ps seen (n # ns) \<longleftrightarrow> set (deps_of ps n) \<subseteq> seen \<and> after_deps ps (insert n seen) ns"

lemma after_deps_append:
  "after_deps ps seen (xs @ ys) \<longleftrightarrow> after_deps ps seen xs \<and> after_deps ps (set xs \<union> seen) ys"
  by (induction xs arbitrary: seen) (simp_all add: insert_commute)

lemma after_deps_grounded:
  "after_deps ps seen ns \<Longrightarrow> seen \<subseteq> grounded ps \<Longrightarrow> set ns \<subseteq> pass_names ps \<Longrightarrow> set ns \<subseteq> grounded ps"
proof (induction ps seen ns rule: after_deps.induct)
  case (2 ps seen n ns)
  have "n \<in> grounded ps"
  proof (rule grounded.intros)
    show "n \<in> pass_names ps" using 2(4) by simp
    show "d \<in> grounded ps" if "d \<in> set (deps_of ps n)" for d using that 2(2,3) by auto
  qed
  then have "insert n seen \<subseteq> grounded ps" using 2(3) by simp
  then have "set ns \<subseteq> grounded ps" using "2.IH" 2(2,4) by simp
  with \<open>n \<in> grounded ps\<close> show ?case by simp
qed simp

text \<open>Dependencies of \<open>n\<close> that are not in \<open>P\<close>, repetitions counted.\<close>

definition open_deps :: "pass_decl list \<Rightarrow> string set \<Rightarrow> string \<Rightarrow> nat" where
  "open_deps ps P n = length (filter (\<lambda>d. d \<notin> P) (deps_of ps n))"

lemma open_deps_insert:
  assumes "m \<notin> P"
  shows "open_deps ps P n = open_deps ps (insert m P) n + count_list (deps_of ps n) m"
proof -
  have "length (filter (\<lambda>d. d \<notin> P) ds) = length (filter (\<lambda>d. d \<notin> insert m P) ds) + count_list ds m" for ds
    using assms by (induction ds) auto
  then show ?thesis by (simp add: open_deps_def)
qed

lemma open_deps_0: "open_deps ps P n = 0 \<longleftrightarrow> set (deps_of ps n) \<subseteq> P"
  by (auto simp: open_deps_def filter_empty_conv)

lemma closed_grounded:
  assumes "\<And>n. n \<in> pass_names ps \<Longrightarrow> set (deps_of ps n) \<subseteq> P \<Longrightarrow> n \<in> P"
  shows "grounded ps \<subseteq> P"
proof
  fix n assume "n \<in> grounded ps"
  then show "n \<in> P"
  proof (induction rule: grounded.induct)
    case (grounded n)
    then show ?case by (intro assms) auto
  qed
qed

section \<open>Kahn's algorithm is correct\<close>

lemma relax_spec:
  assumes "\<And>n. n \<in> set ns \<Longrightarrow> \<exists>d. map_of ind n = Some d \<and> count_list ns n \<le> d"
  shows "\<exists>ind' new. relax ns ind q = Some (ind', q @ new) \<and> map fst ind' = map fst ind \<and>
    (\<forall>n. map_of ind' n = map_option (\<lambda>d. d - count_list ns n) (map_of ind n)) \<and>
    distinct new \<and> (\<forall>n. n \<in> set new \<longleftrightarrow> n \<in> set ns \<and> map_of ind n = Some (count_list ns n))"
  using assms
proof (induction ns arbitrary: ind q)
  case Nil
  then show ?case by (simp add: option.map_ident)
next
  case (Cons m ns)
  obtain d where d: "map_of ind m = Some d" "Suc (count_list ns m) \<le> d" using Cons.prems [of m] by auto
  then obtain e where e: "d = Suc e" "count_list ns m \<le> e" by (cases d) auto
  let ?ind = "AList.update m e ind"
  have k: "m \<in> set (map fst ind)" using d(1) by (force dest: map_of_SomeD)
  have pre: "\<exists>d. map_of ?ind n = Some d \<and> count_list ns n \<le> d" if "n \<in> set ns" for n
    using that Cons.prems [of n] e(2) by (auto simp: map_of_update split: if_splits)
  obtain ind' new where r: "relax ns ?ind (if e = 0 then q @ [m] else q) = Some (ind', (if e = 0 then q @ [m] else q) @ new)"
    "map fst ind' = map fst ?ind"
    "\<forall>n. map_of ind' n = map_option (\<lambda>d. d - count_list ns n) (map_of ?ind n)" "distinct new"
    "\<forall>n. n \<in> set new \<longleftrightarrow> n \<in> set ns \<and> map_of ?ind n = Some (count_list ns n)"
    using Cons.IH [OF pre, of "if e = 0 then q @ [m] else q"] by blast
  let ?new = "if e = 0 then m # new else new"
  have "relax (m # ns) ind q = Some (ind', q @ ?new)" using r(1) d e by simp
  moreover have "map fst ind' = map fst ind" using r(2) keys_update [OF k] by simp
  moreover have "map_of ind' n = map_option (\<lambda>d. d - count_list (m # ns) n) (map_of ind n)" for n
    using r(3) d e by (auto simp: map_of_update)
  moreover have m0: "m \<notin> set ns" if "e = 0" using e that by (simp add: count_list_0_iff)
  have "distinct ?new" using r(4,5) m0 by auto
  moreover have "n \<in> set ?new \<longleftrightarrow> n \<in> set (m # ns) \<and> map_of ind n = Some (count_list (m # ns) n)" for n
  proof (cases "n = m")
    case True
    have "count_list ns m = 0 \<longleftrightarrow> m \<notin> set ns" by (rule count_list_0_iff)
    then show ?thesis using r(5) [rule_format, of m] d e True by (auto simp: map_of_update)
  next
    case False
    then show ?thesis using r(5) [rule_format, of n] by (auto simp: map_of_update)
  qed
  ultimately show ?case by blast
qed

definition kahn_inv :: "pass_decl list \<Rightarrow> degrees \<Rightarrow> string list \<Rightarrow> string list \<Rightarrow> bool" where
  "kahn_inv ps ind q order \<longleftrightarrow>
     distinct (order @ q) \<and> set (order @ q) \<subseteq> pass_names ps \<and>
     (\<forall>n \<in> pass_names ps. map_of ind n = Some (open_deps ps (set order) n)) \<and>
     (\<forall>n \<in> pass_names ps. n \<in> set (order @ q) \<longleftrightarrow> open_deps ps (set order) n = 0) \<and>
     after_deps ps {} order"

lemma kahn_inv_step:
  assumes wf: "well_formed ps" and inv: "kahn_inv ps ind (m # q) order"
  shows "\<exists>ind' q'. relax (succs ps m) ind q = Some (ind', q') \<and> kahn_inv ps ind' q' (order @ [m])"
proof -
  let ?V = "pass_names ps" and ?P = "set order" and ?P' = "set (order @ [m])"
  have d: "distinct (map pd_name ps)" using wf by (simp add: well_formed_def)
  have m: "m \<notin> ?P" "m \<in> ?V" "open_deps ps ?P m = 0" using inv by (auto simp: kahn_inv_def)
  have cnt: "count_list (succs ps m) n = count_list (deps_of ps n) m" for n by (rule count_succs [OF d])
  have drop: "open_deps ps ?P n = open_deps ps ?P' n + count_list (deps_of ps n) m" for n
    using open_deps_insert [OF m(1)] by simp
  have ind: "map_of ind n = Some (open_deps ps ?P n)" if "n \<in> ?V" for n using inv that by (simp add: kahn_inv_def)
  have sv: "n \<in> ?V" if "n \<in> set (succs ps m)" for n
  proof (rule ccontr)
    assume "n \<notin> ?V"
    then have "deps_of ps n = []" by (rule deps_of_absent)
    then show False using that cnt [of n] count_list_0_iff by fastforce
  qed
  have pre: "\<exists>k. map_of ind n = Some k \<and> count_list (succs ps m) n \<le> k" if "n \<in> set (succs ps m)" for n
    using ind [OF sv [OF that]] cnt drop by simp
  obtain ind' new where r: "relax (succs ps m) ind q = Some (ind', q @ new)"
    "\<forall>n. map_of ind' n = map_option (\<lambda>k. k - count_list (succs ps m) n) (map_of ind n)" "distinct new"
    "\<forall>n. n \<in> set new \<longleftrightarrow> n \<in> set (succs ps m) \<and> map_of ind n = Some (count_list (succs ps m) n)"
    using relax_spec [OF pre, of q] by blast
  have new: "n \<in> set new \<longleftrightarrow> n \<in> ?V \<and> open_deps ps ?P n \<noteq> 0 \<and> open_deps ps ?P' n = 0" for n
    using r(4) sv ind cnt drop [of n] count_list_0_iff [of "succs ps m" n] by fastforce
  have old: "n \<in> ?V \<Longrightarrow> n \<in> ?P \<or> n = m \<or> n \<in> set q \<longleftrightarrow> open_deps ps ?P n = 0" for n
    using inv by (auto simp: kahn_inv_def)
  have "kahn_inv ps ind' (q @ new) (order @ [m])"
    unfolding kahn_inv_def
  proof (intro conjI ballI)
    have "n \<notin> set new" if "n \<in> set order \<or> n = m \<or> n \<in> set q" for n
      using that new [of n] old [of n] by auto
    then show "distinct ((order @ [m]) @ q @ new)"
      using inv r(3) by (auto simp: kahn_inv_def)
    show "set ((order @ [m]) @ q @ new) \<subseteq> ?V"
      using inv new by (auto simp: kahn_inv_def)
    fix n assume n: "n \<in> ?V"
    show "map_of ind' n = Some (open_deps ps ?P' n)"
      using r(2) ind [OF n] cnt drop [of n] by simp
    show "n \<in> set ((order @ [m]) @ q @ new) \<longleftrightarrow> open_deps ps ?P' n = 0"
      using old [OF n] new [of n] n drop [of n] by auto
  next
    show "after_deps ps {} (order @ [m])"
      using inv m(3) by (simp add: after_deps_append open_deps_0 kahn_inv_def)
  qed
  then show ?thesis using r(1) by blast
qed

lemma kahn_spec:
  assumes "well_formed ps" "\<And>n. n \<in> pass_names ps \<Longrightarrow> map_of adj n = Some (succs ps n)"
    "kahn_inv ps ind q order"
  shows "\<exists>res. kahn adj ind q order = Some res \<and> distinct res \<and> set res = grounded ps \<and> after_deps ps {} res"
  using assms
proof (induction adj ind q order rule: kahn.induct)
  case (1 adj ind order)
  have sub: "set order \<subseteq> grounded ps"
    using 1(3) after_deps_grounded [of ps "{}" order] by (auto simp: kahn_inv_def)
  have "grounded ps \<subseteq> set order"
    using 1(3) by (intro closed_grounded) (auto simp: kahn_inv_def open_deps_0)
  then show ?case using sub 1(3) by (simp add: kahn_inv_def)
next
  case (2 adj ind m q order)
  obtain ind' q' where s: "relax (succs ps m) ind q = Some (ind', q')" "kahn_inv ps ind' q' (order @ [m])"
    using kahn_inv_step [OF "2.prems"(1,3)] by blast
  have a: "map_of adj m = Some (succs ps m)" using "2.prems"(2,3) by (simp add: kahn_inv_def)
  show ?case using "2.IH" [OF a s(1) refl "2.prems"(1,2) s(2)] a s(1) by simp
qed


lemma free_spec:
  assumes "distinct (map fst ind)"
  shows "distinct (free bucket ind)" "n \<in> set (free bucket ind) \<longleftrightarrow> map_of ind n = Some 0"
proof -
  have "distinct (map fst (filter (\<lambda>e. snd e = 0) ind))"
    using assms by (rule distinct_map_filter)
  then show "distinct (free bucket ind)" by (simp add: free_def)
  show "n \<in> set (free bucket ind) \<longleftrightarrow> map_of ind n = Some 0"
    using assms by (simp add: set_free map_of_eq_Some_iff)
qed

lemma length_grounded:
  assumes "well_formed ps" "distinct xs" "set xs = grounded ps"
  shows "length xs = length ps \<longleftrightarrow> grounded ps = pass_names ps"
proof -
  have v: "card (pass_names ps) = length ps"
    using distinct_card [of "map pd_name ps"] assms(1) by (simp only: well_formed_def pass_names_def length_map)
  have g: "card (grounded ps) = length xs" using assms(2,3) distinct_card by metis
  have sub: "grounded ps \<subseteq> pass_names ps" using grounded_named by blast
  have "finite (pass_names ps)" by (simp add: pass_names_def)
  then show ?thesis using card_subset_eq [OF _ sub] v g by metis
qed

text \<open>A pass that is left over: registered, and waiting for another left-over pass.\<close>

definition stuck :: "pass_decl list \<Rightarrow> string \<Rightarrow> bool" where
  "stuck ps n \<longleftrightarrow> (\<exists>C. n \<in> C \<and> C \<subseteq> pass_names ps \<and> (\<forall>m \<in> C. \<exists>d \<in> set (deps_of ps m). d \<in> C))"

lemma stuck_not_grounded:
  assumes "well_formed ps" "n \<in> pass_names ps"
  shows "stuck ps n \<longleftrightarrow> n \<notin> grounded ps"
proof
  assume "n \<notin> grounded ps"
  moreover have "\<exists>d \<in> set (deps_of ps m). d \<in> pass_names ps - grounded ps" if "m \<in> pass_names ps - grounded ps" for m
    using that grounded.intros [of m ps] deps_of_subset [OF assms(1), of m] by blast
  ultimately show "stuck ps n" using assms(2) by (auto simp: stuck_def intro!: exI [of _ "pass_names ps - grounded ps"])
next
  assume "stuck ps n"
  then obtain C where C: "n \<in> C" "\<forall>m \<in> C. \<exists>d \<in> set (deps_of ps m). d \<in> C" by (auto simp: stuck_def)
  have "m \<notin> C" if "m \<in> grounded ps" for m
    using that by (induction rule: grounded.induct) (use C(2) in blast)
  then show "n \<notin> grounded ps" using C(1) by blast
qed

text \<open>The name reported for a cycle: the first registered pass that was not placed.\<close>

definition first_stuck :: "pass_decl list \<Rightarrow> string" where
  "first_stuck ps = (case find (\<lambda>p. pd_name p \<notin> grounded ps) ps of None \<Rightarrow> [] | Some p \<Rightarrow> pd_name p)"

lemma first_stuck_stuck:
  assumes "well_formed ps" "grounded ps \<noteq> pass_names ps"
  shows "first_stuck ps \<in> pass_names ps" "stuck ps (first_stuck ps)"
proof -
  have "\<exists>p \<in> set ps. pd_name p \<notin> grounded ps" using assms(2) grounded_named by (auto simp: pass_names_def)
  then obtain p where p: "find (\<lambda>p. pd_name p \<notin> grounded ps) ps = Some p"
    by (cases "find (\<lambda>p. pd_name p \<notin> grounded ps) ps") (auto simp: find_None_iff)
  then have "p \<in> set ps" "pd_name p \<notin> grounded ps" using find_SomeD [OF p] by simp_all
  then show "first_stuck ps \<in> pass_names ps" "stuck ps (first_stuck ps)"
    using p stuck_not_grounded [OF assms(1), of "pd_name p"] by (auto simp: first_stuck_def pass_names_def)
qed

lemma execution_order_valid:
  assumes "well_formed ps"
  shows "\<exists>order. distinct order \<and> set order = grounded ps \<and> after_deps ps {} order \<and>
    execution_order bucket ps =
      Some (if grounded ps = pass_names ps then Inr order else Inl (CycleDetected (first_stuck ps)))"
proof -
  obtain ind adj where b: "build_graph ps = (ind, adj)" by (metis prod.collapse)
  note g = build_graph_spec [OF assms b]
  obtain u v where c: "check_unique_names [] ps = Inr u" "check_known (map pd_name ps) ps = Inr v"
    using assms validated by blast
  have d: "distinct (map fst ind)" using assms g(1) by (simp add: well_formed_def)
  have "kahn_inv ps ind (free bucket ind) []"
    using free_spec [where bucket = bucket, OF d] g(2)
    by (auto simp: kahn_inv_def open_deps_def split: if_splits)
  from kahn_spec [OF assms _ this, of adj] g(3)
  obtain order where o: "kahn adj ind (free bucket ind) [] = Some order"
    "distinct order" "set order = grounded ps" "after_deps ps {} order" by auto
  then show ?thesis
    using length_grounded [OF assms o(2,3)]
    by (intro exI [of _ order]) (simp add: execution_order_def c b first_stuck_def)
qed


section \<open>The levels are correct\<close>

lemma lower_spec:
  assumes "\<And>n d. n \<in> set ns \<Longrightarrow> map_of rem n = Some d \<Longrightarrow> count_list ns n \<le> d"
  shows "\<exists>rem'. lower_counts ns rem = Some rem' \<and> map fst rem' = map fst rem \<and>
    (\<forall>n. map_of rem' n = map_option (\<lambda>d. d - count_list ns n) (map_of rem n))"
  using assms
proof (induction ns arbitrary: rem)
  case Nil
  then show ?case by (simp add: option.map_ident)
next
  case (Cons m ns)
  show ?case
  proof (cases "map_of rem m")
    case None
    have "\<exists>rem'. lower_counts ns rem = Some rem' \<and> map fst rem' = map fst rem \<and>
        (\<forall>n. map_of rem' n = map_option (\<lambda>d. d - count_list ns n) (map_of rem n))"
      by (rule Cons.IH) (use Cons.prems None in \<open>fastforce split: if_splits\<close>)
    then obtain rem' where r: "lower_counts ns rem = Some rem'" "map fst rem' = map fst rem"
        "\<forall>n. map_of rem' n = map_option (\<lambda>d. d - count_list ns n) (map_of rem n)" by blast
    have "map_of rem' n = map_option (\<lambda>d. d - count_list (m # ns) n) (map_of rem n)" for n
      using r(3) None by (cases "n = m") auto
    then show ?thesis using r(1,2) None by simp
  next
    case (Some d)
    then obtain e where e: "d = Suc e" "count_list ns m \<le> e" using Cons.prems [of m d] by (cases d) auto
    let ?rem = "AList.update m e rem"
    have k: "m \<in> set (map fst rem)" using Some by (force dest: map_of_SomeD)
    have "count_list ns n \<le> x" if "n \<in> set ns" "map_of ?rem n = Some x" for n x
      using that Cons.prems [of n x] e by (auto simp: map_of_update split: if_splits)
    then obtain rem' where r: "lower_counts ns ?rem = Some rem'" "map fst rem' = map fst ?rem"
        "\<forall>n. map_of rem' n = map_option (\<lambda>d. d - count_list ns n) (map_of ?rem n)"
      using Cons.IH [of ?rem] by blast
    have "map_of rem' n = map_option (\<lambda>d. d - count_list (m # ns) n) (map_of rem n)" for n
      using r(3) Some e by (cases "n = m") (auto simp: map_of_update)
    then show ?thesis using r(1,2) Some e keys_update [OF k] by simp
  qed
qed

text \<open>The counters of the passes that are not yet placed.\<close>

definition rem_inv :: "pass_decl list \<Rightarrow> degrees \<Rightarrow> string set \<Rightarrow> bool" where
  "rem_inv ps rem P \<longleftrightarrow> distinct (map fst rem) \<and> set (map fst rem) = pass_names ps - P \<and>
     (\<forall>n \<in> pass_names ps - P. map_of rem n = Some (open_deps ps P n))"

lemma rem_inv_delete:
  assumes wf: "well_formed ps" and inv: "rem_inv ps rem P" and m: "m \<in> pass_names ps" "m \<notin> P"
    and free: "open_deps ps P m = 0"
  shows "\<exists>rem'. lower_counts (succs ps m) (AList.delete m rem) = Some rem' \<and> rem_inv ps rem' (insert m P)"
proof -
  have d: "distinct (map pd_name ps)" using wf by (simp add: well_formed_def)
  have cnt: "count_list (succs ps m) n = count_list (deps_of ps n) m" for n by (rule count_succs [OF d])
  have drop: "open_deps ps P n = open_deps ps (insert m P) n + count_list (deps_of ps n) m" for n
    by (rule open_deps_insert [OF m(2)])
  have del: "map_of (AList.delete m rem) n = (if n = m then None else map_of rem n)" for n
    by (simp add: delete_conv')
  have keys: "set (map fst (AList.delete m rem)) = pass_names ps - insert m P" "distinct (map fst (AList.delete m rem))"
    using inv by (auto simp: rem_inv_def delete_keys distinct_removeAll simp del: set_map list.set_map)
  have val: "map_of rem n = Some (open_deps ps P n)" if "n \<in> pass_names ps - P" for n
    using inv that by (simp add: rem_inv_def)
  have pre: "count_list (succs ps m) n \<le> x" if "map_of (AList.delete m rem) n = Some x" for n x
  proof -
    have "n \<in> set (map fst (AList.delete m rem))" using that by (force dest: map_of_SomeD)
    then have n: "n \<in> pass_names ps - insert m P" using keys(1) by blast
    then have "x = open_deps ps P n" using that val [of n] by (simp add: del split: if_splits)
    then show ?thesis using cnt [of n] drop [of n] by simp
  qed
  then obtain rem' where r: "lower_counts (succs ps m) (AList.delete m rem) = Some rem'"
      "map fst rem' = map fst (AList.delete m rem)"
      "\<forall>n. map_of rem' n = map_option (\<lambda>d. d - count_list (succs ps m) n) (map_of (AList.delete m rem) n)"
    using lower_spec [of "succs ps m" "AList.delete m rem"] by blast
  have "map_of rem' n = Some (open_deps ps (insert m P) n)" if "n \<in> pass_names ps - insert m P" for n
    using that r(3) val [of n] cnt [of n] drop [of n] by (simp add: del)
  then have "rem_inv ps rem' (insert m P)" unfolding rem_inv_def r(2) using keys by blast
  then show ?thesis using r(1) by blast
qed

lemma remove_level_spec:
  assumes wf: "well_formed ps" and adj: "\<And>n. n \<in> pass_names ps \<Longrightarrow> map_of adj n = Some (succs ps n)"
    and "rem_inv ps rem P" "distinct ns" "set ns \<subseteq> pass_names ps - P" "\<And>n. n \<in> set ns \<Longrightarrow> open_deps ps P n = 0"
  shows "\<exists>rem'. remove_level adj ns rem = Some rem' \<and> rem_inv ps rem' (P \<union> set ns)"
  using assms(3-)
proof (induction ns arbitrary: rem P)
  case Nil
  then show ?case by simp
next
  case (Cons m ns)
  have m: "m \<in> pass_names ps" "m \<notin> P" "open_deps ps P m = 0" using Cons.prems by auto
  obtain rem1 where r: "lower_counts (succs ps m) (AList.delete m rem) = Some rem1" "rem_inv ps rem1 (insert m P)"
    using rem_inv_delete [OF wf Cons.prems(1) m] by blast
  have "open_deps ps (insert m P) n = 0" if "n \<in> set ns" for n
    using Cons.prems(4) [of n] that open_deps_insert [OF m(2), of ps n] by simp
  then obtain rem' where "remove_level adj ns rem1 = Some rem'" "rem_inv ps rem' (insert m P \<union> set ns)"
    using Cons.IH [OF r(2)] Cons.prems(2,3) by auto
  then show ?case using r(1) adj [OF m(1)] by simp
qed

text \<open>
  Every level is sorted; the dependencies of a pass are in earlier levels, and from the second level
  on at least one of them is in the level just before.
\<close>

definition layered :: "pass_decl list \<Rightarrow> string list list \<Rightarrow> bool" where
  "layered ps ls \<longleftrightarrow> (\<forall>k < length ls. sorted (ls ! k) \<and> ls ! k \<noteq> [] \<and>
     (\<forall>n \<in> set (ls ! k). set (deps_of ps n) \<subseteq> set (concat (take k ls)) \<and>
        (0 < k \<longrightarrow> \<not> set (deps_of ps n) \<subseteq> set (concat (take (k - 1) ls)))))"

lemma layered_snoc:
  "layered ps (ls @ [l]) \<longleftrightarrow> layered ps ls \<and> sorted l \<and> l \<noteq> [] \<and>
     (\<forall>n \<in> set l. set (deps_of ps n) \<subseteq> set (concat ls) \<and>
       (ls \<noteq> [] \<longrightarrow> \<not> set (deps_of ps n) \<subseteq> set (concat (butlast ls))))"
proof -
  have b: "butlast ls = take (length ls - Suc 0) ls" by (simp add: butlast_conv_take)
  show ?thesis unfolding b by (simp add: layered_def All_less_Suc nth_append conj_ac)
qed

definition level_inv :: "pass_decl list \<Rightarrow> degrees \<Rightarrow> string list list \<Rightarrow> bool" where
  "level_inv ps rem ls \<longleftrightarrow> rem_inv ps rem (set (concat ls)) \<and> set (concat ls) \<subseteq> grounded ps \<and>
     distinct (concat ls) \<and> layered ps ls \<and>
     (ls \<noteq> [] \<longrightarrow> (\<forall>n \<in> pass_names ps - set (concat ls). \<not> set (deps_of ps n) \<subseteq> set (concat (butlast ls))))"

lemma level_inv_step:
  assumes wf: "well_formed ps" and adj: "\<And>n. n \<in> pass_names ps \<Longrightarrow> map_of adj n = Some (succs ps n)"
    and inv: "level_inv ps rem ls" and f: "free bucket rem = ns" "ns \<noteq> []"
  shows "\<exists>rem'. remove_level adj ns rem = Some rem' \<and> level_inv ps rem' (ls @ [sort ns])"
proof -
  let ?P = "set (concat ls)"
  have ri: "rem_inv ps rem ?P" using inv by (simp add: level_inv_def)
  then have d: "distinct (map fst rem)" by (simp add: rem_inv_def)
  have ns: "n \<in> set ns \<longleftrightarrow> n \<in> pass_names ps - ?P \<and> set (deps_of ps n) \<subseteq> ?P" for n
  proof -
    have "n \<in> set ns \<longleftrightarrow> map_of rem n = Some 0" using free_spec(2) [where bucket = bucket, OF d] f by simp
    also have "\<dots> \<longleftrightarrow> n \<in> pass_names ps - ?P \<and> set (deps_of ps n) \<subseteq> ?P"
    proof (cases "n \<in> pass_names ps - ?P")
      case True
      then have "map_of rem n = Some (open_deps ps ?P n)" using ri unfolding rem_inv_def by blast
      then show ?thesis using True by (simp only: option.inject open_deps_0 simp_thms)
    next
      case False
      then have "n \<notin> set (map fst rem)" using ri unfolding rem_inv_def by blast
      then have "map_of rem n = None" by (simp add: map_of_eq_None_iff)
      with False show ?thesis by (simp only: option.distinct simp_thms)
    qed
    finally show ?thesis .
  qed
  have dn: "distinct ns" using free_spec(1) [where bucket = bucket, OF d] f by simp
  obtain rem' where r: "remove_level adj ns rem = Some rem'" "rem_inv ps rem' (?P \<union> set ns)"
    using remove_level_spec [OF wf adj ri dn] ns by (auto simp: open_deps_0)
  have g: "set ns \<subseteq> grounded ps"
  proof
    fix n assume "n \<in> set ns"
    then have n: "n \<in> pass_names ps" "set (deps_of ps n) \<subseteq> ?P" using ns by auto
    show "n \<in> grounded ps"
      by (rule grounded.intros [OF n(1)]) (use n(2) inv in \<open>auto simp: level_inv_def\<close>)
  qed
  have later: "\<not> set (deps_of ps n) \<subseteq> set (concat (butlast (ls @ [sort ns])))"
    if "n \<in> pass_names ps - set (concat (ls @ [sort ns]))" for n
    using that ns [of n] by auto
  have "length (sort ns) \<noteq> 0" using f(2) by simp
  then have "sort ns \<noteq> []" by (simp only: length_0_conv simp_thms)
  then have "layered ps (ls @ [sort ns])"
    unfolding layered_snoc using inv f(2) ns by (auto simp: level_inv_def)
  moreover have "distinct (concat (ls @ [sort ns]))"
    using inv dn ns by (auto simp: level_inv_def)
  moreover have "set (concat (ls @ [sort ns])) = ?P \<union> set ns" by simp
  ultimately have "level_inv ps rem' (ls @ [sort ns])"
    using r(2) g inv later unfolding level_inv_def by (simp only:) blast
  then show ?thesis using r(1) by blast
qed

lemma level_loop_spec:
  assumes "well_formed ps" "\<And>n. n \<in> pass_names ps \<Longrightarrow> map_of adj n = Some (succs ps n)"
    "level_inv ps rem ls" "cnt = length (concat ls)"
  shows "\<exists>res. level_loop bucket adj rem ls cnt = Some (res, length (concat res)) \<and> distinct (concat res) \<and>
    set (concat res) = grounded ps \<and> layered ps res"
  using assms
proof (induction bucket adj rem ls cnt rule: level_loop.induct)
  case (1 bucket adj rem ls cnt)
  show ?case
  proof (cases "free bucket rem")
    case Nil
    have d: "distinct (map fst rem)" using "1.prems"(3) by (simp add: level_inv_def rem_inv_def)
    have none: "map_of rem n \<noteq> Some 0" for n using free_spec(2) [where bucket = bucket, OF d] Nil by auto
    have "grounded ps \<subseteq> set (concat ls)"
    proof (rule closed_grounded, rule ccontr)
      fix n assume n: "n \<in> pass_names ps" "set (deps_of ps n) \<subseteq> set (concat ls)" "n \<notin> set (concat ls)"
      then have "map_of rem n = Some 0"
        using "1.prems"(3) open_deps_0 by (auto simp: level_inv_def rem_inv_def)
      then show False using none by blast
    qed
    then have "set (concat ls) = grounded ps" using "1.prems"(3) unfolding level_inv_def by blast
    then show ?thesis
      using Nil "1.prems"(3,4) by (subst level_loop.simps) (auto simp: level_inv_def)
  next
    case (Cons n ns)
    obtain rem' where r: "remove_level adj (n # ns) rem = Some rem'" "level_inv ps rem' (ls @ [sort (n # ns)])"
      using level_inv_step [OF "1.prems"(1,2,3) Cons] by auto
    have len: "cnt + length (n # ns) = length (concat (ls @ [sort (n # ns)]))"
      using "1.prems"(4) by simp
    from "1.IH" [OF Cons r(1) "1.prems"(1,2) r(2) len]
    show ?thesis by (subst level_loop.simps) (simp only: Cons list.case r(1) option.case)
  qed
qed

lemma execution_levels_valid:
  assumes "well_formed ps"
  shows "\<exists>ls. distinct (concat ls) \<and> set (concat ls) = grounded ps \<and> layered ps ls \<and>
    execution_levels bucket ps =
      Some (if grounded ps = pass_names ps then Inr ls else Inl (CycleDetected (first_stuck ps)))"
proof -
  obtain rem adj where b: "build_graph ps = (rem, adj)" by (metis prod.collapse)
  note g = build_graph_spec [OF assms b]
  obtain u v where c: "check_unique_names [] ps = Inr u" "check_known (map pd_name ps) ps = Inr v"
    using assms validated by blast
  have "level_inv ps rem []"
    using g(1,2) assms by (auto simp: level_inv_def rem_inv_def layered_def open_deps_def well_formed_def pass_names_def)
  then obtain ls where o: "level_loop bucket adj rem [] 0 = Some (ls, length (concat ls))" "distinct (concat ls)"
    "set (concat ls) = grounded ps" "layered ps ls"
    using level_loop_spec [OF assms, of adj rem "[]" 0 bucket] g(3) by auto
  then show ?thesis
    using length_grounded [OF assms o(2,3)]
    by (intro exI [of _ ls]) (simp add: execution_levels_def c b first_stuck_def del: set_concat)
qed


section \<open>Properties\<close>

lemma invalid_error:
  assumes "\<not> well_formed ps"
  obtains (dup) n where "execution_order b ps = Some (Inl (DuplicatePassName n))"
      "execution_levels b' ps = Some (Inl (DuplicatePassName n))" "2 \<le> count_list (map pd_name ps) n"
  | (unknown) p d where "execution_order b ps = Some (Inl (UnknownDependency (pd_name p) d))"
      "execution_levels b' ps = Some (Inl (UnknownDependency (pd_name p) d))"
      "p \<in> set ps" "d \<in> set (pd_deps p)" "d \<notin> pass_names ps"
proof (cases "check_unique_names [] ps")
  case (Inl e)
  then obtain p qs rs where e: "e = DuplicatePassName (pd_name p)" "ps = qs @ p # rs" "pd_name p \<in> set (map pd_name qs)"
    using check_unique_Inl [OF Inl] by auto
  have "count_list (map pd_name qs) (pd_name p) \<noteq> 0" using e(3) by (simp only: count_list_0_iff not_not)
  then have "2 \<le> count_list (map pd_name ps) (pd_name p)" by (simp add: e(2) count_list_append)
  then show ?thesis using dup Inl e(1) by (simp add: execution_order_def execution_levels_def)
next
  case (Inr u)
  then obtain e where e: "check_known (map pd_name ps) ps = Inl e"
    using assms validated [of ps] by (cases "check_known (map pd_name ps) ps") auto
  then obtain p d where "e = UnknownDependency (pd_name p) d" "p \<in> set ps" "d \<in> set (pd_deps p)" "d \<notin> pass_names ps"
    using check_known_Inl [OF e] unfolding pass_names_def by blast
  then show ?thesis using unknown Inr e by (simp add: execution_order_def execution_levels_def)
qed

lemma execution_order_total: "\<exists>r. execution_order b ps = Some r"
  using execution_order_valid [of ps b] invalid_error [of ps b b] by metis

lemma execution_levels_total: "\<exists>r. execution_levels b ps = Some r"
  using execution_levels_valid [of ps b] invalid_error [of ps b b] by metis

lemma mset_pass_names:
  assumes "well_formed ps" "distinct xs" "set xs = pass_names ps"
  shows "mset xs = mset (map pd_name ps)"
  using assms set_eq_iff_mset_eq_distinct [of xs "map pd_name ps"] unfolding well_formed_def pass_names_def by blast

lemma execution_order_Inr:
  assumes "execution_order b ps = Some (Inr order)"
  shows "well_formed ps" "mset order = mset (map pd_name ps)" "after_deps ps {} order"
proof -
  show wf: "well_formed ps"
    by (rule ccontr, cases rule: invalid_error [of ps b b]) (use assms in auto)
  then show "mset order = mset (map pd_name ps)" "after_deps ps {} order"
    using execution_order_valid [OF wf, of b] assms mset_pass_names [OF wf] by (auto split: if_splits)
qed

lemma execution_levels_Inr:
  assumes "execution_levels b ps = Some (Inr ls)"
  shows "well_formed ps" "mset (concat ls) = mset (map pd_name ps)" "layered ps ls"
proof -
  show wf: "well_formed ps"
    by (rule ccontr, cases rule: invalid_error [of ps b b]) (use assms in auto)
  then obtain xs where "distinct (concat xs)" "set (concat xs) = grounded ps" "layered ps xs"
    "execution_levels b ps = Some (if grounded ps = pass_names ps then Inr xs else Inl (CycleDetected (first_stuck ps)))"
    using execution_levels_valid by blast
  then have x: "distinct (concat ls)" "set (concat ls) = pass_names ps" "layered ps ls"
    using assms by (auto split: if_splits simp del: set_concat)
  show "mset (concat ls) = mset (map pd_name ps)" by (rule mset_pass_names [OF wf x(1,2)])
  show "layered ps ls" by (rule x(3))
qed

text \<open>
  C28: \<open>execution_order\<close> always returns, whatever the iteration order of its hash maps, and never
  panics: an order names every pass once and every pass after all its dependencies; a reported
  cycle names a pass that waits, directly or through others, for a set of passes that wait for each
  other; an unknown dependency and a duplicate name are real.
\<close>

theorem execution_order_correct:
  "\<exists>r. execution_order bucket ps = Some r \<and>
     (case r of
        Inr order \<Rightarrow> mset order = mset (map pd_name ps) \<and> after_deps ps {} order
      | Inl (CycleDetected n) \<Rightarrow> n \<in> pass_names ps \<and> stuck ps n
      | Inl (UnknownDependency n d) \<Rightarrow> d \<notin> pass_names ps \<and> (\<exists>p. p \<in> set ps \<and> pd_name p = n \<and> d \<in> set (pd_deps p))
      | Inl (DuplicatePassName n) \<Rightarrow> 2 \<le> count_list (map pd_name ps) n)"
proof (cases "well_formed ps")
  case True
  then obtain order where o: "distinct order" "set order = grounded ps" "after_deps ps {} order"
    "execution_order bucket ps =
      Some (if grounded ps = pass_names ps then Inr order else Inl (CycleDetected (first_stuck ps)))"
    using execution_order_valid by blast
  show ?thesis
  proof (cases "grounded ps = pass_names ps")
    case g: True
    then have "mset order = mset (map pd_name ps)" using mset_pass_names [OF True o(1)] o(2) by simp
    then show ?thesis using o(3,4) g by simp
  next
    case False
    then show ?thesis using o(4) first_stuck_stuck [OF True False] by simp
  qed
next
  case False
  then show ?thesis
    by (cases rule: invalid_error [of ps bucket bucket]) auto
qed

text \<open>
  C29: \<open>execution_levels\<close> always returns and never panics: its levels partition the passes, each is
  sorted and not empty, every dependency of a pass is in an earlier level and, beyond the first
  level, one of them in the level just before: no pass is held back longer than it must be.
\<close>

theorem execution_levels_correct:
  "\<exists>r. execution_levels bucket ps = Some r \<and>
     (case r of
        Inr ls \<Rightarrow> mset (concat ls) = mset (map pd_name ps) \<and> layered ps ls
      | Inl (CycleDetected n) \<Rightarrow> n \<in> pass_names ps \<and> stuck ps n
      | Inl (UnknownDependency n d) \<Rightarrow> d \<notin> pass_names ps \<and> (\<exists>p. p \<in> set ps \<and> pd_name p = n \<and> d \<in> set (pd_deps p))
      | Inl (DuplicatePassName n) \<Rightarrow> 2 \<le> count_list (map pd_name ps) n)"
proof (cases "well_formed ps")
  case True
  then obtain ls where o: "distinct (concat ls)" "set (concat ls) = grounded ps" "layered ps ls"
    "execution_levels bucket ps =
      Some (if grounded ps = pass_names ps then Inr ls else Inl (CycleDetected (first_stuck ps)))"
    using execution_levels_valid by blast
  show ?thesis
  proof (cases "grounded ps = pass_names ps")
    case g: True
    then have "mset (concat ls) = mset (map pd_name ps)" using mset_pass_names [OF True o(1)] o(2) by (simp only:)
    then show ?thesis using o(3,4) g by simp
  next
    case False
    then show ?thesis using o(4) first_stuck_stuck [OF True False] by simp
  qed
next
  case False
  then show ?thesis
    by (cases rule: invalid_error [of ps bucket bucket]) auto
qed

text \<open>
  The sequential and the parallel scheduler refuse exactly the same pipelines with the same
  error, also under different iteration orders of their hash maps.
\<close>

theorem schedulers_agree:
  "execution_order b ps = Some (Inl e) \<longleftrightarrow> execution_levels b' ps = Some (Inl e)"
proof (cases "well_formed ps")
  case True
  then obtain order ls where
    "execution_order b ps = Some (if grounded ps = pass_names ps then Inr order else Inl (CycleDetected (first_stuck ps)))"
    "execution_levels b' ps = Some (if grounded ps = pass_names ps then Inr ls else Inl (CycleDetected (first_stuck ps)))"
    using execution_order_valid [OF True, of b] execution_levels_valid [OF True, of b'] by blast
  then show ?thesis by simp
next
  case False
  then show ?thesis by (cases rule: invalid_error [of ps b b']) auto
qed

text \<open>
  A pipeline with unique names and known dependencies, in which dependencies can be ranked
  below the passes that need them, is always scheduled.
\<close>

theorem ranked_is_scheduled:
  assumes "well_formed ps"
    and "\<forall>p \<in> set ps. \<forall>d \<in> set (pd_deps p). rank d < (rank (pd_name p) :: nat)"
  shows "\<exists>order ls. execution_order bucket ps = Some (Inr order) \<and> execution_levels bucket ps = Some (Inr ls)"
proof -
  have "n \<in> grounded ps" if "n \<in> pass_names ps" for n
    using that
  proof (induction "rank n" arbitrary: n rule: less_induct)
    case less
    show ?case
    proof (rule grounded.intros [OF less.prems])
      fix d assume d: "d \<in> set (deps_of ps n)"
      then have "rank d < rank n"
        by (cases rule: deps_of_cases [of ps n]) (use assms(2) in auto)
      then show "d \<in> grounded ps" using less.hyps d deps_of_subset [OF assms(1)] by blast
    qed
  qed
  then have "grounded ps = pass_names ps" using grounded_named by blast
  then show ?thesis
    using execution_order_valid [OF assms(1), of bucket] execution_levels_valid [OF assms(1), of bucket] by auto
qed

definition demo_passes :: "pass_decl list" where
  "demo_passes =
     [\<lparr>pd_name = ''link'', pd_deps = [''parse'', ''scan'']\<rparr>, \<lparr>pd_name = ''parse'', pd_deps = [''scan'']\<rparr>,
      \<lparr>pd_name = ''scan'', pd_deps = []\<rparr>]"

lemma ranked_is_scheduled_witness:
  "\<exists>order ls. execution_order (\<lambda>_. 0) demo_passes = Some (Inr order) \<and>
     execution_levels (\<lambda>_. 0) demo_passes = Some (Inr ls)"
  using ranked_is_scheduled [of demo_passes "\<lambda>n. if n = ''scan'' then 0 else if n = ''parse'' then 1 else 2" "\<lambda>_. 0"]
  by (simp add: demo_passes_def well_formed_def pass_names_def)

end
