(* ===== verification/Pass_Run.thy ===== *)
theory Pass_Run
  imports Pass_Graph
begin

text \<open>
  Running the passes: the outcome report (\<open>compiler-core/src/scheduler.rs\<close>), the cache manifests
  (\<open>cache.rs\<close>), \<open>run_all\<close> and \<open>run_all_parallel\<close> of \<open>pass.rs\<close>, and the compiler around them
  (\<open>compiler.rs\<close>).

  A pass is a function on the world \<open>'w\<close>: the shared context, the artifact store and the state of
  every pass.  A manifest file is named by the SHA-256 of the pass name and holds JSON; both are
  fields of the environment.  Writing one may fail and the code ignores that.
\<close>

datatype pass_error =
    Pass_Failed string
  | Pass_Other string

record 'w compiler_pass = pass_decl +
  cp_version :: string
  cp_inputs :: "'w \<Rightarrow> string list"
  cp_run :: "'w \<Rightarrow> 'w \<times> (pass_error + unit)"

datatype failure_mode =
    FailFast
  | Collect

section \<open>Reports\<close>

record pass_outcome =
  po_name :: string
  po_result :: "pass_error + unit"
  po_skipped :: bool

definition ran :: "string \<Rightarrow> pass_error + unit \<Rightarrow> pass_outcome" where
  "ran n r = \<lparr>po_name = n, po_result = r, po_skipped = False\<rparr>"

definition skipped :: "string \<Rightarrow> pass_outcome" where
  "skipped n = \<lparr>po_name = n, po_result = Inr (), po_skipped = True\<rparr>"

type_synonym execution_report = "pass_outcome list"

definition has_errors :: "execution_report \<Rightarrow> bool" where
  "has_errors r \<longleftrightarrow> (\<exists>o' \<in> set r. isl (po_result o'))"

definition passes_run :: "execution_report \<Rightarrow> nat" where
  "passes_run r = length (filter (\<lambda>x. \<not> po_skipped x) r)"

definition passes_skipped :: "execution_report \<Rightarrow> nat" where
  "passes_skipped r = length (filter po_skipped r)"

definition error_count :: "execution_report \<Rightarrow> nat" where
  "error_count r = length (filter (\<lambda>x. isl (po_result x)) r)"

section \<open>The cache\<close>

record pass_manifest =
  pm_version :: string
  pm_config_hash :: string
  pm_inputs :: "string list"

record 'f cache_env =
  ce_path :: "string \<Rightarrow> string"
  ce_enc :: "pass_manifest \<Rightarrow> 'f"
  ce_dec :: "'f \<Rightarrow> pass_manifest option"
  ce_hash :: string

type_synonym 'f manifests = "string \<Rightarrow> 'f option"

definition should_recompute :: "'f cache_env \<Rightarrow> 'w compiler_pass \<Rightarrow> 'w \<Rightarrow> 'f manifests \<Rightarrow> bool" where
  "should_recompute ce p w m =
     (case m (ce_path ce (pd_name p)) of
        None \<Rightarrow> True
      | Some f \<Rightarrow>
          (case ce_dec ce f of
             None \<Rightarrow> True
           | Some pm \<Rightarrow> pm_version pm \<noteq> cp_version p \<or> pm_config_hash pm \<noteq> ce_hash ce \<or> pm_inputs pm \<noteq> cp_inputs p w))"

definition record_manifest :: "'f cache_env \<Rightarrow> bool \<Rightarrow> 'w compiler_pass \<Rightarrow> 'w \<Rightarrow> 'f manifests \<Rightarrow> 'f manifests" where
  "record_manifest ce io p w m =
     (if io then m(ce_path ce (pd_name p) \<mapsto>
        ce_enc ce \<lparr>pm_version = cp_version p, pm_config_hash = ce_hash ce, pm_inputs = cp_inputs p w\<rparr>)
      else m)"

section \<open>Sequential execution\<close>

text \<open>\<open>io n\<close> says whether the manifest of pass \<open>n\<close> can be written.\<close>

fun run_passes ::
  "'f cache_env \<Rightarrow> (string \<Rightarrow> bool) \<Rightarrow> failure_mode \<Rightarrow> 'w compiler_pass list \<Rightarrow> string list \<Rightarrow>
     'w \<Rightarrow> 'f manifests \<Rightarrow> execution_report \<Rightarrow> ('w \<times> 'f manifests \<times> execution_report) option" where
  "run_passes ce io mode ps [] w m rep = Some (w, m, rep)"
| "run_passes ce io mode ps (n # ns) w m rep =
     (case find (\<lambda>p. pd_name p = n) ps of
        None \<Rightarrow> None
      | Some p \<Rightarrow>
          if \<not> should_recompute ce p w m then run_passes ce io mode ps ns w m (rep @ [skipped n])
          else
            (case cp_run p w of
               (w', r) \<Rightarrow>
                 let m' = (if isl r then m else record_manifest ce (io n) p w' m);
                     rep' = rep @ [ran n r]
                 in if isl r \<and> mode = FailFast then Some (w', m', rep')
                    else run_passes ce io mode ps ns w' m' rep'))"

text \<open>The dependency graph of the registered passes.\<close>

definition decls :: "'w compiler_pass list \<Rightarrow> pass_decl list" where
  "decls ps = map (\<lambda>p. \<lparr>pd_name = pd_name p, pd_deps = pd_deps p\<rparr>) ps"

definition run_all_passes ::
  "(string \<Rightarrow> nat) \<Rightarrow> 'f cache_env \<Rightarrow> (string \<Rightarrow> bool) \<Rightarrow> failure_mode \<Rightarrow> 'w compiler_pass list \<Rightarrow> 'w \<Rightarrow> 'f manifests \<Rightarrow>
     (scheduler_error + 'w \<times> 'f manifests \<times> execution_report) option" where
  "run_all_passes bucket ce io mode ps w m =
     (case execution_order bucket (decls ps) of
        None \<Rightarrow> None
      | Some (Inl e) \<Rightarrow> Some (Inl e)
      | Some (Inr order) \<Rightarrow> map_option Inr (run_passes ce io mode ps order w m []))"

datatype compiler_error =
    Scheduler_Failed scheduler_error
  | Failed_With nat

definition compiler_run ::
  "(string \<Rightarrow> nat) \<Rightarrow> 'f cache_env \<Rightarrow> (string \<Rightarrow> bool) \<Rightarrow> failure_mode \<Rightarrow> 'w compiler_pass list \<Rightarrow> 'w \<Rightarrow> 'f manifests \<Rightarrow>
     (compiler_error + 'w \<times> 'f manifests \<times> execution_report) option" where
  "compiler_run bucket ce io mode ps w m =
     (case run_all_passes bucket ce io mode ps w m of
        None \<Rightarrow> None
      | Some (Inl e) \<Rightarrow> Some (Inl (Scheduler_Failed e))
      | Some (Inr (w', m', rep)) \<Rightarrow>
          Some (if has_errors rep then Inl (Failed_With (error_count rep)) else Inr (w', m', rep)))"

section \<open>Parallel execution\<close>

text \<open>
  The passes of a level are spawned together and run on the shared world in any order \<open>sched\<close>; their
  results are awaited in the order of the level.  The manager's own list is taken and left empty.
\<close>

fun take_named :: "string \<Rightarrow> 'w compiler_pass list \<Rightarrow> ('w compiler_pass \<times> 'w compiler_pass list) option" where
  "take_named n [] = None"
| "take_named n (p # ps) =
     (if pd_name p = n then Some (p, ps) else map_option (\<lambda>(x, xs). (x, p # xs)) (take_named n ps))"

fun take_level :: "string list \<Rightarrow> 'w compiler_pass list \<Rightarrow> 'w compiler_pass list \<times> 'w compiler_pass list" where
  "take_level [] ps = ([], ps)"
| "take_level (n # ns) ps =
     (case take_named n ps of
        None \<Rightarrow> take_level ns ps
      | Some (p, ps') \<Rightarrow> (case take_level ns ps' of (lps, ps'') \<Rightarrow> (p # lps, ps'')))"

fun run_spawned :: "'w compiler_pass list \<Rightarrow> 'w \<Rightarrow> 'w \<times> (string \<times> (pass_error + unit)) list" where
  "run_spawned [] w = (w, [])"
| "run_spawned (p # ps) w =
     (case cp_run p w of (w', r) \<Rightarrow>
       (case run_spawned ps w' of (w'', rs) \<Rightarrow> (w'', (pd_name p, r) # rs)))"

definition run_level ::
  "('w compiler_pass list \<Rightarrow> 'w compiler_pass list) \<Rightarrow> 'w compiler_pass list \<Rightarrow> 'w \<Rightarrow> 'w \<times> pass_outcome list" where
  "run_level sched lps w =
     (case run_spawned (sched lps) w of
        (w', rs) \<Rightarrow> (w', map (\<lambda>p. ran (pd_name p) (the (map_of rs (pd_name p)))) lps))"

fun run_levels ::
  "('w compiler_pass list \<Rightarrow> 'w compiler_pass list) \<Rightarrow> failure_mode \<Rightarrow> string list list \<Rightarrow> 'w compiler_pass list \<Rightarrow>
     'w \<Rightarrow> execution_report \<Rightarrow> bool \<Rightarrow> 'w \<times> execution_report" where
  "run_levels sched mode [] ps w rep failed = (w, rep)"
| "run_levels sched mode (l # ls) ps w rep failed =
     (if failed \<and> mode = FailFast then (w, rep)
      else
        (case take_level l ps of
           (lps, ps') \<Rightarrow>
             (case run_level sched lps w of
                (w', outs) \<Rightarrow>
                  run_levels sched mode ls ps' w' (rep @ outs) (failed \<or> (has_errors outs \<and> mode = FailFast)))))"

definition run_all_parallel ::
  "(string \<Rightarrow> nat) \<Rightarrow> ('w compiler_pass list \<Rightarrow> 'w compiler_pass list) \<Rightarrow> failure_mode \<Rightarrow> 'w compiler_pass list \<Rightarrow> 'w \<Rightarrow>
     (scheduler_error + 'w compiler_pass list \<times> 'w \<times> execution_report) option" where
  "run_all_parallel bucket sched mode ps w =
     (case execution_levels bucket (decls ps) of
        None \<Rightarrow> None
      | Some (Inl e) \<Rightarrow> Some (Inl e)
      | Some (Inr ls) \<Rightarrow> Some (Inr ([], run_levels sched mode ls ps w [] False)))"


section \<open>The sequential run\<close>

lemma names_decls [simp]: "map pd_name (decls ps) = map pd_name ps"
  by (simp add: decls_def comp_def)

lemma pass_names_decls: "n \<in> pass_names (decls ps) \<Longrightarrow> \<exists>p \<in> set ps. pd_name p = n"
  by (auto simp: pass_names_def decls_def)

lemma find_named:
  assumes "n \<in> pd_name ` set ps"
  obtains p where "find (\<lambda>p. pd_name p = n) ps = Some p" "p \<in> set ps" "pd_name p = n"
proof -
  obtain p where p: "find (\<lambda>p. pd_name p = n) ps = Some p"
    using assms by (cases "find (\<lambda>p. pd_name p = n) ps") (auto simp: find_None_iff)
  then show ?thesis using that find_SomeD [OF p] by blast
qed

lemma run_passes_total:
  assumes "set ns \<subseteq> pd_name ` set ps"
  shows "\<exists>w' m' rep'. run_passes ce io mode ps ns w m rep = Some (w', m', rep')"
  using assms
proof (induction ns arbitrary: w m rep)
  case (Cons n ns)
  then obtain p where p: "find (\<lambda>p. pd_name p = n) ps = Some p"
    using find_named [of n ps] by (metis list.set_intros(1) subsetD)
  show ?case using Cons p by (cases "cp_run p w") (simp add: Let_def)
qed simp

text \<open>What the loop appends to the report.\<close>

lemma run_passes_report:
  assumes "run_passes ce io mode ps ns w m rep = Some (w', m', rep')"
  shows "\<exists>outs rest. rep' = rep @ outs \<and> ns = map po_name outs @ rest \<and>
    (rest = [] \<or> (mode = FailFast \<and> outs \<noteq> [] \<and> isl (po_result (last outs)))) \<and>
    (mode = FailFast \<longrightarrow> (\<forall>x \<in> set (butlast outs). \<not> isl (po_result x)))"
  using assms
proof (induction ns arbitrary: w m rep)
  case Nil
  then show ?case by simp
next
  case (Cons n ns)
  then obtain p where p: "find (\<lambda>p. pd_name p = n) ps = Some p" by (auto split: option.splits)
  have step: "\<exists>outs rest. rep' = rep @ outs \<and> n # ns = map po_name outs @ rest \<and>
      (rest = [] \<or> (mode = FailFast \<and> outs \<noteq> [] \<and> isl (po_result (last outs)))) \<and>
      (mode = FailFast \<longrightarrow> (\<forall>x \<in> set (butlast outs). \<not> isl (po_result x)))"
    if o: "po_name out = n" "mode = FailFast \<Longrightarrow> \<not> isl (po_result out)"
      and r: "run_passes ce io mode ps ns w1 m1 (rep @ [out]) = Some (w', m', rep')" for out w1 m1
  proof -
    obtain outs rest where "rep' = (rep @ [out]) @ outs" "ns = map po_name outs @ rest"
      "rest = [] \<or> (mode = FailFast \<and> outs \<noteq> [] \<and> isl (po_result (last outs)))"
      "mode = FailFast \<longrightarrow> (\<forall>x \<in> set (butlast outs). \<not> isl (po_result x))"
      using Cons.IH [OF r] by blast
    then show ?thesis using o by (intro exI [of _ "out # outs"] exI [of _ rest]) auto
  qed
  show ?case
  proof (cases "should_recompute ce p w m")
    case False
    then have "run_passes ce io mode ps ns w m (rep @ [skipped n]) = Some (w', m', rep')"
      using Cons.prems p by simp
    then show ?thesis by (rule step [rotated 2]) (simp_all add: skipped_def)
  next
    case True
    obtain w1 r where r: "cp_run p w = (w1, r)" by (cases "cp_run p w")
    show ?thesis
    proof (cases "isl r \<and> mode = FailFast")
      case True
      then have "rep' = rep @ [ran n r]" using Cons.prems p r \<open>should_recompute ce p w m\<close> by simp
      then show ?thesis using True by (intro exI [of _ "[ran n r]"] exI [of _ ns]) (simp add: ran_def)
    next
      case False
      then have "run_passes ce io mode ps ns w1 (if isl r then m else record_manifest ce (io n) p w1 m) (rep @ [ran n r])
          = Some (w', m', rep')"
        using Cons.prems p r \<open>should_recompute ce p w m\<close> by (simp add: Let_def split: if_splits)
      then show ?thesis by (rule step [rotated 2]) (use False in \<open>simp_all add: ran_def\<close>)
    qed
  qed
qed

lemma run_all_order:
  assumes "run_all_passes bucket ce io mode ps w m = Some (Inr (w', m', rep))"
  obtains order where "execution_order bucket (decls ps) = Some (Inr order)"
    "run_passes ce io mode ps order w m [] = Some (w', m', rep)"
    "mset order = mset (map pd_name ps)" "after_deps (decls ps) {} order"
proof -
  obtain order where o: "execution_order bucket (decls ps) = Some (Inr order)"
    "run_passes ce io mode ps order w m [] = Some (w', m', rep)"
    using assms by (auto simp: run_all_passes_def split: option.splits sum.splits)
  then show ?thesis using that execution_order_Inr [OF o(1)] by simp
qed


text \<open>
  A sequential run always returns: with the scheduler's error, or with a report that names no
  pass twice and every pass after all its dependencies.  In collect mode, and whenever nothing
  failed, the report names every registered pass; in fail-fast mode nothing follows a failure.
\<close>

theorem run_all_report:
  "\<exists>r. run_all_passes bucket ce io mode ps w m = Some r \<and>
     (case r of
        Inl e \<Rightarrow> execution_order bucket (decls ps) = Some (Inl e)
      | Inr (w', m', rep) \<Rightarrow>
          after_deps (decls ps) {} (map po_name rep) \<and> distinct (map po_name rep) \<and>
          (mode = Collect \<or> \<not> has_errors rep \<longrightarrow> mset (map po_name rep) = mset (map pd_name ps)) \<and>
          (mode = FailFast \<longrightarrow> (\<forall>x \<in> set (butlast rep). \<not> isl (po_result x))))"
proof -
  obtain r where r: "execution_order bucket (decls ps) = Some r" using execution_order_total by blast
  show ?thesis
  proof (cases r)
    case (Inl e)
    then show ?thesis using r by (simp add: run_all_passes_def)
  next
    case (Inr order)
    note o = execution_order_Inr [OF r [unfolded Inr]]
    have "set order = set (map pd_name ps)" using mset_eq_setD [OF o(2)] by simp
    then obtain w' m' rep where run: "run_passes ce io mode ps order w m [] = Some (w', m', rep)"
      using run_passes_total [of order ps] by fastforce
    then obtain rest where rest: "order = map po_name rep @ rest"
      "rest = [] \<or> (mode = FailFast \<and> rep \<noteq> [] \<and> isl (po_result (last rep)))"
      "mode = FailFast \<longrightarrow> (\<forall>x \<in> set (butlast rep). \<not> isl (po_result x))"
      using run_passes_report [OF run] by auto
    have "distinct order" using o(1,2) mset_eq_imp_distinct_iff [of order "map pd_name ps"]
      by (simp add: well_formed_def)
    then have "distinct (map po_name rep)" using rest(1) by simp
    moreover have "after_deps (decls ps) {} (map po_name rep)" using o(3) rest(1) by (simp add: after_deps_append)
    moreover have "mset (map po_name rep) = mset (map pd_name ps)" if "mode = Collect \<or> \<not> has_errors rep"
    proof -
      have "rest = []" using that rest(2) last_in_set [of rep] by (auto simp: has_errors_def)
      then show ?thesis using rest(1) o(2) by simp
    qed
    ultimately show ?thesis using r run rest(3) Inr by (simp add: run_all_passes_def)
  qed
qed

section \<open>The cache\<close>

definition fresh :: "'f cache_env \<Rightarrow> 'w compiler_pass \<Rightarrow> 'f manifests \<Rightarrow> bool" where
  "fresh ce p m \<longleftrightarrow> (\<forall>w. \<not> should_recompute ce p w m)"

definition cache_ok :: "'f cache_env \<Rightarrow> 'w compiler_pass list \<Rightarrow> bool" where
  "cache_ok ce ps \<longleftrightarrow> (\<forall>x. ce_dec ce (ce_enc ce x) = Some x) \<and> inj_on (ce_path ce) (pd_name ` set ps) \<and>
     distinct (map pd_name ps) \<and> (\<forall>p v v'. p \<in> set ps \<longrightarrow> cp_inputs p v = cp_inputs p v')"

lemma recorded_fresh:
  assumes "cache_ok ce ps" "p \<in> set ps"
  shows "fresh ce p (record_manifest ce True p w m)"
  using assms by (auto simp: fresh_def should_recompute_def record_manifest_def cache_ok_def)

lemma fresh_record:
  assumes "cache_ok ce ps" "p \<in> set ps" "q \<in> set ps" "fresh ce p m"
  shows "fresh ce p (record_manifest ce True q w m)"
proof (cases "p = q")
  case True
  then show ?thesis using recorded_fresh [OF assms(1,2)] by simp
next
  case False
  then have "pd_name p \<noteq> pd_name q" using assms(1-3) by (auto simp: cache_ok_def distinct_map inj_on_def)
  then have "ce_path ce (pd_name p) \<noteq> ce_path ce (pd_name q)"
    using assms(1-3) by (auto simp: cache_ok_def inj_on_def)
  then show ?thesis using assms(4) by (simp add: fresh_def should_recompute_def record_manifest_def)
qed

lemma fresh_iff:
  assumes "cache_ok ce ps" "p \<in> set ps"
  shows "should_recompute ce p w m \<longleftrightarrow> \<not> fresh ce p m"
proof -
  have "should_recompute ce p v m = should_recompute ce p w m" for v
  proof -
    have i: "cp_inputs p v = cp_inputs p w" using assms unfolding cache_ok_def by blast
    show ?thesis unfolding should_recompute_def i ..
  qed
  then show ?thesis unfolding fresh_def by blast
qed

lemma run_passes_fresh:
  assumes "cache_ok ce ps" "set ns \<subseteq> pd_name ` set ps"
    and "run_passes ce (\<lambda>_. True) mode ps ns w m rep = Some (w', m', rep')" "\<not> has_errors rep'"
  shows "(\<forall>p \<in> set ps. fresh ce p m \<or> pd_name p \<in> set ns \<longrightarrow> fresh ce p m')"
  using assms(2-)
proof (induction ns arbitrary: w m rep)
  case Nil
  then show ?case by simp
next
  case (Cons n ns)
  obtain p where p: "find (\<lambda>p. pd_name p = n) ps = Some p" "p \<in> set ps" "pd_name p = n"
    using find_named [of n ps] Cons.prems(1) by (metis list.set_intros(1) subsetD)
  have unique: "q = p" if "q \<in> set ps" "pd_name q = n" for q
    using that p(2,3) assms(1) by (auto simp: cache_ok_def distinct_map inj_on_def)
  have sub: "set ns \<subseteq> pd_name ` set ps" using Cons.prems(1) by simp
  show ?case
  proof (cases "should_recompute ce p w m")
    case False
    then have "run_passes ce (\<lambda>_. True) mode ps ns w m (rep @ [skipped n]) = Some (w', m', rep')"
      using Cons.prems(2) p(1) by simp
    from Cons.IH [OF sub this Cons.prems(3)] show ?thesis
      using False fresh_iff [OF assms(1) p(2)] unique by auto
  next
    case True
    obtain w1 r where r: "cp_run p w = (w1, r)" by (cases "cp_run p w")
    have "\<not> isl r"
    proof
      assume "isl r"
      obtain outs where "rep' = (rep @ [ran n r]) @ outs"
      proof (cases "mode = FailFast")
        case True
        then show ?thesis using that [of "[]"] Cons.prems(2) p(1) r \<open>should_recompute ce p w m\<close> \<open>isl r\<close> by simp
      next
        case False
        then have rest: "run_passes ce (\<lambda>_. True) mode ps ns w1 m (rep @ [ran n r]) = Some (w', m', rep')"
          using Cons.prems(2) p(1) r \<open>should_recompute ce p w m\<close> \<open>isl r\<close> by simp
        show ?thesis using run_passes_report [OF rest] that by (elim exE conjE)
      qed
      then show False using Cons.prems(3) \<open>isl r\<close> by (simp add: has_errors_def ran_def)
    qed
    then have "run_passes ce (\<lambda>_. True) mode ps ns w1 (record_manifest ce True p w1 m) (rep @ [ran n r]) = Some (w', m', rep')"
      using Cons.prems(2) p(1) r True by (simp add: Let_def)
    from Cons.IH [OF sub this Cons.prems(3)] show ?thesis
      using recorded_fresh [OF assms(1) p(2)] fresh_record [OF assms(1) _ p(2)] unique by auto
  qed
qed

lemma run_passes_all_fresh:
  assumes "set ns \<subseteq> pd_name ` set ps" "\<And>p. p \<in> set ps \<Longrightarrow> fresh ce p m"
  shows "run_passes ce io mode ps ns w m rep = Some (w, m, rep @ map skipped ns)"
  using assms(1)
proof (induction ns arbitrary: rep)
  case (Cons n ns)
  obtain p where p: "find (\<lambda>p. pd_name p = n) ps = Some p" "p \<in> set ps"
    using find_named [of n ps] Cons.prems by (metis list.set_intros(1) subsetD)
  have "\<not> should_recompute ce p w m" using assms(2) [OF p(2)] by (simp add: fresh_def)
  then show ?case using Cons p(1) by simp
qed simp

text \<open>
  C30: Incremental compilation: after a run in which nothing failed, with the inputs, versions and
  configuration unchanged, the next run skips every pass and changes nothing.  Every pass declares cache
  inputs: one that declares none is documented as recomputed always (but see \<open>no_inputs_is_cached\<close>).
\<close>

theorem second_run_skips_all:
  assumes "cache_ok ce ps" "\<forall>p \<in> set ps. \<forall>v. cp_inputs p v \<noteq> []"
    and "run_all_passes bucket ce (\<lambda>_. True) mode ps w m = Some (Inr (w', m', rep))"
    and "\<not> has_errors rep"
  shows "\<exists>rep'. run_all_passes bucket ce io mode' ps w' m' = Some (Inr (w', m', rep')) \<and>
    passes_run rep' = 0 \<and> passes_skipped rep' = length ps"
proof -
  obtain order where o: "execution_order bucket (decls ps) = Some (Inr order)"
    "run_passes ce (\<lambda>_. True) mode ps order w m [] = Some (w', m', rep)" "mset order = mset (map pd_name ps)"
    by (rule run_all_order [OF assms(3)])
  have set: "set order = pd_name ` set ps" using mset_eq_setD [OF o(3)] by simp
  have "\<forall>p \<in> set ps. fresh ce p m'"
    using run_passes_fresh [OF assms(1) _ o(2) assms(4)] set by auto
  then have "run_passes ce io mode' ps order w' m' [] = Some (w', m', map skipped order)"
    using run_passes_all_fresh [of order ps ce m' io mode' w' "[]"] set by simp
  moreover have "length order = length ps" using mset_eq_length [OF o(3)] by simp
  moreover have "filter (\<lambda>x. \<not> po_skipped x) (map skipped order) = []" "filter po_skipped (map skipped order) = map skipped order"
    by (auto simp: skipped_def filter_empty_conv filter_id_conv)
  ultimately show ?thesis by (simp add: run_all_passes_def o(1) passes_run_def passes_skipped_def)
qed

text \<open>
  A pass that declares no cache inputs, as the trait's default does, is not always recomputed:
  once it has succeeded it is skipped until its version or the configuration changes.
\<close>

theorem no_inputs_is_cached:
  assumes "ce_dec ce (ce_enc ce \<lparr>pm_version = cp_version p, pm_config_hash = ce_hash ce, pm_inputs = []\<rparr>)
      = Some \<lparr>pm_version = cp_version p, pm_config_hash = ce_hash ce, pm_inputs = []\<rparr>"
    and "cp_inputs p = (\<lambda>w. [])"
  shows "\<not> should_recompute ce p w' (record_manifest ce True p w m)"
  using assms by (simp add: should_recompute_def record_manifest_def)

section \<open>A concrete pipeline\<close>

text \<open>A counter as the world; each pass increments it and reads a file of its own name.\<close>

definition count_pass :: "string \<Rightarrow> string list \<Rightarrow> nat compiler_pass" where
  "count_pass n ds =
     \<lparr>pd_name = n, pd_deps = ds, cp_version = ''v1'', cp_inputs = (\<lambda>_. [n @ ''.txt'']), cp_run = (\<lambda>w. (Suc w, Inr ()))\<rparr>"

definition demo_cache :: "pass_manifest cache_env" where
  "demo_cache = \<lparr>ce_path = (\<lambda>n. n), ce_enc = (\<lambda>x. x), ce_dec = Some, ce_hash = ''h''\<rparr>"

definition demo_pipeline :: "nat compiler_pass list" where
  "demo_pipeline = [count_pass ''parse'' [''scan''], count_pass ''scan'' []]"

lemma demo_order: "execution_order (\<lambda>_. 0) (decls demo_pipeline) = Some (Inr [''scan'', ''parse''])"
  by (simp add: execution_order_def decls_def demo_pipeline_def count_pass_def build_graph_def deps_edges_def
      add_edge_def free_def)

lemma demo_pipeline_run: "\<exists>m' rep. run_all_passes (\<lambda>_. 0) demo_cache (\<lambda>_. True) Collect demo_pipeline 0 Map.empty = Some (Inr (2, m', rep)) \<and>
    \<not> has_errors rep \<and> passes_run rep = 2"
  by (simp add: run_all_passes_def demo_order) (simp add: demo_pipeline_def count_pass_def demo_cache_def
      should_recompute_def record_manifest_def Let_def has_errors_def ran_def passes_run_def)

lemma run_all_report_witness:
  "\<exists>w' m' rep. run_all_passes (\<lambda>_. 0) demo_cache (\<lambda>_. True) Collect demo_pipeline 0 Map.empty = Some (Inr (w', m', rep)) \<and>
     mset (map po_name rep) = mset [''scan'', ''parse'']"
proof -
  obtain m' rep where r: "run_all_passes (\<lambda>_. 0) demo_cache (\<lambda>_. True) Collect demo_pipeline 0 Map.empty = Some (Inr (2, m', rep))"
    using demo_pipeline_run by blast
  have "mset (map po_name rep) = mset (map pd_name demo_pipeline)"
    using run_all_report [of "\<lambda>_. 0" demo_cache "\<lambda>_. True" Collect demo_pipeline 0 Map.empty] r by simp
  then show ?thesis using r by (simp add: demo_pipeline_def count_pass_def)
qed

lemma demo_cache_ok: "cache_ok demo_cache demo_pipeline"
  by (simp add: cache_ok_def demo_cache_def demo_pipeline_def count_pass_def)

lemma second_run_skips_all_witness:
  "\<exists>m' rep'. run_all_passes (\<lambda>_. 0) demo_cache (\<lambda>_. True) FailFast demo_pipeline 2 m' = Some (Inr (2, m', rep')) \<and>
     passes_run rep' = 0"
proof -
  obtain m' rep where r: "run_all_passes (\<lambda>_. 0) demo_cache (\<lambda>_. True) Collect demo_pipeline 0 Map.empty = Some (Inr (2, m', rep))"
      "\<not> has_errors rep"
    using demo_pipeline_run by blast
  have "\<forall>p \<in> set demo_pipeline. \<forall>v. cp_inputs p v \<noteq> []" by (simp add: demo_pipeline_def count_pass_def)
  from second_run_skips_all [OF demo_cache_ok this r] show ?thesis by blast
qed

lemma no_inputs_is_cached_witness:
  "\<not> should_recompute demo_cache (count_pass ''scan'' []\<lparr>cp_inputs := (\<lambda>_. [])\<rparr>) 7
     (record_manifest demo_cache True (count_pass ''scan'' []\<lparr>cp_inputs := (\<lambda>_. [])\<rparr>) 1 Map.empty)"
  by (rule no_inputs_is_cached) (simp_all add: demo_cache_def count_pass_def)


section \<open>The parallel run\<close>

lemma take_named_spec:
  assumes "n \<in> pd_name ` set ps" "distinct (map pd_name ps)"
  shows "\<exists>p ps'. take_named n ps = Some (p, ps') \<and> pd_name p = n \<and>
    distinct (map pd_name ps') \<and> pd_name ` set ps' = pd_name ` set ps - {n}"
  using assms
proof (induction ps)
  case (Cons q ps)
  show ?case
  proof (cases "pd_name q = n")
    case True
    then show ?thesis using Cons.prems by auto
  next
    case False
    then obtain p ps' where "take_named n ps = Some (p, ps')" "pd_name p = n" "distinct (map pd_name ps')"
        "pd_name ` set ps' = pd_name ` set ps - {n}"
      using Cons by auto
    then show ?thesis using False Cons.prems by auto
  qed
qed simp

lemma take_level_spec:
  assumes "distinct ns" "set ns \<subseteq> pd_name ` set ps" "distinct (map pd_name ps)"
  shows "map pd_name (fst (take_level ns ps)) = ns \<and> distinct (map pd_name (snd (take_level ns ps))) \<and>
    pd_name ` set (snd (take_level ns ps)) = pd_name ` set ps - set ns"
  using assms
proof (induction ns arbitrary: ps)
  case (Cons n ns)
  have "n \<in> pd_name ` set ps" using Cons.prems(2) by simp
  from take_named_spec [OF this Cons.prems(3)]
  obtain p ps' where t: "take_named n ps = Some (p, ps')" "pd_name p = n" "distinct (map pd_name ps')"
      "pd_name ` set ps' = pd_name ` set ps - {n}" by blast
  have "map pd_name (fst (take_level ns ps')) = ns \<and> distinct (map pd_name (snd (take_level ns ps'))) \<and>
      pd_name ` set (snd (take_level ns ps')) = pd_name ` set ps' - set ns"
    by (rule Cons.IH) (use Cons.prems t in auto)
  then show ?case using t by (cases "take_level ns ps'") auto
qed simp

lemma run_levels_report:
  assumes "distinct (concat ls)" "set (concat ls) \<subseteq> pd_name ` set ps" "distinct (map pd_name ps)"
  shows "\<exists>outs. snd (run_levels sched Collect ls ps w rep failed) = rep @ outs \<and>
    map po_name outs = concat ls \<and> (\<forall>x \<in> set outs. \<not> po_skipped x)"
  using assms
proof (induction ls arbitrary: ps w rep failed)
  case (Cons l ls)
  obtain lps ps' where t: "take_level l ps = (lps, ps')" by (cases "take_level l ps")
  obtain w' outs where r: "run_level sched lps w = (w', outs)" by (cases "run_level sched lps w")
  have spec: "map pd_name lps = l" "distinct (map pd_name ps')" "pd_name ` set ps' = pd_name ` set ps - set l"
    using take_level_spec [of l ps] t Cons.prems by auto
  have o: "map po_name outs = l" "\<forall>x \<in> set outs. \<not> po_skipped x"
    using r spec(1) by (auto simp: run_level_def ran_def comp_def split: prod.splits)
  have "set (concat ls) \<subseteq> pd_name ` set ps'" using Cons.prems(1,2) spec(3) by auto
  then obtain os where "snd (run_levels sched Collect ls ps' w' (rep @ outs) (failed \<or> (has_errors outs \<and> Collect = FailFast))) = (rep @ outs) @ os"
      "map po_name os = concat ls" "\<forall>x \<in> set os. \<not> po_skipped x"
    using Cons.IH [of ps' w' "rep @ outs"] Cons.prems(1) spec(2) by (metis concat.simps(2) distinct_append)
  then show ?case using t r o by (intro exI [of _ "outs @ os"]) auto
qed simp

text \<open>
  In collect mode the parallel run executes every registered pass exactly once, level by level,
  consulting no cache, whatever the order the spawned passes run in; and it uses the manager up:
  a second parallel run of the same manager executes nothing and reports success.
\<close>

theorem parallel_run_report:
  assumes "run_all_parallel bucket sched Collect ps w = Some (Inr (ps', w', rep))"
  shows "mset (map po_name rep) = mset (map pd_name ps) \<and> passes_skipped rep = 0 \<and>
    (\<exists>ls. execution_levels bucket (decls ps) = Some (Inr ls) \<and> map po_name rep = concat ls) \<and>
    run_all_parallel bucket sched Collect ps' w' = Some (Inr ([], w', []))"
proof -
  obtain ls where l: "execution_levels bucket (decls ps) = Some (Inr ls)"
    and r: "ps' = []" "run_levels sched Collect ls ps w [] False = (w', rep)"
    using assms by (auto simp: run_all_parallel_def split: option.splits sum.splits)
  note v = execution_levels_Inr [OF l]
  have d: "distinct (map pd_name ps)" using v(1) by (simp add: well_formed_def)
  have "distinct (concat ls)" using mset_eq_imp_distinct_iff [OF v(2)] d by simp
  moreover have "set (concat ls) = pd_name ` set ps" using mset_eq_setD [OF v(2)] by simp
  ultimately obtain outs where o: "rep = outs" "map po_name outs = concat ls" "\<forall>x \<in> set outs. \<not> po_skipped x"
    using run_levels_report [of ls ps sched w "[]" False] d r(2) by auto
  have "filter po_skipped rep = []" using o(1,3) by (simp add: filter_empty_conv)
  then have "passes_skipped rep = 0" by (simp add: passes_skipped_def)
  moreover have "run_all_parallel bucket sched Collect ([] :: 'a compiler_pass list) w' = Some (Inr ([], w', []))"
    by (simp add: run_all_parallel_def execution_levels_def decls_def build_graph_def deps_edges_def
        level_loop.simps free_def)
  ultimately show ?thesis using o l v(2) r(1) by simp
qed

lemma parallel_run_report_witness:
  "\<exists>w' rep. run_all_parallel (\<lambda>_. 0) rev Collect demo_pipeline 0 = Some (Inr ([], w', rep)) \<and>
     mset (map po_name rep) = mset [''scan'', ''parse'']"
proof -
  have "\<exists>ls. execution_levels (\<lambda>_. 0) (decls demo_pipeline) = Some (Inr ls)"
    by (simp add: execution_levels_def decls_def demo_pipeline_def count_pass_def build_graph_def deps_edges_def
      add_edge_def level_loop.simps free_def)
  then obtain ps' w' rep where r: "run_all_parallel (\<lambda>_. 0) rev Collect demo_pipeline 0 = Some (Inr (ps', w', rep))"
    by (auto simp: run_all_parallel_def split: prod.splits) (metis prod.exhaust)
  then have "ps' = []" by (auto simp: run_all_parallel_def split: option.splits sum.splits)
  then show ?thesis
    using parallel_run_report [OF r] r by (auto simp: demo_pipeline_def count_pass_def)
qed

end
