(* ===== verification/Approval.thy ===== *)
theory Approval
  imports Ekos_Prelude
begin

text \<open>
  Risk classes, approval requests and the human-only decision path of the migration subsystem:
  \<open>migrate-approval/src/risk.rs\<close>, \<open>request.rs\<close> and \<open>lifecycle.rs\<close>.

  The SHA-256 of \<open>ContentHash::of_str\<close> is a parameter \<open>sha\<close>; the texts of the escalation reasons
  are constructors.
\<close>

section \<open>Risk\<close>

datatype risk_class = R0 | R1 | R2 | R3 | R4

fun risk_rank :: "risk_class \<Rightarrow> nat" where
  "risk_rank R0 = 0"
| "risk_rank R1 = 1"
| "risk_rank R2 = 2"
| "risk_rank R3 = 3"
| "risk_rank R4 = 4"

lemma risk_rank_inj: "risk_rank a = risk_rank b \<Longrightarrow> a = b"
  by (cases a; cases b) simp_all

instantiation risk_class :: linorder
begin

definition less_eq_risk_class :: "risk_class \<Rightarrow> risk_class \<Rightarrow> bool" where
  "less_eq_risk_class a b \<longleftrightarrow> risk_rank a \<le> risk_rank b"

definition less_risk_class :: "risk_class \<Rightarrow> risk_class \<Rightarrow> bool" where
  "less_risk_class a b \<longleftrightarrow> risk_rank a < risk_rank b"

instance
  by standard (auto simp: less_eq_risk_class_def less_risk_class_def intro: risk_rank_inj)

end

lemmas risk_order = less_eq_risk_class_def less_risk_class_def

fun approvers_required :: "risk_class \<Rightarrow> nat" where
  "approvers_required R0 = 0"
| "approvers_required R1 = 0"
| "approvers_required R2 = 1"
| "approvers_required R3 = 1"
| "approvers_required R4 = 2"

definition requires_evidence_review :: "risk_class \<Rightarrow> bool" where
  "requires_evidence_review c \<longleftrightarrow> c \<ge> R3"

definition requires_typed_confirmation :: "risk_class \<Rightarrow> bool" where
  "requires_typed_confirmation c \<longleftrightarrow> c = R4"

definition is_automatic :: "risk_class \<Rightarrow> bool" where
  "is_automatic c \<longleftrightarrow> c \<le> R1"

record action_facts =
  af_statement_class :: string
  af_environment :: string
  af_lossiness :: "string option"
  af_blast_radius :: nat
  af_affected_rows :: "int option"

record thresholds =
  th_blast_radius :: nat
  th_affected_rows :: int

definition default_thresholds :: thresholds where
  "default_thresholds = \<lparr>th_blast_radius = 10, th_affected_rows = 1000\<rparr>"

datatype reason =
    Lossy_Mapping
  | Behaves_Differently
  | Many_Consumers nat nat
  | Many_Rows int int
  | Rows_Not_Measured
  | Touches_Production

record escalation =
  es_to :: risk_class
  es_because :: reason

record risk_assessment =
  ra_class :: risk_class
  ra_base :: risk_class
  ra_escalations :: "escalation list"

definition base_class :: "string \<Rightarrow> string \<Rightarrow> risk_class" where
  "base_class statement_class environment =
     (let production = (environment = ''production''); staging = (environment = ''staging'')
      in if statement_class = ''read'' then (if production then R1 else R0)
         else if statement_class = ''destructive'' then (if production then R4 else if staging then R3 else R1)
         else (if production then R4 else if staging then R2 else R1))"

definition assess :: "action_facts \<Rightarrow> thresholds \<Rightarrow> risk_assessment" where
  "assess f t =
     (let base = base_class (af_statement_class f) (af_environment f);
          writes = (af_statement_class f \<noteq> ''read'');
          lossy = (if af_lossiness f = Some ''lossy'' then [\<lparr>es_to = R3, es_because = Lossy_Mapping\<rparr>]
                   else if af_lossiness f = Some ''behavioural'' then [\<lparr>es_to = R3, es_because = Behaves_Differently\<rparr>]
                   else []);
          blast = (if af_blast_radius f > th_blast_radius t
                   then [\<lparr>es_to = R3, es_because = Many_Consumers (af_blast_radius f) (th_blast_radius t)\<rparr>] else []);
          rows = (case af_affected_rows f of
                    Some n \<Rightarrow> if n > th_affected_rows t
                      then [\<lparr>es_to = R3, es_because = Many_Rows n (th_affected_rows t)\<rparr>] else []
                  | None \<Rightarrow> if writes \<and> base > R1 then [\<lparr>es_to = base, es_because = Rows_Not_Measured\<rparr>] else []);
          prod = (if af_environment f = ''production'' \<and> writes
                  then [\<lparr>es_to = R4, es_because = Touches_Production\<rparr>] else []);
          escs = lossy @ blast @ rows @ prod
      in \<lparr>ra_class = fold max (map es_to escs) base, ra_base = base, ra_escalations = escs\<rparr>)"

section \<open>Evidence\<close>

record evidence_ref =
  er_fact_id :: string
  er_content_hash :: string

record evidence_snapshot =
  ev_refs :: "evidence_ref list"
  ev_hash :: string

text \<open>\<open>char_of 31\<close> is the unit separator \<open>\u{1f}\<close>.\<close>

definition hash_refs :: "(string \<Rightarrow> string) \<Rightarrow> evidence_ref list \<Rightarrow> string" where
  "hash_refs sha rs =
     sha (join_with [char_of (31 :: nat)] (map (\<lambda>r. er_fact_id r @ ''='' @ er_content_hash r) rs))"

definition ref_key :: "evidence_ref \<Rightarrow> string \<times> string" where
  "ref_key r = (er_fact_id r, er_content_hash r)"

definition snapshot_of :: "(string \<Rightarrow> string) \<Rightarrow> evidence_ref list \<Rightarrow> evidence_snapshot" where
  "snapshot_of sha rs = (let rs' = remdups_adj (sort_key ref_key rs) in \<lparr>ev_refs = rs', ev_hash = hash_refs sha rs'\<rparr>)"

definition still_matches :: "(string \<Rightarrow> string) \<Rightarrow> (string \<Rightarrow> string option) \<Rightarrow> evidence_snapshot \<Rightarrow> bool" where
  "still_matches sha current s \<longleftrightarrow>
     hash_refs sha (map (\<lambda>r. \<lparr>er_fact_id = er_fact_id r,
        er_content_hash = (case current (er_fact_id r) of None \<Rightarrow> [] | Some h \<Rightarrow> h)\<rparr>) (ev_refs s)) = ev_hash s"

definition changed_facts :: "(string \<Rightarrow> string option) \<Rightarrow> evidence_snapshot \<Rightarrow> string list" where
  "changed_facts current s =
     map er_fact_id (filter (\<lambda>r. current (er_fact_id r) \<noteq> Some (er_content_hash r)) (ev_refs s))"

section \<open>Requests\<close>

datatype request_status =
    Pending
  | Approved "string list" string
  | Rejected string string
  | Dead "string list"

record approval_request =
  rq_id :: string
  rq_artifacts :: "evidence_ref list"
  rq_risk :: risk_assessment
  rq_evidence :: evidence_snapshot
  rq_requester :: string
  rq_status :: request_status
  rq_evidence_shown :: bool
  rq_typed_confirmation :: "string option"

datatype request_error =
    NotPending string request_status
  | EvidenceChanged string "string list"
  | NotEnoughApprovers risk_class nat nat
  | EvidenceNotShown risk_class
  | TypedConfirmationMismatch risk_class string string
  | SelfApproval string

definition CHANNEL_SCHEMES :: "string list" where
  "CHANNEL_SCHEMES = [''human'', ''cli'', ''agent'', ''console'']"

text \<open>\<open>split_once(':')\<close>.\<close>

definition split_colon :: "string \<Rightarrow> (string \<times> string) option" where
  "split_colon s =
     (case dropWhile (\<lambda>c. c \<noteq> CHR '':'') s of
        [] \<Rightarrow> None
      | _ # tail \<Rightarrow> Some (takeWhile (\<lambda>c. c \<noteq> CHR '':'') s, tail))"

lemma split_colon_shorter: "split_colon s = Some (a, b) \<Longrightarrow> length b < length s"
proof -
  assume a: "split_colon s = Some (a, b)"
  then obtain c where "dropWhile (\<lambda>c. c \<noteq> CHR '':'') s = c # b"
    by (auto simp: split_colon_def split: list.splits)
  then show "length b < length s"
    using length_dropWhile_le [of "\<lambda>c. c \<noteq> CHR '':''" s] by simp
qed

function identity_of :: "string \<Rightarrow> string" where
  "identity_of label =
     (case split_colon label of
        None \<Rightarrow> label
      | Some (scheme, tail) \<Rightarrow> if scheme \<in> set CHANNEL_SCHEMES then identity_of tail else label)"
  by pat_completeness auto
termination
  by (relation "measure length") (auto dest: split_colon_shorter)

declare identity_of.simps [simp del]

text \<open>
  \<open>approve\<close> changes the request through a mutable reference also when it fails: the state after the
  call is the first component.
\<close>

definition approve_request ::
  "(string \<Rightarrow> string) \<Rightarrow> string list \<Rightarrow> string \<Rightarrow> string option \<Rightarrow> (string \<Rightarrow> string option) \<Rightarrow> string \<Rightarrow>
     approval_request \<Rightarrow> approval_request \<times> (request_error + unit)" where
  "approve_request sha approvers subject confirm current now r =
     (if rq_status r \<noteq> Pending then (r, Inl (NotPending (rq_id r) (rq_status r)))
      else if \<not> still_matches sha current (rq_evidence r) then
        (let ch = changed_facts current (rq_evidence r)
         in (r\<lparr>rq_status := Dead ch\<rparr>, Inl (EvidenceChanged (rq_id r) ch)))
      else
        (let dist = remdups_adj (sort approvers); c = ra_class (rq_risk r)
         in case find (\<lambda>a. identity_of a = identity_of (rq_requester r)) dist of
              Some who \<Rightarrow> (r, Inl (SelfApproval who))
            | None \<Rightarrow>
                if length dist < approvers_required c
                then (r, Inl (NotEnoughApprovers c (approvers_required c) (length dist)))
                else if requires_evidence_review c \<and> \<not> rq_evidence_shown r then (r, Inl (EvidenceNotShown c))
                else if requires_typed_confirmation c then
                  (let typed = (case confirm of None \<Rightarrow> [] | Some t \<Rightarrow> t)
                   in if typed \<noteq> subject then (r, Inl (TypedConfirmationMismatch c subject typed))
                      else (r\<lparr>rq_typed_confirmation := Some typed, rq_status := Approved dist now\<rparr>, Inr ()))
                else (r\<lparr>rq_status := Approved dist now\<rparr>, Inr ())))"

definition reject_request ::
  "string \<Rightarrow> string \<Rightarrow> approval_request \<Rightarrow> approval_request \<times> (request_error + unit)" where
  "reject_request who why r =
     (if rq_status r \<noteq> Pending then (r, Inl (NotPending (rq_id r) (rq_status r)))
      else (r\<lparr>rq_status := Rejected who why\<rparr>, Inr ()))"

definition authorizes :: "string \<Rightarrow> string \<Rightarrow> approval_request \<Rightarrow> bool" where
  "authorizes artifact_id artifact_hash r \<longleftrightarrow>
     (case rq_status r of Approved _ _ \<Rightarrow> True | _ \<Rightarrow> False) \<and>
     (\<exists>a \<in> set (rq_artifacts r). er_fact_id a = artifact_id \<and> er_content_hash a = artifact_hash)"

section \<open>The human-only path\<close>

datatype actor = Human

fun actor_label :: "actor \<Rightarrow> string \<Rightarrow> string" where
  "actor_label Human subject = ''human:'' @ subject"

definition lifecycle_approve ::
  "(string \<Rightarrow> string) \<Rightarrow> actor \<Rightarrow> string list \<Rightarrow> string \<Rightarrow> string option \<Rightarrow> (string \<Rightarrow> string option) \<Rightarrow> string \<Rightarrow>
     approval_request \<Rightarrow> approval_request \<times> (request_error + unit)" where
  "lifecycle_approve sha actor subjects object_name typed current now r =
     approve_request sha (map (actor_label actor) subjects) object_name typed current now r"

definition lifecycle_reject ::
  "actor \<Rightarrow> string \<Rightarrow> string \<Rightarrow> approval_request \<Rightarrow> approval_request \<times> (request_error + unit)" where
  "lifecycle_reject actor subject why r = reject_request (actor_label actor subject) why r"


section \<open>Risk is computed\<close>

lemma fold_max_base: "b \<le> fold max (xs :: 'a::linorder list) b"
proof (induction xs arbitrary: b)
  case (Cons a xs)
  show ?case using order_trans [OF max.cobounded2 Cons.IH] by simp
qed simp

lemma fold_max_elem: "x \<in> set xs \<Longrightarrow> x \<le> fold max (xs :: 'a::linorder list) b"
proof (induction xs arbitrary: b)
  case (Cons a xs)
  then show ?case using order_trans [OF max.cobounded1 fold_max_base] by auto
qed simp

lemmas fold_max_ge = fold_max_base fold_max_elem

lemma fold_max_in: "fold max (xs :: 'a::linorder list) b \<in> insert b (set xs)"
  by (induction xs arbitrary: b) (auto simp: max_def)

lemma fold_max_mono:
  "(\<And>x. x \<in> set xs \<Longrightarrow> \<exists>y \<in> insert c (set ys). x \<le> y) \<Longrightarrow> b \<le> c \<Longrightarrow>
     fold max (xs :: 'a::linorder list) b \<le> fold max ys c"
  using fold_max_in [of xs b] fold_max_ge [of c ys] by (metis insert_iff order_trans fold_max_ge(2))

lemma R4_top [simp]: "c \<le> R4"
  by (cases c) (simp_all add: risk_order)

text \<open>The classes of the escalations that fire.\<close>

lemma assess_classes:
  "ra_class (assess f t) = fold max (map es_to (ra_escalations (assess f t))) (ra_base (assess f t))"
  "ra_base (assess f t) = base_class (af_statement_class f) (af_environment f)"
  by (simp_all add: assess_def Let_def)

text \<open>
  The risk class is exactly the maximum of the base class and every recorded escalation, a
  write to production is always R4, and a larger blast radius or more affected rows never lower
  the class.
\<close>

theorem risk_is_monotone:
  assumes "af_statement_class f = af_statement_class g" "af_environment f = af_environment g"
    and "af_lossiness f = af_lossiness g" "af_blast_radius f \<le> af_blast_radius g"
    and "af_affected_rows f = Some n" "af_affected_rows g = Some m" "n \<le> m"
  shows "ra_class (assess f t) \<le> ra_class (assess g t) \<and>
    ra_class (assess f t) \<in> insert (ra_base (assess f t)) (es_to ` set (ra_escalations (assess f t))) \<and>
    ra_base (assess f t) \<le> ra_class (assess f t) \<and>
    (\<forall>e \<in> set (ra_escalations (assess f t)). es_to e \<le> ra_class (assess f t)) \<and>
    (af_environment f = ''production'' \<and> af_statement_class f \<noteq> ''read'' \<longrightarrow> ra_class (assess f t) = R4)"
proof (intro conjI ballI impI)
  have "\<exists>y \<in> insert (ra_base (assess g t)) (set (map es_to (ra_escalations (assess g t)))). x \<le> y"
    if "x \<in> set (map es_to (ra_escalations (assess f t)))" for x
    using that assms by (auto simp: assess_def Let_def split: if_splits)
  moreover have "ra_base (assess f t) \<le> ra_base (assess g t)" using assms by (simp add: assess_def Let_def)
  ultimately show "ra_class (assess f t) \<le> ra_class (assess g t)"
    unfolding assess_classes(1) by (rule fold_max_mono)
  show "ra_class (assess f t) \<in> insert (ra_base (assess f t)) (es_to ` set (ra_escalations (assess f t)))"
    unfolding assess_classes(1) using fold_max_in by fastforce
  show "ra_base (assess f t) \<le> ra_class (assess f t)" unfolding assess_classes(1) by (rule fold_max_ge)
  fix e assume "e \<in> set (ra_escalations (assess f t))"
  then show "es_to e \<le> ra_class (assess f t)" unfolding assess_classes(1) by (intro fold_max_ge(2)) simp
next
  assume "af_environment f = ''production'' \<and> af_statement_class f \<noteq> ''read''"
  then have "R4 \<in> set (map es_to (ra_escalations (assess f t)))" by (simp add: assess_def Let_def)
  then have "R4 \<le> ra_class (assess f t)" unfolding assess_classes(1) by (rule fold_max_ge(2))
  then show "ra_class (assess f t) = R4" using R4_top by (rule order_antisym [rotated])
qed

lemma risk_is_monotone_witness:
  "ra_class (assess \<lparr>af_statement_class = ''dml_insert'', af_environment = ''staging'', af_lossiness = None,
       af_blast_radius = 3, af_affected_rows = Some 5\<rparr> default_thresholds)
   \<le> ra_class (assess \<lparr>af_statement_class = ''dml_insert'', af_environment = ''staging'', af_lossiness = None,
       af_blast_radius = 40, af_affected_rows = Some 17000\<rparr> default_thresholds)"
  using risk_is_monotone [of "\<lparr>af_statement_class = ''dml_insert'', af_environment = ''staging'', af_lossiness = None,
       af_blast_radius = 3, af_affected_rows = Some 5\<rparr>"
     "\<lparr>af_statement_class = ''dml_insert'', af_environment = ''staging'', af_lossiness = None,
       af_blast_radius = 40, af_affected_rows = Some 17000\<rparr>" 5 17000 default_thresholds] by simp

section \<open>Evidence is pinned\<close>

text \<open>Texts without the separator, and hashes that are not empty.\<close>

definition clean :: "string \<Rightarrow> bool" where
  "clean s \<longleftrightarrow> char_of (31 :: nat) \<notin> set s"

definition refs_clean :: "evidence_ref list \<Rightarrow> bool" where
  "refs_clean rs \<longleftrightarrow> (\<forall>r \<in> set rs. clean (er_fact_id r) \<and> clean (er_content_hash r) \<and> er_content_hash r \<noteq> [])"

lemma set_snapshot: "set (ev_refs (snapshot_of sha rs)) = set rs"
  by (simp add: snapshot_of_def Let_def)

text \<open>
  A snapshot matches exactly as long as every fact it rests on still has the content hash it
  had: any fact that changed or disappeared is detected, provided the digest does not collide and
  fact ids and hashes are free of the separator.
\<close>

theorem evidence_is_pinned:
  assumes "inj sha" and "refs_clean rs" and "\<And>f h. current f = Some h \<Longrightarrow> clean h"
  shows "still_matches sha current (snapshot_of sha rs) \<longleftrightarrow>
      (\<forall>r \<in> set rs. current (er_fact_id r) = Some (er_content_hash r))"
    (is "_ \<longleftrightarrow> ?same")
proof -
  let ?x = "char_of (31 :: nat) :: char"
  define es where "es = ev_refs (snapshot_of sha rs)"
  define now where "now = (\<lambda>r :: evidence_ref. case current (er_fact_id r) of None \<Rightarrow> [] | Some h \<Rightarrow> h)"
  let ?new = "map (\<lambda>r. er_fact_id r @ ''='' @ now r) es"
  let ?old = "map (\<lambda>r. er_fact_id r @ ''='' @ er_content_hash r) es"
  have sep: "?x \<noteq> CHR ''=''" by (simp add: char_of_def)
  have es: "set es = set rs" by (simp add: es_def set_snapshot)
  have nc: "clean (now r)" for r using assms(3) by (auto simp: now_def clean_def split: option.splits)
  have "still_matches sha current (snapshot_of sha rs) \<longleftrightarrow> join_with [?x] ?new = join_with [?x] ?old"
    using assms(1) by (auto simp: still_matches_def hash_refs_def es_def now_def comp_def snapshot_of_def Let_def inj_def)
  also have "\<dots> \<longleftrightarrow> ?new = ?old"
  proof
    assume "join_with [?x] ?new = join_with [?x] ?old"
    then show "?new = ?old"
      by (rule join_with_inj [rotated]) (use assms(2) nc es sep in \<open>auto simp: refs_clean_def clean_def\<close>)
  qed (rule arg_cong)
  also have "\<dots> \<longleftrightarrow> (\<forall>r \<in> set rs. now r = er_content_hash r)" using es by auto
  also have "\<dots> \<longleftrightarrow> ?same"
    using assms(2) by (fastforce simp: now_def refs_clean_def split: option.splits)
  finally show ?thesis .
qed


lemma evidence_is_pinned_witness:
  "\<not> still_matches (\<lambda>s. s) (\<lambda>f. None) (snapshot_of (\<lambda>s. s) [\<lparr>er_fact_id = ''F1'', er_content_hash = ''h1''\<rparr>])"
proof -
  have "inj (\<lambda>s :: string. s)" by (simp add: inj_def)
  moreover have "refs_clean [\<lparr>er_fact_id = ''F1'', er_content_hash = ''h1''\<rparr>]"
    by (simp add: refs_clean_def clean_def char_of_def)
  ultimately show ?thesis
    using evidence_is_pinned [of "\<lambda>s. s" "[\<lparr>er_fact_id = ''F1'', er_content_hash = ''h1''\<rparr>]" "\<lambda>f. None"] by simp
qed

section \<open>Approval\<close>

lemma identity_of_label [simp]: "identity_of (actor_label a s) = identity_of s"
  by (cases a) (subst identity_of.simps, simp add: split_colon_def CHANNEL_SCHEMES_def)

lemma set_distinct_approvers [simp]: "set (remdups_adj (sort xs)) = set xs"
  by simp

text \<open>
  C32: An approval that is granted passed every gate: the request was pending, its evidence still
  matched, nobody who shares an identity with the requester is among the approvers under any of the
  channel prefixes, there are enough distinct labels for the class, the evidence of an R3 or R4
  request was shown, and an R4 approver typed the object's name; what is recorded are exactly those
  labels.
\<close>

theorem approval_passed_every_gate:
  assumes "lifecycle_approve sha a subjects obj typed current now r = (r', Inr ())"
  shows "rq_status r = Pending \<and> still_matches sha current (rq_evidence r) \<and>
    (\<forall>s \<in> set subjects. identity_of s \<noteq> identity_of (rq_requester r)) \<and>
    (\<exists>dist. rq_status r' = Approved dist now \<and> set dist = actor_label a ` set subjects \<and> distinct dist \<and>
       approvers_required (ra_class (rq_risk r)) \<le> length dist) \<and>
    (R3 \<le> ra_class (rq_risk r) \<longrightarrow> rq_evidence_shown r) \<and>
    (ra_class (rq_risk r) = R4 \<longrightarrow> rq_typed_confirmation r' = Some obj)"
proof -
  let ?dist = "remdups_adj (sort (map (actor_label a) subjects))" and ?c = "ra_class (rq_risk r)"
  have d: "set ?dist = actor_label a ` set subjects" "distinct ?dist"
    by (simp_all add: sorted_remdups_adj_distinct)
  note a = assms [unfolded lifecycle_approve_def approve_request_def Let_def]
  have p: "rq_status r = Pending" and m: "still_matches sha current (rq_evidence r)"
    using a by (auto split: if_splits)
  have n: "find (\<lambda>x. identity_of x = identity_of (rq_requester r)) ?dist = None"
  proof (cases "find (\<lambda>x. identity_of x = identity_of (rq_requester r)) ?dist")
    case (Some w)
    then show ?thesis using a p m by simp
  qed simp
  then have self: "\<forall>s \<in> set subjects. identity_of s \<noteq> identity_of (rq_requester r)"
    using d(1) by (auto simp: find_None_iff)
  note b = a [unfolded n option.case]
  have l: "approvers_required ?c \<le> length ?dist" using b p m by (auto split: if_splits)
  have e: "R3 \<le> ?c \<longrightarrow> rq_evidence_shown r" using b p m l by (auto simp: requires_evidence_review_def split: if_splits)
  have s: "rq_status r' = Approved ?dist now" using b p m by (auto split: if_splits option.splits)
  have t: "?c = R4 \<longrightarrow> rq_typed_confirmation r' = Some obj"
    using b p m by (auto simp: requires_typed_confirmation_def split: if_splits option.splits)
  show ?thesis using p m self d l e s t by blast
qed

definition demo_request :: "risk_class \<Rightarrow> approval_request" where
  "demo_request c =
     \<lparr>rq_id = ''REQ:orders:1'', rq_artifacts = [\<lparr>er_fact_id = ''ART'', er_content_hash = ''ha''\<rparr>],
      rq_risk = \<lparr>ra_class = c, ra_base = c, ra_escalations = []\<rparr>,
      rq_evidence = snapshot_of (\<lambda>s. s) [\<lparr>er_fact_id = ''F1'', er_content_hash = ''h1''\<rparr>],
      rq_requester = ''cli:legion'', rq_status = Pending, rq_evidence_shown = True, rq_typed_confirmation = None\<rparr>"

lemma demo_matches: "still_matches (\<lambda>s. s) (\<lambda>f. Some ''h1'') (rq_evidence (demo_request c))"
  by (simp add: demo_request_def still_matches_def snapshot_of_def hash_refs_def Let_def)

lemmas demo_approve_simps = lifecycle_approve_def approve_request_def Let_def demo_matches
  identity_of.simps split_colon_def CHANNEL_SCHEMES_def requires_evidence_review_def requires_typed_confirmation_def risk_order

lemma demo_approve:
  "lifecycle_approve (\<lambda>s. s) Human [''alex''] ''orders'' None (\<lambda>f. Some ''h1'') ''t0'' (demo_request R3)
     = ((demo_request R3)\<lparr>rq_status := Approved [''human:alex''] ''t0''\<rparr>, Inr ())"
  by (simp add: demo_approve_simps) (simp add: demo_request_def demo_approve_simps)

lemma approval_passed_every_gate_witness:
  "identity_of ''alex'' \<noteq> identity_of (rq_requester (demo_request R3)) \<and> rq_evidence_shown (demo_request R3)"
  using approval_passed_every_gate [OF demo_approve] by (simp add: demo_request_def risk_order)

text \<open>
  Distinct approvers are counted by label, not by identity: one person approving an R4 request as
  \<open>alex\<close> and as \<open>cli:alex\<close> counts as two, although both labels name the identity \<open>alex\<close>.
\<close>

theorem one_person_is_two_approvers:
  "\<exists>r'. lifecycle_approve (\<lambda>s. s) Human [''alex'', ''cli:alex''] ''orders'' (Some ''orders'') (\<lambda>f. Some ''h1'') ''t0''
       (demo_request R4) = (r', Inr ()) \<and>
     rq_status r' = Approved [''human:alex'', ''human:cli:alex''] ''t0'' \<and>
     identity_of ''human:alex'' = ''alex'' \<and> identity_of ''human:cli:alex'' = ''alex''"
  by (simp add: demo_approve_simps) (simp add: demo_request_def demo_approve_simps)

section \<open>Decisions are final\<close>

inductive request_step :: "(string \<Rightarrow> string) \<Rightarrow> approval_request \<Rightarrow> approval_request \<Rightarrow> bool" for sha where
  approve: "lifecycle_approve sha a subjects obj typed current now r = (r', res) \<Longrightarrow> request_step sha r r'"
| reject: "lifecycle_reject a subject why r = (r', res) \<Longrightarrow> request_step sha r r'"
| show_evidence: "request_step sha r (r\<lparr>rq_evidence_shown := b\<rparr>)"

inductive_cases request_stepE: "request_step sha r r'"

lemma approve_frame:
  "approve_request sha as obj typed current now r = (r', res) \<Longrightarrow>
     rq_artifacts r' = rq_artifacts r \<and> rq_requester r' = rq_requester r \<and> rq_evidence r' = rq_evidence r \<and>
     rq_risk r' = rq_risk r \<and> rq_id r' = rq_id r \<and> (rq_status r \<noteq> Pending \<longrightarrow> rq_status r' = rq_status r)"
  by (auto simp: approve_request_def Let_def split: if_splits option.splits)

lemma request_step_frame:
  "request_step sha r r' \<Longrightarrow>
     rq_artifacts r' = rq_artifacts r \<and> rq_requester r' = rq_requester r \<and> rq_evidence r' = rq_evidence r \<and>
     rq_risk r' = rq_risk r \<and> rq_id r' = rq_id r \<and> (rq_status r \<noteq> Pending \<longrightarrow> rq_status r' = rq_status r)"
  by (erule request_stepE)
    (auto simp: lifecycle_approve_def lifecycle_reject_def reject_request_def dest: approve_frame split: if_splits)

text \<open>
  Decisions are final: whatever is tried on a request afterwards, once it is approved, rejected or
  dead it stays so, and what it is about, who raised it, its risk and its evidence never change, so
  a rejected or dead request never authorizes anything.
\<close>

theorem decisions_are_final:
  assumes "(request_step sha)\<^sup>*\<^sup>* r r'"
  shows "rq_artifacts r' = rq_artifacts r \<and> rq_requester r' = rq_requester r \<and> rq_evidence r' = rq_evidence r \<and>
    rq_risk r' = rq_risk r \<and> (rq_status r \<noteq> Pending \<longrightarrow> rq_status r' = rq_status r) \<and>
    (rq_status r \<in> {Rejected who why, Dead ch} \<longrightarrow> \<not> authorizes i h r')"
proof -
  have "rq_artifacts r' = rq_artifacts r \<and> rq_requester r' = rq_requester r \<and> rq_evidence r' = rq_evidence r \<and>
    rq_risk r' = rq_risk r \<and> (rq_status r \<noteq> Pending \<longrightarrow> rq_status r' = rq_status r)"
    using assms
  proof (induction rule: rtranclp_induct)
    case (step y z)
    then show ?case using request_step_frame [OF step.hyps(2)] by auto
  qed simp
  then show ?thesis by (auto simp: authorizes_def)
qed

lemma decisions_are_final_witness:
  "rq_status (fst (lifecycle_approve (\<lambda>s. s) Human [''alex''] ''orders'' None (\<lambda>f. Some ''h1'') ''t0''
     ((demo_request R2)\<lparr>rq_status := Dead [''F1'']\<rparr>))) = Dead [''F1'']"
proof -
  let ?r = "(demo_request R2)\<lparr>rq_status := Dead [''F1'']\<rparr>"
  have "request_step (\<lambda>s. s) ?r (fst (lifecycle_approve (\<lambda>s. s) Human [''alex''] ''orders'' None (\<lambda>f. Some ''h1'') ''t0'' ?r))"
    by (rule request_step.approve [OF prod.collapse [symmetric]])
  from decisions_are_final [OF r_into_rtranclp [of "request_step (\<lambda>s. s)", OF this]] show ?thesis by simp
qed

end
