(* ===== verification/Migration.thy ===== *)
theory Migration
  imports Kir Approval
begin

text \<open>
  Migration units as ledger facts: the state machine (\<open>migrate/src/state.rs\<close>), units and their
  transitions (\<open>project.rs\<close>), the human-only lifecycle (\<open>lifecycle.rs\<close>), and the two command-line
  loops that drive them (\<open>discover\<close> and \<open>decide\<close> in \<open>cli/src/commands/migrate.rs\<close>).

  The knowledge store is append-only: \<open>get_object\<close> is the last version appended under an id.  Every
  call to the store may fail: \<open>me_fault\<close> says which ones do, a failed call leaves the store as it was,
  and the \<open>?\<close> after the call returns its error, whatever was written before.  The clock, fresh event
  ids, the uuid crate and the text of a time are fields of the environment as well.
\<close>

section \<open>The state machine\<close>

datatype unit_state =
    Discovered | Profiled | Assessed | Planned | Mapped | UApproved | Generated | DryRunPassed | Loaded | Validated
  | Diverged | Syncing | SignedOff | Abandoned

fun state_str :: "unit_state \<Rightarrow> string" where
  "state_str Discovered = ''discovered''"
| "state_str Profiled = ''profiled''"
| "state_str Assessed = ''assessed''"
| "state_str Planned = ''planned''"
| "state_str Mapped = ''mapped''"
| "state_str UApproved = ''approved''"
| "state_str Generated = ''generated''"
| "state_str DryRunPassed = ''dry_run_passed''"
| "state_str Loaded = ''loaded''"
| "state_str Validated = ''validated''"
| "state_str Diverged = ''diverged''"
| "state_str Syncing = ''syncing''"
| "state_str SignedOff = ''signed_off''"
| "state_str Abandoned = ''abandoned''"

definition ALL_STATES :: "unit_state list" where
  "ALL_STATES =
     [Discovered, Profiled, Assessed, Planned, Mapped, UApproved, Generated, DryRunPassed, Loaded, Validated,
      Diverged, Syncing, SignedOff, Abandoned]"

definition parse_state :: "string \<Rightarrow> unit_state option" where
  "parse_state s =
     (if s = ''discovered'' then Some Discovered else if s = ''profiled'' then Some Profiled
      else if s = ''assessed'' then Some Assessed else if s = ''planned'' then Some Planned
      else if s = ''mapped'' then Some Mapped else if s = ''approved'' then Some UApproved
      else if s = ''generated'' then Some Generated else if s = ''dry_run_passed'' then Some DryRunPassed
      else if s = ''loaded'' then Some Loaded else if s = ''validated'' then Some Validated
      else if s = ''diverged'' then Some Diverged else if s = ''syncing'' then Some Syncing
      else if s = ''signed_off'' then Some SignedOff else if s = ''abandoned'' then Some Abandoned
      else None)"

fun allowed_next :: "unit_state \<Rightarrow> unit_state list" where
  "allowed_next Discovered = [Profiled, Abandoned]"
| "allowed_next Profiled = [Assessed, Abandoned]"
| "allowed_next Assessed = [Planned, Abandoned]"
| "allowed_next Planned = [Mapped, Abandoned]"
| "allowed_next Mapped = [UApproved, Planned, Abandoned]"
| "allowed_next UApproved = [Generated, Mapped, Abandoned]"
| "allowed_next Generated = [DryRunPassed, Mapped, Abandoned]"
| "allowed_next DryRunPassed = [Loaded, Generated, Abandoned]"
| "allowed_next Loaded = [Validated, Diverged, Abandoned]"
| "allowed_next Validated = [Syncing, SignedOff, Diverged, Abandoned]"
| "allowed_next Diverged = [Mapped, Generated, Abandoned]"
| "allowed_next Syncing = [SignedOff, Diverged, Abandoned]"
| "allowed_next SignedOff = []"
| "allowed_next Abandoned = []"

definition can_move_to :: "unit_state \<Rightarrow> unit_state \<Rightarrow> bool" where
  "can_move_to a b \<longleftrightarrow> b \<in> set (allowed_next a)"

definition is_terminal :: "unit_state \<Rightarrow> bool" where
  "is_terminal a \<longleftrightarrow> allowed_next a = []"

definition is_complete :: "unit_state \<Rightarrow> bool" where
  "is_complete a \<longleftrightarrow> a = Validated \<or> a = SignedOff"

lemma parse_state_str [simp]: "parse_state (state_str s) = Some s"
  by (cases s) (simp_all add: parse_state_def)

section \<open>The store\<close>

record 'n kstore =
  ks_objects :: "'n kir_object list"
  ks_relationships :: "'n kir_relationship list"
  ks_events :: "'n kir_event list"

definition ks_get :: "kir_id \<Rightarrow> 'n kstore \<Rightarrow> 'n kir_object option" where
  "ks_get i s = find (\<lambda>ob. ko_id ob = i) (rev (ks_objects s))"

definition append_object :: "'n kir_object \<Rightarrow> 'n kstore \<Rightarrow> 'n kstore" where
  "append_object ob s = s\<lparr>ks_objects := ks_objects s @ [ob]\<rparr>"

definition append_relationship :: "'n kir_relationship \<Rightarrow> 'n kstore \<Rightarrow> 'n kstore" where
  "append_relationship r s = s\<lparr>ks_relationships := ks_relationships s @ [r]\<rparr>"

definition append_event :: "'n kir_event \<Rightarrow> 'n kstore \<Rightarrow> 'n kstore" where
  "append_event e s = s\<lparr>ks_events := ks_events s @ [e]\<rparr>"

lemma ks_get_append [simp]:
  "ks_get i (append_object ob s) = (if ko_id ob = i then Some ob else ks_get i s)"
  "ks_get i (append_relationship r s) = ks_get i s"
  "ks_get i (append_event e s) = ks_get i s"
  by (simp_all add: ks_get_def append_object_def append_relationship_def append_event_def)

datatype store_call = GetObject kir_id | AppendObject kir_id | AppendRelationship kir_id | AppendEvent kir_id

record 'n mig_env =
  me_v5 :: "string \<Rightarrow> kir_id"
  me_show_id :: "kir_id \<Rightarrow> string"
  me_now :: int
  me_show_time :: "int \<Rightarrow> string"
  me_num :: "nat \<Rightarrow> 'n"
  me_fault :: "store_call \<Rightarrow> string option"

section \<open>Units\<close>

datatype mig_error =
    NotAUnit kir_id
  | NotAMigrationObject kir_id
  | NotFound kir_id
  | UnknownState string
  | IllegalTransition unit_state unit_state
  | ReasonRequired
  | LedgerFailed string

text \<open>The three appends and the read of an object, each followed by \<open>?\<close>.\<close>

definition or_fail :: "'n mig_env \<Rightarrow> store_call \<Rightarrow> 'n kstore \<Rightarrow> 'n kstore \<times> (mig_error + 'a) \<Rightarrow> 'n kstore \<times> (mig_error + 'a)" where
  "or_fail me c s k = (case me_fault me c of Some e \<Rightarrow> (s, Inl (LedgerFailed e)) | None \<Rightarrow> k)"

definition UNIT_KIND :: string where
  "UNIT_KIND = ''MigrationUnit''"

definition ALL_KINDS :: "string list" where
  "ALL_KINDS =
     [''MigrationProject'', ''MigrationUnit'', ''MigrationConnectionRef'', ''MigrationTableProfile'',
      ''MigrationColumnProfile'', ''MigrationDrift'', ''MigrationFinding'', ''MigrationApproval'', ''MigrationProposal'']"

definition project_id :: "'n mig_env \<Rightarrow> string \<Rightarrow> kir_id" where
  "project_id me n = me_v5 me (''migration-project:'' @ n)"

definition unit_id :: "'n mig_env \<Rightarrow> string \<Rightarrow> string \<Rightarrow> kir_id" where
  "unit_id me p k = me_v5 me (''migration-unit:'' @ p @ '':'' @ k)"

definition is_kind :: "'n kir_object \<Rightarrow> string \<Rightarrow> bool" where
  "is_kind ob k \<longleftrightarrow> ko_kind ob = KCustom k"

record mig_unit =
  mu_project :: string
  mu_key :: string
  mu_state :: unit_state
  mu_wave :: "nat option"

definition unit_create :: "'n mig_env \<Rightarrow> kir_id \<Rightarrow> mig_unit \<Rightarrow> 'n kstore \<Rightarrow> 'n kstore \<times> (mig_error + kir_id)" where
  "unit_create me rnd u s =
     (let i = unit_id me (mu_project u) (mu_key u);
          ob = (object_new rnd (me_now me) (mu_key u) (KCustom UNIT_KIND))\<lparr>ko_id := i\<rparr>;
          ob = with_property ''project'' (JString (mu_project u)) ob;
          ob = with_property ''state'' (JString (state_str (mu_state u))) ob;
          ob = with_property ''wave'' (case mu_wave u of None \<Rightarrow> JNull | Some w \<Rightarrow> JNumber (me_num me w)) ob;
          s' = append_object ob s;
          r = relationship_deterministic (me_v5 me) (me_show_id me) (me_now me)
                (RCustom ''HasMigrationUnit'') (project_id me (mu_project u)) i []
      in or_fail me (AppendObject i) s
           (or_fail me (AppendRelationship (kr_id r)) s' (append_relationship r s', Inr i)))"

text \<open>What a read of the unit finds, and the read.\<close>

definition stored_state :: "kir_id \<Rightarrow> 'n kstore \<Rightarrow> mig_error + unit_state option" where
  "stored_state i s =
     (case ks_get i s of
        None \<Rightarrow> Inr None
      | Some ob \<Rightarrow>
          if \<not> is_kind ob UNIT_KIND then Inl (NotAUnit i)
          else (case prop_str (ko_properties ob) ''state'' of
                  None \<Rightarrow> Inl (NotAUnit i)
                | Some raw \<Rightarrow> (case parse_state raw of None \<Rightarrow> Inl (UnknownState raw) | Some st \<Rightarrow> Inr (Some st))))"

definition state_of :: "'n mig_env \<Rightarrow> kir_id \<Rightarrow> 'n kstore \<Rightarrow> mig_error + unit_state option" where
  "state_of me i s = snd (or_fail me (GetObject i) s (s, stored_state i s))"

definition transition_payload :: "unit_state \<Rightarrow> unit_state \<Rightarrow> string \<Rightarrow> string \<Rightarrow> 'n json" where
  "transition_payload a b who why =
     JObject [(''actor'', JString who), (''from'', JString (state_str a)), (''reason'', JString why), (''to'', JString (state_str b))]"

definition transition_inner ::
  "'n mig_env \<Rightarrow> kir_id \<Rightarrow> kir_id \<Rightarrow> unit_state \<Rightarrow> string \<Rightarrow> string \<Rightarrow> 'n kstore \<Rightarrow> 'n kstore \<times> (mig_error + kir_id option)" where
  "transition_inner me ev i to who why s =
     or_fail me (GetObject i) s
      (case ks_get i s of
        None \<Rightarrow> (s, Inl (NotAUnit i))
      | Some ob \<Rightarrow>
          if \<not> is_kind ob UNIT_KIND then (s, Inl (NotAUnit i))
          else
            let raw = (case prop_str (ko_properties ob) ''state'' of None \<Rightarrow> ''discovered'' | Some x \<Rightarrow> x)
            in case parse_state raw of
                 None \<Rightarrow> (s, Inl (UnknownState raw))
               | Some st \<Rightarrow>
                   if st = to then (s, Inr None)
                   else if \<not> can_move_to st to then (s, Inl (IllegalTransition st to))
                   else
                     let ob' = with_property ''state_changed_at'' (JString (me_show_time me (me_now me)))
                           (with_property ''state'' (JString (state_str to)) ob);
                         e = \<lparr>kv_id = ev, kv_kind = ECustom ''MigrationTransition'', kv_subject = ko_id ob,
                              kv_payload = transition_payload st to who why, kv_evidence = [], kv_occurred_at = me_now me\<rparr>;
                         s' = append_object ob' s
                     in or_fail me (AppendObject (ko_id ob')) s
                          (or_fail me (AppendEvent ev) s' (append_event e s', Inr (Some ev))))"

section \<open>Lifecycle\<close>

definition is_blank :: "string \<Rightarrow> bool" where
  "is_blank s \<longleftrightarrow> list_all is_space s"

definition abandon ::
  "'n mig_env \<Rightarrow> kir_id \<Rightarrow> kir_id \<Rightarrow> actor \<Rightarrow> string \<Rightarrow> string \<Rightarrow> 'n kstore \<Rightarrow> 'n kstore \<times> (mig_error + kir_id option)" where
  "abandon me ev i a subject why s =
     (if is_blank why then (s, Inl ReasonRequired)
      else transition_inner me ev i Abandoned (actor_label a subject) why s)"

definition is_migration_object :: "'n kir_object \<Rightarrow> bool" where
  "is_migration_object ob \<longleftrightarrow> (case ko_kind ob of KCustom k \<Rightarrow> k \<in> set ALL_KINDS | _ \<Rightarrow> False)"

definition superseded_object :: "'n mig_env \<Rightarrow> kir_id \<Rightarrow> 'n kir_object \<Rightarrow> 'n kir_object" where
  "superseded_object me new_id old =
     with_property ''superseded_at'' (JString (me_show_time me (me_now me)))
       (with_property ''superseded_by'' (JString (me_show_id me new_id))
         (with_property ''status'' (JString ''superseded'') old))"

definition status_changed_event :: "'n mig_env \<Rightarrow> kir_id \<Rightarrow> kir_id \<Rightarrow> string \<Rightarrow> string \<Rightarrow> 'n kir_object \<Rightarrow> 'n kir_event" where
  "status_changed_event me ev new_id who why old =
     \<lparr>kv_id = ev, kv_kind = ECustom ''MigrationStatusChanged'', kv_subject = ko_id old,
      kv_payload = JObject [(''actor'', JString who),
         (''from'', (case map_of (ko_properties old) ''status'' of None \<Rightarrow> JString ''active'' | Some v \<Rightarrow> v)),
         (''reason'', JString why), (''superseded_by'', JString (me_show_id me new_id)), (''to'', JString ''superseded'')],
      kv_evidence = [], kv_occurred_at = me_now me\<rparr>"

definition supersede_inner ::
  "'n mig_env \<Rightarrow> kir_id \<Rightarrow> kir_id \<Rightarrow> kir_id \<Rightarrow> actor \<Rightarrow> string \<Rightarrow> string \<Rightarrow> 'n kstore \<Rightarrow> 'n kstore \<times> (mig_error + unit)" where
  "supersede_inner me ev old_id new_id a subject why s =
     or_fail me (GetObject old_id) s
      (case ks_get old_id s of
        None \<Rightarrow> (s, Inl (NotFound old_id))
      | Some old \<Rightarrow>
          or_fail me (GetObject new_id) s
           (case ks_get new_id s of
              None \<Rightarrow> (s, Inl (NotFound new_id))
            | Some new \<Rightarrow>
                if \<not> is_migration_object old \<or> \<not> is_migration_object new then (s, Inl (NotAMigrationObject old_id))
                else
                  let s1 = append_object (superseded_object me new_id old) s;
                      s2 = append_event (status_changed_event me ev new_id (actor_label a subject) why old) s1;
                      r = relationship_deterministic (me_v5 me) (me_show_id me) (me_now me) (RCustom ''Supersedes'') new_id old_id []
                  in or_fail me (AppendObject (ko_id old)) s
                       (or_fail me (AppendEvent ev) s1
                         (or_fail me (AppendRelationship (kr_id r)) s2 (append_relationship r s2, Inr ())))))"

section \<open>The command-line loops\<close>

text \<open>The loop of \<open>discover\<close> over the tables of the live catalog: the first error ends it.\<close>

fun discover_units :: "'n mig_env \<Rightarrow> kir_id \<Rightarrow> string \<Rightarrow> string list \<Rightarrow> 'n kstore \<Rightarrow> 'n kstore \<times> (mig_error + unit)" where
  "discover_units me rnd project [] s = (s, Inr ())"
| "discover_units me rnd project (k # keys) s =
     (case unit_create me rnd \<lparr>mu_project = project, mu_key = k, mu_state = Discovered, mu_wave = None\<rparr> s of
        (s', Inl e) \<Rightarrow> (s', Inl e)
      | (s', Inr _) \<Rightarrow> discover_units me rnd project keys s')"

text \<open>
  \<open>decide\<close> works on a copy of the stored request and writes it back at the end; an error returns
  before the write.
\<close>

definition decide ::
  "(string \<Rightarrow> string) \<Rightarrow> string list \<Rightarrow> string option \<Rightarrow> string option \<Rightarrow> bool \<Rightarrow> string \<Rightarrow> string \<Rightarrow> (string \<Rightarrow> string option) \<Rightarrow> string \<Rightarrow>
     approval_request \<Rightarrow> approval_request \<times> (request_error option + unit)" where
  "decide sha subjects reject_reason confirm show_evidence whoami unit_name current now stored =
     (case reject_reason of
        Some why \<Rightarrow>
          (case lifecycle_reject Human (case subjects of [] \<Rightarrow> whoami | w # _ \<Rightarrow> w) why stored of
             (r, Inl e) \<Rightarrow> (stored, Inl (Some e))
           | (r, Inr _) \<Rightarrow> (r, Inr ()))
      | None \<Rightarrow>
          if subjects = [] then (stored, Inl None)
          else
            (case lifecycle_approve sha Human subjects unit_name confirm current now (stored\<lparr>rq_evidence_shown := show_evidence\<rparr>) of
               (r, Inl e) \<Rightarrow> (stored, Inl (Some e))
             | (r, Inr _) \<Rightarrow> (r, Inr ())))"

section \<open>The audit trail\<close>

lemma prop_str_bt_insert [simp]:
  "prop_str (bt_insert k v m) k' = (if k' = k then as_str v else prop_str m k')"
  by (simp add: prop_str_def map_of_bt_insert)

lemma with_property_fields [simp]:
  "ko_id (with_property k v ob) = ko_id ob" "ko_kind (with_property k v ob) = ko_kind ob"
  "ko_properties (with_property k v ob) = bt_insert k v (ko_properties ob)"
  by (simp_all add: with_property_def)

lemma ks_get_id: "ks_get i s = Some ob \<Longrightarrow> ko_id ob = i"
  by (auto simp: ks_get_def find_Some_iff)

lemma ks_append_simps [simp]:
  "ks_objects (append_object ob s) = ks_objects s @ [ob]" "ks_events (append_object ob s) = ks_events s"
  "ks_relationships (append_object ob s) = ks_relationships s"
  "ks_objects (append_relationship r s) = ks_objects s" "ks_events (append_relationship r s) = ks_events s"
  "ks_relationships (append_relationship r s) = ks_relationships s @ [r]"
  "ks_objects (append_event e s) = ks_objects s" "ks_events (append_event e s) = ks_events s @ [e]"
  "ks_relationships (append_event e s) = ks_relationships s"
  by (simp_all add: append_object_def append_relationship_def append_event_def)

text \<open>The moves of one unit, read back from the event log.\<close>

definition move_of :: "'n kir_event \<Rightarrow> (unit_state \<times> unit_state) option" where
  "move_of e =
     (case kv_payload e of
        JObject m \<Rightarrow>
          (case (prop_str m ''from'', prop_str m ''to'') of
             (Some a, Some b) \<Rightarrow>
               (case (parse_state a, parse_state b) of (Some x, Some y) \<Rightarrow> Some (x, y) | _ \<Rightarrow> None)
           | _ \<Rightarrow> None)
      | _ \<Rightarrow> None)"

definition is_move_of :: "kir_id \<Rightarrow> 'n kir_event \<Rightarrow> bool" where
  "is_move_of i e \<longleftrightarrow> kv_subject e = i \<and> kv_kind e = ECustom ''MigrationTransition''"

definition trail :: "kir_id \<Rightarrow> 'n kstore \<Rightarrow> (unit_state \<times> unit_state) list" where
  "trail i s = List.map_filter move_of (filter (is_move_of i) (ks_events s))"

lemma move_of_payload [simp]: "kv_payload e = transition_payload a b who why \<Longrightarrow> move_of e = Some (a, b)"
  by (simp add: move_of_def transition_payload_def prop_str_def)

lemma trail_append [simp]:
  "trail i (append_object ob s) = trail i s" "trail i (append_relationship r s) = trail i s"
  "trail i (append_event e s) =
     trail i s @ (if is_move_of i e then (case move_of e of None \<Rightarrow> [] | Some m \<Rightarrow> [m]) else [])"
  by (simp_all add: trail_def List.map_filter_def split: option.splits)

text \<open>A path of legal moves.\<close>

fun lawful :: "unit_state \<Rightarrow> (unit_state \<times> unit_state) list \<Rightarrow> unit_state \<Rightarrow> bool" where
  "lawful a [] b \<longleftrightarrow> a = b"
| "lawful a (m # ms) b \<longleftrightarrow> fst m = a \<and> can_move_to a (snd m) \<and> lawful (snd m) ms b"

lemma lawful_append [simp]: "lawful a (ms @ ms') b \<longleftrightarrow> (\<exists>c. lawful a ms c \<and> lawful c ms' b)"
  by (induction ms arbitrary: a) auto

text \<open>The states that lie on every legal path from \<open>Discovered\<close>.\<close>

definition PIPELINE :: "unit_state list" where
  "PIPELINE = [Discovered, Profiled, Assessed, Planned, Mapped, UApproved, Generated, DryRunPassed, Loaded, Validated]"

fun behind :: "unit_state \<Rightarrow> unit_state set" where
  "behind Diverged = set (takeWhile (\<lambda>x. x \<noteq> Validated) PIPELINE)"
| "behind Syncing = set PIPELINE"
| "behind SignedOff = set PIPELINE"
| "behind Abandoned = {}"
| "behind x = set (takeWhile (\<lambda>y. y \<noteq> x) PIPELINE)"

lemma behind_step: "can_move_to a b \<Longrightarrow> behind b \<subseteq> insert a (behind a)"
  by (cases a) (auto simp: can_move_to_def PIPELINE_def)

lemma lawful_visits: "lawful a ms b \<Longrightarrow> behind b \<subseteq> behind a \<union> insert a (snd ` set ms)"
proof (induction ms arbitrary: a)
  case (Cons m ms)
  then show ?case using behind_step [of a "snd m"] by fastforce
qed auto

section \<open>What every operation does to a unit\<close>

lemma or_fail_ok [simp]: "me_fault me c = None \<Longrightarrow> or_fail me c s k = k"
  by (simp add: or_fail_def)

lemma or_fail_error [simp]: "me_fault me c = Some e \<Longrightarrow> or_fail me c s k = (s, Inl (LedgerFailed e))"
  by (simp add: or_fail_def)

text \<open>A call leaves the store alone with an error, or goes on.\<close>

lemma or_failE:
  assumes "or_fail me c s k = (s', res)"
  obtains e where "me_fault me c = Some e" "s' = s" "res = Inl (LedgerFailed e)"
  | "me_fault me c = None" "k = (s', res)"
  using assms by (cases "me_fault me c") auto

lemma stored_state_cases:
  "stored_state i s = Inr (Some st) \<longleftrightarrow>
     (\<exists>ob raw. ks_get i s = Some ob \<and> is_kind ob UNIT_KIND \<and> prop_str (ko_properties ob) ''state'' = Some raw \<and>
        parse_state raw = Some st)"
  by (auto simp: stored_state_def split: option.splits if_splits)

lemma stored_state_append [simp]:
  "stored_state i (append_relationship r s) = stored_state i s" "stored_state i (append_event e s) = stored_state i s"
  "ko_id ob \<noteq> i \<Longrightarrow> stored_state i (append_object ob s) = stored_state i s"
  by (simp_all add: stored_state_def)

lemma stored_state_same:
  assumes "ks_get i s = Some ob" "ko_id ob' = i" "ko_kind ob' = ko_kind ob"
    "prop_str (ko_properties ob') ''state'' = prop_str (ko_properties ob) ''state''"
  shows "stored_state i (append_object ob' s) = stored_state i s"
  using assms by (simp add: stored_state_def is_kind_def)

lemma superseded_object_fields [simp]:
  "ko_id (superseded_object me n ob) = ko_id ob" "ko_kind (superseded_object me n ob) = ko_kind ob"
  "prop_str (ko_properties (superseded_object me n ob)) ''state'' = prop_str (ko_properties ob) ''state''"
  by (simp_all add: superseded_object_def)

text \<open>An object re-appended with its state untouched, and events that are no move, change no unit.\<close>

lemma superseded_same:
  assumes "ks_get old s = Some ob"
  shows "stored_state i (append_object (superseded_object me n ob) s) = stored_state i s"
proof -
  have "ko_id ob = old" using assms by (rule ks_get_id)
  then show ?thesis using assms stored_state_same [of i s ob "superseded_object me n ob"] by (cases "i = old") simp_all
qed

lemma status_event_no_move [simp]: "\<not> is_move_of i (status_changed_event me ev n who why ob)"
  by (simp add: is_move_of_def status_changed_event_def)

lemma supersede_frame:
  assumes "supersede_inner me ev old new a sub why s = (s', res)"
  shows "stored_state i s' = stored_state i s \<and> trail i s' = trail i s"
proof (cases "ks_get old s")
  case None
  with assms show ?thesis by (auto simp: supersede_inner_def elim!: or_failE)
next
  case (Some ob)
  note same = superseded_same [OF Some]
  show ?thesis
    using assms Some by (auto simp: supersede_inner_def Let_def same elim!: or_failE split: option.splits if_splits)
qed

text \<open>Creating a unit stores its state as soon as the object is written, and logs nothing.\<close>

lemma unit_create_effect:
  assumes "unit_create me rnd u s = (s', res)"
  shows "me_fault me (AppendObject (unit_id me (mu_project u) (mu_key u))) = None \<Longrightarrow>
      stored_state (unit_id me (mu_project u) (mu_key u)) s' = Inr (Some (mu_state u))"
    "i \<noteq> unit_id me (mu_project u) (mu_key u) \<Longrightarrow> stored_state i s' = stored_state i s"
    "ks_events s' = ks_events s"
  using assms
  by (auto simp: unit_create_def Let_def stored_state_def object_new_def is_kind_def prop_str_def
      append_relationship_def append_object_def ks_get_def elim!: or_failE)

lemma unit_create_ok:
  assumes "unit_create me rnd u s = (s', Inr j)"
  shows "me_fault me (AppendObject (unit_id me (mu_project u) (mu_key u))) = None \<and> j = unit_id me (mu_project u) (mu_key u)"
  using assms by (auto simp: unit_create_def Let_def elim!: or_failE)

lemma trail_events: "ks_events s' = ks_events s \<Longrightarrow> trail i s' = trail i s"
  by (simp add: trail_def)

lemma not_self_move: "\<not> can_move_to st st"
  by (cases st) (simp_all add: can_move_to_def)

text \<open>A legal move, with the three points where the store may refuse.\<close>

lemma transition_move:
  assumes "stored_state i s = Inr (Some st)" "can_move_to st to" "transition_inner me ev i to who why s = (s', res)"
    "me_fault me (GetObject i) = None"
  shows "me_fault me (AppendObject i) = Some e \<Longrightarrow> s' = s \<and> res = Inl (LedgerFailed e)"
    "me_fault me (AppendObject i) = None \<Longrightarrow> me_fault me (AppendEvent ev) = Some e \<Longrightarrow>
       res = Inl (LedgerFailed e) \<and> stored_state i s' = Inr (Some to) \<and> ks_events s' = ks_events s"
    "me_fault me (AppendObject i) = None \<Longrightarrow> me_fault me (AppendEvent ev) = None \<Longrightarrow>
       res = Inr (Some ev) \<and> stored_state i s' = Inr (Some to) \<and> trail i s' = trail i s @ [(st, to)]"
proof -
  obtain ob raw where ob: "ks_get i s = Some ob" "is_kind ob UNIT_KIND" "prop_str (ko_properties ob) ''state'' = Some raw"
    "parse_state raw = Some st" using assms(1) by (auto simp: stored_state_cases)
  have i: "ko_id ob = i" using ob(1) by (rule ks_get_id)
  have n: "st \<noteq> to" using assms(2) not_self_move by blast
  note t = assms(3) [unfolded transition_inner_def]
  show "s' = s \<and> res = Inl (LedgerFailed e)" if "me_fault me (AppendObject i) = Some e"
    using t assms(2,4) ob i n that by (simp add: Let_def)
  show "res = Inl (LedgerFailed e) \<and> stored_state i s' = Inr (Some to) \<and> ks_events s' = ks_events s"
    if "me_fault me (AppendObject i) = None" "me_fault me (AppendEvent ev) = Some e"
    using t assms(2,4) ob i n that by (auto simp: Let_def stored_state_def is_kind_def)
  show "res = Inr (Some ev) \<and> stored_state i s' = Inr (Some to) \<and> trail i s' = trail i s @ [(st, to)]"
    if "me_fault me (AppendObject i) = None" "me_fault me (AppendEvent ev) = None"
    using t assms(2,4) ob i n that by (auto simp: Let_def stored_state_def is_kind_def is_move_of_def)
qed

lemma transition_stays:
  assumes "stored_state i s = Inr (Some st)" "transition_inner me ev i to who why s = (s', res)"
  shows "me_fault me (GetObject i) = Some e \<Longrightarrow> s' = s \<and> res = Inl (LedgerFailed e)"
    "me_fault me (GetObject i) = None \<Longrightarrow> st = to \<Longrightarrow> s' = s \<and> res = Inr None"
    "me_fault me (GetObject i) = None \<Longrightarrow> st \<noteq> to \<Longrightarrow> \<not> can_move_to st to \<Longrightarrow> s' = s \<and> res = Inl (IllegalTransition st to)"
proof -
  obtain ob raw where ob: "ks_get i s = Some ob" "is_kind ob UNIT_KIND" "prop_str (ko_properties ob) ''state'' = Some raw"
    "parse_state raw = Some st" using assms(1) by (auto simp: stored_state_cases)
  note t = assms(2) [unfolded transition_inner_def]
  show "s' = s \<and> res = Inl (LedgerFailed e)" if "me_fault me (GetObject i) = Some e" using t that by simp
  show "s' = s \<and> res = Inr None" if "me_fault me (GetObject i) = None" "st = to" using t ob that by (simp add: Let_def)
  show "s' = s \<and> res = Inl (IllegalTransition st to)" if "me_fault me (GetObject i) = None" "st \<noteq> to" "\<not> can_move_to st to"
    using t ob that by (simp add: Let_def)
qed

text \<open>No other unit's state or trail is touched.\<close>

lemma transition_other:
  assumes "transition_inner me ev j to who why s = (s', res)" "i \<noteq> j"
  shows "stored_state i s' = stored_state i s \<and> trail i s' = trail i s"
proof (cases "ks_get j s")
  case None
  with assms show ?thesis by (auto simp: transition_inner_def elim!: or_failE)
next
  case (Some ob)
  have "ko_id ob = j" using Some by (rule ks_get_id)
  with assms Some show ?thesis
    by (auto simp: transition_inner_def Let_def is_move_of_def elim!: or_failE split: option.splits if_splits)
qed

section \<open>Properties\<close>

text \<open>
  C34: A transition of a unit does exactly one of these.  When the unit cannot be read or its new
  version cannot be written, the store is as before and its error is returned.  Asking for the state
  the unit is in is a no-op, and a move the state machine does not allow is refused; both leave the
  store as before.  An allowed move whose event is written moves the unit and logs exactly that
  move.  An allowed move whose event the store refuses returns the error although the unit has moved,
  and logs nothing.  No other unit is ever affected.
\<close>

theorem transition_exact:
  assumes "stored_state i s = Inr (Some st)" and "transition_inner me ev i to who why s = (s', res)"
  shows "(case me_fault me (GetObject i) of
       Some e \<Rightarrow> s' = s \<and> res = Inl (LedgerFailed e)
     | None \<Rightarrow>
         if st = to then s' = s \<and> res = Inr None
         else if \<not> can_move_to st to then s' = s \<and> res = Inl (IllegalTransition st to)
         else (case (me_fault me (AppendObject i), me_fault me (AppendEvent ev)) of
             (Some e, _) \<Rightarrow> s' = s \<and> res = Inl (LedgerFailed e)
           | (None, Some e) \<Rightarrow> res = Inl (LedgerFailed e) \<and> stored_state i s' = Inr (Some to) \<and> trail i s' = trail i s
           | (None, None) \<Rightarrow> res = Inr (Some ev) \<and> stored_state i s' = Inr (Some to) \<and> trail i s' = trail i s @ [(st, to)])) \<and>
    (\<forall>j. j \<noteq> i \<longrightarrow> stored_state j s' = stored_state j s \<and> trail j s' = trail j s)"
    (is "?effect \<and> ?others")
proof
  show ?effect
    using transition_stays [OF assms] transition_move [OF assms(1) _ assms(2)] trail_events [of s' s i]
    by (auto split: option.split)
  show ?others using transition_other [OF assms(2)] by blast
qed

text \<open>Not every answer of the store is good: \<open>demo_env\<close> refuses the event 13.\<close>

definition demo_env :: "nat mig_env" where
  "demo_env = \<lparr>me_v5 = (\<lambda>s. of_nat (length s)), me_show_id = binary_text, me_now = 0, me_show_time = (\<lambda>t. []), me_num = (\<lambda>n. n),
     me_fault = (\<lambda>c. if c = AppendEvent 13 then Some ''disk full'' else None)\<rparr>"

definition demo_create :: "unit_state \<Rightarrow> nat kstore \<times> (mig_error + kir_id)" where
  "demo_create st = unit_create demo_env 1 \<lparr>mu_project = ''p'', mu_key = ''orders'', mu_state = st, mu_wave = None\<rparr>
     \<lparr>ks_objects = [], ks_relationships = [], ks_events = []\<rparr>"

definition demo_units :: "unit_state \<Rightarrow> nat kstore" where
  "demo_units st = fst (demo_create st)"

definition demo_unit :: kir_id where
  "demo_unit = unit_id demo_env ''p'' ''orders''"

lemma demo_fault [simp]: "me_fault demo_env c = (if c = AppendEvent 13 then Some ''disk full'' else None)"
  by (simp add: demo_env_def)

lemma demo_created: "demo_create st = (demo_units st, Inr demo_unit)"
  by (simp add: demo_create_def demo_units_def demo_unit_def unit_create_def Let_def)

lemma demo_state: "stored_state demo_unit (demo_units st) = Inr (Some st)"
  using unit_create_effect(1) [OF demo_created [unfolded demo_create_def]] by (simp add: demo_unit_def)

lemma transition_exact_witness:
  "snd (transition_inner demo_env 9 demo_unit Validated ''cli'' ''x'' (demo_units Planned)) = Inl (IllegalTransition Planned Validated) \<and>
   snd (transition_inner demo_env 9 demo_unit Mapped ''cli'' ''x'' (demo_units Planned)) = Inr (Some 9) \<and>
   snd (transition_inner demo_env 13 demo_unit Mapped ''cli'' ''x'' (demo_units Planned)) = Inl (LedgerFailed ''disk full'')"
  using transition_exact [OF demo_state prod.collapse [symmetric], where st = Planned and me = demo_env and ev = 9
      and to = Validated and who = "''cli''" and why = "''x''"]
    transition_exact [OF demo_state prod.collapse [symmetric], where st = Planned and me = demo_env and ev = 9
      and to = Mapped and who = "''cli''" and why = "''x''"]
    transition_exact [OF demo_state prod.collapse [symmetric], where st = Planned and me = demo_env and ev = 13
      and to = Mapped and who = "''cli''" and why = "''x''"]
  by (simp add: can_move_to_def)

text \<open>
  \<open>transition\<close> promises to re-append the object and append the event.  When the store refuses the
  event it has done the first half: the caller gets an error and the unit has moved with nothing on
  record.  Asking again is then a no-op, so the event is never written.
\<close>

lemma failed_event_moves_the_unit:
  assumes "stored_state i s = Inr (Some st)" "can_move_to st to" "transition_inner me ev i to who why s = (s', res)"
    "me_fault me (GetObject i) = None" "me_fault me (AppendObject i) = None" "me_fault me (AppendEvent ev) = Some e"
    "me_fault me' (GetObject i) = None"
  shows "res = Inl (LedgerFailed e) \<and> stored_state i s' = Inr (Some to) \<and> ks_events s' = ks_events s \<and>
    transition_inner me' ev' i to who' why' s' = (s', Inr None)"
proof -
  have m: "res = Inl (LedgerFailed e) \<and> stored_state i s' = Inr (Some to) \<and> ks_events s' = ks_events s"
    using transition_move(2) [OF assms(1-4)] assms(5,6) by simp
  then show ?thesis
    using transition_stays(2) [of i s' to me' ev' to who' why', OF _ prod.collapse [symmetric]] assms(7)
    by (metis prod.collapse)
qed

text \<open>
  The calls of the migration API, each of them with an environment of its own, and what they do to
  the state of one unit: the changes a reader of the unit sees, each with whether the call that made
  it reported success.
\<close>

datatype 'n mig_call =
    CallCreate "'n mig_env" kir_id mig_unit
  | CallTransition "'n mig_env" kir_id kir_id unit_state string string
  | CallAbandon "'n mig_env" kir_id kir_id actor string string
  | CallSupersede "'n mig_env" kir_id kir_id kir_id actor string string

fun answered :: "'n kstore \<times> (mig_error + 'a) \<Rightarrow> 'n kstore \<times> bool" where
  "answered (s, r) = (s, \<not> isl r)"

fun perform :: "'n mig_call \<Rightarrow> 'n kstore \<Rightarrow> 'n kstore \<times> bool" where
  "perform (CallCreate me rnd u) s = answered (unit_create me rnd u s)"
| "perform (CallTransition me ev i to who why) s = answered (transition_inner me ev i to who why s)"
| "perform (CallAbandon me ev i a subject why) s = answered (abandon me ev i a subject why s)"
| "perform (CallSupersede me ev old new a subject why) s = answered (supersede_inner me ev old new a subject why s)"

definition perform_all :: "'n mig_call list \<Rightarrow> 'n kstore \<Rightarrow> 'n kstore" where
  "perform_all cs s = fold (\<lambda>c s. fst (perform c s)) cs s"

definition change_of :: "kir_id \<Rightarrow> 'n kstore \<Rightarrow> 'n kstore \<times> bool \<Rightarrow> ((unit_state \<times> unit_state) \<times> bool) list" where
  "change_of i s r =
     (case (stored_state i s, stored_state i (fst r)) of
        (Inr (Some a), Inr (Some b)) \<Rightarrow> if a = b then [] else [((a, b), snd r)]
      | _ \<Rightarrow> [])"

fun changes :: "kir_id \<Rightarrow> 'n mig_call list \<Rightarrow> 'n kstore \<Rightarrow> ((unit_state \<times> unit_state) \<times> bool) list" where
  "changes i [] s = []"
| "changes i (c # cs) s = change_of i s (perform c s) @ changes i cs (fst (perform c s))"

fun creates :: "kir_id \<Rightarrow> 'n mig_call \<Rightarrow> bool" where
  "creates i (CallCreate me rnd u) \<longleftrightarrow> i = unit_id me (mu_project u) (mu_key u)"
| "creates i _ \<longleftrightarrow> False"

text \<open>One call: the unit keeps a state, moves along an edge at most, and logs it unless it reports an error.\<close>

definition step_ok :: "kir_id \<Rightarrow> unit_state \<Rightarrow> 'n kstore \<Rightarrow> 'n kstore \<times> bool \<Rightarrow> bool" where
  "step_ok i a s r \<longleftrightarrow>
     (\<exists>b. stored_state i (fst r) = Inr (Some b) \<and> lawful a (map fst (change_of i s r)) b \<and>
        trail i (fst r) = trail i s @ map fst (filter snd (change_of i s r)))"

lemma step_ok_same:
  "stored_state i s = Inr (Some a) \<Longrightarrow> stored_state i (fst r) = stored_state i s \<Longrightarrow> trail i (fst r) = trail i s \<Longrightarrow> step_ok i a s r"
  by (simp add: step_ok_def change_of_def)

lemma step_ok_move:
  assumes "stored_state i s = Inr (Some a)" "stored_state i s' = Inr (Some b)" "can_move_to a b"
    "trail i s' = trail i s @ (if good then [(a, b)] else [])"
  shows "step_ok i a s (s', good)"
proof -
  have "a \<noteq> b" using assms(3) not_self_move by blast
  then show ?thesis using assms by (simp add: step_ok_def change_of_def)
qed

lemma transition_step:
  assumes "stored_state i s = Inr (Some a)"
  shows "step_ok i a s (answered (transition_inner me ev j to who why s))"
proof -
  obtain s' res where r: "transition_inner me ev j to who why s = (s', res)" by fastforce
  show ?thesis
  proof (cases "i = j")
    case False
    then show ?thesis using transition_other [OF r] assms r by (intro step_ok_same) simp_all
  next
    case True
    note r = r [folded True] and move = transition_move [OF assms _ r [folded True]] and stays = transition_stays [OF assms r [folded True]]
    consider (stay) "s' = s" | (logged) "can_move_to a to" "stored_state i s' = Inr (Some to)" "trail i s' = trail i s @ [(a, to)]" "\<not> isl res"
      | (lost) "can_move_to a to" "stored_state i s' = Inr (Some to)" "ks_events s' = ks_events s" "isl res"
    proof (cases "me_fault me (GetObject i) = None \<and> a \<noteq> to \<and> can_move_to a to \<and> me_fault me (AppendObject i) = None")
      case True
      then show thesis using move(2,3) logged lost by (cases "me_fault me (AppendEvent ev)") auto
    next
      case False
      then have "s' = s"
        by (cases "me_fault me (GetObject i)"; cases "a = to"; cases "can_move_to a to"; cases "me_fault me (AppendObject i)")
          (use stays move(1) in \<open>simp_all\<close>)
      then show thesis by (rule stay)
    qed
    then show ?thesis
    proof cases
      case stay
      then show ?thesis using assms r True by (intro step_ok_same) simp_all
    next
      case logged
      then show ?thesis using step_ok_move [OF assms logged(2,1), of True] r True by simp
    next
      case lost
      then show ?thesis using step_ok_move [OF assms lost(2,1), of False] trail_events [of s' s i] r True by simp
    qed
  qed
qed

lemma perform_step:
  assumes "stored_state i s = Inr (Some a)" "\<not> creates i c"
  shows "step_ok i a s (perform c s)"
proof (cases c)
  case (CallCreate me rnd u)
  obtain s' res where r: "unit_create me rnd u s = (s', res)" by fastforce
  then show ?thesis
    using CallCreate assms unit_create_effect(2,3) [OF r] trail_events [of s' s i] by (intro step_ok_same) auto
next
  case (CallTransition me ev j to who why)
  then show ?thesis using transition_step [OF assms(1)] by simp
next
  case (CallAbandon me ev j b subject why)
  then show ?thesis using transition_step [OF assms(1)] assms(1) by (simp add: abandon_def step_ok_same)
next
  case (CallSupersede me ev old new b subject why)
  obtain s' res where r: "supersede_inner me ev old new b subject why s = (s', res)" by fastforce
  then show ?thesis using CallSupersede assms supersede_frame [OF r] by (intro step_ok_same) auto
qed

lemma perform_all_simps [simp]:
  "perform_all [] s = s" "perform_all (c # cs) s = perform_all cs (fst (perform c s))"
  by (simp_all add: perform_all_def)

lemma run_explained:
  assumes "stored_state i s = Inr (Some a)" "\<forall>c\<in>set cs. \<not> creates i c"
  shows "\<exists>st. stored_state i (perform_all cs s) = Inr (Some st) \<and> lawful a (map fst (changes i cs s)) st \<and>
    trail i (perform_all cs s) = trail i s @ map fst (filter snd (changes i cs s))"
  using assms
proof (induction cs arbitrary: s a)
  case (Cons c cs)
  obtain b where b: "stored_state i (fst (perform c s)) = Inr (Some b)" "lawful a (map fst (change_of i s (perform c s))) b"
    "trail i (fst (perform c s)) = trail i s @ map fst (filter snd (change_of i s (perform c s)))"
    using perform_step [OF Cons.prems(1), of c] Cons.prems(2) by (auto simp: step_ok_def)
  have "\<forall>c\<in>set cs. \<not> creates i c" using Cons.prems(2) by simp
  from Cons.IH [OF b(1) this] obtain st where
    "stored_state i (perform_all cs (fst (perform c s))) = Inr (Some st)"
    "lawful b (map fst (changes i cs (fst (perform c s)))) st"
    "trail i (perform_all cs (fst (perform c s))) =
       trail i (fst (perform c s)) @ map fst (filter snd (changes i cs (fst (perform c s))))" by blast
  then show ?case using b(2,3) by (intro exI [of _ st]) (simp, blast)
qed simp

text \<open>
  C33: From the moment a unit is discovered, for the first time or again, until it is discovered
  anew, whatever calls of the migration API are made on it or on other objects and whichever of
  their writes fail: the unit always has a state, its changes of state form one legal path from
  \<open>Discovered\<close> to that state, and the moves logged meanwhile are, in order, exactly the changes whose
  call did not report an error.  So a unit that is signed off went through every stage of the
  pipeline since, approval, dry run, load and validation included, each of them on record unless
  its caller was told of an error.
\<close>

theorem sign_off_is_on_record:
  assumes "unit_create me rnd u s0 = (s1, Inr i)" and "mu_state u = Discovered" and "\<forall>c\<in>set cs. \<not> creates i c"
  shows "\<exists>st. stored_state i (perform_all cs s1) = Inr (Some st) \<and>
    lawful Discovered (map fst (changes i cs s1)) st \<and>
    trail i (perform_all cs s1) = trail i s0 @ map fst (filter snd (changes i cs s1)) \<and>
    (st = SignedOff \<longrightarrow>
       {Profiled, Assessed, Planned, Mapped, UApproved, Generated, DryRunPassed, Loaded, Validated}
         \<subseteq> snd ` fst ` set (changes i cs s1))"
proof -
  have "stored_state i s1 = Inr (Some Discovered)"
    using unit_create_effect(1) [OF assms(1)] unit_create_ok [OF assms(1)] by (simp only: assms(2) simp_thms)
  moreover have "trail i s1 = trail i s0" by (rule trail_events [OF unit_create_effect(3) [OF assms(1)]])
  ultimately have s1: "stored_state i s1 = Inr (Some Discovered)" "trail i s1 = trail i s0" .
  obtain st where st: "stored_state i (perform_all cs s1) = Inr (Some st)" "lawful Discovered (map fst (changes i cs s1)) st"
    "trail i (perform_all cs s1) = trail i s1 @ map fst (filter snd (changes i cs s1))"
    using run_explained [OF s1(1) assms(3)] by blast
  have "st = SignedOff \<longrightarrow> set PIPELINE \<subseteq> insert Discovered (snd ` fst ` set (changes i cs s1))"
    using lawful_visits [OF st(2)] by (auto simp: PIPELINE_def)
  then show ?thesis using st s1(2) by (auto simp: PIPELINE_def)
qed

lemma sign_off_is_on_record_witness:
  "stored_state demo_unit (perform_all
       [CallTransition demo_env 9 demo_unit Profiled ''cli'' ''x'', CallTransition demo_env 13 demo_unit Assessed ''cli'' ''x'']
       (demo_units Discovered)) = Inr (Some Assessed) \<and>
   trail demo_unit (perform_all
       [CallTransition demo_env 9 demo_unit Profiled ''cli'' ''x'', CallTransition demo_env 13 demo_unit Assessed ''cli'' ''x'']
       (demo_units Discovered)) = [(Discovered, Profiled)]"
proof -
  let ?c1 = "CallTransition demo_env 9 demo_unit Profiled ''cli'' ''x''" and ?c2 = "CallTransition demo_env 13 demo_unit Assessed ''cli'' ''x''"
  obtain s1 r1 where t1: "transition_inner demo_env 9 demo_unit Profiled ''cli'' ''x'' (demo_units Discovered) = (s1, r1)" by fastforce
  obtain s2 r2 where t2: "transition_inner demo_env 13 demo_unit Assessed ''cli'' ''x'' s1 = (s2, r2)" by fastforce
  have m1: "r1 = Inr (Some 9)" "stored_state demo_unit s1 = Inr (Some Profiled)"
    using transition_move(3) [OF demo_state _ t1] by (simp_all add: can_move_to_def)
  have m2: "r2 = Inl (LedgerFailed ''disk full'')" "stored_state demo_unit s2 = Inr (Some Assessed)"
    using transition_move(2) [OF m1(2) _ t2, of "''disk full''"] by (simp_all add: can_move_to_def)
  have c: "changes demo_unit [?c1, ?c2] (demo_units Discovered) = [((Discovered, Profiled), True), ((Profiled, Assessed), False)]"
    by (simp add: t1 t2 m1 m2 change_of_def demo_state)
  have "\<forall>c\<in>set [?c1, ?c2]. \<not> creates demo_unit c" by simp
  from sign_off_is_on_record [OF demo_created [of Discovered, unfolded demo_create_def] _ this, unfolded c]
  show ?thesis by (simp add: t1 t2 m2(2)) (simp add: trail_def List.map_filter_def)
qed

text \<open>
  Re-running discovery bypasses the state machine: a run without an error writes every unit of the
  live catalog back as \<open>Discovered\<close> whatever its state was, signed off included, and no event records
  it, so the trail no longer leads to the state.
\<close>

theorem rediscovery_resets_units:
  assumes "discover_units me rnd p keys s = (s', Inr ())" and "k \<in> set keys"
  shows "stored_state (unit_id me p k) s' = Inr (Some Discovered) \<and> ks_events s' = ks_events s"
proof -
  have "ks_events s' = ks_events s \<and>
     (\<forall>i. (stored_state i s = Inr (Some Discovered) \<longrightarrow> stored_state i s' = Inr (Some Discovered)) \<and>
       ((\<exists>k\<in>set keys. i = unit_id me p k) \<longrightarrow> stored_state i s' = Inr (Some Discovered)))"
    using assms(1)
  proof (induction keys arbitrary: s)
    case (Cons x keys)
    let ?u = "\<lparr>mu_project = p, mu_key = x, mu_state = Discovered, mu_wave = None\<rparr>"
    obtain s1 j where c: "unit_create me rnd ?u s = (s1, Inr j)" "discover_units me rnd p keys s1 = (s', Inr ())"
      using Cons.prems by (auto split: prod.splits sum.splits)
    have "stored_state (unit_id me p x) s1 = Inr (Some Discovered)" "ks_events s1 = ks_events s"
      "\<And>i. i \<noteq> unit_id me p x \<Longrightarrow> stored_state i s1 = stored_state i s"
      using unit_create_effect [OF c(1)] unit_create_ok [OF c(1)] by simp_all
    with Cons.IH [OF c(2)] show ?case by (metis set_ConsD)
  qed simp
  then show ?thesis using assms(2) by blast
qed

lemma rediscovery_resets_units_witness:
  "stored_state demo_unit (demo_units SignedOff) = Inr (Some SignedOff) \<and>
   stored_state demo_unit (fst (discover_units demo_env 2 ''p'' [''users'', ''orders''] (demo_units SignedOff))) = Inr (Some Discovered)"
proof -
  have "snd (discover_units demo_env 2 ''p'' [''users'', ''orders''] (demo_units SignedOff)) = Inr ()"
    by (simp add: unit_create_def Let_def)
  then have "discover_units demo_env 2 ''p'' [''users'', ''orders''] (demo_units SignedOff) =
      (fst (discover_units demo_env 2 ''p'' [''users'', ''orders''] (demo_units SignedOff)), Inr ())"
    by (simp only: prod_eq_iff fst_conv snd_conv)
  from rediscovery_resets_units [OF this, of "''orders''"] show ?thesis by (simp add: demo_state demo_unit_def [symmetric])
qed

text \<open>
  An approval attempt that finds the evidence changed declares the request dead but never writes
  it back: the stored request stays pending, so a second attempt is accepted once the evidence reads
  as before.
\<close>

theorem dead_request_is_not_recorded:
  assumes "rq_status r = Pending" and "\<not> still_matches sha current (rq_evidence r)" and "subjects \<noteq> []"
  shows "decide sha subjects None confirm shown me u current now r =
      (r, Inl (Some (EvidenceChanged (rq_id r) (changed_facts current (rq_evidence r))))) \<and>
    rq_status (fst (lifecycle_approve sha Human subjects u confirm current now r)) = Dead (changed_facts current (rq_evidence r))"
  using assms by (simp add: decide_def lifecycle_approve_def approve_request_def Let_def)

lemma dead_request_is_not_recorded_witness:
  "\<exists>r1 e r2. decide (\<lambda>s. s) [''alex''] None None True ''me'' ''orders'' (\<lambda>f. None) ''t0'' (demo_request R3) = (r1, Inl e) \<and>
     decide (\<lambda>s. s) [''alex''] None None True ''me'' ''orders'' (\<lambda>f. Some ''h1'') ''t1'' r1 = (r2, Inr ()) \<and>
     rq_status r2 = Approved [''human:alex''] ''t1''"
proof -
  have p: "rq_status (demo_request R3) = Pending" "\<not> still_matches (\<lambda>s. s) (\<lambda>f. None) (rq_evidence (demo_request R3))"
    by (simp_all add: demo_request_def still_matches_def snapshot_of_def hash_refs_def Let_def)
  have s: "(demo_request R3)\<lparr>rq_evidence_shown := True\<rparr> = demo_request R3" by (simp add: demo_request_def)
  have a: "lifecycle_approve (\<lambda>s. s) Human [''alex''] ''orders'' None (\<lambda>f. Some ''h1'') ''t1'' (demo_request R3)
     = ((demo_request R3)\<lparr>rq_status := Approved [''human:alex''] ''t1''\<rparr>, Inr ())"
    by (simp add: demo_approve_simps) (simp add: demo_request_def demo_approve_simps)
  have "decide (\<lambda>s. s) [''alex''] None None True ''me'' ''orders'' (\<lambda>f. Some ''h1'') ''t1'' (demo_request R3)
     = ((demo_request R3)\<lparr>rq_status := Approved [''human:alex''] ''t1''\<rparr>, Inr ())"
    by (simp add: decide_def s a)
  with dead_request_is_not_recorded [OF p, of "[''alex'']" None True "''me''" "''orders''" "''t0''"] show ?thesis by simp
qed

end
