(* ===== verification/Canon.thy ===== *)
theory Canon
  imports Number_Text
begin

text \<open>
  The canonical text form of a column value and of a row: \<open>migrate-validate/src/value.rs\<close>,
  \<open>canon.rs\<close> and \<open>Spec\<close> of \<open>lib.rs\<close>.

  Dates, times and timestamps are integers; their texts, which \<open>chrono\<close> renders, and the text of a
  uuid are the fields of \<open>canon_env\<close>.  A float is its bit pattern.
\<close>

section \<open>Values\<close>

datatype sql_value =
    VNull
  | VBool bool
  | VInt "64 word"
  | VDecimal string nat
  | VFloat "64 word"
  | VText string
  | VChar string
  | VTimestampUtc int
  | VTimestampNaive int
  | VDate int
  | VTime int
  | VInterval "32 word" "32 word" "64 word"
  | VUuid "128 word"
  | VBytes bytes
  | VInet string
  | VArray "sql_value list"
  | VJson string

fun is_hash_excluded :: "sql_value \<Rightarrow> bool" where
  "is_hash_excluded (VFloat _) = True"
| "is_hash_excluded (VJson _) = True"
| "is_hash_excluded _ = False"

fun sql_type_name :: "sql_value \<Rightarrow> string" where
  "sql_type_name VNull = ''null''"
| "sql_type_name (VBool _) = ''bool''"
| "sql_type_name (VInt _) = ''int''"
| "sql_type_name (VDecimal _ _) = ''decimal''"
| "sql_type_name (VFloat _) = ''float''"
| "sql_type_name (VText _) = ''text''"
| "sql_type_name (VChar _) = ''char''"
| "sql_type_name (VTimestampUtc _) = ''timestamptz''"
| "sql_type_name (VTimestampNaive _) = ''timestamp''"
| "sql_type_name (VDate _) = ''date''"
| "sql_type_name (VTime _) = ''time''"
| "sql_type_name (VInterval _ _ _) = ''interval''"
| "sql_type_name (VUuid _) = ''uuid''"
| "sql_type_name (VBytes _) = ''bytea''"
| "sql_type_name (VInet _) = ''inet''"
| "sql_type_name (VArray _) = ''array''"
| "sql_type_name (VJson _) = ''json''"

record canon_env =
  ce_timestamp :: "int \<Rightarrow> string"
  ce_date :: "int \<Rightarrow> string"
  ce_time :: "int \<Rightarrow> string"
  ce_uuid :: "128 word \<Rightarrow> string"

record canon_spec =
  sp_decimal_scale :: "nat option"

datatype canon_error =
    FloatExcluded
  | JsonExcluded
  | WouldNarrowDecimal nat nat
  | MalformedDecimal string

section \<open>The canonical form\<close>

text \<open>\<open>CHR 0x5C\<close> is the backslash, \<open>CHR 0x1F\<close> the unit separator.\<close>

definition NULL_SENTINEL :: string where
  "NULL_SENTINEL = [CHR 0x5C, CHR ''N'']"

definition UNIT_SEPARATOR :: char where
  "UNIT_SEPARATOR = CHR 0x1F"

fun escape_char :: "char \<Rightarrow> string" where
  "escape_char c =
     (if c = CHR 0x5C then [CHR 0x5C, CHR 0x5C]
      else if c = UNIT_SEPARATOR then CHR 0x5C # ''x1f''
      else [c])"

definition escape :: "string \<Rightarrow> string" where
  "escape s = concat (map escape_char s)"

definition strip_minus :: "string \<Rightarrow> bool \<times> string" where
  "strip_minus s = (case s of [] \<Rightarrow> (False, []) | c # cs \<Rightarrow> if c = CHR ''-'' then (True, cs) else (False, s))"

definition trim_zeros :: "string \<Rightarrow> string" where
  "trim_zeros s = (let r = dropWhile (\<lambda>c. c = CHR ''0'') s in if r = [] then ''0'' else r)"

text \<open>
  Widen to the approved scale by appending zeros; a magnitude with fewer digits than the scale is
  padded on the left.  Then the point is put in.
\<close>

definition widen :: "nat \<Rightarrow> nat \<Rightarrow> string \<Rightarrow> string" where
  "widen target scale mag0 =
     (let mag = mag0 @ replicate (target - scale) (CHR ''0'')
      in if target \<noteq> 0 \<and> length mag \<le> target then replicate (target + 1 - length mag) (CHR ''0'') @ mag else mag)"

definition place_point :: "nat \<Rightarrow> string \<Rightarrow> string" where
  "place_point target mag =
     (let (int_part, frac_part) =
            (if target = 0 then (mag, []) else (take (length mag - target) mag, drop (length mag - target) mag))
      in if frac_part = [] then trim_zeros int_part else trim_zeros int_part @ ''.'' @ frac_part)"

definition canon_decimal :: "string \<Rightarrow> nat \<Rightarrow> nat option \<Rightarrow> canon_error + string" where
  "canon_decimal ds scale approved =
     (let target = (case approved of None \<Rightarrow> scale | Some t \<Rightarrow> t)
      in if target < scale then Inl (WouldNarrowDecimal scale target)
         else case strip_minus ds of (neg, mag) \<Rightarrow>
           if mag = [] \<or> \<not> list_all is_digit mag then Inl (MalformedDecimal ds)
           else
             let body = place_point target (widen target scale mag);
                 all_zero = list_all (\<lambda>c. c = CHR ''0'' \<or> c = CHR ''.'') body
             in Inr (if neg \<and> \<not> all_zero then CHR ''-'' # body else body))"

fun canon :: "canon_env \<Rightarrow> canon_spec \<Rightarrow> sql_value \<Rightarrow> canon_error + string"
  and canon_items :: "canon_env \<Rightarrow> canon_spec \<Rightarrow> sql_value list \<Rightarrow> canon_error + string list"
where
  "canon ce sp VNull = Inr NULL_SENTINEL"
| "canon ce sp (VBool b) = Inr (if b then ''t'' else ''f'')"
| "canon ce sp (VInt i) = Inr (show_int (sint i))"
| "canon ce sp (VDecimal ds scale) = canon_decimal ds scale (sp_decimal_scale sp)"
| "canon ce sp (VFloat _) = Inl FloatExcluded"
| "canon ce sp (VJson _) = Inl JsonExcluded"
| "canon ce sp (VText s) = Inr (escape s)"
| "canon ce sp (VChar s) = Inr (escape s)"
| "canon ce sp (VTimestampUtc t) = Inr (ce_timestamp ce t)"
| "canon ce sp (VTimestampNaive t) = Inr (ce_timestamp ce t)"
| "canon ce sp (VDate d) = Inr (ce_date ce d)"
| "canon ce sp (VTime t) = Inr (ce_time ce t)"
| "canon ce sp (VInterval m d u) = Inr (show_int (sint m) @ '':'' @ show_int (sint d) @ '':'' @ show_int (sint u))"
| "canon ce sp (VUuid u) = Inr (ce_uuid ce u)"
| "canon ce sp (VBytes b) = Inr (hex_encode b)"
| "canon ce sp (VInet s) = Inr (escape s)"
| "canon ce sp (VArray items) =
     (case canon_items ce sp items of
        Inl e \<Rightarrow> Inl e
      | Inr parts \<Rightarrow> Inr (''{'' @ join_with '','' parts @ ''}''))"
| "canon_items ce sp [] = Inr []"
| "canon_items ce sp (v # vs) =
     (case canon ce sp v of
        Inl e \<Rightarrow> Inl e
      | Inr p \<Rightarrow> (case canon_items ce sp vs of Inl e \<Rightarrow> Inl e | Inr ps \<Rightarrow> Inr (p # ps)))"

definition row_canonical :: "string list \<Rightarrow> string" where
  "row_canonical columns = join_with [UNIT_SEPARATOR] columns"

text \<open>The canonical columns of a row, each with the specification of its column.\<close>

definition canon_row :: "canon_env \<Rightarrow> canon_spec list \<Rightarrow> sql_value list \<Rightarrow> canon_error + string" where
  "canon_row ce sps vs =
     (case map_res (\<lambda>(sp, v). canon ce sp v) (zip sps vs) of Inl e \<Rightarrow> Inl e | Inr cs \<Rightarrow> Inr (row_canonical cs))"

section \<open>Decimals\<close>

definition dec_val :: "string \<Rightarrow> int" where
  "dec_val ds = (case strip_minus ds of (neg, mag) \<Rightarrow> if neg then - int (nat_val mag) else int (nat_val mag))"

definition dec_ok :: "string \<Rightarrow> bool" where
  "dec_ok ds \<longleftrightarrow> (case strip_minus ds of (neg, mag) \<Rightarrow> mag \<noteq> [] \<and> digits mag)"

text \<open>The fixed-point text of \<open>v / 10 ^ t\<close>.\<close>

definition dec_body :: "nat \<Rightarrow> nat \<Rightarrow> string" where
  "dec_body t n = show_nat (n div 10 ^ t) @ (if t = 0 then [] else ''.'' @ pad_zero t (show_nat (n mod 10 ^ t)))"

definition render_dec :: "nat \<Rightarrow> int \<Rightarrow> string" where
  "render_dec t v = (if v < 0 then CHR ''-'' # dec_body t (nat \<bar>v\<bar>) else dec_body t (nat \<bar>v\<bar>))"

lemma nat_val_replicate [simp]: "nat_val (replicate k (CHR ''0'')) = 0"
  by (induction k) (simp_all add: nat_val_Cons)

lemma digits_replicate [simp]: "digits (replicate k (CHR ''0''))"
  by (simp add: list_all_iff is_digit_def)

lemma pad_mod:
  assumes "digits f" "length f = t" "t \<noteq> 0"
  shows "pad_zero t (show_nat (nat_val f)) = f"
  using pad_show [of f] assms by auto

lemma point_not_digit: "\<not> is_digit (CHR ''.'')"
  by (simp add: is_digit_def)

abbreviation zeros :: "string \<Rightarrow> bool" where
  "zeros \<equiv> list_all (\<lambda>c. c = CHR ''0'' \<or> c = CHR ''.'')"

lemma zeros_digits: "digits f \<Longrightarrow> zeros f \<longleftrightarrow> nat_val f = 0"
proof (induction f)
  case (Cons c f)
  then have "is_digit c" by simp
  then have "c \<noteq> CHR ''.''" using point_not_digit by blast
  then show ?case using Cons nat_val_0 [OF Cons.prems] nat_val_0 [of f] by simp
qed simp

lemma zero_body:
  assumes "digits f"
  shows "zeros (show_nat n) \<longleftrightarrow> n = 0" "zeros (show_nat n @ ''.'' @ f) \<longleftrightarrow> n = 0 \<and> nat_val f = 0"
  using zeros_digits [OF show_nat_digits] zeros_digits [OF assms] by simp_all

lemma place_point_eq:
  assumes "digits mag" "t = 0 \<or> t < length mag"
  shows "place_point t mag = dec_body t (nat_val mag)"
proof (cases "t = 0")
  case True
  then show ?thesis using strip_zeros [OF assms(1)] by (simp add: place_point_def dec_body_def trim_zeros_def)
next
  case False
  let ?i = "take (length mag - t) mag" and ?f = "drop (length mag - t) mag"
  have d: "digits ?i" "digits ?f" "length ?f = t"
    using assms False by (auto simp: list_all_iff dest: in_set_takeD in_set_dropD)
  have "nat_val (?i @ ?f) = nat_val ?i * 10 ^ length ?f + nat_val ?f" by (rule nat_val_app)
  then have v: "nat_val mag = nat_val ?i * 10 ^ t + nat_val ?f" using d(3) by simp
  have "nat_val ?f < 10 ^ t" using nat_val_less [OF d(2)] d(3) by simp
  then have "nat_val mag div 10 ^ t = nat_val ?i" and "nat_val mag mod 10 ^ t = nat_val ?f" using v by simp_all
  then show ?thesis
    using False pad_mod [OF d(2,3) False] strip_zeros [OF d(1)] d(3)
    unfolding place_point_def dec_body_def trim_zeros_def by auto
qed

lemma widen_eq:
  assumes "digits mag" "mag \<noteq> []"
  shows "digits (widen t scale mag)" "nat_val (widen t scale mag) = nat_val mag * 10 ^ (t - scale)"
    "t = 0 \<or> t < length (widen t scale mag)"
  using assms by (auto simp: widen_def Let_def nat_val_app)

lemma zeros_body: "zeros (dec_body t n) \<longleftrightarrow> n = 0"
proof (cases "t = 0")
  case True
  then show ?thesis using zero_body(1) [of "[]"] by (simp add: dec_body_def)
next
  case False
  have "zeros (dec_body t n) \<longleftrightarrow> zeros (show_nat (n div 10 ^ t) @ ''.'' @ pad_zero t (show_nat (n mod 10 ^ t)))"
    using False by (simp only: dec_body_def if_False)
  also have "\<dots> \<longleftrightarrow> n div 10 ^ t = 0 \<and> n mod 10 ^ t = 0"
    by (subst zero_body(2)) (simp, simp only: nat_val_pad nat_val_show)
  also have "\<dots> \<longleftrightarrow> n = 0" by (metis div_0 mod_0 div_mult_mod_eq mult_0 add_0)
  finally show ?thesis .
qed

lemma canon_decimal_eq:
  assumes "dec_ok ds" "scale \<le> t"
  shows "canon_decimal ds scale (Some t) = Inr (render_dec t (dec_val ds * 10 ^ (t - scale)))"
proof -
  obtain neg mag where sm: "strip_minus ds = (neg, mag)" by fastforce
  have mag: "digits mag" "mag \<noteq> []" using assms(1) by (simp_all add: dec_ok_def sm)
  note w = widen_eq [OF mag, of t scale]
  have v: "dec_val ds * 10 ^ (t - scale) =
      (if neg then - int (nat_val mag * 10 ^ (t - scale)) else int (nat_val mag * 10 ^ (t - scale)))"
    by (simp add: dec_val_def sm)
  show ?thesis
    using assms(2) mag place_point_eq [OF w(1,3)]
    unfolding v by (simp add: canon_decimal_def sm Let_def w(2) zeros_body render_dec_def del: of_nat_mult)
qed

lemma digits_point_split:
  assumes "digits a" "digits b" "a @ CHR ''.'' # s = b @ CHR ''.'' # u"
  shows "a = b \<and> s = u"
proof -
  have "takeWhile is_digit (c @ CHR ''.'' # r) = c" if "digits c" for c r
    using that point_not_digit by (induction c) simp_all
  then have "a = b" using assms by metis
  then show ?thesis using assms(3) by simp
qed

lemma dec_body_not_minus: "dec_body t n \<noteq> CHR ''-'' # s"
proof
  assume a: "dec_body t n = CHR ''-'' # s"
  obtain c r where cr: "show_nat (n div 10 ^ t) = c # r" using show_nat_nonempty by (cases "show_nat (n div 10 ^ t)") auto
  then have "is_digit c" using show_nat_digits [of "n div 10 ^ t"] by simp
  moreover have "c = CHR ''-''" using a cr by (simp add: dec_body_def)
  ultimately show False by (simp add: is_digit_def)
qed

lemma dec_body_inj: "dec_body t m = dec_body t n \<Longrightarrow> m = n"
proof (cases "t = 0")
  case False
  assume "dec_body t m = dec_body t n"
  then have "show_nat (m div 10 ^ t) = show_nat (n div 10 ^ t) \<and>
      pad_zero t (show_nat (m mod 10 ^ t)) = pad_zero t (show_nat (n mod 10 ^ t))"
    using False by (intro digits_point_split) (simp_all add: dec_body_def)
  then have "m div 10 ^ t = n div 10 ^ t" "m mod 10 ^ t = n mod 10 ^ t"
    by (simp, metis nat_val_pad nat_val_show)
  then show "m = n" by (metis div_mult_mod_eq)
qed (simp add: dec_body_def)

lemma render_dec_inj [simp]: "render_dec t v = render_dec t w \<longleftrightarrow> v = w"
proof
  assume "render_dec t v = render_dec t w"
  then have "v < 0 \<longleftrightarrow> w < 0" "dec_body t (nat \<bar>v\<bar>) = dec_body t (nat \<bar>w\<bar>)"
    using dec_body_not_minus dec_body_not_minus [symmetric] by (auto simp: render_dec_def split: if_splits)
  then show "v = w" using dec_body_inj [of t "nat \<bar>v\<bar>" "nat \<bar>w\<bar>"] by auto
qed simp

section \<open>Texts\<close>

lemma escape_simps [simp]: "escape [] = []" "escape (c # s) = escape_char c @ escape s"
  by (simp_all add: escape_def)

declare escape_char.simps [simp del]

lemma escape_char_cases:
  obtains "c = CHR 0x5C" "escape_char c = [CHR 0x5C, CHR 0x5C]"
  | "c = UNIT_SEPARATOR" "escape_char c = CHR 0x5C # ''x1f''"
  | "c \<noteq> CHR 0x5C" "c \<noteq> UNIT_SEPARATOR" "escape_char c = [c]"
  by (cases "c = CHR 0x5C"; cases "c = UNIT_SEPARATOR") (auto simp: escape_char.simps UNIT_SEPARATOR_def)

lemma escape_char_nonempty [simp]: "escape_char c \<noteq> []"
  by (cases c rule: escape_char_cases) simp_all

lemma escape_inj [simp]: "escape s = escape t \<longleftrightarrow> s = t"
proof
  show "escape s = escape t \<Longrightarrow> s = t"
  proof (induction s arbitrary: t)
    case Nil
    then show ?case by (cases t) simp_all
  next
    case (Cons c s)
    then obtain d t' where t: "t = d # t'" by (cases t) simp_all
    have "c = d \<and> escape s = escape t'"
      using Cons.prems by (cases c rule: escape_char_cases; cases d rule: escape_char_cases) (auto simp: t UNIT_SEPARATOR_def)
    then show ?case using Cons.IH t by blast
  qed
qed simp

text \<open>A text that cannot be taken for a separator or for the sentinel.\<close>

definition plain :: "string \<Rightarrow> bool" where
  "plain s \<longleftrightarrow> CHR 0x5C \<notin> set s \<and> UNIT_SEPARATOR \<notin> set s"

lemma plain_simps [simp]:
  "plain []" "plain (c # s) \<longleftrightarrow> c \<noteq> CHR 0x5C \<and> c \<noteq> UNIT_SEPARATOR \<and> plain s" "plain (s @ t) \<longleftrightarrow> plain s \<and> plain t"
  by (auto simp: plain_def)

lemma digits_plain: "digits s \<Longrightarrow> plain s"
  by (induction s) (auto simp: is_digit_def UNIT_SEPARATOR_def)

lemma plain_sentinel: "plain s \<Longrightarrow> s \<noteq> NULL_SENTINEL"
  by (auto simp: plain_def NULL_SENTINEL_def)

lemma escape_clean: "UNIT_SEPARATOR \<notin> set (escape s)" "escape s \<noteq> NULL_SENTINEL"
proof -
  show "UNIT_SEPARATOR \<notin> set (escape s)"
  proof (induction s)
    case (Cons c s)
    then show ?case by (cases c rule: escape_char_cases) (auto simp: UNIT_SEPARATOR_def)
  qed simp
  show "escape s \<noteq> NULL_SENTINEL"
  proof (cases s)
    case (Cons c s')
    show ?thesis unfolding Cons NULL_SENTINEL_def by (cases c rule: escape_char_cases) auto
  qed (simp add: NULL_SENTINEL_def)
qed

lemma plain_show_nat [simp]: "plain (show_nat n)"
  by (simp add: digits_plain)

lemma plain_show_int [simp]: "plain (show_int i)"
  by (simp add: show_int_def UNIT_SEPARATOR_def)

lemma plain_hex [simp]: "plain (hex_encode bs)"
proof (induction bs)
  case (Cons b bs)
  have "hex_digit n \<noteq> CHR 0x5C \<and> hex_digit n \<noteq> UNIT_SEPARATOR" if "n < 16" for n
  proof -
    have "(of_char (hex_digit n) :: nat) = (if n < 10 then 48 + n else 87 + n)" using that by (simp add: hex_digit_def)
    then have "(of_char (hex_digit n) :: nat) \<noteq> 92" "(of_char (hex_digit n) :: nat) \<noteq> 31" using that by (simp_all split: if_splits)
    then show ?thesis by (auto simp: UNIT_SEPARATOR_def)
  qed
  then show ?case using Cons byte_nibbles [of b] by simp
qed simp

lemma plain_render_dec [simp]: "plain (render_dec t v)"
proof -
  have "plain (pad_zero t (show_nat n))" for n by (intro digits_plain) simp
  then show ?thesis by (simp add: render_dec_def dec_body_def UNIT_SEPARATOR_def)
qed

lemma canon_decimal_Inr:
  assumes "canon_decimal ds scale approved = Inr s"
  shows "dec_ok ds \<and> scale \<le> (case approved of None \<Rightarrow> scale | Some t \<Rightarrow> t) \<and>
    s = render_dec (case approved of None \<Rightarrow> scale | Some t \<Rightarrow> t)
      (dec_val ds * 10 ^ ((case approved of None \<Rightarrow> scale | Some t \<Rightarrow> t) - scale))"
proof -
  let ?t = "case approved of None \<Rightarrow> scale | Some t \<Rightarrow> t"
  have c: "canon_decimal ds scale approved = canon_decimal ds scale (Some ?t)"
    by (simp add: canon_decimal_def split: option.split)
  have "dec_ok ds" "scale \<le> ?t"
    using assms by (auto simp: canon_decimal_def dec_ok_def Let_def split: if_splits prod.splits)
  then show ?thesis using canon_decimal_eq [of ds scale ?t] assms c by simp
qed

definition env_ok :: "canon_env \<Rightarrow> bool" where
  "env_ok ce \<longleftrightarrow> (\<forall>t. plain (ce_timestamp ce t) \<and> plain (ce_date ce t) \<and> plain (ce_time ce t)) \<and> (\<forall>u. plain (ce_uuid ce u))"

lemma join_no_us: "UNIT_SEPARATOR \<notin> set (join_with '','' ps) \<longleftrightarrow> (\<forall>p \<in> set ps. UNIT_SEPARATOR \<notin> set p)"
proof (induction ps)
  case (Cons p ps)
  then show ?case by (cases ps) (simp_all add: UNIT_SEPARATOR_def)
qed simp

lemma const_clean:
  "UNIT_SEPARATOR \<notin> set NULL_SENTINEL" "UNIT_SEPARATOR \<notin> set (if b then ''t'' else ''f'')"
  by (simp_all add: UNIT_SEPARATOR_def NULL_SENTINEL_def)

lemma canon_no_us:
  "env_ok ce \<Longrightarrow> canon ce sp v = Inr s \<Longrightarrow> UNIT_SEPARATOR \<notin> set s"
  "env_ok ce \<Longrightarrow> canon_items ce sp vs = Inr ps \<Longrightarrow> \<forall>p \<in> set ps. UNIT_SEPARATOR \<notin> set p"
proof (induction ce sp v and ce sp vs arbitrary: s and ps rule: canon_canon_items.induct)
  case (4 ce sp ds scale)
  then show ?case using canon_decimal_Inr [of ds scale] plain_render_dec by (fastforce simp: plain_def)
next
  case (13 ce sp m d u)
  then have "plain s" by (auto simp: UNIT_SEPARATOR_def)
  then show ?case by (simp add: plain_def)
next
  case (3 ce sp i)
  then show ?case using plain_show_int by (auto simp: plain_def)
next
  case (15 ce sp b)
  then show ?case using plain_hex by (auto simp: plain_def)
next
  case (17 ce sp items)
  then obtain ps where ps: "canon_items ce sp items = Inr ps" "s = ''{'' @ join_with '','' ps @ ''}''"
    by (auto split: sum.splits)
  have "UNIT_SEPARATOR \<notin> set (join_with '','' ps)" unfolding join_no_us by (rule 17(1) [OF 17(2) ps(1)])
  then show ?case by (simp add: ps(2)) (simp add: UNIT_SEPARATOR_def)
next
  case (19 ce sp v vs)
  then obtain p ps' where p: "canon ce sp v = Inr p" "canon_items ce sp vs = Inr ps'" "ps = p # ps'"
    by (auto split: sum.splits)
  then show ?case using 19(1) [OF 19(3) p(1)] 19(2) [OF p(1) 19(3) p(2)] by simp
qed (auto simp: env_ok_def plain_def escape_clean(1) const_clean)

section \<open>Equal texts are equal values\<close>

text \<open>
  The types whose text is exact.  Timestamps, dates and times stop at the microsecond and are
  rendered by \<open>chrono\<close>; arrays are not injective, see below.
\<close>

fun exact :: "sql_value \<Rightarrow> bool" where
  "exact (VFloat _) = False"
| "exact (VJson _) = False"
| "exact (VTimestampUtc _) = False"
| "exact (VTimestampNaive _) = False"
| "exact (VDate _) = False"
| "exact (VTime _) = False"
| "exact (VUuid _) = False"
| "exact (VArray _) = False"
| "exact _ = True"

definition same_column :: "sql_value \<Rightarrow> sql_value \<Rightarrow> bool" where
  "same_column v w \<longleftrightarrow> v = VNull \<or> w = VNull \<or> sql_type_name v = sql_type_name w"

text \<open>A decimal is its value, however many trailing zeros it carries.\<close>

fun same_value :: "sql_value \<Rightarrow> sql_value \<Rightarrow> bool" where
  "same_value (VDecimal d s) (VDecimal e r) \<longleftrightarrow> dec_val d * 10 ^ r = dec_val e * 10 ^ s"
| "same_value v w \<longleftrightarrow> v = w"

lemma scaled_eq:
  fixes x y :: int
  assumes "s \<le> t" "r \<le> t"
  shows "x * 10 ^ (t - s) = y * 10 ^ (t - r) \<longleftrightarrow> x * 10 ^ r = y * 10 ^ s"
proof -
  obtain a b where a: "t = s + a" and b: "t = r + b" using assms by (metis le_add_diff_inverse)
  have l: "x * 10 ^ (t - s) * 10 ^ (s + r) = x * 10 ^ r * 10 ^ t" by (simp add: a power_add)
  have "y * 10 ^ (t - r) * 10 ^ (s + r) = y * 10 ^ s * (10 ^ r * 10 ^ b)" using b by (simp add: power_add)
  also have "\<dots> = y * 10 ^ s * 10 ^ t" by (simp add: b power_add)
  finally have r: "y * 10 ^ (t - r) * 10 ^ (s + r) = y * 10 ^ s * 10 ^ t" .
  have "x * 10 ^ (t - s) = y * 10 ^ (t - r) \<longleftrightarrow> x * 10 ^ (t - s) * 10 ^ (s + r) = y * 10 ^ (t - r) * 10 ^ (s + r)" by simp
  also have "\<dots> \<longleftrightarrow> x * 10 ^ r = y * 10 ^ s" unfolding l r by simp
  finally show ?thesis .
qed

lemma show_int_no_colon: "CHR '':'' \<notin> set (show_int i)"
proof -
  have "CHR '':'' \<notin> set (show_nat n)" for n using show_nat_digits [of n] by (auto simp: list_all_iff is_digit_def)
  then show ?thesis by (simp add: show_int_def)
qed

lemma interval_text_inj:
  assumes "show_int a @ '':'' @ show_int b @ '':'' @ show_int c = show_int a' @ '':'' @ show_int b' @ '':'' @ show_int c'"
  shows "a = a' \<and> b = b' \<and> c = c'"
proof -
  have 1: "show_int a = show_int a' \<and> show_int b @ CHR '':'' # show_int c = show_int b' @ CHR '':'' # show_int c'"
    by (rule split_at_sep) (use assms show_int_no_colon in simp_all)
  then have "show_int b = show_int b' \<and> show_int c = show_int c'"
    by (intro split_at_sep [of "CHR '':''"]) (simp_all add: show_int_no_colon)
  with 1 show ?thesis by simp
qed

lemma hex_encode_inj [simp]: "hex_encode a = hex_encode b \<longleftrightarrow> a = b"
  by (metis hex_decode_encode option.inject)

lemma sint_inj: "sint a = sint b \<longleftrightarrow> a = b"
  by (metis signed_word_eqI)

lemma canon_exact_text:
  assumes "exact v" "canon ce sp v = Inr a" "v \<noteq> VNull"
  shows "a \<noteq> NULL_SENTINEL"
proof -
  consider "plain a" | s where "a = escape s"
  proof (cases v)
    case (VDecimal ds scale)
    then have "\<exists>t n. a = render_dec t n" using assms canon_decimal_Inr [of ds scale "sp_decimal_scale sp" a] by auto
    then show thesis using that(1) by auto
  next
    case (VInterval m d u)
    then have "plain a" using assms by (auto simp: UNIT_SEPARATOR_def)
    then show thesis by (rule that(1))
  qed (use assms that in \<open>auto simp: UNIT_SEPARATOR_def\<close>)
  then show ?thesis
  proof cases
    case 1
    then show ?thesis by (rule plain_sentinel)
  next
    case 2
    then show ?thesis by (simp add: escape_clean)
  qed
qed

lemma canon_exact:
  assumes ex: "exact v" "exact w" and col: "same_column v w" and sp: "sp_decimal_scale sp = Some t"
    and a: "canon ce sp v = Inr a" and b: "canon ce sp w = Inr b"
  shows "a = b \<longleftrightarrow> same_value v w"
proof -
  consider "v = VNull" | "w = VNull" "v \<noteq> VNull" | "v \<noteq> VNull" "w \<noteq> VNull" "sql_type_name v = sql_type_name w"
    using col by (auto simp: same_column_def)
  then show ?thesis
  proof cases
    case 1
    then have "a = NULL_SENTINEL" using a by simp
    then show ?thesis using canon_exact_text [OF ex(2) b] b 1 by (cases w) auto
  next
    case 2
    then have "b = NULL_SENTINEL" using b by simp
    then show ?thesis using canon_exact_text [OF ex(1) a] 2 by (cases v) auto
  next
    case 3
    show ?thesis
    proof (cases v)
      case (VDecimal d s)
      then obtain e r where w: "w = VDecimal e r" using 3 by (cases w) simp_all
      have da: "s \<le> t" "a = render_dec t (dec_val d * 10 ^ (t - s))" using canon_decimal_Inr [of d s "Some t" a] a VDecimal sp by simp_all
      have db: "r \<le> t" "b = render_dec t (dec_val e * 10 ^ (t - r))" using canon_decimal_Inr [of e r "Some t" b] b w sp by simp_all
      show ?thesis using scaled_eq [OF da(1) db(1)] da(2) db(2) VDecimal w by simp
    next
      case (VInterval m d u)
      then obtain m' d' u' where w: "w = VInterval m' d' u'" using 3 by (cases w) simp_all
      have "a = b \<longleftrightarrow> sint m = sint m' \<and> sint d = sint d' \<and> sint u = sint u'"
        using a b VInterval w interval_text_inj [of "sint m" "sint d" "sint u" "sint m'" "sint d'" "sint u'"]
        by auto
      then show ?thesis using VInterval w by (simp add: sint_inj)
    qed (use 3 a b ex in \<open>cases w; auto simp: sint_inj split: if_splits\<close>)+
  qed
qed

section \<open>Properties\<close>

lemma map_res_Inr_iff: "map_res f xs = Inr ys \<longleftrightarrow> list_all2 (\<lambda>x y. f x = Inr y) xs ys"
proof (induction xs arbitrary: ys)
  case (Cons x xs)
  show ?case by (cases ys) (auto simp: Cons.IH [symmetric] split: sum.splits)
qed auto

lemma canon_row_Inr:
  assumes "canon_row ce sps vs = Inr a" "length vs = length sps"
  obtains cs where "a = row_canonical cs" "length cs = length sps" "\<And>i. i < length sps \<Longrightarrow> canon ce (sps ! i) (vs ! i) = Inr (cs ! i)"
proof -
  obtain cs where cs: "list_all2 (\<lambda>x y. (case x of (sp, v) \<Rightarrow> canon ce sp v) = Inr y) (zip sps vs) cs" "a = row_canonical cs"
    using assms(1) by (auto simp: canon_row_def map_res_Inr_iff split: sum.splits)
  have l: "length cs = length sps" using list_all2_lengthD [OF cs(1)] assms(2) by simp
  have "canon ce (sps ! i) (vs ! i) = Inr (cs ! i)" if "i < length sps" for i
    using list_all2_nthD2 [OF cs(1), of i] that l assms(2) by simp
  with cs(2) l show thesis by (rule that)
qed

text \<open>
  C37: The text that is hashed determines the row: for columns of the exactly rendered types under an
  approved mapping, two rows have the same canonical text exactly when they agree in every column,
  NULL included and decimals compared by value.  No text value can imitate NULL or a column
  boundary, and no difference in content is rendered away.
\<close>

theorem canonical_rows_exact:
  assumes "env_ok ce" and "length vs = length sps" and "length ws = length sps"
    and cells: "\<And>i. i < length sps \<Longrightarrow>
      exact (vs ! i) \<and> exact (ws ! i) \<and> same_column (vs ! i) (ws ! i) \<and> sp_decimal_scale (sps ! i) \<noteq> None"
    and a: "canon_row ce sps vs = Inr a" and b: "canon_row ce sps ws = Inr b"
  shows "a = b \<longleftrightarrow> (\<forall>i < length sps. same_value (vs ! i) (ws ! i))"
proof -
  obtain cs where cs: "a = row_canonical cs" "length cs = length sps"
    "\<And>i. i < length sps \<Longrightarrow> canon ce (sps ! i) (vs ! i) = Inr (cs ! i)" using canon_row_Inr [OF a assms(2)] by blast
  obtain ds where ds: "b = row_canonical ds" "length ds = length sps"
    "\<And>i. i < length sps \<Longrightarrow> canon ce (sps ! i) (ws ! i) = Inr (ds ! i)" using canon_row_Inr [OF b assms(3)] by blast
  have us: "UNIT_SEPARATOR \<notin> set s" if "s \<in> set cs \<union> set ds" for s
  proof -
    from that consider i where "i < length sps" "s = cs ! i" | i where "i < length sps" "s = ds ! i"
      using cs(2) ds(2) by (auto simp: in_set_conv_nth)
    then show ?thesis by cases (use canon_no_us(1) [OF assms(1) cs(3)] canon_no_us(1) [OF assms(1) ds(3)] in blast)+
  qed
  have "a = b \<longleftrightarrow> cs = ds"
    using join_with_inj [of cs ds UNIT_SEPARATOR] cs(1,2) ds(1,2) us by (auto simp: row_canonical_def)
  also have "\<dots> \<longleftrightarrow> (\<forall>i < length sps. cs ! i = ds ! i)" using cs(2) ds(2) by (simp add: list_eq_iff_nth_eq)
  also have "\<dots> \<longleftrightarrow> (\<forall>i < length sps. same_value (vs ! i) (ws ! i))"
    using canon_exact cells cs(3) ds(3) by (metis option.exhaust)
  finally show ?thesis .
qed

definition plain_env :: canon_env where
  "plain_env = \<lparr>ce_timestamp = show_int, ce_date = show_int, ce_time = show_int, ce_uuid = (\<lambda>u. show_nat (unat u))\<rparr>"

text \<open>\<open>1.5\<close> and \<open>1.50\<close> are the same, NULL and the text \<open>\N\<close> are not.\<close>

lemma canonical_rows_exact_witness:
  "canon_row plain_env [\<lparr>sp_decimal_scale = Some 2\<rparr>, \<lparr>sp_decimal_scale = Some 0\<rparr>] [VDecimal ''15'' 1, VText NULL_SENTINEL] \<noteq>
     canon_row plain_env [\<lparr>sp_decimal_scale = Some 2\<rparr>, \<lparr>sp_decimal_scale = Some 0\<rparr>] [VDecimal ''150'' 2, VNull]"
proof -
  let ?sps = "[\<lparr>sp_decimal_scale = Some 2\<rparr>, \<lparr>sp_decimal_scale = Some 0\<rparr>]"
  have e: "env_ok plain_env" by (simp add: env_ok_def plain_env_def)
  have d: "dec_ok ''15''" "dec_ok ''150''" by (simp_all add: dec_ok_def strip_minus_def is_digit_def)
  obtain a b where ab: "canon_row plain_env ?sps [VDecimal ''15'' 1, VText NULL_SENTINEL] = Inr a"
      "canon_row plain_env ?sps [VDecimal ''150'' 2, VNull] = Inr b"
    using canon_decimal_eq [OF d(1), of 1 2] canon_decimal_eq [OF d(2), of 2 2] by (simp add: canon_row_def)
  have cells: "exact ([VDecimal ''15'' 1, VText NULL_SENTINEL] ! i) \<and> exact ([VDecimal ''150'' 2, VNull] ! i) \<and>
      same_column ([VDecimal ''15'' 1, VText NULL_SENTINEL] ! i) ([VDecimal ''150'' 2, VNull] ! i) \<and>
      sp_decimal_scale (?sps ! i) \<noteq> None" if "i < length ?sps" for i
  proof -
    from that have "i = 0 \<or> i = 1" by auto
    then show ?thesis by (elim disjE) (simp_all add: same_column_def)
  qed
  have "a \<noteq> b" using canonical_rows_exact [OF e _ _ cells ab] by (auto simp: nth_Cons')
  with ab show ?thesis by simp
qed

text \<open>
  Arrays are not escaped: an element that contains a comma renders like two elements, so two
  different arrays have the same text and hash.
\<close>

lemma array_texts_collide:
  "canon ce sp (VArray [VText ''a,b'']) = canon ce sp (VArray [VText ''a'', VText ''b''])"
  by (simp add: escape_char.simps UNIT_SEPARATOR_def)

end
