(* ===== verification/Dialect.thy ===== *)
theory Dialect
  imports Canon
begin

text \<open>
  The SQL texts of the validation tiers: \<open>migrate-validate/src/dialect.rs\<close>, from the row hash to the
  checksum, key and aggregate queries.  The rendering of single columns (\<open>canon_expr\<close>) is left out:
  the tiers receive the column expressions ready-made.

  \<open>sq\<close> is the single quote.
\<close>

datatype dialect = Postgres | ClickHouse | Trino | Oracle

definition sq :: string where
  "sq = [CHR 0x27]"

definition null_literal :: "dialect \<Rightarrow> string" where
  "null_literal d = (case d of
     ClickHouse \<Rightarrow> sq @ [CHR 0x5C, CHR 0x5C] @ ''N'' @ sq
   | _ \<Rightarrow> sq @ [CHR 0x5C] @ ''N'' @ sq)"

definition hash_hex_expr :: "dialect \<Rightarrow> string \<Rightarrow> string" where
  "hash_hex_expr d e = (case d of
     Postgres \<Rightarrow> ''encode(sha256(convert_to('' @ e @ '', '' @ sq @ ''UTF8'' @ sq @ '')), '' @ sq @ ''hex'' @ sq @ '')''
   | ClickHouse \<Rightarrow> ''lower(hex(SHA256('' @ e @ '')))''
   | Trino \<Rightarrow> ''lower(to_hex(sha256(to_utf8('' @ e @ ''))))''
   | Oracle \<Rightarrow> ''LOWER(RAWTOHEX(STANDARD_HASH('' @ e @ '', '' @ sq @ ''SHA256'' @ sq @ '')))'')"

definition column_digest_expr :: "dialect \<Rightarrow> string \<Rightarrow> string" where
  "column_digest_expr d e =
     (let h = hash_hex_expr d e
      in case d of
           ClickHouse \<Rightarrow> ''substring('' @ h @ '', 1, 16)''
         | Oracle \<Rightarrow> ''SUBSTR('' @ h @ '', 1, 16)''
         | _ \<Rightarrow> ''substr('' @ h @ '', 1, 16)'')"

definition CONCAT_ARITY :: nat where
  "CONCAT_ARITY = 64"

text \<open>\<open>slice::chunks\<close>.\<close>

function slice_chunks :: "nat \<Rightarrow> 'a list \<Rightarrow> 'a list list" where
  "slice_chunks n [] = []"
| "xs \<noteq> [] \<Longrightarrow> slice_chunks n xs = (if n = 0 then [xs] else take n xs # slice_chunks n (drop n xs))"
  by (metis prod.exhaust) auto
termination
  by (relation "measure (\<lambda>(n, xs). length xs)") auto

definition concat_chunk :: "string list \<Rightarrow> string" where
  "concat_chunk c = (case c of [one] \<Rightarrow> one | _ \<Rightarrow> ''concat('' @ join_with '', '' c @ '')'')"

lemma length_slice_chunks: "1 < n \<Longrightarrow> 2 * length (slice_chunks n xs) \<le> length xs + 1"
proof (induction n xs rule: slice_chunks.induct)
  case (2 xs n)
  show ?case
  proof (cases "length xs < n")
    case True
    then have "slice_chunks n (drop n xs) = []" by simp
    then show ?thesis using 2(1,3) by (cases xs) (simp_all del: drop_all)
  next
    case False
    then show ?thesis using 2 by (simp del: slice_chunks.simps(2)) (simp add: 2(1))
  qed
qed simp

function flat_concat :: "string list \<Rightarrow> string" where
  "flat_concat parts =
     (if 1 < length parts then flat_concat (map concat_chunk (slice_chunks CONCAT_ARITY parts))
      else case parts of [] \<Rightarrow> sq @ sq | p # _ \<Rightarrow> p)"
  by pat_completeness auto
termination
proof (relation "measure length")
  show "(map concat_chunk (slice_chunks CONCAT_ARITY parts), parts) \<in> measure length" if "1 < length parts" for parts
    using that length_slice_chunks [of CONCAT_ARITY parts] by (simp add: CONCAT_ARITY_def)
qed simp

declare flat_concat.simps [simp del]

definition row_hash_expr :: "dialect \<Rightarrow> string list \<Rightarrow> string" where
  "row_hash_expr d cols =
     (let sep = (case d of ClickHouse \<Rightarrow> ''char(31)'' | Oracle \<Rightarrow> ''CHR(31)'' | _ \<Rightarrow> ''chr(31)'')
      in if d = Trino
         then hash_hex_expr d (flat_concat (concat (map (\<lambda>(i, e). if i > 0 then [sep, e] else [e]) (enumerate 0 cols))))
         else hash_hex_expr d (join_with ('' || '' @ sep @ '' || '') cols))"

definition prefix60_expr :: "dialect \<Rightarrow> string \<Rightarrow> string" where
  "prefix60_expr d h = (case d of
     Postgres \<Rightarrow> ''(('' @ sq @ ''x'' @ sq @ '' || substr('' @ h @ '', 1, 15))::bit(60))::bigint''
   | ClickHouse \<Rightarrow> ''reinterpretAsUInt64(reverse(unhex(concat('' @ sq @ ''0'' @ sq @ '', substring('' @ h @ '', 1, 15)))))''
   | Trino \<Rightarrow> ''from_base(substr('' @ h @ '', 1, 15), 16)''
   | Oracle \<Rightarrow> ''TO_NUMBER(SUBSTR('' @ h @ '', 1, 15), '' @ sq @ ''XXXXXXXXXXXXXXX'' @ sq @ '')'')"

definition exact_sum :: "dialect \<Rightarrow> string \<Rightarrow> string" where
  "exact_sum d p = (case d of
     Postgres \<Rightarrow> ''sum(('' @ p @ '')::numeric)''
   | ClickHouse \<Rightarrow> ''sum(toDecimal128('' @ p @ '', 0))''
   | Trino \<Rightarrow> ''sum(CAST('' @ p @ '' AS decimal(38, 0)))''
   | Oracle \<Rightarrow> ''SUM('' @ p @ '')'')"

definition modulo :: "dialect \<Rightarrow> string \<Rightarrow> nat \<Rightarrow> string" where
  "modulo d a n = (case d of Oracle \<Rightarrow> ''MOD('' @ a @ '', '' @ show_nat n @ '')'' | _ \<Rightarrow> a @ '' % '' @ show_nat n)"

definition oracle_buckets :: "string \<Rightarrow> string \<Rightarrow> string \<Rightarrow> string \<Rightarrow> string" where
  "oracle_buckets bucket row_prefix table filt =
     ''SELECT bucket, COUNT(*) AS row_count, SUM(h) AS hash_sum FROM (SELECT '' @ bucket @ '' AS bucket, '' @ row_prefix @
     '' AS h FROM '' @ table @ filt @ '') GROUP BY bucket ORDER BY bucket''"

text \<open>Oracle never gets here: it groups a subquery.\<close>

definition group_and_order :: "dialect \<Rightarrow> string" where
  "group_and_order d = (if d = Trino then ''GROUP BY 1 ORDER BY 1'' else ''GROUP BY bucket ORDER BY bucket'')"

definition bucket_expr :: "dialect \<Rightarrow> string \<Rightarrow> nat \<Rightarrow> string" where
  "bucket_expr d pk n = modulo d (prefix60_expr d (hash_hex_expr d pk)) n"

definition bucket_checksum_query :: "dialect \<Rightarrow> string \<Rightarrow> string \<Rightarrow> string list \<Rightarrow> nat \<Rightarrow> string" where
  "bucket_checksum_query d table pk cols n =
     (let row = row_hash_expr d cols; bucket = modulo d (prefix60_expr d (hash_hex_expr d pk)) n
      in if d = Oracle then oracle_buckets bucket (prefix60_expr d row) table []
         else ''SELECT '' @ bucket @ '' AS bucket, count(*) AS row_count, '' @ exact_sum d (prefix60_expr d row) @
           '' AS hash_sum FROM '' @ table @ '' '' @ group_and_order d)"

definition sub_bucket_checksum_query :: "dialect \<Rightarrow> string \<Rightarrow> string \<Rightarrow> string list \<Rightarrow> nat \<Rightarrow> nat \<Rightarrow> nat \<Rightarrow> string" where
  "sub_bucket_checksum_query d table pk cols coarse_buckets coarse_bucket fine_buckets =
     (let row = row_hash_expr d cols; coarse = bucket_expr d pk coarse_buckets; fine = bucket_expr d pk fine_buckets
      in if d = Oracle
         then oracle_buckets fine (prefix60_expr d row) table ('' WHERE '' @ coarse @ '' = '' @ show_nat coarse_bucket)
         else ''SELECT '' @ fine @ '' AS bucket, count(*) AS row_count, '' @ exact_sum d (prefix60_expr d row) @
           '' AS hash_sum FROM '' @ table @ '' WHERE '' @ coarse @ '' = '' @ show_nat coarse_bucket @ '' '' @ group_and_order d)"

definition key_hash_query :: "dialect \<Rightarrow> string \<Rightarrow> string \<Rightarrow> string list \<Rightarrow> nat \<Rightarrow> nat \<Rightarrow> string" where
  "key_hash_query d table pk cols n b =
     ''SELECT '' @ pk @ '' AS pk, '' @ row_hash_expr d cols @ '' AS row_hash FROM '' @ table @ '' WHERE '' @
     bucket_expr d pk n @ '' = '' @ show_nat b @ '' ORDER BY pk''"

definition count_query :: "dialect \<Rightarrow> string \<Rightarrow> string" where
  "count_query d table = ''SELECT count(*) FROM '' @ table"

definition aggregate_parts :: "dialect \<Rightarrow> nat \<Rightarrow> string \<Rightarrow> string list" where
  "aggregate_parts d i e =
     (let len = (case d of
            Postgres \<Rightarrow> ''octet_length('' @ e @ '')''
          | ClickHouse \<Rightarrow> ''length('' @ e @ '')''
          | Trino \<Rightarrow> ''length(to_utf8('' @ e @ ''))''
          | Oracle \<Rightarrow> ''LENGTHB('' @ e @ '')'')
      in [''sum(case when '' @ e @ '' = '' @ null_literal d @ '' then 1 else 0 end) AS nulls_'' @ show_nat i,
          ''min('' @ e @ '') AS min_'' @ show_nat i,
          ''max('' @ e @ '') AS max_'' @ show_nat i,
          ''sum('' @ len @ '') AS len_'' @ show_nat i])"

definition aggregate_query :: "dialect \<Rightarrow> string \<Rightarrow> string list \<Rightarrow> string" where
  "aggregate_query d table cols =
     (let parts = concat (map (\<lambda>(i, e). aggregate_parts d i e) (enumerate 0 cols))
      in ''SELECT '' @ join_with '', '' parts @ '' FROM '' @ table @
         (if d = ClickHouse then '' SETTINGS aggregate_functions_null_for_empty = 1'' else []))"

end
