(* ===== verification/Checksum.thy ===== *)
theory Checksum
  imports Number_Text
begin

text \<open>
  Row hashes, buckets and the order-independent bucket checksums: \<open>migrate-validate/src/hash.rs\<close>.

  SHA-256 as lowercase hex is the parameter \<open>sha\<close>.  It always has 64 hexadecimal digits, so the
  parse of its first 15 in \<open>prefix60\<close> never panics and a digit that is not one is not modelled.  A plan with no buckets
  (\<open>n = 0\<close>) panics in the program at the first row; here \<open>mod 0\<close> is a number, and the theorems say nothing of it.
\<close>

definition prefix60 :: "string \<Rightarrow> nat" where
  "prefix60 hex = foldl (\<lambda>a c. 16 * a + (case hex_value c of None \<Rightarrow> 0 | Some d \<Rightarrow> d)) 0 (take 15 hex)"

definition bucket_of :: "(string \<Rightarrow> string) \<Rightarrow> string \<Rightarrow> nat \<Rightarrow> nat" where
  "bucket_of sha pk n = prefix60 (sha pk) mod n"

record bucket_checksum =
  ck_count :: "64 word"
  ck_sum :: "128 word"

definition ck_zero :: bucket_checksum where
  "ck_zero = \<lparr>ck_count = 0, ck_sum = 0\<rparr>"

definition ck_add :: "string \<Rightarrow> bucket_checksum \<Rightarrow> bucket_checksum" where
  "ck_add h c = \<lparr>ck_count = ck_count c + 1, ck_sum = ck_sum c + word_of_nat (prefix60 h)\<rparr>"

text \<open>A row is the canonical text of its key and of its columns.\<close>

type_synonym row = "string \<times> string"

definition checksum_step :: "(string \<Rightarrow> string) \<Rightarrow> nat \<Rightarrow> row \<Rightarrow> (nat \<times> bucket_checksum) list \<Rightarrow> (nat \<times> bucket_checksum) list" where
  "checksum_step sha n r m =
     (let b = bucket_of sha (fst r) n
      in bt_insert b (ck_add (sha (snd r)) (case map_of m b of None \<Rightarrow> ck_zero | Some c \<Rightarrow> c)) m)"

definition checksum_buckets :: "(string \<Rightarrow> string) \<Rightarrow> row list \<Rightarrow> nat \<Rightarrow> (nat \<times> bucket_checksum) list" where
  "checksum_buckets sha rows n = fold (checksum_step sha n) rows []"

section \<open>What a checksum is\<close>

lemma hex_value_bound: "hex_value c = Some d \<Longrightarrow> d < 16"
  by (auto simp: hex_value_def Let_def split: if_splits)

lemma prefix60_bound: "prefix60 hex < 2 ^ 60"
proof -
  have "foldl (\<lambda>a c. 16 * a + (case hex_value c of None \<Rightarrow> 0 | Some d \<Rightarrow> d)) 0 s < 16 ^ length s" for s
  proof (induction s rule: rev_induct)
    case (snoc c s)
    have "(case hex_value c of None \<Rightarrow> 0 | Some d \<Rightarrow> d) < 16" using hex_value_bound by (auto split: option.split)
    then show ?case using snoc by simp
  qed simp
  then have "prefix60 hex < 16 ^ length (take 15 hex)" unfolding prefix60_def .
  also have "\<dots> \<le> (16 :: nat) ^ 15" by (rule power_increasing) simp_all
  finally show ?thesis by simp
qed

definition in_bucket :: "(string \<Rightarrow> string) \<Rightarrow> nat \<Rightarrow> nat \<Rightarrow> row list \<Rightarrow> row list" where
  "in_bucket sha n b rows = filter (\<lambda>r. bucket_of sha (fst r) n = b) rows"

definition hash_sum :: "(string \<Rightarrow> string) \<Rightarrow> row list \<Rightarrow> nat" where
  "hash_sum sha rows = sum_list (map (\<lambda>r. prefix60 (sha (snd r))) rows)"

definition ck_of :: "(string \<Rightarrow> string) \<Rightarrow> row list \<Rightarrow> bucket_checksum" where
  "ck_of sha rows = \<lparr>ck_count = word_of_nat (length rows), ck_sum = word_of_nat (hash_sum sha rows)\<rparr>"

lemma in_bucket_simps [simp]:
  "in_bucket sha n b [] = []"
  "in_bucket sha n b (r # rows) = (if bucket_of sha (fst r) n = b then r # in_bucket sha n b rows else in_bucket sha n b rows)"
  "in_bucket sha n b (rows @ rows') = in_bucket sha n b rows @ in_bucket sha n b rows'"
  by (simp_all add: in_bucket_def)

lemma hash_sum_simps [simp]:
  "hash_sum sha [] = 0" "hash_sum sha (r # rows) = prefix60 (sha (snd r)) + hash_sum sha rows"
  "hash_sum sha (rows @ rows') = hash_sum sha rows + hash_sum sha rows'"
  by (simp_all add: hash_sum_def)

lemma ck_of_Nil [simp]: "ck_of sha [] = ck_zero"
  by (simp add: ck_of_def ck_zero_def)

lemma ck_of_snoc: "ck_of sha (rows @ [r]) = ck_add (sha (snd r)) (ck_of sha rows)"
  by (simp add: ck_of_def ck_add_def add.commute)

lemma checksum_buckets_snoc:
  "checksum_buckets sha (rows @ [r]) n = checksum_step sha n r (checksum_buckets sha rows n)"
  by (simp add: checksum_buckets_def)

lemma checksum_sorted [simp]: "bt_sorted (checksum_buckets sha rows n)"
  by (induction rows rule: rev_induct) (simp_all add: checksum_buckets_def checksum_step_def Let_def)

lemma checksum_lookup:
  "map_of (checksum_buckets sha rows n) b =
     (if in_bucket sha n b rows = [] then None else Some (ck_of sha (in_bucket sha n b rows)))"
proof (induction rows arbitrary: b rule: rev_induct)
  case Nil
  then show ?case by (simp add: checksum_buckets_def)
next
  case (snoc r rows)
  then show ?case
    by (auto simp: checksum_buckets_snoc checksum_step_def Let_def map_of_bt_insert ck_of_snoc)
qed

text \<open>The entry of a bucket, absent ones as zero.\<close>

definition ck_at :: "(nat \<times> bucket_checksum) list \<Rightarrow> nat \<Rightarrow> bucket_checksum" where
  "ck_at m b = (case map_of m b of None \<Rightarrow> ck_zero | Some c \<Rightarrow> c)"

lemma ck_at_checksum [simp]: "ck_at (checksum_buckets sha rows n) b = ck_of sha (in_bucket sha n b rows)"
  by (simp add: ck_at_def checksum_lookup)

lemma ck_of_mset: "mset rows = mset rows' \<Longrightarrow> ck_of sha rows = ck_of sha rows'"
proof -
  assume m: "mset rows = mset rows'"
  have "mset (map (\<lambda>r. prefix60 (sha (snd r))) rows) = mset (map (\<lambda>r. prefix60 (sha (snd r))) rows')" using m by simp
  then have "hash_sum sha rows = hash_sum sha rows'" unfolding hash_sum_def by (metis sum_mset_sum_list)
  then show ?thesis using mset_eq_length [OF m] by (simp add: ck_of_def)
qed

lemma in_bucket_mset: "mset rows = mset rows' \<Longrightarrow> mset (in_bucket sha n b rows) = mset (in_bucket sha n b rows')"
  by (simp add: in_bucket_def mset_filter)

lemma hash_sum_bound: "hash_sum sha rows \<le> length rows * 2 ^ 60"
proof (induction rows)
  case (Cons r rows)
  then show ?case using prefix60_bound [of "sha (snd r)"] by simp
qed simp

text \<open>No counter wraps below \<open>2 ^ 64\<close> rows.\<close>

lemma ck_exact:
  assumes "length rows < 2 ^ 64"
  shows "unat (ck_count (ck_of sha rows)) = length rows" "unat (ck_sum (ck_of sha rows)) = hash_sum sha rows"
proof -
  show "unat (ck_count (ck_of sha rows)) = length rows" using assms by (simp add: ck_of_def unat_of_nat)
  have "hash_sum sha rows \<le> length rows * 2 ^ 60" by (rule hash_sum_bound)
  also have "\<dots> < 2 ^ 64 * 2 ^ 60" using assms by (intro mult_strict_right_mono) simp_all
  also have "\<dots> \<le> 2 ^ 128" by simp
  finally show "unat (ck_sum (ck_of sha rows)) = hash_sum sha rows" by (simp add: ck_of_def unat_of_nat)
qed

lemma map_of_eqI_set:
  assumes "distinct (map fst m)" "distinct (map fst m')" "map_of m = map_of m'"
  shows "set m = set m'"
proof (rule set_eqI)
  fix p
  show "p \<in> set m \<longleftrightarrow> p \<in> set m'"
    using map_of_eq_Some_iff [OF assms(1), of "fst p" "snd p"] map_of_eq_Some_iff [OF assms(2), of "fst p" "snd p"] assms(3)
    by simp
qed

text \<open>
  C38: The bucket checksums of a table are the exact row count and hash sum of every bucket, with no
  overflow below \<open>2 ^ 64\<close> rows, they do not depend on the order in which the engine returns the
  rows, and one more copy of any row, an exact duplicate included, always changes the checksum of
  its bucket.
\<close>

theorem bucket_checksums_exact:
  assumes "length rows < 2 ^ 64"
  shows "sorted_wrt (<) (map fst (checksum_buckets sha rows n)) \<and>
    (\<forall>b. let rs = filter (\<lambda>r. bucket_of sha (fst r) n = b) rows in
       (case map_of (checksum_buckets sha rows n) b of
          None \<Rightarrow> rs = []
        | Some c \<Rightarrow> rs \<noteq> [] \<and> unat (ck_count c) = length rs \<and>
            unat (ck_sum c) = sum_list (map (\<lambda>r. prefix60 (sha (snd r))) rs))) \<and>
    (\<forall>rows'. mset rows' = mset rows \<longrightarrow> checksum_buckets sha rows' n = checksum_buckets sha rows n) \<and>
    (\<forall>r. map_of (checksum_buckets sha (r # rows) n) (bucket_of sha (fst r) n) \<noteq>
       map_of (checksum_buckets sha rows n) (bucket_of sha (fst r) n))"
proof (intro conjI allI impI)
  show "sorted_wrt (<) (map fst (checksum_buckets sha rows n))"
    using checksum_sorted [of sha rows n] by (simp only: bt_sorted_def)
next
  fix b
  have "length (in_bucket sha n b rows) < 2 ^ 64"
    using le_less_trans [OF length_filter_le assms] by (simp add: in_bucket_def)
  from ck_exact [OF this, of sha]
  show "let rs = filter (\<lambda>r. bucket_of sha (fst r) n = b) rows in
      (case map_of (checksum_buckets sha rows n) b of
         None \<Rightarrow> rs = []
       | Some c \<Rightarrow> rs \<noteq> [] \<and> unat (ck_count c) = length rs \<and>
           unat (ck_sum c) = sum_list (map (\<lambda>r. prefix60 (sha (snd r))) rs))"
    by (simp add: Let_def checksum_lookup in_bucket_def hash_sum_def)
next
  fix rows'
  assume m: "mset rows' = mset rows"
  have "map_of (checksum_buckets sha rows' n) b = map_of (checksum_buckets sha rows n) b" for b
    unfolding checksum_lookup using in_bucket_mset [OF m] ck_of_mset [OF in_bucket_mset [OF m]]
    by (metis mset_zero_iff)
  then show "checksum_buckets sha rows' n = checksum_buckets sha rows n"
    by (intro bt_sorted_eqI checksum_sorted map_of_eqI_set bt_sorted_distinct ext)
next
  fix r :: row
  let ?rs = "in_bucket sha n (bucket_of sha (fst r) n) rows"
  have l: "length ?rs < 2 ^ 64" using le_less_trans [OF length_filter_le assms] by (simp add: in_bucket_def)
  have "ck_of sha (r # ?rs) \<noteq> ck_of sha ?rs"
  proof
    assume "ck_of sha (r # ?rs) = ck_of sha ?rs"
    then have "(word_of_nat (length ?rs) + 1 :: 64 word) = word_of_nat (length ?rs)"
      by (simp add: ck_of_def add.commute)
    then show False by simp
  qed
  then show "map_of (checksum_buckets sha (r # rows) n) (bucket_of sha (fst r) n) \<noteq>
      map_of (checksum_buckets sha rows n) (bucket_of sha (fst r) n)"
    by (simp add: checksum_lookup)
qed

lemma bucket_checksums_exact_witness:
  "map_of (checksum_buckets (\<lambda>s. s) [(''1'', ''a''), (''1'', ''a'')] 4) 1 \<noteq> map_of (checksum_buckets (\<lambda>s. s) [(''1'', ''a'')] 4) 1"
proof -
  have b: "bucket_of (\<lambda>s. s) ''1'' 4 = 1" by (simp add: bucket_of_def prefix60_def hex_value_def)
  have "length [(''1'', ''a'')] < (2 :: nat) ^ 64" by simp
  from bucket_checksums_exact [OF this, of "\<lambda>s. s" 4]
  have "\<forall>r. map_of (checksum_buckets (\<lambda>s. s) (r # [(''1'', ''a'')]) 4) (bucket_of (\<lambda>s. s) (fst r) 4) \<noteq>
      map_of (checksum_buckets (\<lambda>s. s) [(''1'', ''a'')] 4) (bucket_of (\<lambda>s. s) (fst r) 4)" by blast
  from spec [OF this, of "(''1'', ''a'')"] b show ?thesis by simp
qed

section \<open>Refining the buckets\<close>

text \<open>A finer fan-out splits every bucket: the sub-buckets of a bucket hold exactly its rows.\<close>

lemma bucket_of_refine: "bucket_of sha pk (n * k) mod n = bucket_of sha pk n"
  by (simp add: bucket_of_def mod_mult2_eq)

lemma in_bucket_refine:
  assumes "b' mod n = b"
  shows "in_bucket sha (n * k) b' (in_bucket sha n b rows) = in_bucket sha (n * k) b' rows"
  using assms bucket_of_refine [of sha _ n k] by (auto simp: in_bucket_def intro!: filter_cong)

lemma in_bucket_empty:
  assumes "b' mod n \<noteq> b"
  shows "in_bucket sha (n * k) b' (in_bucket sha n b rows) = []"
  using assms bucket_of_refine [of sha _ n k] by (auto simp: in_bucket_def filter_empty_conv)

end
