(* ===== verification/Tiers.thy ===== *)
theory Tiers
  imports Dialect Checksum
begin

text \<open>
  The validation tiers V1 to V3 and the verdict: \<open>migrate-validate/src/reader.rs\<close>, \<open>divergence.rs\<close>
  and \<open>tiers.rs\<close>.

  A reader is a record; its query function answers each text the same way each time, which is the
  fixed snapshot the validator asks for (a changing source is a function that answers differing
  texts inconsistently).  Explanation rules are pairs of an id and a predicate.
\<close>

section \<open>Readers\<close>

datatype read_error =
    ReadQuery string string
  | ReadShape nat nat string
  | ReadParse string string nat

record engine_reader =
  er_dialect :: dialect
  er_label :: string
  er_query :: "string \<Rightarrow> read_error + string list list"

definition one_row :: "engine_reader \<Rightarrow> string \<Rightarrow> read_error + string list" where
  "one_row r sql =
     (case er_query r sql of
        Inl e \<Rightarrow> Inl e
      | Inr [row] \<Rightarrow> Inr row
      | Inr rows \<Rightarrow> Inl (ReadShape 1 (length rows) sql))"

definition scalar_u64 :: "engine_reader \<Rightarrow> string \<Rightarrow> read_error + nat" where
  "scalar_u64 r sql =
     (case one_row r sql of
        Inl e \<Rightarrow> Inl e
      | Inr [] \<Rightarrow> Inl (ReadShape 1 0 sql)
      | Inr (v # _) \<Rightarrow>
          (case parse_unsigned (2 ^ 64) (trim v) of None \<Rightarrow> Inl (ReadParse v ''u64'' 0) | Some n \<Rightarrow> Inr n))"

section \<open>Divergences\<close>

datatype divergence_class = Expected string | Explained string | Unexplained

definition blocks :: "divergence_class \<Rightarrow> bool" where
  "blocks c \<longleftrightarrow> c = Unexplained"

record divergence =
  dv_locus :: string
  dv_columns :: "string list"
  dv_detail :: string
  dv_class :: divergence_class

definition classify_one ::
  "(string \<times> string) list \<Rightarrow> (string \<times> (divergence \<Rightarrow> bool)) list \<Rightarrow> divergence \<Rightarrow> divergence" where
  "classify_one dispositions rules d =
     (if \<not> blocks (dv_class d) then d
      else case find (\<lambda>p. fst p = dv_locus d) dispositions of
             Some p \<Rightarrow> d\<lparr>dv_class := Expected (snd p)\<rparr>
           | None \<Rightarrow> (case find (\<lambda>r. snd r d) rules of Some r \<Rightarrow> d\<lparr>dv_class := Explained (fst r)\<rparr> | None \<Rightarrow> d))"

definition classify ::
  "divergence list \<Rightarrow> (string \<times> string) list \<Rightarrow> (string \<times> (divergence \<Rightarrow> bool)) list \<Rightarrow> divergence list" where
  "classify ds dispositions rules = map (classify_one dispositions rules) ds"

definition blocking_count :: "divergence list \<Rightarrow> nat" where
  "blocking_count ds = length (filter (\<lambda>d. blocks (dv_class d)) ds)"

section \<open>Outcomes\<close>

datatype tier = V0Structural | V1Counts | V2Aggregates | V3Checksums | V4RowDiff | V5Logic | V6Invariants

fun tier_str :: "tier \<Rightarrow> string" where
  "tier_str V0Structural = ''v0''"
| "tier_str V1Counts = ''v1''"
| "tier_str V2Aggregates = ''v2''"
| "tier_str V3Checksums = ''v3''"
| "tier_str V4RowDiff = ''v4''"
| "tier_str V5Logic = ''v5''"
| "tier_str V6Invariants = ''v6''"

definition is_implemented :: "tier \<Rightarrow> bool" where
  "is_implemented t \<longleftrightarrow> t \<in> {V0Structural, V1Counts, V2Aggregates, V3Checksums, V4RowDiff}"

record control_result =
  cr_control :: string
  cr_tier :: tier
  cr_detected :: bool

record tier_outcome =
  to_tier :: tier
  to_source_path :: string
  to_target_path :: string
  to_divergences :: "divergence list"
  to_controls :: "control_result list"

definition controls_all_fired :: "tier_outcome \<Rightarrow> bool" where
  "controls_all_fired o1 \<longleftrightarrow> list_all cr_detected (to_controls o1)"

definition passed :: "tier_outcome \<Rightarrow> bool" where
  "passed o1 \<longleftrightarrow> blocking_count (to_divergences o1) = 0 \<and> controls_all_fired o1"

definition missed_controls :: "tier_outcome \<Rightarrow> string list" where
  "missed_controls o1 = map cr_control (filter (\<lambda>c. \<not> cr_detected c) (to_controls o1))"

definition em_dash :: string where
  "em_dash = [CHR 0xE2, CHR 0x80, CHR 0x94]"

definition verdict :: "tier_outcome \<Rightarrow> string" where
  "verdict o1 =
     (let blocking = blocking_count (to_divergences o1)
      in if \<not> controls_all_fired o1
         then tier_str (to_tier o1) @ '' FAILED '' @ em_dash @ '' '' @ show_nat (length (missed_controls o1)) @
           '' control(s) did not fire: '' @ join_with '', '' (missed_controls o1) @
           ''. A tier that cannot catch a planted defect does not get to report green.''
         else if blocking > 0
         then tier_str (to_tier o1) @ '' FAILED '' @ em_dash @ '' '' @ show_nat blocking @ '' unexplained divergence(s)''
         else tier_str (to_tier o1) @ '' passed '' @ em_dash @ '' '' @ show_nat (length (to_controls o1)) @ '' control(s) fired'')"

record unit_plan =
  up_unit :: string
  up_source_table :: string
  up_target_table :: string
  up_source_pk :: string
  up_target_pk :: string
  up_source_columns :: "string list"
  up_target_columns :: "string list"
  up_buckets :: nat
  up_digest_columns :: bool

definition plan_row :: "unit_plan \<Rightarrow> dialect \<Rightarrow> string list \<Rightarrow> string list" where
  "plan_row p d columns = (if up_digest_columns p then map (column_digest_expr d) columns else columns)"

section \<open>V1 and V2\<close>

definition run_v1 :: "unit_plan \<Rightarrow> engine_reader \<Rightarrow> engine_reader \<Rightarrow> read_error + tier_outcome" where
  "run_v1 plan src tgt =
     (case scalar_u64 src (count_query (er_dialect src) (up_source_table plan)) of
        Inl e \<Rightarrow> Inl e
      | Inr s \<Rightarrow>
         (case scalar_u64 tgt (count_query (er_dialect tgt) (up_target_table plan)) of
            Inl e \<Rightarrow> Inl e
          | Inr t \<Rightarrow>
              Inr \<lparr>to_tier = V1Counts, to_source_path = er_label src, to_target_path = er_label tgt,
                   to_divergences =
                     (if s = t then []
                      else [\<lparr>dv_locus = up_unit plan @ '':count'', dv_columns = [],
                             dv_detail = ''source '' @ show_nat s @ '' rows, target '' @ show_nat t @ '' rows (delta '' @
                               show_int (sint (word_of_nat t - word_of_nat s :: 64 word)) @ '')'',
                             dv_class = Unexplained\<rparr>]),
                   to_controls = []\<rparr>))"

definition AGGS :: "string list" where
  "AGGS = [''nulls'', ''min'', ''max'', ''length_sum'']"

definition get_nth :: "'a list \<Rightarrow> nat \<Rightarrow> 'a option" where
  "get_nth xs i = (if i < length xs then Some (xs ! i) else None)"

definition compare_agg ::
  "unit_plan \<Rightarrow> nat \<Rightarrow> string list \<Rightarrow> string list \<Rightarrow> (nat \<times> string) \<times> nat \<times> string \<Rightarrow> read_error + divergence list" where
  "compare_agg plan ncols s t = (\<lambda>((i, name), (j, agg)).
     let k = i * length AGGS + j
     in case (get_nth s k, get_nth t k) of
          (Some a, Some b) \<Rightarrow>
            if a \<noteq> b then Inr [\<lparr>dv_locus = up_unit plan @ '':'' @ name @ '':'' @ agg, dv_columns = [name],
                                dv_detail = agg @ '' differs'', dv_class = Unexplained\<rparr>]
            else Inr []
        | _ \<Rightarrow> Inl (ReadShape (ncols * length AGGS) (min (length s) (length t)) ''aggregate pack''))"

definition run_v2 :: "unit_plan \<Rightarrow> engine_reader \<Rightarrow> engine_reader \<Rightarrow> string list \<Rightarrow> read_error + tier_outcome" where
  "run_v2 plan src tgt names =
     (case one_row src (aggregate_query (er_dialect src) (up_source_table plan) (up_source_columns plan)) of
        Inl e \<Rightarrow> Inl e
      | Inr s \<Rightarrow>
         (case one_row tgt (aggregate_query (er_dialect tgt) (up_target_table plan) (up_target_columns plan)) of
            Inl e \<Rightarrow> Inl e
          | Inr t \<Rightarrow>
             (case map_res (compare_agg plan (length names) s t) (List.product (enumerate 0 names) (enumerate 0 AGGS)) of
                Inl e \<Rightarrow> Inl e
              | Inr dss \<Rightarrow>
                  Inr \<lparr>to_tier = V2Aggregates, to_source_path = er_label src, to_target_path = er_label tgt,
                       to_divergences = concat dss, to_controls = []\<rparr>)))"

section \<open>V3\<close>

text \<open>\<open>trim_end_matches(".0")\<close>, on the reversed text.\<close>

fun strip_point_zero_rev :: "string \<Rightarrow> string" where
  "strip_point_zero_rev (c # d # r) = (if c = CHR ''0'' \<and> d = CHR ''.'' then strip_point_zero_rev r else c # d # r)"
| "strip_point_zero_rev r = r"

definition strip_point_zero :: "string \<Rightarrow> string" where
  "strip_point_zero s = rev (strip_point_zero_rev (rev s))"

definition parse_u :: "string \<Rightarrow> string \<Rightarrow> nat \<Rightarrow> read_error + nat" where
  "parse_u v as_type column =
     (case parse_unsigned (2 ^ 128) (trim v) of None \<Rightarrow> Inl (ReadParse v as_type column) | Some n \<Rightarrow> Inr n)"

definition parse_bucket_row :: "string list \<Rightarrow> (nat \<times> bucket_checksum) list \<Rightarrow> read_error + (nat \<times> bucket_checksum) list" where
  "parse_bucket_row r out =
     (if length r < 3 then Inl (ReadShape 3 (length r) ''bucket checksum'')
      else case parse_u (r ! 0) ''u32'' 0 of
             Inl e \<Rightarrow> Inl e
           | Inr b \<Rightarrow>
              (case parse_u (r ! 1) ''u64'' 1 of
                 Inl e \<Rightarrow> Inl e
               | Inr c \<Rightarrow>
                  (case parse_u (strip_point_zero (r ! 2)) ''u128'' 2 of
                     Inl e \<Rightarrow> Inl e
                   | Inr s \<Rightarrow> Inr (bt_insert (b mod 2 ^ 32) \<lparr>ck_count = word_of_nat c, ck_sum = word_of_nat s\<rparr> out))))"

definition parse_buckets :: "string list list \<Rightarrow> read_error + (nat \<times> bucket_checksum) list" where
  "parse_buckets rows = fold_res parse_bucket_row rows []"

definition read_buckets :: "engine_reader \<Rightarrow> string \<Rightarrow> read_error + (nat \<times> bucket_checksum) list" where
  "read_buckets r sql = (case er_query r sql of Inl e \<Rightarrow> Inl e | Inr rows \<Rightarrow> parse_buckets rows)"

definition both_keys :: "(nat \<times> 'a) list \<Rightarrow> (nat \<times> 'a) list \<Rightarrow> nat list" where
  "both_keys s t = remdups_adj (sort (map fst s @ map fst t))"

definition v3_divergence :: "unit_plan \<Rightarrow> (nat \<times> bucket_checksum) list \<Rightarrow> (nat \<times> bucket_checksum) list \<Rightarrow> nat \<Rightarrow> divergence list" where
  "v3_divergence plan s t b =
     (if map_of s b = map_of t b then []
      else
        let a = (case map_of s b of None \<Rightarrow> ck_zero | Some x \<Rightarrow> x); c = (case map_of t b of None \<Rightarrow> ck_zero | Some x \<Rightarrow> x)
        in if a = c then []
           else [\<lparr>dv_locus = up_unit plan @ '':bucket:'' @ show_nat b, dv_columns = [],
                  dv_detail = ''source count '' @ show_nat (unat (ck_count a)) @ '' sum '' @ show_nat (unat (ck_sum a)) @
                    '', target count '' @ show_nat (unat (ck_count c)) @ '' sum '' @ show_nat (unat (ck_sum c)),
                  dv_class = Unexplained\<rparr>])"

definition run_v3 :: "unit_plan \<Rightarrow> engine_reader \<Rightarrow> engine_reader \<Rightarrow> read_error + tier_outcome" where
  "run_v3 plan src tgt =
     (case read_buckets src (bucket_checksum_query (er_dialect src) (up_source_table plan) (up_source_pk plan)
             (plan_row plan (er_dialect src) (up_source_columns plan)) (up_buckets plan)) of
        Inl e \<Rightarrow> Inl e
      | Inr s \<Rightarrow>
         (case read_buckets tgt (bucket_checksum_query (er_dialect tgt) (up_target_table plan) (up_target_pk plan)
                 (plan_row plan (er_dialect tgt) (up_target_columns plan)) (up_buckets plan)) of
            Inl e \<Rightarrow> Inl e
          | Inr t \<Rightarrow>
              Inr \<lparr>to_tier = V3Checksums, to_source_path = er_label src, to_target_path = er_label tgt,
                   to_divergences = concat (map (v3_divergence plan s t) (both_keys s t)), to_controls = []\<rparr>))"

section \<open>What still blocks after classification\<close>

lemma find_None_all: "find P xs = None \<longleftrightarrow> (\<forall>x \<in> set xs. \<not> P x)"
  by (auto simp: find_None_iff)

text \<open>Exactly the unexplained divergences without a disposition of their locus and without a rule block.\<close>

lemma classify_blocks:
  "blocking_count (classify ds dispositions rules) =
     length (filter (\<lambda>d. blocks (dv_class d) \<and> dv_locus d \<notin> fst ` set dispositions \<and> (\<forall>r \<in> set rules. \<not> snd r d)) ds)"
proof -
  have "blocks (dv_class (classify_one dispositions rules d)) \<longleftrightarrow>
      blocks (dv_class d) \<and> dv_locus d \<notin> fst ` set dispositions \<and> (\<forall>r \<in> set rules. \<not> snd r d)" for d
    using find_None_all [of "\<lambda>p. fst p = dv_locus d" dispositions] find_None_all [of "\<lambda>r. snd r d" rules]
    by (force simp: classify_one_def blocks_def split: option.splits)
  then show ?thesis by (simp add: blocking_count_def classify_def filter_map comp_def)
qed

text \<open>A verdict that says passed belongs to an outcome that passed.\<close>

lemma verdict_passed: "passed out \<Longrightarrow> verdict out = tier_str (to_tier out) @ '' passed '' @ em_dash @ '' '' @
    show_nat (length (to_controls out)) @ '' control(s) fired''"
  by (simp add: passed_def verdict_def Let_def)

end
