(* ===== verification/Bisect.thy ===== *)
theory Bisect
  imports Tiers
begin

text \<open>
  Tier V4, from a failed bucket to the divergent keys: \<open>migrate-validate/src/bisect.rs\<close>; and what
  V3 and V4 report over engines that answer from two tables of rows.

  A string is its UTF-8 bytes, so \<open>mask_key\<close> counts the bytes that start a character.
\<close>

section \<open>The search\<close>

record bisect_policy =
  bp_fan_out :: nat
  bp_row_threshold :: nat
  bp_max_rounds :: nat

definition default_policy :: bisect_policy where
  "default_policy = \<lparr>bp_fan_out = 16, bp_row_threshold = 1000, bp_max_rounds = 8\<rparr>"

datatype key_diff = SourceOnly string | TargetOnly string | HashDiffers string

fun kd_key :: "key_diff \<Rightarrow> string" where
  "kd_key (SourceOnly k) = k"
| "kd_key (TargetOnly k) = k"
| "kd_key (HashDiffers k) = k"

datatype bisect_error =
    BisectRead read_error
  | VanishedUnderRemeasurement nat nat
  | MaxRoundsExceeded nat
  | FanOutOverflow nat

text \<open>Collecting into a \<open>BTreeMap\<close>: the last row of a key wins, rows that are too short are dropped.\<close>

definition to_map :: "string list list \<Rightarrow> (string \<times> string) list" where
  "to_map rows = fold (\<lambda>r m. bt_insert (r ! 0) (r ! 1) m) (filter (\<lambda>r. 2 \<le> length r) rows) []"

definition missing_keys :: "(string \<times> string) list \<Rightarrow> (string \<times> string) list \<Rightarrow> key_diff list" where
  "missing_keys s t =
     List.map_filter (\<lambda>(k, sh). case map_of t k of
         None \<Rightarrow> Some (SourceOnly k)
       | Some th \<Rightarrow> if th \<noteq> sh then Some (HashDiffers k) else None) s"

definition extra_keys :: "(string \<times> string) list \<Rightarrow> (string \<times> string) list \<Rightarrow> key_diff list" where
  "extra_keys s t = List.map_filter (\<lambda>(k, _). if map_of s k = None then Some (TargetOnly k) else None) t"

definition diff_key_hashes :: "string list list \<Rightarrow> string list list \<Rightarrow> key_diff list" where
  "diff_key_hashes source target =
     (let s = to_map source; t = to_map target in sort_key kd_key (missing_keys s t @ extra_keys s t))"

definition differing_buckets :: "(nat \<times> bucket_checksum) list \<Rightarrow> (nat \<times> bucket_checksum) list \<Rightarrow> nat list" where
  "differing_buckets s t =
     filter (\<lambda>b. (case map_of s b of None \<Rightarrow> ck_zero | Some c \<Rightarrow> c) \<noteq> (case map_of t b of None \<Rightarrow> ck_zero | Some c \<Rightarrow> c))
       (both_keys s t)"

text \<open>The two sides of a plan.\<close>

definition sub_query :: "unit_plan \<Rightarrow> bool \<Rightarrow> engine_reader \<Rightarrow> nat \<Rightarrow> nat \<Rightarrow> nat \<Rightarrow> string" where
  "sub_query plan source r buckets bucket fine =
     (if source
      then sub_bucket_checksum_query (er_dialect r) (up_source_table plan) (up_source_pk plan)
             (plan_row plan (er_dialect r) (up_source_columns plan)) buckets bucket fine
      else sub_bucket_checksum_query (er_dialect r) (up_target_table plan) (up_target_pk plan)
             (plan_row plan (er_dialect r) (up_target_columns plan)) buckets bucket fine)"

definition key_query :: "unit_plan \<Rightarrow> bool \<Rightarrow> engine_reader \<Rightarrow> nat \<Rightarrow> nat \<Rightarrow> string" where
  "key_query plan source r buckets bucket =
     (if source
      then key_hash_query (er_dialect r) (up_source_table plan) (up_source_pk plan)
             (plan_row plan (er_dialect r) (up_source_columns plan)) buckets bucket
      else key_hash_query (er_dialect r) (up_target_table plan) (up_target_pk plan)
             (plan_row plan (er_dialect r) (up_target_columns plan)) buckets bucket)"

definition max_rows_in :: "unit_plan \<Rightarrow> engine_reader \<Rightarrow> engine_reader \<Rightarrow> nat \<Rightarrow> nat \<Rightarrow> bisect_error + nat" where
  "max_rows_in plan src tgt buckets bucket =
     (case read_buckets src (sub_query plan True src buckets bucket buckets) of
        Inl e \<Rightarrow> Inl (BisectRead e)
      | Inr s \<Rightarrow>
         (case read_buckets tgt (sub_query plan False tgt buckets bucket buckets) of
            Inl e \<Rightarrow> Inl (BisectRead e)
          | Inr t \<Rightarrow> Inr (fold max (map (\<lambda>p. unat (ck_count (snd p))) (s @ t)) 0)))"

definition fetch_keys :: "unit_plan \<Rightarrow> engine_reader \<Rightarrow> engine_reader \<Rightarrow> nat \<Rightarrow> nat \<Rightarrow> bisect_error + key_diff list" where
  "fetch_keys plan src tgt buckets bucket =
     (case er_query src (key_query plan True src buckets bucket) of
        Inl e \<Rightarrow> Inl (BisectRead e)
      | Inr s \<Rightarrow>
         (case er_query tgt (key_query plan False tgt buckets bucket) of
            Inl e \<Rightarrow> Inl (BisectRead e)
          | Inr t \<Rightarrow> Inr (diff_key_hashes s t)))"

text \<open>\<open>left\<close> rounds are left of \<open>max_rounds\<close>.\<close>

fun bisect_loop ::
  "unit_plan \<Rightarrow> engine_reader \<Rightarrow> engine_reader \<Rightarrow> bisect_policy \<Rightarrow> nat \<Rightarrow> nat \<Rightarrow> nat \<Rightarrow> bisect_error + key_diff list"
where
  "bisect_loop plan src tgt pol 0 buckets bucket = Inl (MaxRoundsExceeded (bp_max_rounds pol))"
| "bisect_loop plan src tgt pol (Suc left) buckets bucket =
     (case max_rows_in plan src tgt buckets bucket of
        Inl e \<Rightarrow> Inl e
      | Inr rows_here \<Rightarrow>
          if rows_here \<le> bp_row_threshold pol then fetch_keys plan src tgt buckets bucket
          else if 2 ^ 32 \<le> buckets * bp_fan_out pol then Inl (FanOutOverflow buckets)
          else
            let fine = buckets * bp_fan_out pol
            in case read_buckets src (sub_query plan True src buckets bucket fine) of
                 Inl e \<Rightarrow> Inl (BisectRead e)
               | Inr s \<Rightarrow>
                  (case read_buckets tgt (sub_query plan False tgt buckets bucket fine) of
                     Inl e \<Rightarrow> Inl (BisectRead e)
                   | Inr t \<Rightarrow>
                      (case differing_buckets s t of
                         [] \<Rightarrow> Inl (VanishedUnderRemeasurement bucket (bp_max_rounds pol - Suc left))
                       | b # _ \<Rightarrow> bisect_loop plan src tgt pol left fine b)))"

definition bisect_bucket ::
  "unit_plan \<Rightarrow> engine_reader \<Rightarrow> engine_reader \<Rightarrow> nat \<Rightarrow> bisect_policy \<Rightarrow> bisect_error + key_diff list" where
  "bisect_bucket plan src tgt coarse pol = bisect_loop plan src tgt pol (bp_max_rounds pol) (up_buckets plan) coarse"

section \<open>V4\<close>

text \<open>A byte that continues a character, and the characters of a text.\<close>

definition is_cont :: "char \<Rightarrow> bool" where
  "is_cont c \<longleftrightarrow> (of_char c :: nat) div 64 = 2"

definition char_count :: "string \<Rightarrow> nat" where
  "char_count s = length (filter (\<lambda>c. \<not> is_cont c) s)"

definition first_char :: "string \<Rightarrow> string" where
  "first_char s = (case s of [] \<Rightarrow> [] | c # cs \<Rightarrow> c # takeWhile is_cont cs)"

definition last_char :: "string \<Rightarrow> string" where
  "last_char s = drop (length s - (length (takeWhile is_cont (rev s)) + 1)) s"

definition middle_dot :: string where
  "middle_dot = [CHR 0xC2, CHR 0xB7]"

definition mask_key :: "(string \<Rightarrow> string) \<Rightarrow> string \<Rightarrow> string" where
  "mask_key sha key =
     (let h = sha key; n = char_count key
      in if n = 0 then [CHR 0xE2, CHR 0x88, CHR 0x85]
         else if n \<le> 2 then middle_dot @ middle_dot @ ''#'' @ take 8 h
         else first_char key @ middle_dot @ middle_dot @ last_char key @ ''#'' @ take 8 h)"

definition key_divergence :: "(string \<Rightarrow> string) \<Rightarrow> unit_plan \<Rightarrow> key_diff \<Rightarrow> divergence" where
  "key_divergence sha plan d =
     \<lparr>dv_locus = up_unit plan @ '':key:'' @ mask_key sha (kd_key d), dv_columns = [],
      dv_detail = (case d of SourceOnly _ \<Rightarrow> ''missing in target'' | TargetOnly _ \<Rightarrow> ''present only in target''
                   | HashDiffers _ \<Rightarrow> ''row differs''),
      dv_class = Unexplained\<rparr>"

definition run_v4 ::
  "(string \<Rightarrow> string) \<Rightarrow> unit_plan \<Rightarrow> engine_reader \<Rightarrow> engine_reader \<Rightarrow> nat list \<Rightarrow> bisect_policy \<Rightarrow> bisect_error + tier_outcome" where
  "run_v4 sha plan src tgt failed pol =
     (case map_res (\<lambda>b. bisect_bucket plan src tgt b pol) failed of
        Inl e \<Rightarrow> Inl e
      | Inr dss \<Rightarrow>
          Inr \<lparr>to_tier = V4RowDiff, to_source_path = er_label src, to_target_path = er_label tgt,
               to_divergences = map (key_divergence sha plan) (concat dss), to_controls = []\<rparr>)"

section \<open>Engines over a table of rows\<close>

definition checksum_row :: "nat \<times> bucket_checksum \<Rightarrow> string list" where
  "checksum_row p = [show_nat (fst p), show_nat (unat (ck_count (snd p))), show_nat (unat (ck_sum (snd p)))]"

definition key_row :: "(string \<Rightarrow> string) \<Rightarrow> row \<Rightarrow> string list" where
  "key_row sha r = [fst r, sha (snd r)]"

text \<open>
  What the three query texts mean to an engine that holds the table: their SQL semantics over the
  canonical rows.
\<close>

definition serves ::
  "(string \<Rightarrow> string) \<Rightarrow> engine_reader \<Rightarrow> string \<Rightarrow> string \<Rightarrow> string list \<Rightarrow> row list \<Rightarrow> bool" where
  "serves sha r table pk cols rows \<longleftrightarrow>
     (\<forall>n. er_query r (bucket_checksum_query (er_dialect r) table pk cols n) =
        Inr (map checksum_row (checksum_buckets sha rows n))) \<and>
     (\<forall>n b fine. er_query r (sub_bucket_checksum_query (er_dialect r) table pk cols n b fine) =
        Inr (map checksum_row (checksum_buckets sha (in_bucket sha n b rows) fine))) \<and>
     (\<forall>n b. er_query r (key_hash_query (er_dialect r) table pk cols n b) =
        Inr (map (key_row sha) (sort_key fst (in_bucket sha n b rows))))"

definition serves_plan :: "(string \<Rightarrow> string) \<Rightarrow> unit_plan \<Rightarrow> engine_reader \<Rightarrow> engine_reader \<Rightarrow> row list \<Rightarrow> row list \<Rightarrow> bool" where
  "serves_plan sha plan src tgt S T \<longleftrightarrow>
     serves sha src (up_source_table plan) (up_source_pk plan) (plan_row plan (er_dialect src) (up_source_columns plan)) S \<and>
     serves sha tgt (up_target_table plan) (up_target_pk plan) (plan_row plan (er_dialect tgt) (up_target_columns plan)) T \<and>
     0 < up_buckets plan \<and> up_buckets plan < 2 ^ 32 \<and> length S < 2 ^ 64 \<and> length T < 2 ^ 64"

section \<open>Reading back what an engine answers\<close>

lemma strip_point_zero_id: "CHR ''.'' \<notin> set s \<Longrightarrow> strip_point_zero s = s"
proof -
  have "strip_point_zero_rev r = r" if "CHR ''.'' \<notin> set r" for r
    using that by (induction r rule: strip_point_zero_rev.induct) auto
  then show "CHR ''.'' \<notin> set s \<Longrightarrow> strip_point_zero s = s" by (simp add: strip_point_zero_def)
qed

lemma show_nat_no_point: "CHR ''.'' \<notin> set (show_nat n)"
  using show_nat_digits [of n] point_not_digit by (auto simp: list_all_iff)

lemma unat_128: "unat (w :: 128 word) < 2 ^ 128" "unat (v :: 64 word) < 2 ^ 128"
proof -
  show "unat w < 2 ^ 128" using unsigned_less [of w, where ?'a = nat] by simp
  have "unat v < 2 ^ 64" using unsigned_less [of v, where ?'a = nat] by simp
  then show "unat v < 2 ^ 128" by (rule less_le_trans) simp
qed

lemma parse_checksum_row:
  "fst p < 2 ^ 32 \<Longrightarrow> parse_bucket_row (checksum_row p) out = Inr (bt_insert (fst p) (snd p) out)"
proof -
  assume b: "fst p < 2 ^ 32"
  then have "fst p < 2 ^ 128" by (rule less_le_trans) simp
  then show ?thesis
    using b unat_128(1) [of "ck_sum (snd p)"] unat_128(2) [of "ck_count (snd p)"]
    by (cases "snd p") (simp add: parse_bucket_row_def checksum_row_def parse_u_def strip_point_zero_id show_nat_no_point)
qed

lemma bt_insert_last: "(\<And>q. q \<in> set acc \<Longrightarrow> fst q < k) \<Longrightarrow> bt_insert k v acc = acc @ [(k, v)]"
proof (induction acc)
  case (Cons q acc)
  have "fst q < k" using Cons.prems by simp
  moreover have "bt_insert k v acc = acc @ [(k, v)]" by (rule Cons.IH) (use Cons.prems in simp)
  ultimately show ?case by (auto simp: less_imp_not_less)
qed simp

lemma bt_sorted_append:
  "bt_sorted (a @ b) \<longleftrightarrow> bt_sorted a \<and> bt_sorted b \<and> (\<forall>p \<in> set a. \<forall>q \<in> set b. fst p < fst q)"
  by (auto simp: bt_sorted_def sorted_wrt_append)

lemma parse_checksums:
  assumes "bt_sorted (acc @ m)" "\<And>p. p \<in> set m \<Longrightarrow> fst p < 2 ^ 32"
  shows "fold_res parse_bucket_row (map checksum_row m) acc = Inr (acc @ m)"
  using assms
proof (induction m arbitrary: acc)
  case (Cons p m)
  have "bt_insert (fst p) (snd p) acc = acc @ [p]"
    using Cons.prems(1) by (subst bt_insert_last) (auto simp: bt_sorted_append)
  moreover have "fst p < 2 ^ 32" using Cons.prems(2) by simp
  ultimately show ?case using Cons.IH [of "acc @ [p]"] Cons.prems by (simp add: parse_checksum_row)
qed simp

lemma keys_checksum: "0 < n \<Longrightarrow> p \<in> set (checksum_buckets sha rows n) \<Longrightarrow> fst p < n"
proof -
  assume n: "0 < n" and p: "p \<in> set (checksum_buckets sha rows n)"
  then have "map_of (checksum_buckets sha rows n) (fst p) \<noteq> None" by (metis map_of_eq_None_iff image_eqI)
  then obtain r where "r \<in> set rows" "bucket_of sha (fst r) n = fst p"
    by (auto simp: checksum_lookup in_bucket_def filter_empty_conv split: if_splits)
  then show "fst p < n" using n mod_less_divisor [OF n] by (metis bucket_of_def)
qed

lemma read_checksums:
  assumes "er_query r sql = Inr (map checksum_row (checksum_buckets sha rows n))" "0 < n" "n \<le> 2 ^ 32"
  shows "read_buckets r sql = Inr (checksum_buckets sha rows n)"
proof -
  have "fst p < 2 ^ 32" if "p \<in> set (checksum_buckets sha rows n)" for p
    using keys_checksum [OF assms(2) that] assms(3) by simp
  then show ?thesis
    using assms(1) parse_checksums [of "[]" "checksum_buckets sha rows n"]
    by (simp add: read_buckets_def parse_buckets_def)
qed

section \<open>Comparing buckets\<close>

definition diverges :: "(string \<Rightarrow> string) \<Rightarrow> nat \<Rightarrow> nat \<Rightarrow> row list \<Rightarrow> row list \<Rightarrow> bool" where
  "diverges sha n b S T \<longleftrightarrow> ck_of sha (in_bucket sha n b S) \<noteq> ck_of sha (in_bucket sha n b T)"

lemma sorted_both_keys: "sorted_wrt (<) (both_keys s t)"
proof -
  have "sorted (sort (map fst s @ map fst t))" by simp
  then show ?thesis by (simp add: strict_sorted_iff both_keys_def sorted_remdups_adj_distinct)
qed

lemma both_keys_filter:
  assumes "\<And>b. P b \<Longrightarrow> b \<in> set (map fst s @ map fst t)" "\<And>b. b \<in> set (map fst s @ map fst t) \<Longrightarrow> b < n"
  shows "filter P (both_keys s t) = filter P [0..<n]"
proof (rule sorted_distinct_set_unique)
  show "sorted (filter P (both_keys s t))" "distinct (filter P (both_keys s t))"
    using sorted_both_keys [of s t] by (simp_all add: strict_sorted_iff sorted_wrt_filter)
  show "set (filter P (both_keys s t)) = set (filter P [0..<n])"
    using assms by (auto simp: both_keys_def)
qed (simp_all add: sorted_wrt_filter)

lemma differing_checksums:
  assumes "0 < n"
  shows "filter (\<lambda>b. ck_at (checksum_buckets sha S n) b \<noteq> ck_at (checksum_buckets sha T n) b)
      (both_keys (checksum_buckets sha S n) (checksum_buckets sha T n)) = filter (\<lambda>b. diverges sha n b S T) [0..<n]"
proof -
  have "filter (\<lambda>b. diverges sha n b S T) (both_keys (checksum_buckets sha S n) (checksum_buckets sha T n)) =
      filter (\<lambda>b. diverges sha n b S T) [0..<n]"
  proof (rule both_keys_filter)
    fix b assume "diverges sha n b S T"
    then have "in_bucket sha n b S \<noteq> [] \<or> in_bucket sha n b T \<noteq> []" by (auto simp: diverges_def)
    then have "map_of (checksum_buckets sha S n) b \<noteq> None \<or> map_of (checksum_buckets sha T n) b \<noteq> None"
      by (auto simp: checksum_lookup)
    then show "b \<in> set (map fst (checksum_buckets sha S n) @ map fst (checksum_buckets sha T n))"
      by (auto simp: map_of_eq_None_iff)
  next
    fix b assume "b \<in> set (map fst (checksum_buckets sha S n) @ map fst (checksum_buckets sha T n))"
    then show "b < n" using keys_checksum [OF assms] by auto
  qed
  then show ?thesis by (simp add: diverges_def)
qed

section \<open>V3 over two tables\<close>

lemma v3_divergence_eq:
  "v3_divergence plan s t b =
     (if ck_at s b = ck_at t b then []
      else [\<lparr>dv_locus = up_unit plan @ '':bucket:'' @ show_nat b, dv_columns = [],
             dv_detail = ''source count '' @ show_nat (unat (ck_count (ck_at s b))) @ '' sum '' @ show_nat (unat (ck_sum (ck_at s b))) @
               '', target count '' @ show_nat (unat (ck_count (ck_at t b))) @ '' sum '' @ show_nat (unat (ck_sum (ck_at t b))),
             dv_class = Unexplained\<rparr>])"
  by (auto simp: v3_divergence_def ck_at_def Let_def)

lemma v3_loci:
  "map dv_locus (concat (map (v3_divergence plan s t) bs)) =
     map (\<lambda>b. up_unit plan @ '':bucket:'' @ show_nat b) (filter (\<lambda>b. ck_at s b \<noteq> ck_at t b) bs)"
  by (induction bs) (simp_all add: v3_divergence_eq)

lemma v3_blocking: "blocking_count (concat (map (v3_divergence plan s t) bs)) = length (filter (\<lambda>b. ck_at s b \<noteq> ck_at t b) bs)"
  by (induction bs) (simp_all add: v3_divergence_eq blocking_count_def blocks_def)

lemma serves_bucket:
  assumes "serves sha r table pk cols rows" "0 < n" "n \<le> 2 ^ 32"
  shows "read_buckets r (bucket_checksum_query (er_dialect r) table pk cols n) = Inr (checksum_buckets sha rows n)"
    "read_buckets r (sub_bucket_checksum_query (er_dialect r) table pk cols m b n) =
       Inr (checksum_buckets sha (in_bucket sha m b rows) n)"
  using assms by (auto simp: serves_def intro!: read_checksums)

lemma serves_keys:
  assumes "serves sha r table pk cols rows"
  shows "er_query r (key_hash_query (er_dialect r) table pk cols m b) =
       Inr (map (key_row sha) (sort_key fst (in_bucket sha m b rows)))"
  using assms unfolding serves_def by blast

lemma serves_plan_queries:
  assumes "serves_plan sha plan src tgt S T"
  shows "0 < n \<Longrightarrow> n \<le> 2 ^ 32 \<Longrightarrow>
      read_buckets src (sub_query plan True src m b n) = Inr (checksum_buckets sha (in_bucket sha m b S) n)"
    "0 < n \<Longrightarrow> n \<le> 2 ^ 32 \<Longrightarrow>
      read_buckets tgt (sub_query plan False tgt m b n) = Inr (checksum_buckets sha (in_bucket sha m b T) n)"
    "er_query src (key_query plan True src m b) = Inr (map (key_row sha) (sort_key fst (in_bucket sha m b S)))"
    "er_query tgt (key_query plan False tgt m b) = Inr (map (key_row sha) (sort_key fst (in_bucket sha m b T)))"
proof -
  have src: "serves sha src (up_source_table plan) (up_source_pk plan) (plan_row plan (er_dialect src) (up_source_columns plan)) S"
    and tgt: "serves sha tgt (up_target_table plan) (up_target_pk plan) (plan_row plan (er_dialect tgt) (up_target_columns plan)) T"
    using assms by (simp_all only: serves_plan_def simp_thms)
  show "0 < n \<Longrightarrow> n \<le> 2 ^ 32 \<Longrightarrow>
      read_buckets src (sub_query plan True src m b n) = Inr (checksum_buckets sha (in_bucket sha m b S) n)"
    unfolding sub_query_def if_True by (rule serves_bucket(2) [OF src])
  show "0 < n \<Longrightarrow> n \<le> 2 ^ 32 \<Longrightarrow>
      read_buckets tgt (sub_query plan False tgt m b n) = Inr (checksum_buckets sha (in_bucket sha m b T) n)"
    unfolding sub_query_def if_False by (rule serves_bucket(2) [OF tgt])
  show "er_query src (key_query plan True src m b) = Inr (map (key_row sha) (sort_key fst (in_bucket sha m b S)))"
    unfolding key_query_def if_True by (rule serves_keys [OF src])
  show "er_query tgt (key_query plan False tgt m b) = Inr (map (key_row sha) (sort_key fst (in_bucket sha m b T)))"
    unfolding key_query_def if_False by (rule serves_keys [OF tgt])
qed

lemma length_in_bucket: "length (in_bucket sha n b rows) \<le> length rows"
  by (simp add: in_bucket_def)

lemma ck_of_eq:
  assumes "length S < 2 ^ 64" "length T < 2 ^ 64"
  shows "ck_of sha S = ck_of sha T \<longleftrightarrow> length S = length T \<and> hash_sum sha S = hash_sum sha T"
proof
  assume "ck_of sha S = ck_of sha T"
  then show "length S = length T \<and> hash_sum sha S = hash_sum sha T"
    using ck_exact [OF assms(1), of sha] ck_exact [OF assms(2), of sha] by simp
next
  assume "length S = length T \<and> hash_sum sha S = hash_sum sha T"
  then show "ck_of sha S = ck_of sha T" by (simp only: ck_of_def)
qed

text \<open>
  C36: V3 reports exactly the buckets in which the two tables differ in row count or hash sum, once
  each and in order, whatever rows the engines return first and whether or not they return empty
  buckets; so it passes exactly when no bucket differs, and equal tables always pass.
\<close>

theorem v3_exact:
  assumes "serves_plan sha plan src tgt S T"
  shows "\<exists>out. run_v3 plan src tgt = Inr out \<and>
    map dv_locus (to_divergences out) =
      map (\<lambda>b. up_unit plan @ '':bucket:'' @ show_nat b)
        (filter (\<lambda>b. length (in_bucket sha (up_buckets plan) b S) \<noteq> length (in_bucket sha (up_buckets plan) b T) \<or>
                    hash_sum sha (in_bucket sha (up_buckets plan) b S) \<noteq> hash_sum sha (in_bucket sha (up_buckets plan) b T))
          [0..<up_buckets plan]) \<and>
    (passed out \<longleftrightarrow> (\<forall>b < up_buckets plan.
        length (in_bucket sha (up_buckets plan) b S) = length (in_bucket sha (up_buckets plan) b T) \<and>
        hash_sum sha (in_bucket sha (up_buckets plan) b S) = hash_sum sha (in_bucket sha (up_buckets plan) b T))) \<and>
    (mset S = mset T \<longrightarrow> passed out)"
proof -
  let ?n = "up_buckets plan" and ?s = "checksum_buckets sha S (up_buckets plan)" and ?t = "checksum_buckets sha T (up_buckets plan)"
  have n: "0 < ?n" "?n \<le> 2 ^ 32" and len: "length S < 2 ^ 64" "length T < 2 ^ 64" using assms by (simp_all add: serves_plan_def)
  have src: "serves sha src (up_source_table plan) (up_source_pk plan) (plan_row plan (er_dialect src) (up_source_columns plan)) S"
    and tgt: "serves sha tgt (up_target_table plan) (up_target_pk plan) (plan_row plan (er_dialect tgt) (up_target_columns plan)) T"
    using assms by (simp_all add: serves_plan_def)
  define out where "out = \<lparr>to_tier = V3Checksums, to_source_path = er_label src, to_target_path = er_label tgt,
      to_divergences = concat (map (v3_divergence plan ?s ?t) (both_keys ?s ?t)), to_controls = []\<rparr>"
  have r: "run_v3 plan src tgt = Inr out"
    using serves_bucket(1) [OF src n] serves_bucket(1) [OF tgt n] by (simp add: run_v3_def out_def)
  have d: "diverges sha ?n b S T \<longleftrightarrow> length (in_bucket sha ?n b S) \<noteq> length (in_bucket sha ?n b T) \<or>
      hash_sum sha (in_bucket sha ?n b S) \<noteq> hash_sum sha (in_bucket sha ?n b T)" for b
    using ck_of_eq [OF le_less_trans [OF length_in_bucket len(1)] le_less_trans [OF length_in_bucket len(2)]]
    by (simp add: diverges_def)
  note f = differing_checksums [OF n(1), of sha S T]
  have "map dv_locus (to_divergences out) = map (\<lambda>b. up_unit plan @ '':bucket:'' @ show_nat b) (filter (\<lambda>b. diverges sha ?n b S T) [0..<?n])"
    by (simp only: out_def tier_outcome.select_convs v3_loci f)
  moreover have p: "passed out \<longleftrightarrow> (\<forall>b < ?n. \<not> diverges sha ?n b S T)"
    unfolding passed_def out_def tier_outcome.select_convs v3_blocking f
    by (auto simp: controls_all_fired_def filter_empty_conv)
  moreover have "mset S = mset T \<longrightarrow> passed out"
    unfolding p diverges_def using ck_of_mset [OF in_bucket_mset] by blast
  ultimately show ?thesis using r unfolding d by (intro exI [of _ out] conjI) (simp_all only: de_Morgan_disj not_not)
qed

section \<open>The search over two tables\<close>

text \<open>What \<open>bisect_loop\<close> computes when the engines answer from two tables.\<close>

definition diff_rows :: "(string \<Rightarrow> string) \<Rightarrow> row list \<Rightarrow> row list \<Rightarrow> key_diff list" where
  "diff_rows sha S T = diff_key_hashes (map (key_row sha) (sort_key fst S)) (map (key_row sha) (sort_key fst T))"

fun bisect_rows ::
  "(string \<Rightarrow> string) \<Rightarrow> bisect_policy \<Rightarrow> nat \<Rightarrow> nat \<Rightarrow> nat \<Rightarrow> row list \<Rightarrow> row list \<Rightarrow> bisect_error + key_diff list"
where
  "bisect_rows sha pol 0 n b S T = Inl (MaxRoundsExceeded (bp_max_rounds pol))"
| "bisect_rows sha pol (Suc left) n b S T =
     (if max (length (in_bucket sha n b S)) (length (in_bucket sha n b T)) \<le> bp_row_threshold pol
      then Inr (diff_rows sha (in_bucket sha n b S) (in_bucket sha n b T))
      else if 2 ^ 32 \<le> n * bp_fan_out pol then Inl (FanOutOverflow n)
      else case filter (\<lambda>b'. b' mod n = b \<and> diverges sha (n * bp_fan_out pol) b' S T) [0..<n * bp_fan_out pol] of
             [] \<Rightarrow> Inl (VanishedUnderRemeasurement b (bp_max_rounds pol - Suc left))
           | b' # _ \<Rightarrow> bisect_rows sha pol left (n * bp_fan_out pol) b' S T)"

lemma sub_diverges:
  "diverges sha (n * k) b' (in_bucket sha n b S) (in_bucket sha n b T) \<longleftrightarrow> b' mod n = b \<and> diverges sha (n * k) b' S T"
  by (cases "b' mod n = b") (simp_all add: diverges_def in_bucket_refine in_bucket_empty)

lemma same_bucket: "checksum_buckets sha (in_bucket sha n b rows) n =
    (if in_bucket sha n b rows = [] then [] else [(b, ck_of sha (in_bucket sha n b rows))])"
proof -
  have i: "in_bucket sha n c (in_bucket sha n b rows) = (if c = b then in_bucket sha n b rows else [])" for c
    by (auto simp: in_bucket_def filter_empty_conv)
  show ?thesis
    by (rule bt_sorted_eqI [OF checksum_sorted], simp add: bt_sorted_Cons,
        rule map_of_eqI_set [OF bt_sorted_distinct [OF checksum_sorted]])
      (auto simp: fun_eq_iff checksum_lookup i)
qed

lemma max_rows_eq:
  assumes "serves_plan sha plan src tgt S T" "0 < n" "n \<le> 2 ^ 32"
  shows "max_rows_in plan src tgt n b = Inr (max (length (in_bucket sha n b S)) (length (in_bucket sha n b T)))"
proof -
  have len: "length (in_bucket sha n b S) < 2 ^ 64" "length (in_bucket sha n b T) < 2 ^ 64"
    using assms(1) length_in_bucket [of sha n b S] length_in_bucket [of sha n b T] by (simp_all add: serves_plan_def)
  note q = serves_plan_queries(1,2) [OF assms]
  show ?thesis
    using q ck_exact(1) [OF len(1), of sha] ck_exact(1) [OF len(2), of sha] by (simp add: max_rows_in_def same_bucket max_def)
qed

lemma bisect_loop_eq:
  assumes "serves_plan sha plan src tgt S T" "0 < bp_fan_out pol" "0 < n" "n < 2 ^ 32"
  shows "bisect_loop plan src tgt pol left n b = bisect_rows sha pol left n b S T"
  using assms(3,4)
proof (induction left arbitrary: n b)
  case (Suc left)
  let ?fine = "n * bp_fan_out pol"
  have k: "fetch_keys plan src tgt n b = Inr (diff_rows sha (in_bucket sha n b S) (in_bucket sha n b T))"
    by (simp add: fetch_keys_def serves_plan_queries(3,4) [OF assms(1)] diff_rows_def)
  show ?case
  proof (cases "max (length (in_bucket sha n b S)) (length (in_bucket sha n b T)) \<le> bp_row_threshold pol \<or> 2 ^ 32 \<le> ?fine")
    case True
    then show ?thesis using max_rows_eq [OF assms(1) Suc.prems(1)] Suc.prems(2) k by auto
  next
    case False
    then have nt: "\<not> max (length (in_bucket sha n b S)) (length (in_bucket sha n b T)) \<le> bp_row_threshold pol" "\<not> 2 ^ 32 \<le> ?fine"
      by blast+
    have fine: "0 < ?fine" "?fine \<le> 2 ^ 32" "?fine < 2 ^ 32" using False Suc.prems(1) assms(2) by auto
    note s = serves_plan_queries(1,2) [OF assms(1) fine(1,2)]
    have d: "differing_buckets (checksum_buckets sha (in_bucket sha n b S) ?fine) (checksum_buckets sha (in_bucket sha n b T) ?fine) =
        filter (\<lambda>b'. b' mod n = b \<and> diverges sha ?fine b' S T) [0..<?fine]"
      using differing_checksums [OF fine(1), of sha "in_bucket sha n b S" "in_bucket sha n b T"]
      by (simp add: differing_buckets_def ck_at_def sub_diverges)
    show ?thesis
      unfolding bisect_loop.simps bisect_rows.simps max_rows_eq [OF assms(1) Suc.prems(1) less_imp_le [OF Suc.prems(2)]]
        sum.case if_not_P [OF nt(1)] if_not_P [OF nt(2)] Let_def s d Suc.IH [OF fine(1,3)] ..
  qed
qed simp

section \<open>The search never loses a divergence\<close>

lemma sum_if_member:
  fixes f :: "nat \<Rightarrow> nat"
  assumes "finite B"
  shows "(\<Sum>b\<in>B. if c = b then w + f b else f b) = (\<Sum>b\<in>B. f b) + (if c \<in> B then w else 0)"
proof -
  have "(\<Sum>b\<in>B. if c = b then w + f b else f b) = (\<Sum>b\<in>B. (if c = b then w else 0) + f b)"
    by (rule sum.cong) auto
  also have "\<dots> = (\<Sum>b\<in>B. if c = b then w else 0) + (\<Sum>b\<in>B. f b)" by (rule sum.distrib)
  finally show ?thesis using assms by (simp add: sum.delta)
qed

lemma split_bucket:
  fixes n k b :: nat
  assumes "0 < n * k"
  defines "B \<equiv> {b'. b' < n * k \<and> b' mod n = b}"
  shows "length (in_bucket sha n b rows) = (\<Sum>b'\<in>B. length (in_bucket sha (n * k) b' rows))"
    "hash_sum sha (in_bucket sha n b rows) = (\<Sum>b'\<in>B. hash_sum sha (in_bucket sha (n * k) b' rows))"
proof -
  have fin: "finite B" by (simp add: B_def)
  have mem: "bucket_of sha (fst r) (n * k) \<in> B \<longleftrightarrow> bucket_of sha (fst r) n = b" for r :: row
    using assms(1) bucket_of_refine [of sha "fst r" n k] by (simp add: B_def bucket_of_def)
  show "length (in_bucket sha n b rows) = (\<Sum>b'\<in>B. length (in_bucket sha (n * k) b' rows))"
  proof (induction rows)
    case (Cons r rows)
    then show ?case
      using sum_if_member [OF fin, of "bucket_of sha (fst r) (n * k)" 1 "\<lambda>b'. length (in_bucket sha (n * k) b' rows)"] mem [of r]
      by (simp add: if_distrib [of length] cong: if_cong)
  qed simp
  show "hash_sum sha (in_bucket sha n b rows) = (\<Sum>b'\<in>B. hash_sum sha (in_bucket sha (n * k) b' rows))"
  proof (induction rows)
    case (Cons r rows)
    then show ?case
      using sum_if_member [OF fin, of "bucket_of sha (fst r) (n * k)" "prefix60 (sha (snd r))" "\<lambda>b'. hash_sum sha (in_bucket sha (n * k) b' rows)"] mem [of r]
      by (simp add: if_distrib [of "hash_sum sha"] cong: if_cong)
  qed simp
qed

lemma diverges_descends:
  assumes "diverges sha n b S T" "0 < n * k"
  shows "\<exists>b' < n * k. b' mod n = b \<and> diverges sha (n * k) b' S T"
proof (rule ccontr)
  assume no: "\<not> (\<exists>b' < n * k. b' mod n = b \<and> diverges sha (n * k) b' S T)"
  let ?B = "{b'. b' < n * k \<and> b' mod n = b}"
  have eq: "ck_of sha (in_bucket sha (n * k) b' S) = ck_of sha (in_bucket sha (n * k) b' T)" if "b' \<in> ?B" for b'
    using no that by (auto simp: diverges_def)
  have l: "(word_of_nat (length (in_bucket sha n b R)) :: 64 word) = (\<Sum>b'\<in>?B. ck_count (ck_of sha (in_bucket sha (n * k) b' R)))"
    and h: "(word_of_nat (hash_sum sha (in_bucket sha n b R)) :: 128 word) = (\<Sum>b'\<in>?B. ck_sum (ck_of sha (in_bucket sha (n * k) b' R)))" for R
    unfolding split_bucket [OF assms(2), of sha b R] by (simp_all add: ck_of_def)
  have "ck_of sha (in_bucket sha n b S) = ck_of sha (in_bucket sha n b T)"
    unfolding ck_of_def [of sha "in_bucket sha n b S"] ck_of_def [of sha "in_bucket sha n b T"] l h using eq by simp
  then show False using assms(1) by (simp add: diverges_def)
qed

text \<open>How a result of the search comes about: it is the diff of one refined bucket that diverges.\<close>

definition refines :: "nat \<Rightarrow> nat \<Rightarrow> nat \<Rightarrow> nat \<Rightarrow> bool" where
  "refines n b n' b' \<longleftrightarrow> (\<exists>k. n' = n * k) \<and> b' mod n = b"

lemma refines_trans: "refines n b n1 b1 \<Longrightarrow> refines n1 b1 n2 b2 \<Longrightarrow> refines n b n2 b2"
  by (auto simp: refines_def mult.assoc mod_mod_cancel)

lemma bisect_rows_result:
  assumes "diverges sha n b S T" "b < n" "0 < bp_fan_out pol"
  shows "case bisect_rows sha pol left n b S T of
      Inr ds \<Rightarrow> \<exists>n' b'. refines n b n' b' \<and> diverges sha n' b' S T \<and>
        length (in_bucket sha n' b' S) \<le> bp_row_threshold pol \<and> length (in_bucket sha n' b' T) \<le> bp_row_threshold pol \<and>
        ds = diff_rows sha (in_bucket sha n' b' S) (in_bucket sha n' b' T)
    | Inl e \<Rightarrow> e = MaxRoundsExceeded (bp_max_rounds pol) \<or> (\<exists>m. e = FanOutOverflow m)"
  using assms(1,2)
proof (induction left arbitrary: n b)
  case (Suc left)
  let ?fine = "n * bp_fan_out pol"
  consider "max (length (in_bucket sha n b S)) (length (in_bucket sha n b T)) \<le> bp_row_threshold pol"
    | "\<not> max (length (in_bucket sha n b S)) (length (in_bucket sha n b T)) \<le> bp_row_threshold pol" "2 ^ 32 \<le> ?fine"
    | "\<not> max (length (in_bucket sha n b S)) (length (in_bucket sha n b T)) \<le> bp_row_threshold pol" "\<not> 2 ^ 32 \<le> ?fine"
    by blast
  then show ?case
  proof cases
    case 1
    have "refines n b n b" using Suc.prems(2) by (auto simp: refines_def intro: exI [of _ 1])
    with 1 Suc.prems(1) show ?thesis by auto
  next
    case 2
    then show ?thesis unfolding bisect_rows.simps if_not_P [OF 2(1)] by simp
  next
    case 3
    have fine: "0 < ?fine" using Suc.prems(2) assms(3) by simp
    let ?F = "filter (\<lambda>b'. b' mod n = b \<and> diverges sha ?fine b' S T) [0..<?fine]"
    have "?F \<noteq> []" using diverges_descends [OF Suc.prems(1) fine] by (auto simp: filter_empty_conv)
    then obtain b' bs where F: "?F = b' # bs" by (cases ?F) simp_all
    then have "b' \<in> set ?F" by simp
    then have b': "b' < ?fine" "b' mod n = b" "diverges sha ?fine b' S T" by simp_all
    have step: "bisect_rows sha pol (Suc left) n b S T = bisect_rows sha pol left ?fine b' S T"
      unfolding bisect_rows.simps if_not_P [OF 3(1)] if_not_P [OF 3(2)] F by simp
    have r: "refines n b ?fine b'" using b'(2) by (auto simp: refines_def)
    show ?thesis
      using Suc.IH [OF b'(3,1)] refines_trans [OF r] unfolding step by (auto split: sum.splits)
  qed
qed simp

section \<open>The diff of two key lists\<close>

abbreviation hashed :: "(string \<Rightarrow> string) \<Rightarrow> row list \<Rightarrow> (string \<times> string) list" where
  "hashed sha R \<equiv> map (\<lambda>r. (fst r, sha (snd r))) R"

lemma to_map_rows:
  "bt_sorted (to_map (map (key_row sha) R))"
  "map_of (to_map (map (key_row sha) R)) k = map_of (rev (hashed sha R)) k"
proof -
  have f: "filter (\<lambda>r. 2 \<le> length r) (map (key_row sha) R) = map (key_row sha) R" by (induction R) (simp_all add: key_row_def)
  have s: "bt_sorted (to_map (map (key_row sha) R)) \<and>
      map_of (to_map (map (key_row sha) R)) = map_of (rev (hashed sha R))"
    unfolding to_map_def f
  proof (induction R rule: rev_induct)
    case (snoc r R)
    then show ?case by (simp add: key_row_def map_of_bt_insert)
  qed simp
  then show "bt_sorted (to_map (map (key_row sha) R))" "map_of (to_map (map (key_row sha) R)) k = map_of (rev (hashed sha R)) k"
    by simp_all
qed

definition is_diff :: "(string \<Rightarrow> string) \<Rightarrow> row list \<Rightarrow> row list \<Rightarrow> key_diff \<Rightarrow> bool" where
  "is_diff sha S T d =
     (case d of
        SourceOnly k \<Rightarrow> k \<in> fst ` set S \<and> k \<notin> fst ` set T
      | TargetOnly k \<Rightarrow> k \<in> fst ` set T \<and> k \<notin> fst ` set S
      | HashDiffers k \<Rightarrow> \<exists>a b. (k, a) \<in> set S \<and> (k, b) \<in> set T \<and> sha a \<noteq> sha b)"

lemma lookup_hashed:
  assumes "distinct (map fst R)"
  shows "map_of (rev (hashed sha R)) k = Some h \<longleftrightarrow> (\<exists>a. (k, a) \<in> set R \<and> sha a = h)"
    "map_of (rev (hashed sha R)) k = None \<longleftrightarrow> k \<notin> fst ` set R"
proof -
  have "distinct (map fst (rev (hashed sha R)))" using assms by (simp add: comp_def rev_map [symmetric])
  from map_of_eq_Some_iff [OF this, of k h]
  show "map_of (rev (hashed sha R)) k = Some h \<longleftrightarrow> (\<exists>a. (k, a) \<in> set R \<and> sha a = h)" by force
  show "map_of (rev (hashed sha R)) k = None \<longleftrightarrow> k \<notin> fst ` set R" by (force simp: map_of_eq_None_iff)
qed

lemma set_map_filter_iff: "y \<in> set (List.map_filter f xs) \<longleftrightarrow> (\<exists>x \<in> set xs. f x = Some y)"
  by (induction xs) (auto split: option.splits)

lemma bt_member: "bt_sorted m \<Longrightarrow> (k, v) \<in> set m \<longleftrightarrow> map_of m k = Some v"
  using map_of_eq_Some_iff [OF bt_sorted_distinct, of m k v] by blast

lemma key_member: "k \<in> fst ` set (R :: ('a \<times> 'b) list) \<longleftrightarrow> (\<exists>a. (k, a) \<in> set R)"
  by force

lemma in_missing_keys:
  "bt_sorted s \<Longrightarrow> d \<in> set (missing_keys s t) \<longleftrightarrow>
     (\<exists>k a. map_of s k = Some a \<and>
        (map_of t k = None \<and> d = SourceOnly k \<or> (\<exists>b. map_of t k = Some b \<and> b \<noteq> a \<and> d = HashDiffers k)))"
proof -
  assume s: "bt_sorted s"
  have "(case map_of t k of None \<Rightarrow> Some (SourceOnly k) | Some th \<Rightarrow> if th \<noteq> a then Some (HashDiffers k) else None) = Some d \<longleftrightarrow>
      map_of t k = None \<and> d = SourceOnly k \<or> (\<exists>b. map_of t k = Some b \<and> b \<noteq> a \<and> d = HashDiffers k)" for k a
    by (cases "map_of t k") auto
  then show ?thesis
    unfolding missing_keys_def set_map_filter_iff Bex_def split_paired_Ex bt_member [OF s] prod.case by simp
qed

lemma in_extra_keys:
  "bt_sorted t \<Longrightarrow> d \<in> set (extra_keys s t) \<longleftrightarrow> (\<exists>k a. map_of t k = Some a \<and> map_of s k = None \<and> d = TargetOnly k)"
  unfolding extra_keys_def set_map_filter_iff Bex_def split_paired_Ex
  by (simp add: bt_member) blast

lemma set_diff_rows:
  assumes "distinct (map fst S)" "distinct (map fst T)"
  shows "set (diff_rows sha S T) = {d. is_diff sha S T d}"
proof (rule set_eqI)
  fix d
  define s where "s = to_map (map (key_row sha) (sort_key fst S))"
  define t where "t = to_map (map (key_row sha) (sort_key fst T))"
  have ds: "distinct (map fst (sort_key fst S))" "distinct (map fst (sort_key fst T))"
    using assms by (simp_all add: distinct_map)
  have s: "bt_sorted s" "map_of s k = Some h \<longleftrightarrow> (\<exists>a. (k, a) \<in> set S \<and> sha a = h)" "map_of s k = None \<longleftrightarrow> k \<notin> fst ` set S" for k h
    using to_map_rows [of sha "sort_key fst S"] lookup_hashed [OF ds(1), of sha k] by (simp_all add: s_def)
  have t: "bt_sorted t" "map_of t k = Some h \<longleftrightarrow> (\<exists>a. (k, a) \<in> set T \<and> sha a = h)" "map_of t k = None \<longleftrightarrow> k \<notin> fst ` set T" for k h
    using to_map_rows [of sha "sort_key fst T"] lookup_hashed [OF ds(2), of sha k] by (simp_all add: t_def)
  note u = in_missing_keys [OF s(1)] in_extra_keys [OF t(1)] s(2,3) t(2,3) is_diff_def key_member
  have "d \<in> set (diff_rows sha S T) \<longleftrightarrow> d \<in> set (missing_keys s t) \<or> d \<in> set (extra_keys s t)"
    by (simp add: diff_rows_def diff_key_hashes_def s_def t_def Let_def)
  also have "\<dots> \<longleftrightarrow> is_diff sha S T d"
  proof (cases d)
    case (SourceOnly k)
    then show ?thesis unfolding u by simp
  next
    case (TargetOnly k)
    then show ?thesis unfolding u by simp
  next
    case (HashDiffers k)
    have "(\<exists>k' h. (\<exists>a. (k', a) \<in> set S \<and> sha a = h) \<and> (\<exists>b. (\<exists>a. (k', a) \<in> set T \<and> sha a = b) \<and> b \<noteq> h \<and> k = k')) \<longleftrightarrow>
        (\<exists>a b. (k, a) \<in> set S \<and> (k, b) \<in> set T \<and> sha a \<noteq> sha b)" by metis
    with HashDiffers show ?thesis unfolding u by simp
  qed
  finally show "d \<in> set (diff_rows sha S T) \<longleftrightarrow> d \<in> {d. is_diff sha S T d}" by simp
qed

lemma sorted_diff_rows: "sorted (map kd_key (diff_rows sha S T))"
  by (simp add: diff_rows_def diff_key_hashes_def Let_def)

lemma no_diff:
  assumes "distinct (map fst S)" "distinct (map fst T)" "\<And>d. \<not> is_diff sha S T d"
  shows "ck_of sha S = ck_of sha T"
proof -
  have keys: "fst ` set S = fst ` set T"
  proof (rule set_eqI)
    fix k
    show "k \<in> fst ` set S \<longleftrightarrow> k \<in> fst ` set T"
      using assms(3) [of "SourceOnly k"] assms(3) [of "TargetOnly k"] by (auto simp only: is_diff_def key_diff.case)
  qed
  have hash: "sha a = sha b" if "(k, a) \<in> set S" "(k, b) \<in> set T" for k a b
    using assms(3) [of "HashDiffers k"] that by (auto simp: is_diff_def)
  have "set (hashed sha S) = set (hashed sha T)"
  proof (intro equalityI subsetI)
    fix p assume "p \<in> set (hashed sha S)"
    then obtain k a where p: "p = (k, sha a)" "(k, a) \<in> set S" by auto
    then obtain b where "(k, b) \<in> set T" using keys by force
    then show "p \<in> set (hashed sha T)" using hash [OF p(2)] p(1) by force
  next
    fix p assume "p \<in> set (hashed sha T)"
    then obtain k b where p: "p = (k, sha b)" "(k, b) \<in> set T" by auto
    then obtain a where "(k, a) \<in> set S" using keys by force
    then show "p \<in> set (hashed sha S)" using hash [OF _ p(2)] p(1) by force
  qed
  moreover have "distinct (hashed sha R)" if "distinct (map fst R)" for R
    using that by (auto simp: distinct_map inj_on_def)
  ultimately have m: "mset (hashed sha S) = mset (hashed sha T)"
    using assms(1,2) set_eq_iff_mset_eq_distinct by blast
  have h: "hash_sum sha R = sum_mset (image_mset (\<lambda>p. prefix60 (snd p)) (mset (hashed sha R)))" for R
    by (induction R) simp_all
  have "hash_sum sha S = hash_sum sha T" unfolding h m ..
  moreover have "length S = length T" using mset_eq_length [OF m] by simp
  ultimately show ?thesis by (simp only: ck_of_def)
qed

lemma is_diff_bucket:
  "is_diff sha (in_bucket sha n b S) (in_bucket sha n b T) d \<longleftrightarrow> is_diff sha S T d \<and> bucket_of sha (kd_key d) n = b"
proof -
  have m: "(k, a) \<in> set (in_bucket sha n b R) \<longleftrightarrow> (k, a) \<in> set R \<and> bucket_of sha k n = b" for k a R
    by (auto simp: in_bucket_def)
  show ?thesis unfolding is_diff_def key_member m by (cases d; simp only: key_diff.case kd_key.simps) blast+
qed

lemma distinct_in_bucket: "distinct (map fst R) \<Longrightarrow> distinct (map fst (in_bucket sha n b R))"
  by (simp add: in_bucket_def distinct_map_filter)

section \<open>Engines exist\<close>

lemma number_split:
  assumes "show_nat a @ c # s = show_nat b @ d # t" "\<not> is_digit c" "\<not> is_digit d"
  shows "a = b \<and> c = d \<and> s = t"
proof -
  have t: "takeWhile is_digit (show_nat n @ x # r) = show_nat n" if "\<not> is_digit x" for n x r
    using that show_nat_digits [of n] by (intro takeWhile_stop) (simp_all add: list_all_iff)
  have "show_nat a = show_nat b" using t [OF assms(2), of a s] t [OF assms(3), of b t] assms(1) by simp
  then show ?thesis using assms(1) by simp
qed

text \<open>The three query texts of a PostgreSQL engine whose key column is \<open>id\<close> determine their numbers.\<close>

abbreviation bq :: "string \<Rightarrow> string list \<Rightarrow> nat \<Rightarrow> string" where
  "bq table cols n \<equiv> bucket_checksum_query Postgres table ''id'' cols n"

abbreviation sbq :: "string \<Rightarrow> string list \<Rightarrow> nat \<Rightarrow> nat \<Rightarrow> nat \<Rightarrow> string" where
  "sbq table cols n b f \<equiv> sub_bucket_checksum_query Postgres table ''id'' cols n b f"

abbreviation khq :: "string \<Rightarrow> string list \<Rightarrow> nat \<Rightarrow> nat \<Rightarrow> string" where
  "khq table cols n b \<equiv> key_hash_query Postgres table ''id'' cols n b"

definition id_prefix :: string where
  "id_prefix = prefix60_expr Postgres (hash_hex_expr Postgres ''id'')"

definition sum_text :: "string \<Rightarrow> string list \<Rightarrow> string" where
  "sum_text table cols = ''AS bucket, count(*) AS row_count, '' @ exact_sum Postgres (prefix60_expr Postgres (row_hash_expr Postgres cols)) @
     '' AS hash_sum FROM '' @ table @ '' ''"

lemma query_texts:
  "bq table cols n = ''SELECT '' @ id_prefix @ '' % '' @ show_nat n @ '' '' @ sum_text table cols @ ''GROUP BY bucket ORDER BY bucket''"
  "sbq table cols n b f = ''SELECT '' @ id_prefix @ '' % '' @ show_nat f @ '' '' @ sum_text table cols @ ''WHERE '' @ id_prefix @
     '' % '' @ show_nat n @ '' = '' @ show_nat b @ '' GROUP BY bucket ORDER BY bucket''"
  "khq table cols n b = ''SELECT id AS pk, '' @ row_hash_expr Postgres cols @ '' AS row_hash FROM '' @ table @ '' WHERE '' @ id_prefix @
     '' % '' @ show_nat n @ '' = '' @ show_nat b @ '' ORDER BY pk''"
  by (simp_all add: bucket_checksum_query_def sub_bucket_checksum_query_def key_hash_query_def id_prefix_def sum_text_def
    modulo_def bucket_expr_def group_and_order_def Let_def)

lemma id_prefix_start: "\<exists>r. id_prefix = CHR ''('' # r"
  by (simp add: id_prefix_def prefix60_expr_def)

lemma not_digit_simps: "\<not> is_digit (CHR '' '')"
  by (simp add: is_digit_def)

lemma bq_inj: "bq table cols n = bq table cols n' \<longleftrightarrow> n = n'"
proof
  assume "bq table cols n = bq table cols n'"
  then have "show_nat n @ CHR '' '' # sum_text table cols @ ''GROUP BY bucket ORDER BY bucket'' =
      show_nat n' @ CHR '' '' # sum_text table cols @ ''GROUP BY bucket ORDER BY bucket''"
    by (simp add: query_texts)
  then show "n = n'" using number_split not_digit_simps by blast
qed simp

lemma where_inj:
  assumes "show_nat n @ '' = '' @ show_nat b = show_nat n' @ '' = '' @ show_nat b'"
  shows "n = n' \<and> b = b'"
proof -
  have "show_nat n @ CHR '' '' # (''= '' @ show_nat b) = show_nat n' @ CHR '' '' # (''= '' @ show_nat b')"
    using assms by simp
  from number_split [OF this not_digit_simps not_digit_simps] show ?thesis by simp
qed

lemma sbq_inj: "sbq table cols n b f = sbq table cols n' b' f' \<longleftrightarrow> n = n' \<and> b = b' \<and> f = f'"
proof
  assume e: "sbq table cols n b f = sbq table cols n' b' f'"
  let ?w = "\<lambda>n b. sum_text table cols @ ''WHERE '' @ id_prefix @ '' % '' @ show_nat n @ '' = '' @ show_nat b @
      '' GROUP BY bucket ORDER BY bucket''"
  have "show_nat f @ CHR '' '' # ?w n b = show_nat f' @ CHR '' '' # ?w n' b'" using e by (simp add: query_texts)
  from number_split [OF this not_digit_simps not_digit_simps] have f: "f = f'" "?w n b = ?w n' b'" by simp_all
  have "n = n' \<and> b = b'" by (rule where_inj) (use f(2) in simp)
  with f show "n = n' \<and> b = b' \<and> f = f'" by simp
qed simp

lemma khq_inj: "khq table cols n b = khq table cols n' b' \<longleftrightarrow> n = n' \<and> b = b'"
proof
  assume "khq table cols n b = khq table cols n' b'"
  then show "n = n' \<and> b = b'" by (intro where_inj) (simp add: query_texts)
qed simp

lemma queries_differ: "bq table cols n \<noteq> sbq table cols n' b f" "bq table cols n \<noteq> khq table cols n' b" "sbq table cols n b f \<noteq> khq table cols n' b'"
proof -
  show "bq table cols n \<noteq> sbq table cols n' b f"
  proof
    assume e: "bq table cols n = sbq table cols n' b f"
    let ?g = "sum_text table cols @ ''GROUP BY bucket ORDER BY bucket''"
    let ?w = "sum_text table cols @ ''WHERE '' @ id_prefix @ '' % '' @ show_nat n' @ '' = '' @ show_nat b @ '' GROUP BY bucket ORDER BY bucket''"
    have "show_nat n @ CHR '' '' # ?g = show_nat f @ CHR '' '' # ?w" using e by (simp add: query_texts)
    from number_split [OF this not_digit_simps not_digit_simps] show False by simp
  qed
  obtain r where r: "id_prefix = CHR ''('' # r" using id_prefix_start by blast
  show "bq table cols n \<noteq> khq table cols n' b" "sbq table cols n b f \<noteq> khq table cols n' b'"
    by (simp_all add: query_texts r)
qed

lemma engine_exists: "\<exists>r. er_dialect r = Postgres \<and> er_label r = l \<and> serves sha r table ''id'' cols rows"
proof -
  let ?q = "\<lambda>sql. if \<exists>n. sql = bq table cols n
      then Inr (map checksum_row (checksum_buckets sha rows (THE n. sql = bq table cols n)))
      else if \<exists>x. sql = sbq table cols (fst x) (fst (snd x)) (snd (snd x))
      then (case THE x. sql = sbq table cols (fst x) (fst (snd x)) (snd (snd x)) of
              (n, b, f) \<Rightarrow> Inr (map checksum_row (checksum_buckets sha (in_bucket sha n b rows) f)))
      else if \<exists>x. sql = khq table cols (fst x) (snd x)
      then (case THE x. sql = khq table cols (fst x) (snd x) of
              (n, b) \<Rightarrow> Inr (map (key_row sha) (sort_key fst (in_bucket sha n b rows))))
      else Inl (ReadQuery l sql)"
  have b: "?q (bq table cols n) = Inr (map checksum_row (checksum_buckets sha rows n))" for n
    by (simp add: bq_inj)
  have s: "?q (sbq table cols n b f) = Inr (map checksum_row (checksum_buckets sha (in_bucket sha n b rows) f))" for n b f
  proof -
    have "(THE x. sbq table cols n b f = sbq table cols (fst x) (fst (snd x)) (snd (snd x))) = (n, b, f)"
      by (rule the_equality) (auto simp: sbq_inj)
    moreover have "\<not> (\<exists>m. sbq table cols n b f = bq table cols m)" using queries_differ(1) [symmetric] by blast
    moreover have "\<exists>x. sbq table cols n b f = sbq table cols (fst x) (fst (snd x)) (snd (snd x))"
      by (rule exI [of _ "(n, b, f)"]) simp
    ultimately show ?thesis by (simp only: if_True if_False prod.case)
  qed
  have k: "?q (khq table cols n b) = Inr (map (key_row sha) (sort_key fst (in_bucket sha n b rows)))" for n b
  proof -
    have "(THE x. khq table cols n b = khq table cols (fst x) (snd x)) = (n, b)"
      by (rule the_equality) (auto simp: khq_inj)
    moreover have "\<not> (\<exists>m. khq table cols n b = bq table cols m)"
      "\<not> (\<exists>x. khq table cols n b = sbq table cols (fst x) (fst (snd x)) (snd (snd x)))"
      using queries_differ(2,3) [symmetric] by blast+
    moreover have "\<exists>x. khq table cols n b = khq table cols (fst x) (snd x)"
      by (rule exI [of _ "(n, b)"]) simp
    ultimately show ?thesis by (simp only: if_True if_False prod.case)
  qed
  show ?thesis
    by (rule exI [of _ "\<lparr>er_dialect = Postgres, er_label = l, er_query = ?q\<rparr>"])
      (unfold serves_def engine_reader.select_convs, intro conjI refl allI b s k)
qed

section \<open>What V4 reports\<close>

text \<open>
  C35: Over a fixed snapshot with unique keys, the search from a failed bucket never loses the
  divergence on the way and never fails on a read: it ends with at least one key, every key it
  reports really is missing, extra or different and belongs to the failed bucket, in key order; if
  the bucket is small enough to be fetched at once, it reports all of them.  The only other ends are
  the round limit and an overflow of the bucket count, both reported as errors.
\<close>

theorem bisect_isolates:
  assumes "serves_plan sha plan src tgt S T" and "distinct (map fst S)" and "distinct (map fst T)"
    and "0 < bp_fan_out pol" and "b < up_buckets plan" and "diverges sha (up_buckets plan) b S T"
  shows "case bisect_bucket plan src tgt b pol of
      Inr ds \<Rightarrow> ds \<noteq> [] \<and> sorted (map kd_key ds) \<and>
        (\<forall>d \<in> set ds. is_diff sha S T d \<and> bucket_of sha (kd_key d) (up_buckets plan) = b) \<and>
        (length (in_bucket sha (up_buckets plan) b S) \<le> bp_row_threshold pol \<and>
         length (in_bucket sha (up_buckets plan) b T) \<le> bp_row_threshold pol \<longrightarrow>
           set ds = {d. is_diff sha S T d \<and> bucket_of sha (kd_key d) (up_buckets plan) = b})
    | Inl e \<Rightarrow> e = MaxRoundsExceeded (bp_max_rounds pol) \<or> (\<exists>m. e = FanOutOverflow m)"
proof -
  let ?n = "up_buckets plan"
  have n: "0 < ?n" "?n < 2 ^ 32" using assms(1) by (simp_all add: serves_plan_def)
  have loop: "bisect_bucket plan src tgt b pol = bisect_rows sha pol (bp_max_rounds pol) ?n b S T"
    unfolding bisect_bucket_def by (rule bisect_loop_eq [OF assms(1,4) n])
  have dr: "set (diff_rows sha (in_bucket sha n' b' S) (in_bucket sha n' b' T)) =
      {d. is_diff sha S T d \<and> bucket_of sha (kd_key d) n' = b'}" for n' b'
    by (simp add: set_diff_rows distinct_in_bucket assms(2,3) is_diff_bucket)
  show ?thesis
  proof (cases "bisect_rows sha pol (bp_max_rounds pol) ?n b S T")
    case (Inl e)
    then show ?thesis using bisect_rows_result [OF assms(6,5,4), of "bp_max_rounds pol"] by (simp add: loop)
  next
    case (Inr ds)
    then obtain n' b' where nb: "refines ?n b n' b'" "diverges sha n' b' S T"
      and ds: "ds = diff_rows sha (in_bucket sha n' b' S) (in_bucket sha n' b' T)"
      using bisect_rows_result [OF assms(6,5,4), of "bp_max_rounds pol"] by auto
    have 1: "ds \<noteq> []"
    proof
      assume "ds = []"
      then have "set (diff_rows sha (in_bucket sha n' b' S) (in_bucket sha n' b' T)) = {}" by (simp add: ds)
      then have "\<not> is_diff sha (in_bucket sha n' b' S) (in_bucket sha n' b' T) d" for d
        unfolding dr by (simp add: is_diff_bucket)
      then show False
        using no_diff [OF distinct_in_bucket [OF assms(2)] distinct_in_bucket [OF assms(3)]] nb(2) by (simp add: diverges_def)
    qed
    have 2: "bucket_of sha (kd_key d) ?n = b" if "d \<in> set ds" for d
    proof -
      obtain k where k: "n' = ?n * k" "b' mod ?n = b" using nb(1) unfolding refines_def by blast
      have "bucket_of sha (kd_key d) n' = b'" using that unfolding ds dr by blast
      then show ?thesis using bucket_of_refine [of sha "kd_key d" ?n k] k by metis
    qed
    have 3: "is_diff sha S T d" if "d \<in> set ds" for d using that unfolding ds dr by simp
    have 4: "set ds = {d. is_diff sha S T d \<and> bucket_of sha (kd_key d) ?n = b}"
      if "length (in_bucket sha ?n b S) \<le> bp_row_threshold pol" "length (in_bucket sha ?n b T) \<le> bp_row_threshold pol"
    proof -
      have "ds = diff_rows sha (in_bucket sha ?n b S) (in_bucket sha ?n b T)"
        using Inr that by (cases "bp_max_rounds pol") simp_all
      then show ?thesis by (simp only: dr)
    qed
    have 5: "sorted (map kd_key ds)" unfolding ds by (rule sorted_diff_rows)
    show ?thesis unfolding loop Inr sum.case by (intro conjI ballI impI 1 2 3 5 4) simp_all
  qed
qed

definition demo_plan :: "nat \<Rightarrow> unit_plan" where
  "demo_plan n = \<lparr>up_unit = ''orders'', up_source_table = ''s'', up_target_table = ''t'', up_source_pk = ''id'', up_target_pk = ''id'',
     up_source_columns = [''id''], up_target_columns = [''id''], up_buckets = n, up_digest_columns = False\<rparr>"

lemma demo_serves:
  assumes "0 < n" "n < 2 ^ 32" "length S < 2 ^ 64" "length T < 2 ^ 64"
  obtains src tgt where "serves_plan sha (demo_plan n) src tgt S T"
proof -
  obtain src where "er_dialect src = Postgres" "serves sha src ''s'' ''id'' [''id''] S" using engine_exists by blast
  moreover obtain tgt where "er_dialect tgt = Postgres" "serves sha tgt ''t'' ''id'' [''id''] T" using engine_exists by blast
  ultimately have "serves_plan sha (demo_plan n) src tgt S T" using assms by (simp add: serves_plan_def demo_plan_def plan_row_def)
  then show thesis by (rule that)
qed

lemma demo_buckets: "bucket_of (\<lambda>s. s) ''1'' n = 1 mod n" "bucket_of (\<lambda>s. s) ''2'' n = 2 mod n"
  by (simp_all add: bucket_of_def prefix60_def hex_value_def)

lemma v3_exact_witness:
  "\<exists>src tgt out. run_v3 (demo_plan 4) src tgt = Inr out \<and> map dv_locus (to_divergences out) = [''orders:bucket:2''] \<and> \<not> passed out"
proof -
  obtain src tgt where "serves_plan (\<lambda>s. s) (demo_plan 4) src tgt [(''1'', ''a''), (''2'', ''b'')] [(''1'', ''a'')]"
    by (rule demo_serves [of 4 "[(''1'', ''a''), (''2'', ''b'')]" "[(''1'', ''a'')]"]) simp_all
  from v3_exact [OF this] obtain out where o1: "run_v3 (demo_plan 4) src tgt = Inr out"
    and o2: "map dv_locus (to_divergences out) =
      map (\<lambda>b. up_unit (demo_plan 4) @ '':bucket:'' @ show_nat b)
        (filter (\<lambda>b. length (in_bucket (\<lambda>s. s) (up_buckets (demo_plan 4)) b [(''1'', ''a''), (''2'', ''b'')]) \<noteq>
                      length (in_bucket (\<lambda>s. s) (up_buckets (demo_plan 4)) b [(''1'', ''a'')]) \<or>
                    hash_sum (\<lambda>s. s) (in_bucket (\<lambda>s. s) (up_buckets (demo_plan 4)) b [(''1'', ''a''), (''2'', ''b'')]) \<noteq>
                      hash_sum (\<lambda>s. s) (in_bucket (\<lambda>s. s) (up_buckets (demo_plan 4)) b [(''1'', ''a'')]))
          [0..<up_buckets (demo_plan 4)])"
    and o3: "passed out \<longleftrightarrow> (\<forall>b < up_buckets (demo_plan 4).
        length (in_bucket (\<lambda>s. s) (up_buckets (demo_plan 4)) b [(''1'', ''a''), (''2'', ''b'')]) =
          length (in_bucket (\<lambda>s. s) (up_buckets (demo_plan 4)) b [(''1'', ''a'')]) \<and>
        hash_sum (\<lambda>s. s) (in_bucket (\<lambda>s. s) (up_buckets (demo_plan 4)) b [(''1'', ''a''), (''2'', ''b'')]) =
          hash_sum (\<lambda>s. s) (in_bucket (\<lambda>s. s) (up_buckets (demo_plan 4)) b [(''1'', ''a'')]))" by blast
  have u: "[0..<4] = [0, 1, 2, 3 :: nat]" by (simp add: upt_rec)
  have "show_nat 2 = ''2''" by code_simp
  then have "map dv_locus (to_divergences out) = [''orders:bucket:2'']"
    using o2 by (simp add: demo_plan_def demo_buckets u)
  moreover have "\<not> passed out" unfolding o3 by (auto simp: demo_plan_def demo_buckets intro!: exI [of _ 2])
  ultimately show ?thesis using o1 by (intro exI conjI)
qed

lemma numeral_8: "(8 :: nat) = Suc 7"
  by simp

lemma bucket_one [simp]: "bucket_of sha k (Suc 0) = 0"
  by (simp add: bucket_of_def)

lemma bisect_isolates_witness:
  "\<exists>src tgt ds. bisect_bucket (demo_plan 1) src tgt 0 default_policy = Inr ds \<and> set ds = {SourceOnly ''2''}"
proof -
  let ?S = "[(''1'', ''a''), (''2'', ''b'')]" and ?T = "[(''1'', ''a'')]"
  obtain src tgt where s: "serves_plan (\<lambda>s. s) (demo_plan 1) src tgt ?S ?T"
    by (rule demo_serves [of 1 ?S ?T]) simp_all
  have d: "diverges (\<lambda>s. s) (up_buckets (demo_plan 1)) 0 ?S ?T"
    by (simp add: diverges_def demo_plan_def ck_of_def)
  have i: "is_diff (\<lambda>s. s) ?S ?T d \<longleftrightarrow> d = SourceOnly ''2''" for d by (cases d) (auto simp: is_diff_def)
  have l: "bisect_bucket (demo_plan 1) src tgt 0 default_policy = bisect_rows (\<lambda>s. s) default_policy 8 1 0 ?S ?T"
    using bisect_loop_eq [OF s, of default_policy 1 8 0] by (simp add: bisect_bucket_def default_policy_def demo_plan_def)
  have "\<exists>ds. bisect_rows (\<lambda>s. s) default_policy 8 1 0 ?S ?T = Inr ds"
    by (subst numeral_8, subst bisect_rows.simps(2)) (simp add: default_policy_def)
  then obtain ds where ds: "bisect_bucket (demo_plan 1) src tgt 0 default_policy = Inr ds" unfolding l by blast
  have p: "distinct (map fst ?S)" "distinct (map fst ?T)" "0 < bp_fan_out default_policy" "0 < up_buckets (demo_plan 1)"
    by (simp_all add: default_policy_def demo_plan_def)
  have t: "length (in_bucket (\<lambda>s. s) n 0 ?S) \<le> bp_row_threshold default_policy"
    "length (in_bucket (\<lambda>s. s) n 0 ?T) \<le> bp_row_threshold default_policy" for n
    using length_in_bucket [of "\<lambda>s. s" n 0 ?S] length_in_bucket [of "\<lambda>s. s" n 0 ?T] by (simp_all add: default_policy_def)
  have "set ds = {d. is_diff (\<lambda>s. s) ?S ?T d \<and> bucket_of (\<lambda>s. s) (kd_key d) (up_buckets (demo_plan 1)) = 0}"
    using bisect_isolates [OF s p d, unfolded ds sum.case] t by blast
  also have "\<dots> = {SourceOnly ''2''}" unfolding i by (auto simp: demo_plan_def)
  finally show ?thesis using ds by blast
qed

text \<open>
  Two shortcomings.  The search descends into the first differing sub-bucket only, so when a bucket
  is split, keys in the other sub-buckets are never reported.
\<close>

lemma bisect_misses_keys:
  "\<exists>src tgt. serves_plan (\<lambda>s. s) (demo_plan 1) src tgt [(''1'', ''a''), (''2'', ''b'')] [] \<and>
     is_diff (\<lambda>s. s) [(''1'', ''a''), (''2'', ''b'')] [] (SourceOnly ''1'') \<and>
     bisect_bucket (demo_plan 1) src tgt 0 \<lparr>bp_fan_out = 2, bp_row_threshold = 1, bp_max_rounds = 8\<rparr> = Inr [SourceOnly ''2'']"
proof -
  let ?S = "[(''1'', ''a''), (''2'', ''b'')]" and ?pol = "\<lparr>bp_fan_out = 2, bp_row_threshold = 1, bp_max_rounds = 8\<rparr>"
  obtain src tgt where s: "serves_plan (\<lambda>s. s) (demo_plan 1) src tgt ?S []" by (rule demo_serves [of 1 ?S "[]"]) simp_all
  have b2: "bucket_of (\<lambda>s. s) ''1'' 2 = 1" "bucket_of (\<lambda>s. s) ''2'' 2 = 0" by (simp_all add: demo_buckets)
  have "diverges (\<lambda>s. s) 2 0 ?S []" by (simp add: diverges_def b2 ck_of_def ck_zero_def)
  then have f: "filter (\<lambda>b'. b' mod 1 = 0 \<and> diverges (\<lambda>s. s) 2 b' ?S []) [0..<2] =
      0 # filter (\<lambda>b'. b' mod 1 = 0 \<and> diverges (\<lambda>s. s) 2 b' ?S []) [1..<2]" by (simp add: upt_rec)
  have d: "diff_rows (\<lambda>s. s) [(''2'', ''b'')] [] = [SourceOnly ''2'']"
    by (simp add: diff_rows_def diff_key_hashes_def missing_keys_def extra_keys_def to_map_def key_row_def List.map_filter_def)
  have "bisect_rows (\<lambda>s. s) ?pol (Suc 7) 1 0 ?S [] = bisect_rows (\<lambda>s. s) ?pol 7 2 0 ?S []"
    using f by (subst bisect_rows.simps(2)) simp
  moreover have "bisect_rows (\<lambda>s. s) ?pol (Suc 6) 2 0 ?S [] = Inr [SourceOnly ''2'']"
    by (subst bisect_rows.simps(2)) (simp add: b2 d)
  ultimately have "bisect_rows (\<lambda>s. s) ?pol 8 1 0 ?S [] = Inr [SourceOnly ''2'']" by simp
  then have "bisect_bucket (demo_plan 1) src tgt 0 ?pol = Inr [SourceOnly ''2'']"
    using bisect_loop_eq [OF s, of ?pol 1 8 0] by (simp add: bisect_bucket_def demo_plan_def)
  moreover have "is_diff (\<lambda>s. s) ?S [] (SourceOnly ''1'')" by (simp add: is_diff_def)
  ultimately show ?thesis using s by blast
qed

text \<open>And a row that was loaded twice, which V3 catches by its count, leaves no trace in V4.\<close>

lemma v4_blind_to_duplicates:
  "diverges sha n (bucket_of sha k n) [(k, v)] [(k, v), (k, v)] \<and> diff_rows sha [(k, v)] [(k, v), (k, v)] = []"
proof
  show "diverges sha n (bucket_of sha k n) [(k, v)] [(k, v), (k, v)]" by (simp add: diverges_def ck_of_def)
  show "diff_rows sha [(k, v)] [(k, v), (k, v)] = []"
    by (simp add: diff_rows_def diff_key_hashes_def missing_keys_def extra_keys_def to_map_def key_row_def List.map_filter_def)
qed

end
