(* ===== verification/Read_Scope.thy ===== *)
theory Read_Scope
  imports Knowledge_Store
begin

text \<open>
  Read scopes, \<open>ledger/src/scope.rs\<close>: the rules that say what one reader may see, and the store
  wrapper that filters every read by them.  The \<open>glob\<close> crate is a parameter, the compiler of a
  pattern (\<open>mk\<close>) and the match of a compiled pattern against a path (\<open>gm\<close>); so is the JSON text of a
  scope.  The wrapper keeps its decisions in a cache that only a change of scopes or a refresh
  empties; one call runs at a time.
\<close>

section \<open>Rules and scopes\<close>

datatype effect = Allow | Deny

record rule =
  ru_effect :: effect
  ru_source :: "string option"
  ru_path :: "string option"
  ru_object :: "kir_id option"

record read_scope =
  rs_default :: effect
  rs_rules :: "rule list"

datatype scope_error = ScopeParse string | ScopeRule nat string

definition unrestricted :: read_scope where
  "unrestricted = \<lparr>rs_default = Allow, rs_rules = []\<rparr>"

definition is_unrestricted :: "read_scope \<Rightarrow> bool" where
  "is_unrestricted sc \<longleftrightarrow> rs_default sc = Allow \<and> list_all (\<lambda>r. ru_effect r = Allow) (rs_rules sc)"

record origin =
  or_source :: "string option"
  or_path :: "string option"

record 'g compiled_rule =
  cr_effect :: effect
  cr_source :: "string option"
  cr_path :: "'g option"
  cr_object :: "kir_id option"

record 'g compiled =
  co_default :: effect
  co_rules :: "'g compiled_rule list"
  co_has_path_rules :: bool

text \<open>Forward slashes, no leading \<open>./\<close>.\<close>

definition normalize :: "string \<Rightarrow> string" where
  "normalize p =
     (let q = map (\<lambda>c. if c = CHR 0x5C then CHR ''/'' else c) p
      in if starts_with q ''./'' then drop 2 q else q)"

definition compile_rule :: "(string \<Rightarrow> string + 'g) \<Rightarrow> nat \<Rightarrow> rule \<Rightarrow> scope_error + 'g compiled_rule" where
  "compile_rule mk i r =
     (if ru_object r \<noteq> None \<and> (ru_source r \<noteq> None \<or> ru_path r \<noteq> None)
      then Inl (ScopeRule i ''a rule names an object, or a source and path, not both'')
      else if ru_source r = Some [] \<or> ru_path r = Some []
      then Inl (ScopeRule i ''an empty source or path; leave the field out instead'')
      else (case ru_path r of
              None \<Rightarrow> Inr \<lparr>cr_effect = ru_effect r, cr_source = ru_source r, cr_path = None, cr_object = ru_object r\<rparr>
            | Some p \<Rightarrow>
                (case mk (normalize p) of
                   Inl e \<Rightarrow> Inl (ScopeRule i (''path pattern: '' @ e))
                 | Inr g \<Rightarrow>
                     Inr \<lparr>cr_effect = ru_effect r, cr_source = ru_source r, cr_path = Some g, cr_object = ru_object r\<rparr>)))"

definition compiled_new :: "(string \<Rightarrow> string + 'g) \<Rightarrow> read_scope \<Rightarrow> scope_error + 'g compiled" where
  "compiled_new mk sc =
     (case map_res (\<lambda>(i, r). compile_rule mk i r) (enumerate 0 (rs_rules sc)) of
        Inl e \<Rightarrow> Inl e
      | Inr rules \<Rightarrow>
          Inr \<lparr>co_default = rs_default sc, co_rules = rules,
               co_has_path_rules = list_ex (\<lambda>r. cr_path r \<noteq> None) rules\<rparr>)"

definition scope_from_json ::
  "(string \<Rightarrow> string + read_scope) \<Rightarrow> (string \<Rightarrow> string + 'g) \<Rightarrow> string \<Rightarrow> scope_error + read_scope" where
  "scope_from_json parse mk text =
     (case parse text of
        Inl e \<Rightarrow> Inl (ScopeParse e)
      | Inr sc \<Rightarrow> (case compiled_new mk sc of Inl e \<Rightarrow> Inl e | Inr _ \<Rightarrow> Inr sc))"

definition compiled_is_unrestricted :: "'g compiled \<Rightarrow> bool" where
  "compiled_is_unrestricted c \<longleftrightarrow> co_default c = Allow \<and> list_all (\<lambda>r. cr_effect r = Allow) (co_rules c)"

section \<open>The decision for one object\<close>

definition strip_prefix :: "string \<Rightarrow> string \<Rightarrow> string option" where
  "strip_prefix s p = (if starts_with s p then Some (drop (length p) s) else None)"

definition path_matches :: "('g \<Rightarrow> string \<Rightarrow> bool) \<Rightarrow> 'g \<Rightarrow> origin \<Rightarrow> string \<Rightarrow> bool" where
  "path_matches gm pattern orig path =
     (if gm pattern path then True
      else (case Option.bind (Option.bind (or_source orig) (strip_prefix path)) (\<lambda>rest. strip_prefix rest ''/'') of
              None \<Rightarrow> False
            | Some rest \<Rightarrow> gm pattern rest))"

definition rule_denies :: "('g \<Rightarrow> string \<Rightarrow> bool) \<Rightarrow> 'g compiled_rule \<Rightarrow> origin \<Rightarrow> bool" where
  "rule_denies gm r orig =
     (case (cr_source r, or_source orig) of
        (Some wanted, Some actual) \<Rightarrow>
          if wanted \<noteq> actual then False
          else (case (cr_path r, or_path orig) of
                  (None, _) \<Rightarrow> True | (Some _, None) \<Rightarrow> True | (Some p, Some path) \<Rightarrow> path_matches gm p orig path)
      | _ \<Rightarrow>
          (case (cr_path r, or_path orig) of
             (None, _) \<Rightarrow> True | (Some _, None) \<Rightarrow> True | (Some p, Some path) \<Rightarrow> path_matches gm p orig path))"

definition rule_allows :: "('g \<Rightarrow> string \<Rightarrow> bool) \<Rightarrow> 'g compiled_rule \<Rightarrow> origin \<Rightarrow> bool" where
  "rule_allows gm r orig =
     (if cr_source r \<noteq> None \<and> or_source orig \<noteq> cr_source r then False
      else (case (cr_path r, or_path orig) of
              (None, _) \<Rightarrow> True | (Some _, None) \<Rightarrow> False | (Some p, Some path) \<Rightarrow> path_matches gm p orig path))"

definition visible :: "('g \<Rightarrow> string \<Rightarrow> bool) \<Rightarrow> 'g compiled \<Rightarrow> kir_id \<Rightarrow> origin list \<Rightarrow> bool" where
  "visible gm c i origs =
     (let named = (\<lambda>r. cr_object r = Some i);
          denied = list_ex (\<lambda>r. if cr_object r \<noteq> None then named r else list_ex (rule_denies gm r) origs)
                     (filter (\<lambda>r. cr_effect r = Deny) (co_rules c));
          allow = filter (\<lambda>r. cr_effect r = Allow) (co_rules c)
      in if denied then False
         else if co_default c = Allow then True
         else if list_ex named allow then True
         else origs \<noteq> [] \<and>
              list_all (\<lambda>orig. list_ex (\<lambda>r. cr_object r = None \<and> rule_allows gm r orig) allow) origs)"

definition sources_of :: "'n kir_object \<Rightarrow> string list" where
  "sources_of ob =
     (let out = (case Option.bind (map_of (ko_properties ob) ''sources'') as_array of
                   None \<Rightarrow> [] | Some a \<Rightarrow> List.map_filter as_str a);
          out = (if out = []
                 then (case Option.bind (map_of (ko_properties ob) ''source'') as_str of None \<Rightarrow> [] | Some one \<Rightarrow> [one])
                 else out)
      in remdups_adj (sort out))"

definition origins :: "string list \<Rightarrow> string list \<Rightarrow> origin list" where
  "origins sources paths =
     (let ss = (if sources = [] then [None] else map Some sources);
          ps = (if paths = [] then [None] else map (\<lambda>p. Some (normalize p)) paths)
      in concat (map (\<lambda>s. map (\<lambda>p. \<lparr>or_source = s, or_path = p\<rparr>) ps) ss))"

section \<open>The wrapper\<close>

record 'g scope_state =
  ss_scopes :: "'g compiled list"
  ss_fingerprint :: string
  ss_seen :: "kir_id \<rightharpoonup> bool"
  ss_evidence :: "kir_id set"

definition scope_state_new :: "'g scope_state" where
  "scope_state_new = \<lparr>ss_scopes = [], ss_fingerprint = [], ss_seen = Map.empty, ss_evidence = {}\<rparr>"

text \<open>The scopes that hide something, with the text that identifies them.\<close>

fun compile_scopes ::
  "(string \<Rightarrow> string + 'g) \<Rightarrow> (read_scope \<Rightarrow> string) \<Rightarrow> read_scope list \<Rightarrow> scope_error + 'g compiled list \<times> string" where
  "compile_scopes mk text [] = Inr ([], [])"
| "compile_scopes mk text (sc # scs) =
     (case compiled_new mk sc of
        Inl e \<Rightarrow> Inl e
      | Inr c \<Rightarrow>
          (case compile_scopes mk text scs of
             Inl e \<Rightarrow> Inl e
           | Inr (cs, fp) \<Rightarrow>
               if \<not> compiled_is_unrestricted c then Inr (c # cs, text sc @ CHR 0x0A # fp) else Inr (cs, fp)))"

definition set_scopes ::
  "(string \<Rightarrow> string + 'g) \<Rightarrow> (read_scope \<Rightarrow> string) \<Rightarrow> read_scope list \<Rightarrow> 'g scope_state \<Rightarrow>
   (scope_error + unit) \<times> 'g scope_state" where
  "set_scopes mk text scs st =
     (case compile_scopes mk text scs of
        Inl e \<Rightarrow> (Inl e, st)
      | Inr (cs, fp) \<Rightarrow>
          (Inr (), st\<lparr>ss_scopes := cs, ss_fingerprint := fp, ss_seen := Map.empty, ss_evidence := {}\<rparr>))"

definition is_restricted :: "'g scope_state \<Rightarrow> bool" where
  "is_restricted st \<longleftrightarrow> ss_scopes st \<noteq> []"

text \<open>The evidence paths of an object, read only when a path rule asks for them.\<close>

fun evidence_paths ::
  "('s, 'n) knowledge_store \<Rightarrow> 's \<Rightarrow> kir_id list \<Rightarrow> ledger_error + string list" where
  "evidence_paths V s [] = Inr []"
| "evidence_paths V s (i # is) =
     (case ks_get_evidence V s i of
        Inl e \<Rightarrow> Inl e
      | Inr ev \<Rightarrow>
          (case evidence_paths V s is of
             Inl e \<Rightarrow> Inl e
           | Inr ps \<Rightarrow>
               (case ev of
                  None \<Rightarrow> Inr ps
                | Some x \<Rightarrow> Inr (if sl_path (ke_location x) \<noteq> [] then sl_path (ke_location x) # ps else ps))))"

definition decide_scope ::
  "('s, 'n) knowledge_store \<Rightarrow> ('g \<Rightarrow> string \<Rightarrow> bool) \<Rightarrow> 's \<Rightarrow> 'g compiled list \<Rightarrow> 'n kir_object \<Rightarrow> ledger_error + bool" where
  "decide_scope V gm s scopes ob =
     (case (if list_ex co_has_path_rules scopes then evidence_paths V s (ko_evidence ob) else Inr []) of
        Inl e \<Rightarrow> Inl e
      | Inr ps \<Rightarrow>
          (let origs = origins (sources_of ob) (remdups_adj (sort ps))
           in Inr (list_all (\<lambda>c. visible gm c (ko_id ob) origs) scopes)))"

definition admit ::
  "('s, 'n) knowledge_store \<Rightarrow> ('g \<Rightarrow> string \<Rightarrow> bool) \<Rightarrow> 's \<Rightarrow> bool \<Rightarrow> 'n kir_object \<Rightarrow>
   'g scope_state \<Rightarrow> (ledger_error + bool) \<times> 'g scope_state" where
  "admit V gm s current ob st =
     (case decide_scope V gm s (ss_scopes st) ob of
        Inl e \<Rightarrow> (Inl e, st)
      | Inr v \<Rightarrow>
          (let st1 = (if current then st\<lparr>ss_seen := (ss_seen st)(ko_id ob \<mapsto> v)\<rparr> else st);
               st2 = (if v then st1\<lparr>ss_evidence := ss_evidence st1 \<union> set (ko_evidence ob)\<rparr> else st1)
           in (Inr v, st2)))"

definition visible_id ::
  "('s, 'n) knowledge_store \<Rightarrow> ('g \<Rightarrow> string \<Rightarrow> bool) \<Rightarrow> 's \<Rightarrow> kir_id \<Rightarrow>
   'g scope_state \<Rightarrow> (ledger_error + bool) \<times> 'g scope_state" where
  "visible_id V gm s i st =
     (case ss_seen st i of
        Some known \<Rightarrow> (Inr known, st)
      | None \<Rightarrow>
          (case ks_get_object V s i of
             Inl e \<Rightarrow> (Inl e, st)
           | Inr (Some ob) \<Rightarrow> admit V gm s True ob st
           | Inr None \<Rightarrow> (Inr False, st\<lparr>ss_seen := (ss_seen st)(i \<mapsto> False)\<rparr>)))"

definition admit_relationship ::
  "('s, 'n) knowledge_store \<Rightarrow> ('g \<Rightarrow> string \<Rightarrow> bool) \<Rightarrow> 's \<Rightarrow> 'n kir_relationship \<Rightarrow>
   'g scope_state \<Rightarrow> (ledger_error + bool) \<times> 'g scope_state" where
  "admit_relationship V gm s r =
     st_bind (st_and (visible_id V gm s (kr_from r)) (visible_id V gm s (kr_to r)))
       (\<lambda>v st. (Inr v, if v then st\<lparr>ss_evidence := ss_evidence st \<union> set (kr_evidence r)\<rparr> else st))"

definition keep_objects ::
  "('s, 'n) knowledge_store \<Rightarrow> ('g \<Rightarrow> string \<Rightarrow> bool) \<Rightarrow> 's \<Rightarrow> bool \<Rightarrow> 'n kir_object list \<Rightarrow>
   'g scope_state \<Rightarrow> (ledger_error + 'n kir_object list) \<times> 'g scope_state" where
  "keep_objects V gm s current = st_filter (admit V gm s current)"

definition keep_relationships ::
  "('s, 'n) knowledge_store \<Rightarrow> ('g \<Rightarrow> string \<Rightarrow> bool) \<Rightarrow> 's \<Rightarrow> 'n kir_relationship list \<Rightarrow>
   'g scope_state \<Rightarrow> (ledger_error + 'n kir_relationship list) \<times> 'g scope_state" where
  "keep_relationships V gm s = st_filter (admit_relationship V gm s)"

section \<open>Reads\<close>

type_synonym ('g, 'a) scoped = "'g scope_state \<Rightarrow> (ledger_error + 'a) \<times> 'g scope_state"

definition scoped_get_object ::
  "('s, 'n) knowledge_store \<Rightarrow> ('g \<Rightarrow> string \<Rightarrow> bool) \<Rightarrow> 's \<Rightarrow> kir_id \<Rightarrow> ('g, 'n kir_object option) scoped" where
  "scoped_get_object V gm s i =
     st_bind (st_lift (ks_get_object V s i)) (\<lambda>found st.
       if \<not> is_restricted st then st_ret found st
       else (case found of
               Some ob \<Rightarrow> st_bind (admit V gm s True ob) (\<lambda>v. st_ret (if v then Some ob else None)) st
             | None \<Rightarrow> st_ret None st))"

definition scoped_all_objects ::
  "('s, 'n) knowledge_store \<Rightarrow> ('g \<Rightarrow> string \<Rightarrow> bool) \<Rightarrow> 's \<Rightarrow> ('g, 'n kir_object list) scoped" where
  "scoped_all_objects V gm s =
     st_bind (st_lift (ks_all_objects V s)) (\<lambda>all st.
       if \<not> is_restricted st then st_ret all st else keep_objects V gm s True all st)"

definition scoped_object_at ::
  "('s, 'n) knowledge_store \<Rightarrow> ('g \<Rightarrow> string \<Rightarrow> bool) \<Rightarrow> 's \<Rightarrow> kir_id \<Rightarrow> int \<Rightarrow> ('g, 'n kir_object option) scoped" where
  "scoped_object_at V gm s i at =
     st_bind (st_lift (ks_object_at V s i at)) (\<lambda>found st.
       if \<not> is_restricted st then st_ret found st
       else (case found of
               Some ob \<Rightarrow>
                 st_bind (st_and (admit V gm s False ob) (visible_id V gm s i))
                   (\<lambda>v. st_ret (if v then Some ob else None)) st
             | None \<Rightarrow> st_ret None st))"

definition scoped_all_objects_at ::
  "('s, 'n) knowledge_store \<Rightarrow> ('g \<Rightarrow> string \<Rightarrow> bool) \<Rightarrow> 's \<Rightarrow> int \<Rightarrow> ('g, 'n kir_object list) scoped" where
  "scoped_all_objects_at V gm s at =
     st_bind (st_lift (ks_all_objects_at V s at)) (\<lambda>all st.
       if \<not> is_restricted st then st_ret all st
       else st_filter (\<lambda>ob. st_and (admit V gm s False ob) (visible_id V gm s (ko_id ob))) all st)"

definition scoped_object_history ::
  "('s, 'n) knowledge_store \<Rightarrow> ('g \<Rightarrow> string \<Rightarrow> bool) \<Rightarrow> 's \<Rightarrow> kir_id \<Rightarrow> ('g, 'n kir_object list) scoped" where
  "scoped_object_history V gm s i =
     st_bind (st_lift (ks_object_history V s i)) (\<lambda>versions st.
       if \<not> is_restricted st then st_ret versions st
       else st_bind (visible_id V gm s i)
              (\<lambda>v. if \<not> v then st_ret [] else keep_objects V gm s False versions) st)"

text \<open>A guard by the entity: \<open>none\<close> when restricted and hidden, else the inner read.\<close>

definition guarded ::
  "('s, 'n) knowledge_store \<Rightarrow> ('g \<Rightarrow> string \<Rightarrow> bool) \<Rightarrow> 's \<Rightarrow> kir_id \<Rightarrow> 'a \<Rightarrow> ledger_error + 'a \<Rightarrow> ('g, 'a) scoped" where
  "guarded V gm s i none inner st =
     (if is_restricted st
      then st_bind (visible_id V gm s i) (\<lambda>v. if \<not> v then st_ret none else st_lift inner) st
      else st_lift inner st)"

definition scoped_fact ::
  "('s, 'n) knowledge_store \<Rightarrow> ('g \<Rightarrow> string \<Rightarrow> bool) \<Rightarrow> 's \<Rightarrow> kir_id \<Rightarrow> string \<Rightarrow> ('g, 'n json option) scoped" where
  "scoped_fact V gm s i attr = guarded V gm s i None (ks_fact V s i attr)"

definition scoped_audit_trail ::
  "('s, 'n) knowledge_store \<Rightarrow> ('g \<Rightarrow> string \<Rightarrow> bool) \<Rightarrow> 's \<Rightarrow> kir_id \<Rightarrow> ('g, audit_record list) scoped" where
  "scoped_audit_trail V gm s i = guarded V gm s i [] (ks_audit_trail V s i)"

definition scoped_get_relationship ::
  "('s, 'n) knowledge_store \<Rightarrow> ('g \<Rightarrow> string \<Rightarrow> bool) \<Rightarrow> 's \<Rightarrow> kir_id \<Rightarrow> ('g, 'n kir_relationship option) scoped" where
  "scoped_get_relationship V gm s i =
     st_bind (st_lift (ks_get_relationship V s i)) (\<lambda>found st.
       if \<not> is_restricted st then st_ret found st
       else (case found of
               Some r \<Rightarrow> st_bind (admit_relationship V gm s r) (\<lambda>v. st_ret (if v then Some r else None)) st
             | None \<Rightarrow> st_ret None st))"

text \<open>The reads that return a list of relationships, whatever inner read they filter.\<close>

definition filtered_relationships ::
  "('s, 'n) knowledge_store \<Rightarrow> ('g \<Rightarrow> string \<Rightarrow> bool) \<Rightarrow> 's \<Rightarrow> ledger_error + 'n kir_relationship list \<Rightarrow>
   ('g, 'n kir_relationship list) scoped" where
  "filtered_relationships V gm s inner =
     st_bind (st_lift inner) (\<lambda>all st.
       if \<not> is_restricted st then st_ret all st else keep_relationships V gm s all st)"

definition scoped_all_relationships ::
  "('s, 'n) knowledge_store \<Rightarrow> ('g \<Rightarrow> string \<Rightarrow> bool) \<Rightarrow> 's \<Rightarrow> ('g, 'n kir_relationship list) scoped" where
  "scoped_all_relationships V gm s = filtered_relationships V gm s (ks_all_relationships V s)"

definition scoped_all_relationships_at ::
  "('s, 'n) knowledge_store \<Rightarrow> ('g \<Rightarrow> string \<Rightarrow> bool) \<Rightarrow> 's \<Rightarrow> int \<Rightarrow> ('g, 'n kir_relationship list) scoped" where
  "scoped_all_relationships_at V gm s at = filtered_relationships V gm s (ks_all_relationships_at V s at)"

definition scoped_relationship_history ::
  "('s, 'n) knowledge_store \<Rightarrow> ('g \<Rightarrow> string \<Rightarrow> bool) \<Rightarrow> 's \<Rightarrow> kir_id \<Rightarrow> ('g, 'n kir_relationship list) scoped" where
  "scoped_relationship_history V gm s i = filtered_relationships V gm s (ks_relationship_history V s i)"

text \<open>The reads about one node: nothing for a hidden node.\<close>

definition relationships_of_node ::
  "('s, 'n) knowledge_store \<Rightarrow> ('g \<Rightarrow> string \<Rightarrow> bool) \<Rightarrow> 's \<Rightarrow> kir_id \<Rightarrow> ledger_error + 'n kir_relationship list \<Rightarrow>
   ('g, 'n kir_relationship list) scoped" where
  "relationships_of_node V gm s i inner st =
     (if \<not> is_restricted st then st_lift inner st
      else st_bind (visible_id V gm s i)
             (\<lambda>v. if \<not> v then st_ret [] else st_bind (st_lift inner) (keep_relationships V gm s)) st)"

definition scoped_relationships_for ::
  "('s, 'n) knowledge_store \<Rightarrow> ('g \<Rightarrow> string \<Rightarrow> bool) \<Rightarrow> 's \<Rightarrow> kir_id \<Rightarrow> ('g, 'n kir_relationship list) scoped" where
  "scoped_relationships_for V gm s i = relationships_of_node V gm s i (ks_relationships_for V s i)"

definition scoped_relationships_at ::
  "('s, 'n) knowledge_store \<Rightarrow> ('g \<Rightarrow> string \<Rightarrow> bool) \<Rightarrow> 's \<Rightarrow> kir_id \<Rightarrow> int \<Rightarrow> ('g, 'n kir_relationship list) scoped" where
  "scoped_relationships_at V gm s i at = relationships_of_node V gm s i (ks_relationships_at V s i at)"

definition scoped_get_evidence ::
  "('s, 'n) knowledge_store \<Rightarrow> 's \<Rightarrow> kir_id \<Rightarrow> ('g, kir_evidence option) scoped" where
  "scoped_get_evidence V s i st =
     (if is_restricted st \<and> i \<notin> ss_evidence st then (Inr None, st) else (ks_get_evidence V s i, st))"

definition scoped_get_event ::
  "('s, 'n) knowledge_store \<Rightarrow> 's \<Rightarrow> kir_id \<Rightarrow> ('g, 'n kir_event option) scoped" where
  "scoped_get_event V s i st = (if is_restricted st then (Inr None, st) else (ks_get_event V s i, st))"

definition scoped_find_objects ::
  "('s, 'n) knowledge_store \<Rightarrow> ('g \<Rightarrow> string \<Rightarrow> bool) \<Rightarrow> 's \<Rightarrow> string \<Rightarrow> ('g, (kir_id \<times> string) list) scoped" where
  "scoped_find_objects V gm s q =
     st_bind (st_lift (ks_find_objects V s q)) (\<lambda>found st.
       if \<not> is_restricted st then st_ret found st
       else st_filter (\<lambda>p. visible_id V gm s (fst p)) found st)"

definition OVERFETCH :: nat where
  "OVERFETCH = 4"

definition saturating_mul :: "nat \<Rightarrow> nat \<Rightarrow> nat" where
  "saturating_mul a b = min (a * b) (2 ^ 64 - 1)"

fun keep_hits ::
  "('s, 'n) knowledge_store \<Rightarrow> ('g \<Rightarrow> string \<Rightarrow> bool) \<Rightarrow> 's \<Rightarrow> nat \<Rightarrow> hit list \<Rightarrow> hit list \<Rightarrow> ('g, hit list) scoped" where
  "keep_hits V gm s limit shown [] = st_ret shown"
| "keep_hits V gm s limit shown (h # hs) =
     (if limit \<le> length shown then st_ret shown
      else st_bind (visible_id V gm s (hi_id h))
             (\<lambda>v. keep_hits V gm s limit (if v then shown @ [h] else shown) hs))"

definition scoped_retrieve ::
  "('s, 'n) knowledge_store \<Rightarrow> ('g \<Rightarrow> string \<Rightarrow> bool) \<Rightarrow> 's \<Rightarrow> retrieval_request \<Rightarrow> ('g, ranked_results) scoped" where
  "scoped_retrieve V gm s q st =
     (if \<not> is_restricted st then (ks_retrieve V s q, st)
      else (let wider = q\<lparr>rr_limit := saturating_mul (rr_limit q) OVERFETCH,
                          rr_per_arm_limit := saturating_mul (rr_per_arm_limit q) OVERFETCH\<rparr>
            in st_bind (st_lift (ks_retrieve V s wider))
                 (\<lambda>res. st_bind (keep_hits V gm s (rr_limit q) [] (rk_hits res))
                    (\<lambda>shown. st_ret (res\<lparr>rk_hits := shown\<rparr>))) st))"

definition scoped_object_count ::
  "('s, 'n) knowledge_store \<Rightarrow> ('g \<Rightarrow> string \<Rightarrow> bool) \<Rightarrow> 's \<Rightarrow> ('g, nat) scoped" where
  "scoped_object_count V gm s st =
     (if \<not> is_restricted st then (ks_object_count V s, st)
      else st_bind (scoped_all_objects V gm s) (\<lambda>os. st_ret (length os)) st)"

definition scoped_relationship_count ::
  "('s, 'n) knowledge_store \<Rightarrow> ('g \<Rightarrow> string \<Rightarrow> bool) \<Rightarrow> 's \<Rightarrow> ('g, nat) scoped" where
  "scoped_relationship_count V gm s st =
     (if \<not> is_restricted st then (ks_relationship_count V s, st)
      else st_bind (scoped_all_relationships V gm s) (\<lambda>rs. st_ret (length rs)) st)"

definition scoped_evidence_count ::
  "('s, 'n) knowledge_store \<Rightarrow> ('g \<Rightarrow> string \<Rightarrow> bool) \<Rightarrow> 's \<Rightarrow> ('g, nat) scoped" where
  "scoped_evidence_count V gm s st =
     (if \<not> is_restricted st then (ks_evidence_count V s, st)
      else st_bind (scoped_all_objects V gm s) (\<lambda>os.
           st_bind (scoped_all_relationships V gm s) (\<lambda>rs.
             st_ret (length (remdups (concat (map ko_evidence os) @ concat (map kr_evidence rs)))))) st)"

definition scoped_entry_count ::
  "('s, 'n) knowledge_store \<Rightarrow> ('g \<Rightarrow> string \<Rightarrow> bool) \<Rightarrow> 's \<Rightarrow> ('g, nat) scoped" where
  "scoped_entry_count V gm s st =
     (if \<not> is_restricted st then (ks_entry_count V s, st)
      else st_bind (scoped_object_count V gm s) (\<lambda>a.
           st_bind (scoped_relationship_count V gm s) (\<lambda>b.
           st_bind (scoped_evidence_count V gm s) (\<lambda>c. st_ret (a + b + c)))) st)"

definition touched_visible ::
  "('s, 'n) knowledge_store \<Rightarrow> ('g \<Rightarrow> string \<Rightarrow> bool) \<Rightarrow> (string \<Rightarrow> kir_id option) \<Rightarrow> 's \<Rightarrow> string \<Rightarrow> ('g, bool) scoped" where
  "touched_visible V gm parse_id s t =
     (case parse_id t of
        None \<Rightarrow> st_ret False
      | Some i \<Rightarrow>
          st_bind (st_lift (ks_get_relationship V s i))
            (\<lambda>r. case r of Some rel \<Rightarrow> admit_relationship V gm s rel | None \<Rightarrow> visible_id V gm s i))"

definition scoped_diff ::
  "('s, 'n) knowledge_store \<Rightarrow> ('g \<Rightarrow> string \<Rightarrow> bool) \<Rightarrow> (string \<Rightarrow> kir_id option) \<Rightarrow> 's \<Rightarrow> int \<Rightarrow> int \<Rightarrow>
   ('g, ledger_diff) scoped" where
  "scoped_diff V gm parse_id s from to =
     st_bind (st_lift (ks_diff V s from to)) (\<lambda>d st.
       if \<not> is_restricted st then st_ret d st
       else st_bind (st_filter (touched_visible V gm parse_id s) (ld_touched d)) (\<lambda>touched.
            st_bind (scoped_object_count V gm s) (\<lambda>a.
            st_bind (scoped_relationship_count V gm s) (\<lambda>b.
              st_ret \<lparr>ld_added = [], ld_touched = touched, ld_unchanged = a + b - length touched\<rparr>))) st)"

section \<open>Refresh and writes\<close>

text \<open>The wrapper as a whole: the inner store and the state behind the lock.\<close>

record ('s, 'g) scoped_store =
  sc_inner :: 's
  sc_state :: "'g scope_state"

definition scoped_refresh_snapshot ::
  "('s, 'n) knowledge_store \<Rightarrow> ('s, 'g) scoped_store \<Rightarrow> (ledger_error + refresh_outcome) \<times> ('s, 'g) scoped_store" where
  "scoped_refresh_snapshot V x =
     (case ks_refresh_snapshot V (sc_inner x) of
        (Inl e, s) \<Rightarrow> (Inl e, x\<lparr>sc_inner := s\<rparr>)
      | (Inr out, s) \<Rightarrow>
          (Inr out, x\<lparr>sc_inner := s, sc_state := (sc_state x)\<lparr>ss_seen := Map.empty, ss_evidence := {}\<rparr>\<rparr>))"

definition refuse_or ::
  "string \<Rightarrow> ('s \<Rightarrow> (ledger_error + 'a) \<times> 's) \<Rightarrow> ('s, 'g) scoped_store \<Rightarrow> (ledger_error + 'a) \<times> ('s, 'g) scoped_store" where
  "refuse_or what write x =
     (if is_restricted (sc_state x) then (Inl (LedgerReadScope what), x)
      else (case write (sc_inner x) of (r, s) \<Rightarrow> (r, x\<lparr>sc_inner := s\<rparr>)))"

definition scoped_append_object ::
  "('s, 'n) knowledge_store \<Rightarrow> 'n kir_object \<Rightarrow> ('s, 'g) scoped_store \<Rightarrow> (ledger_error + bool) \<times> ('s, 'g) scoped_store" where
  "scoped_append_object V ob = refuse_or ''writing an object'' (ks_append_object V ob)"

definition scoped_append_evidence ::
  "('s, 'n) knowledge_store \<Rightarrow> kir_evidence \<Rightarrow> ('s, 'g) scoped_store \<Rightarrow> (ledger_error + unit) \<times> ('s, 'g) scoped_store" where
  "scoped_append_evidence V ev = refuse_or ''writing evidence'' (ks_append_evidence V ev)"

definition scoped_append_relationship ::
  "('s, 'n) knowledge_store \<Rightarrow> 'n kir_relationship \<Rightarrow> ('s, 'g) scoped_store \<Rightarrow>
   (ledger_error + bool) \<times> ('s, 'g) scoped_store" where
  "scoped_append_relationship V r = refuse_or ''writing a relationship'' (ks_append_relationship V r)"

definition scoped_append_event ::
  "('s, 'n) knowledge_store \<Rightarrow> 'n kir_event \<Rightarrow> ('s, 'g) scoped_store \<Rightarrow> (ledger_error + unit) \<times> ('s, 'g) scoped_store" where
  "scoped_append_event V ev = refuse_or ''writing an event'' (ks_append_event V ev)"

definition scoped_set_write_context ::
  "('s, 'n) knowledge_store \<Rightarrow> write_context option \<Rightarrow> ('s, 'g) scoped_store \<Rightarrow> ('s, 'g) scoped_store" where
  "scoped_set_write_context V ctx x = x\<lparr>sc_inner := ks_set_write_context V ctx (sc_inner x)\<rparr>"

definition scoped_vacuum_into ::
  "('s, 'n) knowledge_store \<Rightarrow> string \<Rightarrow> ('s, 'g) scoped_store \<Rightarrow> (ledger_error + unit) \<times> ('s, 'g) scoped_store" where
  "scoped_vacuum_into V dest = refuse_or ''copying the ledger'' (ks_vacuum_into V dest)"

end
