(* ===== verification/Read_Scope_Facts.thy ===== *)
theory Read_Scope_Facts
  imports Read_Scope
begin

text \<open>
  What read scopes guarantee: the caches of the wrapper never hold a wrong decision whatever was read
  before, nothing hidden is returned, a restricted handle answers like the store of the visible part,
  and scopes only hide.  A computation with early return is reasoned about with the triples
  \<open>st_ok\<close> of the prelude, one per read.
\<close>

section \<open>What a reader may see\<close>

definition sees :: "('s, 'n) knowledge_store \<Rightarrow> ('g \<Rightarrow> string \<Rightarrow> bool) \<Rightarrow> 's \<Rightarrow> 'g compiled list \<Rightarrow> 'n kir_object \<Rightarrow> bool" where
  "sees V gm s S ob \<longleftrightarrow> decide_scope V gm s S ob = Inr True"

definition sees_id :: "('s, 'n) knowledge_store \<Rightarrow> ('g \<Rightarrow> string \<Rightarrow> bool) \<Rightarrow> 's \<Rightarrow> 'g compiled list \<Rightarrow> kir_id \<Rightarrow> bool" where
  "sees_id V gm s S i \<longleftrightarrow> (case ks_get_object V s i of Inr (Some ob) \<Rightarrow> sees V gm s S ob | _ \<Rightarrow> False)"

definition sees_rel ::
  "('s, 'n) knowledge_store \<Rightarrow> ('g \<Rightarrow> string \<Rightarrow> bool) \<Rightarrow> 's \<Rightarrow> 'g compiled list \<Rightarrow> 'n kir_relationship \<Rightarrow> bool" where
  "sees_rel V gm s S r \<longleftrightarrow> sees_id V gm s S (kr_from r) \<and> sees_id V gm s S (kr_to r)"

text \<open>
  The object versions the wrapper decides on: the current ones, those in the history of an object that
  is visible now, and, when the past is read, those of the past.
\<close>

definition stored_version ::
  "bool \<Rightarrow> ('s, 'n) knowledge_store \<Rightarrow> ('g \<Rightarrow> string \<Rightarrow> bool) \<Rightarrow> 's \<Rightarrow> 'g compiled list \<Rightarrow> 'n kir_object \<Rightarrow> bool" where
  "stored_version past V gm s S ob \<longleftrightarrow>
     (\<exists>i. ks_get_object V s i = Inr (Some ob)) \<or>
     (\<exists>obs. ks_all_objects V s = Inr obs \<and> ob \<in> set obs) \<or>
     (\<exists>i obs. sees_id V gm s S i \<and> ks_object_history V s i = Inr obs \<and> ob \<in> set obs) \<or>
     past \<and> (\<exists>i at. ks_object_at V s i at = Inr (Some ob)) \<or>
     past \<and> (\<exists>at obs. ks_all_objects_at V s at = Inr obs \<and> ob \<in> set obs)"

text \<open>The relationships some read of the inner store returns.\<close>

definition stored_relationship :: "('s, 'n) knowledge_store \<Rightarrow> 's \<Rightarrow> 'n kir_relationship \<Rightarrow> bool" where
  "stored_relationship V s r \<longleftrightarrow>
     (\<exists>i. ks_get_relationship V s i = Inr (Some r)) \<or>
     (\<exists>rs. ks_all_relationships V s = Inr rs \<and> r \<in> set rs) \<or>
     (\<exists>i rs. ks_relationships_for V s i = Inr rs \<and> r \<in> set rs) \<or>
     (\<exists>i at rs. ks_relationships_at V s i at = Inr rs \<and> r \<in> set rs) \<or>
     (\<exists>at rs. ks_all_relationships_at V s at = Inr rs \<and> r \<in> set rs) \<or>
     (\<exists>i rs. ks_relationship_history V s i = Inr rs \<and> r \<in> set rs)"

text \<open>The evidence a visible version or a visible edge lists.\<close>

definition vouched ::
  "bool \<Rightarrow> ('s, 'n) knowledge_store \<Rightarrow> ('g \<Rightarrow> string \<Rightarrow> bool) \<Rightarrow> 's \<Rightarrow> 'g compiled list \<Rightarrow> kir_id \<Rightarrow> bool" where
  "vouched past V gm s S e \<longleftrightarrow>
     (\<exists>ob. stored_version past V gm s S ob \<and> sees V gm s S ob \<and> e \<in> set (ko_evidence ob)) \<or>
     (\<exists>r. stored_relationship V s r \<and> sees_rel V gm s S r \<and> e \<in> set (kr_evidence r))"

text \<open>The caches never hold a wrong decision.\<close>

definition scope_inv ::
  "bool \<Rightarrow> ('s, 'n) knowledge_store \<Rightarrow> ('g \<Rightarrow> string \<Rightarrow> bool) \<Rightarrow> 's \<Rightarrow> 'g compiled list \<Rightarrow> 'g scope_state \<Rightarrow> bool" where
  "scope_inv past V gm s S st \<longleftrightarrow>
     ss_scopes st = S \<and> (\<forall>i b. ss_seen st i = Some b \<longrightarrow> b = sees_id V gm s S i) \<and>
     (\<forall>e \<in> ss_evidence st. vouched past V gm s S e)"

lemma decide_sees: "decide_scope V gm s S ob = Inr v \<Longrightarrow> v = sees V gm s S ob"
  by (cases v) (simp_all add: sees_def)

lemma admit_ok:
  assumes "stored_version past V gm s S ob" "current \<Longrightarrow> ks_get_object V s (ko_id ob) = Inr (Some ob)"
  shows "st_ok (scope_inv past V gm s S) (admit V gm s current ob) (\<lambda>b. b = sees V gm s S ob)"
proof (rule st_okI)
  fix st assume inv: "scope_inv past V gm s S st"
  then have S: "ss_scopes st = S" by (simp add: scope_inv_def)
  show "scope_inv past V gm s S (snd (admit V gm s current ob st)) \<and>
    (\<forall>x. fst (admit V gm s current ob st) = Inr x \<longrightarrow> x = sees V gm s S ob)"
  proof (cases "decide_scope V gm s S ob")
    case (Inl e)
    then show ?thesis using inv by (simp add: admit_def S)
  next
    case (Inr v)
    note v = decide_sees [OF Inr]
    have id: "sees_id V gm s S (ko_id ob) = sees V gm s S ob" if current
      using assms(2) [OF that] by (simp add: sees_id_def)
    have ev: "vouched past V gm s S e" if "e \<in> set (ko_evidence ob)" "sees V gm s S ob" for e
      using assms(1) that unfolding vouched_def by blast
    show ?thesis
      using inv id ev by (simp add: admit_def S Inr scope_inv_def Let_def v) (auto simp: v [symmetric])
  qed
qed

lemma visible_id_ok:
  assumes "store_consistent V s"
  shows "st_ok (scope_inv past V gm s S) (visible_id V gm s i) (\<lambda>b. b = sees_id V gm s S i)"
proof (rule st_okI)
  fix st assume inv: "scope_inv past V gm s S st"
  show "scope_inv past V gm s S (snd (visible_id V gm s i st)) \<and>
    (\<forall>x. fst (visible_id V gm s i st) = Inr x \<longrightarrow> x = sees_id V gm s S i)"
  proof (cases "ss_seen st i")
    case (Some b)
    then show ?thesis using inv by (simp add: visible_id_def scope_inv_def)
  next
    case None
    show ?thesis
    proof (cases "ks_get_object V s i")
      case (Inl e)
      then show ?thesis using inv None by (simp add: visible_id_def)
    next
      case get: (Inr found)
      show ?thesis
      proof (cases found)
        case None': None
        then show ?thesis using inv None get by (simp add: visible_id_def scope_inv_def sees_id_def)
      next
        case (Some ob)
        have i: "ko_id ob = i" using assms get Some by (simp add: store_consistent_def)
        have "stored_version past V gm s S ob" using get Some by (auto simp: stored_version_def)
        from st_okD [OF admit_ok [OF this] inv] i
        show ?thesis using None get Some by (simp add: visible_id_def sees_id_def)
      qed
    qed
  qed
qed

lemma admit_relationship_ok:
  assumes "store_consistent V s" "stored_relationship V s r"
  shows "st_ok (scope_inv past V gm s S) (admit_relationship V gm s r) (\<lambda>b. b = sees_rel V gm s S r)"
  unfolding admit_relationship_def
proof (rule st_ok_bind)
  show "st_ok (scope_inv past V gm s S) (st_and (visible_id V gm s (kr_from r)) (visible_id V gm s (kr_to r)))
      (\<lambda>x. x = (sees_id V gm s S (kr_from r) \<and> sees_id V gm s S (kr_to r)))"
    by (rule st_ok_and) (rule visible_id_ok [OF assms(1)])+
  fix v assume v: "v = (sees_id V gm s S (kr_from r) \<and> sees_id V gm s S (kr_to r))"
  then have "v = sees_rel V gm s S r" by (simp add: sees_rel_def)
  moreover have "vouched past V gm s S e" if "e \<in> set (kr_evidence r)" "sees_rel V gm s S r" for e
    using assms(2) that unfolding vouched_def by blast
  ultimately show "st_ok (scope_inv past V gm s S)
      (\<lambda>st. (Inr v, if v then st\<lparr>ss_evidence := ss_evidence st \<union> set (kr_evidence r)\<rparr> else st)) (\<lambda>b. b = sees_rel V gm s S r)"
    by (simp add: st_ok_def scope_inv_def) blast
qed

lemma keep_objects_ok:
  assumes "\<And>ob. ob \<in> set obs \<Longrightarrow> stored_version past V gm s S ob"
    and "\<And>ob. current \<Longrightarrow> ob \<in> set obs \<Longrightarrow> ks_get_object V s (ko_id ob) = Inr (Some ob)"
  shows "st_ok (scope_inv past V gm s S) (keep_objects V gm s current obs) (\<lambda>ys. ys = filter (sees V gm s S) obs)"
  unfolding keep_objects_def by (rule st_ok_filter) (rule admit_ok, erule assms(1), erule (1) assms(2))

lemma keep_relationships_ok:
  assumes "store_consistent V s" "\<And>r. r \<in> set rs \<Longrightarrow> stored_relationship V s r"
  shows "st_ok (scope_inv past V gm s S) (keep_relationships V gm s rs) (\<lambda>ys. ys = filter (sees_rel V gm s S) rs)"
  unfolding keep_relationships_def by (rule st_ok_filter) (rule admit_relationship_ok [OF assms(1)], erule assms(2))

lemma restricted_ok:
  assumes "S \<noteq> []" "st_ok (scope_inv past V gm s S) m Q"
  shows "st_ok (scope_inv past V gm s S) (\<lambda>st. if \<not> is_restricted st then u st else m st) Q"
    and "st_ok (scope_inv past V gm s S) (\<lambda>st. if is_restricted st then m st else u st) Q"
proof -
  have "is_restricted st" if "scope_inv past V gm s S st" for st
    using that assms(1) by (simp add: scope_inv_def is_restricted_def)
  then show "st_ok (scope_inv past V gm s S) (\<lambda>st. if \<not> is_restricted st then u st else m st) Q"
    and "st_ok (scope_inv past V gm s S) (\<lambda>st. if is_restricted st then m st else u st) Q"
    using assms(2) by (simp_all add: st_ok_def)
qed

section \<open>Every read keeps the caches right and returns what may be seen\<close>

lemma scoped_get_object_ok:
  assumes "store_consistent V s" "S \<noteq> []"
  shows "st_ok (scope_inv past V gm s S) (scoped_get_object V gm s i)
     (\<lambda>x. \<exists>found. ks_get_object V s i = Inr found \<and>
        x = (case found of Some ob \<Rightarrow> if sees V gm s S ob then Some ob else None | None \<Rightarrow> None))"
  unfolding scoped_get_object_def
proof (rule st_ok_bind [OF st_ok_lift], assumption, rule restricted_ok(1) [OF assms(2)])
  fix found assume get: "ks_get_object V s i = Inr found"
  let ?Q = "\<lambda>x. \<exists>found. ks_get_object V s i = Inr found \<and>
        x = (case found of Some ob \<Rightarrow> if sees V gm s S ob then Some ob else None | None \<Rightarrow> None)"
  show "st_ok (scope_inv past V gm s S)
     (\<lambda>st. case found of None \<Rightarrow> st_ret None st
        | Some ob \<Rightarrow> st_bind (admit V gm s True ob) (\<lambda>v. st_ret (if v then Some ob else None)) st) ?Q"
  proof (cases found)
    case None
    then show ?thesis using get st_ok_ret [of ?Q None "scope_inv past V gm s S"] by simp
  next
    case (Some ob)
    have id: "ko_id ob = i" using assms(1) get Some by (simp add: store_consistent_def)
    have sv: "stored_version past V gm s S ob" using get Some by (auto simp: stored_version_def)
    have "st_ok (scope_inv past V gm s S) (st_bind (admit V gm s True ob) (\<lambda>v. st_ret (if v then Some ob else None))) ?Q"
      by (rule st_ok_bind [OF admit_ok [OF sv]]) (use id get Some in \<open>auto intro!: st_ok_ret\<close>)
    then show ?thesis using Some by simp
  qed
qed

lemma scoped_all_objects_ok:
  assumes "store_consistent V s" "S \<noteq> []"
  shows "st_ok (scope_inv past V gm s S) (scoped_all_objects V gm s)
     (\<lambda>ys. \<exists>obs. ks_all_objects V s = Inr obs \<and> ys = filter (sees V gm s S) obs)"
  unfolding scoped_all_objects_def
proof (rule st_ok_bind [OF st_ok_lift], assumption, rule restricted_ok(1) [OF assms(2)])
  fix obs assume all: "ks_all_objects V s = Inr obs"
  have cur: "ks_get_object V s (ko_id ob) = Inr (Some ob)" if "ob \<in> set obs" for ob
    using assms(1) all that by (simp add: store_consistent_def)
  have sv: "stored_version past V gm s S ob" if "ob \<in> set obs" for ob
    using all that by (auto simp: stored_version_def)
  show "st_ok (scope_inv past V gm s S) (keep_objects V gm s True obs)
     (\<lambda>ys. \<exists>obs. ks_all_objects V s = Inr obs \<and> ys = filter (sees V gm s S) obs)"
    by (rule st_ok_weaken [OF keep_objects_ok]) (use sv cur all in auto)
qed

lemma scoped_object_at_ok:
  assumes "store_consistent V s" "S \<noteq> []" past
  shows "st_ok (scope_inv past V gm s S) (scoped_object_at V gm s i at)
     (\<lambda>x. \<exists>found. ks_object_at V s i at = Inr found \<and>
        x = (case found of Some ob \<Rightarrow> if sees V gm s S ob \<and> sees_id V gm s S i then Some ob else None | None \<Rightarrow> None))"
    (is "st_ok _ _ ?Q")
  unfolding scoped_object_at_def
proof (rule st_ok_bind [OF st_ok_lift], assumption, rule restricted_ok(1) [OF assms(2)])
  fix found assume get: "ks_object_at V s i at = Inr found"
  show "st_ok (scope_inv past V gm s S)
     (\<lambda>st. case found of None \<Rightarrow> st_ret None st
        | Some ob \<Rightarrow> st_bind (st_and (admit V gm s False ob) (visible_id V gm s i))
            (\<lambda>v. st_ret (if v then Some ob else None)) st) ?Q"
  proof (cases found)
    case None
    then show ?thesis using get st_ok_ret [of ?Q None "scope_inv past V gm s S"] by simp
  next
    case (Some ob)
    have sv: "stored_version past V gm s S ob" using get Some assms(3) by (auto simp: stored_version_def)
    have "st_ok (scope_inv past V gm s S) (st_and (admit V gm s False ob) (visible_id V gm s i))
       (\<lambda>x. x = (sees V gm s S ob \<and> sees_id V gm s S i))"
      by (rule st_ok_and [OF admit_ok [OF sv] visible_id_ok [OF assms(1)]]) simp
    then have "st_ok (scope_inv past V gm s S) (st_bind (st_and (admit V gm s False ob) (visible_id V gm s i))
        (\<lambda>v. st_ret (if v then Some ob else None))) ?Q"
      by (rule st_ok_bind) (use get Some in \<open>auto intro!: st_ok_ret\<close>)
    then show ?thesis using Some by simp
  qed
qed

lemma scoped_all_objects_at_ok:
  assumes "store_consistent V s" "S \<noteq> []" past
  shows "st_ok (scope_inv past V gm s S) (scoped_all_objects_at V gm s at)
     (\<lambda>ys. \<exists>obs. ks_all_objects_at V s at = Inr obs \<and>
        ys = filter (\<lambda>ob. sees V gm s S ob \<and> sees_id V gm s S (ko_id ob)) obs)" (is "st_ok _ _ ?Q")
  unfolding scoped_all_objects_at_def
proof (rule st_ok_bind [OF st_ok_lift], assumption, rule restricted_ok(1) [OF assms(2)])
  fix obs assume all: "ks_all_objects_at V s at = Inr obs"
  have sv: "stored_version past V gm s S ob" if "ob \<in> set obs" for ob
    using all that assms(3) by (auto simp: stored_version_def)
  have "st_ok (scope_inv past V gm s S) (st_filter (\<lambda>ob. st_and (admit V gm s False ob) (visible_id V gm s (ko_id ob))) obs)
     (\<lambda>ys. ys = filter (\<lambda>ob. sees V gm s S ob \<and> sees_id V gm s S (ko_id ob)) obs)"
    by (rule st_ok_filter) (rule st_ok_and [OF admit_ok [OF sv] visible_id_ok [OF assms(1)]], simp_all)
  then show "st_ok (scope_inv past V gm s S)
     (\<lambda>st. st_filter (\<lambda>ob. st_and (admit V gm s False ob) (visible_id V gm s (ko_id ob))) obs st) ?Q"
    by (rule st_ok_weaken) (use all in auto)
qed

lemma scoped_object_history_ok:
  assumes "store_consistent V s" "S \<noteq> []"
  shows "st_ok (scope_inv past V gm s S) (scoped_object_history V gm s i)
     (\<lambda>ys. \<exists>obs. ks_object_history V s i = Inr obs \<and>
        ys = (if sees_id V gm s S i then filter (sees V gm s S) obs else []))" (is "st_ok _ _ ?Q")
  unfolding scoped_object_history_def
proof (rule st_ok_bind [OF st_ok_lift], assumption, rule restricted_ok(1) [OF assms(2)])
  fix obs assume all: "ks_object_history V s i = Inr obs"
  have sv: "stored_version past V gm s S ob" if "ob \<in> set obs" "sees_id V gm s S i" for ob
    using all that by (auto simp: stored_version_def)
  show "st_ok (scope_inv past V gm s S)
     (\<lambda>st. st_bind (visible_id V gm s i) (\<lambda>v. if \<not> v then st_ret [] else keep_objects V gm s False obs) st) ?Q"
  proof (rule st_ok_bind [OF visible_id_ok [OF assms(1)]])
    fix v assume v: "v = sees_id V gm s S i"
    show "st_ok (scope_inv past V gm s S) (if \<not> v then st_ret [] else keep_objects V gm s False obs) ?Q"
    proof (cases v)
      case True
      have "st_ok (scope_inv past V gm s S) (keep_objects V gm s False obs) (\<lambda>ys. ys = filter (sees V gm s S) obs)"
        by (rule keep_objects_ok) (use sv v True in auto)
      then have "st_ok (scope_inv past V gm s S) (keep_objects V gm s False obs) ?Q"
        by (rule st_ok_weaken) (use all v True in auto)
      then show ?thesis using True by simp
    next
      case False
      then show ?thesis using all v st_ok_ret [of ?Q "[]" "scope_inv past V gm s S"] by simp
    qed
  qed
qed

lemma guarded_ok:
  assumes "store_consistent V s" "S \<noteq> []"
  shows "st_ok (scope_inv past V gm s S) (guarded V gm s i none inner)
     (\<lambda>x. if sees_id V gm s S i then inner = Inr x else x = none)" (is "st_ok _ _ ?Q")
proof -
  have "st_ok (scope_inv past V gm s S)
     (\<lambda>st. if is_restricted st then st_bind (visible_id V gm s i) (\<lambda>v. if \<not> v then st_ret none else st_lift inner) st
           else st_lift inner st) ?Q"
    by (rule restricted_ok(2) [OF assms(2)], rule st_ok_bind [OF visible_id_ok [OF assms(1)]])
      (auto intro!: st_ok_ret st_ok_lift)
  then show ?thesis by (simp add: guarded_def [abs_def])
qed

lemma scoped_get_relationship_ok:
  assumes "store_consistent V s" "S \<noteq> []"
  shows "st_ok (scope_inv past V gm s S) (scoped_get_relationship V gm s i)
     (\<lambda>x. \<exists>found. ks_get_relationship V s i = Inr found \<and>
        x = (case found of Some r \<Rightarrow> if sees_rel V gm s S r then Some r else None | None \<Rightarrow> None))" (is "st_ok _ _ ?Q")
  unfolding scoped_get_relationship_def
proof (rule st_ok_bind [OF st_ok_lift], assumption, rule restricted_ok(1) [OF assms(2)])
  fix found assume get: "ks_get_relationship V s i = Inr found"
  show "st_ok (scope_inv past V gm s S)
     (\<lambda>st. case found of None \<Rightarrow> st_ret None st
        | Some r \<Rightarrow> st_bind (admit_relationship V gm s r) (\<lambda>v. st_ret (if v then Some r else None)) st) ?Q"
  proof (cases found)
    case None
    then show ?thesis using get st_ok_ret [of ?Q None "scope_inv past V gm s S"] by simp
  next
    case (Some r)
    have sr: "stored_relationship V s r" using get Some by (auto simp: stored_relationship_def)
    have "st_ok (scope_inv past V gm s S) (st_bind (admit_relationship V gm s r) (\<lambda>v. st_ret (if v then Some r else None))) ?Q"
      by (rule st_ok_bind [OF admit_relationship_ok [OF assms(1) sr]]) (use get Some in \<open>auto intro!: st_ok_ret\<close>)
    then show ?thesis using Some by simp
  qed
qed

lemma filtered_relationships_ok:
  assumes "store_consistent V s" "S \<noteq> []" "\<And>rs r. inner = Inr rs \<Longrightarrow> r \<in> set rs \<Longrightarrow> stored_relationship V s r"
  shows "st_ok (scope_inv past V gm s S) (filtered_relationships V gm s inner)
     (\<lambda>ys. \<exists>rs. inner = Inr rs \<and> ys = filter (sees_rel V gm s S) rs)"
  unfolding filtered_relationships_def
proof (rule st_ok_bind [OF st_ok_lift], assumption, rule restricted_ok(1) [OF assms(2)])
  fix rs assume rs: "inner = Inr rs"
  show "st_ok (scope_inv past V gm s S) (keep_relationships V gm s rs)
     (\<lambda>ys. \<exists>rs. inner = Inr rs \<and> ys = filter (sees_rel V gm s S) rs)"
    by (rule st_ok_weaken [OF keep_relationships_ok [OF assms(1)]]) (use assms(3) rs in auto)
qed

lemma relationships_of_node_ok:
  assumes "store_consistent V s" "S \<noteq> []" "\<And>rs r. inner = Inr rs \<Longrightarrow> r \<in> set rs \<Longrightarrow> stored_relationship V s r"
  shows "st_ok (scope_inv past V gm s S) (relationships_of_node V gm s i inner)
     (\<lambda>ys. if sees_id V gm s S i then \<exists>rs. inner = Inr rs \<and> ys = filter (sees_rel V gm s S) rs else ys = [])"
    (is "st_ok _ _ ?Q")
proof -
  have "st_ok (scope_inv past V gm s S)
     (\<lambda>st. if \<not> is_restricted st then st_lift inner st
           else st_bind (visible_id V gm s i)
                  (\<lambda>v. if \<not> v then st_ret [] else st_bind (st_lift inner) (keep_relationships V gm s)) st) ?Q"
  proof (rule restricted_ok(1) [OF assms(2)], rule st_ok_bind [OF visible_id_ok [OF assms(1)]])
    fix v assume v: "v = sees_id V gm s S i"
    have node: "st_ok (scope_inv past V gm s S) (st_bind (st_lift inner) (keep_relationships V gm s))
       (\<lambda>ys. \<exists>rs. inner = Inr rs \<and> ys = filter (sees_rel V gm s S) rs)"
    proof (rule st_ok_bind [OF st_ok_lift], assumption)
      fix rs assume rs: "inner = Inr rs"
      show "st_ok (scope_inv past V gm s S) (keep_relationships V gm s rs)
         (\<lambda>ys. \<exists>rs. inner = Inr rs \<and> ys = filter (sees_rel V gm s S) rs)"
        by (rule st_ok_weaken [OF keep_relationships_ok [OF assms(1)]]) (use assms(3) rs in auto)
    qed
    show "st_ok (scope_inv past V gm s S) (if \<not> v then st_ret [] else st_bind (st_lift inner) (keep_relationships V gm s)) ?Q"
      using node v by (auto intro: st_ok_ret)
  qed
  then show ?thesis by (simp add: relationships_of_node_def [abs_def])
qed

lemma scoped_find_objects_ok:
  assumes "store_consistent V s" "S \<noteq> []"
  shows "st_ok (scope_inv past V gm s S) (scoped_find_objects V gm s q)
     (\<lambda>ys. \<exists>found. ks_find_objects V s q = Inr found \<and> ys = filter (\<lambda>p. sees_id V gm s S (fst p)) found)" (is "st_ok _ _ ?Q")
  unfolding scoped_find_objects_def
proof (rule st_ok_bind [OF st_ok_lift], assumption, rule restricted_ok(1) [OF assms(2)])
  fix found assume f: "ks_find_objects V s q = Inr found"
  have "st_ok (scope_inv past V gm s S) (st_filter (\<lambda>p. visible_id V gm s (fst p)) found)
     (\<lambda>ys. ys = filter (\<lambda>p. sees_id V gm s S (fst p)) found)"
    by (rule st_ok_filter) (rule visible_id_ok [OF assms(1)])
  then show "st_ok (scope_inv past V gm s S) (\<lambda>st. st_filter (\<lambda>p. visible_id V gm s (fst p)) found st) ?Q"
    by (rule st_ok_weaken) (use f in auto)
qed

lemma keep_hits_ok:
  assumes "store_consistent V s"
  shows "st_ok (scope_inv past V gm s S) (keep_hits V gm s limit shown hs)
     (\<lambda>ys. ys = shown @ take (limit - length shown) (filter (\<lambda>h. sees_id V gm s S (hi_id h)) hs))"
proof (induction hs arbitrary: shown)
  case Nil
  show ?case by (simp add: st_ok_ret)
next
  case (Cons h hs)
  show ?case
  proof (cases "limit \<le> length shown")
    case True
    then show ?thesis by (simp add: st_ok_ret)
  next
    case False
    have "st_ok (scope_inv past V gm s S)
        (st_bind (visible_id V gm s (hi_id h)) (\<lambda>v. keep_hits V gm s limit (if v then shown @ [h] else shown) hs))
        (\<lambda>ys. ys = shown @ take (limit - length shown) (filter (\<lambda>h. sees_id V gm s S (hi_id h)) (h # hs)))"
    proof (rule st_ok_bind [OF visible_id_ok [OF assms]])
      fix v assume v: "v = sees_id V gm s S (hi_id h)"
      show "st_ok (scope_inv past V gm s S) (keep_hits V gm s limit (if v then shown @ [h] else shown) hs)
        (\<lambda>ys. ys = shown @ take (limit - length shown) (filter (\<lambda>h. sees_id V gm s S (hi_id h)) (h # hs)))"
        by (rule st_ok_weaken [OF Cons.IH]) (use v False in \<open>auto simp: take_Cons' split: if_splits\<close>)
    qed
    then show ?thesis using False by simp
  qed
qed

lemma scoped_retrieve_ok:
  assumes "store_consistent V s" "S \<noteq> []"
  shows "st_ok (scope_inv past V gm s S) (scoped_retrieve V gm s q)
     (\<lambda>x. \<exists>res. ks_retrieve V s (q\<lparr>rr_limit := saturating_mul (rr_limit q) OVERFETCH,
              rr_per_arm_limit := saturating_mul (rr_per_arm_limit q) OVERFETCH\<rparr>) = Inr res \<and>
        x = res\<lparr>rk_hits := take (rr_limit q) (filter (\<lambda>h. sees_id V gm s S (hi_id h)) (rk_hits res))\<rparr>)" (is "st_ok _ _ ?Q")
proof -
  let ?w = "q\<lparr>rr_limit := saturating_mul (rr_limit q) OVERFETCH,
              rr_per_arm_limit := saturating_mul (rr_per_arm_limit q) OVERFETCH\<rparr>"
  have "st_ok (scope_inv past V gm s S)
     (\<lambda>st. if \<not> is_restricted st then (ks_retrieve V s q, st)
           else st_bind (st_lift (ks_retrieve V s ?w))
                 (\<lambda>res. st_bind (keep_hits V gm s (rr_limit q) [] (rk_hits res))
                    (\<lambda>shown. st_ret (res\<lparr>rk_hits := shown\<rparr>))) st) ?Q"
  proof (rule restricted_ok(1) [OF assms(2)], rule st_ok_bind [OF st_ok_lift], assumption)
    fix res assume res: "ks_retrieve V s ?w = Inr res"
    show "st_ok (scope_inv past V gm s S)
       (st_bind (keep_hits V gm s (rr_limit q) [] (rk_hits res)) (\<lambda>shown. st_ret (res\<lparr>rk_hits := shown\<rparr>))) ?Q"
      by (rule st_ok_bind [OF keep_hits_ok [OF assms(1)]], rule st_ok_ret) (use res in auto)
  qed
  then show ?thesis unfolding scoped_retrieve_def [abs_def] Let_def .
qed

lemma stored_relationship_reads:
  "ks_all_relationships V s = Inr rs \<Longrightarrow> r \<in> set rs \<Longrightarrow> stored_relationship V s r"
  "ks_all_relationships_at V s at = Inr rs \<Longrightarrow> r \<in> set rs \<Longrightarrow> stored_relationship V s r"
  "ks_relationship_history V s i = Inr rs \<Longrightarrow> r \<in> set rs \<Longrightarrow> stored_relationship V s r"
  "ks_relationships_for V s i = Inr rs \<Longrightarrow> r \<in> set rs \<Longrightarrow> stored_relationship V s r"
  "ks_relationships_at V s i at = Inr rs \<Longrightarrow> r \<in> set rs \<Longrightarrow> stored_relationship V s r"
  "ks_get_relationship V s i = Inr (Some r) \<Longrightarrow> stored_relationship V s r"
  by (auto simp: stored_relationship_def)

lemma scoped_all_relationships_ok:
  assumes "store_consistent V s" "S \<noteq> []"
  shows "st_ok (scope_inv past V gm s S) (scoped_all_relationships V gm s)
     (\<lambda>ys. \<exists>rs. ks_all_relationships V s = Inr rs \<and> ys = filter (sees_rel V gm s S) rs)"
  unfolding scoped_all_relationships_def by (rule filtered_relationships_ok [OF assms]) (rule stored_relationship_reads)

lemma scoped_all_relationships_at_ok:
  assumes "store_consistent V s" "S \<noteq> []"
  shows "st_ok (scope_inv past V gm s S) (scoped_all_relationships_at V gm s at)
     (\<lambda>ys. \<exists>rs. ks_all_relationships_at V s at = Inr rs \<and> ys = filter (sees_rel V gm s S) rs)"
  unfolding scoped_all_relationships_at_def by (rule filtered_relationships_ok [OF assms]) (rule stored_relationship_reads)

lemma scoped_relationship_history_ok:
  assumes "store_consistent V s" "S \<noteq> []"
  shows "st_ok (scope_inv past V gm s S) (scoped_relationship_history V gm s i)
     (\<lambda>ys. \<exists>rs. ks_relationship_history V s i = Inr rs \<and> ys = filter (sees_rel V gm s S) rs)"
  unfolding scoped_relationship_history_def by (rule filtered_relationships_ok [OF assms]) (rule stored_relationship_reads)

lemma scoped_relationships_for_ok:
  assumes "store_consistent V s" "S \<noteq> []"
  shows "st_ok (scope_inv past V gm s S) (scoped_relationships_for V gm s i)
     (\<lambda>ys. if sees_id V gm s S i then \<exists>rs. ks_relationships_for V s i = Inr rs \<and> ys = filter (sees_rel V gm s S) rs else ys = [])"
  unfolding scoped_relationships_for_def by (rule relationships_of_node_ok [OF assms]) (rule stored_relationship_reads)

lemma scoped_relationships_at_ok:
  assumes "store_consistent V s" "S \<noteq> []"
  shows "st_ok (scope_inv past V gm s S) (scoped_relationships_at V gm s i at)
     (\<lambda>ys. if sees_id V gm s S i then \<exists>rs. ks_relationships_at V s i at = Inr rs \<and> ys = filter (sees_rel V gm s S) rs else ys = [])"
  unfolding scoped_relationships_at_def by (rule relationships_of_node_ok [OF assms]) (rule stored_relationship_reads)

lemma scoped_fact_ok:
  assumes "store_consistent V s" "S \<noteq> []"
  shows "st_ok (scope_inv past V gm s S) (scoped_fact V gm s i attr)
     (\<lambda>x. if sees_id V gm s S i then ks_fact V s i attr = Inr x else x = None)"
  unfolding scoped_fact_def by (rule guarded_ok [OF assms])

lemma scoped_audit_trail_ok:
  assumes "store_consistent V s" "S \<noteq> []"
  shows "st_ok (scope_inv past V gm s S) (scoped_audit_trail V gm s i)
     (\<lambda>x. if sees_id V gm s S i then ks_audit_trail V s i = Inr x else x = [])"
  unfolding scoped_audit_trail_def by (rule guarded_ok [OF assms])

lemma scoped_object_count_ok:
  assumes "store_consistent V s" "S \<noteq> []"
  shows "st_ok (scope_inv past V gm s S) (scoped_object_count V gm s)
     (\<lambda>n. \<exists>obs. ks_all_objects V s = Inr obs \<and> n = length (filter (sees V gm s S) obs))" (is "st_ok _ _ ?Q")
proof -
  have "st_ok (scope_inv past V gm s S)
     (\<lambda>st. if \<not> is_restricted st then (ks_object_count V s, st)
           else st_bind (scoped_all_objects V gm s) (\<lambda>os. st_ret (length os)) st) ?Q"
    by (rule restricted_ok(1) [OF assms(2)], rule st_ok_bind [OF scoped_all_objects_ok [OF assms]], rule st_ok_ret) auto
  then show ?thesis by (simp add: scoped_object_count_def [abs_def])
qed

lemma scoped_relationship_count_ok:
  assumes "store_consistent V s" "S \<noteq> []"
  shows "st_ok (scope_inv past V gm s S) (scoped_relationship_count V gm s)
     (\<lambda>n. \<exists>rs. ks_all_relationships V s = Inr rs \<and> n = length (filter (sees_rel V gm s S) rs))" (is "st_ok _ _ ?Q")
proof -
  have "st_ok (scope_inv past V gm s S)
     (\<lambda>st. if \<not> is_restricted st then (ks_relationship_count V s, st)
           else st_bind (scoped_all_relationships V gm s) (\<lambda>rs. st_ret (length rs)) st) ?Q"
    by (rule restricted_ok(1) [OF assms(2)], rule st_ok_bind [OF scoped_all_relationships_ok [OF assms]],
        rule st_ok_ret) auto
  then show ?thesis by (simp add: scoped_relationship_count_def [abs_def])
qed

lemma scoped_evidence_count_ok:
  assumes "store_consistent V s" "S \<noteq> []"
  shows "st_ok (scope_inv past V gm s S) (scoped_evidence_count V gm s)
     (\<lambda>n. \<exists>obs rs. ks_all_objects V s = Inr obs \<and> ks_all_relationships V s = Inr rs \<and>
        n = card (\<Union> (set (map (set \<circ> ko_evidence) (filter (sees V gm s S) obs))) \<union>
                  \<Union> (set (map (set \<circ> kr_evidence) (filter (sees_rel V gm s S) rs)))))" (is "st_ok _ _ ?Q")
proof -
  have "st_ok (scope_inv past V gm s S)
     (\<lambda>st. if \<not> is_restricted st then (ks_evidence_count V s, st)
           else st_bind (scoped_all_objects V gm s) (\<lambda>os.
             st_bind (scoped_all_relationships V gm s) (\<lambda>rs.
               st_ret (length (remdups (concat (map ko_evidence os) @ concat (map kr_evidence rs)))))) st) ?Q"
    by (rule restricted_ok(1) [OF assms(2)], rule st_ok_bind [OF scoped_all_objects_ok [OF assms]],
        rule st_ok_bind [OF scoped_all_relationships_ok [OF assms]], rule st_ok_ret)
      (auto simp: length_remdups_card_conv image_Un)
  then show ?thesis by (simp add: scoped_evidence_count_def [abs_def])
qed

lemma scoped_entry_count_ok:
  assumes "store_consistent V s" "S \<noteq> []"
  shows "st_ok (scope_inv past V gm s S) (scoped_entry_count V gm s) (\<lambda>_. True)"
proof -
  have "st_ok (scope_inv past V gm s S)
     (\<lambda>st. if \<not> is_restricted st then (ks_entry_count V s, st)
           else st_bind (scoped_object_count V gm s) (\<lambda>a.
             st_bind (scoped_relationship_count V gm s) (\<lambda>b.
             st_bind (scoped_evidence_count V gm s) (\<lambda>c. st_ret (a + b + c)))) st) (\<lambda>_. True)"
    by (rule restricted_ok(1) [OF assms(2)], rule st_ok_bind [OF scoped_object_count_ok [OF assms]],
        rule st_ok_bind [OF scoped_relationship_count_ok [OF assms]],
        rule st_ok_bind [OF scoped_evidence_count_ok [OF assms]], rule st_ok_ret) simp
  then show ?thesis by (simp add: scoped_entry_count_def [abs_def])
qed

lemma touched_visible_ok:
  assumes "store_consistent V s"
  shows "st_ok (scope_inv past V gm s S) (touched_visible V gm parse_id s t)
     (\<lambda>b. b \<longrightarrow> (\<exists>i. parse_id t = Some i \<and>
        (sees_id V gm s S i \<or> (\<exists>r. ks_get_relationship V s i = Inr (Some r) \<and> sees_rel V gm s S r))))" (is "st_ok _ _ ?Q")
proof (cases "parse_id t")
  case None
  then show ?thesis by (simp add: touched_visible_def st_ok_ret)
next
  case (Some i)
  have "st_ok (scope_inv past V gm s S)
     (st_bind (st_lift (ks_get_relationship V s i))
        (\<lambda>r. case r of Some rel \<Rightarrow> admit_relationship V gm s rel | None \<Rightarrow> visible_id V gm s i)) ?Q"
  proof (rule st_ok_bind [OF st_ok_lift], assumption)
    fix r assume r: "ks_get_relationship V s i = Inr r"
    show "st_ok (scope_inv past V gm s S) (case r of None \<Rightarrow> visible_id V gm s i | Some rel \<Rightarrow> admit_relationship V gm s rel) ?Q"
    proof (cases r)
      case None
      then show ?thesis using Some by (auto intro: st_ok_weaken [OF visible_id_ok [OF assms]])
    next
      case (Some rel)
      have "stored_relationship V s rel" using r Some by (auto intro: stored_relationship_reads)
      then show ?thesis
        using r Some \<open>parse_id t = Some i\<close> by (auto intro: st_ok_weaken [OF admit_relationship_ok [OF assms]])
    qed
  qed
  then show ?thesis using Some by (simp add: touched_visible_def)
qed

lemma st_ok_filter_subset:
  assumes "\<And>x. x \<in> set xs \<Longrightarrow> st_ok P (f x) (\<lambda>b. b \<longrightarrow> K x)"
  shows "st_ok P (st_filter f xs) (\<lambda>ys. set ys \<subseteq> {x \<in> set xs. K x})"
  using assms
proof (induction xs)
  case Nil
  show ?case by (simp add: st_ok_ret)
next
  case (Cons x xs)
  have tl: "st_ok P (st_filter f xs) (\<lambda>ys. set ys \<subseteq> {x \<in> set xs. K x})" using Cons by simp
  show ?case
    unfolding st_filter.simps
  proof (rule st_ok_bind)
    show "st_ok P (f x) (\<lambda>b. b \<longrightarrow> K x)" using Cons.prems by simp
    show "st_ok P (st_bind (st_filter f xs) (\<lambda>ys. st_ret (if b then x # ys else ys)))
        (\<lambda>ys. set ys \<subseteq> {y \<in> set (x # xs). K y})" if "b \<longrightarrow> K x" for b
      by (rule st_ok_bind [OF tl], rule st_ok_ret) (use that in auto)
  qed
qed

lemma scoped_diff_ok:
  assumes "store_consistent V s" "S \<noteq> []"
  shows "st_ok (scope_inv past V gm s S) (scoped_diff V gm parse_id s from to)
     (\<lambda>d. ld_added d = [] \<and> (\<forall>t \<in> set (ld_touched d). \<exists>i. parse_id t = Some i \<and>
        (sees_id V gm s S i \<or> (\<exists>r. ks_get_relationship V s i = Inr (Some r) \<and> sees_rel V gm s S r))))" (is "st_ok _ _ ?Q")
  unfolding scoped_diff_def
proof (rule st_ok_bind [OF st_ok_lift], assumption, rule restricted_ok(1) [OF assms(2)])
  fix d
  let ?K = "\<lambda>t. \<exists>i. parse_id t = Some i \<and>
        (sees_id V gm s S i \<or> (\<exists>r. ks_get_relationship V s i = Inr (Some r) \<and> sees_rel V gm s S r))"
  have "st_ok (scope_inv past V gm s S) (st_filter (touched_visible V gm parse_id s) (ld_touched d))
     (\<lambda>ys. set ys \<subseteq> {t \<in> set (ld_touched d). ?K t})"
    by (rule st_ok_filter_subset) (rule touched_visible_ok [OF assms(1)])
  then show "st_ok (scope_inv past V gm s S)
      (\<lambda>st. st_bind (st_filter (touched_visible V gm parse_id s) (ld_touched d)) (\<lambda>touched.
            st_bind (scoped_object_count V gm s) (\<lambda>a.
            st_bind (scoped_relationship_count V gm s) (\<lambda>b.
              st_ret \<lparr>ld_added = [], ld_touched = touched, ld_unchanged = a + b - length touched\<rparr>))) st) ?Q"
    by (rule st_ok_bind, intro st_ok_bind [OF scoped_object_count_ok [OF assms]]
        st_ok_bind [OF scoped_relationship_count_ok [OF assms]] st_ok_ret) auto
qed

section \<open>Sessions\<close>

text \<open>The calls of a reader, those that read objects of the past, and the state after them.\<close>

datatype read_call =
    CallGetObject kir_id | CallAllObjects | CallObjectAt kir_id int | CallAllObjectsAt int
  | CallObjectHistory kir_id | CallFact kir_id string | CallAuditTrail kir_id
  | CallGetRelationship kir_id | CallAllRelationships | CallRelationshipsFor kir_id
  | CallRelationshipsAt kir_id int | CallAllRelationshipsAt int | CallRelationshipHistory kir_id
  | CallGetEvidence kir_id | CallGetEvent kir_id | CallFindObjects string | CallRetrieve retrieval_request
  | CallEntryCount | CallObjectCount | CallRelationshipCount | CallEvidenceCount | CallDiff int int

fun reads_past :: "read_call \<Rightarrow> bool" where
  "reads_past (CallObjectAt i at) \<longleftrightarrow> True"
| "reads_past (CallAllObjectsAt at) \<longleftrightarrow> True"
| "reads_past _ \<longleftrightarrow> False"

fun after_call ::
  "('s, 'n) knowledge_store \<Rightarrow> ('g \<Rightarrow> string \<Rightarrow> bool) \<Rightarrow> (string \<Rightarrow> kir_id option) \<Rightarrow> 's \<Rightarrow> read_call \<Rightarrow>
   'g scope_state \<Rightarrow> 'g scope_state" where
  "after_call V gm parse_id s (CallGetObject i) st = snd (scoped_get_object V gm s i st)"
| "after_call V gm parse_id s CallAllObjects st = snd (scoped_all_objects V gm s st)"
| "after_call V gm parse_id s (CallObjectAt i at) st = snd (scoped_object_at V gm s i at st)"
| "after_call V gm parse_id s (CallAllObjectsAt at) st = snd (scoped_all_objects_at V gm s at st)"
| "after_call V gm parse_id s (CallObjectHistory i) st = snd (scoped_object_history V gm s i st)"
| "after_call V gm parse_id s (CallFact i a) st = snd (scoped_fact V gm s i a st)"
| "after_call V gm parse_id s (CallAuditTrail i) st = snd (scoped_audit_trail V gm s i st)"
| "after_call V gm parse_id s (CallGetRelationship i) st = snd (scoped_get_relationship V gm s i st)"
| "after_call V gm parse_id s CallAllRelationships st = snd (scoped_all_relationships V gm s st)"
| "after_call V gm parse_id s (CallRelationshipsFor i) st = snd (scoped_relationships_for V gm s i st)"
| "after_call V gm parse_id s (CallRelationshipsAt i at) st = snd (scoped_relationships_at V gm s i at st)"
| "after_call V gm parse_id s (CallAllRelationshipsAt at) st = snd (scoped_all_relationships_at V gm s at st)"
| "after_call V gm parse_id s (CallRelationshipHistory i) st = snd (scoped_relationship_history V gm s i st)"
| "after_call V gm parse_id s (CallGetEvidence i) st = snd (scoped_get_evidence V s i st)"
| "after_call V gm parse_id s (CallGetEvent i) st = snd (scoped_get_event V s i st)"
| "after_call V gm parse_id s (CallFindObjects q) st = snd (scoped_find_objects V gm s q st)"
| "after_call V gm parse_id s (CallRetrieve q) st = snd (scoped_retrieve V gm s q st)"
| "after_call V gm parse_id s CallEntryCount st = snd (scoped_entry_count V gm s st)"
| "after_call V gm parse_id s CallObjectCount st = snd (scoped_object_count V gm s st)"
| "after_call V gm parse_id s CallRelationshipCount st = snd (scoped_relationship_count V gm s st)"
| "after_call V gm parse_id s CallEvidenceCount st = snd (scoped_evidence_count V gm s st)"
| "after_call V gm parse_id s (CallDiff a b) st = snd (scoped_diff V gm parse_id s a b st)"

definition after_calls ::
  "('s, 'n) knowledge_store \<Rightarrow> ('g \<Rightarrow> string \<Rightarrow> bool) \<Rightarrow> (string \<Rightarrow> kir_id option) \<Rightarrow> 's \<Rightarrow> read_call list \<Rightarrow>
   'g scope_state \<Rightarrow> 'g scope_state" where
  "after_calls V gm parse_id s = fold (after_call V gm parse_id s)"

lemmas scoped_read_ok =
  scoped_get_object_ok scoped_all_objects_ok
  scoped_object_history_ok scoped_fact_ok scoped_audit_trail_ok scoped_get_relationship_ok
  scoped_all_relationships_ok scoped_relationships_for_ok scoped_relationships_at_ok
  scoped_all_relationships_at_ok scoped_relationship_history_ok scoped_find_objects_ok
  scoped_retrieve_ok scoped_entry_count_ok scoped_object_count_ok scoped_relationship_count_ok
  scoped_evidence_count_ok scoped_diff_ok

lemma st_ok_inv: "st_ok P m Q \<Longrightarrow> P s \<Longrightarrow> P (snd (m s))"
  by (simp add: st_ok_def)

lemma after_call_inv:
  assumes "store_consistent V s" "S \<noteq> []" "reads_past c \<longrightarrow> past" "scope_inv past V gm s S st"
  shows "scope_inv past V gm s S (after_call V gm parse_id s c st)"
proof (cases c)
  case (CallObjectAt i at)
  then show ?thesis using st_ok_inv [OF scoped_object_at_ok [OF assms(1,2)] assms(4)] assms(3) by simp
next
  case (CallAllObjectsAt at)
  then show ?thesis using st_ok_inv [OF scoped_all_objects_at_ok [OF assms(1,2)] assms(4)] assms(3) by simp
next
  case (CallGetEvidence i)
  then show ?thesis using assms(4) by (simp add: scoped_get_evidence_def)
next
  case (CallGetEvent i)
  then show ?thesis using assms(4) by (simp add: scoped_get_event_def)
qed (simp_all add: scoped_read_ok [OF assms(1,2), THEN st_ok_inv, OF assms(4)])

lemma after_calls_inv:
  assumes "store_consistent V s" "S \<noteq> []" "list_ex reads_past cs \<longrightarrow> past" "scope_inv past V gm s S st"
  shows "scope_inv past V gm s S (after_calls V gm parse_id s cs st)"
  using assms(3,4)
proof (induction cs arbitrary: st)
  case Nil
  then show ?case by (simp add: after_calls_def)
next
  case (Cons c cs)
  have "reads_past c \<longrightarrow> past" and tl: "list_ex reads_past cs \<longrightarrow> past" using Cons.prems(1) by simp_all
  from Cons.IH [OF tl after_call_inv [OF assms(1,2) this(1) Cons.prems(2), where parse_id = parse_id]]
  show ?case by (simp add: after_calls_def)
qed

lemma set_scopes_inv:
  assumes "set_scopes mk txt scs st0 = (Inr (), st)"
  shows "scope_inv past V gm s (ss_scopes st) st"
  using assms by (auto simp: set_scopes_def scope_inv_def split: sum.splits prod.splits)

lemma session_inv:
  assumes "store_consistent V s" "set_scopes mk txt scs st0 = (Inr (), st)" "is_restricted st"
    and "list_ex reads_past cs \<longrightarrow> past"
  shows "scope_inv past V gm s (ss_scopes st) (after_calls V gm parse_id s cs st)"
  by (rule after_calls_inv [OF assms(1) _ assms(4) set_scopes_inv [OF assms(2)]])
    (use assms(3) in \<open>simp add: is_restricted_def\<close>)

text \<open>The evidence of what a handle shows: of a visible current version, of a visible version in the history of a
  visible object, or of an edge with visible ends.\<close>

definition shown_evidence ::
  "('s, 'n) knowledge_store \<Rightarrow> ('g \<Rightarrow> string \<Rightarrow> bool) \<Rightarrow> 's \<Rightarrow> 'g compiled list \<Rightarrow> kir_id \<Rightarrow> bool" where
  "shown_evidence V gm s S e \<longleftrightarrow>
     (\<exists>i ob. ks_get_object V s i = Inr (Some ob) \<and> sees V gm s S ob \<and> e \<in> set (ko_evidence ob)) \<or>
     (\<exists>i obs ob. sees_id V gm s S i \<and> ks_object_history V s i = Inr obs \<and> ob \<in> set obs \<and> sees V gm s S ob \<and>
        e \<in> set (ko_evidence ob)) \<or>
     (\<exists>r. stored_relationship V s r \<and> sees_rel V gm s S r \<and> e \<in> set (kr_evidence r))"

lemma vouched_shown:
  assumes "store_consistent V s" "vouched False V gm s S e"
  shows "shown_evidence V gm s S e"
proof -
  have "\<exists>i. ks_get_object V s i = Inr (Some ob)" if "ks_all_objects V s = Inr obs" "ob \<in> set obs" for obs ob
    using assms(1) that by (auto simp: store_consistent_def)
  then show ?thesis using assms(2) unfolding vouched_def stored_version_def shown_evidence_def by blast
qed

text \<open>
  C14: Nothing hidden is ever returned.  After any calls of a restricted reader, in any order and
  with any of them failing, every object version a read returns is visible under the scopes, and a
  version from the past only when the current one is visible too; every relationship has both ends
  visible; facts, audit records, search hits and touched ids are of visible objects or edges; events are
  not returned at all.  An evidence record is one of a visible object or edge, provided none of the calls
  was \<open>object_at\<close> or \<open>all_objects_at\<close>: after those it can be one of a hidden object
  (\<open>object_at_leaks_evidence\<close>).
\<close>
theorem nothing_hidden_is_returned:
  assumes "store_consistent V s"
    and "set_scopes mk txt scs st0 = (Inr (), st1)" "is_restricted st1"
    and "S = ss_scopes st1" "st = after_calls V gm parse_id s cs st1"
  shows "(\<forall>ob. fst (scoped_get_object V gm s i st) = Inr (Some ob) \<longrightarrow> sees V gm s S ob) \<and>
    (\<forall>obs. fst (scoped_all_objects V gm s st) = Inr obs \<longrightarrow> (\<forall>ob \<in> set obs. sees V gm s S ob)) \<and>
    (\<forall>ob. fst (scoped_object_at V gm s i at st) = Inr (Some ob) \<longrightarrow> sees V gm s S ob \<and> sees_id V gm s S i) \<and>
    (\<forall>obs. fst (scoped_all_objects_at V gm s at st) = Inr obs \<longrightarrow>
       (\<forall>ob \<in> set obs. sees V gm s S ob \<and> sees_id V gm s S (ko_id ob))) \<and>
    (\<forall>obs. fst (scoped_object_history V gm s i st) = Inr obs \<longrightarrow>
       (\<forall>ob \<in> set obs. sees V gm s S ob \<and> sees_id V gm s S i)) \<and>
    (\<forall>r. fst (scoped_get_relationship V gm s i st) = Inr (Some r) \<longrightarrow> sees_rel V gm s S r) \<and>
    (\<forall>rs \<in> {rs. fst (scoped_all_relationships V gm s st) = Inr rs \<or>
              fst (scoped_all_relationships_at V gm s at st) = Inr rs \<or>
              fst (scoped_relationships_for V gm s i st) = Inr rs \<or>
              fst (scoped_relationships_at V gm s i at st) = Inr rs \<or>
              fst (scoped_relationship_history V gm s i st) = Inr rs}. \<forall>r \<in> set rs. sees_rel V gm s S r) \<and>
    (\<forall>v. fst (scoped_fact V gm s i attr st) = Inr (Some v) \<longrightarrow> sees_id V gm s S i) \<and>
    (\<forall>xs. fst (scoped_audit_trail V gm s i st) = Inr xs \<longrightarrow> xs \<noteq> [] \<longrightarrow> sees_id V gm s S i) \<and>
    (\<forall>ps. fst (scoped_find_objects V gm s q st) = Inr ps \<longrightarrow> (\<forall>p \<in> set ps. sees_id V gm s S (fst p))) \<and>
    (\<forall>x. fst (scoped_retrieve V gm s rq st) = Inr x \<longrightarrow>
       length (rk_hits x) \<le> rr_limit rq \<and> (\<forall>h \<in> set (rk_hits x). sees_id V gm s S (hi_id h))) \<and>
    (\<forall>d. fst (scoped_diff V gm parse_id s from to st) = Inr d \<longrightarrow>
       (\<forall>t \<in> set (ld_touched d). \<exists>u. parse_id t = Some u \<and>
          (sees_id V gm s S u \<or> (\<exists>r. ks_get_relationship V s u = Inr (Some r) \<and> sees_rel V gm s S r)))) \<and>
    (\<not> list_ex reads_past cs \<longrightarrow>
       (\<forall>e. fst (scoped_get_evidence V s i st) = Inr (Some e) \<longrightarrow> shown_evidence V gm s S i)) \<and>
    fst (scoped_get_event V s i st) = Inr None"
proof -
  have S: "S \<noteq> []" using assms(3,4) by (simp add: is_restricted_def)
  have inv: "scope_inv (list_ex reads_past cs) V gm s S st" and inv_past: "scope_inv True V gm s S st"
    using session_inv [OF assms(1-3), of cs] assms(4,5) by simp_all
  have restr: "is_restricted st" using inv S by (simp add: scope_inv_def is_restricted_def)
  note ok = scoped_read_ok [OF assms(1) S, THEN st_okD, OF inv, THEN conjunct2, rule_format]
  note ok_at = scoped_object_at_ok [OF assms(1) S TrueI, THEN st_okD, OF inv_past, THEN conjunct2, rule_format]
  note ok_all_at = scoped_all_objects_at_ok [OF assms(1) S TrueI, THEN st_okD, OF inv_past, THEN conjunct2, rule_format]
  show ?thesis
  proof (intro conjI allI impI ballI)
    fix ob assume "fst (scoped_get_object V gm s i st) = Inr (Some ob)"
    from ok(1) [OF this] show "sees V gm s S ob" by (auto split: option.splits if_splits)
  next
    fix obs ob assume "fst (scoped_all_objects V gm s st) = Inr obs" "ob \<in> set obs"
    with ok(2) show "sees V gm s S ob" by fastforce
  next
    fix ob assume "fst (scoped_object_at V gm s i at st) = Inr (Some ob)"
    from ok_at [OF this] show "sees V gm s S ob" "sees_id V gm s S i" by (auto split: option.splits if_splits)
  next
    fix obs ob assume *: "fst (scoped_all_objects_at V gm s at st) = Inr obs" "ob \<in> set obs"
    from ok_all_at [OF *(1)] *(2) show "sees V gm s S ob" "sees_id V gm s S (ko_id ob)" by auto
  next
    fix obs ob assume *: "fst (scoped_object_history V gm s i st) = Inr obs" "ob \<in> set obs"
    from ok(3) [OF *(1)] *(2) show "sees V gm s S ob" "sees_id V gm s S i" by (auto split: if_splits)
  next
    fix r assume "fst (scoped_get_relationship V gm s i st) = Inr (Some r)"
    from ok(6) [OF this] show "sees_rel V gm s S r" by (auto split: option.splits if_splits)
  next
    fix rs r assume "rs \<in> {rs. fst (scoped_all_relationships V gm s st) = Inr rs \<or>
              fst (scoped_all_relationships_at V gm s at st) = Inr rs \<or>
              fst (scoped_relationships_for V gm s i st) = Inr rs \<or>
              fst (scoped_relationships_at V gm s i at st) = Inr rs \<or>
              fst (scoped_relationship_history V gm s i st) = Inr rs}" "r \<in> set rs"
    then show "sees_rel V gm s S r"
      by (auto dest!: ok(7) ok(8) ok(9) ok(10) ok(11) split: if_splits)
  next
    fix v assume "fst (scoped_fact V gm s i attr st) = Inr (Some v)"
    from ok(4) [OF this] show "sees_id V gm s S i" by (auto split: if_splits)
  next
    fix xs assume "fst (scoped_audit_trail V gm s i st) = Inr xs" "xs \<noteq> []"
    then show "sees_id V gm s S i" by (auto dest!: ok(5) split: if_splits)
  next
    fix ps p assume *: "fst (scoped_find_objects V gm s q st) = Inr ps" "p \<in> set ps"
    from ok(12) [OF *(1)] *(2) show "sees_id V gm s S (fst p)" by auto
  next
    fix x assume "fst (scoped_retrieve V gm s rq st) = Inr x"
    from ok(13) [OF this] show "length (rk_hits x) \<le> rr_limit rq" by auto
  next
    fix x h assume *: "fst (scoped_retrieve V gm s rq st) = Inr x" "h \<in> set (rk_hits x)"
    from ok(13) [OF *(1)] *(2) show "sees_id V gm s S (hi_id h)" by (auto dest!: in_set_takeD)
  next
    fix d t assume *: "fst (scoped_diff V gm parse_id s from to st) = Inr d" "t \<in> set (ld_touched d)"
    from ok(18) [OF *(1)] *(2) show "\<exists>u. parse_id t = Some u \<and>
          (sees_id V gm s S u \<or> (\<exists>r. ks_get_relationship V s u = Inr (Some r) \<and> sees_rel V gm s S r))" by blast
  next
    fix e assume "\<not> list_ex reads_past cs" "fst (scoped_get_evidence V s i st) = Inr (Some e)"
    then have "vouched False V gm s S i" using restr inv by (auto simp: scoped_get_evidence_def scope_inv_def split: if_splits)
    then show "shown_evidence V gm s S i" by (rule vouched_shown [OF assms(1)])
  next
    show "fst (scoped_get_event V s i st) = Inr None" using restr by (simp add: scoped_get_event_def)
  qed
qed

section \<open>The wrapper is the store of the visible part\<close>

text \<open>The point reads and the bulk reads of the inner store agree and do not fail.\<close>

definition reads_agree :: "('s, 'n) knowledge_store \<Rightarrow> 's \<Rightarrow> 'n kir_object list \<Rightarrow> 'n kir_relationship list \<Rightarrow> bool" where
  "reads_agree V s obs rs \<longleftrightarrow>
     ks_all_objects V s = Inr obs \<and> distinct (map ko_id obs) \<and>
     (\<forall>i. ks_get_object V s i = Inr (find (\<lambda>ob. ko_id ob = i) obs)) \<and>
     ks_all_relationships V s = Inr rs \<and> distinct (map kr_id rs) \<and>
     (\<forall>i. ks_get_relationship V s i = Inr (find (\<lambda>r. kr_id r = i) rs)) \<and>
     (\<forall>i. \<exists>xs. ks_relationships_for V s i = Inr xs \<and> set xs = {r \<in> set rs. kr_from r = i \<or> kr_to r = i}) \<and>
     (\<forall>i. \<exists>x. ks_get_evidence V s i = Inr x)"

lemma reads_agree_consistent: "reads_agree V s obs rs \<Longrightarrow> store_consistent V s"
  unfolding store_consistent_def reads_agree_def by (auto simp: find_distinct dest: find_SomeD)

definition st_total :: "('t \<Rightarrow> ('e + 'a) \<times> 't) \<Rightarrow> bool" where
  "st_total m \<longleftrightarrow> (\<forall>s. \<exists>x s'. m s = (Inr x, s'))"

lemma st_total_simps:
  "st_total (st_ret x)" "st_total (st_lift r) \<longleftrightarrow> (\<exists>x. r = Inr x)"
  by (simp_all add: st_total_def st_ret_def st_lift_def)

lemma st_total_bind: "st_total m \<Longrightarrow> (\<And>x. st_total (k x)) \<Longrightarrow> st_total (st_bind m k)"
proof -
  assume m: "st_total m" and k: "\<And>x. st_total (k x)"
  have "\<exists>y s''. st_bind m k s = (Inr y, s'')" for s
  proof -
    obtain x s' where "m s = (Inr x, s')" using m unfolding st_total_def by blast
    moreover obtain y s'' where "k x s' = (Inr y, s'')" using k unfolding st_total_def by blast
    ultimately show ?thesis by (simp add: st_bind_def)
  qed
  then show ?thesis by (simp add: st_total_def)
qed

lemma st_total_and: "st_total a \<Longrightarrow> st_total b \<Longrightarrow> st_total (st_and a b)"
  unfolding st_and_def by (intro st_total_bind) (auto simp: st_total_simps)

lemma st_total_filter: "(\<And>x. st_total (f x)) \<Longrightarrow> st_total (st_filter f xs)"
  by (induction xs) (auto intro!: st_total_bind simp: st_total_simps)

lemma st_total_state: "(\<And>st. st_total (f st)) \<Longrightarrow> st_total (\<lambda>st. f st st)"
  by (simp add: st_total_def)

lemma st_total_if: "st_total a \<Longrightarrow> st_total b \<Longrightarrow> st_total (\<lambda>st. if c st then a st else b st)"
  by (simp add: st_total_def)

lemma evidence_paths_total:
  "(\<And>i. \<exists>x. ks_get_evidence V s i = Inr x) \<Longrightarrow> \<exists>ps. evidence_paths V s is = Inr ps"
proof (induction "is")
  case Nil
  then show ?case by simp
next
  case (Cons i "is")
  then obtain ps where "evidence_paths V s is = Inr ps" by blast
  moreover obtain x where "ks_get_evidence V s i = Inr x" using Cons.prems by blast
  ultimately show ?case by (cases x) simp_all
qed

lemma decide_total:
  assumes "\<And>i. \<exists>x. ks_get_evidence V s i = Inr x"
  shows "decide_scope V gm s S ob = Inr (sees V gm s S ob)"
proof -
  obtain ps where "evidence_paths V s (ko_evidence ob) = Inr ps" using evidence_paths_total [OF assms] by blast
  then obtain v where v: "decide_scope V gm s S ob = Inr v"
    by (cases "list_ex co_has_path_rules S") (simp_all add: decide_scope_def Let_def)
  then show ?thesis using decide_sees [OF v] by simp
qed

lemma admit_total: "(\<And>i. \<exists>x. ks_get_evidence V s i = Inr x) \<Longrightarrow> st_total (admit V gm s current ob)"
  by (simp add: st_total_def admit_def decide_total Let_def)

lemma visible_id_total:
  assumes "\<And>i. \<exists>x. ks_get_evidence V s i = Inr x" "\<And>i. \<exists>x. ks_get_object V s i = Inr x"
  shows "st_total (visible_id V gm s i)"
  unfolding st_total_def
proof
  fix st
  obtain x where x: "ks_get_object V s i = Inr x" using assms(2) by blast
  have adm: "\<exists>v st'. admit V gm s True ob st = (Inr v, st')" for ob
    using admit_total [OF assms(1), where gm = gm and current = True] unfolding st_total_def by blast
  show "\<exists>v st'. visible_id V gm s i st = (Inr v, st')"
    by (cases "ss_seen st i"; cases x) (use x adm in \<open>auto simp: visible_id_def\<close>)
qed

lemma admit_relationship_total:
  assumes "\<And>i. \<exists>x. ks_get_evidence V s i = Inr x" "\<And>i. \<exists>x. ks_get_object V s i = Inr x"
  shows "st_total (admit_relationship V gm s r)"
  unfolding admit_relationship_def
  by (intro st_total_bind st_total_and visible_id_total [OF assms]) (simp add: st_total_def)

text \<open>What a total read returns, from its triple.\<close>

lemma st_result:
  assumes "st_ok P m Q" "st_total m" "P s"
  shows "\<exists>x. fst (m s) = Inr x \<and> Q x"
  using assms by (metis fst_conv st_okD st_total_def)

definition view_objects ::
  "('s, 'n) knowledge_store \<Rightarrow> ('g \<Rightarrow> string \<Rightarrow> bool) \<Rightarrow> 's \<Rightarrow> 'g compiled list \<Rightarrow> 'n kir_object list \<Rightarrow> 'n kir_object list" where
  "view_objects V gm s S obs = filter (sees V gm s S) obs"

definition view_relationships ::
  "('s, 'n) knowledge_store \<Rightarrow> ('g \<Rightarrow> string \<Rightarrow> bool) \<Rightarrow> 's \<Rightarrow> 'g compiled list \<Rightarrow> 'n kir_relationship list \<Rightarrow>
   'n kir_relationship list" where
  "view_relationships V gm s S rs = filter (sees_rel V gm s S) rs"

lemma scoped_totals:
  assumes "reads_agree V s obs rs"
  shows "st_total (scoped_all_objects V gm s)" "st_total (scoped_get_object V gm s i)"
    "st_total (scoped_all_relationships V gm s)" "st_total (scoped_get_relationship V gm s i)"
    "st_total (scoped_relationships_for V gm s i)"
proof -
  have ev: "\<exists>x. ks_get_evidence V s i = Inr x" and ob: "\<exists>x. ks_get_object V s i = Inr x" for i
    using assms by (auto simp: reads_agree_def)
  have all: "\<exists>x. ks_all_objects V s = Inr x" "\<exists>x. ks_all_relationships V s = Inr x"
    "\<exists>x. ks_get_relationship V s i = Inr x" "\<exists>x. ks_relationships_for V s i = Inr x"
    using assms unfolding reads_agree_def by blast+
  note adm = admit_total [OF ev] and vis = visible_id_total [OF ev ob] and rel = admit_relationship_total [OF ev ob]
  have keep: "st_total (keep_objects V gm s c xs)" "st_total (keep_relationships V gm s ys)" for c xs ys
    unfolding keep_objects_def keep_relationships_def by (intro st_total_filter adm rel)+
  show "st_total (scoped_all_objects V gm s)"
    unfolding scoped_all_objects_def
    by (intro st_total_bind st_total_if keep) (use all in \<open>simp_all add: st_total_simps\<close>)
  show "st_total (scoped_all_relationships V gm s)"
    unfolding scoped_all_relationships_def filtered_relationships_def
    by (intro st_total_bind st_total_if keep) (use all in \<open>simp_all add: st_total_simps\<close>)
  show "st_total (scoped_relationships_for V gm s i)"
    unfolding scoped_relationships_for_def relationships_of_node_def [abs_def]
    by (intro st_total_bind st_total_if vis) (use all keep in \<open>auto intro!: st_total_bind simp: st_total_simps\<close>)
  have "st_total (\<lambda>st. case x of None \<Rightarrow> st_ret None st
     | Some y \<Rightarrow> st_bind (admit V gm s True y) (\<lambda>v. st_ret (if v then Some y else None)) st)" for x
    by (cases x) (auto intro!: st_total_bind adm simp: st_total_simps)
  then show "st_total (scoped_get_object V gm s i)"
    unfolding scoped_get_object_def
    by (intro st_total_bind st_total_if) (use ob in \<open>simp_all add: st_total_simps\<close>)
  have "st_total (\<lambda>st. case x of None \<Rightarrow> st_ret None st
     | Some y \<Rightarrow> st_bind (admit_relationship V gm s y) (\<lambda>v. st_ret (if v then Some y else None)) st)" for x
    by (cases x) (auto intro!: st_total_bind rel simp: st_total_simps)
  then show "st_total (scoped_get_relationship V gm s i)"
    unfolding scoped_get_relationship_def
    by (intro st_total_bind st_total_if) (use all in \<open>simp_all add: st_total_simps\<close>)
qed

text \<open>
  The other reads do not fail where the inner read does not: the hypothesis is that evidence and objects
  can be read.
\<close>

lemma scoped_other_totals:
  assumes ev: "\<And>i. \<exists>x. ks_get_evidence V s i = Inr x" and ob: "\<And>i. \<exists>x. ks_get_object V s i = Inr x"
  shows "ks_object_at V s i at = Inr a \<Longrightarrow> st_total (scoped_object_at V gm s i at)"
    "ks_all_objects_at V s at = Inr b \<Longrightarrow> st_total (scoped_all_objects_at V gm s at)"
    "ks_object_history V s i = Inr c \<Longrightarrow> st_total (scoped_object_history V gm s i)"
    "inner = Inr d \<Longrightarrow> st_total (filtered_relationships V gm s inner)"
    "inner = Inr d \<Longrightarrow> st_total (relationships_of_node V gm s i inner)"
    "other = Inr e \<Longrightarrow> st_total (guarded V gm s i none other)"
    "ks_find_objects V s q = Inr f \<Longrightarrow> st_total (scoped_find_objects V gm s q)"
proof -
  note adm = admit_total [OF ev] and vis = visible_id_total [OF ev ob] and rel = admit_relationship_total [OF ev ob]
  have keep: "st_total (keep_objects V gm s c xs)" "st_total (keep_relationships V gm s ys)" for c xs ys
    unfolding keep_objects_def keep_relationships_def by (intro st_total_filter adm rel)+
  have at: "st_total (\<lambda>st. case x of None \<Rightarrow> st_ret None st
     | Some y \<Rightarrow> st_bind (st_and (admit V gm s False y) (visible_id V gm s i)) (\<lambda>v. st_ret (if v then Some y else None)) st)" for x
    by (cases x) (auto intro!: st_total_bind st_total_and adm vis simp: st_total_simps)
  show "ks_object_at V s i at = Inr a \<Longrightarrow> st_total (scoped_object_at V gm s i at)"
    unfolding scoped_object_at_def by (intro st_total_bind st_total_if at) (simp_all add: st_total_simps)
  show "ks_all_objects_at V s at = Inr b \<Longrightarrow> st_total (scoped_all_objects_at V gm s at)"
    unfolding scoped_all_objects_at_def
    by (intro st_total_bind st_total_if st_total_filter st_total_and adm vis) (simp_all add: st_total_simps)
  have hist: "st_total (st_bind (visible_id V gm s i) (\<lambda>v. if \<not> v then st_ret [] else keep_objects V gm s False xs))" for xs
    by (rule st_total_bind [OF vis]) (simp add: st_total_simps keep)
  show "ks_object_history V s i = Inr c \<Longrightarrow> st_total (scoped_object_history V gm s i)"
    unfolding scoped_object_history_def by (intro st_total_bind st_total_if hist) (simp_all add: st_total_simps)
  show "inner = Inr d \<Longrightarrow> st_total (filtered_relationships V gm s inner)"
    unfolding filtered_relationships_def by (intro st_total_bind st_total_if keep) (simp_all add: st_total_simps)
  have node: "st_total (if \<not> v then st_ret [] else st_bind (st_lift inner) (keep_relationships V gm s))" if "inner = Inr d" for v
  proof (cases v)
    case True
    have "st_total (st_bind (st_lift inner) (keep_relationships V gm s))"
      by (rule st_total_bind [OF _ keep(2)]) (simp add: st_total_simps that)
    then show ?thesis using True by simp
  qed (simp add: st_total_simps)
  show "inner = Inr d \<Longrightarrow> st_total (relationships_of_node V gm s i inner)"
    unfolding relationships_of_node_def [abs_def] by (intro st_total_if st_total_bind vis node) (simp_all add: st_total_simps)
  show "other = Inr e \<Longrightarrow> st_total (guarded V gm s i none other)"
    unfolding guarded_def [abs_def] by (intro st_total_if st_total_bind vis) (simp_all add: st_total_simps)
  show "ks_find_objects V s q = Inr f \<Longrightarrow> st_total (scoped_find_objects V gm s q)"
    unfolding scoped_find_objects_def by (intro st_total_bind st_total_if st_total_filter vis) (simp_all add: st_total_simps)
qed

lemma keep_hits_total:
  assumes "\<And>i. \<exists>x. ks_get_evidence V s i = Inr x" "\<And>i. \<exists>x. ks_get_object V s i = Inr x"
  shows "st_total (keep_hits V gm s limit shown hs)"
proof (induction hs arbitrary: shown)
  case (Cons h hs)
  have "st_total (st_bind (visible_id V gm s (hi_id h)) (\<lambda>v. keep_hits V gm s limit (if v then shown @ [h] else shown) hs))"
    by (intro st_total_bind visible_id_total [OF assms] Cons.IH)
  then show ?case by (cases "limit \<le> length shown") (simp_all add: st_total_simps)
qed (simp add: st_total_simps)

lemma scoped_retrieve_total:
  assumes "\<And>i. \<exists>x. ks_get_evidence V s i = Inr x" "\<And>i. \<exists>x. ks_get_object V s i = Inr x"
    and "ks_retrieve V s (q\<lparr>rr_limit := saturating_mul (rr_limit q) OVERFETCH,
              rr_per_arm_limit := saturating_mul (rr_per_arm_limit q) OVERFETCH\<rparr>) = Inr res" "is_restricted st"
  shows "\<exists>x. fst (scoped_retrieve V gm s q st) = Inr x"
proof -
  let ?m = "st_bind (st_lift (Inr res)) (\<lambda>res. st_bind (keep_hits V gm s (rr_limit q) [] (rk_hits res))
      (\<lambda>shown. st_ret (res\<lparr>rk_hits := shown\<rparr>)))"
  have "st_total ?m" by (intro st_total_bind keep_hits_total [OF assms(1,2)]) (simp_all add: st_total_simps)
  then obtain x st' where "?m st = (Inr x, st')" unfolding st_total_def by blast
  moreover have "scoped_retrieve V gm s q st = ?m st" using assms(3,4) by (simp add: scoped_retrieve_def Let_def)
  ultimately show ?thesis by simp
qed

text \<open>
  What the other reads of a restricted handle answer, given what the inner store answers them: the reads of
  the past and the histories filter the inner answer, the reads about one object answer for a visible one
  only, and the searches leave out what is hidden.
\<close>

lemma other_reads_filtered:
  assumes cons: "store_consistent V s" and ev: "\<And>i. \<exists>x. ks_get_evidence V s i = Inr x"
    and ob: "\<And>i. \<exists>x. ks_get_object V s i = Inr x" and S: "S \<noteq> []" and inv: "scope_inv True V gm s S st"
  shows "ks_object_at V s i at = Inr found \<Longrightarrow> fst (scoped_object_at V gm s i at st) =
      Inr (case found of None \<Rightarrow> None | Some ob \<Rightarrow> if sees V gm s S ob \<and> sees_id V gm s S i then Some ob else None)"
    "ks_all_objects_at V s at = Inr obs \<Longrightarrow> fst (scoped_all_objects_at V gm s at st) =
      Inr (filter (\<lambda>ob. sees V gm s S ob \<and> sees_id V gm s S (ko_id ob)) obs)"
    "ks_object_history V s i = Inr obs \<Longrightarrow> fst (scoped_object_history V gm s i st) =
      Inr (if sees_id V gm s S i then filter (sees V gm s S) obs else [])"
    "ks_all_relationships_at V s at = Inr rs \<Longrightarrow> fst (scoped_all_relationships_at V gm s at st) = Inr (filter (sees_rel V gm s S) rs)"
    "ks_relationships_at V s i at = Inr rs \<Longrightarrow> fst (scoped_relationships_at V gm s i at st) =
      Inr (if sees_id V gm s S i then filter (sees_rel V gm s S) rs else [])"
    "ks_relationship_history V s i = Inr rs \<Longrightarrow> fst (scoped_relationship_history V gm s i st) = Inr (filter (sees_rel V gm s S) rs)"
    "ks_fact V s i attr = Inr v \<Longrightarrow> fst (scoped_fact V gm s i attr st) = Inr (if sees_id V gm s S i then v else None)"
    "ks_audit_trail V s i = Inr trail \<Longrightarrow> fst (scoped_audit_trail V gm s i st) = Inr (if sees_id V gm s S i then trail else [])"
    "ks_find_objects V s q = Inr ps \<Longrightarrow> fst (scoped_find_objects V gm s q st) = Inr (filter (\<lambda>p. sees_id V gm s S (fst p)) ps)"
    "ks_retrieve V s (rq\<lparr>rr_limit := saturating_mul (rr_limit rq) OVERFETCH,
        rr_per_arm_limit := saturating_mul (rr_per_arm_limit rq) OVERFETCH\<rparr>) = Inr res \<Longrightarrow>
      fst (scoped_retrieve V gm s rq st) =
        Inr (res\<lparr>rk_hits := take (rr_limit rq) (filter (\<lambda>h. sees_id V gm s S (hi_id h)) (rk_hits res))\<rparr>)"
proof -
  note tot = scoped_other_totals [OF ev ob]
  show "ks_object_at V s i at = Inr found \<Longrightarrow> fst (scoped_object_at V gm s i at st) =
      Inr (case found of None \<Rightarrow> None | Some ob \<Rightarrow> if sees V gm s S ob \<and> sees_id V gm s S i then Some ob else None)"
    using st_result [OF scoped_object_at_ok [OF cons S TrueI] tot(1) inv] by auto
  show "ks_all_objects_at V s at = Inr obs \<Longrightarrow> fst (scoped_all_objects_at V gm s at st) =
      Inr (filter (\<lambda>ob. sees V gm s S ob \<and> sees_id V gm s S (ko_id ob)) obs)"
    using st_result [OF scoped_all_objects_at_ok [OF cons S TrueI] tot(2) inv] by auto
  show "ks_object_history V s i = Inr obs \<Longrightarrow> fst (scoped_object_history V gm s i st) =
      Inr (if sees_id V gm s S i then filter (sees V gm s S) obs else [])"
    using st_result [OF scoped_object_history_ok [OF cons S] tot(3) inv] by auto
  show "ks_all_relationships_at V s at = Inr rs \<Longrightarrow> fst (scoped_all_relationships_at V gm s at st) = Inr (filter (sees_rel V gm s S) rs)"
    using st_result [OF scoped_all_relationships_at_ok [OF cons S] tot(4) [where inner = "ks_all_relationships_at V s at", folded scoped_all_relationships_at_def] inv] by auto
  show "ks_relationships_at V s i at = Inr rs \<Longrightarrow> fst (scoped_relationships_at V gm s i at st) =
      Inr (if sees_id V gm s S i then filter (sees_rel V gm s S) rs else [])"
    using st_result [OF scoped_relationships_at_ok [OF cons S] tot(5) [where i = i and inner = "ks_relationships_at V s i at", folded scoped_relationships_at_def] inv]
    by (auto split: if_splits)
  show "ks_relationship_history V s i = Inr rs \<Longrightarrow> fst (scoped_relationship_history V gm s i st) = Inr (filter (sees_rel V gm s S) rs)"
    using st_result [OF scoped_relationship_history_ok [OF cons S] tot(4) [where inner = "ks_relationship_history V s i", folded scoped_relationship_history_def] inv] by auto
  show "ks_fact V s i attr = Inr v \<Longrightarrow> fst (scoped_fact V gm s i attr st) = Inr (if sees_id V gm s S i then v else None)"
    using st_result [OF scoped_fact_ok [OF cons S] tot(6) [where i = i and none = None and other = "ks_fact V s i attr", folded scoped_fact_def] inv] by (auto split: if_splits)
  show "ks_audit_trail V s i = Inr trail \<Longrightarrow> fst (scoped_audit_trail V gm s i st) = Inr (if sees_id V gm s S i then trail else [])"
    using st_result [OF scoped_audit_trail_ok [OF cons S] tot(6) [where i = i and none = "[]" and other = "ks_audit_trail V s i", folded scoped_audit_trail_def] inv] by (auto split: if_splits)
  show "ks_find_objects V s q = Inr ps \<Longrightarrow> fst (scoped_find_objects V gm s q st) = Inr (filter (\<lambda>p. sees_id V gm s S (fst p)) ps)"
    using st_result [OF scoped_find_objects_ok [OF cons S] tot(7) inv] by auto
  assume res: "ks_retrieve V s (rq\<lparr>rr_limit := saturating_mul (rr_limit rq) OVERFETCH,
      rr_per_arm_limit := saturating_mul (rr_per_arm_limit rq) OVERFETCH\<rparr>) = Inr res"
  have "is_restricted st" using inv S by (simp add: scope_inv_def is_restricted_def)
  then obtain x where "fst (scoped_retrieve V gm s rq st) = Inr x" using scoped_retrieve_total [OF ev ob res] by blast
  then show "fst (scoped_retrieve V gm s rq st) =
      Inr (res\<lparr>rk_hits := take (rr_limit rq) (filter (\<lambda>h. sees_id V gm s S (hi_id h)) (rk_hits res))\<rparr>)"
    using st_okD [OF scoped_retrieve_ok [OF cons S] inv, of rq] res by auto
qed

text \<open>
  C15: A restricted handle is the store of the visible part.  When the reads of the inner store
  agree with each other, then after any calls the bulk reads return exactly the visible objects and
  the relationships with both ends visible, the point reads agree with them, the relationships of a
  node are those of the view that touch it, and the counters count the view: the caches are never
  observable and hidden entries influence no answer.  The reads of the past and the histories return
  what is visible of the inner answer, a fact or an audit trail is answered for a visible object only, the
  name search and the retrieval leave out what is hidden (the retrieval of what a fourfold wider one finds).
\<close>
theorem scoped_store_is_the_view:
  assumes "reads_agree V s obs rs"
    and "set_scopes mk txt scs st0 = (Inr (), st1)" "is_restricted st1"
    and "S = ss_scopes st1" "st = after_calls V gm parse_id s cs st1"
    and "vo = view_objects V gm s S obs" "vr = view_relationships V gm s S rs"
  shows "fst (scoped_all_objects V gm s st) = Inr vo \<and>
    fst (scoped_get_object V gm s i st) = Inr (find (\<lambda>ob. ko_id ob = i) vo) \<and>
    fst (scoped_all_relationships V gm s st) = Inr vr \<and>
    fst (scoped_get_relationship V gm s i st) = Inr (find (\<lambda>r. kr_id r = i) vr) \<and>
    (\<exists>xs. fst (scoped_relationships_for V gm s i st) = Inr xs \<and>
       set xs = {r \<in> set vr. kr_from r = i \<or> kr_to r = i}) \<and>
    fst (scoped_object_count V gm s st) = Inr (length vo) \<and>
    fst (scoped_relationship_count V gm s st) = Inr (length vr) \<and>
    fst (scoped_evidence_count V gm s st) =
      Inr (card (\<Union> (set (map (set \<circ> ko_evidence) vo)) \<union> \<Union> (set (map (set \<circ> kr_evidence) vr)))) \<and>
    (\<forall>found. ks_object_at V s i at = Inr found \<longrightarrow> fst (scoped_object_at V gm s i at st) =
       Inr (case found of None \<Rightarrow> None | Some ob \<Rightarrow> if sees V gm s S ob \<and> sees_id V gm s S i then Some ob else None)) \<and>
    (\<forall>os. ks_all_objects_at V s at = Inr os \<longrightarrow> fst (scoped_all_objects_at V gm s at st) =
       Inr (filter (\<lambda>ob. sees V gm s S ob \<and> sees_id V gm s S (ko_id ob)) os)) \<and>
    (\<forall>os. ks_object_history V s i = Inr os \<longrightarrow> fst (scoped_object_history V gm s i st) =
       Inr (if sees_id V gm s S i then filter (sees V gm s S) os else [])) \<and>
    (\<forall>xs. ks_all_relationships_at V s at = Inr xs \<longrightarrow>
       fst (scoped_all_relationships_at V gm s at st) = Inr (filter (sees_rel V gm s S) xs)) \<and>
    (\<forall>xs. ks_relationships_at V s i at = Inr xs \<longrightarrow> fst (scoped_relationships_at V gm s i at st) =
       Inr (if sees_id V gm s S i then filter (sees_rel V gm s S) xs else [])) \<and>
    (\<forall>xs. ks_relationship_history V s i = Inr xs \<longrightarrow>
       fst (scoped_relationship_history V gm s i st) = Inr (filter (sees_rel V gm s S) xs)) \<and>
    (\<forall>v. ks_fact V s i attr = Inr v \<longrightarrow>
       fst (scoped_fact V gm s i attr st) = Inr (if sees_id V gm s S i then v else None)) \<and>
    (\<forall>trail. ks_audit_trail V s i = Inr trail \<longrightarrow>
       fst (scoped_audit_trail V gm s i st) = Inr (if sees_id V gm s S i then trail else [])) \<and>
    (\<forall>ps. ks_find_objects V s q = Inr ps \<longrightarrow>
       fst (scoped_find_objects V gm s q st) = Inr (filter (\<lambda>p. sees_id V gm s S (fst p)) ps)) \<and>
    (\<forall>res. ks_retrieve V s (rq\<lparr>rr_limit := saturating_mul (rr_limit rq) OVERFETCH,
         rr_per_arm_limit := saturating_mul (rr_per_arm_limit rq) OVERFETCH\<rparr>) = Inr res \<longrightarrow>
       fst (scoped_retrieve V gm s rq st) =
         Inr (res\<lparr>rk_hits := take (rr_limit rq) (filter (\<lambda>h. sees_id V gm s S (hi_id h)) (rk_hits res))\<rparr>))"
proof -
  note cons = reads_agree_consistent [OF assms(1)]
  have S: "S \<noteq> []" using assms(3,4) by (simp add: is_restricted_def)
  have inv: "scope_inv True V gm s S st" using session_inv [OF cons assms(2,3), of cs True] assms(4,5) by simp
  have restr: "is_restricted st'" if "scope_inv True V gm s S st'" for st'
    using that S by (simp add: scope_inv_def is_restricted_def)
  note ag = assms(1) [unfolded reads_agree_def]
  note tot = scoped_totals [OF assms(1)]
  have objs: "fst (scoped_all_objects V gm s st') = Inr vo" if "scope_inv True V gm s S st'" for st'
    using st_result [OF scoped_all_objects_ok [OF cons S] tot(1) that] ag assms(6) by (auto simp: view_objects_def)
  have rels: "fst (scoped_all_relationships V gm s st') = Inr vr" if "scope_inv True V gm s S st'" for st'
    using st_result [OF scoped_all_relationships_ok [OF cons S] tot(3) that] ag assms(7) by (auto simp: view_relationships_def)
  have oinv: "scope_inv True V gm s S (snd (scoped_all_objects V gm s st))"
    by (rule st_ok_inv [OF scoped_all_objects_ok [OF cons S] inv])
  have get: "fst (scoped_get_object V gm s i st) = Inr (find (\<lambda>ob. ko_id ob = i) vo)"
    using st_result [OF scoped_get_object_ok [OF cons S] tot(2) inv, of i] ag find_filter_distinct [of ko_id obs]
    unfolding assms(6) view_objects_def by auto
  have getr: "fst (scoped_get_relationship V gm s i st) = Inr (find (\<lambda>r. kr_id r = i) vr)"
    using st_result [OF scoped_get_relationship_ok [OF cons S] tot(4) inv, of i] ag find_filter_distinct [of kr_id rs]
    unfolding assms(7) view_relationships_def by auto
  obtain xs where xs: "ks_relationships_for V s i = Inr xs" "set xs = {r \<in> set rs. kr_from r = i \<or> kr_to r = i}"
    using ag by blast
  obtain ys where ys: "fst (scoped_relationships_for V gm s i st) = Inr ys"
    "if sees_id V gm s S i then \<exists>rs. ks_relationships_for V s i = Inr rs \<and> ys = filter (sees_rel V gm s S) rs else ys = []"
    using st_result [OF scoped_relationships_for_ok [OF cons S] tot(5) inv, of i] by blast
  have "set ys = {r \<in> set vr. kr_from r = i \<or> kr_to r = i}"
  proof (cases "sees_id V gm s S i")
    case True
    then show ?thesis using ys(2) xs unfolding assms(7) view_relationships_def by auto
  next
    case False
    then show ?thesis using ys(2) unfolding assms(7) view_relationships_def by (auto simp: sees_rel_def)
  qed
  then have node: "\<exists>ys. fst (scoped_relationships_for V gm s i st) = Inr ys \<and>
       set ys = {r \<in> set vr. kr_from r = i \<or> kr_to r = i}" using ys(1) by blast
  have oc: "fst (scoped_object_count V gm s st) = Inr (length vo)"
    using objs [OF inv] restr [OF inv]
    by (cases "scoped_all_objects V gm s st") (simp add: scoped_object_count_def st_bind_def st_ret_def)
  have rc: "fst (scoped_relationship_count V gm s st) = Inr (length vr)"
    using rels [OF inv] restr [OF inv]
    by (cases "scoped_all_relationships V gm s st") (simp add: scoped_relationship_count_def st_bind_def st_ret_def)
  have ec: "fst (scoped_evidence_count V gm s st) =
      Inr (card (\<Union> (set (map (set \<circ> ko_evidence) vo)) \<union> \<Union> (set (map (set \<circ> kr_evidence) vr))))"
  proof (cases "scoped_all_objects V gm s st")
    case (Pair r st')
    then have "r = Inr vo" "fst (scoped_all_relationships V gm s st') = Inr vr"
      using objs [OF inv] oinv rels [of st'] by simp_all
    then show ?thesis
      using Pair restr [OF inv] by (cases "scoped_all_relationships V gm s st'")
        (simp add: scoped_evidence_count_def st_bind_def st_ret_def length_remdups_card_conv)
  qed
  have ev: "\<exists>x. ks_get_evidence V s i = Inr x" and ob: "\<exists>x. ks_get_object V s i = Inr x" for i using ag by auto
  note other = other_reads_filtered [OF cons ev ob S inv]
  show ?thesis
    by (intro conjI allI impI) (rule objs [OF inv] get rels [OF inv] getr node oc rc ec | erule other)+
qed

section \<open>Adding scopes\<close>

lemma compile_rule_fields:
  "compile_rule mk i r = Inr c \<Longrightarrow>
     cr_effect c = ru_effect r \<and> cr_source c = ru_source r \<and> cr_object c = ru_object r \<and>
     (cr_path c = None \<longleftrightarrow> ru_path r = None)"
  by (auto simp: compile_rule_def split: if_splits option.splits sum.splits)

lemma compiled_new_rules:
  assumes "compiled_new mk sc = Inr c"
  shows "list_all2 (\<lambda>r k. cr_effect k = ru_effect r \<and> cr_source k = ru_source r \<and> cr_object k = ru_object r \<and>
            (cr_path k = None \<longleftrightarrow> ru_path r = None)) (rs_rules sc) (co_rules c)"
    and "co_default c = rs_default sc"
    and "co_has_path_rules c \<longleftrightarrow> list_ex (\<lambda>k. cr_path k \<noteq> None) (co_rules c)"
proof -
  obtain ks where ks: "map_res (\<lambda>(i, r). compile_rule mk i r) (enumerate 0 (rs_rules sc)) = Inr ks"
    and c: "c = \<lparr>co_default = rs_default sc, co_rules = ks, co_has_path_rules = list_ex (\<lambda>r. cr_path r \<noteq> None) ks\<rparr>"
    using assms by (auto simp: compiled_new_def split: sum.splits)
  have "list_all2 (\<lambda>p k. (case p of (i, r) \<Rightarrow> compile_rule mk i r) = Inr k) (enumerate 0 (rs_rules sc)) ks"
    by (rule map_res_Inr [OF ks])
  then have "list_all2 (\<lambda>p k. cr_effect k = ru_effect (snd p) \<and> cr_source k = ru_source (snd p) \<and>
      cr_object k = ru_object (snd p) \<and> (cr_path k = None \<longleftrightarrow> ru_path (snd p) = None)) (enumerate 0 (rs_rules sc)) ks"
    by (rule list_all2_mono) (auto dest: compile_rule_fields)
  then have "list_all2 (\<lambda>r k. cr_effect k = ru_effect r \<and> cr_source k = ru_source r \<and> cr_object k = ru_object r \<and>
      (cr_path k = None \<longleftrightarrow> ru_path r = None)) (map snd (enumerate 0 (rs_rules sc))) ks"
    by (simp only: list_all2_map1)
  moreover have "map snd (enumerate 0 (rs_rules sc)) = rs_rules sc" by (simp add: map_snd_enumerate)
  ultimately show "list_all2 (\<lambda>r k. cr_effect k = ru_effect r \<and> cr_source k = ru_source r \<and> cr_object k = ru_object r \<and>
            (cr_path k = None \<longleftrightarrow> ru_path r = None)) (rs_rules sc) (co_rules c)"
    by (simp add: c)
  show "co_default c = rs_default sc" "co_has_path_rules c \<longleftrightarrow> list_ex (\<lambda>k. cr_path k \<noteq> None) (co_rules c)"
    by (simp_all add: c)
qed

lemma visible_unrestricted: "compiled_is_unrestricted c \<Longrightarrow> visible gm c i origs"
  by (auto simp: compiled_is_unrestricted_def visible_def Let_def list_ex_iff list_all_iff)

lemma compile_scopes_members:
  assumes "compile_scopes mk txt scs = Inr (S, fp)"
  shows "c \<in> set S \<longleftrightarrow> (\<exists>sc \<in> set scs. compiled_new mk sc = Inr c \<and> \<not> compiled_is_unrestricted c)"
  using assms by (induction scs arbitrary: S fp) (auto split: sum.splits if_splits)

lemma compile_scopes_all:
  "compile_scopes mk txt scs = Inr (S, fp) \<Longrightarrow> sc \<in> set scs \<Longrightarrow> \<exists>c. compiled_new mk sc = Inr c"
  by (induction scs arbitrary: S fp) (auto split: sum.splits if_splits)

text \<open>A scope without path rules decides by the sources alone.\<close>

lemma set_origins:
  "a \<in> set (origins ss ps) \<longleftrightarrow>
     or_source a \<in> (if ss = [] then {None} else Some ` set ss) \<and>
     or_path a \<in> (if ps = [] then {None} else (\<lambda>p. Some (normalize p)) ` set ps)"
  by (cases a) (auto simp: origins_def)

lemma origins_match:
  assumes "a \<in> set (origins ss ps)"
  shows "\<exists>b \<in> set (origins ss qs). or_source b = or_source a"
proof -
  obtain q where "q \<in> (if qs = [] then {None} else (\<lambda>p. Some (normalize p)) ` set qs)"
    by (cases qs) auto
  then have "\<lparr>or_source = or_source a, or_path = q\<rparr> \<in> set (origins ss qs)"
    using assms by (simp add: set_origins)
  then show ?thesis by (metis origin.select_convs(1))
qed

lemma origins_nonempty: "origins ss ps \<noteq> []"
  by (cases ss; cases ps) (simp_all add: origins_def Let_def)

lemma by_source_only:
  assumes "\<And>a b. or_source a = or_source b \<Longrightarrow> P a \<longleftrightarrow> P b"
  shows "list_all P (origins ss ps) \<longleftrightarrow> list_all P (origins ss qs)"
    and "list_ex P (origins ss ps) \<longleftrightarrow> list_ex P (origins ss qs)"
  unfolding list_all_iff list_ex_iff using assms origins_match by meson+

lemma rule_denies_iff:
  "rule_denies gm r a \<longleftrightarrow>
     (cr_source r = None \<or> or_source a = None \<or> cr_source r = or_source a) \<and>
     (case (cr_path r, or_path a) of (Some p, Some path) \<Rightarrow> path_matches gm p a path | _ \<Rightarrow> True)"
  by (cases "cr_source r"; cases "or_source a"; cases "cr_path r"; cases "or_path a") (simp_all add: rule_denies_def)

lemma pathless_rule:
  assumes "cr_path r = None" "or_source a = or_source b"
  shows "rule_denies gm r a = rule_denies gm r b" "rule_allows gm r a = rule_allows gm r b"
  using assms by (simp_all add: rule_denies_iff rule_allows_def)

lemma visible_pathless:
  assumes "\<not> list_ex (\<lambda>k. cr_path k \<noteq> None) (co_rules c)"
  shows "visible gm c i (origins ss ps) \<longleftrightarrow> visible gm c i (origins ss qs)"
proof -
  have np: "cr_path r = None" if "r \<in> set (co_rules c)" for r using assms that by (auto simp: list_ex_iff)
  have d: "list_ex (rule_denies gm r) (origins ss ps) \<longleftrightarrow> list_ex (rule_denies gm r) (origins ss qs)"
    if "r \<in> set (co_rules c)" for r
    by (rule by_source_only(2)) (rule pathless_rule(1) [OF np [OF that]])
  have D: "list_ex (\<lambda>r. if cr_object r \<noteq> None then cr_object r = Some i else list_ex (rule_denies gm r) (origins ss ps))
        (filter (\<lambda>r. cr_effect r = Deny) (co_rules c)) \<longleftrightarrow>
      list_ex (\<lambda>r. if cr_object r \<noteq> None then cr_object r = Some i else list_ex (rule_denies gm r) (origins ss qs))
        (filter (\<lambda>r. cr_effect r = Deny) (co_rules c))"
    by (rule list_ex_cong) (use d in auto)
  have A: "list_all (\<lambda>orig. list_ex (\<lambda>r. cr_object r = None \<and> rule_allows gm r orig)
            (filter (\<lambda>r. cr_effect r = Allow) (co_rules c))) (origins ss ps) \<longleftrightarrow>
      list_all (\<lambda>orig. list_ex (\<lambda>r. cr_object r = None \<and> rule_allows gm r orig)
            (filter (\<lambda>r. cr_effect r = Allow) (co_rules c))) (origins ss qs)"
  proof (rule by_source_only(1))
    fix a b :: origin assume ab: "or_source a = or_source b"
    show "list_ex (\<lambda>r. cr_object r = None \<and> rule_allows gm r a) (filter (\<lambda>r. cr_effect r = Allow) (co_rules c)) \<longleftrightarrow>
        list_ex (\<lambda>r. cr_object r = None \<and> rule_allows gm r b) (filter (\<lambda>r. cr_effect r = Allow) (co_rules c))"
      by (rule list_ex_cong) (use pathless_rule(2) [OF np ab] in auto)
  qed
  show ?thesis unfolding visible_def Let_def D A by (simp add: origins_nonempty)
qed

lemma sees_fewer:
  assumes "set S \<subseteq> set S'" "sees V gm s S' ob"
    and "\<And>c. c \<in> set S' \<Longrightarrow> co_has_path_rules c \<longleftrightarrow> list_ex (\<lambda>k. cr_path k \<noteq> None) (co_rules c)"
  shows "sees V gm s S ob"
proof (cases "list_ex co_has_path_rules S")
  case True
  then have "list_ex co_has_path_rules S'" using assms(1) by (auto simp: list_ex_iff)
  then show ?thesis
    using True assms(1,2) by (auto simp: sees_def decide_scope_def Let_def list_all_iff split: sum.splits)
next
  case False
  obtain ps where "list_all (\<lambda>c. visible gm c (ko_id ob) (origins (sources_of ob) ps)) S'"
    using assms(2) by (auto simp: sees_def decide_scope_def Let_def split: sum.splits)
  then have "visible gm c (ko_id ob) (origins (sources_of ob) ps)" if "c \<in> set S" for c
    using that assms(1) by (auto simp: list_all_iff)
  moreover have "\<not> list_ex (\<lambda>k. cr_path k \<noteq> None) (co_rules c)" if "c \<in> set S" for c
  proof -
    have "c \<in> set S'" "\<not> co_has_path_rules c" using that assms(1) False by (auto simp: list_ex_iff)
    then show ?thesis using assms(3) by blast
  qed
  ultimately have "visible gm c (ko_id ob) (origins (sources_of ob) [])" if "c \<in> set S" for c
    using visible_pathless that by blast
  then show ?thesis using False by (simp add: sees_def decide_scope_def list_all_iff)
qed

lemma set_scopes_members:
  assumes "set_scopes mk txt scs st = (Inr (), st1)"
  shows "c \<in> set (ss_scopes st1) \<longleftrightarrow> (\<exists>sc \<in> set scs. compiled_new mk sc = Inr c \<and> \<not> compiled_is_unrestricted c)"
    and "sc \<in> set scs \<Longrightarrow> \<exists>c. compiled_new mk sc = Inr c"
  using assms compile_scopes_members compile_scopes_all unfolding set_scopes_def
  by (auto split: sum.splits prod.splits) blast+

lemma not_denied:
  assumes "visible gm c i origs" "k \<in> set (co_rules c)" "cr_effect k = Deny"
  shows "cr_object k \<noteq> Some i \<and> (cr_object k = None \<longrightarrow> (\<forall>a \<in> set origs. \<not> rule_denies gm k a))"
  using assms unfolding visible_def Let_def list_ex_iff by (auto split: if_splits)

text \<open>
  C16: Adding scopes can only hide more, whatever mix of path and source rules they hold; and scopes
  fail closed: an object shown under a deny rule is not the one the rule names, and if the rule
  names a place then the object has known sources that all differ from the rule's, or the rule has a
  path pattern and the object has a recorded path.
\<close>
theorem scopes_only_hide:
  assumes "set_scopes mk txt scs st = (Inr (), st1)" "set_scopes mk txt scs' st' = (Inr (), st2)"
    and "set scs \<subseteq> set scs'" "sees V gm s (ss_scopes st2) ob"
  shows "sees V gm s (ss_scopes st1) ob \<and>
    (\<forall>sc \<in> set scs'. \<forall>r \<in> set (rs_rules sc). ru_effect r = Deny \<longrightarrow>
       ru_object r \<noteq> Some (ko_id ob) \<and>
       (ru_object r = None \<longrightarrow>
          (\<exists>src. ru_source r = Some src \<and> sources_of ob \<noteq> [] \<and> src \<notin> set (sources_of ob)) \<or>
          (ru_path r \<noteq> None \<and> evidence_paths V s (ko_evidence ob) \<noteq> Inr [])))"
proof (intro conjI ballI impI)
  have paths: "co_has_path_rules c \<longleftrightarrow> list_ex (\<lambda>k. cr_path k \<noteq> None) (co_rules c)" if "c \<in> set (ss_scopes st2)" for c
    using that set_scopes_members(1) [OF assms(2)] compiled_new_rules(3) by blast
  have "set (ss_scopes st1) \<subseteq> set (ss_scopes st2)"
    using set_scopes_members(1) [OF assms(1)] set_scopes_members(1) [OF assms(2)] assms(3) by blast
  then show "sees V gm s (ss_scopes st1) ob" by (rule sees_fewer [OF _ assms(4) paths])
  fix sc r assume sc: "sc \<in> set scs'" and r: "r \<in> set (rs_rules sc)" and deny: "ru_effect r = Deny"
  obtain c where c: "compiled_new mk sc = Inr c" using set_scopes_members(2) [OF assms(2) sc] by blast
  obtain n where n: "n < length (rs_rules sc)" "rs_rules sc ! n = r" using r by (auto simp: in_set_conv_nth)
  define k where "k = co_rules c ! n"
  have k: "k \<in> set (co_rules c)" "cr_effect k = Deny" "cr_source k = ru_source r" "cr_object k = ru_object r"
      "cr_path k = None \<longleftrightarrow> ru_path r = None"
    using list_all2_nthD [OF compiled_new_rules(1) [OF c] n(1)] list_all2_lengthD [OF compiled_new_rules(1) [OF c]] n deny
    by (auto simp: k_def)
  have "\<not> compiled_is_unrestricted c" using k(1,2) unfolding compiled_is_unrestricted_def list_all_iff by fastforce
  then have c2: "c \<in> set (ss_scopes st2)" using set_scopes_members(1) [OF assms(2)] sc c by blast
  obtain ps where ps: "(if list_ex co_has_path_rules (ss_scopes st2) then evidence_paths V s (ko_evidence ob) else Inr []) = Inr ps"
      "list_all (\<lambda>c. visible gm c (ko_id ob) (origins (sources_of ob) (remdups_adj (sort ps)))) (ss_scopes st2)"
    using assms(4) by (auto simp: sees_def decide_scope_def Let_def split: sum.splits)
  let ?os = "origins (sources_of ob) (remdups_adj (sort ps))"
  have "visible gm c (ko_id ob) ?os" using ps(2) c2 by (auto simp: list_all_iff)
  note nd = not_denied [OF this k(1,2)]
  show "ru_object r \<noteq> Some (ko_id ob)" using nd k(4) by simp
  assume "ru_object r = None"
  then have nd': "\<not> rule_denies gm k a" if "a \<in> set ?os" for a using nd k(4) that by simp
  show "(\<exists>src. ru_source r = Some src \<and> sources_of ob \<noteq> [] \<and> src \<notin> set (sources_of ob)) \<or>
      (ru_path r \<noteq> None \<and> evidence_paths V s (ko_evidence ob) \<noteq> Inr [])"
  proof (rule ccontr)
    assume neg: "\<not> ?thesis"
    have "ps = [] \<or> cr_path k = None"
    proof (cases "cr_path k = None")
      case False
      then have "list_ex co_has_path_rules (ss_scopes st2)" using paths [OF c2] c2 k(1) by (auto simp: list_ex_iff)
      then show ?thesis using ps(1) neg False k(5) by auto
    qed simp
    moreover obtain p where p: "p \<in> (if remdups_adj (sort ps) = [] then {None}
        else (\<lambda>p. Some (normalize p)) ` set (remdups_adj (sort ps)))" by (cases "remdups_adj (sort ps)") auto
    ultimately have pk: "cr_path k = None \<or> p = None" by auto
    obtain a where "a \<in> (if sources_of ob = [] then {None} else Some ` set (sources_of ob))"
        "cr_source k = None \<or> a = None \<or> cr_source k = a"
      using neg k(3) by (cases "ru_source r"; cases "sources_of ob") (auto split: if_splits)
    then have "\<lparr>or_source = a, or_path = p\<rparr> \<in> set ?os" "rule_denies gm k \<lparr>or_source = a, or_path = p\<rparr>"
      using p pk by (auto simp: set_origins rule_denies_iff split: option.splits)
    with nd' show False by blast
  qed
qed

section \<open>Writes and refresh\<close>

text \<open>
  Under a restriction every write is refused and the inner store is not touched; without one each is
  the write of the inner store.  A failed change of scopes leaves the reader as it was, and a refresh
  forgets the decisions made on the old snapshot.
\<close>
lemma restricted_view_is_read_only:
  "is_restricted (sc_state x) \<Longrightarrow>
     scoped_append_object V ob x = (Inl (LedgerReadScope ''writing an object''), x) \<and>
     scoped_append_evidence V ev x = (Inl (LedgerReadScope ''writing evidence''), x) \<and>
     scoped_append_relationship V r x = (Inl (LedgerReadScope ''writing a relationship''), x) \<and>
     scoped_append_event V e x = (Inl (LedgerReadScope ''writing an event''), x) \<and>
     scoped_vacuum_into V dest x = (Inl (LedgerReadScope ''copying the ledger''), x)"
  "\<not> is_restricted (sc_state x) \<Longrightarrow>
     sc_inner (snd (scoped_append_object V ob x)) = snd (ks_append_object V ob (sc_inner x)) \<and>
     fst (scoped_append_object V ob x) = fst (ks_append_object V ob (sc_inner x))"
  by (simp_all add: scoped_append_object_def scoped_append_evidence_def scoped_append_relationship_def
      scoped_append_event_def scoped_vacuum_into_def refuse_or_def split: prod.splits)

lemma failed_set_scopes: "set_scopes mk txt scs st = (Inl e, st') \<Longrightarrow> st' = st"
  by (auto simp: set_scopes_def split: sum.splits prod.splits)

lemma refresh_keeps_scope_inv:
  assumes "scoped_refresh_snapshot V x = (Inr out, y)" "ss_scopes (sc_state x) = S"
  shows "scope_inv past V gm (sc_inner y) S (sc_state y)"
  using assms by (auto simp: scoped_refresh_snapshot_def scope_inv_def split: sum.splits prod.splits)

section \<open>A store in memory\<close>

lemma list_store_agrees:
  assumes "distinct (map ko_id obs)" "distinct (map kr_id rs)"
  shows "reads_agree (list_store obs rs evs past) () obs rs"
  using assms by (simp add: reads_agree_def list_store_def)

text \<open>Two objects of two sources, one denied; each pattern matches itself only.\<close>

definition doc_object :: "kir_id \<Rightarrow> string \<Rightarrow> kir_id list \<Rightarrow> nat kir_object" where
  "doc_object i src ev =
     \<lparr>ko_id = i, ko_name = ''doc'', ko_kind = KFile, ko_properties = [(''source'', JString src)],
      ko_evidence = ev, ko_created_at = 0\<rparr>"

definition deny_hr :: read_scope where
  "deny_hr = \<lparr>rs_default = Allow,
     rs_rules = [\<lparr>ru_effect = Deny, ru_source = Some ''hr'', ru_path = None, ru_object = None\<rparr>]\<rparr>"

definition hr_compiled :: "string compiled" where
  "hr_compiled = \<lparr>co_default = Allow,
     co_rules = [\<lparr>cr_effect = Deny, cr_source = Some ''hr'', cr_path = None, cr_object = None\<rparr>],
     co_has_path_rules = False\<rparr>"

definition hr_state :: "string scope_state" where
  "hr_state = scope_state_new\<lparr>ss_scopes := [hr_compiled], ss_fingerprint := [CHR 0x0A]\<rparr>"

lemma hr_set_scopes: "set_scopes Inr (\<lambda>_. []) [deny_hr] scope_state_new = (Inr (), hr_state)"
  by (simp add: set_scopes_def compiled_new_def compile_rule_def deny_hr_def hr_state_def hr_compiled_def
      compiled_is_unrestricted_def scope_state_new_def)

lemma hr_restricted: "is_restricted hr_state" "ss_scopes hr_state = [hr_compiled]"
  by (simp_all add: is_restricted_def hr_state_def)

lemma hr_sees: "sees V (=) s [hr_compiled] (doc_object i src ev) \<longleftrightarrow> src \<noteq> ''hr''"
  by (auto simp: sees_def decide_scope_def hr_compiled_def visible_def rule_denies_def doc_object_def sources_of_def
      origins_def Let_def)

definition two_docs :: "(unit, nat) knowledge_store" where
  "two_docs = list_store [doc_object 1 ''git'' [7], doc_object 2 ''hr'' [8]]
     [relationship_new 5 0 Calls 1 2, relationship_new 6 0 Calls 1 1] [] []"

lemma two_docs_agree:
  "reads_agree two_docs () [doc_object 1 ''git'' [7], doc_object 2 ''hr'' [8]]
     [relationship_new 5 0 Calls 1 2, relationship_new 6 0 Calls 1 1]"
  unfolding two_docs_def by (rule list_store_agrees) (simp_all add: doc_object_def relationship_new_def)

text \<open>
  Evidence leaks through a read of the past: \<open>object_at\<close> records the evidence of an old version
  before it finds that the current version is hidden.  The object moved to a denied source, the read
  returns nothing, and yet its evidence, listed by no visible object, can be fetched afterwards.
\<close>
definition moved_doc :: "(unit, nat) knowledge_store" where
  "moved_doc = list_store [doc_object 1 ''hr'' [7]] []
     [\<lparr>ke_id = 7, ke_location = location_file ''salaries'', ke_fragment = ''x'', ke_confidence = 0, ke_created_at = 0\<rparr>]
     [doc_object 1 ''git'' [7]]"

lemma object_at_leaks_evidence:
  "\<not> sees_id moved_doc (=) () [hr_compiled] 1 \<and>
   fst (scoped_get_evidence moved_doc () 7 hr_state) = Inr None \<and>
   fst (scoped_object_at moved_doc (=) () 1 0 hr_state) = Inr None \<and>
   (\<exists>ev. fst (scoped_get_evidence moved_doc () 7 (snd (scoped_object_at moved_doc (=) () 1 0 hr_state))) = Inr (Some ev))"
proof -
  let ?G = "doc_object 1 ''git'' [7]" and ?H = "doc_object 1 ''hr'' [7]"
  have d: "decide_scope moved_doc (=) () [hr_compiled] ?G = Inr True" "decide_scope moved_doc (=) () [hr_compiled] ?H = Inr False"
    by (simp_all add: decide_scope_def hr_compiled_def visible_def rule_denies_def doc_object_def sources_of_def
      origins_def Let_def)
  have ids: "ko_id ?G = 1" "ko_id ?H = 1" "ko_evidence ?G = [7]" by (simp_all add: doc_object_def)
  have g: "ks_get_object moved_doc () 1 = Inr (Some ?H)" "ks_object_at moved_doc () 1 0 = Inr (Some ?G)"
    by (simp_all add: moved_doc_def list_store_def ids)
  have at: "scoped_object_at moved_doc (=) () 1 0 hr_state =
      (Inr None, hr_state\<lparr>ss_seen := [1 \<mapsto> False], ss_evidence := {7}\<rparr>)"
    by (simp add: scoped_object_at_def st_bind_def st_lift_def st_ret_def st_and_def hr_restricted g admit_def d
        visible_id_def ids hr_state_def scope_state_new_def is_restricted_def)
  show ?thesis
    unfolding at by (simp add: sees_id_def g sees_def d scoped_get_evidence_def hr_state_def scope_state_new_def
        is_restricted_def) (simp add: moved_doc_def list_store_def)
qed

section \<open>The theorems at work\<close>

theorem nothing_hidden_is_returned_witness:
  "\<exists>obs. fst (scoped_all_objects two_docs (=) () (after_calls two_docs (=) (\<lambda>_. None) () [CallGetObject 2, CallAllObjectsAt 0] hr_state))
      = Inr obs \<and> set obs \<subseteq> {ob. sees two_docs (=) () [hr_compiled] ob}"
proof -
  let ?st = "after_calls two_docs (=) (\<lambda>_. None) () [CallGetObject 2, CallAllObjectsAt 0] hr_state"
  obtain obs where "fst (scoped_all_objects two_docs (=) () ?st) = Inr obs"
    using scoped_totals(1) [OF two_docs_agree] unfolding st_total_def by (metis fst_conv)
  moreover have "fst (scoped_all_objects two_docs (=) () ?st) = Inr obs \<Longrightarrow>
      \<forall>ob \<in> set obs. sees two_docs (=) () [hr_compiled] ob" for obs
    by (rule nothing_hidden_is_returned
      [OF reads_agree_consistent [OF two_docs_agree] hr_set_scopes hr_restricted(1) hr_restricted(2) [symmetric]
          refl [of ?st], THEN conjunct2, THEN conjunct1, THEN spec, THEN mp])
  ultimately show ?thesis by blast
qed

theorem scoped_store_is_the_view_witness:
  "fst (scoped_all_objects two_docs (=) () (after_calls two_docs (=) (\<lambda>_. None) () [CallGetObject 2] hr_state)) =
     Inr [doc_object 1 ''git'' [7]] \<and>
   fst (scoped_get_object two_docs (=) () 2 (after_calls two_docs (=) (\<lambda>_. None) () [CallGetObject 2] hr_state)) = Inr None \<and>
   fst (scoped_relationship_count two_docs (=) () (after_calls two_docs (=) (\<lambda>_. None) () [CallGetObject 2] hr_state)) = Inr 1"
proof -
  let ?st = "after_calls two_docs (=) (\<lambda>_. None) () [CallGetObject 2] hr_state"
  let ?obs = "[doc_object 1 ''git'' [7], doc_object 2 ''hr'' [8]]"
  let ?rs = "[relationship_new 5 0 Calls 1 2, relationship_new 6 0 Calls 1 1] :: nat kir_relationship list"
  note view = scoped_store_is_the_view
    [OF two_docs_agree hr_set_scopes hr_restricted(1) hr_restricted(2) [symmetric] refl [of "?st"] refl refl, where i = 2]
  have vo: "view_objects two_docs (=) () [hr_compiled] ?obs = [doc_object 1 ''git'' [7]]"
    by (simp add: view_objects_def hr_sees)
  have g: "ks_get_object two_docs () 1 = Inr (Some (doc_object 1 ''git'' [7]))"
    "ks_get_object two_docs () 2 = Inr (Some (doc_object 2 ''hr'' [8]))"
    by (simp_all add: two_docs_def list_store_def doc_object_def)
  have vr: "view_relationships two_docs (=) () [hr_compiled] ?rs = [relationship_new 6 0 Calls 1 1]"
    by (simp add: view_relationships_def sees_rel_def sees_id_def relationship_new_def g hr_sees)
  have "fst (scoped_all_objects two_docs (=) () ?st) = Inr [doc_object 1 ''git'' [7]]"
    using view unfolding vo by blast
  moreover have "fst (scoped_get_object two_docs (=) () 2 ?st) =
      Inr (find (\<lambda>ob. ko_id ob = 2) [doc_object 1 ''git'' [7]])"
    using view unfolding vo by blast
  moreover have "fst (scoped_relationship_count two_docs (=) () ?st) =
      Inr (length [relationship_new 6 0 Calls 1 1 :: nat kir_relationship])"
    using view unfolding vr by blast
  ultimately show ?thesis by (simp add: doc_object_def)
qed

theorem scopes_only_hide_witness:
  "sees two_docs (=) () (ss_scopes hr_state) (doc_object 1 ''git'' [7]) \<and> ''hr'' \<notin> set (sources_of (doc_object 1 ''git'' [7]))"
proof -
  have "sees two_docs (=) () (ss_scopes hr_state) (doc_object 1 ''git'' [7])" by (simp add: hr_restricted hr_sees)
  from scopes_only_hide [OF hr_set_scopes hr_set_scopes subset_refl this]
  show ?thesis by (simp add: deny_hr_def)
qed
end
