(* ===== verification/Runtime_Graph.thy ===== *)
theory Runtime_Graph
  imports Knowledge_Store
begin

text \<open>
  The read-only runtime over a store, \<open>runtime/src/lib.rs\<close>: current-state reads with session memory
  filtered out, the breadth-first neighbourhood with its object budget, the directed impact trace and
  the named graph operations, worlds and observations.  The queue of a walk is a list; a hash set of
  visited ids is a set.  A walk ends because every queued object is newly visited and ids are finite.
\<close>

section \<open>Session memory\<close>

definition SESSION_NAME_PREFIX :: string where
  "SESSION_NAME_PREFIX = ''session-''"

definition is_session_object :: "('s, 'n) knowledge_store \<Rightarrow> 's \<Rightarrow> kir_id \<Rightarrow> bool" where
  "is_session_object V s i =
     (case ks_get_object V s i of Inr (Some ob) \<Rightarrow> is_session_object_kind (ko_kind ob) | _ \<Rightarrow> False)"

definition is_session_relationship :: "('s, 'n) knowledge_store \<Rightarrow> 's \<Rightarrow> 'n kir_relationship \<Rightarrow> bool" where
  "is_session_relationship V s r =
     (if \<not> is_session_relationship_kind (kr_kind r) then False
      else is_session_object V s (kr_from r) \<or> is_session_object V s (kr_to r))"

definition is_session_memory ::
  "('s, 'n) knowledge_store \<Rightarrow> 's \<Rightarrow> kir_id \<Rightarrow> string \<Rightarrow> object_kind option \<Rightarrow> bool" where
  "is_session_memory V s i name kind =
     (case kind of
        Some k \<Rightarrow> is_session_object_kind k
      | None \<Rightarrow> if starts_with name SESSION_NAME_PREFIX then is_session_object V s i else False)"

section \<open>Current-state reads\<close>

definition load_object :: "('s, 'n) knowledge_store \<Rightarrow> 's \<Rightarrow> kir_id \<Rightarrow> ledger_error + 'n kir_object option" where
  "load_object V s i =
     (case ks_get_object V s i of
        Inl e \<Rightarrow> Inl e
      | Inr None \<Rightarrow> Inr None
      | Inr (Some ob) \<Rightarrow> Inr (if is_session_object_kind (ko_kind ob) then None else Some ob))"

definition runtime_find_objects ::
  "('s, 'n) knowledge_store \<Rightarrow> 's \<Rightarrow> string \<Rightarrow> ledger_error + (kir_id \<times> string) list" where
  "runtime_find_objects V s q =
     (case ks_find_objects V s q of
        Inl e \<Rightarrow> Inl e
      | Inr found \<Rightarrow> Inr (filter (\<lambda>(i, name). \<not> is_session_memory V s i name None) found))"

definition runtime_retrieve ::
  "('s, 'n) knowledge_store \<Rightarrow> 's \<Rightarrow> kir_id set \<Rightarrow> retrieval_request \<Rightarrow> ledger_error + ranked_results" where
  "runtime_retrieve V s excluded q =
     (case ks_retrieve V s q of
        Inl e \<Rightarrow> Inl e
      | Inr res \<Rightarrow>
          (let hits = filter (\<lambda>h. \<not> is_session_memory V s (hi_id h) (hi_name h) (hi_kind h)) (rk_hits res)
           in Inr (res\<lparr>rk_hits := if excluded \<noteq> {} then filter (\<lambda>h. hi_id h \<notin> excluded) hits else hits\<rparr>)))"

definition runtime_facts_of ::
  "('s, 'n) knowledge_store \<Rightarrow> 's \<Rightarrow> kir_id \<Rightarrow> ledger_error + (string \<times> 'n json) list" where
  "runtime_facts_of V s i =
     (case ks_get_object V s i of
        Inl e \<Rightarrow> Inl e
      | Inr None \<Rightarrow> Inr []
      | Inr (Some ob) \<Rightarrow>
          Inr ([(''name'', JString (ko_name ob)), (''kind'', JString (object_kind_display (ko_kind ob)))] @
               sort_key fst (ko_properties ob)))"

definition list_objects :: "('s, 'n) knowledge_store \<Rightarrow> 's \<Rightarrow> ledger_error + 'n kir_object list" where
  "list_objects V s =
     (case ks_all_objects V s of
        Inl e \<Rightarrow> Inl e
      | Inr obs \<Rightarrow> Inr (filter (\<lambda>ob. \<not> is_session_object_kind (ko_kind ob)) obs))"

definition list_relationships :: "('s, 'n) knowledge_store \<Rightarrow> 's \<Rightarrow> ledger_error + 'n kir_relationship list" where
  "list_relationships V s =
     (case ks_all_relationships V s of
        Inl e \<Rightarrow> Inl e
      | Inr rs \<Rightarrow> Inr (filter (\<lambda>r. \<not> is_session_relationship V s r) rs))"

definition list_objects_at :: "('s, 'n) knowledge_store \<Rightarrow> 's \<Rightarrow> int \<Rightarrow> ledger_error + 'n kir_object list" where
  "list_objects_at V s at =
     (case ks_all_objects_at V s at of
        Inl e \<Rightarrow> Inl e
      | Inr obs \<Rightarrow> Inr (filter (\<lambda>ob. \<not> is_session_object_kind (ko_kind ob)) obs))"

definition list_relationships_at ::
  "('s, 'n) knowledge_store \<Rightarrow> 's \<Rightarrow> int \<Rightarrow> ledger_error + 'n kir_relationship list" where
  "list_relationships_at V s at =
     (case ks_all_relationships_at V s at of
        Inl e \<Rightarrow> Inl e
      | Inr rs \<Rightarrow> Inr (filter (\<lambda>r. \<not> is_session_relationship V s r) rs))"

definition runtime_relationships_for ::
  "('s, 'n) knowledge_store \<Rightarrow> 's \<Rightarrow> kir_id \<Rightarrow> ledger_error + 'n kir_relationship list" where
  "runtime_relationships_for V s i =
     (case ks_relationships_for V s i of
        Inl e \<Rightarrow> Inl e
      | Inr rs \<Rightarrow> Inr (filter (\<lambda>r. \<not> is_session_relationship V s r) rs))"

definition runtime_object_history ::
  "('s, 'n) knowledge_store \<Rightarrow> 's \<Rightarrow> kir_id \<Rightarrow> ledger_error + 'n kir_object list" where
  "runtime_object_history V s i =
     (case ks_object_history V s i of
        Inl e \<Rightarrow> Inl e
      | Inr obs \<Rightarrow> Inr (filter (\<lambda>ob. \<not> is_session_object_kind (ko_kind ob)) obs))"

definition runtime_relationship_history ::
  "('s, 'n) knowledge_store \<Rightarrow> 's \<Rightarrow> kir_id \<Rightarrow> ledger_error + 'n kir_relationship list" where
  "runtime_relationship_history V s i =
     (case ks_relationship_history V s i of
        Inl e \<Rightarrow> Inl e
      | Inr rs \<Rightarrow> Inr (filter (\<lambda>r. \<not> is_session_relationship V s r) rs))"

record 'n object_state =
  os_object :: "'n kir_object"
  os_relationships :: "'n kir_relationship list"
  os_evidence :: "kir_evidence list"

fun evidence_found :: "('s, 'n) knowledge_store \<Rightarrow> 's \<Rightarrow> kir_id list \<Rightarrow> ledger_error + kir_evidence list" where
  "evidence_found V s [] = Inr []"
| "evidence_found V s (i # is) =
     (case ks_get_evidence V s i of
        Inl e \<Rightarrow> Inl e
      | Inr ev \<Rightarrow>
          (case evidence_found V s is of
             Inl e \<Rightarrow> Inl e
           | Inr evs \<Rightarrow> Inr (case ev of None \<Rightarrow> evs | Some x \<Rightarrow> x # evs)))"

text \<open>Both reconstructions, from the object and the relationships read at the wanted time.\<close>

definition object_state_of ::
  "('s, 'n) knowledge_store \<Rightarrow> 's \<Rightarrow> ledger_error + 'n kir_object option \<Rightarrow> ledger_error + 'n kir_relationship list \<Rightarrow>
   ledger_error + 'n object_state option" where
  "object_state_of V s found rels =
     (case found of
        Inl e \<Rightarrow> Inl e
      | Inr None \<Rightarrow> Inr None
      | Inr (Some ob) \<Rightarrow>
          if is_session_object_kind (ko_kind ob) then Inr None
          else (case rels of
                  Inl e \<Rightarrow> Inl e
                | Inr rs \<Rightarrow>
                    (case evidence_found V s (ko_evidence ob) of
                       Inl e \<Rightarrow> Inl e
                     | Inr evs \<Rightarrow>
                         Inr (Some \<lparr>os_object = ob,
                                    os_relationships = filter (\<lambda>r. \<not> is_session_relationship V s r) rs,
                                    os_evidence = evs\<rparr>))))"

definition reconstruct_state ::
  "('s, 'n) knowledge_store \<Rightarrow> 's \<Rightarrow> kir_id \<Rightarrow> ledger_error + 'n object_state option" where
  "reconstruct_state V s i = object_state_of V s (ks_get_object V s i) (ks_relationships_for V s i)"

definition reconstruct_state_at ::
  "('s, 'n) knowledge_store \<Rightarrow> 's \<Rightarrow> kir_id \<Rightarrow> int \<Rightarrow> ledger_error + 'n object_state option" where
  "reconstruct_state_at V s i at = object_state_of V s (ks_object_at V s i at) (ks_relationships_at V s i at)"

section \<open>The neighbourhood\<close>

definition other_endpoint :: "'n kir_relationship \<Rightarrow> kir_id \<Rightarrow> kir_id" where
  "other_endpoint r current = (if kr_from r = current then kr_to r else kr_from r)"

definition is_traversable :: "('s, 'n) knowledge_store \<Rightarrow> 's \<Rightarrow> 'n kir_relationship \<Rightarrow> bool" where
  "is_traversable V s r \<longleftrightarrow> \<not> is_pending_review r \<and> \<not> is_session_relationship V s r"

text \<open>The locals of the walk; the flag says it stopped at the budget.\<close>

record 'n walk =
  wk_objects :: "'n kir_object list"
  wk_relationships :: "'n kir_relationship list"
  wk_visited :: "kir_id set"
  wk_hidden :: "kir_id set"
  wk_seen_rels :: "kir_id set"
  wk_queue :: "(kir_id \<times> nat) list"
  wk_truncated :: bool

fun walk_edges ::
  "('s, 'n) knowledge_store \<Rightarrow> 's \<Rightarrow> nat \<Rightarrow> kir_id \<Rightarrow> nat \<Rightarrow> 'n kir_relationship list \<Rightarrow> 'n walk \<Rightarrow>
   ledger_error + 'n walk" where
  "walk_edges V s max_objects current depth [] w = Inr w"
| "walk_edges V s max_objects current depth (r # rs) w =
     (if \<not> is_traversable V s r then walk_edges V s max_objects current depth rs w
      else
        let n = other_endpoint r current;
            w1 = (if kr_id r \<notin> wk_seen_rels w
                  then w\<lparr>wk_seen_rels := insert (kr_id r) (wk_seen_rels w),
                         wk_relationships := wk_relationships w @ [r]\<rparr>
                  else w)
        in if n \<in> wk_visited w1 then walk_edges V s max_objects current depth rs w1
           else if max_objects \<le> length (wk_objects w1) then Inr (w1\<lparr>wk_truncated := True\<rparr>)
           else
             let w2 = w1\<lparr>wk_visited := insert n (wk_visited w1)\<rparr>
             in (case load_object V s n of
                   Inl e \<Rightarrow> Inl e
                 | Inr (Some ob) \<Rightarrow>
                     walk_edges V s max_objects current depth rs
                       (if is_unconfirmed_claim ob then w2\<lparr>wk_hidden := insert n (wk_hidden w2)\<rparr>
                        else w2\<lparr>wk_objects := wk_objects w2 @ [ob], wk_queue := wk_queue w2 @ [(n, depth + 1)]\<rparr>)
                 | Inr None \<Rightarrow> walk_edges V s max_objects current depth rs w2))"

definition walk_left :: "'n walk \<Rightarrow> nat" where
  "walk_left w = card (- wk_visited w) + length (wk_queue w)"

lemma card_compl_insert: "(n :: kir_id) \<notin> A \<Longrightarrow> Suc (card (- insert n A)) = card (- A)"
proof -
  assume "n \<notin> A"
  then have "- A = insert n (- insert n A)" by auto
  moreover have "card (insert n (- insert n A)) = Suc (card (- insert n A))" by (rule card_insert_disjoint) auto
  ultimately show ?thesis by simp
qed

lemma walk_edges_left: "walk_edges V s m c d rs w = Inr w' \<Longrightarrow> walk_left w' \<le> walk_left w"
proof (induction V s m c d rs w rule: walk_edges.induct)
  case (1 V s m c d w)
  then show ?case by simp
next
  case (2 V s m c d r rs w)
  define n where "n = other_endpoint r c"
  define w1 where "w1 = (if kr_id r \<notin> wk_seen_rels w
                  then w\<lparr>wk_seen_rels := insert (kr_id r) (wk_seen_rels w),
                         wk_relationships := wk_relationships w @ [r]\<rparr> else w)"
  have w1: "walk_left w1 = walk_left w" by (simp add: w1_def walk_left_def)
  note IH = 2(1-4) and run = 2(5)
  show ?case
  proof (cases "is_traversable V s r")
    case False
    then show ?thesis using IH(1) run by simp
  next
    case tr: True
    show ?thesis
    proof (cases "n \<in> wk_visited w1")
      case True
      have "walk_left w' \<le> walk_left w1"
        by (rule IH(2) [of n w1]) (use tr True run in \<open>simp_all add: n_def w1_def Let_def\<close>)
      then show ?thesis using w1 by simp
    next
      case new: False
      show ?thesis
      proof (cases "m \<le> length (wk_objects w1)")
        case True
        then have "w' = w1\<lparr>wk_truncated := True\<rparr>"
          using run tr new unfolding walk_edges.simps Let_def n_def [symmetric] w1_def [symmetric] by simp
        then show ?thesis using w1 by (simp add: walk_left_def)
      next
        case room: False
        define w2 where "w2 = w1\<lparr>wk_visited := insert n (wk_visited w1)\<rparr>"
        have w2: "Suc (walk_left w2) = walk_left w1"
          using card_compl_insert [OF new] by (simp add: w2_def walk_left_def)
        note run' = run [unfolded walk_edges.simps Let_def, folded n_def, folded w1_def, folded w2_def]
        show ?thesis
        proof (cases "load_object V s n")
          case (Inl e)
          then show ?thesis using run' tr new room by simp
        next
          case (Inr found)
          show ?thesis
          proof (cases found)
            case None
            have "walk_left w' \<le> walk_left w2"
              by (rule IH(3) [of n w1 w2]) (use tr new room Inr None run' in \<open>simp_all add: n_def w1_def w2_def\<close>)
            then show ?thesis using w1 w2 by simp
          next
            case (Some ob)
            define w3 where "w3 = (if is_unconfirmed_claim ob then w2\<lparr>wk_hidden := insert n (wk_hidden w2)\<rparr>
               else w2\<lparr>wk_objects := wk_objects w2 @ [ob], wk_queue := wk_queue w2 @ [(n, d + 1)]\<rparr>)"
            have "walk_left w' \<le> walk_left w3"
              unfolding w3_def
              by (rule IH(4) [of n w1 w2]) (use tr new room Inr Some run' in \<open>simp_all add: n_def w1_def w2_def\<close>)
            moreover have "walk_left w3 \<le> Suc (walk_left w2)" by (simp add: w3_def walk_left_def)
            ultimately show ?thesis using w1 w2 by simp
          qed
        qed
      qed
    qed
  qed
qed

function walk_loop ::
  "('s, 'n) knowledge_store \<Rightarrow> 's \<Rightarrow> nat \<Rightarrow> nat \<Rightarrow> 'n walk \<Rightarrow> ledger_error + 'n walk" where
  "walk_loop V s depth max_objects w =
     (case wk_queue w of
        [] \<Rightarrow> Inr w
      | (current, d) # q \<Rightarrow>
          let w1 = w\<lparr>wk_queue := q\<rparr>
          in if depth \<le> d then walk_loop V s depth max_objects w1
             else (case ks_relationships_for V s current of
                     Inl e \<Rightarrow> Inl e
                   | Inr rs \<Rightarrow>
                       (case walk_edges V s max_objects current d rs w1 of
                          Inl e \<Rightarrow> Inl e
                        | Inr w2 \<Rightarrow> if wk_truncated w2 then Inr w2 else walk_loop V s depth max_objects w2)))"
  by auto

termination
proof (relation "measure (\<lambda>(V, s, depth, m, w). walk_left w)", goal_cases)
  case 1
  show ?case by simp
next
  case (2 V s depth m w p q current d w1)
  then show ?case by (simp add: walk_left_def)
next
  case (3 V s depth m w p q current d w1 rs w2)
  then have "walk_left w2 \<le> walk_left w1" by (auto intro: walk_edges_left)
  moreover have "walk_left w1 < walk_left w" using 3 by (simp add: walk_left_def)
  ultimately show ?case by simp
qed

declare walk_loop.simps [simp del]

definition load_neighborhood_bounded ::
  "('s, 'n) knowledge_store \<Rightarrow> 's \<Rightarrow> kir_id \<Rightarrow> nat \<Rightarrow> nat \<Rightarrow> ledger_error + 'n kir_graph \<times> bool" where
  "load_neighborhood_bounded V s i depth max_objects =
     (case load_object V s i of
        Inl e \<Rightarrow> Inl e
      | Inr None \<Rightarrow> Inr (graph_new, False)
      | Inr (Some root) \<Rightarrow>
          (case walk_loop V s depth max_objects
                  \<lparr>wk_objects = [root], wk_relationships = [], wk_visited = {ko_id root}, wk_hidden = {},
                   wk_seen_rels = {}, wk_queue = [(ko_id root, 0)], wk_truncated = False\<rparr> of
             Inl e \<Rightarrow> Inl e
           | Inr w \<Rightarrow>
               (let rs1 = (if wk_hidden w \<noteq> {}
                           then filter (\<lambda>r. kr_from r \<notin> wk_hidden w \<and> kr_to r \<notin> wk_hidden w) (wk_relationships w)
                           else wk_relationships w);
                    present = ko_id ` set (wk_objects w);
                    rs2 = (if wk_truncated w then filter (\<lambda>r. kr_from r \<in> present \<and> kr_to r \<in> present) rs1 else rs1)
                in Inr (graph_new\<lparr>kg_objects := wk_objects w, kg_relationships := rs2\<rparr>, wk_truncated w))))"

text \<open>\<open>usize::MAX\<close> objects.\<close>

definition load_neighborhood ::
  "('s, 'n) knowledge_store \<Rightarrow> 's \<Rightarrow> kir_id \<Rightarrow> nat \<Rightarrow> ledger_error + 'n kir_graph" where
  "load_neighborhood V s i depth =
     (case load_neighborhood_bounded V s i depth U64_MAX of Inl e \<Rightarrow> Inl e | Inr (g, _) \<Rightarrow> Inr g)"

section \<open>The impact trace\<close>

datatype impact_direction = Dependents | Dependencies

record 'n impact_hop =
  ih_hop :: nat
  ih_object :: "'n kir_object"
  ih_via :: "'n kir_relationship"

text \<open>The edge filters of the trace, and the end of an edge it leads to, if any.\<close>

definition trace_follows :: "('s, 'n) knowledge_store \<Rightarrow> 's \<Rightarrow> 'n kir_relationship \<Rightarrow> bool" where
  "trace_follows V s r \<longleftrightarrow> \<not> is_pending_review r \<and> \<not> is_doc_mention r \<and> \<not> is_session_relationship V s r"

definition trace_end :: "impact_direction \<Rightarrow> kir_id \<Rightarrow> 'n kir_relationship \<Rightarrow> kir_id option" where
  "trace_end dir current r =
     (case dir of
        Dependents \<Rightarrow> if kr_to r = current then Some (kr_from r) else None
      | Dependencies \<Rightarrow> if kr_from r = current then Some (kr_to r) else None)"

record 'n trace =
  tr_hops :: "'n impact_hop list"
  tr_visited :: "kir_id set"
  tr_queue :: "(kir_id \<times> nat) list"

fun trace_edges ::
  "('s, 'n) knowledge_store \<Rightarrow> 's \<Rightarrow> impact_direction \<Rightarrow> relationship_kind list \<Rightarrow> kir_id \<Rightarrow> nat \<Rightarrow>
   'n kir_relationship list \<Rightarrow> 'n trace \<Rightarrow> ledger_error + 'n trace" where
  "trace_edges V s dir kinds current depth [] t = Inr t"
| "trace_edges V s dir kinds current depth (r # rs) t =
     (if \<not> trace_follows V s r then trace_edges V s dir kinds current depth rs t
      else
        (case trace_end dir current r of
           None \<Rightarrow> trace_edges V s dir kinds current depth rs t
         | Some n \<Rightarrow>
             if kinds \<noteq> [] \<and> kr_kind r \<notin> set kinds then trace_edges V s dir kinds current depth rs t
             else if n \<in> tr_visited t then trace_edges V s dir kinds current depth rs t
             else
               let t1 = t\<lparr>tr_visited := insert n (tr_visited t)\<rparr>
               in (case ks_get_object V s n of
                     Inl e \<Rightarrow> Inl e
                   | Inr found \<Rightarrow>
                       trace_edges V s dir kinds current depth rs
                         (case found of
                            Some ob \<Rightarrow>
                              if \<not> is_unconfirmed_claim ob
                              then t1\<lparr>tr_hops := tr_hops t1 @ [\<lparr>ih_hop = depth + 1, ih_object = ob, ih_via = r\<rparr>],
                                      tr_queue := tr_queue t1 @ [(n, depth + 1)]\<rparr>
                              else t1
                          | None \<Rightarrow> t1))))"

definition trace_left :: "'n trace \<Rightarrow> nat" where
  "trace_left t = card (- tr_visited t) + length (tr_queue t)"

text \<open>One edge: the state after it.\<close>

definition trace_edge ::
  "('s, 'n) knowledge_store \<Rightarrow> 's \<Rightarrow> impact_direction \<Rightarrow> relationship_kind list \<Rightarrow> kir_id \<Rightarrow> nat \<Rightarrow>
   'n kir_relationship \<Rightarrow> 'n trace \<Rightarrow> ledger_error + 'n trace" where
  "trace_edge V s dir kinds current depth r t =
     (case (if trace_follows V s r \<and> (kinds = [] \<or> kr_kind r \<in> set kinds) then trace_end dir current r else None) of
        None \<Rightarrow> Inr t
      | Some n \<Rightarrow>
          if n \<in> tr_visited t then Inr t
          else
            let t1 = t\<lparr>tr_visited := insert n (tr_visited t)\<rparr>
            in (case ks_get_object V s n of
                  Inl e \<Rightarrow> Inl e
                | Inr None \<Rightarrow> Inr t1
                | Inr (Some ob) \<Rightarrow>
                    Inr (if \<not> is_unconfirmed_claim ob
                         then t1\<lparr>tr_hops := tr_hops t1 @ [\<lparr>ih_hop = depth + 1, ih_object = ob, ih_via = r\<rparr>],
                                 tr_queue := tr_queue t1 @ [(n, depth + 1)]\<rparr>
                         else t1)))"

lemma trace_edges_fold: "trace_edges V s dir kinds current depth rs t = fold_res (trace_edge V s dir kinds current depth) rs t"
proof (induction rs arbitrary: t)
  case Nil
  show ?case by simp
next
  case (Cons r rs)
  show ?case
  proof (cases "trace_follows V s r \<and> (kinds = [] \<or> kr_kind r \<in> set kinds)")
    case False
    then show ?thesis using Cons.IH by (cases "trace_end dir current r") (auto simp: trace_edge_def)
  next
    case True
    show ?thesis
    proof (cases "trace_end dir current r")
      case None
      then show ?thesis using True Cons.IH by (simp add: trace_edge_def)
    next
      case (Some n)
      show ?thesis
      proof (cases "n \<in> tr_visited t")
        case seen: True
        then show ?thesis using True Some Cons.IH by (auto simp: trace_edge_def)
      next
        case new: False
        show ?thesis
        proof (cases "ks_get_object V s n")
          case (Inl e)
          then show ?thesis using True Some new by (auto simp: trace_edge_def)
        next
          case (Inr found)
          then show ?thesis using True Some new Cons.IH by (cases found) (auto simp: trace_edge_def Let_def)
        qed
      qed
    qed
  qed
qed

lemma trace_edge_cases:
  assumes "trace_edge V s dir kinds c d r t = Inr t'"
  obtains (same) "t' = t"
      "\<And>n. trace_follows V s r \<Longrightarrow> kinds = [] \<or> kr_kind r \<in> set kinds \<Longrightarrow> trace_end dir c r = Some n \<Longrightarrow> n \<in> tr_visited t"
    | (dropped) n where "trace_follows V s r" "kinds = [] \<or> kr_kind r \<in> set kinds" "trace_end dir c r = Some n"
      "n \<notin> tr_visited t" "\<And>ob. ks_get_object V s n = Inr (Some ob) \<Longrightarrow> is_unconfirmed_claim ob"
      "t' = t\<lparr>tr_visited := insert n (tr_visited t)\<rparr>"
    | (found) n ob where "trace_follows V s r" "kinds = [] \<or> kr_kind r \<in> set kinds" "trace_end dir c r = Some n"
      "n \<notin> tr_visited t" "ks_get_object V s n = Inr (Some ob)" "\<not> is_unconfirmed_claim ob"
      "t' = t\<lparr>tr_visited := insert n (tr_visited t),
              tr_hops := tr_hops t @ [\<lparr>ih_hop = d + 1, ih_object = ob, ih_via = r\<rparr>],
              tr_queue := tr_queue t @ [(n, d + 1)]\<rparr>"
proof (cases "trace_follows V s r \<and> (kinds = [] \<or> kr_kind r \<in> set kinds)")
  case False
  then show ?thesis using assms same by (simp add: trace_edge_def split: if_splits)
next
  case True
  show ?thesis
  proof (cases "trace_end dir c r")
    case None
    then show ?thesis using assms True same by (simp add: trace_edge_def)
  next
    case (Some n)
    show ?thesis
    proof (cases "n \<in> tr_visited t")
      case seen: True
      then show ?thesis using assms True Some same by (simp add: trace_edge_def)
    next
      case new: False
      obtain x where x: "ks_get_object V s n = Inr x"
        using assms True Some new by (cases "ks_get_object V s n") (simp_all add: trace_edge_def Let_def)
      show ?thesis
      proof (cases "\<exists>ob. x = Some ob \<and> \<not> is_unconfirmed_claim ob")
        case None: False
        then have "t' = t\<lparr>tr_visited := insert n (tr_visited t)\<rparr>"
          using assms True Some new x by (cases x) (simp_all add: trace_edge_def Let_def)
        then show ?thesis using dropped True Some new x None by simp
      next
        case True': True
        then obtain ob where ob: "x = Some ob" "\<not> is_unconfirmed_claim ob" by blast
        then have "t' = t\<lparr>tr_visited := insert n (tr_visited t),
              tr_hops := tr_hops t @ [\<lparr>ih_hop = d + 1, ih_object = ob, ih_via = r\<rparr>],
              tr_queue := tr_queue t @ [(n, d + 1)]\<rparr>"
          using assms True Some new x by (simp add: trace_edge_def Let_def)
        then show ?thesis using found True Some new x ob by blast
      qed
    qed
  qed
qed

lemma trace_edge_left:
  assumes "trace_edge V s dir kinds c d r t = Inr t'"
  shows "trace_left t' \<le> trace_left t"
proof (cases rule: trace_edge_cases [OF assms])
  case (2 n)
  note c = card_compl_insert [OF 2(4)]
  show ?thesis unfolding 2(6) trace_left_def using c by (simp del: Compl_insert)
next
  case (3 n ob)
  note c = card_compl_insert [OF 3(4)]
  show ?thesis unfolding 3(7) trace_left_def using c by (simp del: Compl_insert)
qed simp

lemma trace_edges_left: "trace_edges V s dir kinds c d rs t = Inr t' \<Longrightarrow> trace_left t' \<le> trace_left t"
  unfolding trace_edges_fold
proof (induction rs arbitrary: t)
  case Nil
  then show ?case by simp
next
  case (Cons r rs)
  then obtain t1 where t1: "trace_edge V s dir kinds c d r t = Inr t1"
    and t': "fold_res (trace_edge V s dir kinds c d) rs t1 = Inr t'"
    by (cases "trace_edge V s dir kinds c d r t") simp_all
  from Cons.IH [OF t'] trace_edge_left [OF t1] show ?case by (rule le_trans)
qed

function trace_loop ::
  "('s, 'n) knowledge_store \<Rightarrow> 's \<Rightarrow> impact_direction \<Rightarrow> relationship_kind list \<Rightarrow> nat \<Rightarrow> 'n trace \<Rightarrow>
   ledger_error + 'n trace" where
  "trace_loop V s dir kinds max_hops t =
     (case tr_queue t of
        [] \<Rightarrow> Inr t
      | (current, d) # q \<Rightarrow>
          let t1 = t\<lparr>tr_queue := q\<rparr>
          in if max_hops \<le> d then trace_loop V s dir kinds max_hops t1
             else (case ks_relationships_for V s current of
                     Inl e \<Rightarrow> Inl e
                   | Inr rs \<Rightarrow>
                       (case trace_edges V s dir kinds current d rs t1 of
                          Inl e \<Rightarrow> Inl e
                        | Inr t2 \<Rightarrow> trace_loop V s dir kinds max_hops t2)))"
  by auto

termination
proof (relation "measure (\<lambda>(V, s, dir, kinds, m, t). trace_left t)", goal_cases)
  case 1
  show ?case by simp
next
  case (2 V s dir kinds m t p q current d t1)
  then show ?case by (simp add: trace_left_def)
next
  case (3 V s dir kinds m t p q current d t1 rs t2)
  then have "trace_left t2 \<le> trace_left t1" by (auto intro: trace_edges_left)
  moreover have "trace_left t1 < trace_left t" using 3 by (simp add: trace_left_def)
  ultimately show ?case by simp
qed

declare trace_loop.simps [simp del]

definition trace_impact ::
  "('s, 'n) knowledge_store \<Rightarrow> 's \<Rightarrow> kir_id \<Rightarrow> impact_direction \<Rightarrow> relationship_kind list \<Rightarrow> nat \<Rightarrow>
   ledger_error + 'n impact_hop list" where
  "trace_impact V s i dir kinds max_hops =
     (case load_object V s i of
        Inl e \<Rightarrow> Inl e
      | Inr None \<Rightarrow> Inr []
      | Inr (Some _) \<Rightarrow>
          (case trace_loop V s dir kinds max_hops \<lparr>tr_hops = [], tr_visited = {i}, tr_queue = [(i, 0)]\<rparr> of
             Inl e \<Rightarrow> Inl e
           | Inr t \<Rightarrow> Inr (tr_hops t)))"

definition traced_objects :: "ledger_error + 'n impact_hop list \<Rightarrow> ledger_error + 'n kir_object list" where
  "traced_objects r = (case r of Inl e \<Rightarrow> Inl e | Inr hops \<Rightarrow> Inr (map ih_object hops))"

definition DEPENDENCY_KINDS :: "relationship_kind list" where
  "DEPENDENCY_KINDS = [DependsOn, Calls, ForeignKey, References, Contains]"

definition DEPENDENT_KINDS :: "relationship_kind list" where
  "DEPENDENT_KINDS = [DependsOn, Calls, ForeignKey, References]"

definition dependencies :: "('s, 'n) knowledge_store \<Rightarrow> 's \<Rightarrow> kir_id \<Rightarrow> nat \<Rightarrow> ledger_error + 'n kir_object list" where
  "dependencies V s i hops = traced_objects (trace_impact V s i Dependencies DEPENDENCY_KINDS hops)"

definition dependents :: "('s, 'n) knowledge_store \<Rightarrow> 's \<Rightarrow> kir_id \<Rightarrow> nat \<Rightarrow> ledger_error + 'n kir_object list" where
  "dependents V s i hops = traced_objects (trace_impact V s i Dependents DEPENDENT_KINDS hops)"

definition callers :: "('s, 'n) knowledge_store \<Rightarrow> 's \<Rightarrow> kir_id \<Rightarrow> nat \<Rightarrow> ledger_error + 'n kir_object list" where
  "callers V s i hops = traced_objects (trace_impact V s i Dependents [Calls] hops)"

definition related :: "('s, 'n) knowledge_store \<Rightarrow> 's \<Rightarrow> kir_id \<Rightarrow> nat \<Rightarrow> ledger_error + 'n kir_object list" where
  "related V s i depth =
     (case load_neighborhood V s i depth of
        Inl e \<Rightarrow> Inl e
      | Inr g \<Rightarrow> Inr (filter (\<lambda>ob. ko_id ob \<noteq> i) (kg_objects g)))"

datatype structural_op = OpDependents | OpDependencies | OpCallers | OpNeighborhood | OpImpact

fun graph_op ::
  "('s, 'n) knowledge_store \<Rightarrow> 's \<Rightarrow> structural_op \<Rightarrow> kir_id \<Rightarrow> nat \<Rightarrow> ledger_error + 'n kir_object list" where
  "graph_op V s OpDependents i hops = dependents V s i hops"
| "graph_op V s OpImpact i hops = dependents V s i hops"
| "graph_op V s OpDependencies i hops = dependencies V s i hops"
| "graph_op V s OpCallers i hops = callers V s i hops"
| "graph_op V s OpNeighborhood i hops = related V s i hops"

section \<open>Worlds\<close>

record 'n kg_world =
  wd_name :: string
  wd_time :: int
  wd_round :: "nat option"
  wd_objects :: "'n kir_object list"
  wd_relationships :: "'n kir_relationship list"
  wd_events :: "'n kir_event list"

fun world_members ::
  "('s, 'n) knowledge_store \<Rightarrow> 's \<Rightarrow> int option \<Rightarrow> kir_id list \<Rightarrow> ledger_error + 'n kir_object list \<times> 'n kir_event list" where
  "world_members V s at [] = Inr ([], [])"
| "world_members V s at (i # is) =
     (case (case at of Some t \<Rightarrow> ks_object_at V s i t | None \<Rightarrow> ks_get_object V s i) of
        Inl e \<Rightarrow> Inl e
      | Inr (Some ob) \<Rightarrow>
          (case world_members V s at is of
             Inl e \<Rightarrow> Inl e
           | Inr (obs, evs) \<Rightarrow> Inr (if is_session_object_kind (ko_kind ob) then obs else ob # obs, evs))
      | Inr None \<Rightarrow>
          (case ks_get_event V s i of
             Inl e \<Rightarrow> Inl e
           | Inr found \<Rightarrow>
               (case world_members V s at is of
                  Inl e \<Rightarrow> Inl e
                | Inr (obs, evs) \<Rightarrow>
                    Inr (obs, case found of
                                Some ev \<Rightarrow> if (case at of None \<Rightarrow> True | Some t \<Rightarrow> kv_occurred_at ev \<le> t) then ev # evs else evs
                              | None \<Rightarrow> evs))))"

fun world_edges_of ::
  "('s, 'n) knowledge_store \<Rightarrow> 's \<Rightarrow> kir_id set \<Rightarrow> kir_id \<Rightarrow> 'n kir_relationship list \<Rightarrow>
   kir_id set \<times> 'n kir_relationship list \<Rightarrow> kir_id set \<times> 'n kir_relationship list" where
  "world_edges_of V s scope i [] acc = acc"
| "world_edges_of V s scope i (r # rs) (seen, out) =
     (if is_pending_review r \<or> is_session_relationship V s r then world_edges_of V s scope i rs (seen, out)
      else let other = (if kr_from r = i then kr_to r else kr_from r)
           in if other \<notin> scope then world_edges_of V s scope i rs (seen, out)
              else if kr_id r \<notin> seen then world_edges_of V s scope i rs (insert (kr_id r) seen, out @ [r])
              else world_edges_of V s scope i rs (seen, out))"

fun world_edges ::
  "('s, 'n) knowledge_store \<Rightarrow> 's \<Rightarrow> int option \<Rightarrow> kir_id set \<Rightarrow> kir_id list \<Rightarrow>
   kir_id set \<times> 'n kir_relationship list \<Rightarrow> ledger_error + kir_id set \<times> 'n kir_relationship list" where
  "world_edges V s at scope [] acc = Inr acc"
| "world_edges V s at scope (i # is) acc =
     (case (case at of Some t \<Rightarrow> ks_relationships_at V s i t | None \<Rightarrow> ks_relationships_for V s i) of
        Inl e \<Rightarrow> Inl e
      | Inr rs \<Rightarrow> world_edges V s at scope is (world_edges_of V s scope i rs acc))"

definition build_world ::
  "('s, 'n) knowledge_store \<Rightarrow> 's \<Rightarrow> int \<Rightarrow> string \<Rightarrow> kir_id list \<Rightarrow> int option \<Rightarrow> nat option \<Rightarrow> ledger_error + 'n kg_world" where
  "build_world V s now name ids at rnd =
     (case world_members V s at ids of
        Inl e \<Rightarrow> Inl e
      | Inr (obs, evs) \<Rightarrow>
          (case world_edges V s at (set ids) ids ({}, []) of
             Inl e \<Rightarrow> Inl e
           | Inr (_, rs) \<Rightarrow>
               Inr \<lparr>wd_name = name, wd_time = (case at of Some t \<Rightarrow> t | None \<Rightarrow> now), wd_round = rnd,
                    wd_objects = obs, wd_relationships = rs, wd_events = evs\<rparr>))"

definition agent_observation ::
  "('s, 'n) knowledge_store \<Rightarrow> 's \<Rightarrow> (kir_id \<Rightarrow> string) \<Rightarrow> int \<Rightarrow> kir_id \<Rightarrow> int option \<Rightarrow> ledger_error + 'n kg_world" where
  "agent_observation V s show_id now agent at =
     (case (case at of Some t \<Rightarrow> ks_relationships_at V s agent t | None \<Rightarrow> ks_relationships_for V s agent) of
        Inl e \<Rightarrow> Inl e
      | Inr rs \<Rightarrow>
          build_world V s now (show_id agent @ ''-observation'')
            (agent # map kr_to (filter (\<lambda>r. kr_from r = agent \<and> kr_kind r = RCustom ''Knows'' \<and> \<not> is_pending_review r) rs))
            at None)"

end
