(* ===== verification/Runtime_Trace.thy ===== *)
theory Runtime_Trace
  imports Runtime_Graph
begin

text \<open>
  The impact trace is a breadth-first search: it reports exactly the confirmed objects within the
  hop limit, each once, at its distance from the root, and in order of distance.
\<close>

section \<open>Distances\<close>

text \<open>An edge of node \<open>m\<close> that the trace follows, and the node it leads to.\<close>

definition hop_edge ::
  "('s, 'n) knowledge_store \<Rightarrow> 's \<Rightarrow> impact_direction \<Rightarrow> relationship_kind list \<Rightarrow> kir_id \<Rightarrow> 'n kir_relationship \<Rightarrow> kir_id \<Rightarrow> bool" where
  "hop_edge V s dir kinds m r n \<longleftrightarrow>
     (\<exists>rs. ks_relationships_for V s m = Inr rs \<and> r \<in> set rs) \<and> trace_follows V s r \<and>
     (kinds = [] \<or> kr_kind r \<in> set kinds) \<and> trace_end dir m r = Some n"

definition confirmed :: "('s, 'n) knowledge_store \<Rightarrow> 's \<Rightarrow> kir_id \<Rightarrow> bool" where
  "confirmed V s n \<longleftrightarrow> (\<exists>ob. ks_get_object V s n = Inr (Some ob) \<and> \<not> is_unconfirmed_claim ob)"

inductive trace_reach ::
  "('s, 'n) knowledge_store \<Rightarrow> 's \<Rightarrow> impact_direction \<Rightarrow> relationship_kind list \<Rightarrow> kir_id \<Rightarrow> nat \<Rightarrow> kir_id \<Rightarrow> bool"
  for V s dir kinds root where
  here: "trace_reach V s dir kinds root 0 root"
| step: "trace_reach V s dir kinds root k m \<Longrightarrow> hop_edge V s dir kinds m r n \<Longrightarrow> confirmed V s n \<Longrightarrow>
     trace_reach V s dir kinds root (Suc k) n"

inductive_cases trace_reach_0E: "trace_reach V s dir kinds root 0 n"
inductive_cases trace_reach_SucE: "trace_reach V s dir kinds root (Suc k) n"

definition at_distance ::
  "('s, 'n) knowledge_store \<Rightarrow> 's \<Rightarrow> impact_direction \<Rightarrow> relationship_kind list \<Rightarrow> kir_id \<Rightarrow> nat \<Rightarrow> kir_id \<Rightarrow> bool" where
  "at_distance V s dir kinds root k n \<longleftrightarrow>
     trace_reach V s dir kinds root k n \<and> (\<forall>j < k. \<not> trace_reach V s dir kinds root j n)"

lemma at_distance_0: "at_distance V s dir kinds root 0 n \<longleftrightarrow> n = root"
  by (auto simp: at_distance_def intro: trace_reach.here elim: trace_reach_0E)

lemma at_distance_unique:
  assumes "at_distance V s dir kinds root j n" "at_distance V s dir kinds root k n"
  shows "j = k"
  using assms unfolding at_distance_def by (metis linorder_neqE_nat)

lemma at_distance_exists: "trace_reach V s dir kinds root k n \<Longrightarrow> \<exists>j \<le> k. at_distance V s dir kinds root j n"
proof (induction k rule: less_induct)
  case (less k)
  show ?case
  proof (cases "\<exists>j < k. trace_reach V s dir kinds root j n")
    case True
    then show ?thesis using less.IH by (meson le_trans less_imp_le)
  next
    case False
    then show ?thesis using less.prems by (auto simp: at_distance_def)
  qed
qed

lemma at_distance_Suc:
  assumes "at_distance V s dir kinds root (Suc k) n"
  shows "confirmed V s n \<and> (\<exists>m r. at_distance V s dir kinds root k m \<and> hop_edge V s dir kinds m r n)"
proof -
  obtain m r where m: "trace_reach V s dir kinds root k m" "hop_edge V s dir kinds m r n" "confirmed V s n"
    using assms unfolding at_distance_def by (auto elim: trace_reach_SucE)
  obtain j where j: "j \<le> k" "at_distance V s dir kinds root j m" using at_distance_exists [OF m(1)] by blast
  have "trace_reach V s dir kinds root (Suc j) n"
    using trace_reach.step [OF _ m(2,3)] j(2) by (simp add: at_distance_def)
  then have "j = k" using assms j(1) unfolding at_distance_def by (metis Suc_less_eq le_neq_implies_less)
  then show ?thesis using m j(2) by blast
qed

section \<open>The invariant of the queue\<close>

text \<open>
  \<open>A\<close> are the queued nodes of the current level, \<open>U\<close> those of it not expanded completely yet, \<open>B\<close> the
  nodes of the next level found so far.
\<close>

definition hop_ok ::
  "('s, 'n) knowledge_store \<Rightarrow> 's \<Rightarrow> impact_direction \<Rightarrow> relationship_kind list \<Rightarrow> kir_id \<Rightarrow> 'n impact_hop \<Rightarrow> bool" where
  "hop_ok V s dir kinds root h \<longleftrightarrow>
     ks_get_object V s (ko_id (ih_object h)) = Inr (Some (ih_object h)) \<and>
     0 < ih_hop h \<and>
     (\<exists>m. at_distance V s dir kinds root (ih_hop h - 1) m \<and> hop_edge V s dir kinds m (ih_via h) (ko_id (ih_object h)))"

definition trace_inv ::
  "('s, 'n) knowledge_store \<Rightarrow> 's \<Rightarrow> impact_direction \<Rightarrow> relationship_kind list \<Rightarrow> kir_id \<Rightarrow> nat \<Rightarrow> kir_id list \<Rightarrow> kir_id set \<Rightarrow> kir_id list \<Rightarrow>
   'n trace \<Rightarrow> bool" where
  "trace_inv V s dir kinds root d A U B t \<longleftrightarrow>
     tr_queue t = map (\<lambda>n. (n, d)) A @ map (\<lambda>n. (n, Suc d)) B \<and>
     (\<forall>n \<in> set A. at_distance V s dir kinds root d n) \<and>
     (\<forall>n \<in> set B. at_distance V s dir kinds root (Suc d) n) \<and>
     set B \<subseteq> tr_visited t \<and>
     (\<forall>k \<le> d. \<forall>n. at_distance V s dir kinds root k n \<longrightarrow> n \<in> tr_visited t) \<and>
     (\<forall>n \<in> tr_visited t. confirmed V s n \<longrightarrow> n = root \<or> (\<exists>k \<le> d. at_distance V s dir kinds root k n) \<or> n \<in> set B) \<and>
     (\<forall>k \<le> d. \<forall>m r n. at_distance V s dir kinds root k m \<longrightarrow> (k = d \<longrightarrow> m \<notin> U) \<longrightarrow>
        hop_edge V s dir kinds m r n \<longrightarrow> n \<in> tr_visited t) \<and>
     sorted (map ih_hop (tr_hops t)) \<and> distinct (map (ko_id \<circ> ih_object) (tr_hops t)) \<and>
     (\<forall>n k. (\<exists>h \<in> set (tr_hops t). ko_id (ih_object h) = n \<and> ih_hop h = k) \<longleftrightarrow>
        (0 < k \<and> k \<le> d \<and> at_distance V s dir kinds root k n) \<or> (k = Suc d \<and> n \<in> set B)) \<and>
     (\<forall>h \<in> set (tr_hops t). hop_ok V s dir kinds root h)"

lemmas trace_invD = trace_inv_def [THEN iffD1]

lemma next_level:
  assumes "trace_inv V s dir kinds root d [] {} B t"
  shows "at_distance V s dir kinds root (Suc d) n \<longleftrightarrow> n \<in> set B"
proof
  assume n: "at_distance V s dir kinds root (Suc d) n"
  from at_distance_Suc [OF this] obtain m r where m: "confirmed V s n" "at_distance V s dir kinds root d m"
    "hop_edge V s dir kinds m r n" by blast
  have expanded: "\<forall>k \<le> d. \<forall>m r n. at_distance V s dir kinds root k m \<longrightarrow> (k = d \<longrightarrow> m \<notin> {}) \<longrightarrow>
        hop_edge V s dir kinds m r n \<longrightarrow> n \<in> tr_visited t"
    and vis: "\<forall>n \<in> tr_visited t. confirmed V s n \<longrightarrow> n = root \<or> (\<exists>k \<le> d. at_distance V s dir kinds root k n) \<or> n \<in> set B"
    using trace_invD [OF assms] by simp_all
  have "n \<in> tr_visited t" using expanded m(2,3) by auto
  then have "n = root \<or> (\<exists>k \<le> d. at_distance V s dir kinds root k n) \<or> n \<in> set B" using vis m(1) by blast
  moreover have "n \<noteq> root" using at_distance_unique [OF n, of 0] at_distance_0 [of V s dir kinds root n] by auto
  moreover have "\<not> at_distance V s dir kinds root k n" if "k \<le> d" for k
    using at_distance_unique [OF n, of k] that by auto
  ultimately show "n \<in> set B" by blast
qed (use assms in \<open>simp add: trace_inv_def\<close>)

lemma trace_inv_shift:
  assumes "trace_inv V s dir kinds root d [] {} B t"
  shows "trace_inv V s dir kinds root (Suc d) B (set B) [] t"
proof -
  note lvl = next_level [OF assms]
  have q: "tr_queue t = map (\<lambda>n. (n, Suc d)) B" and B: "\<forall>n \<in> set B. at_distance V s dir kinds root (Suc d) n"
    and BV: "set B \<subseteq> tr_visited t"
    and V: "\<forall>k \<le> d. \<forall>n. at_distance V s dir kinds root k n \<longrightarrow> n \<in> tr_visited t"
    and vis: "\<forall>n \<in> tr_visited t. confirmed V s n \<longrightarrow> n = root \<or> (\<exists>k \<le> d. at_distance V s dir kinds root k n) \<or> n \<in> set B"
    and expanded: "\<forall>k \<le> d. \<forall>m r n. at_distance V s dir kinds root k m \<longrightarrow> (k = d \<longrightarrow> m \<notin> {}) \<longrightarrow>
        hop_edge V s dir kinds m r n \<longrightarrow> n \<in> tr_visited t"
    and srt: "sorted (map ih_hop (tr_hops t))" "distinct (map (ko_id \<circ> ih_object) (tr_hops t))"
    and hops: "\<And>n k. (\<exists>h \<in> set (tr_hops t). ko_id (ih_object h) = n \<and> ih_hop h = k) \<longleftrightarrow>
        (0 < k \<and> k \<le> d \<and> at_distance V s dir kinds root k n) \<or> (k = Suc d \<and> n \<in> set B)"
    and ok: "\<forall>h \<in> set (tr_hops t). hop_ok V s dir kinds root h"
    using trace_invD [OF assms] by simp_all
  show ?thesis
    unfolding trace_inv_def
  proof (intro conjI)
    show "tr_queue t = map (\<lambda>n. (n, Suc d)) B @ map (\<lambda>n. (n, Suc (Suc d))) []" using q by simp
    show "\<forall>k \<le> Suc d. \<forall>n. at_distance V s dir kinds root k n \<longrightarrow> n \<in> tr_visited t"
    proof (intro allI impI)
      fix k n assume "k \<le> Suc d" "at_distance V s dir kinds root k n"
      then show "n \<in> tr_visited t" using V BV lvl by (auto simp: le_Suc_eq)
    qed
    show "\<forall>n \<in> tr_visited t. confirmed V s n \<longrightarrow>
        n = root \<or> (\<exists>k \<le> Suc d. at_distance V s dir kinds root k n) \<or> n \<in> set []"
    proof (intro ballI impI)
      fix n assume "n \<in> tr_visited t" "confirmed V s n"
      then consider "n = root" | k where "k \<le> d" "at_distance V s dir kinds root k n" | "n \<in> set B" using vis by blast
      then show "n = root \<or> (\<exists>k \<le> Suc d. at_distance V s dir kinds root k n) \<or> n \<in> set []"
        by cases (use B in \<open>auto intro: le_SucI\<close>)
    qed
    show "\<forall>k \<le> Suc d. \<forall>m r n. at_distance V s dir kinds root k m \<longrightarrow> (k = Suc d \<longrightarrow> m \<notin> set B) \<longrightarrow>
        hop_edge V s dir kinds m r n \<longrightarrow> n \<in> tr_visited t"
    proof (intro allI impI)
      fix k m r n assume *: "k \<le> Suc d" "at_distance V s dir kinds root k m" "k = Suc d \<longrightarrow> m \<notin> set B"
        "hop_edge V s dir kinds m r n"
      then have "k \<le> d" using lvl by (cases "k = Suc d") auto
      then show "n \<in> tr_visited t" using expanded * by auto
    qed
    show "\<forall>n k. (\<exists>h \<in> set (tr_hops t). ko_id (ih_object h) = n \<and> ih_hop h = k) \<longleftrightarrow>
        (0 < k \<and> k \<le> Suc d \<and> at_distance V s dir kinds root k n) \<or> (k = Suc (Suc d) \<and> n \<in> set [])"
      unfolding hops using lvl by (auto simp: le_Suc_eq)
  qed (use B srt ok in simp_all)
qed

lemma trace_inv_end:
  assumes "trace_inv V s dir kinds root d [] {} [] t" "d < k"
  shows "\<not> at_distance V s dir kinds root k n"
  using assms(2)
proof (induction k arbitrary: n)
  case 0
  then show ?case by simp
next
  case (Suc k)
  show ?case
  proof (cases "k = d")
    case True
    then show ?thesis using next_level [OF assms(1)] by simp
  next
    case False
    then have "d < k" using Suc.prems by simp
    then have "\<not> at_distance V s dir kinds root k m" for m by (rule Suc.IH)
    then show ?thesis using at_distance_Suc [of V s dir kinds root k n] by blast
  qed
qed

section \<open>One edge, one node\<close>

lemma trace_edge_inv:
  assumes "store_consistent V s" "trace_inv V s dir kinds root d A U B t" "at_distance V s dir kinds root d c"
    and "ks_relationships_for V s c = Inr rs" "r \<in> set rs" "trace_edge V s dir kinds c d r t = Inr t'"
  shows "\<exists>B'. trace_inv V s dir kinds root d A U B' t' \<and>
    (\<forall>n. hop_edge V s dir kinds c r n \<longrightarrow> n \<in> tr_visited t') \<and> tr_visited t \<subseteq> tr_visited t'"
proof (cases rule: trace_edge_cases [OF assms(6)])
  case 1
  have "n \<in> tr_visited t" if "hop_edge V s dir kinds c r n" for n using that 1(2) by (auto simp: hop_edge_def)
  then show ?thesis using assms(2) 1(1) by blast
next
  case (2 n)
  have edge: "hop_edge V s dir kinds c r n" using 2(1-3) assms(4,5) by (auto simp: hop_edge_def)
  have "trace_inv V s dir kinds root d A U B t'"
    using assms(2) 2(5) unfolding 2(6) trace_inv_def by (auto simp: confirmed_def)
  moreover have "m = n" if "hop_edge V s dir kinds c r m" for m using that 2(3) by (simp add: hop_edge_def)
  ultimately show ?thesis using 2(6) by auto
next
  case (3 n ob)
  have edge: "hop_edge V s dir kinds c r n" using 3(1-3) assms(4,5) by (auto simp: hop_edge_def)
  have conf: "confirmed V s n" using 3(5,6) by (auto simp: confirmed_def)
  have id: "ko_id ob = n" using assms(1) 3(5) by (simp add: store_consistent_def)
  have "\<forall>k \<le> d. \<forall>n. at_distance V s dir kinds root k n \<longrightarrow> n \<in> tr_visited t"
    using trace_invD [OF assms(2)] by simp
  then have V: "m \<in> tr_visited t" if "k \<le> d" "at_distance V s dir kinds root k m" for k m using that by blast
  have not_near: "\<not> at_distance V s dir kinds root k n" if "k \<le> d" for k using V that 3(4) by blast
  have "trace_reach V s dir kinds root (Suc d) n"
    by (rule trace_reach.step [OF _ edge conf]) (use assms(3) in \<open>simp add: at_distance_def\<close>)
  moreover have "\<not> trace_reach V s dir kinds root j n" if "j < Suc d" for j
    using at_distance_exists [of V s dir kinds root j n] not_near that by fastforce
  ultimately have dist: "at_distance V s dir kinds root (Suc d) n" by (simp add: at_distance_def)
  have BV: "set B \<subseteq> tr_visited t" and hops: "\<And>n k. (\<exists>h \<in> set (tr_hops t). ko_id (ih_object h) = n \<and> ih_hop h = k) \<longleftrightarrow>
        (0 < k \<and> k \<le> d \<and> at_distance V s dir kinds root k n) \<or> (k = Suc d \<and> n \<in> set B)"
    and srt: "sorted (map ih_hop (tr_hops t))" "distinct (map (ko_id \<circ> ih_object) (tr_hops t))"
    using assms(2) unfolding trace_inv_def by simp_all
  let ?h = "\<lparr>ih_hop = d + 1, ih_object = ob, ih_via = r\<rparr>"
  have le: "ih_hop h \<le> Suc d" if "h \<in> set (tr_hops t)" for h
    using hops [of "ko_id (ih_object h)" "ih_hop h"] that by auto
  have fresh: "ko_id (ih_object h) \<noteq> n" if "h \<in> set (tr_hops t)" for h
    using hops [of "ko_id (ih_object h)" "ih_hop h"] that V BV 3(4) by auto
  have ok: "hop_ok V s dir kinds root ?h" using id 3(5) edge assms(3) by (auto simp: hop_ok_def)
  have D: "tr_queue t = map (\<lambda>n. (n, d)) A @ map (\<lambda>n. (n, Suc d)) B" "\<forall>n \<in> set A. at_distance V s dir kinds root d n"
    "\<forall>n \<in> set B. at_distance V s dir kinds root (Suc d) n"
    "\<forall>k \<le> d. \<forall>n. at_distance V s dir kinds root k n \<longrightarrow> n \<in> tr_visited t"
    "\<forall>k \<le> d. \<forall>m r n. at_distance V s dir kinds root k m \<longrightarrow> (k = d \<longrightarrow> m \<notin> U) \<longrightarrow>
        hop_edge V s dir kinds m r n \<longrightarrow> n \<in> tr_visited t"
    "\<forall>h \<in> set (tr_hops t). hop_ok V s dir kinds root h"
    "\<forall>n \<in> tr_visited t. confirmed V s n \<longrightarrow> n = root \<or> (\<exists>k \<le> d. at_distance V s dir kinds root k n) \<or> n \<in> set B"
    using trace_invD [OF assms(2)] by simp_all
  have "trace_inv V s dir kinds root d A U (B @ [n]) t'"
    unfolding trace_inv_def
  proof (intro conjI)
    show "sorted (map ih_hop (tr_hops t'))" using srt(1) le by (auto simp: 3(7) sorted_append)
    show "distinct (map (ko_id \<circ> ih_object) (tr_hops t'))" using srt(2) fresh id by (simp add: 3(7)) blast
    show "\<forall>m k. (\<exists>h \<in> set (tr_hops t'). ko_id (ih_object h) = m \<and> ih_hop h = k) \<longleftrightarrow>
        (0 < k \<and> k \<le> d \<and> at_distance V s dir kinds root k m) \<or> (k = Suc d \<and> m \<in> set (B @ [n]))"
    proof (intro allI)
      fix m k
      have "(\<exists>h \<in> set (tr_hops t'). ko_id (ih_object h) = m \<and> ih_hop h = k) \<longleftrightarrow>
          (\<exists>h \<in> set (tr_hops t). ko_id (ih_object h) = m \<and> ih_hop h = k) \<or> (n = m \<and> Suc d = k)"
        by (auto simp: 3(7) id)
      then show "(\<exists>h \<in> set (tr_hops t'). ko_id (ih_object h) = m \<and> ih_hop h = k) \<longleftrightarrow>
        (0 < k \<and> k \<le> d \<and> at_distance V s dir kinds root k m) \<or> (k = Suc d \<and> m \<in> set (B @ [n]))"
        unfolding hops by auto
    qed
    show "\<forall>h \<in> set (tr_hops t'). hop_ok V s dir kinds root h"
      using D(6) ok by (simp add: 3(7))
    show "\<forall>m \<in> tr_visited t'. confirmed V s m \<longrightarrow> m = root \<or> (\<exists>k \<le> d. at_distance V s dir kinds root k m) \<or> m \<in> set (B @ [n])"
    proof (intro ballI impI)
      fix m assume m: "m \<in> tr_visited t'" "confirmed V s m"
      show "m = root \<or> (\<exists>k \<le> d. at_distance V s dir kinds root k m) \<or> m \<in> set (B @ [n])"
      proof (cases "m = n")
        case False
        then have "m \<in> tr_visited t" using m(1) by (simp add: 3(7))
        then have "m = root \<or> (\<exists>k \<le> d. at_distance V s dir kinds root k m) \<or> m \<in> set B" using D(7) m(2) by blast
        then show ?thesis by auto
      qed simp
    qed
    show "tr_queue t' = map (\<lambda>n. (n, d)) A @ map (\<lambda>n. (n, Suc d)) (B @ [n])" using D(1) by (simp add: 3(7))
    show "set (B @ [n]) \<subseteq> tr_visited t'" using BV by (auto simp: 3(7))
    show "\<forall>n \<in> set (B @ [n]). at_distance V s dir kinds root (Suc d) n" using D(3) dist by simp
    show "\<forall>k \<le> d. \<forall>n. at_distance V s dir kinds root k n \<longrightarrow> n \<in> tr_visited t'" using D(4) by (simp add: 3(7))
    show "\<forall>k \<le> d. \<forall>m r n. at_distance V s dir kinds root k m \<longrightarrow> (k = d \<longrightarrow> m \<notin> U) \<longrightarrow>
        hop_edge V s dir kinds m r n \<longrightarrow> n \<in> tr_visited t'"
    proof (intro allI impI)
      fix k m r n
      assume "k \<le> d" "at_distance V s dir kinds root k m" "k = d \<longrightarrow> m \<notin> U" "hop_edge V s dir kinds m r n"
      then have "n \<in> tr_visited t" using D(5) by blast
      then show "n \<in> tr_visited t'" by (simp add: 3(7))
    qed
  qed (rule D(2))
  moreover have "m = n" if "hop_edge V s dir kinds c r m" for m using that 3(3) by (simp add: hop_edge_def)
  ultimately show ?thesis using 3(7) by auto
qed

lemma trace_edges_inv:
  assumes "store_consistent V s" "at_distance V s dir kinds root d c" "ks_relationships_for V s c = Inr rs"
    and "trace_inv V s dir kinds root d A U B t" "set qs \<subseteq> set rs"
    and "fold_res (trace_edge V s dir kinds c d) qs t = Inr t'"
  shows "\<exists>B'. trace_inv V s dir kinds root d A U B' t' \<and>
    (\<forall>r n. r \<in> set qs \<longrightarrow> hop_edge V s dir kinds c r n \<longrightarrow> n \<in> tr_visited t') \<and> tr_visited t \<subseteq> tr_visited t'"
  using assms(4-6)
proof (induction qs arbitrary: B t)
  case Nil
  then show ?case by auto
next
  case (Cons r qs)
  have r: "r \<in> set rs" using Cons.prems(2) by simp
  obtain t1 where t1: "trace_edge V s dir kinds c d r t = Inr t1" "fold_res (trace_edge V s dir kinds c d) qs t1 = Inr t'"
    using Cons.prems(3) by (cases "trace_edge V s dir kinds c d r t") simp_all
  obtain B1 where B1: "trace_inv V s dir kinds root d A U B1 t1"
      "\<And>n. hop_edge V s dir kinds c r n \<Longrightarrow> n \<in> tr_visited t1" "tr_visited t \<subseteq> tr_visited t1"
    using trace_edge_inv [OF assms(1) Cons.prems(1) assms(2,3) r t1(1)] by auto
  obtain B2 where B2: "trace_inv V s dir kinds root d A U B2 t'"
      "\<And>r n. r \<in> set qs \<Longrightarrow> hop_edge V s dir kinds c r n \<Longrightarrow> n \<in> tr_visited t'" "tr_visited t1 \<subseteq> tr_visited t'"
    using Cons.IH [OF B1(1) _ t1(2)] Cons.prems(2) by auto
  show ?case
    by (rule exI [of _ B2]) (use B1(2,3) B2 in auto)
qed

lemma trace_edge_total:
  assumes "\<And>i. \<exists>x. ks_get_object V s i = Inr x"
  shows "\<exists>t'. trace_edge V s dir kinds c d r t = Inr t'"
proof (cases "if trace_follows V s r \<and> (kinds = [] \<or> kr_kind r \<in> set kinds) then trace_end dir c r else None")
  case None
  then show ?thesis unfolding trace_edge_def by simp
next
  case (Some n)
  obtain x where "ks_get_object V s n = Inr x" using assms by blast
  then show ?thesis unfolding trace_edge_def Some by (cases x) (simp_all add: Let_def)
qed

section \<open>The whole search\<close>

lemma trace_loop_idle:
  assumes "\<forall>p \<in> set (tr_queue t). max_hops \<le> snd p"
  shows "\<exists>t'. trace_loop V s dir kinds max_hops t = Inr t' \<and> tr_hops t' = tr_hops t"
  using assms
proof (induction "length (tr_queue t)" arbitrary: t)
  case 0
  then show ?case by (subst trace_loop.simps) simp
next
  case (Suc k)
  obtain c d q where q: "tr_queue t = (c, d) # q" using Suc.hyps(2) by (cases "tr_queue t") auto
  have "\<exists>t'. trace_loop V s dir kinds max_hops (t\<lparr>tr_queue := q\<rparr>) = Inr t' \<and> tr_hops t' = tr_hops (t\<lparr>tr_queue := q\<rparr>)"
    by (rule Suc.hyps(1)) (use Suc q in simp_all)
  then show ?case using Suc.prems q by (subst trace_loop.simps) simp
qed

definition trace_result_ok ::
  "('s, 'n) knowledge_store \<Rightarrow> 's \<Rightarrow> impact_direction \<Rightarrow> relationship_kind list \<Rightarrow> kir_id \<Rightarrow> nat \<Rightarrow> 'n impact_hop list \<Rightarrow> bool" where
  "trace_result_ok V s dir kinds root max_hops hops \<longleftrightarrow>
     sorted (map ih_hop hops) \<and> distinct (map (ko_id \<circ> ih_object) hops) \<and>
     (\<forall>n k. (\<exists>h \<in> set hops. ko_id (ih_object h) = n \<and> ih_hop h = k) \<longleftrightarrow>
        0 < k \<and> k \<le> max_hops \<and> at_distance V s dir kinds root k n) \<and>
     (\<forall>h \<in> set hops. hop_ok V s dir kinds root h)"

lemma trace_inv_result:
  assumes "trace_inv V s dir kinds root d A (set A) B t" "d \<le> m" "B = []" "A = [] \<or> d = m"
  shows "trace_result_ok V s dir kinds root m (tr_hops t)"
proof -
  have hops: "(\<exists>h \<in> set (tr_hops t). ko_id (ih_object h) = n \<and> ih_hop h = k) \<longleftrightarrow>
      0 < k \<and> k \<le> d \<and> at_distance V s dir kinds root k n" for n k
    using assms(1,3) unfolding trace_inv_def by simp
  have "0 < k \<and> k \<le> d \<and> at_distance V s dir kinds root k n \<longleftrightarrow>
      0 < k \<and> k \<le> m \<and> at_distance V s dir kinds root k n" for n k
  proof (cases "d = m")
    case False
    then have "trace_inv V s dir kinds root d [] {} [] t" using assms by simp
    from trace_inv_end [OF this, of k n] show ?thesis using assms(2) by (cases "d < k") auto
  qed simp
  then show ?thesis using assms(1) unfolding trace_result_ok_def hops trace_inv_def by simp
qed

lemma trace_inv_expanded:
  assumes "trace_inv V s dir kinds root d A (insert c U) B t"
    and "\<And>r n. hop_edge V s dir kinds c r n \<Longrightarrow> n \<in> tr_visited t"
  shows "trace_inv V s dir kinds root d A U B t"
proof -
  have old: "\<forall>k \<le> d. \<forall>m r n. at_distance V s dir kinds root k m \<longrightarrow> (k = d \<longrightarrow> m \<notin> insert c U) \<longrightarrow>
        hop_edge V s dir kinds m r n \<longrightarrow> n \<in> tr_visited t"
    using trace_invD [OF assms(1)] by simp
  have "\<forall>k \<le> d. \<forall>m r n. at_distance V s dir kinds root k m \<longrightarrow> (k = d \<longrightarrow> m \<notin> U) \<longrightarrow>
        hop_edge V s dir kinds m r n \<longrightarrow> n \<in> tr_visited t"
  proof (intro allI impI)
    fix k m r n
    assume "k \<le> d" "at_distance V s dir kinds root k m" "k = d \<longrightarrow> m \<notin> U" "hop_edge V s dir kinds m r n"
    then show "n \<in> tr_visited t" using old assms(2) by (cases "m = c") auto
  qed
  then show ?thesis using assms(1) unfolding trace_inv_def by simp
qed

lemma trace_loop_expand:
  assumes cons: "store_consistent V s"
    and rels: "\<And>i. \<exists>rs. ks_relationships_for V s i = Inr rs" and objs: "\<And>i. \<exists>x. ks_get_object V s i = Inr x"
    and inv: "trace_inv V s dir kinds root d (c # A) (set (c # A)) B t" and d: "d < m"
  shows "\<exists>B' t'. trace_loop V s dir kinds m t = trace_loop V s dir kinds m t' \<and>
    trace_inv V s dir kinds root d A (set A) B' t' \<and> trace_left t' < trace_left t"
proof -
  let ?q = "map (\<lambda>n. (n, d)) A @ map (\<lambda>n. (n, Suc d)) B"
  have q: "tr_queue t = (c, d) # ?q" using inv by (simp add: trace_inv_def)
  let ?t1 = "t\<lparr>tr_queue := ?q\<rparr>"
  have inv1: "trace_inv V s dir kinds root d A (insert c (set A)) B ?t1" using inv by (simp add: trace_inv_def)
  have c: "at_distance V s dir kinds root d c" using inv by (simp add: trace_inv_def)
  obtain rs where rs: "ks_relationships_for V s c = Inr rs" using rels by blast
  obtain t2 where t2: "fold_res (trace_edge V s dir kinds c d) rs ?t1 = Inr t2"
    using fold_res_total [of "trace_edge V s dir kinds c d" rs ?t1] trace_edge_total [OF objs] by blast
  obtain B2 where B2: "trace_inv V s dir kinds root d A (insert c (set A)) B2 t2"
      "\<And>r n. r \<in> set rs \<Longrightarrow> hop_edge V s dir kinds c r n \<Longrightarrow> n \<in> tr_visited t2"
    using trace_edges_inv [OF cons c rs inv1 subset_refl t2] by auto
  have "n \<in> tr_visited t2" if "hop_edge V s dir kinds c r n" for r n
    using B2(2) [of r n] that rs by (auto simp: hop_edge_def)
  then have "trace_inv V s dir kinds root d A (set A) B2 t2" by (rule trace_inv_expanded [OF B2(1)])
  moreover have "trace_loop V s dir kinds m t = trace_loop V s dir kinds m t2"
    using q d rs t2 by (subst trace_loop.simps) (simp add: trace_edges_fold)
  moreover have "trace_left t2 \<le> trace_left ?t1" by (rule trace_edges_left) (use t2 in \<open>simp add: trace_edges_fold\<close>)
  moreover have "trace_left ?t1 < trace_left t" using q by (simp add: trace_left_def)
  ultimately show ?thesis by (meson le_less_trans)
qed

lemma trace_loop_ok:
  assumes cons: "store_consistent V s"
    and rels: "\<And>i. \<exists>rs. ks_relationships_for V s i = Inr rs" and objs: "\<And>i. \<exists>x. ks_get_object V s i = Inr x"
    and "trace_inv V s dir kinds root d A (set A) B t" "d \<le> m" "d = m \<longrightarrow> B = []"
  shows "\<exists>t'. trace_loop V s dir kinds m t = Inr t' \<and> trace_result_ok V s dir kinds root m (tr_hops t')"
  using assms(4-6)
proof (induction "trace_left t" arbitrary: t d A B rule: less_induct)
  case less
  have idle: ?case if "trace_inv V s dir kinds root m A' (set A') [] t" for A'
  proof -
    have "\<forall>p \<in> set (tr_queue t). m \<le> snd p" using that by (auto simp: trace_inv_def)
    then obtain t' where "trace_loop V s dir kinds m t = Inr t'" "tr_hops t' = tr_hops t"
      using trace_loop_idle [of t m V s dir kinds] by blast
    moreover have "trace_result_ok V s dir kinds root m (tr_hops t)" by (rule trace_inv_result [OF that]) simp_all
    ultimately show ?thesis by simp
  qed
  have expand: ?case if inv: "trace_inv V s dir kinds root e (c # A') (set (c # A')) B' t" and e: "e < m" for e c A' B'
  proof -
    obtain B2 t2 where t2: "trace_loop V s dir kinds m t = trace_loop V s dir kinds m t2"
        "trace_inv V s dir kinds root e A' (set A') B2 t2" "trace_left t2 < trace_left t"
      using trace_loop_expand [OF cons rels objs inv e] by blast
    show ?thesis unfolding t2(1) by (rule less.hyps [OF t2(3,2)]) (use e in simp_all)
  qed
  show ?case
  proof (cases "d = m")
    case True
    then show ?thesis using idle [of A] less.prems(1,3) by simp
  next
    case lt: False
    then have d: "d < m" using less.prems(2) by simp
    show ?thesis
    proof (cases A)
      case (Cons c A')
      then show ?thesis using expand [of d c A' B] less.prems(1) d by simp
    next
      case Nil
      then have inv: "trace_inv V s dir kinds root d [] {} B t" using less.prems(1) by simp
      note nxt = trace_inv_shift [OF inv]
      show ?thesis
      proof (cases B)
        case Nil': Nil
        have "tr_queue t = []" using inv Nil' by (simp add: trace_inv_def)
        then have "trace_loop V s dir kinds m t = Inr t" by (subst trace_loop.simps) simp
        moreover have "trace_result_ok V s dir kinds root m (tr_hops t)"
          by (rule trace_inv_result [OF less.prems(1,2) Nil']) (use Nil in simp)
        ultimately show ?thesis by simp
      next
        case (Cons c B')
        show ?thesis
        proof (cases "Suc d = m")
          case True
          then show ?thesis using idle [of B] nxt by simp
        next
          case False
          then show ?thesis using expand [of "Suc d" c B' "[]"] nxt Cons d by simp
        qed
      qed
    qed
  qed
qed

lemma trace_inv_start:
  "trace_inv V s dir kinds root 0 [root] (set [root]) []
     \<lparr>tr_hops = [], tr_visited = {root}, tr_queue = [(root, 0)]\<rparr>"
  by (auto simp: trace_inv_def at_distance_0)

lemma trace_impact_result:
  assumes "store_consistent V s"
    and "\<And>i. \<exists>rs. ks_relationships_for V s i = Inr rs" "\<And>i. \<exists>x. ks_get_object V s i = Inr x"
    and "load_object V s root = Inr (Some ob)"
  shows "\<exists>hops. trace_impact V s root dir kinds m = Inr hops \<and> trace_result_ok V s dir kinds root m hops"
proof -
  let ?t = "\<lparr>tr_hops = [], tr_visited = {root}, tr_queue = [(root, 0)]\<rparr>"
  have "\<exists>t'. trace_loop V s dir kinds m ?t = Inr t' \<and> trace_result_ok V s dir kinds root m (tr_hops t')"
    by (rule trace_loop_ok [OF assms(1-3) trace_inv_start]) simp_all
  then obtain t' where "trace_loop V s dir kinds m ?t = Inr t'" "trace_result_ok V s dir kinds root m (tr_hops t')" by blast
  then show ?thesis using assms(4) by (simp add: trace_impact_def)
qed

section \<open>Session memory\<close>





text \<open>A chain of calls 3 to 2 to 1, a shortcut 1 to 3, and a session note anchored to 1.\<close>

definition session_note :: "kir_id \<Rightarrow> nat kir_object" where
  "session_note i = (plain_file i ''session-note'')\<lparr>ko_kind := KCustom ''Session''\<rparr>"





text \<open>
  The object a hop leads to is not checked: a session object reached over an edge of another kind is
  returned, although session memory is meant to be no reachable hop.
\<close>

definition called_by_session :: "(unit, nat) knowledge_store" where
  "called_by_session = list_store [plain_file 1 ''a'', session_note 2] [relationship_new 10 0 Calls 2 1] [] []"

lemma trace_reaches_session_memory:
  "\<exists>hops h. trace_impact called_by_session () 1 Dependents [] 1 = Inr hops \<and> h \<in> set hops \<and>
     ko_id (ih_object h) = 2 \<and> is_session_object_kind (ko_kind (ih_object h))"
proof -
  let ?V = called_by_session
  have store: "store_consistent ?V ()" "\<And>i. \<exists>rs. ks_relationships_for ?V () i = Inr rs" "\<And>i. \<exists>x. ks_get_object ?V () i = Inr x"
    "load_object ?V () 1 = Inr (Some (plain_file 1 ''a''))"
    by (auto simp: called_by_session_def list_store_def store_consistent_def load_object_def plain_file_def session_note_def
        is_session_object_kind_def find_Some_iff)
  have get: "ks_get_object ?V () 2 = Inr (Some (session_note 2))"
    by (simp add: called_by_session_def list_store_def plain_file_def session_note_def)
  have "hop_edge ?V () Dependents [] 1 (relationship_new 10 0 Calls 2 1) 2"
    by (simp add: hop_edge_def called_by_session_def list_store_def relationship_new_def trace_follows_def is_pending_review_def
        is_doc_mention_def prop_str_def is_session_relationship_def is_session_relationship_kind_def trace_end_def)
  moreover have "confirmed ?V () 2"
    by (simp add: confirmed_def get session_note_def plain_file_def is_unconfirmed_claim_def prop_str_def)
  ultimately have "trace_reach ?V () Dependents [] 1 (Suc 0) 2" by (rule trace_reach.step [OF trace_reach.here])
  then have dist: "at_distance ?V () Dependents [] 1 1 2"
    by (auto simp: at_distance_def elim: trace_reach_0E)
  obtain hops where hops: "trace_impact ?V () 1 Dependents [] 1 = Inr hops" "trace_result_ok ?V () Dependents [] 1 1 hops"
    using trace_impact_result [OF store] by blast
  have "\<exists>h \<in> set hops. ko_id (ih_object h) = 2 \<and> ih_hop h = 1"
    using hops(2) dist unfolding trace_result_ok_def by (metis le_refl zero_less_one)
  then obtain h where h: "h \<in> set hops" "ko_id (ih_object h) = 2" by blast
  have "ks_get_object ?V () (ko_id (ih_object h)) = Inr (Some (ih_object h))"
    using hops(2) h(1) by (simp add: trace_result_ok_def hop_ok_def)
  then have "ih_object h = session_note 2" using h(2) get by simp
  then have "is_session_object_kind (ko_kind (ih_object h))" by (simp add: session_note_def is_session_object_kind_def)
  then show ?thesis using hops(1) h by blast
qed

end
