(* ===== verification/Runtime_Walk.thy ===== *)
theory Runtime_Walk
  imports Runtime_Graph
begin

text \<open>
  What the breadth-first neighbourhood returns: within its budget, without session memory, without
  unconfirmed claims other than the root, and closed, so that no returned edge has a hidden end.
\<close>

section \<open>The invariant of the walk\<close>

text \<open>
  \<open>N\<close> are ends of reported edges not yet visited: empty between two edges, the new neighbour within
  one.
\<close>

definition walk_inv ::
  "('s, 'n) knowledge_store \<Rightarrow> 's \<Rightarrow> nat \<Rightarrow> kir_id \<Rightarrow> kir_id set \<Rightarrow> 'n walk \<Rightarrow> bool" where
  "walk_inv V s m root N w \<longleftrightarrow>
     (\<forall>ob \<in> set (wk_objects w). load_object V s (ko_id ob) = Inr (Some ob) \<and> ko_id ob \<in> wk_visited w \<and>
        ko_id ob \<notin> wk_hidden w \<and> (ko_id ob = root \<or> \<not> is_unconfirmed_claim ob)) \<and>
     distinct (map ko_id (wk_objects w)) \<and> length (wk_objects w) \<le> max 1 m \<and>
     (\<forall>r \<in> set (wk_relationships w). is_traversable V s r) \<and>
     kr_id ` set (wk_relationships w) = wk_seen_rels w \<and> distinct (map kr_id (wk_relationships w)) \<and>
     wk_hidden w \<subseteq> wk_visited w \<and>
     (\<forall>n \<in> wk_visited w. n \<in> ko_id ` set (wk_objects w) \<or> n \<in> wk_hidden w \<or> load_object V s n = Inr None) \<and>
     (\<forall>p \<in> set (wk_queue w). fst p \<in> wk_visited w) \<and>
     (wk_truncated w \<longrightarrow> m \<le> length (wk_objects w)) \<and>
     (\<not> wk_truncated w \<longrightarrow> (\<forall>r \<in> set (wk_relationships w). {kr_from r, kr_to r} \<subseteq> wk_visited w \<union> N))"

definition report_edge :: "'n kir_relationship \<Rightarrow> 'n walk \<Rightarrow> 'n walk" where
  "report_edge r w =
     (if kr_id r \<notin> wk_seen_rels w
      then w\<lparr>wk_seen_rels := insert (kr_id r) (wk_seen_rels w), wk_relationships := wk_relationships w @ [r]\<rparr>
      else w)"

lemma report_edge_frame [simp]:
  "wk_objects (report_edge r w) = wk_objects w" "wk_visited (report_edge r w) = wk_visited w"
  "wk_hidden (report_edge r w) = wk_hidden w" "wk_queue (report_edge r w) = wk_queue w"
  "wk_truncated (report_edge r w) = wk_truncated w"
  by (simp_all add: report_edge_def)

lemma walk_inv_report:
  assumes "walk_inv V s m root {} w" "is_traversable V s r" "{kr_from r, kr_to r} \<subseteq> wk_visited w \<union> {n}"
  shows "walk_inv V s m root {n} (report_edge r w)"
proof (cases "kr_id r \<in> wk_seen_rels w")
  case True
  then show ?thesis using assms(1) by (simp add: report_edge_def walk_inv_def)
next
  case False
  then have "kr_id r \<notin> kr_id ` set (wk_relationships w)" using assms(1) by (simp add: walk_inv_def)
  then show ?thesis using False assms by (simp add: report_edge_def walk_inv_def)
qed

lemma walk_inv_known: "walk_inv V s m root {n} w \<Longrightarrow> n \<in> wk_visited w \<Longrightarrow> walk_inv V s m root {} w"
  by (simp add: walk_inv_def insert_absorb)

lemma walk_inv_full:
  "walk_inv V s m root {n} w \<Longrightarrow> m \<le> length (wk_objects w) \<Longrightarrow> walk_inv V s m root {} (w\<lparr>wk_truncated := True\<rparr>)"
  by (simp add: walk_inv_def)

lemma walk_inv_missing:
  assumes "walk_inv V s m root {n} w" "n \<notin> wk_visited w" "load_object V s n = Inr None"
  shows "walk_inv V s m root {} (w\<lparr>wk_visited := insert n (wk_visited w)\<rparr>)"
  using assms by (auto simp: walk_inv_def)

lemma walk_inv_claim:
  assumes "walk_inv V s m root {n} w" "n \<notin> wk_visited w"
  shows "walk_inv V s m root {} (w\<lparr>wk_visited := insert n (wk_visited w), wk_hidden := insert n (wk_hidden w)\<rparr>)"
proof -
  have "ko_id ob \<noteq> n" if "ob \<in> set (wk_objects w)" for ob using assms that by (auto simp: walk_inv_def)
  then show ?thesis using assms by (auto simp: walk_inv_def)
qed

lemma walk_inv_found:
  assumes "walk_inv V s m root {n} w" "n \<notin> wk_visited w" "length (wk_objects w) < m"
    and "load_object V s n = Inr (Some ob)" "ko_id ob = n" "\<not> is_unconfirmed_claim ob"
  shows "walk_inv V s m root {} (w\<lparr>wk_visited := insert n (wk_visited w), wk_objects := wk_objects w @ [ob],
    wk_queue := wk_queue w @ [(n, d)]\<rparr>)"
proof -
  have "n \<notin> ko_id ` set (wk_objects w)" "n \<notin> wk_hidden w" using assms(1,2) by (auto simp: walk_inv_def)
  then show ?thesis using assms unfolding walk_inv_def by (simp add: subset_insertI2)
qed

section \<open>Edges and nodes\<close>

text \<open>Relationships read for an id have it as one of their ends.\<close>

definition rels_touch :: "('s, 'n) knowledge_store \<Rightarrow> 's \<Rightarrow> bool" where
  "rels_touch V s \<longleftrightarrow>
     (\<forall>i rs. ks_relationships_for V s i = Inr rs \<longrightarrow> (\<forall>r \<in> set rs. kr_from r = i \<or> kr_to r = i))"

lemma load_object_id: "store_consistent V s \<Longrightarrow> load_object V s n = Inr (Some ob) \<Longrightarrow> ko_id ob = n"
  by (auto simp: load_object_def store_consistent_def split: sum.splits option.splits if_splits)

lemma walk_edges_inv:
  assumes "store_consistent V s"
  shows "walk_edges V s m c d rs w = Inr w' \<Longrightarrow> walk_inv V s m root {} w \<Longrightarrow> c \<in> wk_visited w \<Longrightarrow>
    \<forall>r \<in> set rs. kr_from r = c \<or> kr_to r = c \<Longrightarrow> walk_inv V s m root {} w'"
proof (induction rs arbitrary: w)
  case Nil
  then show ?case by simp
next
  case (Cons r rs)
  define n where "n = other_endpoint r c"
  define w1 where "w1 = report_edge r w"
  note run = Cons.prems(1) [unfolded walk_edges.simps Let_def, folded n_def, folded report_edge_def, folded w1_def]
  have rest: "\<forall>r \<in> set rs. kr_from r = c \<or> kr_to r = c" using Cons.prems(4) by simp
  have c1: "c \<in> wk_visited w1" using Cons.prems(3) by (simp add: w1_def)
  show ?case
  proof (cases "is_traversable V s r")
    case False
    then show ?thesis using Cons.IH [OF _ Cons.prems(2,3) rest] run by simp
  next
    case tr: True
    have "{kr_from r, kr_to r} \<subseteq> wk_visited w \<union> {n}"
      using Cons.prems(3,4) by (auto simp: n_def other_endpoint_def)
    then have inv1: "walk_inv V s m root {n} w1"
      unfolding w1_def by (rule walk_inv_report [OF Cons.prems(2) tr])
    show ?thesis
    proof (cases "n \<in> wk_visited w1")
      case True
      then show ?thesis using Cons.IH [OF _ walk_inv_known [OF inv1 True] c1 rest] run tr by simp
    next
      case new: False
      show ?thesis
      proof (cases "m \<le> length (wk_objects w1)")
        case True
        then show ?thesis using walk_inv_full [OF inv1 True] run tr new by simp
      next
        case room: False
        show ?thesis
        proof (cases "load_object V s n")
          case (Inl e)
          then show ?thesis using run tr new room by simp
        next
          case (Inr found)
          show ?thesis
          proof (cases found)
            case None
            have "walk_inv V s m root {} (w1\<lparr>wk_visited := insert n (wk_visited w1)\<rparr>)"
              by (rule walk_inv_missing [OF inv1 new]) (use Inr None in simp)
            from Cons.IH [OF _ this _ rest] show ?thesis using run tr new room Inr None c1 by simp
          next
            case (Some ob)
            have load: "load_object V s n = Inr (Some ob)" using Inr Some by simp
            show ?thesis
            proof (cases "is_unconfirmed_claim ob")
              case True
              from Cons.IH [OF _ walk_inv_claim [OF inv1 new] _ rest] show ?thesis
                using run tr new room load True c1 by simp
            next
              case False
              have "walk_inv V s m root {} (w1\<lparr>wk_visited := insert n (wk_visited w1), wk_objects := wk_objects w1 @ [ob],
                  wk_queue := wk_queue w1 @ [(n, d + 1)]\<rparr>)"
                by (rule walk_inv_found [OF inv1 new _ load load_object_id [OF assms load] False]) (use room in simp)
              from Cons.IH [OF _ this _ rest] show ?thesis using run tr new room load False c1 by simp
            qed
          qed
        qed
      qed
    qed
  qed
qed

lemma walk_loop_inv:
  assumes "store_consistent V s" "rels_touch V s"
  shows "walk_loop V s depth m w = Inr w' \<Longrightarrow> walk_inv V s m root {} w \<Longrightarrow> walk_inv V s m root {} w'"
proof (induction "walk_left w" arbitrary: w rule: less_induct)
  case less
  show ?case
  proof (cases "wk_queue w")
    case Nil
    then show ?thesis using less.prems by (subst (asm) walk_loop.simps) simp
  next
    case (Cons p q)
    obtain c d where p: "p = (c, d)" by (cases p)
    define w1 where "w1 = w\<lparr>wk_queue := q\<rparr>"
    have left: "walk_left w1 < walk_left w" by (simp add: w1_def walk_left_def Cons)
    have inv1: "walk_inv V s m root {} w1" using less.prems(2) Cons by (simp add: walk_inv_def w1_def)
    have c: "c \<in> wk_visited w1" using less.prems(2) Cons p by (simp add: walk_inv_def w1_def)
    note run = less.prems(1) [unfolded walk_loop.simps [of V s depth m w] Let_def Cons p list.case prod.case, folded w1_def]
    show ?thesis
    proof (cases "depth \<le> d")
      case True
      then show ?thesis using less.hyps [OF left _ inv1] run by simp
    next
      case False
      obtain rs where rs: "ks_relationships_for V s c = Inr rs"
        using run False by (cases "ks_relationships_for V s c") simp_all
      obtain w2 where w2: "walk_edges V s m c d rs w1 = Inr w2"
        using run False rs by (cases "walk_edges V s m c d rs w1") simp_all
      have touch: "\<forall>r \<in> set rs. kr_from r = c \<or> kr_to r = c" using assms(2) rs unfolding rels_touch_def by blast
      have inv2: "walk_inv V s m root {} w2" by (rule walk_edges_inv [OF assms(1) w2 inv1 c touch])
      show ?thesis
      proof (cases "wk_truncated w2")
        case True
        then show ?thesis using run False rs w2 inv2 by simp
      next
        case go: False
        have "walk_left w2 < walk_left w" using walk_edges_left [OF w2] left by simp
        from less.hyps [OF this _ inv2] show ?thesis using run False rs w2 go by simp
      qed
    qed
  qed
qed

section \<open>The neighbourhood\<close>

text \<open>
  C18: The neighbourhood of an object (\<open>load_neighborhood_bounded\<close>) holds distinct stored objects, never
  session memory, no unconfirmed claim but the root itself, and at most \<open>max_objects\<close> of them (the
  root is always there); the truncation flag is raised only when that budget is used up.  Its edges
  are distinct, reviewed and not session edges.  A truncated answer has no dangling edge; in a complete
  one an end that is not among the objects is an object the runtime does not show at all, because it is
  missing from the store or is session memory.
\<close>

theorem neighborhood_closed:
  assumes "store_consistent V s" "rels_touch V s"
    and "load_neighborhood_bounded V s i depth m = Inr (g, trunc)"
  shows "distinct (map ko_id (kg_objects g)) \<and> length (kg_objects g) \<le> max 1 m \<and> (trunc \<longrightarrow> m \<le> length (kg_objects g)) \<and>
    (\<forall>ob \<in> set (kg_objects g). load_object V s (ko_id ob) = Inr (Some ob) \<and>
       \<not> is_session_object_kind (ko_kind ob) \<and> (ko_id ob = i \<or> \<not> is_unconfirmed_claim ob)) \<and>
    distinct (map kr_id (kg_relationships g)) \<and>
    (\<forall>r \<in> set (kg_relationships g). \<not> is_pending_review r \<and> \<not> is_session_relationship V s r \<and>
       (\<forall>n \<in> {kr_from r, kr_to r}. n \<in> ko_id ` set (kg_objects g) \<or> (\<not> trunc \<and> load_object V s n = Inr None)))"
proof (cases "load_object V s i")
  case (Inl e)
  then show ?thesis using assms(3) by (simp add: load_neighborhood_bounded_def)
next
  case (Inr found)
  show ?thesis
  proof (cases found)
    case None
    then have "g = graph_new \<and> \<not> trunc" using assms(3) Inr by (simp add: load_neighborhood_bounded_def)
    then show ?thesis by (simp add: graph_new_def)
  next
    case (Some root)
    have load: "load_object V s i = Inr (Some root)" using Inr Some by simp
    have id: "ko_id root = i" by (rule load_object_id [OF assms(1) load])
    let ?w = "\<lparr>wk_objects = [root], wk_relationships = [], wk_visited = {ko_id root}, wk_hidden = {},
                   wk_seen_rels = {}, wk_queue = [(ko_id root, 0)], wk_truncated = False\<rparr>"
    obtain w where w: "walk_loop V s depth m ?w = Inr w"
      using assms(3) load by (cases "walk_loop V s depth m ?w") (simp_all add: load_neighborhood_bounded_def)
    have "walk_inv V s m i {} ?w" using load id by (simp add: walk_inv_def)
    from walk_loop_inv [OF assms(1,2) w this] have inv: "walk_inv V s m i {} w" .
    let ?rs = "filter (\<lambda>r. kr_from r \<notin> wk_hidden w \<and> kr_to r \<notin> wk_hidden w) (wk_relationships w)"
    have hid: "(if wk_hidden w \<noteq> {} then ?rs else wk_relationships w) = ?rs" by (simp add: filter_True)
    have g: "kg_objects g = wk_objects w" "trunc = wk_truncated w"
      "kg_relationships g = (if trunc then filter (\<lambda>r. kr_from r \<in> ko_id ` set (wk_objects w) \<and>
         kr_to r \<in> ko_id ` set (wk_objects w)) ?rs else ?rs)"
      using assms(3) load w unfolding load_neighborhood_bounded_def by (auto simp: Let_def hid graph_new_def)
    have session: "\<not> is_session_object_kind (ko_kind ob)" if "load_object V s n = Inr (Some ob)" for n ob
      using that by (auto simp: load_object_def split: sum.splits option.splits if_splits)
    have sub: "r \<in> set (kg_relationships g) \<Longrightarrow> r \<in> set (wk_relationships w) \<and> kr_from r \<notin> wk_hidden w \<and> kr_to r \<notin> wk_hidden w" for r
      by (auto simp: g(3) split: if_splits)
    have ends: "n \<in> ko_id ` set (kg_objects g) \<or> (\<not> trunc \<and> load_object V s n = Inr None)"
      if r: "r \<in> set (kg_relationships g)" and n: "n \<in> {kr_from r, kr_to r}" for r n
    proof (cases trunc)
      case True
      then show ?thesis using r n by (auto simp: g)
    next
      case False
      have "\<forall>r \<in> set (wk_relationships w). {kr_from r, kr_to r} \<subseteq> wk_visited w"
        and seen: "\<forall>n \<in> wk_visited w. n \<in> ko_id ` set (wk_objects w) \<or> n \<in> wk_hidden w \<or> load_object V s n = Inr None"
        using inv False g(2) unfolding walk_inv_def by simp_all
      then have "n \<in> wk_visited w" using sub [OF r] n by blast
      then show ?thesis using seen sub [OF r] n g(1) False by auto
    qed
    have "distinct (map kr_id (kg_relationships g))"
      using inv by (auto simp: walk_inv_def g(3) intro: distinct_map_filter)
    moreover have "\<not> is_pending_review r \<and> \<not> is_session_relationship V s r" if "r \<in> set (kg_relationships g)" for r
      using inv sub [OF that] by (simp add: walk_inv_def is_traversable_def)
    moreover have "distinct (map ko_id (kg_objects g)) \<and> length (kg_objects g) \<le> max 1 m \<and> (trunc \<longrightarrow> m \<le> length (kg_objects g)) \<and>
       (\<forall>ob \<in> set (kg_objects g). load_object V s (ko_id ob) = Inr (Some ob) \<and>
       (ko_id ob = i \<or> \<not> is_unconfirmed_claim ob))"
      using inv unfolding walk_inv_def g by simp
    ultimately show ?thesis using ends session by blast
  qed
qed

text \<open>A file, a file it calls, and an unconfirmed claim about the first.\<close>

definition claimed_files :: "(unit, nat) knowledge_store" where
  "claimed_files = list_store
     [plain_file 1 ''a'', plain_file 2 ''b'', (plain_file 3 ''c'')\<lparr>ko_properties := [(''status'', JString ''unconfirmed'')]\<rparr>]
     [relationship_new 10 0 Calls 1 2, relationship_new 11 0 Calls 1 3] [] []"

lemma walk_edges_total:
  assumes "\<And>n. \<exists>x. load_object V s n = Inr x"
  shows "\<exists>w'. walk_edges V s m c d rs w = Inr w'"
proof (induction rs arbitrary: w)
  case Nil
  then show ?case by simp
next
  case (Cons r rs)
  obtain x where "load_object V s (other_endpoint r c) = Inr x" using assms by blast
  then show ?case using Cons.IH by (cases x) (simp_all add: Let_def)
qed

lemma walk_loop_total:
  assumes "\<And>n. \<exists>x. load_object V s n = Inr x" "\<And>n. \<exists>rs. ks_relationships_for V s n = Inr rs"
  shows "\<exists>w'. walk_loop V s depth m w = Inr w'"
  using assms
proof (induction V s depth m w rule: walk_loop.induct)
  case (1 V s depth m w)
  show ?case
  proof (cases "wk_queue w")
    case Nil
    then show ?thesis by (simp add: walk_loop.simps [of _ _ _ _ w])
  next
    case (Cons e q)
    obtain current d where e: "e = (current, d)" by (cases e) auto
    let ?w1 = "w\<lparr>wk_queue := q\<rparr>"
    show ?thesis
    proof (cases "depth \<le> d")
      case True
      then show ?thesis using 1(1) [OF Cons e [symmetric] refl True 1(3,4)]
        by (simp add: walk_loop.simps [of _ _ _ _ w] Cons e)
    next
      case False
      obtain rs where rs: "ks_relationships_for V s current = Inr rs" using 1(4) by blast
      obtain w2 where w2: "walk_edges V s m current d rs ?w1 = Inr w2" using walk_edges_total [OF 1(3)] by blast
      show ?thesis
      proof (cases "wk_truncated w2")
        case True
        then show ?thesis using False by (simp add: walk_loop.simps [of _ _ _ _ w] Cons e rs w2)
      next
        case go: False
        then show ?thesis using 1(2) [OF Cons e [symmetric] refl False rs w2 go 1(3,4)] False
          by (simp add: walk_loop.simps [of _ _ _ _ w] Cons e rs w2)
      qed
    qed
  qed
qed

lemma neighborhood_returns:
  assumes "\<And>n. \<exists>x. load_object V s n = Inr x" "\<And>n. \<exists>rs. ks_relationships_for V s n = Inr rs"
  shows "\<exists>g trunc. load_neighborhood_bounded V s i depth m = Inr (g, trunc)"
proof -
  obtain x where x: "load_object V s i = Inr x" using assms(1) by blast
  show ?thesis
  proof (cases x)
    case None
    then have "load_neighborhood_bounded V s i depth m = Inr (graph_new, False)"
      by (simp add: load_neighborhood_bounded_def x)
    then show ?thesis by blast
  next
    case (Some root)
    obtain w where "walk_loop V s depth m
        \<lparr>wk_objects = [root], wk_relationships = [], wk_visited = {ko_id root}, wk_hidden = {},
         wk_seen_rels = {}, wk_queue = [(ko_id root, 0)], wk_truncated = False\<rparr> = Inr w"
      using walk_loop_total [OF assms] by blast
    then show ?thesis by (simp add: load_neighborhood_bounded_def x Some Let_def)
  qed
qed

theorem neighborhood_closed_witness:
  "\<exists>g trunc. load_neighborhood_bounded claimed_files () 1 3 7 = Inr (g, trunc) \<and> length (kg_objects g) \<le> 7"
proof -
  have c: "store_consistent claimed_files ()"
    by (auto simp: claimed_files_def list_store_def store_consistent_def plain_file_def find_Some_iff)
  have t: "rels_touch claimed_files ()" by (simp add: rels_touch_def claimed_files_def list_store_def)
  have l: "\<exists>x. load_object claimed_files () n = Inr x" for n
    by (simp add: load_object_def claimed_files_def list_store_def)
  have r: "\<exists>rs. ks_relationships_for claimed_files () n = Inr rs" for n
    by (simp add: claimed_files_def list_store_def)
  obtain g trunc where run: "load_neighborhood_bounded claimed_files () 1 3 7 = Inr (g, trunc)"
    using neighborhood_returns [OF l r, of 1 3 7] by blast
  then show ?thesis using neighborhood_closed [OF c t run] by auto
qed

section \<open>Session memory\<close>

text \<open>A note of a session is not a valid root of any walk, yet its facts are read as any object's.\<close>

lemma session_memory_is_no_root:
  assumes "ks_get_object V s i = Inr (Some ob)" "is_session_object_kind (ko_kind ob)"
  shows "trace_impact V s i dir kinds m = Inr []" "load_neighborhood_bounded V s i depth m = Inr (graph_new, False)"
    "reconstruct_state V s i = Inr None"
  using assms by (simp_all add: trace_impact_def load_neighborhood_bounded_def load_object_def reconstruct_state_def
      object_state_of_def)

lemma facts_of_shows_session_memory:
  assumes "ks_get_object V s i = Inr (Some ob)"
  shows "\<exists>rest. runtime_facts_of V s i = Inr ((''name'', JString (ko_name ob)) # rest)"
  using assms by (simp add: runtime_facts_of_def)

lemma listed_objects_are_no_session_memory:
  "list_objects V s = Inr obs \<Longrightarrow> ob \<in> set obs \<Longrightarrow> \<not> is_session_object_kind (ko_kind ob)"
  "list_objects_at V s at = Inr obs \<Longrightarrow> ob \<in> set obs \<Longrightarrow> \<not> is_session_object_kind (ko_kind ob)"
  "runtime_object_history V s i = Inr obs \<Longrightarrow> ob \<in> set obs \<Longrightarrow> \<not> is_session_object_kind (ko_kind ob)"
  by (auto simp: list_objects_def list_objects_at_def runtime_object_history_def split: sum.splits)

end
