(* ===== verification/Ekl_Lexer.thy ===== *)
theory Ekl_Lexer
  imports Number_Text
begin

text \<open>
  The lexer of the query language (\<open>parser.rs\<close> of the \<open>ekl\<close> crate), over the UTF-8 bytes of the query.
  A slice that does not start and end between two characters panics: the outer \<open>None\<close>.  \<open>f64\<close> and its
  text are a parameter.
\<close>

section \<open>Characters\<close>

definition is_ascii_whitespace :: "char \<Rightarrow> bool" where
  "is_ascii_whitespace c \<longleftrightarrow> c \<in> {CHR '' '', CHR 0x09, CHR 0x0A, CHR 0x0C, CHR 0x0D}"

definition is_ascii_alphabetic :: "char \<Rightarrow> bool" where
  "is_ascii_alphabetic c \<longleftrightarrow>
     (65 \<le> (of_char c :: nat) \<and> (of_char c :: nat) \<le> 90) \<or> (97 \<le> (of_char c :: nat) \<and> (of_char c :: nat) \<le> 122)"

definition is_word :: "char \<Rightarrow> bool" where
  "is_word c \<longleftrightarrow> is_ascii_alphabetic c \<or> is_digit c \<or> c = CHR ''_''"

definition is_continuation :: "char \<Rightarrow> bool" where
  "is_continuation c \<longleftrightarrow> 128 \<le> (of_char c :: nat) \<and> (of_char c :: nat) < 192"

text \<open>A position is a character boundary when what follows it does not continue a character.\<close>

definition boundary :: "string \<Rightarrow> bool" where
  "boundary s \<longleftrightarrow> (case s of [] \<Rightarrow> True | c # _ \<Rightarrow> \<not> is_continuation c)"

text \<open>\<open>c as char\<close> of a byte is the character with that number; its UTF-8 bytes.\<close>

definition byte_as_char :: "char \<Rightarrow> string" where
  "byte_as_char c =
     (let n = of_char c :: nat
      in if n < 128 then [c] else [char_of (192 + n div 64), char_of (128 + n mod 64)])"

section \<open>Tokens\<close>

record 'f f64_ops =
  f_parse :: "string \<Rightarrow> 'f option"
  f_show :: "'f \<Rightarrow> string"
  f_to_u64 :: "'f \<Rightarrow> nat"
  f_to_u32 :: "'f \<Rightarrow> nat"

datatype 'f token = TIdent string | TStr string | TNum 'f | TComma

record parse_error =
  pe_message :: string
  pe_position :: nat

definition parse_error_at :: "nat \<Rightarrow> string \<Rightarrow> parse_error" where
  "parse_error_at p m = \<lparr>pe_message = m, pe_position = p\<rparr>"

lemma pe_position_at [simp]: "pe_position (parse_error_at p m) = p"
  by (simp add: parse_error_at_def)

definition symbol_ops :: "string list" where
  "symbol_ops = [''!='', ''>='', ''<='', ''='', ''>'', ''<'']"

definition match_symbol_op :: "string \<Rightarrow> nat option" where
  "match_symbol_op s = map_option length (find (\<lambda>sym. starts_with s sym) symbol_ops)"

text \<open>From the byte after the opening quote: the text and what follows the closing quote.\<close>

fun read_string :: "string \<Rightarrow> (string \<times> string) option" where
  "read_string [] = None"
| "read_string (c # cs) =
     (if c = CHR 0x27 then Some ([], cs)
      else (case read_string cs of None \<Rightarrow> None | Some (out, rest) \<Rightarrow> Some (byte_as_char c @ out, rest)))"

definition is_number_byte :: "char \<Rightarrow> bool" where
  "is_number_byte c \<longleftrightarrow> is_digit c \<or> c = CHR ''.''"

fun read_ident :: "string \<Rightarrow> string \<times> string" where
  "read_ident [] = ([], [])"
| "read_ident (c # cs) =
     (if is_word c \<or> (c = CHR ''.'' \<and> (case cs of [] \<Rightarrow> False | d # _ \<Rightarrow> is_word d))
      then (case read_ident cs of (i, rest) \<Rightarrow> (c # i, rest))
      else ([], c # cs))"

section \<open>The lexer\<close>

type_synonym 'f tokens = "('f token \<times> nat) list"

text \<open>The token at the head of a text, what follows it; \<open>start\<close> is its position.\<close>

definition read_token ::
  "'f f64_ops \<Rightarrow> nat \<Rightarrow> char \<Rightarrow> string \<Rightarrow> (parse_error + 'f token \<times> string) option" where
  "read_token F start c cs =
     (if c = CHR '','' then Some (Inr (TComma, cs))
      else if c = CHR 0x27 then
        Some (case read_string cs of
                None \<Rightarrow> Inl (parse_error_at start ''unterminated string literal'')
              | Some (out, rest) \<Rightarrow> Inr (TStr out, rest))
      else if is_digit c then
        (let text = takeWhile is_number_byte (c # cs); rest = dropWhile is_number_byte (c # cs)
         in if \<not> boundary rest then None
            else Some (case f_parse F text of
                         None \<Rightarrow> Inl (parse_error_at start ''invalid number literal'')
                       | Some x \<Rightarrow> Inr (TNum x, rest)))
      else if is_ascii_alphabetic c \<or> c = CHR ''_'' then
        (case read_ident (c # cs) of
           (i, rest) \<Rightarrow> if \<not> boundary rest then None else Some (Inr (TIdent i, rest)))
      else if \<not> boundary (c # cs) then None
      else
        (case match_symbol_op (c # cs) of
           None \<Rightarrow> Some (Inl (parse_error_at start (''unexpected character '' @ [CHR 0x27] @ byte_as_char c @ [CHR 0x27])))
         | Some k \<Rightarrow>
             if \<not> boundary (drop k (c # cs)) then None
             else Some (Inr (TIdent (take k (c # cs)), drop k (c # cs)))))"

lemma read_string_shorter: "read_string s = Some (out, rest) \<Longrightarrow> length rest < length s"
  by (induction s arbitrary: out) (auto split: if_splits option.splits)

lemma read_ident_split: "read_ident s = (i, rest) \<Longrightarrow> s = i @ rest"
  by (induction s arbitrary: i rest) (auto split: if_splits prod.splits)

lemma match_symbol_op_pos: "match_symbol_op s = Some k \<Longrightarrow> 0 < k"
  by (auto simp: match_symbol_op_def symbol_ops_def split: if_splits)

lemma read_token_shorter:
  assumes "read_token F start c cs = Some (Inr (t, rest))"
  shows "length rest \<le> length cs"
proof -
  consider "c = CHR '',''" | "c = CHR 0x27" | "c \<noteq> CHR 0x27" "is_digit c" | "is_ascii_alphabetic c \<or> c = CHR ''_''"
      "\<not> is_digit c" "c \<notin> {CHR 0x27, CHR '',''}"
    | "\<not> is_ascii_alphabetic c" "c \<noteq> CHR ''_''" "\<not> is_digit c" "c \<notin> {CHR 0x27, CHR '',''}" by blast
  then show ?thesis
  proof cases
    case 1
    then show ?thesis using assms by (simp add: read_token_def)
  next
    case 2
    then show ?thesis using assms read_string_shorter [of cs] by (fastforce simp: read_token_def split: option.splits)
  next
    case 3
    then have "c \<noteq> CHR '',''" by (auto simp: is_digit_def)
    then have "rest = dropWhile is_number_byte cs"
      using assms 3 by (auto simp: read_token_def Let_def is_number_byte_def split: if_splits option.splits)
    then show ?thesis by (simp add: length_dropWhile_le)
  next
    case 4
    then have "is_word c" by (auto simp: is_word_def)
    obtain i m where i: "read_ident cs = (i, m)" by (cases "read_ident cs")
    then have "rest = m" using assms 4 \<open>is_word c\<close> by (auto simp: read_token_def split: if_splits)
    then show ?thesis using read_ident_split [OF i] by simp
  next
    case 5
    then obtain k where k: "match_symbol_op (c # cs) = Some k" "rest = drop k (c # cs)"
      using assms by (auto simp: read_token_def split: if_splits option.splits)
    then show ?thesis using match_symbol_op_pos [OF k(1)] by (cases k) auto
  qed
qed

function tokenize :: "'f f64_ops \<Rightarrow> nat \<Rightarrow> string \<Rightarrow> (parse_error + 'f tokens) option" where
  "tokenize F n s =
     (case dropWhile is_ascii_whitespace s of
        [] \<Rightarrow> Some (Inr [])
      | c # cs \<Rightarrow>
          let start = n - length (c # cs)
          in (case read_token F start c cs of
                None \<Rightarrow> None
              | Some (Inl e) \<Rightarrow> Some (Inl e)
              | Some (Inr (t, rest)) \<Rightarrow>
                  (case tokenize F n rest of
                     None \<Rightarrow> None
                   | Some (Inl e) \<Rightarrow> Some (Inl e)
                   | Some (Inr ts) \<Rightarrow> Some (Inr ((t, start) # ts)))))"
  by auto

termination
proof (relation "measure (\<lambda>(F, n, s). length s)", goal_cases)
  case 1
  show ?case by simp
next
  case (2 F n s c cs start r x t rest)
  have "length rest \<le> length cs" by (rule read_token_shorter [of F start c cs t]) (use 2 in simp)
  moreover have "length (c # cs) \<le> length s" using length_dropWhile_le [of is_ascii_whitespace s] by (simp add: 2(1))
  ultimately show ?case by simp
qed

declare tokenize.simps [simp del]

section \<open>Text in UTF-8\<close>

text \<open>Well-formed byte sequences (the table of the Unicode standard): what every \<open>str\<close> holds.\<close>

fun utf8 :: "string \<Rightarrow> bool" where
  "utf8 [] \<longleftrightarrow> True"
| "utf8 (a # s) \<longleftrightarrow>
     (let n = of_char a :: nat
      in if n < 128 then utf8 s
         else if 194 \<le> n \<and> n < 224 then (case s of b # s1 \<Rightarrow> is_continuation b \<and> utf8 s1 | _ \<Rightarrow> False)
         else if 224 \<le> n \<and> n < 240 then
           (case s of b # c # s1 \<Rightarrow>
              is_continuation b \<and> is_continuation c \<and> (n = 224 \<longrightarrow> 160 \<le> (of_char b :: nat)) \<and>
              (n = 237 \<longrightarrow> (of_char b :: nat) < 160) \<and> utf8 s1 | _ \<Rightarrow> False)
         else if 240 \<le> n \<and> n < 245 then
           (case s of b # c # d # s1 \<Rightarrow>
              is_continuation b \<and> is_continuation c \<and> is_continuation d \<and> (n = 240 \<longrightarrow> 144 \<le> (of_char b :: nat)) \<and>
              (n = 244 \<longrightarrow> (of_char b :: nat) < 144) \<and> utf8 s1 | _ \<Rightarrow> False)
         else False)"

definition ascii :: "char \<Rightarrow> bool" where
  "ascii c \<longleftrightarrow> (of_char c :: nat) < 128"

declare utf8.simps(2) [simp del]

lemma ascii_not_continuation: "ascii c \<Longrightarrow> \<not> is_continuation c"
  by (simp add: ascii_def is_continuation_def)

lemma utf8_boundary: "utf8 s \<Longrightarrow> boundary s"
  by (cases s) (auto simp: utf8.simps(2) boundary_def is_continuation_def Let_def split: if_splits)

lemma utf8_ascii: "ascii c \<Longrightarrow> utf8 (c # s) \<longleftrightarrow> utf8 s"
  by (simp add: ascii_def utf8.simps)

lemma utf8_ascii_prefix: "\<forall>c \<in> set a. ascii c \<Longrightarrow> utf8 (a @ s) \<longleftrightarrow> utf8 s"
  by (induction a) (simp_all add: utf8_ascii)

text \<open>A character is a byte and its continuations, so an ASCII byte is never inside one.\<close>

lemma utf8_step:
  assumes "utf8 (x # s)"
  obtains conts s1 where "s = conts @ s1" "\<forall>c \<in> set conts. is_continuation c" "utf8 s1"
proof -
  note u = assms [unfolded utf8.simps Let_def]
  consider "s = []" | b where "s = [b]" | b c where "s = [b, c]" | b c d s1 where "s = b # c # d # s1"
    by (metis list.exhaust)
  then show ?thesis
  proof cases
    case 1
    then show ?thesis by (intro that [of "[]" "[]"]) simp_all
  next
    case (2 b)
    then show ?thesis using u that [of "[]" s] that [of "[b]" "[]"] by (auto split: if_splits)
  next
    case (3 b c)
    then show ?thesis using u that [of "[]" s] that [of "[b]" "[c]"] that [of "[b, c]" "[]"] by (auto split: if_splits)
  next
    case (4 b c d s1)
    then show ?thesis using u that [of "[]" s] that [of "[b]" "c # d # s1"] that [of "[b, c]" "d # s1"]
        that [of "[b, c, d]" s1] by (auto split: if_splits)
  qed
qed

lemma utf8_after: "utf8 (a @ c # s) \<Longrightarrow> ascii c \<Longrightarrow> utf8 s"
proof (induction "length a" arbitrary: a rule: less_induct)
  case less
  show ?case
  proof (cases a)
    case Nil
    then show ?thesis using less.prems by (simp add: utf8_ascii)
  next
    case (Cons x a1)
    obtain conts s1 where s1: "a1 @ c # s = conts @ s1" "\<forall>c \<in> set conts. is_continuation c" "utf8 s1"
      using less.prems(1) unfolding Cons append_Cons by (rule utf8_step)
    have "c \<notin> set conts" using s1(2) ascii_not_continuation [OF less.prems(2)] by blast
    then obtain d where "s1 = d @ c # s" "length d \<le> length a1"
      using s1(1) by (auto simp: append_eq_append_conv2 Cons_eq_append_conv)
    then show ?thesis using less.hyps [of d] s1(3) less.prems(2) Cons by simp
  qed
qed

lemma word_ascii: "is_word c \<Longrightarrow> ascii c"
  by (auto simp: is_word_def is_ascii_alphabetic_def is_digit_def ascii_def)

lemma number_ascii: "is_number_byte c \<Longrightarrow> ascii c"
  by (auto simp: is_number_byte_def is_digit_def ascii_def)

lemma whitespace_ascii: "is_ascii_whitespace c \<Longrightarrow> ascii c"
  by (auto simp: is_ascii_whitespace_def ascii_def)

lemma utf8_dropWhile: "(\<And>c. P c \<Longrightarrow> ascii c) \<Longrightarrow> utf8 s \<Longrightarrow> utf8 (dropWhile P s)"
  by (metis set_takeWhileD takeWhile_dropWhile_id utf8_ascii_prefix)

lemma read_string_split:
  "read_string s = Some (out, rest) \<Longrightarrow>
     \<exists>raw. s = raw @ CHR 0x27 # rest \<and> CHR 0x27 \<notin> set raw \<and> out = concat (map byte_as_char raw)"
proof (induction s arbitrary: out)
  case (Cons c cs)
  show ?case
  proof (cases "c = CHR 0x27")
    case True
    then show ?thesis using Cons.prems by auto
  next
    case False
    then obtain o1 where o1: "read_string cs = Some (o1, rest)" "out = byte_as_char c @ o1"
      using Cons.prems by (auto split: option.splits)
    obtain raw where raw: "cs = raw @ CHR 0x27 # rest" "CHR 0x27 \<notin> set raw" "o1 = concat (map byte_as_char raw)"
      using Cons.IH [OF o1(1)] by blast
    show ?thesis by (rule exI [of _ "c # raw"]) (use raw o1(2) False in auto)
  qed
qed simp

lemma read_ident_ascii: "read_ident s = (i, rest) \<Longrightarrow> \<forall>c \<in> set i. ascii c"
proof (induction s arbitrary: i)
  case (Cons c cs)
  obtain j r where j: "read_ident cs = (j, r)" by (cases "read_ident cs")
  have dot: "ascii (CHR ''.'')" by (simp add: ascii_def)
  show ?case using Cons.prems Cons.IH j word_ascii dot by (auto split: if_splits)
qed simp

lemma symbol_ops_ascii: "match_symbol_op s = Some k \<Longrightarrow> \<forall>c \<in> set (take k s). ascii c"
  by (auto simp: match_symbol_op_def symbol_ops_def starts_with_iff ascii_def split: if_splits)

section \<open>The lexer returns\<close>

lemma read_token_returns:
  assumes "utf8 (c # cs)"
  shows "(\<exists>e. read_token F start c cs = Some (Inl e) \<and> pe_position e = start) \<or>
    (\<exists>t rest. read_token F start c cs = Some (Inr (t, rest)) \<and> utf8 rest)"
proof -
  consider "c = CHR '',''" | "c = CHR 0x27" | "c \<notin> {CHR 0x27, CHR '',''}" "is_digit c"
    | "is_ascii_alphabetic c \<or> c = CHR ''_''" "\<not> is_digit c" "c \<notin> {CHR 0x27, CHR '',''}"
    | "\<not> is_ascii_alphabetic c" "c \<noteq> CHR ''_''" "\<not> is_digit c" "c \<notin> {CHR 0x27, CHR '',''}" by blast
  then show ?thesis
  proof cases
    case 1
    then show ?thesis using assms by (simp add: read_token_def utf8_ascii ascii_def)
  next
    case 2
    then have cs: "utf8 cs" using assms by (simp add: utf8_ascii ascii_def)
    show ?thesis
    proof (cases "read_string cs")
      case None
      then show ?thesis using 2 by (simp add: read_token_def)
    next
      case (Some p)
      obtain out rest where p: "p = (out, rest)" by (cases p)
      obtain raw where "cs = raw @ CHR 0x27 # rest" using read_string_split [of cs out rest] Some p by auto
      then have "utf8 rest" using utf8_after [of raw] cs by (simp add: ascii_def)
      then show ?thesis using 2 Some p by (simp add: read_token_def)
    qed
  next
    case 3
    have u: "utf8 (dropWhile is_number_byte (c # cs))" by (rule utf8_dropWhile [OF number_ascii assms])
    then show ?thesis using 3 utf8_boundary [OF u]
      by (cases "f_parse F (takeWhile is_number_byte (c # cs))") (simp_all add: read_token_def Let_def)
  next
    case 4
    obtain i rest where i: "read_ident (c # cs) = (i, rest)" by (cases "read_ident (c # cs)")
    have "utf8 rest" using assms read_ident_split [OF i] read_ident_ascii [OF i] by (simp add: utf8_ascii_prefix)
    then show ?thesis using 4 utf8_boundary i by (simp add: read_token_def)
  next
    case 5
    have b: "boundary (c # cs)" by (rule utf8_boundary [OF assms])
    show ?thesis
    proof (cases "match_symbol_op (c # cs)")
      case None
      then show ?thesis using 5 b by (simp add: read_token_def)
    next
      case (Some k)
      have "utf8 (take k (c # cs) @ drop k (c # cs))" using assms by simp
      then have "utf8 (drop k (c # cs))" unfolding utf8_ascii_prefix [OF symbol_ops_ascii [OF Some]] .
      then show ?thesis using 5 b Some utf8_boundary by (simp add: read_token_def)
    qed
  qed
qed

text \<open>Tokens start, and errors point, inside the text.\<close>

lemma tokenize_returns:
  "utf8 s \<Longrightarrow> length s \<le> n \<Longrightarrow>
     (\<exists>e. tokenize F n s = Some (Inl e) \<and> pe_position e < n) \<or>
     (\<exists>ts. tokenize F n s = Some (Inr ts) \<and> (\<forall>p \<in> snd ` set ts. p < n))"
proof (induction "length s" arbitrary: s rule: less_induct)
  case less
  show ?case
  proof (cases "dropWhile is_ascii_whitespace s")
    case Nil
    show ?thesis unfolding tokenize.simps [of F n s] Nil by simp
  next
    case (Cons c cs)
    have u: "utf8 (c # cs)" using utf8_dropWhile [of is_ascii_whitespace s, OF whitespace_ascii less.prems(1)] by (simp add: Cons)
    have len: "length (c # cs) \<le> length s" using length_dropWhile_le [of is_ascii_whitespace s] by (simp add: Cons)
    define start where "start = n - length (c # cs)"
    have start: "start < n" using len less.prems(2) by (simp add: start_def)
    note run = tokenize.simps [of F n s, unfolded Cons list.case Let_def, folded start_def]
    show ?thesis
    proof (rule disjE [OF read_token_returns [OF u, of F start]])
      assume "\<exists>e. read_token F start c cs = Some (Inl e) \<and> pe_position e = start"
      then show ?thesis using run start by auto
    next
      assume "\<exists>t rest. read_token F start c cs = Some (Inr (t, rest)) \<and> utf8 rest"
      then obtain t rest where t: "read_token F start c cs = Some (Inr (t, rest))" "utf8 rest" by blast
      have shorter: "length rest < length s" using read_token_shorter [OF t(1)] len by simp
      have "length rest \<le> n" using shorter less.prems(2) by simp
      from less.hyps [OF shorter t(2) this] show ?thesis using run t(1) start by auto
    qed
  qed
qed

section \<open>Writing tokens\<close>

definition ident_word :: "string \<Rightarrow> bool" where
  "ident_word s \<longleftrightarrow> (case s of [] \<Rightarrow> False | c # _ \<Rightarrow> is_ascii_alphabetic c \<or> c = CHR ''_'') \<and>
     read_ident s = (s, [])"

text \<open>Texts the lexer reads back: words and operators, quoted ASCII without a quote, and numbers.\<close>

fun token_ok :: "'f f64_ops \<Rightarrow> 'f token \<Rightarrow> string \<Rightarrow> bool" where
  "token_ok F (TIdent s) w \<longleftrightarrow> w = s \<and> (ident_word s \<or> s \<in> set symbol_ops)"
| "token_ok F (TStr s) w \<longleftrightarrow> w = CHR 0x27 # s @ [CHR 0x27] \<and> (\<forall>c \<in> set s. ascii c \<and> c \<noteq> CHR 0x27)"
| "token_ok F (TNum x) w \<longleftrightarrow> f_parse F w = Some x \<and> w \<noteq> [] \<and> is_digit (hd w) \<and> (\<forall>c \<in> set w. is_number_byte c)"
| "token_ok F TComma w \<longleftrightarrow> w = '',''"

lemma read_string_plain:
  "\<forall>c \<in> set s. ascii c \<and> c \<noteq> CHR 0x27 \<Longrightarrow> read_string (s @ CHR 0x27 # rest) = Some (s, rest)"
  by (induction s) (simp_all add: byte_as_char_def ascii_def)

lemma read_ident_space: "read_ident s = (s, []) \<Longrightarrow> read_ident (s @ CHR '' '' # rest) = (s, CHR '' '' # rest)"
proof (induction s)
  case Nil
  show ?case by (simp add: is_word_def is_ascii_alphabetic_def is_digit_def)
next
  case (Cons c s)
  obtain i r where i: "read_ident s = (i, r)" by (cases "read_ident s")
  let ?b = "is_word c \<or> (c = CHR ''.'' \<and> (case s of [] \<Rightarrow> False | d # _ \<Rightarrow> is_word d))"
  have b: "?b" and s: "read_ident s = (s, [])" using Cons.prems i by (auto split: if_splits)
  have "is_word c \<or> (c = CHR ''.'' \<and> (case s @ CHR '' '' # rest of [] \<Rightarrow> False | d # _ \<Rightarrow> is_word d))"
    using b by (cases s) auto
  then show ?case using Cons.IH [OF s] by simp
qed

lemma alphabetic_other:
  "is_ascii_alphabetic c \<or> c = CHR ''_'' \<Longrightarrow> c \<noteq> CHR '','' \<and> c \<noteq> CHR 0x27 \<and> \<not> is_digit c \<and> \<not> is_ascii_whitespace c"
  by (auto simp: is_ascii_alphabetic_def is_digit_def is_ascii_whitespace_def)

lemma digit_other:
  "is_digit c \<Longrightarrow> c \<noteq> CHR '','' \<and> c \<noteq> CHR 0x27 \<and> \<not> is_ascii_whitespace c"
  by (auto simp: is_digit_def is_ascii_whitespace_def)

lemma read_token_text:
  assumes "token_ok F t w"
  shows "\<exists>c cs. w @ CHR '' '' # rest = c # cs \<and> \<not> is_ascii_whitespace c \<and>
    read_token F start c cs = Some (Inr (t, CHR '' '' # rest))"
proof -
  have space: "boundary (CHR '' '' # rest)" by (simp add: boundary_def is_continuation_def)
  show ?thesis
  proof (cases t)
    case (TIdent s)
    show ?thesis
    proof (cases "ident_word s")
      case True
      then obtain c cs where s: "s = c # cs" by (auto simp: ident_word_def split: list.splits)
      have c: "is_ascii_alphabetic c \<or> c = CHR ''_''" and r: "read_ident s = (s, [])"
        using True s by (auto simp: ident_word_def)
      have "read_ident (c # cs @ CHR '' '' # rest) = (s, CHR '' '' # rest)"
        using read_ident_space [OF r, of rest] s by simp
      then show ?thesis using assms TIdent s c alphabetic_other [OF c] space by (simp add: read_token_def)
    next
      case False
      then have "s \<in> set symbol_ops" and ws: "w = s" using assms TIdent by simp_all
      then consider "s = ''!=''" | "s = ''>=''" | "s = ''<=''" | "s = ''=''" | "s = ''>''" | "s = ''<''"
        by (auto simp: symbol_ops_def)
      then show ?thesis unfolding TIdent ws
        by cases (simp_all add: symbol_ops_def read_token_def is_digit_def is_ascii_alphabetic_def
            is_ascii_whitespace_def match_symbol_op_def starts_with_def boundary_def is_continuation_def)
    qed
  next
    case (TStr s)
    then show ?thesis using assms read_string_plain [of s "CHR '' '' # rest"]
      by (auto simp: read_token_def is_ascii_whitespace_def)
  next
    case (TNum x)
    obtain c cs where s: "w = c # cs" using assms TNum by (cases w) auto
    have c: "is_digit c" and all: "\<forall>d \<in> set w. is_number_byte d" using assms TNum s by auto
    have sp: "\<not> is_number_byte (CHR '' '')" by (simp add: is_number_byte_def is_digit_def)
    have "takeWhile is_number_byte (w @ CHR '' '' # rest) = w" "dropWhile is_number_byte (w @ CHR '' '' # rest) = CHR '' '' # rest"
      using all sp by (simp_all add: takeWhile_append2 dropWhile_append2)
    then show ?thesis using assms TNum s c digit_other [OF c] space by (simp add: read_token_def Let_def)
  next
    case TComma
    then show ?thesis using assms by (simp add: read_token_def is_ascii_whitespace_def)
  qed
qed

lemma tokenize_space: "tokenize F n (CHR '' '' # s) = tokenize F n s"
  by (simp add: tokenize.simps [of F n "CHR '' '' # s"] tokenize.simps [of F n s] is_ascii_whitespace_def)

lemma tokenize_text:
  "list_all2 (token_ok F) toks texts \<Longrightarrow>
     \<exists>ts. tokenize F n (concat (map (\<lambda>w. w @ '' '') texts)) = Some (Inr ts) \<and> map fst ts = toks"
proof (induction rule: list_all2_induct)
  case Nil
  show ?case by (subst tokenize.simps) simp
next
  case (Cons t toks w ws)
  let ?rest = "concat (map (\<lambda>w. w @ '' '') ws)"
  obtain ts where ts: "tokenize F n ?rest = Some (Inr ts)" "map fst ts = toks" using Cons.IH by blast
  define start where "start = n - length (w @ CHR '' '' # ?rest)"
  obtain c cs where c: "w @ CHR '' '' # ?rest = c # cs" "\<not> is_ascii_whitespace c"
      "read_token F start c cs = Some (Inr (t, CHR '' '' # ?rest))"
    using read_token_text [OF Cons.hyps(1)] by blast
  have st: "start = n - length (c # cs)" using c(1) by (simp add: start_def)
  have "tokenize F n (CHR '' '' # ?rest) = Some (Inr ts)" by (simp add: tokenize_space ts(1))
  then have "tokenize F n (c # cs) = Some (Inr ((t, start) # ts))"
    using c(2,3) st by (simp add: tokenize.simps [of F n "c # cs"])
  then show ?case using c(1) ts(2) by auto
qed

end
