(* ===== verification/Ekl_Parser.thy ===== *)
theory Ekl_Parser
  imports Ekl_Lexer
begin

text \<open>
  The parser of the query language (\<open>parser.rs\<close>): the syntax tree, the recursive descent over the tokens
  left, the clauses in any order and the combinations refused.  The token cursor is the list of tokens
  left; \<open>eof\<close> is the position reported when none is.  Reading an RFC 3339 instant is a parameter.
\<close>

section \<open>The syntax tree\<close>

datatype entity = EObject | ERelationship

datatype ekl_op = OpEq | OpNe | OpGt | OpLt | OpGe | OpLe | OpContains

datatype 'f literal = LStr string | LNum 'f

record 'f predicate =
  pd_field :: string
  pd_op :: ekl_op
  pd_value :: "'f literal"

datatype ekl_order = Asc | Desc

record 'f ekl_ast =
  ea_entity :: entity
  ea_predicates :: "'f predicate list"
  ea_from :: "string option"
  ea_semantic :: "string option"
  ea_via :: "string option"
  ea_depth :: "nat option"
  ea_returns :: "string list"
  ea_order_by :: "(string \<times> ekl_order) option"
  ea_limit :: "nat option"
  ea_as_of :: "int option"
  ea_count :: bool
  ea_group_by :: "string option"

definition ekl_ast_new :: "entity \<Rightarrow> 'f ekl_ast" where
  "ekl_ast_new e =
     \<lparr>ea_entity = e, ea_predicates = [], ea_from = None, ea_semantic = None, ea_via = None, ea_depth = None,
      ea_returns = [], ea_order_by = None, ea_limit = None, ea_as_of = None, ea_count = False, ea_group_by = None\<rparr>"

section \<open>The cursor\<close>

type_synonym ('f, 'a) parsed = "parse_error + 'a \<times> 'f tokens"

fun peek_pos :: "nat \<Rightarrow> 'f tokens \<Rightarrow> nat" where
  "peek_pos eof [] = eof"
| "peek_pos eof ((t, p) # ts) = p"

definition end_pos :: "'f tokens \<Rightarrow> nat" where
  "end_pos ts = (if ts = [] then 0 else snd (last ts) + 1)"

fun describe :: "'f f64_ops \<Rightarrow> 'f tokens \<Rightarrow> string" where
  "describe F [] = ''end of input''"
| "describe F ((TIdent s, p) # ts) = [CHR 0x27] @ s @ [CHR 0x27]"
| "describe F ((TStr s, p) # ts) = [CHR 0x27] @ s @ [CHR 0x27] @ '' (string)''"
| "describe F ((TNum x, p) # ts) = f_show F x @ '' (number)''"
| "describe F ((TComma, p) # ts) = [CHR 0x27] @ '','' @ [CHR 0x27]"

fun peek_keyword :: "string \<Rightarrow> 'f tokens \<Rightarrow> bool" where
  "peek_keyword kw ((TIdent s, p) # ts) = eq_ignore_ascii_case s kw"
| "peek_keyword kw ts = False"

definition expected :: "'f f64_ops \<Rightarrow> nat \<Rightarrow> string \<Rightarrow> 'f tokens \<Rightarrow> parse_error" where
  "expected F eof what ts = parse_error_at (peek_pos eof ts) (''expected '' @ what @ '', found '' @ describe F ts)"

fun expect_keyword :: "'f f64_ops \<Rightarrow> nat \<Rightarrow> string \<Rightarrow> 'f tokens \<Rightarrow> ('f, unit) parsed" where
  "expect_keyword F eof kw ((TIdent s, p) # ts) =
     (if eq_ignore_ascii_case s kw then Inr ((), ts)
      else Inl (expected F eof ([CHR 0x27] @ kw @ [CHR 0x27]) ((TIdent s, p) # ts)))"
| "expect_keyword F eof kw ts = Inl (expected F eof ([CHR 0x27] @ kw @ [CHR 0x27]) ts)"

fun expect_ident :: "'f f64_ops \<Rightarrow> nat \<Rightarrow> 'f tokens \<Rightarrow> ('f, string) parsed" where
  "expect_ident F eof ((TIdent s, p) # ts) = Inr (s, ts)"
| "expect_ident F eof ts = Inl (expected F eof ''identifier'' ts)"

fun expect_string :: "'f f64_ops \<Rightarrow> nat \<Rightarrow> 'f tokens \<Rightarrow> ('f, string) parsed" where
  "expect_string F eof ((TStr s, p) # ts) = Inr (s, ts)"
| "expect_string F eof ts = Inl (expected F eof ''string literal'' ts)"

fun expect_num :: "'f f64_ops \<Rightarrow> nat \<Rightarrow> 'f tokens \<Rightarrow> ('f, 'f) parsed" where
  "expect_num F eof ((TNum x, p) # ts) = Inr (x, ts)"
| "expect_num F eof ts = Inl (expected F eof ''number'' ts)"

text \<open>The \<open>?\<close> between two reads, and a result made of what was read.\<close>

definition p_bind :: "('f, 'a) parsed \<Rightarrow> ('a \<Rightarrow> 'f tokens \<Rightarrow> ('f, 'b) parsed) \<Rightarrow> ('f, 'b) parsed" where
  "p_bind r k = (case r of Inl e \<Rightarrow> Inl e | Inr (x, ts) \<Rightarrow> k x ts)"

definition p_map :: "('a \<Rightarrow> 'b) \<Rightarrow> ('f, 'a) parsed \<Rightarrow> ('f, 'b) parsed" where
  "p_map g r = p_bind r (\<lambda>x ts. Inr (g x, ts))"

section \<open>Predicates\<close>

definition parse_entity :: "'f f64_ops \<Rightarrow> nat \<Rightarrow> 'f tokens \<Rightarrow> ('f, entity) parsed" where
  "parse_entity F eof ts =
     p_bind (expect_ident F eof ts) (\<lambda>i us.
       if eq_ignore_ascii_case i ''Object'' then Inr (EObject, us)
       else if eq_ignore_ascii_case i ''Relationship'' then Inr (ERelationship, us)
       else Inl (parse_error_at (peek_pos eof ts) (''unknown entity '' @ [CHR 0x27] @ i @ [CHR 0x27])))"

fun parse_op :: "'f f64_ops \<Rightarrow> nat \<Rightarrow> 'f tokens \<Rightarrow> ('f, ekl_op) parsed" where
  "parse_op F eof ((TIdent s, p) # ts) =
     (if s = ''='' then Inr (OpEq, ts)
      else if s = ''!='' then Inr (OpNe, ts)
      else if s = ''>'' then Inr (OpGt, ts)
      else if s = ''<'' then Inr (OpLt, ts)
      else if s = ''>='' then Inr (OpGe, ts)
      else if s = ''<='' then Inr (OpLe, ts)
      else if eq_ignore_ascii_case s ''CONTAINS'' then Inr (OpContains, ts)
      else Inl (parse_error_at p (''unknown operator '' @ [CHR 0x27] @ s @ [CHR 0x27])))"
| "parse_op F eof ts = Inl (expected F eof ''operator'' ts)"

fun parse_literal :: "'f f64_ops \<Rightarrow> nat \<Rightarrow> 'f tokens \<Rightarrow> ('f, 'f literal) parsed" where
  "parse_literal F eof ((TStr s, p) # ts) = Inr (LStr s, ts)"
| "parse_literal F eof ((TNum x, p) # ts) = Inr (LNum x, ts)"
| "parse_literal F eof ts = Inl (expected F eof ''literal'' ts)"

definition parse_predicate :: "'f f64_ops \<Rightarrow> nat \<Rightarrow> 'f tokens \<Rightarrow> ('f, 'f predicate) parsed" where
  "parse_predicate F eof ts =
     p_bind (expect_ident F eof ts) (\<lambda>f us.
     p_bind (parse_op F eof us) (\<lambda>op vs.
     p_map (\<lambda>v. \<lparr>pd_field = f, pd_op = op, pd_value = v\<rparr>) (parse_literal F eof vs)))"

section \<open>Reading does not go back\<close>

text \<open>Errors point at most at \<open>N\<close>; what is left is part of what was there.\<close>

definition p_ok :: "nat \<Rightarrow> 'f tokens \<Rightarrow> ('f, 'a) parsed \<Rightarrow> bool" where
  "p_ok N ts r \<longleftrightarrow>
     (case r of Inl e \<Rightarrow> pe_position e \<le> N | Inr (x, us) \<Rightarrow> set us \<subseteq> set ts \<and> length us \<le> length ts)"

definition tokens_before :: "nat \<Rightarrow> nat \<Rightarrow> 'f tokens \<Rightarrow> bool" where
  "tokens_before N eof ts \<longleftrightarrow> eof \<le> N \<and> (\<forall>p \<in> snd ` set ts. p \<le> N)"

lemma peek_pos_ok [simp]: "tokens_before N eof ts \<Longrightarrow> peek_pos eof ts \<le> N"
  by (cases "(eof, ts)" rule: peek_pos.cases) (auto simp: tokens_before_def)

lemma tokens_before_tl [simp]: "tokens_before N eof ts \<Longrightarrow> tokens_before N eof (tl ts)"
  by (cases ts) (simp_all add: tokens_before_def)

lemma tokens_before_exists: "\<exists>N. tokens_before N eof ts"
  by (rule exI [of _ "Max (insert eof (snd ` set ts))"]) (simp add: tokens_before_def)

lemma p_ok_error [simp]: "p_ok N ts (Inl e) \<longleftrightarrow> pe_position e \<le> N"
  by (simp add: p_ok_def)

lemma p_ok_value [simp]: "p_ok N ts (Inr (x, us)) \<longleftrightarrow> set us \<subseteq> set ts \<and> length us \<le> length ts"
  by (simp add: p_ok_def)

lemma expected_ok [simp]: "tokens_before N eof ts \<Longrightarrow> pe_position (expected F eof what ts) \<le> N"
  by (simp add: expected_def)

lemma p_ok_bind:
  assumes "p_ok N ts r" "tokens_before N eof ts" and "\<And>x us. tokens_before N eof us \<Longrightarrow> p_ok N us (k x us)"
  shows "p_ok N ts (p_bind r k)"
proof (cases r)
  case (Inl e)
  then show ?thesis using assms(1) by (simp add: p_bind_def)
next
  case (Inr q)
  obtain x us where q: "q = (x, us)" by (cases q)
  have us: "set us \<subseteq> set ts" "length us \<le> length ts" using assms(1) Inr q by simp_all
  have "tokens_before N eof us" using assms(2) us(1) by (auto simp: tokens_before_def)
  then have "p_ok N us (k x us)" by (rule assms(3))
  then show ?thesis using us Inr q by (auto simp: p_bind_def p_ok_def split: sum.splits)
qed

lemma p_ok_map [simp]: "p_ok N ts (p_map g r) \<longleftrightarrow> p_ok N ts r"
  by (auto simp: p_map_def p_bind_def p_ok_def split: sum.splits prod.splits)

lemma p_ok_tl: "p_ok N (tl ts) r \<Longrightarrow> p_ok N ts r"
  by (cases ts) (auto simp: p_ok_def split: sum.splits)

lemma p_ok_if: "(b \<Longrightarrow> p_ok N ts r) \<Longrightarrow> (\<not> b \<Longrightarrow> p_ok N ts q) \<Longrightarrow> p_ok N ts (if b then r else q)"
  by simp

lemma expect_ok [simp]:
  assumes "tokens_before N eof ts"
  shows "p_ok N ts (expect_keyword F eof kw ts)" "p_ok N ts (expect_ident F eof ts)" "p_ok N ts (expect_string F eof ts)"
    "p_ok N ts (expect_num F eof ts)" "p_ok N ts (parse_literal F eof ts)" "p_ok N ts (parse_op F eof ts)"
proof -
  show "p_ok N ts (expect_keyword F eof kw ts)"
    by (cases "(F, eof, kw, ts)" rule: expect_keyword.cases) (use assms in auto)
  show "p_ok N ts (expect_ident F eof ts)" by (cases "(F, eof, ts)" rule: expect_ident.cases) (use assms in auto)
  show "p_ok N ts (expect_string F eof ts)" by (cases "(F, eof, ts)" rule: expect_string.cases) (use assms in auto)
  show "p_ok N ts (expect_num F eof ts)" by (cases "(F, eof, ts)" rule: expect_num.cases) (use assms in auto)
  show "p_ok N ts (parse_literal F eof ts)" by (cases "(F, eof, ts)" rule: parse_literal.cases) (use assms in auto)
  show "p_ok N ts (parse_op F eof ts)"
    by (cases "(F, eof, ts)" rule: parse_op.cases) (use assms in \<open>auto simp: tokens_before_def expected_def\<close>)
qed

lemma expect_tl_ok [simp]:
  assumes "tokens_before N eof ts"
  shows "p_ok N ts (expect_keyword F eof kw (tl ts))" "p_ok N ts (expect_ident F eof (tl ts))"
    "p_ok N ts (expect_string F eof (tl ts))" "p_ok N ts (expect_num F eof (tl ts))"
  by (rule p_ok_tl, simp add: assms)+

lemma bind_ok:
  assumes "tokens_before N eof ts" "\<And>x us. tokens_before N eof us \<Longrightarrow> p_ok N us (k x us)"
  shows "p_ok N ts (p_bind (expect_keyword F eof kw ts) (\<lambda>_. k x))" "p_ok N ts (p_bind (expect_keyword F eof kw (tl ts)) (\<lambda>_. k x))"
    "p_ok N ts (p_bind (expect_ident F eof ts) k)" "p_ok N ts (p_bind (expect_ident F eof (tl ts)) k)"
    "p_ok N ts (p_bind (expect_string F eof ts) k)" "p_ok N ts (p_bind (expect_string F eof (tl ts)) k)"
  by (rule p_ok_bind [where eof = eof], simp_all add: assms)+

lemma parse_entity_ok [simp]: "tokens_before N eof ts \<Longrightarrow> p_ok N ts (parse_entity F eof ts)"
  unfolding parse_entity_def by (rule p_ok_bind [where eof = eof]) auto

lemma parse_predicate_ok [simp]: "tokens_before N eof ts \<Longrightarrow> p_ok N ts (parse_predicate F eof ts)"
  unfolding parse_predicate_def
  by (rule bind_ok(3), assumption, rule p_ok_bind [where eof = eof]) simp_all

lemma peek_keyword_shorter: "peek_keyword kw ts \<Longrightarrow> length (tl ts) < length ts"
  by (cases ts) auto

section \<open>Clauses\<close>

function parse_and :: "'f f64_ops \<Rightarrow> nat \<Rightarrow> 'f tokens \<Rightarrow> ('f, 'f predicate list) parsed" where
  "parse_and F eof ts =
     (if peek_keyword ''AND'' ts
      then (case parse_predicate F eof (tl ts) of
              Inl e \<Rightarrow> Inl e
            | Inr (p, us) \<Rightarrow> p_map ((#) p) (parse_and F eof us))
      else Inr ([], ts))"
  by auto

termination
proof (relation "measure (\<lambda>(F, eof, ts). length ts)", goal_cases)
  case 1
  show ?case by simp
next
  case (2 F eof ts x p us)
  obtain N where "tokens_before N eof (tl ts)" using tokens_before_exists by blast
  then have "p_ok N (tl ts) (parse_predicate F eof (tl ts))" by simp
  then show ?case using 2 peek_keyword_shorter [OF 2(1)] by (cases x) simp
qed

declare parse_and.simps [simp del]

lemma parse_and_ok: "tokens_before N eof ts \<Longrightarrow> p_ok N ts (parse_and F eof ts)"
proof (induction F eof ts rule: parse_and.induct)
  case (1 F eof ts)
  show ?case
  proof (cases "peek_keyword ''AND'' ts")
    case True
    have pos: "tokens_before N eof (tl ts)" using 1(2) by simp
    have "p_ok N (tl ts) (p_bind (parse_predicate F eof (tl ts)) (\<lambda>p us. p_map ((#) p) (parse_and F eof us)))"
    proof (cases "parse_predicate F eof (tl ts)")
      case (Inl e)
      then show ?thesis using parse_predicate_ok [OF pos, of F] by (simp add: p_bind_def)
    next
      case (Inr q)
      obtain p us where q: "q = (p, us)" by (cases q)
      have us: "set us \<subseteq> set (tl ts)" "length us \<le> length (tl ts)"
        using parse_predicate_ok [OF pos, of F] Inr q by simp_all
      have "tokens_before N eof us" using pos us(1) by (auto simp: tokens_before_def)
      then have "p_ok N us (parse_and F eof us)" using 1(1) [OF True Inr q [symmetric]] by simp
      then show ?thesis using us Inr q by (auto simp: p_bind_def p_map_def p_ok_def split: sum.splits)
    qed
    then show ?thesis using True by (subst parse_and.simps) (simp add: p_bind_def p_ok_tl)
  next
    case False
    then show ?thesis by (subst parse_and.simps) simp
  qed
qed

text \<open>The rest of a comma list of identifiers.\<close>

fun parse_idents :: "'f f64_ops \<Rightarrow> nat \<Rightarrow> 'f tokens \<Rightarrow> ('f, string list) parsed" where
  "parse_idents F eof ((TComma, p) # (TIdent s, q) # ts) = p_map ((#) s) (parse_idents F eof ts)"
| "parse_idents F eof ((TComma, p) # ts) = Inl (expected F eof ''identifier'' ts)"
| "parse_idents F eof ts = Inr ([], ts)"

definition parse_direction :: "'f tokens \<Rightarrow> ekl_order \<times> 'f tokens" where
  "parse_direction ts =
     (if peek_keyword ''DESC'' ts then (Desc, tl ts)
      else if peek_keyword ''ASC'' ts then (Asc, tl ts)
      else (Asc, ts))"

definition parse_timestamp ::
  "'f f64_ops \<Rightarrow> (string \<Rightarrow> string + int) \<Rightarrow> nat \<Rightarrow> 'f tokens \<Rightarrow> ('f, int) parsed" where
  "parse_timestamp F rfc3339 eof ts =
     p_bind (expect_string F eof ts) (\<lambda>raw us.
       case rfc3339 raw of
         Inl m \<Rightarrow> Inl (parse_error_at (peek_pos eof ts)
                    (''invalid AS OF timestamp '' @ [CHR 0x27] @ raw @ [CHR 0x27] @ '': '' @ m))
       | Inr t \<Rightarrow> Inr (t, us))"

text \<open>One trailing clause; \<open>False\<close> when the next token starts none.\<close>

definition parse_clause ::
  "'f f64_ops \<Rightarrow> (string \<Rightarrow> string + int) \<Rightarrow> nat \<Rightarrow> 'f ekl_ast \<Rightarrow> 'f tokens \<Rightarrow> ('f, 'f ekl_ast \<times> bool) parsed" where
  "parse_clause F rfc3339 eof ast ts =
     (if peek_keyword ''FROM'' ts then
        p_map (\<lambda>s. (ast\<lparr>ea_from := Some s\<rparr>, True)) (expect_string F eof (tl ts))
      else if peek_keyword ''SEMANTIC'' ts then
        p_bind (expect_string F eof (tl ts)) (\<lambda>s us.
          if peek_keyword ''LIMIT'' us
          then p_map (\<lambda>x. (ast\<lparr>ea_semantic := Some s, ea_limit := Some (f_to_u64 F x)\<rparr>, True)) (expect_num F eof (tl us))
          else Inr ((ast\<lparr>ea_semantic := Some s\<rparr>, True), us))
      else if peek_keyword ''VIA'' ts then
        p_map (\<lambda>s. (ast\<lparr>ea_via := Some s\<rparr>, True)) (expect_ident F eof (tl ts))
      else if peek_keyword ''DEPTH'' ts then
        p_map (\<lambda>x. (ast\<lparr>ea_depth := Some (f_to_u32 F x)\<rparr>, True)) (expect_num F eof (tl ts))
      else if peek_keyword ''RETURN'' ts then
        p_bind (expect_ident F eof (tl ts)) (\<lambda>s us.
          p_map (\<lambda>ss. (ast\<lparr>ea_returns := ea_returns ast @ s # ss\<rparr>, True)) (parse_idents F eof us))
      else if peek_keyword ''ORDER'' ts then
        p_bind (expect_keyword F eof ''BY'' (tl ts)) (\<lambda>_ us.
        p_bind (expect_ident F eof us) (\<lambda>s vs.
          case parse_direction vs of (d, ws) \<Rightarrow> Inr ((ast\<lparr>ea_order_by := Some (s, d)\<rparr>, True), ws)))
      else if peek_keyword ''LIMIT'' ts then
        p_map (\<lambda>x. (ast\<lparr>ea_limit := Some (f_to_u64 F x)\<rparr>, True)) (expect_num F eof (tl ts))
      else if peek_keyword ''AS'' ts then
        p_bind (expect_keyword F eof ''OF'' (tl ts)) (\<lambda>_ us.
          p_map (\<lambda>t. (ast\<lparr>ea_as_of := Some t\<rparr>, True)) (parse_timestamp F rfc3339 eof us))
      else if peek_keyword ''COUNT'' ts then Inr ((ast\<lparr>ea_count := True\<rparr>, True), tl ts)
      else if peek_keyword ''GROUP'' ts then
        p_bind (expect_keyword F eof ''BY'' (tl ts)) (\<lambda>_ us.
          p_map (\<lambda>s. (ast\<lparr>ea_group_by := Some s\<rparr>, True)) (expect_ident F eof us))
      else Inr ((ast, False), ts))"

lemma parse_idents_ok: "tokens_before N eof ts \<Longrightarrow> p_ok N ts (parse_idents F eof ts)"
proof (induction F eof ts rule: parse_idents.induct)
  case (1 F eof p s q ts)
  have "tokens_before N eof ts" using tokens_before_tl [OF tokens_before_tl [OF 1(2)]] by simp
  from 1(1) [OF this] show ?case by (auto simp: p_map_def p_bind_def p_ok_def split: sum.splits)
qed (use tokens_before_tl in fastforce)+

lemma parse_direction_ok: "parse_direction ts = (d, us) \<Longrightarrow> set us \<subseteq> set ts \<and> length us \<le> length ts"
  by (cases ts) (auto simp: parse_direction_def split: if_splits)

lemma order_ok: "p_ok N ts (case parse_direction ts of (d, us) \<Rightarrow> Inr (f d, us))"
  by (cases "parse_direction ts") (simp add: parse_direction_ok)

lemma parse_timestamp_ok: "tokens_before N eof ts \<Longrightarrow> p_ok N ts (parse_timestamp F rfc3339 eof ts)"
  unfolding parse_timestamp_def by (rule p_ok_bind [OF expect_ok(3)]) (auto split: sum.splits)

lemma set_tl: "set (tl ts) \<subseteq> set ts"
  by (cases ts) auto

lemma parse_clause_ok:
  assumes "tokens_before N eof ts"
  shows "p_ok N ts (parse_clause F rfc3339 eof ast ts)"
  unfolding parse_clause_def
  by (intro p_ok_if bind_ok assms order_ok)
    (use assms in \<open>simp_all add: parse_idents_ok parse_timestamp_ok order_ok set_tl\<close>)

text \<open>A clause is led by its keyword, so the loop over clauses ends.\<close>

lemma p_bind_Inr:
  "p_bind r k = Inr (y, vs) \<longleftrightarrow> (\<exists>x us. r = Inr (x, us) \<and> k x us = Inr (y, vs))"
  by (auto simp: p_bind_def split: sum.splits prod.splits)

lemma p_map_Inr: "p_map g r = Inr (y, vs) \<longleftrightarrow> (\<exists>x. r = Inr (x, vs) \<and> y = g x)"
  by (auto simp: p_map_def p_bind_Inr)

definition clause_keywords :: "string list" where
  "clause_keywords =
     [''FROM'', ''SEMANTIC'', ''VIA'', ''DEPTH'', ''RETURN'', ''ORDER'', ''LIMIT'', ''AS'', ''COUNT'', ''GROUP'']"

lemma parse_clause_none:
  assumes "\<forall>kw \<in> set clause_keywords. \<not> peek_keyword kw ts"
  shows "parse_clause F rfc3339 eof ast ts = Inr ((ast, False), ts)"
  using assms by (simp add: parse_clause_def clause_keywords_def)

lemma led_if:
  "(b \<Longrightarrow> p_ok N ws r) \<Longrightarrow> (\<not> b \<Longrightarrow> p_ok N ws q \<or> q = z) \<Longrightarrow> p_ok N ws (if b then r else q) \<or> (if b then r else q) = z"
  by simp

lemma parse_clause_shorter:
  assumes "parse_clause F rfc3339 eof ast ts = Inr ((a, True), us)"
  shows "length us < length ts"
proof -
  obtain t ws where ts: "ts = t # ws"
  proof (cases ts)
    case Nil
    then show ?thesis using assms parse_clause_none [of ts F rfc3339 eof ast] by (simp add: clause_keywords_def)
  qed (use that in auto)
  obtain N where N: "tokens_before N eof (t # ws)" using tokens_before_exists by blast
  then have W: "tokens_before N eof ws" using tokens_before_tl [OF N] by simp
  have "p_ok N ws (parse_clause F rfc3339 eof ast ts) \<or> parse_clause F rfc3339 eof ast ts = Inr ((ast, False), ts)"
    unfolding parse_clause_def ts list.sel
    by (intro led_if bind_ok W p_ok_if order_ok)
      (use W in \<open>simp_all add: parse_idents_ok parse_timestamp_ok order_ok set_tl\<close>)
  then show ?thesis using assms ts by auto
qed

text \<open>The loop over the clauses.\<close>

function parse_clauses ::
  "'f f64_ops \<Rightarrow> (string \<Rightarrow> string + int) \<Rightarrow> nat \<Rightarrow> 'f ekl_ast \<Rightarrow> 'f tokens \<Rightarrow> ('f, 'f ekl_ast) parsed" where
  "parse_clauses F rfc3339 eof ast ts =
     (case parse_clause F rfc3339 eof ast ts of
        Inl e \<Rightarrow> Inl e
      | Inr ((a, b), us) \<Rightarrow> if b then parse_clauses F rfc3339 eof a us else Inr (a, us))"
  by auto

termination
  by (relation "measure (\<lambda>(F, r, eof, ast, ts). length ts)") (auto intro: parse_clause_shorter)

declare parse_clauses.simps [simp del]

lemma parse_clauses_ok: "tokens_before N eof ts \<Longrightarrow> p_ok N ts (parse_clauses F rfc3339 eof ast ts)"
proof (induction F rfc3339 eof ast ts rule: parse_clauses.induct)
  case (1 F rfc3339 eof ast ts)
  note ok = parse_clause_ok [OF 1(2), of F rfc3339 ast]
  show ?case
  proof (cases "parse_clause F rfc3339 eof ast ts")
    case (Inl e)
    then show ?thesis using ok by (subst parse_clauses.simps) simp
  next
    case (Inr q)
    obtain a b us where q: "q = ((a, b), us)" by (metis prod.exhaust)
    have us: "set us \<subseteq> set ts" "length us \<le> length ts" using ok Inr q by simp_all
    show ?thesis
    proof (cases b)
      case True
      have "tokens_before N eof us" using 1(2) us(1) by (auto simp: tokens_before_def)
      then have "p_ok N us (parse_clauses F rfc3339 eof a us)" using 1(1) Inr q True by simp
      then show ?thesis using us Inr q True by (subst parse_clauses.simps) (auto simp: p_ok_def split: sum.splits)
    next
      case False
      then show ?thesis using us Inr q by (subst parse_clauses.simps) simp
    qed
  qed
qed

section \<open>Queries\<close>

definition semantic_conflict :: "'f ekl_ast \<Rightarrow> string option" where
  "semantic_conflict ast =
     (if ea_from ast \<noteq> None then Some ''FROM (SEMANTIC is a search anchor, FROM is a graph anchor)''
      else if ea_as_of ast \<noteq> None then Some ''AS OF (retrieval has no point-in-time form)''
      else if ea_count ast then
        Some (''COUNT (rank a set, not a scalar '' @ [CHR 0xE2, CHR 0x80, CHR 0x94] @ '' use a plain FIND to count)'')
      else if ea_entity ast \<noteq> EObject then Some ''FIND Relationship (SEMANTIC retrieves objects)''
      else None)"

definition incompatible_clauses :: "'f ekl_ast \<Rightarrow> string option" where
  "incompatible_clauses ast =
     (if ea_via ast \<noteq> None \<and> ea_from ast = None then Some ''VIA requires a FROM anchor''
      else
        (case (if ea_semantic ast \<noteq> None then semantic_conflict ast else None) of
           Some what \<Rightarrow> Some (''SEMANTIC is not compatible with '' @ what)
         | None \<Rightarrow>
             if ea_group_by ast \<noteq> None \<and> \<not> ea_count ast then Some ''GROUP BY requires COUNT''
             else if ea_count ast \<and> ea_returns ast \<noteq> [] then Some ''RETURN is not compatible with COUNT''
             else None))"

definition parse_where :: "'f f64_ops \<Rightarrow> nat \<Rightarrow> 'f tokens \<Rightarrow> ('f, 'f predicate list) parsed" where
  "parse_where F eof ts =
     (if peek_keyword ''WHERE'' ts
      then p_bind (parse_predicate F eof (tl ts)) (\<lambda>p us. p_map ((#) p) (parse_and F eof us))
      else Inr ([], ts))"

definition parse_query ::
  "'f f64_ops \<Rightarrow> (string \<Rightarrow> string + int) \<Rightarrow> nat \<Rightarrow> 'f tokens \<Rightarrow> ('f, 'f ekl_ast) parsed" where
  "parse_query F rfc3339 eof ts =
     p_bind (expect_keyword F eof ''FIND'' ts) (\<lambda>_ us.
     p_bind (parse_entity F eof us) (\<lambda>e vs.
     p_bind (parse_where F eof vs) (\<lambda>ps ws.
     p_bind (parse_clauses F rfc3339 eof ((ekl_ast_new e)\<lparr>ea_predicates := ps\<rparr>) ws) (\<lambda>ast xs.
       if xs \<noteq> [] then Inl (parse_error_at (peek_pos eof xs) (''unexpected trailing token '' @ describe F xs))
       else (case incompatible_clauses ast of
               Some m \<Rightarrow> Inl (parse_error_at (peek_pos eof xs) m)
             | None \<Rightarrow> Inr (ast, xs))))))"

text \<open>The outer \<open>None\<close> is a panic.\<close>

definition ekl_parse ::
  "'f f64_ops \<Rightarrow> (string \<Rightarrow> string + int) \<Rightarrow> string \<Rightarrow> (parse_error + 'f ekl_ast) option" where
  "ekl_parse F rfc3339 input =
     (case tokenize F (length input) input of
        None \<Rightarrow> None
      | Some (Inl e) \<Rightarrow> Some (Inl e)
      | Some (Inr ts) \<Rightarrow>
          Some (case parse_query F rfc3339 (end_pos ts) ts of Inl e \<Rightarrow> Inl e | Inr (ast, _) \<Rightarrow> Inr ast))"

lemma parse_where_ok: "tokens_before N eof ts \<Longrightarrow> p_ok N ts (parse_where F eof ts)"
  unfolding parse_where_def
  by (intro p_ok_if p_ok_bind [where eof = eof]) (simp_all add: parse_and_ok p_ok_tl)

lemma parse_query_ok:
  assumes "tokens_before N eof ts"
  shows "p_ok N ts (parse_query F rfc3339 eof ts)"
  unfolding parse_query_def
  by (intro p_ok_bind [where eof = eof] p_ok_if)
    (use assms in \<open>auto simp: parse_where_ok parse_clauses_ok tokens_before_def [of N eof "[]"] split: option.splits\<close>)

text \<open>
  C20: The parser never panics on a string (valid UTF-8) and always returns: a syntax tree whose clauses can be
  used together, or an error whose position is inside the text (at most one past its last token).
\<close>

theorem ekl_parse_total:
  assumes "utf8 input"
  shows "(\<exists>ast. ekl_parse F rfc3339 input = Some (Inr ast) \<and> incompatible_clauses ast = None) \<or>
    (\<exists>e. ekl_parse F rfc3339 input = Some (Inl e) \<and> pe_position e \<le> length input)"
proof (rule disjE [OF tokenize_returns [OF assms order_refl, of F]])
  assume "\<exists>e. tokenize F (length input) input = Some (Inl e) \<and> pe_position e < length input"
  then show ?thesis by (auto simp: ekl_parse_def)
next
  assume "\<exists>ts. tokenize F (length input) input = Some (Inr ts) \<and> (\<forall>p \<in> snd ` set ts. p < length input)"
  then obtain ts where ts: "tokenize F (length input) input = Some (Inr ts)" "\<forall>p \<in> snd ` set ts. p < length input" by blast
  have "end_pos ts \<le> length input" using ts(2) by (cases ts rule: rev_cases) (auto simp: end_pos_def)
  then have "tokens_before (length input) (end_pos ts) ts" using ts(2) by (auto simp: tokens_before_def)
  note ok = parse_query_ok [OF this, of F rfc3339]
  show ?thesis
  proof (cases "parse_query F rfc3339 (end_pos ts) ts")
    case (Inl e)
    then show ?thesis using ok ts(1) by (simp add: ekl_parse_def)
  next
    case (Inr q)
    obtain ast xs where q: "q = (ast, xs)" by (cases q)
    have "incompatible_clauses ast = None"
      using Inr q by (auto simp: parse_query_def p_bind_Inr split: if_splits option.splits)
    then show ?thesis using ts(1) Inr q by (simp add: ekl_parse_def)
  qed
qed

end
