(* ===== verification/Ekl_Text.thy ===== *)
theory Ekl_Text
  imports Ekl_Parser
begin

text \<open>
  Every syntax tree the parser can produce has a text that reads back as it: one clause after another,
  tokens separated by spaces.
\<close>

section \<open>The tokens of a query\<close>

fun entity_word :: "entity \<Rightarrow> string" where
  "entity_word EObject = ''Object''"
| "entity_word ERelationship = ''Relationship''"

fun op_word :: "ekl_op \<Rightarrow> string" where
  "op_word OpEq = ''=''"
| "op_word OpNe = ''!=''"
| "op_word OpGt = ''>''"
| "op_word OpLt = ''<''"
| "op_word OpGe = ''>=''"
| "op_word OpLe = ''<=''"
| "op_word OpContains = ''CONTAINS''"

fun literal_token :: "'f literal \<Rightarrow> 'f token" where
  "literal_token (LStr s) = TStr s"
| "literal_token (LNum x) = TNum x"

definition predicate_tokens :: "'f predicate \<Rightarrow> 'f token list" where
  "predicate_tokens p = [TIdent (pd_field p), TIdent (op_word (pd_op p)), literal_token (pd_value p)]"

definition where_tokens :: "'f predicate list \<Rightarrow> 'f token list" where
  "where_tokens ps =
     (case ps of [] \<Rightarrow> []
      | p # qs \<Rightarrow> TIdent ''WHERE'' # predicate_tokens p @ concat (map (\<lambda>q. TIdent ''AND'' # predicate_tokens q) qs))"

definition opt_tokens :: "('a \<Rightarrow> 'f token list) \<Rightarrow> 'a option \<Rightarrow> 'f token list" where
  "opt_tokens f x = (case x of None \<Rightarrow> [] | Some y \<Rightarrow> f y)"

definition return_tokens :: "string list \<Rightarrow> 'f token list" where
  "return_tokens ss =
     (case ss of [] \<Rightarrow> [] | s # rs \<Rightarrow> TIdent ''RETURN'' # TIdent s # concat (map (\<lambda>r. [TComma, TIdent r]) rs))"

definition order_word :: "ekl_order \<Rightarrow> string" where
  "order_word d = (case d of Asc \<Rightarrow> ''ASC'' | Desc \<Rightarrow> ''DESC'')"

definition clause_tokens :: "(nat \<Rightarrow> 'f) \<Rightarrow> (int \<Rightarrow> string) \<Rightarrow> 'f ekl_ast \<Rightarrow> 'f token list" where
  "clause_tokens num show_ts ast =
     opt_tokens (\<lambda>k. [TIdent ''LIMIT'', TNum (num k)]) (ea_limit ast) @
     opt_tokens (\<lambda>s. [TIdent ''FROM'', TStr s]) (ea_from ast) @
     opt_tokens (\<lambda>s. [TIdent ''SEMANTIC'', TStr s]) (ea_semantic ast) @
     opt_tokens (\<lambda>s. [TIdent ''VIA'', TIdent s]) (ea_via ast) @
     opt_tokens (\<lambda>k. [TIdent ''DEPTH'', TNum (num k)]) (ea_depth ast) @
     return_tokens (ea_returns ast) @
     opt_tokens (\<lambda>(s, d). [TIdent ''ORDER'', TIdent ''BY'', TIdent s, TIdent (order_word d)]) (ea_order_by ast) @
     opt_tokens (\<lambda>t. [TIdent ''AS'', TIdent ''OF'', TStr (show_ts t)]) (ea_as_of ast) @
     (if ea_count ast then [TIdent ''COUNT''] else []) @
     opt_tokens (\<lambda>s. [TIdent ''GROUP'', TIdent ''BY'', TIdent s]) (ea_group_by ast)"

definition query_tokens :: "(nat \<Rightarrow> 'f) \<Rightarrow> (int \<Rightarrow> string) \<Rightarrow> 'f ekl_ast \<Rightarrow> 'f token list" where
  "query_tokens num show_ts ast =
     [TIdent ''FIND'', TIdent (entity_word (ea_entity ast))] @ where_tokens (ea_predicates ast) @
     clause_tokens num show_ts ast"

fun token_text :: "'f f64_ops \<Rightarrow> 'f token \<Rightarrow> string" where
  "token_text F (TIdent s) = s"
| "token_text F (TStr s) = CHR 0x27 # s @ [CHR 0x27]"
| "token_text F (TNum x) = f_show F x"
| "token_text F TComma = '',''"

definition ekl_text :: "'f f64_ops \<Rightarrow> (nat \<Rightarrow> 'f) \<Rightarrow> (int \<Rightarrow> string) \<Rightarrow> 'f ekl_ast \<Rightarrow> string" where
  "ekl_text F num show_ts ast = concat (map (\<lambda>t. token_text F t @ '' '') (query_tokens num show_ts ast))"

section \<open>Reading predicates\<close>

lemma parse_predicate_read:
  assumes "map fst ts = predicate_tokens p @ rest"
  shows "\<exists>us. map fst us = rest \<and> parse_predicate F eof ts = Inr (p, us)"
proof -
  obtain a b c us where ts: "ts = (TIdent (pd_field p), a) # (TIdent (op_word (pd_op p)), b) # (literal_token (pd_value p), c) # us"
      "map fst us = rest"
    using assms by (auto simp: predicate_tokens_def map_eq_Cons_conv)
  have "parse_op F eof ((TIdent (op_word (pd_op p)), b) # vs) = Inr (pd_op p, vs)" for vs
    by (cases "pd_op p") simp_all
  moreover have "parse_literal F eof ((literal_token (pd_value p), c) # us) = Inr (pd_value p, us)"
    by (cases "pd_value p") simp_all
  ultimately have "parse_predicate F eof ts = Inr (p, us)"
    by (simp add: ts parse_predicate_def p_bind_def p_map_def)
  then show ?thesis using ts(2) by blast
qed

text \<open>What can follow the predicates or a clause: the end, or the keyword of a clause.\<close>

definition later_keywords :: "string list" where
  "later_keywords = [''FROM'', ''SEMANTIC'', ''VIA'', ''DEPTH'', ''RETURN'', ''ORDER'', ''AS'', ''COUNT'', ''GROUP'']"

definition follows :: "string list \<Rightarrow> 'f token list \<Rightarrow> bool" where
  "follows kws rest \<longleftrightarrow> rest = [] \<or> (\<exists>w \<in> set kws. hd rest = TIdent w)"

lemma follows_peek:
  assumes "follows kws (map fst ts)" "\<forall>w \<in> set kws. \<not> eq_ignore_ascii_case w kw"
  shows "\<not> peek_keyword kw ts"
proof (cases ts)
  case (Cons x us)
  then show ?thesis using assms by (cases x) (auto simp: follows_def)
qed simp

lemma follows_no_comma: "follows kws (map fst ts) \<Longrightarrow> parse_idents F eof ts = Inr ([], ts)"
  by (cases "(F, eof, ts)" rule: parse_idents.cases) (auto simp: follows_def)

lemma parse_and_read:
  "map fst ts = concat (map (\<lambda>q. TIdent ''AND'' # predicate_tokens q) qs) @ rest \<Longrightarrow>
     follows (''LIMIT'' # later_keywords) rest \<Longrightarrow>
     \<exists>us. map fst us = rest \<and> parse_and F eof ts = Inr (qs, us)"
proof (induction qs arbitrary: ts)
  case Nil
  have "\<not> peek_keyword ''AND'' ts"
    by (rule follows_peek [of "''LIMIT'' # later_keywords"])
       (use Nil in \<open>simp_all add: later_keywords_def eq_ignore_ascii_case_def lower_def ascii_lower_def is_ascii_upper_def\<close>)
  then show ?case using Nil by (subst parse_and.simps) simp
next
  case (Cons q qs)
  obtain a vs where ts: "ts = (TIdent ''AND'', a) # vs"
      "map fst vs = predicate_tokens q @ concat (map (\<lambda>q. TIdent ''AND'' # predicate_tokens q) qs) @ rest"
    using Cons.prems(1) by (auto simp: map_eq_Cons_conv)
  obtain ws where ws: "map fst ws = concat (map (\<lambda>q. TIdent ''AND'' # predicate_tokens q) qs) @ rest"
      "parse_predicate F eof vs = Inr (q, ws)"
    using parse_predicate_read [OF ts(2), of F eof] by blast
  obtain us where us: "map fst us = rest" "parse_and F eof ws = Inr (qs, us)"
    using Cons.IH [OF ws(1) Cons.prems(2)] by blast
  have "parse_and F eof ts = Inr (q # qs, us)"
    using ts(1) ws(2) us(2) by (subst parse_and.simps) (simp add: p_map_def p_bind_def)
  then show ?case using us(1) by blast
qed

lemma parse_where_read:
  assumes "map fst ts = where_tokens ps @ rest" "follows (''LIMIT'' # later_keywords) rest"
  shows "\<exists>us. map fst us = rest \<and> parse_where F eof ts = Inr (ps, us)"
proof (cases ps)
  case Nil
  have "\<not> peek_keyword ''WHERE'' ts"
    by (rule follows_peek [of "''LIMIT'' # later_keywords"])
       (use Nil assms in \<open>simp_all add: where_tokens_def later_keywords_def eq_ignore_ascii_case_def lower_def
          ascii_lower_def is_ascii_upper_def\<close>)
  then show ?thesis using Nil assms(1) by (simp add: parse_where_def where_tokens_def)
next
  case (Cons p qs)
  obtain a vs where ts: "ts = (TIdent ''WHERE'', a) # vs"
      "map fst vs = predicate_tokens p @ concat (map (\<lambda>q. TIdent ''AND'' # predicate_tokens q) qs) @ rest"
    using assms(1) Cons by (auto simp: where_tokens_def map_eq_Cons_conv)
  obtain ws where ws: "map fst ws = concat (map (\<lambda>q. TIdent ''AND'' # predicate_tokens q) qs) @ rest"
      "parse_predicate F eof vs = Inr (p, ws)"
    using parse_predicate_read [OF ts(2), of F eof] by blast
  obtain us where us: "map fst us = rest" "parse_and F eof ws = Inr (qs, us)"
    using parse_and_read [OF ws(1) assms(2)] by blast
  have "parse_where F eof ts = Inr (ps, us)"
    using ts(1) ws(2) us(2) Cons by (simp add: parse_where_def p_map_def p_bind_def)
  then show ?thesis using us(1) by blast
qed

section \<open>Reading clauses\<close>

lemma upper_keyword:
  "list_all is_ascii_upper w \<Longrightarrow> list_all is_ascii_upper k \<Longrightarrow> eq_ignore_ascii_case w k \<longleftrightarrow> w = k"
proof -
  assume w: "list_all is_ascii_upper w" and k: "list_all is_ascii_upper k"
  have inj: "inj_on ascii_lower (Collect is_ascii_upper)"
  proof (rule inj_onI)
    fix x y assume xy: "x \<in> Collect is_ascii_upper" "y \<in> Collect is_ascii_upper" "ascii_lower x = ascii_lower y"
    then have "(of_char x :: nat) \<le> 90" "(of_char y :: nat) \<le> 90" by (simp_all add: is_ascii_upper_def less_eq_char_def)
    then have "(of_char x :: nat) = of_char y" using xy by (simp add: ascii_lower_def)
    then show "x = y" by simp
  qed
  have "map ascii_lower w = map ascii_lower k \<longleftrightarrow> w = k"
    by (rule inj_on_map_eq_map [OF inj_on_subset [OF inj]]) (use w k in \<open>auto simp: list_all_iff\<close>)
  then show ?thesis by (simp add: eq_ignore_ascii_case_def lower_def)
qed

lemmas case_words = upper_keyword is_ascii_upper_def

text \<open>What each keyword leads.\<close>

lemma clause_of_keyword:
  "parse_clause F R eof a ((TIdent ''LIMIT'', p) # ts) =
     p_map (\<lambda>x. (a\<lparr>ea_limit := Some (f_to_u64 F x)\<rparr>, True)) (expect_num F eof ts)"
  "parse_clause F R eof a ((TIdent ''FROM'', p) # ts) = p_map (\<lambda>s. (a\<lparr>ea_from := Some s\<rparr>, True)) (expect_string F eof ts)"
  "parse_clause F R eof a ((TIdent ''VIA'', p) # ts) = p_map (\<lambda>s. (a\<lparr>ea_via := Some s\<rparr>, True)) (expect_ident F eof ts)"
  "parse_clause F R eof a ((TIdent ''DEPTH'', p) # ts) =
     p_map (\<lambda>x. (a\<lparr>ea_depth := Some (f_to_u32 F x)\<rparr>, True)) (expect_num F eof ts)"
  "parse_clause F R eof a ((TIdent ''COUNT'', p) # ts) = Inr ((a\<lparr>ea_count := True\<rparr>, True), ts)"
  by (simp_all add: parse_clause_def case_words)

lemma clause_of_keyword2:
  "parse_clause F R eof a ((TIdent ''SEMANTIC'', p) # ts) =
     p_bind (expect_string F eof ts) (\<lambda>s us.
          if peek_keyword ''LIMIT'' us
          then p_map (\<lambda>x. (a\<lparr>ea_semantic := Some s, ea_limit := Some (f_to_u64 F x)\<rparr>, True)) (expect_num F eof (tl us))
          else Inr ((a\<lparr>ea_semantic := Some s\<rparr>, True), us))"
  "parse_clause F R eof a ((TIdent ''RETURN'', p) # ts) =
     p_bind (expect_ident F eof ts) (\<lambda>s us.
          p_map (\<lambda>ss. (a\<lparr>ea_returns := ea_returns a @ s # ss\<rparr>, True)) (parse_idents F eof us))"
  "parse_clause F R eof a ((TIdent ''ORDER'', p) # (TIdent ''BY'', q) # ts) =
     p_bind (expect_ident F eof ts) (\<lambda>s vs.
          case parse_direction vs of (d, ws) \<Rightarrow> Inr ((a\<lparr>ea_order_by := Some (s, d)\<rparr>, True), ws))"
  "parse_clause F R eof a ((TIdent ''AS'', p) # (TIdent ''OF'', q) # ts) =
     p_map (\<lambda>t. (a\<lparr>ea_as_of := Some t\<rparr>, True)) (parse_timestamp F R eof ts)"
  "parse_clause F R eof a ((TIdent ''GROUP'', p) # (TIdent ''BY'', q) # ts) =
     p_map (\<lambda>s. (a\<lparr>ea_group_by := Some s\<rparr>, True)) (expect_ident F eof ts)"
  by (simp_all add: parse_clause_def case_words p_bind_def)

definition clauses_read ::
  "'f f64_ops \<Rightarrow> (string \<Rightarrow> string + int) \<Rightarrow> nat \<Rightarrow> 'f ekl_ast \<Rightarrow> 'f token list \<Rightarrow> 'f ekl_ast \<Rightarrow> bool" where
  "clauses_read F R eof a toks b \<longleftrightarrow>
     (\<forall>(ts :: 'f tokens) rest. map fst ts = toks @ rest \<longrightarrow> follows later_keywords rest \<longrightarrow>
        (\<exists>us. map fst us = rest \<and> parse_clauses F R eof a ts = parse_clauses F R eof b us))"

lemma clauses_read_Nil: "clauses_read F R eof a [] a"
  by (auto simp: clauses_read_def)

lemma clauses_read_append:
  assumes "clauses_read F R eof a t1 b" "clauses_read F R eof b t2 c" "follows later_keywords t2"
  shows "clauses_read F R eof a (t1 @ t2) c"
  unfolding clauses_read_def
proof (intro allI impI)
  fix ts :: "'a tokens" and rest assume ts: "map fst ts = (t1 @ t2) @ rest" and rest: "follows later_keywords rest"
  have "follows later_keywords (t2 @ rest)" using assms(3) rest by (cases t2) (auto simp: follows_def)
  then obtain us where us: "map fst us = t2 @ rest" "parse_clauses F R eof a ts = parse_clauses F R eof b us"
    using assms(1) ts unfolding clauses_read_def by (metis append.assoc)
  then show "\<exists>us. map fst us = rest \<and> parse_clauses F R eof a ts = parse_clauses F R eof c us"
    using assms(2) rest unfolding clauses_read_def by metis
qed

lemma clauses_readI:
  fixes toks :: "'f token list"
  assumes "\<And>(ts :: 'f tokens) rest. map fst ts = toks @ rest \<Longrightarrow> follows later_keywords rest \<Longrightarrow>
      \<exists>us. map fst us = rest \<and> parse_clause F R eof a ts = Inr ((b, True), us)"
  shows "clauses_read F R eof a toks b"
  unfolding clauses_read_def
proof (intro allI impI)
  fix ts :: "'f tokens" and rest assume "map fst ts = toks @ rest" "follows later_keywords rest"
  then obtain us where "map fst us = rest" "parse_clause F R eof a ts = Inr ((b, True), us)" using assms by blast
  then show "\<exists>us. map fst us = rest \<and> parse_clauses F R eof a ts = parse_clauses F R eof b us"
    by (auto simp: parse_clauses.simps [of F R eof a ts])
qed

lemma read_simple_clauses:
  "clauses_read F R eof a [TIdent ''LIMIT'', TNum x] (a\<lparr>ea_limit := Some (f_to_u64 F x)\<rparr>)"
  "clauses_read F R eof a [TIdent ''FROM'', TStr s] (a\<lparr>ea_from := Some s\<rparr>)"
  "clauses_read F R eof a [TIdent ''VIA'', TIdent s] (a\<lparr>ea_via := Some s\<rparr>)"
  "clauses_read F R eof a [TIdent ''DEPTH'', TNum x] (a\<lparr>ea_depth := Some (f_to_u32 F x)\<rparr>)"
  "clauses_read F R eof a [TIdent ''COUNT''] (a\<lparr>ea_count := True\<rparr>)"
  "clauses_read F R eof a [TIdent ''GROUP'', TIdent ''BY'', TIdent s] (a\<lparr>ea_group_by := Some s\<rparr>)"
  by (rule clauses_readI, auto simp: map_eq_Cons_conv clause_of_keyword clause_of_keyword2 p_map_def p_bind_def)+

lemma read_order:
  "clauses_read F R eof a [TIdent ''ORDER'', TIdent ''BY'', TIdent s, TIdent (order_word d)] (a\<lparr>ea_order_by := Some (s, d)\<rparr>)"
proof -
  have "parse_direction ((TIdent (order_word d), p) # us) = (d, us)" for p and us :: "'a tokens"
    by (cases d) (simp_all add: parse_direction_def order_word_def case_words)
  then show ?thesis by (intro clauses_readI) (auto simp: map_eq_Cons_conv clause_of_keyword2 p_bind_def)
qed

lemma read_semantic: "clauses_read F R eof a [TIdent ''SEMANTIC'', TStr s] (a\<lparr>ea_semantic := Some s\<rparr>)"
proof (rule clauses_readI)
  fix ts :: "'a tokens" and rest assume ts: "map fst ts = [TIdent ''SEMANTIC'', TStr s] @ rest" "follows later_keywords rest"
  then obtain p q us where us: "ts = (TIdent ''SEMANTIC'', p) # (TStr s, q) # us" "map fst us = rest"
    by (auto simp: map_eq_Cons_conv)
  have "\<not> peek_keyword ''LIMIT'' us"
    by (rule follows_peek [of later_keywords]) (use ts(2) us(2) in \<open>simp_all add: later_keywords_def case_words\<close>)
  then have "parse_clause F R eof a ts = Inr ((a\<lparr>ea_semantic := Some s\<rparr>, True), us)"
    by (simp add: us(1) clause_of_keyword2 p_bind_def)
  then show "\<exists>us. map fst us = rest \<and> parse_clause F R eof a ts = Inr ((a\<lparr>ea_semantic := Some s\<rparr>, True), us)"
    using us(2) by blast
qed

lemma read_as_of:
  "R w = Inr t \<Longrightarrow> clauses_read F R eof a [TIdent ''AS'', TIdent ''OF'', TStr w] (a\<lparr>ea_as_of := Some t\<rparr>)"
  by (rule clauses_readI) (auto simp: map_eq_Cons_conv clause_of_keyword2 p_map_def p_bind_def parse_timestamp_def)

lemma parse_idents_read:
  "map fst ts = concat (map (\<lambda>r. [TComma, TIdent r]) rs) @ rest \<Longrightarrow> follows later_keywords rest \<Longrightarrow>
     \<exists>us. map fst us = rest \<and> parse_idents F eof ts = Inr (rs, us)"
proof (induction rs arbitrary: ts)
  case Nil
  then show ?case using follows_no_comma [of later_keywords ts F eof] by auto
next
  case (Cons r rs)
  obtain p q vs where vs: "ts = (TComma, p) # (TIdent r, q) # vs" "map fst vs = concat (map (\<lambda>r. [TComma, TIdent r]) rs) @ rest"
    using Cons.prems(1) by (auto simp: map_eq_Cons_conv)
  obtain us where "map fst us = rest" "parse_idents F eof vs = Inr (rs, us)" using Cons.IH [OF vs(2) Cons.prems(2)] by blast
  then show ?case by (auto simp: vs(1) p_map_def p_bind_def)
qed

lemma read_return:
  "clauses_read F R eof a (return_tokens ss) (a\<lparr>ea_returns := ea_returns a @ ss\<rparr>)"
proof (cases ss)
  case Nil
  then show ?thesis by (simp add: return_tokens_def clauses_read_Nil)
next
  case (Cons s rs)
  show ?thesis
  proof (rule clauses_readI)
    fix ts :: "'a tokens" and rest assume ts: "map fst ts = return_tokens ss @ rest" "follows later_keywords rest"
    then obtain p q vs where vs: "ts = (TIdent ''RETURN'', p) # (TIdent s, q) # vs"
        "map fst vs = concat (map (\<lambda>r. [TComma, TIdent r]) rs) @ rest"
      by (auto simp: return_tokens_def Cons map_eq_Cons_conv)
    obtain us where "map fst us = rest" "parse_idents F eof vs = Inr (rs, us)"
      using parse_idents_read [OF vs(2) ts(2)] by blast
    then show "\<exists>us. map fst us = rest \<and>
        parse_clause F R eof a ts = Inr ((a\<lparr>ea_returns := ea_returns a @ ss\<rparr>, True), us)"
      by (auto simp: vs(1) Cons clause_of_keyword2 p_map_def p_bind_def)
  qed
qed

lemma read_opt:
  "(\<And>y. x = Some y \<Longrightarrow> clauses_read F R eof a (f y) (u y)) \<Longrightarrow>
     clauses_read F R eof a (opt_tokens f x) (case x of None \<Rightarrow> a | Some y \<Rightarrow> u y)"
  by (cases x) (simp_all add: opt_tokens_def clauses_read_Nil)

lemma follows_opt:
  "(\<And>y. follows kws (f y)) \<Longrightarrow> follows kws rest \<Longrightarrow> follows kws (opt_tokens f x @ rest)"
  by (cases x) (auto simp: opt_tokens_def follows_def hd_append)

lemma follows_Nil: "follows kws []"
  by (simp add: follows_def)

lemma follows_app: "follows kws a \<Longrightarrow> follows kws b \<Longrightarrow> follows kws (a @ b)"
  by (cases a) (auto simp: follows_def)

text \<open>The tree read so far, after each clause.\<close>

definition printable :: "'f f64_ops \<Rightarrow> (string \<Rightarrow> string + int) \<Rightarrow> (nat \<Rightarrow> 'f) \<Rightarrow> (int \<Rightarrow> string) \<Rightarrow> 'f ekl_ast \<Rightarrow> bool" where
  "printable F R num show_ts ast \<longleftrightarrow>
     (\<forall>t \<in> set (query_tokens num show_ts ast). token_ok F t (token_text F t)) \<and>
     (\<forall>k. ea_limit ast = Some k \<longrightarrow> f_to_u64 F (num k) = k) \<and>
     (\<forall>k. ea_depth ast = Some k \<longrightarrow> f_to_u32 F (num k) = k) \<and>
     (\<forall>t. ea_as_of ast = Some t \<longrightarrow> R (show_ts t) = Inr t)"

lemma follows_clauses:
  "follows later_keywords (opt_tokens (\<lambda>s. TIdent ''FROM'' # f s) x)"
  "follows later_keywords (opt_tokens (\<lambda>s. TIdent ''SEMANTIC'' # f s) x)"
  "follows later_keywords (opt_tokens (\<lambda>s. TIdent ''VIA'' # f s) x)"
  "follows later_keywords (opt_tokens (\<lambda>s. TIdent ''DEPTH'' # f s) x)"
  "follows later_keywords (return_tokens ss)"
  "follows later_keywords (opt_tokens (\<lambda>(s, d). TIdent ''ORDER'' # g s d) y)"
  "follows later_keywords (opt_tokens (\<lambda>s. TIdent ''AS'' # f s) x)"
  "follows later_keywords (if b then [TIdent ''COUNT''] else [])"
  "follows later_keywords (opt_tokens (\<lambda>s. TIdent ''GROUP'' # f s) x)"
  by (simp_all add: opt_tokens_def return_tokens_def follows_def later_keywords_def split: option.splits list.splits)

lemma read_limit: "f_to_u64 F x = k \<Longrightarrow> clauses_read F R eof a [TIdent ''LIMIT'', TNum x] (a\<lparr>ea_limit := Some k\<rparr>)"
  using read_simple_clauses(1) [of F R eof a x] by simp

lemma read_depth: "f_to_u32 F x = k \<Longrightarrow> clauses_read F R eof a [TIdent ''DEPTH'', TNum x] (a\<lparr>ea_depth := Some k\<rparr>)"
  using read_simple_clauses(4) [of F R eof a x] by simp

lemma opt_update:
  "ea_limit a = None \<Longrightarrow> (case k of None \<Rightarrow> a | Some y \<Rightarrow> a\<lparr>ea_limit := Some y\<rparr>) = a\<lparr>ea_limit := k\<rparr>"
  "ea_depth a = None \<Longrightarrow> (case k of None \<Rightarrow> a | Some y \<Rightarrow> a\<lparr>ea_depth := Some y\<rparr>) = a\<lparr>ea_depth := k\<rparr>"
  "ea_from a = None \<Longrightarrow> (case s of None \<Rightarrow> a | Some y \<Rightarrow> a\<lparr>ea_from := Some y\<rparr>) = a\<lparr>ea_from := s\<rparr>"
  "ea_semantic a = None \<Longrightarrow> (case s of None \<Rightarrow> a | Some y \<Rightarrow> a\<lparr>ea_semantic := Some y\<rparr>) = a\<lparr>ea_semantic := s\<rparr>"
  "ea_via a = None \<Longrightarrow> (case s of None \<Rightarrow> a | Some y \<Rightarrow> a\<lparr>ea_via := Some y\<rparr>) = a\<lparr>ea_via := s\<rparr>"
  "ea_group_by a = None \<Longrightarrow> (case s of None \<Rightarrow> a | Some y \<Rightarrow> a\<lparr>ea_group_by := Some y\<rparr>) = a\<lparr>ea_group_by := s\<rparr>"
  "ea_as_of a = None \<Longrightarrow> (case t of None \<Rightarrow> a | Some y \<Rightarrow> a\<lparr>ea_as_of := Some y\<rparr>) = a\<lparr>ea_as_of := t\<rparr>"
  "ea_order_by a = None \<Longrightarrow> (case od of None \<Rightarrow> a | Some y \<Rightarrow> a\<lparr>ea_order_by := Some y\<rparr>) = a\<lparr>ea_order_by := od\<rparr>"
  "\<not> ea_count a \<Longrightarrow> (if b then a\<lparr>ea_count := True\<rparr> else a) = a\<lparr>ea_count := b\<rparr>"
  by (cases a; simp split: option.splits)+

lemma clause_tokens_read:
  assumes "printable F R num show_ts ast"
  shows "clauses_read F R eof ((ekl_ast_new (ea_entity ast))\<lparr>ea_predicates := ea_predicates ast\<rparr>)
    (clause_tokens num show_ts ast) ast"
proof -
  let ?a0 = "(ekl_ast_new (ea_entity ast))\<lparr>ea_predicates := ea_predicates ast\<rparr>"
  define a1 where "a1 = ?a0\<lparr>ea_limit := ea_limit ast\<rparr>"
  define a2 where "a2 = a1\<lparr>ea_from := ea_from ast\<rparr>"
  define a3 where "a3 = a2\<lparr>ea_semantic := ea_semantic ast\<rparr>"
  define a4 where "a4 = a3\<lparr>ea_via := ea_via ast\<rparr>"
  define a5 where "a5 = a4\<lparr>ea_depth := ea_depth ast\<rparr>"
  define a6 where "a6 = a5\<lparr>ea_returns := ea_returns a5 @ ea_returns ast\<rparr>"
  define a7 where "a7 = a6\<lparr>ea_order_by := ea_order_by ast\<rparr>"
  define a8 where "a8 = a7\<lparr>ea_as_of := ea_as_of ast\<rparr>"
  define a9 where "a9 = a8\<lparr>ea_count := ea_count ast\<rparr>"
  note a_defs = a9_def a8_def a7_def a6_def a5_def a4_def a3_def a2_def a1_def ekl_ast_new_def
  have final: "a9\<lparr>ea_group_by := ea_group_by ast\<rparr> = ast" by (simp add: a_defs)
  note upd = opt_update [symmetric]
  have s1: "clauses_read F R eof ?a0 (opt_tokens (\<lambda>k. [TIdent ''LIMIT'', TNum (num k)]) (ea_limit ast)) a1"
    unfolding a1_def
    by (subst upd(1), simp add: ekl_ast_new_def, rule read_opt, rule read_limit) (use assms in \<open>simp add: printable_def\<close>)
  have s2: "clauses_read F R eof a1 (opt_tokens (\<lambda>s. [TIdent ''FROM'', TStr s]) (ea_from ast)) a2"
    unfolding a2_def by (subst upd(3), simp add: a_defs, rule read_opt, rule read_simple_clauses)
  have s3: "clauses_read F R eof a2 (opt_tokens (\<lambda>s. [TIdent ''SEMANTIC'', TStr s]) (ea_semantic ast)) a3"
    unfolding a3_def by (subst upd(4), simp add: a_defs, rule read_opt, rule read_semantic)
  have s4: "clauses_read F R eof a3 (opt_tokens (\<lambda>s. [TIdent ''VIA'', TIdent s]) (ea_via ast)) a4"
    unfolding a4_def by (subst upd(5), simp add: a_defs, rule read_opt, rule read_simple_clauses)
  have s5: "clauses_read F R eof a4 (opt_tokens (\<lambda>k. [TIdent ''DEPTH'', TNum (num k)]) (ea_depth ast)) a5"
    unfolding a5_def
    by (subst upd(2), simp add: a_defs, rule read_opt, rule read_depth) (use assms in \<open>simp add: printable_def\<close>)
  have s6: "clauses_read F R eof a5 (return_tokens (ea_returns ast)) a6" unfolding a6_def by (rule read_return)
  have s7: "clauses_read F R eof a6
      (opt_tokens (\<lambda>(s, d). [TIdent ''ORDER'', TIdent ''BY'', TIdent s, TIdent (order_word d)]) (ea_order_by ast)) a7"
    unfolding a7_def by (subst upd(8), simp add: a_defs, rule read_opt) (auto intro: read_order)
  have s8: "clauses_read F R eof a7 (opt_tokens (\<lambda>t. [TIdent ''AS'', TIdent ''OF'', TStr (show_ts t)]) (ea_as_of ast)) a8"
    unfolding a8_def
    by (subst upd(7), simp add: a_defs, rule read_opt, rule read_as_of) (use assms in \<open>simp add: printable_def\<close>)
  have s9: "clauses_read F R eof a8 (if ea_count ast then [TIdent ''COUNT''] else []) a9"
    unfolding a9_def by (subst upd(9), simp add: a_defs) (simp add: read_simple_clauses clauses_read_Nil)
  have "clauses_read F R eof a9 (opt_tokens (\<lambda>s. [TIdent ''GROUP'', TIdent ''BY'', TIdent s]) (ea_group_by ast))
      (a9\<lparr>ea_group_by := ea_group_by ast\<rparr>)"
    by (subst upd(6), simp add: a_defs, rule read_opt, rule read_simple_clauses)
  then have s10: "clauses_read F R eof a9 (opt_tokens (\<lambda>s. [TIdent ''GROUP'', TIdent ''BY'', TIdent s]) (ea_group_by ast)) ast"
    by (simp only: final)
  show ?thesis
    unfolding clause_tokens_def
    by (rule clauses_read_append [OF s1], rule clauses_read_append [OF s2], rule clauses_read_append [OF s3],
        rule clauses_read_append [OF s4], rule clauses_read_append [OF s5], rule clauses_read_append [OF s6],
        rule clauses_read_append [OF s7], rule clauses_read_append [OF s8], rule clauses_read_append [OF s9 s10])
      (intro follows_app follows_clauses)+
qed

section \<open>The round trip\<close>

lemma parse_query_read:
  assumes "printable F R num show_ts ast" "incompatible_clauses ast = None" "map fst ts = query_tokens num show_ts ast"
  shows "\<exists>us. parse_query F R eof ts = Inr (ast, us)"
proof -
  obtain p q vs where ts: "ts = (TIdent ''FIND'', p) # (TIdent (entity_word (ea_entity ast)), q) # vs"
      "map fst vs = where_tokens (ea_predicates ast) @ clause_tokens num show_ts ast"
    using assms(3) by (auto simp: query_tokens_def map_eq_Cons_conv)
  have entity: "parse_entity F eof ((TIdent (entity_word (ea_entity ast)), q) # vs) = Inr (ea_entity ast, vs)"
    by (cases "ea_entity ast")
      (simp_all add: parse_entity_def p_bind_def eq_ignore_ascii_case_def lower_def ascii_lower_def is_ascii_upper_def)
  have weak: "follows later_keywords toks \<Longrightarrow> follows (''LIMIT'' # later_keywords) toks" for toks :: "'a token list"
    by (auto simp: follows_def)
  have flw: "follows (''LIMIT'' # later_keywords) (clause_tokens num show_ts ast)"
    unfolding clause_tokens_def
    by (rule follows_app, simp add: opt_tokens_def follows_def split: option.splits,
        rule weak, (intro follows_app follows_clauses)+)
  obtain ws where ws: "map fst ws = clause_tokens num show_ts ast" "parse_where F eof vs = Inr (ea_predicates ast, ws)"
    using parse_where_read [OF ts(2) flw] by blast
  let ?a0 = "(ekl_ast_new (ea_entity ast))\<lparr>ea_predicates := ea_predicates ast\<rparr>"
  have "follows later_keywords []" "map fst ws = clause_tokens num show_ts ast @ []" using ws(1) by (simp_all add: follows_def)
  then obtain us where us: "map fst us = []" "parse_clauses F R eof ?a0 ws = parse_clauses F R eof ast us"
    using clause_tokens_read [OF assms(1), of eof, unfolded clauses_read_def, rule_format, of ws "[]"] by blast
  have "parse_clause F R eof ast [] = Inr ((ast, False), [])" by (rule parse_clause_none) simp
  then have "parse_clauses F R eof ?a0 ws = Inr (ast, [])" using us by (simp add: parse_clauses.simps [of F R eof ast "[]"])
  then have "parse_query F R eof ts = Inr (ast, [])"
    using ts(1) entity ws(2) assms(2) by (simp add: parse_query_def p_bind_def)
  then show ?thesis by blast
qed

text \<open>
  C19: Every query tree has a text the parser reads as that tree.  The text is that of \<open>ekl_text\<close>, a reference
  printer of this theory (the program has none).  The tree may have any predicates, columns, order, limit and
  the rest, provided its clauses can be used together, its names are words of the language, its strings plain
  ASCII without quotes and its numbers exact; for other strings see \<open>read_string_not_ascii\<close>.
\<close>

theorem ekl_round_trip:
  assumes "printable F R num show_ts ast" "incompatible_clauses ast = None"
  shows "ekl_parse F R (ekl_text F num show_ts ast) = Some (Inr ast)"
proof -
  have "list_all2 (token_ok F) (query_tokens num show_ts ast) (map (token_text F) (query_tokens num show_ts ast))"
    using assms(1) by (simp add: printable_def list_all2_conv_all_nth)
  from tokenize_text [OF this, of "length (ekl_text F num show_ts ast)"]
  obtain ts where ts: "tokenize F (length (ekl_text F num show_ts ast)) (ekl_text F num show_ts ast) = Some (Inr ts)"
      "map fst ts = query_tokens num show_ts ast"
    by (auto simp: ekl_text_def comp_def)
  then show ?thesis using parse_query_read [OF assms ts(2), of "end_pos ts"] by (auto simp: ekl_parse_def)
qed

text \<open>Numbers as naturals in decimal.\<close>

definition nat_ops :: "nat f64_ops" where
  "nat_ops = \<lparr>f_parse = \<lambda>s. if digits s \<and> s \<noteq> [] then Some (nat_val s) else None, f_show = show_nat,
     f_to_u64 = id, f_to_u32 = id\<rparr>"

definition sample_query :: "nat ekl_ast" where
  "sample_query = (ekl_ast_new EObject)
     \<lparr>ea_predicates := [\<lparr>pd_field = ''kind'', pd_op = OpEq, pd_value = LStr ''Table''\<rparr>,
                       \<lparr>pd_field = ''a.b'', pd_op = OpGe, pd_value = LNum 7\<rparr>],
      ea_returns := [''name'', ''desc''], ea_order_by := Some (''name'', Desc), ea_limit := Some 5\<rparr>"

lemma sample_digits: "show_nat 7 = ''7''" "show_nat 5 = ''5''"
  by code_simp+

lemma sample_printable: "printable nat_ops (\<lambda>_. Inl []) id (\<lambda>_. []) sample_query"
  by (simp add: sample_digits printable_def sample_query_def ekl_ast_new_def query_tokens_def where_tokens_def predicate_tokens_def
      clause_tokens_def opt_tokens_def return_tokens_def order_word_def nat_ops_def ident_word_def is_word_def
      is_ascii_alphabetic_def is_digit_def is_number_byte_def symbol_ops_def ascii_def nat_val_def)

theorem ekl_round_trip_witness:
  "ekl_parse nat_ops (\<lambda>_. Inl []) (ekl_text nat_ops id (\<lambda>_. []) sample_query) = Some (Inr sample_query)"
  by (rule ekl_round_trip [OF sample_printable]) (simp add: sample_query_def ekl_ast_new_def incompatible_clauses_def)

theorem ekl_parse_total_witness:
  "(\<exists>ast. ekl_parse nat_ops (\<lambda>_. Inl []) ''FIND Object WHERE'' = Some (Inr ast) \<and> incompatible_clauses ast = None) \<or>
   (\<exists>e. ekl_parse nat_ops (\<lambda>_. Inl []) ''FIND Object WHERE'' = Some (Inl e) \<and> pe_position e \<le> 17)"
  using ekl_parse_total [of "''FIND Object WHERE''" nat_ops "\<lambda>_. Inl []"]
  by (simp add: utf8.simps numeral_eq_Suc)

text \<open>
  A string literal is not kept as written when it is not ASCII: each byte becomes a character of its
  own, so an e with an acute accent (two bytes) reads as two characters (four bytes).
\<close>

lemma read_string_not_ascii:
  "read_string [CHR 0xC3, CHR 0xA9, CHR 0x27] = Some ([CHR 0xC3, CHR 0x83, CHR 0xC2, CHR 0xA9], [])"
  by code_simp

end
