(* ===== verification/Ekl_Interpreter.thy ===== *)
theory Ekl_Interpreter
  imports Ekl_Parser Runtime_Graph
begin

text \<open>
  The interpreter of the query language (\<open>interpreter.rs\<close>): candidate rows from the runtime, predicates,
  counting and grouping, sorting and projection.  A row (\<open>HashMap<String, Value>\<close>) is a map.  \<open>f64\<close>
  comparisons and the JSON text of a value are parameters.  \<open>sort_by\<close> is a stable insertion sort; where
  the comparison is no total order Rust leaves the order open and may panic.
\<close>

section \<open>Values\<close>

record ('n, 'f) num_ops =
  no_as_f64 :: "'n \<Rightarrow> 'f option"
  no_eq :: "'f \<Rightarrow> 'f \<Rightarrow> bool"
  no_lt :: "'f \<Rightarrow> 'f \<Rightarrow> bool"
  no_of_nat :: "nat \<Rightarrow> 'n"
  no_json_text :: "'n json \<Rightarrow> string"

definition no_le :: "('n, 'f) num_ops \<Rightarrow> 'f \<Rightarrow> 'f \<Rightarrow> bool" where
  "no_le M x y \<longleftrightarrow> no_lt M x y \<or> no_eq M x y"

type_synonym 'n ekl_row = "string \<rightharpoonup> 'n json"

datatype ekl_error =
    ERuntime ledger_error
  | AnchorNotFound string
  | AsOfWithFromUnsupported
  | UnknownField string string string

fun value_to_string :: "('n, 'f) num_ops \<Rightarrow> 'n json \<Rightarrow> string" where
  "value_to_string M (JString s) = s"
| "value_to_string M (JArray vs) = join_with '','' (map (value_to_string M) vs)"
| "value_to_string M JNull = []"
| "value_to_string M v = no_json_text M v"

fun value_as_f64 :: "'f f64_ops \<Rightarrow> ('n, 'f) num_ops \<Rightarrow> 'n json \<Rightarrow> 'f option" where
  "value_as_f64 F M (JNumber n) = no_as_f64 M n"
| "value_as_f64 F M (JString s) = f_parse F s"
| "value_as_f64 F M _ = None"

fun literal_as_f64 :: "'f f64_ops \<Rightarrow> 'f literal \<Rightarrow> 'f option" where
  "literal_as_f64 F (LNum x) = Some x"
| "literal_as_f64 F (LStr s) = f_parse F s"

fun literal_to_string :: "'f f64_ops \<Rightarrow> 'f literal \<Rightarrow> string" where
  "literal_to_string F (LStr s) = s"
| "literal_to_string F (LNum x) = f_show F x"

fun value_eq :: "'f f64_ops \<Rightarrow> ('n, 'f) num_ops \<Rightarrow> 'n json \<Rightarrow> 'f literal \<Rightarrow> bool" where
  "value_eq F M v (LStr s) \<longleftrightarrow> value_to_string M v = s"
| "value_eq F M v (LNum x) \<longleftrightarrow> (case value_as_f64 F M v of None \<Rightarrow> False | Some y \<Rightarrow> no_eq M y x)"

definition str_contains :: "string \<Rightarrow> string \<Rightarrow> bool" where
  "str_contains s p = list_ex (\<lambda>i. starts_with (drop i s) p) [0..<Suc (length s)]"

definition num_compare ::
  "'f f64_ops \<Rightarrow> ('n, 'f) num_ops \<Rightarrow> ('f \<Rightarrow> 'f \<Rightarrow> bool) \<Rightarrow> 'n json \<Rightarrow> 'f literal \<Rightarrow> bool" where
  "num_compare F M rel v lit =
     (case (value_as_f64 F M v, literal_as_f64 F lit) of (Some a, Some b) \<Rightarrow> rel a b | _ \<Rightarrow> False)"

definition eval_predicate :: "'f f64_ops \<Rightarrow> ('n, 'f) num_ops \<Rightarrow> 'n ekl_row \<Rightarrow> 'f predicate \<Rightarrow> bool" where
  "eval_predicate F M row p =
     (case row (pd_field p) of
        None \<Rightarrow> False
      | Some v \<Rightarrow>
          (case pd_op p of
             OpEq \<Rightarrow> value_eq F M v (pd_value p)
           | OpNe \<Rightarrow> \<not> value_eq F M v (pd_value p)
           | OpContains \<Rightarrow> str_contains (value_to_string M v) (literal_to_string F (pd_value p))
           | OpGt \<Rightarrow> num_compare F M (\<lambda>a b. no_lt M b a) v (pd_value p)
           | OpLt \<Rightarrow> num_compare F M (no_lt M) v (pd_value p)
           | OpGe \<Rightarrow> num_compare F M (\<lambda>a b. no_le M b a) v (pd_value p)
           | OpLe \<Rightarrow> num_compare F M (no_le M) v (pd_value p)))"

section \<open>Ordering\<close>

datatype ordering = Less | Equal | Greater

fun reverse_ordering :: "ordering \<Rightarrow> ordering" where
  "reverse_ordering Less = Greater"
| "reverse_ordering Equal = Equal"
| "reverse_ordering Greater = Less"

definition cmp_linorder :: "'a::linorder \<Rightarrow> 'a \<Rightarrow> ordering" where
  "cmp_linorder x y = (if x < y then Less else if x = y then Equal else Greater)"

text \<open>\<open>Option<f64>::partial_cmp\<close> with \<open>unwrap_or(Equal)\<close>.\<close>

fun cmp_f64 :: "('n, 'f) num_ops \<Rightarrow> 'f option \<Rightarrow> 'f option \<Rightarrow> ordering" where
  "cmp_f64 M None None = Equal"
| "cmp_f64 M None (Some y) = Less"
| "cmp_f64 M (Some x) None = Greater"
| "cmp_f64 M (Some x) (Some y) =
     (if no_lt M x y then Less else if no_lt M y x then Greater else Equal)"

fun cmp_values :: "('n, 'f) num_ops \<Rightarrow> 'n json option \<Rightarrow> 'n json option \<Rightarrow> ordering" where
  "cmp_values M (Some (JNumber x)) (Some (JNumber y)) = cmp_f64 M (no_as_f64 M x) (no_as_f64 M y)"
| "cmp_values M (Some v) (Some w) = cmp_linorder (value_to_string M v) (value_to_string M w)"
| "cmp_values M (Some v) None = Less"
| "cmp_values M None (Some w) = Greater"
| "cmp_values M None None = Equal"

definition compare_rows :: "('n, 'f) num_ops \<Rightarrow> string \<Rightarrow> ekl_order \<Rightarrow> 'n ekl_row \<Rightarrow> 'n ekl_row \<Rightarrow> ordering" where
  "compare_rows M field order a b =
     (let r = cmp_values M (a field) (b field) in if order = Desc then reverse_ordering r else r)"

fun insert_by :: "('a \<Rightarrow> 'a \<Rightarrow> ordering) \<Rightarrow> 'a \<Rightarrow> 'a list \<Rightarrow> 'a list" where
  "insert_by cmp x [] = [x]"
| "insert_by cmp x (y # ys) = (if cmp x y = Greater then y # insert_by cmp x ys else x # y # ys)"

definition sort_by :: "('a \<Rightarrow> 'a \<Rightarrow> ordering) \<Rightarrow> 'a list \<Rightarrow> 'a list" where
  "sort_by cmp xs = foldr (insert_by cmp) xs []"

definition order_rows :: "('n, 'f) num_ops \<Rightarrow> (string \<times> ekl_order) option \<Rightarrow> 'n ekl_row list \<Rightarrow> 'n ekl_row list" where
  "order_rows M by rows = (case by of None \<Rightarrow> rows | Some (field, order) \<Rightarrow> sort_by (compare_rows M field order) rows)"

definition limit_rows :: "nat option \<Rightarrow> 'a list \<Rightarrow> 'a list" where
  "limit_rows k rows = (case k of None \<Rightarrow> rows | Some n \<Rightarrow> take n rows)"

section \<open>Rows\<close>

definition default_returns :: "entity \<Rightarrow> string list" where
  "default_returns e =
     (case e of EObject \<Rightarrow> [''id'', ''name'', ''kind''] | ERelationship \<Rightarrow> [''id'', ''kind'', ''from'', ''to''])"

definition OBJECT_COLUMNS :: "string list" where
  "OBJECT_COLUMNS = [''id'', ''name'', ''kind'', ''evidence'', ''created_at'']"

definition RELATIONSHIP_COLUMNS :: "string list" where
  "RELATIONSHIP_COLUMNS = [''id'', ''kind'', ''from'', ''to'', ''created_at'']"

definition builtin_columns :: "entity \<Rightarrow> string list" where
  "builtin_columns e = (case e of EObject \<Rightarrow> OBJECT_COLUMNS | ERelationship \<Rightarrow> RELATIONSHIP_COLUMNS)"

definition option_list :: "'a option \<Rightarrow> 'a list" where
  "option_list x = (case x of None \<Rightarrow> [] | Some y \<Rightarrow> [y])"

definition named_fields :: "'f ekl_ast \<Rightarrow> string list" where
  "named_fields ast =
     map pd_field (ea_predicates ast) @ ea_returns ast @ map fst (option_list (ea_order_by ast)) @
     option_list (ea_group_by ast)"

definition property_fields :: "'f ekl_ast \<Rightarrow> string list" where
  "property_fields ast =
     fold (\<lambda>f out. if f \<notin> set (builtin_columns (ea_entity ast)) \<and> f \<notin> set out then out @ [f] else out)
       (named_fields ast) []"

text \<open>A path of object keys.\<close>

fun walk_path :: "'n json \<Rightarrow> string list \<Rightarrow> 'n json option" where
  "walk_path v [] = Some v"
| "walk_path v (k # ks) =
     (case v of JObject m \<Rightarrow> (case map_of m k of None \<Rightarrow> None | Some w \<Rightarrow> walk_path w ks) | _ \<Rightarrow> None)"

definition property_value :: "'n jmap \<Rightarrow> string \<Rightarrow> 'n json option" where
  "property_value props field =
     (case map_of props field of
        Some v \<Rightarrow> Some v
      | None \<Rightarrow>
          (case split_on (CHR ''.'') field of
             [] \<Rightarrow> None
           | k # ks \<Rightarrow> (case map_of props k of None \<Rightarrow> None | Some v \<Rightarrow> walk_path v ks)))"

definition add_properties :: "'n jmap \<Rightarrow> string list \<Rightarrow> 'n ekl_row \<Rightarrow> 'n ekl_row" where
  "add_properties props wanted row =
     fold (\<lambda>f r. case property_value props f of None \<Rightarrow> r | Some v \<Rightarrow> r(f \<mapsto> v)) wanted row"

text \<open>The texts of ids and instants.\<close>

record row_text =
  rt_id :: "kir_id \<Rightarrow> string"
  rt_time :: "int \<Rightarrow> string"

definition object_row :: "row_text \<Rightarrow> string list \<Rightarrow> 'n kir_object \<Rightarrow> 'n ekl_row" where
  "object_row X wanted ob =
     add_properties (ko_properties ob) wanted
       [''id'' \<mapsto> JString (rt_id X (ko_id ob)), ''name'' \<mapsto> JString (ko_name ob),
        ''kind'' \<mapsto> JString (object_kind_display (ko_kind ob)),
        ''evidence'' \<mapsto> JArray (map (\<lambda>i. JString (rt_id X i)) (ko_evidence ob)),
        ''created_at'' \<mapsto> JString (rt_time X (ko_created_at ob))]"

definition relationship_row :: "row_text \<Rightarrow> string list \<Rightarrow> 'n kir_relationship \<Rightarrow> 'n ekl_row" where
  "relationship_row X wanted r =
     add_properties (kr_properties r) wanted
       [''id'' \<mapsto> JString (rt_id X (kr_id r)), ''kind'' \<mapsto> JString (relationship_kind_display (kr_kind r)),
        ''from'' \<mapsto> JString (rt_id X (kr_from r)), ''to'' \<mapsto> JString (rt_id X (kr_to r)),
        ''created_at'' \<mapsto> JString (rt_time X (kr_created_at r))]"

definition checked_fields :: "'f ekl_ast \<Rightarrow> string list" where
  "checked_fields ast =
     map pd_field (ea_predicates ast) @ map fst (option_list (ea_order_by ast)) @ option_list (ea_group_by ast)"

definition entity_name :: "entity \<Rightarrow> string" where
  "entity_name e = (case e of EObject \<Rightarrow> ''object'' | ERelationship \<Rightarrow> ''relationship'')"

definition check_fields :: "'f ekl_ast \<Rightarrow> 'n ekl_row list \<Rightarrow> ekl_error + unit" where
  "check_fields ast rows =
     (if rows = [] then Inr ()
      else
        (case find (\<lambda>f. \<not> (f \<in> set (builtin_columns (ea_entity ast)) \<or> (ea_count ast \<and> f = ''count'')) \<and>
                        \<not> list_ex (\<lambda>r. r f \<noteq> None) rows) (checked_fields ast) of
           Some f \<Rightarrow> Inl (UnknownField f (join_with '', '' (builtin_columns (ea_entity ast))) (entity_name (ea_entity ast)))
         | None \<Rightarrow> Inr ()))"

definition project_row :: "'n ekl_row \<Rightarrow> string list \<Rightarrow> 'n ekl_row" where
  "project_row row returns =
     map_of (map (\<lambda>f. (f, case row f of None \<Rightarrow> JNull | Some v \<Rightarrow> v)) returns)"

section \<open>Counting\<close>

definition group_key :: "('n, 'f) num_ops \<Rightarrow> string \<Rightarrow> 'n ekl_row \<Rightarrow> string" where
  "group_key M field row = (case row field of None \<Rightarrow> [] | Some v \<Rightarrow> value_to_string M v)"

fun count_keys :: "string list \<Rightarrow> (string \<times> nat) list \<Rightarrow> (string \<times> nat) list" where
  "count_keys [] counts = counts"
| "count_keys (k # ks) counts =
     count_keys ks (bt_insert k ((case map_of counts k of None \<Rightarrow> 0 | Some n \<Rightarrow> n) + 1) counts)"

definition count_row :: "('n, 'f) num_ops \<Rightarrow> string \<Rightarrow> string \<times> nat \<Rightarrow> 'n ekl_row" where
  "count_row M field kn = [field \<mapsto> JString (fst kn), ''count'' \<mapsto> JNumber (no_of_nat M (snd kn))]"

definition aggregate_count :: "('n, 'f) num_ops \<Rightarrow> 'n ekl_row list \<Rightarrow> string option \<Rightarrow> 'n ekl_row list" where
  "aggregate_count M rows by =
     (case by of
        None \<Rightarrow> [[''count'' \<mapsto> JNumber (no_of_nat M (length rows))]]
      | Some field \<Rightarrow>
          sort_key (\<lambda>r. value_to_string M (the (r field)))
            (map (count_row M field) (count_keys (map (group_key M field) rows) [])))"

section \<open>Candidates\<close>

definition runtime_result :: "ledger_error + 'a \<Rightarrow> ekl_error + 'a" where
  "runtime_result r = (case r of Inl e \<Rightarrow> Inl (ERuntime e) | Inr x \<Rightarrow> Inr x)"

definition map_ok :: "('a \<Rightarrow> 'b) \<Rightarrow> 'e + 'a \<Rightarrow> 'e + 'b" where
  "map_ok f r = (case r of Inl e \<Rightarrow> Inl e | Inr x \<Rightarrow> Inr (f x))"

definition resolve_anchor ::
  "('s, 'n) knowledge_store \<Rightarrow> 's \<Rightarrow> kir_id set \<Rightarrow> string \<Rightarrow> ekl_error + kir_id" where
  "resolve_anchor V s excluded name =
     (case runtime_retrieve V s excluded (lexical name) of
        Inl e \<Rightarrow> Inl (ERuntime e)
      | Inr res \<Rightarrow> (case rk_hits res of [] \<Rightarrow> Inl (AnchorNotFound name) | h # _ \<Rightarrow> Inr (hi_id h)))"

definition expand_from_anchor ::
  "('s, 'n) knowledge_store \<Rightarrow> 's \<Rightarrow> kir_id \<Rightarrow> 'f ekl_ast \<Rightarrow> ekl_error + 'n kir_graph" where
  "expand_from_anchor V s anchor ast =
     (let depth = (case ea_depth ast of None \<Rightarrow> 1 | Some d \<Rightarrow> d)
      in case ea_via ast of
           None \<Rightarrow> runtime_result (load_neighborhood V s anchor depth)
         | Some name \<Rightarrow>
             (case trace_impact V s anchor Dependencies [relationship_kind_from_str name] depth of
                Inl e \<Rightarrow> Inl (ERuntime e)
              | Inr hops \<Rightarrow>
                  (case load_object V s anchor of
                     Inl e \<Rightarrow> Inl (ERuntime e)
                   | Inr root \<Rightarrow>
                       Inr (fold (\<lambda>h g. fst (add_relationship (ih_via h) (fst (add_object (ih_object h) g)))) hops
                              (case root of None \<Rightarrow> graph_new | Some ob \<Rightarrow> fst (add_object ob graph_new))))))"

fun hydrate_hits ::
  "('s, 'n) knowledge_store \<Rightarrow> 's \<Rightarrow> row_text \<Rightarrow> string list \<Rightarrow> hit list \<Rightarrow> ekl_error + 'n ekl_row list" where
  "hydrate_hits V s X wanted [] = Inr []"
| "hydrate_hits V s X wanted (h # hs) =
     (case load_object V s (hi_id h) of
        Inl e \<Rightarrow> Inl (ERuntime e)
      | Inr found \<Rightarrow>
          map_ok (\<lambda>rows. case found of None \<Rightarrow> rows | Some ob \<Rightarrow> object_row X wanted ob # rows) (hydrate_hits V s X wanted hs))"

definition candidate_rows ::
  "('s, 'n) knowledge_store \<Rightarrow> 's \<Rightarrow> kir_id set \<Rightarrow> row_text \<Rightarrow> 'f ekl_ast \<Rightarrow> string list \<Rightarrow> ekl_error + 'n ekl_row list" where
  "candidate_rows V s excluded X ast wanted =
     (case ea_as_of ast of
        Some at \<Rightarrow>
          if ea_from ast \<noteq> None then Inl AsOfWithFromUnsupported
          else (case ea_entity ast of
                  EObject \<Rightarrow> map_ok (map (object_row X wanted)) (runtime_result (list_objects_at V s at))
                | ERelationship \<Rightarrow> map_ok (map (relationship_row X wanted)) (runtime_result (list_relationships_at V s at)))
      | None \<Rightarrow>
          (case ea_semantic ast of
             Some q \<Rightarrow>
               (case runtime_retrieve V s excluded
                       ((lexical q)\<lparr>rr_limit := (case ea_limit ast of None \<Rightarrow> 50 | Some k \<Rightarrow> k)\<rparr>) of
                  Inl e \<Rightarrow> Inl (ERuntime e)
                | Inr res \<Rightarrow> hydrate_hits V s X wanted (rk_hits res))
           | None \<Rightarrow>
               (case (ea_entity ast, ea_from ast) of
                  (EObject, None) \<Rightarrow> map_ok (map (object_row X wanted)) (runtime_result (list_objects V s))
                | (ERelationship, None) \<Rightarrow>
                    map_ok (map (relationship_row X wanted)) (runtime_result (list_relationships V s))
                | (e, Some name) \<Rightarrow>
                    (case resolve_anchor V s excluded name of
                       Inl err \<Rightarrow> Inl err
                     | Inr anchor \<Rightarrow>
                         map_ok (\<lambda>g. case e of EObject \<Rightarrow> map (object_row X wanted) (kg_objects g)
                                    | ERelationship \<Rightarrow> map (relationship_row X wanted) (kg_relationships g))
                           (expand_from_anchor V s anchor ast)))))"

section \<open>Execution\<close>

definition matching_rows :: "'f f64_ops \<Rightarrow> ('n, 'f) num_ops \<Rightarrow> 'f ekl_ast \<Rightarrow> 'n ekl_row list \<Rightarrow> 'n ekl_row list" where
  "matching_rows F M ast rows = filter (\<lambda>r. list_all (eval_predicate F M r) (ea_predicates ast)) rows"

definition finish_rows :: "'f f64_ops \<Rightarrow> ('n, 'f) num_ops \<Rightarrow> 'f ekl_ast \<Rightarrow> 'n ekl_row list \<Rightarrow> 'n ekl_row list" where
  "finish_rows F M ast rows =
     (let found = matching_rows F M ast rows
      in if ea_count ast
         then limit_rows (ea_limit ast) (order_rows M (ea_order_by ast) (aggregate_count M found (ea_group_by ast)))
         else
           (let returns = (if ea_returns ast = [] then default_returns (ea_entity ast) else ea_returns ast)
            in limit_rows (ea_limit ast) (map (\<lambda>r. project_row r returns) (order_rows M (ea_order_by ast) found))))"

definition execute ::
  "('s, 'n) knowledge_store \<Rightarrow> 's \<Rightarrow> kir_id set \<Rightarrow> row_text \<Rightarrow> 'f f64_ops \<Rightarrow> ('n, 'f) num_ops \<Rightarrow> 'f ekl_ast \<Rightarrow>
   ekl_error + 'n ekl_row list" where
  "execute V s excluded X F M ast =
     (case candidate_rows V s excluded X ast (property_fields ast) of
        Inl e \<Rightarrow> Inl e
      | Inr rows \<Rightarrow>
          (case check_fields ast rows of
             Inl e \<Rightarrow> Inl e
           | Inr _ \<Rightarrow> Inr (finish_rows F M ast rows)))"

end
