(* ===== verification/Ekl_Results.thy ===== *)
theory Ekl_Results
  imports Ekl_Interpreter
begin

text \<open>
  What a query returns: exactly the candidates that satisfy every predicate, in the order asked for;
  the counts and the groups add up to the rows the same query lists.
\<close>

section \<open>Sorting\<close>

lemma insert_by_mset [simp]: "mset (insert_by cmp x xs) = add_mset x (mset xs)"
  by (induction xs) auto

lemma sort_by_mset [simp]: "mset (sort_by cmp xs) = mset xs"
  by (induction xs) (simp_all add: sort_by_def)

lemma sort_by_set [simp]: "set (sort_by cmp xs) = set xs"
  using sort_by_mset [of cmp xs] by (metis set_mset_mset)

lemma sort_by_length [simp]: "length (sort_by cmp xs) = length xs"
  using sort_by_mset [of cmp xs] by (metis size_mset)

lemma insert_by_key:
  "(\<And>y. y \<in> set ys \<Longrightarrow> cmp x y = Greater \<longleftrightarrow> \<not> k x \<le> k y) \<Longrightarrow> insert_by cmp x ys = insort_key k x ys"
  by (induction ys) auto

text \<open>A comparison by a key in a linear order sorts stably by that key.\<close>

lemma sort_by_key:
  "(\<And>x y. x \<in> set xs \<Longrightarrow> y \<in> set xs \<Longrightarrow> cmp x y = Greater \<longleftrightarrow> \<not> k x \<le> k y) \<Longrightarrow> sort_by cmp xs = sort_key k xs"
proof (induction xs)
  case Nil
  show ?case by (simp add: sort_by_def)
next
  case (Cons x xs)
  have "sort_by cmp xs = sort_key k xs" by (rule Cons.IH) (simp add: Cons.prems)
  moreover have "insert_by cmp x (sort_key k xs) = insort_key k x (sort_key k xs)"
    by (rule insert_by_key) (simp add: Cons.prems)
  ultimately show ?case by (simp add: sort_by_def)
qed

lemma order_rows_mset [simp]: "mset (order_rows M by rows) = mset rows"
  by (cases "by") (auto simp: order_rows_def)

lemma order_rows_length [simp]: "length (order_rows M by rows) = length rows"
  using order_rows_mset [of M "by" rows] by (metis size_mset)

text \<open>The key of a text column: rows without it come last.\<close>

definition text_key :: "('n, 'f) num_ops \<Rightarrow> string \<Rightarrow> 'n ekl_row \<Rightarrow> nat \<times> string" where
  "text_key M field row = (case row field of None \<Rightarrow> (1, []) | Some v \<Rightarrow> (0, value_to_string M v))"

definition text_column :: "string \<Rightarrow> 'n ekl_row list \<Rightarrow> bool" where
  "text_column field rows \<longleftrightarrow> (\<forall>r \<in> set rows. \<forall>n. r field \<noteq> Some (JNumber n))"

lemma cmp_values_text:
  assumes "\<And>n. v \<noteq> JNumber n"
  shows "cmp_values M (Some v) (Some w) = cmp_linorder (value_to_string M v) (value_to_string M w)"
  using assms by (cases "(M, Some v, Some w)" rule: cmp_values.cases) auto

lemma compare_rows_text:
  assumes "\<And>n. a field \<noteq> Some (JNumber n)"
  shows "compare_rows M field Asc a b = cmp_linorder (text_key M field a) (text_key M field b)"
proof (cases "a field")
  case None
  then show ?thesis by (cases "b field") (simp_all add: compare_rows_def text_key_def cmp_linorder_def)
next
  case (Some v)
  show ?thesis
  proof (cases "b field")
    case None
    then show ?thesis using Some by (cases v) (simp_all add: compare_rows_def text_key_def cmp_linorder_def)
  next
    case (Some w)
    then show ?thesis
      using \<open>a field = Some v\<close> assms cmp_values_text [of v M w]
      by (auto simp: compare_rows_def text_key_def cmp_linorder_def)
  qed
qed

lemma order_rows_text:
  assumes "text_column field rows"
  shows "order_rows M (Some (field, Asc)) rows = sort_key (text_key M field) rows"
proof -
  have "sort_by (compare_rows M field Asc) rows = sort_key (text_key M field) rows"
  proof (rule sort_by_key)
    fix x y assume "x \<in> set rows"
    then have "compare_rows M field Asc x y = cmp_linorder (text_key M field x) (text_key M field y)"
      using compare_rows_text [of x field M y] assms by (auto simp: text_column_def)
    then show "compare_rows M field Asc x y = Greater \<longleftrightarrow> \<not> text_key M field x \<le> text_key M field y"
      by (auto simp: cmp_linorder_def)
  qed
  then show ?thesis by (simp add: order_rows_def)
qed

text \<open>
  What \<open>ORDER BY\<close> asks for: \<open>row_before\<close> compares numbers as numbers and other values as texts, and a row
  that has the column is before one that does not.  A sorted list is in that order, or in the opposite one, and
  rows neither of which is before the other stay as they were.
\<close>

fun f64_before :: "('n, 'f) num_ops \<Rightarrow> 'f option \<Rightarrow> 'f option \<Rightarrow> bool" where
  "f64_before M (Some x) (Some y) \<longleftrightarrow> no_lt M x y"
| "f64_before M None (Some y) \<longleftrightarrow> True"
| "f64_before M _ None \<longleftrightarrow> False"

definition row_before :: "('n, 'f) num_ops \<Rightarrow> string \<Rightarrow> 'n ekl_row \<Rightarrow> 'n ekl_row \<Rightarrow> bool" where
  "row_before M field a b \<longleftrightarrow>
     (case (a field, b field) of
        (Some (JNumber x), Some (JNumber y)) \<Rightarrow> f64_before M (no_as_f64 M x) (no_as_f64 M y)
      | (Some v, Some w) \<Rightarrow> value_to_string M v < value_to_string M w
      | (Some v, None) \<Rightarrow> True
      | (None, _) \<Rightarrow> False)"

definition directed :: "ekl_order \<Rightarrow> ('a \<Rightarrow> 'a \<Rightarrow> bool) \<Rightarrow> 'a \<Rightarrow> 'a \<Rightarrow> bool" where
  "directed order lt a b \<longleftrightarrow> (case order of Asc \<Rightarrow> lt a b | Desc \<Rightarrow> lt b a)"

definition stably_sorted :: "('a \<Rightarrow> 'a \<Rightarrow> bool) \<Rightarrow> 'a list \<Rightarrow> 'a list \<Rightarrow> bool" where
  "stably_sorted lt xs ys \<longleftrightarrow>
     mset ys = mset xs \<and> sorted_wrt (\<lambda>a b. \<not> lt b a) ys \<and>
     (\<forall>r \<in> set xs. filter (\<lambda>x. \<not> lt r x \<and> \<not> lt x r) ys = filter (\<lambda>x. \<not> lt r x \<and> \<not> lt x r) xs)"

definition number_column :: "string \<Rightarrow> 'n ekl_row list \<Rightarrow> bool" where
  "number_column field rows \<longleftrightarrow> (\<forall>r \<in> set rows. \<forall>v. r field = Some v \<longrightarrow> (\<exists>n. v = JNumber n))"

text \<open>A strict order of the numbers up to equality; JSON has no NaN.\<close>

definition f64_order :: "('n, 'f) num_ops \<Rightarrow> bool" where
  "f64_order M \<longleftrightarrow>
     (\<forall>a b c x y z. no_as_f64 M a = Some x \<longrightarrow> no_as_f64 M b = Some y \<longrightarrow> no_as_f64 M c = Some z \<longrightarrow>
        (no_lt M x y \<longrightarrow> \<not> no_lt M y x) \<and> (no_lt M x y \<longrightarrow> no_lt M x z \<or> no_lt M z y))"

definition orderable :: "('n, 'f) num_ops \<Rightarrow> string \<Rightarrow> 'n ekl_row list \<Rightarrow> bool" where
  "orderable M field rows \<longleftrightarrow> text_column field rows \<or> number_column field rows \<and> f64_order M"

definition weak_order_on :: "'a set \<Rightarrow> ('a \<Rightarrow> 'a \<Rightarrow> bool) \<Rightarrow> bool" where
  "weak_order_on A lt \<longleftrightarrow>
     (\<forall>a \<in> A. \<forall>b \<in> A. lt a b \<longrightarrow> \<not> lt b a) \<and> (\<forall>a \<in> A. \<forall>b \<in> A. \<forall>c \<in> A. lt a b \<longrightarrow> lt a c \<or> lt c b)"

lemma weak_orderD:
  assumes "weak_order_on A lt" "a \<in> A" "b \<in> A"
  shows "lt a b \<Longrightarrow> \<not> lt b a" "c \<in> A \<Longrightarrow> lt a b \<Longrightarrow> lt a c \<or> lt c b"
  using assms unfolding weak_order_on_def by blast+

lemma insert_by_sorted:
  assumes "weak_order_on A lt" "x \<in> A" "set ys \<subseteq> A" "\<And>y. y \<in> set ys \<Longrightarrow> cmp x y = Greater \<longleftrightarrow> lt y x"
    and "sorted_wrt (\<lambda>a b. \<not> lt b a) ys"
  shows "sorted_wrt (\<lambda>a b. \<not> lt b a) (insert_by cmp x ys)"
  using assms(3-5)
proof (induction ys)
  case (Cons y ys)
  have set: "set (insert_by cmp x ys) = insert x (set ys)" using insert_by_mset [of cmp x ys] by (metis set_mset_mset set_mset_add_mset_insert)
  note neg = weak_orderD(2) [OF assms(1) _ assms(2)] and asym = weak_orderD(1) [OF assms(1) _ assms(2)]
  show ?case
  proof (cases "lt y x")
    case True
    then have "\<not> lt x y" using asym [of y] Cons.prems(1) by simp
    moreover have "sorted_wrt (\<lambda>a b. \<not> lt b a) (insert_by cmp x ys)" by (rule Cons.IH) (use Cons.prems in simp_all)
    ultimately show ?thesis using True Cons.prems by (simp add: set)
  next
    case False
    have "\<not> lt z x" if "z \<in> set ys" for z
      using neg [of z y] that False Cons.prems by auto
    then show ?thesis using False Cons.prems by simp
  qed
qed simp

lemma insert_by_same:
  assumes "weak_order_on A lt" "x \<in> A" "r \<in> A" "set ys \<subseteq> A" "\<And>y. y \<in> set ys \<Longrightarrow> cmp x y = Greater \<longleftrightarrow> lt y x"
  shows "filter (\<lambda>z. \<not> lt r z \<and> \<not> lt z r) (insert_by cmp x ys) = filter (\<lambda>z. \<not> lt r z \<and> \<not> lt z r) (x # ys)"
  using assms(4,5)
proof (induction ys)
  case (Cons y ys)
  have IH: "filter (\<lambda>z. \<not> lt r z \<and> \<not> lt z r) (insert_by cmp x ys) = filter (\<lambda>z. \<not> lt r z \<and> \<not> lt z r) (x # ys)"
    by (rule Cons.IH) (use Cons.prems in simp_all)
  have "y \<in> A" using Cons.prems(1) by simp
  from weak_orderD(2) [OF assms(1) this assms(2,3)]
  have "lt y x \<Longrightarrow> \<not> lt r x \<and> \<not> lt x r \<Longrightarrow> \<not> (\<not> lt r y \<and> \<not> lt y r)" by blast
  then show ?case using IH Cons.prems(2) [of y] by auto
qed simp

lemma sort_by_stable:
  assumes "weak_order_on (set xs) lt" "\<And>x y. x \<in> set xs \<Longrightarrow> y \<in> set xs \<Longrightarrow> cmp x y = Greater \<longleftrightarrow> lt y x"
  shows "stably_sorted lt xs (sort_by cmp xs)"
proof -
  have "sorted_wrt (\<lambda>a b. \<not> lt b a) (sort_by cmp zs) \<and>
      (\<forall>r \<in> set xs. filter (\<lambda>z. \<not> lt r z \<and> \<not> lt z r) (sort_by cmp zs) = filter (\<lambda>z. \<not> lt r z \<and> \<not> lt z r) zs)"
    if "set zs \<subseteq> set xs" for zs
    using that
  proof (induction zs)
    case (Cons z zs)
    have s: "sort_by cmp (z # zs) = insert_by cmp z (sort_by cmp zs)" by (simp add: sort_by_def)
    have z: "z \<in> set xs" "set (sort_by cmp zs) \<subseteq> set xs" using Cons.prems by simp_all
    have c: "\<And>y. y \<in> set (sort_by cmp zs) \<Longrightarrow> cmp z y = Greater \<longleftrightarrow> lt y z" using assms(2) z by blast
    have IH: "sorted_wrt (\<lambda>a b. \<not> lt b a) (sort_by cmp zs)"
      "\<And>r. r \<in> set xs \<Longrightarrow> filter (\<lambda>z. \<not> lt r z \<and> \<not> lt z r) (sort_by cmp zs) = filter (\<lambda>z. \<not> lt r z \<and> \<not> lt z r) zs"
      using Cons.IH Cons.prems by simp_all
    have "filter (\<lambda>z. \<not> lt r z \<and> \<not> lt z r) (insert_by cmp z (sort_by cmp zs)) = filter (\<lambda>z. \<not> lt r z \<and> \<not> lt z r) (z # zs)"
      if "r \<in> set xs" for r
      using insert_by_same [where cmp = cmp, OF assms(1) z(1) that z(2) c] IH(2) [OF that] by simp
    then show ?case unfolding s using insert_by_sorted [where cmp = cmp, OF assms(1) z c IH(1)] by blast
  qed (simp add: sort_by_def)
  then show ?thesis by (simp add: stably_sorted_def)
qed

text \<open>The comparison of rows, by its answers.\<close>

lemma f64_orderD:
  assumes "f64_order M" "no_as_f64 M a = Some x" "no_as_f64 M b = Some y"
  shows "no_lt M x y \<Longrightarrow> \<not> no_lt M y x" "no_as_f64 M c = Some z \<Longrightarrow> no_lt M x y \<Longrightarrow> no_lt M x z \<or> no_lt M z y"
  using assms unfolding f64_order_def by blast+

lemma cmp_f64_before:
  assumes "f64_order M"
  shows "cmp_f64 M (no_as_f64 M a) (no_as_f64 M b) = Less \<longleftrightarrow> f64_before M (no_as_f64 M a) (no_as_f64 M b)"
    "cmp_f64 M (no_as_f64 M a) (no_as_f64 M b) = Greater \<longleftrightarrow> f64_before M (no_as_f64 M b) (no_as_f64 M a)"
proof -
  have "(cmp_f64 M (no_as_f64 M a) (no_as_f64 M b) = Less \<longleftrightarrow> f64_before M (no_as_f64 M a) (no_as_f64 M b)) \<and>
    (cmp_f64 M (no_as_f64 M a) (no_as_f64 M b) = Greater \<longleftrightarrow> f64_before M (no_as_f64 M b) (no_as_f64 M a))"
  proof (cases "no_as_f64 M a")
    case None
    then show ?thesis by (cases "no_as_f64 M b") simp_all
  next
    case x: (Some x)
    show ?thesis
    proof (cases "no_as_f64 M b")
      case None
      then show ?thesis using x by simp
    next
      case (Some y)
      show ?thesis unfolding x Some using f64_orderD(1) [OF assms x Some] by simp
    qed
  qed
  then show "cmp_f64 M (no_as_f64 M a) (no_as_f64 M b) = Less \<longleftrightarrow> f64_before M (no_as_f64 M a) (no_as_f64 M b)"
    "cmp_f64 M (no_as_f64 M a) (no_as_f64 M b) = Greater \<longleftrightarrow> f64_before M (no_as_f64 M b) (no_as_f64 M a)" by blast+
qed

lemma cmp_linorder_cases:
  "cmp_linorder x y = Less \<longleftrightarrow> x < y" "cmp_linorder x y = Greater \<longleftrightarrow> y < x"
  by (auto simp: cmp_linorder_def)

lemma text_before:
  assumes "\<And>n. a field \<noteq> Some (JNumber n)"
  shows "row_before M field a b \<longleftrightarrow> text_key M field a < text_key M field b"
  using assms by (cases "a field"; cases "b field") (auto simp: row_before_def text_key_def split: json.splits)

lemma compare_rows_before:
  assumes "orderable M field rows" "x \<in> set rows" "y \<in> set rows"
  shows "compare_rows M field Asc x y = Less \<longleftrightarrow> row_before M field x y"
    "compare_rows M field Asc x y = Greater \<longleftrightarrow> row_before M field y x"
proof -
  have "(compare_rows M field Asc x y = Less \<longleftrightarrow> row_before M field x y) \<and>
      (compare_rows M field Asc x y = Greater \<longleftrightarrow> row_before M field y x)"
  proof (cases "text_column field rows")
    case True
    then have n: "x field \<noteq> Some (JNumber n)" "y field \<noteq> Some (JNumber n)" for n using assms(2,3) by (auto simp: text_column_def)
    show ?thesis unfolding compare_rows_text [of x field M y, OF n(1)] text_before [of x field M y, OF n(1)]
      text_before [of y field M x, OF n(2)] cmp_linorder_cases by blast
  next
    case False
    then have o: "f64_order M" and n: "x field = Some v \<Longrightarrow> \<exists>n. v = JNumber n" "y field = Some v \<Longrightarrow> \<exists>n. v = JNumber n" for v
      using assms unfolding orderable_def number_column_def by blast+
    show ?thesis
    proof (cases "x field")
      case None
      then show ?thesis by (cases "y field") (auto simp: compare_rows_def row_before_def split: json.splits)
    next
      case (Some v)
      then obtain a where a: "x field = Some (JNumber a)" using n(1) by blast
      show ?thesis
      proof (cases "y field")
        case None
        then show ?thesis using a by (simp add: compare_rows_def row_before_def)
      next
        case (Some w)
        then obtain b where "y field = Some (JNumber b)" using n(2) by blast
        then show ?thesis using a cmp_f64_before [OF o] by (simp add: compare_rows_def row_before_def)
      qed
    qed
  qed
  then show "compare_rows M field Asc x y = Less \<longleftrightarrow> row_before M field x y"
    "compare_rows M field Asc x y = Greater \<longleftrightarrow> row_before M field y x" by blast+
qed

lemma f64_before_Some:
  assumes "f64_before M u v"
  obtains y where "v = Some y" "u = None \<or> (\<exists>x. u = Some x \<and> no_lt M x y)"
  using assms that by (cases u; cases v) auto

lemma f64_before_weak:
  assumes "f64_order M" "f64_before M (no_as_f64 M a) (no_as_f64 M b)"
  shows "\<not> f64_before M (no_as_f64 M b) (no_as_f64 M a)"
    "f64_before M (no_as_f64 M a) (no_as_f64 M c) \<or> f64_before M (no_as_f64 M c) (no_as_f64 M b)"
proof -
  obtain y where y: "no_as_f64 M b = Some y" "no_as_f64 M a = None \<or> (\<exists>x. no_as_f64 M a = Some x \<and> no_lt M x y)"
    using f64_before_Some [OF assms(2)] by blast
  show "\<not> f64_before M (no_as_f64 M b) (no_as_f64 M a)"
  proof (cases "no_as_f64 M a")
    case (Some x)
    then have "no_lt M x y" using y(2) by simp
    then show ?thesis unfolding Some y(1) using f64_orderD(1) [OF assms(1) Some y(1)] by simp
  qed (simp add: y(1))
  show "f64_before M (no_as_f64 M a) (no_as_f64 M c) \<or> f64_before M (no_as_f64 M c) (no_as_f64 M b)"
  proof (cases "no_as_f64 M c")
    case None
    then show ?thesis by (simp add: y(1))
  next
    case z: (Some z)
    show ?thesis
    proof (cases "no_as_f64 M a")
      case (Some x)
      then have "no_lt M x y" using y(2) by simp
      then show ?thesis unfolding Some y(1) z using f64_orderD(2) [OF assms(1) Some y(1) z] by simp
    qed (simp add: z)
  qed
qed

lemma row_before_weak:
  assumes "orderable M field rows"
  shows "weak_order_on (set rows) (row_before M field)"
proof (cases "text_column field rows")
  case True
  then have "row_before M field a b \<longleftrightarrow> text_key M field a < text_key M field b" if "a \<in> set rows" for a b
    using text_before [of a field M b] that by (auto simp: text_column_def)
  note key = this
  show ?thesis unfolding weak_order_on_def
  proof (intro conjI ballI impI)
    fix a b assume "a \<in> set rows" "b \<in> set rows" "row_before M field a b"
    then show "\<not> row_before M field b a" unfolding key [OF \<open>a \<in> set rows\<close>] key [OF \<open>b \<in> set rows\<close>] by simp
  next
    fix a b c assume "a \<in> set rows" "b \<in> set rows" "c \<in> set rows" "row_before M field a b"
    then show "row_before M field a c \<or> row_before M field c b"
      unfolding key [OF \<open>a \<in> set rows\<close>] key [OF \<open>c \<in> set rows\<close>] by (metis less_le_trans not_le)
  qed
next
  case False
  then have o: "f64_order M" and n: "\<And>r v. r \<in> set rows \<Longrightarrow> r field = Some v \<Longrightarrow> \<exists>n. v = JNumber n"
    using assms unfolding orderable_def number_column_def by blast+
  define key where "key r = (case r field of Some (JNumber n) \<Rightarrow> Some n | _ \<Rightarrow> None)" for r :: "'a ekl_row"
  have b: "row_before M field a b \<longleftrightarrow>
      (case (key a, key b) of (Some x, Some y) \<Rightarrow> f64_before M (no_as_f64 M x) (no_as_f64 M y) | (Some x, None) \<Rightarrow> True | _ \<Rightarrow> False)"
    if "a \<in> set rows" "b \<in> set rows" for a b
    using n [OF that(1)] n [OF that(2)] by (cases "a field"; cases "b field") (auto simp: row_before_def key_def)
  show ?thesis unfolding weak_order_on_def
  proof (intro conjI ballI impI)
    fix a b assume "a \<in> set rows" "b \<in> set rows" "row_before M field a b"
    then show "\<not> row_before M field b a"
      using f64_before_weak(1) [OF o] by (auto simp: b split: option.splits)
  next
    fix a b c assume "a \<in> set rows" "b \<in> set rows" "c \<in> set rows" "row_before M field a b"
    then show "row_before M field a c \<or> row_before M field c b"
      using f64_before_weak(2) [OF o] by (auto simp: b split: option.splits)
  qed
qed

lemma directed_weak:
  assumes "weak_order_on A lt"
  shows "weak_order_on A (directed order lt)"
proof (cases order)
  case Desc
  have "lt a c \<or> lt c b" if "a \<in> A" "b \<in> A" "c \<in> A" "lt a b" for a b c
    by (rule weak_orderD(2) [OF assms that])
  moreover have "\<not> lt b a" if "a \<in> A" "b \<in> A" "lt a b" for a b by (rule weak_orderD(1) [OF assms that])
  ultimately show ?thesis unfolding Desc weak_order_on_def directed_def ekl_order.case by blast
qed (use assms in \<open>simp add: directed_def weak_order_on_def\<close>)

lemma order_rows_sorted:
  assumes "orderable M field rows"
  shows "stably_sorted (directed order (row_before M field)) rows (order_rows M (Some (field, order)) rows)"
proof -
  have "compare_rows M field order x y = Greater \<longleftrightarrow> directed order (row_before M field) y x"
    if "x \<in> set rows" "y \<in> set rows" for x y
  proof -
    have desc: "compare_rows M field Desc x y = reverse_ordering (compare_rows M field Asc x y)" by (simp add: compare_rows_def Let_def)
    have "reverse_ordering r = Greater \<longleftrightarrow> r = Less" for r by (cases r) simp_all
    then show ?thesis using compare_rows_before [OF assms that] by (cases order) (simp_all add: directed_def desc)
  qed
  from sort_by_stable [OF directed_weak [OF row_before_weak [OF assms]] this]
  show ?thesis by (simp add: order_rows_def)
qed

text \<open>
  The order by a column that holds numbers and texts is not transitive: 9 is below 10 as a number, 10
  below the text 5 and the text 5 below 9 as texts.
\<close>

definition decimal_num_ops :: "(nat, nat) num_ops" where
  "decimal_num_ops = \<lparr>no_as_f64 = Some, no_eq = (=), no_lt = (<), no_of_nat = id,
     no_json_text = \<lambda>v. case v of JNumber n \<Rightarrow> show_nat n | _ \<Rightarrow> []\<rparr>"

lemma compare_rows_cycle:
  "compare_rows decimal_num_ops ''x'' Asc [''x'' \<mapsto> JNumber 9] [''x'' \<mapsto> JNumber 10] = Less \<and>
   compare_rows decimal_num_ops ''x'' Asc [''x'' \<mapsto> JNumber 10] [''x'' \<mapsto> JString ''5''] = Less \<and>
   compare_rows decimal_num_ops ''x'' Asc [''x'' \<mapsto> JString ''5''] [''x'' \<mapsto> JNumber 9] = Less"
proof -
  have "show_nat 10 = ''10''" "show_nat 9 = ''9''" by code_simp+
  moreover have "''10'' < ''5''" "''5'' < ''9''" by (simp_all add: less_char_def)
  ultimately show ?thesis by (simp add: compare_rows_def decimal_num_ops_def cmp_linorder_def)
qed

section \<open>Columns of a row\<close>

lemma add_properties_other: "f \<notin> set wanted \<Longrightarrow> add_properties props wanted row f = row f"
  by (induction wanted arbitrary: row) (auto simp: add_properties_def split: option.splits)

lemma add_properties_wanted:
  "f \<in> set wanted \<Longrightarrow> add_properties props wanted row f =
     (case property_value props f of None \<Rightarrow> row f | Some v \<Rightarrow> Some v)"
proof (induction wanted arbitrary: row)
  case (Cons g wanted)
  show ?case
  proof (cases "f \<in> set wanted")
    case True
    have "add_properties props wanted r f = (case property_value props f of None \<Rightarrow> r f | Some v \<Rightarrow> Some v)" for r
      by (rule Cons.IH [OF True])
    then show ?thesis by (cases "property_value props g") (auto simp: add_properties_def split: option.splits)
  next
    case False
    then have "f = g" using Cons.prems by simp
    then show ?thesis using add_properties_other [OF False, of props] by (auto simp: add_properties_def split: option.splits)
  qed
qed simp

lemma add_properties_same:
  "f \<in> set wanted \<longleftrightarrow> f \<in> set wanted' \<Longrightarrow> add_properties props wanted row f = add_properties props wanted' row f"
  by (cases "f \<in> set wanted") (simp_all add: add_properties_wanted add_properties_other)

lemma property_fields_fold:
  "set (fold (\<lambda>f out. if f \<notin> B \<and> f \<notin> set out then out @ [f] else out) fs acc) = set acc \<union> (set fs - B)"
  by (induction fs arbitrary: acc) auto

lemma property_fields_set:
  "set (property_fields ast) = set (named_fields ast) - set (builtin_columns (ea_entity ast))"
  by (simp add: property_fields_def property_fields_fold)

section \<open>Rows of the same scan\<close>

definition row_alike :: "string list \<Rightarrow> string list \<Rightarrow> 'n ekl_row \<Rightarrow> 'n ekl_row \<Rightarrow> bool" where
  "row_alike w w' r r' \<longleftrightarrow> (\<forall>f. (f \<in> set w \<longleftrightarrow> f \<in> set w') \<longrightarrow> r f = r' f)"

definition rows_alike :: "string list \<Rightarrow> string list \<Rightarrow> ekl_error + 'n ekl_row list \<Rightarrow> ekl_error + 'n ekl_row list \<Rightarrow> bool" where
  "rows_alike w w' a b \<longleftrightarrow>
     (case a of Inl e \<Rightarrow> b = Inl e | Inr rs \<Rightarrow> \<exists>rs'. b = Inr rs' \<and> list_all2 (row_alike w w') rs rs')"

lemma row_alike_rows:
  "row_alike w w' (object_row X w ob) (object_row X w' ob)"
  "row_alike w w' (relationship_row X w r) (relationship_row X w' r)"
  unfolding row_alike_def object_row_def relationship_row_def by (intro allI impI add_properties_same, assumption)+

lemma rows_alike_error [simp]: "rows_alike w w' (Inl e) (Inl e)"
  by (simp add: rows_alike_def)

lemma rows_alike_map:
  "rows_alike w w' (map_ok (map (object_row X w)) Z) (map_ok (map (object_row X w')) Z)"
  "rows_alike w w' (map_ok (map (relationship_row X w)) Y) (map_ok (map (relationship_row X w')) Y)"
  by (cases Z; cases Y; simp add: rows_alike_def map_ok_def list.rel_map row_alike_rows list_all2_same)+

lemma rows_alike_graph:
  "rows_alike w w' (map_ok (\<lambda>g. map (object_row X w) (kg_objects g)) Z) (map_ok (\<lambda>g. map (object_row X w') (kg_objects g)) Z)"
  "rows_alike w w' (map_ok (\<lambda>g. map (relationship_row X w) (kg_relationships g)) Z)
     (map_ok (\<lambda>g. map (relationship_row X w') (kg_relationships g)) Z)"
  by (cases Z; simp add: rows_alike_def map_ok_def list.rel_map row_alike_rows list_all2_same)+

lemma order_rows_single [simp]: "order_rows M by [r] = [r]"
  by (cases "by") (auto simp: order_rows_def sort_by_def)

text \<open>Which columns are read does not change what is scanned, nor the columns read both times.\<close>

lemma candidate_rows_alike:
  assumes "ea_semantic ast = None"
  shows "rows_alike w w' (candidate_rows V s ex X ast w)
    (candidate_rows V s ex X (ast\<lparr>ea_count := c, ea_returns := rs\<rparr>) w')"
proof -
  have expand: "expand_from_anchor V s a (ast\<lparr>ea_count := c, ea_returns := rs\<rparr>) = expand_from_anchor V s a ast" for a
    by (simp add: expand_from_anchor_def)
  show ?thesis
  proof (cases "ea_as_of ast")
    case (Some at)
    then show ?thesis by (cases "ea_entity ast") (simp_all add: candidate_rows_def rows_alike_map)
  next
    case None
    show ?thesis
    proof (cases "ea_from ast")
      case None': None
      then show ?thesis using None assms by (cases "ea_entity ast") (simp_all add: candidate_rows_def rows_alike_map)
    next
      case (Some name)
      show ?thesis
      proof (cases "resolve_anchor V s ex name")
        case (Inl e)
        then show ?thesis using None Some assms by (cases "ea_entity ast") (simp_all add: candidate_rows_def)
      next
        case (Inr a)
        then show ?thesis using None Some assms
          by (cases "ea_entity ast") (simp_all add: candidate_rows_def expand rows_alike_graph)
      qed
    qed
  qed
qed

lemma eval_predicate_alike:
  "r (pd_field p) = r' (pd_field p) \<Longrightarrow> eval_predicate F M r p = eval_predicate F M r' p"
  by (simp add: eval_predicate_def)

lemma matching_alike:
  assumes "list_all2 (row_alike w w') rows rows'"
    and "\<forall>p \<in> set (ea_predicates ast). pd_field p \<in> set w \<longleftrightarrow> pd_field p \<in> set w'"
    and "ea_predicates ast' = ea_predicates ast"
  shows "length (matching_rows F M ast rows) = length (matching_rows F M ast' rows')"
  using assms(1)
proof (induction rule: list_all2_induct)
  case Nil
  show ?case by (simp add: matching_rows_def)
next
  case (Cons r rows r' rows')
  have "list_all (eval_predicate F M r) (ea_predicates ast) \<longleftrightarrow> list_all (eval_predicate F M r') (ea_predicates ast)"
    unfolding list_all_iff using Cons.hyps(1) assms(2) eval_predicate_alike [of r _ r' F M] by (auto simp: row_alike_def)
  then show ?case using Cons.IH assms(3) by (simp add: matching_rows_def)
qed

lemma check_fields_ok:
  "check_fields ast rows = Inr () \<longleftrightarrow>
     rows = [] \<or> (\<forall>f \<in> set (checked_fields ast). f \<in> set (builtin_columns (ea_entity ast)) \<or> (ea_count ast \<and> f = ''count'') \<or>
       (\<exists>r \<in> set rows. r f \<noteq> None))"
proof (cases "rows = []")
  case True
  then show ?thesis by (simp add: check_fields_def)
next
  case False
  let ?P = "\<lambda>f. \<not> (f \<in> set (builtin_columns (ea_entity ast)) \<or> (ea_count ast \<and> f = ''count'')) \<and> \<not> list_ex (\<lambda>r. r f \<noteq> None) rows"
  show ?thesis
  proof (cases "find ?P (checked_fields ast)")
    case None
    then have "\<forall>f \<in> set (checked_fields ast). \<not> ?P f" unfolding find_None_iff by blast
    moreover have "check_fields ast rows = Inr ()" using False by (simp only: check_fields_def None if_False option.case)
    ultimately show ?thesis using False by (auto simp: list_ex_iff)
  next
    case (Some f)
    then have "f \<in> set (checked_fields ast)" "?P f" using find_SomeD [OF Some] by blast+
    moreover have "check_fields ast rows \<noteq> Inr ()" using False by (simp only: check_fields_def Some if_False option.case) simp
    ultimately show ?thesis using False by (auto simp: list_ex_iff)
  qed
qed

lemma list_all2_ex:
  "list_all2 (row_alike w w') rows rows' \<Longrightarrow> f \<in> set w \<longleftrightarrow> f \<in> set w' \<Longrightarrow>
     (\<exists>r \<in> set rows. r f \<noteq> None) \<Longrightarrow> \<exists>r \<in> set rows'. r f \<noteq> None"
  by (induction rule: list_all2_induct) (auto simp: row_alike_def)

text \<open>
  A counting query agrees with the query it counts: where \<open>FIND\<close> with its \<open>WHERE\<close>, \<open>FROM\<close>, \<open>VIA\<close>,
  \<open>DEPTH\<close> and \<open>AS OF\<close> lists some rows, the same query with \<open>COUNT\<close> (and no \<open>RETURN\<close>) gives one row
  with their number, although it reads fewer columns.
\<close>

theorem ekl_count_agrees:
  assumes "execute V s ex X F M ast = Inr rows"
    and "ea_semantic ast = None" "\<not> ea_count ast" "ea_group_by ast = None" "ea_limit ast = None"
  shows "execute V s ex X F M (ast\<lparr>ea_count := True, ea_returns := []\<rparr>) =
    Inr [[''count'' \<mapsto> JNumber (no_of_nat M (length rows))]]"
proof -
  let ?ast = "ast\<lparr>ea_count := True, ea_returns := []\<rparr>"
  let ?w = "property_fields ast" and ?w' = "property_fields ?ast"
  obtain c where c: "candidate_rows V s ex X ast ?w = Inr c" using assms(1) by (cases "candidate_rows V s ex X ast ?w") (simp_all add: execute_def)
  have chk: "check_fields ast c = Inr ()"
  proof (cases "check_fields ast c")
    case (Inl e)
    then show ?thesis using assms(1) c by (simp add: execute_def)
  qed simp
  then have rows: "rows = finish_rows F M ast c" using assms(1) c by (simp add: execute_def)
  have len: "length rows = length (matching_rows F M ast c)"
    unfolding rows finish_rows_def using assms(3,5) by (simp add: Let_def limit_rows_def)
  obtain c' where c': "candidate_rows V s ex X ?ast ?w' = Inr c'" "list_all2 (row_alike ?w ?w') c c'"
    using candidate_rows_alike [OF assms(2), of ?w ?w' V s ex X "[]" True] c by (auto simp: rows_alike_def)
  have both: "f \<in> set ?w \<longleftrightarrow> f \<in> set ?w'" if "f \<in> set (checked_fields ast)" for f
    using that by (auto simp: property_fields_set named_fields_def checked_fields_def)
  have "length (matching_rows F M ast c) = length (matching_rows F M ?ast c')"
    by (rule matching_alike [OF c'(2)]) (use both in \<open>auto simp: checked_fields_def\<close>)
  moreover have "check_fields ?ast c' = Inr ()"
  proof (cases "c = []")
    case True
    then show ?thesis using c'(2) by (simp add: check_fields_ok)
  next
    case False
    then have old: "\<forall>f \<in> set (checked_fields ast). f \<in> set (builtin_columns (ea_entity ast)) \<or> (\<exists>r \<in> set c. r f \<noteq> None)"
      using chk assms(3) by (auto simp: check_fields_ok)
    have "\<forall>f \<in> set (checked_fields ast). f \<in> set (builtin_columns (ea_entity ast)) \<or> (\<exists>r \<in> set c'. r f \<noteq> None)"
    proof
      fix f assume f: "f \<in> set (checked_fields ast)"
      show "f \<in> set (builtin_columns (ea_entity ast)) \<or> (\<exists>r \<in> set c'. r f \<noteq> None)"
        using bspec [OF old f] list_all2_ex [OF c'(2) both [OF f]] by auto
    qed
    moreover have "checked_fields ?ast = checked_fields ast" by (simp add: checked_fields_def)
    ultimately show ?thesis by (auto simp: check_fields_ok)
  qed
  moreover have "finish_rows F M ?ast c' = [[''count'' \<mapsto> JNumber (no_of_nat M (length (matching_rows F M ?ast c')))]]"
    using assms(4,5) by (simp add: finish_rows_def aggregate_count_def limit_rows_def)
  ultimately show ?thesis using c'(1) len by (simp add: execute_def)
qed

section \<open>Groups\<close>

lemma count_keys_sorted: "bt_sorted c \<Longrightarrow> bt_sorted (count_keys ks c)"
  by (induction ks arbitrary: c) simp_all

lemma count_keys_map:
  "map_of (count_keys ks c) k =
     (if k \<in> set ks then Some (count_list ks k + (case map_of c k of None \<Rightarrow> 0 | Some n \<Rightarrow> n)) else map_of c k)"
proof (induction ks arbitrary: c)
  case (Cons a ks)
  show ?case by (simp add: Cons.IH map_of_bt_insert)
qed simp

text \<open>Grouped counting by a column other than the count: the groups in order of their keys.\<close>

lemma aggregate_groups:
  assumes "field \<noteq> ''count''"
  shows "aggregate_count M rows (Some field) = map (count_row M field) (count_keys (map (group_key M field) rows) [])"
proof -
  let ?c = "count_keys (map (group_key M field) rows) []"
  have "bt_sorted ?c" by (rule count_keys_sorted) simp
  then have "sorted (map fst ?c)" by (simp add: bt_sorted_def strict_sorted_imp_sorted)
  moreover have "map (\<lambda>r. value_to_string M (the (r field))) (map (count_row M field) ?c) = map fst ?c"
    using assms by (simp add: count_row_def)
  ultimately have "sorted (map (\<lambda>r. value_to_string M (the (r field))) (map (count_row M field) ?c))" by metis
  then show ?thesis by (simp add: aggregate_count_def sort_key_id)
qed

text \<open>
  C22: \<open>COUNT ... GROUP BY field\<close> (without a limit, by any column but \<open>count\<close>) partitions the rows that match:
  one row per distinct key, in ascending order of the keys, each with the number of matching rows of
  that key, so that the counts add up to the number of matching rows.
\<close>

theorem ekl_groups_partition:
  assumes "execute V s ex X F M ast = Inr rows" "candidate_rows V s ex X ast (property_fields ast) = Inr c"
    and "ea_count ast" "ea_group_by ast = Some field" "field \<noteq> ''count''" "ea_limit ast = None" "ea_order_by ast = None"
  shows "\<exists>groups. rows = map (count_row M field) groups \<and> sorted_wrt (<) (map fst groups) \<and>
    set (map fst groups) = group_key M field ` set (matching_rows F M ast c) \<and>
    (\<forall>(k, n) \<in> set groups. n = length (filter (\<lambda>r. group_key M field r = k) (matching_rows F M ast c))) \<and>
    sum_list (map snd groups) = length (matching_rows F M ast c)"
proof -
  let ?m = "matching_rows F M ast c" and ?ks = "map (group_key M field) (matching_rows F M ast c)"
  let ?g = "count_keys ?ks []"
  have "rows = finish_rows F M ast c"
    using assms(1,2) by (cases "check_fields ast c") (simp_all add: execute_def)
  then have rows: "rows = map (count_row M field) ?g"
    using assms(3-7) by (simp add: finish_rows_def limit_rows_def order_rows_def aggregate_groups)
  have srt: "bt_sorted ?g" by (rule count_keys_sorted) simp
  have map: "map_of ?g k = (if k \<in> set ?ks then Some (count_list ?ks k) else None)" for k by (simp add: count_keys_map)
  have mem: "(k, n) \<in> set ?g \<longleftrightarrow> k \<in> set ?ks \<and> n = count_list ?ks k" for k n
    using map_of_eq_Some_iff [OF bt_sorted_distinct [OF srt], of k n] map [of k]
    by (cases "k \<in> set ?ks") auto
  have keys: "set (map fst ?g) = set ?ks" using mem by force
  have cnt: "count_list ?ks k = length (filter (\<lambda>r. group_key M field r = k) ?m)" for k
    by (simp add: count_list_eq_length_filter filter_map comp_def eq_commute)
  have "sum_list (map snd ?g) = sum_list (map (count_list ?ks) (map fst ?g))"
    by (rule arg_cong [of _ _ sum_list]) (use mem in force)
  also have "\<dots> = sum (count_list ?ks) (set ?ks)"
    using sum_list_distinct_conv_sum_set [OF bt_sorted_distinct [OF srt], of "count_list ?ks"] keys by simp
  also have "\<dots> = length ?m" using sum_count_set [of ?ks "set ?ks"] by simp
  finally have "sum_list (map snd ?g) = length ?m" .
  moreover have "sorted_wrt (<) (map fst ?g)" using srt by (simp add: bt_sorted_def)
  moreover have "\<forall>(k, n) \<in> set ?g. n = length (filter (\<lambda>r. group_key M field r = k) ?m)" using mem cnt by auto
  ultimately show ?thesis using rows keys by (intro exI [of _ ?g]) simp
qed

text \<open>
  C21: A listing query returns exactly the candidates that satisfy every predicate, each projected to the
  columns asked for, with a null for a column it does not have: all of them without a limit, else the
  first so many, in the order of the scan or, with \<open>ORDER BY\<close> on a column of texts or a column of numbers,
  stably sorted: ascending, rows without it last, or with \<open>DESC\<close> the opposite.  (For a column of both see
  \<open>compare_rows_cycle\<close>.)
\<close>

theorem ekl_rows_exact:
  assumes "execute V s ex X F M ast = Inr rows" "candidate_rows V s ex X ast (property_fields ast) = Inr c" "\<not> ea_count ast"
    and "cols = (if ea_returns ast = [] then default_returns (ea_entity ast) else ea_returns ast)"
    and "found = filter (\<lambda>r. \<forall>p \<in> set (ea_predicates ast). eval_predicate F M r p) c"
  shows "\<exists>sorted_rows. mset sorted_rows = mset found \<and> rows = limit_rows (ea_limit ast) (map (\<lambda>r. project_row r cols) sorted_rows) \<and>
    (ea_order_by ast = None \<longrightarrow> sorted_rows = found) \<and>
    (\<forall>field. ea_order_by ast = Some (field, Asc) \<longrightarrow> text_column field found \<longrightarrow> sorted_rows = sort_key (text_key M field) found) \<and>
    (\<forall>field order. ea_order_by ast = Some (field, order) \<longrightarrow> orderable M field found \<longrightarrow>
       stably_sorted (directed order (row_before M field)) found sorted_rows) \<and>
    (\<forall>r \<in> set rows. dom r = set cols)"
proof -
  have found: "matching_rows F M ast c = found" by (simp add: assms(5) matching_rows_def list_all_iff)
  have rows: "rows = limit_rows (ea_limit ast) (map (\<lambda>r. project_row r cols) (order_rows M (ea_order_by ast) found))"
    using assms(1-4) by (cases "check_fields ast c") (simp_all add: execute_def finish_rows_def found Let_def)
  have sub: "set (limit_rows k xs) \<subseteq> set xs" for k and xs :: "'x list"
    by (cases k) (auto simp: limit_rows_def dest: in_set_takeD)
  have "dom (project_row r cols) = set cols" for r
    by (simp add: project_row_def dom_map_of_conv_image_fst image_image)
  then have "dom r = set cols" if "r \<in> set rows" for r
    using subsetD [OF sub that [unfolded rows]] by auto
  moreover have "order_rows M (ea_order_by ast) found = found" if "ea_order_by ast = None"
    using that by (simp add: order_rows_def)
  ultimately show ?thesis
    using rows by (intro exI [of _ "order_rows M (ea_order_by ast) found"]) (auto simp: order_rows_text intro: order_rows_sorted)
qed

section \<open>A store of two files\<close>

definition two_files :: "(unit, nat) knowledge_store" where
  "two_files = list_store [plain_file 1 ''a'', plain_file 2 ''b''] [] [] []"

definition plain_text :: row_text where
  "plain_text = \<lparr>rt_id = \<lambda>_. ''id'', rt_time = \<lambda>_. ''t''\<rparr>"

definition name_query :: "nat ekl_ast" where
  "name_query = (ekl_ast_new EObject)\<lparr>ea_predicates := [\<lparr>pd_field = ''name'', pd_op = OpEq, pd_value = LStr ''a''\<rparr>]\<rparr>"

definition plain_f64 :: "nat f64_ops" where
  "plain_f64 = \<lparr>f_parse = \<lambda>_. None, f_show = show_nat, f_to_u64 = id, f_to_u32 = id\<rparr>"

definition two_rows :: "nat ekl_row list" where
  "two_rows = map (object_row plain_text []) [plain_file 1 ''a'', plain_file 2 ''b'']"

lemma name_candidates:
  assumes "ea_as_of q = None" "ea_semantic q = None" "ea_from q = None" "ea_entity q = EObject"
  shows "candidate_rows two_files () {} plain_text q [] = Inr two_rows"
  using assms by (simp add: candidate_rows_def two_files_def list_store_def list_objects_def two_rows_def plain_file_def
      is_session_object_kind_def runtime_result_def map_ok_def)

lemma name_fields: "property_fields name_query = []" "property_fields (name_query\<lparr>ea_count := True, ea_group_by := Some ''name''\<rparr>) = []"
  by (simp_all add: property_fields_def named_fields_def name_query_def ekl_ast_new_def option_list_def builtin_columns_def
      OBJECT_COLUMNS_def)

lemma name_checked:
  "check_fields name_query two_rows = Inr ()"
  "check_fields (name_query\<lparr>ea_count := True, ea_group_by := Some ''name''\<rparr>) two_rows = Inr ()"
  by (simp_all add: check_fields_ok checked_fields_def name_query_def ekl_ast_new_def option_list_def builtin_columns_def
      OBJECT_COLUMNS_def)

lemma name_ast:
  "ea_as_of name_query = None" "ea_semantic name_query = None" "ea_from name_query = None" "ea_entity name_query = EObject"
  "\<not> ea_count name_query" "ea_group_by name_query = None" "ea_limit name_query = None" "ea_order_by name_query = None"
  by (simp_all add: name_query_def ekl_ast_new_def)

lemma name_execute:
  "execute two_files () {} plain_text plain_f64 decimal_num_ops name_query =
     Inr (finish_rows plain_f64 decimal_num_ops name_query two_rows)"
  by (simp add: execute_def name_fields name_candidates name_ast name_checked)

lemma name_matching: "length (matching_rows plain_f64 decimal_num_ops name_query two_rows) = 1"
  by (simp add: matching_rows_def two_rows_def name_query_def ekl_ast_new_def eval_predicate_def object_row_def
      add_properties_def plain_file_def)

theorem ekl_count_agrees_witness:
  "execute two_files () {} plain_text plain_f64 decimal_num_ops (name_query\<lparr>ea_count := True, ea_returns := []\<rparr>) =
     Inr [[''count'' \<mapsto> JNumber 1]]"
proof -
  have "length (finish_rows plain_f64 decimal_num_ops name_query two_rows) = 1"
    using name_matching by (simp add: finish_rows_def name_ast limit_rows_def Let_def)
  then show ?thesis
    using ekl_count_agrees [OF name_execute name_ast(2,5,6,7)] by (simp add: decimal_num_ops_def)
qed

theorem ekl_groups_partition_witness:
  "\<exists>groups. execute two_files () {} plain_text plain_f64 decimal_num_ops
       (name_query\<lparr>ea_count := True, ea_group_by := Some ''name''\<rparr>) =
     Inr (map (count_row decimal_num_ops ''name'') groups) \<and> sum_list (map snd groups) = 1"
proof -
  let ?q = "name_query\<lparr>ea_count := True, ea_group_by := Some ''name''\<rparr>"
  have c: "candidate_rows two_files () {} plain_text ?q (property_fields ?q) = Inr two_rows"
    unfolding name_fields by (rule name_candidates) (simp_all add: name_ast)
  have e: "execute two_files () {} plain_text plain_f64 decimal_num_ops ?q = Inr (finish_rows plain_f64 decimal_num_ops ?q two_rows)"
    by (simp add: execute_def c name_checked)
  have "length (matching_rows plain_f64 decimal_num_ops ?q two_rows) = 1" using name_matching by (simp add: matching_rows_def)
  then show ?thesis
    using ekl_groups_partition [OF e c, of "''name''"] e by (auto simp: name_ast)
qed

definition descending_query :: "nat ekl_ast" where
  "descending_query = (ekl_ast_new EObject)\<lparr>ea_order_by := Some (''name'', Desc)\<rparr>"

lemma descending_ast:
  "ea_as_of descending_query = None" "ea_semantic descending_query = None" "ea_from descending_query = None"
  "ea_entity descending_query = EObject" "\<not> ea_count descending_query" "ea_limit descending_query = None"
  "ea_order_by descending_query = Some (''name'', Desc)" "ea_returns descending_query = []" "ea_predicates descending_query = []"
  by (simp_all add: descending_query_def ekl_ast_new_def)

lemma two_rows_names:
  "mset ys = mset two_rows \<Longrightarrow> sorted_wrt (\<lambda>a b. \<not> directed Desc (row_before decimal_num_ops ''name'') b a) ys \<Longrightarrow>
     map (\<lambda>r. r ''name'') ys = [Some (JString ''b''), Some (JString ''a'')]"
proof -
  assume ys: "mset ys = mset two_rows" "sorted_wrt (\<lambda>a b. \<not> directed Desc (row_before decimal_num_ops ''name'') b a) ys"
  let ?a = "object_row plain_text [] (plain_file 1 ''a'' :: nat kir_object)" and ?b = "object_row plain_text [] (plain_file 2 ''b'' :: nat kir_object)"
  have names: "?a ''name'' = Some (JString ''a'')" "?b ''name'' = Some (JString ''b'')"
    by (simp_all add: object_row_def add_properties_def plain_file_def)
  have m: "mset ys = {# ?a, ?b #}" using ys(1) by (simp add: two_rows_def)
  have "length ys = 2" using arg_cong [OF m, of size] by simp
  then obtain x y where xy: "ys = [x, y]" by (auto simp: numeral_2_eq_2 length_Suc_conv)
  have "add_mset x {# y #} = add_mset ?a {# ?b #}" using m unfolding xy by simp
  then have "x = ?a \<and> y = ?b \<or> x = ?b \<and> y = ?a"
    unfolding add_eq_conv_ex by (elim disjE exE conjE) simp_all
  moreover have "row_before decimal_num_ops ''name'' ?a ?b" by (simp add: row_before_def names less_char_def)
  ultimately show ?thesis using ys(2) by (auto simp: xy directed_def names)
qed

theorem ekl_rows_exact_witness:
  "\<exists>rows. execute two_files () {} plain_text plain_f64 decimal_num_ops descending_query = Inr rows \<and>
     map (\<lambda>r. r ''name'') rows = [Some (JString ''b''), Some (JString ''a'')]"
proof -
  have fields: "property_fields descending_query = []"
    by (simp add: property_fields_def named_fields_def descending_query_def ekl_ast_new_def option_list_def builtin_columns_def
        OBJECT_COLUMNS_def)
  have c: "candidate_rows two_files () {} plain_text descending_query (property_fields descending_query) = Inr two_rows"
    unfolding fields by (rule name_candidates) (simp_all add: descending_ast)
  have checked: "check_fields descending_query two_rows = Inr ()"
    by (simp add: check_fields_ok checked_fields_def descending_query_def ekl_ast_new_def option_list_def builtin_columns_def
        OBJECT_COLUMNS_def)
  have run: "execute two_files () {} plain_text plain_f64 decimal_num_ops descending_query =
      Inr (finish_rows plain_f64 decimal_num_ops descending_query two_rows)"
    by (simp add: execute_def c checked)
  let ?found = "filter (\<lambda>r. \<forall>p \<in> set (ea_predicates descending_query). eval_predicate plain_f64 decimal_num_ops r p) two_rows"
  have found: "?found = two_rows" by (simp add: descending_ast)
  have "text_column ''name'' two_rows"
    by (auto simp: text_column_def two_rows_def object_row_def add_properties_def plain_file_def)
  then have col: "orderable decimal_num_ops ''name'' ?found" unfolding found by (simp add: orderable_def)
  let ?rows = "finish_rows plain_f64 decimal_num_ops descending_query two_rows"
  let ?cols = "if ea_returns descending_query = [] then default_returns (ea_entity descending_query) else ea_returns descending_query"
  obtain ys where ys: "?rows = limit_rows (ea_limit descending_query) (map (\<lambda>r. project_row r ?cols) ys)"
    "stably_sorted (directed Desc (row_before decimal_num_ops ''name'')) ?found ys"
    using ekl_rows_exact [OF run c descending_ast(5) refl refl] descending_ast(7) col by blast
  have "mset ys = mset two_rows" "sorted_wrt (\<lambda>a b. \<not> directed Desc (row_before decimal_num_ops ''name'') b a) ys"
    using ys(2) unfolding found by (simp_all add: stably_sorted_def)
  note names = two_rows_names [OF this]
  have "project_row r ?cols ''name'' = (case r ''name'' of None \<Rightarrow> Some JNull | Some v \<Rightarrow> Some v)" for r :: "nat ekl_row"
    by (simp add: project_row_def descending_ast default_returns_def split: option.splits)
  then have "map (\<lambda>r. r ''name'') ?rows = map (\<lambda>r. case r ''name'' of None \<Rightarrow> Some JNull | Some v \<Rightarrow> Some v) ys"
    by (simp add: ys(1) descending_ast limit_rows_def)
  also have "\<dots> = map (case_option (Some JNull) Some) (map (\<lambda>r. r ''name'') ys)" by simp
  also have "\<dots> = [Some (JString ''b''), Some (JString ''a'')]" unfolding names by simp
  finally have res: "map (\<lambda>r. r ''name'') ?rows = [Some (JString ''b''), Some (JString ''a'')]" .
  show ?thesis by (intro exI conjI, rule run, rule res)
qed

end
