(* ===== verification/Spec2Isabelle.thy ===== *)
theory Spec2Isabelle
  imports Partition_Properties Worker Pass_Run Migration Bisect
    Read_Scope_Facts Runtime_Trace Runtime_Walk Ekl_Text Ekl_Results
begin

text \<open>
  EKOS compiles knowledge about a software estate into an append-only ledger of facts, runs
  compiler passes over it, shares the work between workers through a coordinator, and drives
  database migrations whose every step is a ledger fact.  This development models the parts that
  the rest of the program trusts:

  \<^bold>\<open>The ledger\<close> (\<open>ekos/crates/ledger\<close>, \<open>segment-backend\<close>).
  \<open>Ekos_Prelude\<close> holds shared lemmas; \<open>Json\<close> the \<open>serde_json\<close> values; \<open>Fact\<close> models \<open>fact.rs\<close>
  (attribute registry, \<open>decompose\<close>, \<open>reconstruct\<close>, \<open>diff\<close>); \<open>Backend\<close> models
  \<open>segment-backend/src/lib.rs\<close> with the contract of the trait as a locale and both backends as
  interpretations; \<open>Segment\<close> models \<open>segment/mod.rs\<close> and \<open>segment/map.rs\<close> (frames, recovery on
  open, append, seal, refresh, verification); \<open>Index_Codec\<close>, \<open>Fold_State\<close> and \<open>Index\<close> model
  \<open>index.rs\<close> (keys, Bloom filter, blocks, run files, the index set, compaction); \<open>Fact_Ledger\<close>
  models \<open>fact_ledger.rs\<close> and \<open>provenance.rs\<close>.  \<open>Ledger_Refinement\<close> states the abstract ledger, a
  list of commits, and proves that every append refines it; \<open>Ledger_Properties\<close> has the read
  theorems over the abstraction, \<open>Index_Reopen\<close> and \<open>Ledger_Reopen\<close> what a restart or a crash leaves.
  \<open>Partition\<close> models \<open>partitioned/mod.rs\<close> with its types and trait implementations: one ledger per
  kind or source and time bucket, a catalog and an index of which ids are where.  \<open>Fact_Store\<close> makes
  the fact ledger an instance of the store interface, which the partitions are, and of the locale of
  laws that \<open>Partition_Facts\<close> rests on; \<open>Partition_Properties\<close> has its theorems.  They hold when no
  two partitions share a directory; the shipped naming of directories does not ensure that
  (\<open>default_roots_collide\<close>).

  \<^bold>\<open>Reading knowledge\<close> (\<open>ekos/crates/ledger\<close>, \<open>runtime\<close>, \<open>ekl\<close>).  \<open>Knowledge_Store\<close> is the interface
  every consumer reads through (the traits of \<open>ledger/src/lib.rs\<close>, a record of methods over a state)
  with the types of \<open>retrieval.rs\<close>; \<open>Read_Scope\<close> models \<open>scope.rs\<close>, the wrapper that filters every read
  by allow and deny rules, and \<open>Read_Scope_Facts\<close> proves that it shows exactly the visible part of the
  store through any sequence of calls, caches included.  \<open>Runtime_Graph\<close> models \<open>runtime/src/lib.rs\<close>:
  reads without session memory, the bounded neighbourhood, the impact trace, worlds;
  \<open>Runtime_Trace\<close> proves the trace an exact breadth-first search by an invariant on its queue,
  \<open>Runtime_Walk\<close> the neighbourhood closed and within its budget.  \<open>Ekl_Lexer\<close> and \<open>Ekl_Parser\<close> model the
  query language of \<open>ekl/src/parser.rs\<close> over UTF-8 bytes, \<open>Ekl_Text\<close> its round trip, \<open>Ekl_Interpreter\<close>
  models \<open>interpreter.rs\<close> over the runtime and \<open>Ekl_Results\<close> proves what a query returns.

  \<^bold>\<open>The cluster\<close> (\<open>ekos/crates/cluster\<close>).  \<open>Lease\<close> models \<open>lease.rs\<close> behind a locale of the laws
  its clients use; \<open>Coordinator\<close> models \<open>catalog.rs\<close>, \<open>protocol.rs\<close> and \<open>coordinator.rs\<close>
  (\<open>handle\<close> is the request handler, \<open>serve\<close> a stream of requests, \<open>cluster_step\<close> adds restarts);
  \<open>Worker\<close> models \<open>client.rs\<close> and \<open>worker.rs\<close>.

  \<^bold>\<open>The pass manager\<close> (\<open>ekos/crates/compiler-core\<close>).  \<open>Pass_Graph\<close> models the two schedulers of
  \<open>pass.rs\<close>; \<open>Pass_Run\<close> the sequential and parallel execution, \<open>scheduler.rs\<close>, \<open>cache.rs\<close> and
  \<open>compiler.rs\<close>.

  \<^bold>\<open>Migrations\<close> (\<open>ekos/crates/kir\<close>, \<open>migrate\<close>, \<open>migrate-approval\<close>).  \<open>Kir\<close> models the knowledge
  representation and its registry of kinds; \<open>Approval\<close> models risk classes, evidence snapshots,
  approval requests and the human-only lifecycle; \<open>Migration\<close> models the state machine of migration
  units, their transitions in the store, and two loops of \<open>cli/src/commands/migrate.rs\<close>.

  \<^bold>\<open>Validation\<close> (\<open>ekos/crates/migrate-validate\<close>), the tiers that decide whether a loaded table equals
  its source.  \<open>Canon\<close> models \<open>value.rs\<close> and \<open>canon.rs\<close>, the canonical text of a row, and proves on
  which rows it is injective; \<open>Checksum\<close> models \<open>hash.rs\<close>, bucket numbers and bucket checksums;
  \<open>Dialect\<close> models the query texts of \<open>dialect.rs\<close>; \<open>Tiers\<close> models \<open>reader.rs\<close>, \<open>divergence.rs\<close> and
  \<open>tiers.rs\<close>, the verdicts V0 to V3; \<open>Bisect\<close> models \<open>bisect.rs\<close>, the narrowing of a failed bucket
  and V4.  A database is a function from query texts to replies; \<open>serves_plan\<close> says it answers the
  plan's queries from one table of keys and row hashes, and \<open>engine_exists\<close> builds such an engine.
  \<open>Number_Text\<close> holds the decimal and hexadecimal texts these theories and the segment names use.

  \<^bold>\<open>Conventions.\<close>  A struct is a \<open>record\<close>, an enum a \<open>datatype\<close>, a \<open>Result\<close> a sum with the error on
  the left, a panic \<open>None\<close>; a method on \<open>&mut self\<close> returns the new state.  A string is the list of
  its bytes.  A uuid is a 128-bit word, a lease token a 64-bit word that wraps; transaction numbers
  are \<open>nat\<close>.  A directory is a map from names to bytes (for the coordinator: to an abstract
  content).  JSON numbers are a type parameter.  What lies outside the repository is a parameter:
  \<open>serde\<close> text, \<open>zstd\<close>, SHA-256, CRC, uuid text and name-based uuids, with the round-trip or
  no-collision behaviour a theorem needs as a named hypothesis (\<open>seg_codec_ok\<close>, \<open>id_text_ok\<close>,
  \<open>inj\<close>), each discharged by a concrete instance in a witness.  The iteration order of a hash map
  is a parameter where it can be observed (\<open>le_order\<close>, \<open>bucket\<close>).  I/O failures are explicit: crash
  points and torn tails in the segment store, \<open>io_outcome\<close> for the coordinator, \<open>io\<close> for cache
  manifests, lost requests and replies (\<open>net\<close>) for workers, refused calls (\<open>me_fault\<close>) for the store
  of the migration units.

  \<^bold>\<open>Lemma groups.\<close>  Each component theory first proves its invariant and that every operation keeps
  it, then the exact result of each operation, then the properties, whose text blocks carry a claim
  number.  The reads of the ledger rest on \<open>rep\<close>, the relation between a handle with its directory
  and the abstract history.  The schedulers rest on \<open>grounded\<close>, the passes all of whose dependencies
  can be run.  The lease theorems rest on the facts of the interpretation \<open>ls\<close>.

  \<^bold>\<open>Bounds.\<close>  There is no fuel: every loop is a total function (Kahn's algorithm by the sum of the
  remaining degrees, \<open>identity_of\<close> and the parsers by the length of the input, frame scanning by the
  remaining bytes, the bisection by the rounds the policy still allows, as the code counts them).
  Theorems about lease tokens assume fewer than \<open>2^64\<close> requests; bucket numbers are 32-bit and row
  counts 64-bit words in the validation tiers, whose theorems state the bound; the others have none.

  \<^bold>\<open>Not modelled.\<close>  The SQLite ledger and the full-text and vector indexes (SQL text and an
  external search engine); of the partitioned ledger its \<open>retrieve\<close>, \<open>vacuum_into\<close> and the publishing
  to a remote backend; locks and threads inside one process; branch copies
  and the publishing of the search directory; source-language analyzers, semantic passes, LLM
  orchestration, document generators, evaluation harness, database connectors and the rest of the
  command line (I/O, prompts, floating point and external parsers).  In \<open>Migration\<close>
  \<open>trim\<close> knows only ASCII white space; projects, profiles and drift are left out.  In the
  validation tiers the rendering of a column as SQL (\<open>canon_expr\<close>) is a parameter, and so are
  SHA-256 and the texts of dates and uuids.
\<close>

end
